(* ===== verification/JS_Prelude.thy ===== *)
theory JS_Prelude
  imports Main "HOL-Library.Word"
begin

text \<open>
  Shared vocabulary of the development: the names of the C integer types, the fact
  collections the components extend, and the generic lemmas on words, lists and options
  that more than one component uses.
\<close>

unbundle bit_operations_syntax

section \<open>C integer types\<close>

type_synonym u8 = "8 word"
type_synonym u16 = "16 word"
type_synonym u32 = "32 word"
type_synonym u64 = "64 word"

text \<open>
  \<open>JS_BIT(n)\<close> and \<open>JS_BITMASK(n)\<close> of jstypes.h, at the width of \<open>JSUint32\<close>.
\<close>

definition JS_BIT :: "nat \<Rightarrow> u32" where
  "JS_BIT n = push_bit n 1"

definition JS_BITMASK :: "nat \<Rightarrow> u32" where
  "JS_BITMASK n = JS_BIT n - 1"

section \<open>Fact collections\<close>

named_theorems word_to_nat \<open>read a word operation as an operation on natural numbers\<close>

section \<open>Words\<close>

lemma unat_drop_bit_div [word_to_nat]: "unat (drop_bit n w) = unat w div 2 ^ n"
  for w :: "'a::len word"
  by (metis drop_bit_eq_div unat_drop_bit_eq)

lemma unat_take_bit: "unat (take_bit n w) = unat w mod 2 ^ n" for w :: "'a::len word"
  by (metis take_bit_eq_mod unsigned_take_bit_eq)

lemma unat_push_bit_one [word_to_nat]:
  assumes "n < LENGTH('a)" shows "unat (push_bit n (1 :: 'a::len word)) = 2 ^ n"
proof -
  have "unat (push_bit n (1 :: 'a word)) = take_bit LENGTH('a) (push_bit n (unat (1 :: 'a word)))"
    by (rule unsigned_push_bit_eq)
  also have "\<dots> = 2 ^ n mod 2 ^ LENGTH('a)" by (simp add: take_bit_eq_mod push_bit_eq_mult)
  finally show ?thesis using assms by simp
qed

lemma unat_JS_BIT [word_to_nat]: "n < 32 \<Longrightarrow> unat (JS_BIT n) = 2 ^ n"
  unfolding JS_BIT_def by (rule unat_push_bit_one) simp

lemma JS_BITMASK_eq_mask: "n < 32 \<Longrightarrow> JS_BITMASK n = mask n"
  by (simp add: JS_BITMASK_def JS_BIT_def mask_eq_decr_exp push_bit_eq_mult)

lemma bit_unat [word_to_nat]: "bit w n \<longleftrightarrow> odd (unat w div 2 ^ n)"
  for w :: "'a::len word"
proof -
  have "bit w n \<longleftrightarrow> bit (unat w) n"
    by (auto simp: bit_unsigned_iff)
  then show ?thesis by (simp add: bit_iff_odd)
qed

lemma word_neq_0_unat: "w \<noteq> 0 \<longleftrightarrow> 0 < unat w"
  for w :: "'a::len word"
  by (simp add: unat_gt_0)

lemma drop_bit_neq_0_iff: "drop_bit n w \<noteq> 0 \<longleftrightarrow> 2 ^ n \<le> unat w"
  for w :: "'a::len word"
  by (metis div_eq_0_iff not_less power_eq_0_iff unat_drop_bit_div unat_eq_zero zero_neq_numeral)

lemma unat_add_exact: "unat a + unat b < 2 ^ LENGTH('a) \<Longrightarrow> unat (a + b) = unat a + unat b"
  for a b :: "'a::len word"
  by (simp add: unat_word_ariths)

lemma unat_mult_exact: "unat a * unat b < 2 ^ LENGTH('a) \<Longrightarrow> unat (a * b) = unat a * unat b"
  for a b :: "'a::len word"
  by (simp add: unat_word_ariths)

lemma unat_sub_exact: "unat b \<le> unat a \<Longrightarrow> unat (a - b) = unat a - unat b"
  for a b :: "'a::len word"
  by (simp add: unat_sub word_le_nat_alt)

lemma unat_inc_exact: "Suc (unat a) < 2 ^ LENGTH('a) \<Longrightarrow> unat (a + 1) = Suc (unat a)"
  for a :: "'a::len word"
  using unat_add_exact [of a 1] by simp

lemma unat_dec_exact: "a \<noteq> 0 \<Longrightarrow> unat (a - 1) = unat a - 1"
  for a :: "'a::len word"
  by (simp add: unat_minus_one)

lemma unat_dec_less: "a \<noteq> 0 \<Longrightarrow> unat (a - 1) < unat a"
  for a :: "'a::len word"
  using unat_dec_exact [of a] unat_gt_0 [of a] by simp

lemma sint_nonneg: "unat w < 2 ^ 31 \<Longrightarrow> 0 \<le> sint w" for w :: u32
  by (simp add: sint_uint bit_uint_iff bit_unat)

lemma unat_ucast_up:
  assumes "LENGTH('a) \<le> LENGTH('b)"
  shows "unat (ucast (w :: 'a::len word) :: 'b::len word) = unat w"
proof -
  have "unat w < 2 ^ LENGTH('a)" by (rule unsigned_less)
  also have "(2::nat) ^ LENGTH('a) \<le> 2 ^ LENGTH('b)" using assms by (rule power_increasing) simp
  finally show ?thesis by (simp add: unsigned_ucast_eq take_bit_eq_mod)
qed

lemma ucast_up_down:
  assumes "LENGTH('a) \<le> LENGTH('b)"
  shows "ucast (ucast (w :: 'a::len word) :: 'b::len word) = w"
  using assms by (intro bit_word_eqI) (simp add: bit_unsigned_iff)

section \<open>Lists\<close>

lemma length_filter_update:
  "i < length xs \<Longrightarrow>
     length (filter P (xs[i := x])) + (if P (xs ! i) then 1 else 0) =
     length (filter P xs) + (if P x then 1 else 0)"
proof (induction xs arbitrary: i)
  case (Cons y ys)
  then show ?case by (cases i) auto
qed simp

lemma length_filter_ex: "length (filter P xs) < length xs \<Longrightarrow> \<exists>i<length xs. \<not> P (xs ! i)"
  by (metis filter_True in_set_conv_nth less_irrefl)

section \<open>Errors\<close>

text \<open>Going on with a result unless there is an error.\<close>

definition bind_sum :: "'e + 'a \<Rightarrow> ('a \<Rightarrow> 'e + 'b) \<Rightarrow> 'e + 'b" where
  "bind_sum m f = (case m of Inl e \<Rightarrow> Inl e | Inr a \<Rightarrow> f a)"

lemma bind_sum_simps [simp]:
  "bind_sum (Inl e) f = Inl e" "bind_sum (Inr a) f = f a"
  by (simp_all add: bind_sum_def)

lemma bind_sum_eq_Inr: "bind_sum m f = Inr b \<longleftrightarrow> (\<exists>a. m = Inr a \<and> f a = Inr b)"
  by (cases m) auto

lemma bind_sum_eq_Inl: "bind_sum m f = Inl e \<longleftrightarrow> m = Inl e \<or> (\<exists>a. m = Inr a \<and> f a = Inl e)"
  by (cases m) auto

section \<open>Options\<close>

lemma option_eqI: "(\<And>b. x = Some b \<longleftrightarrow> y = Some b) \<Longrightarrow> x = y"
  by (cases x; cases y) auto

end
