(* ===== verification/JS_Bits.thy ===== *)
theory JS_Bits
  imports JS_Prelude
begin

text \<open>
  Bit-level logarithms: js/src/jslog2.c and the macros of js/src/jsbit.h. Both functions
  peel 16, 8, 4, 2 and 1 bits off the argument; one such peeling step is \<open>log2_step\<close>.
\<close>

section \<open>The functions\<close>

text \<open>One line \<open>if (n >> s) log2 += s, n >>= s;\<close> of both functions.\<close>

definition log2_step :: "nat \<Rightarrow> nat \<times> u32 \<Rightarrow> nat \<times> u32" where
  "log2_step s = (\<lambda>(log2, n). if drop_bit s n \<noteq> 0 then (log2 + s, drop_bit s n) else (log2, n))"

definition JS_CeilingLog2 :: "u32 \<Rightarrow> nat" where
  "JS_CeilingLog2 n =
     (let log2 = (if n AND (n - 1) \<noteq> 0 then 1 else 0);
          (log2, n) = log2_step 16 (log2, n);
          (log2, n) = log2_step 8 (log2, n);
          (log2, n) = log2_step 4 (log2, n);
          (log2, n) = log2_step 2 (log2, n)
      in if drop_bit 1 n \<noteq> 0 then log2 + 1 else log2)"

definition JS_FloorLog2 :: "u32 \<Rightarrow> nat" where
  "JS_FloorLog2 n =
     (let log2 = 0;
          (log2, n) = log2_step 16 (log2, n);
          (log2, n) = log2_step 8 (log2, n);
          (log2, n) = log2_step 4 (log2, n);
          (log2, n) = log2_step 2 (log2, n)
      in if drop_bit 1 n \<noteq> 0 then log2 + 1 else log2)"

section \<open>Peeling bits\<close>

text \<open>
  \<open>peeled b N l n\<close>: after \<open>l\<close> bits were peeled off \<open>N\<close>, the rest \<open>n\<close> is not zero and
  fits in \<open>b\<close> bits.
\<close>

definition peeled :: "nat \<Rightarrow> u32 \<Rightarrow> nat \<Rightarrow> u32 \<Rightarrow> bool" where
  "peeled b N l n \<longleftrightarrow> n = drop_bit l N \<and> n \<noteq> 0 \<and> unat n < 2 ^ b"

lemma peeled_start: "N \<noteq> 0 \<Longrightarrow> peeled 32 N 0 N"
  using unsigned_less [of N, where 'a = nat] by (simp add: peeled_def)

lemma peeled_step:
  assumes "peeled (2 * s) N l n" and "log2_step s (l0 + l, n) = (l0 + l', n')" 
  shows "peeled s N l' n'"
proof (cases "drop_bit s n \<noteq> 0")
  case True
  have "unat n < 2 ^ s * 2 ^ s"
    using assms(1) unfolding peeled_def by (metis mult_2 power_add)
  then have "unat n div 2 ^ s < 2 ^ s"
    by (simp add: div_less_iff_less_mult)
  moreover have "unat n' = unat n div 2 ^ s"
    using True assms(2) by (auto simp: log2_step_def unat_drop_bit_div)
  ultimately show ?thesis
    using True assms by (auto simp: peeled_def log2_step_def drop_bit_drop_bit add.commute)
next
  case False
  then have "unat n < 2 ^ s" by (metis drop_bit_neq_0_iff not_le)
  with False assms show ?thesis by (auto simp: peeled_def log2_step_def)
qed

lemma log2_step_shift: "log2_step s (l0 + l, n) = (l0 + fst (log2_step s (l, n)), snd (log2_step s (l, n)))"
  by (simp add: log2_step_def)

lemma peeled_one: "peeled 1 N l n \<Longrightarrow> unat N div 2 ^ l = 1"
  by (metis One_nat_def less_2_cases peeled_def power_one_right unat_drop_bit_div unat_eq_zero)

lemma div_pow_one: "(N :: nat) div 2 ^ l = 1 \<Longrightarrow> 2 ^ l \<le> N \<and> N < 2 ^ Suc l"
  using div_less_iff_less_mult [of "2 ^ l" N 2] less_eq_div_iff_mult_less_eq [of "2 ^ l" 1 N] by simp

lemma peeled_log:
  assumes "peeled 1 N l n" shows "2 ^ l \<le> unat N" and "unat N < 2 ^ Suc l"
  using div_pow_one [OF peeled_one [OF assms]] by simp_all

text \<open>The five peeling steps of both functions, from an accumulator \<open>l0\<close>.\<close>

lemma log2_steps_correct:
  assumes "N \<noteq> 0"
    and "log2_step 16 (l0, N) = (l1, n1)" and "log2_step 8 (l1, n1) = (l2, n2)"
    and "log2_step 4 (l2, n2) = (l3, n3)" and "log2_step 2 (l3, n3) = (l4, n4)"
  obtains l where "(if drop_bit 1 n4 \<noteq> 0 then l4 + 1 else l4) = l0 + l"
    and "2 ^ l \<le> unat N" and "unat N < 2 ^ Suc l"
proof -
  have step: "\<exists>k'. a = l0 + k' \<and> peeled s N k' m'"
    if "peeled (2 * s) N k m" and "log2_step s (l0 + k, m) = (a, m')" for s k m a m'
    using peeled_step [OF that(1)] that(2)
    by (metis Pair_inject log2_step_shift prod.collapse)
  from step [of 16 0 N l1 n1] assms peeled_start [OF assms(1)]
  obtain k1 where k1: "l1 = l0 + k1" "peeled 16 N k1 n1" by auto
  from step [of 8 k1 n1 l2 n2] assms k1
  obtain k2 where k2: "l2 = l0 + k2" "peeled 8 N k2 n2" by auto
  from step [of 4 k2 n2 l3 n3] assms k2
  obtain k3 where k3: "l3 = l0 + k3" "peeled 4 N k3 n3" by auto
  from step [of 2 k3 n3 l4 n4] assms k3
  obtain k4 where k4: "l4 = l0 + k4" "peeled 2 N k4 n4" by auto
  obtain a m' where am: "log2_step 1 (l0 + k4, n4) = (a, m')" by fastforce
  from step [of 1 k4 n4 a m'] am k4
  obtain k5 where "a = l0 + k5" "peeled 1 N k5 m'" by auto
  moreover have "(if drop_bit 1 n4 \<noteq> 0 then l4 + 1 else l4) = a"
    using am k4 by (auto simp: log2_step_def split: if_splits)
  ultimately show thesis using that peeled_log by metis
qed

section \<open>Correctness\<close>

text \<open>
  \<open>JS_FloorLog2\<close> is the position of the highest set bit, as its comment says; at 0 it is 0.
\<close>

lemma JS_FloorLog2_bounds:
  assumes "n \<noteq> 0"
  shows "2 ^ JS_FloorLog2 n \<le> unat n \<and> unat n < 2 ^ Suc (JS_FloorLog2 n)"
proof -
  obtain l1 n1 where 1: "log2_step 16 (0, n) = (l1, n1)" by fastforce
  obtain l2 n2 where 2: "log2_step 8 (l1, n1) = (l2, n2)" by fastforce
  obtain l3 n3 where 3: "log2_step 4 (l2, n2) = (l3, n3)" by fastforce
  obtain l4 n4 where 4: "log2_step 2 (l3, n3) = (l4, n4)" by fastforce
  have "JS_FloorLog2 n = (if drop_bit 1 n4 \<noteq> 0 then l4 + 1 else l4)"
    unfolding JS_FloorLog2_def Let_def 1 2 3 4 case_prod_conv by (rule refl)
  with log2_steps_correct [OF assms 1 2 3 4] show ?thesis by (metis add_0)
qed

text \<open>The test \<open>n & (n-1)\<close> holds exactly when \<open>n\<close> is not a power of two.\<close>

lemma bit_top:
  fixes n :: u32
  assumes "2 ^ l \<le> unat n" and "unat n < 2 ^ Suc l"
  shows "bit n l"
proof -
  have "unat n div 2 ^ l = 1"
    using assms less_eq_div_iff_mult_less_eq [of "2 ^ l" 1 "unat n"]
      div_less_iff_less_mult [of "2 ^ l" "unat n" 2] by simp
  then show ?thesis by (simp add: bit_unat)
qed

lemma and_dec_zero_power:
  fixes n :: u32
  assumes "n AND (n - 1) = 0" and "2 ^ l \<le> unat n" and "unat n < 2 ^ Suc l"
  shows "unat n = 2 ^ l"
proof (rule ccontr)
  assume ne: "unat n \<noteq> 2 ^ l"
  then have "n \<noteq> 0" using assms(2) by (metis le_zero_eq power_not_zero unat_0 zero_neq_numeral)
  then have "unat (n - 1) = unat n - 1" by (rule unat_dec_exact)
  then have "2 ^ l \<le> unat (n - 1)" and "unat (n - 1) < 2 ^ Suc l"
    using ne assms(2,3) by linarith+
  then have "bit (n - 1) l" by (rule bit_top)
  moreover have "bit n l" using assms(2,3) by (rule bit_top)
  ultimately have "bit (n AND (n - 1)) l" by (simp add: bit_and_iff)
  with assms(1) show False by simp
qed

lemma power_and_dec_zero:
  fixes n :: u32
  assumes "unat n = 2 ^ l"
  shows "n AND (n - 1) = 0"
proof -
  have "n \<noteq> 0" using assms by (metis power_not_zero unat_0 zero_neq_numeral)
  have "(2::nat) ^ l < 2 ^ 32" using assms unsigned_less [of n, where 'a = nat] by simp
  then have "l < 32" by (rule power_less_imp_less_exp [rotated]) simp
  then have n: "n = push_bit l 1"
    using assms unat_push_bit_one [of l, where 'a = 32] by (simp add: word_unat_eq_iff)
  then have "n - 1 = mask l" by (simp add: mask_eq_decr_exp push_bit_eq_mult)
  moreover have "push_bit l (1 :: u32) AND mask l = 0"
    by (rule bit_word_eqI) (auto simp: bit_and_iff bit_push_bit_iff bit_mask_iff simp del: push_bit_of_1)
  ultimately show ?thesis using n by metis
qed

text \<open>\<open>JS_CeilingLog2\<close> is the least power of two not below its argument.\<close>

lemma JS_CeilingLog2_bounds:
  assumes "n \<noteq> 0"
  shows "unat n \<le> 2 ^ JS_CeilingLog2 n \<and> (\<forall>m. unat n \<le> 2 ^ m \<longrightarrow> JS_CeilingLog2 n \<le> m)"
proof -
  define l0 :: nat where "l0 = (if n AND (n - 1) \<noteq> 0 then 1 else 0)"
  obtain l1 n1 where 1: "log2_step 16 (l0, n) = (l1, n1)" by fastforce
  obtain l2 n2 where 2: "log2_step 8 (l1, n1) = (l2, n2)" by fastforce
  obtain l3 n3 where 3: "log2_step 4 (l2, n2) = (l3, n3)" by fastforce
  obtain l4 n4 where 4: "log2_step 2 (l3, n3) = (l4, n4)" by fastforce
  have "JS_CeilingLog2 n = (if drop_bit 1 n4 \<noteq> 0 then l4 + 1 else l4)"
    unfolding JS_CeilingLog2_def Let_def l0_def [symmetric] 1 2 3 4 case_prod_conv by (rule refl)
  then obtain l where l: "JS_CeilingLog2 n = l0 + l" "2 ^ l \<le> unat n" "unat n < 2 ^ Suc l"
    using log2_steps_correct [OF assms 1 2 3 4] by metis
  show ?thesis
  proof (cases "unat n = 2 ^ l")
    case True
    then have "l0 = 0" by (simp add: l0_def power_and_dec_zero)
    with True l(1) show ?thesis by simp
  next
    case False
    then have "l0 = 1" using and_dec_zero_power [OF _ l(2,3)] by (auto simp: l0_def)
    moreover have "Suc l \<le> m" if "unat n \<le> 2 ^ m" for m
    proof -
      have "(2::nat) ^ l < 2 ^ m" using that l(2) False by linarith
      then show ?thesis by (simp add: Suc_le_eq)
    qed
    ultimately show ?thesis using l(1,3) by simp
  qed
qed

end
