(* ===== verification/JS_DHash.thy ===== *)
theory JS_DHash
  imports JS_Bits
begin

text \<open>
  The double-hashing table of js/src/jsdhash.c and jsdhash.h: entry headers with the
  reserved codes 0 (free) and 1 (removed), the collision flag in bit 0, the probe sequence,
  the growing, shrinking and compressing \<open>ChangeTable\<close>, and the public operations. The
  virtual operations of \<open>JSDHashTableOps\<close> are a record argument; \<open>allocTable\<close> is the
  argument \<open>am\<close>, which says whether a request for that many bytes succeeds.
\<close>

section \<open>Data\<close>

datatype dh_op = JS_DHASH_LOOKUP | JS_DHASH_ADD | JS_DHASH_REMOVE

record 'e dh_entry =
  keyHash :: u32
  body :: 'e

record ('k, 'e) dh_ops =
  getKey :: "'e \<Rightarrow> 'k"
  hashKey :: "'k \<Rightarrow> u32"
  matchEntry :: "'e \<Rightarrow> 'k \<Rightarrow> bool"
  moveEntry :: "'e \<Rightarrow> 'e"
  clearEntry :: "'e \<Rightarrow> 'e"
  initEntry :: "('e \<Rightarrow> 'k \<Rightarrow> 'e option) option"
  zeroBody :: 'e

record 'e dh_table =
  hashShift :: int
  maxAlphaFrac :: u8
  minAlphaFrac :: u8
  entrySize :: u32
  entryCount :: u32
  removedCount :: u32
  generation :: u32
  entryStore :: "'e dh_entry list"

definition JS_DHASH_MIN_SIZE :: u32 where "JS_DHASH_MIN_SIZE = 16"

definition JS_DHASH_SIZE_LIMIT :: u32 where "JS_DHASH_SIZE_LIMIT = JS_BIT 24"

definition JS_DHASH_GOLDEN_RATIO :: u32 where "JS_DHASH_GOLDEN_RATIO = 0x9E3779B9"

definition COLLISION_FLAG :: u32 where "COLLISION_FLAG = 1"

definition JS_DHASH_TABLE_SIZE :: "'e dh_table \<Rightarrow> u32" where
  "JS_DHASH_TABLE_SIZE t = JS_BIT (nat (32 - hashShift t))"

definition ENTRY_IS_FREE :: "'e dh_entry \<Rightarrow> bool" where
  "ENTRY_IS_FREE e \<longleftrightarrow> keyHash e = 0"

definition ENTRY_IS_REMOVED :: "'e dh_entry \<Rightarrow> bool" where
  "ENTRY_IS_REMOVED e \<longleftrightarrow> keyHash e = 1"

definition ENTRY_IS_LIVE :: "'e dh_entry \<Rightarrow> bool" where
  "ENTRY_IS_LIVE e \<longleftrightarrow> 2 \<le> keyHash e"

definition ENSURE_LIVE_KEYHASH :: "u32 \<Rightarrow> u32" where
  "ENSURE_LIVE_KEYHASH hash0 = (if hash0 < 2 then hash0 - 2 else hash0)"

definition MATCH_ENTRY_KEYHASH :: "'e dh_entry \<Rightarrow> u32 \<Rightarrow> bool" where
  "MATCH_ENTRY_KEYHASH e hash0 \<longleftrightarrow> keyHash e AND NOT COLLISION_FLAG = hash0"

definition HASH1 :: "u32 \<Rightarrow> nat \<Rightarrow> u32" where
  "HASH1 hash0 shift = drop_bit shift hash0"

definition HASH2 :: "u32 \<Rightarrow> nat \<Rightarrow> nat \<Rightarrow> u32" where
  "HASH2 hash0 lg shift = drop_bit shift (push_bit lg hash0) OR 1"

definition MAX_LOAD :: "'e dh_table \<Rightarrow> u32 \<Rightarrow> u32" where
  "MAX_LOAD t sz = drop_bit 8 (ucast (maxAlphaFrac t) * sz)"

definition MIN_LOAD :: "'e dh_table \<Rightarrow> u32 \<Rightarrow> u32" where
  "MIN_LOAD t sz = drop_bit 8 (ucast (minAlphaFrac t) * sz)"

text \<open>The key hash every operation starts from: never 0 or 1, bit 0 clear.\<close>

definition key_hash :: "('k, 'e) dh_ops \<Rightarrow> 'k \<Rightarrow> u32" where
  "key_hash ops key =
     ENSURE_LIVE_KEYHASH (hashKey ops key * JS_DHASH_GOLDEN_RATIO) AND NOT COLLISION_FLAG"

section \<open>Operations\<close>

text \<open>
  \<open>SearchTable\<close>: the first probe, and the \<open>for (;;)\<close> loop, which does not return when no
  entry of the probe sequence is free or matches. The result is the entry store (adding sets
  collision flags on the way) and the index of the entry.
\<close>

partial_function (option) search_loop ::
  "('k, 'e) dh_ops \<Rightarrow> 'k \<Rightarrow> u32 \<Rightarrow> dh_op \<Rightarrow> u32 \<Rightarrow> u32 \<Rightarrow> u32 \<Rightarrow> nat option \<Rightarrow>
     'e dh_entry list \<Rightarrow> ('e dh_entry list \<times> nat) option" where
  "search_loop ops key kh op hash2 sizeMask hash1 firstRemoved store =
     (let hash1 = (hash1 - hash2) AND sizeMask;
          entry = store ! unat hash1
      in if ENTRY_IS_FREE entry then
           Some (store, case firstRemoved of
                          Some r \<Rightarrow> if op = JS_DHASH_ADD then r else unat hash1
                        | None \<Rightarrow> unat hash1)
         else if MATCH_ENTRY_KEYHASH entry kh \<and> matchEntry ops (body entry) key then
           Some (store, unat hash1)
         else if ENTRY_IS_REMOVED entry then
           search_loop ops key kh op hash2 sizeMask hash1
             (case firstRemoved of None \<Rightarrow> Some (unat hash1) | Some r \<Rightarrow> Some r) store
         else
           search_loop ops key kh op hash2 sizeMask hash1 firstRemoved
             (if op = JS_DHASH_ADD
              then store[unat hash1 := entry\<lparr>keyHash := keyHash entry OR COLLISION_FLAG\<rparr>]
              else store))"

declare search_loop.simps [code]

definition SearchTable ::
  "('k, 'e) dh_ops \<Rightarrow> 'e dh_table \<Rightarrow> 'k \<Rightarrow> u32 \<Rightarrow> dh_op \<Rightarrow> ('e dh_table \<times> nat) option" where
  "SearchTable ops t key kh op =
     (let shift = nat (hashShift t);
          hash1 = HASH1 kh shift;
          store = entryStore t;
          entry = store ! unat hash1
      in if ENTRY_IS_FREE entry then Some (t, unat hash1)
         else if MATCH_ENTRY_KEYHASH entry kh \<and> matchEntry ops (body entry) key then
           Some (t, unat hash1)
         else
           let sizeLog2 = nat (32 - hashShift t);
               hash2 = HASH2 kh sizeLog2 shift;
               sizeMask = JS_BITMASK sizeLog2
           in map_option (\<lambda>(st, i). (t\<lparr>entryStore := st\<rparr>, i))
                (if ENTRY_IS_REMOVED entry then
                   search_loop ops key kh op hash2 sizeMask hash1 (Some (unat hash1)) store
                 else
                   search_loop ops key kh op hash2 sizeMask hash1 None
                     (if op = JS_DHASH_ADD
                      then store[unat hash1 := entry\<lparr>keyHash := keyHash entry OR COLLISION_FLAG\<rparr>]
                      else store)))"

text \<open>The loop of \<open>ChangeTable\<close> that copies the live entries into the new store.\<close>

fun copy_entries ::
  "('k, 'e) dh_ops \<Rightarrow> 'e dh_entry list \<Rightarrow> 'e dh_table \<Rightarrow> 'e dh_table option" where
  "copy_entries ops [] t = Some t"
| "copy_entries ops (e # es) t =
     (if ENTRY_IS_LIVE e then
        (let kh = keyHash e AND NOT COLLISION_FLAG
         in case SearchTable ops t (getKey ops (body e)) kh JS_DHASH_ADD of
              None \<Rightarrow> None
            | Some (t', i) \<Rightarrow>
                copy_entries ops es
                  (t'\<lparr>entryStore :=
                        (entryStore t')[i := \<lparr>keyHash = kh, body = moveEntry ops (body e)\<rparr>]\<rparr>))
      else copy_entries ops es t)"

definition ChangeTable ::
  "('k, 'e) dh_ops \<Rightarrow> (u32 \<Rightarrow> bool) \<Rightarrow> 'e dh_table \<Rightarrow> int \<Rightarrow> (bool \<times> 'e dh_table) option" where
  "ChangeTable ops am t deltaLog2 =
     (let oldLog2 = 32 - hashShift t;
          newLog2 = oldLog2 + deltaLog2;
          oldCapacity = JS_BIT (nat oldLog2);
          newCapacity = JS_BIT (nat newLog2);
          nbytes = newCapacity * entrySize t
      in if JS_DHASH_SIZE_LIMIT \<le> newCapacity then Some (False, t)
         else if \<not> am nbytes then Some (False, t)
         else map_option (Pair True)
                (copy_entries ops (take (unat oldCapacity) (entryStore t))
                   (t\<lparr>hashShift := 32 - newLog2, removedCount := 0,
                      generation := generation t + 1,
                      entryStore :=
                        replicate (unat newCapacity) \<lparr>keyHash = 0, body = zeroBody ops\<rparr>\<rparr>)))"

definition JS_DHashTableRawRemove :: "('k, 'e) dh_ops \<Rightarrow> 'e dh_table \<Rightarrow> nat \<Rightarrow> 'e dh_table" where
  "JS_DHashTableRawRemove ops t i =
     (let entry = entryStore t ! i;
          cleared = clearEntry ops (body entry);
          t = (if keyHash entry AND COLLISION_FLAG \<noteq> 0
               then t\<lparr>entryStore := (entryStore t)[i := \<lparr>keyHash = 1, body = cleared\<rparr>],
                      removedCount := removedCount t + 1\<rparr>
               else t\<lparr>entryStore := (entryStore t)[i := \<lparr>keyHash = 0, body = cleared\<rparr>]\<rparr>)
      in t\<lparr>entryCount := entryCount t - 1\<rparr>)"

text \<open>
  \<open>JS_DHashTableOperate\<close>. The second component of the result is the returned entry, by its
  index; \<open>None\<close> there is the null pointer.
\<close>

definition operate_add ::
  "('k, 'e) dh_ops \<Rightarrow> 'e dh_table \<Rightarrow> 'k \<Rightarrow> u32 \<Rightarrow> ('e dh_table \<times> nat option) option" where
  "operate_add ops t key kh =
     (case SearchTable ops t key kh JS_DHASH_ADD of
        None \<Rightarrow> None
      | Some (t, i) \<Rightarrow>
          let entry = entryStore t ! i
          in if ENTRY_IS_LIVE entry then Some (t, Some i)
             else
               let (t, kh) = (if ENTRY_IS_REMOVED entry
                              then (t\<lparr>removedCount := removedCount t - 1\<rparr>, kh OR COLLISION_FLAG)
                              else (t, kh))
               in case (case initEntry ops of None \<Rightarrow> Some (body entry)
                                            | Some init \<Rightarrow> init (body entry) key) of
                    None \<Rightarrow>
                      Some (t\<lparr>entryStore := (entryStore t)[i := entry\<lparr>body := zeroBody ops\<rparr>]\<rparr>, None)
                  | Some b \<Rightarrow>
                      Some (t\<lparr>entryStore := (entryStore t)[i := \<lparr>keyHash = kh, body = b\<rparr>],
                              entryCount := entryCount t + 1\<rparr>, Some i))"

definition JS_DHashTableOperate ::
  "('k, 'e) dh_ops \<Rightarrow> (u32 \<Rightarrow> bool) \<Rightarrow> 'e dh_table \<Rightarrow> 'k \<Rightarrow> dh_op \<Rightarrow>
     ('e dh_table \<times> nat option) option" where
  "JS_DHashTableOperate ops am t key op =
     (let kh = key_hash ops key
      in case op of
           JS_DHASH_LOOKUP \<Rightarrow>
             map_option (\<lambda>(t, i). (t, Some i)) (SearchTable ops t key kh JS_DHASH_LOOKUP)
         | JS_DHASH_ADD \<Rightarrow>
             let sz = JS_DHASH_TABLE_SIZE t
             in if MAX_LOAD t sz \<le> entryCount t + removedCount t then
                  (let deltaLog2 = (if drop_bit 2 sz \<le> removedCount t then 0 else 1)
                   in case ChangeTable ops am t deltaLog2 of
                        None \<Rightarrow> None
                      | Some (ok, t) \<Rightarrow>
                          if \<not> ok \<and> entryCount t + removedCount t = sz - 1 then Some (t, None)
                          else operate_add ops t key kh)
                else operate_add ops t key kh
         | JS_DHASH_REMOVE \<Rightarrow>
             case SearchTable ops t key kh JS_DHASH_REMOVE of
               None \<Rightarrow> None
             | Some (t, i) \<Rightarrow>
                 if ENTRY_IS_LIVE (entryStore t ! i) then
                   let t = JS_DHashTableRawRemove ops t i;
                       sz = JS_DHASH_TABLE_SIZE t
                   in if JS_DHASH_MIN_SIZE < sz \<and> entryCount t \<le> MIN_LOAD t sz
                      then map_option (\<lambda>(_, t). (t, None)) (ChangeTable ops am t (-1))
                      else Some (t, None)
                 else Some (t, None))"

text \<open>
  \<open>JS_DHashTableInit\<close>: the previous contents of the structure do not matter. The result
  is \<open>None\<close> where the C function returns \<open>JS_FALSE\<close>.
\<close>

definition JS_DHashTableInit ::
  "('k, 'e) dh_ops \<Rightarrow> (u32 \<Rightarrow> bool) \<Rightarrow> u32 \<Rightarrow> u32 \<Rightarrow> 'e dh_table option" where
  "JS_DHashTableInit ops am entry_size capacity =
     (let capacity = (if capacity < JS_DHASH_MIN_SIZE then JS_DHASH_MIN_SIZE else capacity);
          log2 = JS_CeilingLog2 capacity;
          capacity = JS_BIT log2
      in if JS_DHASH_SIZE_LIMIT \<le> capacity then None
         else
           let nbytes = capacity * entry_size
           in if \<not> am nbytes then None
              else Some \<lparr>hashShift = 32 - int log2, maxAlphaFrac = 0xC0, minAlphaFrac = 0x40,
                         entrySize = entry_size, entryCount = 0, removedCount = 0,
                         generation = 0,
                         entryStore =
                           replicate (unat capacity) \<lparr>keyHash = 0, body = zeroBody ops\<rparr>\<rparr>)"

text \<open>\<open>JS_DHashTableFinish\<close> clears every live entry; the store is freed afterwards.\<close>

definition JS_DHashTableFinish :: "('k, 'e) dh_ops \<Rightarrow> 'e dh_table \<Rightarrow> 'e dh_entry list" where
  "JS_DHashTableFinish ops t =
     map (\<lambda>e. if ENTRY_IS_LIVE e then e\<lparr>body := clearEntry ops (body e)\<rparr> else e)
       (take (unat (JS_DHASH_TABLE_SIZE t)) (entryStore t))"

text \<open>
  \<open>JS_DHashTableEnumerate\<close>. The enumerator sees an entry, its number and its own state; it
  returns the operator bits (1 stops, 2 removes), the entry (which it may write through the
  pointer) and its state.
\<close>

fun enum_loop ::
  "('k, 'e) dh_ops \<Rightarrow> ('e \<Rightarrow> u32 \<Rightarrow> 's \<Rightarrow> u32 \<times> 'e \<times> 's) \<Rightarrow> nat list \<Rightarrow>
     'e dh_table \<Rightarrow> u32 \<Rightarrow> bool \<Rightarrow> 's \<Rightarrow> 'e dh_table \<times> u32 \<times> bool \<times> 's" where
  "enum_loop ops etor [] t i didRemove s = (t, i, didRemove, s)"
| "enum_loop ops etor (j # js) t i didRemove s =
     (let entry = entryStore t ! j
      in if ENTRY_IS_LIVE entry then
           let (op, b, s) = etor (body entry) i s;
               t = t\<lparr>entryStore := (entryStore t)[j := entry\<lparr>body := b\<rparr>]\<rparr>;
               (t, didRemove) = (if op AND 2 \<noteq> 0 then (JS_DHashTableRawRemove ops t j, True)
                                 else (t, didRemove))
           in if op AND 1 \<noteq> 0 then (t, i + 1, didRemove, s)
              else enum_loop ops etor js t (i + 1) didRemove s
         else enum_loop ops etor js t i didRemove s)"

definition JS_DHashTableEnumerate ::
  "('k, 'e) dh_ops \<Rightarrow> (u32 \<Rightarrow> bool) \<Rightarrow> ('e \<Rightarrow> u32 \<Rightarrow> 's \<Rightarrow> u32 \<times> 'e \<times> 's) \<Rightarrow>
     'e dh_table \<Rightarrow> 's \<Rightarrow> ('e dh_table \<times> u32 \<times> 's) option" where
  "JS_DHashTableEnumerate ops am etor t s =
     (let capacity = JS_DHASH_TABLE_SIZE t;
          (t, i, didRemove, s) = enum_loop ops etor [0..<unat capacity] t 0 False s
      in if didRemove \<and> (drop_bit 2 capacity \<le> removedCount t
                          \<or> JS_DHASH_MIN_SIZE < capacity \<and> entryCount t \<le> MIN_LOAD t capacity)
         then
           let capacity = entryCount t;
               capacity = capacity + drop_bit 1 capacity;
               capacity = (if capacity < JS_DHASH_MIN_SIZE then JS_DHASH_MIN_SIZE else capacity);
               ceiling = int (JS_CeilingLog2 capacity) - (32 - hashShift t)
           in map_option (\<lambda>(_, t). (t, i, s)) (ChangeTable ops am t ceiling)
         else Some (t, i, s))"

section \<open>Reserved key hashes\<close>

lemma word32_cases_lt2: "(w :: u32) < 2 \<longleftrightarrow> w = 0 \<or> w = 1"
  by (auto simp: word_less_nat_alt word_unat_eq_iff less_2_cases_iff)

definition live_code :: "u32 \<Rightarrow> bool" where
  "live_code kh \<longleftrightarrow> kh \<noteq> 0 \<and> kh AND NOT COLLISION_FLAG = kh"

lemma bit0_and_not_1: "bit (w AND NOT 1) n \<longleftrightarrow> n \<noteq> 0 \<and> bit w n" for w :: u32
  by (auto simp: bit_and_iff bit_not_iff bit_1_iff dest: bit_imp_le_length)

lemma and_not_1_even: "even (w AND NOT 1)" for w :: u32
  using bit0_and_not_1 [of w 0] by (simp add: bit_0)

lemma key_hash_live: "live_code (key_hash ops key)"
proof -
  define h where "h = ENSURE_LIVE_KEYHASH (hashKey ops key * JS_DHASH_GOLDEN_RATIO)"
  have "2 \<le> h"
    using word32_cases_lt2 [of "hashKey ops key * JS_DHASH_GOLDEN_RATIO"]
    by (auto simp: h_def ENSURE_LIVE_KEYHASH_def linorder_not_less)
  then obtain n where n: "n \<noteq> 0" "bit h n"
    by (metis bit_1_iff bit_eqI linorder_not_le word32_cases_lt2 bit_0_eq bot_apply bot_bool_def)
  then have "bit (h AND NOT 1) n" unfolding bit0_and_not_1 by simp
  then show ?thesis
    by (auto simp: live_code_def key_hash_def h_def[symmetric] COLLISION_FLAG_def and.assoc)
qed

section \<open>The probe sequence\<close>

lemma take_bit_word_add: "take_bit n (take_bit n a + b) = take_bit n (a + b)"
  for a b :: "'a::len word"
proof (cases "n \<le> LENGTH('a)")
  case True
  then have "(2::nat) ^ n dvd 2 ^ LENGTH('a)" by (rule le_imp_power_dvd)
  then show ?thesis
    by (simp add: word_unat_eq_iff unat_take_bit unat_word_ariths mod_mod_cancel mod_add_left_eq)
next
  case False
  then have "take_bit n w = w" for w :: "'a word"
    by (auto simp: bit_eq_iff bit_take_bit_iff dest: bit_imp_le_length)
  then show ?thesis by simp
qed

lemma take_bit_word_diff: "take_bit n (take_bit n a - b) = take_bit n (a - b)"
  for a b :: "'a::len word"
  using take_bit_word_add [of n a "- b"] by simp

lemma take_bit_word_cancel:
  fixes a b :: "'a::len word"
  assumes "take_bit n a = take_bit n b" shows "take_bit n (a - b) = 0"
  using take_bit_word_diff [of n a b] take_bit_word_diff [of n b b] assms by simp

definition probe_word :: "nat \<Rightarrow> u32 \<Rightarrow> nat \<Rightarrow> u32" where
  "probe_word lg kh n = (HASH1 kh (32 - lg) - of_nat n * HASH2 kh lg (32 - lg)) AND JS_BITMASK lg"

definition probe :: "nat \<Rightarrow> u32 \<Rightarrow> nat \<Rightarrow> nat" where
  "probe lg kh n = unat (probe_word lg kh n)"

lemma probe_word_take_bit:
  "lg < 32 \<Longrightarrow> probe_word lg kh n =
     take_bit lg (HASH1 kh (32 - lg) - of_nat n * HASH2 kh lg (32 - lg))"
  by (simp add: probe_word_def JS_BITMASK_eq_mask take_bit_eq_mask)

lemma probe_less: "lg < 32 \<Longrightarrow> probe lg kh n < 2 ^ lg"
  by (simp add: probe_def probe_word_take_bit unat_take_bit)

lemma probe_word_0: "lg < 32 \<Longrightarrow> probe_word lg kh 0 = HASH1 kh (32 - lg)"
  by (rule bit_word_eqI)
     (auto simp: probe_word_take_bit HASH1_def bit_take_bit_iff bit_drop_bit_eq
        dest: bit_imp_le_length)

lemma probe_word_Suc:
  "lg < 32 \<Longrightarrow> (probe_word lg kh n - HASH2 kh lg (32 - lg)) AND JS_BITMASK lg = probe_word lg kh (Suc n)"
proof -
  assume lg: "lg < 32"
  define a where "a = HASH1 kh (32 - lg)"
  define h where "h = HASH2 kh lg (32 - lg)"
  have "take_bit lg (take_bit lg (a - of_nat n * h) - h) = take_bit lg (a - of_nat n * h - h)"
    by (rule take_bit_word_diff)
  then show ?thesis
    using lg unfolding a_def h_def
    by (simp add: probe_word_take_bit JS_BITMASK_eq_mask flip: take_bit_eq_mask)
      (simp add: algebra_simps)
qed

lemma HASH2_odd: "odd (unat (HASH2 kh lg s))"
proof -
  have "bit (HASH2 kh lg s) 0" by (simp add: HASH2_def bit_or_iff)
  then show ?thesis by (simp add: bit_unat del: bit_0)
qed

text \<open>
  The second hash is odd, so it is relatively prime to the table size: the first
  \<open>2 ^ lg\<close> probes visit every slot exactly once.
\<close>

lemma probe_inj_aux:
  assumes lg: "lg < 32" and "m \<le> n" and n: "n < 2 ^ lg" and eq: "probe lg kh m = probe lg kh n"
  shows "m = n"
proof -
  define a where "a = HASH1 kh (32 - lg)"
  define h where "h = HASH2 kh lg (32 - lg)"
  have "take_bit lg (a - of_nat m * h) = take_bit lg (a - of_nat n * h)"
    using eq lg by (simp add: probe_def probe_word_take_bit a_def h_def word_unat_eq_iff)
  then have "take_bit lg ((a - of_nat m * h) - (a - of_nat n * h)) = 0"
    by (rule take_bit_word_cancel)
  moreover have "(a - of_nat m * h) - (a - of_nat n * h) = of_nat (n - m) * h"
    using \<open>m \<le> n\<close> by (simp add: of_nat_diff algebra_simps)
  ultimately have "take_bit lg (of_nat (n - m) * h) = 0" by simp
  then have "unat (of_nat (n - m) * h) mod 2 ^ lg = 0"
    by (metis unat_take_bit unat_0)
  moreover have "unat (of_nat (n - m) * h) mod 2 ^ lg = ((n - m) * unat h) mod 2 ^ lg"
  proof -
    have "(2::nat) ^ lg dvd 2 ^ 32" using lg by (intro le_imp_power_dvd) simp
    moreover have "unat (of_nat (n - m) * h) = ((n - m) * unat h) mod 2 ^ 32"
      by (simp add: unat_word_ariths unat_of_nat mod_mult_left_eq)
    ultimately show ?thesis by (simp add: mod_mod_cancel)
  qed
  ultimately have "2 ^ lg dvd (n - m) * unat h" by (simp add: mod_eq_0_iff_dvd)
  moreover have "coprime (2 ^ lg) (unat h)"
    using HASH2_odd by (simp add: h_def coprime_left_2_iff_odd)
  ultimately have "2 ^ lg dvd n - m" by (simp add: coprime_dvd_mult_left_iff)
  moreover have "n - m < 2 ^ lg" using n by simp
  ultimately have "n - m = 0" by (metis dvd_imp_le not_less gr0I)
  with \<open>m \<le> n\<close> show ?thesis by simp
qed

lemma probe_inj: "lg < 32 \<Longrightarrow> inj_on (probe lg kh) {..<2 ^ lg}"
  by (rule inj_onI) (metis lessThan_iff linorder_le_cases probe_inj_aux)

lemma probe_surj: "lg < 32 \<Longrightarrow> probe lg kh ` {..<2 ^ lg} = {..<2 ^ lg}"
  by (rule endo_inj_surj) (auto simp: probe_less probe_inj)

lemma probe_reaches:
  assumes "lg < 32" and "i < 2 ^ lg"
  obtains n where "n < 2 ^ lg" and "probe lg kh n = i"
  using probe_surj [OF assms(1), of kh] assms(2) by (metis imageE lessThan_iff)

section \<open>Entry codes\<close>

lemma code_free_removed_live:
  "ENTRY_IS_LIVE e \<longleftrightarrow> \<not> ENTRY_IS_FREE e \<and> \<not> ENTRY_IS_REMOVED e"
  using word32_cases_lt2 [of "keyHash e"]
  by (auto simp: ENTRY_IS_LIVE_def ENTRY_IS_FREE_def ENTRY_IS_REMOVED_def linorder_not_less
      simp flip: linorder_not_less)

lemma bit_word_one: "bit (1 :: u32) n \<longleftrightarrow> n = 0"
  by (simp add: bit_1_iff)

lemma or_1_and_not_1: "(w OR 1) AND NOT 1 = w AND NOT 1" for w :: u32
  by (rule bit_word_eqI) (auto simp: bit_and_iff bit_or_iff bit_not_iff bit_word_one)

lemma odd_or_1: "odd (w OR 1)" for w :: u32
  using bit_or_iff [of w 1 0] by (simp add: bit_0)

lemma or_1_neq_0: "w OR 1 \<noteq> 0" for w :: u32
  using odd_or_1 [of w] by auto

lemma or_1_eq_1: "w OR 1 = 1 \<longleftrightarrow> w = 0 \<or> w = 1" for w :: u32
proof
  assume *: "w OR 1 = 1"
  have high: "\<not> bit w n" if "n \<noteq> 0" for n
    using that * bit_or_iff [of w 1 n] by (simp add: bit_word_one)
  show "w = 0 \<or> w = 1"
  proof (cases "bit w 0")
    case True
    then have "w = 1" using high by (intro bit_word_eqI) (metis bit_word_one)
    then show ?thesis ..
  next
    case False
    then have "w = 0" using high by (intro bit_word_eqI) (metis bit_0_eq bot_apply bot_bool_def)
    then show ?thesis ..
  qed
qed auto

text \<open>What setting the collision flag of an entry that is not free keeps.\<close>

definition flag_entry :: "'e dh_entry \<Rightarrow> 'e dh_entry" where
  "flag_entry e = e\<lparr>keyHash := keyHash e OR COLLISION_FLAG\<rparr>"

lemma flag_entry_simps [simp]:
  "body (flag_entry e) = body e"
  "keyHash (flag_entry e) = keyHash e OR 1"
  "flag_entry (flag_entry e) = flag_entry e"
  by (simp_all add: flag_entry_def COLLISION_FLAG_def or.assoc)

lemma flag_entry_match [simp]: "MATCH_ENTRY_KEYHASH (flag_entry e) kh = MATCH_ENTRY_KEYHASH e kh"
  unfolding MATCH_ENTRY_KEYHASH_def COLLISION_FLAG_def flag_entry_simps or_1_and_not_1 ..

lemma flag_entry_codes:
  assumes "\<not> ENTRY_IS_FREE e"
  shows "\<not> ENTRY_IS_FREE (flag_entry e)"
    and "ENTRY_IS_REMOVED (flag_entry e) = ENTRY_IS_REMOVED e"
    and "ENTRY_IS_LIVE (flag_entry e) = ENTRY_IS_LIVE e"
  using assms
  by (simp_all add: code_free_removed_live ENTRY_IS_FREE_def ENTRY_IS_REMOVED_def or_1_neq_0 or_1_eq_1)

lemma flag_entry_removed: "ENTRY_IS_REMOVED e \<Longrightarrow> flag_entry e = e"
  by (simp add: flag_entry_def ENTRY_IS_REMOVED_def COLLISION_FLAG_def)

definition flag_slots :: "nat list \<Rightarrow> 'e dh_entry list \<Rightarrow> 'e dh_entry list" where
  "flag_slots is st = fold (\<lambda>i st. st[i := flag_entry (st ! i)]) is st"

lemma length_flag_slots [simp]: "length (flag_slots is st) = length st"
  unfolding flag_slots_def by (induction "is" arbitrary: st) auto

lemma flag_slots_Nil [simp]: "flag_slots [] st = st"
  by (simp add: flag_slots_def)

lemma flag_slots_Cons: "flag_slots (i # is) st = flag_slots is (st[i := flag_entry (st ! i)])"
  by (simp add: flag_slots_def)

lemma nth_flag_slots:
  "j < length st \<Longrightarrow> flag_slots is st ! j = (if j \<in> set is then flag_entry (st ! j) else st ! j)"
proof (induction "is" arbitrary: st)
  case (Cons i js)
  then show ?case by (cases "i = j") (simp_all add: flag_slots_Cons)
qed simp

section \<open>The search\<close>

definition stops :: "('k, 'e) dh_ops \<Rightarrow> 'k \<Rightarrow> u32 \<Rightarrow> 'e dh_entry \<Rightarrow> bool" where
  "stops ops key kh e \<longleftrightarrow>
     ENTRY_IS_FREE e \<or> MATCH_ENTRY_KEYHASH e kh \<and> matchEntry ops (body e) key"

lemma stops_flag: "\<not> ENTRY_IS_FREE e \<Longrightarrow> stops ops key kh (flag_entry e) = stops ops key kh e"
  by (simp add: stops_def flag_entry_codes(1))

text \<open>The entry a search that stops at \<open>i\<close> returns, with the removed slots it saw.\<close>

definition found_slot :: "dh_op \<Rightarrow> 'e dh_entry list \<Rightarrow> nat option \<Rightarrow> nat \<Rightarrow> nat" where
  "found_slot op st fr i =
     (case fr of Some r \<Rightarrow> if ENTRY_IS_FREE (st ! i) \<and> op = JS_DHASH_ADD then r else i | None \<Rightarrow> i)"

definition or_removed :: "nat option \<Rightarrow> 'e dh_entry list \<Rightarrow> nat list \<Rightarrow> nat option" where
  "or_removed fr st is =
     (case fr of Some r \<Rightarrow> Some r | None \<Rightarrow> find (\<lambda>i. ENTRY_IS_REMOVED (st ! i)) is)"

lemma or_removed_Nil [simp]: "or_removed fr st [] = fr"
  by (simp add: or_removed_def split: option.split)

lemma or_removed_Cons:
  "or_removed fr st (i # is) =
     or_removed (case fr of Some r \<Rightarrow> Some r | None \<Rightarrow> if ENTRY_IS_REMOVED (st ! i) then Some i else None) st is"
  by (simp add: or_removed_def split: option.split)

lemma or_removed_cong:
  "(\<And>i. i \<in> set is \<Longrightarrow> ENTRY_IS_REMOVED (st' ! i) = ENTRY_IS_REMOVED (st ! i)) \<Longrightarrow>
     or_removed fr st' is = or_removed fr st is"
  by (auto simp: or_removed_def split: option.split intro!: find_cong)

lemma search_loop_finds:
  assumes lg: "lg < 32" and "n < N" and "length st = 2 ^ lg"
    and "stops ops key kh (st ! probe lg kh N)"
    and "\<And>m. n < m \<Longrightarrow> m < N \<Longrightarrow> \<not> stops ops key kh (st ! probe lg kh m)"
  shows "search_loop ops key kh op (HASH2 kh lg (32 - lg)) (JS_BITMASK lg) (probe_word lg kh n) fr st =
    Some (if op = JS_DHASH_ADD then flag_slots (map (probe lg kh) [Suc n..<N]) st else st,
          found_slot op st (or_removed fr st (map (probe lg kh) [Suc n..<N])) (probe lg kh N))"
  using assms(2-)
proof (induction "N - Suc n" arbitrary: n fr st)
  case 0
  then have N: "N = Suc n" by simp
  from 0 show ?case
    by (subst search_loop.simps)
       (auto simp: Let_def probe_word_Suc [OF lg] N stops_def found_slot_def
          simp flip: probe_def split: option.split)
next
  case (Suc k)
  define i where "i = probe lg kh (Suc n)"
  define e where "e = st ! i"
  have i: "i < length st" using probe_less [OF lg] by (simp add: i_def Suc.prems)
  have ns: "\<not> stops ops key kh e"
    using Suc.hyps(2) Suc.prems(4) [of "Suc n"] by (simp add: e_def i_def)
  then have nf: "\<not> ENTRY_IS_FREE e" by (simp add: stops_def)
  have upt: "[Suc n..<N] = Suc n # [Suc (Suc n)..<N]"
    using Suc.hyps(2) by (simp add: upt_conv_Cons)
  have unfold: "search_loop ops key kh op (HASH2 kh lg (32 - lg)) (JS_BITMASK lg) (probe_word lg kh n) fr st =
     (if ENTRY_IS_REMOVED e then
        search_loop ops key kh op (HASH2 kh lg (32 - lg)) (JS_BITMASK lg) (probe_word lg kh (Suc n))
          (case fr of None \<Rightarrow> Some i | Some r \<Rightarrow> Some r) st
      else search_loop ops key kh op (HASH2 kh lg (32 - lg)) (JS_BITMASK lg) (probe_word lg kh (Suc n)) fr
             (if op = JS_DHASH_ADD then st[i := flag_entry e] else st))"
    using ns by (subst search_loop.simps)
      (auto simp: Let_def probe_word_Suc [OF lg] stops_def e_def i_def probe_def flag_entry_def
        split: option.split)
  define st' where "st' = st[i := flag_entry e]"
  have entry: "st' ! j = (if j = i then flag_entry (st ! i) else st ! j)" for j
    using i by (simp add: st'_def e_def)
  have same: "stops ops key kh (st' ! j) = stops ops key kh (st ! j)"
    "ENTRY_IS_REMOVED (st' ! j) = ENTRY_IS_REMOVED (st ! j)"
    "ENTRY_IS_FREE (st' ! j) = ENTRY_IS_FREE (st ! j)" for j
    using nf by (simp_all add: entry stops_flag flag_entry_codes e_def)
  have found_same: "found_slot op' st' fr' j = found_slot op' st fr' j" for op' fr' j
    by (simp add: found_slot_def same(3) split: option.split)
  have len': "length st' = 2 ^ lg" using Suc.prems by (simp add: st'_def)
  show ?case
  proof (cases "ENTRY_IS_REMOVED e")
    case True
    then have "st[i := flag_entry e] = st" by (simp add: flag_entry_removed e_def)
    moreover have "k = N - Suc (Suc n)" "Suc n < N" using Suc.hyps(2) by simp_all
    ultimately show ?thesis
      using True Suc.hyps(1) [of "Suc n" st "case fr of None \<Rightarrow> Some i | Some r \<Rightarrow> Some r"] Suc.prems
      by (simp add: unfold upt or_removed_Cons flag_slots_Cons i_def e_def split: option.split)
  next
    case False
    moreover have k: "k = N - Suc (Suc n)" "Suc n < N" using Suc.hyps(2) by simp_all
    moreover have "or_removed fr st' js = or_removed fr st js" for js
      by (rule or_removed_cong) (simp add: same)
    ultimately show ?thesis
      using Suc.hyps(1) [of "Suc n" st' fr] Suc.hyps(1) [of "Suc n" st fr] Suc.prems len'
      unfolding unfold upt list.map or_removed_Cons flag_slots_Cons
        i_def [symmetric] e_def [symmetric] st'_def [symmetric]
      by (cases "op = JS_DHASH_ADD"; cases fr) (simp_all add: found_same same)
  qed
qed

text \<open>
  A whole search that first stops at probe \<open>N\<close>: \<open>JS_DHASH_ADD\<close> flags the entries passed
  over, and recycles the first removed one.
\<close>

lemma SearchTable_finds:
  assumes lg: "lg < 32" and t: "hashShift t = 32 - int lg" "length (entryStore t) = 2 ^ lg"
    and stop: "stops ops key kh (entryStore t ! probe lg kh N)"
    and least: "\<And>m. m < N \<Longrightarrow> \<not> stops ops key kh (entryStore t ! probe lg kh m)"
  shows "SearchTable ops t key kh op =
    Some (t\<lparr>entryStore := if op = JS_DHASH_ADD
                          then flag_slots (map (probe lg kh) [0..<N]) (entryStore t)
                          else entryStore t\<rparr>,
          found_slot op (entryStore t)
            (or_removed None (entryStore t) (map (probe lg kh) [0..<N])) (probe lg kh N))"
proof -
  define st where "st = entryStore t"
  define i where "i = probe lg kh 0"
  have sh: "nat (hashShift t) = 32 - lg" "nat (32 - hashShift t) = lg" using t lg by auto
  have h1: "HASH1 kh (32 - lg) = probe_word lg kh 0" using probe_word_0 [OF lg] by simp
  show ?thesis
  proof (cases "N = 0")
    case True
    with stop show ?thesis
      by (auto simp: SearchTable_def Let_def sh h1 stops_def found_slot_def simp flip: probe_def)
  next
    case False
    then have ns: "\<not> stops ops key kh (st ! i)" using least [of 0] by (simp add: st_def i_def)
    then have nf: "\<not> ENTRY_IS_FREE (st ! i)" by (simp add: stops_def)
    have upt: "[0..<N] = 0 # [Suc 0..<N]" using False by (simp add: upt_conv_Cons)
    define st' where "st' = st[i := flag_entry (st ! i)]"
    have i: "i < length st" using probe_less [OF lg] t(2) by (simp add: i_def st_def)
    have entry: "st' ! j = (if j = i then flag_entry (st ! i) else st ! j)" for j
      using i by (simp add: st'_def)
    have same: "stops ops key kh (st' ! j) = stops ops key kh (st ! j)"
      "ENTRY_IS_REMOVED (st' ! j) = ENTRY_IS_REMOVED (st ! j)"
      "ENTRY_IS_FREE (st' ! j) = ENTRY_IS_FREE (st ! j)" for j
      using nf by (simp_all add: entry stops_flag flag_entry_codes)
    have found_same: "found_slot op' st' fr j = found_slot op' st fr j" for op' fr j
      by (simp add: found_slot_def same(3) split: option.split)
    have or_same: "or_removed fr st' js = or_removed fr st js" for fr js
      by (rule or_removed_cong) (simp add: same)
    have loop: "search_loop ops key kh op (HASH2 kh lg (32 - lg)) (JS_BITMASK lg) (probe_word lg kh 0) fr s =
      Some (if op = JS_DHASH_ADD then flag_slots (map (probe lg kh) [Suc 0..<N]) s else s,
        found_slot op s (or_removed fr s (map (probe lg kh) [Suc 0..<N])) (probe lg kh N))"
      if "s = st \<or> s = st'" for fr s
      using that stop least False t(2) same
      by (intro search_loop_finds [OF lg]) (auto simp: st_def [symmetric] st'_def)
    have removed: "flag_entry (st ! i) = st ! i" if "ENTRY_IS_REMOVED (st ! i)"
      using that by (rule flag_entry_removed)
    show ?thesis
      using ns nf removed
      by (auto simp: SearchTable_def Let_def sh h1 stops_def loop upt or_removed_Cons flag_slots_Cons
            found_same or_same
            i_def [symmetric] st_def [symmetric] probe_def [symmetric] st'_def [symmetric]
            flag_entry_def [symmetric] code_free_removed_live)
  qed
qed

section \<open>The invariant\<close>

text \<open>
  A live entry is found by its own probe sequence: every slot probed before it carries an
  odd code (the collision flag, or the removed sentinel), so none of them is free.
\<close>

definition on_path :: "nat \<Rightarrow> u32 \<Rightarrow> 'e dh_entry list \<Rightarrow> nat \<Rightarrow> bool" where
  "on_path lg kh st i \<longleftrightarrow>
     (\<exists>n<2 ^ lg. probe lg kh n = i \<and> (\<forall>m<n. odd (keyHash (st ! probe lg kh m))))"

text \<open>The key of an entry, up to the equality \<open>matchEntry\<close> decides (\<open>kab\<close>).\<close>

definition entry_key :: "('k, 'e) dh_ops \<Rightarrow> ('k \<Rightarrow> 'a) \<Rightarrow> 'e dh_entry \<Rightarrow> 'a" where
  "entry_key ops kab e = kab (getKey ops (body e))"

definition dh_core :: "('k, 'e) dh_ops \<Rightarrow> ('k \<Rightarrow> 'a) \<Rightarrow> nat \<Rightarrow> 'e dh_entry list \<Rightarrow> bool" where
  "dh_core ops kab lg st \<longleftrightarrow>
     lg < 32 \<and> length st = 2 ^ lg \<and>
     (\<forall>i<2 ^ lg. ENTRY_IS_LIVE (st ! i) \<longrightarrow>
        keyHash (st ! i) AND NOT COLLISION_FLAG = key_hash ops (getKey ops (body (st ! i))) \<and>
        on_path lg (keyHash (st ! i) AND NOT COLLISION_FLAG) st i) \<and>
     (\<forall>i<2 ^ lg. \<forall>j<2 ^ lg. ENTRY_IS_LIVE (st ! i) \<longrightarrow> ENTRY_IS_LIVE (st ! j) \<longrightarrow>
        entry_key ops kab (st ! i) = entry_key ops kab (st ! j) \<longrightarrow> i = j) \<and>
     (\<forall>i<2 ^ lg. \<not> ENTRY_IS_LIVE (st ! i) \<longrightarrow> body (st ! i) = zeroBody ops)"

definition live_count :: "'e dh_entry list \<Rightarrow> nat" where
  "live_count st = length (filter ENTRY_IS_LIVE st)"

definition removed_count :: "'e dh_entry list \<Rightarrow> nat" where
  "removed_count st = length (filter ENTRY_IS_REMOVED st)"

definition table_log2 :: "'e dh_table \<Rightarrow> nat" where
  "table_log2 t = nat (32 - hashShift t)"

definition dh_inv :: "('k, 'e) dh_ops \<Rightarrow> ('k \<Rightarrow> 'a) \<Rightarrow> 'e dh_table \<Rightarrow> bool" where
  "dh_inv ops kab t \<longleftrightarrow>
     hashShift t = 32 - int (table_log2 t) \<and> 4 \<le> table_log2 t \<and> table_log2 t < 24 \<and>
     dh_core ops kab (table_log2 t) (entryStore t) \<and>
     unat (entryCount t) = live_count (entryStore t) \<and>
     unat (removedCount t) = removed_count (entryStore t) \<and>
     live_count (entryStore t) + removed_count (entryStore t) < 2 ^ table_log2 t \<and>
     unat (minAlphaFrac t) < 128"

text \<open>The finite map a table stands for: keys to entry bodies.\<close>

definition dh_map :: "('k, 'e) dh_ops \<Rightarrow> ('k \<Rightarrow> 'a) \<Rightarrow> 'e dh_entry list \<Rightarrow> ('a \<rightharpoonup> 'e)" where
  "dh_map ops kab st = map_of (map (\<lambda>e. (entry_key ops kab e, body e)) (filter ENTRY_IS_LIVE st))"

lemma live_removed_disjoint: "\<not> (ENTRY_IS_LIVE e \<and> ENTRY_IS_REMOVED e)"
  by (simp add: code_free_removed_live)

lemma dh_coreD:
  assumes "dh_core ops kab lg st"
  shows "lg < 32" and "length st = 2 ^ lg"
    and "\<And>i. i < 2 ^ lg \<Longrightarrow> ENTRY_IS_LIVE (st ! i) \<Longrightarrow>
           keyHash (st ! i) AND NOT COLLISION_FLAG = key_hash ops (getKey ops (body (st ! i)))"
    and "\<And>i. i < 2 ^ lg \<Longrightarrow> ENTRY_IS_LIVE (st ! i) \<Longrightarrow>
           on_path lg (keyHash (st ! i) AND NOT COLLISION_FLAG) st i"
    and "\<And>i j. i < 2 ^ lg \<Longrightarrow> j < 2 ^ lg \<Longrightarrow> ENTRY_IS_LIVE (st ! i) \<Longrightarrow> ENTRY_IS_LIVE (st ! j) \<Longrightarrow>
           entry_key ops kab (st ! i) = entry_key ops kab (st ! j) \<Longrightarrow> i = j"
    and "\<And>i. i < 2 ^ lg \<Longrightarrow> \<not> ENTRY_IS_LIVE (st ! i) \<Longrightarrow> body (st ! i) = zeroBody ops"
  using assms by (auto simp: dh_core_def)

lemma dh_map_eq:
  assumes core: "dh_core ops kab lg st"
  shows "dh_map ops kab st a = Some b \<longleftrightarrow>
    (\<exists>i<2 ^ lg. ENTRY_IS_LIVE (st ! i) \<and> entry_key ops kab (st ! i) = a \<and> body (st ! i) = b)"
proof
  assume "dh_map ops kab st a = Some b"
  then have "(a, b) \<in> set (map (\<lambda>e. (entry_key ops kab e, body e)) (filter ENTRY_IS_LIVE st))"
    unfolding dh_map_def by (rule map_of_SomeD)
  then show "\<exists>i<2 ^ lg. ENTRY_IS_LIVE (st ! i) \<and> entry_key ops kab (st ! i) = a \<and> body (st ! i) = b"
    using dh_coreD(2) [OF core] by (auto simp: in_set_conv_nth)
next
  assume "\<exists>i<2 ^ lg. ENTRY_IS_LIVE (st ! i) \<and> entry_key ops kab (st ! i) = a \<and> body (st ! i) = b"
  then obtain i where i: "i < 2 ^ lg" "ENTRY_IS_LIVE (st ! i)" "entry_key ops kab (st ! i) = a" "body (st ! i) = b"
    by blast
  then have "st ! i \<in> set (filter ENTRY_IS_LIVE st)" using dh_coreD(2) [OF core] by simp
  then have "a \<in> fst ` set (map (\<lambda>e. (entry_key ops kab e, body e)) (filter ENTRY_IS_LIVE st))"
    using i(3) by (force simp: image_image)
  then obtain b' where b': "dh_map ops kab st a = Some b'"
    unfolding dh_map_def by (metis map_of_eq_None_iff not_None_eq)
  then have "(a, b') \<in> set (map (\<lambda>e. (entry_key ops kab e, body e)) (filter ENTRY_IS_LIVE st))"
    unfolding dh_map_def by (rule map_of_SomeD)
  then obtain j where j: "j < 2 ^ lg" "ENTRY_IS_LIVE (st ! j)" "entry_key ops kab (st ! j) = a" "body (st ! j) = b'"
    using dh_coreD(2) [OF core] by (auto simp: in_set_conv_nth)
  with i dh_coreD(5) [OF core, of i j] have "i = j" by simp
  with i j b' show "dh_map ops kab st a = Some b" by simp
qed

lemma dh_map_None:
  assumes core: "dh_core ops kab lg st"
  shows "dh_map ops kab st a = None \<longleftrightarrow>
    (\<forall>i<2 ^ lg. ENTRY_IS_LIVE (st ! i) \<longrightarrow> entry_key ops kab (st ! i) \<noteq> a)"
  using dh_map_eq [OF core, of a] by (metis not_None_eq)

text \<open>A table with no live entry, fresh from \<open>memset\<close>.\<close>

lemma dh_core_fresh:
  "lg < 32 \<Longrightarrow> dh_core ops kab lg (replicate (2 ^ lg) \<lparr>keyHash = 0, body = zeroBody ops\<rparr>)"
  by (simp add: dh_core_def ENTRY_IS_LIVE_def)

lemma counts_fresh [simp]:
  "live_count (replicate n \<lparr>keyHash = 0, body = z\<rparr>) = 0"
  "removed_count (replicate n \<lparr>keyHash = 0, body = z\<rparr>) = 0"
  by (simp_all add: live_count_def removed_count_def ENTRY_IS_LIVE_def ENTRY_IS_REMOVED_def)

lemma dh_map_fresh [simp]: "dh_map ops kab (replicate n \<lparr>keyHash = 0, body = z\<rparr>) = Map.empty"
  by (simp add: dh_map_def ENTRY_IS_LIVE_def)

section \<open>One-slot changes of the store\<close>

lemma on_path_mono:
  assumes "on_path lg kh st i" and "lg < 32"
    and "\<And>j. j < 2 ^ lg \<Longrightarrow> odd (keyHash (st ! j)) \<Longrightarrow> odd (keyHash (st' ! j))"
  shows "on_path lg kh st' i"
  using assms unfolding on_path_def by (metis probe_less)

text \<open>Filling a slot that holds no live entry.\<close>

lemma dh_core_insert:
  assumes core: "dh_core ops kab lg st" and i: "i < 2 ^ lg" and live: "ENTRY_IS_LIVE e"
    and path: "on_path lg (keyHash e AND NOT COLLISION_FLAG) st i"
    and hash: "keyHash e AND NOT COLLISION_FLAG = key_hash ops (getKey ops (body e))"
    and flag: "odd (keyHash (st ! i)) \<Longrightarrow> odd (keyHash e)"
    and new: "dh_map ops kab st (entry_key ops kab e) = None"
  shows "dh_core ops kab lg (st[i := e])"
proof -
  note d = dh_coreD [OF core]
  have nth: "st[i := e] ! j = (if j = i then e else st ! j)" for j
    using i d(2) by (simp)
  have mono: "on_path lg kh (st[i := e]) j" if "on_path lg kh st j" for kh j
    using that d(1) by (rule on_path_mono) (use flag in \<open>auto simp: nth\<close>)
  have fresh: "entry_key ops kab (st ! j) \<noteq> entry_key ops kab e" if "j < 2 ^ lg" "ENTRY_IS_LIVE (st ! j)" for j
    using new that dh_map_None [OF core] by blast
  show ?thesis
    unfolding dh_core_def nth
  proof (intro conjI allI impI)
    fix j k assume jk: "j < 2 ^ lg" "k < 2 ^ lg" "ENTRY_IS_LIVE (if j = i then e else st ! j)"
      "ENTRY_IS_LIVE (if k = i then e else st ! k)"
      "entry_key ops kab (if j = i then e else st ! j) = entry_key ops kab (if k = i then e else st ! k)"
    show "j = k"
    proof (cases "j = i"; cases "k = i")
      assume "j = i" "k \<noteq> i" with jk fresh [of k] show ?thesis by simp
    next
      assume "j \<noteq> i" "k = i" with jk fresh [of j] show ?thesis by simp
    qed (use jk d(5) in auto)
  next
    fix j assume "j < 2 ^ lg" "ENTRY_IS_LIVE (if j = i then e else st ! j)"
    then show "keyHash (if j = i then e else st ! j) AND NOT COLLISION_FLAG =
        key_hash ops (getKey ops (body (if j = i then e else st ! j)))"
      and "on_path lg (keyHash (if j = i then e else st ! j) AND NOT COLLISION_FLAG) (st[i := e]) j"
      using d(3,4) hash path mono by (auto split: if_splits)
  qed (use d live in \<open>auto split: if_splits\<close>)
qed

lemma dh_map_insert:
  assumes core: "dh_core ops kab lg st" and i: "i < 2 ^ lg" "\<not> ENTRY_IS_LIVE (st ! i)"
    and core': "dh_core ops kab lg (st[i := e])" and live: "ENTRY_IS_LIVE e"
  shows "dh_map ops kab (st[i := e]) = (dh_map ops kab st)(entry_key ops kab e \<mapsto> body e)"
proof
  fix a
  have nth: "st[i := e] ! j = (if j = i then e else st ! j)" for j
    using i dh_coreD(2) [OF core] by (simp)
  show "dh_map ops kab (st[i := e]) a = ((dh_map ops kab st)(entry_key ops kab e \<mapsto> body e)) a"
  proof (cases "a = entry_key ops kab e")
    case True
    have "dh_map ops kab (st[i := e]) a = Some (body e)"
      unfolding dh_map_eq [OF core'] by (rule exI [of _ i]) (simp add: nth i live True)
    with True show ?thesis by simp
  next
    case False
    have "ENTRY_IS_LIVE (st[i := e] ! j) \<and> entry_key ops kab (st[i := e] ! j) = a \<and> body (st[i := e] ! j) = b
        \<longleftrightarrow> ENTRY_IS_LIVE (st ! j) \<and> entry_key ops kab (st ! j) = a \<and> body (st ! j) = b" for j b
      using False i by (cases "j = i") (auto simp: nth)
    then have "dh_map ops kab (st[i := e]) a = Some b \<longleftrightarrow> dh_map ops kab st a = Some b" for b
      unfolding dh_map_eq [OF core'] dh_map_eq [OF core] by simp
    then have "dh_map ops kab (st[i := e]) a = dh_map ops kab st a"
      by (rule option_eqI)
    with False show ?thesis by simp
  qed
qed

text \<open>Emptying a live slot: \<open>JS_DHashTableRawRemove\<close> keeps the parity of the slot's code.\<close>

lemma dh_core_delete:
  assumes core: "dh_core ops kab lg st" and i: "i < 2 ^ lg"
    and dead: "\<not> ENTRY_IS_LIVE e" "body e = zeroBody ops"
    and flag: "odd (keyHash (st ! i)) \<Longrightarrow> odd (keyHash e)"
  shows "dh_core ops kab lg (st[i := e])"
proof -
  note d = dh_coreD [OF core]
  have nth: "st[i := e] ! j = (if j = i then e else st ! j)" for j
    using i d(2) by (simp)
  have mono: "on_path lg kh (st[i := e]) j" if "on_path lg kh st j" for kh j
    using that d(1) by (rule on_path_mono) (use flag in \<open>auto simp: nth\<close>)
  show ?thesis
    unfolding dh_core_def nth using d dead mono by (auto split: if_splits)
qed

lemma dh_map_delete:
  assumes core: "dh_core ops kab lg st" and i: "i < 2 ^ lg" "ENTRY_IS_LIVE (st ! i)"
    and dead: "\<not> ENTRY_IS_LIVE e" and core': "dh_core ops kab lg (st[i := e])"
  shows "dh_map ops kab (st[i := e]) = (dh_map ops kab st)(entry_key ops kab (st ! i) := None)"
proof
  fix a
  have nth: "st[i := e] ! j = (if j = i then e else st ! j)" for j
    using i dh_coreD(2) [OF core] by (simp)
  have uniq: "j = i" if "j < 2 ^ lg" "ENTRY_IS_LIVE (st ! j)" "entry_key ops kab (st ! j) = entry_key ops kab (st ! i)" for j
    using that i dh_coreD(5) [OF core] by blast
  have "ENTRY_IS_LIVE (st[i := e] ! j) \<and> entry_key ops kab (st[i := e] ! j) = a \<and> body (st[i := e] ! j) = b
      \<longleftrightarrow> a \<noteq> entry_key ops kab (st ! i) \<and>
        ENTRY_IS_LIVE (st ! j) \<and> entry_key ops kab (st ! j) = a \<and> body (st ! j) = b"
    if "j < 2 ^ lg" for j b
    using dead uniq [OF that] i by (cases "j = i") (auto simp: nth)
  then have "dh_map ops kab (st[i := e]) a = Some b \<longleftrightarrow>
      ((dh_map ops kab st)(entry_key ops kab (st ! i) := None)) a = Some b" for b
    unfolding dh_map_eq [OF core'] fun_upd_apply using dh_map_eq [OF core, of a b] by auto
  then show "dh_map ops kab (st[i := e]) a = ((dh_map ops kab st)(entry_key ops kab (st ! i) := None)) a"
    by (rule option_eqI)
qed

text \<open>Flagging slots that are not free changes neither the map nor the counts.\<close>

lemma flag_slots_same:
  assumes "\<forall>i\<in>set is. i < length st \<and> \<not> ENTRY_IS_FREE (st ! i)" and "j < length st"
  shows "ENTRY_IS_LIVE (flag_slots is st ! j) = ENTRY_IS_LIVE (st ! j)"
    and "ENTRY_IS_REMOVED (flag_slots is st ! j) = ENTRY_IS_REMOVED (st ! j)"
    and "body (flag_slots is st ! j) = body (st ! j)"
    and "keyHash (flag_slots is st ! j) AND NOT COLLISION_FLAG = keyHash (st ! j) AND NOT COLLISION_FLAG"
    and "odd (keyHash (st ! j)) \<Longrightarrow> odd (keyHash (flag_slots is st ! j))"
    and "j \<in> set is \<Longrightarrow> odd (keyHash (flag_slots is st ! j))"
  using assms or_1_and_not_1
  by (auto simp: nth_flag_slots flag_entry_codes odd_or_1 COLLISION_FLAG_def)

lemma flag_slots_counts:
  assumes "\<forall>i\<in>set is. i < length st \<and> \<not> ENTRY_IS_FREE (st ! i)"
  shows "live_count (flag_slots is st) = live_count st"
    and "removed_count (flag_slots is st) = removed_count st"
  using flag_slots_same [OF assms]
  by (auto simp: live_count_def removed_count_def length_filter_conv_card intro!: arg_cong [where f = card])

lemma dh_core_flag:
  assumes core: "dh_core ops kab lg st"
    and nf: "\<forall>i\<in>set is. i < length st \<and> \<not> ENTRY_IS_FREE (st ! i)"
  shows "dh_core ops kab lg (flag_slots is st)"
    and "dh_map ops kab (flag_slots is st) = dh_map ops kab st"
proof -
  note d = dh_coreD [OF core]
  note same = flag_slots_same [OF nf]
  have mono: "on_path lg kh (flag_slots is st) j" if "on_path lg kh st j" for kh j
    using that d(1) by (rule on_path_mono) (simp add: same d(2))
  show core': "dh_core ops kab lg (flag_slots is st)"
    unfolding dh_core_def using d mono by (auto simp: same entry_key_def)
  have "dh_map ops kab (flag_slots is st) a = Some b \<longleftrightarrow> dh_map ops kab st a = Some b" for a b
    unfolding dh_map_eq [OF core'] dh_map_eq [OF core] using d(2) by (auto simp: same entry_key_def)
  then show "dh_map ops kab (flag_slots is st) = dh_map ops kab st"
    by (intro ext option_eqI)
qed

end
