(* ===== verification/JS_DHash_Map.thy ===== *)
theory JS_DHash_Map
  imports JS_DHash
begin

text \<open>
  The double-hashing table as a finite map: the contract the table needs from its virtual
  operations (locale \<open>dh_client\<close>), the outcome of a search, and for every public operation
  that it returns, keeps the invariant \<open>dh_inv\<close> and does to \<open>dh_map\<close> what it is for.
\<close>

section \<open>What the table relies on\<close>

text \<open>
  The contract of the virtual operations: \<open>kab\<close> abstracts a key to what \<open>matchEntry\<close>
  compares (the pointer itself, or the string it points to).
\<close>

locale dh_client =
  fixes ops :: "('k, 'e) dh_ops" and kab :: "'k \<Rightarrow> 'a"
  assumes match_key: "matchEntry ops b k \<longleftrightarrow> kab (getKey ops b) = kab k"
    and hash_key: "kab k = kab k' \<Longrightarrow> hashKey ops k = hashKey ops k'"
    and move_copies: "moveEntry ops b = b"
    and clear_zeroes: "clearEntry ops b = zeroBody ops"

lemma live_codeD:
  assumes "live_code kh"
  shows "kh \<noteq> 0" and "2 \<le> kh" and "kh AND NOT COLLISION_FLAG = kh" and "even kh"
    and "(kh OR COLLISION_FLAG) AND NOT COLLISION_FLAG = kh" and "2 \<le> kh OR COLLISION_FLAG"
proof -
  have k: "kh \<noteq> 0" "kh AND NOT 1 = kh" using assms by (simp_all add: live_code_def COLLISION_FLAG_def)
  have "kh \<noteq> 1" using k by auto
  then show "2 \<le> kh" using k(1) word32_cases_lt2 [of kh] by (auto simp: linorder_not_less)
  show "kh \<noteq> 0" and "kh AND NOT COLLISION_FLAG = kh" using k by (simp_all add: COLLISION_FLAG_def)
  show "even kh" using and_not_1_even [of kh] k(2) by metis
  show "(kh OR COLLISION_FLAG) AND NOT COLLISION_FLAG = kh"
    unfolding COLLISION_FLAG_def or_1_and_not_1 by (rule k(2))
  have "kh OR 1 \<noteq> 1" using k(1) \<open>kh \<noteq> 1\<close> by (simp add: or_1_eq_1)
  then show "2 \<le> kh OR COLLISION_FLAG"
    using or_1_neq_0 [of kh] word32_cases_lt2 [of "kh OR 1"] by (auto simp: COLLISION_FLAG_def linorder_not_less)
qed

lemma free_slot_exists:
  assumes "live_count st + removed_count st < length st"
  obtains i where "i < length st" and "ENTRY_IS_FREE (st ! i)"
proof -
  have "length (filter (\<lambda>e. ENTRY_IS_LIVE e \<or> ENTRY_IS_REMOVED e) st) = live_count st + removed_count st"
    unfolding live_count_def removed_count_def
    by (induction st) (use live_removed_disjoint in auto)
  with assms have "length (filter (\<lambda>e. ENTRY_IS_LIVE e \<or> ENTRY_IS_REMOVED e) st) < length st" by simp
  then obtain i where "i < length st" "\<not> (ENTRY_IS_LIVE (st ! i) \<or> ENTRY_IS_REMOVED (st ! i))"
    using length_filter_ex [of "\<lambda>e. ENTRY_IS_LIVE e \<or> ENTRY_IS_REMOVED e" st] by auto
  with that show thesis by (auto simp: code_free_removed_live)
qed

lemma search_exists:
  assumes core: "dh_core ops kab lg st" and free: "i < 2 ^ lg" "ENTRY_IS_FREE (st ! i)"
  obtains N where "N < 2 ^ lg" and "stops ops key kh (st ! probe lg kh N)"
    and "\<And>m. m < N \<Longrightarrow> \<not> stops ops key kh (st ! probe lg kh m)"
proof -
  obtain n where n: "n < 2 ^ lg" "probe lg kh n = i"
    using probe_reaches [OF dh_coreD(1) [OF core] free(1)] .
  then have s: "stops ops key kh (st ! probe lg kh n)" using free(2) by (simp add: stops_def)
  define N where "N = (LEAST m. stops ops key kh (st ! probe lg kh m))"
  have "stops ops key kh (st ! probe lg kh N)" unfolding N_def using s by (rule LeastI)
  moreover have "N \<le> n" unfolding N_def using s by (rule Least_le)
  moreover have "\<not> stops ops key kh (st ! probe lg kh m)" if "m < N" for m
    using that unfolding N_def by (rule not_less_Least)
  ultimately show thesis using that n(1) by (meson le_less_trans)
qed

context dh_client
begin

lemma key_hash_cong: "kab k = kab k' \<Longrightarrow> key_hash ops k = key_hash ops k'"
  using hash_key [of k k'] by (simp only: key_hash_def)

lemma stop_hit:
  assumes "stops ops key (key_hash ops key) e" and "\<not> ENTRY_IS_FREE e"
  shows "ENTRY_IS_LIVE e" and "entry_key ops kab e = kab key"
proof -
  have m: "keyHash e AND NOT COLLISION_FLAG = key_hash ops key" "matchEntry ops (body e) key"
    using assms unfolding stops_def MATCH_ENTRY_KEYHASH_def by blast+
  have "\<not> ENTRY_IS_REMOVED e"
  proof
    assume "ENTRY_IS_REMOVED e"
    then have "keyHash e = 1" unfolding ENTRY_IS_REMOVED_def .
    then have "key_hash ops key = 1 AND NOT COLLISION_FLAG" using m(1) by (simp only:)
    then have "key_hash ops key = 0" by (simp add: COLLISION_FLAG_def)
    with live_codeD(1) [OF key_hash_live] show False by (rule notE)
  qed
  then show "ENTRY_IS_LIVE e" using assms(2) unfolding code_free_removed_live by blast
  show "entry_key ops kab e = kab key" using m(2) unfolding match_key entry_key_def .
qed

lemma stop_miss:
  assumes core: "dh_core ops kab lg st"
    and free: "ENTRY_IS_FREE (st ! probe lg (key_hash ops key) N)"
    and least: "\<And>m. m < N \<Longrightarrow> \<not> stops ops key (key_hash ops key) (st ! probe lg (key_hash ops key) m)"
  shows "dh_map ops kab st (kab key) = None"
  unfolding dh_map_None [OF core]
proof (intro allI impI notI)
  fix j assume j: "j < 2 ^ lg" "ENTRY_IS_LIVE (st ! j)" "entry_key ops kab (st ! j) = kab key"
  have kh: "key_hash ops (getKey ops (body (st ! j))) = key_hash ops key"
    using j(3) by (intro key_hash_cong) (simp add: entry_key_def)
  note code = dh_coreD(3) [OF core j(1,2), unfolded kh]
  from dh_coreD(4) [OF core j(1,2), unfolded code] obtain n where
    n: "probe lg (key_hash ops key) n = j" "\<And>m. m < n \<Longrightarrow> odd (keyHash (st ! probe lg (key_hash ops key) m))"
    unfolding on_path_def by blast
  have "stops ops key (key_hash ops key) (st ! j)"
    using code j(3) by (simp add: stops_def MATCH_ENTRY_KEYHASH_def match_key entry_key_def)
  then have "\<not> n < N" using least n(1) by blast
  moreover have "\<not> N < n" using n(2) [of N] free by (auto simp: ENTRY_IS_FREE_def)
  ultimately have "n = N" by simp
  with n(1) free j(2) show False by (simp add: code_free_removed_live)
qed

text \<open>
  The outcome of a search in a table that keeps the invariant and has a free slot: it
  returns, with a live entry for the key or with a slot that is not live, and then no entry
  has the key.
\<close>

lemma SearchTable_outcome:
  assumes core: "dh_core ops kab lg (entryStore t)" and t: "hashShift t = 32 - int lg"
    and free: "live_count (entryStore t) + removed_count (entryStore t) < 2 ^ lg"
  obtains st' i where
    "SearchTable ops t key (key_hash ops key) op = Some (t\<lparr>entryStore := st'\<rparr>, i)"
    and "i < 2 ^ lg" and "dh_core ops kab lg st'"
    and "dh_map ops kab st' = dh_map ops kab (entryStore t)"
    and "live_count st' = live_count (entryStore t)"
    and "removed_count st' = removed_count (entryStore t)"
    and "op \<noteq> JS_DHASH_ADD \<Longrightarrow> st' = entryStore t"
    and "ENTRY_IS_LIVE (st' ! i) \<Longrightarrow> entry_key ops kab (st' ! i) = kab key"
    and "\<not> ENTRY_IS_LIVE (st' ! i) \<Longrightarrow> dh_map ops kab (entryStore t) (kab key) = None"
    and "\<not> ENTRY_IS_LIVE (st' ! i) \<Longrightarrow> op = JS_DHASH_ADD \<Longrightarrow> on_path lg (key_hash ops key) st' i"
    and "\<not> ENTRY_IS_LIVE (st' ! i) \<Longrightarrow> op \<noteq> JS_DHASH_ADD \<Longrightarrow> ENTRY_IS_FREE (st' ! i)"
proof -
  define st where "st = entryStore t"
  define kh where "kh = key_hash ops key"
  note core = core [folded st_def] and free = free [folded st_def]
  note lg = dh_coreD(1) [OF core] and len = dh_coreD(2) [OF core]
  obtain f where f: "f < 2 ^ lg" "ENTRY_IS_FREE (st ! f)" using free_slot_exists free len by metis
  obtain N where N: "N < 2 ^ lg" "stops ops key kh (st ! probe lg kh N)"
    and least: "\<And>m. m < N \<Longrightarrow> \<not> stops ops key kh (st ! probe lg kh m)"
    using search_exists [OF core f, where key = key and kh = kh] by blast
  define js where "js = map (probe lg kh) [0..<N]"
  have nf: "\<forall>i\<in>set js. i < length st \<and> \<not> ENTRY_IS_FREE (st ! i)"
    using least probe_less [OF lg] by (auto simp: js_def len stops_def)
  define st' where "st' = (if op = JS_DHASH_ADD then flag_slots js st else st)"
  define i where "i = found_slot op st (or_removed None st js) (probe lg kh N)"
  have search: "SearchTable ops t key kh op = Some (t\<lparr>entryStore := st'\<rparr>, i)"
    unfolding st'_def i_def js_def st_def
    by (rule SearchTable_finds) (use lg t len N least in \<open>simp_all add: st_def\<close>)
  have core': "dh_core ops kab lg st'" and map': "dh_map ops kab st' = dh_map ops kab st"
    and counts: "live_count st' = live_count st" "removed_count st' = removed_count st"
    using core dh_core_flag [OF core nf] flag_slots_counts [OF nf] by (simp_all add: st'_def)
  have at: "i = probe lg kh N \<or> op = JS_DHASH_ADD \<and> ENTRY_IS_FREE (st ! probe lg kh N) \<and>
      (\<exists>m<N. i = probe lg kh m \<and> ENTRY_IS_REMOVED (st ! i))"
    by (auto simp: i_def found_slot_def or_removed_def js_def find_Some_iff split: option.split)
  then have i: "i < 2 ^ lg" using probe_less [OF lg] by auto
  have st'i: "ENTRY_IS_LIVE (st' ! i) = ENTRY_IS_LIVE (st ! i)" "body (st' ! i) = body (st ! i)"
    using flag_slots_same [OF nf, of i] i len by (simp_all add: st'_def)
  have miss: "dh_map ops kab st (kab key) = None" if "ENTRY_IS_FREE (st ! probe lg kh N)"
    using stop_miss [OF core that [unfolded kh_def]] least by (simp add: kh_def)
  have hit: "ENTRY_IS_LIVE (st ! i)" "entry_key ops kab (st ! i) = kab key"
    if "\<not> ENTRY_IS_FREE (st ! probe lg kh N)"
    using that at stop_hit N(2) by (auto simp: kh_def)
  have dead: "ENTRY_IS_FREE (st ! probe lg kh N)" if "\<not> ENTRY_IS_LIVE (st' ! i)"
    using that hit(1) st'i(1) by blast
  have odd: "odd (keyHash (st' ! probe lg kh m))" if "op = JS_DHASH_ADD" "m < N" for m
    using that flag_slots_same(6) [OF nf, of "probe lg kh m"] probe_less [OF lg]
    by (simp add: st'_def js_def len)
  show thesis
  proof (rule that [of st' i])
    show "ENTRY_IS_LIVE (st' ! i) \<Longrightarrow> entry_key ops kab (st' ! i) = kab key"
      using at hit st'i by (auto simp: entry_key_def code_free_removed_live)
    show "\<not> ENTRY_IS_LIVE (st' ! i) \<Longrightarrow> op = JS_DHASH_ADD \<Longrightarrow> on_path lg (key_hash ops key) st' i"
    proof -
      assume add: "op = JS_DHASH_ADD"
      obtain m where m: "m \<le> N" "i = probe lg kh m" using at by (auto intro: less_imp_le)
      then show ?thesis
        unfolding on_path_def kh_def [symmetric] using odd [OF add] N(1)
        by (intro exI [of _ m]) auto
    qed
    show "\<not> ENTRY_IS_LIVE (st' ! i) \<Longrightarrow> op \<noteq> JS_DHASH_ADD \<Longrightarrow> ENTRY_IS_FREE (st' ! i)"
      using at dead by (auto simp: st'_def)
  qed (use search core' map' counts i miss dead in \<open>simp_all add: kh_def st'_def st_def\<close>)
qed

end

section \<open>Tables\<close>

lemma dh_invD:
  assumes "dh_inv ops kab t"
  shows "hashShift t = 32 - int (table_log2 t)" and "4 \<le> table_log2 t" and "table_log2 t < 24"
    and "dh_core ops kab (table_log2 t) (entryStore t)"
    and "unat (entryCount t) = live_count (entryStore t)"
    and "unat (removedCount t) = removed_count (entryStore t)"
    and "live_count (entryStore t) + removed_count (entryStore t) < 2 ^ table_log2 t"
    and "unat (minAlphaFrac t) < 128"
  using assms by (auto simp: dh_inv_def)

lemma pow_bound: "n < 24 \<Longrightarrow> (2::nat) ^ n \<le> 2 ^ 23"
  by (rule power_increasing) auto

lemma dh_inv_size:
  assumes "dh_inv ops kab t"
  shows "unat (JS_DHASH_TABLE_SIZE t) = 2 ^ table_log2 t"
  using dh_invD(3) [OF assms] by (simp add: JS_DHASH_TABLE_SIZE_def table_log2_def unat_JS_BIT)

lemma flag_set_iff: "w AND COLLISION_FLAG \<noteq> 0 \<longleftrightarrow> odd w" for w :: u32
  by (simp add: COLLISION_FLAG_def and_one_eq odd_iff_mod_2_eq_one)

lemma store_update_counts:
  assumes "i < length st"
  shows "live_count (st[i := e]) + (if ENTRY_IS_LIVE (st ! i) then 1 else 0) =
           live_count st + (if ENTRY_IS_LIVE e then 1 else 0)"
    and "removed_count (st[i := e]) + (if ENTRY_IS_REMOVED (st ! i) then 1 else 0) =
           removed_count st + (if ENTRY_IS_REMOVED e then 1 else 0)"
  using assms by (simp_all add: live_count_def removed_count_def length_filter_update)

lemma live_countI: "i < length st \<Longrightarrow> ENTRY_IS_LIVE (st ! i) \<Longrightarrow> 0 < live_count st"
  by (auto simp: live_count_def filter_empty_conv intro!: bexI [of _ "st ! i"])

subsection \<open>Removing an entry\<close>

lemma RawRemove_eq:
  "JS_DHashTableRawRemove ops t i =
     t\<lparr>entryStore := (entryStore t)
         [i := \<lparr>keyHash = (if odd (keyHash (entryStore t ! i)) then 1 else 0),
               body = clearEntry ops (body (entryStore t ! i))\<rparr>],
       removedCount := removedCount t + (if odd (keyHash (entryStore t ! i)) then 1 else 0),
       entryCount := entryCount t - 1\<rparr>"
  by (simp add: JS_DHashTableRawRemove_def Let_def flag_set_iff)

lemma DHash_RawRemove_correct:
  assumes inv: "dh_inv ops kab t" and i: "i < 2 ^ table_log2 t" and live: "ENTRY_IS_LIVE (entryStore t ! i)"
    and clear: "\<And>b. clearEntry ops b = zeroBody ops"
  shows "dh_inv ops kab (JS_DHashTableRawRemove ops t i)"
    and "dh_map ops kab (entryStore (JS_DHashTableRawRemove ops t i)) =
           (dh_map ops kab (entryStore t))(entry_key ops kab (entryStore t ! i) := None)"
proof -
  note d = dh_invD [OF inv]
  define st where "st = entryStore t"
  define e where "e = \<lparr>keyHash = (if odd (keyHash (st ! i)) then 1 else 0), body = clearEntry ops (body (st ! i))\<rparr>"
  have len: "length st = 2 ^ table_log2 t" using dh_coreD(2) [OF d(4)] by (simp add: st_def)
  have dead: "\<not> ENTRY_IS_LIVE e" by (simp add: e_def ENTRY_IS_LIVE_def word_le_nat_alt)
  have core': "dh_core ops kab (table_log2 t) (st[i := e])"
    using d(4) i dead clear by (intro dh_core_delete) (auto simp: st_def e_def)
  have pos: "0 < live_count st" using live i len by (intro live_countI) (simp_all add: st_def)
  have live': "live_count (st[i := e]) = live_count st - 1"
    using store_update_counts(1) [of i st e] i len live dead by (simp add: st_def)
  have removed': "removed_count (st[i := e]) = removed_count st + (if odd (keyHash (st ! i)) then 1 else 0)"
    using store_update_counts(2) [of i st e] i len live
    by (auto simp: st_def e_def code_free_removed_live ENTRY_IS_REMOVED_def)
  have small: "live_count st + removed_count st < 2 ^ 23"
    using d(7) pow_bound [OF d(3)] by (simp add: st_def)
  have ec: "unat (entryCount t - 1) = live_count st - 1"
    using d(5) pos by (simp add: st_def unat_dec_exact word_neq_0_unat)
  have rc: "unat (removedCount t + (if odd (keyHash (st ! i)) then 1 else 0)) = removed_count (st[i := e])"
    unfolding removed' using d(6) small by (simp add: st_def unat_inc_exact)
  show "dh_inv ops kab (JS_DHashTableRawRemove ops t i)"
    unfolding dh_inv_def RawRemove_eq
    using d core' ec rc live' removed' pos
    by (auto simp: table_log2_def st_def [symmetric] e_def [symmetric])
  show "dh_map ops kab (entryStore (JS_DHashTableRawRemove ops t i)) =
           (dh_map ops kab (entryStore t))(entry_key ops kab (entryStore t ! i) := None)"
    using dh_map_delete [OF d(4) i live dead] core' by (simp add: RawRemove_eq st_def e_def)
qed

lemma RawRemove_log2 [simp]: "table_log2 (JS_DHashTableRawRemove ops t i) = table_log2 t"
  by (simp add: RawRemove_eq table_log2_def)

subsection \<open>Copying the live entries\<close>

context dh_client
begin

lemma new_entry_core:
  assumes core: "dh_core ops kab lg st" and i: "i < 2 ^ lg" and path: "on_path lg (key_hash ops key) st i"
    and dead: "\<not> ENTRY_IS_LIVE (st ! i)" and new: "dh_map ops kab st (kab key) = None"
    and b: "kab (getKey ops b) = kab key"
    and kh: "kh = key_hash ops key \<or> kh = key_hash ops key OR COLLISION_FLAG"
    and flag: "ENTRY_IS_REMOVED (st ! i) \<Longrightarrow> odd kh"
  shows "dh_core ops kab lg (st[i := \<lparr>keyHash = kh, body = b\<rparr>])"
    and "dh_map ops kab (st[i := \<lparr>keyHash = kh, body = b\<rparr>]) = (dh_map ops kab st)(kab key \<mapsto> b)"
    and "live_count (st[i := \<lparr>keyHash = kh, body = b\<rparr>]) = live_count st + 1"
    and "removed_count (st[i := \<lparr>keyHash = kh, body = b\<rparr>]) =
           removed_count st - (if ENTRY_IS_REMOVED (st ! i) then 1 else 0)"
proof -
  define e where "e = \<lparr>keyHash = kh, body = b\<rparr>"
  note code = live_codeD [OF key_hash_live, of ops key]
  have e: "keyHash e AND NOT COLLISION_FLAG = key_hash ops key" "ENTRY_IS_LIVE e"
      "entry_key ops kab e = kab key" "body e = b"
    using kh code b by (auto simp: e_def ENTRY_IS_LIVE_def entry_key_def)
  have par: "odd (keyHash e)" if "odd (keyHash (st ! i))"
  proof -
    have "\<not> ENTRY_IS_FREE (st ! i)" using that by (auto simp: ENTRY_IS_FREE_def)
    with dead have "ENTRY_IS_REMOVED (st ! i)" by (simp add: code_free_removed_live)
    then show ?thesis using flag by (simp add: e_def)
  qed
  have hash: "keyHash e AND NOT COLLISION_FLAG = key_hash ops (getKey ops (body e))"
    using e(1,4) key_hash_cong [OF b] by simp
  show core': "dh_core ops kab lg (st[i := \<lparr>keyHash = kh, body = b\<rparr>])"
    unfolding e_def [symmetric]
    using core i par hash new path e(1-3) by (intro dh_core_insert) simp_all
  show "dh_map ops kab (st[i := \<lparr>keyHash = kh, body = b\<rparr>]) = (dh_map ops kab st)(kab key \<mapsto> b)"
    using dh_map_insert [OF core i dead core' [folded e_def] e(2)] e(3,4) by (simp add: e_def)
  have len: "i < length st" using dh_coreD(2) [OF core] i by simp
  have "\<not> ENTRY_IS_REMOVED e" using e(2) live_removed_disjoint by blast
  then show "live_count (st[i := \<lparr>keyHash = kh, body = b\<rparr>]) = live_count st + 1"
    and "removed_count (st[i := \<lparr>keyHash = kh, body = b\<rparr>]) =
           removed_count st - (if ENTRY_IS_REMOVED (st ! i) then 1 else 0)"
    using store_update_counts [OF len, of e] dead e(2) by (simp_all add: e_def)
qed

lemma copy_entries_spec:
  assumes "hashShift t = 32 - int lg" and "dh_core ops kab lg (entryStore t)"
    and "removed_count (entryStore t) = 0"
    and "live_count (entryStore t) + length (filter ENTRY_IS_LIVE es) < 2 ^ lg"
    and "\<And>e. e \<in> set es \<Longrightarrow> ENTRY_IS_LIVE e \<Longrightarrow>
           keyHash e AND NOT COLLISION_FLAG = key_hash ops (getKey ops (body e))"
    and "distinct (map (entry_key ops kab) (filter ENTRY_IS_LIVE es))"
    and "\<And>e. e \<in> set es \<Longrightarrow> ENTRY_IS_LIVE e \<Longrightarrow>
           dh_map ops kab (entryStore t) (entry_key ops kab e) = None"
  shows "\<exists>st'. copy_entries ops es t = Some (t\<lparr>entryStore := st'\<rparr>) \<and>
     dh_core ops kab lg st' \<and> removed_count st' = 0 \<and>
     live_count st' = live_count (entryStore t) + length (filter ENTRY_IS_LIVE es) \<and>
     dh_map ops kab st' = dh_map ops kab (entryStore t) ++ dh_map ops kab es"
  using assms
proof (induction es arbitrary: t)
  case Nil
  then show ?case by (intro exI [of _ "entryStore t"]) (simp add: dh_map_def)
next
  case (Cons e es)
  show ?case
  proof (cases "ENTRY_IS_LIVE e")
    case False
    then have "dh_map ops kab (e # es) = dh_map ops kab es" by (simp add: dh_map_def)
    with False Cons.IH [of t] Cons.prems show ?thesis by simp
  next
    case True
    define key where "key = getKey ops (body e)"
    define kh where "kh = keyHash e AND NOT COLLISION_FLAG"
    have kh: "kh = key_hash ops key" using Cons.prems(5) [of e] True by (simp add: kh_def key_def)
    have ek: "entry_key ops kab e = kab key" by (simp add: entry_key_def key_def)
    have none: "dh_map ops kab (entryStore t) (kab key) = None"
      using Cons.prems(7) [of e] True by (simp add: ek)
    have room: "live_count (entryStore t) + removed_count (entryStore t) < 2 ^ lg"
      using Cons.prems(3,4) by simp
    obtain st1 i where s: "SearchTable ops t key (key_hash ops key) JS_DHASH_ADD = Some (t\<lparr>entryStore := st1\<rparr>, i)"
      and i: "i < 2 ^ lg" and core1: "dh_core ops kab lg st1"
      and map1: "dh_map ops kab st1 = dh_map ops kab (entryStore t)"
      and counts1: "live_count st1 = live_count (entryStore t)" "removed_count st1 = removed_count (entryStore t)"
      and hit1: "ENTRY_IS_LIVE (st1 ! i) \<Longrightarrow> entry_key ops kab (st1 ! i) = kab key"
      and path1: "\<not> ENTRY_IS_LIVE (st1 ! i) \<Longrightarrow> on_path lg (key_hash ops key) st1 i"
      using SearchTable_outcome [OF Cons.prems(2,1) room, of key JS_DHASH_ADD] by blast
    have dead: "\<not> ENTRY_IS_LIVE (st1 ! i)"
      using hit1 none [folded map1] i unfolding dh_map_None [OF core1] by blast
    have notrem: "\<not> ENTRY_IS_REMOVED (st1 ! i)"
      using counts1(2) [unfolded Cons.prems(3)] i dh_coreD(2) [OF core1]
      by (simp add: removed_count_def filter_empty_conv)
    define st2 where "st2 = st1[i := \<lparr>keyHash = kh, body = body e\<rparr>]"
    have st2: "dh_core ops kab lg st2" "dh_map ops kab st2 = (dh_map ops kab st1)(kab key \<mapsto> body e)"
      "live_count st2 = live_count st1 + 1" "removed_count st2 = 0"
    proof -
      have b: "kab (getKey ops (body e)) = kab key" by (simp only: key_def)
      note new = new_entry_core [OF core1 i path1 [OF dead] dead none [folded map1] b disjI1 [OF kh]]
      show "dh_core ops kab lg st2" "dh_map ops kab st2 = (dh_map ops kab st1)(kab key \<mapsto> body e)"
        "live_count st2 = live_count st1 + 1" "removed_count st2 = 0"
        unfolding st2_def using new notrem counts1(2) Cons.prems(3) by simp_all
    qed
    have notin: "entry_key ops kab e' \<noteq> kab key" if "e' \<in> set es" "ENTRY_IS_LIVE e'" for e'
      using Cons.prems(6) that True ek by (auto simp: image_iff)
    have pre: "dh_map ops kab st2 (entry_key ops kab e') = None" if "e' \<in> set es" "ENTRY_IS_LIVE e'" for e'
      using Cons.prems(7) [of e'] that notin [OF that] by (simp add: st2(2) map1)
    define t2 where "t2 = t\<lparr>entryStore := st2\<rparr>"
    have "\<exists>st'. copy_entries ops es t2 = Some (t2\<lparr>entryStore := st'\<rparr>) \<and>
      dh_core ops kab lg st' \<and> removed_count st' = 0 \<and>
      live_count st' = live_count (entryStore t2) + length (filter ENTRY_IS_LIVE es) \<and>
      dh_map ops kab st' = dh_map ops kab (entryStore t2) ++ dh_map ops kab es"
    proof (rule Cons.IH)
      show "live_count (entryStore t2) + length (filter ENTRY_IS_LIVE es) < 2 ^ lg"
        using Cons.prems(4) True by (simp add: st2 counts1 t2_def)
      show "distinct (map (entry_key ops kab) (filter ENTRY_IS_LIVE es))"
        using Cons.prems(6) True by simp
    qed (use Cons.prems(1,5) st2 pre in \<open>simp_all add: t2_def\<close>)
    then obtain st' where st': "copy_entries ops es (t\<lparr>entryStore := st2\<rparr>) = Some (t\<lparr>entryStore := st'\<rparr>)"
      "dh_core ops kab lg st'" "removed_count st' = 0"
      "live_count st' = live_count st2 + length (filter ENTRY_IS_LIVE es)"
      "dh_map ops kab st' = dh_map ops kab st2 ++ dh_map ops kab es"
      by (auto simp: t2_def)
    have "copy_entries ops (e # es) t = Some (t\<lparr>entryStore := st'\<rparr>)"
      using True s st'(1) by (simp add: Let_def key_def [symmetric] kh [symmetric] kh_def [symmetric] move_copies st2_def)
    moreover have "kab key \<notin> dom (dh_map ops kab es)"
      unfolding dh_map_def dom_map_of_conv_image_fst
    proof
      assume "kab key \<in> fst ` set (map (\<lambda>e. (entry_key ops kab e, body e)) (filter ENTRY_IS_LIVE es))"
      then obtain x where "x \<in> set es" "ENTRY_IS_LIVE x" "kab key = entry_key ops kab x" by auto
      with notin [of x] show False by simp
    qed
    then have "dh_map ops kab st' = dh_map ops kab (entryStore t) ++ dh_map ops kab (e # es)"
    proof -
      assume new: "kab key \<notin> dom (dh_map ops kab es)"
      have "dh_map ops kab (e # es) = (dh_map ops kab es)(kab key \<mapsto> body e)"
        using True by (simp add: dh_map_def ek)
      then show ?thesis using map_add_upd_left [OF new] by (simp add: st'(5) st2(2) map1)
    qed
    ultimately show ?thesis
      using st'(2-4) st2(3) counts1 True by (intro exI [of _ st']) simp
  qed
qed

end

text \<open>The write a client makes through the returned entry: \<open>entry->... = b\<close>.\<close>

definition dh_set_body :: "'e dh_table \<Rightarrow> nat \<Rightarrow> 'e \<Rightarrow> 'e dh_table" where
  "dh_set_body t i b = t\<lparr>entryStore := (entryStore t)[i := (entryStore t ! i)\<lparr>body := b\<rparr>]\<rparr>"

lemma live_keys_distinct:
  assumes core: "dh_core ops kab lg st"
  shows "distinct (map (entry_key ops kab) (filter ENTRY_IS_LIVE st))"
proof -
  have "filter ENTRY_IS_LIVE st = map ((!) st) (filter (\<lambda>i. ENTRY_IS_LIVE (st ! i)) [0..<length st])"
    using filter_map [of ENTRY_IS_LIVE "(!) st" "[0..<length st]"] by (simp add: map_nth comp_def)
  moreover have "inj_on (\<lambda>i. entry_key ops kab (st ! i))
      (set (filter (\<lambda>i. ENTRY_IS_LIVE (st ! i)) [0..<length st]))"
    using dh_coreD(2,5) [OF core] by (auto intro: inj_onI)
  ultimately show ?thesis by (simp add: distinct_map comp_def)
qed

context dh_client
begin

subsection \<open>Growing, shrinking, compressing\<close>

lemma ChangeTable_correct:
  assumes inv: "dh_inv ops kab t" and lo: "4 \<le> int (table_log2 t) + d" and hi: "int (table_log2 t) + d \<le> 24"
    and room: "live_count (entryStore t) < 2 ^ nat (int (table_log2 t) + d)"
  shows "\<exists>ok t'. ChangeTable ops am t d = Some (ok, t') \<and> dh_inv ops kab t' \<and>
    dh_map ops kab (entryStore t') = dh_map ops kab (entryStore t) \<and>
    (if ok then removedCount t' = 0 \<and> entryCount t' = entryCount t \<and>
                int (table_log2 t') = int (table_log2 t) + d
     else t' = t)"
proof (cases "int (table_log2 t) + d < 24 \<and> am (JS_BIT (nat (int (table_log2 t) + d)) * entrySize t)")
  case False
  have "ChangeTable ops am t d = Some (False, t)"
  proof (cases "int (table_log2 t) + d < 24")
    case True
    with False show ?thesis
      using dh_invD(1) [OF inv] by (simp add: ChangeTable_def Let_def)
  next
    case False
    then have "nat (int (table_log2 t) + d) = 24" using hi by simp
    then show ?thesis
      using dh_invD(1) [OF inv] by (simp add: ChangeTable_def Let_def JS_DHASH_SIZE_LIMIT_def)
  qed
  then show ?thesis using inv by (intro exI [of _ False] exI [of _ t]) simp
next
  case True
  note i = dh_invD [OF inv]
  define lg where "lg = nat (int (table_log2 t) + d)"
  have lg: "4 \<le> lg" "lg < 24" "int lg = int (table_log2 t) + d" using True lo by (auto simp: lg_def)
  have cap: "unat (JS_BIT lg) = 2 ^ lg" "unat (JS_BIT (table_log2 t)) = 2 ^ table_log2 t"
    using lg i(3) by (simp_all add: unat_JS_BIT)
  have small: "\<not> JS_DHASH_SIZE_LIMIT \<le> JS_BIT lg"
  proof -
    have "(2::nat) ^ lg < 2 ^ 24" using lg(2) by (intro power_strict_increasing) simp_all
    then show ?thesis by (simp add: JS_DHASH_SIZE_LIMIT_def word_le_nat_alt cap unat_JS_BIT)
  qed
  define t0 where "t0 = t\<lparr>hashShift := 32 - int lg, removedCount := 0, generation := generation t + 1,
      entryStore := replicate (2 ^ lg) \<lparr>keyHash = 0, body = zeroBody ops\<rparr>\<rparr>"
  have len: "length (entryStore t) = 2 ^ table_log2 t" using dh_coreD(2) [OF i(4)] .
  have change: "ChangeTable ops am t d = map_option (Pair True) (copy_entries ops (entryStore t) t0)"
    using True small cap len i(1) lg(3)
    by (simp add: ChangeTable_def Let_def t0_def lg_def [symmetric])
  have "\<exists>st'. copy_entries ops (entryStore t) t0 = Some (t0\<lparr>entryStore := st'\<rparr>) \<and>
     dh_core ops kab lg st' \<and> removed_count st' = 0 \<and>
     live_count st' = live_count (entryStore t0) + length (filter ENTRY_IS_LIVE (entryStore t)) \<and>
     dh_map ops kab st' = dh_map ops kab (entryStore t0) ++ dh_map ops kab (entryStore t)"
  proof (rule copy_entries_spec)
    show "keyHash e AND NOT COLLISION_FLAG = key_hash ops (getKey ops (body e))"
      if "e \<in> set (entryStore t)" "ENTRY_IS_LIVE e" for e
      using that dh_coreD(3) [OF i(4)] len by (auto simp: in_set_conv_nth)
    show "distinct (map (entry_key ops kab) (filter ENTRY_IS_LIVE (entryStore t)))"
      by (rule live_keys_distinct [OF i(4)])
    show "live_count (entryStore t0) + length (filter ENTRY_IS_LIVE (entryStore t)) < 2 ^ lg"
      using room by (simp add: t0_def lg_def flip: live_count_def)
  qed (use lg in \<open>simp_all add: t0_def dh_core_fresh\<close>)
  then obtain st' where st': "copy_entries ops (entryStore t) t0 = Some (t0\<lparr>entryStore := st'\<rparr>)"
     "dh_core ops kab lg st'" "removed_count st' = 0" "live_count st' = live_count (entryStore t)"
     "dh_map ops kab st' = dh_map ops kab (entryStore t)"
    by (auto simp: t0_def live_count_def [symmetric])
  have log': "table_log2 (t0\<lparr>entryStore := st'\<rparr>) = lg" by (simp add: table_log2_def t0_def)
  have "dh_inv ops kab (t0\<lparr>entryStore := st'\<rparr>)"
    unfolding dh_inv_def log' using lg st' i(5,8) room by (simp add: t0_def lg_def [symmetric])
  then show ?thesis using change st' log' lg(3)
    by (intro exI [of _ True] exI [of _ "t0\<lparr>entryStore := st'\<rparr>"]) (simp add: t0_def)
qed

subsection \<open>Adding\<close>

lemma dh_core_set_body:
  assumes core: "dh_core ops kab lg st" and i: "i < 2 ^ lg" "ENTRY_IS_LIVE (st ! i)"
    and b: "kab (getKey ops b) = entry_key ops kab (st ! i)"
  shows "dh_core ops kab lg (st[i := (st ! i)\<lparr>body := b\<rparr>])"
    and "dh_map ops kab (st[i := (st ! i)\<lparr>body := b\<rparr>]) = (dh_map ops kab st)(entry_key ops kab (st ! i) \<mapsto> b)"
proof -
  note d = dh_coreD [OF core]
  define st' where "st' = st[i := (st ! i)\<lparr>body := b\<rparr>]"
  have len: "length st' = 2 ^ lg" by (simp add: st'_def d(2))
  have nth: "keyHash (st' ! j) = keyHash (st ! j)" "entry_key ops kab (st' ! j) = entry_key ops kab (st ! j)"
      "body (st' ! j) = (if j = i then b else body (st ! j))" for j
    using i d(2) b by (auto simp: st'_def nth_list_update entry_key_def)
  have live: "ENTRY_IS_LIVE (st' ! j) = ENTRY_IS_LIVE (st ! j)" for j by (simp add: ENTRY_IS_LIVE_def nth)
  have path: "on_path lg kh st' j = on_path lg kh st j" for kh j by (simp add: on_path_def nth)
  have kh: "key_hash ops (getKey ops (body (st' ! j))) = key_hash ops (getKey ops (body (st ! j)))" for j
    using nth(2) [of j] by (intro key_hash_cong) (simp add: entry_key_def)
  show core': "dh_core ops kab lg (st[i := (st ! i)\<lparr>body := b\<rparr>])"
    unfolding st'_def [symmetric] dh_core_def live path kh nth(1,2) using d(1,3-6) len i by (simp add: nth(3))
  have "dh_map ops kab st' a = Some c \<longleftrightarrow> ((dh_map ops kab st)(entry_key ops kab (st ! i) \<mapsto> b)) a = Some c" for a c
  proof (cases "a = entry_key ops kab (st ! i)")
    case True
    have "ENTRY_IS_LIVE (st ! j) \<and> entry_key ops kab (st ! j) = a \<longleftrightarrow> j = i" if "j < 2 ^ lg" for j
      using d(5) [OF that i(1) _ i(2)] i True by auto
    then show ?thesis
      unfolding dh_map_eq [OF core' [folded st'_def]] live nth(2,3) using i True by auto
  next
    case False
    then have "ENTRY_IS_LIVE (st ! j) \<and> entry_key ops kab (st ! j) = a \<and> (if j = i then b else body (st ! j)) = c
      \<longleftrightarrow> ENTRY_IS_LIVE (st ! j) \<and> entry_key ops kab (st ! j) = a \<and> body (st ! j) = c" for j
      by auto
    with False show ?thesis
      unfolding dh_map_eq [OF core' [folded st'_def]] live nth(2,3) by (simp add: dh_map_eq [OF core])
  qed
  then show "dh_map ops kab (st[i := (st ! i)\<lparr>body := b\<rparr>]) = (dh_map ops kab st)(entry_key ops kab (st ! i) \<mapsto> b)"
    unfolding st'_def [symmetric] by (intro ext option_eqI)
qed

lemma operate_add_correct:
  assumes inv: "dh_inv ops kab t" and room: "live_count (entryStore t) + removed_count (entryStore t) + 1 < 2 ^ table_log2 t"
    and init: "\<forall>f b. initEntry ops = Some f \<longrightarrow> f b key \<noteq> None"
  shows "\<exists>t' i. operate_add ops t key (key_hash ops key) = Some (t', Some i) \<and>
    i < length (entryStore t') \<and> ENTRY_IS_LIVE (entryStore t' ! i) \<and>
    (case dh_map ops kab (entryStore t) (kab key) of
       Some b \<Rightarrow> body (entryStore t' ! i) = b
     | None \<Rightarrow> initEntry ops = None \<longrightarrow> body (entryStore t' ! i) = zeroBody ops) \<and>
    (\<forall>b. kab (getKey ops b) = kab key \<longrightarrow>
       dh_inv ops kab (dh_set_body t' i b) \<and>
       dh_map ops kab (entryStore (dh_set_body t' i b)) = (dh_map ops kab (entryStore t))(kab key \<mapsto> b))"
proof -
  note d = dh_invD [OF inv]
  define lg where "lg = table_log2 t"
  note dl = d [folded lg_def]
  obtain st i where s: "SearchTable ops t key (key_hash ops key) JS_DHASH_ADD = Some (t\<lparr>entryStore := st\<rparr>, i)"
    and i: "i < 2 ^ lg" and core: "dh_core ops kab lg st"
    and map: "dh_map ops kab st = dh_map ops kab (entryStore t)"
    and counts: "live_count st = live_count (entryStore t)" "removed_count st = removed_count (entryStore t)"
    and hit: "ENTRY_IS_LIVE (st ! i) \<Longrightarrow> entry_key ops kab (st ! i) = kab key"
    and miss: "\<not> ENTRY_IS_LIVE (st ! i) \<Longrightarrow> dh_map ops kab (entryStore t) (kab key) = None"
    and path: "\<not> ENTRY_IS_LIVE (st ! i) \<Longrightarrow> on_path lg (key_hash ops key) st i"
    using SearchTable_outcome [OF dl(4,1,7), of key JS_DHASH_ADD] by blast
  have len: "length st = 2 ^ lg" by (rule dh_coreD(2) [OF core])
  have small: "live_count st + removed_count st + 1 < 2 ^ 23"
    using room pow_bound [OF d(3)] counts by simp
  show ?thesis
  proof (cases "ENTRY_IS_LIVE (st ! i)")
    case True
    have same: "dh_map ops kab (entryStore t) (kab key) = Some (body (st ! i))"
      unfolding map [symmetric] dh_map_eq [OF core] using i True hit [OF True] by blast
    have "dh_inv ops kab (dh_set_body (t\<lparr>entryStore := st\<rparr>) i b) \<and>
       dh_map ops kab (entryStore (dh_set_body (t\<lparr>entryStore := st\<rparr>) i b)) = (dh_map ops kab (entryStore t))(kab key \<mapsto> b)"
      if b: "kab (getKey ops b) = kab key" for b
    proof -
      have b': "kab (getKey ops b) = entry_key ops kab (st ! i)" using b hit [OF True] by simp
      have live: "ENTRY_IS_LIVE ((st ! i)\<lparr>body := b\<rparr>)" using True by (simp add: ENTRY_IS_LIVE_def)
      have "live_count (st[i := (st ! i)\<lparr>body := b\<rparr>]) = live_count st"
        "removed_count (st[i := (st ! i)\<lparr>body := b\<rparr>]) = removed_count st"
        using store_update_counts [of i st "(st ! i)\<lparr>body := b\<rparr>"] i len True live live_removed_disjoint
        by (auto simp: ENTRY_IS_REMOVED_def split: if_splits)
      moreover have "table_log2 (dh_set_body (t\<lparr>entryStore := st\<rparr>) i b) = lg"
        by (simp add: table_log2_def dh_set_body_def lg_def)
      ultimately show ?thesis
        using dh_core_set_body [OF core i True b'] hit [OF True] map counts dl
        by (simp add: dh_inv_def) (simp add: dh_set_body_def)
    qed
    moreover have "operate_add ops t key (key_hash ops key) = Some (t\<lparr>entryStore := st\<rparr>, Some i)"
      using True by (simp add: operate_add_def s)
    ultimately show ?thesis
      using True same i len by (intro exI [of _ "t\<lparr>entryStore := st\<rparr>"] exI [of _ i]) simp
  next
    case False
    define removed where "removed = ENTRY_IS_REMOVED (st ! i)"
    define kh where "kh = (if removed then key_hash ops key OR COLLISION_FLAG else key_hash ops key)"
    define rc where "rc = (if removed then removedCount t - 1 else removedCount t)"
    obtain b0 where b0: "(case initEntry ops of None \<Rightarrow> Some (body (st ! i)) | Some init \<Rightarrow> init (body (st ! i)) key) = Some b0"
      using init by (cases "initEntry ops") auto
    define t' where "t' = t\<lparr>entryStore := st[i := \<lparr>keyHash = kh, body = b0\<rparr>], removedCount := rc,
        entryCount := entryCount t + 1\<rparr>"
    have add: "operate_add ops t key (key_hash ops key) = Some (t', Some i)"
      using False b0 by (simp add: operate_add_def s t'_def rc_def kh_def removed_def)
    have khs: "kh = key_hash ops key \<or> kh = key_hash ops key OR COLLISION_FLAG" by (simp add: kh_def)
    have flag: "odd kh" if "ENTRY_IS_REMOVED (st ! i)"
      using that by (simp add: kh_def removed_def COLLISION_FLAG_def odd_or_1)
    have live: "ENTRY_IS_LIVE \<lparr>keyHash = kh, body = b\<rparr>" for b :: 'e
      using live_codeD [OF key_hash_live, of ops key] by (auto simp: ENTRY_IS_LIVE_def kh_def)
    have rpos: "0 < removed_count st" if removed
      using that i len by (auto simp: removed_def removed_count_def filter_empty_conv intro!: bexI [of _ "st ! i"])
    have ec: "unat (entryCount t + 1) = live_count st + 1"
      using d(5) small counts by (simp add: unat_inc_exact)
    have rc: "unat rc = removed_count st - (if removed then 1 else 0)"
      using d(6) rpos counts by (simp add: rc_def unat_dec_exact word_neq_0_unat)
    have "dh_inv ops kab (dh_set_body t' i b) \<and>
       dh_map ops kab (entryStore (dh_set_body t' i b)) = (dh_map ops kab (entryStore t))(kab key \<mapsto> b)"
      if b: "kab (getKey ops b) = kab key" for b
    proof -
      note new = new_entry_core [OF core i path [OF False] False miss [OF False, folded map] b khs flag, folded removed_def]
      have set: "dh_set_body t' i b = t\<lparr>entryStore := st[i := \<lparr>keyHash = kh, body = b\<rparr>], removedCount := rc,
        entryCount := entryCount t + 1\<rparr>"
        using i len by (simp add: dh_set_body_def t'_def)
      have "table_log2 (dh_set_body t' i b) = lg" by (simp add: set table_log2_def lg_def)
      then show ?thesis
        using new ec rc dl(1-3,8) room counts map by (simp add: dh_inv_def set lg_def)
    qed
    then show ?thesis
      using add i len miss [OF False] live b0 dh_coreD(6) [OF core i False]
      by (intro exI [of _ t'] exI [of _ i]) (auto simp: t'_def)
  qed
qed

end

context dh_client
begin

subsection \<open>The public operations\<close>

lemma lookup_correct:
  assumes inv: "dh_inv ops kab t"
  shows "\<exists>i. JS_DHashTableOperate ops am t key JS_DHASH_LOOKUP = Some (t, Some i) \<and>
    i < length (entryStore t) \<and>
    (case dh_map ops kab (entryStore t) (kab key) of
       None \<Rightarrow> ENTRY_IS_FREE (entryStore t ! i)
     | Some b \<Rightarrow> ENTRY_IS_LIVE (entryStore t ! i) \<and> body (entryStore t ! i) = b)"
proof -
  note d = dh_invD [OF inv]
  obtain st i where s: "SearchTable ops t key (key_hash ops key) JS_DHASH_LOOKUP = Some (t\<lparr>entryStore := st\<rparr>, i)"
    and i: "i < 2 ^ table_log2 t" and st: "st = entryStore t"
    and hit: "ENTRY_IS_LIVE (st ! i) \<Longrightarrow> entry_key ops kab (st ! i) = kab key"
    and miss: "\<not> ENTRY_IS_LIVE (st ! i) \<Longrightarrow> dh_map ops kab (entryStore t) (kab key) = None"
    and free: "\<not> ENTRY_IS_LIVE (st ! i) \<Longrightarrow> ENTRY_IS_FREE (st ! i)"
    using SearchTable_outcome [OF d(4,1,7), of key JS_DHASH_LOOKUP] by (metis dh_op.distinct(1))
  have "JS_DHashTableOperate ops am t key JS_DHASH_LOOKUP = Some (t, Some i)"
    by (simp add: JS_DHashTableOperate_def Let_def s st)
  moreover have "dh_map ops kab (entryStore t) (kab key) = Some (body (st ! i))" if "ENTRY_IS_LIVE (st ! i)"
    unfolding dh_map_eq [OF d(4)] using i that hit st by blast
  ultimately show ?thesis
    using i dh_coreD(2) [OF d(4)] free miss st by (cases "ENTRY_IS_LIVE (st ! i)") auto
qed

lemma max_load_room:
  assumes "unat size' = 2 ^ lg" and "4 \<le> lg" and "lg < 24" and "n < unat (MAX_LOAD t size')"
  shows "n + 1 < 2 ^ lg"
proof -
  have m: "unat (maxAlphaFrac t) \<le> 255" using unsigned_less [of "maxAlphaFrac t", where 'a = nat] by simp
  have "(2::nat) ^ lg \<le> 2 ^ 23" using assms(3) by (rule pow_bound)
  with m have "unat (maxAlphaFrac t) * 2 ^ lg \<le> 255 * 2 ^ 23" by (rule mult_le_mono)
  then have "unat (ucast (maxAlphaFrac t) * size') = unat (maxAlphaFrac t) * 2 ^ lg"
    using assms(1) by (subst unat_mult_exact) (simp_all add: unat_ucast_up)
  then have "n < unat (maxAlphaFrac t) * 2 ^ lg div 256"
    using assms(4) by (simp add: MAX_LOAD_def unat_drop_bit_div)
  also have "\<dots> \<le> 255 * 2 ^ lg div 256" using m by (intro div_le_mono mult_le_mono1)
  finally have "n < 255 * 2 ^ lg div 256" .
  moreover have "(255 * 2 ^ lg) div 256 < (2::nat) ^ lg" by (simp add: div_less_iff_less_mult)
  ultimately show ?thesis by linarith
qed

lemma min_load_room:
  assumes "unat size' = 2 ^ lg" and "4 < lg" and "lg < 24" and "unat (minAlphaFrac t) < 128"
    and "n \<le> unat (MIN_LOAD t size')"
  shows "n < 2 ^ (lg - 1)"
proof -
  have pow: "(2::nat) ^ lg = 2 * 2 ^ (lg - 1)" using assms(2) by (simp flip: power_Suc)
  have "(2::nat) ^ lg \<le> 2 ^ 23" using assms(3) by (rule pow_bound)
  with assms(4) have "unat (minAlphaFrac t) * 2 ^ lg \<le> 127 * 2 ^ 23" by (intro mult_le_mono) simp_all
  then have "unat (ucast (minAlphaFrac t) * size') = unat (minAlphaFrac t) * 2 ^ lg"
    using assms(1) by (subst unat_mult_exact) (simp_all add: unat_ucast_up)
  then have "n \<le> unat (minAlphaFrac t) * 2 ^ lg div 256"
    using assms(5) by (simp add: MIN_LOAD_def unat_drop_bit_div)
  also have "\<dots> \<le> 127 * 2 ^ lg div 256" using assms(4) by (intro div_le_mono mult_le_mono1) simp
  also have "\<dots> < 2 ^ (lg - 1)" by (simp add: pow div_less_iff_less_mult)
  finally show ?thesis .
qed

text \<open>
  \<open>JS_DHASH_ADD\<close>. A null return means that growing failed and only one slot is free; then
  nothing has changed. Otherwise the entry is live, still has the old body when the key was
  present, and writing a body with the key makes the update of the map.
\<close>

lemma add_correct:
  assumes inv: "dh_inv ops kab t"
    and init: "\<forall>f b. initEntry ops = Some f \<longrightarrow> f b key \<noteq> None"
  shows "\<exists>t' r. JS_DHashTableOperate ops am t key JS_DHASH_ADD = Some (t', r) \<and>
    (case r of
       None \<Rightarrow> t' = t \<and> live_count (entryStore t) + removed_count (entryStore t) = 2 ^ table_log2 t - 1
     | Some i \<Rightarrow>
         i < length (entryStore t') \<and> ENTRY_IS_LIVE (entryStore t' ! i) \<and>
         (case dh_map ops kab (entryStore t) (kab key) of
       Some b \<Rightarrow> body (entryStore t' ! i) = b
     | None \<Rightarrow> initEntry ops = None \<longrightarrow> body (entryStore t' ! i) = zeroBody ops) \<and>
         (\<forall>b. kab (getKey ops b) = kab key \<longrightarrow>
            dh_inv ops kab (dh_set_body t' i b) \<and>
            dh_map ops kab (entryStore (dh_set_body t' i b)) = (dh_map ops kab (entryStore t))(kab key \<mapsto> b)))"
proof -
  note d = dh_invD [OF inv]
  note size = dh_inv_size [OF inv]
  define n where "n = live_count (entryStore t) + removed_count (entryStore t)"
  have n: "n < 2 ^ 23" using d(7) pow_bound [OF d(3)] by (simp add: n_def)
  have sum: "unat (entryCount t + removedCount t) = n"
    using d(5,6) n by (subst unat_add_exact) (simp_all add: n_def)
  show ?thesis
  proof (cases "MAX_LOAD t (JS_DHASH_TABLE_SIZE t) \<le> entryCount t + removedCount t")
    case False
    then have "n < unat (MAX_LOAD t (JS_DHASH_TABLE_SIZE t))"
      using sum by (simp add: word_le_nat_alt)
    then have "n + 1 < 2 ^ table_log2 t" using max_load_room [OF size d(2,3)] by blast
    from operate_add_correct [OF inv this [unfolded n_def] init]
    obtain t' i where add: "operate_add ops t key (key_hash ops key) = Some (t', Some i)"
      and rest: "i < length (entryStore t') \<and> ENTRY_IS_LIVE (entryStore t' ! i) \<and>
        (case dh_map ops kab (entryStore t) (kab key) of
       Some b \<Rightarrow> body (entryStore t' ! i) = b
     | None \<Rightarrow> initEntry ops = None \<longrightarrow> body (entryStore t' ! i) = zeroBody ops) \<and>
        (\<forall>b. kab (getKey ops b) = kab key \<longrightarrow>
           dh_inv ops kab (dh_set_body t' i b) \<and>
           dh_map ops kab (entryStore (dh_set_body t' i b)) = (dh_map ops kab (entryStore t))(kab key \<mapsto> b))"
      by blast
    have "JS_DHashTableOperate ops am t key JS_DHASH_ADD = Some (t', Some i)"
      using False add by (simp add: JS_DHashTableOperate_def Let_def)
    then show ?thesis using rest by (intro exI [of _ t'] exI [of _ "Some i"]) simp
  next
    case True
    define delta :: int where
      "delta = (if drop_bit 2 (JS_DHASH_TABLE_SIZE t) \<le> removedCount t then 0 else 1)"
    have room: "live_count (entryStore t) + 1 < 2 ^ nat (int (table_log2 t) + delta)"
    proof (cases "drop_bit 2 (JS_DHASH_TABLE_SIZE t) \<le> removedCount t")
      case True
      then have "2 ^ table_log2 t div 4 \<le> removed_count (entryStore t)"
        using d(6) by (simp add: word_le_nat_alt unat_drop_bit_div size)
      moreover have "4 * 4 \<le> (2::nat) ^ table_log2 t"
        using power_increasing [OF d(2), of "2::nat"] by simp
      ultimately show ?thesis using d(7) True by (simp add: delta_def)
    next
      case False
      then have "nat (int (table_log2 t) + delta) = Suc (table_log2 t)" by (simp add: delta_def)
      moreover have "1 < (2::nat) ^ table_log2 t" using d(2) by (intro one_less_power) simp_all
      ultimately show ?thesis using d(7) by simp
    qed
    have delta: "4 \<le> int (table_log2 t) + delta" "int (table_log2 t) + delta \<le> 24"
      using d(2,3) by (auto simp: delta_def)
    obtain ok t1 where change: "ChangeTable ops am t delta = Some (ok, t1)" and inv1: "dh_inv ops kab t1"
      and map1: "dh_map ops kab (entryStore t1) = dh_map ops kab (entryStore t)"
      and ok1: "if ok then removedCount t1 = 0 \<and> entryCount t1 = entryCount t \<and>
                int (table_log2 t1) = int (table_log2 t) + delta else t1 = t"
      using ChangeTable_correct [OF inv delta, of am] room by auto
    note d1 = dh_invD [OF inv1]
    have op: "JS_DHashTableOperate ops am t key JS_DHASH_ADD =
       (if \<not> ok \<and> entryCount t1 + removedCount t1 = JS_DHASH_TABLE_SIZE t - 1 then Some (t1, None)
        else operate_add ops t1 key (key_hash ops key))"
      using True change by (simp add: JS_DHashTableOperate_def Let_def delta_def [symmetric])
    have full: "unat (JS_DHASH_TABLE_SIZE t - 1) = 2 ^ table_log2 t - 1"
      using size by (subst unat_dec_exact) (auto simp: word_neq_0_unat)
    show ?thesis
    proof (cases "\<not> ok \<and> entryCount t1 + removedCount t1 = JS_DHASH_TABLE_SIZE t - 1")
      case True
      then have "t1 = t" using ok1 by simp
      moreover from True this have "n = 2 ^ table_log2 t - 1" using sum full by simp
      ultimately show ?thesis using True op by (intro exI [of _ t] exI [of _ None]) (simp add: n_def)
    next
      case False
      have "live_count (entryStore t1) + removed_count (entryStore t1) + 1 < 2 ^ table_log2 t1"
      proof (cases ok)
        case True
        then have "removed_count (entryStore t1) = 0" "live_count (entryStore t1) = live_count (entryStore t)"
          using ok1 d1(5,6) d(5) by auto
        moreover have "table_log2 t1 = nat (int (table_log2 t) + delta)" using ok1 True by (metis nat_int)
        ultimately show ?thesis using room by simp
      next
        case notok: False
        then have "t1 = t" using ok1 by simp
        with False notok have "unat (entryCount t + removedCount t) \<noteq> 2 ^ table_log2 t - 1"
          using full by (auto simp: word_unat_eq_iff)
        with \<open>t1 = t\<close> sum d(7) show ?thesis by (simp add: n_def)
      qed
      from operate_add_correct [OF inv1 this init, unfolded map1]
      obtain t' i where add: "operate_add ops t1 key (key_hash ops key) = Some (t', Some i)"
        and rest: "i < length (entryStore t') \<and> ENTRY_IS_LIVE (entryStore t' ! i) \<and>
          (case dh_map ops kab (entryStore t) (kab key) of
       Some b \<Rightarrow> body (entryStore t' ! i) = b
     | None \<Rightarrow> initEntry ops = None \<longrightarrow> body (entryStore t' ! i) = zeroBody ops) \<and>
          (\<forall>b. kab (getKey ops b) = kab key \<longrightarrow>
             dh_inv ops kab (dh_set_body t' i b) \<and>
             dh_map ops kab (entryStore (dh_set_body t' i b)) = (dh_map ops kab (entryStore t))(kab key \<mapsto> b))"
        by blast
      from op add have "JS_DHashTableOperate ops am t key JS_DHASH_ADD = Some (t', Some i)"
        unfolding if_not_P [OF False] by simp
      then show ?thesis using rest by (intro exI [of _ t'] exI [of _ "Some i"]) simp
    qed
  qed
qed

text \<open>\<open>JS_DHASH_REMOVE\<close>: the key is gone, whether or not the table can shrink.\<close>

lemma remove_correct:
  assumes inv: "dh_inv ops kab t"
  shows "\<exists>t'. JS_DHashTableOperate ops am t key JS_DHASH_REMOVE = Some (t', None) \<and>
    dh_inv ops kab t' \<and>
    dh_map ops kab (entryStore t') = (dh_map ops kab (entryStore t))(kab key := None)"
proof -
  note d = dh_invD [OF inv]
  obtain st i where s: "SearchTable ops t key (key_hash ops key) JS_DHASH_REMOVE = Some (t\<lparr>entryStore := st\<rparr>, i)"
    and i: "i < 2 ^ table_log2 t" and st: "st = entryStore t"
    and hit: "ENTRY_IS_LIVE (st ! i) \<Longrightarrow> entry_key ops kab (st ! i) = kab key"
    and miss: "\<not> ENTRY_IS_LIVE (st ! i) \<Longrightarrow> dh_map ops kab (entryStore t) (kab key) = None"
    using SearchTable_outcome [OF d(4,1,7), of key JS_DHASH_REMOVE] by (metis dh_op.distinct(5))
  show ?thesis
  proof (cases "ENTRY_IS_LIVE (entryStore t ! i)")
    case False
    then have "JS_DHashTableOperate ops am t key JS_DHASH_REMOVE = Some (t, None)"
      by (simp add: JS_DHashTableOperate_def Let_def s st)
    moreover have "(dh_map ops kab (entryStore t))(kab key := None) = dh_map ops kab (entryStore t)"
      using miss False st by (intro ext) simp
    ultimately show ?thesis using inv by (intro exI [of _ t]) simp
  next
    case True
    define t1 where "t1 = JS_DHashTableRawRemove ops t i"
    note r = DHash_RawRemove_correct [OF inv i True clear_zeroes, folded t1_def]
    have map1: "dh_map ops kab (entryStore t1) = (dh_map ops kab (entryStore t))(kab key := None)"
      using r(2) hit True st by simp
    note d1 = dh_invD [OF r(1)]
    have op: "JS_DHashTableOperate ops am t key JS_DHASH_REMOVE =
       (if JS_DHASH_MIN_SIZE < JS_DHASH_TABLE_SIZE t1 \<and> entryCount t1 \<le> MIN_LOAD t1 (JS_DHASH_TABLE_SIZE t1)
        then map_option (\<lambda>(_, t). (t, None)) (ChangeTable ops am t1 (-1)) else Some (t1, None))"
      using True by (simp add: JS_DHashTableOperate_def Let_def s st t1_def)
    show ?thesis
    proof (cases "JS_DHASH_MIN_SIZE < JS_DHASH_TABLE_SIZE t1 \<and> entryCount t1 \<le> MIN_LOAD t1 (JS_DHASH_TABLE_SIZE t1)")
      case False
      then show ?thesis using op [unfolded if_not_P [OF False]] r(1) map1 by (intro exI [of _ t1]) simp
    next
      case shrink: True
      note size = dh_inv_size [OF r(1)]
      have "(2::nat) ^ 4 < 2 ^ table_log2 t1"
        using shrink size by (simp add: word_less_nat_alt JS_DHASH_MIN_SIZE_def)
      then have big: "4 < table_log2 t1" by (rule power_less_imp_less_exp [rotated]) simp
      have "live_count (entryStore t1) < 2 ^ nat (int (table_log2 t1) + -1)"
        using min_load_room [OF size _ d1(3,8)] big shrink d1(5) by (simp add: word_le_nat_alt nat_diff_distrib)
      with ChangeTable_correct [OF r(1), of "-1" am] big d1(3)
      obtain ok t' where "ChangeTable ops am t1 (-1) = Some (ok, t')" "dh_inv ops kab t'"
        "dh_map ops kab (entryStore t') = dh_map ops kab (entryStore t1)"
        by auto
      then show ?thesis using op shrink map1 by (intro exI [of _ t']) simp
    qed
  qed
qed

end

context dh_client
begin

subsection \<open>Enumerating\<close>

text \<open>
  One pass over slots with an enumerator whose decision depends on the entry only and that
  never stops early: the entries it marks for removal go, the rest stay.
\<close>

lemma enum_loop_filters:
  assumes "dh_inv ops kab t" and "\<And>j. j \<in> set js \<Longrightarrow> j < 2 ^ table_log2 t" and "distinct js"
    and nostop: "\<And>b. sel b AND 1 = 0"
  shows "\<exists>t' i' d'. enum_loop ops (\<lambda>b n s. (sel b, b, s)) js t n did s = (t', i', d', s) \<and>
    dh_inv ops kab t' \<and> table_log2 t' = table_log2 t \<and>
    unat i' = (unat n + length (filter (\<lambda>j. ENTRY_IS_LIVE (entryStore t ! j)) js)) mod 2 ^ 32 \<and>
    (\<forall>a. dh_map ops kab (entryStore t') a =
       (if \<exists>j\<in>set js. ENTRY_IS_LIVE (entryStore t ! j) \<and> entry_key ops kab (entryStore t ! j) = a \<and>
                       sel (body (entryStore t ! j)) AND 2 \<noteq> 0
        then None else dh_map ops kab (entryStore t) a))"
  using assms(1-3)
proof (induction js arbitrary: t n did)
  case Nil
  have "unat n < 2 ^ 32" using unsigned_less [of n, where 'a = nat] by simp
  with Nil show ?case by simp
next
  case (Cons j js)
  define e where "e = entryStore t ! j"
  show ?case
  proof (cases "ENTRY_IS_LIVE e")
    case False
    from Cons.IH [of t n did] Cons.prems show ?thesis
      using False by (auto simp: e_def)
  next
    case True
    have same: "t\<lparr>entryStore := (entryStore t)[j := (entryStore t ! j)\<lparr>body := body (entryStore t ! j)\<rparr>]\<rparr> = t"
      by simp
    define t1 where "t1 = (if sel (body e) AND 2 \<noteq> 0 then JS_DHashTableRawRemove ops t j else t)"
    define did1 where "did1 = (if sel (body e) AND 2 \<noteq> 0 then True else did)"
    have step: "enum_loop ops (\<lambda>b n s. (sel b, b, s)) (j # js) t n did s =
        enum_loop ops (\<lambda>b n s. (sel b, b, s)) js t1 (n + 1) did1 s"
      using True nostop same by (simp add: Let_def e_def t1_def did1_def)
    have j: "j < 2 ^ table_log2 t" using Cons.prems(2) by simp
    have inv1: "dh_inv ops kab t1" and log1: "table_log2 t1 = table_log2 t"
      using Cons.prems(1) DHash_RawRemove_correct(1) [OF Cons.prems(1) j _ clear_zeroes] True by (simp_all add: t1_def e_def)
    have map1: "dh_map ops kab (entryStore t1) =
        (if sel (body e) AND 2 \<noteq> 0 then (dh_map ops kab (entryStore t))(entry_key ops kab e := None)
         else dh_map ops kab (entryStore t))"
      using DHash_RawRemove_correct(2) [OF Cons.prems(1) j _ clear_zeroes] True by (simp add: t1_def e_def)
    have others: "entryStore t1 ! k = entryStore t ! k" if "k \<in> set js" for k
    proof -
      have "k \<noteq> j" using Cons.prems(3) that by auto
      then show ?thesis by (simp add: t1_def RawRemove_eq)
    qed
    have cnt: "filter (\<lambda>j. ENTRY_IS_LIVE (entryStore t1 ! j)) js = filter (\<lambda>j. ENTRY_IS_LIVE (entryStore t ! j)) js"
      using others by (auto intro: filter_cong)
    have "\<exists>t' i' d'. enum_loop ops (\<lambda>b n s. (sel b, b, s)) js t1 (n + 1) did1 s = (t', i', d', s) \<and>
      dh_inv ops kab t' \<and> table_log2 t' = table_log2 t1 \<and>
      unat i' = (unat (n + 1) + length (filter (\<lambda>j. ENTRY_IS_LIVE (entryStore t1 ! j)) js)) mod 2 ^ 32 \<and>
      (\<forall>a. dh_map ops kab (entryStore t') a =
       (if \<exists>j\<in>set js. ENTRY_IS_LIVE (entryStore t1 ! j) \<and> entry_key ops kab (entryStore t1 ! j) = a \<and>
                       sel (body (entryStore t1 ! j)) AND 2 \<noteq> 0
        then None else dh_map ops kab (entryStore t1) a))"
      by (rule Cons.IH [OF inv1]) (use Cons.prems log1 in auto)
    then obtain t' i' d' where r: "enum_loop ops (\<lambda>b n s. (sel b, b, s)) js t1 (n + 1) did1 s = (t', i', d', s)"
      "dh_inv ops kab t'" "table_log2 t' = table_log2 t"
      and i': "unat i' = (unat (n + 1) + length (filter (\<lambda>j. ENTRY_IS_LIVE (entryStore t ! j)) js)) mod 2 ^ 32"
      and m: "\<And>a. dh_map ops kab (entryStore t') a =
       (if \<exists>j\<in>set js. ENTRY_IS_LIVE (entryStore t ! j) \<and> entry_key ops kab (entryStore t ! j) = a \<and>
                       sel (body (entryStore t ! j)) AND 2 \<noteq> 0
        then None else dh_map ops kab (entryStore t1) a)"
      unfolding cnt log1 using others by (auto cong: bex_cong)
    have "unat i' = (unat n + Suc (length (filter (\<lambda>j. ENTRY_IS_LIVE (entryStore t ! j)) js))) mod 2 ^ 32"
      unfolding i' by (simp add: unat_word_ariths mod_simps)
    then show ?thesis
      unfolding step r(1) using r(2,3) True m map1 by (auto simp: e_def)
  qed
qed

lemma removed_load_room:
  assumes "n < 2 ^ 23" and "u + drop_bit 1 u = (c :: u32)" and "unat u = n"
  shows "unat c = n + n div 2"
  using assms unat_add_exact [of u "drop_bit 1 u"] by (auto simp: unat_drop_bit_div)

lemma enumerate_filters:
  assumes inv: "dh_inv ops kab t" and nostop: "\<And>b. sel b AND 1 = 0"
  shows "\<exists>t' n'. JS_DHashTableEnumerate ops am (\<lambda>b n s. (sel b, b, s)) t s = Some (t', n', s) \<and>
    dh_inv ops kab t' \<and> unat n' = live_count (entryStore t) \<and>
    (\<forall>a. dh_map ops kab (entryStore t') a =
       (case dh_map ops kab (entryStore t) a of
          None \<Rightarrow> None | Some b \<Rightarrow> if sel b AND 2 \<noteq> 0 then None else Some b))"
proof -
  note d = dh_invD [OF inv]
  note size = dh_inv_size [OF inv]
  define js where "js = [0..<unat (JS_DHASH_TABLE_SIZE t)]"
  have js: "distinct js" "\<And>j. j \<in> set js \<longleftrightarrow> j < 2 ^ table_log2 t" by (simp_all add: js_def size)
  obtain t1 i d1 where loop: "enum_loop ops (\<lambda>b n s. (sel b, b, s)) js t 0 False s = (t1, i, d1, s)"
    and inv1: "dh_inv ops kab t1" and log1: "table_log2 t1 = table_log2 t"
    and i: "unat i = length (filter (\<lambda>j. ENTRY_IS_LIVE (entryStore t ! j)) js) mod 2 ^ 32"
    and m: "\<And>a. dh_map ops kab (entryStore t1) a =
       (if \<exists>j\<in>set js. ENTRY_IS_LIVE (entryStore t ! j) \<and> entry_key ops kab (entryStore t ! j) = a \<and>
                       sel (body (entryStore t ! j)) AND 2 \<noteq> 0
        then None else dh_map ops kab (entryStore t) a)"
    using enum_loop_filters [where sel = sel and n = 0 and did = False and s = s, OF inv _ js(1) nostop] js(2) by auto
  have cnt: "length (filter (\<lambda>j. ENTRY_IS_LIVE (entryStore t ! j)) js) = live_count (entryStore t)"
    using dh_coreD(2) [OF d(4)]
    by (simp add: js_def size live_count_def length_filter_conv_card cong: conj_cong)
  have small: "live_count (entryStore t) < 2 ^ 23" using d(7) pow_bound [OF d(3)] by simp
  have i': "unat i = live_count (entryStore t)" using i cnt small by simp
  have map1: "dh_map ops kab (entryStore t1) a =
       (case dh_map ops kab (entryStore t) a of
          None \<Rightarrow> None | Some b \<Rightarrow> if sel b AND 2 \<noteq> 0 then None else Some b)" for a
  proof (cases "dh_map ops kab (entryStore t) a")
    case None
    then show ?thesis by (simp add: m)
  next
    case (Some b)
    then obtain k where k: "k < 2 ^ table_log2 t" "ENTRY_IS_LIVE (entryStore t ! k)"
      "entry_key ops kab (entryStore t ! k) = a" "body (entryStore t ! k) = b"
      using dh_map_eq [OF d(4)] by blast
    have "(\<exists>j\<in>set js. ENTRY_IS_LIVE (entryStore t ! j) \<and> entry_key ops kab (entryStore t ! j) = a \<and>
                       sel (body (entryStore t ! j)) AND 2 \<noteq> 0) \<longleftrightarrow> sel b AND 2 \<noteq> 0"
      using dh_coreD(5) [OF d(4) _ k(1) _ k(2)] k js(2) by metis
    then show ?thesis using Some by (simp add: m)
  qed
  define shrink where "shrink \<longleftrightarrow> d1 \<and> (drop_bit 2 (JS_DHASH_TABLE_SIZE t) \<le> removedCount t1
      \<or> JS_DHASH_MIN_SIZE < JS_DHASH_TABLE_SIZE t \<and> entryCount t1 \<le> MIN_LOAD t1 (JS_DHASH_TABLE_SIZE t))"
  define c0 where "c0 = entryCount t1 + drop_bit 1 (entryCount t1)"
  define c where "c = (if c0 < JS_DHASH_MIN_SIZE then JS_DHASH_MIN_SIZE else c0)"
  note e1 = dh_invD [OF inv1]
  have enum: "JS_DHashTableEnumerate ops am (\<lambda>b n s. (sel b, b, s)) t s =
     (if shrink then map_option (\<lambda>(_, t). (t, i, s))
        (ChangeTable ops am t1 (int (JS_CeilingLog2 c) - (32 - hashShift t1)))
      else Some (t1, i, s))"
    unfolding JS_DHashTableEnumerate_def Let_def js_def [symmetric] loop prod.case shrink_def c_def c0_def
    by (rule refl)
  show ?thesis
  proof (cases shrink)
    case False
    then show ?thesis using enum inv1 i' map1 by simp
  next
    case True
    have n1: "live_count (entryStore t1) < 2 ^ 23" using e1(7) pow_bound [OF e1(3)] by simp
    have c0: "unat c0 = live_count (entryStore t1) + live_count (entryStore t1) div 2"
      using removed_load_room [OF n1 c0_def [symmetric] e1(5)] .
    have cmin: "unat c = max 16 (unat c0)"
      by (auto simp: c_def JS_DHASH_MIN_SIZE_def word_less_nat_alt)
    then have "c \<noteq> 0" by auto
    note ceil = JS_CeilingLog2_bounds [OF this]
    have lo: "4 \<le> JS_CeilingLog2 c"
    proof (rule ccontr)
      assume "\<not> 4 \<le> JS_CeilingLog2 c"
      then have "(2::nat) ^ JS_CeilingLog2 c \<le> 2 ^ 3" by (intro power_increasing) simp_all
      with ceil cmin show False by simp
    qed
    have hi: "JS_CeilingLog2 c \<le> 24"
    proof -
      have "unat c \<le> 2 ^ 24" using cmin c0 n1 by simp
      with ceil show ?thesis by blast
    qed
    have room: "live_count (entryStore t1) < 2 ^ JS_CeilingLog2 c"
    proof (cases "live_count (entryStore t1) < 16")
      case True
      with ceil cmin show ?thesis by linarith
    next
      case False
      with c0 cmin have "live_count (entryStore t1) < unat c" by linarith
      with ceil show ?thesis by linarith
    qed
    define delta where "delta = int (JS_CeilingLog2 c) - (32 - hashShift t1)"
    have sum: "int (table_log2 t1) + delta = int (JS_CeilingLog2 c)" using e1(1) by (simp add: delta_def)
    obtain ok t' where "ChangeTable ops am t1 delta = Some (ok, t')" "dh_inv ops kab t'"
      "dh_map ops kab (entryStore t') = dh_map ops kab (entryStore t1)"
      using ChangeTable_correct [OF inv1, of delta am] lo hi room by (auto simp: sum)
    then show ?thesis using enum True i' map1 by (simp add: delta_def)
  qed
qed

text \<open>Writing a new body with the same key through a live entry.\<close>

lemma set_body_correct:
  assumes inv: "dh_inv ops kab t" and i: "i < length (entryStore t)" "ENTRY_IS_LIVE (entryStore t ! i)"
    and b: "kab (getKey ops b) = entry_key ops kab (entryStore t ! i)"
  shows "dh_inv ops kab (dh_set_body t i b)"
    and "dh_map ops kab (entryStore (dh_set_body t i b)) =
           (dh_map ops kab (entryStore t))(entry_key ops kab (entryStore t ! i) \<mapsto> b)"
proof -
  note d = dh_invD [OF inv]
  define st where "st = entryStore t"
  have i': "i < 2 ^ table_log2 t" using i(1) dh_coreD(2) [OF d(4)] by simp
  have live: "ENTRY_IS_LIVE ((st ! i)\<lparr>body := b\<rparr>)" using i(2) by (simp add: ENTRY_IS_LIVE_def st_def)
  have counts: "live_count (st[i := (st ! i)\<lparr>body := b\<rparr>]) = live_count st"
    "removed_count (st[i := (st ! i)\<lparr>body := b\<rparr>]) = removed_count st"
    using store_update_counts [of i st "(st ! i)\<lparr>body := b\<rparr>"] i live live_removed_disjoint
    by (auto simp: ENTRY_IS_REMOVED_def st_def split: if_splits)
  have log: "table_log2 (dh_set_body t i b) = table_log2 t" by (simp add: table_log2_def dh_set_body_def)
  show "dh_inv ops kab (dh_set_body t i b)"
    using dh_core_set_body(1) [OF d(4) i' i(2) b] d counts
    by (simp add: dh_inv_def log) (simp add: dh_set_body_def st_def)
  show "dh_map ops kab (entryStore (dh_set_body t i b)) =
           (dh_map ops kab (entryStore t))(entry_key ops kab (entryStore t ! i) \<mapsto> b)"
    using dh_core_set_body(2) [OF d(4) i' i(2) b] by (simp add: dh_set_body_def)
qed

lemma live_entry_mapped:
  assumes "dh_inv ops kab t" and "i < length (entryStore t)" "ENTRY_IS_LIVE (entryStore t ! i)"
  shows "dh_map ops kab (entryStore t) (entry_key ops kab (entryStore t ! i)) = Some (body (entryStore t ! i))"
  unfolding dh_map_eq [OF dh_invD(4) [OF assms(1)]]
  using assms dh_coreD(2) [OF dh_invD(4) [OF assms(1)]] by auto

end

subsection \<open>Initialising\<close>

lemma Init_correct:
  assumes cap: "unat capacity \<le> 2 ^ 23"
    and am: "\<And>n. am n"
  shows "\<exists>t. JS_DHashTableInit ops am entry_size capacity = Some t \<and> dh_inv ops kab t \<and>
    dh_map ops kab (entryStore t) = Map.empty \<and> unat capacity \<le> 2 ^ table_log2 t"
proof -
  define c where "c = (if capacity < JS_DHASH_MIN_SIZE then JS_DHASH_MIN_SIZE else capacity)"
  have cmax: "unat c = max 16 (unat capacity)"
    by (auto simp: c_def JS_DHASH_MIN_SIZE_def word_less_nat_alt)
  then have "c \<noteq> 0" by auto
  note ceil = JS_CeilingLog2_bounds [OF this]
  define lg where "lg = JS_CeilingLog2 c"
  have lo: "4 \<le> lg"
  proof (rule ccontr)
    assume "\<not> 4 \<le> lg"
    then have "(2::nat) ^ lg \<le> 2 ^ 3" by (intro power_increasing) simp_all
    with ceil cmax show False by (simp add: lg_def)
  qed
  have "unat c \<le> 2 ^ 23" using cmax cap by simp
  with ceil have hi: "lg \<le> 23" by (simp add: lg_def)
  have capw: "unat (JS_BIT lg) = 2 ^ lg" using hi by (simp add: unat_JS_BIT)
  have small: "\<not> JS_DHASH_SIZE_LIMIT \<le> JS_BIT lg"
  proof -
    have "(2::nat) ^ lg < 2 ^ 24" using hi by (intro power_strict_increasing) simp_all
    then show ?thesis by (simp add: JS_DHASH_SIZE_LIMIT_def word_le_nat_alt capw unat_JS_BIT)
  qed
  define t where "t = \<lparr>hashShift = 32 - int lg, maxAlphaFrac = 0xC0, minAlphaFrac = 0x40,
      entrySize = entry_size, entryCount = 0, removedCount = 0, generation = 0,
      entryStore = replicate (2 ^ lg) \<lparr>keyHash = 0, body = zeroBody ops\<rparr>\<rparr>"
  have init: "JS_DHashTableInit ops am entry_size capacity = Some t"
    using small am by (simp add: JS_DHashTableInit_def Let_def c_def [symmetric] lg_def [symmetric] t_def capw)
  have log: "table_log2 t = lg" by (simp add: table_log2_def t_def)
  have "dh_inv ops kab t"
    unfolding dh_inv_def log using lo hi by (simp add: t_def dh_core_fresh)
  moreover have "unat capacity \<le> 2 ^ lg" using ceil cmax by (simp add: lg_def)
  ultimately show ?thesis using init log by (simp add: t_def)
qed

end
