(* ===== verification/JS_DHash_Ops.thy ===== *)
theory JS_DHash_Ops
  imports JS_DHash_Map
begin

text \<open>
  The virtual operations jsdhash.c supplies: the stub operations on pointer keys and the
  string-key operations. Both honour the contract \<open>dh_client\<close>; the properties of the
  public interface are stated on the stub operations, which every table of the engine but
  one uses. An entry body is the key pointer and the fields the client adds after it.
\<close>

section \<open>Stub operations\<close>

type_synonym ptr = u64

definition JS_DHashGetKeyStub :: "ptr \<times> 'v \<Rightarrow> ptr" where
  "JS_DHashGetKeyStub stub = fst stub"

text \<open>\<open>(JSDHashNumber)(unsigned long)key >> 2\<close>: the cast truncates before the shift.\<close>

definition JS_DHashVoidPtrKeyStub :: "ptr \<Rightarrow> u32" where
  "JS_DHashVoidPtrKeyStub key = drop_bit 2 (ucast key)"

definition JS_DHashMatchEntryStub :: "ptr \<times> 'v \<Rightarrow> ptr \<Rightarrow> bool" where
  "JS_DHashMatchEntryStub stub key \<longleftrightarrow> fst stub = key"

definition JS_DHashMoveEntryStub :: "'e \<Rightarrow> 'e" where
  "JS_DHashMoveEntryStub from_entry = from_entry"

definition JS_DHashClearEntryStub :: "'e \<Rightarrow> 'e \<Rightarrow> 'e" where
  "JS_DHashClearEntryStub zero entry = zero"

text \<open>\<open>z\<close> is the value of the client's fields when their bytes are zero.\<close>

definition stub_ops :: "'v \<Rightarrow> (ptr, ptr \<times> 'v) dh_ops" where
  "stub_ops z = \<lparr>getKey = JS_DHashGetKeyStub, hashKey = JS_DHashVoidPtrKeyStub,
     matchEntry = JS_DHashMatchEntryStub, moveEntry = JS_DHashMoveEntryStub,
     clearEntry = JS_DHashClearEntryStub (0, z), initEntry = None, zeroBody = (0, z)\<rparr>"

interpretation stub: dh_client "stub_ops z" "\<lambda>k. k"
  by unfold_locales
     (auto simp: stub_ops_def JS_DHashMatchEntryStub_def JS_DHashGetKeyStub_def
        JS_DHashMoveEntryStub_def JS_DHashClearEntryStub_def)

section \<open>String keys\<close>

text \<open>
  A C string is the list of its bytes before the terminating zero; \<open>None\<close> is the null
  pointer, which \<open>JS_DHashMatchStringKey\<close> tolerates and \<open>JS_DHashStringKey\<close> does not.
\<close>

definition JS_DHashStringKey :: "u8 list option \<Rightarrow> u32" where
  "JS_DHashStringKey key =
     (case key of
        Some s \<Rightarrow> fold (\<lambda>c h. (drop_bit 28 h XOR push_bit 4 h) XOR ucast c) s 0
      | None \<Rightarrow> undefined)"

definition JS_DHashMatchStringKey :: "u8 list option \<times> 'v \<Rightarrow> u8 list option \<Rightarrow> bool" where
  "JS_DHashMatchStringKey stub key \<longleftrightarrow>
     (case (fst stub, key) of
        (None, None) \<Rightarrow> True
      | (Some s, Some k) \<Rightarrow> s = k
      | _ \<Rightarrow> False)"

definition string_ops :: "'v \<Rightarrow> (u8 list option, u8 list option \<times> 'v) dh_ops" where
  "string_ops z = \<lparr>getKey = fst, hashKey = JS_DHashStringKey,
     matchEntry = JS_DHashMatchStringKey, moveEntry = JS_DHashMoveEntryStub,
     clearEntry = JS_DHashClearEntryStub (None, z), initEntry = None, zeroBody = (None, z)\<rparr>"

interpretation str: dh_client "string_ops z" "\<lambda>k. k"
  by unfold_locales
     (auto simp: string_ops_def JS_DHashMatchStringKey_def JS_DHashMoveEntryStub_def
        JS_DHashClearEntryStub_def split: option.splits)

lemmas stub_simps = stub_ops_def JS_DHashGetKeyStub_def JS_DHashMatchEntryStub_def
  JS_DHashMoveEntryStub_def JS_DHashClearEntryStub_def JS_DHashVoidPtrKeyStub_def

lemma stub_ops_sel [simp]:
  "initEntry (stub_ops z) = None" "zeroBody (stub_ops z) = (0, z)" "getKey (stub_ops z) = fst"
  by (auto simp: stub_simps)

section \<open>Properties of the public interface\<close>

text \<open>A fresh table to try the operations on.\<close>

lemma fresh_stub_table:
  "\<exists>t. JS_DHashTableInit (stub_ops (0 :: nat)) (\<lambda>_. True) 24 0 = Some t \<and>
       dh_inv (stub_ops 0) (\<lambda>k. k) t \<and> dh_map (stub_ops 0) (\<lambda>k. k) (entryStore t) = Map.empty"
  using Init_correct [where ops = "stub_ops (0 :: nat)" and kab = "\<lambda>k. k" and am = "\<lambda>_. True"
      and capacity = 0 and entry_size = 24] by auto

lemma stub_add_correct:
  assumes "dh_inv (stub_ops z) (\<lambda>k. k) t"
  shows "\<exists>t' r. JS_DHashTableOperate (stub_ops z) am t key JS_DHASH_ADD = Some (t', r) \<and>
    (case r of
       None \<Rightarrow> t' = t \<and> live_count (entryStore t) + removed_count (entryStore t) = 2 ^ table_log2 t - 1
     | Some i \<Rightarrow>
         i < length (entryStore t') \<and> ENTRY_IS_LIVE (entryStore t' ! i) \<and>
         body (entryStore t' ! i) =
           (case dh_map (stub_ops z) (\<lambda>k. k) (entryStore t) key of Some b \<Rightarrow> b | None \<Rightarrow> (0, z)) \<and>
         (\<forall>v. dh_inv (stub_ops z) (\<lambda>k. k) (dh_set_body t' i (key, v)) \<and>
              dh_map (stub_ops z) (\<lambda>k. k) (entryStore (dh_set_body t' i (key, v))) =
                (dh_map (stub_ops z) (\<lambda>k. k) (entryStore t))(key \<mapsto> (key, v))))"
proof -
  have "initEntry (stub_ops z) = None" "zeroBody (stub_ops z) = (0, z)"
    "getKey (stub_ops z) (key, v) = key" for v
    by (simp_all add: stub_simps)
  with stub.add_correct [OF assms, of key am] show ?thesis
    by (fastforce split: option.splits)
qed

text \<open>
  adding a key returns, whatever the allocator does; either growing failed and a single
  free slot is left (null, nothing changed), or the entry is live, holds the old body of the
  key or zeroed memory, and once the client has written a body with that key through it the
  table keeps its invariant and is the map updated at the key.
\<close>

theorem dhash_add_updates_map:
  assumes "dh_inv (stub_ops z) (\<lambda>k. k) t"
  shows "\<exists>t' r. JS_DHashTableOperate (stub_ops z) am t key JS_DHASH_ADD = Some (t', r) \<and>
    (case r of
       None \<Rightarrow> t' = t \<and> live_count (entryStore t) + removed_count (entryStore t) = 2 ^ table_log2 t - 1
     | Some i \<Rightarrow>
         i < length (entryStore t') \<and> ENTRY_IS_LIVE (entryStore t' ! i) \<and>
         body (entryStore t' ! i) =
           (case dh_map (stub_ops z) (\<lambda>k. k) (entryStore t) key of Some b \<Rightarrow> b | None \<Rightarrow> (0, z)) \<and>
         (\<forall>v. dh_inv (stub_ops z) (\<lambda>k. k) (dh_set_body t' i (key, v)) \<and>
              dh_map (stub_ops z) (\<lambda>k. k) (entryStore (dh_set_body t' i (key, v))) =
                (dh_map (stub_ops z) (\<lambda>k. k) (entryStore t))(key \<mapsto> (key, v))))"
  by (rule stub_add_correct [OF assms])

theorem dhash_add_updates_map_witness:
  "\<exists>t t' r. dh_inv (stub_ops (0 :: nat)) (\<lambda>k. k) t \<and>
     JS_DHashTableOperate (stub_ops 0) (\<lambda>_. True) t 8 JS_DHASH_ADD = Some (t', r)"
  using fresh_stub_table dhash_add_updates_map [where z = "0 :: nat" and am = "\<lambda>_. True" and key = 8]
  by blast

text \<open>
  C14: removing a key returns null and leaves the map without the key, whether or not the
  table was shrunk and whether or not memory for the smaller table was available.
\<close>

theorem dhash_remove_deletes_key:
  assumes "dh_inv (stub_ops z) (\<lambda>k. k) t"
  shows "\<exists>t'. JS_DHashTableOperate (stub_ops z) am t key JS_DHASH_REMOVE = Some (t', None) \<and>
    dh_inv (stub_ops z) (\<lambda>k. k) t' \<and>
    dh_map (stub_ops z) (\<lambda>k. k) (entryStore t') =
      (dh_map (stub_ops z) (\<lambda>k. k) (entryStore t))(key := None)"
  by (rule stub.remove_correct [OF assms])

theorem dhash_remove_deletes_key_witness:
  "\<exists>t t'. dh_inv (stub_ops (0 :: nat)) (\<lambda>k. k) t \<and>
     JS_DHashTableOperate (stub_ops 0) (\<lambda>_. False) t 8 JS_DHASH_REMOVE = Some (t', None)"
  using fresh_stub_table dhash_remove_deletes_key [where z = "0 :: nat" and am = "\<lambda>_. False" and key = 8]
  by blast

text \<open>
  looking a key up changes nothing and returns the entry with the mapped body, or a free
  slot when the key is not mapped; the search never runs out of the table nor loops.
\<close>

theorem dhash_lookup_reads_map:
  assumes "dh_inv (stub_ops z) (\<lambda>k. k) t"
  shows "\<exists>i. JS_DHashTableOperate (stub_ops z) am t key JS_DHASH_LOOKUP = Some (t, Some i) \<and>
    i < length (entryStore t) \<and>
    (case dh_map (stub_ops z) (\<lambda>k. k) (entryStore t) key of
       None \<Rightarrow> ENTRY_IS_FREE (entryStore t ! i)
     | Some b \<Rightarrow> ENTRY_IS_LIVE (entryStore t ! i) \<and> body (entryStore t ! i) = b)"
  by (rule stub.lookup_correct [OF assms])

theorem dhash_lookup_reads_map_witness:
  "\<exists>t i. dh_inv (stub_ops (0 :: nat)) (\<lambda>k. k) t \<and>
     JS_DHashTableOperate (stub_ops 0) (\<lambda>_. True) t 8 JS_DHASH_LOOKUP = Some (t, Some i)"
  using fresh_stub_table dhash_lookup_reads_map [where z = "0 :: nat" and am = "\<lambda>_. True" and key = 8]
  by blast

text \<open>
  enumerating with a decision that depends on the entry and never stops visits every
  live entry once, removes exactly the entries marked for removal, and keeps the invariant
  through the shrink or compress that follows.
\<close>

theorem dhash_enumerate_filters:
  assumes "dh_inv (stub_ops z) (\<lambda>k. k) t" and "\<And>b. sel b AND 1 = 0"
  shows "\<exists>t' n'. JS_DHashTableEnumerate (stub_ops z) am (\<lambda>b n s. (sel b, b, s)) t s = Some (t', n', s) \<and>
    dh_inv (stub_ops z) (\<lambda>k. k) t' \<and> unat n' = live_count (entryStore t) \<and>
    (\<forall>a. dh_map (stub_ops z) (\<lambda>k. k) (entryStore t') a =
       (case dh_map (stub_ops z) (\<lambda>k. k) (entryStore t) a of
          None \<Rightarrow> None | Some b \<Rightarrow> if sel b AND 2 \<noteq> 0 then None else Some b))"
  by (rule stub.enumerate_filters [OF assms])

theorem dhash_enumerate_filters_witness:
  "\<exists>t t' n'. dh_inv (stub_ops (0 :: nat)) (\<lambda>k. k) t \<and>
     JS_DHashTableEnumerate (stub_ops 0) (\<lambda>_. True)
       (\<lambda>b n s. (if snd b = 0 then 2 else 0, b, s)) t () = Some (t', n', ())"
proof -
  obtain t where t: "dh_inv (stub_ops (0 :: nat)) (\<lambda>k. k) t" using fresh_stub_table by blast
  have "(if snd b = 0 then 2 else 0) AND (1 :: u32) = 0" for b :: "ptr \<times> nat" by simp
  from dhash_enumerate_filters [OF t, where sel = "\<lambda>b. if snd b = 0 then 2 else 0",
      OF this, where am = "\<lambda>_. True" and s = "()"] t
  show ?thesis by blast
qed

text \<open>
  initialising with any capacity up to \<open>2 ^ 23\<close> and memory available gives an empty
  table that keeps the invariant and has at least the capacity asked for.
\<close>

theorem dhash_init_empty:
  assumes "unat capacity \<le> 2 ^ 23" and "\<And>n. am n"
  shows "\<exists>t. JS_DHashTableInit (stub_ops z) am entry_size capacity = Some t \<and>
    dh_inv (stub_ops z) (\<lambda>k. k) t \<and> dh_map (stub_ops z) (\<lambda>k. k) (entryStore t) = Map.empty \<and>
    unat capacity \<le> 2 ^ table_log2 t"
  by (rule Init_correct [OF assms])

theorem dhash_init_empty_witness:
  "\<exists>t. JS_DHashTableInit (stub_ops (0 :: nat)) (\<lambda>_. True) 16 100 = Some t \<and> 100 \<le> (2 :: nat) ^ table_log2 t"
  using dhash_init_empty [where capacity = 100 and am = "\<lambda>_. True" and z = "0 :: nat" and entry_size = 16]
  by auto

text \<open>
  for every key hash, the probe sequence visits every slot of the table exactly once
  before it repeats, because the second hash is odd: with a free slot in the table, no search
  can loop.
\<close>

theorem dhash_probe_visits_all:
  assumes "lg < 32"
  shows "bij_betw (probe lg kh) {..<2 ^ lg} {..<2 ^ lg}"
  by (rule bij_betw_imageI [OF probe_inj [OF assms] probe_surj [OF assms]])

theorem dhash_probe_visits_all_witness: "bij_betw (probe 4 0xFFFFFFFE) {..<2 ^ 4} {..<2 ^ 4}"
  by (rule dhash_probe_visits_all) simp

text \<open>
  when \<open>initEntry\<close> refuses an entry that would recycle a removed slot, the null
  return leaves \<open>removedCount\<close> one below the number of removed slots: the count that
  guards the last free slot is broken from then on.
\<close>

theorem dhash_init_failure_undercounts:
  assumes inv: "dh_inv ops kab t" and init: "initEntry ops = Some f" "\<And>b. f b key = None"
    and search: "SearchTable ops t key (key_hash ops key) JS_DHASH_ADD = Some (t\<lparr>entryStore := st\<rparr>, i)"
    and same: "removed_count st = removed_count (entryStore t)"
    and i: "i < length st" "ENTRY_IS_REMOVED (st ! i)"
  shows "\<exists>t'. operate_add ops t key (key_hash ops key) = Some (t', None) \<and>
    removed_count (entryStore t') = removed_count (entryStore t) \<and>
    unat (removedCount t') = removed_count (entryStore t') - 1 \<and> \<not> dh_inv ops kab t'"
proof -
  define t' where "t' = t\<lparr>entryStore := st[i := (st ! i)\<lparr>body := zeroBody ops\<rparr>],
      removedCount := removedCount t - 1\<rparr>"
  have live: "\<not> ENTRY_IS_LIVE (st ! i)" using i(2) live_removed_disjoint by blast
  have add: "operate_add ops t key (key_hash ops key) = Some (t', None)"
    using live i init by (simp add: operate_add_def search t'_def)
  have "ENTRY_IS_REMOVED ((st ! i)\<lparr>body := zeroBody ops\<rparr>)" using i(2) by (simp add: ENTRY_IS_REMOVED_def)
  then have cnt: "removed_count (entryStore t') = removed_count (entryStore t)"
    using store_update_counts(2) [OF i(1), of "(st ! i)\<lparr>body := zeroBody ops\<rparr>"] i(2) same
    by (simp add: t'_def)
  have "0 < removed_count st"
    using i by (auto simp: removed_count_def filter_empty_conv intro!: bexI [of _ "st ! i"])
  then have pos: "0 < removed_count (entryStore t)" using same by simp
  have rc: "unat (removedCount t') = removed_count (entryStore t') - 1"
    using dh_invD(6) [OF inv] pos unfolding cnt by (simp add: t'_def unat_dec_exact word_neq_0_unat)
  have "\<not> dh_inv ops kab t'"
    using rc pos cnt dh_invD(6) [of ops kab t'] by auto
  with add cnt rc show ?thesis by blast
qed

definition refusing_ops :: "(ptr, ptr \<times> nat) dh_ops" where
  "refusing_ops = (stub_ops 0)\<lparr>initEntry := Some (\<lambda>_ _. None)\<rparr>"

definition one_removed :: "(ptr \<times> nat) dh_table" where
  "one_removed = \<lparr>hashShift = 28, maxAlphaFrac = 0xC0, minAlphaFrac = 0x40, entrySize = 24,
     entryCount = 0, removedCount = 1, generation = 0,
     entryStore = (replicate 16 \<lparr>keyHash = 0, body = (0, 0)\<rparr>)[15 := \<lparr>keyHash = 1, body = (0, 0)\<rparr>]\<rparr>"

lemma one_removed_dead: "i < 16 \<Longrightarrow> \<not> ENTRY_IS_LIVE (entryStore one_removed ! i) \<and> body (entryStore one_removed ! i) = (0, 0)"
  by (cases "i = 15") (simp_all add: one_removed_def ENTRY_IS_LIVE_def word_le_nat_alt)

lemma one_removed_inv: "dh_inv refusing_ops (\<lambda>k. k) one_removed"
proof -
  have log: "table_log2 one_removed = 4" by (simp add: table_log2_def one_removed_def)
  have "dh_core refusing_ops (\<lambda>k. k) 4 (entryStore one_removed)"
    using one_removed_dead by (simp add: dh_core_def refusing_ops_def stub_ops_def) (simp add: one_removed_def)
  moreover have "live_count (entryStore one_removed) = 0" "removed_count (entryStore one_removed) = 1"
    using length_filter_update [of 15 "replicate 16 \<lparr>keyHash = 0, body = (0, 0)\<rparr> :: (ptr \<times> nat) dh_entry list"
        ENTRY_IS_LIVE "\<lparr>keyHash = 1, body = (0, 0)\<rparr>"]
      length_filter_update [of 15 "replicate 16 \<lparr>keyHash = 0, body = (0, 0)\<rparr> :: (ptr \<times> nat) dh_entry list"
        ENTRY_IS_REMOVED "\<lparr>keyHash = 1, body = (0, 0)\<rparr>"]
    by (simp_all add: one_removed_def live_count_def removed_count_def ENTRY_IS_LIVE_def ENTRY_IS_REMOVED_def
        word_le_nat_alt)
  ultimately show ?thesis
    unfolding dh_inv_def log by (simp add: one_removed_def)
qed

lemma one_removed_search:
  "SearchTable refusing_ops one_removed 0 (key_hash refusing_ops 0) JS_DHASH_ADD =
     Some (one_removed\<lparr>entryStore := entryStore one_removed\<rparr>, 15)"
proof -
  have kh: "key_hash refusing_ops 0 = 0xFFFFFFFE"
    by (simp add: key_hash_def refusing_ops_def stub_simps ENSURE_LIVE_KEYHASH_def COLLISION_FLAG_def)
  show ?thesis
    unfolding kh
    by (subst SearchTable_def, subst search_loop.simps)
      (simp add: one_removed_def HASH1_def HASH2_def JS_BITMASK_def JS_BIT_def drop_bit_word_numeral
        ENTRY_IS_FREE_def ENTRY_IS_REMOVED_def MATCH_ENTRY_KEYHASH_def COLLISION_FLAG_def)
qed

text \<open>The hypotheses hold at a table with one removed slot and operations that refuse.\<close>

theorem dhash_init_failure_undercounts_witness:
  "\<exists>t'. operate_add refusing_ops one_removed 0 (key_hash refusing_ops 0) = Some (t', None) \<and>
     \<not> dh_inv refusing_ops (\<lambda>k. k) t'"
proof -
  have "initEntry refusing_ops = Some (\<lambda>_ _. None)" by (simp add: refusing_ops_def)
  moreover have "15 < length (entryStore one_removed)" "ENTRY_IS_REMOVED (entryStore one_removed ! 15)"
    by (simp_all add: one_removed_def ENTRY_IS_REMOVED_def)
  ultimately show ?thesis
    using dhash_init_failure_undercounts [OF one_removed_inv _ _ one_removed_search refl] by blast
qed

end
