(* ===== verification/JS_GCRoots.thy ===== *)
theory JS_GCRoots
  imports JS_DHash_Ops
begin

text \<open>
  The garbage collector's tables of roots and locks (jsgc.c), two clients of the
  double-hashing table. A root is the address of a variable, with a name; a lock is a
  count on a thing. Shallow things locked once have no entry in the lock table, only a
  bit in their flags; the table is created when the first nested or deep lock needs it.
  The engine is built without JS_THREADSAFE, so the lock and wait macros are empty.
\<close>

section \<open>Flags and types of things\<close>

definition GCX_OBJECT :: u8 where "GCX_OBJECT = 0"
definition GCX_STRING :: u8 where "GCX_STRING = 1"
definition GCX_NAMESPACE :: u8 where "GCX_NAMESPACE = 5"
definition GCX_XML :: u8 where "GCX_XML = 7"
definition GCX_EXTERNAL_STRING :: u8 where "GCX_EXTERNAL_STRING = 8"

definition GCF_TYPEMASK :: u8 where "GCF_TYPEMASK = 0x0F"
definition GCF_LOCK :: u8 where "GCF_LOCK = 0x80"

definition GC_TYPE_IS_STRING :: "u8 \<Rightarrow> bool" where
  "GC_TYPE_IS_STRING t \<longleftrightarrow> t = GCX_STRING \<or> GCX_EXTERNAL_STRING \<le> t"

text \<open>The subtraction is on \<open>unsigned\<close>, so types below \<open>GCX_NAMESPACE\<close> wrap around.\<close>

definition GC_TYPE_IS_XML :: "u8 \<Rightarrow> bool" where
  "GC_TYPE_IS_XML t \<longleftrightarrow> (ucast t :: u32) - ucast GCX_NAMESPACE \<le> ucast (GCX_XML - GCX_NAMESPACE)"

definition GC_TYPE_IS_DEEP :: "u8 \<Rightarrow> bool" where
  "GC_TYPE_IS_DEEP t \<longleftrightarrow> t = GCX_OBJECT \<or> GC_TYPE_IS_XML t"

text \<open>\<open>dependent\<close> is \<open>JSSTRING_IS_DEPENDENT\<close> of the thing.\<close>

definition GC_THING_IS_DEEP :: "u8 \<Rightarrow> bool \<Rightarrow> bool" where
  "GC_THING_IS_DEEP t dependent \<longleftrightarrow> GC_TYPE_IS_DEEP t \<or> (GC_TYPE_IS_STRING t \<and> dependent)"

section \<open>State\<close>

text \<open>
  The part of \<open>JSRuntime\<close> these functions use: the two tables, the flag byte of each thing,
  which strings are dependent, and the poke bit.
\<close>

record gc_runtime =
  gcRootsHash :: "(ptr \<times> ptr) dh_table"
  gcLocksHash :: "(ptr \<times> u32) dh_table option"
  gcFlags :: "ptr \<Rightarrow> u8"
  gcDependent :: "ptr \<Rightarrow> bool"
  gcPoke :: bool

definition GC_ROOTS_SIZE :: u32 where "GC_ROOTS_SIZE = 256"

text \<open>\<open>hdr\<close> says whether the allocation of the table structure itself succeeds.\<close>

definition JS_NewDHashTable ::
  "('k, 'e) dh_ops \<Rightarrow> bool \<Rightarrow> (u32 \<Rightarrow> bool) \<Rightarrow> u32 \<Rightarrow> u32 \<Rightarrow> 'e dh_table option" where
  "JS_NewDHashTable ops hdr am entry_size capacity =
     (if \<not> hdr then None else JS_DHashTableInit ops am entry_size capacity)"

section \<open>Operations\<close>

definition js_AddRootRT ::
  "(u32 \<Rightarrow> bool) \<Rightarrow> gc_runtime \<Rightarrow> ptr \<Rightarrow> ptr \<Rightarrow> (gc_runtime \<times> bool) option" where
  "js_AddRootRT am rt rp name =
     (case JS_DHashTableOperate (stub_ops 0) am (gcRootsHash rt) rp JS_DHASH_ADD of
        None \<Rightarrow> None
      | Some (t, Some i) \<Rightarrow> Some (rt\<lparr>gcRootsHash := dh_set_body t i (rp, name)\<rparr>, True)
      | Some (t, None) \<Rightarrow> Some (rt\<lparr>gcRootsHash := t\<rparr>, False))"

definition js_RemoveRoot :: "(u32 \<Rightarrow> bool) \<Rightarrow> gc_runtime \<Rightarrow> ptr \<Rightarrow> (gc_runtime \<times> bool) option" where
  "js_RemoveRoot am rt rp =
     (case JS_DHashTableOperate (stub_ops 0) am (gcRootsHash rt) rp JS_DHASH_REMOVE of
        None \<Rightarrow> None
      | Some (t, _) \<Rightarrow> Some (rt\<lparr>gcRootsHash := t, gcPoke := True\<rparr>, True))"

definition js_LockGCThingRT ::
  "bool \<Rightarrow> (u32 \<Rightarrow> bool) \<Rightarrow> gc_runtime \<Rightarrow> ptr \<Rightarrow> (gc_runtime \<times> bool) option" where
  "js_LockGCThingRT hdr am rt thing =
     (if thing = 0 then Some (rt, True)
      else
        let flags = gcFlags rt thing;
            lock = flags AND GCF_LOCK;
            deep = GC_THING_IS_DEEP (flags AND GCF_TYPEMASK) (gcDependent rt thing)
        in if lock \<noteq> 0 \<or> deep then
             (case (case gcLocksHash rt of
                      None \<Rightarrow> JS_NewDHashTable (stub_ops 0) hdr am 24 GC_ROOTS_SIZE
                    | Some t \<Rightarrow> Some t) of
                None \<Rightarrow> Some (rt, False)
              | Some t \<Rightarrow>
                  (case JS_DHashTableOperate (stub_ops 0) am t thing JS_DHASH_ADD of
                     None \<Rightarrow> None
                   | Some (t, None) \<Rightarrow> Some (rt\<lparr>gcLocksHash := Some t\<rparr>, False)
                   | Some (t, Some i) \<Rightarrow>
                       let (lthing, count) = body (entryStore t ! i);
                           lhe = (if lthing = 0 then (thing, if deep then 1 else 2)
                                  else (lthing, count + 1))
                       in Some (rt\<lparr>gcLocksHash := Some (dh_set_body t i lhe),
                                   gcFlags := (gcFlags rt)(thing := flags OR GCF_LOCK)\<rparr>, True)))
           else Some (rt\<lparr>gcFlags := (gcFlags rt)(thing := flags OR GCF_LOCK)\<rparr>, True))"

definition js_UnlockGCThingRT ::
  "(u32 \<Rightarrow> bool) \<Rightarrow> gc_runtime \<Rightarrow> ptr \<Rightarrow> (gc_runtime \<times> bool) option" where
  "js_UnlockGCThingRT am rt thing =
     (if thing = 0 then Some (rt, True)
      else
        let flags = gcFlags rt thing;
            unlocked = rt\<lparr>gcFlags := (gcFlags rt)(thing := flags AND NOT GCF_LOCK), gcPoke := True\<rparr>
        in if flags AND GCF_LOCK \<noteq> 0 then
             (case gcLocksHash rt of
                None \<Rightarrow> Some (unlocked, True)
              | Some t \<Rightarrow>
                  (case JS_DHashTableOperate (stub_ops 0) am t thing JS_DHASH_LOOKUP of
                     Some (t, Some i) \<Rightarrow>
                       if ENTRY_IS_FREE (entryStore t ! i) then Some (unlocked, True)
                       else
                         let (lthing, count) = body (entryStore t ! i);
                             t = dh_set_body t i (lthing, count - 1)
                         in if count - 1 \<noteq> 0 then Some (rt\<lparr>gcLocksHash := Some t\<rparr>, True)
                            else (case JS_DHashTableOperate (stub_ops 0) am t thing JS_DHASH_REMOVE of
                                    None \<Rightarrow> None
                                  | Some (t, _) \<Rightarrow> Some (unlocked\<lparr>gcLocksHash := Some t\<rparr>, True))
                   | _ \<Rightarrow> None))
           else Some (rt\<lparr>gcPoke := True\<rparr>, True))"

section \<open>What the tables promise\<close>

text \<open>The lock count of a thing, read off its flag and its table entry.\<close>

definition lock_map :: "gc_runtime \<Rightarrow> ptr \<rightharpoonup> (ptr \<times> u32)" where
  "lock_map rt = (case gcLocksHash rt of
                    None \<Rightarrow> Map.empty
                  | Some t \<Rightarrow> dh_map (stub_ops 0) (\<lambda>k. k) (entryStore t))"

definition lock_count :: "gc_runtime \<Rightarrow> ptr \<Rightarrow> nat" where
  "lock_count rt p =
     (if gcFlags rt p AND GCF_LOCK = 0 then 0
      else case lock_map rt p of None \<Rightarrow> 1 | Some (_, c) \<Rightarrow> unat c)"

definition thing_is_deep :: "gc_runtime \<Rightarrow> ptr \<Rightarrow> bool" where
  "thing_is_deep rt p = GC_THING_IS_DEEP (gcFlags rt p AND GCF_TYPEMASK) (gcDependent rt p)"

text \<open>
  Entries belong to locked things, name the thing and have a positive count; a locked deep
  thing always has an entry, so the collector finds it when it marks.
\<close>

definition locks_inv :: "gc_runtime \<Rightarrow> bool" where
  "locks_inv rt \<longleftrightarrow>
     (\<forall>t. gcLocksHash rt = Some t \<longrightarrow> dh_inv (stub_ops 0) (\<lambda>k. k) t) \<and>
     (\<forall>p th c. lock_map rt p = Some (th, c) \<longrightarrow>
        p \<noteq> 0 \<and> th = p \<and> c \<noteq> 0 \<and> gcFlags rt p AND GCF_LOCK \<noteq> 0) \<and>
     (\<forall>p. gcFlags rt p AND GCF_LOCK \<noteq> 0 \<and> thing_is_deep rt p \<longrightarrow> lock_map rt p \<noteq> None)"

lemma GCF_LOCK_nonzero [simp]: "GCF_LOCK \<noteq> 0"
  by (simp add: GCF_LOCK_def)

lemma lock_flag_simps [simp]:
  "(f OR GCF_LOCK) AND GCF_LOCK \<noteq> 0" "(f AND NOT GCF_LOCK) AND GCF_LOCK = 0"
  "(f OR GCF_LOCK) AND GCF_TYPEMASK = f AND GCF_TYPEMASK"
  "(f AND NOT GCF_LOCK) AND GCF_TYPEMASK = f AND GCF_TYPEMASK" for f :: u8
proof -
  have disj: "GCF_LOCK AND GCF_TYPEMASK = 0" by (simp add: GCF_LOCK_def GCF_TYPEMASK_def)
  show "(f OR GCF_LOCK) AND GCF_LOCK \<noteq> 0" by (simp add: bit.conj_disj_distrib2)
  show "(f AND NOT GCF_LOCK) AND GCF_LOCK = 0" by (simp add: and.assoc)
  show "(f OR GCF_LOCK) AND GCF_TYPEMASK = f AND GCF_TYPEMASK"
    by (simp add: bit.conj_disj_distrib2 disj)
  have "NOT GCF_LOCK AND GCF_TYPEMASK = GCF_TYPEMASK" by (simp add: GCF_LOCK_def GCF_TYPEMASK_def)
  then show "(f AND NOT GCF_LOCK) AND GCF_TYPEMASK = f AND GCF_TYPEMASK" by (simp add: and.assoc)
qed

lemma Init_any_allocator:
  "JS_DHashTableInit ops am es cap = Some t \<Longrightarrow> JS_DHashTableInit ops (\<lambda>_. True) es cap = Some t"
  by (auto simp: JS_DHashTableInit_def Let_def split: if_splits)

lemma new_locks_table:
  assumes "JS_NewDHashTable (stub_ops z) hdr am 24 GC_ROOTS_SIZE = Some t"
  shows "dh_inv (stub_ops z) (\<lambda>k. k) t" and "dh_map (stub_ops z) (\<lambda>k. k) (entryStore t) = Map.empty"
proof -
  have "JS_DHashTableInit (stub_ops z) (\<lambda>_. True) 24 GC_ROOTS_SIZE = Some t"
    using assms by (auto simp: JS_NewDHashTable_def split: if_splits intro: Init_any_allocator)
  with Init_correct [where ops = "stub_ops z" and kab = "\<lambda>k. k" and am = "\<lambda>_. True"
      and capacity = GC_ROOTS_SIZE and entry_size = 24]
  show "dh_inv (stub_ops z) (\<lambda>k. k) t" and "dh_map (stub_ops z) (\<lambda>k. k) (entryStore t) = Map.empty"
    by (auto simp: GC_ROOTS_SIZE_def)
qed


section \<open>Locks\<close>

abbreviation "lk_inv \<equiv> dh_inv (stub_ops (0 :: u32)) (\<lambda>k. k)"
abbreviation "lk_map t \<equiv> dh_map (stub_ops (0 :: u32)) (\<lambda>k. k) (entryStore t)"

lemma lock_adds_one:
  assumes inv: "locks_inv rt" and p: "p \<noteq> 0" and small: "lock_count rt p < 2 ^ 32 - 1"
  shows "\<exists>rt' ok. js_LockGCThingRT hdr am rt p = Some (rt', ok) \<and> locks_inv rt' \<and>
    lock_count rt' = (if ok then (lock_count rt)(p := lock_count rt p + 1) else lock_count rt)"
proof -
  define flags where "flags = gcFlags rt p"
  define deep where "deep = thing_is_deep rt p"
  have deepE: "GC_THING_IS_DEEP (flags AND GCF_TYPEMASK) (gcDependent rt p) = deep"
    by (simp add: deep_def thing_is_deep_def flags_def)
  let ?lock = "\<lambda>rt. rt\<lparr>gcFlags := (gcFlags rt)(p := flags OR GCF_LOCK)\<rparr>"
  show ?thesis
  proof (cases "flags AND GCF_LOCK \<noteq> 0 \<or> deep")
    case False
    then have "js_LockGCThingRT hdr am rt p = Some (?lock rt, True)"
      using p by (simp add: js_LockGCThingRT_def Let_def flags_def deep_def thing_is_deep_def)
    moreover have "lock_map rt p = None" using False inv by (fastforce simp: locks_inv_def flags_def)
    moreover have "lock_map (?lock rt) = lock_map rt" by (simp add: lock_map_def)
    moreover have "thing_is_deep (?lock rt) = thing_is_deep rt" by (auto simp: thing_is_deep_def flags_def fun_eq_iff)
    ultimately show ?thesis
      using False inv by (intro exI [of _ "?lock rt"] exI [of _ True])
        (auto simp: locks_inv_def lock_count_def flags_def deep_def fun_eq_iff)
  next
    case True
    show ?thesis
    proof (cases "case gcLocksHash rt of None \<Rightarrow> JS_NewDHashTable (stub_ops 0) hdr am 24 GC_ROOTS_SIZE | Some t \<Rightarrow> Some t")
      case None
      then have "js_LockGCThingRT hdr am rt p = Some (rt, False)"
        using p True by (simp add: js_LockGCThingRT_def Let_def flags_def deep_def thing_is_deep_def)
      then show ?thesis using inv by (intro exI [of _ rt] exI [of _ False]) simp
    next
      case (Some t)
      have t: "lk_inv t" "lk_map t = lock_map rt"
        using Some inv new_locks_table [of 0 hdr am t]
        by (auto simp: locks_inv_def lock_map_def split: option.splits)
      obtain t' r where op: "JS_DHashTableOperate (stub_ops 0) am t p JS_DHASH_ADD = Some (t', r)"
        and r: "case r of None \<Rightarrow> t' = t | Some i \<Rightarrow>
             body (entryStore t' ! i) = (case lk_map t p of Some b \<Rightarrow> b | None \<Rightarrow> (0, 0)) \<and>
             (\<forall>v. lk_inv (dh_set_body t' i (p, v)) \<and> lk_map (dh_set_body t' i (p, v)) = (lk_map t)(p \<mapsto> (p, v)))"
        using stub_add_correct [OF t(1), of am p] by (fastforce split: option.splits)
      show ?thesis
      proof (cases r)
        case None
        have "js_LockGCThingRT hdr am rt p = Some (rt\<lparr>gcLocksHash := Some t'\<rparr>, False)"
          using p True Some op None by (simp add: js_LockGCThingRT_def Let_def flags_def deep_def thing_is_deep_def)
        moreover have m: "lock_map (rt\<lparr>gcLocksHash := Some t'\<rparr>) = lock_map rt"
          using t r None by (simp add: lock_map_def)
        moreover have "locks_inv (rt\<lparr>gcLocksHash := Some t'\<rparr>)"
          using inv t(1) r None by (simp add: locks_inv_def m thing_is_deep_def) (simp add: m [symmetric])
        ultimately show ?thesis
          by (intro exI [of _ "rt\<lparr>gcLocksHash := Some t'\<rparr>"] exI [of _ False]) (simp add: lock_count_def fun_eq_iff)
      next
        case (Some i)
        define b where "b = (case lock_map rt p of None \<Rightarrow> (0, 0) | Some b \<Rightarrow> b)"
        define c where "c = (case lock_map rt p of None \<Rightarrow> (if deep then 1 else 2) | Some (_, c) \<Rightarrow> c + 1)"
        have bi: "body (entryStore t' ! i) = b" using r Some t(2) by (simp add: b_def)
        have lhe: "(if fst b = 0 then (p, if deep then 1 else 2) else (fst b, snd b + 1)) = (p, c)"
          using inv p by (auto simp: b_def c_def locks_inv_def split: option.splits)
        define rt' where "rt' = rt\<lparr>gcLocksHash := Some (dh_set_body t' i (p, c)),
            gcFlags := (gcFlags rt)(p := flags OR GCF_LOCK)\<rparr>"
        have run: "js_LockGCThingRT hdr am rt p = Some (rt', True)"
          using p True \<open>(case gcLocksHash rt of None \<Rightarrow> _ | Some t \<Rightarrow> _) = Some t\<close> op Some lhe
          unfolding js_LockGCThingRT_def Let_def flags_def [symmetric] deepE
          by (simp add: bi rt'_def split_beta) (auto split: if_splits)
        have m: "lock_map rt' = (lock_map rt)(p \<mapsto> (p, c))" "lk_inv (dh_set_body t' i (p, c))"
          using r Some t(2) by (simp_all add: lock_map_def rt'_def)
        have deep': "thing_is_deep rt' = thing_is_deep rt" by (auto simp: thing_is_deep_def flags_def rt'_def fun_eq_iff)
        have old: "lock_map rt p = Some (th, d) \<Longrightarrow> lock_count rt p = unat d \<and> d \<noteq> 0" for th d
          using inv by (auto simp: locks_inv_def lock_count_def)
        have c: "unat c = lock_count rt p + 1"
          using old True inv small
          by (auto simp: c_def locks_inv_def lock_count_def flags_def deep_def unat_inc_exact split: option.splits)
        then have "c \<noteq> 0" by auto
        then have "locks_inv rt'"
          using inv m p by (auto simp: locks_inv_def deep') (auto simp: rt'_def split: if_splits)
        moreover have "lock_count rt' = (lock_count rt)(p := lock_count rt p + 1)"
          using c by (auto simp: lock_count_def m(1) fun_eq_iff) (auto simp: rt'_def)
        ultimately show ?thesis using run by auto
      qed
    qed
  qed
qed


lemma unlock_drops_one:
  assumes inv: "locks_inv rt" and p: "p \<noteq> 0"
  shows "\<exists>rt'. js_UnlockGCThingRT am rt p = Some (rt', True) \<and> locks_inv rt' \<and>
    lock_count rt' = (lock_count rt)(p := lock_count rt p - 1) \<and>
    (gcPoke rt' \<longleftrightarrow> gcPoke rt \<or> lock_count rt p \<le> 1)"
proof -
  define flags where "flags = gcFlags rt p"
  define un where "un = rt\<lparr>gcFlags := (gcFlags rt)(p := flags AND NOT GCF_LOCK), gcPoke := True\<rparr>"
  have deep: "thing_is_deep un = thing_is_deep rt" "thing_is_deep (un\<lparr>gcLocksHash := h\<rparr>) = thing_is_deep rt" for h
    by (auto simp: thing_is_deep_def flags_def un_def fun_eq_iff)
  have un_done: "\<exists>rt'. Some (un, True) = Some (rt', True) \<and> locks_inv rt' \<and>
      lock_count rt' = (lock_count rt)(p := lock_count rt p - 1) \<and>
      (gcPoke rt' \<longleftrightarrow> gcPoke rt \<or> lock_count rt p \<le> 1)"
    if none: "lock_map rt p = None"
  proof -
    have m: "lock_map un = lock_map rt" by (simp add: lock_map_def un_def)
    have "locks_inv un"
      using inv none unfolding locks_inv_def m deep by (auto simp: un_def)
    moreover have "lock_count un = (lock_count rt)(p := lock_count rt p - 1)"
      using none by (auto simp: lock_count_def m fun_eq_iff) (auto simp: un_def)
    moreover have "lock_count rt p \<le> 1" using none by (simp add: lock_count_def)
    ultimately show ?thesis by (simp add: un_def)
  qed
  show ?thesis
  proof (cases "flags AND GCF_LOCK \<noteq> 0")
    case False
    then have z: "lock_count rt p = 0" by (simp add: lock_count_def flags_def)
    have m: "lock_map (rt\<lparr>gcPoke := True\<rparr>) = lock_map rt" by (simp add: lock_map_def)
    have "js_UnlockGCThingRT am rt p = Some (rt\<lparr>gcPoke := True\<rparr>, True)"
      using False p by (simp add: js_UnlockGCThingRT_def Let_def flags_def)
    moreover have "locks_inv (rt\<lparr>gcPoke := True\<rparr>)"
      using inv by (simp add: locks_inv_def m) (simp add: thing_is_deep_def)
    moreover have "lock_count (rt\<lparr>gcPoke := True\<rparr>) = lock_count rt" by (simp add: lock_count_def m fun_eq_iff)
    ultimately show ?thesis using z by (auto simp: fun_eq_iff)
  next
    case locked: True
    show ?thesis
    proof (cases "gcLocksHash rt")
      case None
      then have "js_UnlockGCThingRT am rt p = Some (un, True)"
        using locked p by (simp add: js_UnlockGCThingRT_def Let_def flags_def un_def)
      then show ?thesis using un_done None by (simp add: lock_map_def)
    next
      case (Some t)
      have t: "lk_inv t" "lk_map t = lock_map rt" using inv Some by (auto simp: locks_inv_def lock_map_def)
      obtain i where i: "JS_DHashTableOperate (stub_ops 0) am t p JS_DHASH_LOOKUP = Some (t, Some i)"
          "i < length (entryStore t)"
          "case lk_map t p of None \<Rightarrow> ENTRY_IS_FREE (entryStore t ! i)
           | Some b \<Rightarrow> ENTRY_IS_LIVE (entryStore t ! i) \<and> body (entryStore t ! i) = b"
        using stub.lookup_correct [OF t(1), of am p] by blast
      show ?thesis
      proof (cases "lock_map rt p")
        case None
        then have "js_UnlockGCThingRT am rt p = Some (un, True)"
          using locked p Some i t(2) by (simp add: js_UnlockGCThingRT_def Let_def flags_def un_def)
        then show ?thesis using un_done None by simp
      next
        case entry: (Some lhe)
        obtain c where lhe: "lhe = (p, c)" "c \<noteq> 0" using inv entry by (cases lhe) (auto simp: locks_inv_def)
        have live: "ENTRY_IS_LIVE (entryStore t ! i)" "body (entryStore t ! i) = (p, c)"
          using i(3) entry t(2) lhe by simp_all
        have free: "\<not> ENTRY_IS_FREE (entryStore t ! i)" using live(1) code_free_removed_live by blast
        have key: "entry_key (stub_ops (0 :: u32)) (\<lambda>k. k) (entryStore t ! i) = p"
          by (simp add: entry_key_def live)
        define t1 where "t1 = dh_set_body t i (p, c - 1)"
        have t1: "lk_inv t1" "lk_map t1 = (lock_map rt)(p \<mapsto> (p, c - 1))"
          using stub.set_body_correct [OF t(1) i(2) live(1), of "(p, c - 1)"] key t(2) by (simp_all add: t1_def)
        have count: "lock_count rt p = unat c" using locked entry lhe by (simp add: lock_count_def flags_def)
        have dec: "unat (c - 1) = unat c - 1" using lhe(2) by (rule unat_dec_exact)
        show ?thesis
        proof (cases "c - 1 = 0")
          case False
          define rt' where "rt' = rt\<lparr>gcLocksHash := Some t1\<rparr>"
          have run: "js_UnlockGCThingRT am rt p = Some (rt', True)"
            using locked p Some i free live False
            by (simp add: js_UnlockGCThingRT_def Let_def flags_def rt'_def t1_def)
          have m: "lock_map rt' = (lock_map rt)(p \<mapsto> (p, c - 1))" using t1(2) by (simp add: lock_map_def rt'_def)
          have "locks_inv rt'"
            using inv t1(1) p False locked
            by (auto simp: locks_inv_def m flags_def) (auto simp: rt'_def thing_is_deep_def split: if_splits)
          moreover have "lock_count rt' = (lock_count rt)(p := unat c - 1)"
            using locked by (auto simp: lock_count_def m fun_eq_iff dec flags_def) (auto simp: rt'_def)
          moreover have "1 < unat c" using False dec by (metis gr0I less_one linorder_neqE_nat unat_eq_zero diff_is_0_eq not_less)
          ultimately show ?thesis using run count by (simp add: rt'_def)
        next
          case True
          obtain t2 where t2: "JS_DHashTableOperate (stub_ops 0) am t1 p JS_DHASH_REMOVE = Some (t2, None)"
              "lk_inv t2" "lk_map t2 = (lk_map t1)(p := None)"
            using stub.remove_correct [OF t1(1), of am p] by blast
          define rt' where "rt' = un\<lparr>gcLocksHash := Some t2\<rparr>"
          have run: "js_UnlockGCThingRT am rt p = Some (rt', True)"
            using locked p Some i free live True t2(1)
            by (simp add: js_UnlockGCThingRT_def Let_def flags_def rt'_def t1_def un_def)
          have m: "lock_map rt' = (lock_map rt)(p := None)" using t2(3) t1(2) by (simp add: lock_map_def rt'_def)
          have "thing_is_deep rt' = thing_is_deep rt" "gcLocksHash rt' = Some t2"
            "gcFlags rt' = (gcFlags rt)(p := flags AND NOT GCF_LOCK)"
            by (simp_all add: rt'_def deep) (simp add: un_def)
          then have "locks_inv rt'"
            using inv t2(2) by (auto simp: locks_inv_def m split: if_splits)
          moreover have "unat c = 1" using True dec lhe(2) by (simp add: unat_eq_zero)
          moreover have "lock_count rt' = (lock_count rt)(p := 0)"
            by (auto simp: lock_count_def m fun_eq_iff) (auto simp: rt'_def un_def)
          ultimately show ?thesis using run count by (simp add: rt'_def un_def)
        qed
      qed
    qed
  qed
qed


section \<open>Properties\<close>

text \<open>A runtime with empty tables; every thing is a private (shallow) or an object.\<close>

definition fresh_runtime :: "(ptr \<times> ptr) dh_table \<Rightarrow> u8 \<Rightarrow> gc_runtime" where
  "fresh_runtime t flags = \<lparr>gcRootsHash = t, gcLocksHash = None, gcFlags = (\<lambda>_. flags),
     gcDependent = (\<lambda>_. False), gcPoke = False\<rparr>"

lemma fresh_runtime_locks: "flags AND GCF_LOCK = 0 \<Longrightarrow> locks_inv (fresh_runtime t flags)"
  by (simp add: fresh_runtime_def locks_inv_def lock_map_def)

text \<open>
  C15: locking a thing returns, and either adds one to its lock count or fails on exhausted
  memory and leaves every count as it was; deep things stay in the lock table, where the
  collector finds them.
\<close>

theorem gc_lock_adds_one:
  assumes "locks_inv rt" and "p \<noteq> 0" and "lock_count rt p < 2 ^ 32 - 1"
  shows "\<exists>rt' ok. js_LockGCThingRT hdr am rt p = Some (rt', ok) \<and> locks_inv rt' \<and>
    lock_count rt' = (if ok then (lock_count rt)(p := lock_count rt p + 1) else lock_count rt)"
  by (rule lock_adds_one [OF assms])

theorem gc_lock_adds_one_witness:
  "\<forall>t. \<exists>rt' ok. js_LockGCThingRT True (\<lambda>_. True) (fresh_runtime t 0) 8 = Some (rt', ok) \<and> locks_inv rt'"
proof (rule allI, goal_cases)
  case (1 t)
  have "locks_inv (fresh_runtime t 0)" by (rule fresh_runtime_locks) simp
  moreover have "lock_count (fresh_runtime t 0) 8 = 0" by (simp add: lock_count_def fresh_runtime_def)
  ultimately show ?case
    using gc_lock_adds_one [of "fresh_runtime t 0" 8 True "\<lambda>_. True"] by auto
qed

text \<open>
  unlocking takes one from the count, stopping at zero; it never fails, and the collector
  is poked exactly when the count reaches zero.
\<close>

theorem gc_unlock_drops_one:
  assumes "locks_inv rt" and "p \<noteq> 0"
  shows "\<exists>rt'. js_UnlockGCThingRT am rt p = Some (rt', True) \<and> locks_inv rt' \<and>
    lock_count rt' = (lock_count rt)(p := lock_count rt p - 1) \<and>
    (gcPoke rt' \<longleftrightarrow> gcPoke rt \<or> lock_count rt p \<le> 1)"
  by (rule unlock_drops_one [OF assms])

theorem gc_unlock_drops_one_witness:
  "\<forall>t. \<exists>rt1 rt2. js_LockGCThingRT True (\<lambda>_. True) (fresh_runtime t 4) 8 = Some (rt1, True) \<and>
     js_UnlockGCThingRT (\<lambda>_. True) rt1 8 = Some (rt2, True) \<and> lock_count rt2 8 = 0"
proof (rule allI, goal_cases)
  case (1 t)
  define rt where "rt = fresh_runtime t 4"
  have shallow: "\<not> GC_THING_IS_DEEP (4 AND GCF_TYPEMASK) False" "4 AND GCF_LOCK = 0" by code_simp+
  have inv: "locks_inv rt" unfolding rt_def by (rule fresh_runtime_locks) (simp add: GCF_LOCK_def)
  have z: "lock_count rt 8 = 0" by (simp add: rt_def fresh_runtime_def lock_count_def GCF_LOCK_def)
  obtain rt1 ok where l: "js_LockGCThingRT True (\<lambda>_. True) rt 8 = Some (rt1, ok)" "locks_inv rt1"
      "lock_count rt1 = (if ok then (lock_count rt)(8 := lock_count rt 8 + 1) else lock_count rt)"
    using lock_adds_one [OF inv, of 8 True "\<lambda>_. True"] z by auto
  have ok: ok
    using l(1) shallow by (simp add: js_LockGCThingRT_def rt_def fresh_runtime_def Let_def)
  then show ?case
    using gc_unlock_drops_one [OF l(2), of 8 "\<lambda>_. True"] l z unfolding rt_def [symmetric] by auto
qed

text \<open>
  adding a root and removing it refine update and deletion of a finite map from
  addresses to names; a failed add changes nothing, and removal always pokes the collector.
\<close>

theorem gc_roots_refine_map:
  assumes "dh_inv (stub_ops 0) (\<lambda>k. k) (gcRootsHash rt)"
  shows "(\<exists>rt' ok. js_AddRootRT am rt rp name = Some (rt', ok) \<and>
      dh_inv (stub_ops 0) (\<lambda>k. k) (gcRootsHash rt') \<and>
      dh_map (stub_ops 0) (\<lambda>k. k) (entryStore (gcRootsHash rt')) =
        (if ok then (dh_map (stub_ops 0) (\<lambda>k. k) (entryStore (gcRootsHash rt)))(rp \<mapsto> (rp, name))
         else dh_map (stub_ops 0) (\<lambda>k. k) (entryStore (gcRootsHash rt)))) \<and>
    (\<exists>rt'. js_RemoveRoot am rt rp = Some (rt', True) \<and> gcPoke rt' \<and>
      dh_inv (stub_ops 0) (\<lambda>k. k) (gcRootsHash rt') \<and>
      dh_map (stub_ops 0) (\<lambda>k. k) (entryStore (gcRootsHash rt')) =
        (dh_map (stub_ops 0) (\<lambda>k. k) (entryStore (gcRootsHash rt)))(rp := None))"
proof (rule conjI)
  show "\<exists>rt' ok. js_AddRootRT am rt rp name = Some (rt', ok) \<and>
      dh_inv (stub_ops 0) (\<lambda>k. k) (gcRootsHash rt') \<and>
      dh_map (stub_ops 0) (\<lambda>k. k) (entryStore (gcRootsHash rt')) =
        (if ok then (dh_map (stub_ops 0) (\<lambda>k. k) (entryStore (gcRootsHash rt)))(rp \<mapsto> (rp, name))
         else dh_map (stub_ops 0) (\<lambda>k. k) (entryStore (gcRootsHash rt)))"
  proof -
    obtain t' r where op: "JS_DHashTableOperate (stub_ops 0) am (gcRootsHash rt) rp JS_DHASH_ADD = Some (t', r)"
      and r: "case r of None \<Rightarrow> t' = gcRootsHash rt | Some i \<Rightarrow>
         (\<forall>v. dh_inv (stub_ops 0) (\<lambda>k. k) (dh_set_body t' i (rp, v)) \<and>
              dh_map (stub_ops 0) (\<lambda>k. k) (entryStore (dh_set_body t' i (rp, v))) =
                (dh_map (stub_ops 0) (\<lambda>k. k) (entryStore (gcRootsHash rt)))(rp \<mapsto> (rp, v)))"
      using stub_add_correct [OF assms, of am rp] by (fastforce split: option.splits)
    show ?thesis
  proof (cases r)
    case None
    then show ?thesis using r assms
      by (intro exI [of _ "rt\<lparr>gcRootsHash := t'\<rparr>"] exI [of _ False]) (simp add: js_AddRootRT_def op)
  next
    case (Some i)
    then show ?thesis using r
      by (intro exI [of _ "rt\<lparr>gcRootsHash := dh_set_body t' i (rp, name)\<rparr>"] exI [of _ True])
        (simp add: js_AddRootRT_def op)
  qed
  qed
next
  show "\<exists>rt'. js_RemoveRoot am rt rp = Some (rt', True) \<and> gcPoke rt' \<and>
      dh_inv (stub_ops 0) (\<lambda>k. k) (gcRootsHash rt') \<and>
      dh_map (stub_ops 0) (\<lambda>k. k) (entryStore (gcRootsHash rt')) =
        (dh_map (stub_ops 0) (\<lambda>k. k) (entryStore (gcRootsHash rt)))(rp := None)"
    using stub.remove_correct [OF assms, of am rp] by (auto simp: js_RemoveRoot_def)
qed

theorem gc_roots_refine_map_witness:
  "\<exists>t rt' ok. JS_DHashTableInit (stub_ops 0) (\<lambda>_. True) 24 GC_ROOTS_SIZE = Some t \<and>
     js_AddRootRT (\<lambda>_. True) (fresh_runtime t 0) 16 99 = Some (rt', ok)"
proof -
  obtain t where t: "JS_DHashTableInit (stub_ops 0) (\<lambda>_. True) 24 GC_ROOTS_SIZE = Some t"
      "dh_inv (stub_ops (0 :: ptr)) (\<lambda>k. k) t"
    using Init_correct [where ops = "stub_ops (0 :: ptr)" and kab = "\<lambda>k. k" and am = "\<lambda>_. True"
        and capacity = GC_ROOTS_SIZE and entry_size = 24] by (auto simp: GC_ROOTS_SIZE_def)
  have "dh_inv (stub_ops 0) (\<lambda>k. k) (gcRootsHash (fresh_runtime t 0))" using t(2) by (simp add: fresh_runtime_def)
  from gc_roots_refine_map [OF this, of "\<lambda>_. True" 16 99] t(1) show ?thesis by blast
qed

lemma fresh_locks_table_adds:
  assumes "JS_NewDHashTable (stub_ops 0) hdr am 24 GC_ROOTS_SIZE = Some t"
  shows "\<exists>t' i. JS_DHashTableOperate (stub_ops (0 :: u32)) am t p JS_DHASH_ADD = Some (t', Some i)"
proof -
  have "\<exists>n. entryStore t = replicate n \<lparr>keyHash = 0, body = (0, 0)\<rparr>"
    using assms by (auto simp: JS_NewDHashTable_def JS_DHashTableInit_def Let_def split: if_splits)
  then have "live_count (entryStore t) + removed_count (entryStore t) = 0" by auto
  moreover have "(2 :: nat) ^ table_log2 t - 1 \<noteq> 0"
    using dh_invD(2) [OF new_locks_table(1) [OF assms]] one_less_power [of "2 :: nat" "table_log2 t"] by simp
  ultimately show ?thesis
    using stub_add_correct [OF new_locks_table(1) [OF assms], of am p] by (fastforce split: option.splits)
qed

text \<open>
  a flat string that is locked once and then morphed into a dependent string (as string
  concatenation does to its left operand) has no table entry although it is deep. Locking
  it again starts the entry at one instead of two, so two locks count as one and the first
  unlock drops both.
\<close>

theorem gc_lock_undercounts_morphed:
  assumes p: "p \<noteq> 0" and locked: "gcFlags rt p AND GCF_LOCK \<noteq> 0"
    and deep: "thing_is_deep rt p" and none: "lock_map rt p = None"
    and inv: "\<And>t. gcLocksHash rt = Some t \<Longrightarrow> dh_inv (stub_ops 0) (\<lambda>k. k) t"
    and run: "js_LockGCThingRT hdr am rt p = Some (rt', True)"
  shows "lock_count rt p = 1 \<and> lock_count rt' p = 1 \<and>
    (\<exists>rt''. js_UnlockGCThingRT am rt' p = Some (rt'', True) \<and> lock_count rt'' p = 0)"
proof (intro conjI)
  show "lock_count rt p = 1" using locked none by (simp add: lock_count_def)
  obtain t where t: "(case gcLocksHash rt of None \<Rightarrow> JS_NewDHashTable (stub_ops 0) hdr am 24 GC_ROOTS_SIZE | Some t \<Rightarrow> Some t) = Some t"
    using run p locked by (auto simp: js_LockGCThingRT_def Let_def split: option.splits)
  have inv': "lk_inv t" "lk_map t = lock_map rt"
    using t inv new_locks_table [of 0 hdr am t] by (auto simp: lock_map_def split: option.splits)
  obtain t' r where op: "JS_DHashTableOperate (stub_ops 0) am t p JS_DHASH_ADD = Some (t', r)"
    and r: "case r of None \<Rightarrow> t' = t | Some i \<Rightarrow>
         body (entryStore t' ! i) = (case lk_map t p of Some b \<Rightarrow> b | None \<Rightarrow> (0, 0)) \<and>
         (\<forall>v. lk_inv (dh_set_body t' i (p, v)) \<and> lk_map (dh_set_body t' i (p, v)) = (lk_map t)(p \<mapsto> (p, v)))"
    using stub_add_correct [OF inv'(1), of am p] by (fastforce split: option.splits)
  obtain i where i: "r = Some i" using run p locked t op
    by (cases r) (auto simp: js_LockGCThingRT_def Let_def)
  have b: "body (entryStore t' ! i) = (0, 0)" using r i none inv'(2) by simp
  have rt': "rt' = rt\<lparr>gcLocksHash := Some (dh_set_body t' i (p, 1)),
      gcFlags := (gcFlags rt)(p := gcFlags rt p OR GCF_LOCK)\<rparr>"
    using run p locked t op i b deep by (simp add: js_LockGCThingRT_def Let_def thing_is_deep_def)
  have t1: "lk_inv (dh_set_body t' i (p, 1))" "lk_map (dh_set_body t' i (p, 1)) = (lock_map rt)(p \<mapsto> (p, 1))"
    using r i inv'(2) by simp_all
  then show "lock_count rt' p = 1" by (simp add: lock_count_def rt' lock_map_def)
  obtain j where j: "JS_DHashTableOperate (stub_ops 0) am (dh_set_body t' i (p, 1)) p JS_DHASH_LOOKUP =
      Some (dh_set_body t' i (p, 1), Some j)" "j < length (entryStore (dh_set_body t' i (p, 1)))"
      "ENTRY_IS_LIVE (entryStore (dh_set_body t' i (p, 1)) ! j)"
      "body (entryStore (dh_set_body t' i (p, 1)) ! j) = (p, 1)"
    using stub.lookup_correct [OF t1(1), of am p] t1(2) by auto
  define t2 where "t2 = dh_set_body (dh_set_body t' i (p, 1)) j (p, 0)"
  have "lk_inv t2"
    unfolding t2_def using j(2-4) by (intro stub.set_body_correct(1) [OF t1(1)]) (simp_all add: entry_key_def)
  then obtain t3 where t3: "JS_DHashTableOperate (stub_ops 0) am t2 p JS_DHASH_REMOVE = Some (t3, None)"
    using stub.remove_correct [where t = t2 and am = am and key = p] by blast
  have "\<not> ENTRY_IS_FREE (entryStore (dh_set_body t' i (p, 1)) ! j)" using j(3) code_free_removed_live by blast
  then have "js_UnlockGCThingRT am rt' p = Some (rt'\<lparr>gcFlags := (gcFlags rt')(p := gcFlags rt' p AND NOT GCF_LOCK),
      gcPoke := True, gcLocksHash := Some t3\<rparr>, True)"
    using p j t3 by (simp add: js_UnlockGCThingRT_def Let_def rt' t2_def)
  then show "\<exists>rt''. js_UnlockGCThingRT am rt' p = Some (rt'', True) \<and> lock_count rt'' p = 0"
    by (simp add: lock_count_def)
qed


text \<open>A locked string that depends on another, with no lock table yet.\<close>

definition morphed_runtime :: "(ptr \<times> ptr) dh_table \<Rightarrow> gc_runtime" where
  "morphed_runtime t = (fresh_runtime t 0x81)\<lparr>gcDependent := (\<lambda>_. True)\<rparr>"

theorem gc_lock_undercounts_morphed_witness:
  "\<forall>t. \<exists>rt'. js_LockGCThingRT True (\<lambda>_. True) (morphed_runtime t) 8 = Some (rt', True) \<and>
     lock_count (morphed_runtime t) 8 = 1 \<and> lock_count rt' 8 = 1"
proof (rule allI, goal_cases)
  case (1 t)
  have bits: "(0x81 :: u8) AND GCF_LOCK \<noteq> 0" "GC_THING_IS_DEEP (0x81 AND GCF_TYPEMASK) True" by code_simp+
  have flags: "gcFlags (morphed_runtime t) 8 AND GCF_LOCK \<noteq> 0" "thing_is_deep (morphed_runtime t) 8"
    "lock_map (morphed_runtime t) 8 = None" "\<And>u. gcLocksHash (morphed_runtime t) = Some u \<Longrightarrow> dh_inv (stub_ops 0) (\<lambda>k. k) u"
    using bits by (simp_all add: morphed_runtime_def fresh_runtime_def thing_is_deep_def lock_map_def)
  obtain u where u: "JS_NewDHashTable (stub_ops (0 :: u32)) True (\<lambda>_. True) 24 GC_ROOTS_SIZE = Some u"
    using Init_correct [where ops = "stub_ops (0 :: u32)" and kab = "\<lambda>k. k" and am = "\<lambda>_. True"
        and capacity = GC_ROOTS_SIZE and entry_size = 24] by (auto simp: GC_ROOTS_SIZE_def JS_NewDHashTable_def)
  obtain u' i where "JS_DHashTableOperate (stub_ops (0 :: u32)) (\<lambda>_. True) u 8 JS_DHASH_ADD = Some (u', Some i)"
    using fresh_locks_table_adds [OF u] by blast
  then obtain rt' where run: "js_LockGCThingRT True (\<lambda>_. True) (morphed_runtime t) 8 = Some (rt', True)"
    using u bits by (simp add: js_LockGCThingRT_def Let_def morphed_runtime_def fresh_runtime_def split_beta)
  from gc_lock_undercounts_morphed [OF _ flags run] run show ?case by auto
qed

end
