(* ===== verification/JS_Resolving.thy ===== *)
theory JS_Resolving
  imports JS_GCRoots
begin

text \<open>
  The table that dampens recursive property resolution (jscntxt.c): which (object, id)
  pairs are being resolved, and for which purposes. It is a client of the double-hashing
  table with hash and match operations of its own.
\<close>

section \<open>Operations of the table\<close>

type_synonym resolving_key = "ptr \<times> u64"
type_synonym resolving_entry = "resolving_key \<times> u32"

definition resolving_GetKey :: "resolving_entry \<Rightarrow> resolving_key" where
  "resolving_GetKey entry = fst entry"

definition resolving_HashKey :: "resolving_key \<Rightarrow> u32" where
  "resolving_HashKey key = drop_bit 3 (ucast (fst key)) XOR ucast (snd key)"

definition resolving_MatchEntry :: "resolving_entry \<Rightarrow> resolving_key \<Rightarrow> bool" where
  "resolving_MatchEntry entry key \<longleftrightarrow> fst (fst entry) = fst key \<and> snd (fst entry) = snd key"

definition resolving_dhash_ops :: "(resolving_key, resolving_entry) dh_ops" where
  "resolving_dhash_ops = \<lparr>getKey = resolving_GetKey, hashKey = resolving_HashKey,
     matchEntry = resolving_MatchEntry, moveEntry = JS_DHashMoveEntryStub,
     clearEntry = JS_DHashClearEntryStub ((0, 0), 0), initEntry = None, zeroBody = ((0, 0), 0)\<rparr>"

interpretation resolving: dh_client resolving_dhash_ops "\<lambda>k. k"
  by unfold_locales
     (auto simp: resolving_dhash_ops_def resolving_MatchEntry_def resolving_GetKey_def
        JS_DHashMoveEntryStub_def JS_DHashClearEntryStub_def prod_eq_iff)

lemma resolving_ops_sel [simp]:
  "initEntry resolving_dhash_ops = None" "zeroBody resolving_dhash_ops = ((0, 0), 0)"
  "getKey resolving_dhash_ops = fst"
  by (auto simp: resolving_dhash_ops_def resolving_GetKey_def)

section \<open>Starting and stopping\<close>

datatype resolving_result = OutOfMemory | Resolving "nat option"

text \<open>
  \<open>cx->resolvingTable\<close> is created by the first call. The result is the table and, when
  memory sufficed, the entry (by index), which is null when the pair is being resolved for
  \<open>flag\<close> already.
\<close>

definition js_StartResolving ::
  "bool \<Rightarrow> (u32 \<Rightarrow> bool) \<Rightarrow> resolving_entry dh_table option \<Rightarrow> resolving_key \<Rightarrow> u32 \<Rightarrow>
     (resolving_entry dh_table option \<times> resolving_result) option" where
  "js_StartResolving hdr am resolvingTable key flag =
     (case (case resolvingTable of
              None \<Rightarrow> JS_NewDHashTable resolving_dhash_ops hdr am 32 JS_DHASH_MIN_SIZE
            | Some t \<Rightarrow> Some t) of
        None \<Rightarrow> Some (None, OutOfMemory)
      | Some t \<Rightarrow>
          (case JS_DHashTableOperate resolving_dhash_ops am t key JS_DHASH_ADD of
             None \<Rightarrow> None
           | Some (t, None) \<Rightarrow> Some (Some t, OutOfMemory)
           | Some (t, Some i) \<Rightarrow>
               let (ekey, flags) = body (entryStore t ! i)
               in if flags AND flag \<noteq> 0 then Some (Some t, Resolving None)
                  else
                    let ekey = (if fst ekey = 0 then key else ekey)
                    in Some (Some (dh_set_body t i (ekey, flags OR flag)), Resolving (Some i))))"

text \<open>
  \<open>entry\<close> is what the start returned and \<open>gen\<close> the generation the table had then: when
  the table changed since, the entry is looked up again.
\<close>

definition js_StopResolving ::
  "(u32 \<Rightarrow> bool) \<Rightarrow> resolving_entry dh_table \<Rightarrow> resolving_key \<Rightarrow> u32 \<Rightarrow> nat option \<Rightarrow> u32 \<Rightarrow>
     resolving_entry dh_table option" where
  "js_StopResolving am t key flag entry gen =
     (case (if entry = None \<or> generation t \<noteq> gen
            then JS_DHashTableOperate resolving_dhash_ops am t key JS_DHASH_LOOKUP
            else Some (t, entry)) of
        Some (t, Some i) \<Rightarrow>
          let (ekey, flags) = body (entryStore t ! i);
              flags = flags AND NOT flag;
              t = dh_set_body t i (ekey, flags)
          in if flags \<noteq> 0 then Some t
             else if removedCount t < drop_bit 2 (JS_DHASH_TABLE_SIZE t)
             then Some (JS_DHashTableRawRemove resolving_dhash_ops t i)
             else map_option fst (JS_DHashTableOperate resolving_dhash_ops am t key JS_DHASH_REMOVE)
      | _ \<Rightarrow> None)"

section \<open>What the table records\<close>

abbreviation "res_inv \<equiv> dh_inv resolving_dhash_ops (\<lambda>k. k)"
abbreviation "res_map t \<equiv> dh_map resolving_dhash_ops (\<lambda>k. k) (entryStore t)"

text \<open>For each pair, the flags it is being resolved for.\<close>

definition resolving_flags :: "resolving_entry dh_table option \<Rightarrow> resolving_key \<Rightarrow> u32" where
  "resolving_flags resolvingTable key =
     (case resolvingTable of
        None \<Rightarrow> 0
      | Some t \<Rightarrow> case res_map t key of None \<Rightarrow> 0 | Some b \<Rightarrow> snd b)"

definition resolving_ok :: "resolving_entry dh_table option \<Rightarrow> bool" where
  "resolving_ok resolvingTable \<longleftrightarrow> (\<forall>t. resolvingTable = Some t \<longrightarrow> res_inv t)"

lemma res_map_key: "res_inv t \<Longrightarrow> res_map t key = Some b \<Longrightarrow> fst b = key"
  using dh_map_eq [OF dh_invD(4), of resolving_dhash_ops "\<lambda>k. k" t key b] by (auto simp: entry_key_def)

lemmas live_entry_mapped_res = resolving.live_entry_mapped

lemma set_body_same: "i < length (entryStore t) \<Longrightarrow> dh_set_body t i (body (entryStore t ! i)) = t"
  by (simp add: dh_set_body_def)

lemma set_body_nth:
  "i < length (entryStore t) \<Longrightarrow> body (entryStore (dh_set_body t i b) ! i) = b \<and>
     ENTRY_IS_LIVE (entryStore (dh_set_body t i b) ! i) = ENTRY_IS_LIVE (entryStore t ! i)"
  by (simp add: dh_set_body_def ENTRY_IS_LIVE_def)

lemma new_resolving_table:
  assumes "JS_NewDHashTable resolving_dhash_ops hdr am 32 JS_DHASH_MIN_SIZE = Some t"
  shows "res_inv t" and "res_map t = Map.empty"
proof -
  have "JS_DHashTableInit resolving_dhash_ops (\<lambda>_. True) 32 JS_DHASH_MIN_SIZE = Some t"
    using assms by (auto simp: JS_NewDHashTable_def split: if_splits intro: Init_any_allocator)
  with Init_correct [where ops = resolving_dhash_ops and kab = "\<lambda>k. k" and am = "\<lambda>_. True"
      and capacity = JS_DHASH_MIN_SIZE and entry_size = 32]
  show "res_inv t" and "res_map t = Map.empty" by (auto simp: JS_DHASH_MIN_SIZE_def)
qed

lemma start_outcome:
  assumes ok: "resolving_ok tab" and obj: "fst key \<noteq> 0"
  shows "\<exists>tab' r. js_StartResolving hdr am tab key flag = Some (tab', r) \<and> resolving_ok tab' \<and>
    (case r of
       OutOfMemory \<Rightarrow> resolving_flags tab' = resolving_flags tab
     | Resolving None \<Rightarrow>
         resolving_flags tab key AND flag \<noteq> 0 \<and> resolving_flags tab' = resolving_flags tab
     | Resolving (Some i) \<Rightarrow>
         resolving_flags tab key AND flag = 0 \<and>
         resolving_flags tab' = (resolving_flags tab)(key := resolving_flags tab key OR flag) \<and>
         (\<exists>t'. tab' = Some t' \<and> i < length (entryStore t') \<and> ENTRY_IS_LIVE (entryStore t' ! i) \<and>
               fst (body (entryStore t' ! i)) = key))"
proof (cases "case tab of None \<Rightarrow> JS_NewDHashTable resolving_dhash_ops hdr am 32 JS_DHASH_MIN_SIZE | Some t \<Rightarrow> Some t")
  case None
  then show ?thesis by (auto simp: js_StartResolving_def resolving_ok_def split: option.splits)
next
  case (Some t)
  have t: "res_inv t" and flags: "resolving_flags (Some t) = resolving_flags tab"
    using Some ok new_resolving_table [of hdr am t]
    by (auto simp: resolving_ok_def resolving_flags_def fun_eq_iff split: option.splits)
  obtain t' r where op: "JS_DHashTableOperate resolving_dhash_ops am t key JS_DHASH_ADD = Some (t', r)"
    and r: "case r of None \<Rightarrow> t' = t | Some i \<Rightarrow> i < length (entryStore t') \<and> ENTRY_IS_LIVE (entryStore t' ! i) \<and>
         body (entryStore t' ! i) = (case res_map t key of Some b \<Rightarrow> b | None \<Rightarrow> ((0, 0), 0)) \<and>
         (\<forall>b. fst b = key \<longrightarrow> res_inv (dh_set_body t' i b) \<and> res_map (dh_set_body t' i b) = (res_map t)(key \<mapsto> b))"
    using resolving.add_correct [OF t, of key am] by (fastforce split: option.splits)
  show ?thesis
  proof (cases r)
    case None
    have "js_StartResolving hdr am tab key flag = Some (Some t', OutOfMemory)"
      using Some op None by (simp add: js_StartResolving_def)
    then show ?thesis using r None t flags by (simp add: resolving_ok_def)
  next
    case ri: (Some i)
    note r' = r [unfolded ri option.case]
    define fl where "fl = resolving_flags tab key"
    have fl: "snd (body (entryStore t' ! i)) = fl"
      using r' by (simp add: fl_def flags [symmetric] resolving_flags_def split: option.split)
    show ?thesis
    proof (cases "fl AND flag \<noteq> 0")
      case True
      have "res_map t key \<noteq> None" using True by (auto simp: fl_def flags [symmetric] resolving_flags_def split: option.splits)
      then have key: "fst (body (entryStore t' ! i)) = key" and same: "res_map t key = Some (body (entryStore t' ! i))"
        using r' res_map_key [OF t, of key] by auto
      have "res_inv t'" "res_map t' = (res_map t)(key \<mapsto> body (entryStore t' ! i))"
        using r' key set_body_same [of i t'] by metis+
      then have "res_inv t'" "res_map t' = res_map t" using same by (auto simp: fun_eq_iff)
      moreover have "js_StartResolving hdr am tab key flag = Some (Some t', Resolving None)"
        using Some op ri True fl by (simp add: js_StartResolving_def split_beta)
      moreover have "resolving_flags (Some t') = resolving_flags (Some t)"
        using \<open>res_map t' = res_map t\<close> by (simp add: resolving_flags_def fun_eq_iff)
      ultimately show ?thesis using True flags by (simp add: resolving_ok_def fl_def)
    next
      case False
      have key: "(if fst (fst (body (entryStore t' ! i))) = 0 then key else fst (body (entryStore t' ! i))) = key"
        using r' res_map_key [OF t, of key] obj by (auto split: option.splits)
      define t'' where "t'' = dh_set_body t' i (key, fl OR flag)"
      have run: "js_StartResolving hdr am tab key flag = Some (Some t'', Resolving (Some i))"
        using Some op ri False fl key by (simp add: js_StartResolving_def split_beta t''_def)
          (auto split: if_splits)
      have t'': "res_inv t''" "res_map t'' = (res_map t)(key \<mapsto> (key, fl OR flag))"
        using r' by (simp_all add: t''_def)
      have "resolving_flags (Some t'') = (resolving_flags tab)(key := fl OR flag)"
        unfolding flags [symmetric] by (simp add: resolving_flags_def t'' fun_eq_iff)
      moreover have "i < length (entryStore t'')" "ENTRY_IS_LIVE (entryStore t'' ! i)" "fst (body (entryStore t'' ! i)) = key"
        using r' set_body_nth [of i t' "(key, fl OR flag)"] by (simp_all add: t''_def) (simp add: dh_set_body_def)
      ultimately show ?thesis
        using run t'' False by (simp add: resolving_ok_def fl_def)
    qed
  qed
qed


lemma stop_outcome:
  assumes inv: "res_inv t" and mapped: "res_map t key = Some b"
    and entry: "\<And>i. entry = Some i \<Longrightarrow> generation t = gen \<Longrightarrow>
      i < length (entryStore t) \<and> ENTRY_IS_LIVE (entryStore t ! i) \<and> fst (body (entryStore t ! i)) = key"
  shows "\<exists>t'. js_StopResolving am t key flag entry gen = Some t' \<and> res_inv t' \<and>
    (if snd b AND NOT flag = 0 then res_map t' = (res_map t)(key := None)
     else res_map t' = (res_map t)(key \<mapsto> (key, snd b AND NOT flag)))"
proof -
  have "\<exists>j. (if entry = None \<or> generation t \<noteq> gen
        then JS_DHashTableOperate resolving_dhash_ops am t key JS_DHASH_LOOKUP else Some (t, entry)) = Some (t, Some j) \<and>
      j < length (entryStore t) \<and> ENTRY_IS_LIVE (entryStore t ! j) \<and> fst (body (entryStore t ! j)) = key"
  proof (cases "entry = None \<or> generation t \<noteq> gen")
    case True
    then show ?thesis
      using resolving.lookup_correct [OF inv, of am key] mapped res_map_key [OF inv mapped] by auto
  next
    case False
    then show ?thesis using entry by auto
  qed
  then obtain j where find: "(if entry = None \<or> generation t \<noteq> gen
        then JS_DHashTableOperate resolving_dhash_ops am t key JS_DHASH_LOOKUP else Some (t, entry)) = Some (t, Some j)"
    and j: "j < length (entryStore t)" "ENTRY_IS_LIVE (entryStore t ! j)" "fst (body (entryStore t ! j)) = key"
    by blast
  have ek: "entry_key resolving_dhash_ops (\<lambda>k. k) (entryStore t ! j) = key" by (simp add: entry_key_def j)
  have body: "body (entryStore t ! j) = b" using live_entry_mapped_res [OF inv j(1,2)] mapped ek by simp
  define fl where "fl = snd b AND NOT flag"
  define t1 where "t1 = dh_set_body t j (key, fl)"
  have t1: "res_inv t1" "res_map t1 = (res_map t)(key \<mapsto> (key, fl))"
    using resolving.set_body_correct [OF inv j(1,2), of "(key, fl)"] ek by (simp_all add: t1_def)
  have live: "ENTRY_IS_LIVE (entryStore t1 ! j)" "entry_key resolving_dhash_ops (\<lambda>k. k) (entryStore t1 ! j) = key"
    "j < length (entryStore t1)"
    using set_body_nth [OF j(1), of "(key, fl)"] j by (simp_all add: t1_def entry_key_def) (simp add: dh_set_body_def)
  have run: "js_StopResolving am t key flag entry gen =
     (if fl \<noteq> 0 then Some t1
      else if removedCount t1 < drop_bit 2 (JS_DHASH_TABLE_SIZE t1) then Some (JS_DHashTableRawRemove resolving_dhash_ops t1 j)
      else map_option fst (JS_DHashTableOperate resolving_dhash_ops am t1 key JS_DHASH_REMOVE))"
    using j(3) body by (simp add: js_StopResolving_def find split_beta Let_def fl_def t1_def)
  show ?thesis
  proof (cases "fl = 0")
    case False
    then show ?thesis using run t1 by (simp add: fl_def)
  next
    case True
    have "j < 2 ^ table_log2 t1" using live(3) dh_coreD(2) [OF dh_invD(4) [OF t1(1)]] by simp
    from DHash_RawRemove_correct [OF t1(1) this live(1)]
    have raw: "res_inv (JS_DHashTableRawRemove resolving_dhash_ops t1 j)"
      "res_map (JS_DHashTableRawRemove resolving_dhash_ops t1 j) = (res_map t1)(key := None)"
      using live(2) resolving.clear_zeroes by auto
    obtain t2 where rem: "JS_DHashTableOperate resolving_dhash_ops am t1 key JS_DHASH_REMOVE = Some (t2, None)"
        "res_inv t2" "res_map t2 = (res_map t1)(key := None)"
      using resolving.remove_correct [OF t1(1), of am key] by blast
    show ?thesis
      using run True raw rem t1(2) by (cases "removedCount t1 < drop_bit 2 (JS_DHASH_TABLE_SIZE t1)") (simp_all add: fl_def)
  qed
qed

section \<open>Properties\<close>

text \<open>
  starting to resolve a pair for a flag returns; it fails only for want of memory, says
  null when that very resolution is in progress (so the recursion stops), and otherwise
  records the flag and returns the live entry of the pair.
\<close>

theorem start_resolving_dampens:
  assumes "resolving_ok tab" and "fst key \<noteq> 0"
  shows "\<exists>tab' r. js_StartResolving hdr am tab key flag = Some (tab', r) \<and> resolving_ok tab' \<and>
    (case r of
       OutOfMemory \<Rightarrow> resolving_flags tab' = resolving_flags tab
     | Resolving None \<Rightarrow>
         resolving_flags tab key AND flag \<noteq> 0 \<and> resolving_flags tab' = resolving_flags tab
     | Resolving (Some i) \<Rightarrow>
         resolving_flags tab key AND flag = 0 \<and>
         resolving_flags tab' = (resolving_flags tab)(key := resolving_flags tab key OR flag) \<and>
         (\<exists>t'. tab' = Some t' \<and> i < length (entryStore t') \<and> ENTRY_IS_LIVE (entryStore t' ! i) \<and>
               fst (body (entryStore t' ! i)) = key))"
  by (rule start_outcome [OF assms])

theorem start_resolving_dampens_witness:
  "\<exists>tab' r. js_StartResolving True (\<lambda>_. True) None (8, 2) 1 = Some (tab', r) \<and> resolving_ok tab'"
  using start_resolving_dampens [of None "(8, 2)" True "\<lambda>_. True" 1] by (auto simp: resolving_ok_def)

text \<open>
  stopping with the entry the start returned, or without it once the table has changed
  generation, clears the flag again: a start followed by its stop leaves every pair's flags as
  they were.
\<close>

theorem stop_resolving_restores:
  assumes "resolving_ok tab" and "fst key \<noteq> 0" and "flag \<noteq> 0"
    and "js_StartResolving hdr am tab key flag = Some (Some t, Resolving (Some i))"
  shows "\<exists>t'. js_StopResolving am' t key flag (if stale then None else Some i) (generation t) = Some t' \<and>
    res_inv t' \<and> resolving_flags (Some t') = resolving_flags tab"
proof -
  have s: "resolving_flags tab key AND flag = 0" "res_inv t"
    and fl: "resolving_flags (Some t) = (resolving_flags tab)(key := resolving_flags tab key OR flag)"
    and i: "i < length (entryStore t)" "ENTRY_IS_LIVE (entryStore t ! i)" "fst (body (entryStore t ! i)) = key"
    using start_outcome [OF assms(1,2), of hdr am flag] assms(4) by (auto simp: resolving_ok_def)
  define b where "b = body (entryStore t ! i)"
  have b: "res_map t key = Some b"
    using live_entry_mapped_res [OF s(2) i(1,2)] i(3) by (simp add: b_def entry_key_def)
  have snd: "snd b = resolving_flags tab key OR flag"
    using fun_cong [OF fl, of key] b by (simp add: resolving_flags_def)
  have clear: "snd b AND NOT flag = resolving_flags tab key"
  proof -
    have "(resolving_flags tab key OR flag) AND NOT flag = resolving_flags tab key AND NOT flag"
      by (simp add: bit.conj_disj_distrib2)
    also have "\<dots> = (resolving_flags tab key AND flag) OR (resolving_flags tab key AND NOT flag)"
      using s(1) by simp
    also have "\<dots> = resolving_flags tab key" by (simp flip: bit.conj_disj_distrib)
    finally show ?thesis using snd by simp
  qed
  have entry: "j < length (entryStore t) \<and> ENTRY_IS_LIVE (entryStore t ! j) \<and> fst (body (entryStore t ! j)) = key"
    if "(if stale then None else Some i) = Some j" for j
    using that i by (simp split: if_splits)
  obtain t' where t': "js_StopResolving am' t key flag (if stale then None else Some i) (generation t) = Some t'"
      "res_inv t'" "if snd b AND NOT flag = 0 then res_map t' = (res_map t)(key := None)
     else res_map t' = (res_map t)(key \<mapsto> (key, snd b AND NOT flag))"
    using stop_outcome [OF s(2) b, of "if stale then None else Some i" "generation t" am' flag, OF entry] i by blast
  have other: "resolving_flags (Some t) k = resolving_flags tab k" if "k \<noteq> key" for k using fl that by simp
  have "resolving_flags (Some t') k = resolving_flags tab k" for k
    using t'(3) clear other [of k] by (cases "k = key") (auto simp: resolving_flags_def split: if_splits)
  then show ?thesis using t' by blast
qed


lemma first_start_succeeds:
  "\<exists>t i. js_StartResolving True (\<lambda>_. True) None key flag = Some (Some t, Resolving (Some i))"
proof -
  obtain u where u: "JS_NewDHashTable resolving_dhash_ops True (\<lambda>_. True) 32 JS_DHASH_MIN_SIZE = Some u"
    using Init_correct [where ops = resolving_dhash_ops and kab = "\<lambda>k. k" and am = "\<lambda>_. True"
        and capacity = JS_DHASH_MIN_SIZE and entry_size = 32] by (auto simp: JS_DHASH_MIN_SIZE_def JS_NewDHashTable_def)
  note inv = new_resolving_table [OF u]
  have "\<exists>n. entryStore u = replicate n \<lparr>keyHash = 0, body = ((0, 0), 0)\<rparr>"
    using u by (auto simp: JS_NewDHashTable_def JS_DHashTableInit_def Let_def split: if_splits)
  then have "live_count (entryStore u) + removed_count (entryStore u) = 0" by auto
  moreover have "(2 :: nat) ^ table_log2 u - 1 \<noteq> 0"
    using dh_invD(2) [OF inv(1)] one_less_power [of "2 :: nat" "table_log2 u"] by simp
  ultimately obtain u' i where "JS_DHashTableOperate resolving_dhash_ops (\<lambda>_. True) u key JS_DHASH_ADD = Some (u', Some i)"
      "body (entryStore u' ! i) = ((0, 0), 0)"
    using resolving.add_correct [OF inv(1), of key "\<lambda>_. True"] inv(2) by (fastforce split: option.splits)
  then show ?thesis using u by (simp add: js_StartResolving_def)
qed

theorem stop_resolving_restores_witness:
  "\<exists>t i t'. js_StartResolving True (\<lambda>_. True) None (8, 2) 1 = Some (Some t, Resolving (Some i)) \<and>
     js_StopResolving (\<lambda>_. True) t (8, 2) 1 (Some i) (generation t) = Some t' \<and>
     resolving_flags (Some t') (8, 2) = 0"
proof -
  obtain t i where s: "js_StartResolving True (\<lambda>_. True) None (8, 2) 1 = Some (Some t, Resolving (Some i))"
    using first_start_succeeds by blast
  have "resolving_ok None" by (simp add: resolving_ok_def)
  from stop_resolving_restores [OF this _ _ s, of "\<lambda>_. True" False]
  obtain t' where "js_StopResolving (\<lambda>_. True) t (8, 2) 1 (Some i) (generation t) = Some t'"
      "resolving_flags (Some t') = resolving_flags None" by auto
  moreover have "resolving_flags None (8, 2) = 0" by (simp add: resolving_flags_def)
  ultimately show ?thesis using s by auto
qed

end
