(* ===== verification/JS_LocalRoots.thy ===== *)
theory JS_LocalRoots
  imports JS_Prelude "HOL-Library.Multiset"
begin

text \<open>
  The local root stack of a context (jscntxt.c): values a native function has created are
  kept alive in scopes, stored in one stack of 256-value chunks. Each scope starts with a
  slot that saves the mark of the scope around it, as an integer value. The abstract view is
  the list of scopes, innermost first, each the list of its values in push order.
\<close>

section \<open>Data\<close>

type_synonym jsval = u64

definition JSLRS_CHUNK_SHIFT :: nat where "JSLRS_CHUNK_SHIFT = 8"
definition JSLRS_CHUNK_SIZE :: u32 where "JSLRS_CHUNK_SIZE = JS_BIT JSLRS_CHUNK_SHIFT"
definition JSLRS_CHUNK_MASK :: u32 where "JSLRS_CHUNK_MASK = JS_BITMASK JSLRS_CHUNK_SHIFT"
definition JSLRS_NULL_MARK :: u32 where "JSLRS_NULL_MARK = - 1"

definition JSVAL_NULL :: jsval where "JSVAL_NULL = 0"

text \<open>Integer values: shifted left by one and tagged; reading truncates to \<open>jsint\<close> first.\<close>

definition INT_TO_JSVAL :: "u32 \<Rightarrow> jsval" where
  "INT_TO_JSVAL i = push_bit 1 (ucast i) OR 1"

definition JSVAL_TO_INT :: "jsval \<Rightarrow> u32" where
  "JSVAL_TO_INT v = signed_drop_bit 1 (ucast v)"

definition JSVAL_TO_GCTHING :: "jsval \<Rightarrow> u64" where
  "JSVAL_TO_GCTHING v = v AND NOT 7"

text \<open>
  \<open>JSLocalRootStack\<close>: \<open>chunks\<close> lists the chunks from \<open>topChunk\<close> along the \<open>down\<close> pointers;
  the last one is \<open>firstChunk\<close>.
\<close>

record local_root_stack =
  scopeMark :: u32
  rootCount :: u32
  chunks :: "jsval list list"

definition set_root :: "local_root_stack \<Rightarrow> nat \<Rightarrow> u32 \<Rightarrow> jsval \<Rightarrow> local_root_stack" where
  "set_root lrs k m v = lrs\<lparr>chunks := (chunks lrs)[k := (chunks lrs ! k)[unat m := v]]\<rparr>"

section \<open>Operations\<close>

text \<open>
  Memory comes from an argument: \<open>None\<close> when the allocation fails, otherwise the 256 values
  that happen to be in the new chunk. Pushing returns the index of the slot, or \<open>None\<close> for -1.
\<close>

definition js_PushLocalRoot ::
  "jsval list option \<Rightarrow> local_root_stack \<Rightarrow> jsval \<Rightarrow> local_root_stack \<times> u32 option" where
  "js_PushLocalRoot mem lrs v =
     (let n = rootCount lrs;
          m = n AND JSLRS_CHUNK_MASK
      in if n = 0 \<or> m \<noteq> 0 then
           (if n + 1 = 0 then (lrs, None)
            else (set_root (lrs\<lparr>rootCount := n + 1\<rparr>) 0 m v, Some n))
         else
           (case mem of
              None \<Rightarrow> (lrs, None)
            | Some lrc \<Rightarrow>
                (set_root (lrs\<lparr>chunks := lrc # chunks lrs, rootCount := n + 1\<rparr>) 0 m v, Some n)))"

text \<open>\<open>lrs_mem\<close> is for the stack itself (its first chunk), \<open>mem\<close> for a further chunk.\<close>

definition js_EnterLocalRootScope ::
  "jsval list option \<Rightarrow> jsval list option \<Rightarrow> local_root_stack option \<Rightarrow>
     local_root_stack option \<times> bool" where
  "js_EnterLocalRootScope lrs_mem mem localRootStack =
     (case (case localRootStack of
              Some lrs \<Rightarrow> Some lrs
            | None \<Rightarrow> map_option (\<lambda>first. \<lparr>scopeMark = JSLRS_NULL_MARK, rootCount = 0, chunks = [first]\<rparr>) lrs_mem) of
        None \<Rightarrow> (None, False)
      | Some lrs \<Rightarrow>
          (case js_PushLocalRoot mem lrs (INT_TO_JSVAL (scopeMark lrs)) of
             (lrs, None) \<Rightarrow> (Some lrs, False)
           | (lrs, Some mark) \<Rightarrow>
               if sint mark < 0 then (Some lrs, False)
               else (Some (lrs\<lparr>scopeMark := mark\<rparr>), True)))"

function free_chunks :: "u32 \<Rightarrow> u32 \<Rightarrow> jsval list list \<Rightarrow> jsval list list" where
  "free_chunks n m cs = (if m < n then free_chunks (n - 1) m (tl cs) else cs)"
  by pat_completeness auto
termination
  by (relation "measure (\<lambda>(n, m, cs). unat n)")
     (auto simp: word_less_nat_alt unat_dec_exact word_neq_0_unat)

declare free_chunks.simps [simp del]

definition js_LeaveLocalRootScope :: "local_root_stack option \<Rightarrow> local_root_stack option" where
  "js_LeaveLocalRootScope localRootStack =
     (case localRootStack of
        None \<Rightarrow> None
      | Some lrs \<Rightarrow>
          if rootCount lrs = 0 \<or> scopeMark lrs = JSLRS_NULL_MARK then Some lrs
          else
            let mark = scopeMark lrs;
                m = drop_bit JSLRS_CHUNK_SHIFT mark;
                n = drop_bit JSLRS_CHUNK_SHIFT (rootCount lrs - 1);
                lrs = lrs\<lparr>chunks := free_chunks n m (chunks lrs)\<rparr>;
                m = mark AND JSLRS_CHUNK_MASK;
                lrs = lrs\<lparr>scopeMark := JSVAL_TO_INT (chunks lrs ! 0 ! unat m)\<rparr>;
                lrs = (set_root lrs 0 m JSVAL_NULL)\<lparr>rootCount := mark\<rparr>
            in if mark = 0 then None
               else if m = 0 then Some (lrs\<lparr>chunks := tl (chunks lrs)\<rparr>)
               else Some lrs)"

text \<open>
  The search of \<open>js_ForgetLocalRoot\<close>: \<open>k\<close> counts the \<open>down\<close> links taken from the top chunk.
\<close>

function forget_loop ::
  "jsval list list \<Rightarrow> u32 \<Rightarrow> jsval \<Rightarrow> u32 \<Rightarrow> u32 \<Rightarrow> nat \<Rightarrow> u32 \<times> u32 \<times> nat" where
  "forget_loop cs mark v i j k =
     (let i = i - 1
      in if mark < i then
           let k = (if j = 0 then k + 1 else k);
               j = i AND JSLRS_CHUNK_MASK
           in if cs ! k ! unat j = v then (i, j, k) else forget_loop cs mark v i j k
         else (i, j, k))"
  by pat_completeness auto
termination
proof (relation "measure (\<lambda>(cs, mark, v, i, j, k). unat (i - 1 - mark))", goal_cases)
  case (2 cs mark v i j k i' k' j')
  then have "i' - mark \<noteq> 0" by auto
  then have "unat (i' - mark - 1) < unat (i' - mark)" by (rule unat_dec_less)
  moreover have "i' - mark - 1 = i' - 1 - mark" by simp
  ultimately have "unat (i' - 1 - mark) < unat (i' - mark)" by (simp only:)
  then show ?case unfolding 2(1) by simp
qed simp

declare forget_loop.simps [simp del]

definition js_ForgetLocalRoot :: "local_root_stack \<Rightarrow> jsval \<Rightarrow> local_root_stack" where
  "js_ForgetLocalRoot lrs v =
     (if rootCount lrs = 0 then lrs
      else
        let n = rootCount lrs - 1;
            m = n AND JSLRS_CHUNK_MASK;
            top = chunks lrs ! 0 ! unat m;
            mark = scopeMark lrs;
            pop = (\<lambda>lrs. let lrs = (set_root lrs 0 m JSVAL_NULL)\<lparr>rootCount := n\<rparr>
                         in if m = 0 then lrs\<lparr>chunks := tl (chunks lrs)\<rparr> else lrs)
        in if n \<le> mark then lrs
           else if top \<noteq> v then
             (let (i, j, k) = forget_loop (chunks lrs) mark v n m 0
              in if i = mark then lrs else pop (set_root lrs k j top))
           else pop lrs)"

text \<open>
  \<open>js_MarkLocalRoots\<close> marks the values of each scope from the top down and then continues
  with the scope around it; the result is the list of marked values. With a corrupt mark it
  need not return.
\<close>

function mark_scope ::
  "jsval list list \<Rightarrow> u32 \<Rightarrow> u32 \<Rightarrow> nat \<Rightarrow> jsval list \<Rightarrow> u32 \<times> nat \<times> jsval list" where
  "mark_scope cs mark n k acc =
     (let n = n - 1
      in if mark < n then
           let m = n AND JSLRS_CHUNK_MASK
           in mark_scope cs mark n (if m = 0 then k + 1 else k) (acc @ [JSVAL_TO_GCTHING (cs ! k ! unat m)])
         else (n, k, acc))"
  by pat_completeness auto
termination
proof (relation "measure (\<lambda>(cs, mark, n, k, acc). unat (n - 1 - mark))", goal_cases)
  case (2 cs mark n k acc n' m)
  then have "n' - mark \<noteq> 0" by auto
  then have "unat (n' - mark - 1) < unat (n' - mark)" by (rule unat_dec_less)
  moreover have "n' - mark - 1 = n' - 1 - mark" by simp
  ultimately have "unat (n' - 1 - mark) < unat (n' - mark)" by (simp only:)
  then show ?case unfolding 2(1) by simp
qed simp

declare mark_scope.simps [simp del]

partial_function (option) mark_loop ::
  "jsval list list \<Rightarrow> u32 \<Rightarrow> u32 \<Rightarrow> nat \<Rightarrow> jsval list \<Rightarrow> jsval list option" where
  "mark_loop cs mark n k acc =
     (let (n, k, acc) = mark_scope cs mark n k acc;
          m = n AND JSLRS_CHUNK_MASK;
          mark = JSVAL_TO_INT (cs ! k ! unat m);
          k = (if m = 0 then k + 1 else k)
      in if n \<noteq> 0 then mark_loop cs mark n k acc else Some acc)"

declare mark_loop.simps [code]

definition js_MarkLocalRoots :: "local_root_stack \<Rightarrow> jsval list option" where
  "js_MarkLocalRoots lrs =
     (if rootCount lrs = 0 then Some []
      else mark_loop (chunks lrs) (scopeMark lrs) (rootCount lrs) 0 [])"


section \<open>Chunks as one array\<close>

lemma bit_int_val: "bit (INT_TO_JSVAL i) n \<longleftrightarrow> n = 0 \<or> 0 < n \<and> n \<le> 32 \<and> bit i (n - 1)"
proof -
  have "bit (INT_TO_JSVAL i) n \<longleftrightarrow> n = 0 \<or> 1 \<le> n \<and> n < 64 \<and> bit i (n - 1)"
    unfolding INT_TO_JSVAL_def
    by (simp only: bit_or_iff bit_push_bit_iff bit_unsigned_iff bit_1_iff possible_bit_def) auto
  moreover have "bit i (n - 1) \<Longrightarrow> n - 1 < 32" by (drule bit_imp_le_length) simp
  ultimately show ?thesis by auto
qed

lemma int_val_roundtrip:
  assumes "i = - 1 \<or> unat i < 2 ^ 30" shows "JSVAL_TO_INT (INT_TO_JSVAL i) = i"
proof -
  have hi: "bit i 30 = bit i 31"
  proof (cases "i = - 1")
    case False
    then have "unat i < 2 ^ 30" using assms by simp
    then show ?thesis by (simp add: bit_unat div_less)
  qed (simp add: bit_minus_1_iff)
  have "bit (JSVAL_TO_INT (INT_TO_JSVAL i)) n = bit i n" if "n < 32" for n
  proof (cases "n = 31")
    case True
    then show ?thesis using hi by (simp add: JSVAL_TO_INT_def bit_signed_drop_bit_iff bit_unsigned_iff bit_int_val)
  next
    case False
    then have "n + 1 < 32" using that by simp
    then show ?thesis by (simp add: JSVAL_TO_INT_def bit_signed_drop_bit_iff bit_unsigned_iff bit_int_val)
  qed
  then show ?thesis by (intro bit_word_eqI) simp
qed

lemma unat_mask [simp]: "unat (n AND JSLRS_CHUNK_MASK) = unat n mod 256"
  by (simp add: JSLRS_CHUNK_MASK_def JSLRS_CHUNK_SHIFT_def JS_BITMASK_eq_mask unat_take_bit flip: take_bit_eq_mask)

lemma unat_shift [simp]: "unat (drop_bit JSLRS_CHUNK_SHIFT n) = unat n div 256" for n :: u32
  by (simp add: unat_drop_bit_div JSLRS_CHUNK_SHIFT_def)

definition store :: "jsval list list \<Rightarrow> jsval list" where
  "store cs = concat (rev cs)"

definition full_chunks :: "jsval list list \<Rightarrow> bool" where
  "full_chunks cs \<longleftrightarrow> (\<forall>c\<in>set cs. length c = 256)"

lemma store_Nil [simp]: "store [] = []"
  by (simp add: store_def)

lemma store_Cons [simp]: "store (c # cs) = store cs @ c"
  by (simp add: store_def)

lemma full_chunks_Cons [simp]: "full_chunks (c # cs) \<longleftrightarrow> length c = 256 \<and> full_chunks cs"
  by (simp add: full_chunks_def)

lemma length_store: "full_chunks cs \<Longrightarrow> length (store cs) = 256 * length cs"
  by (induction cs) (simp_all add: store_def full_chunks_def)

lemma store_nth:
  "full_chunks cs \<Longrightarrow> k < length cs \<Longrightarrow> r < 256 \<Longrightarrow>
     cs ! k ! r = store cs ! ((length cs - 1 - k) * 256 + r)"
proof (induction cs arbitrary: k)
  case (Cons c cs)
  show ?case
  proof (cases k)
    case 0
    then show ?thesis using Cons by (simp add: nth_append length_store)
  next
    case (Suc k')
    then have "(length cs - 1 - k') * 256 + r < length (store cs)"
      using Cons.prems by (simp add: length_store)
    then show ?thesis using Suc Cons by (simp add: nth_append)
  qed
qed simp

lemma store_set:
  "full_chunks cs \<Longrightarrow> k < length cs \<Longrightarrow> r < 256 \<Longrightarrow>
     store (cs[k := (cs ! k)[r := v]]) = (store cs)[(length cs - 1 - k) * 256 + r := v]"
proof (induction cs arbitrary: k)
  case (Cons c cs)
  show ?case
  proof (cases k)
    case 0
    then show ?thesis using Cons.prems by (simp add: list_update_append length_store)
  next
    case (Suc k')
    then have "(length cs - 1 - k') * 256 + r < length (store cs)"
      using Cons.prems by (simp add: length_store)
    then show ?thesis using Suc Cons by (simp add: list_update_append)
  qed
qed simp

lemma full_chunks_set: "full_chunks cs \<Longrightarrow> full_chunks (cs[k := (cs ! k)[r := v]])"
  unfolding full_chunks_def all_set_conv_all_nth
  by (cases "k < length cs") (auto simp: nth_list_update)

lemma store_drop: "full_chunks cs \<Longrightarrow> store (drop k cs) = take (256 * (length cs - k)) (store cs)"
proof (induction cs arbitrary: k)
  case (Cons c cs)
  then show ?case by (cases k) (simp_all add: length_store)
qed (simp add: store_def)

lemma full_chunks_drop: "full_chunks cs \<Longrightarrow> full_chunks (drop k cs)"
  by (auto simp: full_chunks_def dest: in_set_dropD)

text \<open>The chunks a stack of so many roots has, and its roots in push order.\<close>

definition chunks_ok :: "local_root_stack \<Rightarrow> bool" where
  "chunks_ok lrs \<longleftrightarrow> full_chunks (chunks lrs) \<and>
     length (chunks lrs) = (unat (rootCount lrs) - 1) div 256 + 1"

definition roots :: "local_root_stack \<Rightarrow> jsval list" where
  "roots lrs = take (unat (rootCount lrs)) (store (chunks lrs))"

lemma chunk_room: "m \<le> 256 * ((m - 1) div 256 + 1)" for m :: nat
proof (cases m)
  case (Suc k)
  have "k < 256 * (k div 256) + 256" using dividend_less_times_div [of 256 k] by simp
  with Suc show ?thesis by simp
qed simp

lemma length_roots: "chunks_ok lrs \<Longrightarrow> length (roots lrs) = unat (rootCount lrs)"
proof -
  assume ok: "chunks_ok lrs"
  with chunk_room [of "unat (rootCount lrs)"] show ?thesis
    by (simp add: roots_def chunks_ok_def length_store)
qed

text \<open>The slot of a root: its chunk, counted from the top, and its place there.\<close>

lemma root_slot:
  assumes ok: "chunks_ok lrs" and n: "n < unat (rootCount lrs)"
    and k: "k = (unat (rootCount lrs) - 1) div 256 - n div 256"
  shows "chunks lrs ! k ! (n mod 256) = roots lrs ! n"
    and "store ((chunks lrs)[k := (chunks lrs ! k)[n mod 256 := v]]) = (store (chunks lrs))[n := v]"
    and "k < length (chunks lrs)"
proof -
  have le: "n div 256 \<le> (unat (rootCount lrs) - 1) div 256" using n by (intro div_le_mono) simp
  show kl: "k < length (chunks lrs)" using ok k by (simp add: chunks_ok_def less_Suc_eq_le)
  have "length (chunks lrs) - 1 - k = n div 256" using ok k le by (simp add: chunks_ok_def)
  then have pos: "(length (chunks lrs) - 1 - k) * 256 + n mod 256 = n" by simp
  have full: "full_chunks (chunks lrs)" using ok by (simp add: chunks_ok_def)
  show "chunks lrs ! k ! (n mod 256) = roots lrs ! n"
    using store_nth [OF full kl, of "n mod 256"] n by (simp only: pos roots_def nth_take)
  show "store ((chunks lrs)[k := (chunks lrs ! k)[n mod 256 := v]]) = (store (chunks lrs))[n := v]"
    using store_set [OF full kl, of "n mod 256" v] unfolding pos by simp
qed


lemma pred_div_256: "n \<noteq> 0 \<Longrightarrow> (n - 1) div 256 = (if n mod 256 = 0 then n div 256 - 1 else n div 256)" for n :: nat
  by (cases n) (auto simp: div_Suc mod_eq_0_iff_dvd)

lemma set_root_sel [simp]:
  "rootCount (set_root lrs k m v) = rootCount lrs" "scopeMark (set_root lrs k m v) = scopeMark lrs"
  by (simp_all add: set_root_def)

lemma chunks_ok_set_root:
  "chunks_ok lrs \<Longrightarrow> chunks_ok (set_root lrs k m v)"
  by (simp add: chunks_ok_def set_root_def full_chunks_set)

section \<open>What each operation does to the roots\<close>

lemma push_slot:
  assumes ok: "chunks_ok lrs" and n: "unat (rootCount lrs) = Suc (unat n)"
  shows "roots (set_root lrs 0 (n AND JSLRS_CHUNK_MASK) v) = take (unat n) (store (chunks lrs)) @ [v]"
proof -
  have "length (store (chunks lrs)) \<ge> unat (rootCount lrs)"
    using length_roots [OF ok] by (simp add: roots_def)
  moreover have "store (chunks (set_root lrs 0 (n AND JSLRS_CHUNK_MASK) v)) = (store (chunks lrs))[unat n := v]"
    using root_slot(2) [OF ok, of "unat n" 0 v] n by (simp add: set_root_def)
  ultimately show ?thesis using n by (simp add: roots_def take_Suc_conv_app_nth)
qed

lemma push_outcome:
  assumes ok: "chunks_ok lrs" and small: "unat (rootCount lrs) + 1 < 2 ^ 32"
    and mem: "\<And>c. mem = Some c \<Longrightarrow> length c = 256"
  shows "case js_PushLocalRoot mem lrs v of
      (lrs', None) \<Rightarrow> lrs' = lrs \<and> mem = None
    | (lrs', Some n) \<Rightarrow> n = rootCount lrs \<and> chunks_ok lrs' \<and> roots lrs' = roots lrs @ [v] \<and>
        scopeMark lrs' = scopeMark lrs \<and> rootCount lrs' = rootCount lrs + 1"
proof -
  define n where "n = rootCount lrs"
  have inc: "unat (n + 1) = Suc (unat n)" using small by (simp add: n_def unat_inc_exact)
  then have nz: "n + 1 \<noteq> 0" by (metis nat.distinct(1) unat_0)
  have m: "n AND JSLRS_CHUNK_MASK = 0 \<longleftrightarrow> unat n mod 256 = 0"
    using unat_mask [of n] by (metis unat_eq_zero)
  have full: "full_chunks (chunks lrs)" and len: "length (chunks lrs) = (unat n - 1) div 256 + 1"
    using ok by (simp_all add: chunks_ok_def n_def)
  show ?thesis
  proof (cases "n = 0 \<or> n AND JSLRS_CHUNK_MASK \<noteq> 0")
    case True
    define lrs0 where "lrs0 = lrs\<lparr>rootCount := n + 1\<rparr>"
    have "(unat n - 1) div 256 = unat n div 256"
      using True m pred_div_256 [of "unat n"] by (cases "unat n = 0") (auto simp: unat_eq_zero)
    then have ok0: "chunks_ok lrs0" using full len inc by (simp add: chunks_ok_def lrs0_def)
    have "js_PushLocalRoot mem lrs v = (set_root lrs0 0 (n AND JSLRS_CHUNK_MASK) v, Some n)"
      using True nz by (simp add: js_PushLocalRoot_def Let_def lrs0_def n_def)
    then show ?thesis
      using push_slot [OF ok0, of n v] chunks_ok_set_root [OF ok0] inc
      by (simp add: lrs0_def n_def) (simp add: roots_def)
  next
    case False
    show ?thesis
    proof (cases mem)
      case None
      then show ?thesis using False by (simp add: js_PushLocalRoot_def Let_def n_def)
    next
      case (Some c)
      define lrs0 where "lrs0 = lrs\<lparr>chunks := c # chunks lrs, rootCount := n + 1\<rparr>"
      have "unat n mod 256 = 0" "unat n \<noteq> 0" using False m by (auto simp: unat_eq_zero)
      then have d: "(unat n - 1) div 256 + 1 = unat n div 256" "256 * (unat n div 256) = unat n"
        using pred_div_256 [of "unat n"] mult_div_mod_eq [of 256 "unat n"] by (auto simp: div_greater_zero_iff)
      then have ok0: "chunks_ok lrs0" using full len inc mem [OF Some] by (simp add: chunks_ok_def lrs0_def)
      have "js_PushLocalRoot mem lrs v = (set_root lrs0 0 (n AND JSLRS_CHUNK_MASK) v, Some n)"
        using False Some by (simp add: js_PushLocalRoot_def Let_def lrs0_def n_def)
      moreover have "length (store (chunks lrs)) = unat n" using full len d by (simp add: length_store)
      ultimately show ?thesis
        using push_slot [OF ok0, of n v] chunks_ok_set_root [OF ok0] inc
        by (simp add: lrs0_def n_def) (simp add: roots_def)
    qed
  qed
qed

text \<open>Clearing slot \<open>p\<close> and cutting the stack there: leaving a scope and popping a root.\<close>

lemma truncate_roots:
  assumes ok: "chunks_ok lrs" and p: "unat p < unat (rootCount lrs)" "p \<noteq> 0"
    and k: "k = (unat (rootCount lrs) - 1) div 256 - unat p div 256"
    and l: "l = (set_root (lrs\<lparr>chunks := drop k (chunks lrs), scopeMark := s\<rparr>) 0 (p AND JSLRS_CHUNK_MASK) JSVAL_NULL)
                  \<lparr>rootCount := p\<rparr>"
    and lrs': "lrs' = (if p AND JSLRS_CHUNK_MASK = 0 then l\<lparr>chunks := tl (chunks l)\<rparr> else l)"
  shows "chunks_ok lrs' \<and> roots lrs' = take (unat p) (roots lrs) \<and> scopeMark lrs' = s \<and> rootCount lrs' = p"
proof -
  define cs where "cs = drop k (chunks lrs)"
  have full: "full_chunks (chunks lrs)" "full_chunks cs"
    using ok full_chunks_drop by (simp_all add: chunks_ok_def cs_def)
  have le: "unat p div 256 \<le> (unat (rootCount lrs) - 1) div 256" using p by (intro div_le_mono) simp
  have len: "length cs = unat p div 256 + 1" using ok k le by (simp add: cs_def chunks_ok_def)
  have store_cs: "store cs = take (256 * (unat p div 256 + 1)) (store (chunks lrs))"
    using store_drop [OF full(1), of k] len by (simp add: cs_def)
  define cs' where "cs' = cs[0 := (cs ! 0)[unat p mod 256 := JSVAL_NULL]]"
  have full': "full_chunks cs'" unfolding cs'_def by (rule full_chunks_set [OF full(2)])
  have len': "length cs' = unat p div 256 + 1" by (simp add: cs'_def len)
  have store': "store cs' = (store cs)[unat p := JSVAL_NULL]"
    using store_set [OF full(2), of 0 "unat p mod 256" JSVAL_NULL] len by (simp add: cs'_def)
  have lc: "chunks l = cs'" "rootCount l = p" "scopeMark l = s" by (simp_all add: l set_root_def cs'_def cs_def)
  have room: "unat p < 256 * (unat p div 256 + 1)" by (simp add: dividend_less_times_div)
  then have head: "take (unat p) (store cs') = take (unat p) (roots lrs)"
    using p(1) by (simp add: store' store_cs roots_def min_def)
  show ?thesis
  proof (cases "unat p mod 256 = 0")
    case False
    then have "p AND JSLRS_CHUNK_MASK \<noteq> 0" using unat_mask [of p] by (metis unat_0)
    then have "lrs' = l" using lrs' by simp
    moreover have "(unat p - 1) div 256 = unat p div 256"
      using False pred_div_256 [of "unat p"] p(2) by (simp add: unat_eq_zero)
    ultimately show ?thesis using lc full' len' head by (simp add: chunks_ok_def roots_def)
  next
    case True
    then have "p AND JSLRS_CHUNK_MASK = 0" using unat_mask [of p] by (metis unat_eq_zero)
    then have l': "lrs' = l\<lparr>chunks := tl cs'\<rparr>" using lrs' lc by simp
    have mul: "256 * (unat p div 256) = unat p" using True mult_div_mod_eq [of 256 "unat p"] by simp
    have "unat p div 256 \<noteq> 0" using mul p(2) by (metis mult_0_right unat_eq_zero)
    then have "(unat p - 1) div 256 + 1 = unat p div 256"
      using True pred_div_256 [of "unat p"] p(2) by (simp add: unat_eq_zero)
    moreover have "store (tl cs') = take (unat p) (store cs')"
      using store_drop [OF full', of 1] len' mul by (simp add: drop_Suc)
    moreover have "full_chunks (tl cs')" using full_chunks_drop [OF full', of 1] by (simp add: drop_Suc)
    ultimately show ?thesis using lc len' head by (simp add: l' chunks_ok_def roots_def)
  qed
qed

lemma free_chunks_drop: "free_chunks n m cs = drop (unat n - unat m) cs"
proof (induction n m cs rule: free_chunks.induct)
  case (1 n m cs)
  show ?case
  proof (cases "m < n")
    case True
    then have "unat m < unat n" "unat (n - 1) = unat n - 1"
      by (auto simp: word_less_nat_alt unat_dec_exact word_neq_0_unat)
    then have "unat n - unat m = Suc (unat (n - 1) - unat m)" by simp
    then show ?thesis using 1 True by (subst free_chunks.simps) (simp add: drop_Suc)
  next
    case False
    then show ?thesis by (subst free_chunks.simps) (simp add: word_less_nat_alt)
  qed
qed


section \<open>The stack of scopes\<close>

text \<open>How a list of scopes, innermost first, is laid out in the stack.\<close>

fun layout :: "jsval list list \<Rightarrow> jsval list" and mark_of :: "jsval list list \<Rightarrow> u32" where
  "layout [] = []"
| "layout (s # ss) = layout ss @ INT_TO_JSVAL (mark_of ss) # s"
| "mark_of [] = JSLRS_NULL_MARK"
| "mark_of (s # ss) = of_nat (length (layout ss))"

text \<open>
  The stack of a context represents the scopes: there is none when no scope is open. Marks
  are saved as integer values, so the stack must stay below \<open>2 ^ 30\<close> roots.
\<close>

definition represents :: "local_root_stack option \<Rightarrow> jsval list list \<Rightarrow> bool" where
  "represents localRootStack ss \<longleftrightarrow>
     (case localRootStack of
        None \<Rightarrow> ss = []
      | Some lrs \<Rightarrow> ss \<noteq> [] \<and> chunks_ok lrs \<and> roots lrs = layout ss \<and> scopeMark lrs = mark_of ss \<and>
          unat (rootCount lrs) \<le> 2 ^ 30)"

lemma unat_mark:
  assumes "length (layout ss) \<le> 2 ^ 30"
  shows "unat (of_nat (length (layout ss)) :: u32) = length (layout ss)"
proof -
  have "length (layout ss) < 2 ^ 32" using assms by simp
  then show ?thesis by (simp add: unat_of_nat)
qed

lemma saved_mark_roundtrip:
  assumes "length (layout ss) \<le> 2 ^ 30"
  shows "JSVAL_TO_INT (INT_TO_JSVAL (mark_of ss)) = mark_of ss"
proof (cases ss)
  case Nil
  then show ?thesis by (simp add: int_val_roundtrip JSLRS_NULL_MARK_def)
next
  case (Cons s rest)
  then have "length (layout rest) < 2 ^ 30" using assms by simp
  then show ?thesis using Cons unat_mark [of rest] by (intro int_val_roundtrip) simp
qed

lemma representsD:
  assumes "represents (Some lrs) (s # ss)"
  shows "chunks_ok lrs" and "roots lrs = layout ss @ INT_TO_JSVAL (mark_of ss) # s"
    and "unat (rootCount lrs) = length (layout ss) + 1 + length s"
    and "unat (scopeMark lrs) = length (layout ss)"
    and "unat (rootCount lrs) \<le> 2 ^ 30"
    and "scopeMark lrs = of_nat (length (layout ss))"
proof -
  show ok: "chunks_ok lrs" and r: "roots lrs = layout ss @ INT_TO_JSVAL (mark_of ss) # s"
    and le: "unat (rootCount lrs) \<le> 2 ^ 30" and m: "scopeMark lrs = of_nat (length (layout ss))"
    using assms by (simp_all add: represents_def)
  show rc: "unat (rootCount lrs) = length (layout ss) + 1 + length s"
    using length_roots [OF ok] r by simp
  show "unat (scopeMark lrs) = length (layout ss)"
    unfolding m using le rc by (intro unat_mark) simp
qed

lemma push_represents:
  assumes rep: "represents (Some lrs) (s # ss)" and small: "unat (rootCount lrs) < 2 ^ 30"
    and mem: "\<And>c. mem = Some c \<Longrightarrow> length c = 256"
  shows "case js_PushLocalRoot mem lrs v of
      (lrs', None) \<Rightarrow> lrs' = lrs \<and> mem = None
    | (lrs', Some n) \<Rightarrow> n = rootCount lrs \<and> represents (Some lrs') ((s @ [v]) # ss)"
proof -
  note r = representsD [OF rep]
  have inc: "unat (rootCount lrs + 1) = unat (rootCount lrs) + 1"
    using small by (simp add: unat_inc_exact)
  have "case js_PushLocalRoot mem lrs v of
      (lrs', None) \<Rightarrow> lrs' = lrs \<and> mem = None
    | (lrs', Some n) \<Rightarrow> n = rootCount lrs \<and> chunks_ok lrs' \<and> roots lrs' = roots lrs @ [v] \<and>
        scopeMark lrs' = scopeMark lrs \<and> rootCount lrs' = rootCount lrs + 1"
    using push_outcome [OF r(1) _ mem, where v = v] small by simp
  then show ?thesis using r(2,5,6) small inc
    by (cases "js_PushLocalRoot mem lrs v"; cases "snd (js_PushLocalRoot mem lrs v)") (simp_all add: represents_def)
qed

lemma enter_represents:
  assumes rep: "represents st ss"
    and small: "\<And>lrs. st = Some lrs \<Longrightarrow> unat (rootCount lrs) < 2 ^ 30"
    and mem: "\<And>c. lrs_mem = Some c \<or> mem = Some c \<Longrightarrow> length c = 256"
  shows "case js_EnterLocalRootScope lrs_mem mem st of
      (st', ok) \<Rightarrow> represents st' (if ok then [] # ss else ss) \<and> (ok \<or> lrs_mem = None \<or> mem = None)"
proof (cases st)
  case None
  then have ss: "ss = []" using rep by (simp add: represents_def)
  show ?thesis
  proof (cases lrs_mem)
    case None
    then show ?thesis using \<open>st = None\<close> ss by (simp add: js_EnterLocalRootScope_def represents_def)
  next
    case (Some c)
    define lrs where "lrs = \<lparr>scopeMark = JSLRS_NULL_MARK, rootCount = 0, chunks = [c]\<rparr>"
    have ok: "chunks_ok lrs" "roots lrs = []" "unat (rootCount lrs) = 0"
      using mem [of c] Some by (simp_all add: lrs_def chunks_ok_def roots_def full_chunks_def)
    have "case js_PushLocalRoot mem lrs (INT_TO_JSVAL JSLRS_NULL_MARK) of
        (lrs', None) \<Rightarrow> lrs' = lrs \<and> mem = None
      | (lrs', Some n) \<Rightarrow> n = 0 \<and> chunks_ok lrs' \<and> roots lrs' = [INT_TO_JSVAL JSLRS_NULL_MARK] \<and> rootCount lrs' = 1"
      using push_outcome [OF ok(1), of mem "INT_TO_JSVAL JSLRS_NULL_MARK"] ok mem
      by (simp add: lrs_def split: prod.splits option.splits)
    moreover have "snd (js_PushLocalRoot mem lrs (INT_TO_JSVAL JSLRS_NULL_MARK)) = Some 0"
      by (simp add: js_PushLocalRoot_def lrs_def Let_def)
    ultimately obtain lrs' where "js_PushLocalRoot mem lrs (INT_TO_JSVAL JSLRS_NULL_MARK) = (lrs', Some 0)"
        "chunks_ok lrs'" "roots lrs' = [INT_TO_JSVAL JSLRS_NULL_MARK]" "rootCount lrs' = 1"
      by (auto split: prod.splits option.splits)
    moreover have "chunks_ok (lrs'\<lparr>scopeMark := 0\<rparr>) = chunks_ok lrs'" "roots (lrs'\<lparr>scopeMark := 0\<rparr>) = roots lrs'" for lrs'
      by (simp_all add: chunks_ok_def roots_def)
    ultimately show ?thesis
      using \<open>st = None\<close> Some ss
      by (simp add: js_EnterLocalRootScope_def lrs_def [symmetric] represents_def) (simp add: lrs_def)
  qed
next
  case (Some lrs)
  have ne: "ss \<noteq> []" and r: "chunks_ok lrs" "roots lrs = layout ss" "scopeMark lrs = mark_of ss"
    using rep Some by (simp_all add: represents_def)
  have small': "unat (rootCount lrs) < 2 ^ 30" using small Some by simp
  have rc: "rootCount lrs = of_nat (length (layout ss))"
  proof -
    have "length (layout ss) = unat (rootCount lrs)" using length_roots [OF r(1)] r(2) by simp
    then show ?thesis by simp
  qed
  have pos: "0 \<le> sint (rootCount lrs)"
    using small' by (intro sint_nonneg) simp
  have inc: "unat (rootCount lrs + 1) = unat (rootCount lrs) + 1" using small' by (simp add: unat_inc_exact)
  have same: "chunks_ok (l\<lparr>scopeMark := m\<rparr>) = chunks_ok l" "roots (l\<lparr>scopeMark := m\<rparr>) = roots l" for l m
    by (simp_all add: chunks_ok_def roots_def)
  have "case js_PushLocalRoot mem lrs (INT_TO_JSVAL (mark_of ss)) of
      (lrs', None) \<Rightarrow> lrs' = lrs \<and> mem = None
    | (lrs', Some n) \<Rightarrow> n = rootCount lrs \<and> chunks_ok lrs' \<and> roots lrs' = layout ss @ [INT_TO_JSVAL (mark_of ss)] \<and>
        rootCount lrs' = rootCount lrs + 1"
    using push_outcome [OF r(1), of mem "INT_TO_JSVAL (mark_of ss)"] small' mem r(2)
    by (simp split: prod.splits option.splits)
  then show ?thesis
    using Some rep small' inc pos
    by (auto simp: js_EnterLocalRootScope_def r(3) represents_def same rc split: prod.splits option.splits)
qed


lemma layout_Nil [simp]: "layout ss = [] \<longleftrightarrow> ss = []"
  by (cases ss) auto

lemma leave_represents:
  assumes rep: "represents st (s # ss)"
  shows "represents (js_LeaveLocalRootScope st) ss"
proof -
  obtain lrs where st: "st = Some lrs" using rep by (auto simp: represents_def split: option.splits)
  note r = representsD [OF rep [unfolded st]]
  define mark where "mark = scopeMark lrs"
  define k where "k = (unat (rootCount lrs) - 1) div 256 - unat mark div 256"
  define p where "p = mark AND JSLRS_CHUNK_MASK"
  have lt: "unat mark < unat (rootCount lrs)" using r(3,4) by (simp add: mark_def)
  have rc: "rootCount lrs \<noteq> 0" using lt by auto
  have mk: "mark \<noteq> JSLRS_NULL_MARK"
  proof
    assume "mark = JSLRS_NULL_MARK"
    then have "unat mark = 2 ^ 32 - 1" by (simp add: JSLRS_NULL_MARK_def unsigned_minus_1_eq_mask mask_eq_exp_minus_1)
    then show False using lt r(5) by simp
  qed
  have dec: "unat (rootCount lrs - 1) = unat (rootCount lrs) - 1" using rc by (rule unat_dec_exact)
  have free: "free_chunks (drop_bit JSLRS_CHUNK_SHIFT (rootCount lrs - 1)) (drop_bit JSLRS_CHUNK_SHIFT mark) (chunks lrs) =
      drop k (chunks lrs)"
    by (simp add: free_chunks_drop k_def dec)
  have kl: "k < length (chunks lrs)" and slot: "chunks lrs ! k ! unat p = INT_TO_JSVAL (mark_of ss)"
    using root_slot(1,3) [OF r(1) lt refl] r(2,4) by (simp_all add: k_def p_def nth_append mark_def)
  have len: "length (layout ss) \<le> 2 ^ 30" using r(3,5) by simp
  have top: "JSVAL_TO_INT (drop k (chunks lrs) ! 0 ! unat p) = mark_of ss"
    using kl slot saved_mark_roundtrip [OF len] by simp
  have top0: "p = 0 \<Longrightarrow> JSVAL_TO_INT (drop k (chunks lrs) ! 0 ! 0) = mark_of ss"
    using top by auto
  define l where "l = (set_root (lrs\<lparr>chunks := drop k (chunks lrs), scopeMark := mark_of ss\<rparr>) 0 p JSVAL_NULL)\<lparr>rootCount := mark\<rparr>"
  have run: "js_LeaveLocalRootScope st =
      (if mark = 0 then None else Some (if p = 0 then l\<lparr>chunks := tl (chunks l)\<rparr> else l))"
    using rc mk top top0
    by (simp add: js_LeaveLocalRootScope_def st Let_def free mark_def [symmetric] p_def [symmetric] l_def del: unat_mask)
  show ?thesis
  proof (cases "mark = 0")
    case True
    then have "ss = []" using r(4) by (simp add: mark_def)
    then show ?thesis using run True by (simp add: represents_def)
  next
    case False
    define lrs' where "lrs' = (if p = 0 then l\<lparr>chunks := tl (chunks l)\<rparr> else l)"
    have "chunks_ok lrs' \<and> roots lrs' = take (unat mark) (roots lrs) \<and> scopeMark lrs' = mark_of ss \<and> rootCount lrs' = mark"
      using truncate_roots [OF r(1) lt False k_def l_def [unfolded p_def] lrs'_def [unfolded p_def]] .
    moreover have "ss \<noteq> []" using False r(6) by (auto simp: mark_def)
    ultimately show ?thesis
      using run False r(2,4) len by (simp add: lrs'_def [symmetric] represents_def mark_def)
  qed
qed

lemma chunk_step:
  assumes "(0 :: nat) < i" "i div 256 \<le> N"
  shows "(if i mod 256 = 0 then N - i div 256 + 1 else N - i div 256) = N - (i - 1) div 256"
  using assms pred_div_256 [of i] div_greater_zero_iff [of i 256] by (auto simp: mod_eq_0_iff_dvd dest: dvd_imp_le)

lemma forget_loop_spec:
  assumes ok: "chunks_ok lrs"
  shows "mark < i \<Longrightarrow> unat i < unat (rootCount lrs) \<Longrightarrow> unat j = unat i mod 256 \<Longrightarrow>
     k = (unat (rootCount lrs) - 1) div 256 - unat i div 256 \<Longrightarrow>
     forget_loop (chunks lrs) mark v i j k = (i', j', k') \<Longrightarrow>
     mark \<le> i' \<and> i' < i \<and> (\<forall>x. unat i' < x \<and> x < unat i \<longrightarrow> roots lrs ! x \<noteq> v) \<and>
     (i' \<noteq> mark \<longrightarrow> roots lrs ! unat i' = v \<and> unat j' = unat i' mod 256 \<and>
        k' = (unat (rootCount lrs) - 1) div 256 - unat i' div 256)"
proof (induction "chunks lrs" mark v i j k rule: forget_loop.induct)
  case (1 mark v i j k)
  define p where "p = i - 1"
  have i0: "i \<noteq> 0" using 1(2) by auto
  have p: "unat p = unat i - 1" "0 < unat i" using i0 by (simp_all add: p_def unat_dec_exact word_neq_0_unat)
  define k1 where "k1 = (if j = 0 then k + 1 else k)"
  have "i AND JSLRS_CHUNK_MASK = 0 \<longleftrightarrow> unat i mod 256 = 0" using unat_mask [of i] by (metis unat_eq_zero)
  then have j0: "j = 0 \<longleftrightarrow> unat i mod 256 = 0" using 1(4) by (metis unat_eq_zero)
  have "unat i div 256 \<le> (unat (rootCount lrs) - 1) div 256" using 1(3) by (intro div_le_mono) simp
  then have k1: "k1 = (unat (rootCount lrs) - 1) div 256 - unat p div 256"
    unfolding k1_def j0 p(1) 1(5) by (rule chunk_step [OF p(2)])
  have pl: "unat p < unat (rootCount lrs)" using p 1(3) by simp
  have val: "chunks lrs ! k1 ! unat (p AND JSLRS_CHUNK_MASK) = roots lrs ! unat p"
    using root_slot(1) [OF ok pl k1] by simp
  have eq: "forget_loop (chunks lrs) mark v i j k =
     (if mark < p then if roots lrs ! unat p = v then (p, p AND JSLRS_CHUNK_MASK, k1)
                       else forget_loop (chunks lrs) mark v p (p AND JSLRS_CHUNK_MASK) k1
      else (p, j, k))"
    by (subst forget_loop.simps) (simp add: Let_def p_def [symmetric] k1_def [symmetric] val del: unat_mask)
  have pi: "p < i" using p by (simp add: word_less_nat_alt)
  show ?case
  proof (cases "mark < p")
    case False
    then have "p = mark" using 1(2) p by (simp add: word_less_nat_alt word_unat_eq_iff)
    then show ?thesis using 1(6) eq pi p by auto
  next
    case lt: True
    show ?thesis
    proof (cases "roots lrs ! unat p = v")
      case True
      then show ?thesis using 1(6) eq pi lt k1 p by auto
    next
      case False
      have step: "mark \<le> i' \<and> i' < p \<and> (\<forall>x. unat i' < x \<and> x < unat p \<longrightarrow> roots lrs ! x \<noteq> v) \<and>
          (i' \<noteq> mark \<longrightarrow> roots lrs ! unat i' = v \<and> unat j' = unat i' mod 256 \<and>
             k' = (unat (rootCount lrs) - 1) div 256 - unat i' div 256)"
      proof (rule 1(1) [OF p_def lt k1_def refl _ lt pl unat_mask k1])
        show "chunks lrs ! k1 ! unat (p AND JSLRS_CHUNK_MASK) \<noteq> v" using False val by simp
        show "forget_loop (chunks lrs) mark v p (p AND JSLRS_CHUNK_MASK) k1 = (i', j', k')"
          using 1(6) eq lt False by simp
      qed
      have "roots lrs ! x \<noteq> v" if "unat i' < x" "x < unat i" for x
        using that step False p by (cases "x = unat p") auto
      then show ?thesis using step pi by auto
    qed
  qed
qed


lemma mset_swap_pop:
  assumes "x < length s - 1"
  shows "mset ((butlast s)[x := last s]) = mset s - {#s ! x#}"
proof -
  have ne: "s \<noteq> []" using assms by auto
  have "mset s = add_mset (last s) (mset (butlast s))"
    using arg_cong [OF append_butlast_last_id [OF ne], of mset] by simp
  moreover have "s ! x \<in># mset (butlast s)"
    using assms by (metis length_butlast nth_butlast nth_mem_mset)
  ultimately show ?thesis using assms by (simp add: mset_update nth_butlast)
qed

lemma forget_represents:
  assumes rep: "represents (Some lrs) (s # ss)"
  shows "\<exists>s'. represents (Some (js_ForgetLocalRoot lrs v)) (s' # ss) \<and> mset s' = mset s - {#v#}"
proof (cases "s = []")
  case True
  have "unat (rootCount lrs - 1) \<le> unat (scopeMark lrs)"
    using representsD(3,4) [OF rep] True by (simp add: unat_sub_exact)
  then have "js_ForgetLocalRoot lrs v = lrs"
    by (simp add: js_ForgetLocalRoot_def Let_def word_le_nat_alt)
  then show ?thesis using rep True by auto
next
  case False
  note r = representsD [OF rep]
  define n where "n = rootCount lrs - 1"
  define m where "m = n AND JSLRS_CHUNK_MASK"
  define mark where "mark = scopeMark lrs"
  define t where "t = last s"
  define pop where "pop = (\<lambda>lrs. let lrs = (set_root lrs 0 m JSVAL_NULL)\<lparr>rootCount := n\<rparr>
                         in if m = 0 then lrs\<lparr>chunks := tl (chunks lrs)\<rparr> else lrs)"
  have rc: "rootCount lrs \<noteq> 0" using r(3) by auto
  have n: "unat n = length (layout ss) + length s" using unat_dec_exact [OF rc] r(3) by (simp add: n_def)
  have mk: "unat mark = length (layout ss)" using r(4) by (simp add: mark_def)
  have lt: "mark < n" using n mk False by (simp add: word_less_nat_alt)
  have nl: "unat n < unat (rootCount lrs)" using n r(3) by simp
  have n0: "n \<noteq> 0" using lt by auto
  have rl: "unat (rootCount lrs) - 1 = unat n" using n r(3) by simp
  have top: "chunks lrs ! 0 ! unat m = t"
    using root_slot(1) [OF r(1) nl, of 0] rl n r(2) False
    by (simp add: m_def t_def nth_append last_conv_nth)
  have top0: "m = 0 \<Longrightarrow> chunks lrs ! 0 ! 0 = t" using top by auto
  have pop: "represents (Some (pop l)) (s' # ss)"
    if "chunks_ok l" "rootCount l = rootCount lrs" "scopeMark l = scopeMark lrs"
       "take (unat n) (roots l) = layout ss @ INT_TO_JSVAL (mark_of ss) # s'" for l s'
  proof -
    have "chunks_ok (pop l) \<and> roots (pop l) = take (unat n) (roots l) \<and> scopeMark (pop l) = scopeMark l \<and> rootCount (pop l) = n"
      using nl n0 that(1,2) rl
      by (intro truncate_roots [where k = 0 and l = "(set_root l 0 m JSVAL_NULL)\<lparr>rootCount := n\<rparr>"])
        (simp_all add: pop_def m_def Let_def del: unat_mask)
    then show ?thesis
      using that(3,4) r(5,6) nl by (simp add: represents_def)
  qed
  show ?thesis
  proof (cases "t = v")
    case True
    have "js_ForgetLocalRoot lrs v = pop lrs"
      using rc lt top top0 True
      by (simp add: js_ForgetLocalRoot_def Let_def n_def [symmetric] m_def [symmetric] mark_def [symmetric] pop_def not_le del: unat_mask)
    moreover have "represents (Some (pop lrs)) (butlast s # ss)"
      using r(1,2) n False by (intro pop) (simp_all add: butlast_conv_take take_Cons')
    moreover have "mset s = add_mset v (mset (butlast s))"
      using arg_cong [OF append_butlast_last_id [OF False], of mset] True by (simp add: t_def)
    then have "mset (butlast s) = mset s - {#v#}" by simp
    ultimately show ?thesis by metis
  next
    case tv: False
    obtain i j k where loop: "forget_loop (chunks lrs) mark v n m 0 = (i, j, k)" by (cases "forget_loop (chunks lrs) mark v n m 0")
    have spec: "mark \<le> i" "i < n" "\<And>x. unat i < x \<Longrightarrow> x < unat n \<Longrightarrow> roots lrs ! x \<noteq> v"
       "i \<noteq> mark \<Longrightarrow> roots lrs ! unat i = v \<and> unat j = unat i mod 256 \<and> k = unat n div 256 - unat i div 256"
      using forget_loop_spec [OF r(1) lt nl _ _ loop] rl by (auto simp: m_def)
    have loop0: "m = 0 \<Longrightarrow> forget_loop (chunks lrs) mark v n 0 0 = (i, j, k)" using loop by auto
    have run: "js_ForgetLocalRoot lrs v = (if i = mark then lrs else pop (set_root lrs k j t))"
      using rc lt top top0 tv loop loop0
      by (simp add: js_ForgetLocalRoot_def Let_def n_def [symmetric] m_def [symmetric] mark_def [symmetric] pop_def not_le del: unat_mask)
    show ?thesis
    proof (cases "i = mark")
      case True
      have "s ! x \<noteq> v" if "x < length s" for x
      proof (cases "x = length s - 1")
        case True
        then show ?thesis using tv False by (simp add: t_def last_conv_nth)
      next
        case False
        then have "roots lrs ! (length (layout ss) + 1 + x) \<noteq> v"
          using that n mk \<open>i = mark\<close> by (intro spec(3)) simp_all
        then show ?thesis using r(2) by (simp add: nth_append)
      qed
      then have "v \<notin> set s" by (auto simp: in_set_conv_nth)
      then show ?thesis using run True rep by (intro exI [of _ s]) simp
    next
      case im: False
      define x where "x = unat i - length (layout ss) - 1"
      have x: "unat i = length (layout ss) + 1 + x" "x < length s - 1"
        using spec(1,2) im n mk by (auto simp: x_def word_le_nat_alt word_less_nat_alt word_unat_eq_iff)
      have sx: "s ! x = v" using spec(4) [OF im] r(2) x(1) by (simp add: nth_append)
      have il: "unat i < unat (rootCount lrs)" using spec(2) nl by (simp add: word_less_nat_alt)
      have k: "k = (unat (rootCount lrs) - 1) div 256 - unat i div 256" using spec(4) [OF im] rl by simp
      have "store (chunks (set_root lrs k j t)) = (store (chunks lrs))[unat i := t]"
        using root_slot(2) [OF r(1) il k, of t] spec(4) [OF im] by (simp add: set_root_def)
      then have "roots (set_root lrs k j t) = (roots lrs)[unat i := t]"
        by (simp add: roots_def take_update_swap)
      then have "take (unat n) (roots (set_root lrs k j t)) =
          layout ss @ INT_TO_JSVAL (mark_of ss) # (butlast s)[x := t]"
        using r(2) x n False by (simp add: take_update_swap list_update_append butlast_conv_take take_Cons')
      then have "represents (Some (pop (set_root lrs k j t))) ((butlast s)[x := t] # ss)"
        using chunks_ok_set_root [OF r(1)] by (intro pop) simp_all
      moreover have "mset ((butlast s)[x := t]) = mset s - {#v#}"
        using mset_swap_pop [OF x(2)] sx by (simp add: t_def)
      ultimately show ?thesis using run im by auto
    qed
  qed
qed


lemma mark_scope_spec:
  assumes ok: "chunks_ok lrs"
  shows "mark < n \<Longrightarrow> unat n \<le> unat (rootCount lrs) \<Longrightarrow>
     k = (unat (rootCount lrs) - 1) div 256 - (unat n - 1) div 256 \<Longrightarrow>
     mark_scope (chunks lrs) mark n k acc =
       (mark, (unat (rootCount lrs) - 1) div 256 - unat mark div 256,
        acc @ map JSVAL_TO_GCTHING (rev (drop (Suc (unat mark)) (take (unat n) (roots lrs)))))"
proof (induction "chunks lrs" mark n k acc rule: mark_scope.induct)
  case (1 mark n k acc)
  define p where "p = n - 1"
  have n0: "n \<noteq> 0" using 1(2) by auto
  have p: "unat p = unat n - 1" "0 < unat n" using n0 by (simp_all add: p_def unat_dec_exact word_neq_0_unat)
  have pl: "unat p < unat (rootCount lrs)" using p 1(3) by simp
  show ?case
  proof (cases "mark < p")
    case False
    then have "mark = p" using 1(2) p by (simp add: word_less_nat_alt word_unat_eq_iff)
    moreover have "drop (Suc (unat p)) (take (unat n) (roots lrs)) = []" using p by simp
    ultimately show ?thesis
      using 1(4) p by (subst mark_scope.simps) (simp add: Let_def p_def [symmetric])
  next
    case True
    define m where "m = p AND JSLRS_CHUNK_MASK"
    define k1 where "k1 = (if m = 0 then k + 1 else k)"
    have m0: "m = 0 \<longleftrightarrow> unat p mod 256 = 0" using unat_mask [of p] by (metis m_def unat_eq_zero)
    have k: "k = (unat (rootCount lrs) - 1) div 256 - unat p div 256" using 1(4) p by simp
    have val: "chunks lrs ! k ! unat m = roots lrs ! unat p"
      using root_slot(1) [OF ok pl k] by (simp add: m_def)
    have pos: "0 < unat p" using True by (simp add: word_less_nat_alt)
    have "unat p div 256 \<le> (unat (rootCount lrs) - 1) div 256" using pl by (intro div_le_mono) simp
    then have k1: "k1 = (unat (rootCount lrs) - 1) div 256 - (unat p - 1) div 256"
      unfolding k1_def m0 k by (rule chunk_step [OF pos])
    have lp: "unat p \<le> unat (rootCount lrs)" using pl by simp
    have "mark_scope (chunks lrs) mark n k acc =
        mark_scope (chunks lrs) mark p k1 (acc @ [JSVAL_TO_GCTHING (chunks lrs ! k ! unat m)])"
      using True by (subst mark_scope.simps) (simp add: Let_def p_def [symmetric] m_def [symmetric] k1_def del: unat_mask)
    also have "\<dots> = (mark, (unat (rootCount lrs) - 1) div 256 - unat mark div 256,
        (acc @ [JSVAL_TO_GCTHING (chunks lrs ! k ! unat m)]) @
        map JSVAL_TO_GCTHING (rev (drop (Suc (unat mark)) (take (unat p) (roots lrs)))))"
      using 1(1) [OF p_def True m_def True lp] k1 by (simp add: k1_def)
    also have "take (unat n) (roots lrs) = take (unat p) (roots lrs) @ [roots lrs ! unat p]"
      using take_Suc_conv_app_nth [of "unat p" "roots lrs"] length_roots [OF ok] pl p by simp
    then have "drop (Suc (unat mark)) (take (unat n) (roots lrs)) =
        drop (Suc (unat mark)) (take (unat p) (roots lrs)) @ [roots lrs ! unat p]"
      using True length_roots [OF ok] pl by (simp add: word_less_nat_alt)
    ultimately show ?thesis by (simp add: val)
  qed
qed

lemma mark_loop_spec:
  assumes ok: "chunks_ok lrs" and small: "unat (rootCount lrs) \<le> 2 ^ 30"
  shows "ss \<noteq> [] \<Longrightarrow> take (unat n) (roots lrs) = layout ss \<Longrightarrow> unat n = length (layout ss) \<Longrightarrow>
     unat n \<le> unat (rootCount lrs) \<Longrightarrow>
     k = (unat (rootCount lrs) - 1) div 256 - (unat n - 1) div 256 \<Longrightarrow>
     mark_loop (chunks lrs) (mark_of ss) n k acc = Some (acc @ map JSVAL_TO_GCTHING (concat (map rev ss)))"
proof (induction ss arbitrary: n k acc)
  case (Cons s ss)
  define mark where "mark = mark_of (s # ss)"
  have len: "length (layout ss) \<le> 2 ^ 30" using Cons.prems small by simp
  have mk: "unat mark = length (layout ss)" unfolding mark_def mark_of.simps by (rule unat_mark [OF len])
  have lt: "mark < n" using Cons.prems mk by (simp add: word_less_nat_alt)
  define k1 where "k1 = (unat (rootCount lrs) - 1) div 256 - unat mark div 256"
  have scope: "mark_scope (chunks lrs) mark n k acc = (mark, k1, acc @ map JSVAL_TO_GCTHING (rev s))"
    using mark_scope_spec [OF ok lt, of k acc] Cons.prems mk by (simp add: k1_def)
  have ml: "unat mark < unat (rootCount lrs)" using lt Cons.prems by (simp add: word_less_nat_alt)
  define m where "m = mark AND JSLRS_CHUNK_MASK"
  have "chunks lrs ! k1 ! unat m = roots lrs ! unat mark"
    using root_slot(1) [OF ok ml k1_def] by (simp add: m_def)
  also have "\<dots> = take (unat n) (roots lrs) ! unat mark" using lt by (simp add: word_less_nat_alt)
  also have "\<dots> = INT_TO_JSVAL (mark_of ss)" using Cons.prems(2) mk by (simp add: nth_append)
  finally have saved: "JSVAL_TO_INT (chunks lrs ! k1 ! unat m) = mark_of ss"
    using saved_mark_roundtrip [OF len] by simp
  have m0: "m = 0 \<longleftrightarrow> unat mark mod 256 = 0" using unat_mask [of mark] by (metis m_def unat_eq_zero)
  have unfold: "mark_loop (chunks lrs) mark n k acc =
      (if mark \<noteq> 0 then mark_loop (chunks lrs) (mark_of ss) mark (if m = 0 then k1 + 1 else k1) (acc @ map JSVAL_TO_GCTHING (rev s))
       else Some (acc @ map JSVAL_TO_GCTHING (rev s)))"
    unfolding mark_loop.simps [of "chunks lrs" mark n] scope Let_def prod.case m_def [symmetric] saved by (rule refl)
  show ?case
  proof (cases "mark = 0")
    case True
    then have "ss = []" using mk by simp
    then show ?thesis using unfold True by (simp add: mark_def [symmetric])
  next
    case False
    then have "ss \<noteq> []" "0 < unat mark" using mk by (auto simp: word_neq_0_unat)
    moreover have "take (unat mark) (roots lrs) = take (unat mark) (take (unat n) (roots lrs))"
      using lt by (simp add: word_less_nat_alt min_def)
    then have "take (unat mark) (roots lrs) = layout ss" using Cons.prems(2) mk by simp
    moreover have "(if m = 0 then k1 + 1 else k1) = (unat (rootCount lrs) - 1) div 256 - (unat mark - 1) div 256"
      unfolding m0 k1_def using \<open>0 < unat mark\<close> ml by (intro chunk_step) (simp_all add: div_le_mono)
    ultimately show ?thesis
      unfolding mark_def [symmetric] using unfold False Cons.IH [of mark] mk ml by simp
  qed
qed simp

lemma mark_represents:
  assumes "represents (Some lrs) ss"
  shows "js_MarkLocalRoots lrs = Some (map JSVAL_TO_GCTHING (concat (map rev ss)))"
proof -
  have r: "ss \<noteq> []" "chunks_ok lrs" "roots lrs = layout ss" "scopeMark lrs = mark_of ss" "unat (rootCount lrs) \<le> 2 ^ 30"
    using assms by (simp_all add: represents_def)
  have len: "unat (rootCount lrs) = length (layout ss)" using length_roots [OF r(2)] r(3) by simp
  have "rootCount lrs \<noteq> 0" using len r(1) by (metis layout_Nil length_0_conv unat_0)
  then show ?thesis
    using mark_loop_spec [OF r(2,5,1), of "rootCount lrs" 0 "[]"] r(3,4) len by (simp add: js_MarkLocalRoots_def)
qed


section \<open>Properties\<close>

text \<open>A stack with one scope that holds one value, to try the operations on.\<close>

definition one_scope :: local_root_stack where
  "one_scope = \<lparr>scopeMark = 0, rootCount = 2, chunks = [INT_TO_JSVAL (- 1) # 8 # replicate 254 0]\<rparr>"

lemma one_scope_represents: "represents (Some one_scope) [[8]]"
  by (simp add: represents_def one_scope_def chunks_ok_def roots_def full_chunks_def JSLRS_NULL_MARK_def)

text \<open>
  C16: entering a scope opens an empty innermost scope and changes no other, unless memory is
  exhausted, and leaving it gives back the scopes around it, whatever was pushed meanwhile:
  the saved mark, the chunks and the count all come back.
\<close>

theorem local_root_scopes_nest:
  assumes rep: "represents st ss"
    and small: "\<And>lrs. st = Some lrs \<Longrightarrow> unat (rootCount lrs) < 2 ^ 30"
    and mem: "\<And>c. lrs_mem = Some c \<or> mem = Some c \<Longrightarrow> length c = 256"
  shows "\<exists>st' ok. js_EnterLocalRootScope lrs_mem mem st = (st', ok) \<and>
    represents st' (if ok then [] # ss else ss) \<and> (ok \<or> lrs_mem = None \<or> mem = None) \<and>
    (\<forall>st'' s. represents st'' (s # ss) \<longrightarrow> represents (js_LeaveLocalRootScope st'') ss)"
proof -
  have "case js_EnterLocalRootScope lrs_mem mem st of
      (st', ok) \<Rightarrow> represents st' (if ok then [] # ss else ss) \<and> (ok \<or> lrs_mem = None \<or> mem = None)"
    by (rule enter_represents [OF rep small mem])
  then show ?thesis using leave_represents by (cases "js_EnterLocalRootScope lrs_mem mem st") blast
qed

theorem local_root_scopes_nest_witness:
  "\<exists>st' ok. js_EnterLocalRootScope (Some (replicate 256 0)) (Some (replicate 256 0)) (Some one_scope) = (st', ok) \<and>
    represents (js_LeaveLocalRootScope (Some one_scope)) []"
proof -
  have "\<And>c. Some (replicate 256 0) = Some c \<or> Some (replicate 256 (0 :: jsval)) = Some c \<Longrightarrow> length c = 256" by auto
  moreover have "\<And>lrs. None = Some lrs \<Longrightarrow> unat (rootCount lrs) < 2 ^ 30" by simp
  moreover have "represents None []" by (simp add: represents_def)
  ultimately have "\<forall>st'' s. represents st'' [s] \<longrightarrow> represents (js_LeaveLocalRootScope st'') []"
    using local_root_scopes_nest [of None "[]" "Some (replicate 256 0)" "Some (replicate 256 0)"] by blast
  then show ?thesis using one_scope_represents by (meson surj_pair)
qed

text \<open>
  pushing adds the value to the innermost scope and returns its index; it fails only when
  a new chunk is needed and memory is exhausted, and then changes nothing.
\<close>

theorem local_root_push_appends:
  assumes rep: "represents (Some lrs) (s # ss)" and small: "unat (rootCount lrs) < 2 ^ 30"
    and mem: "\<And>c. mem = Some c \<Longrightarrow> length c = 256"
  shows "case js_PushLocalRoot mem lrs v of
      (lrs', None) \<Rightarrow> lrs' = lrs \<and> mem = None
    | (lrs', Some n) \<Rightarrow> n = rootCount lrs \<and> represents (Some lrs') ((s @ [v]) # ss)"
  by (rule push_represents [OF rep small mem])

theorem local_root_push_appends_witness:
  "\<exists>lrs'. js_PushLocalRoot None one_scope 16 = (lrs', Some 2) \<and> represents (Some lrs') [[8, 16]]"
proof -
  have small: "unat (rootCount one_scope) < 2 ^ 30" by (simp add: one_scope_def)
  have some: "snd (js_PushLocalRoot None one_scope 16) = Some 2"
    by (simp add: js_PushLocalRoot_def one_scope_def Let_def JSLRS_CHUNK_MASK_def JSLRS_CHUNK_SHIFT_def JS_BITMASK_def JS_BIT_def)
  show ?thesis
    using local_root_push_appends [OF one_scope_represents small, of None 16] some
    by (cases "js_PushLocalRoot None one_scope 16") simp
qed

text \<open>
  forgetting a value takes one copy of it out of the innermost scope when it is there,
  and changes no other scope; a value that is not in the scope is left alone.
\<close>

theorem local_root_forget_removes:
  assumes "represents (Some lrs) (s # ss)"
  shows "\<exists>s'. represents (Some (js_ForgetLocalRoot lrs v)) (s' # ss) \<and> mset s' = mset s - {#v#}"
  by (rule forget_represents [OF assms])

theorem local_root_forget_removes_witness: "represents (Some (js_ForgetLocalRoot one_scope 8)) [[]]"
  using local_root_forget_removes [OF one_scope_represents, of 8] by auto

text \<open>
  C17: marking returns, and marks the values of every open scope, each once, from the last
  pushed to the first; the slots that save the marks are not mistaken for values.
\<close>

theorem local_root_mark_complete:
  assumes "represents (Some lrs) ss"
  shows "js_MarkLocalRoots lrs = Some (map JSVAL_TO_GCTHING (concat (map rev ss)))"
  by (rule mark_represents [OF assms])

theorem local_root_mark_complete_witness: "js_MarkLocalRoots one_scope = Some [8]"
  using local_root_mark_complete [OF one_scope_represents] by (simp add: JSVAL_TO_GCTHING_def)

end
