(* ===== verification/JS_Hash.thy ===== *)
theory JS_Hash
  imports JS_Bits "HOL-Library.Multiset"
begin

text \<open>
  The chained hash table of jshash.c and jshash.h. Bucket vectors are lists of chains; a link
  pointer \<open>hep\<close> (the address of a bucket head or of an entry's \<open>next\<close>) is the number of the
  bucket and a position in its chain. Freed entries are logged, so that what \<open>freeEntry\<close>
  is called on is part of the state.
\<close>

section \<open>Data\<close>

record ('k, 'v) hash_entry =
  he_keyHash :: u32
  he_key :: 'k
  he_value :: 'v

datatype free_flag = HT_FREE_VALUE | HT_FREE_ENTRY

record ('k, 'v) hash_table =
  buckets :: "('k, 'v) hash_entry list list"
  nentries :: u32
  ht_shift :: nat
  freed :: "(free_flag \<times> ('k, 'v) hash_entry) list"

text \<open>The client's functions; \<open>value_null\<close> is the test \<open>!he->value\<close>.\<close>

record ('k, 'v) hash_ops =
  keyHash :: "'k \<Rightarrow> u32"
  keyCompare :: "'k \<Rightarrow> 'k \<Rightarrow> bool"
  valueCompare :: "'v \<Rightarrow> 'v \<Rightarrow> bool"
  value_null :: "'v \<Rightarrow> bool"

type_synonym hep = "nat \<times> nat"

definition JS_GOLDEN_RATIO :: u32 where "JS_GOLDEN_RATIO = 0x9E3779B9"
definition MINBUCKETSLOG2 :: nat where "MINBUCKETSLOG2 = 4"
definition MINBUCKETS :: u32 where "MINBUCKETS = JS_BIT MINBUCKETSLOG2"

definition NBUCKETS :: "('k, 'v) hash_table \<Rightarrow> u32" where
  "NBUCKETS ht = JS_BIT (32 - ht_shift ht)"

definition OVERLOADED :: "u32 \<Rightarrow> u32" where "OVERLOADED n = n - drop_bit 3 n"

definition UNDERLOADED :: "u32 \<Rightarrow> u32" where
  "UNDERLOADED n = (if n > MINBUCKETS then drop_bit 2 n else 0)"

section \<open>Creation and destruction\<close>

text \<open>
  \<open>am nb\<close>: does \<open>allocTable\<close> of \<open>nb\<close> bytes succeed. The table's own structure has 56 bytes,
  a bucket head 8.
\<close>

definition JS_NewHashTable :: "u32 \<Rightarrow> (nat \<Rightarrow> bool) \<Rightarrow> ('k, 'v) hash_table option" where
  "JS_NewHashTable n am =
     (let n = (if n \<le> MINBUCKETS then MINBUCKETSLOG2 else JS_CeilingLog2 n)
      in if \<not> am 56 then None
         else
           let shift = 32 - n; n = JS_BIT n; nb = unat n * 8
           in if \<not> am nb then None
              else Some \<lparr>buckets = replicate (nb div 8) [], nentries = 0, ht_shift = shift, freed = []\<rparr>)"

definition JS_HashTableDestroy :: "('k, 'v) hash_table \<Rightarrow> (free_flag \<times> ('k, 'v) hash_entry) list" where
  "JS_HashTableDestroy ht = freed ht @ map (Pair HT_FREE_ENTRY) (concat (take (unat (NBUCKETS ht)) (buckets ht)))"

section \<open>Raw access\<close>

text \<open>\<open>*hep\<close>, and the three ways the code writes through \<open>hep\<close>.\<close>

definition deref :: "('k, 'v) hash_table \<Rightarrow> hep \<Rightarrow> ('k, 'v) hash_entry option" where
  "deref ht = (\<lambda>(h, i). if i < length (buckets ht ! h) then Some (buckets ht ! h ! i) else None)"

definition set_chain :: "('k, 'v) hash_table \<Rightarrow> nat \<Rightarrow> ('k, 'v) hash_entry list \<Rightarrow> ('k, 'v) hash_table" where
  "set_chain ht h c = ht\<lparr>buckets := (buckets ht)[h := c]\<rparr>"

definition link_before :: "('k, 'v) hash_table \<Rightarrow> hep \<Rightarrow> ('k, 'v) hash_entry \<Rightarrow> ('k, 'v) hash_table" where
  "link_before ht = (\<lambda>(h, i) he. set_chain ht h (take i (buckets ht ! h) @ he # drop i (buckets ht ! h)))"

definition link_last :: "('k, 'v) hash_table \<Rightarrow> hep \<Rightarrow> ('k, 'v) hash_entry \<Rightarrow> ('k, 'v) hash_table" where
  "link_last ht = (\<lambda>(h, i) he. set_chain ht h (take i (buckets ht ! h) @ [he]))"

definition unlink :: "('k, 'v) hash_table \<Rightarrow> hep \<Rightarrow> ('k, 'v) hash_table" where
  "unlink ht = (\<lambda>(h, i). set_chain ht h (take i (buckets ht ! h) @ drop (Suc i) (buckets ht ! h)))"

fun search_chain :: "('e \<Rightarrow> bool) \<Rightarrow> 'e list \<Rightarrow> nat option" where
  "search_chain p [] = None"
| "search_chain p (e # es) = (if p e then Some 0 else map_option Suc (search_chain p es))"

text \<open>A hit is moved to the front of its chain.\<close>

definition JS_HashTableRawLookup ::
  "('k, 'v) hash_ops \<Rightarrow> ('k, 'v) hash_table \<Rightarrow> u32 \<Rightarrow> 'k \<Rightarrow> ('k, 'v) hash_table \<times> hep" where
  "JS_HashTableRawLookup ops ht kh key =
     (let h = unat (drop_bit (ht_shift ht) (kh * JS_GOLDEN_RATIO));
          chain = buckets ht ! h
      in case search_chain (\<lambda>he. he_keyHash he = kh \<and> keyCompare ops key (he_key he)) chain of
           Some i \<Rightarrow>
             (if i \<noteq> 0 then set_chain ht h (chain ! i # take i chain @ drop (Suc i) chain) else ht, (h, 0))
         | None \<Rightarrow> (ht, (h, length chain)))"

definition rehash_entry ::
  "('k, 'v) hash_ops \<Rightarrow> ('k, 'v) hash_entry \<Rightarrow> ('k, 'v) hash_table \<Rightarrow> ('k, 'v) hash_table" where
  "rehash_entry ops he ht =
     (let (ht, hep) = JS_HashTableRawLookup ops ht (he_keyHash he) (he_key he) in link_last ht hep he)"

text \<open>Replacing the bucket vector by one of \<open>nb\<close> bytes, every old chain rehashed in order.\<close>

definition rebucket ::
  "('k, 'v) hash_ops \<Rightarrow> nat \<Rightarrow> nat \<Rightarrow> ('k, 'v) hash_table \<Rightarrow> ('k, 'v) hash_table" where
  "rebucket ops nb shift ht =
     fold (rehash_entry ops) (concat (take (unat (NBUCKETS ht)) (buckets ht)))
       (ht\<lparr>buckets := replicate (nb div 8) [], ht_shift := shift\<rparr>)"

definition JS_HashTableRawAdd ::
  "('k, 'v) hash_ops \<Rightarrow> (nat \<Rightarrow> bool) \<Rightarrow> bool \<Rightarrow> ('k, 'v) hash_table \<Rightarrow> hep \<Rightarrow> u32 \<Rightarrow> 'k \<Rightarrow> 'v \<Rightarrow>
     ('k, 'v) hash_table \<times> ('k, 'v) hash_entry option" where
  "JS_HashTableRawAdd ops am alloc_entry ht hep kh key value =
     (let n = NBUCKETS ht;
          nb = unat (2 * n) * 8;
          grow = nentries ht \<ge> OVERLOADED n
      in if grow \<and> \<not> am nb then (ht, None)
         else
           let (ht, hep) = (if grow then JS_HashTableRawLookup ops (rebucket ops nb (ht_shift ht - 1) ht) kh key else (ht, hep))
           in if \<not> alloc_entry then (ht, None)
              else
                let he = \<lparr>he_keyHash = kh, he_key = key, he_value = value\<rparr>;
                    ht = link_before ht hep he
                in (ht\<lparr>nentries := nentries ht + 1\<rparr>, Some he))"

text \<open>\<open>hep\<close> is \<open>None\<close> when the entry is the head of the caller's own list, not in a bucket.\<close>

definition JS_HashTableRawRemove ::
  "('k, 'v) hash_ops \<Rightarrow> (nat \<Rightarrow> bool) \<Rightarrow> ('k, 'v) hash_table \<Rightarrow> hep option \<Rightarrow> ('k, 'v) hash_entry \<Rightarrow> ('k, 'v) hash_table" where
  "JS_HashTableRawRemove ops am ht hep he =
     (let ht = (case hep of Some p \<Rightarrow> unlink ht p | None \<Rightarrow> ht);
          ht = ht\<lparr>freed := freed ht @ [(HT_FREE_ENTRY, he)]\<rparr>;
          n = NBUCKETS ht;
          ht = ht\<lparr>nentries := nentries ht - 1\<rparr>
      in if nentries ht < UNDERLOADED n then
           let nb = unat n * 8 div 2
           in if \<not> am nb then ht else rebucket ops nb (ht_shift ht + 1) ht
         else ht)"

section \<open>Keyed access\<close>

definition JS_HashTableAdd ::
  "('k, 'v) hash_ops \<Rightarrow> (nat \<Rightarrow> bool) \<Rightarrow> bool \<Rightarrow> ('k, 'v) hash_table \<Rightarrow> 'k \<Rightarrow> 'v \<Rightarrow>
     ('k, 'v) hash_table \<times> ('k, 'v) hash_entry option" where
  "JS_HashTableAdd ops am alloc_entry ht key value =
     (let kh = keyHash ops key;
          (ht, hep) = JS_HashTableRawLookup ops ht kh key
      in case deref ht hep of
           Some he \<Rightarrow>
             if valueCompare ops (he_value he) value then (ht, Some he)
             else
               let ht = (if \<not> value_null ops (he_value he) then ht\<lparr>freed := freed ht @ [(HT_FREE_VALUE, he)]\<rparr> else ht);
                   he = he\<lparr>he_value := value\<rparr>;
                   ht = set_chain ht (fst hep) ((buckets ht ! fst hep)[snd hep := he])
               in (ht, Some he)
         | None \<Rightarrow> JS_HashTableRawAdd ops am alloc_entry ht hep kh key value)"

definition JS_HashTableRemove ::
  "('k, 'v) hash_ops \<Rightarrow> (nat \<Rightarrow> bool) \<Rightarrow> ('k, 'v) hash_table \<Rightarrow> 'k \<Rightarrow> ('k, 'v) hash_table \<times> bool" where
  "JS_HashTableRemove ops am ht key =
     (let kh = keyHash ops key;
          (ht, hep) = JS_HashTableRawLookup ops ht kh key
      in case deref ht hep of
           None \<Rightarrow> (ht, False)
         | Some he \<Rightarrow> (JS_HashTableRawRemove ops am ht (Some hep) he, True))"

definition JS_HashTableLookup ::
  "('k, 'v) hash_ops \<Rightarrow> ('k, 'v) hash_table \<Rightarrow> 'k \<Rightarrow> ('k, 'v) hash_table \<times> 'v option" where
  "JS_HashTableLookup ops ht key =
     (let kh = keyHash ops key;
          (ht, hep) = JS_HashTableRawLookup ops ht kh key
      in (ht, map_option he_value (deref ht hep)))"

section \<open>Enumeration\<close>

definition HT_ENUMERATE_NEXT :: u32 where "HT_ENUMERATE_NEXT = 0"
definition HT_ENUMERATE_STOP :: u32 where "HT_ENUMERATE_STOP = 1"
definition HT_ENUMERATE_REMOVE :: u32 where "HT_ENUMERATE_REMOVE = 2"
definition HT_ENUMERATE_UNHASH :: u32 where "HT_ENUMERATE_UNHASH = 4"

text \<open>
  The enumerator \<open>f\<close> sees an entry, its number and its own state, and gives its flags, the
  entry's value, which it may change, and its new state. The loop over a chain gives what stays in
  the chain, the entries to remove in the order met, the count, the state and whether to stop.
\<close>

fun enum_chain ::
  "(('k, 'v) hash_entry \<Rightarrow> nat \<Rightarrow> 's \<Rightarrow> u32 \<times> 'v \<times> 's) \<Rightarrow> ('k, 'v) hash_entry list \<Rightarrow> nat \<Rightarrow> 's \<Rightarrow>
     ('k, 'v) hash_entry list \<times> ('k, 'v) hash_entry list \<times> nat \<times> 's \<times> bool" where
  "enum_chain f [] n s = ([], [], n, s, False)"
| "enum_chain f (he # hes) n s =
     (let (rv, v, s) = f he n s;
          he = he\<lparr>he_value := v\<rparr>;
          n = Suc n;
          unhash = rv AND (HT_ENUMERATE_REMOVE OR HT_ENUMERATE_UNHASH) \<noteq> 0;
          kept = (if unhash then [] else [he]);
          todo = (if unhash \<and> rv AND HT_ENUMERATE_REMOVE \<noteq> 0 then [he] else [])
      in if rv AND HT_ENUMERATE_STOP \<noteq> 0 then (kept @ hes, todo, n, s, True)
         else
           let (kept', todo', n, s, stop) = enum_chain f hes n s
           in (kept @ kept', todo @ todo', n, s, stop))"

fun enum_buckets ::
  "(('k, 'v) hash_entry \<Rightarrow> nat \<Rightarrow> 's \<Rightarrow> u32 \<times> 'v \<times> 's) \<Rightarrow> ('k, 'v) hash_entry list list \<Rightarrow> nat \<Rightarrow> 's \<Rightarrow>
     ('k, 'v) hash_entry list list \<times> ('k, 'v) hash_entry list \<times> nat \<times> 's" where
  "enum_buckets f [] n s = ([], [], n, s)"
| "enum_buckets f (c # cs) n s =
     (let (kept, todo, n, s, stop) = enum_chain f c n s
      in if stop then (kept # cs, todo, n, s)
         else
           let (cs, todo', n, s) = enum_buckets f cs n s
           in (kept # cs, todo @ todo', n, s))"

definition JS_HashTableEnumerateEntries ::
  "('k, 'v) hash_ops \<Rightarrow> (nat \<Rightarrow> bool) \<Rightarrow> (('k, 'v) hash_entry \<Rightarrow> nat \<Rightarrow> 's \<Rightarrow> u32 \<times> 'v \<times> 's) \<Rightarrow> ('k, 'v) hash_table \<Rightarrow> 's \<Rightarrow>
     ('k, 'v) hash_table \<times> nat \<times> 's" where
  "JS_HashTableEnumerateEntries ops am f ht s =
     (let (bs, todo, n, s) = enum_buckets f (take (unat (NBUCKETS ht)) (buckets ht)) 0 s;
          ht = ht\<lparr>buckets := bs @ drop (unat (NBUCKETS ht)) (buckets ht)\<rparr>
      in (fold (\<lambda>he ht. JS_HashTableRawRemove ops am ht None he) (rev todo) ht, n, s))"

section \<open>Keys\<close>

text \<open>Byte strings end at the first zero byte.\<close>

definition c_string :: "u8 list \<Rightarrow> u8 list" where
  "c_string s = takeWhile (\<lambda>c. c \<noteq> 0) s"

definition JS_HashString :: "u8 list \<Rightarrow> u32" where
  "JS_HashString key = fold (\<lambda>c h. drop_bit (32 - 4) h XOR push_bit 4 h XOR ucast c) (c_string key) 0"

definition JS_CompareValues :: "'a \<Rightarrow> 'a \<Rightarrow> bool" where
  "JS_CompareValues v1 v2 \<longleftrightarrow> v1 = v2"

section \<open>Chains and buckets\<close>

lemma search_chain_Some: "search_chain p es = Some i \<Longrightarrow> i < length es \<and> p (es ! i)"
  by (induction es arbitrary: i) (auto split: if_splits)

lemma search_chain_None: "search_chain p es = None \<longleftrightarrow> (\<forall>e\<in>set es. \<not> p e)"
  by (induction es) auto

lemma set_move_front: "i < length c \<Longrightarrow> set (c ! i # take i c @ drop (Suc i) c) = set c"
  by (metis Cons_nth_drop_Suc append_take_drop_id list.simps(15) set_append Un_insert_right)

lemma mset_move_front: "i < length c \<Longrightarrow> mset (c ! i # take i c @ drop (Suc i) c) = mset c"
proof -
  assume "i < length c"
  then have "mset c = mset (take i c @ c ! i # drop (Suc i) c)" by (simp add: id_take_nth_drop [symmetric])
  then show ?thesis by simp
qed

lemma find_in_list: "find P xs = Some x \<Longrightarrow> x \<in> set xs \<and> P x"
  by (induction xs) (auto split: if_splits)

lemma in_concat_nth: "e \<in> set (concat bs) \<longleftrightarrow> (\<exists>i<length bs. e \<in> set (bs ! i))"
proof -
  have "e \<in> set (concat bs) \<longleftrightarrow> (\<exists>b\<in>set bs. e \<in> set b)" by simp
  also have "\<dots> \<longleftrightarrow> (\<exists>i<length bs. e \<in> set (bs ! i))" by (metis in_set_conv_nth)
  finally show ?thesis .
qed

lemma length_concat_update:
  "i < length bs \<Longrightarrow> length (concat (bs[i := c])) + length (bs ! i) = length (concat bs) + length c"
proof (induction bs arbitrary: i)
  case (Cons b bs)
  then show ?case by (cases i) auto
qed simp

definition bucket_of :: "nat \<Rightarrow> u32 \<Rightarrow> nat" where
  "bucket_of sh kh = unat (drop_bit sh (kh * JS_GOLDEN_RATIO))"

lemma bucket_of_less: "0 < sh \<Longrightarrow> bucket_of sh kh < 2 ^ (32 - sh)"
proof -
  assume "0 < sh"
  have "unat (kh * JS_GOLDEN_RATIO) < 2 ^ (32 - sh) * 2 ^ sh"
  proof (cases "sh \<le> 32")
    case True
    then show ?thesis using unsigned_less [of "kh * JS_GOLDEN_RATIO", where 'a = nat] by (simp flip: power_add)
  next
    case False
    then have "(2 :: nat) ^ 32 \<le> 2 ^ sh" by (intro power_increasing) simp_all
    then show ?thesis using False unsigned_less [of "kh * JS_GOLDEN_RATIO", where 'a = nat] by simp
  qed
  then show ?thesis by (simp add: bucket_of_def unat_drop_bit_div less_mult_imp_div_less)
qed

lemma distinct_concat_buckets:
  assumes "\<And>i. i < length bs \<Longrightarrow> distinct (map g (bs ! i))"
    and "\<And>i e. i < length bs \<Longrightarrow> e \<in> set (bs ! i) \<Longrightarrow> b e = k + i"
    and "\<And>e e'. e \<in> set (concat bs) \<Longrightarrow> e' \<in> set (concat bs) \<Longrightarrow> g e = g e' \<Longrightarrow> b e = b e'"
  shows "distinct (map g (concat bs))"
  using assms
proof (induction bs arbitrary: k)
  case (Cons c bs)
  have "distinct (map g (concat bs))"
  proof (rule Cons.IH [of "Suc k"])
    show "distinct (map g (bs ! i))" if "i < length bs" for i using Cons.prems(1) [of "Suc i"] that by simp
    show "b e = Suc k + i" if "i < length bs" "e \<in> set (bs ! i)" for i e using Cons.prems(2) [of "Suc i" e] that by simp
    show "b e = b e'" if "e \<in> set (concat bs)" "e' \<in> set (concat bs)" "g e = g e'" for e e'
      using that by (intro Cons.prems(3)) (simp_all only: concat.simps set_append Un_iff simp_thms)
  qed
  moreover have "g e \<noteq> g e'" if that: "e \<in> set c" "e' \<in> set (concat bs)" for e e'
  proof
    note ee = that
    assume "g e = g e'"
    then have "b e = b e'" using ee by (intro Cons.prems(3)) (simp_all only: concat.simps set_append Un_iff simp_thms)
    moreover have "b e = k" using Cons.prems(2) [of 0] that by simp
    moreover obtain i where "i < length bs" "e' \<in> set (bs ! i)" using ee(2) unfolding in_concat_nth by blast
    then have "b e' = k + Suc i" using Cons.prems(2) [of "Suc i" e'] by simp
    ultimately show False by simp
  qed
  then have "g ` set c \<inter> g ` set (concat bs) = {}" by blast
  ultimately show ?case using Cons.prems(1) [of 0]
    by (simp only: concat.simps map_append distinct_append set_map nth_Cons_0 length_Cons zero_less_Suc simp_thms)
next
  case Nil
  show ?case by (simp only: concat.simps list.map distinct.simps)
qed

section \<open>Correctness against a map\<close>

text \<open>
  The invariant of a table, and the map it stands for: from what a key stands for to the key
  and value stored.
\<close>

definition hash_inv :: "('k, 'v) hash_ops \<Rightarrow> ('k \<Rightarrow> 'a) \<Rightarrow> ('k, 'v) hash_table \<Rightarrow> bool" where
  "hash_inv ops kab ht \<longleftrightarrow>
     1 \<le> ht_shift ht \<and> ht_shift ht \<le> 28 \<and> length (buckets ht) = 2 ^ (32 - ht_shift ht) \<and>
     (\<forall>i<length (buckets ht). distinct (map (\<lambda>he. kab (he_key he)) (buckets ht ! i)) \<and>
        (\<forall>he\<in>set (buckets ht ! i). he_keyHash he = keyHash ops (he_key he) \<and>
           bucket_of (ht_shift ht) (he_keyHash he) = i)) \<and>
     unat (nentries ht) = length (concat (buckets ht)) \<and> nentries ht \<le> OVERLOADED (NBUCKETS ht)"

definition hash_map :: "('k \<Rightarrow> 'a) \<Rightarrow> ('k, 'v) hash_table \<Rightarrow> 'a \<Rightarrow> ('k \<times> 'v) option" where
  "hash_map kab ht a =
     map_option (\<lambda>he. (he_key he, he_value he)) (find (\<lambda>he. kab (he_key he) = a) (concat (buckets ht)))"

lemma load_limits:
  assumes "1 \<le> sh" "sh \<le> 28"
  shows "unat (JS_BIT (32 - sh)) = 2 ^ (32 - sh)"
    and "unat (OVERLOADED (JS_BIT (32 - sh))) = 2 ^ (32 - sh) - 2 ^ (29 - sh)"
    and "unat (UNDERLOADED (JS_BIT (32 - sh))) = (if sh < 28 then 2 ^ (30 - sh) else 0)"
proof -
  show b: "unat (JS_BIT (32 - sh)) = 2 ^ (32 - sh)" using assms by (simp add: unat_JS_BIT)
  have d: "unat (drop_bit 3 (JS_BIT (32 - sh))) = 2 ^ (29 - sh)" "unat (drop_bit 2 (JS_BIT (32 - sh))) = 2 ^ (30 - sh)"
    unfolding unat_drop_bit_div b using assms
      power_diff [of "2 :: nat" 3 "32 - sh"] power_diff [of "2 :: nat" 2 "32 - sh"] by simp_all
  show "unat (OVERLOADED (JS_BIT (32 - sh))) = 2 ^ (32 - sh) - 2 ^ (29 - sh)"
    unfolding OVERLOADED_def by (subst unat_sub_exact) (simp_all add: d b)
  have "JS_BIT (32 - sh) > MINBUCKETS \<longleftrightarrow> (2 :: nat) ^ 4 < 2 ^ (32 - sh)"
    by (simp add: word_less_nat_alt MINBUCKETS_def MINBUCKETSLOG2_def b unat_JS_BIT)
  also have "\<dots> \<longleftrightarrow> sh < 28" using assms by (subst power_strict_increasing_iff) auto
  finally show "unat (UNDERLOADED (JS_BIT (32 - sh))) = (if sh < 28 then 2 ^ (30 - sh) else 0)"
    by (simp add: UNDERLOADED_def d)
qed

lemma pow_steps: "sh \<le> 28 \<Longrightarrow> (2 :: nat) ^ (32 - sh) = 8 * 2 ^ (29 - sh)" "sh \<le> 28 \<Longrightarrow> (2 :: nat) ^ (30 - sh) = 2 * 2 ^ (29 - sh)"
proof -
  assume "sh \<le> 28"
  then have "(2 :: nat) ^ (32 - sh) = 2 ^ (3 + (29 - sh))" "(2 :: nat) ^ (30 - sh) = 2 ^ (1 + (29 - sh))"
    by (intro arg_cong [of _ _ "power 2"]; simp)+
  then show "(2 :: nat) ^ (32 - sh) = 8 * 2 ^ (29 - sh)" "(2 :: nat) ^ (30 - sh) = 2 * 2 ^ (29 - sh)"
    unfolding power_add by simp_all
qed

text \<open>
  A client's keys stand for \<open>kab key\<close>: its comparison is equality there, and its hash respects it.
\<close>

locale hash_client =
  fixes ops :: "('k, 'v) hash_ops" and kab :: "'k \<Rightarrow> 'a"
  assumes keyCompare_eq: "keyCompare ops k k' \<longleftrightarrow> kab k = kab k'"
    and keyHash_respects: "kab k = kab k' \<Longrightarrow> keyHash ops k = keyHash ops k'"
begin

definition entry_ok :: "('k, 'v) hash_entry \<Rightarrow> bool" where
  "entry_ok he \<longleftrightarrow> he_keyHash he = keyHash ops (he_key he)"

definition absk :: "('k, 'v) hash_entry \<Rightarrow> 'a" where "absk he = kab (he_key he)"

definition wf :: "nat \<Rightarrow> ('k, 'v) hash_entry list list \<Rightarrow> bool" where
  "wf sh bs \<longleftrightarrow> 1 \<le> sh \<and> sh \<le> 28 \<and> length bs = 2 ^ (32 - sh) \<and>
     (\<forall>i<length bs. distinct (map absk (bs ! i)) \<and> (\<forall>he\<in>set (bs ! i). entry_ok he \<and> bucket_of sh (he_keyHash he) = i))"

definition ents :: "('k, 'v) hash_table \<Rightarrow> ('k, 'v) hash_entry set" where "ents ht = set (concat (buckets ht))"

definition htwf :: "('k, 'v) hash_table \<Rightarrow> bool" where "htwf ht \<longleftrightarrow> wf (ht_shift ht) (buckets ht)"

lemma wf_bucket: "wf sh bs \<Longrightarrow> bucket_of sh kh < length bs"
  using bucket_of_less [of sh kh] by (simp add: wf_def)

lemma same_key_same_bucket: "entry_ok e \<Longrightarrow> entry_ok e' \<Longrightarrow> absk e = absk e' \<Longrightarrow> he_keyHash e = he_keyHash e'"
  unfolding entry_ok_def absk_def using keyHash_respects by metis

lemma wf_entry: "wf sh bs \<Longrightarrow> e \<in> set (concat bs) \<Longrightarrow> entry_ok e \<and> e \<in> set (bs ! bucket_of sh (he_keyHash e))"
proof -
  assume wf: "wf sh bs" and "e \<in> set (concat bs)"
  then obtain i where "i < length bs" "e \<in> set (bs ! i)" unfolding in_concat_nth by blast
  then show ?thesis using wf by (auto simp: wf_def)
qed

lemma wf_distinct: assumes "wf sh bs" shows "distinct (map absk (concat bs))"
proof (rule distinct_concat_buckets [where b = "\<lambda>e. bucket_of sh (he_keyHash e)" and k = 0])
  fix e e' assume "e \<in> set (concat bs)" "e' \<in> set (concat bs)" "absk e = absk e'"
  then have "he_keyHash e = he_keyHash e'" using wf_entry [OF assms] same_key_same_bucket by blast
  then show "bucket_of sh (he_keyHash e) = bucket_of sh (he_keyHash e')" by simp
qed (use assms in \<open>auto simp: wf_def\<close>)

lemma wf_unique:
  assumes "wf sh bs" "e \<in> set (concat bs)" "e' \<in> set (concat bs)" "absk e = absk e'"
  shows "e = e'"
proof -
  have "inj_on absk (set (concat bs))" using wf_distinct [OF assms(1)] by (simp only: distinct_map)
  then show ?thesis using assms(2-4) by (metis inj_onD)
qed

lemma wf_set_chain:
  assumes "wf sh bs" "i < length bs"
  shows "set (concat (bs[i := c])) = {e \<in> set (concat bs). bucket_of sh (he_keyHash e) \<noteq> i} \<union> set c"
    and "set (bs ! i) = {e \<in> set (concat bs). bucket_of sh (he_keyHash e) = i}"
proof -
  have b: "bucket_of sh (he_keyHash e) = j" if "j < length bs" "e \<in> set (bs ! j)" for e j
    using assms(1) that by (simp add: wf_def)
  show "set (bs ! i) = {e \<in> set (concat bs). bucket_of sh (he_keyHash e) = i}"
  proof (rule set_eqI)
    fix e show "e \<in> set (bs ! i) \<longleftrightarrow> e \<in> {e \<in> set (concat bs). bucket_of sh (he_keyHash e) = i}"
      unfolding mem_Collect_eq in_concat_nth using b assms(2) by blast
  qed
  show "set (concat (bs[i := c])) = {e \<in> set (concat bs). bucket_of sh (he_keyHash e) \<noteq> i} \<union> set c"
  proof (rule set_eqI)
    fix e
    have "e \<in> set (concat (bs[i := c])) \<longleftrightarrow> (\<exists>j<length bs. e \<in> set (if j = i then c else bs ! j))"
      unfolding in_concat_nth length_list_update by (intro ex_cong) (simp add: nth_list_update)
    also have "\<dots> \<longleftrightarrow> (\<exists>j<length bs. j \<noteq> i \<and> e \<in> set (bs ! j)) \<or> e \<in> set c"
      using assms(2) by (auto split: if_splits)
    also have "(\<exists>j<length bs. j \<noteq> i \<and> e \<in> set (bs ! j)) \<longleftrightarrow>
        (\<exists>j<length bs. e \<in> set (bs ! j)) \<and> bucket_of sh (he_keyHash e) \<noteq> i"
      using b by blast
    finally show "e \<in> set (concat (bs[i := c])) \<longleftrightarrow>
        e \<in> {e \<in> set (concat bs). bucket_of sh (he_keyHash e) \<noteq> i} \<union> set c"
      unfolding Un_iff mem_Collect_eq in_concat_nth .
  qed
qed

text \<open>Replacing one chain.\<close>

lemma wf_update:
  assumes "wf sh bs" "i < length bs"
    and "distinct (map absk c)" "\<And>e. e \<in> set c \<Longrightarrow> entry_ok e \<and> bucket_of sh (he_keyHash e) = i"
  shows "wf sh (bs[i := c])"
  using assms by (auto simp: wf_def nth_list_update)


section \<open>The raw operations\<close>

lemma htwf_set_chain:
  assumes "htwf ht" "h < length (buckets ht)"
    and "distinct (map absk c)" "\<And>e. e \<in> set c \<Longrightarrow> entry_ok e \<and> bucket_of (ht_shift ht) (he_keyHash e) = h"
  shows "htwf (set_chain ht h c)"
  using wf_update [of "ht_shift ht" "buckets ht" h c] assms by (simp add: htwf_def set_chain_def)

lemma chain_props:
  assumes "htwf ht" "h < length (buckets ht)"
  shows "distinct (map absk (buckets ht ! h))"
    and "e \<in> set (buckets ht ! h) \<Longrightarrow> entry_ok e \<and> bucket_of (ht_shift ht) (he_keyHash e) = h"
  using assms by (auto simp: htwf_def wf_def)

lemma ents_set_chain:
  assumes "htwf ht" "h < length (buckets ht)"
  shows "ents (set_chain ht h c) = {e \<in> ents ht. bucket_of (ht_shift ht) (he_keyHash e) \<noteq> h} \<union> set c"
  using wf_set_chain(1) [of "ht_shift ht" "buckets ht" h c] assms by (simp add: htwf_def set_chain_def ents_def)

lemma chain_ents:
  assumes "htwf ht" "h < length (buckets ht)"
  shows "set (buckets ht ! h) = {e \<in> ents ht. bucket_of (ht_shift ht) (he_keyHash e) = h}"
  using wf_set_chain(2) [of "ht_shift ht" "buckets ht" h] assms by (simp add: htwf_def ents_def)

lemma set_chain_sel [simp]:
  "nentries (set_chain ht h c) = nentries ht" "ht_shift (set_chain ht h c) = ht_shift ht"
  "freed (set_chain ht h c) = freed ht" "length (buckets (set_chain ht h c)) = length (buckets ht)"
  by (simp_all add: set_chain_def)

definition total :: "('k, 'v) hash_table \<Rightarrow> nat" where "total ht = length (concat (buckets ht))"

lemma total_set_chain: "h < length (buckets ht) \<Longrightarrow> total (set_chain ht h c) + length (buckets ht ! h) = total ht + length c"
  using length_concat_update [of h "buckets ht" c] unfolding total_def set_chain_def by simp

lemma buckets_set_chain: "h < length (buckets ht) \<Longrightarrow> buckets (set_chain ht h c) ! h = c"
  by (simp add: set_chain_def)

text \<open>What looking a key up gives.\<close>

definition same_table :: "('k, 'v) hash_table \<Rightarrow> ('k, 'v) hash_table \<Rightarrow> bool" where
  "same_table ht ht' \<longleftrightarrow> htwf ht' \<and> ents ht' = ents ht \<and> total ht' = total ht \<and> nentries ht' = nentries ht \<and>
     ht_shift ht' = ht_shift ht \<and> freed ht' = freed ht \<and> length (buckets ht') = length (buckets ht)"

lemma RawLookup_correct:
  assumes wf: "htwf ht" and l: "JS_HashTableRawLookup ops ht (keyHash ops key) key = (ht', hep)"
  shows "same_table ht ht'" and "fst hep = bucket_of (ht_shift ht) (keyHash ops key)"
    and "fst hep < length (buckets ht')" and "snd hep \<le> length (buckets ht' ! fst hep)"
    and "deref ht' hep = Some e \<longleftrightarrow> e \<in> ents ht \<and> absk e = kab key"
    and "deref ht' hep = None \<Longrightarrow> snd hep = length (buckets ht' ! fst hep)"
proof -
  define h where "h = bucket_of (ht_shift ht) (keyHash ops key)"
  define chain where "chain = buckets ht ! h"
  define p :: "('k, 'v) hash_entry \<Rightarrow> bool" where "p = (\<lambda>he. he_keyHash he = keyHash ops key \<and> keyCompare ops key (he_key he))"
  have h: "h < length (buckets ht)" using wf wf_bucket by (simp add: htwf_def h_def)
  have p: "p e \<longleftrightarrow> absk e = kab key" if "e \<in> ents ht" for e
  proof -
    have "entry_ok e" using wf that wf_entry by (auto simp: htwf_def ents_def)
    then show ?thesis using keyCompare_eq keyHash_respects unfolding p_def absk_def entry_ok_def by metis
  qed
  have inch: "e \<in> set chain" if "e \<in> ents ht" "absk e = kab key" for e
  proof -
    have ok: "entry_ok e" using wf that(1) wf_entry by (auto simp: htwf_def ents_def)
    then have "he_keyHash e = keyHash ops key" using that(2) keyHash_respects unfolding entry_ok_def absk_def by metis
    then show ?thesis using chain_ents [OF wf h] that(1) by (simp add: chain_def h_def)
  qed
  have che: "e \<in> ents ht" if "e \<in> set chain" for e using chain_ents [OF wf h] that by (simp add: chain_def)
  have uniq: "e = e'" if "e \<in> ents ht" "e' \<in> ents ht" "absk e = absk e'" for e e'
    using wf_unique wf that unfolding htwf_def ents_def by blast
  have l': "(case search_chain p chain of
      Some i \<Rightarrow> (if i \<noteq> 0 then set_chain ht h (chain ! i # take i chain @ drop (Suc i) chain) else ht, (h, 0))
    | None \<Rightarrow> (ht, (h, length chain))) = (ht', hep)"
    using l unfolding JS_HashTableRawLookup_def Let_def bucket_of_def [symmetric] h_def [symmetric]
      chain_def [symmetric] p_def [symmetric] .
  have "same_table ht ht' \<and> fst hep = h \<and> fst hep < length (buckets ht') \<and> snd hep \<le> length (buckets ht' ! fst hep) \<and>
    (deref ht' hep = Some e \<longleftrightarrow> e \<in> ents ht \<and> absk e = kab key) \<and>
    (deref ht' hep = None \<longrightarrow> snd hep = length (buckets ht' ! fst hep))"
  proof (cases "search_chain p chain")
    case None
    have "\<not> (e \<in> ents ht \<and> absk e = kab key)" using None p inch by (auto simp: search_chain_None)
    moreover have "ht' = ht" "hep = (h, length chain)" using l' None by simp_all
    ultimately show ?thesis using wf h by (simp add: same_table_def deref_def chain_def)
  next
    case (Some i)
    then have i: "i < length chain" "p (chain ! i)" using search_chain_Some by blast+
    define c where "c = chain ! i # take i chain @ drop (Suc i) chain"
    have ht': "ht' = (if i \<noteq> 0 then set_chain ht h c else ht)" "hep = (h, 0)" using l' Some by (auto simp: c_def)
    have c: "mset c = mset chain" unfolding c_def using i(1) by (rule mset_move_front)
    then have sc: "set c = set chain" and lc: "length c = length chain" by (auto dest: mset_eq_setD mset_eq_length)
    have "distinct (map absk c)"
      using chain_props(1) [OF wf h] c unfolding chain_def [symmetric] by (metis mset_eq_imp_distinct_iff mset_map)
    then have "htwf (set_chain ht h c)"
      using chain_props(2) [OF wf h] sc by (intro htwf_set_chain [OF wf h]) (simp_all add: chain_def)
    moreover have "ents (set_chain ht h c) = ents ht"
      using ents_set_chain [OF wf h, of c] chain_ents [OF wf h] sc by (auto simp: chain_def)
    moreover have "total (set_chain ht h c) = total ht"
      using total_set_chain [OF h, of c] lc by (simp add: chain_def)
    ultimately have same: "same_table ht ht'" using wf ht'(1) by (simp add: same_table_def)
    have c0: "buckets ht' ! h = (if i \<noteq> 0 then c else chain)" using ht'(1) h by (simp add: buckets_set_chain chain_def)
    then have d: "deref ht' hep = Some (chain ! i)" using ht'(2) i(1) by (auto simp: deref_def c_def)
    have m: "chain ! i \<in> ents ht" "absk (chain ! i) = kab key"
      using i che [of "chain ! i"] p by auto
    then have "deref ht' hep = Some e \<longleftrightarrow> e \<in> ents ht \<and> absk e = kab key"
      using d uniq [of e "chain ! i"] by auto
    moreover have "h < length (buckets ht')" using h ht' by simp
    ultimately show ?thesis using same ht'(2) d by simp
  qed
  then show "same_table ht ht'" and "fst hep = bucket_of (ht_shift ht) (keyHash ops key)"
    and "fst hep < length (buckets ht')" and "snd hep \<le> length (buckets ht' ! fst hep)"
    and "deref ht' hep = Some e \<longleftrightarrow> e \<in> ents ht \<and> absk e = kab key"
    and "deref ht' hep = None \<Longrightarrow> snd hep = length (buckets ht' ! fst hep)"
    unfolding h_def by blast+
qed


definition grows :: "('k, 'v) hash_table \<Rightarrow> ('k, 'v) hash_entry set \<Rightarrow> nat \<Rightarrow> ('k, 'v) hash_table \<Rightarrow> bool" where
  "grows ht E n ht' \<longleftrightarrow> htwf ht' \<and> ents ht' = ents ht \<union> E \<and> total ht' = total ht + n \<and> nentries ht' = nentries ht \<and>
     ht_shift ht' = ht_shift ht \<and> freed ht' = freed ht \<and> length (buckets ht') = length (buckets ht)"

lemma link_at_end:
  assumes wf: "htwf ht" and h: "h = bucket_of (ht_shift ht) (he_keyHash e)" and e: "entry_ok e"
    and new: "\<And>e'. e' \<in> ents ht \<Longrightarrow> absk e' \<noteq> absk e"
  shows "grows ht {e} 1 (link_last ht (h, length (buckets ht ! h)) e)"
    and "link_before ht (h, length (buckets ht ! h)) e = link_last ht (h, length (buckets ht ! h)) e"
proof -
  define c where "c = buckets ht ! h @ [e]"
  have hl: "h < length (buckets ht)" using wf wf_bucket by (simp add: htwf_def h)
  have eq: "link_last ht (h, length (buckets ht ! h)) e = set_chain ht h c" by (simp add: link_last_def c_def)
  have "absk e \<notin> absk ` set (buckets ht ! h)"
  proof
    assume "absk e \<in> absk ` set (buckets ht ! h)"
    then obtain e' where "e' \<in> set (buckets ht ! h)" "absk e = absk e'" by (rule imageE)
    then show False using new [of e'] chain_ents [OF wf hl] by simp
  qed
  then have "distinct (map absk c)"
    using chain_props(1) [OF wf hl] by (simp add: c_def)
  then have "htwf (set_chain ht h c)"
    using chain_props(2) [OF wf hl] e h by (intro htwf_set_chain [OF wf hl]) (auto simp: c_def)
  moreover have "ents (set_chain ht h c) = ents ht \<union> {e}"
    using ents_set_chain [OF wf hl, of c] chain_ents [OF wf hl] by (auto simp: c_def)
  moreover have "total (set_chain ht h c) = total ht + 1"
    using total_set_chain [OF hl, of c] by (simp add: c_def)
  ultimately show "grows ht {e} 1 (link_last ht (h, length (buckets ht ! h)) e)" by (simp add: grows_def eq)
  show "link_before ht (h, length (buckets ht ! h)) e = link_last ht (h, length (buckets ht ! h)) e"
    by (simp add: link_before_def link_last_def)
qed

text \<open>A lookup that misses, and the link made where it ended.\<close>

lemma miss_then_link:
  assumes wf: "htwf ht" and l: "JS_HashTableRawLookup ops ht (keyHash ops key) key = (ht', hep)"
    and d: "deref ht' hep = None" and e: "he_key e = key" "he_keyHash e = keyHash ops key"
  shows "grows ht {e} 1 (link_last ht' hep e)" and "link_before ht' hep e = link_last ht' hep e"
proof -
  note r = RawLookup_correct [OF wf l]
  have same: "same_table ht ht'" by (rule r(1))
  have hep: "hep = (fst hep, length (buckets ht' ! fst hep))" using r(6) [OF d] by (metis prod.collapse)
  have new: "absk e' \<noteq> absk e" if "e' \<in> ents ht'" for e'
    using r(5) [of e'] d that same e by (auto simp: same_table_def absk_def)
  have "fst hep = bucket_of (ht_shift ht') (he_keyHash e)" using r(2) same e by (simp add: same_table_def)
  then have "grows ht' {e} 1 (link_last ht' hep e)" "link_before ht' hep e = link_last ht' hep e"
    using link_at_end [of ht' "fst hep" e] new same e hep by (auto simp: same_table_def entry_ok_def)
  then show "grows ht {e} 1 (link_last ht' hep e)" "link_before ht' hep e = link_last ht' hep e"
    using same by (simp_all add: grows_def same_table_def)
qed

lemma rehash_all:
  assumes "htwf ht" "\<And>e. e \<in> set es \<Longrightarrow> entry_ok e" "distinct (map absk es)"
    and "\<And>e e'. e \<in> set es \<Longrightarrow> e' \<in> ents ht \<Longrightarrow> absk e' \<noteq> absk e"
  shows "grows ht (set es) (length es) (fold (rehash_entry ops) es ht)"
  using assms
proof (induction es arbitrary: ht)
  case Nil
  then show ?case by (simp add: grows_def)
next
  case (Cons e es)
  obtain ht1 hep where l: "JS_HashTableRawLookup ops ht (keyHash ops (he_key e)) (he_key e) = (ht1, hep)"
    by (metis surj_pair)
  have ok: "he_keyHash e = keyHash ops (he_key e)" using Cons.prems(2) by (simp add: entry_ok_def)
  have "deref ht1 hep = None"
  proof (cases "deref ht1 hep")
    case (Some e')
    then have "e' \<in> ents ht" "absk e' = kab (he_key e)" using RawLookup_correct(5) [OF Cons.prems(1) l] by blast+
    then show ?thesis using Cons.prems(4) [of e e'] by (simp add: absk_def)
  qed simp
  then have g: "grows ht {e} 1 (rehash_entry ops e ht)"
    using miss_then_link [OF Cons.prems(1) l] ok by (simp add: rehash_entry_def l)
  define ht2 where "ht2 = rehash_entry ops e ht"
  have "grows ht2 (set es) (length es) (fold (rehash_entry ops) es ht2)"
  proof (rule Cons.IH)
    show "htwf ht2" using g by (simp add: grows_def ht2_def)
    show "entry_ok e'" if "e' \<in> set es" for e' using Cons.prems(2) that by simp
    show "distinct (map absk es)" using Cons.prems(3) by simp
    show "absk e' \<noteq> absk e1" if "e1 \<in> set es" "e' \<in> ents ht2" for e1 e'
    proof -
      have "e' \<in> ents ht \<or> e' = e" using that(2) g by (auto simp: grows_def ht2_def)
      moreover have "absk e \<noteq> absk e1" using Cons.prems(3) that(1) by auto
      ultimately show ?thesis using Cons.prems(4) [of e1 e'] that(1) by auto
    qed
  qed
  then show ?case using g by (auto simp: grows_def ht2_def)
qed

lemma NBUCKETS_length: "htwf ht \<Longrightarrow> unat (NBUCKETS ht) = length (buckets ht)"
  by (simp add: htwf_def wf_def NBUCKETS_def unat_JS_BIT)

lemma rebucket_correct:
  assumes wf: "htwf ht" and sh: "1 \<le> sh" "sh \<le> 28" and nb: "nb div 8 = 2 ^ (32 - sh)"
  shows "htwf (rebucket ops nb sh ht)" "ents (rebucket ops nb sh ht) = ents ht"
    "total (rebucket ops nb sh ht) = total ht" "nentries (rebucket ops nb sh ht) = nentries ht"
    "ht_shift (rebucket ops nb sh ht) = sh" "freed (rebucket ops nb sh ht) = freed ht"
proof -
  define e where "e = ht\<lparr>buckets := replicate (nb div 8) [], ht_shift := sh\<rparr>"
  define es where "es = concat (buckets ht)"
  have eq: "rebucket ops nb sh ht = fold (rehash_entry ops) es e"
    using NBUCKETS_length [OF wf] by (simp add: rebucket_def e_def es_def)
  have e: "htwf e" "ents e = {}" "total e = 0"
    using sh nb by (simp_all add: e_def htwf_def wf_def ents_def total_def)
  have "grows e (set es) (length es) (fold (rehash_entry ops) es e)"
  proof (rule rehash_all [OF e(1)])
    show "entry_ok x" if "x \<in> set es" for x using wf wf_entry that by (auto simp: es_def htwf_def)
    show "distinct (map absk es)" using wf wf_distinct by (simp add: es_def htwf_def)
  qed (simp add: e(2))
  then show "htwf (rebucket ops nb sh ht)" "ents (rebucket ops nb sh ht) = ents ht"
    "total (rebucket ops nb sh ht) = total ht" "nentries (rebucket ops nb sh ht) = nentries ht"
    "ht_shift (rebucket ops nb sh ht) = sh" "freed (rebucket ops nb sh ht) = freed ht"
    unfolding eq by (simp_all add: grows_def e(2,3)) (simp_all add: e_def es_def ents_def total_def)
qed


section \<open>The keyed operations\<close>

lemma hash_inv_iff: "hash_inv ops kab ht \<longleftrightarrow>
    htwf ht \<and> unat (nentries ht) = total ht \<and> unat (nentries ht) \<le> 2 ^ (32 - ht_shift ht) - 2 ^ (29 - ht_shift ht)"
proof -
  have "1 \<le> ht_shift ht \<Longrightarrow> ht_shift ht \<le> 28 \<Longrightarrow> nentries ht \<le> OVERLOADED (NBUCKETS ht) \<longleftrightarrow>
      unat (nentries ht) \<le> 2 ^ (32 - ht_shift ht) - 2 ^ (29 - ht_shift ht)"
    by (simp add: word_le_nat_alt load_limits NBUCKETS_def)
  then show ?thesis
    unfolding hash_inv_def htwf_def wf_def entry_ok_def absk_def [abs_def] total_def by blast
qed

lemma hash_map_Some: "htwf ht \<Longrightarrow> hash_map kab ht a = Some kv \<longleftrightarrow> (\<exists>e\<in>ents ht. absk e = a \<and> kv = (he_key e, he_value e))"
proof -
  assume wf: "htwf ht"
  define f where "f = find (\<lambda>he. absk he = a) (concat (buckets ht))"
  have m: "hash_map kab ht a = map_option (\<lambda>he. (he_key he, he_value he)) f"
    by (simp add: hash_map_def f_def absk_def)
  have f: "f = Some e \<longleftrightarrow> e \<in> ents ht \<and> absk e = a" for e
  proof
    assume "f = Some e"
    then show "e \<in> ents ht \<and> absk e = a" unfolding f_def ents_def by (rule find_in_list)
  next
    assume e: "e \<in> ents ht \<and> absk e = a"
    then have "f \<noteq> None" unfolding f_def ents_def find_None_iff by blast
    then obtain e' where e': "f = Some e'" by blast
    then have "e' \<in> ents ht \<and> absk e' = a" unfolding f_def ents_def by (rule find_in_list)
    then have "e' = e" using e wf wf_unique unfolding htwf_def ents_def by metis
    then show "f = Some e" using e' by simp
  qed
  show ?thesis
  proof (cases f)
    case None
    then show ?thesis unfolding m using f by auto
  next
    case (Some x)
    then have u: "e \<in> ents ht \<and> absk e = a \<longleftrightarrow> e = x" for e using f [of e] by auto
    show ?thesis unfolding m Some option.map option.inject using u by metis
  qed
qed

lemma hash_map_eqI: "htwf ht \<Longrightarrow> htwf ht' \<Longrightarrow> ents ht = ents ht' \<Longrightarrow> hash_map kab ht = hash_map kab ht'"
  by (rule ext, rule option_eqI) (simp add: hash_map_Some)

lemma hash_map_None: "htwf ht \<Longrightarrow> hash_map kab ht a = None \<longleftrightarrow> (\<forall>e\<in>ents ht. absk e \<noteq> a)"
  using hash_map_Some [of ht a] by (cases "hash_map kab ht a") auto

text \<open>One entry more, one less, one changed.\<close>

lemma hash_map_insert:
  assumes "htwf ht" "htwf ht'" "ents ht' = ents ht \<union> {e}" "\<And>e'. e' \<in> ents ht \<Longrightarrow> absk e' \<noteq> absk e"
  shows "hash_map kab ht' = (hash_map kab ht)(absk e \<mapsto> (he_key e, he_value e))"
  using assms by (intro ext option_eqI) (auto simp: hash_map_Some)

lemma hash_map_remove:
  assumes wf: "htwf ht" "htwf ht'" and e: "e \<in> ents ht" and d: "ents ht' = ents ht - {e}"
  shows "hash_map kab ht' = (hash_map kab ht)(absk e := None)"
proof (intro ext option_eqI)
  fix a kv
  have "e' = e" if "e' \<in> ents ht" "absk e' = absk e" for e'
    using wf_unique wf(1) e that unfolding htwf_def ents_def by metis
  then show "hash_map kab ht' a = Some kv \<longleftrightarrow> ((hash_map kab ht)(absk e := None)) a = Some kv"
    using wf e d by (auto simp: hash_map_Some)
qed

lemma lookup_map:
  assumes wf: "htwf ht" and l: "JS_HashTableRawLookup ops ht (keyHash ops key) key = (ht', hep)"
  shows "map_option (\<lambda>e. (he_key e, he_value e)) (deref ht' hep) = hash_map kab ht (kab key)"
proof (cases "deref ht' hep")
  case None
  then have "\<not> (e \<in> ents ht \<and> absk e = kab key)" for e using RawLookup_correct(5) [OF wf l, of e] by simp
  then show ?thesis using None hash_map_None [OF wf, of "kab key"] by auto
next
  case (Some e)
  then have "e \<in> ents ht \<and> absk e = kab key" using RawLookup_correct(5) [OF wf l, of e] by simp
  then have "hash_map kab ht (kab key) = Some (he_key e, he_value e)" using hash_map_Some [OF wf] by blast
  then show ?thesis using Some by simp
qed

lemma same_table_inv: "hash_inv ops kab ht \<Longrightarrow> same_table ht ht' \<Longrightarrow> hash_inv ops kab ht' \<and> hash_map kab ht' = hash_map kab ht"
  unfolding hash_inv_iff same_table_def using hash_map_eqI by auto

lemma lookup_correct:
  assumes "hash_inv ops kab ht" and "JS_HashTableLookup ops ht key = (ht', r)"
  shows "hash_inv ops kab ht'" "hash_map kab ht' = hash_map kab ht" "r = map_option snd (hash_map kab ht (kab key))"
proof -
  obtain hep where l: "JS_HashTableRawLookup ops ht (keyHash ops key) key = (ht', hep)" "r = map_option he_value (deref ht' hep)"
    using assms(2) by (auto simp: JS_HashTableLookup_def Let_def split: prod.splits)
  have wf: "htwf ht" using assms(1) by (simp add: hash_inv_iff)
  show "hash_inv ops kab ht'" "hash_map kab ht' = hash_map kab ht"
    using same_table_inv [OF assms(1) RawLookup_correct(1) [OF wf l(1)]] by simp_all
  show "r = map_option snd (hash_map kab ht (kab key))"
    unfolding lookup_map [OF wf l(1), symmetric] l(2) by (simp add: option.map_comp comp_def)
qed

lemma RawAdd_correct:
  assumes inv: "hash_inv ops kab ht" and l: "JS_HashTableRawLookup ops ht (keyHash ops key) key = (ht1, hep)"
    and miss: "deref ht1 hep = None" and few: "unat (nentries ht) < 2 ^ 30"
    and a: "JS_HashTableRawAdd ops am ae ht1 hep (keyHash ops key) key value = (ht', r)"
  shows "hash_inv ops kab ht' \<and> freed ht' = freed ht \<and>
    hash_map kab ht' = (if r = None then hash_map kab ht else (hash_map kab ht)(kab key \<mapsto> (key, value))) \<and>
    (ae \<and> (\<forall>nb. am nb) \<longrightarrow> r \<noteq> None) \<and>
    (r \<noteq> None \<longrightarrow> r = Some \<lparr>he_keyHash = keyHash ops key, he_key = key, he_value = value\<rparr>)"
proof -
  define e where "e = \<lparr>he_keyHash = keyHash ops key, he_key = key, he_value = value\<rparr>"
  define sh where "sh = ht_shift ht"
  define grow where "grow \<longleftrightarrow> OVERLOADED (NBUCKETS ht1) \<le> nentries ht1"
  define nb where "nb = unat (2 * NBUCKETS ht1) * 8"
  have wf: "htwf ht" and ne: "unat (nentries ht) = total ht" and le: "unat (nentries ht) \<le> 2 ^ (32 - sh) - 2 ^ (29 - sh)"
    using inv by (simp_all add: hash_inv_iff sh_def)
  have same: "same_table ht ht1" by (rule RawLookup_correct(1) [OF wf l])
  then have wf1: "htwf ht1" and e1: "ents ht1 = ents ht" and s1: "ht_shift ht1 = sh" "nentries ht1 = nentries ht"
    "freed ht1 = freed ht" "total ht1 = total ht" by (simp_all add: same_table_def sh_def)
  have sh: "1 \<le> sh" "sh \<le> 28" using wf by (simp_all add: htwf_def wf_def sh_def)
  have new: "absk e' \<noteq> absk e" if "e' \<in> ents ht" for e'
    using RawLookup_correct(5) [OF wf l, of e'] miss that by (auto simp: absk_def e_def)
  have lim: "grow \<longleftrightarrow> 2 ^ (32 - sh) - 2 ^ (29 - sh) \<le> unat (nentries ht)"
    using load_limits(2) [OF sh] by (simp add: grow_def NBUCKETS_def s1 word_le_nat_alt)
  have inv1: "hash_inv ops kab ht1" "hash_map kab ht1 = hash_map kab ht" using same_table_inv [OF inv same] by simp_all
  show ?thesis
  proof (cases "grow \<and> \<not> am nb")
    case True
    then have "(ht', r) = (ht1, None)" using a by (auto simp: JS_HashTableRawAdd_def Let_def grow_def nb_def)
    then show ?thesis using inv1 True s1(3) by auto
  next
    case False
    define t2 where "t2 = (if grow then rebucket ops nb (sh - 1) ht1 else ht1)"
    obtain t3 hep3 where t3: "(if grow then JS_HashTableRawLookup ops t2 (keyHash ops key) key else (ht1, hep)) = (t3, hep3)"
      by (metis surj_pair)
    have a': "(if \<not> ae then (t3, None)
         else ((link_before t3 hep3 e)\<lparr>nentries := nentries (link_before t3 hep3 e) + 1\<rparr>, Some e)) = (ht', r)"
    proof -
      have eq: "(if grow then JS_HashTableRawLookup ops (rebucket ops nb (ht_shift ht1 - 1) ht1) (keyHash ops key) key else (ht1, hep)) = (t3, hep3)"
        using t3 by (simp add: t2_def s1 split: if_splits)
      then show ?thesis
        using a False
        unfolding JS_HashTableRawAdd_def Let_def grow_def [symmetric] nb_def [symmetric] eq e_def [symmetric] case_prod_conv
        by simp
    qed
    have t2: "htwf t2 \<and> ents t2 = ents ht \<and> total t2 = total ht \<and> nentries t2 = nentries ht \<and> freed t2 = freed ht \<and>
        unat (nentries ht) + 1 \<le> 2 ^ (32 - ht_shift t2) - 2 ^ (29 - ht_shift t2)"
    proof (cases grow)
      case True
      then have "8 * 2 ^ (29 - sh) - 2 ^ (29 - sh) < (2 :: nat) ^ 30" using lim few pow_steps(1) [OF sh(2)] by simp
      then have "(2 :: nat) ^ (29 - sh) < 2 ^ 28" by simp
      then have sh2: "2 \<le> sh" using power_less_imp_less_exp [of "2 :: nat" "29 - sh" 28] by simp
      have p: "32 - (sh - 1) = Suc (32 - sh)" "29 - (sh - 1) = Suc (29 - sh)" using sh by simp_all
      have "unat (2 * NBUCKETS ht1) = 2 * unat (NBUCKETS ht1)"
      proof -
        have "(2 :: nat) ^ (32 - sh) \<le> 2 ^ 30" using sh2 by (intro power_increasing) simp_all
        then have "2 * unat (NBUCKETS ht1) < 2 ^ 32" using load_limits(1) [OF sh] by (simp add: NBUCKETS_def s1)
        then show ?thesis by (simp add: unat_mult_exact)
      qed
      then have nb: "nb div 8 = 2 ^ (32 - (sh - 1))"
        using load_limits(1) [OF sh] p by (simp add: nb_def NBUCKETS_def s1)
      have t2: "t2 = rebucket ops nb (sh - 1) ht1" using True by (simp add: t2_def)
      have sh': "1 \<le> sh - 1" "sh - 1 \<le> 28" using sh sh2 by simp_all
      note rb = rebucket_correct [OF wf1 sh' nb, folded t2]
      have "unat (nentries ht) + 1 \<le> 2 ^ (32 - (sh - 1)) - 2 ^ (29 - (sh - 1))"
      proof -
        have "1 \<le> (2 :: nat) ^ (29 - sh)" by simp
        then show ?thesis using le unfolding p pow_steps(1) [OF sh(2)] power_Suc by linarith
      qed
      then show ?thesis using rb e1 s1 by simp
    next
      case False
      then show ?thesis using lim wf1 e1 s1 by (simp add: t2_def)
    qed
    have l3: "JS_HashTableRawLookup ops (if grow then t2 else ht) (keyHash ops key) key = (t3, hep3)"
      using t3 l by (simp split: if_splits)
    have wf2: "htwf (if grow then t2 else ht)" "ents (if grow then t2 else ht) = ents ht"
      "total (if grow then t2 else ht) = total ht" "nentries (if grow then t2 else ht) = nentries ht"
      "freed (if grow then t2 else ht) = freed ht"
      using t2 wf by (cases grow; simp)+
    have sh2: "ht_shift (if grow then t2 else ht) = ht_shift t2" using s1 by (simp add: t2_def sh_def)
    have miss3: "deref t3 hep3 = None"
    proof (cases "deref t3 hep3")
      case (Some e')
      then show ?thesis using RawLookup_correct(5) [OF wf2(1) l3, of e'] wf2(2) new [of e'] by (simp add: absk_def e_def)
    qed simp
    have same3: "same_table (if grow then t2 else ht) t3" by (rule RawLookup_correct(1) [OF wf2(1) l3])
    have inv3: "hash_inv ops kab t3" "hash_map kab t3 = hash_map kab ht" "freed t3 = freed ht"
      using same3 wf2 sh2 t2 ne wf hash_map_eqI [of t3 ht] by (simp_all add: same_table_def hash_inv_iff)
    show ?thesis
    proof (cases ae)
      case False
      then show ?thesis using a' inv3 by auto
    next
      case True
      define t4 where "t4 = link_before t3 hep3 e"
      have g: "grows (if grow then t2 else ht) {e} 1 t4"
        using miss_then_link [OF wf2(1) l3 miss3, of e] by (simp add: t4_def e_def)
      have r: "ht' = t4\<lparr>nentries := nentries t4 + 1\<rparr>" "r = Some e" using a' True by (simp_all add: t4_def)
      have sel: "ents ht' = ents t4" "total ht' = total t4" "ht_shift ht' = ht_shift t4" "freed ht' = freed t4"
        "htwf ht' = htwf t4" "unat (nentries ht') = unat (nentries ht) + 1"
        using g wf2(4) few unat_add_exact [of "nentries ht" 1]
        by (simp_all add: r ents_def total_def htwf_def grows_def)
      have wf4: "htwf ht'" "ents ht' = ents ht \<union> {e}" using g sel wf2(2) by (simp_all add: grows_def)
      have "hash_map kab ht' = (hash_map kab ht)(absk e \<mapsto> (he_key e, he_value e))"
        using hash_map_insert [OF wf wf4] new by blast
      moreover have "hash_inv ops kab ht'" "freed ht' = freed ht"
        using g sel wf2 sh2 t2 ne by (simp_all add: hash_inv_iff grows_def)
      ultimately show ?thesis using r(2) by (simp add: e_def absk_def)
    qed
  qed
qed


lemma add_correct:
  assumes inv: "hash_inv ops kab ht" and few: "unat (nentries ht) < 2 ^ 30"
    and a: "JS_HashTableAdd ops am ae ht key value = (ht', r)"
  shows "hash_inv ops kab ht'"
    and "ae \<and> (\<forall>nb. am nb) \<longrightarrow> r \<noteq> None"
    and "hash_map kab ht' =
      (if r = None \<or> (\<exists>k v. hash_map kab ht (kab key) = Some (k, v) \<and> valueCompare ops v value) then hash_map kab ht
       else (hash_map kab ht)(kab key \<mapsto> (case hash_map kab ht (kab key) of Some (k, v) \<Rightarrow> k | None \<Rightarrow> key, value)))"
    and "freed ht' = freed ht \<or>
      (\<exists>e. freed ht' = freed ht @ [(HT_FREE_VALUE, e)] \<and> hash_map kab ht (kab key) = Some (he_key e, he_value e))"
proof -
  obtain ht1 hep where l: "JS_HashTableRawLookup ops ht (keyHash ops key) key = (ht1, hep)" by (metis surj_pair)
  have wf: "htwf ht" using inv by (simp add: hash_inv_iff)
  note rl = RawLookup_correct [OF wf l] and m = lookup_map [OF wf l]
  have inv1: "hash_inv ops kab ht1" "hash_map kab ht1 = hash_map kab ht" using same_table_inv [OF inv rl(1)] by simp_all
  have "hash_inv ops kab ht' \<and> (ae \<and> (\<forall>nb. am nb) \<longrightarrow> r \<noteq> None) \<and>
    hash_map kab ht' =
      (if r = None \<or> (\<exists>k v. hash_map kab ht (kab key) = Some (k, v) \<and> valueCompare ops v value) then hash_map kab ht
       else (hash_map kab ht)(kab key \<mapsto> (case hash_map kab ht (kab key) of Some (k, v) \<Rightarrow> k | None \<Rightarrow> key, value))) \<and>
    (freed ht' = freed ht \<or>
      (\<exists>e. freed ht' = freed ht @ [(HT_FREE_VALUE, e)] \<and> hash_map kab ht (kab key) = Some (he_key e, he_value e)))"
  proof (cases "deref ht1 hep")
    case None
    then have "JS_HashTableRawAdd ops am ae ht1 hep (keyHash ops key) key value = (ht', r)"
      using a by (simp add: JS_HashTableAdd_def l)
    note ra = RawAdd_correct [OF inv l None few this]
    have "hash_map kab ht (kab key) = None" using m None by simp
    then show ?thesis using ra by simp
  next
    case (Some e)
    have mk: "hash_map kab ht (kab key) = Some (he_key e, he_value e)" using m Some by simp
    have fr: "freed ht1 = freed ht" using rl(1) by (simp add: same_table_def)
    show ?thesis
    proof (cases "valueCompare ops (he_value e) value")
      case True
      then have "ht' = ht1" "r = Some e" using a by (simp_all add: JS_HashTableAdd_def l Some)
      then show ?thesis using inv1 mk True fr by simp
    next
      case False
      define e' where "e' = e\<lparr>he_value := value\<rparr>"
      define h where "h = fst hep"
      define i where "i = snd hep"
      define chain where "chain = buckets ht1 ! h"
      define c where "c = chain[i := e']"
      define ht2 where "ht2 = (if \<not> value_null ops (he_value e) then ht1\<lparr>freed := freed ht1 @ [(HT_FREE_VALUE, e)]\<rparr> else ht1)"
      have wf1: "htwf ht1" using inv1 by (simp add: hash_inv_iff)
      have wf2: "htwf ht2" "ents ht2 = ents ht1" "buckets ht2 = buckets ht1" "nentries ht2 = nentries ht1"
        "ht_shift ht2 = ht_shift ht1" "total ht2 = total ht1"
        using wf1 by (simp_all add: ht2_def htwf_def ents_def total_def)
      have h: "h < length (buckets ht1)" using rl(3) by (simp add: h_def)
      have i: "i < length chain" "chain ! i = e"
        using Some by (auto simp: deref_def h_def i_def chain_def split: prod.splits if_splits)
      have r: "ht' = set_chain ht2 h c" "r = Some e'"
        using a False
        by (cases "value_null ops (he_value e)"; auto simp: JS_HashTableAdd_def l Some Let_def ht2_def e'_def c_def chain_def h_def i_def)+
      have abs: "absk e' = absk e" "entry_ok e' = entry_ok e" "he_keyHash e' = he_keyHash e" "he_key e' = he_key e" "he_value e' = value"
        by (simp_all add: e'_def absk_def entry_ok_def)
      have mc: "map absk c = map absk chain"
        using i by (simp add: c_def map_update abs(1)) (metis list_update_id map_update)
      have ec: "e \<in> set chain" using i by auto
      have ch: "entry_ok x \<and> bucket_of (ht_shift ht2) (he_keyHash x) = h" if "x \<in> set c" for x
      proof -
        have "x = e' \<or> x \<in> set chain" using that set_update_subset_insert unfolding c_def by fastforce
        then show ?thesis using chain_props(2) [OF wf1 h] ec abs wf2(5) unfolding chain_def by auto
      qed
      have wf': "htwf ht'"
        unfolding r(1)
      proof (rule htwf_set_chain [OF wf2(1)])
        show "distinct (map absk c)" unfolding mc using chain_props(1) [OF wf1 h] by (simp add: chain_def)
      qed (use h ch wf2(3) in simp_all)
      have sc: "set c = set chain - {e} \<union> {e'}"
      proof -
        have "distinct chain" using chain_props(1) [OF wf1 h] unfolding chain_def distinct_map by blast
        then show ?thesis using set_update_distinct [of chain i e'] i by (auto simp: c_def)
      qed
      have E: "ents ht' = ents ht1 - {e} \<union> {e'}"
        unfolding r(1) using ents_set_chain [OF wf2(1), of h c] h wf2 sc chain_ents [OF wf1 h] ch [of e'] abs
        by (auto simp: chain_def)
      have uniq: "x = e" if "x \<in> ents ht1" "absk x = absk e" for x
      proof -
        have "e \<in> ents ht1" using ec chain_ents [OF wf1 h] by (simp add: chain_def)
        then show ?thesis using that wf_unique wf1 unfolding htwf_def ents_def by metis
      qed
      have ek: "absk e = kab key" using rl(5) [of e] Some by simp
      have "hash_map kab ht' = (hash_map kab ht1)(kab key \<mapsto> (he_key e, value))"
      proof (intro ext option_eqI)
        fix a kv
        show "hash_map kab ht' a = Some kv \<longleftrightarrow> ((hash_map kab ht1)(kab key \<mapsto> (he_key e, value))) a = Some kv"
          using E abs ek uniq by (auto simp: hash_map_Some [OF wf'] hash_map_Some [OF wf1])
      qed
      moreover have "hash_inv ops kab ht'"
        using inv1(1) wf' wf2 r(1) total_set_chain [of h ht2 c] h by (simp add: hash_inv_iff c_def chain_def)
      moreover have "freed ht' = freed ht \<or> freed ht' = freed ht @ [(HT_FREE_VALUE, e)]"
        using r(1) fr by (simp add: ht2_def)
      ultimately show ?thesis using mk False r(2) inv1(2) by auto
    qed
  qed
  then show "hash_inv ops kab ht'"
    and "ae \<and> (\<forall>nb. am nb) \<longrightarrow> r \<noteq> None"
    and "hash_map kab ht' =
      (if r = None \<or> (\<exists>k v. hash_map kab ht (kab key) = Some (k, v) \<and> valueCompare ops v value) then hash_map kab ht
       else (hash_map kab ht)(kab key \<mapsto> (case hash_map kab ht (kab key) of Some (k, v) \<Rightarrow> k | None \<Rightarrow> key, value)))"
    and "freed ht' = freed ht \<or>
      (\<exists>e. freed ht' = freed ht @ [(HT_FREE_VALUE, e)] \<and> hash_map kab ht (kab key) = Some (he_key e, he_value e))"
    by blast+
qed


text \<open>After an entry was unlinked, the rest of a removal: free, count, perhaps shrink.\<close>

lemma RawRemove_rest:
  fixes am :: "nat \<Rightarrow> bool" and e :: "('k, 'v) hash_entry"
  assumes wf: "htwf ht" and n: "unat (nentries ht) = Suc m" and le: "m \<le> 2 ^ (32 - ht_shift ht) - 2 ^ (29 - ht_shift ht)"
  defines "ht' \<equiv> JS_HashTableRawRemove ops am ht None e"
  shows "htwf ht'" "ents ht' = ents ht" "total ht' = total ht" "unat (nentries ht') = m"
    "m \<le> 2 ^ (32 - ht_shift ht') - 2 ^ (29 - ht_shift ht')" "freed ht' = freed ht @ [(HT_FREE_ENTRY, e)]"
proof -
  define sh where "sh = ht_shift ht"
  define t where "t = ht\<lparr>freed := freed ht @ [(HT_FREE_ENTRY, e)], nentries := nentries ht - 1\<rparr>"
  define nb where "nb = unat (NBUCKETS ht) * 8 div 2"
  have sh: "1 \<le> sh" "sh \<le> 28" using wf by (simp_all add: htwf_def wf_def sh_def)
  have m: "unat (nentries ht - 1) = m" using n by (subst unat_sub_exact) simp_all
  have t: "htwf t" "ents t = ents ht" "total t = total ht" "unat (nentries t) = m" "ht_shift t = sh"
    "freed t = freed ht @ [(HT_FREE_ENTRY, e)]" "NBUCKETS t = NBUCKETS ht"
    using wf m by (simp_all add: t_def htwf_def ents_def total_def sh_def NBUCKETS_def)
  have eq: "ht' = (if nentries t < UNDERLOADED (NBUCKETS ht) \<and> am nb then rebucket ops nb (sh + 1) t else t)"
    by (simp add: ht'_def JS_HashTableRawRemove_def Let_def t_def nb_def sh_def NBUCKETS_def)
  have "htwf ht' \<and> ents ht' = ents ht \<and> total ht' = total ht \<and> unat (nentries ht') = m \<and>
    m \<le> 2 ^ (32 - ht_shift ht') - 2 ^ (29 - ht_shift ht') \<and> freed ht' = freed ht @ [(HT_FREE_ENTRY, e)]"
  proof (cases "nentries t < UNDERLOADED (NBUCKETS ht) \<and> am nb")
    case True
    then have "m < (if sh < 28 then 2 ^ (30 - sh) else 0)"
      using load_limits(3) [OF sh] t(4) by (simp add: word_less_nat_alt NBUCKETS_def sh_def split: if_splits)
    then have lt: "sh < 28" "m < 2 ^ (30 - sh)" by (simp_all split: if_splits)
    have p: "(2 :: nat) ^ (32 - sh) = 2 * 2 ^ (31 - sh)"
    proof -
      have "32 - sh = Suc (31 - sh)" using lt by simp
      then show ?thesis by simp
    qed
    have "nb div 8 = 2 ^ (32 - (sh + 1))"
      using load_limits(1) [OF sh] p by (simp add: nb_def NBUCKETS_def sh_def [symmetric])
    moreover have "1 \<le> sh + 1" "sh + 1 \<le> 28" using lt by simp_all
    ultimately have rb: "htwf ht'" "ents ht' = ents t" "total ht' = total t" "nentries ht' = nentries t"
      "ht_shift ht' = sh + 1" "freed ht' = freed t"
      using rebucket_correct [OF t(1), of "sh + 1" nb] True by (simp_all add: eq)
    have "m \<le> 2 ^ (32 - (sh + 1)) - 2 ^ (29 - (sh + 1))"
    proof -
      have "(2 :: nat) ^ (32 - (sh + 1)) = 8 * 2 ^ (29 - (sh + 1))" using lt by (intro pow_steps(1)) simp
      moreover have "(2 :: nat) ^ (30 - sh) = 4 * 2 ^ (29 - (sh + 1))"
      proof -
        have "30 - sh = 2 + (29 - (sh + 1))" using lt by simp
        then show ?thesis by (simp only: power_add) simp
      qed
      ultimately show ?thesis using lt(2) by linarith
    qed
    then show ?thesis using rb t by simp
  next
    case False
    then have "ht' = t" unfolding eq by (rule if_not_P)
    then show ?thesis using t le by (simp add: sh_def)
  qed
  then show "htwf ht'" "ents ht' = ents ht" "total ht' = total ht" "unat (nentries ht') = m"
    "m \<le> 2 ^ (32 - ht_shift ht') - 2 ^ (29 - ht_shift ht')" "freed ht' = freed ht @ [(HT_FREE_ENTRY, e)]"
    by blast+
qed

lemma unlink_correct:
  assumes wf: "htwf ht" and h: "fst hep < length (buckets ht)" and d: "deref ht hep = Some e"
  shows "htwf (unlink ht hep)" "ents (unlink ht hep) = ents ht - {e}" "Suc (total (unlink ht hep)) = total ht"
    "nentries (unlink ht hep) = nentries ht" "ht_shift (unlink ht hep) = ht_shift ht" "freed (unlink ht hep) = freed ht"
proof -
  obtain b i where hep: "hep = (b, i)" by (cases hep)
  define chain where "chain = buckets ht ! b"
  define c where "c = take i chain @ drop (Suc i) chain"
  have b: "b < length (buckets ht)" using h hep by simp
  have i: "i < length chain" "chain ! i = e" using d by (auto simp: hep deref_def chain_def split: if_splits)
  have u: "unlink ht hep = set_chain ht b c" by (simp add: unlink_def hep c_def chain_def)
  have split: "chain = take i chain @ e # drop (Suc i) chain" using i by (metis id_take_nth_drop)
  have dist: "distinct (map absk chain)" using chain_props(1) [OF wf b] by (simp add: chain_def)
  have dc: "distinct (map absk c)" "e \<notin> set c"
    using dist by (subst (asm) split; force simp: c_def)+
  have sc: "set c = set chain - {e}" using dc(2) by (subst split) (auto simp: c_def)
  show "htwf (unlink ht hep)"
    unfolding u using dc(1) sc chain_props(2) [OF wf b] by (intro htwf_set_chain [OF wf b]) (auto simp: chain_def)
  show "ents (unlink ht hep) = ents ht - {e}"
    unfolding u using ents_set_chain [OF wf b, of c] chain_ents [OF wf b] sc chain_props(2) [OF wf b, of e] i
    by (auto simp: chain_def)
  have "Suc (length c) = length chain" using i(1) by (simp add: c_def)
  then show "Suc (total (unlink ht hep)) = total ht"
    unfolding u using total_set_chain [OF b, of c] by (simp add: chain_def)
qed (simp_all add: unlink_def split: prod.splits)

lemma RawRemove_unlinks: "JS_HashTableRawRemove ops am ht (Some hep) e = JS_HashTableRawRemove ops am (unlink ht hep) None e"
  by (simp add: JS_HashTableRawRemove_def)

lemma RawRemove_correct:
  fixes am :: "nat \<Rightarrow> bool"
  assumes inv: "hash_inv ops kab ht" and h: "fst hep < length (buckets ht)" and d: "deref ht hep = Some e"
  defines "ht' \<equiv> JS_HashTableRawRemove ops am ht (Some hep) e"
  shows "hash_inv ops kab ht'" "hash_map kab ht' = (hash_map kab ht)(absk e := None)"
    "freed ht' = freed ht @ [(HT_FREE_ENTRY, e)]"
proof -
  have wf: "htwf ht" "unat (nentries ht) = total ht"
    "unat (nentries ht) \<le> 2 ^ (32 - ht_shift ht) - 2 ^ (29 - ht_shift ht)" using inv by (simp_all add: hash_inv_iff)
  note u = unlink_correct [OF wf(1) h d]
  have n: "unat (nentries (unlink ht hep)) = Suc (total (unlink ht hep))" using u wf by simp
  have le: "total (unlink ht hep) \<le> 2 ^ (32 - ht_shift (unlink ht hep)) - 2 ^ (29 - ht_shift (unlink ht hep))"
    using u wf by simp
  note r = RawRemove_rest [OF u(1) n le, of am e, folded RawRemove_unlinks, folded ht'_def]
  show "hash_inv ops kab ht'" using r by (simp add: hash_inv_iff)
  have "e \<in> ents ht"
  proof -
    have "e \<in> set (buckets ht ! fst hep)" using d by (auto simp: deref_def split: prod.splits if_splits)
    then show ?thesis using chain_ents [OF wf(1) h] by simp
  qed
  then show "hash_map kab ht' = (hash_map kab ht)(absk e := None)"
    using hash_map_remove [OF wf(1) r(1)] r(2) u(2) by simp
  show "freed ht' = freed ht @ [(HT_FREE_ENTRY, e)]" using r(6) u(6) by simp
qed

lemma remove_correct:
  assumes inv: "hash_inv ops kab ht" and a: "JS_HashTableRemove ops am ht key = (ht', ok)"
  shows "hash_inv ops kab ht'" "hash_map kab ht' = (hash_map kab ht)(kab key := None)"
    "ok \<longleftrightarrow> hash_map kab ht (kab key) \<noteq> None"
    "map (\<lambda>(flag, e). (flag, he_key e, he_value e)) (freed ht') =
      map (\<lambda>(flag, e). (flag, he_key e, he_value e)) (freed ht) @
      (case hash_map kab ht (kab key) of None \<Rightarrow> [] | Some (k, v) \<Rightarrow> [(HT_FREE_ENTRY, k, v)])"
proof -
  obtain ht1 hep where l: "JS_HashTableRawLookup ops ht (keyHash ops key) key = (ht1, hep)" by (metis surj_pair)
  have wf: "htwf ht" using inv by (simp add: hash_inv_iff)
  note rl = RawLookup_correct [OF wf l] and m = lookup_map [OF wf l]
  have inv1: "hash_inv ops kab ht1" "hash_map kab ht1 = hash_map kab ht" using same_table_inv [OF inv rl(1)] by simp_all
  have fr: "freed ht1 = freed ht" using rl(1) by (simp add: same_table_def)
  have "hash_inv ops kab ht' \<and> hash_map kab ht' = (hash_map kab ht)(kab key := None) \<and>
    (ok \<longleftrightarrow> hash_map kab ht (kab key) \<noteq> None) \<and>
    map (\<lambda>(flag, e). (flag, he_key e, he_value e)) (freed ht') =
      map (\<lambda>(flag, e). (flag, he_key e, he_value e)) (freed ht) @
      (case hash_map kab ht (kab key) of None \<Rightarrow> [] | Some (k, v) \<Rightarrow> [(HT_FREE_ENTRY, k, v)])"
  proof (cases "deref ht1 hep")
    case None
    then have "ht' = ht1" "\<not> ok" using a by (simp_all add: JS_HashTableRemove_def l)
    moreover have "hash_map kab ht (kab key) = None" using m None by simp
    moreover have "(hash_map kab ht)(kab key := None) = hash_map kab ht"
      using calculation(3) by (simp add: fun_upd_idem_iff)
    ultimately show ?thesis using inv1 fr by simp
  next
    case (Some e)
    then have r: "ht' = JS_HashTableRawRemove ops am ht1 (Some hep) e" "ok" using a by (simp_all add: JS_HashTableRemove_def l)
    have "hash_map kab ht (kab key) = Some (he_key e, he_value e)" using m Some by simp
    moreover have "absk e = kab key" using rl(5) [of e] Some by simp
    ultimately show ?thesis using RawRemove_correct [OF inv1(1) rl(3) Some, of am] inv1(2) fr r by simp
  qed
  then show "hash_inv ops kab ht'" "hash_map kab ht' = (hash_map kab ht)(kab key := None)"
    "ok \<longleftrightarrow> hash_map kab ht (kab key) \<noteq> None"
    "map (\<lambda>(flag, e). (flag, he_key e, he_value e)) (freed ht') =
      map (\<lambda>(flag, e). (flag, he_key e, he_value e)) (freed ht) @
      (case hash_map kab ht (kab key) of None \<Rightarrow> [] | Some (k, v) \<Rightarrow> [(HT_FREE_ENTRY, k, v)])"
    by blast+
qed

lemma new_correct:
  assumes n: "unat n \<le> 2 ^ 31" and am: "\<And>nb. am nb"
  obtains ht where "JS_NewHashTable n am = Some ht" "hash_inv ops kab ht" "hash_map kab ht = Map.empty" "freed ht = []"
    "unat n \<le> length (buckets ht)"
proof -
  define k where "k = (if n \<le> MINBUCKETS then MINBUCKETSLOG2 else JS_CeilingLog2 n)"
  have mb: "unat MINBUCKETS = 16" by (simp add: MINBUCKETS_def MINBUCKETSLOG2_def unat_JS_BIT)
  have k: "4 \<le> k" "k \<le> 31" "unat n \<le> 2 ^ k"
  proof -
    have "4 \<le> k \<and> k \<le> 31 \<and> unat n \<le> 2 ^ k"
    proof (cases "n \<le> MINBUCKETS")
      case True
      then show ?thesis using mb by (simp add: k_def MINBUCKETSLOG2_def word_le_nat_alt)
    next
      case False
      then have big: "16 < unat n" using mb by (simp add: word_le_nat_alt)
      then have "n \<noteq> 0" by auto
      note c = JS_CeilingLog2_bounds [OF this]
      have "\<not> JS_CeilingLog2 n < 4"
      proof
        assume "JS_CeilingLog2 n < 4"
        then have "(2 :: nat) ^ JS_CeilingLog2 n \<le> 2 ^ 4" by (intro power_increasing) simp_all
        then show False using c big by simp
      qed
      moreover have "JS_CeilingLog2 n \<le> 31" using c n by blast
      ultimately show ?thesis using c False by (simp add: k_def)
    qed
    then show "4 \<le> k" "k \<le> 31" "unat n \<le> 2 ^ k" by blast+
  qed
  define ht :: "('k, 'v) hash_table" where
    "ht = \<lparr>buckets = replicate (2 ^ k) [], nentries = 0, ht_shift = 32 - k, freed = []\<rparr>"
  have "JS_NewHashTable n am = Some ht"
    using am k by (simp add: JS_NewHashTable_def k_def [symmetric] Let_def ht_def unat_JS_BIT)
  moreover have "1 \<le> 32 - k \<and> 32 - k \<le> 28" using k by arith
  then have "htwf ht" "total ht = 0" using k by (simp_all add: ht_def htwf_def wf_def total_def)
  then have "hash_inv ops kab ht" by (simp add: hash_inv_iff) (simp add: ht_def)
  moreover have "hash_map kab ht = Map.empty" by (rule ext) (simp add: hash_map_def ht_def)
  ultimately show thesis using that k by (simp add: ht_def)
qed


text \<open>Enumerators without state that do not stop, as those of the collector are.\<close>

definition enum_upd :: "(('k, 'v) hash_entry \<Rightarrow> 'v) \<Rightarrow> ('k, 'v) hash_entry \<Rightarrow> ('k, 'v) hash_entry" where
  "enum_upd v he = he\<lparr>he_value := v he\<rparr>"

lemma enum_chain_stateless:
  assumes g: "\<And>he. g he AND HT_ENUMERATE_STOP = 0"
    "\<And>he. g he AND (HT_ENUMERATE_REMOVE OR HT_ENUMERATE_UNHASH) \<noteq> 0 \<longleftrightarrow> rem he"
    "\<And>he. g he AND HT_ENUMERATE_REMOVE \<noteq> 0 \<longleftrightarrow> rem he"
  shows "enum_chain (\<lambda>he i s. (g he, v he, s)) c n s =
    (map (enum_upd v) (filter (\<lambda>he. \<not> rem he) c), map (enum_upd v) (filter rem c), n + length c, s, False)"
  by (induction c arbitrary: n) (auto simp: Let_def g enum_upd_def)

lemma enum_buckets_stateless:
  assumes g: "\<And>he. g he AND HT_ENUMERATE_STOP = 0"
    "\<And>he. g he AND (HT_ENUMERATE_REMOVE OR HT_ENUMERATE_UNHASH) \<noteq> 0 \<longleftrightarrow> rem he"
    "\<And>he. g he AND HT_ENUMERATE_REMOVE \<noteq> 0 \<longleftrightarrow> rem he"
  shows "enum_buckets (\<lambda>he i s. (g he, v he, s)) bs n s =
    (map (\<lambda>c. map (enum_upd v) (filter (\<lambda>he. \<not> rem he) c)) bs,
     map (enum_upd v) (filter rem (concat bs)), n + length (concat bs), s)"
  by (induction bs arbitrary: n) (simp_all add: enum_chain_stateless [OF g] Let_def)

lemma remove_todo:
  fixes am :: "nat \<Rightarrow> bool"
  assumes "htwf ht" "unat (nentries ht) = total ht + length es"
    "unat (nentries ht) \<le> 2 ^ (32 - ht_shift ht) - 2 ^ (29 - ht_shift ht)"
  defines "ht' \<equiv> fold (\<lambda>he ht. JS_HashTableRawRemove ops am ht None he) es ht"
  shows "hash_inv ops kab ht' \<and> ents ht' = ents ht \<and> total ht' = total ht \<and> freed ht' = freed ht @ map (Pair HT_FREE_ENTRY) es"
  using assms(1-3) unfolding ht'_def
proof (induction es arbitrary: ht)
  case Nil
  then show ?case by (simp add: hash_inv_iff)
next
  case (Cons e es)
  have n: "unat (nentries ht) = Suc (total ht + length es)" using Cons.prems(2) by simp
  then have le: "total ht + length es \<le> 2 ^ (32 - ht_shift ht) - 2 ^ (29 - ht_shift ht)" using Cons.prems(3) by simp
  note r = RawRemove_rest [OF Cons.prems(1) n le, of am e]
  show ?case using Cons.IH [OF r(1)] r by simp
qed

lemma filter_ents:
  fixes rem :: "('k, 'v) hash_entry \<Rightarrow> bool" and v :: "('k, 'v) hash_entry \<Rightarrow> 'v"
  assumes wf: "htwf ht"
  defines "ht1 \<equiv> ht\<lparr>buckets := map (\<lambda>c. map (enum_upd v) (filter (\<lambda>he. \<not> rem he) c)) (buckets ht)\<rparr>"
  shows "htwf ht1" "ents ht1 = enum_upd v ` {e \<in> ents ht. \<not> rem e}"
    "total ht1 + length (filter rem (concat (buckets ht))) = total ht"
proof -
  have abs: "absk (enum_upd v e) = absk e" "entry_ok (enum_upd v e) = entry_ok e" "he_keyHash (enum_upd v e) = he_keyHash e" for e
    by (simp_all add: enum_upd_def absk_def entry_ok_def)
  show "htwf ht1"
    using wf by (auto simp: htwf_def wf_def ht1_def abs comp_def distinct_map inj_on_def)
  show "ents ht1 = enum_upd v ` {e \<in> ents ht. \<not> rem e}" by (auto simp: ents_def ht1_def)
  show "total ht1 + length (filter rem (concat (buckets ht))) = total ht"
  proof -
    have "length (concat (map (\<lambda>c. map (enum_upd v) (filter (\<lambda>he. \<not> rem he) c)) bs)) + length (filter rem (concat bs)) =
        length (concat bs)" for bs
    proof (induction bs)
      case (Cons c bs)
      then show ?case using sum_length_filter_compl [of rem c] by simp
    qed simp
    then show ?thesis by (simp add: total_def ht1_def)
  qed
qed

lemma enumerate_correct:
  assumes inv: "hash_inv ops kab ht"
    and g: "\<And>he. g he AND HT_ENUMERATE_STOP = 0"
    "\<And>he. g he AND (HT_ENUMERATE_REMOVE OR HT_ENUMERATE_UNHASH) \<noteq> 0 \<longleftrightarrow> rem he"
    "\<And>he. g he AND HT_ENUMERATE_REMOVE \<noteq> 0 \<longleftrightarrow> rem he"
    and e: "JS_HashTableEnumerateEntries ops am (\<lambda>he i s. (g he, v he, s)) ht s = (ht', n, s')"
  shows "hash_inv ops kab ht'" "n = unat (nentries ht)" "s' = s"
    "hash_map kab ht' a = (case hash_map kab ht a of None \<Rightarrow> None | Some (k, w) \<Rightarrow>
       let he = \<lparr>he_keyHash = keyHash ops k, he_key = k, he_value = w\<rparr> in if rem he then None else Some (k, v he))"
    "length (freed ht') + unat (nentries ht') = length (freed ht) + unat (nentries ht)"
proof -
  have wf: "htwf ht" "unat (nentries ht) = total ht"
    "unat (nentries ht) \<le> 2 ^ (32 - ht_shift ht) - 2 ^ (29 - ht_shift ht)" using inv by (simp_all add: hash_inv_iff)
  define ht1 where "ht1 = ht\<lparr>buckets := map (\<lambda>c. map (enum_upd v) (filter (\<lambda>he. \<not> rem he) c)) (buckets ht)\<rparr>"
  define todo where "todo = map (enum_upd v) (filter rem (concat (buckets ht)))"
  note f = filter_ents [OF wf(1), of v rem, folded ht1_def]
  have r: "ht' = fold (\<lambda>he ht. JS_HashTableRawRemove ops am ht None he) (rev todo) ht1" "n = total ht" "s' = s"
    using e NBUCKETS_length [OF wf(1)]
    by (simp_all add: JS_HashTableEnumerateEntries_def enum_buckets_stateless [OF g] ht1_def todo_def total_def)
  have sel: "nentries ht1 = nentries ht" "ht_shift ht1 = ht_shift ht" "freed ht1 = freed ht" by (simp_all add: ht1_def)
  have n1: "unat (nentries ht1) = total ht1 + length (rev todo)" using f(3) wf(2) sel by (simp add: todo_def)
  note t = remove_todo [OF f(1) n1, of am, folded r(1)]
  have t: "hash_inv ops kab ht'" "ents ht' = ents ht1" "total ht' = total ht1"
    "freed ht' = freed ht @ map (Pair HT_FREE_ENTRY) (rev todo)"
    using t wf(3) sel by simp_all
  show "hash_inv ops kab ht'" "n = unat (nentries ht)" "s' = s" using t(1) r wf(2) by simp_all
  have wf': "htwf ht'" "unat (nentries ht') = total ht'" using t(1) by (simp_all add: hash_inv_iff)
  show "length (freed ht') + unat (nentries ht') = length (freed ht) + unat (nentries ht)"
    using t(3,4) n1 sel wf'(2) by simp
  have ok: "entry_ok x" if "x \<in> ents ht" for x using wf(1) wf_entry that by (auto simp: htwf_def ents_def)
  show "hash_map kab ht' a = (case hash_map kab ht a of None \<Rightarrow> None | Some (k, w) \<Rightarrow>
       let he = \<lparr>he_keyHash = keyHash ops k, he_key = k, he_value = w\<rparr> in if rem he then None else Some (k, v he))"
  proof (cases "hash_map kab ht a")
    case None
    then have "\<forall>x\<in>ents ht. absk x \<noteq> a" using hash_map_None [OF wf(1)] by blast
    then have "\<forall>x\<in>ents ht'. absk x \<noteq> a" unfolding t(2) f(2) by (auto simp: enum_upd_def absk_def)
    then show ?thesis using None hash_map_None [OF wf'(1)] by auto
  next
    case (Some kw)
    then obtain x where x: "x \<in> ents ht" "absk x = a" "kw = (he_key x, he_value x)" using hash_map_Some [OF wf(1)] by blast
    have he: "\<lparr>he_keyHash = keyHash ops (he_key x), he_key = he_key x, he_value = he_value x\<rparr> = x"
      using ok [OF x(1)] by (simp add: entry_ok_def)
    have uniq: "y = x" if "y \<in> ents ht" "absk y = a" for y
      using that x wf(1) wf_unique unfolding htwf_def ents_def by metis
    show ?thesis
    proof (cases "rem x")
      case True
      then have "\<forall>y\<in>ents ht'. absk y \<noteq> a" unfolding t(2) f(2) using uniq by (auto simp: enum_upd_def absk_def)
      then show ?thesis using Some x he True hash_map_None [OF wf'(1)] by (simp add: Let_def)
    next
      case False
      then have "enum_upd v x \<in> ents ht'" unfolding t(2) f(2) using x by blast
      then have "hash_map kab ht' a = Some (he_key x, v x)"
        using x(2) hash_map_Some [OF wf'(1), of a "(he_key x, v x)"] by (force simp: enum_upd_def absk_def)
      then show ?thesis using Some x he False by (simp add: Let_def)
    qed
  qed
qed

lemma nentries_card:
  assumes "hash_inv ops kab ht"
  shows "card (dom (hash_map kab ht)) = unat (nentries ht)"
proof -
  have wf: "htwf ht" "unat (nentries ht) = total ht" using assms by (simp_all add: hash_inv_iff)
  then have d: "distinct (map absk (concat (buckets ht)))" using wf_distinct by (simp add: htwf_def)
  have "dom (hash_map kab ht) = set (map absk (concat (buckets ht)))"
    using hash_map_None [OF wf(1)] by (auto simp: dom_def ents_def simp del: set_concat)
  then show ?thesis using distinct_card [OF d] wf(2) by (simp only: total_def length_map)
qed

lemma destroy_frees_all:
  assumes "hash_inv ops kab ht"
  shows "JS_HashTableDestroy ht = freed ht @ map (Pair HT_FREE_ENTRY) (concat (buckets ht))"
  using assms NBUCKETS_length by (simp add: JS_HashTableDestroy_def hash_inv_iff)

end

section \<open>Tables keyed by C strings\<close>

definition js_compare_strings :: "u8 list \<Rightarrow> u8 list \<Rightarrow> bool" where
  "js_compare_strings k1 k2 \<longleftrightarrow> c_string k1 = c_string k2"

definition string_ops :: "('v \<Rightarrow> 'v \<Rightarrow> bool) \<Rightarrow> ('v \<Rightarrow> bool) \<Rightarrow> (u8 list, 'v) hash_ops" where
  "string_ops vc vn = \<lparr>keyHash = JS_HashString, keyCompare = js_compare_strings, valueCompare = vc, value_null = vn\<rparr>"

interpretation by_string: hash_client "string_ops vc vn" c_string for vc vn
  by unfold_locales (auto simp: string_ops_def js_compare_strings_def JS_HashString_def)

lemma new_string_table: "\<exists>ht. JS_NewHashTable 16 (\<lambda>_. True) = Some ht \<and> hash_inv (string_ops vc vn) c_string ht \<and>
    hash_map c_string ht = Map.empty \<and> unat (nentries ht) = 0"
proof -
  obtain ht where ht: "JS_NewHashTable 16 (\<lambda>_. True) = Some ht" "hash_inv (string_ops vc vn) c_string ht"
    "hash_map c_string ht = Map.empty"
    using by_string.new_correct [where n = 16 and am = "\<lambda>_. True" and vc = vc and vn = vn] by auto
  then have "nentries ht = 0" by (auto simp: JS_NewHashTable_def Let_def split: if_splits)
  then show ?thesis using ht by simp
qed

text \<open>
  adding to a table of fewer than \<open>2 ^ 30\<close> strings, growing it or not, keeps the table's
  invariant, its load limit included, and is an update of the map, under the key that was there
  first; an equal value changes nothing, a replaced value is freed; the only failures are those of
  the allocators, and they change nothing.
\<close>

theorem hash_add_updates_map:
  assumes "hash_inv (string_ops vc vn) c_string ht" and "unat (nentries ht) < 2 ^ 30"
    and "JS_HashTableAdd (string_ops vc vn) am alloc_entry ht key value = (ht', r)"
  shows "hash_inv (string_ops vc vn) c_string ht' \<and>
    (alloc_entry \<and> (\<forall>nb. am nb) \<longrightarrow> r \<noteq> None) \<and>
    hash_map c_string ht' =
      (if r = None \<or> (\<exists>k v. hash_map c_string ht (c_string key) = Some (k, v) \<and> vc v value) then hash_map c_string ht
       else (hash_map c_string ht)(c_string key \<mapsto>
         (case hash_map c_string ht (c_string key) of Some (k, v) \<Rightarrow> k | None \<Rightarrow> key, value))) \<and>
    (freed ht' = freed ht \<or>
      (\<exists>e. freed ht' = freed ht @ [(HT_FREE_VALUE, e)] \<and> hash_map c_string ht (c_string key) = Some (he_key e, he_value e)))"
  using by_string.add_correct [OF assms] by (simp add: string_ops_def)

theorem hash_add_updates_map_witness:
  "\<exists>ht ht' r. JS_NewHashTable 16 (\<lambda>_. True) = Some ht \<and>
     JS_HashTableAdd (string_ops (=) (\<lambda>_. False)) (\<lambda>_. True) True ht [0x61] (7 :: nat) = (ht', r) \<and>
     hash_map c_string ht' [0x61] = Some ([0x61], 7)"
proof -
  obtain ht where ht: "JS_NewHashTable 16 (\<lambda>_. True) = Some ht"
    "hash_inv (string_ops (=) (\<lambda>_. False)) c_string ht"
    "hash_map c_string ht = (Map.empty :: u8 list \<Rightarrow> (u8 list \<times> nat) option)" "unat (nentries ht) = 0"
    using new_string_table by blast
  obtain ht' r where add: "JS_HashTableAdd (string_ops (=) (\<lambda>_. False)) (\<lambda>_. True) True ht [0x61] (7 :: nat) = (ht', r)"
    by (metis surj_pair)
  have "c_string [0x61] = [0x61]" by (simp add: c_string_def)
  with hash_add_updates_map [OF ht(2) _ add] ht show ?thesis using add by auto
qed

text \<open>
  looking a key up gives the value of the map and only reorders chains; removing a key
  deletes it from the map, frees its entry once, and says whether it was there. Both keep the
  invariant, shrinking the table or not.
\<close>

theorem hash_lookup_and_remove:
  assumes "hash_inv (string_ops vc vn) c_string ht"
  shows "(case JS_HashTableLookup (string_ops vc vn) ht key of (ht', r) \<Rightarrow>
      hash_inv (string_ops vc vn) c_string ht' \<and> hash_map c_string ht' = hash_map c_string ht \<and>
      r = map_option snd (hash_map c_string ht (c_string key))) \<and>
    (case JS_HashTableRemove (string_ops vc vn) am ht key of (ht', ok) \<Rightarrow>
      hash_inv (string_ops vc vn) c_string ht' \<and> hash_map c_string ht' = (hash_map c_string ht)(c_string key := None) \<and>
      (ok \<longleftrightarrow> hash_map c_string ht (c_string key) \<noteq> None) \<and>
      map (\<lambda>(flag, e). (flag, he_key e, he_value e)) (freed ht') =
        map (\<lambda>(flag, e). (flag, he_key e, he_value e)) (freed ht) @
        (case hash_map c_string ht (c_string key) of None \<Rightarrow> [] | Some (k, v) \<Rightarrow> [(HT_FREE_ENTRY, k, v)]))"
  using by_string.lookup_correct [OF assms] by_string.remove_correct [OF assms]
  by (auto split: prod.splits)

theorem hash_lookup_and_remove_witness:
  "\<exists>ht. JS_NewHashTable 16 (\<lambda>_. True) = Some ht \<and>
     snd (JS_HashTableLookup (string_ops (=) (\<lambda>_. False)) ht [0x61]) = (None :: nat option) \<and>
     \<not> snd (JS_HashTableRemove (string_ops (=) (\<lambda>_. False)) (\<lambda>_. True) ht [0x61])"
proof -
  obtain ht where ht: "JS_NewHashTable 16 (\<lambda>_. True) = Some ht"
    "hash_inv (string_ops (=) (\<lambda>_. False)) c_string ht"
    "hash_map c_string ht = (Map.empty :: u8 list \<Rightarrow> (u8 list \<times> nat) option)"
    using new_string_table by blast
  with hash_lookup_and_remove [OF ht(2), of "[0x61]" "\<lambda>_. True"] show ?thesis
    by (auto split: prod.splits)
qed

end
