(* ===== verification/JS_ScriptNames.thy ===== *)
theory JS_ScriptNames
  imports JS_Hash "HOL-Library.Sublist"
begin

text \<open>
  The script filenames of js/src/jsscript.c: a table of the names saved so far, each with the flags
  the debugger API gave it and the collector's mark, and the list of prefixes whose flags longer
  names inherit. The pointer to a saved name is its string.
\<close>

section \<open>State\<close>

record sfe_data =
  sfe_flags :: u32
  sfe_mark :: bool

record script_prefix =
  sfp_name :: "u8 list"
  sfp_length :: nat
  sfp_flags :: u32

text \<open>The circular list of prefixes is the list of its elements from \<open>head->next\<close> on.\<close>

record script_runtime =
  scriptFilenameTable :: "(u8 list, sfe_data) hash_table option"
  scriptFilenamePrefixes :: "script_prefix list"

type_synonym sft_ops = "(u8 list, sfe_data) hash_ops"

definition sftbl_ops :: sft_ops where
  "sftbl_ops = string_ops (\<lambda>v1 v2. v1 = v2) (\<lambda>v. False)"

definition js_InitRuntimeScriptState :: "(nat \<Rightarrow> bool) \<Rightarrow> script_runtime \<Rightarrow> script_runtime \<times> bool" where
  "js_InitRuntimeScriptState am rt =
     (case JS_NewHashTable 16 am of
        None \<Rightarrow> (rt\<lparr>scriptFilenameTable := None\<rparr>, False)
      | Some ht \<Rightarrow> (rt\<lparr>scriptFilenameTable := Some ht, scriptFilenamePrefixes := []\<rparr>, True))"

definition js_FinishRuntimeScriptState :: "script_runtime \<Rightarrow> script_runtime" where
  "js_FinishRuntimeScriptState rt = rt\<lparr>scriptFilenameTable := None\<rparr>"

fun free_prefixes :: "script_prefix list \<Rightarrow> script_prefix list" where
  "free_prefixes [] = []"
| "free_prefixes (sfp # links) = free_prefixes links"

definition js_FreeRuntimeScriptState :: "script_runtime \<Rightarrow> script_runtime" where
  "js_FreeRuntimeScriptState rt =
     js_FinishRuntimeScriptState (rt\<lparr>scriptFilenamePrefixes := free_prefixes (scriptFilenamePrefixes rt)\<rparr>)"

section \<open>Saving a name\<close>

text \<open>Writing through the pointer to the entry of a saved name.\<close>

definition update_sfe ::
  "u8 list \<Rightarrow> (sfe_data \<Rightarrow> sfe_data) \<Rightarrow> (u8 list, sfe_data) hash_table \<Rightarrow> (u8 list, sfe_data) hash_table" where
  "update_sfe name f ht =
     ht\<lparr>buckets := map (map (\<lambda>he. he\<lparr>he_value := (if he_key he = name then f (he_value he) else he_value he)\<rparr>)) (buckets ht)\<rparr>"

text \<open>
  The search of the prefix list: the position of the prefix found, or where to link a new one.
\<close>

datatype prefix_pos = Found nat | Link_at nat

fun search_prefixes :: "u8 list \<Rightarrow> nat \<Rightarrow> nat \<Rightarrow> script_prefix list \<Rightarrow> prefix_pos" where
  "search_prefixes filename len i [] = Link_at i"
| "search_prefixes filename len i (sfp # links) =
     (if c_string (sfp_name sfp) = c_string filename then Found i
      else if sfp_length sfp \<le> len then Link_at i
      else search_prefixes filename len (Suc i) links)"

text \<open>Finding the entry of a name, or making it.\<close>

definition enter_name :: "(nat \<Rightarrow> bool) \<Rightarrow> bool \<Rightarrow> (u8 list, sfe_data) hash_table \<Rightarrow> u8 list \<Rightarrow>
    (u8 list, sfe_data) hash_table \<times> u8 list option" where
  "enter_name am alloc_entry table filename =
     (let hash = JS_HashString filename;
          (table, hep) = JS_HashTableRawLookup sftbl_ops table hash filename
      in case deref table hep of
           Some he \<Rightarrow> (table, Some (he_key he))
         | None \<Rightarrow>
             (case JS_HashTableRawAdd sftbl_ops am alloc_entry table hep hash (c_string filename)
                     \<lparr>sfe_flags = 0, sfe_mark = False\<rparr> of
                (table, None) \<Rightarrow> (table, None)
              | (table, Some he) \<Rightarrow> (table, Some (he_key he))))"

text \<open>The flags go to the entry and to the prefix at \<open>i\<close> of the list, which becomes the runtime's.\<close>

definition accumulate_flags :: "script_runtime \<Rightarrow> u8 list \<Rightarrow> u32 \<Rightarrow> nat \<Rightarrow> script_prefix list \<Rightarrow> script_runtime" where
  "accumulate_flags rt name flags i sfps =
     rt\<lparr>scriptFilenamePrefixes := sfps[i := (sfps ! i)\<lparr>sfp_flags := sfp_flags (sfps ! i) OR flags\<rparr>],
        scriptFilenameTable := map_option (update_sfe name (\<lambda>v. v\<lparr>sfe_flags := sfe_flags v OR flags\<rparr>)) (scriptFilenameTable rt)\<rparr>"

text \<open>
  \<open>am\<close> and \<open>alloc_entry\<close> are the allocations of the table, \<open>alloc_prefix\<close> is the one of a prefix.
  \<open>None\<close>: there is no table.
\<close>

definition SaveScriptFilename ::
  "(nat \<Rightarrow> bool) \<Rightarrow> bool \<Rightarrow> bool \<Rightarrow> script_runtime \<Rightarrow> u8 list \<Rightarrow> u32 \<Rightarrow> (script_runtime \<times> u8 list option) option" where
  "SaveScriptFilename am alloc_entry alloc_prefix rt filename flags =
     (case scriptFilenameTable rt of
        None \<Rightarrow> None
      | Some table \<Rightarrow> Some (
          let (table, sfe) = enter_name am alloc_entry table filename;
              rt = rt\<lparr>scriptFilenameTable := Some table\<rparr>
          in case sfe of
               None \<Rightarrow> (rt, None)
             | Some name \<Rightarrow>
                 if flags = 0 then (rt, Some name)
                 else
                   let sfps = scriptFilenamePrefixes rt;
                       len = length (c_string filename)
                   in case search_prefixes filename len 0 sfps of
                        Found i \<Rightarrow> (accumulate_flags rt name flags i sfps, Some name)
                      | Link_at i \<Rightarrow>
                          if \<not> alloc_prefix then (rt, None)
                          else (accumulate_flags rt name flags i
                                  (take i sfps @ \<lparr>sfp_name = name, sfp_length = len, sfp_flags = 0\<rparr> # drop i sfps),
                                Some name)))"

text \<open>\<open>strncmp (s, t, n) = 0\<close>.\<close>

definition strncmp_eq :: "u8 list \<Rightarrow> u8 list \<Rightarrow> nat \<Rightarrow> bool" where
  "strncmp_eq s t n \<longleftrightarrow> take n (c_string s) = take n (c_string t)"

definition js_SaveScriptFilename ::
  "(nat \<Rightarrow> bool) \<Rightarrow> bool \<Rightarrow> script_runtime \<Rightarrow> u8 list \<Rightarrow> (script_runtime \<times> u8 list option) option" where
  "js_SaveScriptFilename am alloc_entry rt filename =
     (case SaveScriptFilename am alloc_entry False rt filename 0 of
        None \<Rightarrow> None
      | Some (rt, None) \<Rightarrow> Some (rt, None)
      | Some (rt, Some name) \<Rightarrow> Some (
          case find (\<lambda>sfp. strncmp_eq (sfp_name sfp) filename (sfp_length sfp)) (scriptFilenamePrefixes rt) of
            None \<Rightarrow> (rt, Some name)
          | Some sfp \<Rightarrow>
              (rt\<lparr>scriptFilenameTable := map_option
                    (update_sfe name (\<lambda>v. v\<lparr>sfe_flags := sfe_flags v OR sfp_flags sfp\<rparr>)) (scriptFilenameTable rt)\<rparr>,
               Some name)))"

definition js_SaveScriptFilenameRT ::
  "(nat \<Rightarrow> bool) \<Rightarrow> bool \<Rightarrow> bool \<Rightarrow> script_runtime \<Rightarrow> u8 list \<Rightarrow> u32 \<Rightarrow> (script_runtime \<times> u8 list option) option" where
  "js_SaveScriptFilenameRT am alloc_entry alloc_prefix rt filename flags =
     (let (rt, ok) = (if scriptFilenameTable rt = None then js_InitRuntimeScriptState am rt else (rt, True))
      in if \<not> ok then Some (rt, None)
         else SaveScriptFilename am alloc_entry alloc_prefix rt filename flags)"

section \<open>Flags, marking and sweeping\<close>

definition js_GetScriptFilenameFlags :: "script_runtime \<Rightarrow> u8 list \<Rightarrow> u32 option" where
  "js_GetScriptFilenameFlags rt name =
     (case scriptFilenameTable rt of
        None \<Rightarrow> None
      | Some ht \<Rightarrow> map_option (\<lambda>he. sfe_flags (he_value he)) (find (\<lambda>he. he_key he = name) (concat (buckets ht))))"

definition js_MarkScriptFilename :: "u8 list \<Rightarrow> (u8 list, sfe_data) hash_table \<Rightarrow> (u8 list, sfe_data) hash_table" where
  "js_MarkScriptFilename name = update_sfe name (\<lambda>v. v\<lparr>sfe_mark := True\<rparr>)"

definition GC_KEEP_ATOMS :: u32 where "GC_KEEP_ATOMS = 0x1"

definition js_script_filename_marker :: "(u8 list, sfe_data) hash_entry \<Rightarrow> nat \<Rightarrow> unit \<Rightarrow> u32 \<times> sfe_data \<times> unit" where
  "js_script_filename_marker = (\<lambda>he i arg. (HT_ENUMERATE_NEXT, (he_value he)\<lparr>sfe_mark := True\<rparr>, arg))"

definition js_MarkScriptFilenames ::
  "(nat \<Rightarrow> bool) \<Rightarrow> u32 \<Rightarrow> script_prefix list \<Rightarrow> (u8 list, sfe_data) hash_table \<Rightarrow> (u8 list, sfe_data) hash_table" where
  "js_MarkScriptFilenames am gcflags sfps ht =
     fold (\<lambda>sfp. js_MarkScriptFilename (sfp_name sfp)) sfps
       (if gcflags AND GC_KEEP_ATOMS \<noteq> 0
        then fst (JS_HashTableEnumerateEntries sftbl_ops am js_script_filename_marker ht ()) else ht)"

definition js_script_filename_sweeper :: "(u8 list, sfe_data) hash_entry \<Rightarrow> nat \<Rightarrow> unit \<Rightarrow> u32 \<times> sfe_data \<times> unit" where
  "js_script_filename_sweeper = (\<lambda>he i arg.
     (if \<not> sfe_mark (he_value he) then HT_ENUMERATE_REMOVE else HT_ENUMERATE_NEXT,
      if \<not> sfe_mark (he_value he) then he_value he else (he_value he)\<lparr>sfe_mark := False\<rparr>, arg))"

definition js_SweepScriptFilenames ::
  "(nat \<Rightarrow> bool) \<Rightarrow> (u8 list, sfe_data) hash_table \<Rightarrow> (u8 list, sfe_data) hash_table" where
  "js_SweepScriptFilenames am ht = fst (JS_HashTableEnumerateEntries sftbl_ops am js_script_filename_sweeper ht ())"

section \<open>The invariant\<close>

text \<open>
  A table stores each name under itself, without a zero byte; every prefix is the name of a
  saved entry, with its length, and longer prefixes come first.
\<close>

definition sft_map :: "(u8 list, sfe_data) hash_table \<Rightarrow> u8 list \<Rightarrow> sfe_data option" where
  "sft_map ht name = map_option snd (hash_map c_string ht name)"

definition table_inv :: "(u8 list, sfe_data) hash_table \<Rightarrow> bool" where
  "table_inv ht \<longleftrightarrow> hash_inv sftbl_ops c_string ht \<and> (\<forall>he\<in>set (concat (buckets ht)). c_string (he_key he) = he_key he)"

definition prefix_inv :: "(u8 list, sfe_data) hash_table \<Rightarrow> script_prefix list \<Rightarrow> bool" where
  "prefix_inv ht ps \<longleftrightarrow>
     (\<forall>sfp\<in>set ps. sft_map ht (sfp_name sfp) \<noteq> None \<and> c_string (sfp_name sfp) = sfp_name sfp \<and>
        sfp_length sfp = length (sfp_name sfp)) \<and>
     sorted_wrt (\<lambda>p q. sfp_length q \<le> sfp_length p) ps"

lemma c_string_idem [simp]: "c_string (c_string s) = c_string s"
  by (simp add: c_string_def takeWhile_idem)

lemma sft_map_Some:
  assumes "table_inv ht"
  shows "sft_map ht name = Some v \<longleftrightarrow> (\<exists>he\<in>set (concat (buckets ht)). he_key he = name \<and> he_value he = v)"
proof -
  have wf: "by_string.htwf (\<lambda>v1 v2. v1 = v2) (\<lambda>v. False) ht"
    using assms by (simp add: table_inv_def sftbl_ops_def by_string.hash_inv_iff)
  have "sft_map ht name = Some v \<longleftrightarrow> (\<exists>kv. hash_map c_string ht name = Some kv \<and> snd kv = v)"
    unfolding sft_map_def by (cases "hash_map c_string ht name") auto
  also have "\<dots> \<longleftrightarrow> (\<exists>he\<in>set (concat (buckets ht)). c_string (he_key he) = name \<and> he_value he = v)"
    unfolding by_string.hash_map_Some [OF wf] by_string.ents_def by_string.absk_def by auto
  also have "\<dots> \<longleftrightarrow> (\<exists>he\<in>set (concat (buckets ht)). he_key he = name \<and> he_value he = v)"
    using assms unfolding table_inv_def by metis
  finally show ?thesis .
qed


lemma table_inv_htwf: "table_inv ht \<Longrightarrow> by_string.htwf (\<lambda>v1 v2. v1 = v2) (\<lambda>v. False) ht"
  by (simp add: table_inv_def sftbl_ops_def by_string.hash_inv_iff)

lemma update_sfe_correct:
  assumes inv: "table_inv ht"
  shows "table_inv (update_sfe name f ht)"
    and "sft_map (update_sfe name f ht) = (\<lambda>a. if a = name then map_option f (sft_map ht a) else sft_map ht a)"
    and "nentries (update_sfe name f ht) = nentries ht" "freed (update_sfe name f ht) = freed ht"
proof -
  define v :: "(u8 list, sfe_data) hash_entry \<Rightarrow> sfe_data" where
    "v = (\<lambda>he. if he_key he = name then f (he_value he) else he_value he)"
  have u: "update_sfe name f ht = ht\<lparr>buckets := map (\<lambda>c. map (by_string.enum_upd v) (filter (\<lambda>he. \<not> False) c)) (buckets ht)\<rparr>"
    by (simp add: update_sfe_def by_string.enum_upd_def [abs_def] v_def)
  note fe = by_string.filter_ents [OF table_inv_htwf [OF inv], of v "\<lambda>he. False", folded u]
  have "hash_inv sftbl_ops c_string (update_sfe name f ht)"
    using inv fe unfolding table_inv_def sftbl_ops_def by_string.hash_inv_iff by (simp add: update_sfe_def)
  moreover have keys: "set (concat (buckets (update_sfe name f ht))) = by_string.enum_upd v ` set (concat (buckets ht))"
    using fe(2) by (simp add: by_string.ents_def del: set_concat)
  ultimately show inv': "table_inv (update_sfe name f ht)"
    using inv by (auto simp: table_inv_def by_string.enum_upd_def simp del: set_concat)
  show "sft_map (update_sfe name f ht) = (\<lambda>a. if a = name then map_option f (sft_map ht a) else sft_map ht a)"
  proof (intro ext option_eqI)
    fix a w
    have "sft_map (update_sfe name f ht) a = Some w \<longleftrightarrow> (\<exists>he\<in>set (concat (buckets ht)). he_key he = a \<and> v he = w)"
      unfolding sft_map_Some [OF inv'] keys by (auto simp: by_string.enum_upd_def simp del: set_concat)
    also have "\<dots> \<longleftrightarrow> (if a = name then map_option f (sft_map ht a) else sft_map ht a) = Some w"
    proof (cases "a = name")
      case True
      have "(\<exists>he\<in>set (concat (buckets ht)). he_key he = name \<and> f (he_value he) = w) \<longleftrightarrow>
          (\<exists>u. sft_map ht name = Some u \<and> f u = w)"
        unfolding sft_map_Some [OF inv] by blast
      then show ?thesis using True unfolding v_def by (cases "sft_map ht name") auto
    next
      case False
      then show ?thesis unfolding if_not_P [OF False] sft_map_Some [OF inv] v_def by auto
    qed
    finally show "sft_map (update_sfe name f ht) a = Some w \<longleftrightarrow>
        (if a = name then map_option f (sft_map ht a) else sft_map ht a) = Some w" .
  qed
qed (simp_all add: update_sfe_def)

lemma sftbl_lookup: "JS_HashTableRawLookup sftbl_ops ht (JS_HashString filename) filename =
    JS_HashTableRawLookup sftbl_ops ht (keyHash sftbl_ops (c_string filename)) (c_string filename)"
  by (simp add: JS_HashTableRawLookup_def sftbl_ops_def string_ops_def js_compare_strings_def JS_HashString_def)

lemma table_inv_map: "table_inv ht \<Longrightarrow> hash_map c_string ht a = Some (k, v) \<Longrightarrow> k = a"
  using by_string.hash_map_Some [OF table_inv_htwf]
  unfolding table_inv_def by_string.ents_def by_string.absk_def by fastforce

lemma table_invI:
  assumes "hash_inv sftbl_ops c_string t" "\<And>a k v. hash_map c_string t a = Some (k, v) \<Longrightarrow> k = a"
  shows "table_inv t"
proof -
  have wt: "by_string.htwf (\<lambda>v1 v2. v1 = v2) (\<lambda>v. False) t"
    using assms(1) by (simp add: sftbl_ops_def by_string.hash_inv_iff)
  have "c_string (he_key he) = he_key he" if "he \<in> set (concat (buckets t))" for he
  proof -
    have "hash_map c_string t (c_string (he_key he)) = Some (he_key he, he_value he)"
      using by_string.hash_map_Some [OF wt] that unfolding by_string.ents_def by_string.absk_def by blast
    then show ?thesis using assms(2) by metis
  qed
  then show ?thesis using assms(1) by (simp add: table_inv_def del: set_concat)
qed

lemma enter_name_correct:
  assumes inv: "table_inv ht" and few: "unat (nentries ht) < 2 ^ 30" and e: "enter_name am ae ht filename = (ht', r)"
  shows "table_inv ht' \<and> (r \<noteq> None \<longrightarrow> r = Some (c_string filename)) \<and> (ae \<and> (\<forall>nb. am nb) \<longrightarrow> r \<noteq> None) \<and>
    freed ht' = freed ht \<and>
    sft_map ht' = (if r = None \<or> sft_map ht (c_string filename) \<noteq> None then sft_map ht
      else (sft_map ht)(c_string filename \<mapsto> \<lparr>sfe_flags = 0, sfe_mark = False\<rparr>)) \<and>
    (sft_map ht (c_string filename) \<noteq> None \<longrightarrow> r \<noteq> None)"
proof -
  define key where "key = c_string filename"
  have hi: "hash_inv sftbl_ops c_string ht" using inv by (simp add: table_inv_def)
  have wf: "by_string.htwf (\<lambda>v1 v2. v1 = v2) (\<lambda>v. False) ht" by (rule table_inv_htwf [OF inv])
  obtain ht1 hep where l: "JS_HashTableRawLookup sftbl_ops ht (keyHash sftbl_ops key) key = (ht1, hep)" by (metis surj_pair)
  have l': "JS_HashTableRawLookup sftbl_ops ht (JS_HashString filename) filename = (ht1, hep)"
    unfolding sftbl_lookup key_def [symmetric] by (rule l)
  note rl = by_string.RawLookup_correct [OF wf l [unfolded sftbl_ops_def]]
    and m = by_string.lookup_map [OF wf l [unfolded sftbl_ops_def]]
  have hash: "JS_HashString filename = keyHash sftbl_ops key"
    by (simp add: sftbl_ops_def string_ops_def key_def JS_HashString_def)
  have ck: "c_string key = key" by (simp add: key_def)
  have keep: "table_inv t" if "hash_inv sftbl_ops c_string t" "hash_map c_string t = hash_map c_string ht" for t
    using table_invI [OF that(1)] table_inv_map [OF inv] unfolding that(2) by blast
  show ?thesis
  proof (cases "deref ht1 hep")
    case (Some he)
    then have r: "ht' = ht1" "r = Some (he_key he)" using e by (simp_all add: enter_name_def l' Let_def)
    have mk: "hash_map c_string ht key = Some (he_key he, he_value he)" using m Some ck by simp
    have s: "hash_inv sftbl_ops c_string ht1 \<and> hash_map c_string ht1 = hash_map c_string ht"
      using by_string.same_table_inv [OF hi [unfolded sftbl_ops_def] rl(1)] by (simp add: sftbl_ops_def)
    have "freed ht1 = freed ht" using rl(1) by (simp add: by_string.same_table_def)
    then show ?thesis
      using r s keep [of ht1] mk table_inv_map [OF inv mk] by (simp add: sft_map_def [abs_def] key_def)
  next
    case None
    define v0 where "v0 = \<lparr>sfe_flags = 0, sfe_mark = False\<rparr>"
    have e': "(case JS_HashTableRawAdd sftbl_ops am ae ht1 hep (keyHash sftbl_ops key) key v0 of
        (table, None) \<Rightarrow> (table, None) | (table, Some he) \<Rightarrow> (table, Some (he_key he))) = (ht', r)"
      using e unfolding enter_name_def Let_def l' case_prod_conv None option.case unfolding hash key_def v0_def .
    obtain r' where a: "JS_HashTableRawAdd sftbl_ops am ae ht1 hep (keyHash sftbl_ops key) key v0 = (ht', r')"
      and r: "r = map_option he_key r'"
      using e' by (auto split: prod.splits option.splits)
    note ra = by_string.RawAdd_correct [OF hi [unfolded sftbl_ops_def] l [unfolded sftbl_ops_def] None few a [unfolded sftbl_ops_def]]
    have mk: "hash_map c_string ht key = None" using m None ck by simp
    have hm: "hash_map c_string ht' = (if r = None then hash_map c_string ht else (hash_map c_string ht)(key \<mapsto> (key, v0)))"
      and hi': "hash_inv sftbl_ops c_string ht'" and fr: "freed ht' = freed ht"
      and rr: "r \<noteq> None \<longrightarrow> r = Some key" "ae \<and> (\<forall>nb. am nb) \<longrightarrow> r \<noteq> None"
      using ra r ck by (auto simp: sftbl_ops_def)
    have "k = a" if "hash_map c_string ht' a = Some (k, v)" for a k v
      using that table_inv_map [OF inv, of a] unfolding hm by (auto split: if_splits)
    then have "table_inv ht'" by (rule table_invI [OF hi'])
    moreover have "sft_map ht key = None" using mk by (simp add: sft_map_def)
    moreover have "sft_map ht' = (if r = None then sft_map ht else (sft_map ht)(key \<mapsto> v0))"
      using hm by (auto simp: sft_map_def [abs_def] fun_eq_iff)
    ultimately show ?thesis using rr fr by (simp add: key_def v0_def)
  qed
qed


lemma sft_card: "table_inv ht \<Longrightarrow> unat (nentries ht) = card (dom (sft_map ht))"
  using by_string.nentries_card [of "\<lambda>v1 v2. v1 = v2" "\<lambda>v. False" ht]
  by (simp add: table_inv_def sftbl_ops_def sft_map_def dom_def)

section \<open>Saving and inheriting\<close>

lemma or_and_absorb: "(a OR b) AND b = b" for a b :: u32
  by (rule bit_word_eqI) (auto simp: bit_and_iff bit_or_iff)

lemma prefix_inv_mono: "prefix_inv ht ps \<Longrightarrow> (\<And>a. sft_map ht a \<noteq> None \<Longrightarrow> sft_map ht' a \<noteq> None) \<Longrightarrow> prefix_inv ht' ps"
  by (auto simp: prefix_inv_def)

lemma strncmp_prefix: "c_string s = s \<Longrightarrow> strncmp_eq s t (length s) \<longleftrightarrow> prefix s (c_string t)"
  unfolding strncmp_eq_def by (metis order_refl take_all take_is_prefix prefix_def append_eq_conv_conj)

lemma find_first:
  "find P xs = Some x \<Longrightarrow> sorted_wrt (\<lambda>p q. f q \<le> (f p :: nat)) xs \<Longrightarrow> y \<in> set xs \<Longrightarrow> P y \<Longrightarrow> f y \<le> f x"
  by (induction xs) (auto split: if_splits)

text \<open>What a name inherits: the flags of a longest prefix of it.\<close>

definition inherited :: "script_prefix list \<Rightarrow> u8 list \<Rightarrow> u32 \<Rightarrow> bool" where
  "inherited ps name fl \<longleftrightarrow>
     (\<exists>sfp\<in>set ps. prefix (sfp_name sfp) name \<and> fl = sfp_flags sfp \<and>
        (\<forall>q\<in>set ps. prefix (sfp_name q) name \<longrightarrow> length (sfp_name q) \<le> length (sfp_name sfp))) \<or>
     (\<forall>q\<in>set ps. \<not> prefix (sfp_name q) name) \<and> fl = 0"

lemma find_inherited:
  assumes "prefix_inv ht ps"
  shows "inherited ps (c_string filename)
    (case find (\<lambda>sfp. strncmp_eq (sfp_name sfp) filename (sfp_length sfp)) ps of None \<Rightarrow> 0 | Some sfp \<Rightarrow> sfp_flags sfp)"
proof -
  let ?P = "\<lambda>sfp. strncmp_eq (sfp_name sfp) filename (sfp_length sfp)"
  have P: "?P q \<longleftrightarrow> prefix (sfp_name q) (c_string filename)" and len: "sfp_length q = length (sfp_name q)" if "q \<in> set ps" for q
    using assms that strncmp_prefix by (simp_all add: prefix_inv_def)
  have sorted: "sorted_wrt (\<lambda>p q. sfp_length q \<le> sfp_length p) ps" using assms by (simp add: prefix_inv_def)
  show ?thesis
  proof (cases "find ?P ps")
    case None
    then have "\<not> prefix (sfp_name q) (c_string filename)" if "q \<in> set ps" for q
      using P [OF that] that unfolding find_None_iff by blast
    then show ?thesis unfolding None option.case inherited_def by blast
  next
    case (Some sfp)
    have s: "sfp \<in> set ps" "?P sfp" using find_in_list [OF Some] by blast+
    have "length (sfp_name q) \<le> length (sfp_name sfp)" if "q \<in> set ps" "prefix (sfp_name q) (c_string filename)" for q
      using find_first [OF Some sorted that(1)] P [OF that(1)] that len s(1) by simp
    moreover have "prefix (sfp_name sfp) (c_string filename)" using s P [OF s(1)] by blast
    ultimately show ?thesis unfolding Some option.case inherited_def using s(1) by blast
  qed
qed

lemma SaveScriptFilename_plain:
  "scriptFilenameTable rt = Some ht \<Longrightarrow> SaveScriptFilename am ae ap rt filename 0 =
     (case enter_name am ae ht filename of (t, r) \<Rightarrow> Some (rt\<lparr>scriptFilenameTable := Some t\<rparr>, r))"
  by (auto simp: SaveScriptFilename_def Let_def split: prod.splits option.splits)

text \<open>
  saving a name gives the one copy of it, whose entry keeps its flags and mark, or starts
  with none, and adds the flags of a longest prefix of the name; no other entry changes, and
  without memory nothing does.
\<close>

theorem script_name_inherits_flags:
  assumes "scriptFilenameTable rt = Some ht" and "table_inv ht" and "prefix_inv ht (scriptFilenamePrefixes rt)"
    and "unat (nentries ht) < 2 ^ 30"
  shows "\<exists>rt' ht' r fl. js_SaveScriptFilename am ae rt filename = Some (rt', r) \<and>
    scriptFilenameTable rt' = Some ht' \<and> scriptFilenamePrefixes rt' = scriptFilenamePrefixes rt \<and>
    table_inv ht' \<and> prefix_inv ht' (scriptFilenamePrefixes rt) \<and> freed ht' = freed ht \<and>
    inherited (scriptFilenamePrefixes rt) (c_string filename) fl \<and>
    (case r of
       None \<Rightarrow> sft_map ht' = sft_map ht \<and> \<not> (ae \<and> (\<forall>nb. am nb))
     | Some name \<Rightarrow> name = c_string filename \<and>
         sft_map ht' = (sft_map ht)(name \<mapsto>
           (case sft_map ht name of None \<Rightarrow> \<lparr>sfe_flags = fl, sfe_mark = False\<rparr>
            | Some v \<Rightarrow> v\<lparr>sfe_flags := sfe_flags v OR fl\<rparr>)))"
proof -
  define ps where "ps = scriptFilenamePrefixes rt"
  define name where "name = c_string filename"
  obtain t r where e: "enter_name am ae ht filename = (t, r)" by (metis surj_pair)
  note en = enter_name_correct [OF assms(2,4) e, folded name_def]
  define found where "found = find (\<lambda>sfp. strncmp_eq (sfp_name sfp) filename (sfp_length sfp)) ps"
  define fl where "fl = (case found of None \<Rightarrow> 0 | Some sfp \<Rightarrow> sfp_flags sfp)"
  have inh: "inherited ps name fl"
    using find_inherited [OF assms(3), of filename] by (simp add: fl_def found_def name_def ps_def)
  have save: "SaveScriptFilename am ae False rt filename 0 = Some (rt\<lparr>scriptFilenameTable := Some t\<rparr>, r)"
    using SaveScriptFilename_plain [OF assms(1)] e by simp
  show ?thesis
  proof (cases r)
    case None
    have "js_SaveScriptFilename am ae rt filename = Some (rt\<lparr>scriptFilenameTable := Some t\<rparr>, None)"
      by (simp add: js_SaveScriptFilename_def save None)
    moreover have "prefix_inv t ps"
      by (rule prefix_inv_mono [OF assms(3) [folded ps_def]]) (use en None in auto)
    ultimately show ?thesis using en None inh by (auto simp: ps_def name_def)
  next
    case (Some n)
    have n: "n = name" using en Some by simp
    define t' where "t' = (case found of None \<Rightarrow> t | Some sfp \<Rightarrow> update_sfe name (\<lambda>v. v\<lparr>sfe_flags := sfe_flags v OR sfp_flags sfp\<rparr>) t)"
    define rt' where "rt' = rt\<lparr>scriptFilenameTable := Some t'\<rparr>"
    have js: "js_SaveScriptFilename am ae rt filename = Some (rt', Some name)"
      by (cases found) (simp_all add: js_SaveScriptFilename_def save Some n found_def [symmetric, unfolded ps_def] ps_def rt'_def t'_def)
    have sm: "sft_map t name = (case sft_map ht name of None \<Rightarrow> Some \<lparr>sfe_flags = 0, sfe_mark = False\<rparr> | Some v \<Rightarrow> Some v)"
      "\<And>a. a \<noteq> name \<Longrightarrow> sft_map t a = sft_map ht a"
      using en Some by (auto split: option.splits)
    have t': "table_inv t'" "freed t' = freed ht"
      "sft_map t' = (\<lambda>a. if a = name then map_option (\<lambda>v. v\<lparr>sfe_flags := sfe_flags v OR fl\<rparr>) (sft_map t a) else sft_map t a)"
    proof -
      show "table_inv t'" "freed t' = freed ht"
        using en update_sfe_correct(1,4) by (cases found; simp add: t'_def)+
      show "sft_map t' = (\<lambda>a. if a = name then map_option (\<lambda>v. v\<lparr>sfe_flags := sfe_flags v OR fl\<rparr>) (sft_map t a) else sft_map t a)"
        using en update_sfe_correct(2) by (cases found) (auto simp: t'_def fl_def option.map_ident fun_eq_iff)
    qed
    have "sft_map t' = (sft_map ht)(name \<mapsto>
        (case sft_map ht name of None \<Rightarrow> \<lparr>sfe_flags = fl, sfe_mark = False\<rparr> | Some v \<Rightarrow> v\<lparr>sfe_flags := sfe_flags v OR fl\<rparr>))"
      unfolding t'(3) using sm by (auto split: option.splits)
    moreover have "prefix_inv t' ps"
      by (rule prefix_inv_mono [OF assms(3) [folded ps_def]]) (use calculation in auto)
    ultimately show ?thesis using js t' inh n
      by (intro exI [of _ rt'] exI [of _ t'] exI [of _ "Some name"] exI [of _ fl]) (simp add: rt'_def ps_def name_def)
  qed
qed


lemma new_sft: "\<exists>ht. JS_NewHashTable 16 (\<lambda>_. True) = Some ht \<and> table_inv ht \<and> sft_map ht = Map.empty \<and> unat (nentries ht) = 0"
proof -
  obtain ht where ht: "JS_NewHashTable 16 (\<lambda>_. True) = Some ht" "hash_inv sftbl_ops c_string ht"
    "hash_map c_string ht = (Map.empty :: u8 list \<Rightarrow> (u8 list \<times> sfe_data) option)" "unat (nentries ht) = 0"
    using new_string_table unfolding sftbl_ops_def by blast
  have "table_inv ht" using ht(1,2) by (auto simp: table_inv_def JS_NewHashTable_def Let_def split: if_splits)
  then show ?thesis using ht by (auto simp: sft_map_def)
qed

theorem script_name_inherits_flags_witness:
  "\<exists>ht rt'. JS_NewHashTable 16 (\<lambda>_. True) = Some ht \<and>
     js_SaveScriptFilename (\<lambda>_. True) True \<lparr>scriptFilenameTable = Some ht, scriptFilenamePrefixes = []\<rparr> [0x61, 0x62] =
       Some (rt', Some [0x61, 0x62])"
proof -
  obtain ht where ht: "JS_NewHashTable 16 (\<lambda>_. True) = Some ht" "table_inv ht" "unat (nentries ht) = 0"
    using new_sft by blast
  define rt where "rt = \<lparr>scriptFilenameTable = Some ht, scriptFilenamePrefixes = []\<rparr>"
  have rt: "scriptFilenameTable rt = Some ht" "prefix_inv ht (scriptFilenamePrefixes rt)" by (simp_all add: rt_def prefix_inv_def)
  have "c_string [0x61, 0x62] = [0x61, 0x62]" by (simp add: c_string_def)
  then show ?thesis
    using script_name_inherits_flags [OF rt(1) ht(2) rt(2), of "\<lambda>_. True" True "[0x61, 0x62]"] ht(1,3)
    by (auto simp: rt_def split: option.splits)
qed

text \<open>Where a new prefix is linked, and that the list stays in order.\<close>

lemma search_prefixes_Found: "search_prefixes f len i ps = Found j \<Longrightarrow>
    i \<le> j \<and> j - i < length ps \<and> c_string (sfp_name (ps ! (j - i))) = c_string f"
  by (induction f len i ps rule: search_prefixes.induct) (auto split: if_splits simp: Suc_diff_le le_Suc_eq)

lemma search_prefixes_Link: "search_prefixes f len i ps = Link_at j \<Longrightarrow>
    i \<le> j \<and> j - i \<le> length ps \<and> (\<forall>p\<in>set (take (j - i) ps). len < sfp_length p) \<and>
    (j - i < length ps \<longrightarrow> sfp_length (ps ! (j - i)) \<le> len)"
proof (induction f len i ps rule: search_prefixes.induct)
  case (2 f len i p ps)
  show ?case
  proof (cases "c_string (sfp_name p) \<noteq> c_string f \<and> \<not> sfp_length p \<le> len")
    case True
    then have "search_prefixes f len (Suc i) ps = Link_at j" using 2 by simp
    then have ih: "Suc i \<le> j" "j - Suc i \<le> length ps" "\<forall>p\<in>set (take (j - Suc i) ps). len < sfp_length p"
      "j - Suc i < length ps \<longrightarrow> sfp_length (ps ! (j - Suc i)) \<le> len" using 2 True by auto
    then have "j - i = Suc (j - Suc i)" by simp
    then show ?thesis using ih True by auto
  next
    case False
    then show ?thesis using 2 by (auto split: if_splits)
  qed
qed simp

lemma sorted_insert:
  assumes "sorted_wrt (\<lambda>p q. sfp_length q \<le> sfp_length p) ps" "j \<le> length ps"
    and "\<forall>p\<in>set (take j ps). sfp_length x \<le> sfp_length p" "j < length ps \<longrightarrow> sfp_length (ps ! j) \<le> sfp_length x"
  shows "sorted_wrt (\<lambda>p q. sfp_length q \<le> sfp_length p) (take j ps @ x # drop j ps)"
proof -
  let ?R = "\<lambda>p q. sfp_length q \<le> sfp_length p"
  have ps: "sorted_wrt ?R (take j ps @ drop j ps)" using assms(1) by simp
  have "\<forall>q\<in>set (drop j ps). sfp_length q \<le> sfp_length x"
  proof (cases "j < length ps")
    case True
    then have d: "drop j ps = ps ! j # drop (Suc j) ps" by (simp add: Cons_nth_drop_Suc)
    have "sorted_wrt ?R (drop j ps)" using ps by (simp only: sorted_wrt_append)
    then have "\<forall>q\<in>set (drop (Suc j) ps). sfp_length q \<le> sfp_length (ps ! j)" unfolding d by simp
    then show ?thesis using assms(4) True unfolding d by auto
  qed simp
  then show ?thesis using ps assms(3) unfolding sorted_wrt_append by auto
qed

lemma sorted_flags: "sorted_wrt (\<lambda>p q. sfp_length q \<le> sfp_length p) ps \<Longrightarrow> j < length ps \<Longrightarrow>
    sorted_wrt (\<lambda>p q. sfp_length q \<le> sfp_length p) (ps[j := (ps ! j)\<lparr>sfp_flags := w\<rparr>])"
  unfolding sorted_wrt_iff_nth_less by (auto simp: nth_list_update)

lemma prefix_inv_flags: "prefix_inv ht ps \<Longrightarrow> j < length ps \<Longrightarrow> prefix_inv ht (ps[j := (ps ! j)\<lparr>sfp_flags := w\<rparr>])"
  unfolding prefix_inv_def using sorted_flags [of ps j w]
  by (auto dest!: set_update_subset_insert [THEN subsetD] simp: nth_mem)

lemma prefix_inv_insert:
  assumes "prefix_inv ht ps" "search_prefixes f (length (c_string f)) 0 ps = Link_at j" "sft_map ht (c_string f) \<noteq> None"
  shows "prefix_inv ht (take j ps @ \<lparr>sfp_name = c_string f, sfp_length = length (c_string f), sfp_flags = 0\<rparr> # drop j ps)"
proof -
  note l = search_prefixes_Link [OF assms(2)]
  have "sorted_wrt (\<lambda>p q. sfp_length q \<le> sfp_length p)
      (take j ps @ \<lparr>sfp_name = c_string f, sfp_length = length (c_string f), sfp_flags = 0\<rparr> # drop j ps)"
    using assms(1) l by (intro sorted_insert) (auto simp: prefix_inv_def intro: less_imp_le)
  then show ?thesis using assms(1,3) by (auto simp: prefix_inv_def dest: in_set_takeD in_set_dropD)
qed

text \<open>The runtime's table and prefix list, before the first call or after it.\<close>

definition names_inv :: "script_runtime \<Rightarrow> bool" where
  "names_inv rt \<longleftrightarrow> (case scriptFilenameTable rt of None \<Rightarrow> scriptFilenamePrefixes rt = []
     | Some ht \<Rightarrow> table_inv ht \<and> prefix_inv ht (scriptFilenamePrefixes rt) \<and> unat (nentries ht) < 2 ^ 30)"

text \<open>What saving a name may give: no table and no entry, or a consistent one with the flags asked for.\<close>

definition saved_well :: "u8 list \<Rightarrow> u32 \<Rightarrow> (script_runtime \<times> u8 list option) option \<Rightarrow> bool" where
  "saved_well filename flags x \<longleftrightarrow> (\<exists>rt' r. x = Some (rt', r) \<and>
     (case scriptFilenameTable rt' of None \<Rightarrow> r = None
      | Some ht' \<Rightarrow> table_inv ht' \<and> prefix_inv ht' (scriptFilenamePrefixes rt') \<and>
          (r \<noteq> None \<longrightarrow> r = Some (c_string filename) \<and>
            (\<exists>v. sft_map ht' (c_string filename) = Some v \<and> sfe_flags v AND flags = flags))))"

lemma runtime_started:
  assumes "names_inv rt"
  obtains (failed) rt1 where "js_SaveScriptFilenameRT (\<lambda>nb. mem) ae ap rt filename flags = Some (rt1, None)"
      "scriptFilenameTable rt1 = None"
  | (started) rt1 ht where "js_SaveScriptFilenameRT (\<lambda>nb. mem) ae ap rt filename flags =
        SaveScriptFilename (\<lambda>nb. mem) ae ap rt1 filename flags"
      "scriptFilenameTable rt1 = Some ht" "table_inv ht" "prefix_inv ht (scriptFilenamePrefixes rt1)" "unat (nentries ht) < 2 ^ 30"
proof (cases "scriptFilenameTable rt")
  case None
  show ?thesis
  proof (cases mem)
    case True
    obtain ht where ht: "JS_NewHashTable 16 (\<lambda>_. True) = Some ht" "table_inv ht" "unat (nentries ht) = 0"
      using new_sft by blast
    then show ?thesis using started [of "rt\<lparr>scriptFilenameTable := Some ht, scriptFilenamePrefixes := []\<rparr>" ht] None True
      by (simp add: js_SaveScriptFilenameRT_def js_InitRuntimeScriptState_def prefix_inv_def)
  next
    case False
    then have "JS_NewHashTable 16 (\<lambda>nb. mem) = (None :: (u8 list, sfe_data) hash_table option)"
      by (simp add: JS_NewHashTable_def Let_def)
    then show ?thesis using failed [of "rt\<lparr>scriptFilenameTable := None\<rparr>"] None False
      by (simp add: js_SaveScriptFilenameRT_def js_InitRuntimeScriptState_def)
  qed
next
  case (Some ht)
  then show ?thesis using started [of rt ht] assms by (simp add: js_SaveScriptFilenameRT_def names_inv_def)
qed

lemma accumulated_well:
  assumes "prefix_inv t qs" "i < length qs" "table_inv t" "sft_map t (c_string filename) \<noteq> None"
  shows "saved_well filename flags
    (Some (accumulate_flags (rt\<lparr>scriptFilenameTable := Some t\<rparr>) (c_string filename) flags i qs, Some (c_string filename)))"
proof -
  define upd where "upd = update_sfe (c_string filename) (\<lambda>v. v\<lparr>sfe_flags := sfe_flags v OR flags\<rparr>) t"
  have upd: "table_inv upd" "\<And>a. sft_map upd a \<noteq> None \<longleftrightarrow> sft_map t a \<noteq> None"
    "\<exists>v. sft_map upd (c_string filename) = Some v \<and> sfe_flags v AND flags = flags"
    using update_sfe_correct(1,2) [of t "c_string filename" "\<lambda>v. v\<lparr>sfe_flags := sfe_flags v OR flags\<rparr>"] assms(3,4)
    by (auto simp: upd_def or_and_absorb)
  then show ?thesis using prefix_inv_flags [OF prefix_inv_mono [OF assms(1)] assms(2)]
    by (simp add: saved_well_def accumulate_flags_def upd_def)
qed

lemma saved_with_flags:
  assumes e: "enter_name am ae ht filename = (t, Some (c_string filename))" "scriptFilenameTable rt = Some ht" "flags \<noteq> 0"
    and t: "prefix_inv t (scriptFilenamePrefixes rt)" "table_inv t" "sft_map t (c_string filename) \<noteq> None"
  shows "saved_well filename flags (SaveScriptFilename am ae ap rt filename flags)"
proof -
  define name rt2 where "name = c_string filename" and "rt2 = rt\<lparr>scriptFilenameTable := Some t\<rparr>"
  have eq: "SaveScriptFilename am ae ap rt filename flags = Some (
      case search_prefixes filename (length name) 0 (scriptFilenamePrefixes rt) of
        Found i \<Rightarrow> (accumulate_flags rt2 name flags i (scriptFilenamePrefixes rt), Some name)
      | Link_at i \<Rightarrow> if \<not> ap then (rt2, None)
          else (accumulate_flags rt2 name flags i (take i (scriptFilenamePrefixes rt)
                  @ \<lparr>sfp_name = name, sfp_length = length name, sfp_flags = 0\<rparr> # drop i (scriptFilenamePrefixes rt)), Some name))"
    using assms(3) by (simp add: SaveScriptFilename_def e Let_def name_def [symmetric] rt2_def split: prefix_pos.split)
  show ?thesis
  proof (cases "search_prefixes filename (length name) 0 (scriptFilenamePrefixes rt)")
    case (Found i)
    then show ?thesis
      using accumulated_well [OF t(1) _ t(2,3)] search_prefixes_Found [OF Found] eq by (simp add: name_def rt2_def)
  next
    case (Link_at i)
    define qs where "qs = take i (scriptFilenamePrefixes rt)
      @ \<lparr>sfp_name = name, sfp_length = length name, sfp_flags = 0\<rparr> # drop i (scriptFilenamePrefixes rt)"
    have "prefix_inv t qs"
      unfolding qs_def name_def by (rule prefix_inv_insert [OF t(1)]) (use Link_at t(3) in \<open>simp_all add: name_def\<close>)
    moreover have "i < length qs" using search_prefixes_Link [OF Link_at] by (simp add: qs_def)
    ultimately have "saved_well filename flags (Some (accumulate_flags rt2 name flags i qs, Some name))"
      unfolding name_def rt2_def by (rule accumulated_well [OF _ _ t(2,3)])
    moreover have "saved_well filename flags (Some (rt2, None))" using t by (simp add: saved_well_def rt2_def)
    ultimately show ?thesis unfolding eq Link_at prefix_pos.case qs_def [symmetric] by simp
  qed
qed

text \<open>
  C22: the runtime's names stay consistent when a name is saved with or without flags, from the
  first call on and whatever allocation fails: every prefix is the name of a saved entry, and
  longer prefixes come before shorter ones.
\<close>

theorem script_names_invariant:
  assumes "case scriptFilenameTable rt of None \<Rightarrow> scriptFilenamePrefixes rt = []
           | Some ht \<Rightarrow> table_inv ht \<and> prefix_inv ht (scriptFilenamePrefixes rt) \<and> unat (nentries ht) < 2 ^ 30"
  shows "\<exists>rt' r. js_SaveScriptFilenameRT (\<lambda>nb. mem) ae ap rt filename flags = Some (rt', r) \<and>
    (case scriptFilenameTable rt' of None \<Rightarrow> r = None
     | Some ht' \<Rightarrow> table_inv ht' \<and> prefix_inv ht' (scriptFilenamePrefixes rt') \<and>
         (r \<noteq> None \<longrightarrow> r = Some (c_string filename) \<and>
           (\<exists>v. sft_map ht' (c_string filename) = Some v \<and> sfe_flags v AND flags = flags)))"
proof -
  have "names_inv rt" using assms by (simp add: names_inv_def)
  then have "saved_well filename flags (js_SaveScriptFilenameRT (\<lambda>nb. mem) ae ap rt filename flags)"
  proof (cases rule: runtime_started [where mem = mem and ae = ae and ap = ap and filename = filename and flags = flags])
    case (failed rt1)
    then show ?thesis by (simp add: saved_well_def)
  next
    case (started rt1 ht)
    obtain t r where e: "enter_name (\<lambda>nb. mem) ae ht filename = (t, r)" by (metis surj_pair)
    note en = enter_name_correct [OF started(3,5) e]
    have "sft_map t a \<noteq> None" if "sft_map ht a \<noteq> None" for a using en that by auto
    then have pt: "prefix_inv t (scriptFilenamePrefixes rt1)" using prefix_inv_mono started(4) by blast
    show ?thesis
    proof (cases "r = None \<or> flags = 0")
      case True
      have "SaveScriptFilename (\<lambda>nb. mem) ae ap rt1 filename flags = Some (rt1\<lparr>scriptFilenameTable := Some t\<rparr>, r)"
        using True by (cases r) (auto simp: SaveScriptFilename_def started(2) e Let_def)
      then show ?thesis using started(1) en pt True by (auto simp: saved_well_def)
    next
      case False
      then have r: "r = Some (c_string filename)" and "flags \<noteq> 0" using en by auto
      moreover have "sft_map t (c_string filename) \<noteq> None" using en r by auto
      moreover have "table_inv t" using en by blast
      ultimately show ?thesis unfolding started(1) using saved_with_flags [OF e [unfolded r] started(2) _ pt] by blast
    qed
  qed
  then show ?thesis unfolding saved_well_def .
qed

theorem script_names_invariant_witness:
  "\<exists>rt' r. js_SaveScriptFilenameRT (\<lambda>nb. True) True True \<lparr>scriptFilenameTable = None, scriptFilenamePrefixes = []\<rparr> [0x61] 4 =
     Some (rt', r)"
  using script_names_invariant [of "\<lparr>scriptFilenameTable = None, scriptFilenamePrefixes = []\<rparr>" True True True "[0x61]" 4]
  by auto

text \<open>
  \<open>SaveScriptFilename\<close> is not idempotent, as its comment demands: the search stops at the
  first prefix that is not longer, so a prefix behind another of the same length is not found, and
  a second one of the same name is linked in front of it, with the new flags alone.
\<close>

theorem script_prefix_duplicated:
  assumes "scriptFilenameTable rt = Some ht" "table_inv ht" "unat (nentries ht) < 2 ^ 30"
    and "prefix_inv ht (sfp2 # sfp1 # sfps)" "scriptFilenamePrefixes rt = sfp2 # sfp1 # sfps"
    and "sfp_name sfp1 = c_string filename" "sfp_name sfp2 \<noteq> sfp_name sfp1" "sfp_length sfp2 = sfp_length sfp1"
    and "flags \<noteq> 0"
  shows "\<exists>rt'. SaveScriptFilename am ae True rt filename flags = Some (rt', Some (c_string filename)) \<and>
    scriptFilenamePrefixes rt' =
      \<lparr>sfp_name = sfp_name sfp1, sfp_length = sfp_length sfp1, sfp_flags = flags\<rparr> # sfp2 # sfp1 # sfps"
proof -
  have p: "c_string (sfp_name sfp2) = sfp_name sfp2" "sfp_length sfp1 = length (sfp_name sfp1)"
    "sft_map ht (c_string filename) \<noteq> None"
    using assms(4,6) by (auto simp: prefix_inv_def)
  obtain t r where e: "enter_name am ae ht filename = (t, r)" by (metis surj_pair)
  have r: "r = Some (c_string filename)" using enter_name_correct [OF assms(2,3) e] p(3) by auto
  have "search_prefixes filename (length (c_string filename)) 0 (sfp2 # sfp1 # sfps) = Link_at 0"
    using assms(6-8) p by simp
  then show ?thesis
    using assms(5-9) p(2) by (simp add: SaveScriptFilename_def accumulate_flags_def assms(1) e r Let_def)
qed

theorem script_prefix_duplicated_witness:
  "\<exists>rt rt'. map sfp_name (scriptFilenamePrefixes rt) = [[0x62], [0x61]] \<and>
     SaveScriptFilename (\<lambda>_. True) True True rt [0x61] 2 = Some (rt', Some [0x61]) \<and>
     map sfp_name (scriptFilenamePrefixes rt') = [[0x61], [0x62], [0x61]]"
proof -
  have c: "c_string [0x61] = [0x61]" "c_string [0x62] = [0x62]" by (simp_all add: c_string_def)
  obtain ht0 where ht0: "table_inv ht0" "unat (nentries ht0) = 0" "sft_map ht0 = Map.empty" using new_sft by blast
  obtain ht1 r1 where e1: "enter_name (\<lambda>_. True) True ht0 [0x61] = (ht1, r1)" by (metis surj_pair)
  have n1: "table_inv ht1" "sft_map ht1 [0x61] \<noteq> None"
    using enter_name_correct [OF ht0(1) _ e1] ht0(2) c by (auto split: if_splits)
  have d1: "dom (sft_map ht1) \<subseteq> {[0x61]}"
    using enter_name_correct [OF ht0(1) _ e1] ht0(2,3) c by (auto split: if_splits)
  have few1: "unat (nentries ht1) < 2 ^ 30" using sft_card [OF n1(1)] card_mono [OF _ d1] by simp
  obtain ht2 r2 where e2: "enter_name (\<lambda>_. True) True ht1 [0x62] = (ht2, r2)" by (metis surj_pair)
  have n2: "table_inv ht2" "sft_map ht2 [0x61] \<noteq> None" "sft_map ht2 [0x62] \<noteq> None" "dom (sft_map ht2) \<subseteq> {[0x61], [0x62]}"
    using enter_name_correct [OF n1(1) few1 e2] n1(2) d1 c by (auto split: if_splits)
  have few2: "unat (nentries ht2) < 2 ^ 30" using sft_card [OF n2(1)] card_mono [OF _ n2(4)] by simp
  define p1 p2 where "p1 = \<lparr>sfp_name = [0x61 :: u8], sfp_length = 1, sfp_flags = 1\<rparr>"
    and "p2 = \<lparr>sfp_name = [0x62 :: u8], sfp_length = 1, sfp_flags = 1\<rparr>"
  define rt where "rt = \<lparr>scriptFilenameTable = Some ht2, scriptFilenamePrefixes = [p2, p1]\<rparr>"
  have "prefix_inv ht2 [p2, p1]" using n2 c by (simp add: prefix_inv_def p1_def p2_def)
  from script_prefix_duplicated [OF _ n2(1) few2 this, of rt "[0x61]" 2 "\<lambda>_. True" True] c
  obtain rt' where "SaveScriptFilename (\<lambda>_. True) True True rt [0x61] 2 = Some (rt', Some [0x61])"
    "map sfp_name (scriptFilenamePrefixes rt') = [[0x61], [0x62], [0x61]]"
    by (auto simp: rt_def p1_def p2_def)
  moreover have "map sfp_name (scriptFilenamePrefixes rt) = [[0x62], [0x61]]" by (simp add: rt_def p1_def p2_def)
  ultimately show ?thesis by (intro exI [of _ rt] exI [of _ rt'] conjI)
qed


section \<open>Marking and sweeping\<close>

lemma enumerate_names:
  assumes inv: "table_inv ht"
    and g: "\<And>v. g v AND HT_ENUMERATE_STOP = 0"
    "\<And>v. g v AND (HT_ENUMERATE_REMOVE OR HT_ENUMERATE_UNHASH) \<noteq> 0 \<longleftrightarrow> rem v"
    "\<And>v. g v AND HT_ENUMERATE_REMOVE \<noteq> 0 \<longleftrightarrow> rem v"
    and e: "JS_HashTableEnumerateEntries sftbl_ops am (\<lambda>he i s. (g (he_value he), upd (he_value he), s)) ht s = (ht', n, s')"
  shows "table_inv ht'"
    and "sft_map ht' = (\<lambda>a. case sft_map ht a of None \<Rightarrow> None | Some v \<Rightarrow> if rem v then None else Some (upd v))"
    and "length (freed ht') + unat (nentries ht') = length (freed ht) + unat (nentries ht)"
proof -
  have hi: "hash_inv (string_ops (\<lambda>v1 v2. v1 = v2) (\<lambda>v. False)) c_string ht"
    using inv by (simp add: table_inv_def sftbl_ops_def)
  note en = by_string.enumerate_correct [OF hi, of "\<lambda>he. g (he_value he)" "\<lambda>he. rem (he_value he)" am
      "\<lambda>he. upd (he_value he)" s ht' n s', OF g e [unfolded sftbl_ops_def]]
  have m: "hash_map c_string ht' a = (case hash_map c_string ht a of None \<Rightarrow> None
      | Some (k, v) \<Rightarrow> if rem v then None else Some (k, upd v))" for a
    using en(4) [of a] by (auto simp: Let_def split: option.splits)
  show "table_inv ht'"
  proof (rule table_invI)
    show "hash_inv sftbl_ops c_string ht'" using en(1) by (simp add: sftbl_ops_def)
    show "k = a" if "hash_map c_string ht' a = Some (k, v)" for a k v
      using that table_inv_map [OF inv, of a] unfolding m by (auto split: option.splits if_splits)
  qed
  show "sft_map ht' = (\<lambda>a. case sft_map ht a of None \<Rightarrow> None | Some v \<Rightarrow> if rem v then None else Some (upd v))"
    unfolding sft_map_def m by (auto simp: fun_eq_iff split: option.splits)
  show "length (freed ht') + unat (nentries ht') = length (freed ht) + unat (nentries ht)" by (rule en(5))
qed

lemma flag_bits:
  "HT_ENUMERATE_NEXT AND HT_ENUMERATE_STOP = 0" "HT_ENUMERATE_REMOVE AND HT_ENUMERATE_STOP = 0"
  "HT_ENUMERATE_NEXT AND (HT_ENUMERATE_REMOVE OR HT_ENUMERATE_UNHASH) = 0"
  "HT_ENUMERATE_REMOVE AND (HT_ENUMERATE_REMOVE OR HT_ENUMERATE_UNHASH) \<noteq> 0"
  "HT_ENUMERATE_NEXT AND HT_ENUMERATE_REMOVE = 0" "HT_ENUMERATE_REMOVE AND HT_ENUMERATE_REMOVE \<noteq> 0"
  by code_simp+

lemma mark_all_correct:
  assumes inv: "table_inv ht"
    and e: "JS_HashTableEnumerateEntries sftbl_ops am js_script_filename_marker ht () = (ht', n, s')"
  shows "table_inv ht'" and "sft_map ht' = (\<lambda>a. map_option (\<lambda>v. v\<lparr>sfe_mark := True\<rparr>) (sft_map ht a))"
proof -
  note en = enumerate_names [OF inv, where g = "\<lambda>v. HT_ENUMERATE_NEXT" and rem = "\<lambda>v. False" and upd = "\<lambda>v. v\<lparr>sfe_mark := True\<rparr>"
      and am = am and s = "()" and ht' = ht' and n = n and s' = s']
  show "table_inv ht'" by (rule en(1)) (use e flag_bits in \<open>simp_all add: js_script_filename_marker_def\<close>)
  have "sft_map ht' = (\<lambda>a. case sft_map ht a of None \<Rightarrow> None | Some v \<Rightarrow> if False then None else Some (v\<lparr>sfe_mark := True\<rparr>))"
    by (rule en(2)) (use e flag_bits in \<open>simp_all add: js_script_filename_marker_def\<close>)
  then show "sft_map ht' = (\<lambda>a. map_option (\<lambda>v. v\<lparr>sfe_mark := True\<rparr>) (sft_map ht a))"
    by (auto simp: fun_eq_iff split: option.splits)
qed

lemma sweep_correct:
  assumes inv: "table_inv ht"
  shows "table_inv (js_SweepScriptFilenames am ht)"
    and "sft_map (js_SweepScriptFilenames am ht) =
      (\<lambda>a. case sft_map ht a of None \<Rightarrow> None | Some v \<Rightarrow> if sfe_mark v then Some (v\<lparr>sfe_mark := False\<rparr>) else None)"
    and "length (freed (js_SweepScriptFilenames am ht)) + unat (nentries (js_SweepScriptFilenames am ht)) =
      length (freed ht) + unat (nentries ht)"
proof -
  obtain ht' n s' where e: "JS_HashTableEnumerateEntries sftbl_ops am js_script_filename_sweeper ht () = (ht', n, s')"
    by (metis surj_pair)
  have ht': "js_SweepScriptFilenames am ht = ht'" by (simp add: js_SweepScriptFilenames_def e)
  let ?g = "\<lambda>v. if \<not> sfe_mark v then HT_ENUMERATE_REMOVE else HT_ENUMERATE_NEXT"
  let ?upd = "\<lambda>v. if \<not> sfe_mark v then v else v\<lparr>sfe_mark := False\<rparr>"
  have g: "?g v AND HT_ENUMERATE_STOP = 0"
    "?g v AND (HT_ENUMERATE_REMOVE OR HT_ENUMERATE_UNHASH) \<noteq> 0 \<longleftrightarrow> \<not> sfe_mark v"
    "?g v AND HT_ENUMERATE_REMOVE \<noteq> 0 \<longleftrightarrow> \<not> sfe_mark v" for v
    using flag_bits by simp_all
  have e': "JS_HashTableEnumerateEntries sftbl_ops am (\<lambda>he i s. (?g (he_value he), ?upd (he_value he), s)) ht () = (ht', n, s')"
    using e by (simp add: js_script_filename_sweeper_def)
  note en = enumerate_names [OF inv g e']
  show "table_inv (js_SweepScriptFilenames am ht)" unfolding ht' by (rule en(1))
  show "sft_map (js_SweepScriptFilenames am ht) =
      (\<lambda>a. case sft_map ht a of None \<Rightarrow> None | Some v \<Rightarrow> if sfe_mark v then Some (v\<lparr>sfe_mark := False\<rparr>) else None)"
    unfolding ht' en(2) by (auto simp: fun_eq_iff split: option.splits)
  show "length (freed (js_SweepScriptFilenames am ht)) + unat (nentries (js_SweepScriptFilenames am ht)) =
      length (freed ht) + unat (nentries ht)"
    unfolding ht' by (rule en(3))
qed

lemma mark_prefixes_correct:
  "table_inv ht \<Longrightarrow> table_inv (fold (\<lambda>sfp. js_MarkScriptFilename (sfp_name sfp)) ps ht) \<and>
     sft_map (fold (\<lambda>sfp. js_MarkScriptFilename (sfp_name sfp)) ps ht) =
       (\<lambda>a. if a \<in> sfp_name ` set ps then map_option (\<lambda>v. v\<lparr>sfe_mark := True\<rparr>) (sft_map ht a) else sft_map ht a) \<and>
     nentries (fold (\<lambda>sfp. js_MarkScriptFilename (sfp_name sfp)) ps ht) = nentries ht \<and>
     freed (fold (\<lambda>sfp. js_MarkScriptFilename (sfp_name sfp)) ps ht) = freed ht"
proof (induction ps arbitrary: ht)
  case (Cons p ps)
  have u: "table_inv (js_MarkScriptFilename (sfp_name p) ht)"
    "sft_map (js_MarkScriptFilename (sfp_name p) ht) =
      (\<lambda>a. if a = sfp_name p then map_option (\<lambda>v. v\<lparr>sfe_mark := True\<rparr>) (sft_map ht a) else sft_map ht a)"
    "nentries (js_MarkScriptFilename (sfp_name p) ht) = nentries ht"
    "freed (js_MarkScriptFilename (sfp_name p) ht) = freed ht"
    unfolding js_MarkScriptFilename_def by (rule update_sfe_correct [OF Cons.prems])+
  from Cons.IH [OF u(1)] u show ?case by (auto simp: fun_eq_iff option.map_comp comp_def)
qed simp

text \<open>
  a collection keeps the names that were marked, those of the prefixes, and, when atoms are
  kept, all; the others are freed. It clears the marks, and no prefix is left without its entry.
\<close>

theorem script_names_collected:
  assumes "table_inv ht" and "prefix_inv ht ps"
  shows "let ht' = js_SweepScriptFilenames am (js_MarkScriptFilenames am gcflags ps ht) in
    table_inv ht' \<and> prefix_inv ht' ps \<and>
    (\<forall>name. sft_map ht' name = (case sft_map ht name of None \<Rightarrow> None
       | Some v \<Rightarrow> if sfe_mark v \<or> gcflags AND GC_KEEP_ATOMS \<noteq> 0 \<or> name \<in> sfp_name ` set ps
                   then Some (v\<lparr>sfe_mark := False\<rparr>) else None))"
proof -
  define ht' where "ht' = js_SweepScriptFilenames am (js_MarkScriptFilenames am gcflags ps ht)"
  define ht1 where "ht1 = (if gcflags AND GC_KEEP_ATOMS \<noteq> 0
      then fst (JS_HashTableEnumerateEntries sftbl_ops am js_script_filename_marker ht ()) else ht)"
  obtain t n s where e: "JS_HashTableEnumerateEntries sftbl_ops am js_script_filename_marker ht () = (t, n, s)"
    by (metis surj_pair)
  have 1: "table_inv ht1" "sft_map ht1 = (\<lambda>a. if gcflags AND GC_KEEP_ATOMS \<noteq> 0
      then map_option (\<lambda>v. v\<lparr>sfe_mark := True\<rparr>) (sft_map ht a) else sft_map ht a)"
    using mark_all_correct [OF assms(1) e] assms(1) by (simp_all add: ht1_def e)
  note 2 = mark_prefixes_correct [OF 1(1), of ps]
  have m: "js_MarkScriptFilenames am gcflags ps ht = fold (\<lambda>sfp. js_MarkScriptFilename (sfp_name sfp)) ps ht1"
    by (simp add: js_MarkScriptFilenames_def ht1_def)
  note 3 = sweep_correct [OF conjunct1 [OF 2], of am, folded m, folded ht'_def]
  have eq: "sft_map ht' name = (case sft_map ht name of None \<Rightarrow> None
       | Some v \<Rightarrow> if sfe_mark v \<or> gcflags AND GC_KEEP_ATOMS \<noteq> 0 \<or> name \<in> sfp_name ` set ps
                   then Some (v\<lparr>sfe_mark := False\<rparr>) else None)" for name
    unfolding 3(2) m using 2 unfolding 1(2) by (cases "sft_map ht name") auto
  have "prefix_inv ht' ps"
    using assms(2) unfolding prefix_inv_def eq by (auto split: option.splits)
  then show ?thesis using 3(1) eq unfolding Let_def ht'_def by blast
qed

theorem script_names_collected_witness:
  "\<exists>ht. table_inv ht \<and> sft_map (js_SweepScriptFilenames (\<lambda>_. True) (js_MarkScriptFilenames (\<lambda>_. True) 0 [] ht)) [0x61] = None"
proof -
  obtain ht where ht: "table_inv ht" "sft_map ht = Map.empty" using new_sft by blast
  with script_names_collected [OF ht(1), of "[]" "\<lambda>_. True" 0] show ?thesis
    by (auto simp: prefix_inv_def Let_def)
qed

end
