(* ===== verification/JS_StringCache.thy ===== *)
theory JS_StringCache
  imports JS_Hash
begin

text \<open>
  The cache of strings converted to bytes in js/src/jsstr.c: a table from the address of a string
  to its bytes, made on first use. \<open>chars\<close> reads a string's units, \<open>deflate\<close> is the conversion
  \<open>js_DeflateString\<close> of the build, \<open>None\<close> when out of memory. Bytes given back to the heap are logged.
\<close>

type_synonym string_ptr = u64

record string_cache =
  deflated_string_cache :: "(string_ptr, u8 list) hash_table option"
  freed_bytes :: "u8 list list"

definition JSVAL_TAGBITS :: nat where "JSVAL_TAGBITS = 3"

definition js_hash_string_pointer :: "string_ptr \<Rightarrow> u32" where
  "js_hash_string_pointer key = drop_bit JSVAL_TAGBITS (ucast key)"

definition cache_ops :: "(string_ptr, u8 list) hash_ops" where
  "cache_ops = \<lparr>keyHash = js_hash_string_pointer, keyCompare = JS_CompareValues, valueCompare = JS_CompareValues,
                value_null = (\<lambda>v. False)\<rparr>"

definition GetDeflatedStringCache ::
  "(nat \<Rightarrow> bool) \<Rightarrow> string_cache \<Rightarrow> string_cache \<times> (string_ptr, u8 list) hash_table option" where
  "GetDeflatedStringCache am sc =
     (let cache = (case deflated_string_cache sc of None \<Rightarrow> JS_NewHashTable 8 am | Some cache \<Rightarrow> Some cache)
      in (sc\<lparr>deflated_string_cache := cache\<rparr>, cache))"

definition js_SetStringBytes ::
  "(nat \<Rightarrow> bool) \<Rightarrow> bool \<Rightarrow> string_cache \<Rightarrow> string_ptr \<Rightarrow> u8 list \<Rightarrow> string_cache \<times> bool" where
  "js_SetStringBytes am alloc_entry sc str bytes =
     (let (sc, cache) = GetDeflatedStringCache am sc
      in case cache of
           None \<Rightarrow> (sc, False)
         | Some cache \<Rightarrow>
             let hash = js_hash_string_pointer str;
                 (cache, hep) = JS_HashTableRawLookup cache_ops cache hash str;
                 (cache, he) = JS_HashTableRawAdd cache_ops am alloc_entry cache hep hash str bytes
             in (sc\<lparr>deflated_string_cache := Some cache\<rparr>, he \<noteq> None))"

definition js_GetStringBytes ::
  "(u16 list \<Rightarrow> u8 list option) \<Rightarrow> (string_ptr \<Rightarrow> u16 list) \<Rightarrow> (nat \<Rightarrow> bool) \<Rightarrow> bool \<Rightarrow> string_cache \<Rightarrow> string_ptr \<Rightarrow>
     string_cache \<times> u8 list option" where
  "js_GetStringBytes deflate chars am alloc_entry sc str =
     (let (sc, cache) = GetDeflatedStringCache am sc
      in case cache of
           None \<Rightarrow> (sc, None)
         | Some cache \<Rightarrow>
             let hash = js_hash_string_pointer str;
                 (cache, hep) = JS_HashTableRawLookup cache_ops cache hash str
             in case deref cache hep of
                  Some he \<Rightarrow> (sc\<lparr>deflated_string_cache := Some cache\<rparr>, Some (he_value he))
                | None \<Rightarrow>
                    (case deflate (chars str) of
                       None \<Rightarrow> (sc\<lparr>deflated_string_cache := Some cache\<rparr>, None)
                     | Some bytes \<Rightarrow>
                         let (cache, he) = JS_HashTableRawAdd cache_ops am alloc_entry cache hep hash str bytes;
                             sc = sc\<lparr>deflated_string_cache := Some cache\<rparr>
                         in if he \<noteq> None then (sc, Some bytes)
                            else (sc\<lparr>freed_bytes := freed_bytes sc @ [bytes]\<rparr>, None)))"

definition js_PurgeDeflatedStringCache :: "(nat \<Rightarrow> bool) \<Rightarrow> string_cache \<Rightarrow> string_ptr \<Rightarrow> string_cache" where
  "js_PurgeDeflatedStringCache am sc str =
     (case deflated_string_cache sc of
        None \<Rightarrow> sc
      | Some cache \<Rightarrow>
          let hash = js_hash_string_pointer str;
              (cache, hep) = JS_HashTableRawLookup cache_ops cache hash str
          in case deref cache hep of
               None \<Rightarrow> sc\<lparr>deflated_string_cache := Some cache\<rparr>
             | Some he \<Rightarrow>
                 sc\<lparr>freed_bytes := freed_bytes sc @ [he_value he],
                    deflated_string_cache := Some (JS_HashTableRawRemove cache_ops am cache (Some hep) he)\<rparr>)"

section \<open>The cache as a map\<close>

interpretation by_pointer: hash_client cache_ops "\<lambda>p. p"
  by unfold_locales (auto simp: cache_ops_def JS_CompareValues_def)

definition cache_map :: "string_cache \<Rightarrow> string_ptr \<Rightarrow> u8 list option" where
  "cache_map sc str = (case deflated_string_cache sc of None \<Rightarrow> None | Some ht \<Rightarrow> map_option snd (hash_map (\<lambda>p. p) ht str))"

definition cache_inv :: "string_cache \<Rightarrow> bool" where
  "cache_inv sc \<longleftrightarrow> (case deflated_string_cache sc of None \<Rightarrow> True
     | Some ht \<Rightarrow> hash_inv cache_ops (\<lambda>p. p) ht \<and> unat (nentries ht) < 2 ^ 30)"

text \<open>The bound on the entries, read off the map.\<close>

lemma cache_inv_iff:
  "cache_inv sc \<longleftrightarrow> card (dom (cache_map sc)) < 2 ^ 30 \<and>
     (case deflated_string_cache sc of None \<Rightarrow> True | Some ht \<Rightarrow> hash_inv cache_ops (\<lambda>p. p) ht)"
proof (cases "deflated_string_cache sc")
  case None
  then show ?thesis by (simp add: cache_inv_def cache_map_def dom_def)
next
  case (Some ht)
  have "dom (cache_map sc) = dom (hash_map (\<lambda>p. p) ht)" using Some by (auto simp: cache_map_def dom_def)
  then show ?thesis using Some by_pointer.nentries_card [of ht] by (auto simp: cache_inv_def)
qed

lemma new_table_any: "JS_NewHashTable n am = Some ht \<Longrightarrow> JS_NewHashTable n (\<lambda>nb. True) = Some ht"
  by (auto simp: JS_NewHashTable_def Let_def split: if_splits)

lemma GetCache_correct:
  assumes "cache_inv sc" and "GetDeflatedStringCache am sc = (sc', cache)"
  shows "cache_inv sc' \<and> deflated_string_cache sc' = cache \<and> cache_map sc' = cache_map sc \<and>
    freed_bytes sc' = freed_bytes sc \<and> (cache = None \<longrightarrow> \<not> (\<forall>nb. am nb))"
proof -
  obtain new :: "(string_ptr, u8 list) hash_table" where new: "JS_NewHashTable 8 (\<lambda>nb. True) = Some new"
    "hash_inv cache_ops (\<lambda>p. p) new" "hash_map (\<lambda>p. p) new = Map.empty"
    using by_pointer.new_correct [of 8 "\<lambda>nb. True"] by auto
  have sc': "sc' = sc\<lparr>deflated_string_cache := cache\<rparr>"
    "cache = (case deflated_string_cache sc of None \<Rightarrow> JS_NewHashTable 8 am | Some c \<Rightarrow> Some c)"
    using assms(2) by (auto simp: GetDeflatedStringCache_def Let_def)
  show ?thesis
  proof (cases "deflated_string_cache sc")
    case None
    have c: "cache = None \<or> cache = Some new"
    proof (cases cache)
      case (Some t)
      then have "JS_NewHashTable 8 am = Some t" using sc'(2) None by simp
      from new_table_any [OF this] show ?thesis using new(1) Some by simp
    qed simp
    have "cache = None \<longrightarrow> \<not> (\<forall>nb. am nb)"
    proof (intro impI notI)
      assume "cache = None" "\<forall>nb. am nb"
      moreover from this have "am = (\<lambda>nb. True)" by (simp add: fun_eq_iff)
      ultimately show False using sc'(2) None new(1) by simp
    qed
    moreover have m: "cache_map sc' = cache_map sc"
      using c sc'(1) None new(3) by (auto simp: cache_map_def fun_eq_iff)
    ultimately show ?thesis using c sc'(1) new(2) m assms(1) by (auto simp: cache_inv_iff)
  next
    case (Some ht)
    then show ?thesis using sc' assms(1) by (auto simp: cache_inv_def cache_map_def fun_eq_iff)
  qed
qed

lemma lookup_cases:
  assumes "hash_inv cache_ops (\<lambda>p. p) ht" "unat (nentries ht) < 2 ^ 30"
  obtains cache hep where
    "JS_HashTableRawLookup cache_ops ht (js_hash_string_pointer str) str = (cache, hep)"
    "hash_inv cache_ops (\<lambda>p. p) cache" "hash_map (\<lambda>p. p) cache = hash_map (\<lambda>p. p) ht" "nentries cache = nentries ht"
    "map_option he_value (deref cache hep) = map_option snd (hash_map (\<lambda>p. p) ht str)"
    "fst hep < length (buckets cache)" "\<And>e. deref cache hep = Some e \<Longrightarrow> he_key e = str"
proof -
  obtain cache hep where l: "JS_HashTableRawLookup cache_ops ht (keyHash cache_ops str) str = (cache, hep)"
    by (metis surj_pair)
  have wf: "by_pointer.htwf ht" using assms by (simp add: by_pointer.hash_inv_iff)
  note rl = by_pointer.RawLookup_correct [OF wf l]
  have "map_option he_value (deref cache hep) = map_option snd (hash_map (\<lambda>p. p) ht str)"
    using by_pointer.lookup_map [OF wf l, symmetric] by (simp add: option.map_comp comp_def)
  moreover have "hash_inv cache_ops (\<lambda>p. p) cache \<and> hash_map (\<lambda>p. p) cache = hash_map (\<lambda>p. p) ht"
    by (rule by_pointer.same_table_inv [OF assms(1) rl(1)])
  moreover have "nentries cache = nentries ht" using rl(1) by (simp add: by_pointer.same_table_def)
  moreover have "he_key e = str" if "deref cache hep = Some e" for e
    using rl(5) [of e] that by (simp add: by_pointer.absk_def)
  ultimately show thesis using that l rl(3) by (simp add: cache_ops_def)
qed


text \<open>Adding after a miss, and removing after a hit.\<close>

lemma add_missing:
  assumes "hash_inv cache_ops (\<lambda>p. p) ht" "unat (nentries ht) < 2 ^ 30"
    and "JS_HashTableRawLookup cache_ops ht (js_hash_string_pointer str) str = (cache, hep)" "deref cache hep = None"
    and "JS_HashTableRawAdd cache_ops am ae cache hep (js_hash_string_pointer str) str bytes = (cache', he)"
  shows "hash_inv cache_ops (\<lambda>p. p) cache' \<and>
    hash_map (\<lambda>p. p) cache' = (if he = None then hash_map (\<lambda>p. p) ht else (hash_map (\<lambda>p. p) ht)(str \<mapsto> (str, bytes))) \<and>
    (ae \<and> (\<forall>nb. am nb) \<longrightarrow> he \<noteq> None)"
proof -
  have "keyHash cache_ops = js_hash_string_pointer" by (simp add: cache_ops_def)
  then show ?thesis using by_pointer.RawAdd_correct [OF assms(1) _ assms(4,2)] assms(3,5) by metis
qed

text \<open>What each function leaves of the cache, the bytes given back included.\<close>

lemma with_table:
  assumes "deflated_string_cache sc = Some ht" and "hash_inv cache_ops (\<lambda>p. p) ht"
    and "\<And>p. map_option snd (hash_map (\<lambda>p. p) ht p) = m p"
  shows "cache_map sc = m" and "card (dom m) < 2 ^ 30 \<Longrightarrow> cache_inv sc"
proof -
  show m: "cache_map sc = m" using assms(1,3) by (simp add: cache_map_def fun_eq_iff)
  show "cache_inv sc" if "card (dom m) < 2 ^ 30" using that assms(1,2) m by (simp add: cache_inv_iff)
qed

lemma table_facts:
  assumes "cache_inv sc" and "deflated_string_cache sc = Some ht"
  shows "hash_inv cache_ops (\<lambda>p. p) ht" "unat (nentries ht) < 2 ^ 30" "card (dom (cache_map sc)) < 2 ^ 30"
    "\<And>p. map_option snd (hash_map (\<lambda>p. p) ht p) = cache_map sc p"
  using assms cache_inv_iff [of sc] by (simp_all add: cache_inv_def cache_map_def)

lemma get_bytes_correct:
  assumes "cache_inv sc" and "js_GetStringBytes deflate chars am ae sc str = (sc', r)"
  shows "(case cache_map sc str of
       Some bytes \<Rightarrow> r = Some bytes \<and> cache_map sc' = cache_map sc \<and> freed_bytes sc' = freed_bytes sc
     | None \<Rightarrow>
         (case r of
            Some bytes \<Rightarrow> deflate (chars str) = Some bytes \<and> cache_map sc' = (cache_map sc)(str \<mapsto> bytes) \<and>
              freed_bytes sc' = freed_bytes sc
          | None \<Rightarrow> cache_map sc' = cache_map sc \<and> \<not> ((\<forall>nb. am nb) \<and> ae \<and> deflate (chars str) \<noteq> None) \<and>
              freed_bytes sc' = freed_bytes sc @
                (case (deflated_string_cache sc', deflate (chars str)) of (Some _, Some bytes) \<Rightarrow> [bytes] | _ \<Rightarrow> []))) \<and>
    (card (dom (cache_map sc')) < 2 ^ 30 \<longrightarrow> cache_inv sc')"
proof -
  obtain sc1 c where g0: "GetDeflatedStringCache am sc = (sc1, c)" by (metis surj_pair)
  note g = GetCache_correct [OF assms(1) g0]
  show ?thesis
  proof (cases c)
    case None
    then have "cache_map sc str = None" using g by (auto simp: cache_map_def fun_eq_iff)
    then show ?thesis using assms(2) g g0 None by (auto simp: js_GetStringBytes_def)
  next
    case (Some ht)
    have "cache_inv sc1" "deflated_string_cache sc1 = Some ht" using g Some by simp_all
    note t = table_facts [OF this]
    obtain cache hep where l: "JS_HashTableRawLookup cache_ops ht (js_hash_string_pointer str) str = (cache, hep)"
      "hash_inv cache_ops (\<lambda>p. p) cache" "hash_map (\<lambda>p. p) cache = hash_map (\<lambda>p. p) ht"
      "map_option he_value (deref cache hep) = map_option snd (hash_map (\<lambda>p. p) ht str)"
      by (rule lookup_cases [OF t(1,2)]) blast
    have tc: "\<And>p. map_option snd (hash_map (\<lambda>p. p) cache p) = cache_map sc p"
      "card (dom (cache_map sc)) < 2 ^ 30" using t g Some l(3) by simp_all
    have ms: "cache_map sc str = map_option he_value (deref cache hep)" using tc(1) l(3,4) by simp
    note w = with_table [OF _ l(2) tc(1), of sc']
    show ?thesis
    proof (cases "\<exists>bs. deref cache hep = None \<and> deflate (chars str) = Some bs")
      case False
      then have "deflated_string_cache sc' = Some cache" "freed_bytes sc' = freed_bytes sc" "r = cache_map sc str"
        using assms(2) g0 g Some ms
        by (auto simp: js_GetStringBytes_def l(1) Let_def split: option.splits)
      then show ?thesis using w tc(2) False ms by (cases "deref cache hep") auto
    next
      case True
      then obtain bs where miss: "deref cache hep = None" and d: "deflate (chars str) = Some bs" by blast
      obtain cache' he where a: "JS_HashTableRawAdd cache_ops am ae cache hep (js_hash_string_pointer str) str bs = (cache', he)"
        by (metis surj_pair)
      note am = add_missing [OF t(1,2) l(1) miss a]
      define m where "m = (if he = None then cache_map sc else (cache_map sc)(str \<mapsto> bs))"
      have "hash_inv cache_ops (\<lambda>p. p) cache'" "\<And>p. map_option snd (hash_map (\<lambda>p. p) cache' p) = m p"
        using am t g Some tc(1) l(3) by (auto simp: m_def)
      note w' = with_table [OF _ this, of sc']
      have "deflated_string_cache sc' = Some cache'" "freed_bytes sc' = freed_bytes sc @ (if he = None then [bs] else [])"
        "r = (if he = None then None else Some bs)"
        using assms(2) g0 g Some miss d a by (auto simp: js_GetStringBytes_def l(1) Let_def split: if_splits)
      then show ?thesis using w' am miss d ms by (cases he) (auto simp: m_def)
    qed
  qed
qed

lemma set_bytes_correct:
  assumes "cache_inv sc" and "js_SetStringBytes am ae sc str bytes = (sc', ok)" and "cache_map sc str = None"
  shows "cache_map sc' = (if ok then (cache_map sc)(str \<mapsto> bytes) else cache_map sc) \<and>
    freed_bytes sc' = freed_bytes sc \<and> ((\<forall>nb. am nb) \<and> ae \<longrightarrow> ok) \<and>
    (card (dom (cache_map sc')) < 2 ^ 30 \<longrightarrow> cache_inv sc')"
proof -
  obtain sc1 c where g0: "GetDeflatedStringCache am sc = (sc1, c)" by (metis surj_pair)
  note g = GetCache_correct [OF assms(1) g0]
  show ?thesis
  proof (cases c)
    case None
    then show ?thesis using assms(2) g g0 by (auto simp: js_SetStringBytes_def)
  next
    case (Some ht)
    have "cache_inv sc1" "deflated_string_cache sc1 = Some ht" using g Some by simp_all
    note t = table_facts [OF this]
    obtain cache hep where l: "JS_HashTableRawLookup cache_ops ht (js_hash_string_pointer str) str = (cache, hep)"
      "map_option he_value (deref cache hep) = map_option snd (hash_map (\<lambda>p. p) ht str)"
      by (rule lookup_cases [OF t(1,2)]) blast
    have miss: "deref cache hep = None" using l(2) assms(3) t(4) g Some by simp
    obtain cache' he where a: "JS_HashTableRawAdd cache_ops am ae cache hep (js_hash_string_pointer str) str bytes = (cache', he)"
      by (metis surj_pair)
    note am = add_missing [OF t(1,2) l(1) miss a]
    define m where "m = (if he = None then cache_map sc else (cache_map sc)(str \<mapsto> bytes))"
    have "hash_inv cache_ops (\<lambda>p. p) cache'" "\<And>p. map_option snd (hash_map (\<lambda>p. p) cache' p) = m p"
      using am t g Some by (auto simp: m_def)
    note w = with_table [OF _ this, of sc']
    have "deflated_string_cache sc' = Some cache'" "freed_bytes sc' = freed_bytes sc" "ok \<longleftrightarrow> he \<noteq> None"
      using assms(2) g0 g Some a by (auto simp: js_SetStringBytes_def l(1) Let_def)
    then show ?thesis using w am by (cases he) (auto simp: m_def)
  qed
qed

lemma purge_correct:
  fixes am :: "nat \<Rightarrow> bool" and str :: string_ptr
  assumes "cache_inv sc"
  defines "sc' \<equiv> js_PurgeDeflatedStringCache am sc str"
  shows "cache_map sc' = (cache_map sc)(str := None) \<and>
    freed_bytes sc' = freed_bytes sc @ (case cache_map sc str of None \<Rightarrow> [] | Some bytes \<Rightarrow> [bytes]) \<and> cache_inv sc'"
proof (cases "deflated_string_cache sc")
  case None
  then show ?thesis using assms(1) by (auto simp: sc'_def js_PurgeDeflatedStringCache_def cache_map_def fun_eq_iff)
next
  case (Some ht)
  note t = table_facts [OF assms(1) Some]
  obtain cache hep where l: "JS_HashTableRawLookup cache_ops ht (js_hash_string_pointer str) str = (cache, hep)"
    "hash_inv cache_ops (\<lambda>p. p) cache" "hash_map (\<lambda>p. p) cache = hash_map (\<lambda>p. p) ht"
    "map_option he_value (deref cache hep) = map_option snd (hash_map (\<lambda>p. p) ht str)"
    "fst hep < length (buckets cache)" "\<And>e. deref cache hep = Some e \<Longrightarrow> he_key e = str"
    by (rule lookup_cases [OF t(1,2)]) blast
  have ms: "cache_map sc str = map_option he_value (deref cache hep)" using t(4) l(4) by simp
  have "card (dom ((cache_map sc)(str := None))) \<le> card (dom (cache_map sc))"
    using t(3) by (cases "finite (dom (cache_map sc))") (auto intro: card_mono)
  then have few: "card (dom ((cache_map sc)(str := None))) < 2 ^ 30" using t(3) by simp
  show ?thesis
  proof (cases "deref cache hep")
    case None
    then have "(cache_map sc)(str := None) = cache_map sc" using ms by (simp add: fun_upd_idem_iff)
    moreover have "deflated_string_cache sc' = Some cache" "freed_bytes sc' = freed_bytes sc"
      using None Some by (simp_all add: sc'_def js_PurgeDeflatedStringCache_def l(1) Let_def)
    ultimately show ?thesis using with_table [of sc' cache "cache_map sc"] None ms l(2,3) t(3,4) by simp
  next
    case he: (Some he)
    note rm = by_pointer.RawRemove_correct [OF l(2,5) he, of am]
    have "by_pointer.absk he = str" using l(6) [OF he] by (simp add: by_pointer.absk_def)
    then have "\<And>p. map_option snd (hash_map (\<lambda>p. p) (JS_HashTableRawRemove cache_ops am cache (Some hep) he) p) =
        ((cache_map sc)(str := None)) p" using rm(2) l(3) t(4) by simp
    note w = with_table [OF _ rm(1) this, of sc']
    have "deflated_string_cache sc' = Some (JS_HashTableRawRemove cache_ops am cache (Some hep) he)"
      "freed_bytes sc' = freed_bytes sc @ [he_value he]"
      using Some he by (simp_all add: sc'_def js_PurgeDeflatedStringCache_def l(1) Let_def)
    then show ?thesis using w(1) w(2) [OF _ few] ms he by (simp add: fun_upd_def)
  qed
qed

text \<open>
  C23: the string cache is a map from strings to bytes. \<open>js_GetStringBytes\<close> gives the cached
  bytes of a string or, the first time, its conversion, which it caches; it fails only when
  memory fails, and then bytes that were converted and could not be cached are given back, and
  nothing else is. \<open>js_SetStringBytes\<close> caches the bytes of a string that has none, and gives
  nothing back (on failure its caller keeps the bytes). Purging a string drops its bytes and gives
  them back. Other strings' bytes are never touched, and the cache stays well formed as long as
  it holds fewer than 2^30 strings.
\<close>

theorem string_cache_refines_map:
  assumes "cache_inv sc"
  shows "(case js_GetStringBytes deflate chars am ae sc str of (sc', r) \<Rightarrow>
      (case cache_map sc str of
         Some bytes \<Rightarrow> r = Some bytes \<and> cache_map sc' = cache_map sc \<and> freed_bytes sc' = freed_bytes sc
       | None \<Rightarrow>
           (case r of
              Some bytes \<Rightarrow> deflate (chars str) = Some bytes \<and> cache_map sc' = (cache_map sc)(str \<mapsto> bytes) \<and>
                freed_bytes sc' = freed_bytes sc
            | None \<Rightarrow> cache_map sc' = cache_map sc \<and> \<not> ((\<forall>nb. am nb) \<and> ae \<and> deflate (chars str) \<noteq> None) \<and>
                freed_bytes sc' = freed_bytes sc @
                  (case (deflated_string_cache sc', deflate (chars str)) of (Some _, Some bytes) \<Rightarrow> [bytes] | _ \<Rightarrow> []))) \<and>
      (card (dom (cache_map sc')) < 2 ^ 30 \<longrightarrow> cache_inv sc')) \<and>
    (case js_SetStringBytes am ae sc str bytes of (sc', ok) \<Rightarrow>
      cache_map sc str = None \<longrightarrow>
        cache_map sc' = (if ok then (cache_map sc)(str \<mapsto> bytes) else cache_map sc) \<and>
        freed_bytes sc' = freed_bytes sc \<and> ((\<forall>nb. am nb) \<and> ae \<longrightarrow> ok) \<and>
        (card (dom (cache_map sc')) < 2 ^ 30 \<longrightarrow> cache_inv sc')) \<and>
    (let sc' = js_PurgeDeflatedStringCache am sc str in
      cache_map sc' = (cache_map sc)(str := None) \<and>
      freed_bytes sc' = freed_bytes sc @ (case cache_map sc str of None \<Rightarrow> [] | Some bytes \<Rightarrow> [bytes]) \<and> cache_inv sc')"
proof (intro conjI)
  show "let sc' = js_PurgeDeflatedStringCache am sc str in
      cache_map sc' = (cache_map sc)(str := None) \<and>
      freed_bytes sc' = freed_bytes sc @ (case cache_map sc str of None \<Rightarrow> [] | Some bytes \<Rightarrow> [bytes]) \<and> cache_inv sc'"
    unfolding Let_def by (rule purge_correct [OF assms])
qed (rule prod.case_eq_if [THEN iffD2], use get_bytes_correct [OF assms prod.collapse [symmetric]]
      set_bytes_correct [OF assms prod.collapse [symmetric]] in blast)+

theorem string_cache_refines_map_witness:
  "\<exists>sc' r. js_GetStringBytes (\<lambda>cs. Some (map ucast cs)) (\<lambda>_. [0x41]) (\<lambda>nb. True) True
      \<lparr>deflated_string_cache = None, freed_bytes = []\<rparr> 8 = (sc', r) \<and> r = Some [0x41] \<and> cache_map sc' 8 = Some [0x41] \<and> cache_inv sc'"
proof -
  define sc where "sc = \<lparr>deflated_string_cache = None, freed_bytes = []\<rparr>"
  have "cache_inv sc" "cache_map sc = Map.empty" by (simp_all add: sc_def cache_inv_def cache_map_def fun_eq_iff)
  with string_cache_refines_map [where sc = sc and deflate = "\<lambda>cs. Some (map ucast cs)" and chars = "\<lambda>_. [0x41]"
      and am = "\<lambda>nb. True" and ae = True and str = 8 and bytes = "[]"]
  show ?thesis unfolding sc_def [symmetric] by (auto split: prod.splits option.splits)
qed

end
