(* ===== verification/JS_Utf8.thy ===== *)
theory JS_Utf8
  imports JS_Prelude
begin

text \<open>
  Strings between UTF-16 and UTF-8 (jsstr.c): the encoder and decoder of one character, and
  the deflating and inflating of whole strings, in the build where C strings are UTF-8
  (JS_C_STRINGS_ARE_UTF8) and in the one where they are Latin-1.
\<close>

section \<open>One character\<close>

text \<open>The loop \<open>while (a) { a >>= 5; utf8Length++; }\<close>.\<close>

function utf8_length_loop :: "u32 \<Rightarrow> nat \<Rightarrow> nat" where
  "utf8_length_loop a n = (if a \<noteq> 0 then utf8_length_loop (drop_bit 5 a) (n + 1) else n)"
  by pat_completeness auto
termination
  by (relation "measure (\<lambda>(a, n). unat a)") (simp_all add: unat_drop_bit_div unat_gt_0 div_less_dividend)

declare utf8_length_loop.simps [simp del]

text \<open>The loop that fills \<open>utf8Buffer[i]\<close> from the last byte down to the second.\<close>

fun utf8_trail_loop :: "nat \<Rightarrow> u32 \<Rightarrow> u8 list \<Rightarrow> u32 \<times> u8 list" where
  "utf8_trail_loop 0 ucs4Char bytes = (ucs4Char, bytes)"
| "utf8_trail_loop (Suc i) ucs4Char bytes =
     utf8_trail_loop i (drop_bit 6 ucs4Char) (ucast ((ucs4Char AND 0x3F) OR 0x80) # bytes)"

text \<open>The bytes written to \<open>utf8Buffer\<close>; their number is the return value.\<close>

definition js_OneUcs4ToUtf8Char :: "u32 \<Rightarrow> u8 list" where
  "js_OneUcs4ToUtf8Char ucs4Char =
     (if ucs4Char < 0x80 then [ucast ucs4Char]
      else
        let utf8Length = utf8_length_loop (drop_bit 11 ucs4Char) 2;
            (ucs4Char, trail) = utf8_trail_loop (utf8Length - 1) ucs4Char []
        in ucast (0x100 - push_bit (8 - utf8Length) 1 + ucs4Char) # trail)"

definition minucs4Table :: "u32 list" where
  "minucs4Table = [0x80, 0x800, 0x1000, 0x20000, 0x400000]"

text \<open>\<open>utf8Length\<close> is the length of the buffer here; the caller has checked the sequence.\<close>

definition Utf8ToOneUcs4Char :: "u8 list \<Rightarrow> u32" where
  "Utf8ToOneUcs4Char utf8Buffer =
     (let utf8Length = length utf8Buffer
      in if utf8Length = 1 then ucast (utf8Buffer ! 0)
         else
           let ucs4Char = ucast (utf8Buffer ! 0) AND (push_bit (7 - utf8Length) 1 - 1);
               minucs4Char = minucs4Table ! (utf8Length - 2);
               ucs4Char = foldl (\<lambda>u b. push_bit 6 u OR (ucast b AND 0x3F)) ucs4Char (tl utf8Buffer)
           in if ucs4Char < minucs4Char \<or> ucs4Char = 0xFFFE \<or> ucs4Char = 0xFFFF
              then 0xFFFD else ucs4Char)"

text \<open>The loop \<open>while (v & (0x80 >> n)) n++;\<close> that counts the leading ones of a first byte.\<close>

function lead_ones :: "u32 \<Rightarrow> nat \<Rightarrow> nat" where
  "lead_ones v n = (if v AND drop_bit n 0x80 \<noteq> 0 then lead_ones v (n + 1) else n)"
  by pat_completeness auto
termination
proof (relation "measure (\<lambda>(v, n). 8 - n)", goal_cases)
  case (2 v n)
  have "drop_bit n (0x80 :: u32) = 0" if "8 \<le> n"
  proof -
    have "(2 :: nat) ^ 8 \<le> 2 ^ n" using that by (rule power_increasing) simp
    then show ?thesis using drop_bit_neq_0_iff [of n "0x80 :: u32"] by fastforce
  qed
  then show ?case using 2 by (cases "8 \<le> n") auto
qed simp

declare lead_ones.simps [simp del]

section \<open>Whole strings\<close>

text \<open>
  How a conversion ends, with what it leaves in \<open>*dstlenp\<close> and the destination. \<open>size_t\<close>
  lengths are natural numbers: strings are far shorter than the address space.
\<close>

datatype conv_error = BUFFER_TOO_SMALL | BAD_SURROGATE u16 | MALFORMED_UTF8 nat | UTF8_TOO_LARGE u32

text \<open>
  \<open>js_DeflateStringToBuffer\<close>, UTF-8 build. \<open>room\<close> is the room left in the destination, or
  \<open>None\<close> in the sizing pass without one, where \<open>dstlen\<close> starts at the largest \<open>size_t\<close>;
  \<open>out\<close> is what was written so far, which the sizing pass only counts.
\<close>

text \<open>
  The character that starts with the unit \<open>c\<close>, and how many of the units after it belong to it.
\<close>

definition utf16_char :: "u16 \<Rightarrow> u16 list \<Rightarrow> conv_error + u32 \<times> nat" where
  "utf16_char c src =
     (if 0xDC00 \<le> c \<and> c \<le> 0xDFFF then Inl (BAD_SURROGATE c)
      else if c < 0xD800 \<or> 0xDBFF < c then Inr (ucast c, 0)
      else
        (case src of
           [] \<Rightarrow> Inl BUFFER_TOO_SMALL
         | c2 # _ \<Rightarrow>
             if c2 < 0xDC00 \<or> 0xDFFF < c2 then Inl (BAD_SURROGATE c2)
             else Inr (push_bit 10 (ucast c - 0xD800) + (ucast c2 - 0xDC00) + 0x10000, 1)))"

abbreviation less_room :: "nat option \<Rightarrow> nat \<Rightarrow> nat option" where
  "less_room room n \<equiv> map_option (\<lambda>r. r - n) room"

definition fits :: "nat \<Rightarrow> nat option \<Rightarrow> bool" where
  "fits n room \<longleftrightarrow> (case room of None \<Rightarrow> True | Some r \<Rightarrow> n \<le> r)"

fun deflate_utf8 :: "u16 list \<Rightarrow> nat option \<Rightarrow> u8 list \<Rightarrow> u8 list \<times> conv_error option" where
  "deflate_utf8 [] room out = (out, None)"
| "deflate_utf8 (c # src) room out =
     (case utf16_char c src of
        Inl e \<Rightarrow> (out, Some e)
      | Inr (v, n) \<Rightarrow>
          let utf8buf = (if v < 0x80 then [ucast v] else js_OneUcs4ToUtf8Char v)
          in if fits (length utf8buf) room
             then deflate_utf8 (drop n src) (less_room room (length utf8buf)) (out @ utf8buf)
             else (out, Some BUFFER_TOO_SMALL))"

text \<open>
  \<open>dst\<close> is the capacity of the destination, or \<open>None\<close> for a null one. The result is the
  bytes, which \<open>*dstlenp\<close> counts, and the error.
\<close>

definition js_DeflateStringToBuffer_utf8 :: "u16 list \<Rightarrow> nat option \<Rightarrow> u8 list \<times> conv_error option" where
  "js_DeflateStringToBuffer_utf8 src dst = deflate_utf8 src dst []"

text \<open>
  \<open>js_DeflateString\<close>: a sizing pass, the allocation (\<open>am\<close> says whether it succeeds), and a
  writing pass whose result the code ignores.
\<close>

definition js_DeflateString_utf8 :: "(nat \<Rightarrow> bool) \<Rightarrow> u16 list \<Rightarrow> u8 list option" where
  "js_DeflateString_utf8 am chars =
     (case js_DeflateStringToBuffer_utf8 chars None of
        (_, Some _) \<Rightarrow> None
      | (sized, None) \<Rightarrow>
          if am (length sized + 1)
          then Some (fst (js_DeflateStringToBuffer_utf8 chars (Some (length sized))))
          else None)"

text \<open>\<open>js_InflateStringToBuffer\<close>, UTF-8 build; \<open>offset\<close> is only used in the error report.\<close>

definition utf8_char :: "u8 \<Rightarrow> u8 list \<Rightarrow> nat \<Rightarrow> conv_error + u32 \<times> nat" where
  "utf8_char b src offset =
     (let v = ucast b
      in if v AND 0x80 = 0 then Inr (v, 1)
         else
           let n = lead_ones v 1
           in if length src + 1 < n then Inl BUFFER_TOO_SMALL
              else if n = 1 \<or> 6 < n then Inl (MALFORMED_UTF8 offset)
              else if \<exists>x\<in>set (take (n - 1) src). x AND 0xC0 \<noteq> 0x80 then Inl (MALFORMED_UTF8 offset)
              else Inr (Utf8ToOneUcs4Char (b # take (n - 1) src), n))"

definition utf16_units :: "u32 \<Rightarrow> u16 list" where
  "utf16_units v =
     (if 0x10000 \<le> v
      then [ucast (drop_bit 10 (v - 0x10000) + 0xD800), ucast (((v - 0x10000) AND 0x3FF) + 0xDC00)]
      else [ucast v])"

fun inflate_utf8 ::
  "u8 list \<Rightarrow> nat option \<Rightarrow> nat \<Rightarrow> u16 list \<Rightarrow> u16 list \<times> conv_error option" where
  "inflate_utf8 [] room offset out = (out, None)"
| "inflate_utf8 (b # src) room offset out =
     (case utf8_char b src offset of
        Inl e \<Rightarrow> (out, Some e)
      | Inr (v, n) \<Rightarrow>
          if 0x10000 \<le> v \<and> (0xFFFFF < v - 0x10000 \<or> \<not> fits 2 room)
          then (out, Some (UTF8_TOO_LARGE v))
          else if \<not> fits (length (utf16_units v)) room then (out, Some BUFFER_TOO_SMALL)
          else inflate_utf8 (drop (n - 1) src) (less_room room (length (utf16_units v))) (offset + n)
                 (out @ utf16_units v))"

definition js_InflateStringToBuffer_utf8 :: "u8 list \<Rightarrow> nat option \<Rightarrow> u16 list \<times> conv_error option" where
  "js_InflateStringToBuffer_utf8 src dst = inflate_utf8 src dst 0 []"

definition js_InflateString_utf8 :: "(nat \<Rightarrow> bool) \<Rightarrow> u8 list \<Rightarrow> u16 list option" where
  "js_InflateString_utf8 am bytes =
     (case js_InflateStringToBuffer_utf8 bytes None of
        (_, Some _) \<Rightarrow> None
      | (sized, None) \<Rightarrow>
          if am ((length sized + 1) * 2)
          then Some (fst (js_InflateStringToBuffer_utf8 bytes (Some (length sized))))
          else None)"

text \<open>The Latin-1 build: one byte for one unit, the high byte dropped.\<close>

definition js_DeflateStringToBuffer :: "u16 list \<Rightarrow> nat \<Rightarrow> u8 list \<times> conv_error option" where
  "js_DeflateStringToBuffer chars bytesLength =
     (if bytesLength < length chars then (map ucast (take bytesLength chars), Some BUFFER_TOO_SMALL)
      else (map ucast chars, None))"

definition js_InflateStringToBuffer :: "u8 list \<Rightarrow> nat \<Rightarrow> u16 list \<times> conv_error option" where
  "js_InflateStringToBuffer bytes charsLength =
     (if charsLength < length bytes then (map ucast (take charsLength bytes), Some BUFFER_TOO_SMALL)
      else (map ucast bytes, None))"

definition js_DeflateString :: "(nat \<Rightarrow> bool) \<Rightarrow> u16 list \<Rightarrow> u8 list option" where
  "js_DeflateString am chars = (if am (length chars + 1) then Some (map ucast chars) else None)"

definition js_InflateString :: "(nat \<Rightarrow> bool) \<Rightarrow> u8 list \<Rightarrow> u16 list option" where
  "js_InflateString am bytes = (if am ((length bytes + 1) * 2) then Some (map ucast bytes) else None)"

section \<open>Round trip of one character\<close>

text \<open>The bits of the masks, as the simplifier leaves them.\<close>

lemma mask_bits:
  "bit (0x80 :: int) n \<longleftrightarrow> n = 7" "bit (0x3F :: int) n \<longleftrightarrow> n < 6" "bit (0xC0 :: int) n \<longleftrightarrow> n = 6 \<or> n = 7"
proof -
  show b7: "bit (0x80 :: int) n \<longleftrightarrow> n = 7" using bit_exp_iff [of 7 n, where 'a = int] by auto
  show "bit (0x3F :: int) n \<longleftrightarrow> n < 6" using bit_mask_iff [of 6 n, where 'a = int] by (simp add: mask_eq_exp_minus_1)
  have b6: "bit (0x40 :: int) n \<longleftrightarrow> n = 6" using bit_exp_iff [of 6 n, where 'a = int] by auto
  have "(0xC0 :: int) = 0x80 OR 0x40" by simp
  then show "bit (0xC0 :: int) n \<longleftrightarrow> n = 6 \<or> n = 7" using b7 b6 by (auto simp only: bit_or_iff)
qed

text \<open>The least number of bytes a character needs.\<close>

definition utf8_size :: "u32 \<Rightarrow> nat" where
  "utf8_size v = (if v < 0x80 then 1 else if v < 0x800 then 2 else if v < 0x10000 then 3
     else if v < 0x200000 then 4 else if v < 0x4000000 then 5 else 6)"

lemma utf8_length_loop_size:
  assumes "0x80 \<le> v" "v \<le> 0x7FFFFFFF"
  shows "utf8_length_loop (drop_bit 11 v) 2 = utf8_size v"
proof -
  have step: "utf8_length_loop (drop_bit k v) n =
      (if unat v < 2 ^ k then n else utf8_length_loop (drop_bit (k + 5) v) (n + 1))" for k n
    by (subst utf8_length_loop.simps) (use drop_bit_neq_0_iff [of k v] in \<open>auto simp: not_less add.commute\<close>)
  have "unat v < 2 ^ 31" using assms(2) by (simp add: word_le_nat_alt)
  then show ?thesis
    using assms(1) step [of 11 2] step [of 16 3] step [of 21 4] step [of 26 5] step [of 31 6]
    by (auto simp: utf8_size_def word_less_nat_alt word_le_nat_alt)
qed

lemma take_bit_6: "w AND 0x3F = take_bit 6 w" for w :: "'a::len word"
  by (simp add: take_bit_eq_mask mask_eq_exp_minus_1)

lemma push_or_take: "push_bit n (drop_bit n w) OR take_bit n w = w" for w :: "'a::len word"
  by (rule bit_word_eqI) (auto simp: bit_simps)

lemma trail_byte:
  "ucast (ucast ((w AND 0x3F) OR 0x80) :: u8) AND 0x3F = w AND (0x3F :: u32)"
  "ucast ((w AND 0x3F) OR (0x80 :: u32)) AND 0xC0 = (0x80 :: u8)"
  by (rule bit_word_eqI, auto simp: bit_and_iff bit_or_iff bit_unsigned_iff mask_bits)+

lemma trail_loop:
  "utf8_trail_loop m v acc = (drop_bit (6 * m) v, snd (utf8_trail_loop m v []) @ acc)"
proof (induction m arbitrary: v acc)
  case (Suc m)
  show ?case
    using Suc [of "drop_bit 6 v" "ucast ((v AND 0x3F) OR 0x80) # acc"] Suc [of "drop_bit 6 v" "[ucast ((v AND 0x3F) OR 0x80)]"]
    by (simp add: add.commute)
qed simp

lemma length_trail: "length (snd (utf8_trail_loop m v acc)) = m + length acc"
  by (induction m v acc rule: utf8_trail_loop.induct) auto

text \<open>Reading the trail back puts the low six bits of each step in place again.\<close>

lemma trail_roundtrip:
  "foldl (\<lambda>u b. push_bit 6 u OR (ucast b AND 0x3F)) (drop_bit (6 * m) v) (snd (utf8_trail_loop m v [])) = v"
proof (induction m arbitrary: v)
  case (Suc m)
  have "snd (utf8_trail_loop (Suc m) v []) = snd (utf8_trail_loop m (drop_bit 6 v) []) @ [ucast ((v AND 0x3F) OR 0x80)]"
    using trail_loop [of m "drop_bit 6 v" "[ucast ((v AND 0x3F) OR 0x80)]"] by simp
  moreover have "drop_bit (6 * Suc m) v = drop_bit (6 * m) (drop_bit 6 v)" by (simp add: add.commute)
  ultimately show ?case
    using Suc [of "drop_bit 6 v"] trail_byte(1) [of v] push_or_take [of 6 v] by (simp add: take_bit_6)
qed simp

lemma trail_bytes:
  "b \<in> set (snd (utf8_trail_loop m v [])) \<Longrightarrow> b AND 0xC0 = 0x80"
proof (induction m arbitrary: v)
  case (Suc m)
  have "snd (utf8_trail_loop (Suc m) v []) = snd (utf8_trail_loop m (drop_bit 6 v) []) @ [ucast ((v AND 0x3F) OR 0x80)]"
    using trail_loop [of m "drop_bit 6 v" "[ucast ((v AND 0x3F) OR 0x80)]"] by simp
  with Suc show ?case by (auto simp: trail_byte)
qed simp

lemma utf8_size_facts:
  assumes "0x80 \<le> v" "v \<le> 0x7FFFFFFF"
  shows "2 \<le> utf8_size v" "utf8_size v \<le> 6"
    and "unat (drop_bit (6 * (utf8_size v - 1)) v) < 2 ^ (7 - utf8_size v)"
    and "minucs4Table ! (utf8_size v - 2) \<le> v"
proof -
  have hi: "unat v < 2 ^ 31" using assms(2) by (simp add: word_le_nat_alt)
  have lo: "128 \<le> unat v" using assms(1) by (simp add: word_le_nat_alt)
  show "2 \<le> utf8_size v" "utf8_size v \<le> 6" using assms(1) by (auto simp: utf8_size_def)
  show "unat (drop_bit (6 * (utf8_size v - 1)) v) < 2 ^ (7 - utf8_size v)"
    using hi assms(1) by (auto simp: utf8_size_def unat_drop_bit_div word_less_nat_alt word_le_nat_alt less_mult_imp_div_less)
  show "minucs4Table ! (utf8_size v - 2) \<le> v"
    using lo by (auto simp: utf8_size_def minucs4Table_def word_less_nat_alt word_le_nat_alt)
qed


definition lead_byte :: "nat \<Rightarrow> u32 \<Rightarrow> u8" where
  "lead_byte n u = ucast (0x100 - push_bit (8 - n) 1 + u)"

definition lead_byte_ok :: "nat \<Rightarrow> u32 \<Rightarrow> bool" where
  "lead_byte_ok n u \<longleftrightarrow> ucast (lead_byte n u) AND (push_bit (7 - n) 1 - 1) = u \<and>
     lead_ones (ucast (lead_byte n u)) 1 = n \<and> ucast (lead_byte n u) AND (0x80 :: u32) \<noteq> 0 \<and>
     0xC0 \<le> lead_byte n u"

text \<open>There are only 62 first bytes: each is computed.\<close>

lemma lead_bytes_all: "list_all (\<lambda>n. list_all (\<lambda>u. lead_byte_ok n (of_nat u)) [0..<2 ^ (7 - n)]) [2..<7]"
  by code_simp

lemma lead_byte_facts:
  assumes "2 \<le> n" "n \<le> 6" "unat u < 2 ^ (7 - n)"
  shows "lead_byte_ok n u"
proof -
  have all: "\<forall>n\<in>{2..<7}. \<forall>u\<in>{0..<2 ^ (7 - n)}. lead_byte_ok n (of_nat u)"
    using lead_bytes_all unfolding list_all_iff set_upt .
  have "n \<in> {2..<7}" "unat u \<in> {0..<2 ^ (7 - n)}" using assms by auto
  then have "lead_byte_ok n (of_nat (unat u))" using all by blast
  then show ?thesis by simp
qed

lemma encode_char_eq:
  assumes "0x80 \<le> v" "v \<le> 0x7FFFFFFF"
  shows "js_OneUcs4ToUtf8Char v =
    lead_byte (utf8_size v) (drop_bit (6 * (utf8_size v - 1)) v) # snd (utf8_trail_loop (utf8_size v - 1) v [])"
proof -
  have "\<not> v < 0x80" using assms(1) by (simp add: not_less)
  moreover have "fst (utf8_trail_loop (utf8_size v - 1) v []) = drop_bit (6 * (utf8_size v - 1)) v"
    by (subst trail_loop) simp
  ultimately show ?thesis
    using utf8_length_loop_size [OF assms]
    by (simp add: js_OneUcs4ToUtf8Char_def lead_byte_def Let_def split_beta)
qed

lemma encode_char_length: "v \<le> 0x7FFFFFFF \<Longrightarrow> length (js_OneUcs4ToUtf8Char v) = utf8_size v"
proof (cases "v < 0x80")
  case True
  then show ?thesis by (simp add: js_OneUcs4ToUtf8Char_def utf8_size_def)
next
  case False
  assume "v \<le> 0x7FFFFFFF"
  with False show ?thesis using utf8_size_facts [of v] by (simp add: encode_char_eq not_less length_trail)
qed

text \<open>What the decoders see of an encoded character: its first byte gives its length.\<close>

lemma encoded_shape:
  assumes "0x80 \<le> v" "v \<le> 0x7FFFFFFF"
  obtains b bs where "js_OneUcs4ToUtf8Char v = b # bs" "length bs = utf8_size v - 1"
    "lead_ones (ucast b) 1 = utf8_size v" "ucast b AND (0x80 :: u32) \<noteq> 0" "0xC0 \<le> b" "\<forall>x\<in>set bs. x AND 0xC0 = 0x80"
proof -
  note f = utf8_size_facts [OF assms]
  show ?thesis
    using that [OF encode_char_eq [OF assms]] lead_byte_facts [OF f(1,2,3)] trail_bytes
    by (auto simp: lead_byte_ok_def length_trail)
qed

text \<open>The decoder turns U+FFFE and U+FFFF into U+FFFD, and no other character.\<close>

definition scrub :: "u32 \<Rightarrow> u32" where
  "scrub v = (if v = 0xFFFE \<or> v = 0xFFFF then 0xFFFD else v)"

lemma decode_encoded:
  assumes "v \<le> 0x7FFFFFFF"
  shows "Utf8ToOneUcs4Char (js_OneUcs4ToUtf8Char v) = scrub v"
proof (cases "v < 0x80")
  case True
  have "unat v < 128" using True by (simp add: word_less_nat_alt)
  then have "ucast (ucast v :: u8) = v" by (simp add: word_unat_eq_iff unsigned_ucast_eq unat_take_bit)
  then show ?thesis using True by (auto simp: js_OneUcs4ToUtf8Char_def Utf8ToOneUcs4Char_def scrub_def)
next
  case False
  then have lo: "0x80 \<le> v" by (simp add: not_less)
  note f = utf8_size_facts [OF lo assms]
  have len: "length (js_OneUcs4ToUtf8Char v) = utf8_size v" by (rule encode_char_length [OF assms])
  have "\<not> v < minucs4Table ! (utf8_size v - 2)" using f(4) by (simp add: not_less)
  then show ?thesis
    using f(1) len lead_byte_facts [OF f(1,2,3)] trail_roundtrip [of "utf8_size v - 1" v]
    by (simp add: Utf8ToOneUcs4Char_def Let_def encode_char_eq [OF lo assms] lead_byte_ok_def scrub_def)
qed

lemma encoded_roundtrip:
  assumes "v \<le> 0x7FFFFFFF" "v \<noteq> 0xFFFE" "v \<noteq> 0xFFFF"
  shows "Utf8ToOneUcs4Char (js_OneUcs4ToUtf8Char v) = v"
  using decode_encoded [OF assms(1)] assms(2,3) by (simp add: scrub_def)


section \<open>Round trip of strings\<close>

text \<open>The characters of a well-formed UTF-16 string.\<close>

fun utf16_chars :: "u16 list \<Rightarrow> u32 list option" where
  "utf16_chars [] = Some []"
| "utf16_chars (c # src) =
     (case utf16_char c src of
        Inl _ \<Rightarrow> None
      | Inr (v, n) \<Rightarrow> map_option ((#) v) (utf16_chars (drop n src)))"

lemma pair_units:
  assumes c: "0xD800 \<le> c" "c \<le> 0xDBFF" and c2: "0xDC00 \<le> c2" "c2 \<le> (0xDFFF :: u16)"
  defines "v \<equiv> push_bit 10 (ucast c - 0xD800) + (ucast c2 - 0xDC00) + (0x10000 :: u32)"
  shows "0x10000 \<le> v" "v \<le> 0x10FFFF" "utf16_units v = [c, c2]"
proof -
  define a where "a = unat c - 0xD800"
  define b where "b = unat c2 - 0xDC00"
  have uc: "unat c = 0xD800 + a" "a < 1024" and uc2: "unat c2 = 0xDC00 + b" "b < 1024"
    using c c2 by (auto simp: a_def b_def word_le_nat_alt)
  have ua: "unat (ucast c - (0xD800 :: u32)) = a" "unat (ucast c2 - (0xDC00 :: u32)) = b"
    using uc uc2 by (simp_all add: unat_sub_exact unat_ucast_up)
  have push: "push_bit 10 (ucast c - 0xD800 :: u32) = (ucast c - 0xD800) * 1024" by (simp add: push_bit_eq_mult)
  have "unat ((ucast c - 0xD800 :: u32) * 1024) = a * 1024"
    using ua uc by (subst unat_mult_exact) simp_all
  moreover have "unat ((ucast c - 0xD800 :: u32) * 1024 + (ucast c2 - 0xDC00)) = a * 1024 + b"
    using calculation ua uc uc2 by (subst unat_add_exact) simp_all
  ultimately have w: "unat (v - 0x10000) = a * 1024 + b"
    by (simp add: v_def push)
  have uv: "unat v = a * 1024 + b + 65536"
  proof -
    have "unat ((v - 0x10000) + 0x10000) = a * 1024 + b + 65536"
      using w uc(2) uc2(2) by (subst unat_add_exact) simp_all
    then show ?thesis by simp
  qed
  show "0x10000 \<le> v" "v \<le> 0x10FFFF" using uv uc uc2 by (simp_all add: word_le_nat_alt)
  have hi: "unat (drop_bit 10 (v - 0x10000)) = a" using w uc2 by (simp add: unat_drop_bit_div)
  have "(v - 0x10000) AND 0x3FF = take_bit 10 (v - 0x10000)" by (simp add: take_bit_eq_mask mask_eq_exp_minus_1)
  then have lo: "unat ((v - 0x10000) AND 0x3FF) = b" using w uc2 by (simp add: unat_take_bit)
  have "unat (drop_bit 10 (v - 0x10000) + 0xD800) = unat c" using hi uc by (subst unat_add_exact) simp_all
  then have 1: "ucast (drop_bit 10 (v - 0x10000) + 0xD800) = c"
    using unsigned_less [of c, where 'a = nat]
    by (simp add: word_unat_eq_iff unsigned_ucast_eq unat_take_bit take_bit_nat_eq_self)
  have "unat (((v - 0x10000) AND 0x3FF) + 0xDC00) = unat c2" using lo uc2 by (subst unat_add_exact) simp_all
  then have "ucast (((v - 0x10000) AND 0x3FF) + 0xDC00) = c2"
    using unsigned_less [of c2, where 'a = nat]
    by (simp add: word_unat_eq_iff unsigned_ucast_eq unat_take_bit take_bit_nat_eq_self)
  with 1 show "utf16_units v = [c, c2]" using \<open>0x10000 \<le> v\<close> by (simp add: utf16_units_def)
qed

lemma utf16_char_units:
  assumes "utf16_char c src = Inr (v, n)"
  shows "v \<le> 0x10FFFF \<and> n \<le> length src \<and> utf16_units v = c # take n src \<and> (n = 0 \<longleftrightarrow> v < 0x10000) \<and> n \<le> 1"
proof (cases "c < 0xD800 \<or> 0xDBFF < c")
  case True
  then have v: "v = ucast c" "n = 0" using assms by (auto simp: utf16_char_def split: if_splits)
  have "unat v < 0x10000" using unsigned_less [of c, where 'a = nat] v by (simp add: unat_ucast_up)
  moreover have "ucast (ucast c :: u32) = c" by (rule ucast_up_down) simp
  ultimately show ?thesis using v by (simp add: utf16_units_def word_le_nat_alt word_less_nat_alt)
next
  case False
  then obtain c2 rest where s: "src = c2 # rest" "0xDC00 \<le> c2" "c2 \<le> 0xDFFF" "n = 1"
      "v = push_bit 10 (ucast c - 0xD800) + (ucast c2 - 0xDC00) + 0x10000"
    using assms by (auto simp: utf16_char_def not_less split: if_splits list.splits)
  have c: "0xD800 \<le> c" "c \<le> 0xDBFF" using False by (simp_all add: not_less)
  show ?thesis using pair_units [OF c s(2,3)] s by (simp add: not_less)
qed

lemma utf16_chars_units:
  "utf16_chars src = Some vs \<Longrightarrow> concat (map utf16_units vs) = src \<and> (\<forall>v\<in>set vs. v \<le> 0x10FFFF)"
proof (induction src arbitrary: vs rule: utf16_chars.induct)
  case (2 c src)
  then obtain v n where vn: "utf16_char c src = Inr (v, n)" by (auto split: sum.splits)
  then obtain ws where ws: "utf16_chars (drop n src) = Some ws" "vs = v # ws" using 2(2) by auto
  have "concat (map utf16_units ws) = drop n src \<and> (\<forall>v\<in>set ws. v \<le> 0x10FFFF)"
    using 2(1) [OF vn refl ws(1)] by simp
  then show ?case using ws utf16_char_units [OF vn] by simp
qed simp

lemma encode_small: "v < 0x80 \<Longrightarrow> js_OneUcs4ToUtf8Char v = [ucast v]"
  by (simp add: js_OneUcs4ToUtf8Char_def)

lemma deflate_chars:
  "utf16_chars src = Some vs \<Longrightarrow> (\<forall>r. room = Some r \<longrightarrow> length (concat (map js_OneUcs4ToUtf8Char vs)) \<le> r) \<Longrightarrow>
     deflate_utf8 src room out = (out @ concat (map js_OneUcs4ToUtf8Char vs), None)"
proof (induction src room out arbitrary: vs rule: deflate_utf8.induct)
  case (2 c src room out)
  then obtain v n where vn: "utf16_char c src = Inr (v, n)" by (auto split: sum.splits)
  then obtain ws where ws: "utf16_chars (drop n src) = Some ws" "vs = v # ws" using 2(2) by auto
  have buf: "(if v < 0x80 then [ucast v] else js_OneUcs4ToUtf8Char v) = js_OneUcs4ToUtf8Char v"
    by (simp add: encode_small)
  have fits: "fits (length (js_OneUcs4ToUtf8Char v)) room" using 2(3) ws by (auto simp: fits_def split: option.split)
  have "\<forall>r. less_room room (length (js_OneUcs4ToUtf8Char v)) = Some r \<longrightarrow> length (concat (map js_OneUcs4ToUtf8Char ws)) \<le> r"
    using 2(3) ws by auto
  from 2(1) [OF vn refl buf [symmetric] fits ws(1) this] show ?case
    using vn fits ws by (simp add: buf)
qed simp

lemma deflate_bad:
  "utf16_chars src = None \<Longrightarrow> snd (deflate_utf8 src room out) \<noteq> None"
proof (induction src room out rule: deflate_utf8.induct)
  case (2 c src room out)
  show ?case
  proof (cases "utf16_char c src")
    case (Inr p)
    obtain v n where p: "p = (v, n)" by (cases p)
    have none: "utf16_chars (drop n src) = None" using 2(2) Inr p by simp
    show ?thesis using 2(1) [OF Inr [unfolded p] refl refl _ none] Inr p by (simp add: Let_def)
  qed simp
qed simp


lemma small_high_bit: "v < 0x80 \<Longrightarrow> v AND 0x80 = 0" for v :: u32
proof -
  assume "v < 0x80"
  then have "unat v < 2 ^ 7" by (simp add: word_less_nat_alt)
  then have "\<not> bit v 7" by (simp add: bit_unat div_less)
  then show ?thesis by (intro bit_word_eqI) (auto simp: bit_and_iff mask_bits)
qed

lemma utf8_char_encoded:
  assumes "v \<le> 0x7FFFFFFF" "js_OneUcs4ToUtf8Char v = b # bs"
  shows "utf8_char b (bs @ rest) offset = Inr (scrub v, Suc (length bs))"
proof (cases "v < 0x80")
  case True
  have "unat v < 256" using True by (simp add: word_less_nat_alt)
  then have "ucast (ucast v :: u8) = v" by (simp add: word_unat_eq_iff unsigned_ucast_eq unat_take_bit)
  then show ?thesis using assms(2) True by (auto simp: encode_small utf8_char_def small_high_bit scrub_def)
next
  case False
  then have lo: "0x80 \<le> v" by (simp add: not_less)
  obtain b' bs' where s: "js_OneUcs4ToUtf8Char v = b' # bs'" "length bs' = utf8_size v - 1"
    "lead_ones (ucast b') 1 = utf8_size v" "ucast b' AND (0x80 :: u32) \<noteq> 0" "\<forall>x\<in>set bs'. x AND 0xC0 = 0x80"
    by (rule encoded_shape [OF lo assms(1)]) blast
  have b: "b' = b" "bs' = bs" using s(1) assms(2) by simp_all
  note f = utf8_size_facts(1,2) [OF lo assms(1)]
  have v: "Utf8ToOneUcs4Char (b # bs) = scrub v" using decode_encoded [OF assms(1)] assms(2) by simp
  show ?thesis using s(2-5) f v by (simp add: utf8_char_def b Let_def)
qed

lemma utf16_units_length: "length (utf16_units v) = (if 0x10000 \<le> v then 2 else 1)"
  by (simp add: utf16_units_def)

lemma scrub_bound: "v \<le> 0x10FFFF \<Longrightarrow> scrub v \<le> 0x10FFFF"
  by (simp add: scrub_def)

lemma inflate_chars:
  assumes "\<forall>v\<in>set vs. v \<le> 0x10FFFF"
    and "\<forall>r. room = Some r \<longrightarrow> length (concat (map (\<lambda>v. utf16_units (scrub v)) vs)) \<le> r"
  shows "inflate_utf8 (concat (map js_OneUcs4ToUtf8Char vs)) room offset out =
    (out @ concat (map (\<lambda>v. utf16_units (scrub v)) vs), None)"
  using assms
proof (induction vs arbitrary: room offset out)
  case (Cons v vs)
  define w where "w = scrub v"
  have v: "v \<le> 0x7FFFFFFF" "w \<le> 0x10FFFF"
    using Cons.prems(1) scrub_bound [of v] by (auto simp: word_le_nat_alt w_def)
  have "js_OneUcs4ToUtf8Char v \<noteq> []" using encode_char_length [OF v(1)] by (auto simp: utf8_size_def split: if_splits)
  then obtain b bs where b: "js_OneUcs4ToUtf8Char v = b # bs" by (cases "js_OneUcs4ToUtf8Char v") auto
  have char: "utf8_char b (bs @ concat (map js_OneUcs4ToUtf8Char vs)) offset = Inr (w, Suc (length bs))"
    unfolding w_def by (rule utf8_char_encoded [OF v(1) b])
  have fits: "fits (length (utf16_units w)) room"
    using Cons.prems(2) by (auto simp: fits_def w_def split: option.split)
  have big: "\<not> (0x10000 \<le> w \<and> (0xFFFFF < w - 0x10000 \<or> \<not> fits 2 room))"
  proof
    assume h: "0x10000 \<le> w \<and> (0xFFFFF < w - 0x10000 \<or> \<not> fits 2 room)"
    then have "unat (w - 0x10000) = unat w - 0x10000" by (simp add: unat_sub_exact word_le_nat_alt)
    then have "\<not> 0xFFFFF < w - 0x10000" using v(2) by (simp add: word_le_nat_alt word_less_nat_alt)
    then show False using h fits by (simp add: utf16_units_length)
  qed
  have "\<forall>r. less_room room (length (utf16_units w)) = Some r \<longrightarrow>
      length (concat (map (\<lambda>v. utf16_units (scrub v)) vs)) \<le> r"
    using Cons.prems(2) by (auto simp: w_def)
  from Cons.IH [OF _ this, of "offset + Suc (length bs)" "out @ utf16_units w"] show ?case
    using Cons.prems(1) char fits big by (simp add: b w_def)
qed simp

text \<open>The same on the units of a string: no surrogate is replaced.\<close>

definition scrub_unit :: "u16 \<Rightarrow> u16" where
  "scrub_unit u = (if u = 0xFFFE \<or> u = 0xFFFF then 0xFFFD else u)"

lemma scrub_units:
  assumes "v \<le> 0x10FFFF"
  shows "utf16_units (scrub v) = map scrub_unit (utf16_units v)"
proof (cases "0x10000 \<le> v")
  case True
  then have s: "scrub v = v" by (auto simp: scrub_def)
  have w: "unat (v - 0x10000) < 2 ^ 20"
    using True assms by (simp add: unat_sub_exact word_le_nat_alt)
  define a :: u32 where "a = drop_bit 10 (v - 0x10000)"
  define b :: u32 where "b = (v - 0x10000) AND 0x3FF"
  have "b = take_bit 10 (v - 0x10000)" by (simp add: b_def take_bit_eq_mask mask_eq_exp_minus_1)
  then have ab: "unat a < 1024" "unat b < 1024"
    using w by (simp_all add: a_def unat_drop_bit_div unat_take_bit)
  have a: "unat (ucast (a + 0xD800) :: u16) = unat a + 0xD800"
    using ab(1) by (simp add: unsigned_ucast_eq unat_add_exact take_bit_nat_eq_self)
  have b: "unat (ucast (b + 0xDC00) :: u16) = unat b + 0xDC00"
    using ab(2) by (simp add: unsigned_ucast_eq unat_add_exact take_bit_nat_eq_self)
  have k: "scrub_unit u = u" if "unat u < 0xFFFE" for u
    using that by (auto simp: scrub_unit_def)
  have "scrub_unit (ucast (a + 0xD800)) = ucast (a + 0xD800)" "scrub_unit (ucast (b + 0xDC00)) = ucast (b + 0xDC00)"
    using a b ab by (auto intro!: k)
  then show ?thesis using True s by (simp add: utf16_units_def a_def b_def)
next
  case False
  then have u: "unat (ucast v :: u16) = unat v"
    by (simp add: unsigned_ucast_eq not_le word_less_nat_alt take_bit_nat_eq_self)
  have e: "(ucast v :: u16) = of_nat k \<longleftrightarrow> v = of_nat k" if "k < 65536" for k
    using u that by (auto simp: word_unat_eq_iff unat_of_nat take_bit_nat_eq_self)
  show ?thesis using False e [of 65534] e [of 65535] by (simp add: utf16_units_def scrub_def scrub_unit_def)
qed

lemma scrub_string:
  "\<forall>v\<in>set vs. v \<le> 0x10FFFF \<Longrightarrow>
     concat (map (\<lambda>v. utf16_units (scrub v)) vs) = map scrub_unit (concat (map utf16_units vs))"
  by (induction vs) (simp_all add: scrub_units)


section \<open>The two passes agree\<close>

lemma inflate_grows: "inflate_utf8 src room offset out = (res, e) \<Longrightarrow> length out \<le> length res"
proof (induction src room offset out rule: inflate_utf8.induct)
  case (2 b src room offset out)
  then show ?case
    by (fastforce split: sum.splits prod.splits if_splits)
qed simp

lemma inflate_sized:
  "inflate_utf8 src None offset out = (res, None) \<Longrightarrow> length res \<le> length out + r \<Longrightarrow>
     inflate_utf8 src (Some r) offset out = (res, None)"
proof (induction src "None :: nat option" offset out arbitrary: r rule: inflate_utf8.induct)
  case (2 b src offset out)
  then obtain v n where vn: "utf8_char b src offset = Inr (v, n)" by (auto split: sum.splits)
  have fits: "fits k None" for k by (simp add: fits_def)
  have big: "\<not> (0x10000 \<le> v \<and> 0xFFFFF < v - 0x10000)" using 2(2) vn by (auto simp: fits split: if_splits)
  have next_run: "inflate_utf8 (drop (n - 1) src) None (offset + n) (out @ utf16_units v) = (res, None)"
    using 2(2) vn big by (simp add: fits)
  have len: "length out + length (utf16_units v) \<le> length res" using inflate_grows [OF next_run] by simp
  have r: "length (utf16_units v) \<le> r" using len 2(3) by simp
  have "inflate_utf8 (drop (n - 1) src) (Some (r - length (utf16_units v))) (offset + n) (out @ utf16_units v) = (res, None)"
    using 2(1) [OF vn refl _ _ _ next_run] big fits r 2(3) by simp
  then show ?case using vn big r by (simp add: fits_def utf16_units_length split: if_splits)
qed simp

section \<open>Properties\<close>

text \<open>
  C20: deflating any well-formed UTF-16 string and inflating the bytes gives the string back
  with every U+FFFE and U+FFFF replaced by U+FFFD, which is what the decoder does with these
  two characters, when memory suffices. A string without them comes back unchanged.
\<close>

theorem utf8_string_roundtrip:
  assumes "utf16_chars src = Some vs" and "\<And>n. am n"
  shows "\<exists>bytes. js_DeflateString_utf8 am src = Some bytes \<and>
    js_InflateString_utf8 am bytes = Some (map (\<lambda>u. if u = 0xFFFE \<or> u = 0xFFFF then 0xFFFD else u) src)"
proof -
  define bytes where "bytes = concat (map js_OneUcs4ToUtf8Char vs)"
  define got where "got = concat (map (\<lambda>v. utf16_units (scrub v)) vs)"
  have units: "concat (map utf16_units vs) = src" "\<forall>v\<in>set vs. v \<le> 0x10FFFF"
    using utf16_chars_units [OF assms(1)] by simp_all
  have d: "js_DeflateStringToBuffer_utf8 src room = (bytes, None)" if "room = None \<or> room = Some (length bytes)" for room
    using deflate_chars [OF assms(1), of room "[]"] that by (auto simp: js_DeflateStringToBuffer_utf8_def bytes_def)
  have i: "js_InflateStringToBuffer_utf8 bytes room = (got, None)" if "room = None \<or> room = Some (length got)" for room
    using inflate_chars [of vs room 0 "[]"] units that
    by (auto simp: js_InflateStringToBuffer_utf8_def bytes_def got_def)
  have "got = map scrub_unit src" using scrub_string [OF units(2)] units(1) by (simp add: got_def)
  then have "got = map (\<lambda>u. if u = 0xFFFE \<or> u = 0xFFFF then 0xFFFD else u) src" by (simp add: scrub_unit_def)
  then show ?thesis
    using d i assms(2) by (simp add: js_DeflateString_utf8_def js_InflateString_utf8_def)
qed

theorem utf8_string_roundtrip_witness:
  "\<exists>bytes. js_DeflateString_utf8 (\<lambda>_. True) [0x41, 0x20AC, 0xD834, 0xDD1E, 0xFFFE] = Some bytes \<and>
     js_InflateString_utf8 (\<lambda>_. True) bytes = Some [0x41, 0x20AC, 0xD834, 0xDD1E, 0xFFFD]"
proof -
  have "utf16_chars [0x41, 0x20AC, 0xD834, 0xDD1E, 0xFFFE] = Some [0x41, 0x20AC, 0x1D11E, 0xFFFE]" by code_simp
  from utf8_string_roundtrip [OF this] show ?thesis by simp
qed

text \<open>
  the sizing pass of inflating is exact: on any bytes it accepts, the writing pass into
  a buffer of that many units succeeds and fills the whole buffer.
\<close>

theorem inflate_passes_agree:
  assumes "js_InflateStringToBuffer_utf8 bytes None = (out, None)"
  shows "js_InflateStringToBuffer_utf8 bytes (Some (length out)) = (out, None)"
  using inflate_sized [of bytes 0 "[]" out "length out"] assms by (simp add: js_InflateStringToBuffer_utf8_def)

theorem inflate_passes_agree_witness:
  "js_InflateStringToBuffer_utf8 [0xE2, 0x82, 0xAC] (Some 1) = ([0x20AC], None)"
proof -
  have "js_InflateStringToBuffer_utf8 [0xE2, 0x82, 0xAC] None = ([0x20AC], None)" by code_simp
  from inflate_passes_agree [OF this] show ?thesis by simp
qed

text \<open>
  the table of least characters is a zero short for four bytes, so a character between
  U+1000 and U+FFFD is also accepted in a four-byte form that begins with F0, although the
  three bytes the encoder writes are the shortest.
\<close>

theorem overlong_utf8_accepted:
  assumes "0x1000 \<le> v" and "v < 0xFFFE"
  shows "js_InflateStringToBuffer_utf8
      [0xF0, ucast ((drop_bit 12 v AND 0x3F) OR 0x80), ucast ((drop_bit 6 v AND 0x3F) OR 0x80), ucast ((v AND 0x3F) OR 0x80)]
      None = ([ucast v], None) \<and> length (js_OneUcs4ToUtf8Char v) = 3"
proof -
  define t1 t2 t3 :: u8 where "t1 = ucast ((drop_bit 12 v AND 0x3F) OR 0x80)"
    and "t2 = ucast ((drop_bit 6 v AND 0x3F) OR 0x80)" and "t3 = ucast ((v AND 0x3F) OR 0x80)"
  have trail: "snd (utf8_trail_loop 3 v []) = [t1, t2, t3]"
    by (simp add: numeral_3_eq_3 t1_def t2_def t3_def)
  have "unat v < 2 ^ 18" "v \<noteq> 0xFFFE" "v \<noteq> 0xFFFF" using assms(2) by (auto simp: word_less_nat_alt)
  then have hi: "drop_bit 18 v = 0" using drop_bit_neq_0_iff [of 18 v] by (simp add: not_le)
  have "\<not> v < 0x1000" using assms(1) by (simp add: not_less)
  then have u: "Utf8ToOneUcs4Char [0xF0, t1, t2, t3] = v"
    using trail_roundtrip [of 3 v] \<open>v \<noteq> 0xFFFE\<close> \<open>v \<noteq> 0xFFFF\<close>
    by (simp add: Utf8ToOneUcs4Char_def trail hi minucs4Table_def)
  have c: "t1 AND 0xC0 = 0x80" "t2 AND 0xC0 = 0x80" "t3 AND 0xC0 = 0x80"
    unfolding t1_def t2_def t3_def by (rule trail_byte)+
  have l: "lead_ones (ucast (0xF0 :: u8)) 1 = 4" by code_simp
  have "utf8_char 0xF0 [t1, t2, t3] 0 = Inr (v, 4)"
    using l u c by (simp add: utf8_char_def)
  moreover have "\<not> 0x10000 \<le> v" using assms(2) by (simp add: word_le_nat_alt word_less_nat_alt)
  ultimately have "js_InflateStringToBuffer_utf8 [0xF0, t1, t2, t3] None = ([ucast v], None)"
    by (simp add: js_InflateStringToBuffer_utf8_def fits_def utf16_units_def)
  moreover have "v \<le> 0x7FFFFFFF" using assms(2) by (simp add: word_le_nat_alt word_less_nat_alt)
  then have "length (js_OneUcs4ToUtf8Char v) = 3"
    using assms by (simp add: encode_char_length utf8_size_def word_le_nat_alt word_less_nat_alt)
  ultimately show ?thesis by (simp add: t1_def t2_def t3_def)
qed

theorem overlong_utf8_accepted_witness:
  "js_InflateStringToBuffer_utf8 [0xF0, 0x82, 0x82, 0xAC] None = ([0x20AC], None)"
  using overlong_utf8_accepted [of "0x20AC"] by simp

end
