(* ===== verification/JS_Uri.thy ===== *)
theory JS_Uri
  imports JS_Utf8
begin

text \<open>
  The URI functions of the global object (jsstr.c): the ECMA hidden functions Encode and
  Decode and the four natives built on them, with the growing result string. Every read of
  the input is checked against its length, so that reading past the end is an outcome the
  theorems exclude.
\<close>

section \<open>Data\<close>

datatype uri_error = BAD_URI | OUT_OF_MEMORY | READ_PAST_END

definition js_uriReservedPlusPound_ucstr :: "u16 list" where
  "js_uriReservedPlusPound_ucstr = [0x3B, 0x2F, 0x3F, 0x3A, 0x40, 0x26, 0x3D, 0x2B, 0x24, 0x2C, 0x23]"

definition js_uriUnescaped_ucstr :: "u16 list" where
  "js_uriUnescaped_ucstr =
     [0x30, 0x31, 0x32, 0x33, 0x34, 0x35, 0x36, 0x37, 0x38, 0x39,
      0x41, 0x42, 0x43, 0x44, 0x45, 0x46, 0x47, 0x48, 0x49, 0x4A, 0x4B, 0x4C, 0x4D,
      0x4E, 0x4F, 0x50, 0x51, 0x52, 0x53, 0x54, 0x55, 0x56, 0x57, 0x58, 0x59, 0x5A,
      0x61, 0x62, 0x63, 0x64, 0x65, 0x66, 0x67, 0x68, 0x69, 0x6A, 0x6B, 0x6C, 0x6D,
      0x6E, 0x6F, 0x70, 0x71, 0x72, 0x73, 0x74, 0x75, 0x76, 0x77, 0x78, 0x79, 0x7A,
      0x2D, 0x5F, 0x2E, 0x21, 0x7E, 0x2A, 0x27, 0x28, 0x29]"

definition js_empty_ucstr :: "u16 list" where "js_empty_ucstr = []"

text \<open>A zero-terminated set of units, without its terminator.\<close>

definition js_strchr :: "u16 list \<Rightarrow> u16 \<Rightarrow> bool" where
  "js_strchr s c \<longleftrightarrow> c \<in> set s"

definition JS7_ISHEX :: "u16 \<Rightarrow> bool" where
  "JS7_ISHEX c \<longleftrightarrow> c < 128 \<and> (0x30 \<le> c \<and> c \<le> 0x39 \<or> 0x41 \<le> c \<and> c \<le> 0x46 \<or> 0x61 \<le> c \<and> c \<le> 0x66)"

definition JS7_UNHEX :: "u16 \<Rightarrow> u32" where
  "JS7_UNHEX c = (if 0x30 \<le> c \<and> c \<le> 0x39 then ucast c - 0x30
     else 10 + (if 0x41 \<le> c \<and> c \<le> 0x5A then ucast c + 0x20 else ucast c) - 0x61)"

definition HexDigits :: "u16 list" where
  "HexDigits = [0x30, 0x31, 0x32, 0x33, 0x34, 0x35, 0x36, 0x37, 0x38, 0x39, 0x41, 0x42, 0x43, 0x44, 0x45, 0x46]"

section \<open>The result string\<close>

text \<open>
  The units of \<open>R\<close> without the terminator, and how many units its buffer holds (0 for a null
  buffer). Sizes are natural numbers: no string is near the size of the address space.
\<close>

record uri_string =
  us_chars :: "u16 list"
  us_capacity :: nat

definition URI_CHUNK :: nat where "URI_CHUNK = 64"

definition JS_HOWMANY :: "nat \<Rightarrow> nat \<Rightarrow> nat" where "JS_HOWMANY x y = (x + y - 1) div y"

definition JS_ROUNDUP :: "nat \<Rightarrow> nat \<Rightarrow> nat" where "JS_ROUNDUP x y = JS_HOWMANY x y * y"

definition AddCharsToURI ::
  "(nat \<Rightarrow> bool) \<Rightarrow> uri_string \<Rightarrow> u16 list \<Rightarrow> uri_error + uri_string" where
  "AddCharsToURI am str chars =
     (let total = length (us_chars str) + length chars + 1;
          grown = str\<lparr>us_chars := us_chars str @ chars\<rparr>
      in if us_capacity str = 0 \<or> JS_HOWMANY (length (us_chars str) + 1) URI_CHUNK < JS_HOWMANY total URI_CHUNK then
           (let total = JS_ROUNDUP total URI_CHUNK
            in if am (total * 2) then Inr (grown\<lparr>us_capacity := total\<rparr>) else Inl OUT_OF_MEMORY)
         else Inr grown)"

section \<open>Encode\<close>

definition hexBuf :: "u8 \<Rightarrow> u16 list" where
  "hexBuf b = [0x25, HexDigits ! unat (drop_bit 4 b), HexDigits ! unat (b AND 0xF)]"

fun add_hex :: "(nat \<Rightarrow> bool) \<Rightarrow> uri_string \<Rightarrow> u8 list \<Rightarrow> uri_error + uri_string" where
  "add_hex am R [] = Inr R"
| "add_hex am R (b # bs) = bind_sum (AddCharsToURI am R (hexBuf b)) (\<lambda>R. add_hex am R bs)"

fun encode_loop ::
  "(nat \<Rightarrow> bool) \<Rightarrow> u16 list \<Rightarrow> u16 list option \<Rightarrow> u16 list \<Rightarrow> uri_string \<Rightarrow> uri_error + uri_string" where
  "encode_loop am set1 set2 [] R = Inr R"
| "encode_loop am set1 set2 (c # chars) R =
     (if js_strchr set1 c \<or> (case set2 of None \<Rightarrow> False | Some s \<Rightarrow> js_strchr s c) then
        bind_sum (AddCharsToURI am R [c]) (encode_loop am set1 set2 chars)
      else if 0xDC00 \<le> c \<and> c \<le> 0xDFFF then Inl BAD_URI
      else if c < 0xD800 \<or> 0xDBFF < c then
        bind_sum (add_hex am R (js_OneUcs4ToUtf8Char (ucast c))) (encode_loop am set1 set2 chars)
      else
        (case chars of
           [] \<Rightarrow> Inl BAD_URI
         | c2 # chars' \<Rightarrow>
             if c2 < 0xDC00 \<or> 0xDFFF < c2 then Inl BAD_URI
             else
               let v = push_bit 10 (ucast c - 0xD800) + (ucast c2 - 0xDC00) + 0x10000
               in bind_sum (add_hex am R (js_OneUcs4ToUtf8Char v)) (encode_loop am set1 set2 chars')))"

text \<open>
  \<open>gc\<close> says whether \<open>js_NewString\<close> gets its string; the shrinking realloc at the end does
  not change the units. The result is the string.
\<close>

definition Encode ::
  "bool \<Rightarrow> (nat \<Rightarrow> bool) \<Rightarrow> u16 list \<Rightarrow> u16 list \<Rightarrow> u16 list option \<Rightarrow> uri_error + u16 list" where
  "Encode gc am str unescapedSet unescapedSet2 =
     (if str = [] then Inr []
      else if \<not> gc then Inl OUT_OF_MEMORY
      else bind_sum (encode_loop am unescapedSet unescapedSet2 str \<lparr>us_chars = [], us_capacity = 0\<rparr>)
             (\<lambda>R. Inr (us_chars R)))"

section \<open>Decode\<close>

definition read_char :: "u16 list \<Rightarrow> nat \<Rightarrow> uri_error + u16" where
  "read_char chars k = (if k < length chars then Inr (chars ! k) else Inl READ_PAST_END)"

text \<open>The byte of the two hex digits after \<open>k\<close>; the second is read only after the first.\<close>

definition hex_octet :: "u16 list \<Rightarrow> nat \<Rightarrow> uri_error + u32" where
  "hex_octet chars k =
     bind_sum (read_char chars (k + 1)) (\<lambda>h1.
       if \<not> JS7_ISHEX h1 then Inl BAD_URI
       else bind_sum (read_char chars (k + 2)) (\<lambda>h2.
         if \<not> JS7_ISHEX h2 then Inl BAD_URI
         else Inr (JS7_UNHEX h1 * 16 + JS7_UNHEX h2)))"

text \<open>The loop over the \<open>m\<close> continuation bytes, from position \<open>k\<close>, the last one read.\<close>

fun decode_octets :: "u16 list \<Rightarrow> nat \<Rightarrow> nat \<Rightarrow> u8 list \<Rightarrow> uri_error + u8 list" where
  "decode_octets chars k 0 octets = Inr octets"
| "decode_octets chars k (Suc m) octets =
     bind_sum (read_char chars (k + 1)) (\<lambda>c.
       if c \<noteq> 0x25 then Inl BAD_URI
       else bind_sum (hex_octet chars (k + 1)) (\<lambda>B.
         if B AND 0xC0 \<noteq> 0x80 then Inl BAD_URI
         else decode_octets chars (k + 3) m (octets @ [ucast B])))"

text \<open>The end of the body of the loop: \<open>len\<close> units from \<open>start\<close> stand for \<open>c\<close>.\<close>

definition decode_emit ::
  "(nat \<Rightarrow> bool) \<Rightarrow> u16 list \<Rightarrow> u16 list \<Rightarrow> nat \<Rightarrow> nat \<Rightarrow> u16 \<Rightarrow> uri_string \<Rightarrow> uri_error + nat \<times> uri_string" where
  "decode_emit am chars reservedSet start len c R =
     bind_sum
       (if js_strchr reservedSet c then AddCharsToURI am R (take len (drop start chars))
        else AddCharsToURI am R [c])
       (\<lambda>R. Inr (len - 1, R))"

text \<open>
  One turn of the loop at \<open>k\<close>: how far \<open>k\<close> was moved besides its own increment, and the
  result string.
\<close>

definition decode_char ::
  "(nat \<Rightarrow> bool) \<Rightarrow> u16 list \<Rightarrow> u16 list \<Rightarrow> nat \<Rightarrow> uri_string \<Rightarrow> uri_error + nat \<times> uri_string" where
  "decode_char am chars reservedSet k R =
     bind_sum (read_char chars k) (\<lambda>c.
       if c \<noteq> 0x25 then bind_sum (AddCharsToURI am R [c]) (\<lambda>R. Inr (0, R))
       else if length chars \<le> k + 2 then Inl BAD_URI
       else bind_sum (hex_octet chars k) (\<lambda>B.
         if B AND 0x80 = 0 then decode_emit am chars reservedSet k 3 (ucast B) R
         else
           let n = lead_ones B 1
           in if n = 1 \<or> 6 < n then Inl BAD_URI
              else if length chars \<le> k + 2 + 3 * (n - 1) then Inl BAD_URI
              else bind_sum (decode_octets chars (k + 2) (n - 1) [ucast B]) (\<lambda>octets.
                let v = Utf8ToOneUcs4Char octets
                in if 0x10000 \<le> v then
                     (let v = v - 0x10000
                      in if 0xFFFFF < v then Inl BAD_URI
                         else bind_sum (AddCharsToURI am R [ucast (drop_bit 10 v + 0xD800)])
                                (decode_emit am chars reservedSet k (3 * n) (ucast ((v AND 0x3FF) + 0xDC00))))
                   else decode_emit am chars reservedSet k (3 * n) (ucast v) R)))"

function decode_loop ::
  "(nat \<Rightarrow> bool) \<Rightarrow> u16 list \<Rightarrow> u16 list \<Rightarrow> nat \<Rightarrow> uri_string \<Rightarrow> uri_error + uri_string" where
  "decode_loop am chars reservedSet k R =
     (if k < length chars then
        (case decode_char am chars reservedSet k R of
           Inl e \<Rightarrow> Inl e
         | Inr (d, R) \<Rightarrow> decode_loop am chars reservedSet (k + d + 1) R)
      else Inr R)"
  by pat_completeness auto
termination by (relation "measure (\<lambda>(am, chars, reservedSet, k, R). length chars - k)") auto

declare decode_loop.simps [simp del]

definition Decode :: "bool \<Rightarrow> (nat \<Rightarrow> bool) \<Rightarrow> u16 list \<Rightarrow> u16 list \<Rightarrow> uri_error + u16 list" where
  "Decode gc am str reservedSet =
     (if str = [] then Inr []
      else if \<not> gc then Inl OUT_OF_MEMORY
      else bind_sum (decode_loop am str reservedSet 0 \<lparr>us_chars = [], us_capacity = 0\<rparr>)
             (\<lambda>R. Inr (us_chars R)))"

section \<open>The natives\<close>

definition str_decodeURI :: "bool \<Rightarrow> (nat \<Rightarrow> bool) \<Rightarrow> u16 list \<Rightarrow> uri_error + u16 list" where
  "str_decodeURI gc am str = Decode gc am str js_uriReservedPlusPound_ucstr"

definition str_decodeURI_Component :: "bool \<Rightarrow> (nat \<Rightarrow> bool) \<Rightarrow> u16 list \<Rightarrow> uri_error + u16 list" where
  "str_decodeURI_Component gc am str = Decode gc am str js_empty_ucstr"

definition str_encodeURI :: "bool \<Rightarrow> (nat \<Rightarrow> bool) \<Rightarrow> u16 list \<Rightarrow> uri_error + u16 list" where
  "str_encodeURI gc am str = Encode gc am str js_uriReservedPlusPound_ucstr (Some js_uriUnescaped_ucstr)"

definition str_encodeURI_Component :: "bool \<Rightarrow> (nat \<Rightarrow> bool) \<Rightarrow> u16 list \<Rightarrow> uri_error + u16 list" where
  "str_encodeURI_Component gc am str = Encode gc am str js_uriUnescaped_ucstr None"


section \<open>The result string holds what was added\<close>

text \<open>The buffer is the smallest whole number of chunks that holds the units and a terminator.\<close>

definition us_ok :: "uri_string \<Rightarrow> bool" where
  "us_ok R \<longleftrightarrow> (if us_capacity R = 0 then us_chars R = []
     else us_capacity R = JS_ROUNDUP (length (us_chars R) + 1) URI_CHUNK)"

lemma roundup_ge: "n \<le> JS_ROUNDUP n URI_CHUNK"
proof -
  have "n + 63 < 64 * ((n + 63) div 64) + 64" using dividend_less_times_div [of 64 "n + 63"] by simp
  then show ?thesis by (simp add: JS_ROUNDUP_def JS_HOWMANY_def URI_CHUNK_def mult.commute)
qed

lemma howmany_mono: "m \<le> n \<Longrightarrow> JS_HOWMANY m URI_CHUNK \<le> JS_HOWMANY n URI_CHUNK"
  by (simp add: JS_HOWMANY_def div_le_mono)

lemma add_chars_ok:
  assumes "us_ok R" "AddCharsToURI am R cs = Inr R'"
  shows "us_ok R' \<and> us_chars R' = us_chars R @ cs \<and> length (us_chars R') + 1 \<le> us_capacity R'"
proof -
  have mono: "JS_HOWMANY (length (us_chars R) + 1) URI_CHUNK \<le> JS_HOWMANY (length (us_chars R) + length cs + 1) URI_CHUNK"
    by (rule howmany_mono) simp
  have "us_chars R' = us_chars R @ cs" using assms(2) by (auto simp: AddCharsToURI_def Let_def split: if_splits)
  moreover have cap: "us_capacity R' = JS_ROUNDUP (length (us_chars R) + length cs + 1) URI_CHUNK"
    using assms mono by (auto simp: AddCharsToURI_def Let_def us_ok_def JS_ROUNDUP_def split: if_splits)
  moreover have "length (us_chars R) + length cs + 1 \<le> us_capacity R'" unfolding cap by (rule roundup_ge)
  ultimately show ?thesis by (simp add: us_ok_def)
qed

lemma add_chars_memory:
  assumes "\<And>n. am n" shows "\<exists>R'. AddCharsToURI am R cs = Inr R' \<and> us_chars R' = us_chars R @ cs"
  using assms by (auto simp: AddCharsToURI_def Let_def)

section \<open>What encoding writes\<close>

definition uri_hex :: "u32 \<Rightarrow> u16 list" where
  "uri_hex v = concat (map hexBuf (js_OneUcs4ToUtf8Char v))"

text \<open>
  The pieces of a string: the units of a character and how they are written, \<open>keep\<close> being the
  set of units written as they are.
\<close>

fun uri_pieces :: "(u16 \<Rightarrow> bool) \<Rightarrow> u16 list \<Rightarrow> (u16 list \<times> u16 list) list option" where
  "uri_pieces keep [] = Some []"
| "uri_pieces keep (c # cs) =
     (if keep c then map_option ((#) ([c], [c])) (uri_pieces keep cs)
      else case utf16_char c cs of
             Inl _ \<Rightarrow> None
           | Inr (v, n) \<Rightarrow> map_option ((#) (c # take n cs, uri_hex v)) (uri_pieces keep (drop n cs)))"

lemma add_hex_all:
  assumes "\<And>n. am n" shows "\<exists>R'. add_hex am R bs = Inr R' \<and> us_chars R' = us_chars R @ concat (map hexBuf bs)"
proof (induction bs arbitrary: R)
  case (Cons b bs)
  obtain R1 where "AddCharsToURI am R (hexBuf b) = Inr R1" "us_chars R1 = us_chars R @ hexBuf b"
    using add_chars_memory [of am, OF assms] by blast
  with Cons [of R1] show ?case by simp
qed simp

definition kept :: "u16 list \<Rightarrow> u16 list option \<Rightarrow> u16 \<Rightarrow> bool" where
  "kept set1 set2 c \<longleftrightarrow> js_strchr set1 c \<or> (case set2 of None \<Rightarrow> False | Some s \<Rightarrow> js_strchr s c)"

lemma encode_loop_eq:
  "encode_loop am set1 set2 (c # chars) R =
     (if kept set1 set2 c then bind_sum (AddCharsToURI am R [c]) (encode_loop am set1 set2 chars)
      else case utf16_char c chars of
             Inl _ \<Rightarrow> Inl BAD_URI
           | Inr (v, n) \<Rightarrow> bind_sum (add_hex am R (js_OneUcs4ToUtf8Char v)) (encode_loop am set1 set2 (drop n chars)))"
  by (auto simp: utf16_char_def kept_def Let_def split: list.splits)

declare encode_loop.simps(2) [simp del]

lemma encode_loop_pieces:
  assumes mem: "\<And>n. am n"
  shows "case uri_pieces (kept set1 set2) chars of
      None \<Rightarrow> encode_loop am set1 set2 chars R = Inl BAD_URI
    | Some ps \<Rightarrow> \<exists>R'. encode_loop am set1 set2 chars R = Inr R' \<and> us_chars R' = us_chars R @ concat (map snd ps)"
proof (induction "kept set1 set2" chars arbitrary: R rule: uri_pieces.induct)
  case (2 c cs)
  show ?case
  proof (cases "kept set1 set2 c")
    case True
    obtain R1 where "AddCharsToURI am R [c] = Inr R1" "us_chars R1 = us_chars R @ [c]"
      using add_chars_memory [of am, OF mem] by blast
    with 2(1) [OF True, of R1] True show ?thesis
      by (auto simp: encode_loop_eq split: option.splits)
  next
    case False
    show ?thesis
    proof (cases "utf16_char c cs")
      case (Inl e)
      then show ?thesis using False by (simp add: encode_loop_eq)
    next
      case (Inr p)
      obtain v n where p: "p = (v, n)" by (cases p)
      obtain R1 where "add_hex am R (js_OneUcs4ToUtf8Char v) = Inr R1" "us_chars R1 = us_chars R @ uri_hex v"
        using add_hex_all [of am, OF mem] unfolding uri_hex_def by blast
      with 2(2) [OF False Inr p [symmetric], of R1] False Inr p show ?thesis
        by (auto simp: encode_loop_eq split: option.splits)
    qed
  qed
qed simp

section \<open>What decoding reads\<close>

lemma hex_digits_all:
  "list_all (\<lambda>i. JS7_ISHEX (HexDigits ! i) \<and> JS7_UNHEX (HexDigits ! i) = of_nat i) [0..<16]"
  by code_simp

lemma hex_digit: "i < 16 \<Longrightarrow> JS7_ISHEX (HexDigits ! i) \<and> JS7_UNHEX (HexDigits ! i) = of_nat i"
  using hex_digits_all unfolding list_all_iff set_upt by (auto dest!: bspec [of _ _ i])

lemma hex_octet_at:
  assumes "k = length pre" shows "hex_octet (pre @ hexBuf b @ rest) k = Inr (ucast b)"
proof -
  have hi: "unat (drop_bit 4 b) < 16" using unsigned_less [of b, where 'a = nat] by (simp add: unat_drop_bit_div)
  have "b AND 0xF = take_bit 4 b" by (simp add: take_bit_eq_mask mask_eq_exp_minus_1)
  then have lo: "unat (b AND 0xF) = unat b mod 16" by (simp add: unat_take_bit)
  have "(of_nat (unat (drop_bit 4 b)) * 16 + of_nat (unat (b AND 0xF)) :: u32) = of_nat (unat b)"
  proof -
    have "unat (drop_bit 4 b) * 16 + unat (b AND 0xF) = unat b" by (simp add: lo unat_drop_bit_div)
    then show ?thesis by (metis of_nat_add of_nat_mult of_nat_numeral)
  qed
  then have "(of_nat (unat (drop_bit 4 b)) * 16 + of_nat (unat (b AND 0xF)) :: u32) = ucast b" by simp
  then show ?thesis
    using hex_digit [OF hi] hex_digit [of "unat (b AND 0xF)"] lo assms
    by (simp add: hex_octet_def read_char_def hexBuf_def nth_append)
qed

lemma decode_octets_at:
  "Suc k = length pre \<Longrightarrow> \<forall>b\<in>set bs. b AND 0xC0 = 0x80 \<Longrightarrow>
     decode_octets (pre @ concat (map hexBuf bs) @ rest) k (length bs) octets = Inr (octets @ bs)"
proof (induction bs arbitrary: k pre octets)
  case (Cons b bs)
  have c: "read_char (pre @ hexBuf b @ concat (map hexBuf bs) @ rest) (k + 1) = Inr 0x25"
    using Cons.prems(1) by (simp add: read_char_def hexBuf_def nth_append)
  have h: "hex_octet (pre @ hexBuf b @ concat (map hexBuf bs) @ rest) (k + 1) = Inr (ucast b)"
    using Cons.prems(1) by (intro hex_octet_at) simp
  have "(ucast b :: u32) AND 0xC0 = ucast (b AND 0xC0)" by (simp add: unsigned_and_eq)
  then have bits: "(ucast b :: u32) AND 0xC0 = 0x80" using Cons.prems(2) by simp
  have "decode_octets ((pre @ hexBuf b) @ concat (map hexBuf bs) @ rest) (k + 3) (length bs) (octets @ [b]) = Inr ((octets @ [b]) @ bs)"
    using Cons.prems by (intro Cons.IH) (simp_all add: hexBuf_def)
  moreover have "(ucast (ucast b :: u32) :: u8) = b" by (rule ucast_up_down) simp
  ultimately show ?case using c h bits by simp
qed simp


lemma decode_emit_all:
  assumes "\<And>n. am n" "\<not> js_strchr res c"
  shows "\<exists>R'. decode_emit am chars res k len c R = Inr (len - 1, R') \<and> us_chars R' = us_chars R @ [c]"
  using add_chars_memory [of am R "[c]", OF assms(1)] assms(2) by (auto simp: decode_emit_def)

lemma length_uri_hex: "length (concat (map hexBuf bs)) = 3 * length bs"
  by (induction bs) (simp_all add: hexBuf_def)

lemma decode_char_encoded:
  assumes v: "v \<le> 0x10FFFF" "v \<noteq> 0xFFFE" "v \<noteq> 0xFFFF" and mem: "\<And>n. am n"
    and res: "\<not> js_strchr res (last (utf16_units v))" and k: "k = length pre"
  shows "\<exists>R'. decode_char am (pre @ uri_hex v @ rest) res k R = Inr (length (uri_hex v) - 1, R') \<and>
    us_chars R' = us_chars R @ utf16_units v"
proof -
  have v': "v \<le> 0x7FFFFFFF" using v(1) by (simp add: word_le_nat_alt)
  have lenh: "length (uri_hex v) = 3 * utf8_size v"
    by (simp add: uri_hex_def length_uri_hex encode_char_length [OF v'])
  define chars where "chars = pre @ uri_hex v @ rest"
  have len: "k + 3 * utf8_size v \<le> length chars" using k lenh by (simp add: chars_def)
  have pos: "1 \<le> utf8_size v" by (simp add: utf8_size_def)
  obtain b bs where b: "js_OneUcs4ToUtf8Char v = b # bs"
    using encode_char_length [OF v'] pos by (cases "js_OneUcs4ToUtf8Char v") auto
  have chars: "chars = pre @ hexBuf b @ concat (map hexBuf bs) @ rest" by (simp add: chars_def uri_hex_def b)
  have c0: "read_char chars k = Inr 0x25" using k by (simp add: chars read_char_def hexBuf_def)
  have oct: "hex_octet chars k = Inr (ucast b)" unfolding chars by (rule hex_octet_at [OF k])
  have room: "\<not> length chars \<le> k + 2" using len pos by simp
  show ?thesis
  proof (cases "v < 0x80")
    case True
    have "unat v < 256" using True by (simp add: word_less_nat_alt)
    then have vb: "ucast (ucast v :: u8) = v" by (simp add: word_unat_eq_iff unsigned_ucast_eq unat_take_bit)
    have sz: "utf8_size v = 1" using True by (simp add: utf8_size_def)
    have bv: "b = ucast v" using b True by (simp add: encode_small)
    have units: "utf16_units v = [ucast v]" using True by (simp add: utf16_units_def word_le_nat_alt word_less_nat_alt)
    obtain R' where "decode_emit am chars res k 3 (ucast v) R = Inr (2, R')" "us_chars R' = us_chars R @ [ucast v]"
      using decode_emit_all [of am res "ucast v" chars k 3 R, OF mem] res units by auto
    then show ?thesis
      using c0 room oct vb bv small_high_bit [OF True] lenh sz units
      by (simp add: decode_char_def chars_def [symmetric])
  next
    case False
    then have lo: "0x80 \<le> v" by (simp add: not_less)
    note f = utf8_size_facts(1,2) [OF lo v']
    obtain b' bs' where s: "js_OneUcs4ToUtf8Char v = b' # bs'" "length bs' = utf8_size v - 1"
      "lead_ones (ucast b') 1 = utf8_size v" "ucast b' AND (0x80 :: u32) \<noteq> 0" "\<forall>x\<in>set bs'. x AND 0xC0 = 0x80"
      by (rule encoded_shape [OF lo v']) blast
    then have bb: "b' = b" "bs' = bs" using b by simp_all
    have octs: "decode_octets chars (k + 2) (utf8_size v - 1) [b] = Inr (b # bs)"
      using decode_octets_at [of "k + 2" "pre @ hexBuf b" bs rest "[b]"] s(2,5) bb k
      by (simp add: chars hexBuf_def)
    have uc: "(ucast (ucast b :: u32) :: u8) = b" by (rule ucast_up_down) simp
    have rt: "Utf8ToOneUcs4Char (b # bs) = v" using encoded_roundtrip [OF v' v(2,3)] b by simp
    have room2: "\<not> length chars \<le> k + 2 + 3 * (utf8_size v - 1)" using len pos by simp
    have char: "decode_char am chars res k R =
        (if 0x10000 \<le> v then
           (if 0xFFFFF < v - 0x10000 then Inl BAD_URI
            else bind_sum (AddCharsToURI am R [ucast (drop_bit 10 (v - 0x10000) + 0xD800)])
                   (decode_emit am chars res k (3 * utf8_size v) (ucast (((v - 0x10000) AND 0x3FF) + 0xDC00))))
         else decode_emit am chars res k (3 * utf8_size v) (ucast v) R)"
      using c0 room oct s(3,4) bb f room2 octs uc rt by (simp add: decode_char_def Let_def)
    show ?thesis
    proof (cases "0x10000 \<le> v")
      case False
      then have units: "utf16_units v = [ucast v]" by (simp add: utf16_units_def)
      then show ?thesis
        using decode_emit_all [of am res "ucast v" chars k "3 * utf8_size v" R, OF mem] res char False lenh
        by (auto simp: chars_def)
    next
      case True
      have "unat (v - 0x10000) = unat v - 0x10000" using True by (simp add: unat_sub_exact word_le_nat_alt)
      then have small: "\<not> 0xFFFFF < v - 0x10000" using v(1) by (simp add: word_le_nat_alt word_less_nat_alt)
      define lo_unit hi_unit :: u16 where "lo_unit = ucast (((v - 0x10000) AND 0x3FF) + 0xDC00)"
        and "hi_unit = ucast (drop_bit 10 (v - 0x10000) + 0xD800)"
      have units: "utf16_units v = [hi_unit, lo_unit]" using True by (simp add: utf16_units_def lo_unit_def hi_unit_def)
      obtain R1 where R1: "AddCharsToURI am R [hi_unit] = Inr R1" "us_chars R1 = us_chars R @ [hi_unit]"
        using add_chars_memory [of am R "[hi_unit]", OF mem] by blast
      obtain R2 where "decode_emit am chars res k (3 * utf8_size v) lo_unit R1 = Inr (3 * utf8_size v - 1, R2)"
          "us_chars R2 = us_chars R1 @ [lo_unit]"
        using decode_emit_all [of am res lo_unit chars k "3 * utf8_size v" R1, OF mem] res units by auto
      then show ?thesis
        using char True small R1 units lenh
        by (simp add: lo_unit_def [symmetric] hi_unit_def [symmetric] chars_def [symmetric])
    qed
  qed
qed

text \<open>Every character the decoder meets in what was encoded is one of these pieces.\<close>

definition good_piece :: "u16 list \<Rightarrow> u16 list \<times> u16 list \<Rightarrow> bool" where
  "good_piece res p \<longleftrightarrow>
     (\<exists>c. p = ([c], [c]) \<and> c \<noteq> 0x25) \<or>
     (\<exists>v. p = (utf16_units v, uri_hex v) \<and> v \<le> 0x10FFFF \<and> v \<noteq> 0xFFFE \<and> v \<noteq> 0xFFFF \<and>
          \<not> js_strchr res (last (utf16_units v)))"

lemma uri_hex_nonempty: "v \<le> 0x10FFFF \<Longrightarrow> 3 \<le> length (uri_hex v)"
proof -
  assume "v \<le> 0x10FFFF"
  then have "v \<le> 0x7FFFFFFF" by (simp add: word_le_nat_alt)
  then show ?thesis by (simp add: uri_hex_def length_uri_hex encode_char_length utf8_size_def)
qed

lemma decode_loop_pieces:
  assumes mem: "\<And>n. am n"
  shows "\<forall>p\<in>set ps. good_piece res p \<Longrightarrow> k = length pre \<Longrightarrow>
     \<exists>R'. decode_loop am (pre @ concat (map snd ps)) res k R = Inr R' \<and> us_chars R' = us_chars R @ concat (map fst ps)"
proof (induction ps arbitrary: pre k R)
  case Nil
  then show ?case by (subst decode_loop.simps) simp
next
  case (Cons p ps)
  have good: "good_piece res p" using Cons.prems(1) by simp
  have "\<exists>R1. decode_char am (pre @ snd p @ concat (map snd ps)) res k R = Inr (length (snd p) - 1, R1) \<and>
      us_chars R1 = us_chars R @ fst p \<and> snd p \<noteq> []"
  proof -
    consider c where "p = ([c], [c])" "c \<noteq> 0x25"
      | v where "p = (utf16_units v, uri_hex v)" "v \<le> 0x10FFFF" "v \<noteq> 0xFFFE" "v \<noteq> 0xFFFF"
          "\<not> js_strchr res (last (utf16_units v))"
      using good by (auto simp: good_piece_def)
    then show ?thesis
    proof cases
      case 1
      then show ?thesis
        using add_chars_memory [of am R "[c]", OF mem] Cons.prems(2)
        by (auto simp: decode_char_def read_char_def nth_append)
    next
      case 2
      then show ?thesis
        using decode_char_encoded [of v am res k pre "concat (map snd ps)" R, OF 2(2-4) mem 2(5) Cons.prems(2)]
          uri_hex_nonempty [OF 2(2)] by auto
    qed
  qed
  then obtain R1 where R1: "decode_char am (pre @ snd p @ concat (map snd ps)) res k R = Inr (length (snd p) - 1, R1)"
      "us_chars R1 = us_chars R @ fst p" "snd p \<noteq> []" by blast
  have next_k: "Suc (k + (length (snd p) - 1)) = length (pre @ snd p)"
    using R1(3) Cons.prems(2) by (cases "snd p") auto
  obtain R2 where R2: "decode_loop am ((pre @ snd p) @ concat (map snd ps)) res (Suc (k + (length (snd p) - 1))) R1 = Inr R2"
      "us_chars R2 = us_chars R1 @ concat (map fst ps)"
    using Cons.IH [OF _ next_k, of R1] Cons.prems(1) by auto
  have lt: "k < length (pre @ snd p @ concat (map snd ps))" using R1(3) Cons.prems(2) by simp
  have "decode_loop am (pre @ snd p @ concat (map snd ps)) res k R = Inr R2"
    by (subst decode_loop.simps) (use lt R1(1) R2(1) in simp)
  then show ?case using R1(2) R2(2) by simp
qed


section \<open>Decoding undoes encoding\<close>

lemma pieces_none:
  "(\<And>c. keep c \<Longrightarrow> c < 0xD800) \<Longrightarrow> uri_pieces keep str = None \<longleftrightarrow> utf16_chars str = None"
proof (induction keep str rule: uri_pieces.induct)
  case (2 keep c cs)
  show ?case
  proof (cases "keep c")
    case True
    then have "utf16_char c cs = Inr (ucast c, 0)" using 2(3) [of c]
      by (auto simp: utf16_char_def word_less_nat_alt word_le_nat_alt)
    then show ?thesis using True 2(1) [OF True 2(3)] by simp
  next
    case False
    show ?thesis
    proof (cases "utf16_char c cs")
      case (Inr p)
      obtain v n where p: "p = (v, n)" by (cases p)
      show ?thesis using False Inr p 2(2) [OF False Inr p [symmetric] 2(3)] by simp
    qed (use False in simp)
  qed
qed simp

lemma pieces_good:
  "(\<And>c. keep c \<Longrightarrow> c \<noteq> 0x25) \<Longrightarrow> (\<And>c. js_strchr res c \<Longrightarrow> keep c \<and> c < 0xD800) \<Longrightarrow>
   uri_pieces keep str = Some ps \<Longrightarrow> 0xFFFE \<notin> set str \<Longrightarrow> 0xFFFF \<notin> set str \<Longrightarrow>
     concat (map fst ps) = str \<and> (\<forall>p\<in>set ps. good_piece res p)"
proof (induction keep str arbitrary: ps rule: uri_pieces.induct)
  case (2 keep c cs)
  note keep = 2(3) and res = 2(4) and ps = 2(5) and no = 2(6,7)
  show ?case
  proof (cases "keep c")
    case True
    then obtain qs where qs: "uri_pieces keep cs = Some qs" "ps = ([c], [c]) # qs" using ps by auto
    have "concat (map fst qs) = cs \<and> (\<forall>p\<in>set qs. good_piece res p)"
      using no by (intro 2(1) [OF True keep res qs(1)]) auto
    then show ?thesis using qs(2) keep [OF True] by (simp add: good_piece_def)
  next
    case False
    then obtain v n where vn: "utf16_char c cs = Inr (v, n)" using ps by (auto split: sum.splits)
    then obtain qs where qs: "uri_pieces keep (drop n cs) = Some qs" "ps = (c # take n cs, uri_hex v) # qs"
      using ps False by auto
    note u = utf16_char_units [OF vn]
    have "concat (map fst qs) = drop n cs \<and> (\<forall>p\<in>set qs. good_piece res p)"
      using no by (intro 2(2) [OF False vn refl keep res qs(1)]) (auto dest: in_set_dropD)
    moreover have "good_piece res (c # take n cs, uri_hex v)"
    proof -
      have last: "\<not> js_strchr res (last (utf16_units v))"
      proof (cases "n = 0")
        case True
        then show ?thesis using u res [of c] False by auto
      next
        case nz: False
        then obtain c2 rest where c2: "cs = c2 # rest" "0xDC00 \<le> c2" "n = 1"
          using vn by (auto simp: utf16_char_def not_less split: if_splits list.splits)
        then have "last (utf16_units v) = c2" using u by simp
        then show ?thesis using res [of c2] c2(2) by (auto simp: word_less_nat_alt word_le_nat_alt)
      qed
      have "v \<noteq> 0xFFFE \<and> v \<noteq> 0xFFFF"
      proof (cases "v < 0x10000")
        case True
        then have "[ucast v] = c # take n cs" using u by (simp add: utf16_units_def word_less_nat_alt word_le_nat_alt)
        then have "ucast v = c" by simp
        then show ?thesis using no by auto
      qed (auto simp: word_less_nat_alt)
      then show ?thesis using u last unfolding good_piece_def by metis
    qed
    ultimately show ?thesis using qs(2) by simp
  qed
qed simp

lemma Encode_pieces:
  assumes mem: "\<And>n. am n"
  shows "Encode True am str set1 set2 =
    (case uri_pieces (kept set1 set2) str of None \<Rightarrow> Inl BAD_URI | Some ps \<Rightarrow> Inr (concat (map snd ps)))"
  using encode_loop_pieces [of am set1 set2 str "\<lparr>us_chars = [], us_capacity = 0\<rparr>", OF mem]
  by (cases "str = []") (auto simp: Encode_def split: option.splits)

lemma Decode_pieces:
  assumes mem: "\<And>n. am n" and good: "\<forall>p\<in>set ps. good_piece res p"
  shows "Decode True am (concat (map snd ps)) res = Inr (concat (map fst ps))"
proof (cases "concat (map snd ps) = []")
  case True
  have "ps = []"
  proof (rule ccontr)
    assume "ps \<noteq> []"
    then obtain p where "p \<in> set ps" by (cases ps) auto
    then have "snd p = []" "good_piece res p" using True good by auto
    then show False by (auto simp: good_piece_def dest: uri_hex_nonempty)
  qed
  then show ?thesis by (simp add: Decode_def)
next
  case False
  then show ?thesis
    using decode_loop_pieces [of am ps res 0 "[]" "\<lparr>us_chars = [], us_capacity = 0\<rparr>", OF mem good]
    by (auto simp: Decode_def)
qed

lemma uri_sets:
  "js_strchr js_uriReservedPlusPound_ucstr c \<Longrightarrow> c \<noteq> 0x25 \<and> c < 0xD800"
  "js_strchr js_uriUnescaped_ucstr c \<Longrightarrow> c \<noteq> 0x25 \<and> c < 0xD800"
proof -
  have "list_all (\<lambda>c. c \<noteq> 0x25 \<and> c < 0xD800) js_uriReservedPlusPound_ucstr" by code_simp
  then show "js_strchr js_uriReservedPlusPound_ucstr c \<Longrightarrow> c \<noteq> 0x25 \<and> c < 0xD800"
    unfolding js_strchr_def list_all_iff by blast
  have "list_all (\<lambda>c. c \<noteq> 0x25 \<and> c < 0xD800) js_uriUnescaped_ucstr" by code_simp
  then show "js_strchr js_uriUnescaped_ucstr c \<Longrightarrow> c \<noteq> 0x25 \<and> c < 0xD800"
    unfolding js_strchr_def list_all_iff by blast
qed

section \<open>Decoding reads in bounds\<close>

lemma hex_octet_safe: "k + 2 < length chars \<Longrightarrow> hex_octet chars k \<noteq> Inl READ_PAST_END"
  by (simp add: hex_octet_def read_char_def)

lemma decode_octets_safe: "k + 3 * m < length chars \<Longrightarrow> decode_octets chars k m octets \<noteq> Inl READ_PAST_END"
proof (induction m arbitrary: k octets)
  case (Suc m)
  have h: "hex_octet chars (k + 1) \<noteq> Inl READ_PAST_END" using Suc.prems by (intro hex_octet_safe) simp
  have "decode_octets chars (k + 3) m os \<noteq> Inl READ_PAST_END" for os using Suc.prems by (intro Suc.IH) simp
  moreover have "k + 1 < length chars" using Suc.prems by simp
  ultimately show ?case using h
    by (cases "hex_octet chars (k + 1)") (auto simp: read_char_def)
qed simp

lemma decode_emit_safe: "decode_emit am chars res k len c R \<noteq> Inl READ_PAST_END"
  by (auto simp: decode_emit_def bind_sum_eq_Inl AddCharsToURI_def Let_def split: if_splits)

lemma add_chars_safe: "AddCharsToURI am R cs \<noteq> Inl READ_PAST_END"
  by (simp add: AddCharsToURI_def Let_def)

lemma decode_char_safe:
  assumes "k < length chars" shows "decode_char am chars res k R \<noteq> Inl READ_PAST_END"
proof
  assume bad: "decode_char am chars res k R = Inl READ_PAST_END"
  have k: "chars ! k = 0x25"
    using bad assms add_chars_safe by (auto simp: decode_char_def read_char_def bind_sum_eq_Inl split: if_splits)
  then have room: "k + 2 < length chars" using bad assms by (auto simp: decode_char_def read_char_def split: if_splits)
  obtain B where B: "hex_octet chars k = Inr B"
    using bad assms k room hex_octet_safe [OF room] by (cases "hex_octet chars k") (auto simp: decode_char_def read_char_def)
  define n where "n = lead_ones B 1"
  have n: "B AND 0x80 \<noteq> 0" "n \<noteq> 1" "n \<le> 6" "k + 2 + 3 * (n - 1) < length chars"
    using bad assms k room B decode_emit_safe
    by (auto simp: decode_char_def read_char_def n_def Let_def split: if_splits)
  obtain octets where "decode_octets chars (k + 2) (n - 1) [ucast B] = Inr octets"
    using bad assms k room B n decode_octets_safe [OF n(4)]
    by (cases "decode_octets chars (k + 2) (n - 1) [ucast B]") (auto simp: decode_char_def read_char_def n_def Let_def)
  then show False
    using bad assms k room B n decode_emit_safe add_chars_safe
    by (auto simp: decode_char_def read_char_def n_def Let_def bind_sum_eq_Inl split: if_splits)
qed

lemma decode_loop_safe: "decode_loop am chars res k R \<noteq> Inl READ_PAST_END"
proof (induction am chars res k R rule: decode_loop.induct)
  case (1 am chars res k R)
  show ?case
  proof (cases "k < length chars")
    case True
    then show ?thesis
      using 1 decode_char_safe [OF True, of am res R]
      by (subst decode_loop.simps) (auto split: sum.splits)
  next
    case False
    then show ?thesis by (subst decode_loop.simps) simp
  qed
qed


section \<open>Properties\<close>

lemma uri_roundtrip:
  assumes mem: "\<And>n. am n" and str: "0xFFFE \<notin> set str" "0xFFFF \<notin> set str"
    and keep: "\<And>c. kept set1 set2 c \<Longrightarrow> c \<noteq> 0x25 \<and> c < 0xD800"
    and res: "\<And>c. js_strchr res c \<Longrightarrow> kept set1 set2 c"
  shows "case utf16_chars str of
      None \<Rightarrow> Encode True am str set1 set2 = Inl BAD_URI
    | Some vs \<Rightarrow> \<exists>enc. Encode True am str set1 set2 = Inr enc \<and> Decode True am enc res = Inr str"
proof (cases "uri_pieces (kept set1 set2) str")
  case None
  then have "utf16_chars str = None" using pieces_none [of "kept set1 set2" str] keep by simp
  then show ?thesis using None by (simp add: Encode_pieces [of am, OF mem])
next
  case (Some ps)
  then have "utf16_chars str \<noteq> None" using pieces_none [of "kept set1 set2" str] keep by simp
  moreover have "concat (map fst ps) = str \<and> (\<forall>p\<in>set ps. good_piece res p)"
    using keep res str by (intro pieces_good [OF _ _ Some]) auto
  ultimately show ?thesis
    using Some Decode_pieces [of am ps res, OF mem] by (auto simp: Encode_pieces [of am, OF mem])
qed

text \<open>
  C18: what \<open>encodeURIComponent\<close> and \<open>encodeURI\<close> write, the matching decoder reads back to the
  same string, and they refuse exactly the strings with a lone surrogate. The exception are
  strings with U+FFFE or U+FFFF, which decode to U+FFFD.
\<close>

theorem uri_encode_decode:
  assumes "\<And>n. am n" and "0xFFFE \<notin> set str" and "0xFFFF \<notin> set str"
  shows "case utf16_chars str of
      None \<Rightarrow> str_encodeURI_Component True am str = Inl BAD_URI \<and> str_encodeURI True am str = Inl BAD_URI
    | Some vs \<Rightarrow>
        (\<exists>enc. str_encodeURI_Component True am str = Inr enc \<and> str_decodeURI_Component True am enc = Inr str) \<and>
        (\<exists>enc. str_encodeURI True am str = Inr enc \<and> str_decodeURI True am enc = Inr str)"
proof -
  have "case utf16_chars str of
      None \<Rightarrow> Encode True am str js_uriUnescaped_ucstr None = Inl BAD_URI
    | Some vs \<Rightarrow> \<exists>enc. Encode True am str js_uriUnescaped_ucstr None = Inr enc \<and> Decode True am enc js_empty_ucstr = Inr str"
    by (rule uri_roundtrip [OF assms]) (auto simp: kept_def js_empty_ucstr_def js_strchr_def [of "[]"] dest: uri_sets)
  moreover have "case utf16_chars str of
      None \<Rightarrow> Encode True am str js_uriReservedPlusPound_ucstr (Some js_uriUnescaped_ucstr) = Inl BAD_URI
    | Some vs \<Rightarrow> \<exists>enc. Encode True am str js_uriReservedPlusPound_ucstr (Some js_uriUnescaped_ucstr) = Inr enc \<and>
        Decode True am enc js_uriReservedPlusPound_ucstr = Inr str"
    by (rule uri_roundtrip [OF assms]) (auto simp: kept_def dest: uri_sets)
  ultimately show ?thesis
    by (simp add: str_encodeURI_Component_def str_encodeURI_def str_decodeURI_Component_def str_decodeURI_def
        split: option.splits)
qed

theorem uri_encode_decode_witness:
  "(\<exists>enc. str_encodeURI_Component True (\<lambda>_. True) [0x25, 0x20AC, 0xD834, 0xDD1E] = Inr enc \<and>
      str_decodeURI_Component True (\<lambda>_. True) enc = Inr [0x25, 0x20AC, 0xD834, 0xDD1E]) \<and>
   str_encodeURI True (\<lambda>_. True) [0xDC00] = Inl BAD_URI"
proof -
  have "utf16_chars [0x25, 0x20AC, 0xD834, 0xDD1E] = Some [0x25, 0x20AC, 0x1D11E]" "utf16_chars [0xDC00] = None"
    by code_simp+
  then show ?thesis
    using uri_encode_decode [of "\<lambda>_. True" "[0x25, 0x20AC, 0xD834, 0xDD1E]"] uri_encode_decode [of "\<lambda>_. True" "[0xDC00]"]
    by simp
qed

text \<open>
  C19: decoding never reads past the end of its input, whatever the input: every percent sign
  is followed by a length check that covers all the digits read after it.
\<close>

theorem uri_decode_in_bounds: "Decode gc am str reservedSet \<noteq> Inl READ_PAST_END"
  using decode_loop_safe [of am str reservedSet 0 "\<lparr>us_chars = [], us_capacity = 0\<rparr>"]
  by (auto simp: Decode_def bind_sum_eq_Inl)

text \<open>
  the buffer of the result always has room for what is written to it and a terminator,
  though it is only grown when the count of 64-unit chunks changes.
\<close>

theorem uri_buffer_fits:
  assumes "us_ok R" and "AddCharsToURI am R cs = Inr R'"
  shows "us_ok R' \<and> us_chars R' = us_chars R @ cs \<and> length (us_chars R') + 1 \<le> us_capacity R'"
  by (rule add_chars_ok [OF assms])

theorem uri_buffer_fits_witness:
  "64 \<le> us_capacity \<lparr>us_chars = replicate 63 0x61, us_capacity = 64\<rparr>"
proof -
  have "us_ok \<lparr>us_chars = replicate 62 0x61, us_capacity = 64\<rparr>"
    by (simp add: us_ok_def JS_ROUNDUP_def JS_HOWMANY_def URI_CHUNK_def)
  moreover have "AddCharsToURI (\<lambda>_. True) \<lparr>us_chars = replicate 62 0x61, us_capacity = 64\<rparr> [0x61] =
      Inr \<lparr>us_chars = replicate 63 0x61, us_capacity = 64\<rparr>"
    by (simp add: AddCharsToURI_def JS_HOWMANY_def URI_CHUNK_def replicate_append_same flip: replicate_Suc)
  ultimately show ?thesis using uri_buffer_fits by fastforce
qed

end
