(* ===== verification/JS_Long64.thy ===== *)
theory JS_Long64
  imports JS_Bits "HOL-Library.Signed_Division"
begin

text \<open>
  The 64-bit integers of a machine without them: the macros of jslong.h and the division of
  jslong.c in the build without JS_HAVE_LONG_LONG, where \<open>JSInt64\<close> and \<open>JSUint64\<close> are
  pairs of 32-bit words. \<open>to64\<close> is the machine word a pair stands for.
\<close>

section \<open>Data\<close>

record js64 =
  lo :: u32
  hi :: u32

definition mk64 :: "u32 \<Rightarrow> u32 \<Rightarrow> js64" where
  "mk64 h l = \<lparr>lo = l, hi = h\<rparr>"

definition JSLL_Zero :: js64 where "JSLL_Zero = mk64 0 0"
definition JSLL_MaxInt :: js64 where "JSLL_MaxInt = mk64 0x7fffffff 0xffffffff"
definition JSLL_MinInt :: js64 where "JSLL_MinInt = mk64 0x80000000 0"

section \<open>Tests and bitwise operations\<close>

definition JSLL_IS_ZERO :: "js64 \<Rightarrow> bool" where "JSLL_IS_ZERO a \<longleftrightarrow> hi a = 0 \<and> lo a = 0"
definition JSLL_EQ :: "js64 \<Rightarrow> js64 \<Rightarrow> bool" where "JSLL_EQ a b \<longleftrightarrow> hi a = hi b \<and> lo a = lo b"
definition JSLL_NE :: "js64 \<Rightarrow> js64 \<Rightarrow> bool" where "JSLL_NE a b \<longleftrightarrow> hi a \<noteq> hi b \<or> lo a \<noteq> lo b"
definition JSLL_GE_ZERO :: "js64 \<Rightarrow> bool" where "JSLL_GE_ZERO a \<longleftrightarrow> drop_bit 31 (hi a) = 0"

text \<open>The macros are called with the strict comparisons only, as the debug build asserts.\<close>

datatype cmp_op = Less | Greater

fun cmp :: "cmp_op \<Rightarrow> int \<Rightarrow> int \<Rightarrow> bool" where
  "cmp Less x y \<longleftrightarrow> x < y"
| "cmp Greater x y \<longleftrightarrow> x > y"

definition JSLL_CMP :: "js64 \<Rightarrow> cmp_op \<Rightarrow> js64 \<Rightarrow> bool" where
  "JSLL_CMP a op b \<longleftrightarrow> cmp op (sint (hi a)) (sint (hi b)) \<or> (hi a = hi b \<and> cmp op (uint (lo a)) (uint (lo b)))"

definition JSLL_UCMP :: "js64 \<Rightarrow> cmp_op \<Rightarrow> js64 \<Rightarrow> bool" where
  "JSLL_UCMP a op b \<longleftrightarrow> cmp op (uint (hi a)) (uint (hi b)) \<or> (hi a = hi b \<and> cmp op (uint (lo a)) (uint (lo b)))"

definition JSLL_AND :: "js64 \<Rightarrow> js64 \<Rightarrow> js64" where
  "JSLL_AND a b = \<lparr>lo = lo a AND lo b, hi = hi a AND hi b\<rparr>"
definition JSLL_OR :: "js64 \<Rightarrow> js64 \<Rightarrow> js64" where
  "JSLL_OR a b = \<lparr>lo = lo a OR lo b, hi = hi a OR hi b\<rparr>"
definition JSLL_XOR :: "js64 \<Rightarrow> js64 \<Rightarrow> js64" where
  "JSLL_XOR a b = \<lparr>lo = lo a XOR lo b, hi = hi a XOR hi b\<rparr>"
definition JSLL_NOT :: "js64 \<Rightarrow> js64" where
  "JSLL_NOT a = \<lparr>lo = NOT (lo a), hi = NOT (hi a)\<rparr>"

section \<open>Arithmetic\<close>

definition JSLL_NEG :: "js64 \<Rightarrow> js64" where
  "JSLL_NEG a = (let l = - lo a in \<lparr>lo = l, hi = - hi a - (if l \<noteq> 0 then 1 else 0)\<rparr>)"

definition JSLL_ADD :: "js64 \<Rightarrow> js64 \<Rightarrow> js64" where
  "JSLL_ADD a b = (let l = lo a + lo b in \<lparr>lo = l, hi = hi a + hi b + (if l < lo b then 1 else 0)\<rparr>)"

definition JSLL_SUB :: "js64 \<Rightarrow> js64 \<Rightarrow> js64" where
  "JSLL_SUB a b = \<lparr>lo = lo a - lo b, hi = hi a - hi b - (if lo a < lo b then 1 else 0)\<rparr>"

definition jslo16 :: "u32 \<Rightarrow> u32" where "jslo16 a = a AND JS_BITMASK 16"
definition jshi16 :: "u32 \<Rightarrow> u32" where "jshi16 a = drop_bit 16 a"

definition JSLL_MUL32 :: "u32 \<Rightarrow> u32 \<Rightarrow> js64" where
  "JSLL_MUL32 a b =
     (let a1 = jshi16 a; a0 = jslo16 a;
          b1 = jshi16 b; b0 = jslo16 b;
          y0 = a0 * b0;
          y1 = a0 * b1;
          y2 = a1 * b0;
          y3 = a1 * b1;
          y1 = y1 + jshi16 y0;
          y1 = y1 + y2;
          y3 = (if y1 < y2 then y3 + JS_BIT 16 else y3)
      in \<lparr>lo = push_bit 16 (jslo16 y1) + jslo16 y0, hi = y3 + jshi16 y1\<rparr>)"

definition JSLL_MUL :: "js64 \<Rightarrow> js64 \<Rightarrow> js64" where
  "JSLL_MUL a b =
     (let r = JSLL_MUL32 (lo a) (lo b)
      in r\<lparr>hi := hi r + (hi a * lo b + lo a * hi b)\<rparr>)"

section \<open>Shifts\<close>

definition JSLL_SHL :: "js64 \<Rightarrow> nat \<Rightarrow> js64" where
  "JSLL_SHL a b =
     (if b \<noteq> 0 then
        (if b < 32 then \<lparr>lo = push_bit (b mod 32) (lo a),
                         hi = push_bit (b mod 32) (hi a) OR drop_bit (32 - b) (lo a)\<rparr>
         else \<lparr>lo = 0, hi = push_bit (b mod 32) (lo a)\<rparr>)
      else a)"

definition JSLL_ISHL :: "u32 \<Rightarrow> nat \<Rightarrow> js64" where
  "JSLL_ISHL a b =
     (if b \<noteq> 0 then
        (if b < 32 then \<lparr>lo = push_bit (b mod 32) a, hi = signed_drop_bit (32 - b) a\<rparr>
         else \<lparr>lo = 0, hi = push_bit (b mod 32) a\<rparr>)
      else \<lparr>lo = a, hi = 0\<rparr>)"

definition JSLL_SHR :: "js64 \<Rightarrow> nat \<Rightarrow> js64" where
  "JSLL_SHR a b =
     (if b \<noteq> 0 then
        (if b < 32 then \<lparr>lo = push_bit (32 - b) (hi a) OR drop_bit (b mod 32) (lo a),
                         hi = signed_drop_bit (b mod 32) (hi a)\<rparr>
         else \<lparr>lo = signed_drop_bit (b mod 32) (hi a), hi = signed_drop_bit 31 (hi a)\<rparr>)
      else a)"

definition JSLL_USHR :: "js64 \<Rightarrow> nat \<Rightarrow> js64" where
  "JSLL_USHR a b =
     (if b \<noteq> 0 then
        (if b < 32 then \<lparr>lo = push_bit (32 - b) (hi a) OR drop_bit (b mod 32) (lo a),
                         hi = drop_bit (b mod 32) (hi a)\<rparr>
         else \<lparr>lo = drop_bit (b mod 32) (hi a), hi = 0\<rparr>)
      else a)"

definition JSLL_L2I :: "js64 \<Rightarrow> u32" where "JSLL_L2I l = lo l"
definition JSLL_L2UI :: "js64 \<Rightarrow> u32" where "JSLL_L2UI l = lo l"
definition JSLL_I2L :: "u32 \<Rightarrow> js64" where "JSLL_I2L i = \<lparr>lo = i, hi = signed_drop_bit 31 i\<rparr>"
definition JSLL_UI2L :: "u32 \<Rightarrow> js64" where "JSLL_UI2L ui = \<lparr>lo = ui, hi = 0\<rparr>"

section \<open>Division\<close>

text \<open>
  \<open>norm_udivmod32\<close> finds the quotient 16 bits at a time. One digit: \<open>r\<close> is the remainder so
  far and \<open>x\<close> the next 16 bits of the dividend.
\<close>

definition norm_digit :: "u32 \<Rightarrow> u32 \<Rightarrow> u32 \<Rightarrow> u32 \<times> u32" where
  "norm_digit b r x =
     (let d1 = jshi16 b; d0 = jslo16 b;
          r1 = r mod d1;
          q1 = r div d1;
          m = q1 * d0;
          r1 = push_bit 16 r1 OR x;
          (q1, r1) =
            (if r1 < m then
               (let q1 = q1 - 1; r1 = r1 + b
                in if b \<le> r1 \<and> r1 < m then (q1 - 1, r1 + b) else (q1, r1))
             else (q1, r1))
      in (q1, r1 - m))"

definition norm_udivmod32 :: "js64 \<Rightarrow> u32 \<Rightarrow> u32 \<times> u32" where
  "norm_udivmod32 a b =
     (let (q1, r1) = norm_digit b (hi a) (jshi16 (lo a));
          (q0, r0) = norm_digit b r1 (jslo16 (lo a))
      in (push_bit 16 q1 OR q0, r0))"

definition clz_step :: "nat \<Rightarrow> nat \<times> u32 \<Rightarrow> nat \<times> u32" where
  "clz_step s = (\<lambda>(r, a). let t = drop_bit s a in if t \<noteq> 0 then (r - s, t) else (r, a))"

definition CountLeadingZeros :: "u32 \<Rightarrow> nat" where
  "CountLeadingZeros a =
     (let r = 32;
          (r, a) = clz_step 16 (r, a);
          (r, a) = clz_step 8 (r, a);
          (r, a) = clz_step 4 (r, a);
          (r, a) = clz_step 2 (r, a);
          (r, a) = clz_step 1 (r, a)
      in if a AND 1 \<noteq> 0 then r - 1 else r)"

text \<open>
  \<open>jsll_udivmod\<close>: the values for \<open>*qp\<close> and \<open>*rp\<close>. Division by zero crashes, \<open>None\<close>.
\<close>

definition jsll_udivmod :: "js64 \<Rightarrow> js64 \<Rightarrow> (js64 \<times> js64) option" where
  "jsll_udivmod a b =
     (let n0 = lo a; n1 = hi a
      in if hi b = 0 then
           (if n1 < lo b then
              (let lsh = CountLeadingZeros (lo b);
                   (d, n1, n0) =
                     (if lsh \<noteq> 0 then
                        (push_bit lsh (lo b), push_bit lsh n1 OR drop_bit (32 - lsh) n0, push_bit lsh n0)
                      else (lo b, n1, n0));
                   (q0, n0) = norm_udivmod32 (mk64 n1 n0) d
               in Some (mk64 0 q0, mk64 0 (drop_bit lsh n0)))
            else if lo b = 0 then None
            else
              (let lsh = CountLeadingZeros (lo b);
                   (d, q1, n1, n0) =
                     (if lsh = 0 then (lo b, 1, n1 - lo b, n0)
                      else
                        (let rsh = 32 - lsh;
                             d = push_bit lsh (lo b);
                             n2 = drop_bit rsh n1;
                             n1 = push_bit lsh n1 OR drop_bit rsh n0;
                             n0 = push_bit lsh n0;
                             (q1, n1) = norm_udivmod32 (mk64 n2 n1) d
                         in (d, q1, n1, n0)));
                   (q0, n0) = norm_udivmod32 (mk64 n1 n0) d
               in Some (mk64 q1 q0, mk64 0 (drop_bit lsh n0))))
         else if n1 < hi b then Some (mk64 0 0, mk64 n1 n0)
         else
           (let lsh = CountLeadingZeros (hi b)
            in if lsh = 0 then
                 Some (mk64 0 (if hi b < n1 \<or> lo b \<le> n0 then 1 else 0), mk64 n1 n0)
               else
                 (let rsh = 32 - lsh;
                      b = mk64 (push_bit lsh (hi b) OR drop_bit rsh (lo b)) (push_bit lsh (lo b));
                      n2 = drop_bit rsh n1;
                      n1 = push_bit lsh n1 OR drop_bit rsh n0;
                      n0 = push_bit lsh n0;
                      (q0, n1) = norm_udivmod32 (mk64 n2 n1) (hi b);
                      m = JSLL_MUL32 q0 (lo b);
                      (q0, m) = (if hi m > n1 \<or> (hi m = n1 \<and> lo m > n0) then (q0 - 1, JSLL_SUB m b) else (q0, m));
                      a = JSLL_SUB (mk64 n1 n0) m
                  in Some (mk64 0 q0, mk64 (drop_bit lsh (hi a)) (push_bit rsh (hi a) OR drop_bit lsh (lo a))))))"

definition JSLL_DIV :: "js64 \<Rightarrow> js64 \<Rightarrow> js64 option" where
  "JSLL_DIV a b =
     (let negative = sint (hi a) < 0;
          a' = (if negative then JSLL_NEG a else a);
          (negative, b') = (if sint (hi b) < 0 then (\<not> negative, JSLL_NEG b) else (negative, b))
      in map_option (\<lambda>(q, r). if negative then JSLL_NEG q else q) (jsll_udivmod a' b'))"

definition JSLL_MOD :: "js64 \<Rightarrow> js64 \<Rightarrow> js64 option" where
  "JSLL_MOD a b =
     (let negative = sint (hi a) < 0;
          a' = (if negative then JSLL_NEG a else a);
          b' = (if sint (hi b) < 0 then JSLL_NEG b else b)
      in map_option (\<lambda>(q, r). if negative then JSLL_NEG r else r) (jsll_udivmod a' b'))"

section \<open>Pairs as machine words\<close>

definition val64 :: "js64 \<Rightarrow> nat" where
  "val64 a = unat (hi a) * 2 ^ 32 + unat (lo a)"

definition to64 :: "js64 \<Rightarrow> u64" where
  "to64 a = of_nat (val64 a)"

lemma val64_less: "val64 a < 2 ^ 64"
proof -
  have "unat (hi a) + 1 \<le> 2 ^ 32" "unat (lo a) < 2 ^ 32"
    using unsigned_less [of "hi a", where 'a = nat] unsigned_less [of "lo a", where 'a = nat] by simp_all
  then show ?thesis by (simp add: val64_def)
qed

lemma unat_to64: "unat (to64 a) = val64 a"
  using val64_less [of a] by (simp add: to64_def unat_of_nat)

lemma to64_eqI: "to64 a = x \<longleftrightarrow> val64 a = unat x"
  by (metis unat_to64 word_unat_eq_iff)

lemma val64_mk64 [simp]: "val64 (mk64 h l) = unat h * 2 ^ 32 + unat l"
  by (simp add: val64_def mk64_def)

lemma mk64_sel [simp]: "hi (mk64 h l) = h" "lo (mk64 h l) = l"
  by (simp_all add: mk64_def)

lemma to64_bit: "bit (to64 a) n \<longleftrightarrow> (if n < 32 then bit (lo a) n else bit (hi a) (n - 32))"
proof -
  have "to64 a = push_bit 32 (ucast (hi a)) OR ucast (lo a)"
  proof -
    have "push_bit 32 (ucast (hi a)) OR ucast (lo a) = push_bit 32 (ucast (hi a)) + (ucast (lo a) :: u64)"
      by (rule disjunctive_add [symmetric]) (auto simp: bit_simps dest: bit_imp_le_length)
    also have "\<dots> = of_nat (unat (hi a)) * 2 ^ 32 + of_nat (unat (lo a))"
      by (simp add: push_bit_eq_mult)
    finally show ?thesis by (simp add: to64_def val64_def)
  qed
  then show ?thesis
    by (auto simp: bit_simps dest: bit_imp_le_length)
qed


section \<open>Arithmetic agrees\<close>

text \<open>What lands in the upper half only matters modulo \<open>2 ^ 32\<close>.\<close>

lemma shift_mod: "(of_int (k mod 2 ^ 32) :: u64) * 2 ^ 32 = of_int k * 2 ^ 32"
proof -
  have z: "(2 :: u64) ^ 32 * 2 ^ 32 = 0" by (simp flip: power_add)
  have "(of_int k :: u64) = of_int (k mod 2 ^ 32 + 2 ^ 32 * (k div 2 ^ 32))" by simp
  also have "\<dots> = of_int (k mod 2 ^ 32) + 2 ^ 32 * of_int (k div 2 ^ 32)"
    by (simp only: of_int_add of_int_mult of_int_power of_int_numeral)
  finally have k: "(of_int k :: u64) = of_int (k mod 2 ^ 32) + 2 ^ 32 * of_int (k div 2 ^ 32)" .
  have "(x + p * y) * p = x * p + (p * p) * y" for x y p :: u64 by (simp add: algebra_simps)
  then show ?thesis unfolding k by (simp only: z) simp
qed

lemma to64_int: "to64 a = of_int (uint (hi a)) * 2 ^ 32 + of_int (uint (lo a))"
  by (simp add: to64_def val64_def)

lemma uint_add_carry: "uint (x + y) = uint x + uint y - (if x + y < y then 2 ^ 32 else 0)" for x y :: u32
proof -
  have b: "uint x < 2 ^ 32" "uint y < 2 ^ 32" "0 \<le> uint x" "0 \<le> uint y"
    using unsigned_less [of x, where 'a = int] unsigned_less [of y, where 'a = int] by auto
  have s: "uint (x + y) = (uint x + uint y) mod 2 ^ 32" by (simp add: uint_word_ariths)
  show ?thesis
  proof (cases "uint x + uint y < 2 ^ 32")
    case True
    then have "uint (x + y) = uint x + uint y" using s b by simp
    then show ?thesis using b by (simp add: word_less_def)
  next
    case False
    have "(uint x + uint y) mod 2 ^ 32 = (uint x + uint y - 2 ^ 32) mod 2 ^ 32" by simp
    also have "\<dots> = uint x + uint y - 2 ^ 32" using False b by (intro mod_pos_pos_trivial) simp_all
    finally have "uint (x + y) = uint x + uint y - 2 ^ 32" using s by simp
    then show ?thesis using b by (simp add: word_less_def)
  qed
qed

lemma uint_sub_borrow: "uint (x - y) = uint x - uint y + (if x < y then 2 ^ 32 else 0)" for x y :: u32
  using uint_add_carry [of "x - y" y] by simp

lemma uint_hi: "(of_int (uint (x + y)) :: u64) * 2 ^ 32 = of_int (uint x + uint y) * 2 ^ 32"
  "(of_int (uint (x - y)) :: u64) * 2 ^ 32 = of_int (uint x - uint y) * 2 ^ 32"
  "(of_int (uint (x * y)) :: u64) * 2 ^ 32 = of_int (uint x * uint y) * 2 ^ 32"
  "(of_int (uint (- x)) :: u64) * 2 ^ 32 = of_int (- uint x) * 2 ^ 32" for x y :: u32
proof -
  have e: "(2 :: int) ^ LENGTH(32) = 2 ^ 32" by simp
  show "(of_int (uint (x + y)) :: u64) * 2 ^ 32 = of_int (uint x + uint y) * 2 ^ 32"
    "(of_int (uint (x - y)) :: u64) * 2 ^ 32 = of_int (uint x - uint y) * 2 ^ 32"
    "(of_int (uint (x * y)) :: u64) * 2 ^ 32 = of_int (uint x * uint y) * 2 ^ 32"
    "(of_int (uint (- x)) :: u64) * 2 ^ 32 = of_int (- uint x) * 2 ^ 32"
    unfolding uint_word_ariths e by (rule shift_mod)+
qed

lemma carry_shift: "(of_int (uint (if b then 1 else 0 :: u32)) :: u64) * 2 ^ 32 = (if b then 2 ^ 32 else 0)"
  by simp

lemma to64_ADD: "to64 (JSLL_ADD a b) = to64 a + to64 b"
proof -
  have "to64 (JSLL_ADD a b) =
      of_int (uint (hi a + hi b + (if lo a + lo b < lo b then 1 else 0))) * 2 ^ 32 + of_int (uint (lo a + lo b))"
    by (simp add: to64_int JSLL_ADD_def Let_def)
  also have "\<dots> = of_int (uint (hi a) + uint (hi b)) * 2 ^ 32 + (if lo a + lo b < lo b then 2 ^ 32 else 0) + of_int (uint (lo a + lo b))"
    unfolding uint_hi(1) [of "hi a + hi b"] of_int_add distrib_right carry_shift uint_hi(1) by (rule refl)
  also have "(of_int (uint (lo a + lo b)) :: u64) = of_int (uint (lo a)) + of_int (uint (lo b)) - (if lo a + lo b < lo b then 2 ^ 32 else 0)"
    unfolding uint_add_carry by simp
  finally show ?thesis by (simp add: to64_int algebra_simps)
qed

lemma to64_SUB: "to64 (JSLL_SUB a b) = to64 a - to64 b"
proof -
  have "to64 (JSLL_SUB a b) =
      of_int (uint (hi a - hi b - (if lo a < lo b then 1 else 0))) * 2 ^ 32 + of_int (uint (lo a - lo b))"
    by (simp add: to64_int JSLL_SUB_def)
  also have "\<dots> = of_int (uint (hi a) - uint (hi b)) * 2 ^ 32 - (if lo a < lo b then 2 ^ 32 else 0) + of_int (uint (lo a - lo b))"
    unfolding uint_hi(2) [of "hi a - hi b"] of_int_diff left_diff_distrib carry_shift uint_hi(2) by (rule refl)
  also have "(of_int (uint (lo a - lo b)) :: u64) = of_int (uint (lo a)) - of_int (uint (lo b)) + (if lo a < lo b then 2 ^ 32 else 0)"
    unfolding uint_sub_borrow by simp
  finally show ?thesis by (simp add: to64_int algebra_simps)
qed

lemma NEG_as_SUB: "JSLL_NEG a = JSLL_SUB JSLL_Zero a"
  by (simp add: JSLL_NEG_def JSLL_SUB_def JSLL_Zero_def Let_def word_gt_0)

lemma to64_NEG: "to64 (JSLL_NEG a) = - to64 a"
  unfolding NEG_as_SUB to64_SUB by (simp add: to64_int JSLL_Zero_def)

lemma unat_lo16: "unat (jslo16 a) = unat a mod 2 ^ 16"
  by (simp add: jslo16_def JS_BITMASK_eq_mask unat_take_bit flip: take_bit_eq_mask)

lemma unat_hi16: "unat (jshi16 a) = unat a div 2 ^ 16"
  by (simp add: jshi16_def unat_drop_bit_div)

lemma halves_less: "unat (jslo16 a) < 2 ^ 16" "unat (jshi16 a) < 2 ^ 16"
  using unsigned_less [of a, where 'a = nat] by (simp_all add: unat_lo16 unat_hi16 less_mult_imp_div_less)

lemma halves: "unat a = unat (jshi16 a) * 2 ^ 16 + unat (jslo16 a)"
  by (simp add: unat_lo16 unat_hi16)

lemma half_product: "(x :: nat) < 2 ^ 16 \<Longrightarrow> y < 2 ^ 16 \<Longrightarrow> x * y \<le> (2 ^ 16 - 1) * (2 ^ 16 - 1)"
  by (intro mult_le_mono) simp_all

lemma unat_push16: "unat x < 2 ^ 16 \<Longrightarrow> unat (push_bit 16 x) = unat x * 2 ^ 16" for x :: u32
  by (simp add: push_bit_eq_mult unat_mult_exact)

lemma split_times: "x div k * (k * k) + x mod k * k = x * k" for x k :: nat
  by (metis distrib_right div_mult_mod_eq mult.assoc)

lemma val_MUL32: "val64 (JSLL_MUL32 a b) = unat a * unat b"
proof -
  define a1 a0 b1 b0 where "a1 = jshi16 a" and "a0 = jslo16 a" and "b1 = jshi16 b" and "b0 = jslo16 b"
  have less: "unat a1 < 2 ^ 16" "unat a0 < 2 ^ 16" "unat b1 < 2 ^ 16" "unat b0 < 2 ^ 16"
    by (simp_all only: a1_def a0_def b1_def b0_def halves_less)
  have prod: "unat (x * y) = unat x * unat y \<and> unat x * unat y \<le> (2 ^ 16 - 1) * (2 ^ 16 - 1)"
    if "unat x < 2 ^ 16" "unat y < 2 ^ 16" for x y :: u32
    using half_product [OF that] by (simp add: unat_mult_exact)
  note p = prod [OF less(2,4)] prod [OF less(2,3)] prod [OF less(1,4)] prod [OF less(1,3)]
  define y0 y1 y2 y3 s where "y0 = unat a0 * unat b0" and "y1 = unat a0 * unat b1 + y0 div 2 ^ 16"
    and "y2 = unat a1 * unat b0" and "y3 = unat a1 * unat b1" and "s = y1 + y2"
  have "y0 < 2 ^ 16 * 2 ^ 16" using p(1) by (simp add: y0_def)
  then have y0: "y0 div 2 ^ 16 < 2 ^ 16" by (rule less_mult_imp_div_less)
  have u1: "unat (a0 * b1 + jshi16 (a0 * b0)) = y1" "y1 < 2 ^ 32"
    using p(1,2) y0 by (simp_all add: y1_def y0_def unat_add_exact unat_hi16)
  define w where "w = a0 * b1 + jshi16 (a0 * b0) + a1 * b0"
  have y2: "unat (a1 * b0) = y2" "y2 < 2 ^ 32" using p(3) by (simp_all add: y2_def)
  have w: "unat w = s mod 2 ^ 32" by (simp add: w_def s_def unat_word_ariths(1) [of "a0 * b1 + jshi16 (a0 * b0)"] u1 y2)
  define c where "c = (if w < a1 * b0 then 1 else 0 :: nat)"
  have c: "s = unat w + c * 2 ^ 32"
  proof (cases "s < 2 ^ 32")
    case True
    then have "unat w = s" using w by simp
    then show ?thesis using y2 by (simp add: c_def word_less_nat_alt s_def)
  next
    case False
    then have "unat w = s - 2 ^ 32" using w u1 y2 by (simp add: s_def mod_if)
    then show ?thesis using False u1 y2 by (simp add: c_def word_less_nat_alt s_def)
  qed
  have total: "y3 * 2 ^ 32 + s * 2 ^ 16 + y0 mod 2 ^ 16 = unat a * unat b"
  proof -
    have "y3 * 2 ^ 32 + s * 2 ^ 16 + y0 mod 2 ^ 16 =
        y3 * 2 ^ 32 + (unat a0 * unat b1 + y2) * 2 ^ 16 + (y0 div 2 ^ 16 * 2 ^ 16 + y0 mod 2 ^ 16)"
      by (simp add: s_def y1_def algebra_simps)
    also have "\<dots> = (unat a1 * 2 ^ 16 + unat a0) * (unat b1 * 2 ^ 16 + unat b0)"
      by (simp add: y0_def y2_def y3_def algebra_simps)
    finally show ?thesis using halves [of a] halves [of b] by (simp add: a1_def a0_def b1_def b0_def)
  qed
  have ws: "unat w div 2 ^ 16 * 2 ^ 32 + (unat w mod 2 ^ 16) * 2 ^ 16 = unat w * 2 ^ 16"
    using split_times [of "unat w" "2 ^ 16"] by simp
  have y3: "y3 + c * 2 ^ 16 + unat w div 2 ^ 16 < 2 ^ 32"
  proof -
    have "(y3 + c * 2 ^ 16 + unat w div 2 ^ 16) * 2 ^ 32 \<le> y3 * 2 ^ 32 + s * 2 ^ 16 + y0 mod 2 ^ 16"
      unfolding c using ws by (simp add: distrib_right)
    also have "\<dots> \<le> (2 ^ 32 - 1) * (2 ^ 32 - 1)"
      unfolding total using unsigned_less [of a, where 'a = nat] unsigned_less [of b, where 'a = nat]
      by (intro mult_le_mono) simp_all
    finally show ?thesis by simp
  qed
  have hi: "unat (hi (JSLL_MUL32 a b)) = y3 + c * 2 ^ 16 + unat w div 2 ^ 16"
  proof -
    have "hi (JSLL_MUL32 a b) = (if w < a1 * b0 then a1 * b1 + JS_BIT 16 else a1 * b1) + jshi16 w"
      by (simp add: JSLL_MUL32_def Let_def w_def a1_def a0_def b1_def b0_def)
    moreover have "unat (if w < a1 * b0 then a1 * b1 + JS_BIT 16 else a1 * b1) = y3 + c * 2 ^ 16"
      using y3 p(4) by (simp add: c_def y3_def unat_add_exact unat_JS_BIT)
    ultimately show ?thesis using y3 by (simp add: unat_add_exact unat_hi16)
  qed
  have lo: "unat (lo (JSLL_MUL32 a b)) = (unat w mod 2 ^ 16) * 2 ^ 16 + y0 mod 2 ^ 16"
  proof -
    have "lo (JSLL_MUL32 a b) = push_bit 16 (jslo16 w) + jslo16 (a0 * b0)"
      by (simp add: JSLL_MUL32_def Let_def w_def a1_def a0_def b1_def b0_def)
    moreover have "unat (push_bit 16 (jslo16 w)) = (unat w mod 2 ^ 16) * 2 ^ 16"
      using halves_less(1) [of w] by (simp add: unat_push16 unat_lo16)
    moreover have "unat (jslo16 (a0 * b0)) = y0 mod 2 ^ 16" using p(1) by (simp add: unat_lo16 y0_def)
    moreover have "(unat w mod 2 ^ 16) * 2 ^ 16 + y0 mod 2 ^ 16 < 2 ^ 32"
    proof -
      have "x * 2 ^ 16 + y < 2 ^ 32" if "x < 2 ^ 16" "y < 2 ^ 16" for x y :: nat using that by simp
      then show ?thesis by simp
    qed
    ultimately show ?thesis by (simp add: unat_add_exact)
  qed
  have "val64 (JSLL_MUL32 a b) = y3 * 2 ^ 32 + s * 2 ^ 16 + y0 mod 2 ^ 16"
    unfolding val64_def hi lo c using ws by (simp add: distrib_right)
  then show ?thesis using total by simp
qed


lemma to64_MUL: "to64 (JSLL_MUL a b) = to64 a * to64 b"
proof -
  define p where "p = JSLL_MUL32 (lo a) (lo b)"
  have p: "to64 p = of_int (uint (lo a)) * of_int (uint (lo b))"
    by (simp add: to64_def p_def val_MUL32)
  have "to64 (JSLL_MUL a b) = of_int (uint (hi p + (hi a * lo b + lo a * hi b))) * 2 ^ 32 + of_int (uint (lo p))"
    by (simp add: to64_int JSLL_MUL_def Let_def p_def)
  also have "\<dots> = to64 p + (of_int (uint (hi a)) * of_int (uint (lo b)) + of_int (uint (lo a)) * of_int (uint (hi b))) * 2 ^ 32"
    unfolding uint_hi(1) of_int_add distrib_right uint_hi(3) to64_int of_int_mult by simp
  also have "\<dots> = to64 a * to64 b"
  proof -
    have z: "(2 :: u64) ^ 32 * 2 ^ 32 = 0" by (simp flip: power_add)
    have "(x * k + y) * (u * k + v) = y * v + (x * v + y * u) * k + x * u * (k * k)" for x y u v k :: u64
      by (simp add: algebra_simps)
    then show ?thesis unfolding to64_int [of a] to64_int [of b] p by (simp only: z) simp
  qed
  finally show ?thesis .
qed

section \<open>Comparisons, bitwise operations and shifts agree\<close>

lemma word_halves_eq: "hi a = hi b \<and> lo a = lo b \<longleftrightarrow> to64 a = to64 b"
proof
  assume eq: "to64 a = to64 b"
  have "bit (hi a) n = bit (hi b) n" if "n < 32" for n
    using arg_cong [OF eq, of "\<lambda>w. bit w (n + 32)"] by (simp add: to64_bit)
  moreover have "bit (lo a) n = bit (lo b) n" if "n < 32" for n
    using arg_cong [OF eq, of "\<lambda>w. bit w n"] that by (simp add: to64_bit)
  ultimately show "hi a = hi b \<and> lo a = lo b" by (auto intro: bit_word_eqI)
qed (simp add: to64_def val64_def)

lemma to64_bitwise:
  "to64 (JSLL_AND a b) = to64 a AND to64 b" "to64 (JSLL_OR a b) = to64 a OR to64 b"
  "to64 (JSLL_XOR a b) = to64 a XOR to64 b" "to64 (JSLL_NOT a) = NOT (to64 a)"
  by (auto intro!: bit_word_eqI simp: to64_bit bit_and_iff bit_or_iff bit_xor_iff bit_not_iff
      JSLL_AND_def JSLL_OR_def JSLL_XOR_def JSLL_NOT_def)

lemma uint_to64: "uint (to64 a) = uint (hi a) * 2 ^ 32 + uint (lo a)"
proof -
  have "uint (to64 a) = int (unat (to64 a))" by simp
  then show ?thesis by (simp only: unat_to64 val64_def) simp
qed

lemma sint_u32: "sint w = uint w - (if bit w 31 then 2 ^ 32 else 0)" for w :: u32
  proof -
  have "take_bit 32 (uint w) = uint w" using unsigned_less [of w, where 'a = int] by (simp add: take_bit_int_eq_self_iff)
  then show ?thesis by (simp add: sint_uint signed_take_bit_eq_take_bit_minus bit_uint_iff)
qed

lemma sint_u64: "sint w = uint w - (if bit w 63 then 2 ^ 64 else 0)" for w :: u64
proof -
  have "take_bit 64 (uint w) = uint w" using unsigned_less [of w, where 'a = int] by (simp add: take_bit_int_eq_self_iff)
  then show ?thesis by (simp add: sint_uint signed_take_bit_eq_take_bit_minus bit_uint_iff)
qed

lemma sint_to64: "sint (to64 a) = sint (hi a) * 2 ^ 32 + uint (lo a)"
  by (simp add: sint_u64 sint_u32 to64_bit uint_to64)

lemma lex_less: "0 \<le> l \<Longrightarrow> l < 2 ^ 32 \<Longrightarrow> 0 \<le> m \<Longrightarrow> m < 2 ^ 32 \<Longrightarrow>
    h * 4294967296 + l < k * 4294967296 + m \<longleftrightarrow> h < k \<or> (h = k \<and> l < m)" for h k l m :: int
  by (cases h k rule: linorder_cases) auto

lemma uint_range: "0 \<le> uint w" "uint w < 4294967296" for w :: u32
  using unsigned_less [of w, where 'a = int] by simp_all

lemma sint_eq_iff: "sint x = sint y \<longleftrightarrow> x = y" for x y :: u32
  using signed_word_eqI by auto

lemma JSLL_CMP_eq: "JSLL_CMP a op b \<longleftrightarrow> cmp op (sint (to64 a)) (sint (to64 b))"
  by (cases op) (auto simp: JSLL_CMP_def sint_to64 lex_less uint_range sint_eq_iff)

lemma JSLL_UCMP_eq: "JSLL_UCMP a op b \<longleftrightarrow> cmp op (uint (to64 a)) (uint (to64 b))"
  by (cases op) (auto simp: JSLL_UCMP_def uint_to64 lex_less uint_range word_uint_eq_iff)

lemma to64_shifts:
  assumes "b < 64"
  shows "to64 (JSLL_SHL a b) = push_bit b (to64 a)" "to64 (JSLL_USHR a b) = drop_bit b (to64 a)"
    "to64 (JSLL_SHR a b) = signed_drop_bit b (to64 a)"
proof -
  have hi: "bit (hi a) n \<Longrightarrow> n < 32" and lo: "bit (lo a) n \<Longrightarrow> n < 32" for n
    by (auto dest: bit_imp_le_length)
  have ac: "32 + b = b + 32" by simp
  have m: "b mod 32 = (if b < 32 then b else b - 32)" using assms by (simp add: mod_if)
  show "to64 (JSLL_SHL a b) = push_bit b (to64 a)"
    by (rule bit_word_eqI)
      (use assms hi lo in \<open>auto simp: to64_bit JSLL_SHL_def m ac bit_push_bit_iff bit_drop_bit_eq bit_or_iff\<close>)
  have hi': "\<not> bit (hi a) (b + n - 32)" if "\<not> b < 32" "\<not> n < 32" for n using hi [of "b + n - 32"] that by auto
  show "to64 (JSLL_USHR a b) = drop_bit b (to64 a)"
  proof (rule bit_word_eqI)
    fix n assume "n < LENGTH(64)"
    then show "bit (to64 (JSLL_USHR a b)) n = bit (drop_bit b (to64 a)) n"
      using assms hi' [of n] lo [of "b + n"]
      by (auto simp: to64_bit JSLL_USHR_def m ac bit_push_bit_iff bit_drop_bit_eq bit_or_iff add.commute [of n b])
  qed
  show "to64 (JSLL_SHR a b) = signed_drop_bit b (to64 a)"
  proof (rule bit_word_eqI)
    fix n assume "n < LENGTH(64)"
    then show "bit (to64 (JSLL_SHR a b)) n = bit (signed_drop_bit b (to64 a)) n"
      using assms hi' [of n] lo [of "b + n"]
      by (cases "n = 32") (auto simp: to64_bit JSLL_SHR_def m ac bit_push_bit_iff bit_drop_bit_eq bit_or_iff
          bit_signed_drop_bit_iff add.commute [of n b])
  qed
qed

section \<open>Normalized division is correct\<close>

lemma divmod_eqI: "N = q * B + r \<Longrightarrow> r < B \<Longrightarrow> N div B = q \<and> N mod B = r" for N :: nat
  by simp

lemma unat_shl_or:
  fixes x y :: u32
  assumes "0 < l" "l < 32"
  shows "unat (push_bit l x) = (unat x mod 2 ^ (32 - l)) * 2 ^ l"
    and "unat (push_bit l x OR drop_bit (32 - l) y) = (unat x mod 2 ^ (32 - l)) * 2 ^ l + unat y div 2 ^ (32 - l)"
proof -
  have "unat (push_bit l x) = (unat x * 2 ^ l) mod 2 ^ 32"
    unfolding unsigned_push_bit_eq by (simp add: take_bit_eq_mod push_bit_eq_mult)
  also have "(2 :: nat) ^ 32 = 2 ^ (32 - l) * 2 ^ l" using assms by (simp flip: power_add)
  finally show p: "unat (push_bit l x) = (unat x mod 2 ^ (32 - l)) * 2 ^ l" by (simp add: mult_mod_left)
  have "push_bit l x OR drop_bit (32 - l) y = push_bit l x + drop_bit (32 - l) y"
    using assms
    by (intro disjunctive_add [symmetric]) (auto simp: bit_simps dest: bit_imp_le_length)
  moreover have "unat (push_bit l x) + unat (drop_bit (32 - l) y) < 2 ^ LENGTH(32)"
  proof -
    have e: "(2 :: nat) ^ 32 = 2 ^ (32 - l) * 2 ^ l" "(2 :: nat) ^ 32 = 2 ^ l * 2 ^ (32 - l)"
      using assms by (simp_all flip: power_add)
    have "unat y div 2 ^ (32 - l) < 2 ^ l"
      using unsigned_less [of y, where 'a = nat] e(2) by (simp add: less_mult_imp_div_less)
    moreover have "(unat x mod 2 ^ (32 - l) + 1) * 2 ^ l \<le> 2 ^ (32 - l) * 2 ^ l"
      by (intro mult_le_mono1) (simp add: Suc_le_eq)
    ultimately show ?thesis unfolding p unat_drop_bit_div using e(1) by simp
  qed
  ultimately show "unat (push_bit l x OR drop_bit (32 - l) y) =
      (unat x mod 2 ^ (32 - l)) * 2 ^ l + unat y div 2 ^ (32 - l)"
    by (simp only: unat_add_exact p unat_drop_bit_div)
qed

lemma unat_push_exact: "unat x * 2 ^ l < 2 ^ 32 \<Longrightarrow> unat (push_bit l x) = unat x * 2 ^ l" for x :: u32
  unfolding unsigned_push_bit_eq by (simp add: take_bit_eq_mod push_bit_eq_mult)

lemma unat_push16_or:
  fixes x y :: u32
  assumes "unat x < 2 ^ 16" "unat y < 2 ^ 16"
  shows "unat (push_bit 16 x OR y) = unat x * 2 ^ 16 + unat y"
proof -
  have "y = drop_bit 16 (push_bit 16 y)"
  proof (rule bit_word_eqI)
    fix n assume "n < LENGTH(32)"
    have "\<not> bit y n" if "16 \<le> n"
    proof -
      have "unat y div 2 ^ n = 0" using assms(2) power_increasing [OF that, of "2 :: nat"] by simp
      then show ?thesis by (simp add: bit_unat)
    qed
    then show "bit y n = bit (drop_bit 16 (push_bit 16 y)) n"
      by (cases "n < 16") (auto simp: bit_drop_bit_eq bit_push_bit_iff)
  qed
  then have "unat (push_bit 16 x OR y) = unat (push_bit 16 x OR drop_bit (32 - 16) (push_bit 16 y))" by simp
  also have "\<dots> = unat x * 2 ^ 16 + unat y"
    using assms by (subst unat_shl_or(2)) (simp_all add: unat_push16)
  finally show ?thesis .
qed

text \<open>One digit, on natural numbers: at most two corrections of the estimate.\<close>

lemma digit_nat:
  fixes B R x :: nat
  assumes B: "2 ^ 31 \<le> B" "B < 2 ^ 32" and R: "R < B" and x: "x < 2 ^ 16"
  defines "d1 \<equiv> B div 2 ^ 16" and "d0 \<equiv> B mod 2 ^ 16"
  defines "q \<equiv> R div d1" and "t \<equiv> R mod d1 * 2 ^ 16 + x" and "N \<equiv> R * 2 ^ 16 + x"
  shows "0 < d1" "R mod d1 < 2 ^ 16" "t < B" "q * d0 < 2 ^ 32"
    and "q * d0 \<le> t \<Longrightarrow> N div B = q \<and> N mod B = t - q * d0"
    and "t < q * d0 \<Longrightarrow> q * d0 \<le> t + B \<Longrightarrow> 1 \<le> q \<and> N div B = q - 1 \<and> N mod B = t + B - q * d0"
    and "t + B < q * d0 \<Longrightarrow> 2 \<le> q \<and> N div B = q - 2 \<and> N mod B = t + 2 * B - q * d0"
proof -
  have b: "B = d1 * 2 ^ 16 + d0" by (simp add: d1_def d0_def)
  have d1: "2 ^ 15 \<le> d1" "d1 < 2 ^ 16" and d0: "d0 < 2 ^ 16"
    using B by (simp_all add: d1_def d0_def less_eq_div_iff_mult_less_eq less_mult_imp_div_less)
  then show pos: "0 < d1" by simp
  then have r: "R mod d1 < d1" by simp
  then show "R mod d1 < 2 ^ 16" using d1(2) by (rule less_trans)
  have "(R mod d1 + 1) * 2 ^ 16 \<le> d1 * 2 ^ 16" using r by (intro mult_le_mono1) simp
  then show t: "t < B" using x b by (simp add: t_def)
  have "q \<le> 2 ^ 16 + 1"
  proof -
    have "R < (2 ^ 16 + 2) * d1" using R b d0 d1 by simp
    then have "q < 2 ^ 16 + 2" unfolding q_def by (rule less_mult_imp_div_less)
    then show ?thesis by simp
  qed
  then have "q * d0 \<le> (2 ^ 16 + 1) * (2 ^ 16 - 1)" using d0 by (intro mult_le_mono) simp_all
  then show m: "q * d0 < 2 ^ 32" by simp
  have n: "N + q * d0 = q * B + t"
  proof -
    have "R * 2 ^ 16 = (q * d1 + R mod d1) * 2 ^ 16" by (simp add: q_def)
    then have "R * 2 ^ 16 = q * d1 * 2 ^ 16 + R mod d1 * 2 ^ 16" by (simp only: distrib_right)
    moreover have "q * B = q * d1 * 2 ^ 16 + q * d0" by (simp add: b distrib_left)
    ultimately show ?thesis by (simp only: N_def t_def)
  qed
  show "N div B = q \<and> N mod B = t - q * d0" if "q * d0 \<le> t"
    using n that t by (intro divmod_eqI) simp_all
  show "1 \<le> q \<and> N div B = q - 1 \<and> N mod B = t + B - q * d0" if "t < q * d0" "q * d0 \<le> t + B"
  proof -
    have q: "1 \<le> q" using that(1) by (cases q) simp_all
    then have "q * B = (q - 1) * B + B" by (cases q) simp_all
    then show ?thesis using n that q by (intro conjI [OF q] divmod_eqI) simp_all
  qed
  show "2 \<le> q \<and> N div B = q - 2 \<and> N mod B = t + 2 * B - q * d0" if "t + B < q * d0"
  proof -
    have q: "2 \<le> q"
    proof (rule ccontr)
      assume "\<not> 2 \<le> q"
      then have "q * d0 \<le> d0" using mult_le_mono1 [of q 1 d0] by linarith
      moreover have "d0 < 65536" "65536 < B" using d0 B by simp_all
      ultimately show False using that by linarith
    qed
    then obtain p where "q = p + 2" using le_Suc_ex by (metis add.commute)
    then have "q * B = (q - 2) * B + 2 * B" by (simp add: distrib_right)
    then show ?thesis using n that q m B by (intro conjI [OF q] divmod_eqI) simp_all
  qed
qed

lemma norm_digit_correct:
  assumes b: "2 ^ 31 \<le> unat b" and r: "r < b" and x: "unat x < 2 ^ 16" and d: "norm_digit b r x = (q, r')"
  shows "unat q = (unat r * 2 ^ 16 + unat x) div unat b \<and> unat r' = (unat r * 2 ^ 16 + unat x) mod unat b"
proof -
  define d1 d0 where "d1 = jshi16 b" and "d0 = jslo16 b"
  define q1 t m where "q1 = r div d1" and "t = push_bit 16 (r mod d1) OR x" and "m = q1 * d0"
  have d1: "unat d1 = unat b div 2 ^ 16" and d0: "unat d0 = unat b mod 2 ^ 16"
    by (simp_all add: d1_def d0_def unat_hi16 unat_lo16)
  have bl: "unat b < 2 ^ 32" and r: "unat r < unat b"
    using unsigned_less [of b, where 'a = nat] r by (simp_all add: word_less_nat_alt)
  note dg = digit_nat [OF b bl r x, folded d1 d0]
  have q1: "unat q1 = unat r div unat d1" by (simp add: q1_def unat_div)
  have t: "unat t = unat r mod unat d1 * 2 ^ 16 + unat x"
    using dg(2) x by (simp add: t_def unat_push16_or unat_mod del: power_numeral)
  have m: "unat m = unat q1 * unat d0" using dg(4) by (simp add: m_def q1 unat_mult_exact)
  note dg = dg [folded q1, folded t m]
  have diff: "unat (of_nat (k * unat b) + t - m) = unat t + k * unat b - unat m"
    if "unat m \<le> unat t + k * unat b" "unat t + k * unat b - unat m < 2 ^ 32" for k
  proof -
    have "(of_nat (unat t + k * unat b - unat m) :: u32) = of_nat (unat t + k * unat b) - of_nat (unat m)"
      using that(1) by (rule of_nat_diff)
    then have "of_nat (k * unat b) + t - m = of_nat (unat t + k * unat b - unat m)" by simp
    then show ?thesis using that(2) by (simp only: unat_of_nat) simp
  qed
  have eq: "norm_digit b r x =
      (if t < m then
         (if b \<le> t + b \<and> t + b < m then (q1 - 1 - 1, t + b + b - m) else (q1 - 1, t + b - m))
       else (q1, t - m))"
    by (simp add: norm_digit_def Let_def d1_def d0_def q1_def t_def m_def)
  consider "unat m \<le> unat t" | "unat t < unat m" "unat m \<le> unat t + unat b" | "unat t + unat b < unat m"
    by linarith
  then show ?thesis
  proof cases
    case 1
    then have "norm_digit b r x = (q1, t - m)" by (simp add: eq word_less_nat_alt)
    then show ?thesis using d dg(5) [OF 1] 1 by (simp add: unat_sub_exact)
  next
    case 2
    have "\<not> (b \<le> t + b \<and> t + b < m)"
    proof (cases "unat t + unat b < 2 ^ 32")
      case True
      then show ?thesis using 2 by (simp add: word_less_nat_alt unat_add_exact)
    next
      case False
      then have "unat (t + b) = unat t + unat b - 2 ^ 32"
        using bl unsigned_less [of t, where 'a = nat] by (simp add: unat_word_ariths mod_if)
      moreover have "unat t < 4294967296" "unat b < 4294967296" "\<not> unat t + unat b < 4294967296"
        using unsigned_less [of t, where 'a = nat] bl False by simp_all
      ultimately have "unat (t + b) < unat b" by simp
      then show ?thesis by (simp add: word_le_nat_alt)
    qed
    then have e: "norm_digit b r x = (q1 - 1, t + b - m)" using 2 by (simp add: eq word_less_nat_alt)
    have "unat (q1 - 1) = unat q1 - 1" using dg(6) [OF 2] by (simp add: unat_sub_exact)
    moreover have "unat (t + b - m) = unat t + unat b - unat m"
      using diff [of 1] 2 bl by (simp add: add.commute)
    ultimately show ?thesis using d e dg(6) [OF 2] by simp
  next
    case 3
    have lt: "unat t + unat b < 2 ^ 32" using 3 unsigned_less [of m, where 'a = nat] by simp
    then have "b \<le> t + b \<and> t + b < m" using 3 by (simp add: word_less_nat_alt word_le_nat_alt unat_add_exact)
    then have e: "norm_digit b r x = (q1 - 1 - 1, t + b + b - m)" using 3 by (simp add: eq word_less_nat_alt)
    have "unat (q1 - 1 - 1) = unat q1 - 2" using dg(7) [OF 3] by (simp add: unat_sub_exact)
    moreover have "unat (t + b + b - m) = unat t + 2 * unat b - unat m"
    proof -
      have "of_nat (2 * unat b) + t - m = t + b + b - m" by simp
      moreover have "unat m \<le> unat t + 2 * unat b"
        using b unsigned_less [of m, where 'a = nat] by simp
      moreover have "unat t + 2 * unat b - unat m < 2 ^ 32" using 3 bl by linarith
      ultimately show ?thesis using diff [of 2] by metis
    qed
    ultimately show ?thesis using d e dg(7) [OF 3] by simp
  qed
qed

lemma norm_udivmod32_correct:
  assumes b: "2 ^ 31 \<le> unat b" and a: "hi a < b" and d: "norm_udivmod32 a b = (q, r)"
  shows "unat q = val64 a div unat b \<and> unat r = val64 a mod unat b"
proof -
  obtain q1 r1 where 1: "norm_digit b (hi a) (jshi16 (lo a)) = (q1, r1)" by fastforce
  obtain q0 r0 where 0: "norm_digit b r1 (jslo16 (lo a)) = (q0, r0)" by fastforce
  have qr: "q = push_bit 16 q1 OR q0" "r = r0" using d by (simp_all add: norm_udivmod32_def 1 0)
  define B H L R1 where "B = unat b" and "H = unat (jshi16 (lo a))" and "L = unat (jslo16 (lo a))" and "R1 = unat r1"
  define N1 N0 where "N1 = unat (hi a) * 2 ^ 16 + H" and "N0 = R1 * 2 ^ 16 + L"
  have l: "H < 2 ^ 16" "L < 2 ^ 16" unfolding H_def L_def by (rule halves_less)+
  have A: "unat (hi a) < B" using a by (simp add: B_def word_less_nat_alt)
  have d1: "unat q1 = N1 div B" "R1 = N1 mod B"
    using norm_digit_correct [OF b a _ 1] l by (simp_all add: N1_def H_def B_def R1_def)
  have "0 < B" using b by (simp add: B_def)
  then have R1: "R1 < B" by (simp add: d1)
  have d0: "unat q0 = N0 div B" "unat r0 = N0 mod B"
    using norm_digit_correct [OF b _ _ 0] l R1 by (simp_all add: N0_def L_def B_def R1_def word_less_nat_alt)
  have small: "X * 2 ^ 16 + x < 2 ^ 16 * B" if "X < B" "x < 2 ^ 16" for X x :: nat
  proof -
    have "(X + 1) * 2 ^ 16 \<le> B * 2 ^ 16" using that by (intro mult_le_mono1) simp
    then show ?thesis using that by simp
  qed
  have q: "N1 div B < 2 ^ 16" "N0 div B < 2 ^ 16"
    using small [OF A l(1)] small [OF R1 l(2)] unfolding N1_def N0_def by (simp_all only: less_mult_imp_div_less)
  have "unat q = N1 div B * 2 ^ 16 + N0 div B"
    unfolding qr using q by (simp add: unat_push16_or d1 d0)
  moreover have "val64 a = (N1 div B * 2 ^ 16 + N0 div B) * B + N0 mod B"
  proof -
    have "val64 a = N1 * 2 ^ 16 + L"
      using halves [of "lo a"] by (simp add: val64_def N1_def H_def L_def algebra_simps)
    also have "N1 = N1 div B * B + R1" by (simp add: d1)
    also have "(N1 div B * B + R1) * 2 ^ 16 + L = N1 div B * 2 ^ 16 * B + N0" by (simp add: N0_def algebra_simps)
    also have "\<dots> = (N1 div B * 2 ^ 16 + N0 div B) * B + N0 mod B" by (simp add: distrib_right)
    finally show ?thesis .
  qed
  moreover have "N0 mod B < B" using \<open>0 < B\<close> by simp
  ultimately show ?thesis using divmod_eqI [of "val64 a"] d0 qr by (simp add: B_def)
qed

text \<open>\<open>CountLeadingZeros\<close> complements the logarithm of the same shape.\<close>

lemma clz_step_log2:
  "l \<le> l' \<Longrightarrow> log2_step s (l, drop_bit l N) = (l', n) \<Longrightarrow>
     clz_step s (32 - l, drop_bit l N) = (32 - l', n) \<and> n = drop_bit l' N"
  by (auto simp: log2_step_def clz_step_def Let_def drop_bit_drop_bit add.commute split: if_splits)

lemma log2_step_mono: "log2_step s (l, n) = (l', n') \<Longrightarrow> l \<le> l'"
  by (auto simp: log2_step_def split: if_splits)

lemma CountLeadingZeros_log2:
  assumes "N \<noteq> 0" shows "CountLeadingZeros N = 31 - JS_FloorLog2 N"
proof -
  obtain l1 n1 where 1: "log2_step 16 (0, N) = (l1, n1)" by fastforce
  then have c1: "clz_step 16 (32, N) = (32 - l1, n1)" "n1 = drop_bit l1 N"
    using clz_step_log2 [of 0 l1 16 N n1] by simp_all
  obtain l2 n2 where 2: "log2_step 8 (l1, n1) = (l2, n2)" by fastforce
  then have c2: "clz_step 8 (32 - l1, n1) = (32 - l2, n2)" "n2 = drop_bit l2 N"
    using clz_step_log2 log2_step_mono unfolding c1(2) by blast+
  obtain l3 n3 where 3: "log2_step 4 (l2, n2) = (l3, n3)" by fastforce
  then have c3: "clz_step 4 (32 - l2, n2) = (32 - l3, n3)" "n3 = drop_bit l3 N"
    using clz_step_log2 log2_step_mono unfolding c2(2) by blast+
  obtain l4 n4 where 4: "log2_step 2 (l3, n3) = (l4, n4)" by fastforce
  then have c4: "clz_step 2 (32 - l3, n3) = (32 - l4, n4)" "n4 = drop_bit l4 N"
    using clz_step_log2 log2_step_mono unfolding c3(2) by blast+
  obtain l5 n5 where 5: "log2_step 1 (l4, n4) = (l5, n5)" by fastforce
  then have c5: "clz_step 1 (32 - l4, n4) = (32 - l5, n5)" "n5 = drop_bit l5 N"
    using clz_step_log2 log2_step_mono unfolding c4(2) by blast+
  have "JS_FloorLog2 N = (if drop_bit 1 n4 \<noteq> 0 then l4 + 1 else l4)"
    unfolding JS_FloorLog2_def Let_def 1 2 3 4 case_prod_conv by (rule refl)
  then have l5: "l5 = JS_FloorLog2 N" using 5 by (auto simp: log2_step_def split: if_splits)
  have "unat n5 = 1"
  proof -
    have b: "2 ^ l5 \<le> unat N" "unat N < 2 ^ Suc l5" using JS_FloorLog2_bounds [OF assms] by (simp_all add: l5)
    then have "unat N div 2 ^ l5 < 2" by (simp add: less_mult_imp_div_less)
    moreover have "1 \<le> unat N div 2 ^ l5" using b(1) by (simp add: less_eq_div_iff_mult_less_eq)
    ultimately show ?thesis by (simp add: c5(2) unat_drop_bit_div)
  qed
  then have "n5 = 1" by (simp add: word_unat_eq_iff)
  moreover have "CountLeadingZeros N = (if n5 AND 1 \<noteq> 0 then 32 - l5 - 1 else 32 - l5)"
    unfolding CountLeadingZeros_def Let_def c1(1) c2(1) c3(1) c4(1) c5(1) case_prod_conv by (rule refl)
  ultimately show ?thesis by (simp add: l5)
qed

lemma CountLeadingZeros_normal:
  assumes "N \<noteq> 0"
  defines "lsh \<equiv> CountLeadingZeros N"
  shows "lsh \<le> 31" "2 ^ (31 - lsh) \<le> unat N" "unat N < 2 ^ (32 - lsh)"
    "2 ^ 31 \<le> unat N * 2 ^ lsh" "unat N * 2 ^ lsh < 2 ^ 32"
proof -
  define L where "L = JS_FloorLog2 N"
  have b: "2 ^ L \<le> unat N" "unat N < 2 ^ Suc L" using JS_FloorLog2_bounds [OF assms(1)] by (simp_all add: L_def)
  have "(2 :: nat) ^ L < 2 ^ 32" using b(1) unsigned_less [of N, where 'a = nat] by simp
  then have L: "L < 32" by (rule power_less_imp_less_exp [rotated]) simp
  have lsh: "lsh = 31 - L" unfolding lsh_def L_def by (rule CountLeadingZeros_log2 [OF assms(1)])
  then show le: "lsh \<le> 31" by simp
  have e: "31 - lsh = L" "32 - lsh = Suc L" using lsh L by simp_all
  then show lo: "2 ^ (31 - lsh) \<le> unat N" and hi: "unat N < 2 ^ (32 - lsh)" using b by simp_all
  have "(2 :: nat) ^ (31 - lsh) * 2 ^ lsh \<le> unat N * 2 ^ lsh" using lo by (rule mult_le_mono1)
  moreover have "(2 :: nat) ^ (31 - lsh) * 2 ^ lsh = 2 ^ 31" using le by (simp flip: power_add)
  ultimately show "2 ^ 31 \<le> unat N * 2 ^ lsh" by simp
  have "unat N * 2 ^ lsh < (2 :: nat) ^ (32 - lsh) * 2 ^ lsh" using hi by simp
  moreover have "(2 :: nat) ^ (32 - lsh) * 2 ^ lsh = 2 ^ 32" using le by (simp flip: power_add)
  ultimately show "unat N * 2 ^ lsh < 2 ^ 32" by simp
qed

section \<open>Division is correct\<close>

text \<open>Dividing scaled numbers, and long division of three words by one.\<close>

lemma scaled_div: "0 < (k :: nat) \<Longrightarrow> (A * k) div (B * k) = A div B \<and> (A * k) mod (B * k) = A mod B * k"
  by (simp add: mult_mod_left)

lemma long_div: "0 < B \<Longrightarrow>
    (H * 2 ^ 32 + l) div B = (H div B) * 2 ^ 32 + (H mod B * 2 ^ 32 + l) div B \<and>
    (H * 2 ^ 32 + l) mod B = (H mod B * 2 ^ 32 + l) mod B" for B H l :: nat
proof -
  assume "0 < B"
  have "H * 2 ^ 32 + l = (H div B * B + H mod B) * 2 ^ 32 + l" by simp
  also have "\<dots> = H div B * 2 ^ 32 * B + (H mod B * 2 ^ 32 + l)"
  proof -
    have "(x * B + y) * k + l = x * k * B + (y * k + l)" for x y k :: nat by (simp add: algebra_simps)
    then show ?thesis .
  qed
  finally show ?thesis using \<open>0 < B\<close> by (simp only: div_mult_self3 mod_mult_self3 not_gr_zero simp_thms)
qed

lemma long_div_less: "H < B \<Longrightarrow> l < 2 ^ 32 \<Longrightarrow> (H * 2 ^ 32 + l) div B < 2 ^ 32" for B H l :: nat
proof -
  assume "H < B" "l < 2 ^ 32"
  then have "(H + 1) * 2 ^ 32 \<le> B * 2 ^ 32" by (intro mult_le_mono1) simp
  then have "H * 2 ^ 32 + l < 2 ^ 32 * B" using \<open>l < 2 ^ 32\<close> by simp
  then show ?thesis by (rule less_mult_imp_div_less)
qed

text \<open>The dividend shifted left by \<open>l\<close>, in three words.\<close>

lemma shifted_words:
  fixes h w :: u32
  assumes "0 < l" "l < 32"
  shows "(unat (drop_bit (32 - l) h) * 2 ^ 32 + unat (push_bit l h OR drop_bit (32 - l) w)) * 2 ^ 32 + unat (push_bit l w)
    = (unat h * 2 ^ 32 + unat w) * 2 ^ l"
    and "unat (drop_bit (32 - l) h) * 2 ^ 32 + unat (push_bit l h OR drop_bit (32 - l) w) =
      unat h * 2 ^ l + unat w div 2 ^ (32 - l)"
proof -
  have e: "(2 :: nat) ^ 32 = 2 ^ (32 - l) * 2 ^ l" using assms by (simp flip: power_add)
  have s: "x div 2 ^ (32 - l) * 2 ^ 32 + x mod 2 ^ (32 - l) * 2 ^ l = x * 2 ^ l" for x :: nat
    unfolding e using div_mult_mod_eq [of x "2 ^ (32 - l)"] by (metis distrib_right mult.assoc)
  show 2: "unat (drop_bit (32 - l) h) * 2 ^ 32 + unat (push_bit l h OR drop_bit (32 - l) w) =
      unat h * 2 ^ l + unat w div 2 ^ (32 - l)"
    unfolding unat_shl_or(2) [OF assms] unat_drop_bit_div using s [of "unat h"] by simp
  show "(unat (drop_bit (32 - l) h) * 2 ^ 32 + unat (push_bit l h OR drop_bit (32 - l) w)) * 2 ^ 32 + unat (push_bit l w)
    = (unat h * 2 ^ 32 + unat w) * 2 ^ l"
    unfolding 2 unat_shl_or(1) [OF assms] using s [of "unat w"] by (simp only: distrib_right mult.commute mult.left_commute) (simp add: algebra_simps)
qed

definition udivmod_ok :: "js64 \<Rightarrow> js64 \<Rightarrow> js64 \<times> js64 \<Rightarrow> bool" where
  "udivmod_ok a b = (\<lambda>(q, r). val64 q = val64 a div val64 b \<and>
     val64 r = (if 2 ^ 31 \<le> unat (hi b) \<and> val64 b \<le> val64 a then val64 a else val64 a mod val64 b))"

lemma mk64_eta: "mk64 (hi a) (lo a) = a" by (simp add: mk64_def)

lemma val64_hi_0: "hi b = 0 \<Longrightarrow> val64 b = unat (lo b)" by (simp add: val64_def)

lemma unshift: "unat n = m * 2 ^ l \<Longrightarrow> unat (drop_bit l n) = m"
  by (simp add: unat_drop_bit_div)

lemma udivmod_small:
  assumes b: "hi b = 0" "hi a < lo b"
  shows "\<exists>qr. jsll_udivmod a b = Some qr \<and> udivmod_ok a b qr"
proof -
  define lsh where "lsh = CountLeadingZeros (lo b)"
  have "lo b \<noteq> 0" using b(2) by auto
  note n = CountLeadingZeros_normal [OF this, folded lsh_def]
  define h l d where "h = (if lsh = 0 then hi a else push_bit lsh (hi a) OR drop_bit (32 - lsh) (lo a))"
    and "l = (if lsh = 0 then lo a else push_bit lsh (lo a))" and "d = push_bit lsh (lo b)"
  obtain q r where qr: "norm_udivmod32 (mk64 h l) d = (q, r)" by fastforce
  have res: "jsll_udivmod a b = Some (mk64 0 q, mk64 0 (drop_bit lsh r))"
    using b qr by (auto simp: jsll_udivmod_def Let_def h_def l_def d_def simp flip: lsh_def split: if_splits)
  have d: "unat d = unat (lo b) * 2 ^ lsh"
    unfolding d_def using n(5) by (rule unat_push_exact)
  have hb: "unat (hi a) < unat (lo b)" using b(2) by (simp add: word_less_nat_alt)
  have A: "val64 a < unat (lo b) * 2 ^ 32"
  proof -
    have "(unat (hi a) + 1) * 2 ^ 32 \<le> unat (lo b) * 2 ^ 32" using hb by (intro mult_le_mono1) simp
    then show ?thesis using unsigned_less [of "lo a", where 'a = nat] by (simp add: val64_def)
  qed
  have v: "val64 (mk64 h l) = val64 a * 2 ^ lsh"
  proof (cases "lsh = 0")
    case False
    then have l: "0 < lsh" "lsh < 32" using n(1) by simp_all
    have "unat (hi a) < 2 ^ (32 - lsh)" using hb n(3) by simp
    then have "unat (drop_bit (32 - lsh) (hi a)) = 0" by (simp add: unat_drop_bit_div)
    with shifted_words(1) [OF l, of "hi a" "lo a"] False show ?thesis by (simp add: h_def l_def val64_def)
  qed (simp add: h_def l_def val64_def)
  have "h < d"
  proof -
    have "val64 (mk64 h l) < unat d * 2 ^ 32"
      unfolding v d using A by simp
    then have "unat h * 2 ^ 32 < unat d * 2 ^ 32" by simp
    then show ?thesis by (simp add: word_less_nat_alt)
  qed
  with norm_udivmod32_correct [OF _ _ qr] n(4) have "unat q = val64 a div unat (lo b)"
    "unat r = val64 a mod unat (lo b) * 2 ^ lsh"
    using scaled_div [of "2 ^ lsh" "val64 a" "unat (lo b)"] by (simp_all add: d v del: val64_mk64)
  then show ?thesis using res b(1) by (simp add: udivmod_ok_def val64_hi_0 unshift)
qed


lemma udivmod_one_word:
  assumes b: "hi b = 0" "lo b \<le> hi a" "lo b \<noteq> 0"
  shows "\<exists>qr. jsll_udivmod a b = Some qr \<and> udivmod_ok a b qr"
proof -
  define lsh where "lsh = CountLeadingZeros (lo b)"
  note n = CountLeadingZeros_normal [OF b(3), folded lsh_def]
  define B where "B = unat (lo b)"
  have B: "0 < B" using b(3) by (simp add: B_def unat_gt_0)
  show ?thesis
  proof (cases "lsh = 0")
    case True
    obtain q r where qr: "norm_udivmod32 (mk64 (hi a - lo b) (lo a)) (lo b) = (q, r)" by fastforce
    have res: "jsll_udivmod a b = Some (mk64 1 q, mk64 0 r)"
      using b qr True by (auto simp: jsll_udivmod_def Let_def simp flip: lsh_def)
    have nb: "2 ^ 31 \<le> B" using n(4) True by (simp add: B_def)
    have h: "unat (hi a - lo b) = unat (hi a) - B" "B \<le> unat (hi a)"
      using b(2) by (simp_all add: B_def unat_sub_exact word_le_nat_alt)
    have lt: "hi a - lo b < lo b"
      using h nb unsigned_less [of "hi a", where 'a = nat] by (simp add: word_less_nat_alt B_def)
    define A1 where "A1 = (unat (hi a) - B) * 2 ^ 32 + unat (lo a)"
    have q: "unat q = A1 div B" "unat r = A1 mod B"
      using norm_udivmod32_correct [OF _ _ qr] nb lt by (simp_all add: B_def A1_def h)
    have "val64 a = 2 ^ 32 * B + A1" using h(2) by (simp add: val64_def A1_def diff_mult_distrib)
    then have "val64 a div B = 2 ^ 32 + A1 div B" "val64 a mod B = A1 mod B"
      using B by (simp_all only: div_mult_self3 mod_mult_self3 not_gr_zero simp_thms)
    then show ?thesis using res b(1) q by (simp add: udivmod_ok_def val64_hi_0 B_def)
  next
    case False
    then have l: "0 < lsh" "lsh < 32" using n(1) by simp_all
    define n2 n1 n0 d where "n2 = drop_bit (32 - lsh) (hi a)"
      and "n1 = push_bit lsh (hi a) OR drop_bit (32 - lsh) (lo a)"
      and "n0 = push_bit lsh (lo a)" and "d = push_bit lsh (lo b)"
    obtain q1 r1 where 1: "norm_udivmod32 (mk64 n2 n1) d = (q1, r1)" by fastforce
    obtain q0 r0 where 0: "norm_udivmod32 (mk64 r1 n0) d = (q0, r0)" by fastforce
    have res: "jsll_udivmod a b = Some (mk64 q1 q0, mk64 0 (drop_bit lsh r0))"
    proof -
      have "(hi a < lo b) = False" using b(2) by auto
      then show ?thesis
        using b(1,3) 1 0 False by (simp add: jsll_udivmod_def Let_def n2_def n1_def n0_def d_def flip: lsh_def)
    qed
    have d: "unat d = B * 2 ^ lsh" unfolding d_def B_def using n(5) by (rule unat_push_exact)
    have nd: "2 ^ 31 \<le> unat d" using n(4) by (simp add: d B_def)
    then have pd: "0 < unat d" by simp
    have "unat n2 < 2 ^ 31"
    proof -
      have "unat n2 < 2 ^ lsh"
      proof -
        have "unat (hi a) < 2 ^ lsh * 2 ^ (32 - lsh)"
          using l unsigned_less [of "hi a", where 'a = nat] by (simp flip: power_add)
        then show ?thesis by (simp add: n2_def unat_drop_bit_div less_mult_imp_div_less)
      qed
      also have "(2 :: nat) ^ lsh \<le> 2 ^ 31" using l by (intro power_increasing) simp_all
      finally show ?thesis .
    qed
    then have lt: "n2 < d" using nd by (simp add: word_less_nat_alt)
    define H where "H = unat n2 * 2 ^ 32 + unat n1"
    have 1: "unat q1 = H div unat d" "unat r1 = H mod unat d"
      using norm_udivmod32_correct [OF nd _ 1] lt by (simp_all add: H_def)
    have "r1 < d" using pd 1(2) by (simp add: word_less_nat_alt)
    then have 0: "unat q0 = (H mod unat d * 2 ^ 32 + unat n0) div unat d"
      "unat r0 = (H mod unat d * 2 ^ 32 + unat n0) mod unat d"
      using norm_udivmod32_correct [OF nd _ 0] by (simp_all only: mk64_sel val64_mk64 1)
    have v: "H * 2 ^ 32 + unat n0 = val64 a * 2 ^ lsh"
      using shifted_words(1) [OF l, of "hi a" "lo a"] by (simp only: H_def n2_def n1_def n0_def val64_def)
    have "unat q1 * 2 ^ 32 + unat q0 = (val64 a * 2 ^ lsh) div unat d" "unat r0 = (val64 a * 2 ^ lsh) mod unat d"
      using long_div [OF pd, of H "unat n0"] unfolding v 1 0 by simp_all
    then have "unat q1 * 2 ^ 32 + unat q0 = val64 a div B" "unat r0 = val64 a mod B * 2 ^ lsh"
      unfolding d using scaled_div [of "2 ^ lsh" "val64 a" B] by simp_all
    then show ?thesis using res b(1) by (simp add: udivmod_ok_def val64_hi_0 B_def unshift)
  qed
qed

lemma udivmod_two_words_normal:
  assumes b: "hi b \<noteq> 0" "hi b \<le> hi a" and lsh: "CountLeadingZeros (hi b) = 0"
  shows "\<exists>qr. jsll_udivmod a b = Some qr \<and> udivmod_ok a b qr"
proof -
  have n: "2 ^ 31 \<le> unat (hi b)" using CountLeadingZeros_normal(4) [OF b(1)] lsh by simp
  have le: "unat (hi b) \<le> unat (hi a)" using b(2) by (simp add: word_le_nat_alt)
  have bd: "unat (hi a) < 2 ^ 32" "unat (lo a) < 2 ^ 32" "unat (lo b) < 2 ^ 32"
    using unsigned_less [of "hi a", where 'a = nat] unsigned_less [of "lo a", where 'a = nat]
      unsigned_less [of "lo b", where 'a = nat] by simp_all
  have c: "hi b < hi a \<or> lo b \<le> lo a \<longleftrightarrow> val64 b \<le> val64 a"
    using le bd by (auto simp: val64_def word_less_nat_alt word_le_nat_alt)
  have "val64 a < 2 * val64 b" using n bd by (simp add: val64_def)
  then have "val64 a div val64 b = (if val64 b \<le> val64 a then 1 else 0)"
    by (auto simp: div_nat_eqI)
  moreover have "jsll_udivmod a b = Some (mk64 0 (if hi b < hi a \<or> lo b \<le> lo a then 1 else 0), mk64 (hi a) (lo a))"
    using b lsh by (simp add: jsll_udivmod_def Let_def not_less)
  ultimately show ?thesis
    using n unfolding c by (auto simp: udivmod_ok_def not_le mk64_eta simp del: val64_mk64) (simp_all add: val64_def mk64_def)
qed


lemma udivmod_two_words_shifted:
  assumes b: "hi b \<noteq> 0" "hi b \<le> hi a" and nz: "CountLeadingZeros (hi b) \<noteq> 0"
  shows "\<exists>qr. jsll_udivmod a b = Some qr \<and> udivmod_ok a b qr"
proof -
  define lsh where "lsh = CountLeadingZeros (hi b)"
  note n = CountLeadingZeros_normal [OF b(1), folded lsh_def]
  have l: "0 < lsh" "lsh < 32" using nz n(1) by (simp_all add: lsh_def)
  define rsh where "rsh = 32 - lsh"
  define b' where "b' = mk64 (push_bit lsh (hi b) OR drop_bit rsh (lo b)) (push_bit lsh (lo b))"
  define n2 n1 n0 where "n2 = drop_bit rsh (hi a)" and "n1 = push_bit lsh (hi a) OR drop_bit rsh (lo a)"
    and "n0 = push_bit lsh (lo a)"
  obtain q0 r1 where qr: "norm_udivmod32 (mk64 n2 n1) (hi b') = (q0, r1)" by fastforce
  define m where "m = JSLL_MUL32 q0 (lo b')"
  define T where "T = mk64 r1 n0"
  define big where "big \<longleftrightarrow> val64 T < val64 m"
  define m' where "m' = (if big then JSLL_SUB m b' else m)"
  define q' where "q' = (if big then q0 - 1 else q0)"
  have bd: "unat (lo m) < 2 ^ 32" "unat n0 < 2 ^ 32"
    using unsigned_less [of "lo m", where 'a = nat] unsigned_less [of n0, where 'a = nat] by simp_all
  have big: "(r1 < hi m \<or> hi m = r1 \<and> n0 < lo m) \<longleftrightarrow> big"
    using bd by (auto simp: big_def T_def val64_def word_less_nat_alt word_unat_eq_iff mk64_def)
  have res: "jsll_udivmod a b = Some (mk64 0 q', JSLL_USHR (JSLL_SUB T m') lsh)"
  proof -
    have "(hi a < hi b) = False" using b(2) by auto
    moreover have "JSLL_USHR c lsh = mk64 (drop_bit lsh (hi c)) (push_bit rsh (hi c) OR drop_bit lsh (lo c))" for c
      using l by (simp add: JSLL_USHR_def mk64_def rsh_def)
    ultimately show ?thesis
      unfolding jsll_udivmod_def Let_def lsh_def [symmetric] rsh_def [symmetric] b'_def [symmetric]
        n2_def [symmetric] n1_def [symmetric] n0_def [symmetric] qr case_prod_conv m_def [symmetric] big
        T_def [symmetric]
      using b(1) l by (simp add: q'_def m'_def)
  qed
  have b'v: "val64 b' = val64 b * 2 ^ lsh"
  proof -
    have "unat (drop_bit (32 - lsh) (hi b)) = 0" using n(3) by (simp add: unat_drop_bit_div)
    then show ?thesis using shifted_words(1) [OF l, of "hi b" "lo b"]
      by (simp add: b'_def rsh_def val64_def)
  qed
  have d: "2 ^ 31 \<le> unat (hi b')"
  proof -
    have "unat (hi b) * 2 ^ lsh \<le> unat (hi b')"
      using n(3) by (simp add: b'_def rsh_def unat_shl_or(2) [OF l])
    then show ?thesis using n(4) by simp
  qed
  have n2: "unat n2 < 2 ^ lsh"
  proof -
    have "unat (hi a) < 2 ^ lsh * 2 ^ rsh"
      using l unsigned_less [of "hi a", where 'a = nat] by (simp add: rsh_def flip: power_add)
    then show ?thesis by (simp add: n2_def unat_drop_bit_div less_mult_imp_div_less)
  qed
  have "(2 :: nat) ^ lsh \<le> 2 ^ 31" using l by (intro power_increasing) simp_all
  then have lt: "n2 < hi b'" using n2 d by (simp add: word_less_nat_alt)
  define H B D where "H = unat n2 * 2 ^ 32 + unat n1" and "B = val64 b'" and "D = unat (hi b')"
  have q0: "unat q0 = H div D" and r1: "unat r1 = H mod D"
    using norm_udivmod32_correct [OF d _ qr] lt by (simp_all add: H_def D_def)
  have N: "H * 2 ^ 32 + unat n0 = val64 a * 2 ^ lsh"
    using shifted_words(1) [OF l, of "hi a" "lo a"] by (simp only: H_def n2_def n1_def n0_def rsh_def val64_def)
  have B: "B = D * 2 ^ 32 + unat (lo b')" by (simp add: B_def D_def val64_def)
  have m: "val64 m = unat q0 * unat (lo b')" by (simp add: m_def val_MUL32)
  have T: "val64 T = unat r1 * 2 ^ 32 + unat n0" by (simp add: T_def)
  have TB: "val64 T < B"
  proof -
    have "unat r1 < D" using d by (simp add: r1 D_def)
    then have "(unat r1 + 1) * 2 ^ 32 \<le> D * 2 ^ 32" by (intro mult_le_mono1) simp
    then show ?thesis using bd by (simp add: T B)
  qed
  have eq: "val64 a * 2 ^ lsh + val64 m = unat q0 * B + val64 T"
  proof -
    have "H * 2 ^ 32 = (unat q0 * D + unat r1) * 2 ^ 32" by (simp add: q0 r1)
    then show ?thesis unfolding N [symmetric] m B T by (simp only: distrib_left distrib_right ac_simps)
  qed
  have mB: "val64 m \<le> B"
  proof -
    have "unat q0 * unat (lo b') < 2 ^ 63"
    proof (cases "lsh = 31")
      case True
      have "unat (lo b') = unat (lo b) mod 2 ^ 1 * 2 ^ 31"
        using unat_shl_or(1) [OF l, of "lo b"] True by (simp add: b'_def)
      moreover have "unat (lo b) mod 2 ^ 1 \<le> 1" by simp
      ultimately have "unat (lo b') \<le> 2 ^ 31" using mult_le_mono1 [of "unat (lo b) mod 2 ^ 1" 1 "2 ^ 31"] by linarith
      then have "unat q0 * unat (lo b') \<le> (2 ^ 32 - 1) * 2 ^ 31"
        using unsigned_less [of q0, where 'a = nat] by (intro mult_le_mono) simp_all
      then show ?thesis by simp
    next
      case False
      have "H < 2 ^ lsh * 2 ^ 32"
      proof -
        have "(unat n2 + 1) * 2 ^ 32 \<le> 2 ^ lsh * 2 ^ 32" using n2 by (intro mult_le_mono1) simp
        then show ?thesis using unsigned_less [of n1, where 'a = nat] by (simp add: H_def)
      qed
      also have "\<dots> = 2 * 2 ^ lsh * 2 ^ 31" by simp
      also have "\<dots> \<le> 2 * 2 ^ lsh * D" using d by (simp add: D_def)
      finally have "H div D < 2 * 2 ^ lsh" by (rule less_mult_imp_div_less)
      also have "(2 :: nat) * 2 ^ lsh \<le> 2 * 2 ^ 30" using False l by (intro mult_le_mono2 power_increasing) simp_all
      finally have "unat q0 < 2 ^ 31" by (simp add: q0)
      then have "unat q0 * unat (lo b') \<le> (2 ^ 31 - 1) * (2 ^ 32 - 1)"
        using unsigned_less [of "lo b'", where 'a = nat] by (intro mult_le_mono) simp_all
      then show ?thesis by simp
    qed
    moreover have "2 ^ 63 \<le> B" using d by (simp add: B D_def)
    ultimately show ?thesis by (simp add: m)
  qed
  define R where "R = (if big then val64 T + B - val64 m else val64 T - val64 m)"
  have qR: "val64 a * 2 ^ lsh = unat q' * B + R \<and> R < B"
  proof (cases big)
    case True
    then have mT: "val64 T < val64 m" by (simp add: big_def)
    have "0 < unat q0" using mT by (cases "unat q0 = 0") (simp_all add: m)
    then have "q0 \<noteq> 0" by auto
    then have "unat q' = unat q0 - 1" using True by (simp add: q'_def unat_dec_exact)
    moreover have "unat q0 * B = (unat q0 - 1) * B + B" using \<open>0 < unat q0\<close> by (cases "unat q0") simp_all
    moreover have "A + M = Y + t \<Longrightarrow> Y = X + C \<Longrightarrow> t < M \<Longrightarrow> M \<le> C \<Longrightarrow> A = X + (t + C - M) \<and> t + C - M < C"
      for A M X C t Y :: nat by linarith
    ultimately show ?thesis using eq True mT mB by (simp only: R_def if_True)
  next
    case False
    then have "val64 m \<le> val64 T" by (simp add: big_def)
    moreover have "A + M = Y + t \<Longrightarrow> M \<le> t \<Longrightarrow> t < C \<Longrightarrow> A = Y + (t - M) \<and> t - M < C"
      for A M C t Y :: nat by linarith
    ultimately show ?thesis using eq TB False by (simp only: R_def q'_def if_False)
  qed
  have "to64 (JSLL_SUB T m') = of_nat R"
  proof (cases big)
    case True
    have "(of_nat R :: u64) = of_nat (val64 T + B) - of_nat (val64 m)"
      using True mB by (simp only: R_def if_True) (intro of_nat_diff, simp)
    then have "of_nat R = to64 T - (to64 m - to64 b')" by (simp add: to64_def B_def)
    then show ?thesis using True by (simp add: m'_def to64_SUB)
  next
    case False
    then have "(of_nat R :: u64) = of_nat (val64 T) - of_nat (val64 m)"
      by (simp only: R_def if_False) (intro of_nat_diff, simp add: big_def)
    then have "of_nat R = to64 T - to64 m" by (simp add: to64_def)
    then show ?thesis using False by (simp add: m'_def to64_SUB)
  qed
  moreover have "R < 2 ^ 64" using qR val64_less [of b'] by (simp add: B_def)
  ultimately have "val64 (JSLL_SUB T m') = R" by (simp add: to64_eqI unat_of_nat)
  moreover have "R = val64 a mod val64 b * 2 ^ lsh" and q: "unat q' = val64 a div val64 b"
    using divmod_eqI [of "val64 a * 2 ^ lsh" "unat q'" B R] qR scaled_div [of "2 ^ lsh" "val64 a" "val64 b"]
    by (simp_all add: B_def b'v)
  ultimately have "val64 (JSLL_USHR (JSLL_SUB T m') lsh) = val64 a mod val64 b"
    using to64_shifts(2) [of lsh "JSLL_SUB T m'"] l
    by (simp add: to64_eqI unat_drop_bit_div unat_to64)
  moreover have "unat (hi b) < 2 ^ 31"
  proof -
    have "(2 :: nat) ^ (32 - lsh) \<le> 2 ^ 31" using l by (intro power_increasing) auto
    then show ?thesis using n(3) by linarith
  qed
  ultimately show ?thesis using res q by (simp add: udivmod_ok_def)
qed

lemma udivmod_cases:
  "jsll_udivmod a b = (if val64 b = 0 then None else jsll_udivmod a b) \<and>
   (val64 b \<noteq> 0 \<longrightarrow> (\<exists>qr. jsll_udivmod a b = Some qr \<and> udivmod_ok a b qr))"
proof (cases "hi b = 0")
  case True
  show ?thesis
  proof (cases "hi a < lo b")
    case lt: True
    then show ?thesis using udivmod_small [OF True lt] lt by (auto simp: val64_def unat_eq_zero)
  next
    case False
    show ?thesis
    proof (cases "lo b = 0")
      case z: True
      then show ?thesis using True False by (simp add: val64_def jsll_udivmod_def Let_def)
    next
      case nz: False
      then show ?thesis using udivmod_one_word [OF True _ nz] False
        by (auto simp: val64_def unat_eq_zero not_less)
    qed
  qed
next
  case False
  have nz: "val64 b \<noteq> 0" using False by (simp add: val64_def unat_eq_zero)
  show ?thesis
  proof (cases "hi a < hi b")
    case True
    then have "unat (hi a) < unat (hi b)" by (simp add: word_less_nat_alt)
    then have lt: "val64 a < val64 b"
      using unsigned_less [of "lo a", where 'a = nat] by (simp add: val64_def)
    have "jsll_udivmod a b = Some (mk64 0 0, mk64 (hi a) (lo a))"
      using False True by (simp add: jsll_udivmod_def Let_def)
    then show ?thesis using lt nz by (simp add: udivmod_ok_def mk64_eta del: val64_mk64) (simp add: val64_def mk64_def)
  next
    case ge: False
    then have le: "hi b \<le> hi a" by simp
    show ?thesis
      using udivmod_two_words_normal [OF False le] udivmod_two_words_shifted [OF False le] nz by auto
  qed
qed


section \<open>Signed division\<close>

lemma sint_hi_neg: "sint (hi a) < 0 \<longleftrightarrow> sint (to64 a) < 0"
proof -
  have "h < 0 \<longleftrightarrow> h * 4294967296 + l < 0" if "0 \<le> l" "l < 4294967296" for h l :: int using that by arith
  from this [OF uint_range] show ?thesis unfolding sint_to64 by simp
qed

lemma to64_of_int: "to64 a = of_int (sint (to64 a))" by simp

definition abs64 :: "js64 \<Rightarrow> js64" where
  "abs64 a = (if sint (hi a) < 0 then JSLL_NEG a else a)"

lemma val_abs64: "int (val64 (abs64 a)) = \<bar>sint (to64 a)\<bar>"
proof (cases "sint (to64 a) < 0")
  case True
  then have b: "bit (to64 a) 63" using unsigned_less [of "to64 a", where 'a = int] by (simp add: sint_u64 split: if_splits)
  have "to64 (abs64 a) = - to64 a" using True by (simp add: abs64_def sint_hi_neg to64_NEG)
  then have "uint (to64 (abs64 a)) = (- uint (to64 a)) mod 2 ^ 64" by (simp add: uint_word_ariths)
  also have "\<dots> = 2 ^ 64 - uint (to64 a)"
  proof -
    have "to64 a \<noteq> 0" using b by auto
    then have "0 < uint (to64 a)" by (simp add: word_neq_0_conv word_less_def)
    then have "(2 ^ 64 - uint (to64 a)) mod 2 ^ 64 = 2 ^ 64 - uint (to64 a)"
      using unsigned_less [of "to64 a", where 'a = int] by (intro mod_pos_pos_trivial) simp_all
    then show ?thesis by simp
  qed
  finally show ?thesis using True b by (simp add: sint_u64 flip: unat_to64)
next
  case False
  then have "abs64 a = a" by (simp add: abs64_def sint_hi_neg)
  moreover have "\<not> bit (to64 a) 63" using False unsigned_less [of "to64 a", where 'a = int] by (auto simp: sint_u64)
  ultimately show ?thesis using False by (simp add: sint_u64 flip: unat_to64)
qed

lemma JSLL_DIV_eq: "JSLL_DIV a b =
    map_option (\<lambda>(q, r). if (sint (hi a) < 0) \<noteq> (sint (hi b) < 0) then JSLL_NEG q else q) (jsll_udivmod (abs64 a) (abs64 b))"
  by (simp add: JSLL_DIV_def abs64_def Let_def)

lemma JSLL_MOD_eq: "JSLL_MOD a b =
    map_option (\<lambda>(q, r). if sint (hi a) < 0 then JSLL_NEG r else r) (jsll_udivmod (abs64 a) (abs64 b))"
  by (simp add: JSLL_MOD_def abs64_def Let_def)

lemma to64_of_int_val: "to64 q = of_int (int (val64 q))" by (simp add: to64_def)

lemma sdiv_abs: "a sdiv b = (if (a < 0) \<noteq> (b < 0) then - (\<bar>a\<bar> div \<bar>b\<bar>) else \<bar>a\<bar> div \<bar>b\<bar>)" for a b :: int
  by (auto simp: signed_divide_int_def sgn_if)

lemma smod_abs: "a smod b = (if a < 0 then - (\<bar>a\<bar> mod \<bar>b\<bar>) else \<bar>a\<bar> mod \<bar>b\<bar>)" for a b :: int
  by (simp add: signed_modulo_int_def sgn_if)

lemma abs_min: "2 ^ 31 \<le> unat (hi (abs64 b)) \<Longrightarrow> \<bar>sint (to64 b)\<bar> = 2 ^ 63"
proof -
  assume "2 ^ 31 \<le> unat (hi (abs64 b))"
  then have "2 ^ 63 \<le> val64 (abs64 b)" by (simp add: val64_def)
  then have "2 ^ 63 \<le> int (val64 (abs64 b))" using of_nat_mono by fastforce
  moreover have "\<bar>sint (to64 b)\<bar> \<le> 2 ^ 63"
    using sint_range_size [of "to64 b"] by (simp add: word_size abs_le_iff)
  ultimately show ?thesis by (simp add: val_abs64)
qed

lemma sint64_range: "- (2 ^ 63) \<le> sint (to64 a)" "sint (to64 a) < 2 ^ 63"
  using sint_range_size [of "to64 a"] by (simp_all add: word_size)

lemma abs64_nonzero: "to64 b \<noteq> 0 \<Longrightarrow> val64 (abs64 b) \<noteq> 0"
proof
  assume "to64 b \<noteq> 0" and "val64 (abs64 b) = 0"
  then have "sint (to64 b) = 0" using val_abs64 [of b] by simp
  then show False using \<open>to64 b \<noteq> 0\<close> to64_of_int [of b] by simp
qed

lemma JSLL_DIV_correct:
  assumes "to64 b \<noteq> 0"
  shows "\<exists>q. JSLL_DIV a b = Some q \<and> to64 q = of_int (sint (to64 a) sdiv sint (to64 b))"
proof -
  obtain q r where qr: "jsll_udivmod (abs64 a) (abs64 b) = Some (q, r)" "udivmod_ok (abs64 a) (abs64 b) (q, r)"
    using udivmod_cases abs64_nonzero [OF assms] by fastforce
  then have "int (val64 q) = \<bar>sint (to64 a)\<bar> div \<bar>sint (to64 b)\<bar>"
    by (simp add: udivmod_ok_def zdiv_int flip: val_abs64)
  then have q: "to64 q = of_int (\<bar>sint (to64 a)\<bar> div \<bar>sint (to64 b)\<bar>)"
    using to64_of_int_val [of q] by (simp only:)
  show ?thesis
    unfolding JSLL_DIV_eq qr(1) sdiv_abs sint_hi_neg option.map case_prod_conv
    by (cases "(sint (to64 a) < 0) \<noteq> (sint (to64 b) < 0)")
      (simp_all only: if_True if_False to64_NEG q of_int_minus simp_thms option.inject ex_simps)
qed

lemma JSLL_MOD_correct:
  assumes "to64 b \<noteq> 0"
  shows "\<exists>r. JSLL_MOD a b = Some r \<and>
    to64 r = (if sint (to64 b) = - (2 ^ 63) \<and> sint (to64 a) = - (2 ^ 63) then to64 a
              else of_int (sint (to64 a) smod sint (to64 b)))"
proof -
  obtain q r where qr: "jsll_udivmod (abs64 a) (abs64 b) = Some (q, r)" "udivmod_ok (abs64 a) (abs64 b) (q, r)"
    using udivmod_cases abs64_nonzero [OF assms] by fastforce
  have mod: "JSLL_MOD a b = Some (if sint (to64 a) < 0 then JSLL_NEG r else r)"
    unfolding JSLL_MOD_eq qr(1) sint_hi_neg option.map case_prod_conv by (rule refl)
  show ?thesis
  proof (cases "2 ^ 31 \<le> unat (hi (abs64 b)) \<and> val64 (abs64 b) \<le> val64 (abs64 a)")
    case True
    have b: "\<bar>sint (to64 b)\<bar> = 2 ^ 63" using True abs_min by blast
    moreover have "\<bar>sint (to64 b)\<bar> \<le> \<bar>sint (to64 a)\<bar>" using True by (simp flip: val_abs64)
    ultimately have min: "sint (to64 b) = - (2 ^ 63)" "sint (to64 a) = - (2 ^ 63)"
      using sint64_range [of a] sint64_range [of b] by linarith+
    have "int (val64 r) = 2 ^ 63" using qr(2) True min(2) by (simp add: udivmod_ok_def val_abs64)
    then have "to64 r = of_int (2 ^ 63)" using to64_of_int_val [of r] by (simp only:)
    moreover have "to64 a = of_int (- (2 ^ 63))" using to64_of_int [of a] min(2) by (simp only:)
    ultimately show ?thesis unfolding mod using min by (simp add: to64_NEG)
  next
    case False
    then have "val64 r = val64 (abs64 a) mod val64 (abs64 b)"
      using qr(2) unfolding udivmod_ok_def case_prod_conv by (simp only: if_False)
    then have "int (val64 r) = \<bar>sint (to64 a)\<bar> mod \<bar>sint (to64 b)\<bar>"
      by (simp add: zmod_int flip: val_abs64)
    then have r: "to64 r = of_int (\<bar>sint (to64 a)\<bar> mod \<bar>sint (to64 b)\<bar>)"
      using to64_of_int_val [of r] by (simp only:)
    have n: "\<not> (sint (to64 b) = - (2 ^ 63) \<and> sint (to64 a) = - (2 ^ 63))"
    proof
      assume "sint (to64 b) = - (2 ^ 63) \<and> sint (to64 a) = - (2 ^ 63)"
      then have v: "int (val64 (abs64 b)) = 2 ^ 63" "int (val64 (abs64 a)) = 2 ^ 63" by (simp_all add: val_abs64)
      then have "2 ^ 63 \<le> val64 (abs64 b)" "val64 (abs64 b) \<le> val64 (abs64 a)"
        by (simp_all flip: of_nat_le_iff [where 'a = int])
      moreover have "unat (hi x) * 2 ^ 32 + unat (lo x) < (unat (hi x) + 1) * 2 ^ 32" for x
        using unsigned_less [of "lo x", where 'a = nat] by simp
      ultimately have "2 ^ 31 \<le> unat (hi (abs64 b))" unfolding val64_def
        using unsigned_less [of "lo (abs64 b)", where 'a = nat] by simp
      with False \<open>val64 (abs64 b) \<le> val64 (abs64 a)\<close> show False by simp
    qed
    show ?thesis unfolding mod smod_abs
      by (cases "sint (to64 a) < 0") (simp_all only: n if_True if_False to64_NEG r of_int_minus simp_thms option.inject ex_simps)
  qed
qed

section \<open>The emulation is the machine's 64-bit arithmetic\<close>

lemma to64_conversions:
  "to64 (JSLL_UI2L w) = ucast w" "to64 (JSLL_I2L w) = scast w" "JSLL_L2UI a = ucast (to64 a)"
proof -
  show "to64 (JSLL_UI2L w) = ucast w"
    by (rule bit_word_eqI) (auto simp: to64_bit JSLL_UI2L_def bit_unsigned_iff dest: bit_imp_le_length)
  show "JSLL_L2UI a = ucast (to64 a)"
    by (rule bit_word_eqI) (auto simp: to64_bit JSLL_L2UI_def bit_unsigned_iff dest: bit_imp_le_length)
  show "to64 (JSLL_I2L w) = scast w"
  proof (rule bit_word_eqI)
    fix n assume "n < LENGTH(64)"
    then show "bit (to64 (JSLL_I2L w)) n = bit (scast w :: u64) n"
      by (cases "n = 31"; cases "n = 32")
        (auto simp: to64_bit JSLL_I2L_def bit_signed_iff bit_signed_drop_bit_iff min_def)
  qed
qed

lemma to64_hi_top: "2 ^ 31 \<le> unat (hi b) \<longleftrightarrow> 2 ^ 63 \<le> unat (to64 b)"
proof -
  have "2147483648 \<le> h \<longleftrightarrow> 9223372036854775808 \<le> h * 4294967296 + l" if "l < 4294967296" for h l :: nat
    using that by arith
  from this [of "unat (lo b)"] show ?thesis
    using unsigned_less [of "lo b", where 'a = nat] by (simp add: unat_to64 val64_def)
qed

text \<open>
  additions, subtractions, products, negations, bitwise operations and comparisons of
  pairs are those of 64-bit words, signed where the macro is signed.
\<close>

theorem long64_matches_words:
  "to64 (JSLL_ADD a b) = to64 a + to64 b \<and> to64 (JSLL_SUB a b) = to64 a - to64 b \<and>
   to64 (JSLL_MUL a b) = to64 a * to64 b \<and> to64 (JSLL_NEG a) = - to64 a \<and>
   to64 (JSLL_AND a b) = to64 a AND to64 b \<and> to64 (JSLL_OR a b) = to64 a OR to64 b \<and>
   to64 (JSLL_XOR a b) = to64 a XOR to64 b \<and> to64 (JSLL_NOT a) = NOT (to64 a) \<and>
   (JSLL_EQ a b \<longleftrightarrow> to64 a = to64 b) \<and>
   JSLL_CMP a op b = cmp op (sint (to64 a)) (sint (to64 b)) \<and>
   JSLL_UCMP a op b = cmp op (uint (to64 a)) (uint (to64 b)) \<and>
   to64 (JSLL_UI2L w) = ucast w \<and> to64 (JSLL_I2L w) = scast w \<and> JSLL_L2UI a = ucast (to64 a)"
  by (simp add: to64_ADD to64_SUB to64_MUL to64_NEG to64_bitwise JSLL_CMP_eq JSLL_UCMP_eq JSLL_EQ_def
      word_halves_eq to64_conversions)

text \<open>
  the shifts of pairs are those of 64-bit words for every count below 64. At 64, which the
  comment of jslong.h allows, the left shift moves the low word to the high word instead.
\<close>

theorem long64_shifts:
  assumes "b < 64"
  shows "to64 (JSLL_SHL a b) = push_bit b (to64 a) \<and> to64 (JSLL_USHR a b) = drop_bit b (to64 a) \<and>
    to64 (JSLL_SHR a b) = signed_drop_bit b (to64 a) \<and>
    JSLL_SHL a 64 = \<lparr>lo = 0, hi = lo a\<rparr>"
  using to64_shifts [OF assms] by (simp add: JSLL_SHL_def)

lemma long64_shifts_witness:
  "to64 (JSLL_SHL (mk64 1 2) 33) = push_bit 33 (to64 (mk64 1 2)) \<and> JSLL_SHL (mk64 1 2) 33 = mk64 4 0"
  using long64_shifts [of 33 "mk64 1 2"] by (simp add: JSLL_SHL_def mk64_def)

text \<open>
  C21: \<open>jsll_udivmod\<close> crashes exactly when the divisor is zero, and otherwise gives the quotient of
  the 64-bit words; the remainder is right unless the divisor has its top bit set and does not
  exceed the dividend, when the dividend itself is given back.
\<close>

theorem long64_udivmod:
  "case jsll_udivmod a b of
     None \<Rightarrow> to64 b = 0
   | Some (q, r) \<Rightarrow> to64 b \<noteq> 0 \<and> to64 q = to64 a div to64 b \<and>
       to64 r = (if 2 ^ 63 \<le> unat (to64 b) \<and> to64 b \<le> to64 a then to64 a else to64 a mod to64 b)"
proof (cases "val64 b = 0")
  case True
  then show ?thesis using udivmod_cases [of a b] by (simp add: to64_def)
next
  case False
  then obtain q r where qr: "jsll_udivmod a b = Some (q, r)" and ok: "udivmod_ok a b (q, r)"
    using udivmod_cases [of a b] by auto
  have nz: "to64 b \<noteq> 0" using False unat_to64 [of b] by auto
  have "to64 q = to64 a div to64 b" using ok by (simp add: udivmod_ok_def to64_eqI unat_div unat_to64)
  moreover have "to64 r = (if 2 ^ 63 \<le> unat (to64 b) \<and> to64 b \<le> to64 a then to64 a else to64 a mod to64 b)"
    using ok unfolding udivmod_ok_def case_prod_conv to64_hi_top to64_eqI word_le_nat_alt
    by (simp add: unat_mod unat_to64)
  ultimately show ?thesis using nz by (simp add: qr)
qed

text \<open>
  the signed division and remainder truncate towards zero, wrapping as the machine does,
  except that the remainder of the least integer by itself is the least integer, not zero.
\<close>

theorem long64_signed_division:
  "to64 b \<noteq> 0 \<Longrightarrow>
     (\<exists>q r. JSLL_DIV a b = Some q \<and> JSLL_MOD a b = Some r \<and>
        to64 q = of_int (sint (to64 a) sdiv sint (to64 b)) \<and>
        to64 r = (if sint (to64 b) = - (2 ^ 63) \<and> sint (to64 a) = - (2 ^ 63) then to64 a
                  else of_int (sint (to64 a) smod sint (to64 b))))"
  using JSLL_DIV_correct [of b a] JSLL_MOD_correct [of b a] by blast

lemma long64_signed_division_witness:
  "(\<exists>q r. JSLL_DIV JSLL_MinInt JSLL_MinInt = Some q \<and> JSLL_MOD JSLL_MinInt JSLL_MinInt = Some r \<and>
     to64 r = to64 JSLL_MinInt) \<and> to64 JSLL_MinInt \<noteq> 0"
proof -
  have nz: "to64 JSLL_MinInt \<noteq> 0" by (simp add: to64_def JSLL_MinInt_def)
  have "sint (to64 JSLL_MinInt) = - (2 ^ 63)" by (simp add: sint_to64 JSLL_MinInt_def sint_u32)
  with long64_signed_division [OF nz, of JSLL_MinInt] nz show ?thesis by auto
qed

end
