(* ===== verification/JS_Number.thy ===== *)
theory JS_Number
  imports JS_Prelude Complex_Main "HOL-Library.Monad_Syntax"
begin

text \<open>
  The conversions of js/src/jsnum.c from doubles to integers. A double is a rational number, an
  infinity or not a number; the two zeros are one. \<open>floor\<close>, \<open>ceil\<close> and \<open>fmod\<close> are exact, and so
  are the sums here: those with \<open>two32\<close> are of numbers below it, those of callers are of integers
  below 2^53, or keep their sign. A cast of a double outside of the range of the integer type has
  no defined behaviour in C, and is \<open>None\<close>.
\<close>

section \<open>Doubles\<close>

datatype jsdouble = NaN | Inf (negative: bool) | Fin (fin: rat)

instantiation jsdouble :: "{zero, plus, ord}"
begin

definition zero_jsdouble :: jsdouble where "0 = Fin 0"

fun plus_jsdouble :: "jsdouble \<Rightarrow> jsdouble \<Rightarrow> jsdouble" where
  "Fin x + Fin y = Fin (x + y)"
| "Inf n + Fin y = Inf n"
| "Fin x + Inf n = Inf n"
| "Inf n + Inf m = (if n = m then Inf n else NaN)"
| "NaN + y = NaN"
| "x + NaN = NaN"

fun less_jsdouble :: "jsdouble \<Rightarrow> jsdouble \<Rightarrow> bool" where
  "Fin x < Fin y \<longleftrightarrow> x < y"
| "Inf n < Fin y \<longleftrightarrow> n"
| "Fin x < Inf n \<longleftrightarrow> \<not> n"
| "Inf n < Inf m \<longleftrightarrow> n \<and> \<not> m"
| "NaN < y \<longleftrightarrow> False"
| "x < NaN \<longleftrightarrow> False"

fun less_eq_jsdouble :: "jsdouble \<Rightarrow> jsdouble \<Rightarrow> bool" where
  "Fin x \<le> Fin y \<longleftrightarrow> x \<le> y"
| "Inf n \<le> Fin y \<longleftrightarrow> n"
| "Fin x \<le> Inf n \<longleftrightarrow> \<not> n"
| "Inf n \<le> Inf m \<longleftrightarrow> n \<or> \<not> m"
| "NaN \<le> y \<longleftrightarrow> False"
| "x \<le> NaN \<longleftrightarrow> False"

instance ..

end

definition JSDOUBLE_IS_NaN :: "jsdouble \<Rightarrow> bool" where "JSDOUBLE_IS_NaN d \<longleftrightarrow> d = NaN"

text \<open>The number of an integer, and the cast of a finite double to an integer type with the given bounds.\<close>

definition of_integer :: "int \<Rightarrow> jsdouble" where "of_integer n = Fin (of_int n)"

definition trunc :: "rat \<Rightarrow> int" where "trunc x = (if x < 0 then - \<lfloor>- x\<rfloor> else \<lfloor>x\<rfloor>)"

definition cast_double :: "int \<Rightarrow> int \<Rightarrow> rat \<Rightarrow> int option" where
  "cast_double lo hi x = (if lo \<le> trunc x \<and> trunc x \<le> hi then Some (trunc x) else None)"

text \<open>\<open>fmod\<close>: the remainder has the sign of the dividend.\<close>

definition fmod :: "rat \<Rightarrow> rat \<Rightarrow> rat" where "fmod x y = x - of_int (trunc (x / y)) * y"

section \<open>The code\<close>

definition js_DoubleToInteger :: "jsdouble \<Rightarrow> jsdouble" where
  "js_DoubleToInteger d =
     (case d of
        NaN \<Rightarrow> 0
      | Inf n \<Rightarrow> Inf n
      | Fin x \<Rightarrow> if x = 0 then Fin x
          else let neg = x < 0; y = of_int \<lfloor>if neg then - x else x\<rfloor> in Fin (if neg then - y else y))"

definition js_DoubleToECMAInt32 :: "jsdouble \<Rightarrow> int option" where
  "js_DoubleToECMAInt32 d =
     (let two32 = 4294967296; two31 = 2147483648
      in case d of
           Fin x \<Rightarrow>
             if x = 0 then Some 0
             else let d = fmod x two32;
                      d = (if 0 \<le> d then of_int \<lfloor>d\<rfloor> else of_int \<lceil>d\<rceil> + two32)
                  in cast_double (- 2147483648) 2147483647 (if two31 \<le> d then d - two32 else d)
         | _ \<Rightarrow> Some 0)"

definition js_DoubleToECMAUint32 :: "jsdouble \<Rightarrow> u32 option" where
  "js_DoubleToECMAUint32 d =
     (let two32 = 4294967296
      in case d of
           Fin x \<Rightarrow>
             if x = 0 then Some 0
             else let neg = x < 0;
                      d = of_int \<lfloor>if neg then - x else x\<rfloor>;
                      d = (if neg then - d else d);
                      d = fmod d two32;
                      d = (if 0 \<le> d then d else d + two32)
                  in map_option of_int (cast_double 0 4294967295 d)
         | _ \<Rightarrow> Some 0)"

text \<open>\<open>js_ValueToInt32\<close> of a double: \<open>Some None\<close> is the error \<open>JSMSG_CANT_CONVERT\<close>.\<close>

definition js_ValueToInt32 :: "jsdouble \<Rightarrow> int option option" where
  "js_ValueToInt32 d =
     (if JSDOUBLE_IS_NaN d \<or> d \<le> Fin (- 2147483649) \<or> Fin 2147483648 \<le> d then Some None
      else case d of
             Fin x \<Rightarrow> map_option Some (cast_double (- 2147483648) 2147483647 (of_int \<lfloor>x + 1 / 2\<rfloor>))
           | _ \<Rightarrow> None)"

text \<open>The first cast is of any double, so that a negative or large one has no defined result.\<close>

definition js_ValueToUint16 :: "jsdouble \<Rightarrow> u16 option" where
  "js_ValueToUint16 d =
     (case d of
        Fin x \<Rightarrow>
          if x = 0 then Some 0
          else do {
            i \<leftarrow> cast_double 0 4294967295 x;
            if of_int i = x then Some (of_int i)
            else let neg = x < 0;
                     d = of_int \<lfloor>if neg then - x else x\<rfloor>;
                     d = (if neg then - d else d);
                     m = 65536;
                     d = fmod d m;
                     d = (if d < 0 then d + m else d)
                 in map_option of_int (cast_double 0 65535 d) }
      | _ \<Rightarrow> Some 0)"

section \<open>What they compute\<close>

lemma trunc_of_int [simp]: "trunc (of_int n) = n"
  by (simp add: trunc_def floor_minus)

lemma js_DoubleToInteger_Fin: "js_DoubleToInteger (Fin x) = of_integer (trunc x)"
  by (simp add: js_DoubleToInteger_def of_integer_def trunc_def Let_def)

lemma trunc_neg: "trunc (- x) = - trunc x"
  by (auto simp: trunc_def not_less)

lemma fmod_neg: "fmod (- x) y = - fmod x y"
  by (simp add: fmod_def trunc_neg)

lemma floor_div_int:
  fixes x :: rat
  assumes "0 < m"
  shows "\<lfloor>x / of_int m\<rfloor> = \<lfloor>x\<rfloor> div m"
proof -
  define n where "n = \<lfloor>x\<rfloor>"
  have n: "of_int n \<le> x" "x < of_int (n + 1)" unfolding n_def by linarith+
  have "(n div m + 1) * m = n div m * m + m" "n = n div m * m + n mod m" "0 \<le> n mod m" "n mod m < m"
    using assms by (simp_all add: distrib_right)
  then have "n div m * m \<le> n" "n + 1 \<le> (n div m + 1) * m" by linarith+
  then have "of_int (n div m * m) \<le> x" "x < of_int ((n div m + 1) * m)"
    using n by (meson of_int_le_iff order_trans less_le_trans)+
  then have "of_int (n div m) \<le> x / of_int m" "x / of_int m < of_int (n div m) + 1"
    using assms by (simp_all add: pos_le_divide_eq pos_divide_less_eq)
  then show ?thesis unfolding n_def by (rule floor_unique)
qed

lemma fmod_of_nonneg:
  assumes "0 \<le> x" "0 < m"
  shows "fmod x (of_int m) = of_int (trunc x mod m) + (x - of_int (trunc x))"
proof -
  have "trunc (x / of_int m) = trunc x div m"
    using assms floor_div_int[OF assms(2), of x] by (simp add: trunc_def not_less divide_less_0_iff)
  moreover have "(of_int (trunc x) :: rat) = of_int (trunc x div m) * of_int m + of_int (trunc x mod m)"
    unfolding of_int_mult[symmetric] of_int_add[symmetric] by simp
  ultimately show ?thesis by (simp add: fmod_def)
qed

lemma fraction: "0 \<le> x \<Longrightarrow> 0 \<le> x - of_int (trunc x) \<and> x - of_int (trunc x) < 1"
  unfolding trunc_def by (auto simp: not_less) linarith

text \<open>Rounded, it is the remainder of the integer parts, whose sign is that of the dividend.\<close>

lemma trunc_fmod:
  assumes "0 < m"
  shows "trunc (fmod x (of_int m)) = (if x < 0 then - (- trunc x mod m) else trunc x mod m)"
proof -
  have pos: "trunc (fmod y (of_int m)) = trunc y mod m" if "0 \<le> y" for y
  proof -
    have "0 \<le> trunc y mod m" using assms by simp
    then have "0 \<le> fmod y (of_int m)"
      using fraction[OF that] unfolding fmod_of_nonneg[OF that assms] by (meson add_nonneg_nonneg of_int_0_le_iff)
    moreover have "\<lfloor>fmod y (of_int m)\<rfloor> = trunc y mod m"
      unfolding fmod_of_nonneg[OF that assms] using fraction[OF that] by (simp add: floor_unique)
    ultimately show ?thesis by (simp add: trunc_def)
  qed
  show ?thesis
  proof (cases "x < 0")
    case True
    then have "trunc (fmod (- x) (of_int m)) = trunc (- x) mod m" by (intro pos) simp
    then show ?thesis using True by (simp add: fmod_neg trunc_neg)
  qed (use pos[of x] in simp)
qed

lemma signed_word_int:
  "- 2147483648 \<le> n \<Longrightarrow> n \<le> 2147483647 \<Longrightarrow> sint (word_of_int n :: u32) = n"
  by (subst sint_sbintrunc') (simp add: signed_take_bit_int_eq_self)

lemma word_of_int_congruent: "a mod 4294967296 = b mod 4294967296 \<Longrightarrow> word_of_int a = (word_of_int b :: u32)"
  by (simp add: word_of_int_eq_iff take_bit_eq_mod)

lemma signed_of_congruent:
  assumes "r mod 4294967296 = n mod 4294967296" "- 2147483648 \<le> r" "r \<le> 2147483647"
  shows "sint (word_of_int n :: u32) = r"
  using word_of_int_congruent[OF assms(1)] signed_word_int[OF assms(2,3)] by simp

lemma trunc_nonpos: "x < 0 \<Longrightarrow> trunc x = \<lceil>x\<rceil>"
  by (simp add: trunc_def ceiling_def)

lemma trunc_nonneg: "0 \<le> x \<Longrightarrow> trunc x = \<lfloor>x\<rfloor>"
  by (simp add: trunc_def)

text \<open>ECMA's ToInt32 and ToUint32: the integer part modulo 2^32, with a sign or without.\<close>

lemma to_int32: "js_DoubleToECMAInt32 (Fin x) = Some (sint (word_of_int (trunc x) :: u32))"
proof (cases "x = 0")
  case True
  then show ?thesis by (simp add: js_DoubleToECMAInt32_def trunc_def)
next
  case False
  define n where "n = trunc x"
  define t where "t = trunc (fmod x 4294967296)"
  define e where "e = (if 0 \<le> fmod x 4294967296 then t else t + 4294967296)"
  define r where "r = (if 2147483648 \<le> e then e - 4294967296 else e)"
  have t: "t = (if x < 0 then - (- n mod 4294967296) else n mod 4294967296)"
    unfolding t_def n_def using trunc_fmod[of 4294967296 x] by simp
  have "(if 0 \<le> fmod x 4294967296 then of_int \<lfloor>fmod x 4294967296\<rfloor> else of_int \<lceil>fmod x 4294967296\<rceil> + 4294967296)
      = (of_int e :: rat)"
    by (simp add: e_def t_def trunc_nonpos trunc_nonneg)
  then have run: "js_DoubleToECMAInt32 (Fin x) = cast_double (- 2147483648) 2147483647 (of_int r)"
    using False by (simp add: js_DoubleToECMAInt32_def Let_def r_def)
  have small: "0 \<le> - n mod 4294967296" "- n mod 4294967296 < 4294967296"
    "0 \<le> n mod 4294967296" "n mod 4294967296 < 4294967296" by simp_all
  have "0 \<le> fmod x 4294967296 \<Longrightarrow> 0 \<le> t" "\<not> 0 \<le> fmod x 4294967296 \<Longrightarrow> t \<le> 0"
    unfolding t_def trunc_def by (simp_all add: not_le le_floor_iff)
  then have "0 \<le> e" "e \<le> 4294967296" using t small by (auto simp: e_def split: if_splits)
  then have bounds: "- 2147483648 \<le> r" "r \<le> 2147483647" by (auto simp: r_def)
  have "t mod 4294967296 = n mod 4294967296" using t by (simp add: mod_minus_eq)
  then have "r mod 4294967296 = n mod 4294967296" by (simp add: r_def e_def mod_add_self2 mod_diff_right_eq)
  then have "sint (word_of_int n :: u32) = r" using bounds by (rule signed_of_congruent)
  then show ?thesis using run bounds by (simp add: cast_double_def n_def)
qed

lemma to_uint32: "js_DoubleToECMAUint32 (Fin x) = Some (word_of_int (trunc x))"
proof (cases "x = 0")
  case True
  then show ?thesis by (simp add: js_DoubleToECMAUint32_def trunc_def)
next
  case False
  define n where "n = trunc x"
  define t where "t = trunc (fmod (of_int n) 4294967296)"
  have whole: "fmod (of_int n) 4294967296 = (of_int t :: rat)"
  proof -
    have "fmod (of_int n :: rat) 4294967296 = of_int (n - trunc (of_int n / 4294967296 :: rat) * 4294967296)"
      unfolding fmod_def by simp
    then show ?thesis unfolding t_def by (metis trunc_of_int)
  qed
  have t: "t = (if n < 0 then - (- n mod 4294967296) else n mod 4294967296)"
    unfolding t_def using trunc_fmod[of 4294967296 "of_int n"] by simp
  let ?e = "if 0 \<le> t then t else t + 4294967296"
  have "(if x < 0 then - of_int \<lfloor>if x < 0 then - x else x\<rfloor> else of_int \<lfloor>if x < 0 then - x else x\<rfloor>) = (of_int n :: rat)"
    by (simp add: n_def trunc_def)
  then have run: "js_DoubleToECMAUint32 (Fin x) = map_option of_int (cast_double 0 4294967295 (of_int ?e))"
    using False whole by (simp add: js_DoubleToECMAUint32_def Let_def split: if_splits)
  have "0 \<le> ?e" "?e \<le> 4294967295"
    using t pos_mod_bound[of 4294967296 "- n"] pos_mod_sign[of 4294967296 "- n"]
      pos_mod_bound[of 4294967296 n] pos_mod_sign[of 4294967296 n] by (auto split: if_splits)
  moreover have "t mod 4294967296 = n mod 4294967296" using t by (simp add: mod_minus_eq)
  then have "?e mod 4294967296 = n mod 4294967296" by simp
  then have "word_of_int ?e = (word_of_int n :: u32)" by (rule word_of_int_congruent)
  ultimately show ?thesis using run by (simp add: cast_double_def n_def)
qed

lemma word16_congruent: "word_of_int (n mod 65536) = (word_of_int n :: u16)"
  by (simp add: word_of_int_eq_iff take_bit_eq_mod)

lemma to_uint16:
  assumes "0 \<le> x" "x < 4294967296"
  shows "js_ValueToUint16 (Fin x) = Some (word_of_int (trunc x))"
proof (cases "x = 0")
  case True
  then show ?thesis by (simp add: js_ValueToUint16_def trunc_def)
next
  case False
  define n where "n = trunc x"
  have n: "n = \<lfloor>x\<rfloor>" "0 \<le> n" "n \<le> 4294967295" using assms by (auto simp: n_def trunc_def floor_le_iff)
  define q where "q = n mod 65536"
  have q: "\<not> q < 0" "0 \<le> q" "q \<le> 65535" by (auto simp: q_def not_less)
  have "fmod (of_int n :: rat) (of_int 65536) = of_int q"
    using fmod_of_nonneg[of "of_int n" 65536] n(2) by (simp add: q_def)
  then have mod: "fmod (of_int n :: rat) 65536 = of_int q" by simp
  have "js_ValueToUint16 (Fin x) = (if of_int n = x then Some (of_int n) else Some (of_int q))"
    using False assms(1) n(2,3) q mod
    by (simp add: js_ValueToUint16_def cast_double_def n_def[symmetric] n(1)[symmetric] Let_def not_less)
  then show ?thesis by (simp add: n_def[symmetric] q_def word16_congruent)
qed

text \<open>
  The conversions that ECMA calls ToInt32, ToUint32 and ToUint16 give the integer part of a
  number modulo 2^32 or 2^16; but for ToUint16 only if the number fits 32 bits: that of -1 and
  below, or of 2^32 and above, is a cast that C leaves undefined.
\<close>

theorem number_conversions:
  "js_DoubleToECMAInt32 (Fin x) = Some (sint (word_of_int (trunc x) :: u32))
   \<and> js_DoubleToECMAUint32 (Fin x) = Some (word_of_int (trunc x))
   \<and> (0 \<le> x \<and> x < 4294967296 \<longrightarrow> js_ValueToUint16 (Fin x) = Some (word_of_int (trunc x)))
   \<and> (x \<le> - 1 \<or> 4294967296 \<le> x \<longrightarrow> js_ValueToUint16 (Fin x) = None)"
proof -
  have "js_ValueToUint16 (Fin x) = None" if "x \<le> - 1 \<or> 4294967296 \<le> x"
  proof -
    have "trunc x < 0 \<or> 4294967295 < trunc x" "x \<noteq> 0"
      using that by (auto simp: trunc_def floor_less_iff less_floor_iff)
    then show ?thesis by (auto simp: js_ValueToUint16_def cast_double_def)
  qed
  then show ?thesis using to_int32 to_uint32 to_uint16 by blast
qed

theorem number_conversions_witness:
  "js_ValueToUint16 (Fin (131073 / 2)) = Some 0 \<and> js_ValueToUint16 (Fin (- 1)) = None"
proof -
  have "trunc (131073 / 2) = 65536" "(word_of_int 65536 :: u16) = 0" by (simp_all add: trunc_def floor_eq_iff)
  then show ?thesis using number_conversions[of "131073 / 2"] number_conversions[of "- 1"] by simp
qed

end
