(* ===== verification/JS_Strings.thy ===== *)
theory JS_Strings
  imports JS_Number "HOL-Library.List_Lexorder"
begin

text \<open>
  Comparing, searching and cutting strings, js/src/jsstr.c. A string is the list of its characters.
  A read outside of a string is \<open>None\<close>; so are a loop that does not end and a sum that overflows
  a \<open>jsint\<close>. A length is cast to \<open>jsint\<close> where the code does it, and an index that is returned
  loses the bit that a value of JavaScript has no room for.
\<close>

section \<open>Comparing\<close>

fun compare_chars :: "int \<Rightarrow> u16 list \<Rightarrow> u16 list \<Rightarrow> int" where
  "compare_chars rest (x # xs) (y # ys) =
     (let cmp = uint x - uint y in if cmp \<noteq> 0 then cmp else compare_chars rest xs ys)"
| "compare_chars rest _ _ = rest"

definition js_CompareStrings :: "u16 list \<Rightarrow> u16 list \<Rightarrow> int" where
  "js_CompareStrings str1 str2 =
     compare_chars (sint (of_nat (length str1) - of_nat (length str2) :: u32)) str1 str2"

section \<open>Searching\<close>

definition char_at :: "u16 list \<Rightarrow> int \<Rightarrow> u16 option" where
  "char_at s i = (if 0 \<le> i \<and> i < int (length s) then Some (s ! nat i) else None)"

definition string_length :: "u16 list \<Rightarrow> int" where "string_length s = sint (of_nat (length s) :: u32)"

text \<open>A sum of \<open>jsint\<close>s: C leaves an overflow undefined.\<close>

definition jsint_sum :: "int \<Rightarrow> int \<Rightarrow> int option" where
  "jsint_sum i j = (if - 2147483648 \<le> i + j \<and> i + j \<le> 2147483647 then Some (i + j) else None)"

text \<open>
  \<open>INT_TO_JSVAL\<close> shifts the integer to the left by the one bit of the tag, and \<open>JSVAL_TO_INT\<close> casts
  to 32 bits and shifts back: this is the integer JavaScript sees.
\<close>

definition returned_index :: "int \<Rightarrow> int" where
  "returned_index i = sint (word_of_int i :: 31 word)"

definition BMH_CHARSET_SIZE :: nat where "BMH_CHARSET_SIZE = 256"
definition BMH_PATLEN_MAX :: nat where "BMH_PATLEN_MAX = 255"
definition BMH_BAD_PATTERN :: int where "BMH_BAD_PATTERN = - 2"

text \<open>The table of skips, filled for the characters of the pattern but its last; \<open>Some None\<close> is a bad pattern.\<close>

primrec fill_skip :: "u16 list \<Rightarrow> nat \<Rightarrow> nat list \<Rightarrow> u8 list \<Rightarrow> u8 list option option" where
  "fill_skip pat m [] skip = Some (Some skip)"
| "fill_skip pat m (i # is) skip = do {
     c \<leftarrow> char_at pat (int i);
     if BMH_CHARSET_SIZE \<le> unat c then Some None
     else fill_skip pat m is (skip[unat c := of_nat (m - i)]) }"

text \<open>The inner loop, with \<open>j + 1\<close> as its counter.\<close>

primrec match_back :: "u16 list \<Rightarrow> u16 list \<Rightarrow> nat \<Rightarrow> int \<Rightarrow> int option option" where
  "match_back text pat 0 i = Some (Some (i + 1))"
| "match_back text pat (Suc j) i = do {
     a \<leftarrow> char_at text i;
     b \<leftarrow> char_at pat (int j);
     if a \<noteq> b then Some None else match_back text pat j (i - 1) }"

partial_function (option) bmh_search :: "u16 list \<Rightarrow> int \<Rightarrow> u16 list \<Rightarrow> int \<Rightarrow> u8 list \<Rightarrow> int \<Rightarrow> int option" where
  "bmh_search text textlen pat patlen skip k =
     (if k < textlen
      then do {
        found \<leftarrow> match_back text pat (nat patlen) k;
        case found of
          Some i \<Rightarrow> Some i
        | None \<Rightarrow> do {
            c \<leftarrow> char_at text k;
            k \<leftarrow> jsint_sum k (if BMH_CHARSET_SIZE \<le> unat c then patlen else uint (skip ! unat c));
            bmh_search text textlen pat patlen skip k } }
      else Some (-1))"

declare bmh_search.simps [code]

definition js_BoyerMooreHorspool :: "u16 list \<Rightarrow> int \<Rightarrow> u16 list \<Rightarrow> int \<Rightarrow> int \<Rightarrow> int option" where
  "js_BoyerMooreHorspool text textlen pat patlen start =
     (let skip = replicate BMH_CHARSET_SIZE (word_of_int patlen); m = patlen - 1
      in do {
        filled \<leftarrow> fill_skip pat (nat m) [0..<nat m] skip;
        case filled of
          None \<Rightarrow> Some BMH_BAD_PATTERN
        | Some skip \<Rightarrow> do { k \<leftarrow> jsint_sum start m; bmh_search text textlen pat patlen skip k } })"

text \<open>\<open>i++\<close> and \<open>j++\<close> cannot overflow: they follow a read below the length of the string.\<close>

partial_function (option) plain_search :: "u16 list \<Rightarrow> int \<Rightarrow> u16 list \<Rightarrow> int \<Rightarrow> int \<Rightarrow> int \<Rightarrow> int option" where
  "plain_search text textlen pat patlen i j = do {
     ij \<leftarrow> jsint_sum i j;
     if ij < textlen
     then do {
       a \<leftarrow> char_at text ij;
       b \<leftarrow> char_at pat j;
       if a = b
       then if j + 1 = patlen then Some i else plain_search text textlen pat patlen i (j + 1)
       else plain_search text textlen pat patlen (i + 1) 0 }
     else Some (-1) }"

declare plain_search.simps [code]

text \<open>
  The second argument of both searches as an index; \<open>(jsint)d\<close> is of an integer between 0 and \<open>textlen\<close>.
\<close>

definition search_index :: "int \<Rightarrow> jsdouble \<Rightarrow> int option" where
  "search_index textlen d =
     (let d = js_DoubleToInteger d
      in if d < 0 then Some 0
         else if of_integer textlen < d then Some textlen
         else cast_double (- 2147483648) 2147483647 (fin d))"

text \<open>
  \<open>String.prototype.indexOf\<close> after its conversions: the string, the pattern, and the second argument
  as a number, if there is one.
\<close>

definition str_indexOf :: "u16 list \<Rightarrow> u16 list \<Rightarrow> jsdouble option \<Rightarrow> int option" where
  "str_indexOf text pat arg =
     (let textlen = string_length text; patlen = string_length pat
      in do {
        i \<leftarrow> (case arg of None \<Rightarrow> Some 0 | Some d \<Rightarrow> search_index textlen d);
        if patlen = 0 then Some (returned_index i)
        else do {
          index \<leftarrow> (if uint (word_of_int (patlen - 2) :: u32) \<le> int BMH_PATLEN_MAX - 2 \<and> 512 \<le> textlen
                    then js_BoyerMooreHorspool text textlen pat patlen i else Some BMH_BAD_PATTERN);
          index \<leftarrow> (if index \<noteq> BMH_BAD_PATTERN then Some index else plain_search text textlen pat patlen i 0);
          Some (returned_index index) } })"

partial_function (option) search_back :: "u16 list \<Rightarrow> int \<Rightarrow> u16 list \<Rightarrow> int \<Rightarrow> int \<Rightarrow> int \<Rightarrow> int option" where
  "search_back text textlen pat patlen i j =
     (if 0 \<le> i
      then do {
        ij \<leftarrow> jsint_sum i j;
        same \<leftarrow> (if ij < textlen
                  then do { a \<leftarrow> char_at text ij; b \<leftarrow> char_at pat j; Some (a = b) }
                  else Some False);
        if same
        then if j + 1 = patlen then Some i else search_back text textlen pat patlen i (j + 1)
        else search_back text textlen pat patlen (i - 1) 0 }
      else Some i)"

declare search_back.simps [code]

definition str_lastIndexOf :: "u16 list \<Rightarrow> u16 list \<Rightarrow> jsdouble option \<Rightarrow> int option" where
  "str_lastIndexOf text pat arg =
     (let textlen = string_length text; patlen = string_length pat
      in do {
        i \<leftarrow> (case arg of
                None \<Rightarrow> Some textlen
              | Some d \<Rightarrow> if JSDOUBLE_IS_NaN d then Some textlen else search_index textlen d);
        i \<leftarrow> (if patlen = 0 then Some i else search_back text textlen pat patlen i 0);
        Some (returned_index i) })"

section \<open>What is found\<close>

definition occurs_at :: "u16 list \<Rightarrow> u16 list \<Rightarrow> nat \<Rightarrow> bool" where
  "occurs_at text pat k \<longleftrightarrow> k + length pat \<le> length text \<and> take (length pat) (drop k text) = pat"

function find_from :: "u16 list \<Rightarrow> u16 list \<Rightarrow> nat \<Rightarrow> int" where
  "find_from text pat k =
     (if length text < k + length pat then -1
      else if occurs_at text pat k then int k else find_from text pat (Suc k))"
  by pat_completeness auto
termination by (relation "measure (\<lambda>(text, _, k). Suc (length text) - k)") auto

declare find_from.simps [simp del]

primrec find_back :: "u16 list \<Rightarrow> u16 list \<Rightarrow> nat \<Rightarrow> int" where
  "find_back text pat 0 = -1"
| "find_back text pat (Suc k) = (if occurs_at text pat k then int k else find_back text pat k)"

section \<open>Comparison is the order of lists\<close>

lemma compare_chars_order:
  assumes "r < 0 \<longleftrightarrow> length xs < length ys" "r = 0 \<longleftrightarrow> length xs = length ys"
  shows "(compare_chars r xs ys < 0 \<longleftrightarrow> xs < ys) \<and> (compare_chars r xs ys = 0 \<longleftrightarrow> xs = ys)"
  using assms
proof (induction r xs ys rule: compare_chars.induct)
  case (1 r x xs y ys)
  show ?case
  proof (cases "x = y")
    case True
    then show ?thesis using 1 by simp
  next
    case False
    then have "uint x - uint y \<noteq> 0" "uint x - uint y < 0 \<longleftrightarrow> x < y"
      by (simp_all add: word_less_def word_uint_eq_iff)
    then show ?thesis using False by (simp add: Let_def)
  qed
qed (auto simp: neq_Nil_conv)

text \<open>Lengths are cast to a signed integer of 32 bits; of shorter strings the difference is right.\<close>

definition short :: "u16 list \<Rightarrow> bool" where "short s \<longleftrightarrow> length s < 2 ^ 31"

text \<open>Indices of strings of less than 2^30 characters fit a value of JavaScript.\<close>

definition indexable :: "u16 list \<Rightarrow> bool" where "indexable s \<longleftrightarrow> length s < 2 ^ 30"

lemma indexable_short: "indexable s \<Longrightarrow> short s"
  by (simp add: indexable_def short_def)

lemma jsint_sum_small: "i + j \<le> 2147483647 \<Longrightarrow> jsint_sum (int i) (int j) = Some (int (i + j))"
  by (simp add: jsint_sum_def)

lemma returned_index_small: "- (2 ^ 30) \<le> i \<Longrightarrow> i < 2 ^ 30 \<Longrightarrow> returned_index i = i"
  by (simp add: returned_index_def signed_of_int signed_take_bit_int_eq_self)

lemma length_difference:
  "short s \<Longrightarrow> short t \<Longrightarrow> sint (of_nat (length s) - of_nat (length t) :: u32) = int (length s) - int (length t)"
proof -
  assume "short s" "short t"
  then have bounds: "- 2147483648 \<le> int (length s) - int (length t)" "int (length s) - int (length t) \<le> 2147483647"
    by (auto simp: short_def)
  have "(of_nat (length s) - of_nat (length t) :: u32) = word_of_int (int (length s) - int (length t))" by simp
  then show ?thesis using signed_word_int[OF bounds] by metis
qed

lemma js_CompareStrings_order:
  assumes "short s" "short t"
  shows "js_CompareStrings s t < 0 \<longleftrightarrow> s < t" "js_CompareStrings s t = 0 \<longleftrightarrow> s = t"
  using compare_chars_order[of "int (length s) - int (length t)" s t] length_difference[OF assms]
  by (auto simp: js_CompareStrings_def)

section \<open>Searching finds the first occurrence\<close>

lemma char_at_nat: "k < length s \<Longrightarrow> char_at s (int k) = Some (s ! k)"
  by (simp add: char_at_def)

lemma occurs_nth: "occurs_at text pat k \<longleftrightarrow> k + length pat \<le> length text \<and> (\<forall>j<length pat. text ! (k + j) = pat ! j)"
  by (auto simp: occurs_at_def list_eq_iff_nth_eq)

lemma find_from_here: "occurs_at text pat k \<Longrightarrow> find_from text pat k = int k"
  by (subst find_from.simps) (simp add: occurs_at_def)

lemma find_from_skip:
  assumes "k \<le> k'" "\<forall>i. k \<le> i \<and> i < k' \<longrightarrow> \<not> occurs_at text pat i"
  shows "find_from text pat k = find_from text pat k'"
  using assms
proof (induction "k' - k" arbitrary: k)
  case (Suc n)
  have "find_from text pat (Suc k) = find_from text pat k'" using Suc.prems Suc.hyps(2) by (intro Suc.hyps) auto
  moreover have "length text < k + length pat \<Longrightarrow> find_from text pat (Suc k) = -1" by (simp add: find_from.simps)
  ultimately show ?case using Suc.prems Suc.hyps(2) by (subst find_from.simps) auto
qed simp

lemma find_from_beyond: "length text < k + length pat \<Longrightarrow> find_from text pat k = -1"
  by (simp add: find_from.simps)

lemma find_from_first:
  "find_from text pat k = r \<longleftrightarrow>
     (if \<exists>i\<ge>k. occurs_at text pat i then r = int (LEAST i. k \<le> i \<and> occurs_at text pat i) else r = -1)"
proof (cases "\<exists>i\<ge>k. occurs_at text pat i")
  case True
  define l where "l = (LEAST i. k \<le> i \<and> occurs_at text pat i)"
  have "k \<le> l \<and> occurs_at text pat l" unfolding l_def using True by (metis (mono_tags, lifting) LeastI_ex)
  moreover have "\<forall>i. k \<le> i \<and> i < l \<longrightarrow> \<not> occurs_at text pat i" unfolding l_def using not_less_Least by blast
  ultimately have "find_from text pat k = int l" using find_from_skip[of k l] find_from_here by auto
  then show ?thesis using True by (auto simp: l_def)
next
  case False
  have "find_from text pat k = find_from text pat (max k (Suc (length text)))"
    using False by (intro find_from_skip) auto
  also have "\<dots> = -1" by (rule find_from_beyond) auto
  finally show ?thesis using False by auto
qed

subsection \<open>The table of skips\<close>

lemma match_back_result:
  assumes "n \<le> length pat" "k < length text" "n \<le> Suc k"
  shows "match_back text pat n (int k)
    = Some (if \<forall>j<n. text ! (Suc k - n + j) = pat ! j then Some (int (Suc k - n)) else None)"
  using assms
proof (induction n arbitrary: k)
  case 0
  then show ?case by simp
next
  case (Suc n)
  show ?case
  proof (cases "text ! k = pat ! n")
    case False
    then show ?thesis using Suc.prems by (auto simp: char_at_nat intro!: exI[of _ n])
  next
    case True
    show ?thesis
    proof (cases k)
      case 0
      then show ?thesis using Suc.prems True by (cases pat) (simp_all add: char_at_def)
    next
      case (Suc k')
      have "match_back text pat n (int k')
          = Some (if \<forall>j<n. text ! (Suc k' - n + j) = pat ! j then Some (int (Suc k' - n)) else None)"
        using Suc.IH[of k'] Suc.prems Suc by simp
      moreover have "(\<forall>j<Suc n. text ! (Suc k - Suc n + j) = pat ! j) \<longleftrightarrow> (\<forall>j<n. text ! (Suc k' - n + j) = pat ! j)"
        using True Suc Suc.prems by (auto simp: less_Suc_eq)
      moreover have "char_at text (int k) = Some (pat ! n)" "char_at pat (int n) = Some (pat ! n)"
        using Suc.prems True char_at_nat[of k "text"] char_at_nat[of n pat] by simp_all
      then have "match_back text pat (Suc n) (int k) = match_back text pat n (int k')" using Suc by simp
      ultimately show ?thesis using Suc by simp
    qed
  qed
qed

text \<open>
  What the table holds of the pattern's first characters: a skip leads at most to the last of them
  that is the same character, and at least one character on.
\<close>

definition good_skip :: "u16 list \<Rightarrow> nat \<Rightarrow> nat \<Rightarrow> u8 list \<Rightarrow> bool" where
  "good_skip pat m a skip \<longleftrightarrow> length skip = 256
     \<and> (\<forall>c<256. 0 < unat (skip ! c) \<and> unat (skip ! c) \<le> Suc m)
     \<and> (\<forall>i<a. unat (pat ! i) < 256 \<and> unat (skip ! unat (pat ! i)) \<le> m - i)"

lemma unat_of_nat_8: "n < 256 \<Longrightarrow> unat (of_nat n :: u8) = n"
  by (simp add: unat_of_nat take_bit_eq_mod)

lemma fill_skip_good:
  assumes "a \<le> m" "m \<le> length pat" "m < 255" "good_skip pat m a skip"
  shows "\<exists>r. fill_skip pat m [a..<m] skip = Some r \<and> (\<forall>skip'. r = Some skip' \<longrightarrow> good_skip pat m m skip')"
  using assms
proof (induction "m - a" arbitrary: a skip)
  case (Suc n)
  then have a: "a < m" "[a..<m] = a # [Suc a..<m]" by (auto simp: upt_conv_Cons)
  show ?case
  proof (cases "256 \<le> unat (pat ! a)")
    case True
    then show ?thesis using a Suc.prems by (simp add: char_at_nat BMH_CHARSET_SIZE_def)
  next
    case False
    let ?skip = "skip[unat (pat ! a) := of_nat (m - a)]"
    have "unat (of_nat (m - a) :: u8) = m - a" using Suc.prems by (intro unat_of_nat_8) simp
    then have "good_skip pat m (Suc a) ?skip"
      using Suc.prems a False by (auto simp: good_skip_def nth_list_update less_Suc_eq simp del: of_nat_diff)
    then have "\<exists>r. fill_skip pat m [Suc a..<m] ?skip = Some r \<and> (\<forall>skip'. r = Some skip' \<longrightarrow> good_skip pat m m skip')"
      using Suc.hyps(2) Suc.prems a by (intro Suc.hyps(1)) auto
    then show ?thesis using a Suc.prems False by (simp add: char_at_nat BMH_CHARSET_SIZE_def)
  qed
qed simp

lemma no_match_skipped:
  assumes "good_skip pat m m skip" "length pat = Suc m" "m \<le> k" "k < length text"
    and "0 < t" "t < (if 256 \<le> unat (text ! k) then Suc m else unat (skip ! unat (text ! k)))"
  shows "\<not> occurs_at text pat (k - m + t)"
proof
  assume occurs: "occurs_at text pat (k - m + t)"
  have "t \<le> m" using assms by (auto simp: good_skip_def split: if_splits) (meson le_trans less_Suc_eq_le not_le order_less_le_trans)
  then have "m - t < length pat" using assms(2) by simp
  then have "text ! (k - m + t + (m - t)) = pat ! (m - t)" using occurs unfolding occurs_nth by blast
  moreover have "k - m + t + (m - t) = k" using \<open>t \<le> m\<close> assms(3) by simp
  ultimately have same: "text ! k = pat ! (m - t)" by simp
  have "m - t < m" using assms(5) \<open>t \<le> m\<close> by simp
  then have "unat (text ! k) < 256 \<and> unat (skip ! unat (text ! k)) \<le> m - (m - t)"
    using assms(1) same by (simp add: good_skip_def)
  then show False using assms(6) \<open>t \<le> m\<close> by (simp split: if_splits)
qed

lemma bmh_search_finds:
  assumes "good_skip pat m m skip" "length pat = Suc m" "m \<le> k" "length text < 2 ^ 30" "Suc m \<le> BMH_PATLEN_MAX"
  shows "bmh_search text (int (length text)) pat (int (length pat)) skip (int k) = Some (find_from text pat (k - m))"
  using assms(3)
proof (induction "length text - k" arbitrary: k rule: less_induct)
  case less
  show ?case
  proof (cases "k < length text")
    case False
    then show ?thesis using assms(2) less.prems by (subst bmh_search.simps) (simp add: find_from_beyond)
  next
    case True
    have here: "match_back text pat (Suc m) (int k)
        = Some (if occurs_at text pat (k - m) then Some (int (k - m)) else None)"
      using match_back_result[of "Suc m" pat k "text"] assms(2) less.prems True by (simp add: occurs_nth)
    show ?thesis
    proof (cases "occurs_at text pat (k - m)")
      case True
      then show ?thesis using here \<open>k < length text\<close> assms(2)
        by (subst bmh_search.simps) (simp add: find_from_here nat_add_distrib)
    next
      case False
      define s where "s = (if 256 \<le> unat (text ! k) then Suc m else unat (skip ! unat (text ! k)))"
      have s: "0 < s" using assms(1) by (auto simp: s_def good_skip_def)
      have "(if BMH_CHARSET_SIZE \<le> unat (text ! k) then int (length pat) else uint (skip ! unat (text ! k))) = int s"
        by (simp add: s_def assms(2) BMH_CHARSET_SIZE_def)
      moreover have "s \<le> Suc m" using assms(1) by (auto simp: s_def good_skip_def)
      then have "jsint_sum (int k) (int s) = Some (int (k + s))"
        using True assms(4,5) by (intro jsint_sum_small) (simp add: BMH_PATLEN_MAX_def)
      ultimately have "jsint_sum (int k) (if BMH_CHARSET_SIZE \<le> unat (text ! k) then int (length pat) else uint (skip ! unat (text ! k))) =
          Some (int (k + s))" by (simp only:)
      then have "bmh_search text (int (length text)) pat (int (length pat)) skip (int k)
          = bmh_search text (int (length text)) pat (int (length pat)) skip (int (k + s))"
        using here False \<open>k < length text\<close> assms(2)
        by (subst bmh_search.simps) (simp add: char_at_nat nat_add_distrib)
      also have "\<dots> = Some (find_from text pat (k + s - m))"
        using s True less.prems by (intro less.hyps) auto
      also have "find_from text pat (k + s - m) = find_from text pat (k - m)"
      proof (rule find_from_skip[symmetric])
        show "\<forall>i. k - m \<le> i \<and> i < k + s - m \<longrightarrow> \<not> occurs_at text pat i"
        proof (intro allI impI)
          fix i assume i: "k - m \<le> i \<and> i < k + s - m"
          show "\<not> occurs_at text pat i"
          proof (cases "i = k - m")
            case neq: False
            have "\<not> occurs_at text pat (k - m + (i - (k - m)))"
              using i neq less.prems by (intro no_match_skipped[OF assms(1,2) less.prems True]) (auto simp: s_def split: if_splits)
            then show ?thesis using i by simp
          qed (use False in simp)
        qed
      qed (use s in simp)
      finally show ?thesis .
    qed
  qed
qed

text \<open>The search gives up on patterns beyond Latin-1 only, and otherwise finds the first occurrence.\<close>

lemma bmh_finds:
  assumes "0 < length pat" "length pat \<le> BMH_PATLEN_MAX" "indexable text" "start \<le> length text"
  shows "js_BoyerMooreHorspool text (int (length text)) pat (int (length pat)) (int start)
    \<in> {Some BMH_BAD_PATTERN, Some (find_from text pat start)}"
proof -
  obtain m where m: "length pat = Suc m" using assms(1) by (cases "length pat") auto
  let ?skip = "replicate 256 (word_of_int (int (Suc m)) :: u8)"
  have "unat (word_of_int (int (Suc m)) :: u8) = Suc m" using unat_of_nat_8[of "Suc m"] assms(2) m by (simp add: BMH_PATLEN_MAX_def)
  then have "good_skip pat m 0 ?skip" by (simp add: good_skip_def)
  then obtain r where r: "fill_skip pat m [0..<m] ?skip = Some r" "\<forall>skip. r = Some skip \<longrightarrow> good_skip pat m m skip"
    using fill_skip_good[of 0 m pat ?skip] m assms(2) by (auto simp: BMH_PATLEN_MAX_def)
  have k: "int (length pat) - 1 = int m" using m by simp
  have sum: "jsint_sum (int start) (int m) = Some (int (start + m))"
    using assms m by (intro jsint_sum_small) (simp add: indexable_def BMH_PATLEN_MAX_def)
  show ?thesis
  proof (cases r)
    case None
    then show ?thesis using r m by (simp add: js_BoyerMooreHorspool_def Let_def BMH_CHARSET_SIZE_def)
  next
    case (Some skip)
    then have "bmh_search text (int (length text)) pat (int (length pat)) skip (int (start + m)) = Some (find_from text pat start)"
      using bmh_search_finds[of pat m skip "start + m" "text"] r(2) m assms(2,3) by (simp add: indexable_def)
    then show ?thesis using r(1) Some sum unfolding js_BoyerMooreHorspool_def Let_def k
      by (simp add: BMH_CHARSET_SIZE_def m)
  qed
qed

subsection \<open>The other loops\<close>

lemma less_search_measure:
  "i < n \<Longrightarrow> (n - Suc i) * Suc p + p < (n - i) * Suc p + q" for n i p q :: nat
proof -
  assume "i < n"
  then have "(n - i) * Suc p = (n - Suc i) * Suc p + Suc p" by (metis Suc_diff_Suc add.commute mult_Suc)
  then show ?thesis by simp
qed

lemma plain_search_finds:
  assumes "j < length pat" "i + j \<le> length text" "\<forall>l<j. text ! (i + l) = pat ! l" "short text"
  shows "plain_search text (int (length text)) pat (int (length pat)) (int i) (int j) = Some (find_from text pat i)"
  using assms
proof (induction "(length text - i) * Suc (length pat) + (length pat - j)" arbitrary: i j rule: less_induct)
  case less
  note prems = less.prems
  have sum: "jsint_sum (int i) (int j) = Some (int i + int j)"
    using prems(2,4) jsint_sum_small [of i j] by (simp add: short_def)
  show ?case
  proof (cases "i + j < length text")
    case False
    then show ?thesis using prems by (subst plain_search.simps) (simp add: sum find_from_beyond)
  next
    case True
    have read: "char_at text (int i + int j) = Some (text ! (i + j))" "char_at pat (int j) = Some (pat ! j)"
      using True prems(1) char_at_nat[of "i + j" "text"] by (simp_all add: char_at_nat)
    note read = read sum
    show ?thesis
    proof (cases "text ! (i + j) = pat ! j")
      case same: True
      show ?thesis
      proof (cases "Suc j = length pat")
        case whole: True
        then have "\<forall>l<length pat. text ! (i + l) = pat ! l" unfolding whole[symmetric] using prems(3) same by (simp add: less_Suc_eq)
        then have "occurs_at text pat i" using True whole by (simp add: occurs_nth)
        moreover have "int j + 1 = int (length pat)" using whole by simp
      ultimately show ?thesis using True read same by (subst plain_search.simps) (simp add: find_from_here)
      next
        case False
        have "plain_search text (int (length text)) pat (int (length pat)) (int i) (int (Suc j)) = Some (find_from text pat i)"
          using False True prems same by (intro less.hyps) (auto simp: less_Suc_eq)
        then show ?thesis using True False read same by (subst plain_search.simps) (simp add: add.commute)
      qed
    next
      case False
      have "plain_search text (int (length text)) pat (int (length pat)) (int (Suc i)) (int 0)
          = Some (find_from text pat (Suc i))"
      proof (rule less.hyps)
        show "(length text - Suc i) * Suc (length pat) + (length pat - 0) < (length text - i) * Suc (length pat) + (length pat - j)"
          unfolding diff_zero using True by (intro less_search_measure) simp
      qed (use True prems in auto)
      moreover have "find_from text pat i = find_from text pat (Suc i)"
        using False prems(1) by (intro find_from_skip) (auto simp: occurs_nth less_Suc_eq_le dest!: le_antisym)
      ultimately show ?thesis using True False read by (subst plain_search.simps) (simp add: add.commute)
    qed
  qed
qed

lemma search_back_finds:
  assumes "j < length pat" "i + j \<le> length text" "\<forall>l<j. text ! (i + l) = pat ! l" "short text"
  shows "search_back text (int (length text)) pat (int (length pat)) (int i) (int j) = Some (find_back text pat (Suc i))"
  using assms
proof (induction "i * Suc (length pat) + (length pat - j)" arbitrary: i j rule: less_induct)
  case less
  note prems = less.prems
  have sum: "jsint_sum (int i) (int j) = Some (int i + int j)"
    using prems(2,4) jsint_sum_small [of i j] by (simp add: short_def)
  show ?case
  proof (cases "i + j < length text \<and> text ! (i + j) = pat ! j")
    case True
    then have "char_at text (int i + int j) = Some (pat ! j)" "char_at pat (int j) = Some (pat ! j)"
      using prems(1) char_at_nat[of "i + j" "text"] by (simp_all add: char_at_nat)
    note read = this sum
    show ?thesis
    proof (cases "Suc j = length pat")
      case whole: True
      then have "\<forall>l<length pat. text ! (i + l) = pat ! l" unfolding whole[symmetric] using prems(3) True by (simp add: less_Suc_eq)
      then have "occurs_at text pat i" using True whole by (simp add: occurs_nth)
      moreover have "int j + 1 = int (length pat)" using whole by simp
      ultimately show ?thesis using True read by (subst search_back.simps) simp
    next
      case False
      have "search_back text (int (length text)) pat (int (length pat)) (int i) (int (Suc j)) = Some (find_back text pat (Suc i))"
        using False True prems by (intro less.hyps) (auto simp: less_Suc_eq)
      then show ?thesis using True False read by (subst search_back.simps) (simp add: add.commute)
    qed
  next
    case False
    then have none: "\<not> occurs_at text pat i" using prems(1) by (auto simp: occurs_nth)
    have "(if int i + int j < int (length text)
        then do { a \<leftarrow> char_at text (int i + int j); b \<leftarrow> char_at pat (int j); Some (a = b) } else Some False) = Some False"
      using False prems(1) char_at_nat[of "i + j" "text"] by (auto simp: char_at_nat)
    then have step: "search_back text (int (length text)) pat (int (length pat)) (int i) (int j)
        = search_back text (int (length text)) pat (int (length pat)) (int i - 1) 0"
      by (subst search_back.simps) (simp add: sum)
    show ?thesis
    proof (cases i)
      case 0
      then show ?thesis using step none by (simp add: search_back.simps[of _ _ _ _ "-1"])
    next
      case (Suc i')
      have "search_back text (int (length text)) pat (int (length pat)) (int i') (int 0) = Some (find_back text pat (Suc i'))"
        using Suc prems by (intro less.hyps) auto
      then show ?thesis using step none Suc by simp
    qed
  qed
qed

lemma find_back_last:
  "find_back text pat k = r \<longleftrightarrow>
     (if \<exists>i<k. occurs_at text pat i then r = int (GREATEST i. i < k \<and> occurs_at text pat i) else r = -1)"
proof (induction k)
  case (Suc k)
  show ?case
  proof (cases "occurs_at text pat k")
    case True
    then have "(GREATEST i. i < Suc k \<and> occurs_at text pat i) = k" by (intro Greatest_equality) auto
    then show ?thesis using True by auto
  next
    case False
    then have same: "(i < Suc k \<and> occurs_at text pat i) = (i < k \<and> occurs_at text pat i)" for i by (auto simp: less_Suc_eq)
    show ?thesis unfolding same using Suc False by simp
  qed
qed auto

section \<open>The methods\<close>

lemma string_length_short: "short s \<Longrightarrow> string_length s = int (length s)"
  unfolding string_length_def short_def
  using signed_word_int[of "int (length s)"] by simp

text \<open>The index at which a search starts: the second argument, within the string.\<close>

fun start_index :: "nat \<Rightarrow> jsdouble \<Rightarrow> nat" where
  "start_index n NaN = 0"
| "start_index n (Inf neg) = (if neg then 0 else n)"
| "start_index n (Fin x) = (if trunc x < 0 then 0 else min n (nat (trunc x)))"

lemma start_clamped:
  assumes "n < 2 ^ 31"
  shows "search_index (int n) d = Some (int (start_index n d))"
proof (cases d)
  case (Fin x)
  then show ?thesis using assms
    by (auto simp: search_index_def js_DoubleToInteger_Fin Let_def of_integer_def zero_jsdouble_def cast_double_def min_def)
next
  case (Inf neg)
  then show ?thesis by (simp add: search_index_def js_DoubleToInteger_def of_integer_def zero_jsdouble_def)
next
  case NaN
  then show ?thesis using assms by (simp add: search_index_def js_DoubleToInteger_def of_integer_def zero_jsdouble_def cast_double_def trunc_def)
qed

lemma start_index_le: "start_index n d \<le> n"
  by (cases d) auto

lemma patlen_test:
  assumes "short pat" "0 < length pat"
  shows "uint (word_of_int (int (length pat) - 2) :: u32) \<le> int BMH_PATLEN_MAX - 2 \<longleftrightarrow> 2 \<le> length pat \<and> length pat \<le> BMH_PATLEN_MAX"
proof (cases "2 \<le> length pat")
  case True
  define n where "n = length pat - 2"
  then have n: "int (length pat) - 2 = int n" "n < 2 ^ 32" using True assms(1) by (auto simp: short_def)
  then have "uint (word_of_int (int n) :: u32) = int n" by (subst uint_word_of_int_eq) (simp add: take_bit_int_eq_self)
  then show ?thesis using True n(1) by (auto simp: BMH_PATLEN_MAX_def)
next
  case False
  then have one: "length pat = 1" using assms(2) by linarith
  show ?thesis unfolding one by (simp add: BMH_PATLEN_MAX_def unsigned_minus_1_eq_mask mask_eq_exp_minus_1)
qed

lemma find_from_range: "find_from text pat k = -1 \<or> (\<exists>i\<le>length text. find_from text pat k = int i)"
proof (induction "text" pat k rule: find_from.induct)
  case (1 "text" pat k)
  then show ?case by (auto simp: find_from.simps [of "text" pat k])
qed

lemma find_back_range: "find_back text pat k = -1 \<or> (\<exists>i\<le>length text. find_back text pat k = int i)"
  by (induction k) (auto simp: occurs_at_def)

lemma returned_found:
  assumes "indexable text"
  shows "returned_index (find_from text pat k) = find_from text pat k"
    and "returned_index (find_back text pat k) = find_back text pat k"
  using find_from_range [of "text" pat k] find_back_range [of "text" pat k] assms
  by (auto simp: indexable_def intro!: returned_index_small)

lemma str_indexOf_finds:
  assumes "indexable text" "short pat"
  shows "str_indexOf text pat arg = Some (find_from text pat (case arg of None \<Rightarrow> 0 | Some d \<Rightarrow> start_index (length text) d))"
proof -
  note short = indexable_short [OF assms(1)]
  define k where "k = (case arg of None \<Rightarrow> 0 | Some d \<Rightarrow> start_index (length text) d)"
  have start: "(case arg of None \<Rightarrow> Some 0 | Some d \<Rightarrow> search_index (int (length text)) d) = Some (int k)"
    using start_clamped[of "length text"] short by (simp add: k_def short_def split: option.split)
  have k: "k \<le> length text" using start_index_le by (simp add: k_def split: option.split)
  show ?thesis
  proof (cases "pat = []")
    case True
    then have "occurs_at text pat k" using k by (simp add: occurs_at_def)
    then show ?thesis using True start assms returned_found(1) [OF assms(1), of pat k]
      by (simp add: str_indexOf_def string_length_short [OF short] string_length_short find_from_here k_def[symmetric])
  next
    case False
    define index where "index = (if uint (word_of_int (int (length pat) - 2) :: u32) \<le> int BMH_PATLEN_MAX - 2 \<and> 512 \<le> int (length text)
        then js_BoyerMooreHorspool text (int (length text)) pat (int (length pat)) (int k) else Some BMH_BAD_PATTERN)"
    have "index \<in> {Some BMH_BAD_PATTERN, Some (find_from text pat k)}"
      using bmh_finds[of pat "text" k] patlen_test[OF assms(2)] False assms(1) k by (auto simp: index_def)
    moreover have "plain_search text (int (length text)) pat (int (length pat)) (int k) 0 = Some (find_from text pat k)"
      using plain_search_finds[of 0 pat k "text"] False k short by simp
    moreover have "str_indexOf text pat arg = do {
        i \<leftarrow> index;
        i \<leftarrow> (if i \<noteq> BMH_BAD_PATTERN then Some i else plain_search text (int (length text)) pat (int (length pat)) (int k) 0);
        Some (returned_index i) }"
      unfolding str_indexOf_def Let_def index_def string_length_short[OF short] string_length_short[OF assms(2)]
      unfolding start using False by simp
    ultimately show ?thesis using returned_found(1) [OF assms(1), of pat k] by (auto simp: k_def[symmetric])
  qed
qed

lemma str_lastIndexOf_finds:
  assumes "indexable text" "short pat"
  shows "str_lastIndexOf text pat arg = Some (find_back text pat
    (Suc (case arg of None \<Rightarrow> length text | Some d \<Rightarrow> if d = NaN then length text else start_index (length text) d)))"
    (is "_ = Some (find_back text pat (Suc ?k))")
proof -
  note short = indexable_short [OF assms(1)]
  have start: "(case arg of None \<Rightarrow> Some (int (length text))
      | Some d \<Rightarrow> if JSDOUBLE_IS_NaN d then Some (int (length text)) else search_index (int (length text)) d) = Some (int ?k)"
    using start_clamped[of "length text"] short by (simp add: JSDOUBLE_IS_NaN_def short_def split: option.split)
  have k: "?k \<le> length text" using start_index_le by (simp split: option.split)
  have run: "str_lastIndexOf text pat arg = map_option returned_index
      (if pat = [] then Some (int ?k) else search_back text (int (length text)) pat (int (length pat)) (int ?k) 0)"
    unfolding str_lastIndexOf_def Let_def string_length_short[OF short] string_length_short[OF assms(2)]
    unfolding start by (cases "pat = []") (simp_all split: bind_splits)
  have "(if pat = [] then Some (int ?k) else search_back text (int (length text)) pat (int (length pat)) (int ?k) 0) =
      Some (find_back text pat (Suc ?k))"
  proof (cases "pat = []")
    case True
    then show ?thesis using k by (simp add: occurs_at_def)
  next
    case False
    then show ?thesis using search_back_finds[of 0 pat ?k "text"] k short by simp
  qed
  then show ?thesis unfolding run by (simp only: option.map returned_found(2) [OF assms(1)])
qed

text \<open>
  A string of 2^30 characters is too long for its indices: the end of it, which searching
  backwards for the empty string finds, comes back negative.
\<close>

lemma long_string_index_negative:
  assumes "2 ^ 30 \<le> length text" "short text"
  shows "str_lastIndexOf text [] None = Some (int (length text) - 2 ^ 31)"
proof -
  have n: "2 ^ 30 \<le> int (length text)" "int (length text) < 2 ^ 31" using assms by (simp_all add: short_def)
  have "returned_index (int (length text)) = int (length text) - 2 ^ 31"
  proof -
    have "(word_of_int (int (length text)) :: 31 word) = word_of_int (int (length text) - 2 ^ 31)"
      by (simp add: word_of_int_eq_iff take_bit_int_def)
    then have "returned_index (int (length text)) = returned_index (int (length text) - 2 ^ 31)"
      by (simp only: returned_index_def)
    also have "\<dots> = int (length text) - 2 ^ 31" using n by (intro returned_index_small) simp_all
    finally show ?thesis .
  qed
  then show ?thesis by (simp add: str_lastIndexOf_def string_length_short [OF assms(2)] string_length_short short_def)
qed

text \<open>
  C26: Searching a string of less than 2^30 characters for another finds its first occurrence from
  the index of the second argument on, or -1 if there is none, whether by the table of skips or
  plainly; searching backwards finds the last occurrence up to it. Both searches end, read inside
  the strings and overflow no \<open>jsint\<close>, and the index fits the value that is returned.
\<close>

theorem string_search_finds:
  assumes "indexable text" "short pat"
  shows "(\<exists>r. str_indexOf text pat arg = Some r
      \<and> (let k = (case arg of None \<Rightarrow> 0 | Some d \<Rightarrow> start_index (length text) d)
         in if \<exists>i\<ge>k. occurs_at text pat i then r = int (LEAST i. k \<le> i \<and> occurs_at text pat i) else r = -1))
    \<and> (\<exists>r. str_lastIndexOf text pat arg = Some r
      \<and> (let k = (case arg of None \<Rightarrow> length text | Some d \<Rightarrow> if d = NaN then length text else start_index (length text) d)
         in if \<exists>i<Suc k. occurs_at text pat i then r = int (GREATEST i. i < Suc k \<and> occurs_at text pat i) else r = -1))"
  unfolding str_indexOf_finds[OF assms] str_lastIndexOf_finds[OF assms] Let_def
  by (simp only: option.inject ex_simps simp_thms find_from_first[symmetric] find_back_last[symmetric])

theorem string_search_finds_witness:
  "\<exists>r. str_indexOf [1, 2, 1, 2, 3] [1, 2, 3] (Some (Fin 1)) = Some r \<and> r = 2"
proof -
  have "indexable [1, 2, 1, 2, 3]" "short [1, 2, 3]" by (simp_all add: short_def indexable_def)
  from string_search_finds[OF this, of "Some (Fin 1)"] obtain r where
    "str_indexOf [1, 2, 1, 2, 3] [1, 2, 3] (Some (Fin 1)) = Some r" by blast
  moreover have "str_indexOf [1, 2, 1, 2, 3] [1, 2, 3] (Some (Fin 1)) = Some 2" by code_simp
  ultimately show ?thesis by simp
qed

section \<open>Cutting\<close>

text \<open>
  \<open>js_NewDependentString\<close>: the characters from \<open>start\<close> on; outside of the string it has no meaning.
  The arguments of the methods are the numbers they convert to, none, one or two.
\<close>

definition js_NewDependentString :: "u16 list \<Rightarrow> jsdouble \<Rightarrow> jsdouble \<Rightarrow> u16 list option" where
  "js_NewDependentString base begin' end' =
     (let start = trunc (fin begin'); stop = trunc (fin end')
      in if begin' = of_integer start \<and> end' = of_integer stop \<and> 0 \<le> start \<and> start \<le> stop \<and> stop \<le> int (length base)
         then Some (take (nat (stop - start)) (drop (nat start) base)) else None)"

definition clamp_positive :: "jsdouble \<Rightarrow> jsdouble \<Rightarrow> jsdouble" where
  "clamp_positive len d = (let d = js_DoubleToInteger d in if d < 0 then 0 else if len < d then len else d)"

definition clamp_relative :: "jsdouble \<Rightarrow> jsdouble \<Rightarrow> jsdouble" where
  "clamp_relative len d =
     (let d = js_DoubleToInteger d
      in if d < 0 then (let d = d + len in if d < 0 then 0 else d) else if len < d then len else d)"

definition str_substring :: "bool \<Rightarrow> u16 list \<Rightarrow> jsdouble list \<Rightarrow> u16 list option" where
  "str_substring version_1_2 str argv =
     (let len = of_integer (int (length str))
      in case argv of
           [] \<Rightarrow> Some str
         | a # rest \<Rightarrow>
             let begin' = clamp_positive len a;
                 end' = (case rest of [] \<Rightarrow> len | b # _ \<Rightarrow> clamp_positive len b);
                 (begin', end') = (if rest \<noteq> [] \<and> end' < begin'
                                   then (if \<not> version_1_2 then (end', begin') else (begin', begin'))
                                   else (begin', end'))
             in js_NewDependentString str begin' end')"

definition substr_stop :: "jsdouble \<Rightarrow> jsdouble \<Rightarrow> jsdouble \<Rightarrow> jsdouble" where
  "substr_stop len begin' d =
     (let end' = js_DoubleToInteger d; end' = (if end' < 0 then 0 else end'); end' = end' + begin'
      in if len < end' then len else end')"

definition str_substr :: "u16 list \<Rightarrow> jsdouble list \<Rightarrow> u16 list option" where
  "str_substr str argv =
     (let len = of_integer (int (length str))
      in case argv of
           [] \<Rightarrow> Some str
         | a # rest \<Rightarrow>
             let begin' = clamp_relative len a;
                 end' = (case rest of
                           [] \<Rightarrow> len
                         | b # _ \<Rightarrow> substr_stop len begin' b)
             in js_NewDependentString str begin' end')"

definition str_slice :: "u16 list \<Rightarrow> jsdouble list \<Rightarrow> u16 list option" where
  "str_slice str argv =
     (let len = of_integer (int (length str))
      in case argv of
           [] \<Rightarrow> Some str
         | a # rest \<Rightarrow>
             let begin' = clamp_relative len a;
                 end' = (case rest of
                           [] \<Rightarrow> len
                         | b # _ \<Rightarrow>
                             let end' = clamp_relative len b
                             in if end' < begin' then begin' else end')
             in js_NewDependentString str begin' end')"

text \<open>Indices of integers, counted from the start of a string of \<open>n\<close> characters or, if negative, from its end.\<close>

lemma of_integer_simps [simp]:
  "of_integer a < of_integer b \<longleftrightarrow> a < b" "of_integer a < 0 \<longleftrightarrow> a < 0" "of_integer a + of_integer b = of_integer (a + b)"
  "0 = of_integer 0" "fin (of_integer a) = of_int a" "Inf neg < of_integer a \<longleftrightarrow> neg" "of_integer a < Inf neg \<longleftrightarrow> \<not> neg"
  "Inf neg + of_integer a = Inf neg" "of_integer a = of_integer b \<longleftrightarrow> a = b"
  by (simp_all add: of_integer_def zero_jsdouble_def)

fun relative_index :: "nat \<Rightarrow> jsdouble \<Rightarrow> nat" where
  "relative_index n NaN = 0"
| "relative_index n (Inf neg) = (if neg then 0 else n)"
| "relative_index n (Fin x) = (if trunc x < 0 then nat (trunc x + int n) else min n (nat (trunc x)))"

lemma clamp_positive_index: "clamp_positive (of_integer (int n)) d = of_integer (int (start_index n d))"
proof (cases d)
  case (Fin x)
  then show ?thesis by (auto simp: clamp_positive_def js_DoubleToInteger_Fin Let_def not_less min_def)
qed (simp_all add: clamp_positive_def js_DoubleToInteger_def)

lemma clamp_relative_index: "clamp_relative (of_integer (int n)) d = of_integer (int (relative_index n d))"
proof (cases d)
  case (Fin x)
  then show ?thesis by (auto simp: clamp_relative_def js_DoubleToInteger_Fin Let_def not_less min_def)
qed (simp_all add: clamp_relative_def js_DoubleToInteger_def)

lemma relative_index_le: "relative_index n d \<le> n"
  by (cases d) auto

definition between :: "u16 list \<Rightarrow> nat \<Rightarrow> nat \<Rightarrow> u16 list" where
  "between s i j = take (j - i) (drop i s)"

lemma js_NewDependentString_between:
  "i \<le> j \<Longrightarrow> j \<le> length s \<Longrightarrow> js_NewDependentString s (of_integer (int i)) (of_integer (int j)) = Some (between s i j)"
  using trunc_of_int[of "int i"] trunc_of_int[of "int j"]
  by (simp add: js_NewDependentString_def between_def Let_def nat_diff_distrib')

fun substr_end :: "nat \<Rightarrow> nat \<Rightarrow> jsdouble \<Rightarrow> nat" where
  "substr_end n i NaN = i"
| "substr_end n i (Inf neg) = (if neg then i else n)"
| "substr_end n i (Fin x) = min n (i + nat (trunc x))"

lemma substr_end_code:
  assumes "i \<le> n"
  shows "substr_stop (of_integer (int n)) (of_integer (int i)) b = of_integer (int (substr_end n i b))"
proof (cases b)
  case (Fin x)
  then show ?thesis using assms by (auto simp: substr_stop_def js_DoubleToInteger_Fin Let_def not_less min_def)
qed (use assms in \<open>simp_all add: substr_stop_def js_DoubleToInteger_def\<close>)

text \<open>
  Whatever its arguments, each of the methods that cut a string returns the characters of a range
  inside it: \<open>slice\<close> between two relative indices, \<open>substr\<close> a number of characters from one on, and
  \<open>substring\<close> between two absolute ones in either order, except that JavaScript 1.2 does not swap them.
\<close>

theorem string_cuts:
  "str_slice s [a, b] = Some (between s (relative_index (length s) a) (max (relative_index (length s) a) (relative_index (length s) b)))
   \<and> str_slice s [a] = Some (drop (relative_index (length s) a) s)
   \<and> str_substr s [a, b] = Some (between s (relative_index (length s) a) (substr_end (length s) (relative_index (length s) a) b))
   \<and> str_substr s [a] = str_slice s [a]
   \<and> str_substring False s [a, b] = Some (between s (min (start_index (length s) a) (start_index (length s) b))
        (max (start_index (length s) a) (start_index (length s) b)))
   \<and> str_substring True s [a, b] = Some (between s (start_index (length s) a)
        (max (start_index (length s) a) (start_index (length s) b)))
   \<and> str_substring v s [a] = Some (drop (start_index (length s) a) s)"
proof -
  note index = clamp_relative_index clamp_positive_index
  have le: "relative_index (length s) d \<le> length s" "start_index (length s) d \<le> length s" for d
    by (rule relative_index_le, rule start_index_le)
  have tail: "between s i (length s) = drop i s" for i by (simp add: between_def)
  have "substr_end (length s) i b \<le> length s" "i \<le> substr_end (length s) i b" if "i \<le> length s" for i
    using that by (cases b; simp)+
  then show ?thesis
    using substr_end_code[OF le(1)] le
    by (simp add: str_slice_def str_substr_def str_substring_def index Let_def js_NewDependentString_between tail max_def min_def)
qed

end
