(* ===== verification/JS_Date.thy ===== *)
theory JS_Date
  imports JS_Number "HOL-Library.Signed_Division"
begin

text \<open>
  The calendar of js/src/jsdate.c: days, years, months and times of the day of a time in milliseconds
  since 1970, back from these to the time, and the offset of local time. A finite double is a
  rational number. Within the range of dates all times are integers below 2^53 and the quotients
  are below 2^27 days, so that the floor of a rounded quotient is that of the exact one. A cast to
  \<open>jsint\<close> of a number that does not fit, and a product that overflows it, are \<open>None\<close>.
\<close>

section \<open>Days and years\<close>

definition msPerSecond :: rat where "msPerSecond = 1000"
definition msPerMinute :: rat where "msPerMinute = 60 * msPerSecond"
definition msPerHour :: rat where "msPerHour = 60 * msPerMinute"
definition msPerDay :: rat where "msPerDay = 24 * msPerHour"

definition jsint :: "int \<Rightarrow> int option" where
  "jsint n = (if - 2147483648 \<le> n \<and> n \<le> 2147483647 then Some n else None)"

definition Day :: "rat \<Rightarrow> int" where "Day t = \<lfloor>t / msPerDay\<rfloor>"

definition TimeWithinDay :: "rat \<Rightarrow> rat" where
  "TimeWithinDay t = (let result = fmod t msPerDay in if result < 0 then result + msPerDay else result)"

definition DaysInYear :: "int \<Rightarrow> int" where
  "DaysInYear y = (if y mod 4 = 0 \<and> (y mod 100 \<noteq> 0 \<or> y mod 400 = 0) then 366 else 365)"

definition DayFromYear :: "rat \<Rightarrow> rat" where
  "DayFromYear y = 365 * (y - 1970) + of_int \<lfloor>(y - 1969) / 4\<rfloor> - of_int \<lfloor>(y - 1901) / 100\<rfloor> + of_int \<lfloor>(y - 1601) / 400\<rfloor>"

definition TimeFromYear :: "rat \<Rightarrow> rat" where "TimeFromYear y = DayFromYear y * msPerDay"

text \<open>Of a year that is a \<open>jsint\<close>, the product in \<open>DayFromYear\<close> is one of integers.\<close>

definition DayFromYear_int :: "int \<Rightarrow> rat option" where
  "DayFromYear_int y = do { _ \<leftarrow> jsint (365 * (y - 1970)); Some (DayFromYear (of_int y)) }"

definition YearFromTime :: "rat \<Rightarrow> int option" where
  "YearFromTime t = do {
     y \<leftarrow> jsint \<lfloor>t / (msPerDay * 365.2425)\<rfloor>;
     y \<leftarrow> jsint (y + 1970);
     day \<leftarrow> DayFromYear_int y;
     let t2 = day * msPerDay;
     jsint (if t < t2 then y - 1 else if t2 + msPerDay * of_int (DaysInYear y) \<le> t then y + 1 else y) }"

definition InLeapYear :: "rat \<Rightarrow> bool option" where
  "InLeapYear t = do { y \<leftarrow> YearFromTime t; Some (DaysInYear y = 366) }"

definition DayWithinYear :: "rat \<Rightarrow> int \<Rightarrow> int option" where
  "DayWithinYear t year = do { day \<leftarrow> DayFromYear_int year; jsint (trunc (of_int (Day t) - day)) }"

section \<open>Months\<close>

definition firstDayOfMonth :: "bool \<Rightarrow> int list" where
  "firstDayOfMonth leap =
     (if leap then [0, 31, 60, 91, 121, 152, 182, 213, 244, 274, 305, 335]
      else [0, 31, 59, 90, 120, 151, 181, 212, 243, 273, 304, 334])"

definition DayFromMonth :: "rat \<Rightarrow> bool \<Rightarrow> int" where
  "DayFromMonth m leap = firstDayOfMonth leap ! nat (trunc m)"

definition month_of_day :: "int \<Rightarrow> bool \<Rightarrow> int" where
  "month_of_day d leap =
     (let step = 31 in if d < step then 0
      else let step = step + (if leap then 29 else 28) in if d < step then 1
      else let step = step + 31 in if d < step then 2
      else let step = step + 30 in if d < step then 3
      else let step = step + 31 in if d < step then 4
      else let step = step + 30 in if d < step then 5
      else let step = step + 31 in if d < step then 6
      else let step = step + 31 in if d < step then 7
      else let step = step + 30 in if d < step then 8
      else let step = step + 31 in if d < step then 9
      else let step = step + 30 in if d < step then 10
      else 11)"

definition MonthFromTime :: "rat \<Rightarrow> int option" where
  "MonthFromTime t = do {
     year \<leftarrow> YearFromTime t;
     d \<leftarrow> DayWithinYear t year;
     leap \<leftarrow> InLeapYear t;
     Some (month_of_day d leap) }"

definition date_of_day :: "int \<Rightarrow> bool \<Rightarrow> int" where
  "date_of_day d leap =
     (let next' = 30 in if d \<le> next' then d + 1
      else let step = next'; next' = next' + (if leap then 29 else 28) in if d \<le> next' then d - step
      else let step = next'; next' = next' + 31 in if d \<le> next' then d - step
      else let step = next'; next' = next' + 30 in if d \<le> next' then d - step
      else let step = next'; next' = next' + 31 in if d \<le> next' then d - step
      else let step = next'; next' = next' + 30 in if d \<le> next' then d - step
      else let step = next'; next' = next' + 31 in if d \<le> next' then d - step
      else let step = next'; next' = next' + 31 in if d \<le> next' then d - step
      else let step = next'; next' = next' + 30 in if d \<le> next' then d - step
      else let step = next'; next' = next' + 31 in if d \<le> next' then d - step
      else let step = next'; next' = next' + 30 in if d \<le> next' then d - step
      else let step = next' in d - step)"

definition DateFromTime :: "rat \<Rightarrow> int option" where
  "DateFromTime t = do {
     year \<leftarrow> YearFromTime t;
     d \<leftarrow> DayWithinYear t year;
     leap \<leftarrow> InLeapYear t;
     Some (date_of_day d leap) }"

definition WeekDay :: "rat \<Rightarrow> int option" where
  "WeekDay t = do {
     result \<leftarrow> jsint (Day t);
     result \<leftarrow> jsint (result + 4);
     let result = result smod 7;
     Some (if result < 0 then result + 7 else result) }"

section \<open>Making times\<close>

definition MakeTime :: "rat \<Rightarrow> rat \<Rightarrow> rat \<Rightarrow> rat \<Rightarrow> rat" where
  "MakeTime hour minute sec ms = ((hour * 60 + minute) * 60 + sec) * msPerSecond + ms"

definition MakeDay :: "rat \<Rightarrow> rat \<Rightarrow> rat \<Rightarrow> rat option" where
  "MakeDay year month date = do {
     let year = year + of_int \<lfloor>month / 12\<rfloor>;
     let month = fmod month 12;
     let month = (if month < 0 then month + 12 else month);
     y \<leftarrow> jsint (trunc year);
     let leap = DaysInYear y = 366;
     let yearday = of_int \<lfloor>TimeFromYear year / msPerDay\<rfloor>;
     let monthday = of_int (DayFromMonth month leap);
     Some (yearday + monthday + date - 1) }"

definition MakeDate :: "rat \<Rightarrow> rat \<Rightarrow> rat" where "MakeDate day time = day * msPerDay + time"

definition date_msecFromDate :: "rat \<Rightarrow> rat \<Rightarrow> rat \<Rightarrow> rat \<Rightarrow> rat \<Rightarrow> rat \<Rightarrow> rat \<Rightarrow> rat option" where
  "date_msecFromDate year mon mday hour minute sec msec = do {
     day \<leftarrow> MakeDay year mon mday;
     let msec_time = MakeTime hour minute sec msec;
     Some (MakeDate day msec_time) }"

text \<open>The part of a time that counts units, up to a limit; the casts to \<open>intN\<close> are of numbers below it.\<close>

definition time_part :: "rat \<Rightarrow> int \<Rightarrow> int" where
  "time_part n limit = (let result = trunc (fmod n (of_int limit)) in if result < 0 then result + limit else result)"

definition HourFromTime :: "rat \<Rightarrow> int" where "HourFromTime t = time_part (of_int \<lfloor>t / msPerHour\<rfloor>) 24"
definition MinFromTime :: "rat \<Rightarrow> int" where "MinFromTime t = time_part (of_int \<lfloor>t / msPerMinute\<rfloor>) 60"
definition SecFromTime :: "rat \<Rightarrow> int" where "SecFromTime t = time_part (of_int \<lfloor>t / msPerSecond\<rfloor>) 60"
definition msFromTime :: "rat \<Rightarrow> int" where "msFromTime t = time_part t 1000"

definition HalfTimeDomain :: rat where "HalfTimeDomain = 8640000000000000"

definition TIMECLIP :: "jsdouble \<Rightarrow> jsdouble" where
  "TIMECLIP d =
     (case d of
        Fin x \<Rightarrow> if \<not> (if x < 0 then - x else x) > HalfTimeDomain then js_DoubleToInteger (Fin (x + 0)) else NaN
      | _ \<Rightarrow> NaN)"

section \<open>Local time\<close>

text \<open>
  What the operating system says: the offset of the time zone (\<open>LocalTZA\<close>), and that of daylight
  saving at a time, both in microseconds (\<open>PRMJ_DSTOffset\<close> of js/src/prmjtime.c, which asks
  \<open>localtime\<close>).
\<close>

record date_env =
  LocalTZA :: rat
  DSTOffset :: "int \<Rightarrow> int"

definition yearStartingWith :: "bool \<Rightarrow> int list" where
  "yearStartingWith leap =
     (if leap then [1984, 1996, 1980, 1992, 1976, 1988, 1972] else [1978, 1973, 1974, 1975, 1981, 1971, 1977])"

definition EquivalentYearForDST :: "int \<Rightarrow> int option" where
  "EquivalentYearForDST year = do {
     day \<leftarrow> DayFromYear_int year;
     day \<leftarrow> jsint (trunc day);
     day \<leftarrow> jsint (day + 4);
     let day = day smod 7;
     let day = (if day < 0 then day + 7 else day);
     let isLeapYear = DaysInYear year = 366;
     Some (yearStartingWith isLeapYear ! nat day) }"

definition DaylightSavingTA :: "date_env \<Rightarrow> rat \<Rightarrow> rat option" where
  "DaylightSavingTA env t = do {
     t \<leftarrow> (if t < 0 \<or> 2145916800000 < t
           then do {
             year \<leftarrow> YearFromTime t;
             year \<leftarrow> EquivalentYearForDST year;
             month \<leftarrow> MonthFromTime t;
             date \<leftarrow> DateFromTime t;
             day \<leftarrow> MakeDay (of_int year) (of_int month) (of_int date);
             Some (MakeDate day (TimeWithinDay t)) }
           else Some t);
     let offset = DSTOffset env (trunc t * 1000);
     Some (of_int (offset sdiv 1000)) }"

definition AdjustTime :: "date_env \<Rightarrow> rat \<Rightarrow> rat option" where
  "AdjustTime env t = do { d \<leftarrow> DaylightSavingTA env t; Some (fmod (LocalTZA env + d) msPerDay) }"

definition LocalTime :: "date_env \<Rightarrow> rat \<Rightarrow> rat option" where
  "LocalTime env t = do { a \<leftarrow> AdjustTime env t; Some (t + a) }"

definition UTC :: "date_env \<Rightarrow> rat \<Rightarrow> rat option" where
  "UTC env t = do { a \<leftarrow> AdjustTime env (t - LocalTZA env); Some (t - a) }"

section \<open>Years\<close>

text \<open>The first day of a year, in integers.\<close>

definition first_day :: "int \<Rightarrow> int" where
  "first_day y = 365 * (y - 1970) + (y - 1969) div 4 - (y - 1901) div 100 + (y - 1601) div 400"

lemma floor_quotient: "\<lfloor>(of_int a - c) / of_int b\<rfloor> = (a - \<lfloor>c\<rfloor>) div b" if "c = of_int \<lfloor>c\<rfloor>" for a b :: int and c :: rat
proof -
  have "(of_int a - c) / of_int b = (of_int (a - \<lfloor>c\<rfloor>) / of_int b :: rat)" using that by simp
  then show ?thesis by (simp only: floor_divide_of_int_eq)
qed

lemma DayFromYear_first: "DayFromYear (of_int y) = of_int (first_day y)"
  using floor_quotient[of 1969 y 4] floor_quotient[of 1901 y 100] floor_quotient[of 1601 y 400]
  by (simp add: DayFromYear_def first_day_def)

lemma div_next: "(a + 1) div n = a div n + (if n dvd a + 1 then 1 else 0)" if "0 < n" for a n :: int
proof (cases "n dvd a + 1")
  case True
  then obtain k where k: "a + 1 = n * k" by (elim dvdE)
  then have "a = n * (k - 1) + (n - 1)" by (simp add: algebra_simps)
  then have "a div n = k - 1" using that by (simp only: int_div_pos_eq)
  then show ?thesis using True k that by simp
next
  case False
  define q r where "q = a div n" and "r = a mod n"
  then have a: "a = n * q + r" "0 \<le> r" "r < n" using that by simp_all
  have "r + 1 \<noteq> n"
  proof
    assume "r + 1 = n"
    then have "a + 1 = n * (q + 1)" using a(1) by (simp add: distrib_left)
    then show False using False by simp
  qed
  then have "r + 1 < n" using a by linarith
  then have "(a + 1) div n = q" using a by (intro int_div_pos_eq[of _ _ _ "r + 1"]) linarith+
  then show ?thesis using False by (simp add: q_def)
qed

lemma first_day_next: "first_day (y + 1) = first_day y + DaysInYear y"
proof -
  have "y - 1969 + 1 = y + - 492 * 4" "y - 1901 + 1 = y + - 19 * 100" "y - 1601 + 1 = y + - 4 * 400" by simp_all
  then have dvd: "4 dvd y - 1969 + 1 \<longleftrightarrow> y mod 4 = 0" "100 dvd y - 1901 + 1 \<longleftrightarrow> y mod 100 = 0" "400 dvd y - 1601 + 1 \<longleftrightarrow> y mod 400 = 0"
    by (simp_all only: dvd_add_times_triv_right_iff mod_eq_0_iff_dvd)
  have leap: "y mod 100 = 0 \<Longrightarrow> y mod 4 = 0" "y mod 400 = 0 \<Longrightarrow> y mod 100 = 0"
    unfolding mod_eq_0_iff_dvd by (rule dvd_trans[rotated], assumption, simp)+
  have e: "y + 1 - 1969 = y - 1969 + 1" "y + 1 - 1901 = y - 1901 + 1" "y + 1 - 1601 = y - 1601 + 1"
    "365 * (y + 1 - 1970) = 365 * (y - 1970) + 365" by simp_all
  show ?thesis
    unfolding first_day_def DaysInYear_def e div_next[OF zero_less_numeral] dvd
    using leap by (cases "y mod 4 = 0"; cases "y mod 100 = 0"; cases "y mod 400 = 0"; simp)
qed

lemma jsint_small: "\<bar>n\<bar> \<le> 2147483647 \<Longrightarrow> jsint n = Some n"
  by (auto simp: jsint_def abs_le_iff)

lemma days_in_year: "365 \<le> DaysInYear y" "DaysInYear y \<le> 366" by (simp_all add: DaysInYear_def)

text \<open>A year is 365.2425 days long, on average.\<close>

lemma first_day_bounds:
  "400 * first_day (1970 + n) \<le> 146097 * n + 589" "146097 * n - 506 \<le> 400 * first_day (1970 + n)"
proof -
  have d: "m * (k div m) \<le> k" "k \<le> m * (k div m) + (m - 1)" if "0 < m" for m k :: int
    using mult_div_mod_eq[of m k] pos_mod_bound[OF that, of k] pos_mod_sign[OF that, of k] by linarith+
  note d4 = d[of 4 "n + 1", simplified] and d100 = d[of 100 "n + 69", simplified] and d400 = d[of 400 "n + 369", simplified]
  have "first_day (1970 + n) = 365 * n + (n + 1) div 4 - (n + 69) div 100 + (n + 369) div 400"
    by (simp add: first_day_def algebra_simps)
  then show "400 * first_day (1970 + n) \<le> 146097 * n + 589" "146097 * n - 506 \<le> 400 * first_day (1970 + n)"
    using d4 d100 d400 by linarith+
qed

lemma first_day_mono: "y \<le> y' \<Longrightarrow> first_day y \<le> first_day y'"
proof (induction "nat (y' - y)" arbitrary: y')
  case (Suc n)
  then have "first_day y \<le> first_day (y' - 1)" by simp
  then show ?case using first_day_next[of "y' - 1"] days_in_year(1)[of "y' - 1"] by simp
qed simp

lemma first_day_less: "first_day y < first_day y' \<Longrightarrow> y < y'"
  using first_day_mono[of y' y] by linarith

text \<open>Times that are dates, in the local time of every zone too.\<close>

definition in_range :: "rat \<Rightarrow> bool" where "in_range t \<longleftrightarrow> \<bar>t\<bar> \<le> 9000000000000000"

lemma msPerDay_value: "msPerDay = 86400000"
  by (simp add: msPerDay_def msPerHour_def msPerMinute_def msPerSecond_def)

lemma Day_bounds: "of_int (Day t) * msPerDay \<le> t" "t < (of_int (Day t) + 1) * msPerDay"
proof -
  have "of_int (Day t) \<le> t / msPerDay" "t / msPerDay < of_int (Day t) + 1" using floor_correct[of "t / msPerDay"] by (simp_all add: Day_def)
  then show "of_int (Day t) * msPerDay \<le> t" "t < (of_int (Day t) + 1) * msPerDay" by (simp_all add: msPerDay_value field_simps)
qed

lemma day_le: "of_int d * msPerDay \<le> t \<longleftrightarrow> d \<le> Day t"
  by (simp add: Day_def le_floor_iff msPerDay_value pos_le_divide_eq)

lemma day_less: "t < of_int d * msPerDay \<longleftrightarrow> Day t < d"
  using day_le[of d t] by linarith

lemma in_range_day: "in_range t \<Longrightarrow> \<bar>Day t\<bar> \<le> 104166667"
  using Day_bounds[of t] by (simp add: in_range_def msPerDay_value abs_le_iff)

lemma YearFromTime_year:
  assumes "in_range t"
  obtains y where "YearFromTime t = Some y" "first_day y \<le> Day t" "Day t < first_day (y + 1)" "\<bar>y\<bar> \<le> 300000"
proof -
  define n where "n = \<lfloor>t / (msPerDay * 365.2425)\<rfloor>"
  have "of_int n \<le> t / (msPerDay * 365.2425)" "t / (msPerDay * 365.2425) < of_int n + 1"
    using floor_correct[of "t / (msPerDay * 365.2425)"] unfolding n_def of_int_add of_int_1 by blast+
  then have "of_int n * 31556952000 \<le> t" "t < (of_int n + 1) * 31556952000"
    by (simp_all add: msPerDay_value field_simps)
  then have "of_int (146097 * n) < (of_int (400 * Day t + 400) :: rat)" "of_int (400 * Day t) < (of_int (146097 * n + 146097) :: rat)"
    using Day_bounds[of t] by (simp_all add: msPerDay_value)
  then have n: "146097 * n < 400 * Day t + 400" "400 * Day t < 146097 * n + 146097"
    unfolding of_int_less_iff by blast+
  let ?y = "1970 + n"
  have near: "first_day (?y - 1) \<le> Day t" "Day t < first_day (?y + 2)"
    using n first_day_bounds(1)[of "n - 1"] first_day_bounds(2)[of "n + 2"] by (simp_all add: algebra_simps)
  have small: "\<bar>n\<bar> \<le> 285200" using n in_range_day[OF assms] by linarith
  have ints: "jsint \<lfloor>t / (msPerDay * 365.2425)\<rfloor> = Some n" "jsint (n + 1970) = Some ?y" "jsint (365 * (?y - 1970)) = Some (365 * (?y - 1970))"
    unfolding n_def[symmetric] using jsint_small[of n] jsint_small[of "n + 1970"] jsint_small[of "365 * (?y - 1970)"] small
    by (simp_all add: add.commute)
  define y where "y = (if Day t < first_day ?y then ?y - 1 else if first_day (?y + 1) \<le> Day t then ?y + 1 else ?y)"
  have next_year: "of_int (first_day ?y) * msPerDay + msPerDay * of_int (DaysInYear ?y) = of_int (first_day (?y + 1)) * msPerDay"
    by (simp only: first_day_next of_int_add distrib_left mult.commute)
  have y: "YearFromTime t = jsint y"
    unfolding YearFromTime_def DayFromYear_int_def DayFromYear_first y_def ints Option.bind.bind_lunit Let_def next_year day_less day_le
    by (rule refl)
  moreover have "\<bar>y\<bar> \<le> 300000" using small by (auto simp: y_def)
  moreover from this have "jsint y = Some y" by (intro jsint_small) linarith
  moreover have "first_day y \<le> Day t" "Day t < first_day (y + 1)" using near by (auto simp: y_def)
  ultimately show ?thesis by (intro that[of y]) simp_all
qed

section \<open>Months\<close>

text \<open>The first days of the months, and the day after the year.\<close>

definition month_start :: "bool \<Rightarrow> int \<Rightarrow> int" where
  "month_start leap m = (if m = 12 then (if leap then 366 else 365) else firstDayOfMonth leap ! nat m)"

lemma month_cases:
  fixes m :: int
  assumes "0 \<le> m" "m \<le> 11"
  obtains "m = 0" | "m = 1" | "m = 2" | "m = 3" | "m = 4" | "m = 5" | "m = 6" | "m = 7" | "m = 8" | "m = 9" | "m = 10" | "m = 11"
proof -
  have "m \<in> {0..11}" using assms by simp
  also have "{0..11} = {0, 1, 2, 3, 4, 5, 6, 7, 8, 9, 10, 11 :: int}" by (simp add: simp_from_to)
  finally show ?thesis using that by blast
qed

lemma month_of_day_range: "0 \<le> month_of_day d leap" "month_of_day d leap \<le> 11"
  by (simp_all add: month_of_day_def Let_def)

lemma month_start_value:
  "month_start leap 0 = 0" "month_start leap 1 = 31" "month_start leap 2 = (if leap then 60 else 59)"
  "month_start leap 3 = (if leap then 91 else 90)" "month_start leap 4 = (if leap then 121 else 120)"
  "month_start leap 5 = (if leap then 152 else 151)" "month_start leap 6 = (if leap then 182 else 181)"
  "month_start leap 7 = (if leap then 213 else 212)" "month_start leap 8 = (if leap then 244 else 243)"
  "month_start leap 9 = (if leap then 274 else 273)" "month_start leap 10 = (if leap then 305 else 304)"
  "month_start leap 11 = (if leap then 335 else 334)" "month_start leap 12 = (if leap then 366 else 365)"
  by (simp_all add: month_start_def firstDayOfMonth_def)

text \<open>The chains of comparisons find the month of a day, and its number there.\<close>

lemma date_in_month:
  assumes "month_start leap m \<le> d" "d < month_start leap (m + 1)" "0 \<le> m" "m \<le> 11"
  shows "month_of_day d leap = m" "date_of_day d leap = d - month_start leap m + 1"
  by (rule month_cases[OF assms(3,4)]; use assms(1,2) in \<open>cases leap; simp add: month_of_day_def date_of_day_def month_start_value Let_def\<close>)+

lemma month_of_day_bounds:
  assumes "0 \<le> d" "d < (if leap then 366 else 365)"
  shows "month_start leap (month_of_day d leap) \<le> d" "d < month_start leap (month_of_day d leap + 1)"
  using assms by (cases leap; simp add: month_of_day_def month_start_value Let_def)+

lemma month_length: "0 \<le> m \<Longrightarrow> m \<le> 11 \<Longrightarrow> month_start leap (m + 1) \<le> month_start leap m + 31"
  "0 \<le> m \<Longrightarrow> m \<le> 11 \<Longrightarrow> month_start leap m \<le> 335 \<and> 0 \<le> month_start leap m"
  by (erule (1) month_cases; cases leap; simp add: month_start_value)+

section \<open>Times of a day\<close>

lemma fmod_floor:
  assumes "0 < m"
  shows "(if fmod x m < 0 then fmod x m + m else fmod x m) = x - of_int \<lfloor>x / m\<rfloor> * m"
proof -
  have f: "of_int \<lfloor>x / m\<rfloor> \<le> x / m" "x / m < of_int \<lfloor>x / m\<rfloor> + 1" using floor_correct[of "x / m"] unfolding of_int_add of_int_1 by blast+
  then have below: "0 \<le> x - of_int \<lfloor>x / m\<rfloor> * m" "x - of_int \<lfloor>x / m\<rfloor> * m < m"
    using iffD1[OF pos_le_divide_eq[OF assms] f(1)] iffD1[OF pos_divide_less_eq[OF assms] f(2)] by (simp_all add: distrib_right)
  show ?thesis
  proof (cases "x / m < 0 \<and> x / m \<noteq> of_int \<lfloor>x / m\<rfloor>")
    case True
    then have "of_int \<lfloor>x / m\<rfloor> < x / m" by (intro le_neq_trans[OF f(1)]) metis
    then have "\<lceil>x / m\<rceil> = \<lfloor>x / m\<rfloor> + 1" using f(2) by (intro ceiling_unique) simp_all
    then have "trunc (x / m) = \<lfloor>x / m\<rfloor> + 1" using trunc_nonpos[of "x / m"] True by simp
    then show ?thesis using below by (simp add: fmod_def algebra_simps)
  next
    case False
    then have "trunc (x / m) = \<lfloor>x / m\<rfloor>"
      using trunc_of_int[of "\<lfloor>x / m\<rfloor>"] trunc_nonneg[of "x / m"] by (cases "x / m < 0") auto
    then show ?thesis using below by (simp add: fmod_def)
  qed
qed

lemma TimeWithinDay_rest: "TimeWithinDay t = t - of_int (Day t) * msPerDay"
proof -
  have "0 < msPerDay" by (simp add: msPerDay_value)
  from fmod_floor[OF this, of t] show ?thesis by (simp add: TimeWithinDay_def Day_def Let_def)
qed

lemma fmod_int: "0 < b \<Longrightarrow> (if fmod (of_int a) (of_int b) < 0 then fmod (of_int a) (of_int b) + of_int b else fmod (of_int a) (of_int b))
    = of_int (a mod b)"
  using fmod_floor[of "of_int b" "of_int a"] by (simp add: floor_divide_of_int_eq minus_div_mult_eq_mod[symmetric] algebra_simps)

lemma time_part_mod:
  assumes "0 < limit"
  shows "time_part (of_int k) limit = k mod limit"
proof -
  have "trunc (fmod (of_int k) (of_int limit)) = (if k < 0 then - (- k mod limit) else k mod limit)"
    using trunc_fmod[OF assms, of "of_int k"] by simp
  moreover have "0 \<le> - k mod limit" "0 \<le> k mod limit" using assms by simp_all
  moreover have "- k mod limit = (if k mod limit = 0 then 0 else limit - k mod limit)" using zmod_zminus1_eq_if by blast
  ultimately show ?thesis by (auto simp: time_part_def Let_def split: if_splits)
qed

lemma unit_floor: "\<lfloor>(of_int n :: rat) / of_int u\<rfloor> = n div u"
  by (rule floor_divide_of_int_eq)

lemma time_parts_int:
  "HourFromTime (of_int n) = n div 3600000 mod 24" "MinFromTime (of_int n) = n div 60000 mod 60"
  "SecFromTime (of_int n) = n div 1000 mod 60" "msFromTime (of_int n) = n mod 1000" "Day (of_int n) = n div 86400000"
  using unit_floor[of n 3600000] unit_floor[of n 60000] unit_floor[of n 1000] unit_floor[of n 86400000]
  by (simp_all add: HourFromTime_def MinFromTime_def SecFromTime_def msFromTime_def time_part_mod Day_def
      msPerDay_def msPerHour_def msPerMinute_def msPerSecond_def)

lemma time_parts_range:
  "0 \<le> n div 3600000 mod 24 \<and> n div 3600000 mod 24 \<le> 23" "0 \<le> n div 60000 mod 60 \<and> n div 60000 mod 60 \<le> 59"
  "0 \<le> n div 1000 mod 60 \<and> n div 1000 mod 60 \<le> 59" "0 \<le> n mod 1000 \<and> n mod 1000 \<le> 999" for n :: int
  using pos_mod_bound[of 24 "n div 3600000"] pos_mod_bound[of 60 "n div 60000"] pos_mod_bound[of 60 "n div 1000"] pos_mod_bound[of 1000 n]
  by simp_all

lemma div_units: "n div 60000 = n div 1000 div 60" "n div 3600000 = n div 60000 div 60" "n div 86400000 = n div 3600000 div 24" for n :: int
  unfolding zdiv_zmult2_eq[OF zero_le_numeral, symmetric] by simp_all

text \<open>A time is made of its parts.\<close>

lemma time_of_parts:
  fixes n :: int
  shows "n = ((((n div 86400000) * 24 + n div 3600000 mod 24) * 60 + n div 60000 mod 60) * 60 + n div 1000 mod 60) * 1000 + n mod 1000"
proof -
  define a b c d where "a = n div 1000" and "b = n div 60000" and "c = n div 3600000" and "d = n div 86400000"
  have "n = a * 1000 + n mod 1000" "a = b * 60 + a mod 60" "b = c * 60 + b mod 60" "c = d * 24 + c mod 24"
    unfolding a_def b_def c_def d_def div_units by (simp_all only: div_mult_mod_eq)
  then show ?thesis unfolding a_def[symmetric] b_def[symmetric] c_def[symmetric] d_def[symmetric] by algebra
qed

section \<open>Days of the calendar\<close>

definition leap_year :: "int \<Rightarrow> bool" where "leap_year y \<longleftrightarrow> DaysInYear y = 366"

definition day_number :: "int \<Rightarrow> int \<Rightarrow> int \<Rightarrow> int" where
  "day_number y m d =
     (let y' = y + m div 12 in first_day y' + month_start (leap_year y') (m mod 12) + d - 1)"

lemma days_of_leap_year: "DaysInYear y = (if leap_year y then 366 else 365)"
  by (simp add: leap_year_def DaysInYear_def)

lemma TimeFromYear_day: "TimeFromYear (of_int y) / msPerDay = of_int (first_day y)"
  by (simp add: TimeFromYear_def DayFromYear_first msPerDay_value)

lemma MakeDay_int:
  assumes "\<bar>y + m div 12\<bar> \<le> 2147483647"
  shows "MakeDay (of_int y) (of_int m) (of_int d) = Some (of_int (day_number y m d))"
proof -
  have "\<lfloor>of_int m / (12 :: rat)\<rfloor> = m div 12" using unit_floor[of m 12] by simp
  then have year: "of_int y + of_int \<lfloor>of_int m / (12 :: rat)\<rfloor> = (of_int (y + m div 12) :: rat)" by simp
  have month: "(if fmod (of_int m) 12 < 0 then fmod (of_int m) 12 + 12 else fmod (of_int m) 12) = of_int (m mod 12)"
    by (rule fmod_int[of 12 m, OF zero_less_numeral, unfolded of_int_numeral])
  have "m mod 12 \<noteq> 12" using pos_mod_bound[of 12 m] by simp
  then have "DayFromMonth (of_int (m mod 12)) leap = month_start leap (m mod 12)" for leap
    unfolding DayFromMonth_def month_start_def trunc_of_int by simp
  then show ?thesis
    unfolding MakeDay_def Let_def year month trunc_of_int jsint_small[OF assms] Option.bind.bind_lunit TimeFromYear_day floor_of_int
    by (simp add: day_number_def Let_def leap_year_def)
qed

lemma day_number_month: "0 \<le> m \<Longrightarrow> m \<le> 11 \<Longrightarrow> day_number y m d = first_day y + month_start (leap_year y) m + d - 1"
  by (simp add: day_number_def)

lemma in_year_unique:
  "first_day y \<le> d \<Longrightarrow> d < first_day (y + 1) \<Longrightarrow> first_day y' \<le> d \<Longrightarrow> d < first_day (y' + 1) \<Longrightarrow> y = y'"
  using first_day_less[of y "y' + 1"] first_day_less[of y' "y + 1"] by linarith

lemma fields_of_day:
  assumes t: "in_range t" and y: "first_day y \<le> Day t" "Day t < first_day (y + 1)"
  shows "YearFromTime t = Some y" "MonthFromTime t = Some (month_of_day (Day t - first_day y) (leap_year y))"
    "DateFromTime t = Some (date_of_day (Day t - first_day y) (leap_year y))" "\<bar>y\<bar> \<le> 300000"
proof -
  obtain y' where y': "YearFromTime t = Some y'" "first_day y' \<le> Day t" "Day t < first_day (y' + 1)" "\<bar>y'\<bar> \<le> 300000"
    by (rule YearFromTime_year[OF t])
  have "y' = y" by (rule in_year_unique[OF y'(2,3) y])
  then show year: "YearFromTime t = Some y" and small: "\<bar>y\<bar> \<le> 300000" using y' by simp_all
  have "jsint (365 * (y - 1970)) = Some (365 * (y - 1970))" using small by (simp add: jsint_def abs_le_iff)
  moreover have "jsint (Day t - first_day y) = Some (Day t - first_day y)"
    by (rule jsint_small) (use y days_in_year(2)[of y] first_day_next[of y] in linarith)
  ultimately have day: "DayWithinYear t y = Some (Day t - first_day y)"
    using trunc_of_int[of "Day t - first_day y"] by (simp add: DayWithinYear_def DayFromYear_int_def DayFromYear_first)
  show "MonthFromTime t = Some (month_of_day (Day t - first_day y) (leap_year y))"
    "DateFromTime t = Some (date_of_day (Day t - first_day y) (leap_year y))"
    by (simp_all add: MonthFromTime_def DateFromTime_def year day InLeapYear_def leap_year_def)
qed

lemma smod_week: "(let r = k smod 7 in if r < 0 then r + 7 else r) = k mod 7" for k :: int
proof (cases "k < 0")
  case True
  then have "k smod 7 = - (- k mod 7)" by (simp add: smod_int_alt_def)
  moreover have "- k mod 7 = (if k mod 7 = 0 then 0 else 7 - k mod 7)" by (rule zmod_zminus1_eq_if)
  moreover have "0 \<le> k mod 7" "k mod 7 < 7" by simp_all
  ultimately show ?thesis by (auto simp: Let_def split: if_splits)
next
  case False
  then have "k smod 7 = k mod 7" by (simp add: smod_int_alt_def sgn_if)
  moreover have "0 \<le> k mod 7" by simp
  ultimately show ?thesis by (simp add: Let_def)
qed

lemma WeekDay_mod: "in_range t \<Longrightarrow> WeekDay t = Some ((Day t + 4) mod 7)"
proof -
  assume "in_range t"
  then have "\<bar>Day t\<bar> \<le> 104166667" by (rule in_range_day)
  then have "jsint (Day t) = Some (Day t)" "jsint (Day t + 4) = Some (Day t + 4)" by (intro jsint_small; linarith)+
  then show ?thesis using smod_week[of "Day t + 4"] by (simp add: WeekDay_def Let_def)
qed

section \<open>Fields and times correspond\<close>

text \<open>The time of fields.\<close>

definition civil_time :: "int \<Rightarrow> int \<Rightarrow> int \<Rightarrow> int \<Rightarrow> int \<Rightarrow> int \<Rightarrow> int \<Rightarrow> int" where
  "civil_time y m d h mi s ms = day_number y m d * 86400000 + (((h * 60 + mi) * 60 + s) * 1000 + ms)"

lemma MakeTime_int: "MakeTime (of_int h) (of_int mi) (of_int s) (of_int ms) = of_int (((h * 60 + mi) * 60 + s) * 1000 + ms)"
  by (simp add: MakeTime_def msPerSecond_def)

lemma MakeDate_int: "MakeDate (of_int d) (of_int t) = of_int (d * 86400000 + t)"
  by (simp add: MakeDate_def msPerDay_value)

lemma date_msecFromDate_int:
  "\<bar>y + m div 12\<bar> \<le> 2147483647 \<Longrightarrow>
    date_msecFromDate (of_int y) (of_int m) (of_int d) (of_int h) (of_int mi) (of_int s) (of_int ms) = Some (of_int (civil_time y m d h mi s ms))"
  by (simp add: date_msecFromDate_def MakeDay_int MakeTime_int MakeDate_int civil_time_def Let_def del: of_int_add of_int_mult)

text \<open>A date of the calendar and a time of the day.\<close>

definition civil :: "int \<Rightarrow> int \<Rightarrow> int \<Rightarrow> bool" where
  "civil y m d \<longleftrightarrow> 0 \<le> m \<and> m \<le> 11 \<and> 1 \<le> d \<and> d \<le> month_start (leap_year y) (m + 1) - month_start (leap_year y) m"

definition clock :: "int \<Rightarrow> int \<Rightarrow> int \<Rightarrow> int \<Rightarrow> bool" where
  "clock h mi s ms \<longleftrightarrow> 0 \<le> h \<and> h \<le> 23 \<and> 0 \<le> mi \<and> mi \<le> 59 \<and> 0 \<le> s \<and> s \<le> 59 \<and> 0 \<le> ms \<and> ms \<le> 999"

definition has_fields :: "rat \<Rightarrow> int \<Rightarrow> int \<Rightarrow> int \<Rightarrow> int \<Rightarrow> int \<Rightarrow> int \<Rightarrow> int \<Rightarrow> bool" where
  "has_fields t y m d h mi s ms \<longleftrightarrow> YearFromTime t = Some y \<and> MonthFromTime t = Some m \<and> DateFromTime t = Some d
    \<and> HourFromTime t = h \<and> MinFromTime t = mi \<and> SecFromTime t = s \<and> msFromTime t = ms"

lemma civil_day:
  assumes "civil y m d"
  shows "first_day y \<le> day_number y m d" "day_number y m d < first_day (y + 1)"
    "month_of_day (day_number y m d - first_day y) (leap_year y) = m" "date_of_day (day_number y m d - first_day y) (leap_year y) = d"
proof -
  have m: "0 \<le> m" "m \<le> 11" and d: "1 \<le> d" "d \<le> month_start (leap_year y) (m + 1) - month_start (leap_year y) m"
    using assms by (auto simp: civil_def)
  have day: "day_number y m d - first_day y = month_start (leap_year y) m + d - 1" using day_number_month[OF m] by simp
  have below: "month_start (leap_year y) (m + 1) \<le> (if leap_year y then 366 else 365)"
    using m by (elim month_cases[of m]) (simp_all add: month_start_value)
  show "first_day y \<le> day_number y m d" "day_number y m d < first_day (y + 1)"
    using day d below month_length(2)[OF m, of "leap_year y"] unfolding first_day_next days_of_leap_year by (auto split: if_splits)
  show "month_of_day (day_number y m d - first_day y) (leap_year y) = m" "date_of_day (day_number y m d - first_day y) (leap_year y) = d"
    unfolding day using d m date_in_month[of "leap_year y" m "month_start (leap_year y) m + d - 1"] by simp_all
qed

lemma clock_parts:
  assumes "clock h mi s ms"
  defines "r \<equiv> ((h * 60 + mi) * 60 + s) * 1000 + ms"
  shows "(k * 86400000 + r) div 86400000 = k" "(k * 86400000 + r) div 3600000 mod 24 = h" "(k * 86400000 + r) div 60000 mod 60 = mi"
    "(k * 86400000 + r) div 1000 mod 60 = s" "(k * 86400000 + r) mod 1000 = ms"
proof -
  have b: "0 \<le> h" "h \<le> 23" "0 \<le> mi" "mi \<le> 59" "0 \<le> s" "s \<le> 59" "0 \<le> ms" "ms \<le> 999" using assms(1) by (auto simp: clock_def)
  have part: "(q * m + x) div m = q" "(q * m + x) mod m = x" if "0 \<le> x" "x < m" for q m x :: int
    using that by simp_all
  define n a b c where "n = k * 86400000 + r" and "a = ((k * 24 + h) * 60 + mi) * 60 + s" and "b = (k * 24 + h) * 60 + mi" and "c = k * 24 + h"
  have "n = a * 1000 + ms" by (simp add: n_def a_def r_def)
  then have n: "n div 1000 = a" "n mod 1000 = ms" using part[of ms 1000 a] b by simp_all
  have a: "a div 60 = b" "a mod 60 = s" using part[of s 60 b] b unfolding a_def b_def by simp_all
  have "b div 60 = c" "b mod 60 = mi" "c div 24 = k" "c mod 24 = h" using part[of mi 60 c] part[of h 24 k] b unfolding b_def c_def by simp_all
  then show "(k * 86400000 + r) div 86400000 = k" "(k * 86400000 + r) div 3600000 mod 24 = h" "(k * 86400000 + r) div 60000 mod 60 = mi"
    "(k * 86400000 + r) div 1000 mod 60 = s" "(k * 86400000 + r) mod 1000 = ms"
    unfolding n_def[symmetric] div_units n a by simp_all
qed

lemma civil_fields:
  assumes "civil y m d" "clock h mi s ms" "in_range (of_int (civil_time y m d h mi s ms))"
  shows "has_fields (of_int (civil_time y m d h mi s ms)) y m d h mi s ms"
proof -
  note parts = clock_parts[OF assms(2), of "day_number y m d", folded civil_time_def]
  have day: "Day (of_int (civil_time y m d h mi s ms)) = day_number y m d" using parts(1) by (simp only: time_parts_int)
  note f = fields_of_day[OF assms(3), of y, unfolded day, OF civil_day(1,2)[OF assms(1)]]
  show ?thesis unfolding has_fields_def using f civil_day(3,4)[OF assms(1)] parts by (simp only: time_parts_int simp_thms)
qed

lemma fields_civil:
  assumes "in_range (of_int n)"
  obtains y m d h mi s ms where "has_fields (of_int n) y m d h mi s ms" "civil y m d" "clock h mi s ms" "n = civil_time y m d h mi s ms" "\<bar>y\<bar> \<le> 300000"
proof -
  obtain y where y: "first_day y \<le> Day (of_int n)" "Day (of_int n) < first_day (y + 1)" by (rule YearFromTime_year[OF assms])
  define k where "k = Day (of_int n) - first_day y"
  let ?m = "month_of_day k (leap_year y)" and ?d = "date_of_day k (leap_year y)"
  have k: "0 \<le> k" "k < (if leap_year y then 366 else 365)" using y days_of_leap_year[of y] by (simp_all add: k_def first_day_next)
  note m = month_of_day_bounds[OF k] and range = month_of_day_range[of k "leap_year y"]
  have d: "?d = k - month_start (leap_year y) ?m + 1" by (rule date_in_month(2)[OF m range])
  have civil: "civil y ?m ?d" using m range d by (simp add: civil_def)
  have "day_number y ?m ?d = Day (of_int n)" using d day_number_month[OF range] by (simp add: k_def)
  then have day: "day_number y ?m ?d = n div 86400000" by (simp only: time_parts_int)
  have clock: "clock (n div 3600000 mod 24) (n div 60000 mod 60) (n div 1000 mod 60) (n mod 1000)"
    using time_parts_range[of n] unfolding clock_def by blast
  have flat: "x = k * 86400000 + (((h * 60 + mi) * 60 + s) * 1000 + ms)" if "x = (((k * 24 + h) * 60 + mi) * 60 + s) * 1000 + ms"
    for x k h mi s ms :: int using that by simp
  have time: "n = civil_time y ?m ?d (n div 3600000 mod 24) (n div 60000 mod 60) (n div 1000 mod 60) (n mod 1000)"
    unfolding civil_time_def day by (rule flat[OF time_of_parts])
  have "has_fields (of_int n) y ?m ?d (n div 3600000 mod 24) (n div 60000 mod 60) (n div 1000 mod 60) (n mod 1000)" "\<bar>y\<bar> \<le> 300000"
    unfolding has_fields_def time_parts_int(1-4) k_def using fields_of_day[OF assms y] by simp_all
  from that[OF this(1) civil clock time this(2)] show ?thesis .
qed

section \<open>The properties of the calendar\<close>

text \<open>
  C33: Every time that is a date has one year, month, day, hour, minute, second and millisecond, all
  in their ranges, and making a time of these fields gives the time back; its weekday is counted
  from the Thursday that was day 0.
\<close>

theorem calendar_roundtrip:
  assumes "in_range (of_int n)"
  shows "\<exists>y m d h mi s ms. has_fields (of_int n) y m d h mi s ms \<and> civil y m d \<and> clock h mi s ms
    \<and> date_msecFromDate (of_int y) (of_int m) (of_int d) (of_int h) (of_int mi) (of_int s) (of_int ms) = Some (of_int n)
    \<and> WeekDay (of_int n) = Some ((Day (of_int n) + 4) mod 7)"
proof -
  obtain y m d h mi s ms where f: "has_fields (of_int n) y m d h mi s ms" "civil y m d" "clock h mi s ms"
    "n = civil_time y m d h mi s ms" "\<bar>y\<bar> \<le> 300000"
    by (rule fields_civil[OF assms])
  have "m div 12 = 0" using f(2) by (auto simp: civil_def)
  then have "\<bar>y + m div 12\<bar> \<le> 2147483647" using f(5) by simp
  from date_msecFromDate_int[OF this, of d h mi s ms, folded f(4)] show ?thesis
    using f(1-3) WeekDay_mod[OF assms] by blast
qed

theorem calendar_roundtrip_witness:
  "\<exists>y m d h mi s ms. has_fields (of_int (- 1)) y m d h mi s ms \<and> civil y m d \<and> clock h mi s ms
    \<and> date_msecFromDate (of_int y) (of_int m) (of_int d) (of_int h) (of_int mi) (of_int s) (of_int ms) = Some (of_int (- 1))
    \<and> WeekDay (of_int (- 1)) = Some ((Day (of_int (- 1)) + 4) mod 7)"
  by (rule calendar_roundtrip) (simp add: in_range_def)

lemma start_years:
  "0 \<le> w \<Longrightarrow> w \<le> 6 \<Longrightarrow> (let y = yearStartingWith leap ! nat w in
    1971 \<le> y \<and> y \<le> 1996 \<and> leap_year y = leap \<and> (first_day y + 4) mod 7 = w)" for w :: int
proof -
  assume "0 \<le> w" "w \<le> 6"
  then have "w \<in> {0..6}" by simp
  also have "{0..6} = {0, 1, 2, 3, 4, 5, 6 :: int}" by (simp add: simp_from_to)
  finally show ?thesis
    by (cases leap) (auto simp: yearStartingWith_def leap_year_def DaysInYear_def first_day_def Let_def)
qed

lemma equivalent_year_same_weekdays_at:
  assumes "\<bar>y\<bar> \<le> 300000"
  shows "\<exists>y'. EquivalentYearForDST y = Some y' \<and> 1971 \<le> y' \<and> y' \<le> 1996 \<and> DaysInYear y' = DaysInYear y
    \<and> (\<forall>m d. 0 \<le> m \<and> m \<le> 11 \<longrightarrow> (day_number y' m d + 4) mod 7 = (day_number y m d + 4) mod 7)"
proof -
  define w where "w = (first_day y + 4) mod 7"
  have "\<bar>first_day y\<bar> \<le> 400000000"
    using first_day_bounds[of "y - 1970"] assms by (simp add: abs_le_iff)
  then have ints: "jsint (365 * (y - 1970)) = Some (365 * (y - 1970))" "jsint (first_day y) = Some (first_day y)"
    "jsint (first_day y + 4) = Some (first_day y + 4)"
    using assms by (simp_all add: jsint_def abs_le_iff)
  have "(if k smod 7 < 0 then k smod 7 + 7 else k smod 7) = k mod 7" for k :: int using smod_week[of k] by (simp add: Let_def)
  then have run: "EquivalentYearForDST y = Some (yearStartingWith (leap_year y) ! nat w)"
    unfolding EquivalentYearForDST_def DayFromYear_int_def DayFromYear_first ints Option.bind.bind_lunit trunc_of_int Let_def w_def leap_year_def
    by simp
  define y' where "y' = yearStartingWith (leap_year y) ! nat w"
  have y': "1971 \<le> y'" "y' \<le> 1996" "leap_year y' = leap_year y" "(first_day y' + 4) mod 7 = (first_day y + 4) mod 7"
    using start_years[of w "leap_year y"] pos_mod_bound[of 7 "first_day y + 4"] unfolding w_def y'_def Let_def by simp_all
  have "(day_number y' m d + 4) mod 7 = (day_number y m d + 4) mod 7" if "0 \<le> m" "m \<le> 11" for m d
  proof -
    let ?k = "month_start (leap_year y) m + d - 1"
    have "day_number y' m d + 4 = (first_day y' + 4) + ?k" "day_number y m d + 4 = (first_day y + 4) + ?k"
      using day_number_month[OF that] y'(3) by simp_all
    then show ?thesis using y'(4) by (metis mod_add_left_eq)
  qed
  then show ?thesis using run y' by (auto simp: y'_def[symmetric] days_of_leap_year)
qed

text \<open>
  C34: The year in which the code looks up daylight saving for a year that the operating system may
  not know lies between 1971 and 1996 and has the same days of the week at the same dates.
\<close>

theorem equivalent_year_same_weekdays:
  assumes "\<bar>y\<bar> \<le> 300000"
  shows "\<exists>y'. EquivalentYearForDST y = Some y' \<and> 1971 \<le> y' \<and> y' \<le> 1996 \<and> DaysInYear y' = DaysInYear y
    \<and> (\<forall>m d. 0 \<le> m \<and> m \<le> 11 \<longrightarrow> (day_number y' m d + 4) mod 7 = (day_number y m d + 4) mod 7)"
  by (rule equivalent_year_same_weekdays_at[OF assms])

theorem equivalent_year_same_weekdays_witness:
  "\<exists>y'. EquivalentYearForDST 2040 = Some y' \<and> 1971 \<le> y' \<and> y' \<le> 1996 \<and> DaysInYear y' = DaysInYear 2040
    \<and> (\<forall>m d. 0 \<le> m \<and> m \<le> 11 \<longrightarrow> (day_number y' m d + 4) mod 7 = (day_number 2040 m d + 4) mod 7)"
  by (rule equivalent_year_same_weekdays) simp

end
