(* ===== verification/JS_Printf.thy ===== *)
theory JS_Printf
  imports JS_Utf8 JS_Date
begin

text \<open>
  The formatted output of js/src/jsprf.c: the conversions of integers and strings, numbered arguments
  (\<open>%1$d\<close>), the loop over the format (\<open>dosprintf\<close>), the three routines that take the output (a
  function, a buffer that grows, a buffer with a limit) and what is built of them. Strings are bytes,
  in UTF-8; a format ends with a null byte in its list.
\<close>

section \<open>Output routines\<close>

text \<open>
  \<open>Failed\<close>: the routine has returned a negative number, and left its state. \<open>Undefined\<close>: a read past the end of the
  format, an argument of another type than the conversion, an overflow.
\<close>

datatype 's printf_error = Failed 's | Undefined

type_synonym 's stuff = "'s \<Rightarrow> u8 list \<Rightarrow> 's printf_error + 's"

definition b8 :: "char \<Rightarrow> u8" where "b8 c = of_char c"

primrec stuff_times :: "'s stuff \<Rightarrow> nat \<Rightarrow> u8 \<Rightarrow> 's \<Rightarrow> 's printf_error + 's" where
  "stuff_times stuff 0 c ss = Inr ss"
| "stuff_times stuff (Suc n) c ss = bind_sum (stuff ss [c]) (stuff_times stuff n c)"

section \<open>Filling\<close>

record print_flags =
  FLAG_LEFT :: bool
  FLAG_SIGNED :: bool
  FLAG_SPACED :: bool
  FLAG_ZEROS :: bool
  FLAG_NEG :: bool

definition fill2 :: "'s stuff \<Rightarrow> 's \<Rightarrow> u8 list \<Rightarrow> int \<Rightarrow> print_flags \<Rightarrow> 's printf_error + 's" where
  "fill2 stuff ss src width flags =
     (let width = width - int (length src)
      in bind_sum (if 0 < width \<and> \<not> FLAG_LEFT flags
                   then stuff_times stuff (nat width) (if FLAG_ZEROS flags then b8 CHR ''0'' else b8 CHR '' '') ss
                   else Inr ss)
           (\<lambda>ss. bind_sum (stuff ss src)
              (\<lambda>ss. if 0 < width \<and> FLAG_LEFT flags then stuff_times stuff (nat width) (b8 CHR '' '') ss else Inr ss)))"

definition fill_sign :: "int \<Rightarrow> print_flags \<Rightarrow> u8 list" where
  "fill_sign type flags =
     (if even type
      then (if FLAG_NEG flags then [b8 CHR ''-'']
            else if FLAG_SIGNED flags then [b8 CHR ''+'']
            else if FLAG_SPACED flags then [b8 CHR '' ''] else [])
      else [])"

definition fill_n :: "'s stuff \<Rightarrow> 's \<Rightarrow> u8 list \<Rightarrow> int \<Rightarrow> int \<Rightarrow> int \<Rightarrow> print_flags \<Rightarrow> 's printf_error + 's" where
  "fill_n stuff ss src width prec type flags =
     (let srclen = int (length src);
          sign = fill_sign type flags;
          cvtwidth = int (length sign) + srclen;
          precwidth = (if 0 < prec \<and> srclen < prec then prec - srclen else 0);
          cvtwidth = cvtwidth + precwidth;
          zerowidth = (if FLAG_ZEROS flags \<and> prec < 0 \<and> cvtwidth < width then width - cvtwidth else 0);
          cvtwidth = cvtwidth + zerowidth;
          rightspaces = (if FLAG_LEFT flags \<and> cvtwidth < width then width - cvtwidth else 0);
          leftspaces = (if \<not> FLAG_LEFT flags \<and> cvtwidth < width then width - cvtwidth else 0)
      in bind_sum (stuff_times stuff (nat leftspaces) (b8 CHR '' '') ss)
           (\<lambda>ss. bind_sum (if sign = [] then Inr ss else stuff ss sign)
           (\<lambda>ss. bind_sum (stuff_times stuff (nat precwidth) (b8 CHR ''0'') ss)
           (\<lambda>ss. bind_sum (stuff_times stuff (nat zerowidth) (b8 CHR ''0'') ss)
           (\<lambda>ss. bind_sum (stuff ss src)
           (stuff_times stuff (nat rightspaces) (b8 CHR '' '')))))))"

section \<open>Conversions\<close>

definition hex :: "u8 list" where "hex = map b8 ''0123456789abcdef''"
definition HEX :: "u8 list" where "HEX = map b8 ''0123456789ABCDEF''"

text \<open>The digits of a number, which is unsigned here, in a radix that is 8, 10 or 16, before those of \<open>cvt\<close>.\<close>

fun cvt_digits :: "nat \<Rightarrow> u8 list \<Rightarrow> nat \<Rightarrow> u8 list \<Rightarrow> u8 list" where
  "cvt_digits radix hexp num cvt =
     (if num = 0 \<or> radix < 2 then cvt
      else cvt_digits radix hexp (num div radix) (hexp ! (num mod radix mod 16) # cvt))"

declare cvt_digits.simps [simp del]

definition cvt_l :: "'s stuff \<Rightarrow> 's \<Rightarrow> nat \<Rightarrow> int \<Rightarrow> int \<Rightarrow> nat \<Rightarrow> int \<Rightarrow> print_flags \<Rightarrow> u8 list \<Rightarrow> 's printf_error + 's" where
  "cvt_l stuff ss num width prec radix type flags hexp =
     (if prec = 0 \<and> num = 0 then Inr ss
      else let cvt = cvt_digits radix hexp num [];
               cvt = (if cvt = [] then [b8 CHR ''0''] else cvt)
           in fill_n stuff ss cvt width prec type flags)"

definition cvt_ll :: "'s stuff \<Rightarrow> 's \<Rightarrow> nat \<Rightarrow> int \<Rightarrow> int \<Rightarrow> nat \<Rightarrow> int \<Rightarrow> print_flags \<Rightarrow> u8 list \<Rightarrow> 's printf_error + 's" where
  "cvt_ll stuff ss num width prec radix type flags hexp =
     (if prec = 0 \<and> num = 0 then Inr ss
      else let cvt = cvt_digits radix hexp num [];
               cvt = (if cvt = [] then [b8 CHR ''0''] else cvt)
           in fill_n stuff ss cvt width prec type flags)"

definition cvt_s :: "'s stuff \<Rightarrow> 's \<Rightarrow> u8 list option \<Rightarrow> int \<Rightarrow> int \<Rightarrow> print_flags \<Rightarrow> 's printf_error + 's" where
  "cvt_s stuff ss s width prec flags =
     (if prec = 0 then Inr ss
      else let s = (case s of None \<Rightarrow> map b8 ''(null)'' | Some s \<Rightarrow> s);
               slen = (if 0 < prec \<and> prec < int (length s) then nat prec else length s)
           in fill2 stuff ss (take slen s) width flags)"

text \<open>What the conversions depend on: the allocator, and the system's \<open>sprintf\<close> of a double.\<close>

record printf_env =
  allocator :: "nat \<Rightarrow> bool"
  native_sprintf :: "u8 list \<Rightarrow> jsdouble \<Rightarrow> u8 list"

definition cvt_ws :: "printf_env \<Rightarrow> 's stuff \<Rightarrow> 's \<Rightarrow> u16 list option \<Rightarrow> int \<Rightarrow> int \<Rightarrow> print_flags \<Rightarrow> 's printf_error + 's" where
  "cvt_ws env stuff ss ws width prec flags =
     (case ws of
        Some ws \<Rightarrow>
          (case js_DeflateString_utf8 (allocator env) ws of
             None \<Rightarrow> Inl (Failed ss)
           | Some s \<Rightarrow> cvt_s stuff ss (Some s) width prec flags)
      | None \<Rightarrow> cvt_s stuff ss None width prec flags)"

text \<open>The directive is copied to 20 bytes, and its result, with a null byte, to 300.\<close>

definition cvt_f :: "printf_env \<Rightarrow> 's stuff \<Rightarrow> 's \<Rightarrow> jsdouble \<Rightarrow> u8 list \<Rightarrow> 's printf_error + 's" where
  "cvt_f env stuff ss d directive =
     (if 20 \<le> length directive then Inr ss
      else let fout = native_sprintf env directive d
           in if 300 \<le> length fout then Inl Undefined else stuff ss fout)"

section \<open>Directives\<close>

datatype print_arg =
  Int_Arg int | Long_Long_Arg int | Double_Arg jsdouble | String_Arg "u8 list option" | Wide_Arg "u16 list option" | Pointer_Arg bool

definition TYPE_INT16 :: int where "TYPE_INT16 = 0"
definition TYPE_INTN :: int where "TYPE_INTN = 2"
definition TYPE_INT32 :: int where "TYPE_INT32 = 4"
definition TYPE_INT64 :: int where "TYPE_INT64 = 6"

record print_spec =
  spec_flags :: print_flags
  spec_width :: int
  spec_prec :: int
  spec_type :: int

fun scan_flags :: "print_flags \<Rightarrow> u8 list \<Rightarrow> (print_flags \<times> u8 list) option" where
  "scan_flags flags [] = None"
| "scan_flags flags (c # fmt) =
     (if c = b8 CHR ''-'' then scan_flags (flags\<lparr>FLAG_LEFT := True\<rparr>) fmt
      else if c = b8 CHR ''+'' then scan_flags (flags\<lparr>FLAG_SIGNED := True\<rparr>) fmt
      else if c = b8 CHR '' '' then scan_flags (flags\<lparr>FLAG_SPACED := True\<rparr>) fmt
      else if c = b8 CHR ''0'' then scan_flags (flags\<lparr>FLAG_ZEROS := True\<rparr>) fmt
      else let flags = (if FLAG_SIGNED flags then flags\<lparr>FLAG_SPACED := False\<rparr> else flags);
               flags = (if FLAG_LEFT flags then flags\<lparr>FLAG_ZEROS := False\<rparr> else flags)
           in Some (flags, c # fmt))"

fun scan_int :: "int \<Rightarrow> u8 list \<Rightarrow> (int \<times> u8 list) option" where
  "scan_int n [] = None"
| "scan_int n (c # fmt) =
     (if b8 CHR ''0'' \<le> c \<and> c \<le> b8 CHR ''9''
      then do { n \<leftarrow> jsint (n * 10); n \<leftarrow> jsint (n + (uint c - 48)); scan_int n fmt }
      else Some (n, c # fmt))"

text \<open>A width or a precision: the next argument for a star, or a number.\<close>

definition star_or_int :: "u8 list \<Rightarrow> print_arg list \<Rightarrow> (int \<times> u8 list \<times> print_arg list) option" where
  "star_or_int fmt args =
     (case fmt of
        [] \<Rightarrow> None
      | c # fmt' \<Rightarrow>
          if c = b8 CHR ''*''
          then (case args of Int_Arg n # args \<Rightarrow> Some (n, fmt', args) | _ \<Rightarrow> None)
          else do { (n, fmt) \<leftarrow> scan_int 0 fmt; Some (n, fmt, args) })"

fun scan_prec :: "u8 list \<Rightarrow> print_arg list \<Rightarrow> (int \<times> u8 list \<times> print_arg list) option" where
  "scan_prec [] args = None"
| "scan_prec (c # fmt) args = (if c = b8 CHR ''.'' then star_or_int fmt args else Some (- 1, c # fmt, args))"

fun scan_size :: "u8 list \<Rightarrow> (int \<times> u8 list) option" where
  "scan_size [] = None"
| "scan_size (c # fmt) =
     (if c = b8 CHR ''h'' then Some (TYPE_INT16, fmt)
      else if c = b8 CHR ''L'' then Some (TYPE_INT64, fmt)
      else if c = b8 CHR ''l''
      then (case fmt of
              [] \<Rightarrow> None
            | c # fmt' \<Rightarrow> if c = b8 CHR ''l'' then Some (TYPE_INT64, fmt') else Some (TYPE_INT32, fmt))
      else Some (TYPE_INTN, c # fmt))"

definition no_flags :: print_flags where
  "no_flags = \<lparr>FLAG_LEFT = False, FLAG_SIGNED = False, FLAG_SPACED = False, FLAG_ZEROS = False, FLAG_NEG = False\<rparr>"

definition scan_spec :: "u8 list \<Rightarrow> print_arg list \<Rightarrow> (print_spec \<times> u8 list \<times> print_arg list) option" where
  "scan_spec fmt args = do {
     (flags, fmt) \<leftarrow> scan_flags no_flags fmt;
     (width, fmt, args) \<leftarrow> star_or_int fmt args;
     (prec, fmt, args) \<leftarrow> scan_prec fmt args;
     (type, fmt) \<leftarrow> scan_size fmt;
     Some (\<lparr>spec_flags = flags, spec_width = width, spec_prec = prec, spec_type = type\<rparr>, fmt, args) }"

section \<open>The loop over the format\<close>

text \<open>Fetching an integer of a type and converting it; signed types are even.\<close>

definition convert_int ::
  "'s stuff \<Rightarrow> 's \<Rightarrow> print_spec \<Rightarrow> int \<Rightarrow> nat \<Rightarrow> u8 list \<Rightarrow> print_arg list \<Rightarrow> 's printf_error + 's \<times> print_arg list" where
  "convert_int stuff ss spec type radix hexp args =
     (let flags = spec_flags spec;
          signed = (\<lambda>n. if n < 0 then (nat (- n), flags\<lparr>FLAG_NEG := True\<rparr>) else (nat n, flags));
          width = spec_width spec; prec = spec_prec spec
      in case args of
           Int_Arg n # args \<Rightarrow>
             if type = TYPE_INT16 \<or> type = TYPE_INTN \<or> type = TYPE_INT32
             then (let (num, flags) = signed n
                   in bind_sum (cvt_l stuff ss num width prec radix type flags hexp) (\<lambda>ss. Inr (ss, args)))
             else if type = TYPE_INT16 + 1
             then bind_sum (cvt_l stuff ss (nat (n mod 65536)) width prec radix type flags hexp) (\<lambda>ss. Inr (ss, args))
             else if type = TYPE_INTN + 1 \<or> type = TYPE_INT32 + 1
             then bind_sum (cvt_l stuff ss (nat (n mod 4294967296)) width prec radix type flags hexp) (\<lambda>ss. Inr (ss, args))
             else Inl Undefined
         | Long_Long_Arg n # args \<Rightarrow>
             if type = TYPE_INT64
             then (let (num, flags) = signed n
                   in bind_sum (cvt_ll stuff ss num width prec radix type flags hexp) (\<lambda>ss. Inr (ss, args)))
             else if type = TYPE_INT64 + 1
             then bind_sum (cvt_ll stuff ss (nat (n mod 18446744073709551616)) width prec radix type flags hexp) (\<lambda>ss. Inr (ss, args))
             else Inl Undefined
         | _ \<Rightarrow> Inl Undefined)"

definition convert_char :: "'s stuff \<Rightarrow> 's \<Rightarrow> print_spec \<Rightarrow> print_arg list \<Rightarrow> 's printf_error + 's \<times> print_arg list" where
  "convert_char stuff ss spec args =
     (let left = FLAG_LEFT (spec_flags spec); pad = nat (spec_width spec - 1); type = spec_type spec
      in bind_sum (if \<not> left then stuff_times stuff pad (b8 CHR '' '') ss else Inr ss)
           (\<lambda>ss. bind_sum
             (if type = TYPE_INT16
              then (case args of
                      Int_Arg n # args \<Rightarrow>
                        bind_sum (stuff ss (js_OneUcs4ToUtf8Char (ucast (of_int n :: u16)))) (\<lambda>ss. Inr (ss, args))
                    | _ \<Rightarrow> Inl Undefined)
              else if type = TYPE_INTN
              then (case args of
                      Int_Arg n # args \<Rightarrow> bind_sum (stuff ss [of_int n]) (\<lambda>ss. Inr (ss, args))
                    | _ \<Rightarrow> Inl Undefined)
              else Inr (ss, args))
           (\<lambda>(ss, args). bind_sum (if left then stuff_times stuff pad (b8 CHR '' '') ss else Inr ss)
             (\<lambda>ss. Inr (ss, args)))))"

text \<open>A directive whose conversion is \<open>c\<close>; pointers have 64 bits. \<open>counts\<close> is what \<open>%n\<close> has stored.\<close>

definition convert ::
  "printf_env \<Rightarrow> 's stuff \<Rightarrow> ('s \<Rightarrow> int) \<Rightarrow> u8 list \<Rightarrow> u8 \<Rightarrow> print_spec \<Rightarrow> print_arg list \<Rightarrow> int list \<Rightarrow> 's
    \<Rightarrow> 's printf_error + 's \<times> print_arg list \<times> int list" where
  "convert env stuff pos directive c spec args counts ss =
     (let type = spec_type spec; utype = (if even type then type + 1 else type);
          keep = (\<lambda>(ss, args). Inr (ss, args, counts));
          width = spec_width spec; prec = spec_prec spec; flags = spec_flags spec
      in if c = b8 CHR ''d'' \<or> c = b8 CHR ''i'' then bind_sum (convert_int stuff ss spec type 10 hex args) keep
         else if c = b8 CHR ''o'' then bind_sum (convert_int stuff ss spec utype 8 hex args) keep
         else if c = b8 CHR ''u'' then bind_sum (convert_int stuff ss spec utype 10 hex args) keep
         else if c = b8 CHR ''x'' then bind_sum (convert_int stuff ss spec utype 16 hex args) keep
         else if c = b8 CHR ''X'' then bind_sum (convert_int stuff ss spec utype 16 HEX args) keep
         else if c = b8 CHR ''e'' \<or> c = b8 CHR ''E'' \<or> c = b8 CHR ''f'' \<or> c = b8 CHR ''g''
         then (case args of
                 Double_Arg d # args \<Rightarrow> bind_sum (cvt_f env stuff ss d directive) (\<lambda>ss. Inr (ss, args, counts))
               | _ \<Rightarrow> Inl Undefined)
         else if c = b8 CHR ''c'' then bind_sum (convert_char stuff ss spec args) keep
         else if c = b8 CHR ''p'' then bind_sum (convert_int stuff ss spec (TYPE_INT64 + 1) 16 hex args) keep
         else if c = b8 CHR ''s''
         then (if type = TYPE_INT16
               then (case args of
                       Wide_Arg ws # args \<Rightarrow> bind_sum (cvt_ws env stuff ss ws width prec flags) (\<lambda>ss. Inr (ss, args, counts))
                     | _ \<Rightarrow> Inl Undefined)
               else (case args of
                       String_Arg s # args \<Rightarrow> bind_sum (cvt_s stuff ss s width prec flags) (\<lambda>ss. Inr (ss, args, counts))
                     | _ \<Rightarrow> Inl Undefined))
         else if c = b8 CHR ''n''
         then (case args of
                 Pointer_Arg valid # args \<Rightarrow> Inr (ss, args, if valid then counts @ [pos ss] else counts)
               | _ \<Rightarrow> Inl Undefined)
         else bind_sum (stuff ss [b8 CHR ''%'']) (\<lambda>ss. bind_sum (stuff ss [c]) (\<lambda>ss. Inr (ss, args, counts))))"

lemma scan_flags_length: "scan_flags flags fmt = Some (flags', fmt') \<Longrightarrow> length fmt' \<le> length fmt"
  by (induction flags fmt rule: scan_flags.induct) (auto simp: Let_def split: if_splits)

lemma scan_int_length: "scan_int n fmt = Some (n', fmt') \<Longrightarrow> length fmt' \<le> length fmt"
proof (induction fmt arbitrary: n)
  case (Cons c fmt)
  then show ?case by (auto split: if_splits Option.bind_splits intro: le_SucI)
qed simp

lemma star_or_int_length: "star_or_int fmt args = Some (n, fmt', args') \<Longrightarrow> length fmt' \<le> length fmt"
  by (auto simp: star_or_int_def simp del: scan_int.simps
      split: list.splits print_arg.splits if_splits Option.bind_splits dest!: scan_int_length)

lemma scan_prec_length: "scan_prec fmt args = Some (n, fmt', args') \<Longrightarrow> length fmt' \<le> length fmt"
  by (cases fmt) (auto split: if_splits dest!: star_or_int_length)

lemma scan_size_length: "scan_size fmt = Some (n, fmt') \<Longrightarrow> length fmt' \<le> length fmt"
  by (cases fmt) (auto split: if_splits list.splits)

lemma scan_spec_length: "scan_spec fmt args = Some (spec, fmt', args') \<Longrightarrow> length fmt' \<le> length fmt"
  by (auto simp: scan_spec_def split: Option.bind_splits dest!: scan_flags_length star_or_int_length scan_prec_length scan_size_length)

subsection \<open>Numbered arguments\<close>

text \<open>
  \<open>BuildArgArray\<close> goes over the format twice, and then over the arguments. In the results of the
  passes \<open>None\<close> is undefined behaviour (a read past the end of the format, an overflow, an argument
  of another type), and \<open>Some None\<close> the error \<open>*rv = -1\<close>.
\<close>

definition TYPE_STRING :: int where "TYPE_STRING = 8"
definition TYPE_DOUBLE :: int where "TYPE_DOUBLE = 9"
definition TYPE_INTSTR :: int where "TYPE_INTSTR = 10"
definition TYPE_WSTRING :: int where "TYPE_WSTRING = 11"
definition TYPE_UNKNOWN :: int where "TYPE_UNKNOWN = 20"

definition is_digit :: "u8 \<Rightarrow> bool" where "is_digit c \<longleftrightarrow> b8 CHR ''0'' \<le> c \<and> c \<le> b8 CHR ''9''"

text \<open>The first pass counts the directives, which all or none must be numbered; \<open>plain\<close> is \<open>i > 0\<close>.\<close>

function first_pass :: "u8 list \<Rightarrow> bool \<Rightarrow> nat \<Rightarrow> nat option option" where
  "first_pass [] plain number = None"
| "first_pass (c # fmt) plain number =
     (if c = 0 then Some (Some number)
      else if c \<noteq> b8 CHR ''%'' then first_pass fmt plain number
      else case fmt of
             [] \<Rightarrow> None
           | c # fmt' \<Rightarrow>
               if c = b8 CHR ''%'' then first_pass fmt' plain number
               else (case dropWhile is_digit fmt of
                       [] \<Rightarrow> None
                     | c # fmt'' \<Rightarrow>
                         if c = 0 then first_pass fmt'' plain number
                         else if c = b8 CHR ''$''
                         then (if plain then Some None else first_pass fmt'' plain (number + 1))
                         else if 0 < number then Some None else first_pass fmt'' True number))"
  by pat_completeness auto

lemma dropWhile_length: "length (dropWhile p xs) \<le> length xs"
  by (induction xs) auto

lemma dropWhile_shorter: "dropWhile p xs = c # ys \<Longrightarrow> length ys < length xs"
  using dropWhile_length[of p xs] by simp

termination first_pass
  by (relation "measure (\<lambda>(fmt, _). length fmt)") (auto simp del: dropWhile.simps dest!: dropWhile_shorter)

text \<open>The number before a dollar, of whatever characters are there; the character that ends it is given, too.\<close>

fun number_before :: "int \<Rightarrow> u8 list \<Rightarrow> (int \<times> u8 \<times> u8 list) option" where
  "number_before cn [] = None"
| "number_before cn (c # fmt) =
     (if c = 0 \<or> c = b8 CHR ''$'' then Some (cn, c, fmt)
      else do { cn \<leftarrow> jsint (cn * 10); cn \<leftarrow> jsint (cn + sint c); cn \<leftarrow> jsint (cn - 48); number_before cn fmt })"

text \<open>
  The type of the argument of a directive, from after its number on. No flag is known here. The test for
  wide strings looks for an unsigned type, which the size \<open>h\<close> is not.
\<close>

definition conversion_type :: "int \<Rightarrow> u8 \<Rightarrow> int" where
  "conversion_type type c =
     (if c \<in> {b8 CHR ''d'', b8 CHR ''c'', b8 CHR ''i'', b8 CHR ''o'', b8 CHR ''u'', b8 CHR ''x'', b8 CHR ''X''} then type
      else if c \<in> {b8 CHR ''e'', b8 CHR ''f'', b8 CHR ''g''} then TYPE_DOUBLE
      else if c = b8 CHR ''p'' then TYPE_INT64 + 1
      else if c = b8 CHR ''s'' then (if type = TYPE_INT16 + 1 then TYPE_WSTRING else TYPE_STRING)
      else if c = b8 CHR ''n'' then TYPE_INTSTR
      else TYPE_UNKNOWN)"

fun skip_prec :: "u8 list \<Rightarrow> u8 list option" where
  "skip_prec [] = Some []"
| "skip_prec (c # fmt) =
     (if c = b8 CHR ''.''
      then (if fmt \<noteq> [] \<and> hd fmt = b8 CHR ''*'' then None else Some (dropWhile is_digit fmt))
      else Some (c # fmt))"

definition argument_type :: "u8 list \<Rightarrow> (int \<times> u8 list) option option" where
  "argument_type fmt =
     (if fmt \<noteq> [] \<and> hd fmt = b8 CHR ''*'' then Some None
      else case skip_prec (dropWhile is_digit fmt) of
             None \<Rightarrow> Some None
           | Some fmt \<Rightarrow>
               (case scan_size fmt of
                  None \<Rightarrow> None
                | Some (type, []) \<Rightarrow> None
                | Some (type, c # fmt) \<Rightarrow>
                    Some (if conversion_type type c = TYPE_UNKNOWN then None else Some (conversion_type type c, fmt))))"

lemma number_before_length: "number_before cn fmt = Some (n, c, fmt') \<Longrightarrow> length fmt' < length fmt"
proof (induction fmt arbitrary: cn)
  case (Cons c fmt)
  then show ?case by (force split: if_splits Option.bind_splits)
qed simp

lemma skip_prec_length: "skip_prec fmt = Some fmt' \<Longrightarrow> length fmt' \<le> length fmt"
  by (cases fmt) (auto split: if_splits intro: le_SucI dropWhile_length)

lemma argument_type_length:
  assumes "argument_type fmt = Some (Some (type, fmt'))"
  shows "length fmt' \<le> length fmt"
proof -
  obtain fmt1 size c fmt2 where "skip_prec (dropWhile is_digit fmt) = Some fmt1" "scan_size fmt1 = Some (size, c # fmt2)" "fmt' = fmt2"
    using assms unfolding argument_type_def by (auto split: if_splits option.splits list.splits)
  then show ?thesis
    using skip_prec_length[of "dropWhile is_digit fmt" fmt1] scan_size_length[of fmt1 size "c # fmt2"] dropWhile_length[of is_digit fmt] by simp
qed

text \<open>The second pass finds the type of each number's argument; only its first directive counts.\<close>

function second_pass :: "nat \<Rightarrow> u8 list \<Rightarrow> int list \<Rightarrow> int list option option" where
  "second_pass number [] types = None"
| "second_pass number (c # fmt) types =
     (if c = 0 then Some (Some types)
      else if c \<noteq> b8 CHR ''%'' then second_pass number fmt types
      else case fmt of
             [] \<Rightarrow> None
           | c # fmt' \<Rightarrow>
               if c = b8 CHR ''%'' then second_pass number fmt' types
               else (case number_before 0 fmt of
                       None \<Rightarrow> None
                     | Some (cn, c, fmt1) \<Rightarrow>
                         if c = 0 \<or> cn < 1 \<or> int number < cn then Some None
                         else if types ! nat (cn - 1) \<noteq> TYPE_UNKNOWN then second_pass number fmt1 types
                         else (case argument_type fmt1 of
                                 None \<Rightarrow> None
                               | Some None \<Rightarrow> Some None
                               | Some (Some (type, fmt2)) \<Rightarrow> second_pass number fmt2 (types[nat (cn - 1) := type]))))"
  by pat_completeness auto

termination
  by (relation "measure (\<lambda>(_, fmt, _). length fmt)") (auto simp del: number_before.simps dest!: number_before_length argument_type_length)

text \<open>The third pass fetches the arguments in turn, and keeps where each is.\<close>

definition fetches :: "int \<Rightarrow> print_arg \<Rightarrow> bool" where
  "fetches type arg =
     (case arg of
        Int_Arg _ \<Rightarrow> TYPE_INT16 \<le> type \<and> type \<le> TYPE_INT32 + 1
      | Long_Long_Arg _ \<Rightarrow> type = TYPE_INT64 \<or> type = TYPE_INT64 + 1
      | Double_Arg _ \<Rightarrow> type = TYPE_DOUBLE
      | String_Arg _ \<Rightarrow> type = TYPE_STRING
      | Wide_Arg _ \<Rightarrow> type = TYPE_WSTRING
      | Pointer_Arg _ \<Rightarrow> type = TYPE_INTSTR)"

type_synonym num_args = "(int \<times> print_arg list) list"

fun third_pass :: "int list \<Rightarrow> print_arg list \<Rightarrow> num_args option" where
  "third_pass [] ap = Some []"
| "third_pass (type # types) ap =
     (if type = TYPE_UNKNOWN then map_option ((#) (type, [])) (third_pass types ap)
      else case ap of
             [] \<Rightarrow> None
           | arg # ap' \<Rightarrow> if fetches type arg then map_option ((#) (type, ap)) (third_pass types ap') else None)"

text \<open>The array, or none for a format without numbers. An element of the array has 32 bytes.\<close>

definition NAS_DEFAULT_NUM :: nat where "NAS_DEFAULT_NUM = 20"

definition BuildArgArray :: "printf_env \<Rightarrow> u8 list \<Rightarrow> print_arg list \<Rightarrow> num_args option option option" where
  "BuildArgArray env fmt ap =
     (case first_pass fmt False 0 of
        None \<Rightarrow> None
      | Some None \<Rightarrow> Some None
      | Some (Some number) \<Rightarrow>
          if number = 0 then Some (Some None)
          else if NAS_DEFAULT_NUM < number \<and> \<not> allocator env (number * 32) then Some None
          else (case second_pass number fmt (replicate number TYPE_UNKNOWN) of
                  None \<Rightarrow> None
                | Some None \<Rightarrow> Some None
                | Some (Some types) \<Rightarrow> map_option (\<lambda>nas. Some (Some nas)) (third_pass types ap)))"

text \<open>The number of a directive in the loop over the format, and where its arguments are.\<close>

fun scan_number :: "int \<Rightarrow> u8 list \<Rightarrow> (int \<times> u8 list) option" where
  "scan_number i [] = None"
| "scan_number i (c # fmt) =
     (if c = 0 \<or> c = b8 CHR ''$'' then Some (i, fmt)
      else do { i \<leftarrow> jsint (i * 10); i \<leftarrow> jsint (i + (sint c - 48)); scan_number i fmt })"

definition pick_args :: "num_args option \<Rightarrow> u8 list \<Rightarrow> print_arg list \<Rightarrow> (u8 list \<times> print_arg list) option option" where
  "pick_args nas fmt ap =
     (case nas of
        None \<Rightarrow> Some (Some (fmt, ap))
      | Some nas \<Rightarrow> do {
          (i, fmt) \<leftarrow> scan_number 0 fmt;
          if i < 1 \<or> int (length nas) < i then None
          else let (type, ap) = nas ! nat (i - 1)
               in Some (if type = TYPE_UNKNOWN then None else Some (fmt, ap)) })"

lemma scan_number_length: "scan_number i fmt = Some (n, fmt') \<Longrightarrow> length fmt' \<le> length fmt"
proof (induction fmt arbitrary: i)
  case (Cons c fmt)
  then show ?case by (auto split: if_splits Option.bind_splits intro: le_SucI)
qed simp

lemma pick_args_length: "pick_args nas fmt ap = Some (Some (fmt', ap')) \<Longrightarrow> length fmt' \<le> length fmt"
  by (auto simp: pick_args_def Let_def split: option.splits Option.bind_splits if_splits prod.splits dest: scan_number_length)

subsection \<open>The loop\<close>

text \<open>Between two directives and in them the format is what is left of it; past its null byte nothing is.\<close>

function dosprintf_loop ::
  "printf_env \<Rightarrow> 's stuff \<Rightarrow> ('s \<Rightarrow> int) \<Rightarrow> num_args option \<Rightarrow> u8 list \<Rightarrow> print_arg list \<Rightarrow> int list \<Rightarrow> 's
    \<Rightarrow> 's printf_error + 's \<times> int list" where
  "dosprintf_loop env stuff pos nas [] args counts ss = Inl Undefined"
| "dosprintf_loop env stuff pos nas (c # fmt) args counts ss =
     (if c = 0 then bind_sum (stuff ss [0]) (\<lambda>ss. Inr (ss, counts))
      else if c \<noteq> b8 CHR ''%''
      then (case stuff ss [c] of Inl e \<Rightarrow> Inl e | Inr ss \<Rightarrow> dosprintf_loop env stuff pos nas fmt args counts ss)
      else case fmt of
             [] \<Rightarrow> Inl Undefined
           | c # fmt' \<Rightarrow>
               if c = b8 CHR ''%''
               then (case stuff ss [b8 CHR ''%''] of Inl e \<Rightarrow> Inl e | Inr ss \<Rightarrow> dosprintf_loop env stuff pos nas fmt' args counts ss)
               else (case pick_args nas fmt args of
                       None \<Rightarrow> Inl Undefined
                     | Some None \<Rightarrow> Inl (Failed ss)
                     | Some (Some (fmt1, args)) \<Rightarrow>
                         (case scan_spec fmt1 args of
                            None \<Rightarrow> Inl Undefined
                          | Some (spec, [], args) \<Rightarrow> Inl Undefined
                          | Some (spec, c # fmt'', args) \<Rightarrow>
                              (case convert env stuff pos (b8 CHR ''%'' # take (length fmt1 - length fmt'') fmt1) c spec args counts ss of
                                 Inl e \<Rightarrow> Inl e
                               | Inr (ss, args, counts) \<Rightarrow> dosprintf_loop env stuff pos nas fmt'' args counts ss))))"
  by pat_completeness auto

termination
  by (relation "measure (\<lambda>(_, _, _, _, fmt, _). length fmt)") (auto dest!: scan_spec_length pick_args_length)

definition dosprintf ::
  "printf_env \<Rightarrow> 's stuff \<Rightarrow> ('s \<Rightarrow> int) \<Rightarrow> u8 list \<Rightarrow> print_arg list \<Rightarrow> int list \<Rightarrow> 's \<Rightarrow> 's printf_error + 's \<times> int list" where
  "dosprintf env stuff pos fmt args counts ss =
     (case BuildArgArray env fmt args of
        None \<Rightarrow> Inl Undefined
      | Some None \<Rightarrow> Inl (Failed ss)
      | Some (Some nas) \<Rightarrow> dosprintf_loop env stuff pos nas fmt args counts ss)"

section \<open>The routines and the functions that use them\<close>

text \<open>A function that is called with every piece, and counts the bytes in 32 bits (\<open>JS_sxprintf\<close>).\<close>

record 'a func_state =
  func_arg :: 'a
  func_total :: nat

definition FuncStuff :: "('a \<Rightarrow> u8 list \<Rightarrow> 'a option) \<Rightarrow> 'a func_state stuff" where
  "FuncStuff func ss sp =
     (case func (func_arg ss) sp of
        None \<Rightarrow> Inl (Failed ss)
      | Some a \<Rightarrow> Inr \<lparr>func_arg = a, func_total = (func_total ss + length sp) mod 2 ^ 32\<rparr>)"

text \<open>The result is the length with the null byte, or nothing.\<close>

definition JS_vsxprintf ::
  "printf_env \<Rightarrow> ('a \<Rightarrow> u8 list \<Rightarrow> 'a option) \<Rightarrow> 'a \<Rightarrow> u8 list \<Rightarrow> print_arg list \<Rightarrow> nat option option" where
  "JS_vsxprintf env func a fmt args =
     (case dosprintf env (FuncStuff func) (\<lambda>_. 0) fmt args [] \<lparr>func_arg = a, func_total = 0\<rparr> of
        Inl Undefined \<Rightarrow> None
      | Inl (Failed ss) \<Rightarrow> Some None
      | Inr (ss, counts) \<Rightarrow> Some (Some (func_total ss)))"

text \<open>A buffer that grows: its bytes and its size.\<close>

record grow_state =
  grow_buf :: "u8 list"
  grow_max :: nat

definition GrowStuff :: "(nat \<Rightarrow> bool) \<Rightarrow> grow_state stuff" where
  "GrowStuff am ss sp =
     (let off = length (grow_buf ss); len = length sp
      in if grow_max ss \<le> off + len
         then (let newlen = grow_max ss + (if 32 < len then len else 32)
               in if 2 ^ 32 \<le> newlen then Inl Undefined
                  else if am newlen then Inr \<lparr>grow_buf = grow_buf ss @ sp, grow_max = newlen\<rparr> else Inl (Failed ss))
         else Inr (ss\<lparr>grow_buf := grow_buf ss @ sp\<rparr>))"

definition grow_pos :: "grow_state \<Rightarrow> int" where "grow_pos ss = int (length (grow_buf ss))"

definition JS_vsmprintf :: "printf_env \<Rightarrow> u8 list \<Rightarrow> print_arg list \<Rightarrow> u8 list option option" where
  "JS_vsmprintf env fmt args =
     (case dosprintf env (GrowStuff (allocator env)) grow_pos fmt args [] \<lparr>grow_buf = [], grow_max = 0\<rparr> of
        Inl Undefined \<Rightarrow> None
      | Inl (Failed ss) \<Rightarrow> Some None
      | Inr (ss, counts) \<Rightarrow> Some (Some (grow_buf ss)))"

text \<open>Appending to a string, whose null byte is overwritten.\<close>

definition JS_vsprintf_append :: "printf_env \<Rightarrow> u8 list option \<Rightarrow> u8 list \<Rightarrow> print_arg list \<Rightarrow> u8 list option option" where
  "JS_vsprintf_append env last' fmt args =
     (let start = (case last' of Some s \<Rightarrow> \<lparr>grow_buf = s, grow_max = length s\<rparr> | None \<Rightarrow> \<lparr>grow_buf = [], grow_max = 0\<rparr>)
      in case dosprintf env (GrowStuff (allocator env)) grow_pos fmt args [] start of
           Inl Undefined \<Rightarrow> None
         | Inl (Failed ss) \<Rightarrow> Some None
         | Inr (ss, counts) \<Rightarrow> Some (Some (grow_buf ss)))"

text \<open>A buffer with a limit, past which bytes are dropped.\<close>

record limit_state =
  limit_buf :: "u8 list"
  limit_max :: nat

definition LimitStuff :: "limit_state stuff" where
  "LimitStuff ss sp =
     (let limit = limit_max ss - length (limit_buf ss); len = (if limit < length sp then limit else length sp)
      in Inr (ss\<lparr>limit_buf := limit_buf ss @ take len sp\<rparr>))"

definition limit_pos :: "limit_state \<Rightarrow> int" where "limit_pos ss = int (length (limit_buf ss))"

text \<open>The bytes that are written, and the result. An error of the loop is ignored.\<close>

definition JS_vsnprintf :: "printf_env \<Rightarrow> nat \<Rightarrow> u8 list \<Rightarrow> print_arg list \<Rightarrow> (u8 list \<times> nat) option" where
  "JS_vsnprintf env outlen fmt args =
     (if outlen = 0 \<or> 2 ^ 31 \<le> outlen then Some ([], 0)
      else let finish = (\<lambda>ss.
             let out = limit_buf ss;
                 out = (if out \<noteq> [] \<and> last out \<noteq> 0 then out[length out - 1 := 0] else out);
                 n = length out
             in Some (out, if 0 < n then n - 1 else n))
           in case dosprintf env LimitStuff limit_pos fmt args [] \<lparr>limit_buf = [], limit_max = outlen\<rparr> of
                Inl Undefined \<Rightarrow> None
              | Inl (Failed ss) \<Rightarrow> finish ss
              | Inr (ss, counts) \<Rightarrow> finish ss)"

section \<open>Every routine gets the same bytes\<close>

text \<open>The routine that keeps everything.\<close>

definition stuff_all :: "u8 list stuff" where "stuff_all xs ys = Inr (xs @ ys)"

text \<open>
  What the loop promises to a routine, and what the routine must do: \<open>holds\<close> says that its state is
  that after a stream of bytes; a piece is appended to the stream, unless the routine may fail.
\<close>

locale output_routine =
  fixes stuff :: "'s stuff" and holds :: "'s \<Rightarrow> u8 list \<Rightarrow> bool" and may_fail :: bool
  assumes appends: "holds ss xs \<Longrightarrow> stuff ss ys = Inr ss' \<Longrightarrow> holds ss' (xs @ ys)"
    and fails: "holds ss xs \<Longrightarrow> stuff ss ys = Inl e \<Longrightarrow> may_fail"
begin

definition same :: "('a \<Rightarrow> 'b \<Rightarrow> bool) \<Rightarrow> 's printf_error + 'a \<Rightarrow> u8 list printf_error + 'b \<Rightarrow> bool" where
  "same R r p \<longleftrightarrow>
     (case r of
        Inr a \<Rightarrow> \<exists>b. p = Inr b \<and> R a b
      | Inl Undefined \<Rightarrow> may_fail \<or> p = Inl Undefined
      | Inl (Failed ss) \<Rightarrow> may_fail \<or> (\<exists>ys. p = Inl (Failed ys) \<and> holds ss ys))"

lemma same_simps [simp]:
  "same R (Inr a) (Inr b) \<longleftrightarrow> R a b" "same R (Inl Undefined) (Inl Undefined)"
  "same R (Inl (Failed ss)) (Inl (Failed ys)) \<longleftrightarrow> may_fail \<or> holds ss ys"
  by (simp_all add: same_def)

lemma same_bind:
  assumes "same R r p" "\<And>a b. R a b \<Longrightarrow> same Q (f a) (g b)"
  shows "same Q (bind_sum r f) (bind_sum p g)"
proof (cases r)
  case (Inl e)
  then show ?thesis using assms(1) by (cases e) (auto simp: same_def)
next
  case (Inr a)
  then obtain b where "p = Inr b" "R a b" using assms(1) by (auto simp: same_def)
  then show ?thesis using assms(2)[of a b] Inr by simp
qed

lemma same_if: "(c \<Longrightarrow> same R a b) \<Longrightarrow> (\<not> c \<Longrightarrow> same R a' b') \<Longrightarrow> same R (if c then a else a') (if c then b else b')"
  by simp

lemma same_stuff: "holds ss xs \<Longrightarrow> same holds (stuff ss ys) (stuff_all xs ys)"
  using appends[of ss xs ys] fails[of ss xs ys]
  by (auto simp: same_def stuff_all_def split: sum.split printf_error.split)

lemma same_times: "holds ss xs \<Longrightarrow> same holds (stuff_times stuff n c ss) (stuff_times stuff_all n c xs)"
  by (induction n arbitrary: ss xs) (auto intro: same_bind same_stuff)

lemma same_fill2: "holds ss xs \<Longrightarrow> same holds (fill2 stuff ss src width flags) (fill2 stuff_all xs src width flags)"
  unfolding fill2_def Let_def by (intro same_bind[where R = holds]) (auto intro: same_stuff same_times)

lemma same_fill_n: "holds ss xs \<Longrightarrow> same holds (fill_n stuff ss src width prec type flags) (fill_n stuff_all xs src width prec type flags)"
  unfolding fill_n_def Let_def by (intro same_bind[where R = holds]) (auto intro: same_stuff same_times)

lemma same_cvt_l: "holds ss xs \<Longrightarrow> same holds (cvt_l stuff ss num width prec radix type flags hexp) (cvt_l stuff_all xs num width prec radix type flags hexp)"
  unfolding cvt_l_def Let_def by (auto intro: same_fill_n)

lemma same_cvt_ll: "holds ss xs \<Longrightarrow> same holds (cvt_ll stuff ss num width prec radix type flags hexp) (cvt_ll stuff_all xs num width prec radix type flags hexp)"
  unfolding cvt_ll_def Let_def by (auto intro: same_fill_n)

lemma same_cvt_s: "holds ss xs \<Longrightarrow> same holds (cvt_s stuff ss s width prec flags) (cvt_s stuff_all xs s width prec flags)"
  unfolding cvt_s_def Let_def by (auto intro: same_fill2)

lemma same_cvt_ws: "holds ss xs \<Longrightarrow> same holds (cvt_ws env stuff ss ws width prec flags) (cvt_ws env stuff_all xs ws width prec flags)"
  unfolding cvt_ws_def by (auto intro: same_cvt_s split: option.split)

lemma same_cvt_f: "holds ss xs \<Longrightarrow> same holds (cvt_f env stuff ss d dir) (cvt_f env stuff_all xs d dir)"
  unfolding cvt_f_def Let_def by (auto intro: same_stuff)

definition both :: "'s \<times> 'x \<Rightarrow> u8 list \<times> 'x \<Rightarrow> bool" where "both a b \<longleftrightarrow> holds (fst a) (fst b) \<and> snd a = snd b"

definition both_args :: "'s \<times> 'x \<times> 'y \<Rightarrow> u8 list \<times> 'x \<times> 'z \<Rightarrow> bool" where
  "both_args a b \<longleftrightarrow> holds (fst a) (fst b) \<and> fst (snd a) = fst (snd b)"

lemma both_simps [simp]: "both (a, x) (b, y) \<longleftrightarrow> holds a b \<and> x = y" "both_args (a, x, u) (b, y, v) \<longleftrightarrow> holds a b \<and> x = y"
  by (simp_all add: both_def both_args_def)

lemma same_keep:
  "same holds r p \<Longrightarrow> same both (bind_sum r (\<lambda>ss. Inr (ss, x))) (bind_sum p (\<lambda>ss. Inr (ss, x)))"
  "same holds r p \<Longrightarrow> same both_args (bind_sum r (\<lambda>ss. Inr (ss, x, c))) (bind_sum p (\<lambda>ss. Inr (ss, x, d)))"
  "same both q t \<Longrightarrow> same both_args (bind_sum q (\<lambda>(ss, x). Inr (ss, x, c))) (bind_sum t (\<lambda>(ss, x). Inr (ss, x, d)))"
  by (erule same_bind, auto)+

lemma same_convert_int: "holds ss xs \<Longrightarrow> same both (convert_int stuff ss spec type radix hexp args) (convert_int stuff_all xs spec type radix hexp args)"
  unfolding convert_int_def Let_def
  by (auto intro: same_keep same_cvt_l same_cvt_ll split: list.split print_arg.split)

lemma same_convert_char: "holds ss xs \<Longrightarrow> same both (convert_char stuff ss spec args) (convert_char stuff_all xs spec args)"
  unfolding convert_char_def Let_def
  by (rule same_bind[where R = holds], auto intro!: same_bind[where R = both] same_keep same_stuff same_times split: list.split print_arg.split)

lemma same_convert:
  "holds ss xs \<Longrightarrow> same both_args (convert env stuff pos dir c spec args counts ss) (convert env stuff_all pos' dir c spec args counts' xs)"
  unfolding convert_def Let_def
  by (intro same_if) (auto intro: same_keep same_convert_int same_convert_char same_cvt_f same_cvt_ws same_cvt_s
      intro!: same_bind[where R = holds] same_stuff split: list.split print_arg.split)

lemma same_loop:
  "holds ss xs \<Longrightarrow> same (\<lambda>a b. holds (fst a) (fst b)) (dosprintf_loop env stuff pos nas fmt args counts ss)
    (dosprintf_loop env stuff_all pos' nas fmt args counts' xs)"
proof (induction fmt arbitrary: args counts counts' ss xs rule: length_induct)
  case (1 fmt)
  note IH = "1.IH"[rule_format]
  show ?case
  proof (cases fmt)
    case (Cons c rest)
    have step: "same (\<lambda>a b. holds (fst a) (fst b)) (case stuff ss ys of Inl e \<Rightarrow> Inl e | Inr ss \<Rightarrow> dosprintf_loop env stuff pos nas fmt' args counts ss)
        (case stuff_all xs ys of Inl e \<Rightarrow> Inl e | Inr ss \<Rightarrow> dosprintf_loop env stuff_all pos' nas fmt' args counts' ss)"
      if "length fmt' < length fmt" for fmt' ys
      unfolding bind_sum_def[symmetric] by (rule same_bind[OF same_stuff[OF "1.prems"]]) (rule IH[OF that])
    consider "c = 0" | "c \<noteq> 0" "c \<noteq> b8 CHR ''%''" | "c \<noteq> 0" "c = b8 CHR ''%''" "rest = []"
      | d rest' where "c \<noteq> 0" "c = b8 CHR ''%''" "rest = d # rest'" "d = b8 CHR ''%''"
      | d rest' where "c \<noteq> 0" "c = b8 CHR ''%''" "rest = d # rest'" "d \<noteq> b8 CHR ''%''"
      by (cases rest) auto
    then show ?thesis
    proof cases
      case 1
      then show ?thesis using Cons same_stuff[OF "1.prems", of "[0]"] by (auto intro: same_bind)
    next
      case 2
      then show ?thesis using Cons step[of rest "[c]"] by simp
    next
      case 3
      then show ?thesis using Cons by simp
    next
      case 4
      then show ?thesis using Cons step[of rest' "[d]"] by simp
    next
      case 5
      show ?thesis
      proof (cases "\<exists>fmt1 args1 spec e rest'' args''. pick_args nas rest args = Some (Some (fmt1, args1))
          \<and> scan_spec fmt1 args1 = Some (spec, e # rest'', args'')")
        case False
        then show ?thesis using Cons 5 "1.prems" by (auto split: option.splits list.splits)
      next
        case True
        then obtain fmt1 args1 spec e rest'' args'' where p: "pick_args nas rest args = Some (Some (fmt1, args1))"
          and r: "scan_spec fmt1 args1 = Some (spec, e # rest'', args'')" by blast
        let ?dir = "b8 CHR ''%'' # take (length fmt1 - length rest'') fmt1"
        have "length rest'' < length fmt" using scan_spec_length[OF r] pick_args_length[OF p] Cons by simp
        then have "same (\<lambda>a b. holds (fst a) (fst b))
            (bind_sum (convert env stuff pos ?dir e spec args'' counts ss) (\<lambda>(ss, args, counts). dosprintf_loop env stuff pos nas rest'' args counts ss))
            (bind_sum (convert env stuff_all pos' ?dir e spec args'' counts' xs) (\<lambda>(ss, args, counts). dosprintf_loop env stuff_all pos' nas rest'' args counts ss))"
          by (intro same_bind[OF same_convert[OF "1.prems"]]) (auto intro: IH)
        then show ?thesis using Cons 5 p r by (simp add: bind_sum_def)
      qed
    qed
  qed simp
qed

lemma same_dosprintf:
  "holds ss xs \<Longrightarrow> same (\<lambda>a b. holds (fst a) (fst b)) (dosprintf env stuff pos fmt args counts ss) (dosprintf env stuff_all pos' fmt args counts' xs)"
  by (auto simp: dosprintf_def intro: same_loop split: option.split)

end

interpretation limit: output_routine LimitStuff "\<lambda>ss xs. limit_max ss = n \<and> limit_buf ss = take n xs" False for n
  by unfold_locales (auto simp: LimitStuff_def Let_def min_def)

definition grow_holds :: "grow_state \<Rightarrow> u8 list \<Rightarrow> bool" where
  "grow_holds ss xs \<longleftrightarrow> grow_buf ss = xs \<and> length xs \<le> grow_max ss \<and> grow_max ss < 2 ^ 32"

interpretation grow: output_routine "GrowStuff am" grow_holds True for am
  by unfold_locales (auto simp: GrowStuff_def grow_holds_def Let_def split: if_splits)

definition func_holds :: "'a func_state \<Rightarrow> u8 list \<Rightarrow> bool" where
  "func_holds ss xs \<longleftrightarrow> func_total ss = length xs mod 2 ^ 32"

interpretation func: output_routine "FuncStuff f" func_holds True for f
  by unfold_locales (auto simp: FuncStuff_def func_holds_def mod_add_left_eq split: option.splits)

section \<open>What is printed\<close>

text \<open>The output ends with a null byte.\<close>

lemma stuff_all_appends: "stuff_all xs ys = Inr (xs @ ys)"
  by (simp add: stuff_all_def)

lemma loop_ends:
  "dosprintf_loop env stuff_all pos nas fmt args counts xs = Inr (ys, counts') \<Longrightarrow> \<exists>zs. ys = zs @ [0]"
proof (induction fmt arbitrary: args counts xs rule: length_induct)
  case (1 fmt)
  note IH = "1.IH"[rule_format]
  show ?case
  proof (cases fmt)
    case (Cons c rest)
    note run = "1.prems"[unfolded Cons]
    consider "c = 0" | "c \<noteq> 0" "c \<noteq> b8 CHR ''%''"
      | d rest' where "c \<noteq> 0" "c = b8 CHR ''%''" "rest = d # rest'" "d = b8 CHR ''%''"
      | d rest' where "c \<noteq> 0" "c = b8 CHR ''%''" "rest = d # rest'" "d \<noteq> b8 CHR ''%''"
      using run by (cases rest) (auto split: if_splits)
    then show ?thesis
    proof cases
      case 1
      then show ?thesis using run by (auto simp: stuff_all_appends)
    next
      case 2
      then show ?thesis using run IH[of rest] Cons stuff_all_appends[of xs "[c]"] by simp
    next
      case 3
      then show ?thesis using run IH[of rest'] Cons stuff_all_appends[of xs "[d]"] by simp
    next
      case 4
      then obtain fmt1 args1 spec e rest'' args'' where p: "pick_args nas rest args = Some (Some (fmt1, args1))"
        and s: "scan_spec fmt1 args1 = Some (spec, e # rest'', args'')"
        using run by (auto split: option.splits list.splits)
      then obtain ss a k where "dosprintf_loop env stuff_all pos nas rest'' a k ss = Inr (ys, counts')"
        using run 4 by (auto split: sum.splits)
      moreover have "length rest'' < length fmt" using scan_spec_length[OF s] pick_args_length[OF p] Cons by simp
      ultimately show ?thesis using IH by blast
    qed
  qed (use "1.prems" in simp)
qed

lemma dosprintf_ends: "dosprintf env stuff_all pos fmt args counts xs = Inr (ys, counts') \<Longrightarrow> \<exists>zs. ys = zs @ [0]"
  by (auto simp: dosprintf_def dest: loop_ends split: option.splits)

text \<open>A buffer with a limit keeps as many bytes as it has room for, but for the null byte.\<close>

lemma vsnprintf_all:
  assumes "dosprintf env stuff_all (\<lambda>_. 0) fmt args [] [] = Inr (zs @ [0], c')" "0 < n" "n < 2 ^ 31"
  shows "JS_vsnprintf env n fmt args = Some (take (n - 1) zs @ [0], min (n - 1) (length zs))"
proof -
  let ?start = "\<lparr>limit_buf = [], limit_max = n\<rparr>"
  obtain ss c where limited: "dosprintf env LimitStuff limit_pos fmt args [] ?start = Inr (ss, c)" "limit_buf ss = take n (zs @ [0])"
    using limit.same_dosprintf[of ?start n "[]" env limit_pos fmt args "[]" "\<lambda>_. 0" "[]"] assms(1)
    by (auto simp: limit.same_def split: sum.splits printf_error.splits)
  show ?thesis
  proof (cases "length zs < n")
    case True
    then show ?thesis using assms(2,3) by (simp add: JS_vsnprintf_def limited Let_def)
  next
    case False
    then have "take n (zs @ [0]) \<noteq> [] \<and> last (take n (zs @ [0])) = 0 \<Longrightarrow> take (n - 1) zs @ [0] = take n (zs @ [0])"
      "(take n (zs @ [0]))[n - 1 := 0] = take (n - 1) zs @ [0]"
      using assms(2) by (cases n; simp add: take_Suc_conv_app_nth list_update_append)+
    then show ?thesis using assms(2,3) False by (auto simp: JS_vsnprintf_def limited Let_def min_def)
  qed
qed

text \<open>
  C37: For any format, with or without numbered arguments, a buffer with a limit gets the output of the buffer that grows, cut off so that it ends with a
  null byte inside the limit; the function that gets the output in pieces gets as many bytes.
\<close>

theorem snprintf_truncates_smprintf:
  assumes "JS_vsmprintf env fmt args = Some (Some ys)" "0 < n" "n < 2 ^ 31"
  shows "JS_vsnprintf env n fmt args = Some (if length ys \<le> n then (ys, length ys - 1) else (take (n - 1) ys @ [0], n - 1))
    \<and> (JS_vsxprintf env f a fmt args = Some (Some k) \<longrightarrow> k = length ys) \<and> ys \<noteq> [] \<and> last ys = 0"
proof -
  obtain ss c where "dosprintf env (GrowStuff (allocator env)) grow_pos fmt args [] \<lparr>grow_buf = [], grow_max = 0\<rparr> = Inr (ss, c)" "grow_buf ss = ys"
    using assms(1) by (auto simp: JS_vsmprintf_def split: sum.splits printf_error.splits)
  then obtain c' where all: "dosprintf env stuff_all (\<lambda>_. 0) fmt args [] [] = Inr (ys, c')" and "length ys < 2 ^ 32"
    using grow.same_dosprintf[of "\<lparr>grow_buf = [], grow_max = 0\<rparr>" "[]" env "allocator env" grow_pos fmt args "[]" "\<lambda>_. 0" "[]"]
    by (auto simp: grow.same_def grow_holds_def)
  obtain zs where ys: "ys = zs @ [0]" using dosprintf_ends[OF all] by blast
  have "JS_vsnprintf env n fmt args = Some (if length ys \<le> n then (ys, length ys - 1) else (take (n - 1) ys @ [0], n - 1))"
    using vsnprintf_all[OF all[unfolded ys] assms(2,3)] assms(2) by (auto simp: ys min_def)
  moreover have "k = length ys" if "JS_vsxprintf env f a fmt args = Some (Some k)"
    using that func.same_dosprintf[of "\<lparr>func_arg = a, func_total = 0\<rparr>" "[]" env f "\<lambda>_. 0" fmt args "[]" "\<lambda>_. 0" "[]"] all
      \<open>length ys < 2 ^ 32\<close>
    by (auto simp: JS_vsxprintf_def func.same_def func_holds_def split: sum.splits printf_error.splits)
  ultimately show ?thesis by (simp add: ys)
qed

text \<open>The hypothesis holds: a field of five characters, cut off after three and with room to spare.\<close>

lemma printing_codes:
  "b8 CHR ''%'' = 37" "b8 CHR '' '' = 32" "b8 CHR ''0'' = 48" "b8 CHR ''9'' = 57" "b8 CHR ''-'' = 45" "b8 CHR ''+'' = 43"
  "b8 CHR ''*'' = 42" "b8 CHR ''$'' = 36" "b8 CHR ''.'' = 46" "b8 CHR ''h'' = 104" "b8 CHR ''L'' = 76" "b8 CHR ''l'' = 108" "b8 CHR ''d'' = 100"
  "TYPE_INT16 = 0" "TYPE_INTN = 2" "TYPE_INT32 = 4" "TYPE_INT64 = 6"
  "hex = [48, 49, 50, 51, 52, 53, 54, 55, 56, 57, 97, 98, 99, 100, 101, 102]"
  by (simp_all add: b8_def TYPE_INT16_def TYPE_INTN_def TYPE_INT32_def TYPE_INT64_def hex_def)

theorem snprintf_truncates_smprintf_witness:
  "JS_vsnprintf \<lparr>allocator = \<lambda>_. True, native_sprintf = \<lambda>_ _. []\<rparr> 4 [37, 53, 100, 0] [Int_Arg 42] = Some ([32, 32, 32, 0], 3)
    \<and> JS_vsnprintf \<lparr>allocator = \<lambda>_. True, native_sprintf = \<lambda>_ _. []\<rparr> 9 [37, 53, 100, 0] [Int_Arg 42] = Some ([32, 32, 32, 52, 50, 0], 5)"
proof -
  let ?env = "\<lparr>allocator = \<lambda>_. True, native_sprintf = \<lambda>_ _. []\<rparr>"
  have spec: "scan_spec [53, 100, 0] [Int_Arg 42] = Some (\<lparr>spec_flags = no_flags, spec_width = 5, spec_prec = - 1, spec_type = 2\<rparr>, [100, 0], [Int_Arg 42])"
    by (simp add: scan_spec_def no_flags_def star_or_int_def printing_codes jsint_def)
  have "cvt_digits 10 [48, 49, 50, 51, 52, 53, 54, 55, 56, 57, 97, 98, 99, 100, 101, 102] 42 [] = [52, 50]"
    by (simp add: cvt_digits.simps)
  then have converted: "convert ?env (GrowStuff (\<lambda>_. True)) grow_pos d 100 \<lparr>spec_flags = no_flags, spec_width = 5, spec_prec = - 1, spec_type = 2\<rparr> [Int_Arg 42] []
      \<lparr>grow_buf = [], grow_max = 0\<rparr> = Inr (\<lparr>grow_buf = [32, 32, 32, 52, 50], grow_max = 32\<rparr>, [], [])" for d
    by (simp add: convert_def convert_int_def cvt_l_def no_flags_def printing_codes fill_n_def fill_sign_def numeral_3_eq_3 GrowStuff_def bind_sum_def)
  have "BuildArgArray ?env [37, 53, 100, 0] [Int_Arg 42] = Some (Some None)"
    by (simp add: BuildArgArray_def is_digit_def printing_codes)
  then have "JS_vsmprintf ?env [37, 53, 100, 0] [Int_Arg 42] = Some (Some [32, 32, 32, 52, 50, 0])"
    by (simp add: JS_vsmprintf_def dosprintf_def pick_args_def spec converted printing_codes GrowStuff_def bind_sum_def)
  note cut = snprintf_truncates_smprintf[OF this, THEN conjunct1]
  show ?thesis using cut[of 4] cut[of 9] by simp
qed

section \<open>Integers\<close>

definition digit_value :: "u8 \<Rightarrow> nat" where
  "digit_value c = (if c \<le> b8 CHR ''9'' then unat c - 48 else if c \<le> b8 CHR ''F'' then unat c - 55 else unat c - 87)"

definition digits_value :: "nat \<Rightarrow> u8 list \<Rightarrow> nat" where
  "digits_value radix cs = foldl (\<lambda>v c. v * radix + digit_value c) 0 cs"

lemma digit_value_hex: "d < 16 \<Longrightarrow> digit_value (hex ! d) = d" "d < 16 \<Longrightarrow> digit_value (HEX ! d) = d"
proof -
  have "list_all (\<lambda>d. digit_value (hex ! d) = d \<and> digit_value (HEX ! d) = d) [0..<16]" by code_simp
  then show "d < 16 \<Longrightarrow> digit_value (hex ! d) = d" "d < 16 \<Longrightarrow> digit_value (HEX ! d) = d"
    by (simp_all add: list_all_iff)
qed

lemma cvt_digits_snoc:
  assumes "2 \<le> radix" "radix \<le> 16" "0 < num"
  shows "cvt_digits radix hexp num [] = cvt_digits radix hexp (num div radix) [] @ [hexp ! (num mod radix)]"
proof -
  have app: "cvt_digits radix hexp n cs = cvt_digits radix hexp n [] @ cs" for n cs
  proof (induction n arbitrary: cs rule: less_induct)
    case (less n)
    show ?case
    proof (cases "n = 0")
      case False
      then have "n div radix < n" using assms(1) by simp
      from less[OF this, of "hexp ! (n mod radix mod 16) # cs"] less[OF this, of "[hexp ! (n mod radix mod 16)]"]
      show ?thesis by (subst (1 2) cvt_digits.simps) simp
    qed (simp add: cvt_digits.simps)
  qed
  have "num mod radix mod 16 = num mod radix"
    using assms by (intro mod_less less_le_trans[OF mod_less_divisor]) auto
  then show ?thesis using assms app[of "num div radix" "[hexp ! (num mod radix)]"] by (subst cvt_digits.simps) simp
qed

lemma cvt_digits_value:
  assumes "2 \<le> radix" "radix \<le> 16" "hexp = hex \<or> hexp = HEX"
  shows "digits_value radix (cvt_digits radix hexp num []) = num
    \<and> (num < radix ^ k \<longrightarrow> length (cvt_digits radix hexp num []) \<le> k)
    \<and> (0 < num \<longrightarrow> cvt_digits radix hexp num [] \<noteq> [] \<and> 0 < digit_value (hd (cvt_digits radix hexp num [])))"
proof (induction num arbitrary: k rule: less_induct)
  case (less num)
  show ?case
  proof (cases "num = 0")
    case True
    then show ?thesis by (simp add: cvt_digits.simps digits_value_def)
  next
    case False
    let ?q = "num div radix"
    have d: "digit_value (hexp ! (num mod radix)) = num mod radix"
      using assms digit_value_hex[of "num mod radix"] less_le_trans[OF mod_less_divisor[of radix num] assms(2)] by auto
    have "?q < num" using False assms(1) by simp
    note IH = less[OF this] and snoc = cvt_digits_snoc[OF assms(1,2), of num hexp]
    have "length (cvt_digits radix hexp num []) \<le> k" if "num < radix ^ k"
    proof (cases k)
      case 0
      then show ?thesis using that False by simp
    next
      case (Suc k')
      then have "?q < radix ^ k'" using that assms(1) by (simp add: less_mult_imp_div_less mult.commute)
      then show ?thesis using IH[of k'] snoc False Suc by simp
    qed
    moreover have "digits_value radix (cvt_digits radix hexp num []) = num"
      using IH snoc False d by (simp add: digits_value_def)
    moreover have "0 < digit_value (hd (cvt_digits radix hexp num []))"
    proof (cases "?q = 0")
      case True
      then have "num mod radix = num" using assms(1) by (simp add: div_eq_0_iff)
      then show ?thesis using snoc False d True by (simp add: cvt_digits.simps[of radix hexp 0])
    next
      case q: False
      then show ?thesis using IH snoc False by simp
    qed
    ultimately show ?thesis using snoc False by simp
  qed
qed

lemma stuff_times_all: "stuff_times stuff_all n c xs = Inr (xs @ replicate n c)"
  by (induction n arbitrary: xs) (auto simp: stuff_all_appends replicate_append_same[symmetric])

text \<open>
  The field of digits: the zeros that the precision asks for or, without one, the flag \<open>0\<close> and the
  width, and the spaces that are then left of the width.
\<close>

definition int_zeros :: "print_flags \<Rightarrow> int \<Rightarrow> int \<Rightarrow> u8 list \<Rightarrow> u8 list \<Rightarrow> nat" where
  "int_zeros flags width prec sign digits =
     (if 0 \<le> prec then nat prec - length digits
      else if FLAG_ZEROS flags then nat width - (length sign + length digits) else 0)"

lemma fill_n_layout:
  assumes "sign = fill_sign type flags" "zeros = int_zeros flags width prec sign src"
    and "pad = replicate (nat width - (length sign + zeros + length src)) (b8 CHR '' '')"
  shows "fill_n stuff_all xs src width prec type flags = Inr (xs @ (if FLAG_LEFT flags then [] else pad)
      @ sign @ replicate zeros (b8 CHR ''0'') @ src @ (if FLAG_LEFT flags then pad else []))"
proof -
  define precw where "precw = (if 0 < prec \<and> int (length src) < prec then prec - int (length src) else 0)"
  define w1 where "w1 = int (length sign) + int (length src) + precw"
  define zerow where "zerow = (if FLAG_ZEROS flags \<and> prec < 0 \<and> w1 < width then width - w1 else 0)"
  define left where "left = (if \<not> FLAG_LEFT flags \<and> w1 + zerow < width then width - (w1 + zerow) else 0)"
  define right where "right = (if FLAG_LEFT flags \<and> w1 + zerow < width then width - (w1 + zerow) else 0)"
  have run: "fill_n stuff_all xs src width prec type flags = Inr (xs @ replicate (nat left) (b8 CHR '' '')
      @ sign @ replicate (nat precw + nat zerow) (b8 CHR ''0'') @ src @ replicate (nat right) (b8 CHR '' ''))"
    unfolding fill_n_def Let_def assms(1)[symmetric] precw_def[symmetric] w1_def[symmetric] zerow_def[symmetric] left_def[symmetric] right_def[symmetric]
    by (cases "sign = []") (simp_all only: stuff_times_all stuff_all_appends bind_sum_simps replicate_add append_assoc append_Nil append_Nil2 simp_thms if_cancel if_True if_False)
  have zeros: "nat precw + nat zerow = zeros"
    unfolding assms(2) int_zeros_def by (cases "0 \<le> prec") (auto simp: precw_def zerow_def w1_def)
  have "0 \<le> precw" "0 \<le> zerow" by (simp_all add: precw_def zerow_def)
  then have "w1 + zerow = int (length sign + zeros + length src)" unfolding zeros[symmetric] w1_def by simp
  then have "replicate (nat left) (b8 CHR '' '') = (if FLAG_LEFT flags then [] else pad)"
    "replicate (nat right) (b8 CHR '' '') = (if FLAG_LEFT flags then pad else [])"
    by (auto simp: assms(3) left_def right_def nat_diff_distrib')
  then show ?thesis unfolding run zeros by simp
qed

text \<open>The digits are those of the number, without one in front that is 0.\<close>

lemma hex_zero: "hexp = hex \<or> hexp = HEX \<Longrightarrow> digit_value (b8 CHR ''0'') = 0 \<and> hexp ! 0 = b8 CHR ''0''"
  by (auto simp: digit_value_def b8_def hex_def HEX_def)

lemma cvt_digits_drawn:
  assumes "2 \<le> radix" "radix \<le> 16" "length hexp = 16"
  shows "set (cvt_digits radix hexp num []) \<subseteq> set (take radix hexp)"
proof (induction num rule: less_induct)
  case (less num)
  show ?case
  proof (cases "num = 0")
    case True
    then show ?thesis by (simp add: cvt_digits.simps)
  next
    case False
    have "num mod radix < radix" using assms(1) by simp
    then have "hexp ! (num mod radix) \<in> set (take radix hexp)"
      using assms(2,3) by (auto simp: in_set_conv_nth intro!: exI[of _ "num mod radix"])
    then show ?thesis using less[of "num div radix"] cvt_digits_snoc[OF assms(1,2), of num hexp] False assms(1) by simp
  qed
qed

text \<open>
  C38: An integer is printed as its digits in the radix, in the case of the table \<open>hexp\<close>, the first one not a zero
  unless it is the only one, at most 22 of them for 64 bits; before them the sign and as many zeros as
  a precision asks for or, without a precision, the flag \<open>0\<close> to fill the width; and then spaces up to the
  width, before all this or, with the flag \<open>-\<close>, after it. Zero with the precision 0 prints nothing.
\<close>

theorem printed_integer:
  assumes "radix = 8 \<or> radix = 10 \<or> radix = 16" "hexp = hex \<or> hexp = HEX" "num < 2 ^ 64"
  shows "if prec = 0 \<and> num = 0 then cvt_l stuff_all xs num width prec radix type flags hexp = Inr xs
    else \<exists>digits. let sign = fill_sign type flags;
        zeros = (if 0 \<le> prec then nat prec - length digits
                 else if FLAG_ZEROS flags then nat width - (length sign + length digits) else 0);
        pad = replicate (nat width - (length sign + zeros + length digits)) (b8 CHR '' '')
      in cvt_l stuff_all xs num width prec radix type flags hexp = Inr (xs @ (if FLAG_LEFT flags then [] else pad)
          @ sign @ replicate zeros (b8 CHR ''0'') @ digits @ (if FLAG_LEFT flags then pad else []))
        \<and> digits_value radix digits = num \<and> set digits \<subseteq> set (take radix hexp) \<and> length digits \<le> 22
        \<and> (if num = 0 then digits = [b8 CHR ''0''] else digits \<noteq> [] \<and> hd digits \<noteq> b8 CHR ''0'')"
proof (cases "prec = 0 \<and> num = 0")
  case True
  then show ?thesis by (simp add: cvt_l_def)
next
  case False
  let ?cs = "cvt_digits radix hexp num []"
  define digits where "digits = (if ?cs = [] then [b8 CHR ''0''] else ?cs)"
  have "(2::nat) ^ 64 \<le> 8 ^ 22" by simp
  also have "(8::nat) ^ 22 \<le> radix ^ 22" using assms(1) by (intro power_mono) auto
  finally have "num < radix ^ 22" using assms(3) by linarith
  moreover have radix: "2 \<le> radix" "radix \<le> 16" using assms(1) by auto
  ultimately have cs: "digits_value radix ?cs = num" "length ?cs \<le> 22"
    "0 < num \<longrightarrow> ?cs \<noteq> [] \<and> 0 < digit_value (hd ?cs)" "num = 0 \<longrightarrow> ?cs = []"
    using cvt_digits_value[OF radix assms(2), of num 22] by (auto simp: cvt_digits.simps)
  note zero = hex_zero[OF assms(2)]
  have hexp: "length hexp = 16" using assms(2) by (auto simp: hex_def HEX_def)
  then have "hexp ! 0 \<in> set (take radix hexp)" using radix by (auto simp: in_set_conv_nth intro!: exI[of _ 0])
  then have drawn: "set digits \<subseteq> set (take radix hexp)"
    using cvt_digits_drawn[OF radix hexp, of num] zero by (auto simp: digits_def)
  have digits: "digits_value radix digits = num" "length digits \<le> 22"
    "if num = 0 then digits = [b8 CHR ''0''] else digits \<noteq> [] \<and> hd digits \<noteq> b8 CHR ''0''"
    using cs zero by (auto simp: digits_def digits_value_def)
  have run: "cvt_l stuff_all xs num width prec radix type flags hexp = fill_n stuff_all xs digits width prec type flags"
    unfolding cvt_l_def digits_def Let_def using False by (simp only: if_False)
  note layout = fill_n_layout[OF refl refl refl, of xs digits width prec type flags, folded run, unfolded int_zeros_def]
  show ?thesis unfolding if_not_P[OF False] Let_def
    by (intro exI[of _ digits] conjI layout digits drawn)
qed

theorem printed_integer_witness:
  "if - 1 = (0 :: int) \<and> 255 = (0 :: nat) then cvt_l stuff_all [] 255 8 (- 1) 16 3 (no_flags\<lparr>FLAG_ZEROS := True\<rparr>) HEX = Inr []
    else \<exists>digits. let sign = fill_sign 3 (no_flags\<lparr>FLAG_ZEROS := True\<rparr>);
        zeros = (if 0 \<le> (- 1 :: int) then nat (- 1) - length digits
                 else if FLAG_ZEROS (no_flags\<lparr>FLAG_ZEROS := True\<rparr>) then nat 8 - (length sign + length digits) else 0);
        pad = replicate (nat 8 - (length sign + zeros + length digits)) (b8 CHR '' '')
      in cvt_l stuff_all [] 255 8 (- 1) 16 3 (no_flags\<lparr>FLAG_ZEROS := True\<rparr>) HEX
          = Inr ([] @ (if FLAG_LEFT (no_flags\<lparr>FLAG_ZEROS := True\<rparr>) then [] else pad)
          @ sign @ replicate zeros (b8 CHR ''0'') @ digits @ (if FLAG_LEFT (no_flags\<lparr>FLAG_ZEROS := True\<rparr>) then pad else []))
        \<and> digits_value 16 digits = 255 \<and> set digits \<subseteq> set (take 16 HEX) \<and> length digits \<le> 22
        \<and> (if 255 = (0 :: nat) then digits = [b8 CHR ''0''] else digits \<noteq> [] \<and> hd digits \<noteq> b8 CHR ''0'')"
  by (rule printed_integer) simp_all

end
