(* ===== verification/JS_Xdr.thy ===== *)
theory JS_Xdr
  imports JS_LocalRoots
begin

text \<open>
  The external representation of js/src/jsxdrapi.c: the memory stream and the coding of numbers,
  byte strings, strings, doubles and values. One function codes in both directions, as in the
  source: its argument is what the pointer refers to before the call, its result what it refers
  to afterwards. \<open>None\<close> is an access outside the memory block; otherwise the result says whether
  the call succeeded. \<open>le\<close> is the machine's byte order, \<open>am n\<close> whether allocating \<open>n\<close> bytes succeeds.
\<close>

section \<open>The stream\<close>

datatype JSXDRMode = JSXDR_ENCODE | JSXDR_DECODE | JSXDR_FREE

datatype JSXDRWhence = JSXDR_SEEK_SET | JSXDR_SEEK_CUR | JSXDR_SEEK_END

text \<open>\<open>x_base\<close> is the block at \<open>MEM_BASE\<close>; the empty one stands for \<open>NULL\<close>.\<close>

record xdr_state =
  x_mode :: JSXDRMode
  x_base :: "u8 list"
  x_count :: u32
  x_limit :: u32

type_synonym 'a xdr = "xdr_state \<Rightarrow> (bool \<times> 'a \<times> xdr_state) option"

text \<open>Going on when a call succeeded, returning \<open>JS_FALSE\<close> with \<open>a\<close> when it did not.\<close>

definition xdr_then :: "'a xdr \<Rightarrow> 'b \<Rightarrow> ('a \<Rightarrow> 'b xdr) \<Rightarrow> 'b xdr" where
  "xdr_then c b f = (\<lambda>xdr. case c xdr of
     None \<Rightarrow> None
   | Some (ok, a, xdr) \<Rightarrow> if ok then f a xdr else Some (False, b, xdr))"

definition MEM_BLOCK :: u32 where "MEM_BLOCK = 8192"
definition JSXDR_ALIGN :: u32 where "JSXDR_ALIGN = 4"

definition XDR_HOWMANY :: "u32 \<Rightarrow> u32 \<Rightarrow> u32" where "XDR_HOWMANY x y = (x + y - 1) div y"
definition XDR_ROUNDUP :: "u32 \<Rightarrow> u32 \<Rightarrow> u32" where "XDR_ROUNDUP x y = XDR_HOWMANY x y * y"

definition MEM_LEFT :: "u32 \<Rightarrow> unit xdr" where
  "MEM_LEFT bytes = (\<lambda>xdr.
     if x_mode xdr = JSXDR_DECODE \<and> x_count xdr + bytes > x_limit xdr then Some (False, (), xdr)
     else Some (True, (), xdr))"

text \<open>Reallocated memory beyond the old block reads as zero here; the code writes it first.\<close>

definition resize :: "nat \<Rightarrow> u8 list \<Rightarrow> u8 list" where
  "resize n bs = take n bs @ replicate (n - length bs) 0"

definition MEM_NEED :: "(nat \<Rightarrow> bool) \<Rightarrow> u32 \<Rightarrow> unit xdr" where
  "MEM_NEED am bytes = (\<lambda>xdr.
     if x_mode xdr = JSXDR_ENCODE then
       (if x_limit xdr \<noteq> 0 \<and> x_count xdr + bytes > x_limit xdr then
          (let lim = XDR_ROUNDUP (x_count xdr + bytes) MEM_BLOCK
           in if \<not> am (unat lim) then Some (False, (), xdr)
              else Some (True, (), xdr\<lparr>x_base := resize (unat lim) (x_base xdr), x_limit := lim\<rparr>))
        else Some (True, (), xdr))
     else MEM_LEFT bytes xdr)"

text \<open>Reading and writing \<open>n\<close> bytes at \<open>MEM_DATA\<close>, and \<open>MEM_INCR\<close>.\<close>

definition mem_read :: "nat \<Rightarrow> xdr_state \<Rightarrow> u8 list option" where
  "mem_read n xdr = (let i = unat (x_count xdr) in
     if i + n \<le> length (x_base xdr) then Some (take n (drop i (x_base xdr))) else None)"

definition mem_write :: "u8 list \<Rightarrow> xdr_state \<Rightarrow> xdr_state option" where
  "mem_write bs xdr = (let i = unat (x_count xdr) in
     if i + length bs \<le> length (x_base xdr)
     then Some (xdr\<lparr>x_base := take i (x_base xdr) @ bs @ drop (i + length bs) (x_base xdr)\<rparr>) else None)"

definition MEM_INCR :: "u32 \<Rightarrow> xdr_state \<Rightarrow> xdr_state" where
  "MEM_INCR bytes xdr = xdr\<lparr>x_count := x_count xdr + bytes\<rparr>"

text \<open>A 32-bit and a 16-bit word in memory, and the byte swaps of a big-endian machine.\<close>

definition word32_le :: "u32 \<Rightarrow> u8 list" where
  "word32_le x = [ucast x, ucast (drop_bit 8 x), ucast (drop_bit 16 x), ucast (drop_bit 24 x)]"

definition le_word32 :: "u8 list \<Rightarrow> u32" where
  "le_word32 bs = ucast (bs ! 0) OR push_bit 8 (ucast (bs ! 1)) OR push_bit 16 (ucast (bs ! 2)) OR push_bit 24 (ucast (bs ! 3))"

definition word16_le :: "u16 \<Rightarrow> u8 list" where
  "word16_le x = [ucast x, ucast (drop_bit 8 x)]"

definition le_word16 :: "u8 list \<Rightarrow> u16" where
  "le_word16 bs = ucast (bs ! 0) OR push_bit 8 (ucast (bs ! 1))"

definition store_bytes :: "bool \<Rightarrow> u8 list \<Rightarrow> u8 list" where
  "store_bytes le bs = (if le then bs else rev bs)"

definition JSXDR_SWAB32 :: "bool \<Rightarrow> u32 \<Rightarrow> u32" where
  "JSXDR_SWAB32 le x =
     (if le then x
      else drop_bit 24 x OR (drop_bit 8 x AND 0xff00) OR (push_bit 8 x AND 0xff0000) OR push_bit 24 x)"

definition JSXDR_SWAB16 :: "bool \<Rightarrow> u16 \<Rightarrow> u16" where
  "JSXDR_SWAB16 le x = (if le then x else drop_bit 8 x OR push_bit 8 x)"

definition mem_get32 :: "bool \<Rightarrow> u32 \<Rightarrow> u32 xdr" where
  "mem_get32 le lp = xdr_then (MEM_LEFT 4) lp (\<lambda>_ xdr.
     case mem_read 4 xdr of
       None \<Rightarrow> None
     | Some bs \<Rightarrow> Some (True, le_word32 (store_bytes le bs), MEM_INCR 4 xdr))"

definition mem_set32 :: "bool \<Rightarrow> (nat \<Rightarrow> bool) \<Rightarrow> u32 \<Rightarrow> u32 xdr" where
  "mem_set32 le am lp = xdr_then (MEM_NEED am 4) lp (\<lambda>_ xdr.
     case mem_write (store_bytes le (word32_le lp)) xdr of
       None \<Rightarrow> None
     | Some xdr \<Rightarrow> Some (True, lp, MEM_INCR 4 xdr))"

text \<open>\<open>bytes\<close> is the caller's buffer.\<close>

definition mem_getbytes :: "u8 list \<Rightarrow> u32 \<Rightarrow> u8 list xdr" where
  "mem_getbytes bytes len = xdr_then (MEM_LEFT len) bytes (\<lambda>_ xdr.
     case mem_read (unat len) xdr of
       None \<Rightarrow> None
     | Some bs \<Rightarrow>
         if length bytes < unat len then None
         else Some (True, bs @ drop (unat len) bytes, MEM_INCR len xdr))"

definition mem_setbytes :: "(nat \<Rightarrow> bool) \<Rightarrow> u8 list \<Rightarrow> u32 \<Rightarrow> u8 list xdr" where
  "mem_setbytes am bytes len = xdr_then (MEM_NEED am len) bytes (\<lambda>_ xdr.
     if length bytes < unat len then None
     else
       case mem_write (take (unat len) bytes) xdr of
         None \<Rightarrow> None
       | Some xdr \<Rightarrow> Some (True, bytes, MEM_INCR len xdr))"

text \<open>
  \<open>mem_raw\<close> gives the position of the data, where the caller reads or writes afterwards; the
  caller takes a null address for a failure.
\<close>

definition mem_raw :: "(nat \<Rightarrow> bool) \<Rightarrow> u32 \<Rightarrow> nat xdr" where
  "mem_raw am len = xdr_then
     (\<lambda>xdr. if x_mode xdr = JSXDR_ENCODE then MEM_NEED am len xdr
            else if x_mode xdr = JSXDR_DECODE then MEM_LEFT len xdr else Some (True, (), xdr))
     0 (\<lambda>_ xdr. Some (x_base xdr \<noteq> [] \<or> x_count xdr \<noteq> 0, unat (x_count xdr), MEM_INCR len xdr))"

definition mem_seek :: "(nat \<Rightarrow> bool) \<Rightarrow> u32 \<Rightarrow> JSXDRWhence \<Rightarrow> unit xdr" where
  "mem_seek am offset whence = (\<lambda>xdr.
     case whence of
       JSXDR_SEEK_CUR \<Rightarrow>
         if sint (x_count xdr + offset) < 0 then Some (False, (), xdr)
         else
           xdr_then (if sint offset > 0 then MEM_NEED am offset else (\<lambda>xdr. Some (True, (), xdr))) ()
             (\<lambda>_ xdr. Some (True, (), MEM_INCR offset xdr)) xdr
     | JSXDR_SEEK_SET \<Rightarrow>
         if sint offset < 0 then Some (False, (), xdr)
         else if x_mode xdr = JSXDR_ENCODE then
           xdr_then (if offset > x_count xdr then MEM_NEED am (offset - x_count xdr) else (\<lambda>xdr. Some (True, (), xdr))) ()
             (\<lambda>_ xdr. Some (True, (), xdr\<lparr>x_count := offset\<rparr>)) xdr
         else if offset > x_limit xdr then Some (False, (), xdr)
         else Some (True, (), xdr\<lparr>x_count := offset\<rparr>)
     | JSXDR_SEEK_END \<Rightarrow>
         if sint offset \<ge> 0 \<or> x_mode xdr = JSXDR_ENCODE \<or> sint (x_limit xdr + offset) < 0 then Some (False, (), xdr)
         else Some (True, (), xdr\<lparr>x_count := x_limit xdr + offset\<rparr>))"

definition mem_tell :: "xdr_state \<Rightarrow> u32" where "mem_tell xdr = x_count xdr"

text \<open>\<open>new_state\<close> says whether the state itself can be allocated.\<close>

definition JS_XDRNewMem :: "bool \<Rightarrow> (nat \<Rightarrow> bool) \<Rightarrow> JSXDRMode \<Rightarrow> xdr_state option" where
  "JS_XDRNewMem new_state am mode =
     (if \<not> new_state then None
      else if mode = JSXDR_ENCODE then
        (if \<not> am (unat MEM_BLOCK) then None
         else Some \<lparr>x_mode = mode, x_base = replicate (unat MEM_BLOCK) 0, x_count = 0, x_limit = MEM_BLOCK\<rparr>)
      else Some \<lparr>x_mode = mode, x_base = [], x_count = 0, x_limit = MEM_BLOCK\<rparr>)"

definition JS_XDRMemGetData :: "xdr_state \<Rightarrow> u8 list \<times> u32" where
  "JS_XDRMemGetData xdr = (x_base xdr, x_count xdr)"

definition JS_XDRMemSetData :: "xdr_state \<Rightarrow> u8 list \<Rightarrow> u32 \<Rightarrow> xdr_state" where
  "JS_XDRMemSetData xdr data len = xdr\<lparr>x_limit := len, x_base := data, x_count := 0\<rparr>"

definition JS_XDRMemDataLeft :: "xdr_state \<Rightarrow> u32" where
  "JS_XDRMemDataLeft xdr = x_limit xdr - x_count xdr"

definition JS_XDRMemResetData :: "xdr_state \<Rightarrow> xdr_state" where
  "JS_XDRMemResetData xdr = xdr\<lparr>x_count := 0\<rparr>"

section \<open>Numbers and bytes\<close>

definition JS_XDRUint32 :: "bool \<Rightarrow> (nat \<Rightarrow> bool) \<Rightarrow> u32 \<Rightarrow> u32 xdr" where
  "JS_XDRUint32 le am lp = (\<lambda>xdr.
     case x_mode xdr of
       JSXDR_ENCODE \<Rightarrow> map_option (\<lambda>(ok, xl, xdr). (ok, lp, xdr)) (mem_set32 le am (JSXDR_SWAB32 le lp) xdr)
     | JSXDR_DECODE \<Rightarrow> map_option (\<lambda>(ok, lp, xdr). (ok, JSXDR_SWAB32 le lp, xdr)) (mem_get32 le lp xdr)
     | JSXDR_FREE \<Rightarrow> Some (True, lp, xdr))"

definition JS_XDRUint8 :: "bool \<Rightarrow> (nat \<Rightarrow> bool) \<Rightarrow> u8 \<Rightarrow> u8 xdr" where
  "JS_XDRUint8 le am b = xdr_then (JS_XDRUint32 le am (ucast b)) b (\<lambda>l xdr. Some (True, ucast l, xdr))"

definition JS_XDRUint16 :: "bool \<Rightarrow> (nat \<Rightarrow> bool) \<Rightarrow> u16 \<Rightarrow> u16 xdr" where
  "JS_XDRUint16 le am s = xdr_then (JS_XDRUint32 le am (ucast s)) s (\<lambda>l xdr. Some (True, ucast l, xdr))"

definition JS_XDRBytes :: "(nat \<Rightarrow> bool) \<Rightarrow> u8 list \<Rightarrow> u32 \<Rightarrow> u8 list xdr" where
  "JS_XDRBytes am bytes len = xdr_then
     (\<lambda>xdr. if x_mode xdr = JSXDR_ENCODE then mem_setbytes am bytes len xdr else mem_getbytes bytes len xdr) bytes
     (\<lambda>bytes xdr.
        let len = mem_tell xdr
        in if len mod JSXDR_ALIGN \<noteq> 0 then
             let padlen = JSXDR_ALIGN - len mod JSXDR_ALIGN
             in if x_mode xdr = JSXDR_ENCODE then
                  xdr_then (mem_setbytes am [0, 0, 0] padlen) bytes (\<lambda>_ xdr. Some (True, bytes, xdr)) xdr
                else
                  xdr_then (mem_seek am padlen JSXDR_SEEK_CUR) bytes (\<lambda>_ xdr. Some (True, bytes, xdr)) xdr
           else Some (True, bytes, xdr))"

text \<open>
  \<open>junk\<close> is what the uninitialized \<open>len\<close> holds; the result of coding it is not looked at. The
  string is given without its zero byte; a decoded one is what precedes its zero bytes.
\<close>

definition JS_XDRCString :: "bool \<Rightarrow> (nat \<Rightarrow> bool) \<Rightarrow> u32 \<Rightarrow> u8 list \<Rightarrow> u8 list xdr" where
  "JS_XDRCString le am junk sp = (\<lambda>xdr.
     let mode = x_mode xdr;
         len = (if mode = JSXDR_ENCODE then of_nat (length sp) else junk)
     in case JS_XDRUint32 le am len xdr of
          None \<Rightarrow> None
        | Some (ok, len, xdr) \<Rightarrow>
            if mode = JSXDR_DECODE \<and> \<not> am (unat (len + 1)) then Some (False, sp, xdr)
            else
              let buf = (if mode = JSXDR_DECODE then replicate (unat (len + 1)) 0 else sp @ [0])
              in xdr_then (JS_XDRBytes am buf len) sp
                   (\<lambda>buf xdr.
                      if mode = JSXDR_DECODE then
                        (if unat len < length buf then Some (True, takeWhile (\<lambda>c. c \<noteq> 0) (take (unat len) buf), xdr) else None)
                      else if mode = JSXDR_FREE then Some (True, [], xdr)
                      else Some (True, sp, xdr)) xdr)"

definition JS_XDRCStringOrNull :: "bool \<Rightarrow> (nat \<Rightarrow> bool) \<Rightarrow> u32 \<Rightarrow> u8 list option \<Rightarrow> u8 list option xdr" where
  "JS_XDRCStringOrNull le am junk sp =
     xdr_then (JS_XDRUint32 le am (if sp = None then 1 else 0)) sp
       (\<lambda>nul xdr.
          if nul \<noteq> 0 then Some (True, None, xdr)
          else map_option (\<lambda>(ok, s, xdr). (ok, if ok then Some s else sp, xdr)) (JS_XDRCString le am junk (case sp of None \<Rightarrow> [] | Some s \<Rightarrow> s) xdr))"

section \<open>Strings, doubles and values\<close>

text \<open>The units at position \<open>i\<close> of the block, read or written one after the other.\<close>

definition read_units :: "bool \<Rightarrow> nat \<Rightarrow> nat \<Rightarrow> u8 list \<Rightarrow> u16 list option" where
  "read_units le i n base =
     (if i + 2 * n \<le> length base
      then Some (map (\<lambda>k. JSXDR_SWAB16 le (le_word16 (store_bytes le (take 2 (drop (i + 2 * k) base))))) [0..<n]) else None)"

definition write_bytes_at :: "nat \<Rightarrow> u8 list \<Rightarrow> u8 list \<Rightarrow> u8 list option" where
  "write_bytes_at i bs base =
     (if i + length bs \<le> length base then Some (take i base @ bs @ drop (i + length bs) base) else None)"

definition units_bytes :: "bool \<Rightarrow> u16 list \<Rightarrow> u8 list" where
  "units_bytes le cs = concat (map (\<lambda>c. store_bytes le (word16_le (JSXDR_SWAB16 le c))) cs)"

text \<open>
  \<open>new_string\<close> says whether \<open>JS_NewUCString\<close> succeeds; the buffer decoded into has \<open>nbytes + 2\<close>
  bytes, a sum of \<open>size_t\<close>s, while \<open>nbytes\<close> has the width of \<open>uint32\<close>.
\<close>

definition JS_XDRString :: "bool \<Rightarrow> (nat \<Rightarrow> bool) \<Rightarrow> (u16 list \<Rightarrow> bool) \<Rightarrow> u32 \<Rightarrow> u16 list \<Rightarrow> u16 list xdr" where
  "JS_XDRString le am new_string junk str = (\<lambda>xdr.
     xdr_then (JS_XDRUint32 le am (if x_mode xdr = JSXDR_ENCODE then of_nat (length str) else junk)) str
       (\<lambda>len xdr.
          let nbytes = len * 2
          in if x_mode xdr = JSXDR_DECODE \<and> \<not> am (unat nbytes + 2) then Some (False, str, xdr)
             else
               let bufsize = unat nbytes + 2;
                   padlen = nbytes mod JSXDR_ALIGN;
                   padlen = (if padlen \<noteq> 0 then JSXDR_ALIGN - padlen else 0);
                   nbytes = nbytes + padlen
               in xdr_then (mem_raw am nbytes) str
                    (\<lambda>raw xdr.
                       case x_mode xdr of
                         JSXDR_ENCODE \<Rightarrow>
                           (case write_bytes_at raw (units_bytes le (take (unat len) str)) (x_base xdr) of
                              None \<Rightarrow> None
                            | Some base \<Rightarrow>
                                case write_bytes_at (raw + unat nbytes - unat padlen) (replicate (unat padlen) 0) base of
                                  None \<Rightarrow> None
                                | Some base \<Rightarrow> Some (True, str, xdr\<lparr>x_base := base\<rparr>))
                       | JSXDR_DECODE \<Rightarrow>
                           (case read_units le raw (unat len) (x_base xdr) of
                              None \<Rightarrow> None
                            | Some cs \<Rightarrow>
                                if bufsize < 2 * unat len + 2 then None
                                else if new_string cs then Some (True, cs, xdr) else Some (False, str, xdr))
                       | JSXDR_FREE \<Rightarrow> Some (True, str, xdr)) xdr) xdr)"

definition JS_XDRStringOrNull ::
  "bool \<Rightarrow> (nat \<Rightarrow> bool) \<Rightarrow> (u16 list \<Rightarrow> bool) \<Rightarrow> u32 \<Rightarrow> u16 list option \<Rightarrow> u16 list option xdr" where
  "JS_XDRStringOrNull le am new_string junk strp =
     xdr_then (JS_XDRUint32 le am (if strp = None then 1 else 0)) strp
       (\<lambda>nul xdr.
          if nul \<noteq> 0 then Some (True, None, xdr)
          else map_option (\<lambda>(ok, s, xdr). (ok, if ok then Some s else strp, xdr))
                 (JS_XDRString le am new_string junk (case strp of None \<Rightarrow> [] | Some s \<Rightarrow> s) xdr))"

text \<open>A double is its two words, low and high; \<open>new_double\<close> says whether \<open>JS_NewDouble\<close> succeeds.\<close>

definition JS_XDRDouble :: "bool \<Rightarrow> (nat \<Rightarrow> bool) \<Rightarrow> bool \<Rightarrow> u32 \<times> u32 \<Rightarrow> (u32 \<times> u32) xdr" where
  "JS_XDRDouble le am new_double = (\<lambda>(dlo, dhi).
     xdr_then (JS_XDRUint32 le am dlo) (dlo, dhi) (\<lambda>l.
       xdr_then (JS_XDRUint32 le am dhi) (dlo, dhi) (\<lambda>h xdr.
         if x_mode xdr = JSXDR_DECODE \<and> \<not> new_double then Some (False, (dlo, dhi), xdr)
         else Some (True, (l, h), xdr))))"

text \<open>
  Values by their tags, in a 64-bit \<open>jsval\<close>: an integer is shifted by one and tagged, with its sign
  (where local roots convert an unsigned mark), and void is an integer just out of range.
\<close>

datatype 'o xdr_value =
    X_Null
  | X_Void
  | X_Int u32
  | X_Double u32 u32
  | X_String "u16 list"
  | X_Boolean u32
  | X_Object 'o

definition JSVAL_OBJECT :: u32 where "JSVAL_OBJECT = 0x0"
definition JSVAL_INT :: u32 where "JSVAL_INT = 0x1"
definition JSVAL_DOUBLE :: u32 where "JSVAL_DOUBLE = 0x2"
definition JSVAL_STRING :: u32 where "JSVAL_STRING = 0x4"
definition JSVAL_BOOLEAN :: u32 where "JSVAL_BOOLEAN = 0x6"
definition JSVAL_XDRNULL :: u32 where "JSVAL_XDRNULL = 0x8"
definition JSVAL_XDRVOID :: u32 where "JSVAL_XDRVOID = 0xA"

definition INT32_TO_JSVAL :: "u32 \<Rightarrow> jsval" where "INT32_TO_JSVAL i = push_bit 1 (scast i) OR ucast JSVAL_INT"
definition JSVAL_VOID :: jsval where "JSVAL_VOID = push_bit 1 (0 - push_bit 30 1) OR ucast JSVAL_INT"
definition JSVAL_TAG :: "jsval \<Rightarrow> u32" where "JSVAL_TAG v = ucast (v AND ucast (JS_BITMASK 3))"

fun xdr_type :: "'o xdr_value \<Rightarrow> u32" where
  "xdr_type X_Null = JSVAL_XDRNULL"
| "xdr_type X_Void = JSVAL_XDRVOID"
| "xdr_type (X_Int i) = JSVAL_TAG (INT32_TO_JSVAL i)"
| "xdr_type (X_Double l h) = JSVAL_DOUBLE"
| "xdr_type (X_String s) = JSVAL_STRING"
| "xdr_type (X_Boolean b) = JSVAL_BOOLEAN"
| "xdr_type (X_Object obj) = JSVAL_OBJECT"

text \<open>
  What a decoded integer is as a value: it goes through its \<open>jsval\<close>, which one integer shares with
  void, and is read from it truncated to 32 bits. A boolean's payload goes over its tag.
\<close>

definition int_value :: "u32 \<Rightarrow> 'o xdr_value" where
  "int_value i = (if INT32_TO_JSVAL i = JSVAL_VOID then X_Void else X_Int (JSVAL_TO_INT (INT32_TO_JSVAL i)))"

definition boolean_value :: "u32 \<Rightarrow> 'o xdr_value" where
  "boolean_value b = X_Boolean (ucast (signed_drop_bit 3 (push_bit 3 (scast b) OR ucast JSVAL_BOOLEAN :: jsval)))"

definition decoded :: "xdr_state \<Rightarrow> 'o xdr_value \<Rightarrow> 'o xdr_value \<Rightarrow> 'o xdr_value" where
  "decoded xdr vp new = (if x_mode xdr = JSXDR_DECODE then new else vp)"

definition JS_XDRValue ::
  "bool \<Rightarrow> (nat \<Rightarrow> bool) \<Rightarrow> bool \<Rightarrow> (u16 list \<Rightarrow> bool) \<Rightarrow> ('o \<Rightarrow> 'o xdr) \<Rightarrow> 'o \<Rightarrow> u32 \<Rightarrow> 'o xdr_value \<Rightarrow> 'o xdr_value xdr" where
  "JS_XDRValue le am new_double new_string xdr_object no_object junk vp = (\<lambda>xdr.
     xdr_then (JS_XDRUint32 le am (if x_mode xdr = JSXDR_ENCODE then xdr_type vp else junk)) vp
       (\<lambda>type.
          if type = JSVAL_XDRNULL then (\<lambda>xdr. Some (True, X_Null, xdr))
          else if type = JSVAL_XDRVOID then (\<lambda>xdr. Some (True, X_Void, xdr))
          else if type = JSVAL_STRING then
            xdr_then (JS_XDRString le am new_string junk (case vp of X_String s \<Rightarrow> s | _ \<Rightarrow> [])) vp
              (\<lambda>str xdr. Some (True, decoded xdr vp (X_String str), xdr))
          else if type = JSVAL_DOUBLE then
            xdr_then (JS_XDRDouble le am new_double (case vp of X_Double l h \<Rightarrow> (l, h) | _ \<Rightarrow> (junk, junk))) vp
              (\<lambda>(l, h) xdr. Some (True, decoded xdr vp (X_Double l h), xdr))
          else if type = JSVAL_OBJECT then
            xdr_then (xdr_object (case vp of X_Object obj \<Rightarrow> obj | _ \<Rightarrow> no_object)) vp
              (\<lambda>obj xdr. Some (True, decoded xdr vp (X_Object obj), xdr))
          else if type = JSVAL_BOOLEAN then
            xdr_then (JS_XDRUint32 le am (case vp of X_Boolean b \<Rightarrow> b | _ \<Rightarrow> junk)) vp
              (\<lambda>b xdr. Some (True, decoded xdr vp (boolean_value b), xdr))
          else
            xdr_then (JS_XDRUint32 le am (case vp of X_Int i \<Rightarrow> i | _ \<Rightarrow> junk)) vp
              (\<lambda>i xdr. Some (True, decoded xdr vp (int_value i), xdr))) xdr)"

section \<open>Bytes and words\<close>

lemma length_word_le [simp]: "length (word32_le x) = 4" "length (word16_le c) = 2"
  by (simp_all add: word32_le_def word16_le_def)

lemma length_store_bytes [simp]: "length (store_bytes le bs) = length bs"
  by (simp add: store_bytes_def)

lemma store_bytes_twice [simp]: "store_bytes le (store_bytes le bs) = bs"
  by (simp add: store_bytes_def)

lemma le_word32_bytes [simp]: "le_word32 (word32_le x) = x"
proof (rule bit_word_eqI)
  fix n assume n: "n < LENGTH(32)"
  then consider "n < 8" | "8 \<le> n" "n < 16" | "16 \<le> n" "n < 24" | "24 \<le> n" by linarith
  then show "bit (le_word32 (word32_le x)) n = bit x n"
    by cases (use n in \<open>auto simp: le_word32_def word32_le_def bit_or_iff bit_push_bit_iff
      bit_unsigned_iff bit_drop_bit_eq\<close>)
qed

lemma le_word16_bytes [simp]: "le_word16 (word16_le x) = x"
proof (rule bit_word_eqI)
  fix n assume n: "n < LENGTH(16)"
  then consider "n < 8" | "8 \<le> n" by linarith
  then show "bit (le_word16 (word16_le x)) n = bit x n"
    by cases (use n in \<open>auto simp: le_word16_def word16_le_def bit_or_iff bit_push_bit_iff
      bit_unsigned_iff bit_drop_bit_eq\<close>)
qed

lemma swab32_masks:
  "JSXDR_SWAB32 False x = drop_bit 24 x OR (drop_bit 8 x AND push_bit 8 (mask 8)) OR
     (push_bit 8 x AND push_bit 16 (mask 8)) OR push_bit 24 x"
proof -
  have "(0xff00 :: u32) = push_bit 8 (mask 8)" "(0xff0000 :: u32) = push_bit 16 (mask 8)" by code_simp+
  then show ?thesis unfolding JSXDR_SWAB32_def by (simp only: if_False)
qed

lemma swab32_bytes [simp]: "store_bytes le (word32_le (JSXDR_SWAB32 le x)) = word32_le x"
proof (cases le)
  case False
  have "ucast (drop_bit (24 - 8 * k) (JSXDR_SWAB32 False x)) = (ucast (drop_bit (8 * k) x) :: u8)" if "k < 4" for k
  proof (rule bit_word_eqI)
    fix n assume "n < LENGTH(8)"
    moreover from that have "k = 0 \<or> k = 1 \<or> k = 2 \<or> k = 3" by linarith
    ultimately show "bit (ucast (drop_bit (24 - 8 * k) (JSXDR_SWAB32 False x)) :: u8) n = bit (ucast (drop_bit (8 * k) x) :: u8) n"
      by (elim disjE) (auto simp: swab32_masks bit_or_iff bit_and_iff bit_push_bit_iff
        bit_unsigned_iff bit_drop_bit_eq bit_mask_iff simp del: push_bit_mask_eq)
  qed
  from this [of 0] this [of 1] this [of 2] this [of 3] show ?thesis
    using False by (simp add: store_bytes_def word32_le_def)
qed (simp add: store_bytes_def JSXDR_SWAB32_def)

lemma swab16_bytes [simp]: "store_bytes le (word16_le (JSXDR_SWAB16 le x)) = word16_le x"
proof (cases le)
  case False
  have "ucast (drop_bit (8 - 8 * k) (JSXDR_SWAB16 False x)) = (ucast (drop_bit (8 * k) x) :: u8)" if "k < 2" for k
  proof (rule bit_word_eqI)
    fix n assume "n < LENGTH(8)"
    moreover from that have "k = 0 \<or> k = 1" by linarith
    ultimately show "bit (ucast (drop_bit (8 - 8 * k) (JSXDR_SWAB16 False x)) :: u8) n = bit (ucast (drop_bit (8 * k) x) :: u8) n"
      by (elim disjE) (auto simp: JSXDR_SWAB16_def bit_or_iff bit_push_bit_iff bit_unsigned_iff bit_drop_bit_eq)
  qed
  from this [of 0] this [of 1] show ?thesis
    using False by (simp add: store_bytes_def word16_le_def)
qed (simp add: store_bytes_def JSXDR_SWAB16_def)

lemma swab32_twice [simp]: "JSXDR_SWAB32 le (JSXDR_SWAB32 le x) = x"
  by (metis le_word32_bytes store_bytes_twice swab32_bytes)

lemma swab16_twice [simp]: "JSXDR_SWAB16 le (JSXDR_SWAB16 le x) = x"
  by (metis le_word16_bytes store_bytes_twice swab16_bytes)

lemma swab32_read [simp]: "JSXDR_SWAB32 le (le_word32 (store_bytes le (word32_le x))) = x"
  by (metis le_word32_bytes store_bytes_twice swab32_bytes swab32_twice)

lemma swab16_read [simp]: "JSXDR_SWAB16 le (le_word16 (store_bytes le (word16_le x))) = x"
  by (metis le_word16_bytes store_bytes_twice swab16_bytes swab16_twice)

section \<open>Writing a stream\<close>

definition enc_wf :: "xdr_state \<Rightarrow> bool" where
  "enc_wf xdr \<longleftrightarrow> x_mode xdr = JSXDR_ENCODE \<and> length (x_base xdr) = unat (x_limit xdr) \<and>
     unat (x_count xdr) \<le> unat (x_limit xdr) \<and> x_limit xdr \<noteq> 0"

definition xdr_out :: "xdr_state \<Rightarrow> u8 list" where
  "xdr_out xdr = take (unat (x_count xdr)) (x_base xdr)"

lemma length_xdr_out: "enc_wf xdr \<Longrightarrow> length (xdr_out xdr) = unat (x_count xdr)"
  by (simp add: enc_wf_def xdr_out_def)

lemma unat_roundup:
  assumes "unat x + 8192 \<le> 2 ^ 32"
  shows "unat x \<le> unat (XDR_ROUNDUP x MEM_BLOCK)"
proof -
  have "unat (x + MEM_BLOCK - 1) = unat x + 8191"
  proof -
    have "x + MEM_BLOCK - 1 = x + 8191" by (simp add: MEM_BLOCK_def)
    moreover have "unat (x + 8191) = unat x + 8191" using unat_add_exact [of x 8191] assms by simp
    ultimately show ?thesis by (simp only:)
  qed
  then have how: "unat (XDR_HOWMANY x MEM_BLOCK) = (unat x + 8191) div 8192"
    by (simp add: XDR_HOWMANY_def unat_div MEM_BLOCK_def)
  have bnd: "(unat x + 8191) div 8192 * 8192 \<le> unat x + 8191" by simp
  then have "unat (XDR_HOWMANY x MEM_BLOCK * MEM_BLOCK) = (unat x + 8191) div 8192 * 8192"
    using unat_mult_exact [of "XDR_HOWMANY x MEM_BLOCK" MEM_BLOCK] how assms
    by (simp add: MEM_BLOCK_def)
  moreover have "unat x \<le> (unat x + 8191) div 8192 * 8192"
    using div_mult_mod_eq [of "unat x + 8191" 8192] mod_less_divisor [of 8192 "unat x + 8191"] by linarith
  ultimately show ?thesis by (simp add: XDR_ROUNDUP_def)
qed

lemma MEM_NEED_enc:
  assumes wf: "enc_wf xdr" and am: "\<And>n. am n" and room: "unat (x_count xdr) + unat n + 8192 \<le> 2 ^ 32"
  obtains xdr' where "MEM_NEED am n xdr = Some (True, (), xdr')" "enc_wf xdr'" "x_count xdr' = x_count xdr"
    "xdr_out xdr' = xdr_out xdr" "unat (x_count xdr) + unat n \<le> length (x_base xdr')"
proof -
  have sum: "unat (x_count xdr + n) = unat (x_count xdr) + unat n"
    using unat_add_exact [of "x_count xdr" n] room by simp
  show ?thesis
  proof (cases "x_count xdr + n > x_limit xdr")
    case True
    define lim where "lim = XDR_ROUNDUP (x_count xdr + n) MEM_BLOCK"
    have lim: "unat (x_count xdr + n) \<le> unat lim" unfolding lim_def using room sum by (intro unat_roundup) simp
    have "unat (x_limit xdr) < unat (x_count xdr + n)" using True by (simp add: word_less_nat_alt)
    with lim have gt: "unat (x_limit xdr) < unat lim" by simp
    then have "lim \<noteq> 0" by (metis not_less_zero unat_eq_zero)
    have "MEM_NEED am n xdr = Some (True, (), xdr\<lparr>x_base := resize (unat lim) (x_base xdr), x_limit := lim\<rparr>)"
      using wf am True by (simp add: MEM_NEED_def enc_wf_def lim_def Let_def)
    moreover have "enc_wf (xdr\<lparr>x_base := resize (unat lim) (x_base xdr), x_limit := lim\<rparr>)"
      using wf lim sum gt \<open>lim \<noteq> 0\<close> by (simp add: enc_wf_def resize_def)
    moreover have "xdr_out (xdr\<lparr>x_base := resize (unat lim) (x_base xdr), x_limit := lim\<rparr>) = xdr_out xdr"
      using wf gt by (simp add: enc_wf_def xdr_out_def resize_def)
    ultimately show ?thesis using that lim sum wf gt by (auto simp: resize_def enc_wf_def)
  next
    case False
    then have "unat (x_count xdr) + unat n \<le> length (x_base xdr)"
      using wf sum by (simp add: word_less_nat_alt enc_wf_def)
    moreover have "MEM_NEED am n xdr = Some (True, (), xdr)"
      using wf False by (simp add: MEM_NEED_def enc_wf_def)
    ultimately show ?thesis using that wf by blast
  qed
qed

lemma mem_write_enc:
  assumes wf: "enc_wf xdr" and fits: "unat (x_count xdr) + length bs \<le> length (x_base xdr)"
    and n: "unat n = length bs"
  obtains xdr' where "mem_write bs xdr = Some xdr'" "enc_wf (MEM_INCR n xdr')"
    "xdr_out (MEM_INCR n xdr') = xdr_out xdr @ bs"
    "unat (x_count (MEM_INCR n xdr')) = unat (x_count xdr) + length bs"
proof -
  define base' where "base' = take (unat (x_count xdr)) (x_base xdr) @ bs @ drop (unat (x_count xdr) + length bs) (x_base xdr)"
  have len: "length base' = length (x_base xdr)" using fits by (simp add: base'_def)
  have "length (x_base xdr) < 2 ^ 32" using wf unsigned_less [of "x_limit xdr", where 'a = nat] by (simp add: enc_wf_def)
  then have cnt: "unat (x_count xdr + n) = unat (x_count xdr) + length bs"
    using unat_add_exact [of "x_count xdr" n] fits n by simp
  have "mem_write bs xdr = Some (xdr\<lparr>x_base := base'\<rparr>)" using fits by (simp add: mem_write_def base'_def Let_def)
  moreover have "enc_wf (MEM_INCR n (xdr\<lparr>x_base := base'\<rparr>))"
    using wf cnt len fits by (simp add: enc_wf_def MEM_INCR_def)
  moreover have "xdr_out (MEM_INCR n (xdr\<lparr>x_base := base'\<rparr>)) = xdr_out xdr @ bs"
    using cnt fits by (simp add: xdr_out_def MEM_INCR_def base'_def)
  ultimately show ?thesis using that cnt by (auto simp: MEM_INCR_def)
qed

lemma mem_setbytes_enc:
  assumes wf: "enc_wf xdr" and am: "\<And>n. am n" and room: "unat (x_count xdr) + unat n + 8192 \<le> 2 ^ 32"
    and n: "unat n \<le> length bs"
  obtains xdr' where "mem_setbytes am bs n xdr = Some (True, bs, xdr')" "enc_wf xdr'"
    "xdr_out xdr' = xdr_out xdr @ take (unat n) bs" "unat (x_count xdr') = unat (x_count xdr) + unat n"
proof -
  obtain xdr1 where 1: "MEM_NEED am n xdr = Some (True, (), xdr1)" "enc_wf xdr1" "x_count xdr1 = x_count xdr"
    "xdr_out xdr1 = xdr_out xdr" "unat (x_count xdr) + unat n \<le> length (x_base xdr1)"
    using MEM_NEED_enc [OF wf am room] .
  have "unat (x_count xdr1) + length (take (unat n) bs) \<le> length (x_base xdr1)" "unat n = length (take (unat n) bs)"
    using 1 n by simp_all
  from mem_write_enc [OF 1(2) this] obtain xdr2 where "mem_write (take (unat n) bs) xdr1 = Some xdr2"
    "enc_wf (MEM_INCR n xdr2)" "xdr_out (MEM_INCR n xdr2) = xdr_out xdr1 @ take (unat n) bs"
    "unat (x_count (MEM_INCR n xdr2)) = unat (x_count xdr1) + length (take (unat n) bs)" by blast
  then show ?thesis using that [of "MEM_INCR n xdr2"] 1 n by (simp add: mem_setbytes_def xdr_then_def)
qed

text \<open>The call \<open>c\<close> succeeds with \<open>a\<close> on every aligned stream with room, appending \<open>bs\<close>.\<close>

definition appends :: "'a xdr \<Rightarrow> 'a \<Rightarrow> u8 list \<Rightarrow> bool" where
  "appends c a bs \<longleftrightarrow> 4 dvd length bs \<and>
     (\<forall>xdr. enc_wf xdr \<and> 4 dvd unat (x_count xdr) \<and> unat (x_count xdr) + length bs + 8192 \<le> 2 ^ 32 \<longrightarrow>
        (\<exists>xdr'. c xdr = Some (True, a, xdr') \<and> enc_wf xdr' \<and> xdr_out xdr' = xdr_out xdr @ bs))"

lemma appends_elim:
  assumes "appends c a bs" "enc_wf xdr" "4 dvd unat (x_count xdr)" "unat (x_count xdr) + length bs + 8192 \<le> 2 ^ 32"
  obtains xdr' where "c xdr = Some (True, a, xdr')" "enc_wf xdr'" "xdr_out xdr' = xdr_out xdr @ bs"
    "unat (x_count xdr') = unat (x_count xdr) + length bs"
proof -
  from assms obtain xdr' where xdr': "c xdr = Some (True, a, xdr')" "enc_wf xdr'" "xdr_out xdr' = xdr_out xdr @ bs"
    unfolding appends_def by blast
  then have "unat (x_count xdr') = unat (x_count xdr) + length bs"
    using length_xdr_out [OF xdr'(2)] length_xdr_out [OF assms(2)] by simp
  with xdr' that show ?thesis by blast
qed

lemma appends_then:
  assumes c: "appends c a bs" and f: "appends (f a) b cs"
  shows "appends (xdr_then c z f) b (bs @ cs)"
  unfolding appends_def
proof (intro conjI allI impI; (elim conjE)?)
  show "4 dvd length (bs @ cs)" using c f by (simp add: appends_def)
  fix xdr assume xdr: "enc_wf xdr" "4 dvd unat (x_count xdr)" "unat (x_count xdr) + length (bs @ cs) + 8192 \<le> 2 ^ 32"
  then have "unat (x_count xdr) + length bs + 8192 \<le> 2 ^ 32" by simp
  from appends_elim [OF c xdr(1,2) this] obtain xdr1 where 1: "c xdr = Some (True, a, xdr1)" "enc_wf xdr1"
    "xdr_out xdr1 = xdr_out xdr @ bs" "unat (x_count xdr1) = unat (x_count xdr) + length bs" by blast
  have "4 dvd unat (x_count xdr1)" "unat (x_count xdr1) + length cs + 8192 \<le> 2 ^ 32"
    using 1 xdr c by (auto simp: appends_def)
  from appends_elim [OF f 1(2) this] obtain xdr2 where "f a xdr1 = Some (True, b, xdr2)" "enc_wf xdr2"
    "xdr_out xdr2 = xdr_out xdr1 @ cs" by blast
  then show "\<exists>xdr'. xdr_then c z f xdr = Some (True, b, xdr') \<and> enc_wf xdr' \<and> xdr_out xdr' = xdr_out xdr @ bs @ cs"
    using 1 by (simp add: xdr_then_def)
qed

lemma appends_return: "appends (\<lambda>xdr. Some (True, a, xdr)) a []"
  by (simp add: appends_def)

lemma appends_then_return:
  assumes "appends c a bs" "\<And>xdr. x_mode xdr = JSXDR_ENCODE \<Longrightarrow> f a xdr = Some (True, b, xdr)"
  shows "appends (xdr_then c z f) b bs"
proof -
  have "appends (f a) b []" using assms(2) by (simp add: appends_def enc_wf_def)
  from appends_then [where f = f, OF assms(1) this] show ?thesis by simp
qed

lemma appends_cong:
  assumes c: "appends c a bs"
    and eq: "\<And>xdr xdr'. x_mode xdr = JSXDR_ENCODE \<Longrightarrow> c xdr = Some (True, a, xdr') \<Longrightarrow> c' xdr = Some (True, a', xdr')"
  shows "appends c' a' bs"
  unfolding appends_def
proof (intro conjI allI impI; (elim conjE)?)
  show "4 dvd length bs" using c by (simp add: appends_def)
  fix xdr assume "enc_wf xdr" "4 dvd unat (x_count xdr)" "unat (x_count xdr) + length bs + 8192 \<le> 2 ^ 32"
  from appends_elim [OF c this] eq [of xdr] \<open>enc_wf xdr\<close>
  show "\<exists>xdr'. c' xdr = Some (True, a', xdr') \<and> enc_wf xdr' \<and> xdr_out xdr' = xdr_out xdr @ bs"
    by (metis enc_wf_def)
qed

lemma appends_uint32:
  assumes am: "\<And>n. am n"
  shows "appends (JS_XDRUint32 le am x) x (word32_le x)"
  unfolding appends_def
proof (intro conjI allI impI; (elim conjE)?)
  fix xdr assume wf: "enc_wf xdr" and room: "unat (x_count xdr) + length (word32_le x) + 8192 \<le> 2 ^ 32"
  have "unat (x_count xdr) + unat (4 :: u32) + 8192 \<le> 2 ^ 32" using room by simp
  from MEM_NEED_enc [where am = am, OF wf am this] obtain xdr1 where 1: "MEM_NEED am 4 xdr = Some (True, (), xdr1)" "enc_wf xdr1"
    "x_count xdr1 = x_count xdr" "xdr_out xdr1 = xdr_out xdr" "unat (x_count xdr) + 4 \<le> length (x_base xdr1)"
    by auto
  have "unat (x_count xdr1) + length (word32_le x) \<le> length (x_base xdr1)" "unat (4 :: u32) = length (word32_le x)"
    using 1 by simp_all
  from mem_write_enc [OF 1(2) this] obtain xdr2 where "mem_write (word32_le x) xdr1 = Some xdr2"
    "enc_wf (MEM_INCR 4 xdr2)" "xdr_out (MEM_INCR 4 xdr2) = xdr_out xdr1 @ word32_le x" by blast
  then show "\<exists>xdr'. JS_XDRUint32 le am x xdr = Some (True, x, xdr') \<and> enc_wf xdr' \<and> xdr_out xdr' = xdr_out xdr @ word32_le x"
    using 1 wf by (simp add: JS_XDRUint32_def mem_set32_def xdr_then_def enc_wf_def)
qed simp

section \<open>Reading a stream\<close>

definition dec_wf :: "xdr_state \<Rightarrow> bool" where
  "dec_wf xdr \<longleftrightarrow> x_mode xdr = JSXDR_DECODE \<and> length (x_base xdr) = unat (x_limit xdr) \<and>
     unat (x_count xdr) \<le> unat (x_limit xdr) \<and> unat (x_limit xdr) < 2 ^ 31"

definition xdr_in :: "xdr_state \<Rightarrow> u8 list" where
  "xdr_in xdr = drop (unat (x_count xdr)) (x_base xdr)"

text \<open>Moving on over \<open>n\<close> bytes, all else unchanged.\<close>

definition advanced :: "nat \<Rightarrow> xdr_state \<Rightarrow> xdr_state \<Rightarrow> bool" where
  "advanced n xdr xdr' \<longleftrightarrow> dec_wf xdr' \<and> x_base xdr' = x_base xdr \<and> unat (x_count xdr') = unat (x_count xdr) + n"

lemma advanced_in: "advanced n xdr xdr' \<Longrightarrow> xdr_in xdr' = drop n (xdr_in xdr)"
  by (simp add: advanced_def xdr_in_def add.commute)

lemma advanced_trans: "advanced m xdr xdr1 \<Longrightarrow> advanced n xdr1 xdr2 \<Longrightarrow> advanced (m + n) xdr xdr2"
  by (simp add: advanced_def)

lemma dec_sum:
  assumes wf: "dec_wf xdr" and n: "unat n < 2 ^ 31"
  shows "unat (x_count xdr + n) = unat (x_count xdr) + unat n"
  using assms by (intro unat_add_exact) (simp add: dec_wf_def)

lemma MEM_LEFT_dec:
  assumes wf: "dec_wf xdr" and n: "unat n < 2 ^ 31"
  shows "MEM_LEFT n xdr = Some (unat (x_count xdr) + unat n \<le> length (x_base xdr), (), xdr)"
  using wf dec_sum [OF assms] by (auto simp: MEM_LEFT_def dec_wf_def word_less_nat_alt)

lemma advanced_incr:
  assumes wf: "dec_wf xdr" and fits: "unat (x_count xdr) + unat n \<le> length (x_base xdr)"
  shows "advanced (unat n) xdr (MEM_INCR n xdr)"
proof -
  have "unat n < 2 ^ 31" using assms by (simp add: dec_wf_def)
  from dec_sum [OF wf this] assms show ?thesis by (simp add: advanced_def MEM_INCR_def dec_wf_def)
qed

lemma mem_read_dec:
  "unat (x_count xdr) + n \<le> length (x_base xdr) \<Longrightarrow> mem_read n xdr = Some (take n (xdr_in xdr))"
  by (simp add: mem_read_def xdr_in_def Let_def)

lemma in_fits: "dec_wf xdr \<Longrightarrow> xdr_in xdr = bs @ rest \<Longrightarrow> unat (x_count xdr) + length bs \<le> length (x_base xdr)"
proof -
  assume wf: "dec_wf xdr" and eq: "xdr_in xdr = bs @ rest"
  from eq have "length (x_base xdr) - unat (x_count xdr) = length bs + length rest"
    by (metis length_append length_drop xdr_in_def)
  then show ?thesis using wf unfolding dec_wf_def by linarith
qed

text \<open>The call \<open>c\<close> succeeds with \<open>a\<close> on every aligned stream that goes on with \<open>bs\<close>, and reads just that.\<close>

definition consumes :: "'a xdr \<Rightarrow> 'a \<Rightarrow> u8 list \<Rightarrow> bool" where
  "consumes c a bs \<longleftrightarrow> 4 dvd length bs \<and>
     (\<forall>xdr rest. dec_wf xdr \<and> 4 dvd unat (x_count xdr) \<and> xdr_in xdr = bs @ rest \<longrightarrow>
        (\<exists>xdr'. c xdr = Some (True, a, xdr') \<and> advanced (length bs) xdr xdr'))"

lemma consumes_then:
  assumes c: "consumes c a bs" and f: "consumes (f a) b cs"
  shows "consumes (xdr_then c z f) b (bs @ cs)"
  unfolding consumes_def
proof (intro conjI allI impI; (elim conjE)?)
  show "4 dvd length (bs @ cs)" using c f by (simp add: consumes_def)
  fix xdr rest assume xdr: "dec_wf xdr" "4 dvd unat (x_count xdr)" "xdr_in xdr = (bs @ cs) @ rest"
  then have "xdr_in xdr = bs @ (cs @ rest)" by simp
  then obtain xdr1 where 1: "c xdr = Some (True, a, xdr1)" "advanced (length bs) xdr xdr1"
    using c xdr unfolding consumes_def by blast
  have "xdr_in xdr1 = cs @ rest" using advanced_in [OF 1(2)] xdr by simp
  moreover have "dec_wf xdr1" "4 dvd unat (x_count xdr1)"
    using 1 xdr c by (auto simp: advanced_def consumes_def)
  ultimately obtain xdr2 where 2: "f a xdr1 = Some (True, b, xdr2)" "advanced (length cs) xdr1 xdr2"
    using f unfolding consumes_def by blast
  have "xdr_then c z f xdr = Some (True, b, xdr2)" using 1 2 by (simp add: xdr_then_def)
  then show "\<exists>xdr'. xdr_then c z f xdr = Some (True, b, xdr') \<and> advanced (length (bs @ cs)) xdr xdr'"
    using advanced_trans [OF 1(2) 2(2)] by auto
qed

lemma consumes_return: "(\<And>xdr. x_mode xdr = JSXDR_DECODE \<Longrightarrow> f xdr = Some (True, b, xdr)) \<Longrightarrow> consumes f b []"
  by (simp add: consumes_def dec_wf_def advanced_def)

lemma consumes_then_return:
  assumes "consumes c a bs" "\<And>xdr. x_mode xdr = JSXDR_DECODE \<Longrightarrow> f a xdr = Some (True, b, xdr)"
  shows "consumes (xdr_then c z f) b bs"
  using consumes_then [where f = f, OF assms(1) consumes_return [of "f a" b]] assms(2) by simp

lemma consumes_cong:
  assumes c: "consumes c a bs"
    and eq: "\<And>xdr xdr'. x_mode xdr = JSXDR_DECODE \<Longrightarrow> c xdr = Some (True, a, xdr') \<Longrightarrow> c' xdr = Some (True, a', xdr')"
  shows "consumes c' a' bs"
  unfolding consumes_def
proof (intro conjI allI impI; (elim conjE)?)
  show "4 dvd length bs" using c by (simp add: consumes_def)
  fix xdr rest assume "dec_wf xdr" "4 dvd unat (x_count xdr)" "xdr_in xdr = bs @ rest"
  then show "\<exists>xdr'. c' xdr = Some (True, a', xdr') \<and> advanced (length bs) xdr xdr'"
    using c eq [of xdr] unfolding consumes_def by (metis dec_wf_def)
qed

lemma consumes_uint32: "consumes (JS_XDRUint32 le am z) x (word32_le x)"
  unfolding consumes_def
proof (intro conjI allI impI; (elim conjE)?)
  fix xdr rest assume wf: "dec_wf xdr" and "in": "xdr_in xdr = word32_le x @ rest"
  have fits: "unat (x_count xdr) + unat (4 :: u32) \<le> length (x_base xdr)" using in_fits [OF wf "in"] by simp
  then have "mem_read 4 xdr = Some (word32_le x)" using mem_read_dec [of xdr 4] "in" by simp
  moreover have "JSXDR_SWAB32 le (le_word32 (store_bytes le (word32_le x))) = x" by simp
  moreover have "MEM_LEFT 4 xdr = Some (True, (), xdr)" using MEM_LEFT_dec [OF wf, of 4] fits by simp
  ultimately have "JS_XDRUint32 le am z xdr = Some (True, x, MEM_INCR 4 xdr)"
    using wf by (simp add: JS_XDRUint32_def mem_get32_def xdr_then_def dec_wf_def)
  then show "\<exists>xdr'. JS_XDRUint32 le am z xdr = Some (True, x, xdr') \<and> advanced (length (word32_le x)) xdr xdr'"
    using advanced_incr [OF wf fits] by simp
qed simp

section \<open>Strings of bytes\<close>

definition padded :: "u8 list \<Rightarrow> u8 list" where
  "padded bs = bs @ replicate ((4 - length bs mod 4) mod 4) 0"

lemma pad_dvd: "4 dvd n + (4 - n mod 4) mod 4" for n :: nat
proof -
  have "n mod 4 = 0 \<or> n mod 4 = 1 \<or> n mod 4 = 2 \<or> n mod 4 = 3" by presburger
  then show ?thesis by (elim disjE; simp; presburger)
qed

lemma padded_dvd [simp]: "4 dvd length (padded bs)"
  using pad_dvd [of "length bs"] by (simp add: padded_def)

lemma appends_bytes:
  assumes am: "\<And>n. am n" and n: "unat n \<le> length bs"
  shows "appends (JS_XDRBytes am bs n) bs (padded (take (unat n) bs))"
  unfolding appends_def
proof (intro conjI allI impI; (elim conjE)?)
  fix xdr assume wf: "enc_wf xdr" and al: "4 dvd unat (x_count xdr)"
    and room: "unat (x_count xdr) + length (padded (take (unat n) bs)) + 8192 \<le> 2 ^ 32"
  define pad where "pad = (4 - unat n mod 4) mod 4"
  have len: "length (padded (take (unat n) bs)) = unat n + pad" using n by (simp add: padded_def pad_def min_absorb2)
  have "unat (x_count xdr) + unat n + 8192 \<le> 2 ^ 32" using room len by simp
  from mem_setbytes_enc [where am = am, OF wf am this n] obtain xdr1 where 1: "mem_setbytes am bs n xdr = Some (True, bs, xdr1)" "enc_wf xdr1"
    "xdr_out xdr1 = xdr_out xdr @ take (unat n) bs" "unat (x_count xdr1) = unat (x_count xdr) + unat n" by blast
  have mod: "unat (x_count xdr1 mod JSXDR_ALIGN) = unat n mod 4"
    using 1(4) al by (auto simp: unat_mod JSXDR_ALIGN_def elim!: dvdE)
  have modes: "x_mode xdr = JSXDR_ENCODE" "x_mode xdr1 = JSXDR_ENCODE" using wf 1(2) by (auto simp: enc_wf_def)
  show "\<exists>xdr'. JS_XDRBytes am bs n xdr = Some (True, bs, xdr') \<and> enc_wf xdr' \<and> xdr_out xdr' = xdr_out xdr @ padded (take (unat n) bs)"
  proof (cases "unat n mod 4 = 0")
    case True
    then have "x_count xdr1 mod JSXDR_ALIGN = 0" using mod by (simp add: unat_eq_zero)
    then show ?thesis using 1 modes True n by (simp add: JS_XDRBytes_def xdr_then_def mem_tell_def padded_def min_absorb2)
  next
    case False
    then have nz: "x_count xdr1 mod JSXDR_ALIGN \<noteq> 0" using mod by (metis unat_0)
    have pad: "unat (JSXDR_ALIGN - x_count xdr1 mod JSXDR_ALIGN) = pad"
      using unat_sub_exact [of "x_count xdr1 mod JSXDR_ALIGN" JSXDR_ALIGN] mod False
      by (simp add: JSXDR_ALIGN_def pad_def)
    have "pad < 4" unfolding pad_def by simp
    then have "pad \<le> 3" by simp
    then have "unat (JSXDR_ALIGN - x_count xdr1 mod JSXDR_ALIGN) \<le> length [0, 0, 0 :: u8]"
      "unat (x_count xdr1) + unat (JSXDR_ALIGN - x_count xdr1 mod JSXDR_ALIGN) + 8192 \<le> 2 ^ 32"
      using pad room len 1 by simp_all
    from mem_setbytes_enc [where am = am, OF 1(2) am this(2) this(1)] obtain xdr2 where
      2: "mem_setbytes am [0, 0, 0] (JSXDR_ALIGN - x_count xdr1 mod JSXDR_ALIGN) xdr1 = Some (True, [0, 0, 0], xdr2)"
      "enc_wf xdr2" "xdr_out xdr2 = xdr_out xdr1 @ take pad [0, 0, 0]" unfolding pad by blast
    have "take pad [0, 0, 0 :: u8] = replicate pad 0"
      using \<open>pad \<le> 3\<close> by (auto simp: le_Suc_eq numeral_3_eq_3)
    then show ?thesis using 1 2 modes nz n
      by (simp add: JS_XDRBytes_def xdr_then_def mem_tell_def padded_def min_absorb2 pad_def)
  qed
qed simp

lemma consumes_bytes:
  assumes n: "unat n = length bs" and buf: "length bs \<le> length buf"
  shows "consumes (JS_XDRBytes am buf n) (bs @ drop (length bs) buf) (padded bs)"
  unfolding consumes_def
proof (intro conjI allI impI; (elim conjE)?)
  fix xdr rest assume wf: "dec_wf xdr" and al: "4 dvd unat (x_count xdr)" and "in": "xdr_in xdr = padded bs @ rest"
  define pad where "pad = (4 - length bs mod 4) mod 4"
  have len: "length (padded bs) = length bs + pad" by (simp add: padded_def pad_def)
  have fits: "unat (x_count xdr) + unat n \<le> length (x_base xdr)" using in_fits [OF wf "in"] len n by simp
  have small: "unat n < 2 ^ 31" using fits wf unfolding dec_wf_def by linarith
  have 0: "MEM_LEFT n xdr = Some (True, (), xdr)" using MEM_LEFT_dec [OF wf small] fits by simp
  have "mem_read (unat n) xdr = Some bs" using mem_read_dec [OF fits] "in" n by (simp add: padded_def)
  with 0 have get: "mem_getbytes buf n xdr = Some (True, bs @ drop (length bs) buf, MEM_INCR n xdr)"
    using n buf by (simp add: mem_getbytes_def xdr_then_def)
  have adv: "advanced (length bs) xdr (MEM_INCR n xdr)" using advanced_incr [OF wf fits] n by simp
  define xdr1 where "xdr1 = MEM_INCR n xdr"
  have wf1: "dec_wf xdr1" using adv by (simp add: advanced_def xdr1_def)
  have modes: "x_mode xdr = JSXDR_DECODE" "x_mode xdr1 = JSXDR_DECODE" using wf wf1 by (auto simp: dec_wf_def)
  have cnt: "unat (x_count xdr1) = unat (x_count xdr) + length bs" using adv by (simp add: advanced_def xdr1_def)
  have mod: "unat (x_count xdr1 mod JSXDR_ALIGN) = length bs mod 4"
    using cnt al by (auto simp: unat_mod JSXDR_ALIGN_def elim!: dvdE)
  show "\<exists>xdr'. JS_XDRBytes am buf n xdr = Some (True, bs @ drop (length bs) buf, xdr') \<and> advanced (length (padded bs)) xdr xdr'"
  proof (cases "length bs mod 4 = 0")
    case True
    then have "x_count xdr1 mod JSXDR_ALIGN = 0" using mod by (simp add: unat_eq_zero)
    moreover have "pad = 0" using True by (simp add: pad_def)
    ultimately show ?thesis using get adv modes len xdr1_def [symmetric]
      by (simp add: JS_XDRBytes_def xdr_then_def mem_tell_def)
  next
    case False
    then have nz: "x_count xdr1 mod JSXDR_ALIGN \<noteq> 0" using mod by (metis unat_0)
    define p where "p = JSXDR_ALIGN - x_count xdr1 mod JSXDR_ALIGN"
    have p: "unat p = pad"
      using unat_sub_exact [of "x_count xdr1 mod JSXDR_ALIGN" JSXDR_ALIGN] mod False
      by (simp add: JSXDR_ALIGN_def pad_def p_def)
    have "pad < 4" unfolding pad_def by simp
    then have "pad \<le> 3" by simp
    have fits1: "unat (x_count xdr1) + unat p \<le> length (x_base xdr1)"
      using in_fits [OF wf "in"] cnt len p adv by (simp add: advanced_def xdr1_def)
    have p31: "unat p < 2 ^ 31" using p \<open>pad \<le> 3\<close> by simp
    have "unat (x_count xdr1 + p) < 2 ^ 31"
      using dec_sum [OF wf1 p31] fits1 wf1 unfolding dec_wf_def by linarith
    then have "0 \<le> sint (x_count xdr1 + p)" by (rule sint_nonneg)
    moreover have "MEM_NEED am p xdr1 = Some (True, (), xdr1)"
      using MEM_LEFT_dec [OF wf1 p31] fits1 modes by (simp add: MEM_NEED_def)
    ultimately have "mem_seek am p JSXDR_SEEK_CUR xdr1 = Some (True, (), MEM_INCR p xdr1)"
      by (simp add: mem_seek_def xdr_then_def)
    moreover have "advanced (length (padded bs)) xdr (MEM_INCR p xdr1)"
      using advanced_trans [OF adv [folded xdr1_def] advanced_incr [OF wf1 fits1]] p len by simp
    ultimately show ?thesis using get modes nz xdr1_def [symmetric] p_def
      by (simp add: JS_XDRBytes_def xdr_then_def mem_tell_def Let_def)
  qed
qed simp

definition cstring_bytes :: "u8 list \<Rightarrow> u8 list" where
  "cstring_bytes s = word32_le (of_nat (length s)) @ padded s"

lemma unat_of_nat_length: "length s < 2 ^ 31 \<Longrightarrow> unat (of_nat (length s) :: u32) = length s"
  by (simp add: unat_of_nat take_bit_eq_mod)

lemma appends_cstring:
  assumes am: "\<And>n. am n" and s: "length s < 2 ^ 31"
  shows "appends (JS_XDRCString le am junk s) s (cstring_bytes s)"
proof -
  define n :: u32 where "n = of_nat (length s)"
  have n: "unat n = length s" unfolding n_def using s by (rule unat_of_nat_length)
  have "appends (JS_XDRBytes am (s @ [0]) n) (s @ [0]) (padded s)"
    using appends_bytes [where am = am, OF am, of n "s @ [0]"] n by simp
  then have "appends (xdr_then (JS_XDRBytes am (s @ [0]) n) s (\<lambda>buf xdr. Some (True, s, xdr))) s (padded s)"
    by (rule appends_then_return) simp
  then have "appends (xdr_then (JS_XDRUint32 le am n) s (\<lambda>n. xdr_then (JS_XDRBytes am (s @ [0]) n) s (\<lambda>buf xdr. Some (True, s, xdr))))
      s (word32_le n @ padded s)"
    by (rule appends_then [OF appends_uint32 [where am = am, OF am]])
  then have "appends (JS_XDRCString le am junk s) s (word32_le n @ padded s)"
  proof (rule appends_cong)
    fix xdr xdr' :: xdr_state assume mode: "x_mode xdr = JSXDR_ENCODE"
      and "xdr_then (JS_XDRUint32 le am n) s (\<lambda>n. xdr_then (JS_XDRBytes am (s @ [0]) n) s (\<lambda>buf xdr. Some (True, s, xdr))) xdr = Some (True, s, xdr')"
    then show "JS_XDRCString le am junk s xdr = Some (True, s, xdr')"
      by (auto simp: JS_XDRCString_def xdr_then_def n_def split: option.splits if_splits)
  qed
  then show ?thesis by (simp add: cstring_bytes_def n_def)
qed

lemma takeWhile_all: "0 \<notin> set s \<Longrightarrow> takeWhile (\<lambda>c. c \<noteq> (0 :: u8)) s = s"
  by (induction s) auto

text \<open>What \<open>JS_XDRCString\<close> does once a decoded length is known.\<close>

definition cstring_rest :: "(nat \<Rightarrow> bool) \<Rightarrow> u8 list \<Rightarrow> u32 \<Rightarrow> u8 list xdr" where
  "cstring_rest am z len = xdr_then (JS_XDRBytes am (replicate (unat (len + 1)) 0) len) z
     (\<lambda>buf xdr. if unat len < length buf
        then Some (True, takeWhile (\<lambda>c. c \<noteq> 0) (take (unat len) buf), xdr) else None)"

lemma xdr_uint32_mode: "JS_XDRUint32 le am x xdr = Some (ok, y, xdr') \<Longrightarrow> x_mode xdr' = x_mode xdr"
  by (auto simp: JS_XDRUint32_def mem_set32_def mem_get32_def xdr_then_def MEM_NEED_def MEM_LEFT_def
      mem_write_def MEM_INCR_def Let_def split: JSXDRMode.splits option.splits if_splits)

lemma cstring_decode:
  assumes "\<And>n. am n" "x_mode xdr = JSXDR_DECODE" "JS_XDRUint32 le am junk xdr = Some (True, len, xdr1)"
  shows "JS_XDRCString le am junk z xdr = cstring_rest am z len xdr1"
  using assms by (simp add: JS_XDRCString_def cstring_rest_def Let_def)

lemma consumes_cstring:
  assumes am: "\<And>n. am n" and s: "length s < 2 ^ 31" "0 \<notin> set s"
  shows "consumes (JS_XDRCString le am junk z) s (cstring_bytes s)"
proof -
  define n :: u32 where "n = of_nat (length s)"
  have n: "unat n = length s" unfolding n_def using s(1) by (rule unat_of_nat_length)
  have n1: "unat (n + 1) = length s + 1" using unat_inc_exact [of n] n s by simp
  define buf where "buf = replicate (unat (n + 1)) (0 :: u8)"
  have "consumes (JS_XDRBytes am buf n) (s @ drop (length s) buf) (padded s)"
    using n n1 by (intro consumes_bytes) (simp_all add: buf_def)
  then have "consumes (cstring_rest am z n) s (padded s)" unfolding cstring_rest_def buf_def [symmetric]
    by (rule consumes_then_return) (use n n1 s in \<open>simp add: buf_def takeWhile_all\<close>)
  then have "consumes (xdr_then (JS_XDRUint32 le am junk) z (cstring_rest am z)) s (word32_le n @ padded s)"
    by (rule consumes_then [OF consumes_uint32])
  then have "consumes (JS_XDRCString le am junk z) s (word32_le n @ padded s)"
  proof (rule consumes_cong)
    fix xdr xdr' :: xdr_state assume mode: "x_mode xdr = JSXDR_DECODE"
      and "xdr_then (JS_XDRUint32 le am junk) z (cstring_rest am z) xdr = Some (True, s, xdr')"
    then obtain len xdr1 where "JS_XDRUint32 le am junk xdr = Some (True, len, xdr1)" "cstring_rest am z len xdr1 = Some (True, s, xdr')"
      by (auto simp: xdr_then_def split: option.splits if_splits)
    then show "JS_XDRCString le am junk z xdr = Some (True, s, xdr')"
      using cstring_decode [where am = am, OF am mode] by simp
  qed
  then show ?thesis by (simp add: cstring_bytes_def n_def)
qed

section \<open>Strings of units\<close>

definition string_bytes :: "u16 list \<Rightarrow> u8 list" where
  "string_bytes s = word32_le (of_nat (length s)) @ padded (concat (map word16_le s))"

lemma units_bytes_eq: "units_bytes le s = concat (map word16_le s)"
  by (simp add: units_bytes_def)

lemma length_units [simp]: "length (concat (map word16_le s)) = 2 * length s"
  by (induction s) simp_all

lemma drop_units: "k < length s \<Longrightarrow> take 2 (drop (2 * k) (concat (map word16_le s) @ rest)) = word16_le (s ! k)"
proof (induction s arbitrary: k)
  case (Cons c s)
  then show ?case by (cases k) simp_all
qed simp

lemma read_units_in:
  assumes "drop i base = concat (map word16_le s) @ rest" and "i \<le> length base"
  shows "read_units le i (length s) base = Some s"
proof -
  have "length base - i = 2 * length s + length rest"
    by (metis assms(1) length_append length_drop length_units)
  then have "i + 2 * length s \<le> length base" using assms(2) by linarith
  moreover have "JSXDR_SWAB16 le (le_word16 (store_bytes le (take 2 (drop (i + 2 * k) base)))) = s ! k" if "k < length s" for k
  proof -
    have "drop (i + 2 * k) base = drop (2 * k) (drop i base)" by (simp add: add.commute)
    then show ?thesis using drop_units [OF that, of rest] assms by simp
  qed
  ultimately show ?thesis by (auto simp: read_units_def intro: nth_equalityI)
qed

text \<open>The byte and padding counts of a string that is not too long.\<close>

lemma string_counts:
  fixes n :: u32
  assumes "unat n < 2 ^ 30"
  defines "padlen \<equiv> (if n * 2 mod JSXDR_ALIGN \<noteq> 0 then JSXDR_ALIGN - n * 2 mod JSXDR_ALIGN else 0)"
  shows "unat (n * 2) = 2 * unat n" "unat padlen = (4 - 2 * unat n mod 4) mod 4"
    "unat (n * 2 + padlen) = 2 * unat n + unat padlen" "unat padlen < 4"
proof -
  show 1: "unat (n * 2) = 2 * unat n" using unat_mult_exact [of n 2] assms(1) by simp
  then have 2: "unat (n * 2 mod JSXDR_ALIGN) = 2 * unat n mod 4" by (simp add: unat_mod JSXDR_ALIGN_def)
  show pad: "unat padlen = (4 - 2 * unat n mod 4) mod 4"
  proof (cases "2 * unat n mod 4 = 0")
    case True
    then have "n * 2 mod JSXDR_ALIGN = 0" using 2 by (simp add: unat_eq_zero)
    then show ?thesis using True by (simp add: padlen_def)
  next
    case False
    then have "n * 2 mod JSXDR_ALIGN \<noteq> 0" using 2 by (metis unat_0)
    moreover have "unat (JSXDR_ALIGN - n * 2 mod JSXDR_ALIGN) = unat JSXDR_ALIGN - unat (n * 2 mod JSXDR_ALIGN)"
      by (rule unat_sub_exact) (use 2 in \<open>simp add: JSXDR_ALIGN_def\<close>)
    ultimately show ?thesis using 2 False by (simp add: padlen_def JSXDR_ALIGN_def)
  qed
  show 4: "unat padlen < 4" unfolding pad by simp
  show "unat (n * 2 + padlen) = 2 * unat n + unat padlen"
    using unat_add_exact [of "n * 2" padlen] 1 4 assms(1) by simp
qed

lemma appends_string:
  assumes am: "\<And>n. am n" and s: "length s < 2 ^ 30"
  shows "appends (JS_XDRString le am new_string junk s) s (string_bytes s)"
  unfolding appends_def
proof (intro conjI allI impI; (elim conjE)?)
  show "4 dvd length (string_bytes s)" by (simp add: string_bytes_def)
  fix xdr assume wf: "enc_wf xdr" and al: "4 dvd unat (x_count xdr)"
    and room: "unat (x_count xdr) + length (string_bytes s) + 8192 \<le> 2 ^ 32"
  define n :: u32 where "n = of_nat (length s)"
  have n: "unat n = length s" unfolding n_def using s unat_of_nat_length [of s] by simp
  define padlen where "padlen = (if n * 2 mod JSXDR_ALIGN \<noteq> 0 then JSXDR_ALIGN - n * 2 mod JSXDR_ALIGN else 0)"
  have pad: "unat padlen = (4 - 2 * length s mod 4) mod 4" "unat (n * 2 + padlen) = 2 * length s + unat padlen"
    using string_counts [of n] s n by (simp_all add: padlen_def)
  define bytes where "bytes = concat (map word16_le s)"
  have sb: "string_bytes s = word32_le n @ (bytes @ replicate (unat padlen) 0)"
    by (simp add: string_bytes_def padded_def n_def bytes_def pad)
  have "unat (x_count xdr) + length (word32_le n) + 8192 \<le> 2 ^ 32" using room sb by simp
  from appends_elim [OF appends_uint32 [where am = am and le = le and x = n, OF am] wf al this]
  obtain xdr1 where 1: "JS_XDRUint32 le am n xdr = Some (True, n, xdr1)" "enc_wf xdr1"
    "xdr_out xdr1 = xdr_out xdr @ word32_le n" "unat (x_count xdr1) = unat (x_count xdr) + length (word32_le n)" by blast
  have "unat (x_count xdr1) + unat (n * 2 + padlen) + 8192 \<le> 2 ^ 32" using room sb 1 pad by (simp add: bytes_def)
  from MEM_NEED_enc [where am = am, OF 1(2) am this]
  obtain xdr2 where 2: "MEM_NEED am (n * 2 + padlen) xdr1 = Some (True, (), xdr2)" "enc_wf xdr2"
    "x_count xdr2 = x_count xdr1" "xdr_out xdr2 = xdr_out xdr1"
    "unat (x_count xdr1) + unat (n * 2 + padlen) \<le> length (x_base xdr2)" by blast
  define bs where "bs = bytes @ replicate (unat padlen) 0"
  have lenbs: "length bs = unat (n * 2 + padlen)" using pad by (simp add: bs_def bytes_def)
  have fits: "unat (x_count xdr2) + length bs \<le> length (x_base xdr2)" using 2 lenbs by simp
  from mem_write_enc [OF 2(2) this lenbs [symmetric]] obtain xdr3 where 3: "mem_write bs xdr2 = Some xdr3"
    "enc_wf (MEM_INCR (n * 2 + padlen) xdr3)" "xdr_out (MEM_INCR (n * 2 + padlen) xdr3) = xdr_out xdr2 @ bs" by blast
  define i where "i = unat (x_count xdr2)"
  define base1 where "base1 = take i (x_base xdr2) @ bytes @ drop (i + length bytes) (x_base xdr2)"
  have w1: "write_bytes_at i (units_bytes le (take (unat n) s)) (x_base xdr2) = Some base1"
    using fits n by (simp add: write_bytes_at_def units_bytes_eq base1_def bytes_def bs_def i_def)
  have w2: "write_bytes_at (i + unat (n * 2 + padlen) - unat padlen) (replicate (unat padlen) 0) base1 = Some (x_base xdr3)"
    using fits pad 3(1) by (auto simp: write_bytes_at_def base1_def bytes_def bs_def i_def mem_write_def Let_def ac_simps
        split: if_splits)
  have raw: "mem_raw am (n * 2 + padlen) xdr1 = Some (True, i, MEM_INCR (n * 2 + padlen) xdr2)"
    using 1 2 by (auto simp: mem_raw_def xdr_then_def enc_wf_def i_def unat_eq_zero)
  have eq3: "(MEM_INCR (n * 2 + padlen) xdr2)\<lparr>x_base := x_base xdr3\<rparr> = MEM_INCR (n * 2 + padlen) xdr3"
    using 3(1) by (auto simp: mem_write_def MEM_INCR_def Let_def split: if_splits)
  have modes: "x_mode xdr = JSXDR_ENCODE" "x_mode xdr1 = JSXDR_ENCODE" "x_mode xdr2 = JSXDR_ENCODE"
    using wf 1 2 by (auto simp: enc_wf_def)
  then have modes2: "x_mode (MEM_INCR (n * 2 + padlen) xdr2) = JSXDR_ENCODE"
    "x_base (MEM_INCR (n * 2 + padlen) xdr2) = x_base xdr2" by (simp_all add: MEM_INCR_def)
  have "JS_XDRString le am new_string junk s xdr = Some (True, s, MEM_INCR (n * 2 + padlen) xdr3)"
    using 1(1) raw w1 w2 eq3 modes modes2
    by (simp add: JS_XDRString_def xdr_then_def n_def [symmetric] padlen_def [symmetric] Let_def)
  moreover have "xdr_out (MEM_INCR (n * 2 + padlen) xdr3) = xdr_out xdr @ string_bytes s"
    using 3 2 1 sb bs_def by simp
  ultimately show "\<exists>xdr'. JS_XDRString le am new_string junk s xdr = Some (True, s, xdr') \<and> enc_wf xdr' \<and>
      xdr_out xdr' = xdr_out xdr @ string_bytes s"
    using 3(2) by blast
qed

lemma consumes_string:
  assumes am: "\<And>n. am n" and new: "new_string s" and s: "length s < 2 ^ 30"
  shows "consumes (JS_XDRString le am new_string junk z) s (string_bytes s)"
  unfolding consumes_def
proof (intro conjI allI impI; (elim conjE)?)
  show "4 dvd length (string_bytes s)" by (simp add: string_bytes_def)
  fix xdr rest assume wf: "dec_wf xdr" and al: "4 dvd unat (x_count xdr)" and "in": "xdr_in xdr = string_bytes s @ rest"
  define n :: u32 where "n = of_nat (length s)"
  have n: "unat n = length s" unfolding n_def using s unat_of_nat_length [of s] by simp
  define padlen where "padlen = (if n * 2 mod JSXDR_ALIGN \<noteq> 0 then JSXDR_ALIGN - n * 2 mod JSXDR_ALIGN else 0)"
  have pad: "unat padlen = (4 - 2 * length s mod 4) mod 4" "unat (n * 2 + padlen) = 2 * length s + unat padlen" "unat (n * 2) = 2 * length s"
    "unat padlen < 4"
    using string_counts [of n] s n by (simp_all add: padlen_def)
  define bytes where "bytes = concat (map word16_le s)"
  have sb: "string_bytes s = word32_le n @ bytes @ replicate (unat padlen) 0"
    by (simp add: string_bytes_def padded_def n_def bytes_def pad)
  have "xdr_in xdr = word32_le n @ (bytes @ replicate (unat padlen) 0 @ rest)" using "in" sb by simp
  then obtain xdr1 where 1: "JS_XDRUint32 le am junk xdr = Some (True, n, xdr1)" "advanced 4 xdr xdr1"
    using consumes_uint32 [of le am junk n] wf al unfolding consumes_def by auto
  have wf1: "dec_wf xdr1" using 1(2) by (simp add: advanced_def)
  have in1: "xdr_in xdr1 = bytes @ replicate (unat padlen) 0 @ rest" using advanced_in [OF 1(2)] "in" sb by simp
  then have "xdr_in xdr1 = (bytes @ replicate (unat padlen) 0) @ rest" by simp
  from in_fits [OF wf1 this] have fits: "unat (x_count xdr1) + unat (n * 2 + padlen) \<le> length (x_base xdr1)"
    using pad by (simp add: bytes_def)
  have small: "unat (n * 2 + padlen) < 2 ^ 31" using fits wf1 unfolding dec_wf_def by linarith
  have modes: "x_mode xdr = JSXDR_DECODE" "x_mode xdr1 = JSXDR_DECODE" using wf wf1 by (auto simp: dec_wf_def)
  have "MEM_LEFT (n * 2 + padlen) xdr1 = Some (True, (), xdr1)" using MEM_LEFT_dec [OF wf1 small] fits by simp
  moreover have "x_count xdr1 \<noteq> 0" using 1(2) by (auto simp: advanced_def)
  ultimately have raw: "mem_raw am (n * 2 + padlen) xdr1 = Some (True, unat (x_count xdr1), MEM_INCR (n * 2 + padlen) xdr1)"
    using modes by (simp add: mem_raw_def xdr_then_def)
  have units: "read_units le (unat (x_count xdr1)) (unat n) (x_base xdr1) = Some s"
    using read_units_in [OF in1 [unfolded xdr_in_def bytes_def]] n wf1 by (simp add: dec_wf_def)
  have buf: "\<not> unat (n * 2) + 2 < 2 * unat n + 2" using pad n by simp
  have modes2: "x_mode (MEM_INCR (n * 2 + padlen) xdr1) = JSXDR_DECODE"
    "x_base (MEM_INCR (n * 2 + padlen) xdr1) = x_base xdr1" using modes by (simp_all add: MEM_INCR_def)
  have "JS_XDRString le am new_string junk z xdr = Some (True, s, MEM_INCR (n * 2 + padlen) xdr1)"
    using 1(1) raw units buf modes modes2 am new
    by (simp add: JS_XDRString_def xdr_then_def padlen_def [symmetric] Let_def)
  moreover have "advanced (length (string_bytes s)) xdr (MEM_INCR (n * 2 + padlen) xdr1)"
    using advanced_trans [OF 1(2) advanced_incr [OF wf1 fits]] sb pad by (simp add: bytes_def)
  ultimately show "\<exists>xdr'. JS_XDRString le am new_string junk z xdr = Some (True, s, xdr') \<and> advanced (length (string_bytes s)) xdr xdr'"
    by blast
qed

section \<open>Values\<close>

text \<open>The representation of a value, the same whatever the machine's byte order.\<close>

fun value_bytes :: "'o xdr_value \<Rightarrow> u8 list" where
  "value_bytes (X_Double l h) = word32_le JSVAL_DOUBLE @ word32_le l @ word32_le h"
| "value_bytes (X_String s) = word32_le JSVAL_STRING @ string_bytes s"
| "value_bytes (X_Boolean b) = word32_le JSVAL_BOOLEAN @ word32_le b"
| "value_bytes (X_Int i) = word32_le (JSVAL_TAG (INT32_TO_JSVAL i)) @ word32_le i"
| "value_bytes v = word32_le (xdr_type v)"

text \<open>
  The values the engine has: a \<open>jsval\<close> integer has 31 bits, the least one being void, a boolean
  is 0 or 1, and a string's length is bounded. Objects are left to their own code.
\<close>

fun storable :: "'o xdr_value \<Rightarrow> bool" where
  "storable (X_Int i) \<longleftrightarrow> - (2 ^ 30) < sint i \<and> sint i < 2 ^ 30"
| "storable (X_String s) \<longleftrightarrow> length s < 2 ^ 30"
| "storable (X_Boolean b) \<longleftrightarrow> b = 0 \<or> b = 1"
| "storable (X_Object obj) \<longleftrightarrow> False"
| "storable _ \<longleftrightarrow> True"

lemma int_tag:
  "JSVAL_TAG (INT32_TO_JSVAL i) \<notin> {JSVAL_XDRNULL, JSVAL_XDRVOID, JSVAL_STRING, JSVAL_DOUBLE, JSVAL_OBJECT, JSVAL_BOOLEAN}"
proof -
  have "bit (INT32_TO_JSVAL i) 0" by (simp add: INT32_TO_JSVAL_def JSVAL_INT_def bit_or_iff)
  moreover have "bit (JS_BITMASK 3) 0" by (simp add: JS_BITMASK_eq_mask bit_mask_iff)
  ultimately have "bit (JSVAL_TAG (INT32_TO_JSVAL i)) 0" by (simp add: JSVAL_TAG_def bit_and_iff bit_unsigned_iff)
  moreover have "\<not> bit JSVAL_XDRNULL 0" "\<not> bit JSVAL_XDRVOID 0" "\<not> bit JSVAL_STRING 0" "\<not> bit JSVAL_DOUBLE 0"
    "\<not> bit JSVAL_OBJECT 0" "\<not> bit JSVAL_BOOLEAN 0"
    by (simp_all add: JSVAL_XDRNULL_def JSVAL_XDRVOID_def JSVAL_STRING_def JSVAL_DOUBLE_def JSVAL_OBJECT_def JSVAL_BOOLEAN_def)
  ultimately show ?thesis by auto
qed

lemma tags_distinct:
  "distinct [JSVAL_XDRNULL, JSVAL_XDRVOID, JSVAL_STRING, JSVAL_DOUBLE, JSVAL_OBJECT, JSVAL_BOOLEAN]"
  by (simp add: JSVAL_XDRNULL_def JSVAL_XDRVOID_def JSVAL_STRING_def JSVAL_DOUBLE_def JSVAL_OBJECT_def JSVAL_BOOLEAN_def)

lemma int_value_storable:
  assumes "storable (X_Int i)"
  shows "int_value i = X_Int i"
proof -
  define k where "k = sint i"
  have k: "- 1073741824 < k" "k < 1073741824" using assms by (simp_all add: k_def)
  have div0: "k div 1073741824 = (if k < 0 then - 1 else 0)" "k div 2147483648 = (if k < 0 then - 1 else 0)"
    using k int_div_pos_eq [of k 1073741824 "- 1" "k + 1073741824"] int_div_pos_eq [of k 2147483648 "- 1" "k + 2147483648"]
    by auto
  have "bit i 30 = bit k 30" "bit i 31 = bit k 31" by (simp_all add: k_def bit_sint_iff)
  then have top: "bit i 30 = bit i 31" using div0 by (simp add: bit_iff_odd)
  have val: "bit (INT32_TO_JSVAL i) (Suc n) = bit i n" if "n < 32" for n
    unfolding INT32_TO_JSVAL_def JSVAL_INT_def bit_or_iff bit_push_bit_iff using that
    by (auto simp: bit_1_iff bit_signed_iff)
  have ret: "JSVAL_TO_INT (INT32_TO_JSVAL i) = i"
  proof (rule bit_word_eqI)
    fix n assume n: "n < LENGTH(32)"
    show "bit (JSVAL_TO_INT (INT32_TO_JSVAL i)) n = bit i n"
    proof (cases "n = 31")
      case True
      have "bit (INT32_TO_JSVAL i) 31 = bit i 30" using val [of 30] by simp
      then show ?thesis using top True by (simp add: JSVAL_TO_INT_def bit_signed_drop_bit_iff bit_unsigned_iff)
    next
      case False
      then show ?thesis using n val [of n] by (simp add: JSVAL_TO_INT_def bit_signed_drop_bit_iff bit_unsigned_iff)
    qed
  qed
  have "INT32_TO_JSVAL i \<noteq> JSVAL_VOID"
  proof
    assume "INT32_TO_JSVAL i = JSVAL_VOID"
    then have "i = JSVAL_TO_INT JSVAL_VOID" using ret by simp
    moreover have "sint (JSVAL_TO_INT JSVAL_VOID) = - 1073741824" by code_simp
    ultimately show False using k by (simp add: k_def)
  qed
  then show ?thesis using ret by (simp add: int_value_def)
qed

lemma boolean_value_storable:
  assumes "storable (X_Boolean b :: 'o xdr_value)"
  shows "(boolean_value b :: 'o xdr_value) = X_Boolean b"
proof -
  have "(boolean_value 0 :: 'o xdr_value) = X_Boolean 0" "(boolean_value 1 :: 'o xdr_value) = X_Boolean 1"
    unfolding boolean_value_def xdr_value.inject by code_simp+
  then show ?thesis using assms by auto
qed

lemma appends_double:
  assumes am: "\<And>n. am n"
  shows "appends (JS_XDRDouble le am new_double (l, h)) (l, h) (word32_le l @ word32_le h)"
  unfolding JS_XDRDouble_def prod.case
  by (intro appends_then [OF appends_uint32] appends_then_return [OF appends_uint32] am) simp

lemma consumes_double:
  "consumes (JS_XDRDouble le am True z) (l, h) (word32_le l @ word32_le h)"
  unfolding JS_XDRDouble_def by (cases z)
    (simp, intro consumes_then [OF consumes_uint32] consumes_then_return [OF consumes_uint32], simp)

text \<open>What \<open>JS_XDRValue\<close> does by the tag, coding \<open>xtype\<close>.\<close>

definition value_rest ::
  "bool \<Rightarrow> (nat \<Rightarrow> bool) \<Rightarrow> bool \<Rightarrow> (u16 list \<Rightarrow> bool) \<Rightarrow> ('o \<Rightarrow> 'o xdr) \<Rightarrow> 'o \<Rightarrow> u32 \<Rightarrow> 'o xdr_value \<Rightarrow> u32 \<Rightarrow> 'o xdr_value xdr" where
  "value_rest le am new_double new_string xdr_object no_object junk vp type =
     (if type = JSVAL_XDRNULL then (\<lambda>xdr. Some (True, X_Null, xdr))
      else if type = JSVAL_XDRVOID then (\<lambda>xdr. Some (True, X_Void, xdr))
      else if type = JSVAL_STRING then
        xdr_then (JS_XDRString le am new_string junk (case vp of X_String s \<Rightarrow> s | _ \<Rightarrow> [])) vp
          (\<lambda>str xdr. Some (True, decoded xdr vp (X_String str), xdr))
      else if type = JSVAL_DOUBLE then
        xdr_then (JS_XDRDouble le am new_double (case vp of X_Double l h \<Rightarrow> (l, h) | _ \<Rightarrow> (junk, junk))) vp
          (\<lambda>(l, h) xdr. Some (True, decoded xdr vp (X_Double l h), xdr))
      else if type = JSVAL_OBJECT then
        xdr_then (xdr_object (case vp of X_Object obj \<Rightarrow> obj | _ \<Rightarrow> no_object)) vp
          (\<lambda>obj xdr. Some (True, decoded xdr vp (X_Object obj), xdr))
      else if type = JSVAL_BOOLEAN then
        xdr_then (JS_XDRUint32 le am (case vp of X_Boolean b \<Rightarrow> b | _ \<Rightarrow> junk)) vp
          (\<lambda>b xdr. Some (True, decoded xdr vp (boolean_value b), xdr))
      else
        xdr_then (JS_XDRUint32 le am (case vp of X_Int i \<Rightarrow> i | _ \<Rightarrow> junk)) vp
          (\<lambda>i xdr. Some (True, decoded xdr vp (int_value i), xdr)))"

lemma value_steps:
  "JS_XDRValue le am new_double new_string xdr_object no_object junk vp xdr =
     xdr_then (JS_XDRUint32 le am (if x_mode xdr = JSXDR_ENCODE then xdr_type vp else junk)) vp
       (value_rest le am new_double new_string xdr_object no_object junk vp) xdr"
  unfolding JS_XDRValue_def value_rest_def by (rule refl)

lemma appends_value:
  assumes am: "\<And>n. am n" and v: "storable v"
  shows "appends (JS_XDRValue le am new_double new_string xdr_object no_object junk v) v (value_bytes v)"
proof -
  note tags = tags_distinct
  have "\<exists>bs. value_bytes v = word32_le (xdr_type v) @ bs \<and>
      appends (value_rest le am new_double new_string xdr_object no_object junk v (xdr_type v)) v bs"
  proof (cases v)
    case (X_Int i)
    have "appends (value_rest le am new_double new_string xdr_object no_object junk v (xdr_type v)) v (word32_le i)"
      using int_tag [of i] X_Int unfolding value_rest_def
      by (auto intro!: appends_then_return [OF appends_uint32] am simp: decoded_def)
    then show ?thesis using X_Int by auto
  next
    case (X_Double l h)
    have "appends (value_rest le am new_double new_string xdr_object no_object junk v (xdr_type v)) v (word32_le l @ word32_le h)"
      using tags X_Double unfolding value_rest_def
      by (auto intro!: appends_then_return [OF appends_double] am simp: decoded_def)
    then show ?thesis using X_Double by auto
  next
    case (X_String s)
    have "appends (value_rest le am new_double new_string xdr_object no_object junk v (xdr_type v)) v (string_bytes s)"
      using tags X_String v unfolding value_rest_def
      by (auto intro!: appends_then_return [OF appends_string] am simp: decoded_def)
    then show ?thesis using X_String by auto
  next
    case (X_Boolean b)
    have "appends (value_rest le am new_double new_string xdr_object no_object junk v (xdr_type v)) v (word32_le b)"
      using tags X_Boolean v unfolding value_rest_def
      by (auto intro!: appends_then_return [OF appends_uint32] am simp: decoded_def)
    then show ?thesis using X_Boolean by auto
  qed (use v tags appends_return in \<open>auto simp: value_rest_def\<close>)
  then obtain bs where bs: "value_bytes v = word32_le (xdr_type v) @ bs"
    and rest: "appends (value_rest le am new_double new_string xdr_object no_object junk v (xdr_type v)) v bs" by blast
  show ?thesis unfolding bs
    by (rule appends_cong [OF appends_then [where f = "value_rest le am new_double new_string xdr_object no_object junk v", OF appends_uint32 [where am = am, OF am] rest]])
      (simp add: value_steps)
qed

lemma consumes_value:
  assumes am: "\<And>n. am n" and new: "\<And>s. new_string s" and v: "storable v"
  shows "consumes (JS_XDRValue le am True new_string xdr_object no_object junk vp) v (value_bytes v)"
proof -
  note tags = tags_distinct
  have "\<exists>bs. value_bytes v = word32_le (xdr_type v) @ bs \<and>
      consumes (value_rest le am True new_string xdr_object no_object junk vp (xdr_type v)) v bs"
  proof (cases v)
    case (X_Int i)
    have "consumes (value_rest le am True new_string xdr_object no_object junk vp (xdr_type v)) v (word32_le i)"
      using int_tag [of i] X_Int v int_value_storable [of i] unfolding value_rest_def
      by (auto intro!: consumes_then_return [OF consumes_uint32] simp: decoded_def)
    then show ?thesis using X_Int by auto
  next
    case (X_Double l h)
    have "consumes (value_rest le am True new_string xdr_object no_object junk vp (xdr_type v)) v (word32_le l @ word32_le h)"
      using tags X_Double unfolding value_rest_def
      by (auto intro!: consumes_then_return [OF consumes_double] simp: decoded_def)
    then show ?thesis using X_Double by auto
  next
    case (X_String s)
    have "consumes (value_rest le am True new_string xdr_object no_object junk vp (xdr_type v)) v (string_bytes s)"
      using tags X_String v unfolding value_rest_def
      by (auto intro!: consumes_then_return [OF consumes_string] am new simp: decoded_def)
    then show ?thesis using X_String by auto
  next
    case (X_Boolean b)
    have "consumes (value_rest le am True new_string xdr_object no_object junk vp (xdr_type v)) v (word32_le b)"
      using tags X_Boolean v boolean_value_storable [of b] unfolding value_rest_def
      by (auto intro!: consumes_then_return [OF consumes_uint32] simp: decoded_def)
    then show ?thesis using X_Boolean by auto
  qed (use v tags in \<open>auto simp: value_rest_def intro: consumes_return\<close>)
  then obtain bs where bs: "value_bytes v = word32_le (xdr_type v) @ bs"
    and rest: "consumes (value_rest le am True new_string xdr_object no_object junk vp (xdr_type v)) v bs" by blast
  show ?thesis unfolding bs
    by (rule consumes_cong [OF consumes_then [where f = "value_rest le am True new_string xdr_object no_object junk vp", OF consumes_uint32 rest]]) (simp add: value_steps)
qed

section \<open>Staying inside the block\<close>

text \<open>The call \<open>c\<close> touches nothing outside the block, whether it succeeds or not.\<close>

definition within :: "'a xdr \<Rightarrow> xdr_state \<Rightarrow> bool" where
  "within c xdr \<longleftrightarrow>
     (case c xdr of
        None \<Rightarrow> False
      | Some (ok, a, xdr') \<Rightarrow> dec_wf xdr' \<and> x_base xdr' = x_base xdr)"

lemma sint_neg_iff: "sint w < 0 \<longleftrightarrow> 2 ^ 31 \<le> unat w" for w :: u32
proof -
  have "sint w < 0 \<longleftrightarrow> bit w 31" using bit_last_iff [of w] by simp
  also have "\<dots> \<longleftrightarrow> odd (unat w div 2 ^ 31)" by (simp add: bit_unat)
  also have "\<dots> \<longleftrightarrow> 2 ^ 31 \<le> unat w"
  proof -
    have "unat w < 4294967296" using unsigned_less [of w, where 'a = nat] by simp
    then have "unat w div 2147483648 = (if 2147483648 \<le> unat w then 1 else 0)" by auto
    then show ?thesis by simp
  qed
  finally show ?thesis .
qed

lemma within_then:
  assumes c: "within c xdr"
    and f: "\<And>a xdr'. c xdr = Some (True, a, xdr') \<Longrightarrow> dec_wf xdr' \<Longrightarrow> x_base xdr' = x_base xdr \<Longrightarrow> within (f a) xdr'"
  shows "within (xdr_then c z f) xdr"
proof -
  obtain ok a xdr' where c': "c xdr = Some (ok, a, xdr')" "dec_wf xdr'" "x_base xdr' = x_base xdr"
    using c by (auto simp: within_def split: option.splits)
  show ?thesis
  proof (cases ok)
    case True
    then show ?thesis using f [of a xdr'] c' by (auto simp: within_def xdr_then_def split: option.splits)
  next
    case False
    then show ?thesis using c' by (simp add: within_def xdr_then_def)
  qed
qed

lemma within_return [simp]: "dec_wf xdr \<Longrightarrow> within (\<lambda>xdr. Some (ok, a, xdr)) xdr"
  by (simp add: within_def)

lemma within_left:
  assumes "dec_wf xdr" "unat n < 2 ^ 31"
  shows "within (MEM_LEFT n) xdr"
  using MEM_LEFT_dec [OF assms] assms by (simp add: within_def)

lemma left_fits:
  assumes "dec_wf xdr" "unat n < 2 ^ 31" "MEM_LEFT n xdr = Some (True, u, xdr')"
  shows "xdr' = xdr \<and> unat (x_count xdr) + unat n \<le> length (x_base xdr)"
  using MEM_LEFT_dec [OF assms(1,2)] assms(3) by simp

lemma incr_dec:
  "dec_wf xdr \<Longrightarrow> unat (x_count xdr) + unat n \<le> length (x_base xdr) \<Longrightarrow>
     dec_wf (MEM_INCR n xdr) \<and> x_base (MEM_INCR n xdr) = x_base xdr"
  using advanced_incr [of xdr n] by (simp add: advanced_def)

lemma within_uint32: "dec_wf xdr \<Longrightarrow> within (JS_XDRUint32 le am x) xdr"
proof -
  assume wf: "dec_wf xdr"
  have "within (mem_get32 le x) xdr" unfolding mem_get32_def
  proof (rule within_then [OF within_left [OF wf]], simp)
    fix a xdr' assume "MEM_LEFT 4 xdr = Some (True, a, xdr')"
    then have "xdr' = xdr" "unat (x_count xdr) + unat (4 :: u32) \<le> length (x_base xdr)"
      using left_fits [OF wf, of 4 a xdr'] by auto
    then show "within (\<lambda>xdr. case mem_read 4 xdr of None \<Rightarrow> None
        | Some bs \<Rightarrow> Some (True, le_word32 (store_bytes le bs), MEM_INCR 4 xdr)) xdr'"
      using incr_dec [OF wf, of 4] mem_read_dec [of xdr 4] by (simp add: within_def)
  qed
  then show ?thesis using wf by (auto simp: within_def JS_XDRUint32_def dec_wf_def split: option.splits)
qed

lemma within_seek: 
  assumes wf: "dec_wf xdr"
  shows "within (mem_seek am offset whence) xdr"
proof -
  have sub: "unat (w + offset) \<le> unat w" if "sint offset < 0 \<or> offset = 0" "\<not> sint (w + offset) < 0" "unat w < 2 ^ 31" for w
  proof (cases "offset = 0")
    case False
    then have "2 ^ 31 \<le> unat offset" "unat (w + offset) < 2 ^ 31" using that by (simp_all add: sint_neg_iff)
    then have "\<not> unat w + unat offset < 2 ^ 32" using unat_add_exact [of w offset] by auto
    then have "unat (w + offset) = (unat w + unat offset - 2 ^ 32) mod 2 ^ 32"
      by (simp add: unat_word_ariths le_mod_geq)
    also have "\<dots> \<le> unat w + unat offset - 2 ^ 32" by simp
    finally show ?thesis using unsigned_less [of offset, where 'a = nat] by simp
  qed simp
  have limits: "unat (x_count xdr) \<le> unat (x_limit xdr)" "unat (x_limit xdr) < 2 ^ 31" "x_mode xdr = JSXDR_DECODE"
    using wf by (simp_all add: dec_wf_def)
  show ?thesis
  proof (cases whence)
    case JSXDR_SEEK_SET
    then show ?thesis using wf limits
      by (auto simp: within_def mem_seek_def dec_wf_def word_less_nat_alt not_less)
  next
    case JSXDR_SEEK_CUR
    show ?thesis
    proof (cases "sint (x_count xdr + offset) < 0 \<or> \<not> sint offset > 0")
      case True
      have "dec_wf (MEM_INCR offset xdr) \<and> x_base (MEM_INCR offset xdr) = x_base xdr"
        if nn: "\<not> sint (x_count xdr + offset) < 0"
      proof -
        have "sint offset < 0 \<or> offset = 0" using True nn by (metis linorder_neqE signed_0 signed_eq_0_iff)
        from sub [OF this nn] limits show ?thesis using wf by (simp add: dec_wf_def MEM_INCR_def)
      qed
      then show ?thesis using True JSXDR_SEEK_CUR wf by (auto simp: within_def mem_seek_def xdr_then_def)
    next
      case False
      then have small: "unat offset < 2 ^ 31" using sint_neg_iff [of offset] by linarith
      have "MEM_NEED am offset xdr = MEM_LEFT offset xdr" using limits by (simp add: MEM_NEED_def)
      then show ?thesis using False JSXDR_SEEK_CUR MEM_LEFT_dec [OF wf small] wf incr_dec [OF wf, of offset]
        by (auto simp: within_def mem_seek_def xdr_then_def)
    qed
  next
    case JSXDR_SEEK_END
    then show ?thesis using wf limits sub [of "x_limit xdr"]
      by (auto simp: within_def mem_seek_def dec_wf_def not_le)
  qed
qed

lemma within_getbytes:
  assumes wf: "dec_wf xdr" and small: "unat len < 2 ^ 31" and buf: "unat len \<le> length bytes"
  shows "within (mem_getbytes bytes len) xdr" unfolding mem_getbytes_def
proof (rule within_then [OF within_left [OF wf small]])
  fix a xdr' assume "MEM_LEFT len xdr = Some (True, a, xdr')"
  then have "xdr' = xdr" "unat (x_count xdr) + unat len \<le> length (x_base xdr)"
    using left_fits [OF wf small] by auto
  then show "within (\<lambda>xdr. case mem_read (unat len) xdr of None \<Rightarrow> None
     | Some bs \<Rightarrow> if length bytes < unat len then None
         else Some (True, bs @ drop (unat len) bytes, MEM_INCR len xdr)) xdr'"
    using incr_dec [OF wf, of len] mem_read_dec [of xdr "unat len"] buf by (simp add: within_def)
qed

lemma within_bytes:
  assumes wf: "dec_wf xdr" and small: "unat len < 2 ^ 31" and buf: "unat len \<le> length bytes"
  shows "within (JS_XDRBytes am bytes len) xdr" unfolding JS_XDRBytes_def
proof (rule within_then)
  have mode: "x_mode xdr = JSXDR_DECODE" using wf by (simp add: dec_wf_def)
  then show "within (\<lambda>xdr. if x_mode xdr = JSXDR_ENCODE then mem_setbytes am bytes len xdr else mem_getbytes bytes len xdr) xdr"
    using within_getbytes [OF assms] by (simp add: within_def)
  fix a xdr' assume wf': "dec_wf xdr'"
  then have "x_mode xdr' = JSXDR_DECODE" by (simp add: dec_wf_def)
  moreover have "within (xdr_then (mem_seek am p JSXDR_SEEK_CUR) a (\<lambda>_ xdr. Some (True, a, xdr))) xdr'" for p
    by (rule within_then [OF within_seek [OF wf']]) simp
  ultimately show "within (\<lambda>xdr. let len = mem_tell xdr
        in if len mod JSXDR_ALIGN \<noteq> 0 then
             let padlen = JSXDR_ALIGN - len mod JSXDR_ALIGN
             in if x_mode xdr = JSXDR_ENCODE then
                  xdr_then (mem_setbytes am [0, 0, 0] padlen) a (\<lambda>_ xdr. Some (True, a, xdr)) xdr
                else
                  xdr_then (mem_seek am padlen JSXDR_SEEK_CUR) a (\<lambda>_ xdr. Some (True, a, xdr)) xdr
           else Some (True, a, xdr)) xdr'"
    using wf' by (simp add: within_def Let_def)
qed

lemma decode_length:
  assumes wf: "dec_wf xdr" and "in": "xdr_in xdr = word32_le n @ rest"
  obtains xdr1 where "\<And>le am x. JS_XDRUint32 le am x xdr = Some (True, n, xdr1)" "dec_wf xdr1"
    "x_base xdr1 = x_base xdr" "xdr_in xdr1 = rest" "unat (x_count xdr1) = unat (x_count xdr) + 4"
proof -
  have fits: "unat (x_count xdr) + unat (4 :: u32) \<le> length (x_base xdr)" using in_fits [OF wf "in"] by simp
  have "JS_XDRUint32 le am x xdr = Some (True, n, MEM_INCR 4 xdr)" for le am x
  proof -
    have "mem_read 4 xdr = Some (word32_le n)" using mem_read_dec [of xdr 4] fits "in" by simp
    moreover have "MEM_LEFT 4 xdr = Some (True, (), xdr)" using MEM_LEFT_dec [OF wf, of 4] fits by simp
    ultimately show ?thesis using wf by (simp add: JS_XDRUint32_def mem_get32_def xdr_then_def dec_wf_def)
  qed
  moreover have "advanced 4 xdr (MEM_INCR 4 xdr)" using advanced_incr [OF wf fits] by simp
  ultimately show ?thesis using that advanced_in [of 4 xdr "MEM_INCR 4 xdr"] "in" by (simp add: advanced_def)
qed

lemma length_bytes_buffer:
  assumes "JS_XDRBytes am bytes n xdr = Some (True, buf, xdr')" "x_mode xdr = JSXDR_DECODE"
  shows "length buf = length bytes"
proof -
  obtain xdr1 where "mem_getbytes bytes n xdr = Some (True, buf, xdr1)"
    using assms by (auto simp: JS_XDRBytes_def xdr_then_def Let_def split: option.splits if_splits)
  then show ?thesis
    by (auto simp: mem_getbytes_def xdr_then_def mem_read_def Let_def split: option.splits if_splits)
qed

lemma within_cstring:
  assumes wf: "dec_wf xdr" and "in": "xdr_in xdr = word32_le n @ rest" and n: "unat n < 2 ^ 31 - 1"
  shows "within (JS_XDRCString le am junk z) xdr"
proof -
  obtain xdr1 where 1: "\<And>le am x. JS_XDRUint32 le am x xdr = Some (True, n, xdr1)" "dec_wf xdr1" "x_base xdr1 = x_base xdr"
    using decode_length [OF wf "in"] by metis
  have mode: "x_mode xdr = JSXDR_DECODE" using wf by (simp add: dec_wf_def)
  have n1: "unat (n + 1) = unat n + 1" using unat_inc_exact [of n] n by simp
  have len: "length buf = unat (n + 1)" if "JS_XDRBytes am (replicate (unat (n + 1)) 0) n xdr1 = Some (True, buf, xdr')" for buf xdr'
    using length_bytes_buffer [OF that] 1(2) by (simp add: dec_wf_def)
  show ?thesis
  proof (cases "am (unat (n + 1))")
    case True
    have "within (cstring_rest am z n) xdr1" unfolding cstring_rest_def
    proof (rule within_then)
      show "within (JS_XDRBytes am (replicate (unat (n + 1)) 0) n) xdr1"
        using within_bytes [OF 1(2)] n n1 by simp
      fix buf xdr' assume "JS_XDRBytes am (replicate (unat (n + 1)) 0) n xdr1 = Some (True, buf, xdr')" and "dec_wf xdr'"
      then show "within (\<lambda>xdr. if unat n < length buf
        then Some (True, takeWhile (\<lambda>c. c \<noteq> 0) (take (unat n) buf), xdr) else None) xdr'"
        using len n1 by (simp add: within_def)
    qed
    moreover have "JS_XDRCString le am junk z xdr = cstring_rest am z n xdr1"
      using 1(1) mode True by (simp add: JS_XDRCString_def cstring_rest_def Let_def)
    ultimately show ?thesis unfolding within_def by (simp only: 1(3))
  next
    case False
    then show ?thesis using 1 mode by (simp add: within_def JS_XDRCString_def)
  qed
qed

lemma within_string:
  assumes wf: "dec_wf xdr" and "in": "xdr_in xdr = word32_le n @ rest" and n: "unat n < 2 ^ 30 - 1"
  shows "within (JS_XDRString le am new_string junk z) xdr"
proof -
  obtain xdr1 where 1: "\<And>le am x. JS_XDRUint32 le am x xdr = Some (True, n, xdr1)" "dec_wf xdr1" "x_base xdr1 = x_base xdr"
    "unat (x_count xdr1) = unat (x_count xdr) + 4"
    using decode_length [OF wf "in"] by metis
  have modes: "x_mode xdr = JSXDR_DECODE" "x_mode xdr1 = JSXDR_DECODE" using wf 1 by (simp_all add: dec_wf_def)
  define padlen where "padlen = (if n * 2 mod JSXDR_ALIGN \<noteq> 0 then JSXDR_ALIGN - n * 2 mod JSXDR_ALIGN else 0)"
  have n30: "unat n < 2 ^ 30" using n by simp
  note counts = string_counts [OF n30, folded padlen_def]
  define nbytes where "nbytes = n * 2 + padlen"
  have small: "unat nbytes < 2 ^ 31" unfolding nbytes_def counts(3) using counts(4) n by simp
  have nz: "x_count xdr1 \<noteq> 0" using 1(4) by auto
  have modes2: "x_mode (MEM_INCR nbytes xdr1) = JSXDR_DECODE" "x_base (MEM_INCR nbytes xdr1) = x_base xdr1"
    using modes by (simp_all add: MEM_INCR_def)
  show ?thesis
  proof (cases "am (unat (n * 2) + 2)")
    case False
    then show ?thesis using 1 modes by (simp add: within_def JS_XDRString_def xdr_then_def Let_def)
  next
    case am: True
    show ?thesis
    proof (cases "unat (x_count xdr1) + unat nbytes \<le> length (x_base xdr1)")
      case True
      have "mem_raw am nbytes xdr1 = Some (True, unat (x_count xdr1), MEM_INCR nbytes xdr1)"
        using MEM_LEFT_dec [OF 1(2) small] True modes nz by (simp add: mem_raw_def xdr_then_def)
      moreover have "\<exists>cs. read_units le (unat (x_count xdr1)) (unat n) (x_base xdr1) = Some cs"
        using True counts by (simp add: read_units_def nbytes_def)
      moreover have "\<not> unat (n * 2) + 2 < 2 * unat n + 2" using counts by simp
      ultimately show ?thesis using 1(1,3) modes modes2 am incr_dec [OF 1(2) True]
        by (auto simp: within_def JS_XDRString_def xdr_then_def padlen_def [symmetric] Let_def nbytes_def [symmetric])
    next
      case False
      then have "mem_raw am nbytes xdr1 = Some (False, 0, xdr1)"
        using MEM_LEFT_dec [OF 1(2) small] modes by (simp add: mem_raw_def xdr_then_def)
      then show ?thesis using 1(1-3) modes am
        by (auto simp: within_def JS_XDRString_def xdr_then_def padlen_def [symmetric] Let_def nbytes_def [symmetric])
    qed
  qed
qed

section \<open>Properties\<close>

text \<open>
  C24: Encoding an integer, double, string, boolean, null or void on an aligned stream with room
  and memory succeeds and appends the value's representation; a machine of either byte order that
  reads a block holding these bytes at that place gets the value back and stands after them.
\<close>

theorem xdr_value_roundtrip:
  assumes "enc_wf xdr" "4 dvd unat (x_count xdr)" "\<forall>n. am n" "\<forall>s. new_string s" "storable v"
    and "unat (x_count xdr) + length (value_bytes v) + 8192 \<le> 2 ^ 32"
  shows "\<exists>xdr1.
    JS_XDRValue le1 am new_double new_string xdr_object no_object junk v xdr = Some (True, v, xdr1) \<and>
    enc_wf xdr1 \<and> 4 dvd unat (x_count xdr1) \<and>
    (let (data, n) = JS_XDRMemGetData xdr1
     in take (unat n) data = take (unat (x_count xdr)) (x_base xdr) @ value_bytes v) \<and>
    (\<forall>xdr2 rest. dec_wf xdr2 \<and> x_count xdr2 = x_count xdr \<and> x_base xdr2 = take (unat (x_count xdr1)) (x_base xdr1) @ rest \<longrightarrow>
       (\<exists>xdr3. JS_XDRValue le2 am True new_string xdr_object no_object junk' vp xdr2 = Some (True, v, xdr3) \<and>
          dec_wf xdr3 \<and> x_base xdr3 = x_base xdr2 \<and> x_count xdr3 = x_count xdr1))"
proof -
  have am: "\<And>n. am n" and new: "\<And>s. new_string s" using assms by auto
  obtain xdr1 where 1: "JS_XDRValue le1 am new_double new_string xdr_object no_object junk v xdr = Some (True, v, xdr1)"
    "enc_wf xdr1" "xdr_out xdr1 = xdr_out xdr @ value_bytes v" "unat (x_count xdr1) = unat (x_count xdr) + length (value_bytes v)"
    using appends_elim [OF appends_value [where am = am, OF am assms(5)] assms(1,2,6)] .
  have "4 dvd length (value_bytes v)"
    using consumes_value [where am = am and new_string = new_string, OF am new assms(5)] by (simp add: consumes_def)
  moreover have "\<exists>xdr3. JS_XDRValue le2 am True new_string xdr_object no_object junk' vp xdr2 = Some (True, v, xdr3) \<and>
          dec_wf xdr3 \<and> x_base xdr3 = x_base xdr2 \<and> x_count xdr3 = x_count xdr1"
    if dec: "dec_wf xdr2" "x_count xdr2 = x_count xdr" "x_base xdr2 = take (unat (x_count xdr1)) (x_base xdr1) @ rest" for xdr2 rest
  proof -
    have "xdr_in xdr2 = value_bytes v @ rest"
      using 1(3) dec(2,3) length_xdr_out [OF assms(1)] by (simp add: xdr_in_def xdr_out_def)
    then obtain xdr3 where "JS_XDRValue le2 am True new_string xdr_object no_object junk' vp xdr2 = Some (True, v, xdr3)"
      "advanced (length (value_bytes v)) xdr2 xdr3"
      using consumes_value [where am = am and new_string = new_string, OF am new assms(5)] dec(1,2) assms(2)
      unfolding consumes_def by metis
    then show ?thesis using 1(4) dec(2) by (auto simp: advanced_def word_unat_eq_iff)
  qed
  ultimately show ?thesis using 1 assms(2) by (intro exI [of _ xdr1]) (auto simp: JS_XDRMemGetData_def xdr_out_def)
qed

definition xdr_new_encoder :: xdr_state where
  "xdr_new_encoder = \<lparr>x_mode = JSXDR_ENCODE, x_base = replicate (unat MEM_BLOCK) 0, x_count = 0, x_limit = MEM_BLOCK\<rparr>"

lemma xdr_new_encoder: "JS_XDRNewMem True (\<lambda>_. True) JSXDR_ENCODE = Some xdr_new_encoder"
  "enc_wf xdr_new_encoder" "x_count xdr_new_encoder = 0" "xdr_out xdr_new_encoder = []"
  by (simp_all add: JS_XDRNewMem_def xdr_new_encoder_def enc_wf_def MEM_BLOCK_def xdr_out_def)

theorem xdr_value_roundtrip_witness:
  "\<exists>xdr xdr1. JS_XDRNewMem True (\<lambda>_. True) JSXDR_ENCODE = Some xdr \<and>
     JS_XDRValue False (\<lambda>_. True) True (\<lambda>_. True) (\<lambda>_ _. None) () 0 (X_String [0x41, 0x20AC, 0x42]) xdr =
       Some (True, X_String [0x41, 0x20AC, 0x42], xdr1) \<and>
     take (unat (x_count xdr1)) (x_base xdr1) = [4, 0, 0, 0, 3, 0, 0, 0, 0x41, 0, 0xAC, 0x20, 0x42, 0, 0, 0]"
proof -
  have bytes: "value_bytes (X_String [0x41, 0x20AC, 0x42] :: unit xdr_value) =
      [4, 0, 0, 0, 3, 0, 0, 0, 0x41, 0, 0xAC, 0x20, 0x42, 0, 0, 0]" by code_simp
  have "enc_wf xdr_new_encoder" "4 dvd unat (x_count xdr_new_encoder)" "\<forall>n. (\<lambda>_. True) (n :: nat)"
    "\<forall>s. (\<lambda>_. True) (s :: u16 list)" "storable (X_String [0x41, 0x20AC, 0x42] :: unit xdr_value)"
    "unat (x_count xdr_new_encoder) + length (value_bytes (X_String [0x41, 0x20AC, 0x42] :: unit xdr_value)) + 8192 \<le> 2 ^ 32"
    by (simp_all add: xdr_new_encoder bytes del: value_bytes.simps)
  from xdr_value_roundtrip [OF this, where ?le1.0 = False and new_double = True and xdr_object = "\<lambda>_ _. None" and no_object = "()" and junk = 0
      and ?le2.0 = True and junk' = 0 and vp = X_Null, unfolded JS_XDRMemGetData_def prod.case Let_def bytes]
  show ?thesis using xdr_new_encoder by (auto simp: xdr_out_def)
qed

text \<open>
  A C string without zero bytes is written as its length, its bytes and zeros up to a multiple
  of four, and read back on either byte order.
\<close>

theorem xdr_cstring_roundtrip:
  assumes "enc_wf xdr" "4 dvd unat (x_count xdr)" "\<forall>n. am n" "length s < 2 ^ 31" "0 \<notin> set s"
    and "unat (x_count xdr) + length s + 8200 \<le> 2 ^ 32"
  shows "\<exists>xdr1.
    JS_XDRCString le1 am junk s xdr = Some (True, s, xdr1) \<and> enc_wf xdr1 \<and> 4 dvd unat (x_count xdr1) \<and>
    take (unat (x_count xdr1)) (x_base xdr1) = take (unat (x_count xdr)) (x_base xdr) @
      word32_le (of_nat (length s)) @ s @ replicate ((4 - length s mod 4) mod 4) 0 \<and>
    (\<forall>xdr2 rest. dec_wf xdr2 \<and> x_count xdr2 = x_count xdr \<and> x_base xdr2 = take (unat (x_count xdr1)) (x_base xdr1) @ rest \<longrightarrow>
       (\<exists>xdr3. JS_XDRCString le2 am junk' z xdr2 = Some (True, s, xdr3) \<and>
          dec_wf xdr3 \<and> x_base xdr3 = x_base xdr2 \<and> x_count xdr3 = x_count xdr1))"
proof -
  have am: "\<And>n. am n" using assms by auto
  have "(4 - length s mod 4) mod 4 < 4" by simp
  then have "length (cstring_bytes s) \<le> length s + 7" unfolding cstring_bytes_def padded_def length_append length_replicate length_word_le
    by linarith
  then have room: "unat (x_count xdr) + length (cstring_bytes s) + 8192 \<le> 2 ^ 32" using assms(6) by simp
  obtain xdr1 where 1: "JS_XDRCString le1 am junk s xdr = Some (True, s, xdr1)"
    "enc_wf xdr1" "xdr_out xdr1 = xdr_out xdr @ cstring_bytes s" "unat (x_count xdr1) = unat (x_count xdr) + length (cstring_bytes s)"
    using appends_elim [OF appends_cstring [where am = am, OF am assms(4)] assms(1,2) room] .
  have "4 dvd length (cstring_bytes s)" by (simp add: cstring_bytes_def)
  moreover have "\<exists>xdr3. JS_XDRCString le2 am junk' z xdr2 = Some (True, s, xdr3) \<and>
          dec_wf xdr3 \<and> x_base xdr3 = x_base xdr2 \<and> x_count xdr3 = x_count xdr1"
    if dec: "dec_wf xdr2" "x_count xdr2 = x_count xdr" "x_base xdr2 = take (unat (x_count xdr1)) (x_base xdr1) @ rest" for xdr2 rest
  proof -
    have "xdr_in xdr2 = cstring_bytes s @ rest"
      using 1(3) dec(2,3) length_xdr_out [OF assms(1)] by (simp add: xdr_in_def xdr_out_def)
    then obtain xdr3 where "JS_XDRCString le2 am junk' z xdr2 = Some (True, s, xdr3)"
      "advanced (length (cstring_bytes s)) xdr2 xdr3"
      using consumes_cstring [where am = am, OF am assms(4,5)] dec(1,2) assms(2)
      unfolding consumes_def by metis
    then show ?thesis using 1(4) dec(2) by (auto simp: advanced_def word_unat_eq_iff)
  qed
  ultimately show ?thesis using 1 assms(2) by (intro exI [of _ xdr1]) (auto simp: xdr_out_def cstring_bytes_def padded_def)
qed

theorem xdr_cstring_roundtrip_witness:
  "\<exists>xdr1. JS_XDRCString True (\<lambda>_. True) 7 [0x6F, 0x6B] xdr_new_encoder = Some (True, [0x6F, 0x6B], xdr1) \<and>
     take (unat (x_count xdr1)) (x_base xdr1) = [2, 0, 0, 0, 0x6F, 0x6B, 0, 0]"
proof -
  have bytes: "word32_le (of_nat (length [0x6F, 0x6B :: u8])) @ [0x6F, 0x6B] @
      replicate ((4 - length [0x6F, 0x6B :: u8] mod 4) mod 4) 0 = [2, 0, 0, 0, 0x6F, 0x6B, 0, 0]" by code_simp
  have "enc_wf xdr_new_encoder" "4 dvd unat (x_count xdr_new_encoder)" "\<forall>n. (\<lambda>_. True) (n :: nat)"
    "length [0x6F, 0x6B :: u8] < 2 ^ 31" "0 \<notin> set [0x6F, 0x6B :: u8]"
    "unat (x_count xdr_new_encoder) + length [0x6F, 0x6B :: u8] + 8200 \<le> 2 ^ 32"
    by (simp_all add: xdr_new_encoder)
  from xdr_cstring_roundtrip [OF this, where ?le1.0 = True and junk = 7 and ?le2.0 = False and junk' = 0 and z = "[]", unfolded bytes]
  show ?thesis using xdr_new_encoder by (auto simp: xdr_out_def)
qed

text \<open>
  C25: Reading a block of less than \<open>2 ^ 31\<close> bytes, whatever it holds, never touches memory outside
  the block or the caller's buffer and never moves the position past the block's end: numbers,
  doubles, seeks, bytes of any count below \<open>2 ^ 31\<close>, and strings whose length field is not close to
  \<open>2 ^ 31\<close> (C strings) or \<open>2 ^ 30\<close> (strings of units).
\<close>

theorem xdr_decode_in_bounds:
  assumes "dec_wf xdr"
  shows "within (JS_XDRUint32 le am x) xdr \<and>
    within (JS_XDRDouble le am new_double d) xdr \<and>
    within (mem_seek am offset whence) xdr \<and>
    (\<forall>bytes len. unat len < 2 ^ 31 \<and> unat len \<le> length bytes \<longrightarrow> within (JS_XDRBytes am bytes len) xdr) \<and>
    (\<forall>n rest. xdr_in xdr = word32_le n @ rest \<and> unat n < 2 ^ 31 - 1 \<longrightarrow> within (JS_XDRCString le am junk s) xdr) \<and>
    (\<forall>n rest. xdr_in xdr = word32_le n @ rest \<and> unat n < 2 ^ 30 - 1 \<longrightarrow> within (JS_XDRString le am new_string junk str) xdr)"
proof -
  obtain lo hi where d: "d = (lo, hi)" by (cases d)
  have "within (JS_XDRDouble le am new_double d) xdr" unfolding JS_XDRDouble_def d prod.case
  proof (rule within_then [OF within_uint32 [OF assms]])
    fix l xdr1 assume "dec_wf xdr1"
    then show "within (xdr_then (JS_XDRUint32 le am hi) (lo, hi) (\<lambda>h xdr. if x_mode xdr = JSXDR_DECODE \<and> \<not> new_double
        then Some (False, (lo, hi), xdr) else Some (True, (l, h), xdr))) xdr1"
      by (rule within_then [OF within_uint32]) (simp add: within_def)
  qed
  note each = this within_uint32 [OF assms] within_seek [OF assms] within_bytes [OF assms] within_cstring [OF assms]
    within_string [OF assms]
  show ?thesis by (intro conjI allI impI; (elim conjE)?; rule each; assumption?)
qed

definition xdr_sample_decoder :: xdr_state where
  "xdr_sample_decoder = \<lparr>x_mode = JSXDR_DECODE, x_base = [9, 0, 0, 0, 0x41, 0], x_count = 0, x_limit = 6\<rparr>"

theorem xdr_decode_in_bounds_witness:
  "within (JS_XDRString True (\<lambda>_. True) (\<lambda>_. True) 0 []) xdr_sample_decoder \<and>
   JS_XDRString True (\<lambda>_. True) (\<lambda>_. True) 0 [] xdr_sample_decoder =
     Some (False, [], xdr_sample_decoder\<lparr>x_count := 4\<rparr>)"
proof
  have "dec_wf xdr_sample_decoder" by (simp add: dec_wf_def xdr_sample_decoder_def)
  note xdr_decode_in_bounds [OF this, where le = True and am = "\<lambda>_. True" and new_string = "\<lambda>_. True" and junk = 0 and str = "[]",
    THEN conjunct2, THEN conjunct2, THEN conjunct2, THEN conjunct2, THEN conjunct2, rule_format, of 9 "[0x41, 0]"]
  moreover have "xdr_in xdr_sample_decoder = word32_le 9 @ [0x41, 0] \<and> unat (9 :: u32) < 2 ^ 30 - 1"
  proof
    show "xdr_in xdr_sample_decoder = word32_le 9 @ [0x41, 0]" by code_simp
  qed simp
  ultimately show "within (JS_XDRString True (\<lambda>_. True) (\<lambda>_. True) 0 []) xdr_sample_decoder" by blast
  show "JS_XDRString True (\<lambda>_. True) (\<lambda>_. True) 0 [] xdr_sample_decoder =
     Some (False, [], xdr_sample_decoder\<lparr>x_count := 4\<rparr>)"
    by code_simp
qed

text \<open>
  The counts do wrap around: a C string whose length field is \<open>2 ^ 32 - 1\<close> passes the check
  of what is left and is copied into a buffer of no bytes, and a string whose length field is
  \<open>2 ^ 31\<close> has a byte count of 0, is given a buffer for one unit and is then read from far outside
  the block.
\<close>

theorem xdr_length_overflow:
  assumes "dec_wf xdr" "am 0" "am 2"
  shows "(\<forall>rest. xdr_in xdr = word32_le (- 1) @ rest \<longrightarrow> JS_XDRCString le am junk s xdr = None) \<and>
    (\<forall>rest. xdr_in xdr = word32_le 0x80000000 @ rest \<longrightarrow> JS_XDRString le am new_string junk str xdr = None)"
proof (intro conjI allI impI)
  fix rest assume "in": "xdr_in xdr = word32_le (- 1) @ rest"
  obtain xdr1 where 1: "\<And>le am x. JS_XDRUint32 le am x xdr = Some (True, - 1, xdr1)" "dec_wf xdr1"
    "unat (x_count xdr1) = unat (x_count xdr) + 4"
    using decode_length [OF assms(1) "in"] by metis
  have modes: "x_mode xdr = JSXDR_DECODE" "x_mode xdr1 = JSXDR_DECODE" using assms(1) 1 by (simp_all add: dec_wf_def)
  have "x_count xdr1 \<noteq> 0" using 1(3) by auto
  then have "unat (x_count xdr1 - 1) \<le> unat (x_limit xdr1)" using unat_dec_exact [of "x_count xdr1"] 1(2)
    unfolding dec_wf_def by linarith
  then have left: "MEM_LEFT (- 1) xdr1 = Some (True, (), xdr1)" by (simp add: MEM_LEFT_def word_less_nat_alt)
  have big: "unat (- 1 :: u32) = 4294967295" by (simp add: unsigned_minus_1_eq_mask mask_eq_exp_minus_1)
  have "mem_read (unat (- 1 :: u32)) xdr1 = None" unfolding big using 1(2) by (simp add: mem_read_def dec_wf_def Let_def)
  then have "mem_getbytes bytes (- 1) xdr1 = None" for bytes using left by (simp add: mem_getbytes_def xdr_then_def)
  then show "JS_XDRCString le am junk s xdr = None"
    using 1(1) modes assms(2) by (simp add: JS_XDRCString_def JS_XDRBytes_def xdr_then_def)
next
  fix rest assume "in": "xdr_in xdr = word32_le 0x80000000 @ rest"
  define n :: u32 where "n = 0x80000000"
  have n: "n * 2 = 0" "unat n = 2147483648" unfolding n_def by (code_simp, simp)
  obtain xdr1 where 1: "\<And>le am x. JS_XDRUint32 le am x xdr = Some (True, n, xdr1)" "dec_wf xdr1"
    "unat (x_count xdr1) = unat (x_count xdr) + 4"
    using decode_length [OF assms(1) "in"] unfolding n_def by metis
  have modes: "x_mode xdr = JSXDR_DECODE" "x_mode xdr1 = JSXDR_DECODE" using assms(1) 1 by (simp_all add: dec_wf_def)
  have "x_count xdr1 \<noteq> 0" using 1(3) by auto
  moreover have "MEM_LEFT 0 xdr1 = Some (True, (), xdr1)" using MEM_LEFT_dec [OF 1(2), of 0] 1(2) by (simp add: dec_wf_def)
  ultimately have raw: "mem_raw am 0 xdr1 = Some (True, unat (x_count xdr1), MEM_INCR 0 xdr1)"
    using modes by (simp add: mem_raw_def xdr_then_def)
  have "read_units le i (unat n) (x_base xdr1) = None" for i
    using 1(2) n by (simp add: read_units_def dec_wf_def)
  moreover have "x_mode (MEM_INCR 0 xdr1) = JSXDR_DECODE" "x_base (MEM_INCR 0 xdr1) = x_base xdr1"
    using modes by (simp_all add: MEM_INCR_def)
  ultimately show "JS_XDRString le am new_string junk str xdr = None"
    using 1(1) modes assms(3) assms(3)[unfolded numeral_2_eq_2] raw n by (simp add: JS_XDRString_def xdr_then_def Let_def JSXDR_ALIGN_def)
qed

theorem xdr_length_overflow_witness:
  "JS_XDRCString True (\<lambda>_. True) 0 [] (JS_XDRMemSetData xdr_sample_decoder [0xFF, 0xFF, 0xFF, 0xFF, 0x41] 5) = None"
proof -
  have "dec_wf (JS_XDRMemSetData xdr_sample_decoder [0xFF, 0xFF, 0xFF, 0xFF, 0x41] 5)"
    by (simp add: dec_wf_def xdr_sample_decoder_def JS_XDRMemSetData_def)
  moreover have "xdr_in (JS_XDRMemSetData xdr_sample_decoder [0xFF, 0xFF, 0xFF, 0xFF, 0x41] 5) = word32_le (- 1) @ [0x41]"
    by code_simp
  ultimately show ?thesis
    using xdr_length_overflow [of "JS_XDRMemSetData xdr_sample_decoder [0xFF, 0xFF, 0xFF, 0xFF, 0x41] 5" "\<lambda>_. True" True 0 "[]"
      "\<lambda>_. True" "[]"] by blast
qed

end
