(* ===== verification/JS_XdrClasses.thy ===== *)
theory JS_XdrClasses
  imports JS_GCRoots
begin

text \<open>
  The class registry of an XDR state (js/src/jsxdrapi.c): classes are numbered from 1 as they are
  registered, found by name with a linear search while they are few and with a double-hashed
  table, keyed by the address of the name, once there are ten. The table is the one modelled in
  the hash table's theories, with its stub operations.
\<close>

section \<open>The registry\<close>

text \<open>A class, as far as the registry looks at it: its own address and that of its name.\<close>

record JSClass =
  clasp :: ptr
  class_name :: ptr

text \<open>An entry of the table: the name's address and the index.\<close>

type_synonym reg_entry = "ptr \<times> u32"

text \<open>\<open>registry\<close> holds the array's elements written so far.\<close>

record class_registry =
  numclasses :: u32
  maxclasses :: u32
  registry :: "JSClass list"
  reghash :: "reg_entry dh_table option"

definition CLASS_REGISTRY_MIN :: u32 where "CLASS_REGISTRY_MIN = 8"
definition CLASS_INDEX_TO_ID :: "u32 \<Rightarrow> u32" where "CLASS_INDEX_TO_ID i = i + 1"
definition CLASS_ID_TO_INDEX :: "u32 \<Rightarrow> u32" where "CLASS_ID_TO_INDEX i = i - 1"

definition JS_XDRInitBase :: class_registry where
  "JS_XDRInitBase = \<lparr>numclasses = 0, maxclasses = 0, registry = [], reghash = None\<rparr>"

abbreviation reg_ops :: "(ptr, reg_entry) dh_ops" where
  "reg_ops \<equiv> stub_ops 0"

text \<open>
  \<open>grow n\<close> says whether the array can be reallocated for \<open>n\<close> classes. The id is \<open>None\<close> when the
  function returns \<open>JS_FALSE\<close>; the outer \<open>None\<close> is a write outside the array.
\<close>

definition JS_XDRRegisterClass ::
  "(u32 \<Rightarrow> bool) \<Rightarrow> (u32 \<Rightarrow> bool) \<Rightarrow> JSClass \<Rightarrow> class_registry \<Rightarrow> (u32 option \<times> class_registry) option" where
  "JS_XDRRegisterClass grow am c xdr =
     (let max = (if numclasses xdr = maxclasses xdr
                 then (if maxclasses xdr = 0 then CLASS_REGISTRY_MIN else push_bit 1 (maxclasses xdr))
                 else maxclasses xdr)
      in if numclasses xdr = maxclasses xdr \<and> \<not> grow max then Some (None, xdr)
         else if \<not> numclasses xdr < max then None
         else
           let n = numclasses xdr;
               xdr = xdr\<lparr>maxclasses := max, registry := take (unat n) (registry xdr) @ [c]\<rparr>
           in case reghash xdr of
                None \<Rightarrow> Some (Some (CLASS_INDEX_TO_ID n), xdr\<lparr>numclasses := n + 1\<rparr>)
              | Some t \<Rightarrow>
                  case JS_DHashTableOperate reg_ops am t (class_name c) JS_DHASH_ADD of
                    None \<Rightarrow> None
                  | Some (t, None) \<Rightarrow> Some (None, xdr\<lparr>reghash := Some t\<rparr>)
                  | Some (t, Some i) \<Rightarrow>
                      Some (Some (CLASS_INDEX_TO_ID n),
                        xdr\<lparr>reghash := Some (dh_set_body t i (class_name c, n)), numclasses := n + 1\<rparr>))"

text \<open>
  Filling the table from the registry. An entry that could not be added is dereferenced without a
  check; the result \<open>Null_Entry\<close> is that.
\<close>

datatype 'a found = Null_Entry | Found 'a

fun fill_reghash :: "(u32 \<Rightarrow> bool) \<Rightarrow> JSClass list \<Rightarrow> u32 \<Rightarrow> reg_entry dh_table \<Rightarrow> reg_entry dh_table found option" where
  "fill_reghash am [] i t = Some (Found t)"
| "fill_reghash am (c # cs) i t =
     (case JS_DHashTableOperate reg_ops am t (class_name c) JS_DHASH_ADD of
        None \<Rightarrow> None
      | Some (t, None) \<Rightarrow> Some Null_Entry
      | Some (t, Some e) \<Rightarrow> fill_reghash am cs (i + 1) (dh_set_body t e (class_name c, i)))"

text \<open>\<open>strcmp\<close> on the C strings at two addresses; \<open>chars\<close> gives the bytes of each.\<close>

fun find_linear :: "(ptr \<Rightarrow> u8 list) \<Rightarrow> ptr \<Rightarrow> JSClass list \<Rightarrow> u32 \<Rightarrow> u32" where
  "find_linear chars name [] i = 0"
| "find_linear chars name (c # cs) i =
     (if chars name = chars (class_name c) then CLASS_INDEX_TO_ID i else find_linear chars name cs (i + 1))"

definition JS_XDRFindClassIdByName ::
  "bool \<Rightarrow> (u32 \<Rightarrow> bool) \<Rightarrow> (ptr \<Rightarrow> u8 list) \<Rightarrow> ptr \<Rightarrow> class_registry \<Rightarrow> (u32 \<times> class_registry) found option" where
  "JS_XDRFindClassIdByName hdr am chars name xdr =
     (let classes = take (unat (numclasses xdr)) (registry xdr);
          linear = find_linear chars name classes 0
      in if numclasses xdr < 10 then Some (Found (linear, xdr))
         else
           case (case reghash xdr of
                   Some t \<Rightarrow> Some (Found (Some t))
                 | None \<Rightarrow>
                     case JS_NewDHashTable reg_ops hdr am 24 (numclasses xdr) of
                       None \<Rightarrow> Some (Found None)
                     | Some t \<Rightarrow>
                         case fill_reghash am classes 0 t of
                           None \<Rightarrow> None
                         | Some Null_Entry \<Rightarrow> Some Null_Entry
                         | Some (Found t) \<Rightarrow> Some (Found (Some t))) of
             None \<Rightarrow> None
           | Some Null_Entry \<Rightarrow> Some Null_Entry
           | Some (Found None) \<Rightarrow> Some (Found (linear, xdr))
           | Some (Found (Some t)) \<Rightarrow>
               case JS_DHashTableOperate reg_ops am t name JS_DHASH_LOOKUP of
                 Some (t, Some e) \<Rightarrow>
                   if ENTRY_IS_FREE (entryStore t ! e) then Some (Found (linear, xdr\<lparr>reghash := Some t\<rparr>))
                   else Some (Found (CLASS_INDEX_TO_ID (snd (body (entryStore t ! e))), xdr\<lparr>reghash := Some t\<rparr>))
               | _ \<Rightarrow> None)"

definition JS_XDRFindClassById :: "class_registry \<Rightarrow> u32 \<Rightarrow> JSClass option" where
  "JS_XDRFindClassById xdr k =
     (let i = CLASS_ID_TO_INDEX k
      in if numclasses xdr \<le> i then None else Some (registry xdr ! unat i))"

section \<open>Adding when memory suffices\<close>

context dh_client
begin

lemma live_count_card:
  assumes "dh_core ops kab lg st"
  shows "live_count st = card (dom (dh_map ops kab st))"
proof -
  have "dom (dh_map ops kab st) = set (map (entry_key ops kab) (filter ENTRY_IS_LIVE st))"
    by (simp add: dh_map_def dom_map_of_conv_image_fst image_image)
  then show ?thesis
    using distinct_card [OF live_keys_distinct [OF assms]] by (simp add: live_count_def)
qed

text \<open>With all allocations succeeding and less than \<open>2 ^ 21\<close> keys, adding gives an entry.\<close>

lemma add_gives_entry:
  assumes inv: "dh_inv ops kab t" and init: "initEntry ops = None" and am: "\<And>n. am n"
    and few: "card (dom (dh_map ops kab (entryStore t))) < 2 ^ 21"
  shows "\<exists>t' i. JS_DHashTableOperate ops am t key JS_DHASH_ADD = Some (t', Some i)"
proof -
  note d = dh_invD [OF inv]
  have live: "live_count (entryStore t) < 2 ^ 21" using few live_count_card [OF d(4)] by simp
  obtain t' r where op: "JS_DHashTableOperate ops am t key JS_DHASH_ADD = Some (t', r)"
    and r: "r = None \<Longrightarrow> live_count (entryStore t) + removed_count (entryStore t) = 2 ^ table_log2 t - 1"
    using add_correct [OF inv, of key am] init by (fastforce split: option.splits)
  have "r \<noteq> None"
  proof
    assume none: "r = None"
    have entry: "operate_add ops u key kh \<noteq> Some (u', None)" for u kh u'
      by (auto simp: operate_add_def init Let_def split: option.splits if_splits)
    define delta :: int where
      "delta = (if drop_bit 2 (JS_DHASH_TABLE_SIZE t) \<le> removedCount t then 0 else 1)"
    have failed: "\<exists>u. ChangeTable ops am t delta = Some (False, u)"
      using op none entry unfolding JS_DHashTableOperate_def Let_def delta_def [symmetric]
      by (auto split: if_splits option.splits)
    have "int (table_log2 t) + delta < 24"
    proof (cases "drop_bit 2 (JS_DHASH_TABLE_SIZE t) \<le> removedCount t")
      case True
      then show ?thesis using d(3) by (simp add: delta_def)
    next
      case False
      then have "removed_count (entryStore t) < 2 ^ table_log2 t div 4"
        using d(6) by (simp add: word_le_nat_alt not_le unat_drop_bit_div dh_inv_size [OF inv])
      then have "2 ^ table_log2 t < (2 :: nat) ^ 23" using r [OF none] live by simp
      then have "table_log2 t < 23" by (rule power_less_imp_less_exp [rotated]) simp
      then show ?thesis by (simp add: delta_def)
    qed
    moreover have "4 \<le> int (table_log2 t) + delta" using d(2) by (simp add: delta_def)
    moreover have "\<not> JS_DHASH_SIZE_LIMIT \<le> JS_BIT (nat (int (table_log2 t) + delta))" if "int (table_log2 t) + delta < 24"
    proof -
      have "(2::nat) ^ nat (int (table_log2 t) + delta) < 2 ^ 24" using that by (intro power_strict_increasing) simp_all
      moreover have "nat (int (table_log2 t) + delta) < 32" using that by simp
      ultimately show ?thesis by (simp add: JS_DHASH_SIZE_LIMIT_def word_le_nat_alt unat_JS_BIT)
    qed
    ultimately show False using failed am d(1) by (auto simp: ChangeTable_def Let_def)
  qed
  then show ?thesis using op by auto
qed

end

section \<open>What the table maps\<close>

abbreviation "reg_inv \<equiv> dh_inv reg_ops (\<lambda>k. k)"
abbreviation "reg_map t \<equiv> dh_map reg_ops (\<lambda>k. k) (entryStore t)"

fun class_map :: "JSClass list \<Rightarrow> u32 \<Rightarrow> (ptr \<rightharpoonup> reg_entry) \<Rightarrow> (ptr \<rightharpoonup> reg_entry)" where
  "class_map [] i m = m"
| "class_map (c # cs) i m = class_map cs (i + 1) (m(class_name c \<mapsto> (class_name c, i)))"

abbreviation classes :: "class_registry \<Rightarrow> JSClass list" where
  "classes xdr \<equiv> take (unat (numclasses xdr)) (registry xdr)"

definition reg_ok :: "class_registry \<Rightarrow> bool" where
  "reg_ok xdr \<longleftrightarrow> numclasses xdr \<le> maxclasses xdr \<and> unat (numclasses xdr) \<le> length (registry xdr) \<and>
     (\<forall>t. reghash xdr = Some t \<longrightarrow> reg_inv t \<and> reg_map t = class_map (classes xdr) 0 Map.empty)"

lemma class_map_append:
  "class_map (cs @ [c]) i m = (class_map cs i m)(class_name c \<mapsto> (class_name c, i + of_nat (length cs)))"
  by (induction cs arbitrary: i m) (simp_all add: ac_simps)

lemma class_map_index:
  "class_map cs i m name = Some b \<Longrightarrow>
     m name = Some b \<or> (\<exists>j<length cs. class_name (cs ! j) = name \<and> snd b = i + of_nat j)"
proof (induction cs arbitrary: i m)
  case (Cons c cs)
  from Cons.IH [OF Cons.prems [simplified class_map.simps]]
  consider "(m(class_name c \<mapsto> (class_name c, i))) name = Some b"
    | j where "j < length cs" "class_name (cs ! j) = name" "snd b = i + 1 + of_nat j" by blast
  then show ?case
  proof cases
    case 1
    then show ?thesis by (cases "name = class_name c") auto
  next
    case 2
    then have "Suc j < length (c # cs) \<and> class_name ((c # cs) ! Suc j) = name \<and> snd b = i + of_nat (Suc j)" by simp
    then show ?thesis by blast
  qed
qed simp

lemma find_linear_index:
  assumes "distinct (map (\<lambda>c. chars (class_name c)) cs)" "j < length cs" "chars name = chars (class_name (cs ! j))"
  shows "find_linear chars name cs i = CLASS_INDEX_TO_ID (i + of_nat j)"
  using assms
proof (induction cs arbitrary: i j)
  case (Cons c cs)
  show ?case
  proof (cases j)
    case (Suc k)
    then have "chars name \<in> (\<lambda>c. chars (class_name c)) ` set cs" using Cons.prems by simp
    then have "chars name \<noteq> chars (class_name c)" using Cons.prems(1) by auto
    then show ?thesis using Cons.IH [of k "i + 1"] Cons.prems Suc by (simp add: add.assoc)
  qed (use Cons.prems in simp)
qed simp

lemma class_map_linear:
  assumes "distinct (map (\<lambda>c. chars (class_name c)) cs)" "class_map cs 0 Map.empty name = Some b"
  shows "find_linear chars name cs 0 = CLASS_INDEX_TO_ID (snd b)"
  using class_map_index [OF assms(2)] find_linear_index [OF assms(1), of _ name 0] by auto

lemma dom_class_map: "dom (class_map cs i m) = class_name ` set cs \<union> dom m"
  by (induction cs arbitrary: i m) auto

lemma fill_reghash_correct:
  assumes "reg_inv t" and "card (dom (reg_map t)) + length cs < 2 ^ 21"
  shows "\<exists>r. fill_reghash am cs i t = Some r \<and>
    (case r of
       Null_Entry \<Rightarrow> \<not> (\<forall>n. am n)
     | Found t' \<Rightarrow> reg_inv t' \<and> reg_map t' = class_map cs i (reg_map t))"
  using assms
proof (induction cs arbitrary: i t)
  case (Cons c cs)
  obtain t' r where op: "JS_DHashTableOperate reg_ops am t (class_name c) JS_DHASH_ADD = Some (t', r)"
    and r: "case r of None \<Rightarrow> True
      | Some e \<Rightarrow> reg_inv (dh_set_body t' e (class_name c, i)) \<and>
          reg_map (dh_set_body t' e (class_name c, i)) = (reg_map t)(class_name c \<mapsto> (class_name c, i))"
    using stub_add_correct [OF Cons.prems(1), of am "class_name c"] by (fastforce split: option.splits)
  show ?case
  proof (cases r)
    case None
    have "\<not> (\<forall>n. am n)"
      using stub.add_gives_entry [OF Cons.prems(1), of am "class_name c"] Cons.prems(2) op None by auto
    then show ?thesis using op None by simp
  next
    case (Some e)
    note m = r [unfolded Some option.case]
    have "card (insert (class_name c) (dom (reg_map t))) \<le> Suc (card (dom (reg_map t)))"
      by (simp add: card_insert_if finite_dom_map_of dh_map_def)
    then have "card (dom (reg_map (dh_set_body t' e (class_name c, i)))) + length cs < 2 ^ 21"
      using Cons.prems(2) m by simp
    from Cons.IH [OF conjunct1 [OF m] this, of "i + 1"] show ?thesis
      unfolding class_map.simps conjunct2 [OF m, symmetric] using op Some by simp
  qed
qed simp

lemma new_reghash:
  assumes "JS_NewDHashTable reg_ops hdr am 24 n = Some t"
  shows "n \<le> 2 ^ 23 \<Longrightarrow> reg_inv t \<and> reg_map t = Map.empty"
proof -
  assume "n \<le> 2 ^ 23"
  then have "unat n \<le> 2 ^ 23" by (simp add: word_le_nat_alt)
  moreover have "JS_DHashTableInit reg_ops (\<lambda>_. True) 24 n = Some t"
    using assms by (auto simp: JS_NewDHashTable_def split: if_splits intro: Init_any_allocator)
  ultimately show ?thesis
    using Init_correct [where ops = reg_ops and kab = "\<lambda>k. k" and am = "\<lambda>_. True" and capacity = n and entry_size = 24] by auto
qed

lemma grown_above:
  assumes "n \<le> m" "unat n < 2 ^ 31 - 1"
  shows "n < (if n = m then if m = 0 then CLASS_REGISTRY_MIN else push_bit 1 m else m)"
proof -
  have "m < push_bit 1 m" if "n = m" "m \<noteq> 0"
  proof -
    have "unat (m * 2) = unat m * 2" using unat_mult_exact [of m 2] assms(2) that by simp
    moreover have "0 < unat m" using that(2) by (simp add: word_neq_0_unat)
    ultimately show ?thesis by (simp add: word_less_nat_alt push_bit_eq_mult)
  qed
  then show ?thesis using assms(1) by (auto simp: CLASS_REGISTRY_MIN_def word_less_nat_alt word_le_nat_alt word_unat_eq_iff)
qed

section \<open>Properties\<close>

text \<open>
  Looking a class up by name returns, and gives what the linear search gives, whether the
  table answers or not: the registry is unchanged and the table, if there is one now, maps the
  names registered. The exception is an allocation that fails while the table is being filled,
  when the code goes through a null entry.
\<close>

theorem xdr_find_class_id:
  assumes "reg_ok xdr" "distinct (map (\<lambda>c. chars (class_name c)) (classes xdr))" "unat (numclasses xdr) < 2 ^ 21"
  shows "\<exists>r. JS_XDRFindClassIdByName hdr am chars name xdr = Some r \<and>
    (case r of
       Null_Entry \<Rightarrow> reghash xdr = None \<and> \<not> (\<forall>n. am n)
     | Found (i, xdr') \<Rightarrow> i = find_linear chars name (classes xdr) 0 \<and> reg_ok xdr' \<and>
         xdr' = xdr\<lparr>reghash := reghash xdr'\<rparr>)"
proof (cases "numclasses xdr < 10")
  case True
  then show ?thesis using assms(1) by (simp add: JS_XDRFindClassIdByName_def)
next
  case False
  define table where "table = (case reghash xdr of
      Some t \<Rightarrow> Some (Found (Some t))
    | None \<Rightarrow> case JS_NewDHashTable reg_ops hdr am 24 (numclasses xdr) of
        None \<Rightarrow> Some (Found None)
      | Some t \<Rightarrow> case fill_reghash am (classes xdr) 0 t of
          None \<Rightarrow> None
        | Some Null_Entry \<Rightarrow> Some Null_Entry
        | Some (Found t) \<Rightarrow> Some (Found (Some t)))"
  have "\<exists>r. table = Some r \<and>
    (case r of
       Null_Entry \<Rightarrow> reghash xdr = None \<and> \<not> (\<forall>n. am n)
     | Found None \<Rightarrow> True
     | Found (Some t) \<Rightarrow> reg_inv t \<and> reg_map t = class_map (classes xdr) 0 Map.empty)"
  proof (cases "reghash xdr")
    case (Some t)
    then show ?thesis using assms(1) by (simp add: table_def reg_ok_def)
  next
    case none: None
    show ?thesis
    proof (cases "JS_NewDHashTable reg_ops hdr am 24 (numclasses xdr)")
      case None
      then show ?thesis using none by (simp add: table_def)
    next
      case (Some t)
      have "numclasses xdr \<le> 2 ^ 23" using assms(3) by (simp add: word_le_nat_alt)
      from new_reghash [OF Some this] have t: "reg_inv t" "reg_map t = Map.empty" by auto
      moreover have "card (dom (reg_map t)) + length (classes xdr) < 2 ^ 21" using t assms(3) by simp
      ultimately show ?thesis
        using fill_reghash_correct [of t "classes xdr" am 0] none Some
        by (fastforce simp: table_def split: found.splits)
    qed
  qed
  then obtain r where table: "table = Some r" and r: "case r of
       Null_Entry \<Rightarrow> reghash xdr = None \<and> \<not> (\<forall>n. am n)
     | Found None \<Rightarrow> True
     | Found (Some t) \<Rightarrow> reg_inv t \<and> reg_map t = class_map (classes xdr) 0 Map.empty" by blast
  note run = JS_XDRFindClassIdByName_def [of hdr am chars name xdr, unfolded Let_def table_def [symmetric], unfolded if_not_P [OF False] table]
  show ?thesis
  proof (cases r)
    case Null_Entry
    then show ?thesis using r run by simp
  next
    case (Found ot)
    show ?thesis
    proof (cases ot)
      case None
      then show ?thesis using Found run assms(1) by simp
    next
      case (Some t)
      have t: "reg_inv t" "reg_map t = class_map (classes xdr) 0 Map.empty" using r Found Some by auto
      have ok: "reg_ok (xdr\<lparr>reghash := Some t\<rparr>)" using t assms(1) by (simp add: reg_ok_def)
      obtain e where e: "JS_DHashTableOperate reg_ops am t name JS_DHASH_LOOKUP = Some (t, Some e)"
        "case reg_map t name of None \<Rightarrow> ENTRY_IS_FREE (entryStore t ! e)
         | Some b \<Rightarrow> ENTRY_IS_LIVE (entryStore t ! e) \<and> body (entryStore t ! e) = b"
        using stub.lookup_correct [OF t(1), of am name] by blast
      show ?thesis
      proof (cases "reg_map t name")
        case None
        then show ?thesis using e Found Some run ok by simp
      next
        case b: (Some b)
        then have "\<not> ENTRY_IS_FREE (entryStore t ! e)" using e(2) by (auto simp: code_free_removed_live)
        moreover have "find_linear chars name (classes xdr) 0 = CLASS_INDEX_TO_ID (snd b)"
          using class_map_linear [OF assms(2)] b t(2) by simp
        ultimately show ?thesis using b e Found Some run ok by simp
      qed
    qed
  qed
qed

text \<open>
  Registering a class whose name is new either fails and leaves the classes as they were, or
  gives it the next number, by which and by whose name it is then found; every other number still
  means the same class.
\<close>

theorem xdr_registered_class:
  assumes "reg_ok xdr" "distinct (map (\<lambda>c. chars (class_name c)) (classes xdr))" "unat (numclasses xdr) < 2 ^ 31 - 1"
    and "chars (class_name c) \<notin> (\<lambda>c. chars (class_name c)) ` set (classes xdr)"
  shows "\<exists>r xdr'. JS_XDRRegisterClass grow am c xdr = Some (r, xdr') \<and> reg_ok xdr' \<and>
    (case r of
       None \<Rightarrow> classes xdr' = classes xdr
     | Some k \<Rightarrow> k = numclasses xdr + 1 \<and> classes xdr' = classes xdr @ [c] \<and>
         JS_XDRFindClassById xdr' k = Some c \<and>
         find_linear chars (class_name c) (classes xdr') 0 = k \<and>
         (\<forall>j. j \<noteq> k \<longrightarrow> JS_XDRFindClassById xdr' j = JS_XDRFindClassById xdr j))"
proof -
  define n where "n = numclasses xdr"
  define max where "max = (if n = maxclasses xdr
      then (if maxclasses xdr = 0 then CLASS_REGISTRY_MIN else push_bit 1 (maxclasses xdr)) else maxclasses xdr)"
  define x1 where "x1 = xdr\<lparr>maxclasses := max, registry := take (unat n) (registry xdr) @ [c]\<rparr>"
  have ok: "n \<le> maxclasses xdr" "unat n \<le> length (registry xdr)" using assms(1) by (simp_all add: reg_ok_def n_def)
  have room: "n < max" using grown_above [of n "maxclasses xdr"] ok(1) assms(3) by (simp add: max_def n_def)
  have n1: "unat (n + 1) = Suc (unat n)" using unat_inc_exact [of n] assms(3) by (simp add: n_def)
  have len: "length (take (unat n) (registry xdr)) = unat n" using ok(2) by simp
  have le: "n + 1 \<le> max" using room n1 by (simp add: word_less_nat_alt word_le_nat_alt)
  have cls: "take (unat (n + 1)) (registry x1) = classes xdr @ [c]" using n1 len by (simp add: x1_def n_def)
  have kept: "take (unat n) (registry x1) = classes xdr" using len by (simp add: x1_def n_def)
  note run = JS_XDRRegisterClass_def [of grow am c xdr, unfolded Let_def, folded n_def, folded max_def, folded x1_def]
  have found: "find_linear chars (class_name c) (classes xdr @ [c]) 0 = n + 1"
  proof -
    have "distinct (map (\<lambda>c. chars (class_name c)) (classes xdr @ [c]))" using assms(2,4) by simp
    from find_linear_index [OF this, of "unat n" "class_name c" 0] len
    show ?thesis by (simp add: nth_append n_def CLASS_INDEX_TO_ID_def)
  qed
  have ids: "JS_XDRFindClassById x' (n + 1) = Some c \<and> (\<forall>j. j \<noteq> n + 1 \<longrightarrow> JS_XDRFindClassById x' j = JS_XDRFindClassById xdr j)"
    if x': "numclasses x' = n + 1" "registry x' = registry x1" for x'
  proof (intro conjI allI impI)
    have "\<not> n + 1 \<le> n" using n1 by (simp add: word_le_nat_alt)
    then show "JS_XDRFindClassById x' (n + 1) = Some c"
      using x' len by (simp add: JS_XDRFindClassById_def CLASS_ID_TO_INDEX_def x1_def nth_append)
    fix j assume "j \<noteq> n + 1"
    then have "j - 1 \<noteq> n" by (auto simp: algebra_simps)
    then have "n + 1 \<le> j - 1 \<longleftrightarrow> n \<le> j - 1" using n1 by (auto simp: word_le_nat_alt word_unat_eq_iff)
    then show "JS_XDRFindClassById x' j = JS_XDRFindClassById xdr j"
      using x' len by (auto simp: JS_XDRFindClassById_def CLASS_ID_TO_INDEX_def x1_def nth_append n_def [symmetric] Let_def
          word_le_nat_alt not_le)
  qed
  have x1: "numclasses x1 = n" "maxclasses x1 = max" "reghash x1 = reghash xdr" by (simp_all add: x1_def n_def)
  have lenr: "length (registry x1) = Suc (unat n)" using len by (simp add: x1_def)
  show ?thesis
  proof (cases "n = maxclasses xdr \<and> \<not> grow max")
    case True
    then show ?thesis using run assms(1) by simp
  next
    case False
    have fits: "\<not> \<not> n < max" using room by simp
    note run' = run [unfolded if_not_P [OF False], unfolded if_not_P [OF fits] x1(3)]
    show ?thesis
    proof (cases "reghash xdr")
      case None
      define x2 where "x2 = x1\<lparr>numclasses := n + 1\<rparr>"
      have x2: "numclasses x2 = n + 1" "registry x2 = registry x1" by (simp_all add: x2_def)
      have "reg_ok x2" using le n1 lenr None by (simp add: reg_ok_def x2_def x1)
      moreover have "JS_XDRRegisterClass grow am c xdr = Some (Some (n + 1), x2)"
        using run' None by (simp add: CLASS_INDEX_TO_ID_def x2_def)
      ultimately show ?thesis using cls found ids [OF x2] x2 by (simp add: n_def)
    next
      case (Some t)
      have t: "reg_inv t" "reg_map t = class_map (classes xdr) 0 Map.empty"
        using assms(1) Some by (simp_all add: reg_ok_def)
      obtain t' e where op: "JS_DHashTableOperate reg_ops am t (class_name c) JS_DHASH_ADD = Some (t', e)"
        and e: "case e of None \<Rightarrow> t' = t
          | Some i \<Rightarrow> reg_inv (dh_set_body t' i (class_name c, n)) \<and>
              reg_map (dh_set_body t' i (class_name c, n)) = (reg_map t)(class_name c \<mapsto> (class_name c, n))"
        using stub_add_correct [OF t(1), of am "class_name c"] by (fastforce split: option.splits)
      show ?thesis
      proof (cases e)
        case None
        have "reg_ok (x1\<lparr>reghash := Some t\<rparr>)"
          using t room lenr kept by (simp add: reg_ok_def x1 word_le_nat_alt word_less_nat_alt)
        moreover have "JS_XDRRegisterClass grow am c xdr = Some (None, x1\<lparr>reghash := Some t\<rparr>)"
          using run' Some op None e by simp
        ultimately show ?thesis using kept by (simp add: x1)
      next
        case (Some i)
        define x2 where "x2 = x1\<lparr>reghash := Some (dh_set_body t' i (class_name c, n)), numclasses := n + 1\<rparr>"
        have x2: "numclasses x2 = n + 1" "registry x2 = registry x1" by (simp_all add: x2_def)
        have "class_map (classes xdr @ [c]) 0 Map.empty = (class_map (classes xdr) 0 Map.empty)(class_name c \<mapsto> (class_name c, n))"
          using class_map_append [of "classes xdr" c 0 Map.empty] len by (simp add: n_def)
        then have "reg_map (dh_set_body t' i (class_name c, n)) = class_map (classes xdr @ [c]) 0 Map.empty"
          "reg_inv (dh_set_body t' i (class_name c, n))" using e Some t(2) by simp_all
        moreover have "classes x2 = classes xdr @ [c]" unfolding x2 by (rule cls)
        ultimately have "reg_ok x2" unfolding reg_ok_def using le n1 lenr x2 by (simp only:) (simp add: x2_def x1)
        moreover have "JS_XDRRegisterClass grow am c xdr = Some (Some (n + 1), x2)"
          using run' \<open>reghash xdr = Some t\<close> op Some by (simp add: CLASS_INDEX_TO_ID_def x2_def)
        ultimately show ?thesis using cls found ids [OF x2] x2 by (simp add: n_def)
      qed
    qed
  qed
qed

text \<open>Registering a list of classes one after the other, from a new state.\<close>

definition registered :: "nat \<Rightarrow> class_registry" where
  "registered k = fold (\<lambda>j xdr. snd (the (JS_XDRRegisterClass (\<lambda>_. True) (\<lambda>_. True)
     \<lparr>clasp = of_nat (100 + j), class_name = of_nat j\<rparr> xdr))) [0..<k] JS_XDRInitBase"

definition sample_chars :: "ptr \<Rightarrow> u8 list" where
  "sample_chars p = (if p < 50 then [ucast p + 65] else [ucast p + 15])"

lemma registered_ten:
  "numclasses (registered 10) = 10" "reg_ok (registered 10)"
  "map class_name (registry (registered 10)) = [0, 1, 2, 3, 4, 5, 6, 7, 8, 9]" "reghash (registered 10) = None"
proof -
  have eval: "registered 10 = \<lparr>numclasses = 10, maxclasses = 16,
      registry = map (\<lambda>j. \<lparr>clasp = of_nat (100 + j), class_name = of_nat j\<rparr>) [0..<10], reghash = None\<rparr>"
    by code_simp
  show "numclasses (registered 10) = 10" "reghash (registered 10) = None" by (simp_all add: eval)
  show "reg_ok (registered 10)" by (simp add: eval reg_ok_def)
  show "map class_name (registry (registered 10)) = [0, 1, 2, 3, 4, 5, 6, 7, 8, 9]"
    unfolding eval by code_simp
qed

lemma registered_ten_names:
  "map (\<lambda>c. sample_chars (class_name c)) (classes (registered 10)) =
     [[65], [66], [67], [68], [69], [70], [71], [72], [73], [74]]"
proof -
  have cs: "classes (registered 10) = registry (registered 10)"
    using registered_ten(1) arg_cong [OF registered_ten(3), of length] by simp
  have "map (\<lambda>c. sample_chars (class_name c)) (classes (registered 10)) = map sample_chars [0, 1, 2, 3, 4, 5, 6, 7, 8, 9]"
    unfolding cs registered_ten(3) [symmetric] by simp
  also have "\<dots> = [[65], [66], [67], [68], [69], [70], [71], [72], [73], [74]]" by (simp add: sample_chars_def)
  finally show ?thesis .
qed

theorem xdr_find_class_id_witness:
  "\<exists>xdr'. JS_XDRFindClassIdByName True (\<lambda>_. True) sample_chars 53 (registered 10) = Some (Found (4, xdr'))"
proof -
  have "distinct (map (\<lambda>c. sample_chars (class_name c)) (classes (registered 10)))" unfolding registered_ten_names by simp
  moreover have "unat (numclasses (registered 10)) < 2 ^ 21" by (simp add: registered_ten)
  ultimately obtain r where r: "JS_XDRFindClassIdByName True (\<lambda>_. True) sample_chars 53 (registered 10) = Some r"
    "case r of Null_Entry \<Rightarrow> reghash (registered 10) = None \<and> \<not> (\<forall>n. (\<lambda>_. True) (n :: u32))
     | Found (i, xdr') \<Rightarrow> i = find_linear sample_chars 53 (classes (registered 10)) 0 \<and> reg_ok xdr' \<and>
         xdr' = registered 10\<lparr>reghash := reghash xdr'\<rparr>"
    using xdr_find_class_id [of "registered 10" sample_chars True "\<lambda>_. True" 53] registered_ten(2) by blast
  have "find_linear sample_chars 53 (classes (registered 10)) 0 = 4" by code_simp
  then show ?thesis using r by (auto split: found.splits)
qed

theorem xdr_registered_class_witness:
  "\<exists>xdr'. JS_XDRRegisterClass (\<lambda>_. True) (\<lambda>_. True) \<lparr>clasp = 7, class_name = 20\<rparr> (registered 10) = Some (Some 11, xdr') \<and>
     JS_XDRFindClassById xdr' 11 = Some \<lparr>clasp = 7, class_name = 20\<rparr> \<and>
     JS_XDRFindClassById xdr' 4 = JS_XDRFindClassById (registered 10) 4"
proof -
  have hyps: "distinct (map (\<lambda>c. sample_chars (class_name c)) (classes (registered 10)))"
    "unat (numclasses (registered 10)) < 2 ^ 31 - 1"
    "sample_chars (class_name \<lparr>clasp = 7, class_name = 20\<rparr>) \<notin> (\<lambda>c. sample_chars (class_name c)) ` set (classes (registered 10))"
    unfolding set_map [symmetric] registered_ten_names by (simp_all add: registered_ten sample_chars_def)
  from xdr_registered_class [OF registered_ten(2) hyps, of "\<lambda>_. True" "\<lambda>_. True"]
  obtain r xdr' where r: "JS_XDRRegisterClass (\<lambda>_. True) (\<lambda>_. True) \<lparr>clasp = 7, class_name = 20\<rparr> (registered 10) = Some (r, xdr')"
    "case r of None \<Rightarrow> classes xdr' = classes (registered 10)
     | Some k \<Rightarrow> k = numclasses (registered 10) + 1 \<and> classes xdr' = classes (registered 10) @ [\<lparr>clasp = 7, class_name = 20\<rparr>] \<and>
         JS_XDRFindClassById xdr' k = Some \<lparr>clasp = 7, class_name = 20\<rparr> \<and>
         find_linear sample_chars (class_name \<lparr>clasp = 7, class_name = 20\<rparr>) (classes xdr') 0 = k \<and>
         (\<forall>j. j \<noteq> k \<longrightarrow> JS_XDRFindClassById xdr' j = JS_XDRFindClassById (registered 10) j)"
    by blast
  moreover have "r \<noteq> None"
    using r(1) registered_ten by (auto simp: JS_XDRRegisterClass_def Let_def split: if_splits)
  ultimately obtain k where k: "r = Some k" by blast
  have "k = 11" using r(2) by (simp add: k registered_ten)
  with r k show ?thesis by simp
qed

end
