(* ===== verification/JS_Sort.thy ===== *)
theory JS_Sort
  imports JS_Prelude "HOL-Library.Multiset" "HOL-Library.Monad_Syntax"
begin

text \<open>
  The heap sort of js/src/jsarray.c, \<open>js_HeapSort\<close> and \<open>HeapSortHelper\<close>. The vector is a list, and an
  access outside of it is \<open>None\<close>. The comparator may change a state (the script it calls) and
  may be inconsistent; \<open>MEMCPY\<close> copies one element. The heap of \<open>hi\<close> elements is numbered from one:
  node \<open>k\<close> is at index \<open>k - 2\<close>, except for the root, which is at index \<open>hi - 1\<close>, where the largest
  element belongs.
\<close>

section \<open>The code\<close>

type_synonym ('a, 's) comparator = "'a \<Rightarrow> 'a \<Rightarrow> 's \<Rightarrow> int \<times> 's"

definition vec_get :: "'a list \<Rightarrow> nat \<Rightarrow> 'a option" where
  "vec_get vec i = (if i < length vec then Some (vec ! i) else None)"

definition vec_put :: "'a list \<Rightarrow> nat \<Rightarrow> 'a \<Rightarrow> 'a list option" where
  "vec_put vec i x = (if i < length vec then Some (vec[i := x]) else None)"

text \<open>\<open>vec2\<close> points two elements before the vector.\<close>

definition vec2_get :: "'a list \<Rightarrow> nat \<Rightarrow> 'a option" where
  "vec2_get vec j = (if 2 \<le> j then vec_get vec (j - 2) else None)"

definition vec2_put :: "'a list \<Rightarrow> nat \<Rightarrow> 'a \<Rightarrow> 'a list option" where
  "vec2_put vec j x = (if 2 \<le> j then vec_put vec (j - 2) x else None)"

text \<open>The larger of the children \<open>j\<close> and \<open>j + 1\<close>, if there is a second one.\<close>

definition larger_child :: "('a, 's) comparator \<Rightarrow> nat \<Rightarrow> nat \<Rightarrow> 'a list \<Rightarrow> 's \<Rightarrow> (nat \<times> 's) option" where
  "larger_child cmp hi j vec s =
     (if j < hi
      then do {
        a \<leftarrow> vec2_get vec j;
        b \<leftarrow> vec_get vec (j - 1);
        let (r, s) = cmp a b s;
        Some (if r < 0 then j + 1 else j, s) }
      else Some (j, s))"

partial_function (option) sift_down ::
  "('a, 's) comparator \<Rightarrow> nat \<Rightarrow> 'a \<Rightarrow> nat \<Rightarrow> 'a list \<Rightarrow> 's \<Rightarrow> (nat \<times> 'a list \<times> 's) option" where
  "sift_down cmp hi pivot lo vec s =
     (if lo \<le> hi div 2
      then do {
        (j, s) \<leftarrow> larger_child cmp hi (lo + lo) vec s;
        b \<leftarrow> vec2_get vec j;
        let (r, s) = cmp pivot b s;
        if 0 \<le> r then Some (lo, vec, s)
        else do {
          vec \<leftarrow> vec2_put vec lo b;
          sift_down cmp hi pivot j vec s } }
      else Some (lo, vec, s))"

declare sift_down.simps [code]

text \<open>The last part of the helper: the loop, and the pivot put where it ends.\<close>

definition sift_store ::
  "('a, 's) comparator \<Rightarrow> nat \<Rightarrow> 'a \<Rightarrow> nat \<Rightarrow> 'a list \<Rightarrow> 's \<Rightarrow> ('a list \<times> 's) option" where
  "sift_store cmp hi pivot lo vec s = do {
     (lo, vec, s) \<leftarrow> sift_down cmp hi pivot lo vec s;
     vec \<leftarrow> vec2_put vec lo pivot;
     Some (vec, s) }"

definition HeapSortHelper ::
  "('a, 's) comparator \<Rightarrow> bool \<Rightarrow> nat \<Rightarrow> nat \<Rightarrow> 'a list \<Rightarrow> 's \<Rightarrow> ('a list \<times> 's) option" where
  "HeapSortHelper cmp building lo hi vec s =
     (if lo = 1
      then do {
        (j, s) \<leftarrow> larger_child cmp hi 2 vec s;
        a \<leftarrow> vec_get vec (hi - 1);
        b \<leftarrow> vec2_get vec j;
        let (r, s) = (if building \<or> hi = 2 then cmp a b s else (-1, s));
        if 0 \<le> r then Some (vec, s)
        else do {
          vec \<leftarrow> vec_put vec (hi - 1) b;
          sift_store cmp hi a j vec s } }
      else do {
        a \<leftarrow> vec2_get vec lo;
        sift_store cmp hi a lo vec s })"

primrec heap_build ::
  "('a, 's) comparator \<Rightarrow> nat \<Rightarrow> nat \<Rightarrow> 'a list \<Rightarrow> 's \<Rightarrow> ('a list \<times> 's) option" where
  "heap_build cmp 0 nel vec s = Some (vec, s)"
| "heap_build cmp (Suc i) nel vec s = do {
     (vec, s) \<leftarrow> HeapSortHelper cmp True (Suc i) nel vec s;
     heap_build cmp i nel vec s }"

fun heap_extract :: "('a, 's) comparator \<Rightarrow> nat \<Rightarrow> 'a list \<Rightarrow> 's \<Rightarrow> ('a list \<times> 's) option" where
  "heap_extract cmp nel vec s =
     (if 2 < nel
      then do {
        (vec, s) \<leftarrow> HeapSortHelper cmp False 1 (nel - 1) vec s;
        heap_extract cmp (nel - 1) vec s }
      else Some (vec, s))"

definition js_HeapSort :: "('a, 's) comparator \<Rightarrow> nat \<Rightarrow> 'a list \<Rightarrow> 's \<Rightarrow> ('a list \<times> 's) option" where
  "js_HeapSort cmp nel vec s = do {
     (vec, s) \<leftarrow> heap_build cmp (nel div 2) nel vec s;
     heap_extract cmp nel vec s }"

declare heap_extract.simps [simp del]

section \<open>Any comparator\<close>

text \<open>Whatever the comparator answers, no access is out of bounds, and elements are only exchanged.\<close>

lemma vec_get_in: "i < length vec \<Longrightarrow> vec_get vec i = Some (vec ! i)"
  and vec_put_in: "i < length vec \<Longrightarrow> vec_put vec i x = Some (vec[i := x])"
  and vec2_get_in: "2 \<le> j \<Longrightarrow> j - 2 < length vec \<Longrightarrow> vec2_get vec j = Some (vec ! (j - 2))"
  and vec2_put_in: "2 \<le> j \<Longrightarrow> j - 2 < length vec \<Longrightarrow> vec2_put vec j x = Some (vec[j - 2 := x])"
  by (simp_all add: vec_get_def vec_put_def vec2_get_def vec2_put_def)

lemmas vec_in = vec_get_in vec_put_in vec2_get_in vec2_put_in

lemma larger_child_cases:
  assumes "2 \<le> j" "j \<le> hi" "hi \<le> length vec"
  obtains j' s' where "larger_child cmp hi j vec s = Some (j', s')" "j' = j \<or> j' = j + 1" "j' \<le> hi"
proof (cases "j < hi")
  case True
  obtain r s' where "cmp (vec ! (j - 2)) (vec ! (j - 1)) s = (r, s')" by (cases "cmp (vec ! (j - 2)) (vec ! (j - 1)) s")
  with True assms that[of "if r < 0 then j + 1 else j" s'] show ?thesis
    by (simp add: larger_child_def vec_in split: if_splits)
next
  case False
  with assms that[of j s] show ?thesis by (simp add: larger_child_def)
qed

lemma larger_child_answer:
  assumes "larger_child cmp hi j vec s = Some (j', s')" "2 \<le> j" "j \<le> hi" "hi \<le> length vec"
  shows "j' = j + 1 \<and> j < hi \<and> fst (cmp (vec ! (j - 2)) (vec ! (j - 1)) s) < 0
    \<or> j' = j \<and> (j < hi \<longrightarrow> 0 \<le> fst (cmp (vec ! (j - 2)) (vec ! (j - 1)) s))"
  using assms by (auto simp: larger_child_def vec_in split: if_splits prod.splits)

lemma mset_move_hole:
  assumes "i < length vec" "j < length vec"
  shows "mset (vec[i := vec ! j, j := x]) = mset (vec[i := x])"
proof (cases "i = j")
  case False
  then have "vec[i := vec ! j, j := x] = (vec[i := x])[i := vec[i := x] ! j, j := vec[i := x] ! i]"
    using assms by simp
  then show ?thesis using assms by (metis length_list_update mset_swap)
qed simp

lemma sift_down_permutes:
  assumes "2 \<le> lo" "lo \<le> hi" "hi \<le> length vec"
  shows "\<exists>lo' vec' s'. sift_down cmp hi pivot lo vec s = Some (lo', vec', s') \<and> lo \<le> lo' \<and> lo' \<le> hi
    \<and> length vec' = length vec \<and> mset (vec'[lo' - 2 := pivot]) = mset (vec[lo - 2 := pivot])
    \<and> (\<forall>i\<ge>hi - 1. vec' ! i = vec ! i)"
  using assms
proof (induction "hi - lo" arbitrary: lo vec s rule: less_induct)
  case less
  show ?case
  proof (cases "lo \<le> hi div 2")
    case True
    then have two: "2 \<le> lo + lo" "lo + lo \<le> hi" using less.prems by auto
    obtain j s1 where j: "larger_child cmp hi (lo + lo) vec s = Some (j, s1)" "j = lo + lo \<or> j = lo + lo + 1" "j \<le> hi"
      by (rule larger_child_cases[OF two less.prems(3), of cmp s])
    have acc: "vec2_get vec j = Some (vec ! (j - 2))"
      "vec2_put vec lo (vec ! (j - 2)) = Some (vec[lo - 2 := vec ! (j - 2)])"
      using j less.prems by (intro vec_in; linarith)+
    obtain r s2 where r: "cmp pivot (vec ! (j - 2)) s1 = (r, s2)" by (cases "cmp pivot (vec ! (j - 2)) s1")
    have unfold: "sift_down cmp hi pivot lo vec s
        = (if 0 \<le> r then Some (lo, vec, s2) else sift_down cmp hi pivot j (vec[lo - 2 := vec ! (j - 2)]) s2)"
      using True j(1) acc r by (subst sift_down.simps) simp
    show ?thesis
    proof (cases "0 \<le> r")
      case False
      let ?v = "vec[lo - 2 := vec ! (j - 2)]"
      have "hi - j < hi - lo" "2 \<le> j" "j \<le> hi" "hi \<le> length ?v" using j less.prems by auto
      from less.hyps[OF this, of s2] obtain lo' vec' s' where
        *: "sift_down cmp hi pivot j ?v s2 = Some (lo', vec', s')" "j \<le> lo'" "lo' \<le> hi" "length vec' = length vec"
          "mset (vec'[lo' - 2 := pivot]) = mset (?v[j - 2 := pivot])" "\<forall>i\<ge>hi - 1. vec' ! i = ?v ! i"
        by auto
      have "mset (?v[j - 2 := pivot]) = mset (vec[lo - 2 := pivot])"
        using less.prems j by (intro mset_move_hole) auto
      moreover have "\<forall>i\<ge>hi - 1. ?v ! i = vec ! i" using less.prems by auto
      moreover have "lo \<le> lo'" using * j by linarith
      ultimately show ?thesis using * unfold False by simp
    qed (use unfold less.prems in auto)
  next
    case False
    then show ?thesis using less.prems by (subst sift_down.simps) auto
  qed
qed

lemma sift_store_permutes:
  assumes "2 \<le> lo" "lo \<le> hi" "hi \<le> length vec"
  shows "\<exists>vec' s'. sift_store cmp hi pivot lo vec s = Some (vec', s') \<and> length vec' = length vec
    \<and> mset vec' = mset (vec[lo - 2 := pivot]) \<and> (\<forall>i\<ge>hi - 1. vec' ! i = vec ! i)"
proof -
  obtain lo' vec' s' where *: "sift_down cmp hi pivot lo vec s = Some (lo', vec', s')" "lo \<le> lo'" "lo' \<le> hi"
    "length vec' = length vec" "mset (vec'[lo' - 2 := pivot]) = mset (vec[lo - 2 := pivot])" "\<forall>i\<ge>hi - 1. vec' ! i = vec ! i"
    using sift_down_permutes[OF assms, of cmp pivot s] by (elim exE conjE) (rule that)
  then have "vec2_put vec' lo' pivot = Some (vec'[lo' - 2 := pivot])" using assms by (intro vec_in; linarith)
  moreover have "\<forall>i\<ge>hi - 1. vec'[lo' - 2 := pivot] ! i = vec' ! i" using * assms by auto
  ultimately show ?thesis using * by (simp add: sift_store_def)
qed

lemma HeapSortHelper_permutes:
  assumes "1 \<le> lo" "lo \<le> hi" "2 \<le> hi" "hi \<le> length vec"
  shows "\<exists>vec' s'. HeapSortHelper cmp building lo hi vec s = Some (vec', s') \<and> length vec' = length vec
    \<and> mset vec' = mset vec \<and> (\<forall>i\<ge>hi. vec' ! i = vec ! i)"
proof (cases "lo = 1")
  case True
  have two: "(2 :: nat) \<le> 2" "2 \<le> hi" using assms by auto
  obtain j s1 where j: "larger_child cmp hi 2 vec s = Some (j, s1)" "j = 2 \<or> j = 2 + 1" "j \<le> hi"
    by (rule larger_child_cases[OF two assms(4), of cmp s])
  define b where "b = vec ! (j - 2)"
  define a where "a = vec ! (hi - 1)"
  have acc: "vec_get vec (hi - 1) = Some a" "vec2_get vec j = Some b" "vec_put vec (hi - 1) b = Some (vec[hi - 1 := b])"
    unfolding a_def b_def using j assms by (intro vec_in; linarith)+
  obtain r s2 where r: "(if building \<or> hi = 2 then cmp a b s1 else (-1, s1)) = (r, s2)" by fastforce
  have unfold: "HeapSortHelper cmp building 1 hi vec s
      = (if 0 \<le> r then Some (vec, s2) else sift_store cmp hi a j (vec[hi - 1 := b]) s2)"
    using j(1) r acc by (simp add: HeapSortHelper_def del: One_nat_def)
  show ?thesis
  proof (cases "0 \<le> r")
    case False
    have pre: "2 \<le> j" "j \<le> hi" "hi \<le> length (vec[hi - 1 := b])" using j assms by auto
    have "mset (vec[hi - 1 := b, j - 2 := a]) = mset vec"
      unfolding a_def b_def using j assms by (subst mset_move_hole) auto
    moreover have "\<forall>i\<ge>hi. vec[hi - 1 := b] ! i = vec ! i" using assms by auto
    moreover obtain v s' where "sift_store cmp hi a j (vec[hi - 1 := b]) s2 = Some (v, s')" "length v = length vec"
      "mset v = mset (vec[hi - 1 := b, j - 2 := a])" "\<forall>i\<ge>hi - 1. v ! i = vec[hi - 1 := b] ! i"
      using sift_store_permutes[OF pre, of cmp a s2] by auto
    ultimately show ?thesis using unfold False True by simp
  qed (use unfold True in auto)
next
  case False
  then have "2 \<le> lo" using assms by simp
  from sift_store_permutes[OF this assms(2,4), of cmp "vec ! (lo - 2)" s] show ?thesis
    using False assms \<open>2 \<le> lo\<close> by (auto simp: HeapSortHelper_def vec_in)
qed

lemma heap_build_permutes:
  assumes "i \<le> nel div 2" "nel \<le> length vec"
  shows "\<exists>vec' s'. heap_build cmp i nel vec s = Some (vec', s') \<and> length vec' = length vec
    \<and> mset vec' = mset vec \<and> (\<forall>k\<ge>nel. vec' ! k = vec ! k)"
  using assms
proof (induction i arbitrary: vec s)
  case (Suc i)
  have pre: "1 \<le> Suc i" "Suc i \<le> nel" "2 \<le> nel" "nel \<le> length vec" using Suc.prems by auto
  obtain v1 s1 where 1: "HeapSortHelper cmp True (Suc i) nel vec s = Some (v1, s1)" "length v1 = length vec"
    "mset v1 = mset vec" "\<forall>k\<ge>nel. v1 ! k = vec ! k"
    using HeapSortHelper_permutes[OF pre, of cmp True s] by blast
  have "i \<le> nel div 2" "nel \<le> length v1" using Suc.prems 1 by auto
  from Suc.IH[OF this, of s1] 1 show ?case by auto
qed simp

lemma heap_extract_permutes:
  "nel \<le> length vec \<Longrightarrow> \<exists>vec' s'. heap_extract cmp nel vec s = Some (vec', s') \<and> length vec' = length vec
    \<and> mset vec' = mset vec \<and> (\<forall>k\<ge>nel - 1. vec' ! k = vec ! k)"
proof (induction nel arbitrary: vec s rule: less_induct)
  case (less nel)
  show ?case
  proof (cases "2 < nel")
    case True
    then have pre: "(1::nat) \<le> 1" "1 \<le> nel - 1" "2 \<le> nel - 1" "nel - 1 \<le> length vec" using less.prems by auto
    obtain v1 s1 where 1: "HeapSortHelper cmp False 1 (nel - 1) vec s = Some (v1, s1)" "length v1 = length vec"
      "mset v1 = mset vec" "\<forall>k\<ge>nel - 1. v1 ! k = vec ! k"
      using HeapSortHelper_permutes[OF pre, of cmp False s] by blast
    have "nel - 1 < nel" "nel - 1 \<le> length v1" using True less.prems 1 by auto
    from less.IH[OF this, of s1] 1 True show ?thesis by (subst heap_extract.simps) auto
  qed (subst heap_extract.simps, simp)
qed

lemma heap_sort_permutes:
  assumes "nel \<le> length vec"
  shows "\<exists>vec' s'. js_HeapSort cmp nel vec s = Some (vec', s') \<and> length vec' = length vec
    \<and> mset vec' = mset vec \<and> (\<forall>k\<ge>nel. vec' ! k = vec ! k)"
proof -
  obtain v1 s1 where 1: "heap_build cmp (nel div 2) nel vec s = Some (v1, s1)" "length v1 = length vec"
    "mset v1 = mset vec" "\<forall>k\<ge>nel. v1 ! k = vec ! k"
    using heap_build_permutes[OF order_refl assms, of cmp s] by blast
  with heap_extract_permutes[of nel v1 cmp s1] assms show ?thesis by (auto simp: js_HeapSort_def)
qed

text \<open>Exchanging elements of the first part of a vector only.\<close>

lemma set_take_permuted:
  assumes "mset vec' = mset vec" "length vec' = length vec" "\<forall>i\<ge>hi. vec' ! i = vec ! i"
  shows "set (take hi vec') = set (take hi vec)"
proof -
  have "drop hi vec' = drop hi vec" using assms(2,3) by (intro nth_equalityI) auto
  then have "mset (take hi vec') = mset (take hi vec)"
    using assms(1) by (metis add_right_cancel append_take_drop_id mset_append)
  then show ?thesis by (rule mset_eq_setD)
qed

lemma sift_store_root:
  assumes "2 \<le> j" "j \<le> hi" "hi \<le> length vec" "b = vec ! (j - 2)"
    and run: "sift_store cmp hi (vec ! (hi - 1)) j (vec[hi - 1 := b]) s = Some (vec', s')"
  shows "vec' ! (hi - 1) = b" "set (take hi vec') = set (take hi vec)"
proof -
  let ?v = "vec[hi - 1 := b]"
  have "hi \<le> length ?v" using assms(3) by simp
  from sift_store_permutes[OF assms(1,2) this, of cmp "vec ! (hi - 1)" s]
  have v': "length vec' = length vec" "mset vec' = mset (?v[j - 2 := vec ! (hi - 1)])" "\<forall>i\<ge>hi - 1. vec' ! i = ?v ! i"
    using run by auto
  then show "vec' ! (hi - 1) = b" using assms(1-3) by simp
  have "mset vec' = mset vec"
    unfolding v' assms(4) using assms(1-3) by (subst mset_move_hole) auto
  moreover have "\<forall>i\<ge>hi. vec' ! i = vec ! i" using v'(3) assms(1,2) by auto
  ultimately show "set (take hi vec') = set (take hi vec)" using v'(1) by (intro set_take_permuted)
qed

text \<open>What every comparison keeps of the state, the sort keeps.\<close>

lemma larger_child_keeps:
  "larger_child cmp hi j vec s = Some (j', s') \<Longrightarrow> (\<And>x y s. P s \<Longrightarrow> P (snd (cmp x y s))) \<Longrightarrow> P s \<Longrightarrow> P s'"
  by (auto simp: larger_child_def split: if_splits Option.bind_splits prod.splits) (metis snd_conv)+

lemma sift_down_keeps:
  "sift_down cmp hi pivot lo vec s = Some r \<Longrightarrow> (\<And>x y s. P s \<Longrightarrow> P (snd (cmp x y s))) \<Longrightarrow> P s \<Longrightarrow> P (snd (snd r))"
proof (induction rule: sift_down.raw_induct[rotated 1, consumes 1, case_names step])
  case (step loop cmp hi pivot lo vec s r)
  note ih = step(1) and run = step(2) and keep = step(3) and P = step(4)
  show ?case
  proof (cases "lo \<le> hi div 2")
    case True
    then obtain j s1 b where 1: "larger_child cmp hi (lo + lo) vec s = Some (j, s1)" "vec2_get vec j = Some b"
      using run by (auto split: Option.bind_splits)
    have "P s1" using larger_child_keeps[of cmp, OF 1(1)] keep P by blast
    moreover obtain x s2 where 2: "cmp pivot b s1 = (x, s2)" by (cases "cmp pivot b s1")
    ultimately have "P s2" using keep[of s1 pivot b] by simp
    show ?thesis
    proof (cases "0 \<le> x")
      case True
      then show ?thesis using run 1 2 \<open>lo \<le> hi div 2\<close> \<open>P s2\<close> by auto
    next
      case False
      then obtain v where "loop cmp hi pivot j v s2 = Some r"
        using run 1 2 \<open>lo \<le> hi div 2\<close> by (auto split: Option.bind_splits)
      from ih[OF this keep \<open>P s2\<close>] show ?thesis .
    qed
  qed (use run P in auto)
qed

lemma HeapSortHelper_keeps:
  assumes "\<And>x y s. P s \<Longrightarrow> P (snd (cmp x y s))" "HeapSortHelper cmp building lo hi vec s = Some (vec', s')" "P s"
  shows "P s'"
proof -
  have store: "P s2" if "sift_store cmp hi pivot lo v s1 = Some (v', s2)" "P s1" for pivot lo v s1 v' s2
    using that sift_down_keeps[where cmp = cmp and P = P, OF _ assms(1)] by (force simp: sift_store_def split: Option.bind_splits)
  show ?thesis
  proof (cases "lo = 1")
    case True
    obtain j s1 where 1: "larger_child cmp hi 2 vec s = Some (j, s1)"
      using assms(2) True by (auto simp: HeapSortHelper_def split: Option.bind_splits)
    have "P s1" using larger_child_keeps[of cmp, OF 1] assms(1,3) by blast
    then have "P (snd (if building \<or> hi = 2 then cmp a b s1 else (-1, s1)))" for a b using assms(1) by simp
    then show ?thesis using assms(2) True 1 store
      by (auto simp: HeapSortHelper_def split: Option.bind_splits prod.splits if_splits) (metis snd_conv)+
  next
    case False
    then show ?thesis using assms(2,3) store by (auto simp: HeapSortHelper_def split: Option.bind_splits)
  qed
qed

lemma heap_sort_keeps:
  assumes "\<And>x y s. P s \<Longrightarrow> P (snd (cmp x y s))" "js_HeapSort cmp nel vec s = Some (vec', s')" "P s"
  shows "P s'"
proof -
  have helper: "P s'" if "HeapSortHelper cmp building lo hi vec s = Some (vec', s')" "P s" for building lo hi vec s vec' s'
    using HeapSortHelper_keeps[of P cmp] assms(1) that by blast
  have build: "P s'" if "heap_build cmp i nel vec s = Some (vec', s')" "P s" for i vec s vec' s'
    using that
  proof (induction i arbitrary: vec s)
    case (Suc i)
    then obtain v1 s1 where "HeapSortHelper cmp True (Suc i) nel vec s = Some (v1, s1)" "heap_build cmp i nel v1 s1 = Some (vec', s')"
      by (auto split: Option.bind_splits)
    then show ?case using Suc.IH helper Suc.prems(2) by blast
  qed simp
  have take: "P s'" if "heap_extract cmp nel vec s = Some (vec', s')" "P s" for nel vec s vec' s'
    using that
  proof (induction nel arbitrary: vec s rule: less_induct)
    case (less nel)
    show ?case
    proof (cases "2 < nel")
      case True
      then obtain v1 s1 where "HeapSortHelper cmp False 1 (nel - 1) vec s = Some (v1, s1)" "heap_extract cmp (nel - 1) v1 s1 = Some (vec', s')"
        using less.prems(1) by (auto simp: heap_extract.simps[of cmp nel] split: Option.bind_splits)
      then show ?thesis using less.IH[of "nel - 1" v1 s1] helper less.prems(2) True by auto
    qed (use less.prems in \<open>simp add: heap_extract.simps[of cmp nel]\<close>)
  qed
  from assms(2) obtain v1 s1 where "heap_build cmp (nel div 2) nel vec s = Some (v1, s1)" "heap_extract cmp nel v1 s1 = Some (vec', s')"
    by (auto simp: js_HeapSort_def split: Option.bind_splits)
  then show ?thesis using build take assms(3) by blast
qed

section \<open>Consistent comparators\<close>

text \<open>
  What a comparator promises of an order on the elements that are sorted, whatever the state: if its
  answer is negative then its second argument is at least as large as the first, and otherwise the
  first is. The order is transitive, and need not tell all elements apart that the comparator does.
\<close>

locale consistent_comparator =
  fixes cmp :: "('a, 's) comparator" and ge :: "'a \<Rightarrow> 'a \<Rightarrow> bool" and S :: "'a set"
  assumes negative: "x \<in> S \<Longrightarrow> y \<in> S \<Longrightarrow> fst (cmp x y s) < 0 \<Longrightarrow> ge y x"
    and nonnegative: "x \<in> S \<Longrightarrow> y \<in> S \<Longrightarrow> 0 \<le> fst (cmp x y s) \<Longrightarrow> ge x y"
    and transitive: "x \<in> S \<Longrightarrow> y \<in> S \<Longrightarrow> z \<in> S \<Longrightarrow> ge x y \<Longrightarrow> ge y z \<Longrightarrow> ge x z"
begin

lemma reflexive: "x \<in> S \<Longrightarrow> ge x x"
  using negative[of x x] nonnegative[of x x] by (meson not_le)

text \<open>The nodes from \<open>2 * m\<close> on are not larger than their parents.\<close>

definition heaped :: "nat \<Rightarrow> nat \<Rightarrow> 'a list \<Rightarrow> bool" where
  "heaped m hi vec \<longleftrightarrow> (\<forall>k\<le>hi. m \<le> k div 2 \<longrightarrow> ge (vec ! (k div 2 - 2)) (vec ! (k - 2)))"

text \<open>The same, with a hole at \<open>lo\<close> into which \<open>pivot\<close> can be put as far as the parent of \<open>lo\<close> is concerned.\<close>

definition holed :: "nat \<Rightarrow> nat \<Rightarrow> nat \<Rightarrow> 'a \<Rightarrow> 'a list \<Rightarrow> bool" where
  "holed m hi lo pivot vec \<longleftrightarrow>
     (\<forall>k\<le>hi. m \<le> k div 2 \<longrightarrow> k \<noteq> lo \<longrightarrow> k div 2 \<noteq> lo \<longrightarrow> ge (vec ! (k div 2 - 2)) (vec ! (k - 2)))
     \<and> (m \<le> lo div 2 \<longrightarrow> ge (vec ! (lo div 2 - 2)) pivot
          \<and> (\<forall>k\<le>hi. k div 2 = lo \<longrightarrow> ge (vec ! (lo div 2 - 2)) (vec ! (k - 2))))"

lemma holed_close:
  assumes "holed m hi lo pivot vec" "2 \<le> m" "2 \<le> lo" "lo \<le> hi" "hi \<le> length vec"
    and children: "\<And>k. k \<le> hi \<Longrightarrow> k div 2 = lo \<Longrightarrow> ge pivot (vec ! (k - 2))"
  shows "heaped m hi (vec[lo - 2 := pivot])"
  unfolding heaped_def
proof (intro allI impI)
  fix k assume k: "k \<le> hi" "m \<le> k div 2"
  have at: "vec[lo - 2 := pivot] ! (n - 2) = (if n = lo then pivot else vec ! (n - 2))" if "2 \<le> n" "n \<le> hi" for n
    using that assms(3,4,5) by (auto simp: nth_list_update)
  have "vec[lo - 2 := pivot] ! (k div 2 - 2) = (if k div 2 = lo then pivot else vec ! (k div 2 - 2))"
    "vec[lo - 2 := pivot] ! (k - 2) = (if k = lo then pivot else vec ! (k - 2))"
    using k assms(2) by (intro at; linarith)+
  moreover have "k = lo \<Longrightarrow> k div 2 \<noteq> lo" using assms(3) by linarith
  ultimately show "ge (vec[lo - 2 := pivot] ! (k div 2 - 2)) (vec[lo - 2 := pivot] ! (k - 2))"
    using assms(1) k children[of k] by (auto simp: holed_def)
qed

lemma holed_move:
  assumes hole: "holed m hi lo pivot vec" and m: "2 \<le> m" "m \<le> lo" and bounds: "lo \<le> hi" "hi \<le> length vec"
    and j: "j div 2 = lo" "j \<le> hi" "ge (vec ! (j - 2)) pivot"
    and sibling: "\<And>k. k \<le> hi \<Longrightarrow> k div 2 = lo \<Longrightarrow> ge (vec ! (j - 2)) (vec ! (k - 2))"
  shows "holed m hi j pivot (vec[lo - 2 := vec ! (j - 2)])"
proof -
  let ?v = "vec[lo - 2 := vec ! (j - 2)]"
  have at: "?v ! (n - 2) = (if n = lo then vec ! (j - 2) else vec ! (n - 2))" if "2 \<le> n" "n \<le> hi" for n
    using that m bounds by (auto simp: nth_list_update)
  have old: "ge (vec ! (k div 2 - 2)) (vec ! (k - 2))" if "k \<le> hi" "m \<le> k div 2" "k \<noteq> lo" "k div 2 \<noteq> lo" for k
    using hole that unfolding holed_def by blast
  have up: "ge (vec ! (lo div 2 - 2)) (vec ! (k - 2))" if "k \<le> hi" "m \<le> lo div 2" "k div 2 = lo" for k
    using hole that unfolding holed_def by blast
  have "ge (?v ! (k div 2 - 2)) (?v ! (k - 2))"
    if k: "k \<le> hi" "m \<le> k div 2" "k \<noteq> j" "k div 2 \<noteq> j" for k
  proof -
    have "2 \<le> k div 2" "k div 2 \<le> hi" "2 \<le> k" using k m by linarith+
    moreover have "k = lo \<Longrightarrow> k div 2 \<noteq> lo" using m by linarith
    ultimately show ?thesis
      using k old[of k] up[of j] sibling[of k] j(1,2) by (auto simp: at)
  qed
  moreover have "?v ! (j div 2 - 2) = vec ! (j - 2)" using at[of lo] j m bounds by simp
  moreover have "ge (vec ! (j - 2)) (?v ! (k - 2))" if k: "k \<le> hi" "k div 2 = j" for k
  proof -
    have "k \<noteq> lo" "j \<noteq> lo" "2 \<le> k" "m \<le> k div 2" using k j m by linarith+
    then show ?thesis using k old[of k] at[of k] by simp
  qed
  ultimately show ?thesis using j by (simp add: holed_def)
qed

lemma larger_child_largest:
  assumes "larger_child cmp hi j vec s = Some (j', s')" "2 \<le> j" "j \<le> hi" "hi \<le> length vec" "set vec \<subseteq> S" "even j"
    and "k \<le> hi" "k div 2 = j div 2"
  shows "ge (vec ! (j' - 2)) (vec ! (k - 2))"
proof -
  have mem: "vec ! (n - 2) \<in> S" if "2 \<le> n" "n \<le> hi" for n
    using that assms(3-5) by (intro subsetD[OF assms(5)] nth_mem) linarith
  have next_slot: "j - 1 = j + 1 - 2" using assms(2) by simp
  have k: "k = j \<or> k = j + 1" using assms(6,8) by (auto elim!: evenE)
  consider "j' = j + 1" "j < hi" "fst (cmp (vec ! (j - 2)) (vec ! (j + 1 - 2)) s) < 0"
    | "j' = j" "j < hi \<Longrightarrow> 0 \<le> fst (cmp (vec ! (j - 2)) (vec ! (j + 1 - 2)) s)"
    using larger_child_answer[OF assms(1-4)] by (auto simp: next_slot)
  then show ?thesis
  proof cases
    case 1
    then have "ge (vec ! (j + 1 - 2)) (vec ! (j - 2))"
      using negative[of "vec ! (j - 2)" "vec ! (j + 1 - 2)"] mem[of j] mem[of "j + 1"] assms(2,3) by simp
    then show ?thesis using 1 k reflexive mem[of "j + 1"] assms(2) by auto
  next
    case 2
    show ?thesis
    proof (cases "k = j")
      case False
      then have "j < hi" "k = j + 1" using k assms(7) by auto
      then show ?thesis using 2 nonnegative mem[of j] mem[of "j + 1"] assms(2) by simp
    qed (use 2 reflexive mem[of j] assms(2,3) in simp)
  qed
qed

lemma sift_down_heaps:
  assumes "2 \<le> m" "m \<le> lo" "lo \<le> hi" "hi \<le> length vec" "pivot \<in> S" "set vec \<subseteq> S" "holed m hi lo pivot vec"
    "sift_down cmp hi pivot lo vec s = Some (lo', vec', s')"
  shows "heaped m hi (vec'[lo' - 2 := pivot])"
  using assms
proof (induction "hi - lo" arbitrary: lo vec s rule: less_induct)
  case less
  note pre = less.prems
  show ?case
  proof (cases "lo \<le> hi div 2")
    case True
    then have two: "2 \<le> lo + lo" "lo + lo \<le> hi" using pre by auto
    obtain j s1 where j: "larger_child cmp hi (lo + lo) vec s = Some (j, s1)" "j = lo + lo \<or> j = lo + lo + 1" "j \<le> hi"
      by (rule larger_child_cases[OF two pre(4), of cmp s])
    have largest: "ge (vec ! (j - 2)) (vec ! (k - 2))" if "k \<le> hi" "k div 2 = lo" for k
      using larger_child_largest[OF j(1) two pre(4,6), of k] that by simp
    have acc: "vec2_get vec j = Some (vec ! (j - 2))"
      "vec2_put vec lo (vec ! (j - 2)) = Some (vec[lo - 2 := vec ! (j - 2)])"
      using j pre by (intro vec_in; linarith)+
    have mem: "vec ! (n - 2) \<in> S" if "2 \<le> n" "n \<le> hi" for n
      using that pre(4) by (intro subsetD[OF pre(6)] nth_mem) linarith
    obtain r s2 where r: "cmp pivot (vec ! (j - 2)) s1 = (r, s2)" by (cases "cmp pivot (vec ! (j - 2)) s1")
    have "2 \<le> j" using j pre by linarith
    then have rc: "0 \<le> r \<Longrightarrow> ge pivot (vec ! (j - 2))" "r < 0 \<Longrightarrow> ge (vec ! (j - 2)) pivot"
      using negative[OF pre(5) mem[of j], of s1] nonnegative[OF pre(5) mem[of j], of s1] r j by simp_all
    have unfold: "sift_down cmp hi pivot lo vec s
        = (if 0 \<le> r then Some (lo, vec, s2) else sift_down cmp hi pivot j (vec[lo - 2 := vec ! (j - 2)]) s2)"
      using True j(1) acc r by (subst sift_down.simps) simp
    show ?thesis
    proof (cases "0 \<le> r")
      case True
      have "ge pivot (vec ! (k - 2))" if k: "k \<le> hi" "k div 2 = lo" for k
      proof -
        have "2 \<le> k" using k pre by linarith
        then show ?thesis
          using transitive[OF pre(5) mem[of j] mem[of k]] True rc largest[OF k] k j \<open>2 \<le> j\<close> by simp
      qed
      then have "heaped m hi (vec[lo - 2 := pivot])" using pre by (intro holed_close) auto
      then show ?thesis using unfold True pre(8) by simp
    next
      case False
      let ?v = "vec[lo - 2 := vec ! (j - 2)]"
      have "ge (vec ! (j - 2)) pivot" using False rc by simp
      then have "holed m hi j pivot ?v" using largest j pre by (intro holed_move) auto
      moreover have "set ?v \<subseteq> S" using set_update_subset_insert[of vec] mem[of j] pre(6) \<open>2 \<le> j\<close> j by blast
      moreover have "hi - j < hi - lo" "m \<le> j" "hi \<le> length ?v" using j pre by auto
      moreover have "sift_down cmp hi pivot j ?v s2 = Some (lo', vec', s')" using unfold False pre(8) by simp
      ultimately show ?thesis using less.hyps[of j ?v s2] pre(1,5) j(3) by blast
    qed
  next
    case False
    then have "lo' = lo" "vec' = vec" using pre(8) by (auto simp: sift_down.simps[of cmp hi pivot lo])
    moreover have "heaped m hi (vec[lo - 2 := pivot])" using False pre by (intro holed_close) auto
    ultimately show ?thesis by simp
  qed
qed

lemma sift_store_heaps:
  assumes "2 \<le> m" "m \<le> lo" "lo \<le> hi" "hi \<le> length vec" "pivot \<in> S" "set vec \<subseteq> S" "holed m hi lo pivot vec"
    "sift_store cmp hi pivot lo vec s = Some (vec', s')"
  shows "heaped m hi vec'"
proof -
  obtain lo1 v1 s1 where 1: "sift_down cmp hi pivot lo vec s = Some (lo1, v1, s1)" "vec2_put v1 lo1 pivot = Some vec'"
    using assms(8) by (auto simp: sift_store_def split: Option.bind_splits)
  then have "vec' = v1[lo1 - 2 := pivot]" by (auto simp: vec2_put_def vec_put_def split: if_splits)
  then show ?thesis using sift_down_heaps[OF assms(1-7) 1(1)] by simp
qed

lemma helper_heaps:
  assumes "2 \<le> lo" "lo \<le> hi" "hi \<le> length vec" "set vec \<subseteq> S" "heaped (Suc lo) hi vec"
    "HeapSortHelper cmp building lo hi vec s = Some (vec', s')"
  shows "heaped lo hi vec'"
proof -
  have in_bounds: "lo - 2 < length vec" using assms(1-3) by linarith
  then have "sift_store cmp hi (vec ! (lo - 2)) lo vec s = Some (vec', s')"
    using assms(1,6) by (simp add: HeapSortHelper_def vec_in)
  moreover have "holed lo hi lo (vec ! (lo - 2)) vec" using assms(1,5) by (auto simp: holed_def heaped_def)
  moreover have "vec ! (lo - 2) \<in> S" using in_bounds assms(4) by auto
  ultimately show ?thesis using sift_store_heaps[of lo lo hi vec] assms(1-4) by simp
qed

lemma heaped_bounded:
  assumes "heaped 2 hi vec" "hi \<le> length vec" "set vec \<subseteq> S" "b \<in> S" "ge b (vec ! (2 - 2))"
    "3 \<le> hi \<Longrightarrow> ge b (vec ! (3 - 2))" "2 \<le> k" "k \<le> hi"
  shows "ge b (vec ! (k - 2))"
  using assms(7,8)
proof (induction k rule: less_induct)
  case (less k)
  have mem: "vec ! (n - 2) \<in> S" if "2 \<le> n" "n \<le> hi" for n
    using that assms(2) by (intro subsetD[OF assms(3)] nth_mem) linarith
  consider "k = 2" | "k = 3" | "4 \<le> k" using less.prems by linarith
  then show ?case
  proof cases
    case 3
    then have "k div 2 < k" "2 \<le> k div 2" "k div 2 \<le> hi" using less.prems by auto
    moreover have "ge (vec ! (k div 2 - 2)) (vec ! (k - 2))"
      using assms(1) less.prems \<open>2 \<le> k div 2\<close> by (simp add: heaped_def)
    ultimately show ?thesis
      using less.IH[of "k div 2"] transitive[OF assms(4) mem[of "k div 2"] mem[of k]] less.prems by simp
  qed (use assms(5,6) less.prems in auto)
qed

lemma helper_root:
  assumes "2 \<le> hi" "hi \<le> length vec" "set vec \<subseteq> S" "heaped 2 hi vec"
    "HeapSortHelper cmp building 1 hi vec s = Some (vec', s')"
    and below: "\<not> building \<Longrightarrow> hi \<noteq> 2 \<Longrightarrow> \<exists>k\<le>hi. 2 \<le> k \<and> ge (vec ! (k - 2)) (vec ! (hi - 1))"
  shows "heaped 2 hi vec' \<and> (\<forall>i<hi. ge (vec' ! (hi - 1)) (vec' ! i))"
proof -
  have two: "(2 :: nat) \<le> 2" "2 \<le> hi" using assms by auto
  obtain j s1 where j: "larger_child cmp hi 2 vec s = Some (j, s1)" "j = 2 \<or> j = 2 + 1" "j \<le> hi"
    by (rule larger_child_cases[OF two assms(2), of cmp s])
  define b where "b = vec ! (j - 2)"
  define a where "a = vec ! (hi - 1)"
  have acc: "vec_get vec (hi - 1) = Some a" "vec2_get vec j = Some b" "vec_put vec (hi - 1) b = Some (vec[hi - 1 := b])"
    unfolding a_def b_def using j assms by (intro vec_in; linarith)+
  have ab: "a \<in> S" "b \<in> S" unfolding a_def b_def
    using j assms(1,2) by (auto intro!: subsetD[OF assms(3)] nth_mem)
  have largest: "ge b (vec ! (k - 2))" if "2 \<le> k" "k \<le> hi" for k
  proof (rule heaped_bounded[OF assms(4,2,3) ab(2) _ _ that])
    show "ge b (vec ! (2 - 2))" "3 \<le> hi \<Longrightarrow> ge b (vec ! (3 - 2))"
      unfolding b_def using larger_child_largest[OF j(1) two assms(2,3), of 2]
        larger_child_largest[OF j(1) two assms(2,3), of 3] assms(1) by simp_all
  qed
  have top: "ge x (vec ! i)" if "x \<in> S" "ge x b" "ge x a" "i < hi" for x i
  proof (cases "i = hi - 1")
    case False
    then have "2 \<le> i + 2" "i + 2 \<le> hi" "vec ! i \<in> S" using that assms(2,3) by auto
    then show ?thesis using largest[of "i + 2"] transitive[OF that(1) ab(2)] that(2) by fastforce
  qed (use that in \<open>simp add: a_def\<close>)
  obtain r s2 where r: "(if building \<or> hi = 2 then cmp a b s1 else (-1, s1)) = (r, s2)" by fastforce
  then have rc: "0 \<le> r \<Longrightarrow> ge a b" "building \<or> hi = 2 \<Longrightarrow> r < 0 \<Longrightarrow> ge b a"
    using negative[OF ab, of s1] nonnegative[OF ab, of s1] by (auto split: if_splits)
  have unfold: "HeapSortHelper cmp building 1 hi vec s
      = (if 0 \<le> r then Some (vec, s2) else sift_store cmp hi a j (vec[hi - 1 := b]) s2)"
    using j(1) r acc by (simp add: HeapSortHelper_def del: One_nat_def)
  show ?thesis
  proof (cases "0 \<le> r")
    case True
    then have "ge a b" by (rule rc)
    then show ?thesis using unfold True assms(4,5) top[OF ab(1)] reflexive[OF ab(1)] by (simp add: a_def)
  next
    case False
    let ?v = "vec[hi - 1 := b]"
    have ba: "ge b a"
    proof (cases "building \<or> hi = 2")
      case True
      then show ?thesis using False rc(2) by simp
    next
      case False
      then obtain k where k: "k \<le> hi" "2 \<le> k" "ge (vec ! (k - 2)) a" using below by (auto simp: a_def)
      then have "vec ! (k - 2) \<in> S" using assms(2) by (intro subsetD[OF assms(3)] nth_mem) linarith
      then show ?thesis using transitive[OF ab(2) _ ab(1)] largest[OF k(2,1)] k(3) by blast
    qed
    have run: "sift_store cmp hi a j ?v s2 = Some (vec', s')" using unfold False assms(5) by simp
    have pre: "2 \<le> j" "j \<le> hi" "hi \<le> length ?v" using j assms by auto
    have "set ?v \<subseteq> S" using set_update_subset_insert[of vec] ab(2) assms(3) by blast
    moreover have "holed 2 hi j a ?v"
      using assms(1,4) j(2) by (auto simp: holed_def heaped_def)
    ultimately have "heaped 2 hi vec'" using sift_store_heaps[OF _ pre ab(1) _ _ run] by simp
    moreover have "vec' ! (hi - 1) = b" "set (take hi vec') = set (take hi vec)"
      using sift_store_root[OF pre(1,2) assms(2) b_def run[unfolded a_def]] by simp_all
    moreover have "\<forall>x\<in>set (take hi vec). ge b x"
      using top[OF ab(2) reflexive[OF ab(2)] ba] by (auto simp: in_set_conv_nth)
    moreover have "length vec' = length vec" using sift_store_permutes[OF pre, of cmp a s2] run by auto
    ultimately show ?thesis using assms(2)
      by (metis in_set_conv_nth length_take min.absorb2 nth_take)
  qed
qed

lemma heap_build_heaps:
  assumes "1 \<le> i" "i \<le> nel div 2" "nel \<le> length vec" "set vec \<subseteq> S" "heaped (Suc i) nel vec"
    "heap_build cmp i nel vec s = Some (vec', s')"
  shows "heaped 2 nel vec' \<and> (\<forall>k<nel. ge (vec' ! (nel - 1)) (vec' ! k))"
  using assms
proof (induction i arbitrary: vec s)
  case (Suc i)
  have pre: "1 \<le> Suc i" "Suc i \<le> nel" "2 \<le> nel" "nel \<le> length vec" using Suc.prems by auto
  obtain v1 s1 where 1: "HeapSortHelper cmp True (Suc i) nel vec s = Some (v1, s1)" "length v1 = length vec"
    "mset v1 = mset vec" "\<forall>k\<ge>nel. v1 ! k = vec ! k"
    using HeapSortHelper_permutes[OF pre, of cmp True s] by blast
  then have rest: "heap_build cmp i nel v1 s1 = Some (vec', s')" using Suc.prems(6) by simp
  show ?case
  proof (cases "i = 0")
    case True
    have "heaped 2 nel v1 \<and> (\<forall>k<nel. ge (v1 ! (nel - 1)) (v1 ! k))"
      using Suc.prems True 1(1) by (intro helper_root[OF pre(3,4), of True s v1 s1]) (auto simp: numeral_2_eq_2)
    then show ?thesis using rest True by simp
  next
    case False
    then have "heaped (Suc i) nel v1"
      using Suc.prems 1(1) pre by (intro helper_heaps[of "Suc i" nel vec True s v1 s1]) auto
    moreover have "set v1 \<subseteq> S" using 1(3) Suc.prems(4) by (metis mset_eq_setD)
    ultimately show ?thesis using Suc.IH[of v1 s1] False Suc.prems(2,3) 1(2) rest by simp
  qed
qed simp

lemma heap_extract_sorts:
  assumes "nel \<le> n" "n \<le> length vec" "set vec \<subseteq> S" "heaped 2 nel vec"
    "\<forall>j<n. nel - 1 \<le> j \<longrightarrow> (\<forall>i\<le>j. ge (vec ! j) (vec ! i))"
    "heap_extract cmp nel vec s = Some (vec', s')"
  shows "\<forall>j<n. \<forall>i\<le>j. ge (vec' ! j) (vec' ! i)"
  using assms
proof (induction nel arbitrary: vec s rule: less_induct)
  case (less nel)
  note prems = less.prems
  show ?case
  proof (cases "2 < nel")
    case True
    define hi where "hi = nel - 1"
    have pre: "(1::nat) \<le> 1" "1 \<le> hi" "2 \<le> hi" "hi \<le> length vec" "nel = Suc hi" using True prems by (auto simp: hi_def)
    obtain v1 s1 where 1: "HeapSortHelper cmp False 1 hi vec s = Some (v1, s1)" "length v1 = length vec"
      "mset v1 = mset vec" "\<forall>k\<ge>hi. v1 ! k = vec ! k"
      using HeapSortHelper_permutes[OF pre(1-4), of cmp False s] by blast
    have run: "heap_extract cmp hi v1 s1 = Some (vec', s')"
      using True prems(6) 1(1) by (simp add: heap_extract.simps[of cmp nel] hi_def[symmetric] del: One_nat_def)
    have "heaped 2 hi vec" using prems(4) pre(5) by (auto simp: heaped_def)
    moreover have "\<exists>k\<le>hi. 2 \<le> k \<and> ge (vec ! (k - 2)) (vec ! (hi - 1))" if "hi \<noteq> 2"
    proof (intro exI conjI)
      show "nel div 2 \<le> hi" "2 \<le> nel div 2" using pre(3,5) that by auto
      have "2 \<le> nel div 2 \<longrightarrow> ge (vec ! (nel div 2 - 2)) (vec ! (nel - 2))"
        using prems(4) by (simp add: heaped_def)
      then show "ge (vec ! (nel div 2 - 2)) (vec ! (hi - 1))"
        using pre(5) \<open>2 \<le> nel div 2\<close> by (simp add: numeral_2_eq_2)
    qed
    ultimately have root: "heaped 2 hi v1" "\<forall>i<hi. ge (v1 ! (hi - 1)) (v1 ! i)"
      using helper_root[OF pre(3,4) prems(3) _ 1(1)] by blast+
    have old: "v1 ! i \<in> set (take hi vec)" if "i < hi" for i
      using set_take_permuted[OF 1(3,2,4)] that 1(2) pre(4)
      by (metis in_set_conv_nth length_take min.absorb2 nth_take)
    have "ge (v1 ! j) (v1 ! i)" if j: "j < n" "hi - 1 \<le> j" "i \<le> j" for i j
    proof (cases "j = hi - 1")
      case False
      then have "hi \<le> j" using j by simp
      then have "\<exists>i'\<le>j. v1 ! i = vec ! i'"
      proof (cases "i < hi")
        case True
        then show ?thesis using old[OF True] \<open>hi \<le> j\<close> by (auto simp: in_set_conv_nth) (metis le_trans less_imp_le)
      qed (use 1(4) j(3) in auto)
      then show ?thesis using prems(5) j(1) \<open>hi \<le> j\<close> 1(4) pre(5) by auto
    qed (use root(2) j pre(2) in simp)
    moreover have "set v1 \<subseteq> S" using 1(3) prems(3) by (metis mset_eq_setD)
    ultimately show ?thesis
      using less.IH[of hi v1 s1] root(1) run pre(5) prems(1,2) 1(2) by simp
  next
    case False
    then have "vec' = vec" using prems(6) by (simp add: heap_extract.simps[of cmp nel])
    moreover have "vec ! 0 \<in> S" if "0 < n" using that prems(2) by (intro subsetD[OF prems(3)] nth_mem) linarith
    moreover have "j = 0 \<or> nel - 1 \<le> j" for j using False by linarith
    ultimately show ?thesis using prems(5) reflexive by (metis le_zero_eq)
  qed
qed

lemma heap_sort_sorts:
  assumes "nel \<le> length vec" "set vec \<subseteq> S"
  shows "\<exists>vec' s'. js_HeapSort cmp nel vec s = Some (vec', s') \<and> mset vec' = mset vec \<and> length vec' = length vec
    \<and> (\<forall>k\<ge>nel. vec' ! k = vec ! k) \<and> sorted_wrt (\<lambda>x y. ge y x) (take nel vec')"
proof -
  obtain vec' s' where run: "js_HeapSort cmp nel vec s = Some (vec', s')" and perm: "length vec' = length vec"
    "mset vec' = mset vec" "\<forall>k\<ge>nel. vec' ! k = vec ! k"
    using heap_sort_permutes[OF assms(1), of cmp s] by blast
  obtain v1 s1 where 1: "heap_build cmp (nel div 2) nel vec s = Some (v1, s1)" "length v1 = length vec"
    "mset v1 = mset vec" "\<forall>k\<ge>nel. v1 ! k = vec ! k"
    using heap_build_permutes[OF order_refl assms(1), of cmp s] by blast
  have rest: "heap_extract cmp nel v1 s1 = Some (vec', s')" using run 1(1) by (simp add: js_HeapSort_def)
  have S: "set v1 \<subseteq> S" using 1(3) assms(2) by (metis mset_eq_setD)
  have "\<forall>j<nel. \<forall>i\<le>j. ge (vec' ! j) (vec' ! i)"
  proof (cases "2 \<le> nel")
    case True
    have "heaped (Suc (nel div 2)) nel vec" by (auto simp: heaped_def dest: div_le_mono[of _ nel 2])
    then have heap: "heaped 2 nel v1" "\<forall>k<nel. ge (v1 ! (nel - 1)) (v1 ! k)"
      using heap_build_heaps[OF _ order_refl assms(1,2) _ 1(1)] True by auto
    moreover have "\<forall>j<nel. nel - 1 \<le> j \<longrightarrow> (\<forall>i\<le>j. ge (v1 ! j) (v1 ! i))"
    proof (intro allI impI)
      fix j i assume "j < nel" "nel - 1 \<le> j" "i \<le> j"
      then have "j = nel - 1" "i < nel" by linarith+
      then show "ge (v1 ! j) (v1 ! i)" using heap(2) by simp
    qed
    ultimately show ?thesis using heap_extract_sorts[OF order_refl _ S _ _ rest] assms(1) 1(2) by simp
  next
    case False
    then have "vec' = v1" using rest by (simp add: heap_extract.simps[of cmp nel])
    moreover have "v1 ! 0 \<in> S" if "0 < nel" using that 1(2) assms(1) by (intro subsetD[OF S] nth_mem) linarith
    moreover have "j = 0" if "j < nel" for j using False that by linarith
    ultimately show ?thesis using reflexive by fastforce
  qed
  then show ?thesis using run perm by (auto simp: sorted_wrt_iff_nth_less)
qed

end

end
