(* ===== verification/JS_Array.thy ===== *)
theory JS_Array
  imports JS_Sort JS_Strings JS_Xdr
begin

text \<open>
  Arrays and their methods, js/src/jsarray.c. An array is its length and its elements; those that are
  missing are holes. Its elements are plain properties: getting one of them calls no script, and its
  prototypes have no elements. Of the engine's operations on objects, those on the elements of an
  array are written out here: setting a new one calls \<open>array_addProperty\<close>, which sets the length, whose
  setter is \<open>array_length_setter\<close>. An operation that fails is \<open>None\<close>.
\<close>

section \<open>Arrays\<close>

record js_array =
  length_of :: u32
  elems :: "u32 \<rightharpoonup> jsval"

text \<open>
  What the methods depend on: whether the string or number of an index above \<open>JSVAL_INT_MAX\<close> and a new
  array object can be allocated, and the version.
\<close>

record array_env =
  id_ok :: "u32 \<Rightarrow> bool"
  new_ok :: bool
  version_1_2 :: bool

definition JSVAL_INT_MAX :: u32 where "JSVAL_INT_MAX = push_bit 30 1 - 1"

definition IndexToId :: "array_env \<Rightarrow> u32 \<Rightarrow> u32 option" where
  "IndexToId env index = (if index \<le> JSVAL_INT_MAX \<or> id_ok env index then Some index else None)"

definition IndexToValue :: "array_env \<Rightarrow> u32 \<Rightarrow> u32 option" where
  "IndexToValue env index = (if index \<le> JSVAL_INT_MAX \<or> id_ok env index then Some index else None)"

text \<open>\<open>IndexToExistingId\<close> gives \<open>JSID_HOLE\<close>, here \<open>None\<close>, for an element that is missing.\<close>

definition IndexToExistingId :: "array_env \<Rightarrow> js_array \<Rightarrow> u32 \<Rightarrow> u32 option option" where
  "IndexToExistingId env a index = do {
     id \<leftarrow> IndexToId env index;
     Some (if elems a id = None then None else Some id) }"

definition get_property :: "js_array \<Rightarrow> u32 \<Rightarrow> jsval" where
  "get_property a pid = (case elems a pid of None \<Rightarrow> JSVAL_VOID | Some v \<Rightarrow> v)"

definition delete_property :: "u32 \<Rightarrow> js_array \<Rightarrow> js_array" where
  "delete_property pid a = a\<lparr>elems := (elems a)(pid := None)\<rparr>"

text \<open>A loop over known indices that ends where its body fails.\<close>

primrec for_each :: "('i \<Rightarrow> 'a \<Rightarrow> 'a option) \<Rightarrow> 'i list \<Rightarrow> 'a \<Rightarrow> 'a option" where
  "for_each body [] a = Some a"
| "for_each body (i # is) a = do { a \<leftarrow> body i a; for_each body is a }"

definition up :: "u32 \<Rightarrow> u32 \<Rightarrow> u32 list" where "up from to = map of_nat [unat from..<unat to]"
definition down :: "u32 \<Rightarrow> u32 \<Rightarrow> u32 list" where "down from to = rev (up to from)"

definition array_length_setter :: "array_env \<Rightarrow> u32 \<Rightarrow> js_array \<Rightarrow> js_array option" where
  "array_length_setter env newlen a = do {
     a \<leftarrow> for_each (\<lambda>slot a. do { id2 \<leftarrow> IndexToId env slot; Some (delete_property id2 a) })
            (down (length_of a) newlen) a;
     v \<leftarrow> IndexToValue env newlen;
     Some (a\<lparr>length_of := v\<rparr>) }"

definition js_SetLengthProperty :: "array_env \<Rightarrow> u32 \<Rightarrow> js_array \<Rightarrow> js_array option" where
  "js_SetLengthProperty env len a = do {
     v \<leftarrow> IndexToValue env len;
     array_length_setter env v a }"

text \<open>The largest 32-bit number is not an index (\<open>js_IdIsIndex\<close>), so that adding it leaves the length alone.\<close>

definition array_addProperty :: "array_env \<Rightarrow> u32 \<Rightarrow> js_array \<Rightarrow> js_array option" where
  "array_addProperty env pid a =
     (if pid = - 1 then Some a
      else if length_of a \<le> pid then js_SetLengthProperty env (pid + 1) a
      else Some a)"

definition set_property :: "array_env \<Rightarrow> u32 \<Rightarrow> jsval \<Rightarrow> js_array \<Rightarrow> js_array option" where
  "set_property env pid v a =
     (let a' = a\<lparr>elems := (elems a)(pid \<mapsto> v)\<rparr>
      in if elems a pid = None then array_addProperty env pid a' else Some a')"

definition InitArrayElements :: "array_env \<Rightarrow> jsval list \<Rightarrow> js_array \<Rightarrow> js_array option" where
  "InitArrayElements env vector =
     for_each (\<lambda>(index, v) a. do { id \<leftarrow> IndexToId env index; set_property env id v a })
       (zip (map of_nat [0..<length vector]) vector)"

definition js_NewArrayObject :: "array_env \<Rightarrow> u32 \<Rightarrow> jsval list option \<Rightarrow> js_array option" where
  "js_NewArrayObject env len vector =
     (if new_ok env
      then do {
        v \<leftarrow> IndexToValue env len;
        let a = \<lparr>length_of = v, elems = Map.empty\<rparr>;
        case vector of None \<Rightarrow> Some a | Some vector \<Rightarrow> InitArrayElements env vector a }
      else None)"

section \<open>Stacks and queues\<close>

datatype array_result = R_Value jsval | R_Number u32

definition array_push :: "array_env \<Rightarrow> jsval list \<Rightarrow> js_array \<Rightarrow> (array_result \<times> js_array) option" where
  "array_push env argv a =
     (let len = length_of a
      in do {
        a \<leftarrow> for_each (\<lambda>(i, v) a. do { id \<leftarrow> IndexToId env (len + i); set_property env id v a })
               (zip (map of_nat [0..<length argv]) argv) a;
        let len = len + of_nat (length argv);
        r \<leftarrow> (if version_1_2 env then Some (R_Value (if argv = [] then JSVAL_VOID else last argv))
              else map_option R_Number (IndexToValue env len));
        a \<leftarrow> js_SetLengthProperty env len a;
        Some (r, a) })"

definition array_pop :: "array_env \<Rightarrow> js_array \<Rightarrow> (jsval \<times> js_array) option" where
  "array_pop env a =
     (let index = length_of a
      in if 0 < index
         then do {
           let index = index - 1;
           id \<leftarrow> IndexToId env index;
           let r = get_property a id;
           a \<leftarrow> js_SetLengthProperty env index (delete_property id a);
           Some (r, a) }
         else do { a \<leftarrow> js_SetLengthProperty env index a; Some (JSVAL_VOID, a) })"

definition array_shift :: "array_env \<Rightarrow> js_array \<Rightarrow> (jsval \<times> js_array) option" where
  "array_shift env a =
     (let len = length_of a
      in if 0 < len
         then do {
           let len = len - 1;
           let r = get_property a 0;
           a \<leftarrow> for_each (\<lambda>i a. do {
                    id \<leftarrow> IndexToId env i;
                    let v = get_property a id;
                    id2 \<leftarrow> IndexToId env (i - 1);
                    set_property env id2 v a }) (map of_nat [1..<Suc (unat len)]) a;
           id \<leftarrow> IndexToId env len;
           a \<leftarrow> js_SetLengthProperty env len (delete_property id a);
           Some (r, a) }
         else do { a \<leftarrow> js_SetLengthProperty env len a; Some (JSVAL_VOID, a) })"

text \<open>Moving one element, or its absence, within an array.\<close>

definition move_slot :: "array_env \<Rightarrow> u32 \<Rightarrow> u32 \<Rightarrow> js_array \<Rightarrow> js_array option" where
  "move_slot env from to a = do {
     found \<leftarrow> IndexToExistingId env a from;
     id2 \<leftarrow> IndexToId env to;
     case found of
       None \<Rightarrow> Some (delete_property id2 a)
     | Some pid \<Rightarrow> set_property env id2 (get_property a pid) a }"

definition array_unshift :: "array_env \<Rightarrow> jsval list \<Rightarrow> js_array \<Rightarrow> (u32 \<times> js_array) option" where
  "array_unshift env argv a =
     (let len = length_of a; argc = of_nat (length argv)
      in if argv \<noteq> []
         then do {
           a \<leftarrow> for_each (\<lambda>last. move_slot env last (last + argc)) (down len 0) a;
           a \<leftarrow> for_each (\<lambda>(i, v) a. do { id \<leftarrow> IndexToId env i; set_property env id v a })
                  (zip (map of_nat [0..<length argv]) argv) a;
           let len = len + argc;
           a \<leftarrow> js_SetLengthProperty env len a;
           r \<leftarrow> IndexToValue env len;
           Some (r, a) }
         else do { r \<leftarrow> IndexToValue env len; Some (r, a) })"

section \<open>Cutting and joining\<close>

text \<open>Copying one element, unless it is missing, into another array.\<close>

definition copy_slot :: "array_env \<Rightarrow> js_array \<Rightarrow> u32 \<Rightarrow> u32 \<Rightarrow> js_array \<Rightarrow> js_array option" where
  "copy_slot env src from to dst = do {
     found \<leftarrow> IndexToExistingId env src from;
     case found of
       None \<Rightarrow> Some dst
     | Some pid \<Rightarrow> do { id2 \<leftarrow> IndexToId env to; set_property env id2 (get_property src pid) dst } }"

definition to_index :: "jsdouble \<Rightarrow> u32 option" where
  "to_index d = map_option of_int (cast_double 0 4294967295 (fin d))"

text \<open>
  \<open>Array.prototype.splice\<close> of the numbers its first two arguments convert to, and of its other
  arguments. The result is nothing, an element, or a new array.
\<close>

datatype splice_result = S_Void | S_Value jsval | S_Array js_array

definition splice_removed :: "array_env \<Rightarrow> u32 \<Rightarrow> u32 \<Rightarrow> js_array \<Rightarrow> splice_result option" where
  "splice_removed env begin' count' a =
     (let end' = begin' + count'
      in if count' = 1 \<and> version_1_2 env
         then do { id \<leftarrow> IndexToId env begin'; Some (S_Value (get_property a id)) }
         else if \<not> version_1_2 env \<or> 0 < count'
         then do {
           obj2 \<leftarrow> js_NewArrayObject env 0 None;
           obj2 \<leftarrow> (if 0 < count'
                    then do {
                      obj2 \<leftarrow> for_each (\<lambda>last. copy_slot env a last (last - begin')) (up begin' end') obj2;
                      js_SetLengthProperty env (end' - begin') obj2 }
                    else Some obj2);
           Some (S_Array obj2) }
         else Some S_Void)"

definition splice_moved :: "array_env \<Rightarrow> u32 \<Rightarrow> u32 \<Rightarrow> u32 \<Rightarrow> js_array \<Rightarrow> (u32 \<times> js_array) option" where
  "splice_moved env argc count' end' a =
     (let len = length_of a
      in if count' < argc
         then do {
           let delta = argc - count';
           a \<leftarrow> for_each (\<lambda>last. move_slot env last (last + delta)) (down len end') a;
           Some (len + delta, a) }
         else if argc < count'
         then do {
           let delta = count' - argc;
           a \<leftarrow> for_each (\<lambda>last. move_slot env last (last - delta)) (up end' len) a;
           Some (len - delta, a) }
         else Some (len, a))"

definition array_splice ::
  "array_env \<Rightarrow> jsdouble list \<Rightarrow> jsval list \<Rightarrow> js_array \<Rightarrow> (splice_result \<times> js_array) option" where
  "array_splice env nums argv a =
     (case nums of
        [] \<Rightarrow> Some (S_Void, a)
      | d # rest \<Rightarrow> do {
          let len = length_of a;
          begin' \<leftarrow> to_index (clamp_relative (of_integer (uint len)) d);
          let delta = len - begin';
          count' \<leftarrow> (case rest of
                      [] \<Rightarrow> Some delta
                    | d # _ \<Rightarrow> to_index (clamp_positive (of_integer (uint delta)) d));
          let end' = begin' + count';
          r \<leftarrow> splice_removed env begin' count' a;
          (len, a) \<leftarrow> splice_moved env (of_nat (length argv)) count' end' a;
          a \<leftarrow> for_each (\<lambda>(i, v) a. do { id \<leftarrow> IndexToId env (begin' + i); set_property env id v a })
                 (zip (map of_nat [0..<length argv]) argv) a;
          a \<leftarrow> js_SetLengthProperty env len a;
          Some (r, a) })"

text \<open>An argument of \<open>concat\<close>, the first of which is the array itself.\<close>

datatype concat_arg = Array_Arg js_array | Value_Arg jsval

fun concat_step :: "array_env \<Rightarrow> concat_arg \<Rightarrow> u32 \<times> js_array \<Rightarrow> (u32 \<times> js_array) option" where
  "concat_step env (Array_Arg src) (len, nobj) = do {
     let alength = length_of src;
     nobj \<leftarrow> for_each (\<lambda>slot. copy_slot env src slot (len + slot)) (up 0 alength) nobj;
     Some (len + alength, nobj) }"
| "concat_step env (Value_Arg v) (len, nobj) = do {
     id \<leftarrow> IndexToId env len;
     nobj \<leftarrow> set_property env id v nobj;
     Some (len + 1, nobj) }"

definition array_concat :: "array_env \<Rightarrow> concat_arg list \<Rightarrow> js_array option" where
  "array_concat env args = do {
     nobj \<leftarrow> js_NewArrayObject env 0 None;
     (len, nobj) \<leftarrow> for_each (concat_step env) args (0, nobj);
     js_SetLengthProperty env len nobj }"

definition array_slice :: "array_env \<Rightarrow> jsdouble list \<Rightarrow> js_array \<Rightarrow> js_array option" where
  "array_slice env nums a = do {
     nobj \<leftarrow> js_NewArrayObject env 0 None;
     let len = length_of a;
     begin' \<leftarrow> (case nums of d # _ \<Rightarrow> to_index (clamp_relative (of_integer (uint len)) d) | [] \<Rightarrow> Some 0);
     end' \<leftarrow> (case nums of _ # d # _ \<Rightarrow> to_index (clamp_relative (of_integer (uint len)) d) | _ \<Rightarrow> Some len);
     let begin' = (if end' < begin' then end' else begin');
     nobj \<leftarrow> for_each (\<lambda>slot. copy_slot env a slot (slot - begin')) (up begin' end') nobj;
     js_SetLengthProperty env (end' - begin') nobj }"

section \<open>Reversing and searching\<close>

definition swap_slots :: "array_env \<Rightarrow> u32 \<Rightarrow> u32 \<Rightarrow> js_array \<Rightarrow> js_array option" where
  "swap_slots env i j a = do {
     id \<leftarrow> IndexToId env i;
     let v = elems a id;
     id2 \<leftarrow> IndexToId env j;
     let v2 = elems a id2;
     a \<leftarrow> (case v of Some v \<Rightarrow> set_property env id2 v a | None \<Rightarrow> Some (delete_property id2 a));
     (case v2 of Some v2 \<Rightarrow> set_property env id v2 a | None \<Rightarrow> Some (delete_property id a)) }"

definition array_reverse :: "array_env \<Rightarrow> js_array \<Rightarrow> js_array option" where
  "array_reverse env a =
     (let len = length_of a; half = len div 2
      in for_each (\<lambda>i. swap_slots env i (len - i - 1)) (up 0 half) a)"

text \<open>The indices that are searched, in order; \<open>eq\<close> is \<open>js_StrictlyEqual\<close> with the value that is searched for.\<close>

primrec find_slot :: "array_env \<Rightarrow> (jsval \<Rightarrow> bool) \<Rightarrow> js_array \<Rightarrow> u32 list \<Rightarrow> u32 option option" where
  "find_slot env eq a [] = Some None"
| "find_slot env eq a (i # is) = do {
     found \<leftarrow> IndexToExistingId env a i;
     if found \<noteq> None \<and> eq (get_property a i)
     then do { r \<leftarrow> IndexToValue env i; Some (Some r) }
     else find_slot env eq a is }"

definition array_indexOfHelper ::
  "array_env \<Rightarrow> (jsval \<Rightarrow> bool) \<Rightarrow> jsdouble option \<Rightarrow> bool \<Rightarrow> js_array \<Rightarrow> u32 option option" where
  "array_indexOfHelper env eq start isLast a =
     (let len = length_of a
      in if len = 0 then Some None
         else do {
           i \<leftarrow> (case start of
                   None \<Rightarrow> Some (if isLast then len - 1 else 0)
                 | Some start \<Rightarrow>
                     let start = js_DoubleToInteger start
                     in if start < 0
                        then (let start = start + of_integer (uint len) in if start < 0 then Some 0 else to_index start)
                        else if of_integer (uint len) \<le> start then Some (len - 1)
                        else to_index start);
           find_slot env eq a (if isLast then rev (map of_nat [0..<Suc (unat i)]) else up i len) })"

section \<open>Elements by number\<close>

text \<open>
  An array views a function below \<open>n\<close> if its elements are those of the function, there are none
  beyond its length, and its length is at most \<open>n\<close>. The operations change the function; setting the length in the
  end makes a list of it.
\<close>

definition views :: "js_array \<Rightarrow> (nat \<Rightarrow> jsval option) \<Rightarrow> nat \<Rightarrow> bool" where
  "views a f n \<longleftrightarrow> n < 2 ^ 32 \<and> unat (length_of a) \<le> n \<and> (\<forall>i<2 ^ 32. elems a (of_nat i) = f i)
     \<and> (\<forall>i\<ge>unat (length_of a). f i = None)"

definition nth_or_hole :: "jsval option list \<Rightarrow> nat \<Rightarrow> jsval option" where
  "nth_or_hole xs i = (if i < length xs then xs ! i else None)"

text \<open>The array of a list of values and holes.\<close>

definition repr :: "js_array \<Rightarrow> jsval option list \<Rightarrow> bool" where
  "repr a xs \<longleftrightarrow> views a (nth_or_hole xs) (length xs) \<and> length_of a = of_nat (length xs)"

text \<open>Ids and numbers up to \<open>n\<close> can be made.\<close>

definition ids_fit :: "array_env \<Rightarrow> nat \<Rightarrow> bool" where
  "ids_fit env n \<longleftrightarrow> (\<forall>i. unat i \<le> n \<longrightarrow> i \<le> JSVAL_INT_MAX \<or> id_ok env i)"

lemma unat_of_nat_32: "n < 2 ^ 32 \<Longrightarrow> unat (of_nat n :: u32) = n"
  by (simp add: unat_of_nat take_bit_eq_mod)

lemma ids_fit_mono: "ids_fit env n \<Longrightarrow> m \<le> n \<Longrightarrow> ids_fit env m"
  by (auto simp: ids_fit_def)

lemma IndexToId_fits: "ids_fit env n \<Longrightarrow> i \<le> n \<Longrightarrow> n < 2 ^ 32 \<Longrightarrow> IndexToId env (of_nat i) = Some (of_nat i)"
  and IndexToValue_fits: "ids_fit env n \<Longrightarrow> i \<le> n \<Longrightarrow> n < 2 ^ 32 \<Longrightarrow> IndexToValue env (of_nat i) = Some (of_nat i)"
  by (auto simp: IndexToId_def IndexToValue_def ids_fit_def unat_of_nat_32)

lemma up_of_nat: "a < 2 ^ 32 \<Longrightarrow> b < 2 ^ 32 \<Longrightarrow> up (of_nat a) (of_nat b) = map of_nat [a..<b]"
  and down_of_nat: "a < 2 ^ 32 \<Longrightarrow> b < 2 ^ 32 \<Longrightarrow> down (of_nat b) (of_nat a) = map of_nat (rev [a..<b])"
  by (simp_all add: up_def down_def unat_of_nat_32 rev_map)

lemma views_get: "views a f n \<Longrightarrow> i < 2 ^ 32 \<Longrightarrow> elems a (of_nat i) = f i"
  by (simp add: views_def)

lemma views_mono: "views a f n \<Longrightarrow> n \<le> m \<Longrightarrow> m < 2 ^ 32 \<Longrightarrow> views a f m"
  by (auto simp: views_def)

lemma of_nat_eq_32: "i < 2 ^ 32 \<Longrightarrow> j < 2 ^ 32 \<Longrightarrow> (of_nat i :: u32) = of_nat j \<longleftrightarrow> i = j"
  by (metis unat_of_nat_32)

lemma views_delete: "views a f n \<Longrightarrow> i < 2 ^ 32 \<Longrightarrow> views (delete_property (of_nat i) a) (f(i := None)) n"
  by (auto simp: views_def delete_property_def of_nat_eq_32)

lemma for_each_map: "for_each body (map g is) a = for_each (\<lambda>i. body (g i)) is a"
  by (induction "is" arbitrary: a) (auto split: Option.bind_splits)

lemma for_each_cong:
  "(\<And>i a. i \<in> set is \<Longrightarrow> body i a = body' i a) \<Longrightarrow> for_each body is a = for_each body' is a"
  by (induction "is" arbitrary: a) (auto split: Option.bind_splits)

lemma for_each_related:
  assumes "\<And>i a f. i \<in> set is \<Longrightarrow> R a f \<Longrightarrow> \<exists>a'. body i a = Some a' \<and> R a' (g i f)" "R a f"
  shows "\<exists>a'. for_each body is a = Some a' \<and> R a' (fold g is f)"
  using assms
proof (induction "is" arbitrary: a f)
  case (Cons i "is")
  obtain a1 where "body i a = Some a1" "R a1 (g i f)" using Cons.prems(1)[of i a f] Cons.prems(2) by auto
  then show ?case using Cons.IH[of a1 "g i f"] Cons.prems(1) by auto
qed auto

lemmas for_each_views = for_each_related[where R = "\<lambda>a f. views a f n" for n]

lemma delete_slots:
  assumes "views a f n" "ids_fit env n" "l \<le> n"
  shows "\<exists>a'. for_each (\<lambda>slot a. do { id2 \<leftarrow> IndexToId env slot; Some (delete_property id2 a) }) (map of_nat (rev [k..<l])) a = Some a'
    \<and> views a' (\<lambda>i. if k \<le> i \<and> i < l then None else f i) n"
proof -
  have fold: "fold (\<lambda>i f. f(i := None)) (rev [k..<l]) f = (\<lambda>i. if k \<le> i \<and> i < l then None else f i)"
    by (induction l arbitrary: f) (auto simp: fun_eq_iff less_Suc_eq)
  show ?thesis unfolding for_each_map fold[symmetric]
  proof (rule for_each_views[OF _ assms(1)])
    fix i a f assume i: "i \<in> set (rev [k..<l])" "views a f n"
    then have "n < 2 ^ 32" "i \<le> n" "i < 2 ^ 32" using assms(3) by (auto simp: views_def)
    then show "\<exists>a'. do { id2 \<leftarrow> IndexToId env (of_nat i); Some (delete_property id2 a) } = Some a' \<and> views a' (f(i := None)) n"
      using IndexToId_fits[OF assms(2)] views_delete[OF i(2)] by simp
  qed
qed

lemma set_length:
  assumes "views a f n" "ids_fit env n" "k \<le> n"
  shows "\<exists>a'. js_SetLengthProperty env (of_nat k) a = Some a' \<and> repr a' (map f [0..<k])"
proof -
  have bounds: "n < 2 ^ 32" "k < 2 ^ 32" "unat (length_of a) \<le> n" using assms by (auto simp: views_def)
  have down: "down (length_of a) (of_nat k) = map of_nat (rev [k..<unat (length_of a)])"
    using down_of_nat[OF bounds(2), of "unat (length_of a)"] bounds(1,3) by simp
  obtain a1 where a1: "for_each (\<lambda>slot a. do { id2 \<leftarrow> IndexToId env slot; Some (delete_property id2 a) })
      (map of_nat (rev [k..<unat (length_of a)])) a = Some a1"
    "views a1 (\<lambda>i. if k \<le> i \<and> i < unat (length_of a) then None else f i) n"
    using delete_slots[OF assms(1,2) bounds(3), of k] by blast
  have "js_SetLengthProperty env (of_nat k) a = Some (a1\<lparr>length_of := of_nat k\<rparr>)"
    using a1(1) IndexToValue_fits[OF assms(2,3) bounds(1)]
    by (simp add: js_SetLengthProperty_def array_length_setter_def down)
  moreover have "\<forall>i\<ge>unat (length_of a). f i = None" using assms(1) by (simp add: views_def)
  then have "repr (a1\<lparr>length_of := of_nat k\<rparr>) (map f [0..<k])"
    using a1(2) bounds by (auto simp: repr_def views_def nth_or_hole_def unat_of_nat_32)
  ultimately show ?thesis by blast
qed

lemma of_nat_max_32: "i < 2 ^ 32 - 1 \<Longrightarrow> (of_nat i :: u32) \<noteq> - 1"
proof
  assume i: "i < 2 ^ 32 - 1" "(of_nat i :: u32) = - 1"
  then have "i = unat (- 1 :: u32)" using unat_of_nat_32[of i] by simp
  then show False using i(1) by (simp add: unsigned_minus_1_eq_mask mask_eq_exp_minus_1)
qed

lemma no_range: "c \<le> b \<Longrightarrow> (\<lambda>i. if b \<le> i \<and> i < c then g i else f i) = f" for b c :: nat
  by (rule ext) auto

lemma set_element:
  assumes "views a f n" "ids_fit env n" "i < n"
  shows "\<exists>a'. set_property env (of_nat i) v a = Some a' \<and> views a' (f(i \<mapsto> v)) n"
proof -
  have bounds: "n < 2 ^ 32" "i < 2 ^ 32" "i < 2 ^ 32 - 1" "unat (length_of a) \<le> n" using assms by (auto simp: views_def)
  define a' where "a' = a\<lparr>elems := (elems a)(of_nat i \<mapsto> v)\<rparr>"
  have elems: "\<forall>j<2 ^ 32. elems a' (of_nat j) = (f(i \<mapsto> v)) j"
    using assms(1) bounds by (auto simp: a'_def views_def of_nat_eq_32)
  show ?thesis
  proof (cases "i < unat (length_of a)")
    case True
    then have "\<not> length_of a \<le> of_nat i" using bounds by (simp add: word_le_nat_alt unat_of_nat_32)
    then have "set_property env (of_nat i) v a = Some a'"
      using of_nat_max_32[OF bounds(3)] by (simp add: set_property_def array_addProperty_def a'_def Let_def)
    moreover have "views a' (f(i \<mapsto> v)) n" using elems assms(1) True by (auto simp: views_def a'_def)
    ultimately show ?thesis by blast
  next
    case False
    then have "elems a (of_nat i) = None" "length_of a \<le> of_nat i"
      using assms(1) bounds by (auto simp: views_def word_le_nat_alt unat_of_nat_32)
    moreover have "of_nat i + 1 = (of_nat (Suc i) :: u32)" by simp
    moreover have "down (length_of a) (of_nat (Suc i)) = []"
      using down_of_nat[of "Suc i" "unat (length_of a)"] False bounds by simp
    ultimately have "set_property env (of_nat i) v a = Some (a'\<lparr>length_of := of_nat (Suc i)\<rparr>)"
      using of_nat_max_32[OF bounds(3)] IndexToValue_fits[OF assms(2), of "Suc i"] assms(3) bounds
      by (simp add: set_property_def array_addProperty_def js_SetLengthProperty_def array_length_setter_def a'_def Let_def
          del: of_nat_Suc)
    moreover have "views (a'\<lparr>length_of := of_nat (Suc i)\<rparr>) (f(i \<mapsto> v)) n"
      using elems assms(1,3) False bounds unfolding views_def by (auto simp: unat_of_nat_32 simp del: of_nat_Suc)
    ultimately show ?thesis by blast
  qed
qed

text \<open>Moving a slot, present or not, and setting a row of them.\<close>

lemma move_element:
  assumes "views a f n" "ids_fit env n" "i < n" "j < n"
  shows "\<exists>a'. move_slot env (of_nat i) (of_nat j) a = Some a' \<and> views a' (f(j := f i)) n"
proof -
  have "n < 2 ^ 32" using assms(1) by (simp add: views_def)
  then have ids: "IndexToId env (of_nat i) = Some (of_nat i)" "IndexToId env (of_nat j) = Some (of_nat j)" "i < 2 ^ 32" "j < 2 ^ 32"
    using IndexToId_fits[OF assms(2)] assms(3,4) by auto
  show ?thesis
  proof (cases "f i")
    case None
    then show ?thesis using ids views_delete[OF assms(1) ids(4)] views_get[OF assms(1) ids(3)]
      by (simp add: move_slot_def IndexToExistingId_def)
  next
    case (Some v)
    then show ?thesis using ids set_element[OF assms(1,2,4), of v] views_get[OF assms(1) ids(3)]
      by (simp add: move_slot_def IndexToExistingId_def get_property_def)
  qed
qed

lemma set_row:
  assumes "views a f n" "ids_fit env n" "b + length vs \<le> n"
  shows "\<exists>a'. for_each (\<lambda>(i, v) a. do { id \<leftarrow> IndexToId env (of_nat b + i); set_property env id v a })
        (zip (map of_nat [0..<length vs]) vs) a = Some a'
    \<and> views a' (\<lambda>i. if b \<le> i \<and> i < b + length vs then Some (vs ! (i - b)) else f i) n"
  using assms(3)
proof (induction vs rule: rev_induct)
  case Nil
  then show ?case using assms(1) by (simp add: no_range)
next
  case (snoc v vs)
  have app: "for_each body (is @ js) a = Option.bind (for_each body is a) (for_each body js)" for body :: "u32 \<times> jsval \<Rightarrow> _" and "is" js a
    by (induction "is" arbitrary: a) (auto split: Option.bind_splits)
  obtain a1 where a1: "for_each (\<lambda>(i, v) a. do { id \<leftarrow> IndexToId env (of_nat b + i); set_property env id v a })
        (zip (map of_nat [0..<length vs]) vs) a = Some a1"
    "views a1 (\<lambda>i. if b \<le> i \<and> i < b + length vs then Some (vs ! (i - b)) else f i) n"
    using snoc by auto
  have "n < 2 ^ 32" using assms(1) by (simp add: views_def)
  then have "IndexToId env (of_nat (b + length vs)) = Some (of_nat (b + length vs))"
    using IndexToId_fits[OF assms(2), of "b + length vs"] snoc.prems by simp
  moreover obtain a2 where "set_property env (of_nat (b + length vs)) v a1 = Some a2"
    "views a2 ((\<lambda>i. if b \<le> i \<and> i < b + length vs then Some (vs ! (i - b)) else f i)(b + length vs \<mapsto> v)) n"
    using set_element[OF a1(2) assms(2), of "b + length vs" v] snoc.prems by auto
  moreover have "(\<lambda>i. if b \<le> i \<and> i < b + length vs then Some (vs ! (i - b)) else f i)(b + length vs \<mapsto> v)
      = (\<lambda>i. if b \<le> i \<and> i < b + length (vs @ [v]) then Some ((vs @ [v]) ! (i - b)) else f i)"
    by (auto simp: fun_eq_iff nth_append)
  ultimately show ?case using a1(1) by (simp add: app)
qed

lemma move_up:
  assumes "views a f n" "ids_fit env n" "l + d \<le> n"
  shows "\<exists>a'. for_each (\<lambda>last. move_slot env last (last + of_nat d)) (map of_nat (rev [e..<l])) a = Some a'
    \<and> views a' (\<lambda>i. if e + d \<le> i \<and> i < l + d then f (i - d) else f i) n"
proof (cases "e \<le> l")
  case True
  have "fold (\<lambda>i f. f(i + d := f i)) (rev [e..<l]) f = (\<lambda>i. if e + d \<le> i \<and> i < l + d then f (i - d) else f i)"
    using True
  proof (induction l arbitrary: f rule: dec_induct)
    case (step l)
    then show ?case by (auto simp: fun_eq_iff less_Suc_eq)
  qed (auto simp: fun_eq_iff)
  then show ?thesis unfolding for_each_map
    using for_each_views[of "rev [e..<l]" _ "\<lambda>i. move_slot env (of_nat i) (of_nat i + of_nat d)" "\<lambda>i f. f(i + d := f i)", OF _ assms(1)]
      move_element[OF _ assms(2)] assms(3) by (fastforce simp flip: of_nat_add)
qed (use assms in \<open>simp add: no_range\<close>)

lemma move_down:
  assumes "views a f n" "ids_fit env n" "l \<le> n" "d \<le> e"
  shows "\<exists>a'. for_each (\<lambda>last. move_slot env last (last - of_nat d)) (map of_nat [e..<l]) a = Some a'
    \<and> views a' (\<lambda>i. if e - d \<le> i \<and> i < l - d then f (i + d) else f i) n"
proof (cases "e \<le> l")
  case True
  have "fold (\<lambda>i f. f(i - d := f i)) [e..<l] f = (\<lambda>i. if e - d \<le> i \<and> i < l - d then f (i + d) else f i)"
    using True
  proof (induction l rule: dec_induct)
    case base
    then show ?case by (simp add: no_range)
  next
    case (step l)
    then show ?case using assms(4) by (auto simp: fun_eq_iff less_diff_conv)
  qed
  then show ?thesis unfolding for_each_map
    using for_each_views[of "[e..<l]" _ "\<lambda>i. move_slot env (of_nat i) (of_nat i - of_nat d)" "\<lambda>i f. f(i - d := f i)", OF _ assms(1)]
      move_element[OF _ assms(2)] assms(3,4) by (fastforce simp flip: of_nat_diff)
qed (use assms in \<open>simp add: no_range\<close>)

lemma repr_views: "repr a xs \<Longrightarrow> length xs \<le> n \<Longrightarrow> n < 2 ^ 32 \<Longrightarrow> views a (nth_or_hole xs) n"
  by (auto simp: repr_def intro: views_mono)

lemma repr_length: "repr a xs \<Longrightarrow> length_of a = of_nat (length xs) \<and> length xs < 2 ^ 32 \<and> unat (length_of a) = length xs"
  by (auto simp: repr_def views_def unat_of_nat_32)

lemma map_nth_or_hole: "map (nth_or_hole xs) [0..<length xs] = xs"
  by (rule nth_equalityI) (auto simp: nth_or_hole_def)

definition element :: "jsval option \<Rightarrow> jsval" where "element x = (case x of None \<Rightarrow> JSVAL_VOID | Some v \<Rightarrow> v)"

section \<open>The methods are operations on lists\<close>

lemma array_push_appends:
  assumes "repr a xs" "length xs + length vs < 2 ^ 32" "ids_fit env (length xs + length vs)"
  shows "\<exists>r a'. array_push env vs a = Some (r, a') \<and> repr a' (xs @ map Some vs)
    \<and> r = (if version_1_2 env then R_Value (if vs = [] then JSVAL_VOID else last vs) else R_Number (length_of a'))"
proof -
  let ?n = "length xs + length vs"
  note len = repr_length[OF assms(1)]
  obtain a1 where a1: "for_each (\<lambda>(i, v) a. do { id \<leftarrow> IndexToId env (of_nat (length xs) + i); set_property env id v a })
      (zip (map of_nat [0..<length vs]) vs) a = Some a1"
    "views a1 (\<lambda>i. if length xs \<le> i \<and> i < ?n then Some (vs ! (i - length xs)) else nth_or_hole xs i) ?n"
    using set_row[OF repr_views[OF assms(1) le_add1 assms(2)] assms(3), of "length xs" vs] by auto
  obtain a2 where a2: "js_SetLengthProperty env (of_nat ?n) a1 = Some a2"
    "repr a2 (map (\<lambda>i. if length xs \<le> i \<and> i < ?n then Some (vs ! (i - length xs)) else nth_or_hole xs i) [0..<?n])"
    using set_length[OF a1(2) assms(3) order_refl] by blast
  have "map (\<lambda>i. if length xs \<le> i \<and> i < ?n then Some (vs ! (i - length xs)) else nth_or_hole xs i) [0..<?n] = xs @ map Some vs"
    by (rule nth_equalityI) (auto simp: nth_append nth_or_hole_def)
  then have repr: "repr a2 (xs @ map Some vs)" using a2(2) by simp
  then have "length_of a2 = of_nat ?n" using repr_length by fastforce
  then show ?thesis using a1(1) a2(1) repr len IndexToValue_fits[OF assms(3) order_refl assms(2)]
    by (auto simp: array_push_def Let_def split: if_splits)
qed

lemma array_pop_drops_last:
  assumes "repr a xs" "ids_fit env (length xs)"
  shows "\<exists>a'. array_pop env a = Some (if xs = [] then JSVAL_VOID else element (last xs), a') \<and> repr a' (butlast xs)"
proof (cases "xs = []")
  case True
  note len = repr_length[OF assms(1)]
  have "views a (nth_or_hole xs) (length xs)" using assms(1) by (simp add: repr_def)
  from set_length[OF this assms(2) order_refl] show ?thesis using True len
    by (auto simp: array_pop_def Let_def)
next
  case False
  note len = repr_length[OF assms(1)]
  let ?n = "length xs - 1"
  have n: "?n < length xs" "?n < 2 ^ 32" using False len by (simp, linarith)
  have "0 < unat (length_of a)" using False len by (metis length_greater_0_conv)
  then have idx: "length_of a - 1 = of_nat ?n" "0 < length_of a" using False len by (simp_all add: of_nat_diff Suc_le_eq word_less_nat_alt)
  have views: "views a (nth_or_hole xs) (length xs)" using assms(1) by (simp add: repr_def)
  obtain a' where a': "js_SetLengthProperty env (of_nat ?n) (delete_property (of_nat ?n) a) = Some a'"
    "repr a' (map ((nth_or_hole xs)(?n := None)) [0..<?n])"
    using set_length[OF views_delete[OF views n(2)] assms(2), of ?n] n by auto
  have "map ((nth_or_hole xs)(?n := None)) [0..<?n] = butlast xs"
    by (rule nth_equalityI) (auto simp: nth_or_hole_def nth_butlast)
  moreover have "get_property a (of_nat ?n) = element (last xs)"
    using views_get[OF views n(2)] False by (simp add: get_property_def element_def nth_or_hole_def last_conv_nth)
  moreover have "IndexToId env (of_nat ?n) = Some (of_nat ?n)" using IndexToId_fits[OF assms(2), of ?n] len by simp
  ultimately show ?thesis using a' idx False by (simp add: array_pop_def Let_def)
qed

lemma array_unshift_prepends:
  assumes "repr a xs" "length xs + length vs < 2 ^ 32" "ids_fit env (length xs + length vs)"
  shows "\<exists>a'. array_unshift env vs a = Some (length_of a', a') \<and> repr a' (map Some vs @ xs)"
proof (cases "vs = []")
  case True
  note len = repr_length[OF assms(1)]
  have "IndexToValue env (length_of a) = Some (length_of a)" using IndexToValue_fits[OF assms(3), of "length xs"] assms(2) len by simp
  then show ?thesis using True assms(1) by (simp add: array_unshift_def Let_def)
next
  case False
  let ?n = "length xs + length vs" and ?k = "length vs"
  note len = repr_length[OF assms(1)]
  let ?f = "\<lambda>i. if 0 + ?k \<le> i \<and> i < length xs + ?k then nth_or_hole xs (i - ?k) else nth_or_hole xs i"
  obtain a1 where a1: "for_each (\<lambda>last. move_slot env last (last + of_nat ?k)) (map of_nat (rev [0..<length xs])) a = Some a1"
    "views a1 ?f ?n"
    using move_up[OF repr_views[OF assms(1) le_add1 assms(2)] assms(3) order_refl, of 0] by blast
  obtain a2 where a2: "for_each (\<lambda>(i, v) a. do { id \<leftarrow> IndexToId env (of_nat 0 + i); set_property env id v a })
      (zip (map of_nat [0..<?k]) vs) a1 = Some a2"
    "views a2 (\<lambda>i. if 0 \<le> i \<and> i < 0 + ?k then Some (vs ! (i - 0)) else ?f i) ?n"
    using set_row[OF a1(2) assms(3), of 0 vs] by auto
  obtain a3 where a3: "js_SetLengthProperty env (of_nat ?n) a2 = Some a3"
    "repr a3 (map (\<lambda>i. if 0 \<le> i \<and> i < 0 + ?k then Some (vs ! (i - 0)) else ?f i) [0..<?n])"
    using set_length[OF a2(2) assms(3) order_refl] by blast
  have "map (\<lambda>i. if 0 \<le> i \<and> i < 0 + ?k then Some (vs ! (i - 0)) else ?f i) [0..<?n] = map Some vs @ xs"
    by (rule nth_equalityI) (auto simp: nth_append nth_or_hole_def)
  then have repr: "repr a3 (map Some vs @ xs)" using a3(2) by simp
  then have "length_of a3 = of_nat ?n" using repr_length by (fastforce simp: add.commute)
  moreover have "down (length_of a) 0 = map of_nat (rev [0..<length xs])"
    using down_of_nat[of 0 "length xs"] len by simp
  ultimately show ?thesis using False a1(1) a2(1) a3(1) repr len IndexToValue_fits[OF assms(3) order_refl assms(2)]
    by (simp add: array_unshift_def Let_def)
qed

text \<open>\<open>shift\<close> copies what it gets, so that holes become undefined elements.\<close>

lemma shift_loop:
  assumes "views a f n" "ids_fit env n" "k < n"
  shows "\<exists>a'. for_each (\<lambda>i a. do {
             id \<leftarrow> IndexToId env i;
             let v = get_property a id;
             id2 \<leftarrow> IndexToId env (i - 1);
             set_property env id2 v a }) (map of_nat [1..<Suc k]) a = Some a'
    \<and> views a' (\<lambda>i. if i < k then Some (element (f (Suc i))) else f i) n"
proof -
  have result: "fold (\<lambda>i f. f(i - 1 := Some (element (f i)))) [1..<Suc k] f = (\<lambda>i. if i < k then Some (element (f (Suc i))) else f i)"
  proof (induction k)
    case (Suc k)
    have last: "[1..<Suc (Suc k)] = [1..<Suc k] @ [Suc k]" by simp
    show ?case unfolding last fold_append comp_apply Suc by (auto simp: fun_eq_iff)
  qed simp
  show ?thesis unfolding for_each_map result[symmetric]
  proof (rule for_each_views[OF _ assms(1)])
    fix i a f assume i: "i \<in> set [1..<Suc k]" and v: "views a f n"
    then have bounds: "1 \<le> i" "i < n" "i - 1 < n" "n < 2 ^ 32" "i < 2 ^ 32" using assms(3) by (auto simp: views_def)
    have "get_property a (of_nat i) = element (f i)"
      using views_get[OF v bounds(5)] by (simp add: get_property_def element_def)
    then show "\<exists>a'. do {
        id \<leftarrow> IndexToId env (of_nat i);
        let v = get_property a id;
        id2 \<leftarrow> IndexToId env (of_nat i - 1);
        set_property env id2 v a } = Some a' \<and> views a' (f(i - 1 := Some (element (f i)))) n"
      using IndexToId_fits[OF assms(2), of i] IndexToId_fits[OF assms(2), of "i - 1"] bounds
        set_element[OF v assms(2) bounds(3), of "element (f i)"] by (simp add: of_nat_diff Let_def)
  qed
qed

lemma array_shift_fills:
  assumes "repr a xs" "ids_fit env (length xs)"
  shows "\<exists>a'. array_shift env a = Some (if xs = [] then JSVAL_VOID else element (hd xs), a')
    \<and> repr a' (map (\<lambda>x. Some (element x)) (tl xs))"
proof (cases xs)
  case Nil
  note len = repr_length[OF assms(1)]
  have "views a (nth_or_hole xs) (length xs)" using assms(1) by (simp add: repr_def)
  from set_length[OF this assms(2) order_refl] show ?thesis using Nil len by (auto simp: array_shift_def Let_def)
next
  case (Cons x ys)
  note len = repr_length[OF assms(1)]
  let ?n = "length ys"
  have n: "?n < length xs" "?n < 2 ^ 32" "length xs = Suc ?n" using Cons len by auto
  have "0 < unat (length_of a)" using n len by linarith
  then have idx: "length_of a - 1 = of_nat ?n" "0 < length_of a" using n len by (simp_all add: word_less_nat_alt)
  have views: "views a (nth_or_hole xs) (length xs)" using assms(1) by (simp add: repr_def)
  let ?f = "\<lambda>i. if i < ?n then Some (element (nth_or_hole xs (Suc i))) else nth_or_hole xs i"
  obtain a1 where a1: "for_each (\<lambda>i a. do {
             id \<leftarrow> IndexToId env i;
             let v = get_property a id;
             id2 \<leftarrow> IndexToId env (i - 1);
             set_property env id2 v a }) (map of_nat [1..<Suc ?n]) a = Some a1" "views a1 ?f (length xs)"
    using shift_loop[OF views assms(2) n(1)] by blast
  obtain a2 where a2: "js_SetLengthProperty env (of_nat ?n) (delete_property (of_nat ?n) a1) = Some a2"
    "repr a2 (map (?f(?n := None)) [0..<?n])"
    using set_length[OF views_delete[OF a1(2) n(2)] assms(2), of ?n] n by auto
  have "map (?f(?n := None)) [0..<?n] = map (\<lambda>x. Some (element x)) ys"
    using Cons by (intro nth_equalityI) (auto simp: nth_or_hole_def)
  moreover have "get_property a 0 = element x"
    using views_get[OF views, of 0] Cons by (simp add: get_property_def element_def nth_or_hole_def)
  moreover have "IndexToId env (of_nat ?n) = Some (of_nat ?n)" using IndexToId_fits[OF assms(2), of ?n] len n by simp
  ultimately show ?thesis using a1(1) a2 idx Cons n(2)
    by (simp add: array_shift_def Let_def unat_of_nat_32 del: upt_Suc)
qed

text \<open>
  C29: On an array of values and holes, \<open>push\<close> appends its arguments and \<open>pop\<close> takes the last element,
  \<open>unshift\<close> puts its arguments in front and \<open>shift\<close> takes the first element; holes stay holes, but
  \<open>shift\<close> makes every one of them an element that is undefined.
\<close>

theorem array_stack_methods:
  assumes "repr a xs" "length xs + length vs < 2 ^ 32" "ids_fit env (length xs + length vs)"
  shows "(\<exists>r a'. array_push env vs a = Some (r, a') \<and> repr a' (xs @ map Some vs)
      \<and> r = (if version_1_2 env then R_Value (if vs = [] then JSVAL_VOID else last vs) else R_Number (length_of a')))
    \<and> (\<exists>a'. array_pop env a = Some (if xs = [] then JSVAL_VOID else element (last xs), a') \<and> repr a' (butlast xs))
    \<and> (\<exists>a'. array_unshift env vs a = Some (length_of a', a') \<and> repr a' (map Some vs @ xs))
    \<and> (\<exists>a'. array_shift env a = Some (if xs = [] then JSVAL_VOID else element (hd xs), a')
        \<and> repr a' (map (\<lambda>x. Some (element x)) (tl xs)))"
proof -
  have "ids_fit env (length xs)" using assms(3) by (rule ids_fit_mono) simp
  then show ?thesis
    using array_push_appends[OF assms] array_pop_drops_last[OF assms(1)] array_unshift_prepends[OF assms]
      array_shift_fills[OF assms(1)] by blast
qed

text \<open>The array of a list, and the environment in which nothing fails, for concrete inputs.\<close>

definition array_of :: "jsval option list \<Rightarrow> js_array" where
  "array_of xs = \<lparr>length_of = of_nat (length xs), elems = (\<lambda>i. nth_or_hole xs (unat i))\<rparr>"

definition roomy :: array_env where "roomy = \<lparr>id_ok = (\<lambda>_. True), new_ok = True, version_1_2 = False\<rparr>"

lemma repr_array_of: "length xs < 2 ^ 32 \<Longrightarrow> repr (array_of xs) xs"
  by (auto simp: repr_def views_def array_of_def nth_or_hole_def unat_of_nat_32)

lemma ids_fit_roomy: "ids_fit roomy n"
  by (simp add: ids_fit_def roomy_def)

theorem array_stack_methods_witness:
  "\<exists>a'. array_shift roomy (array_of [Some 5, None, Some 7]) = Some (5, a') \<and> repr a' [Some JSVAL_VOID, Some 7]"
  using array_stack_methods[OF repr_array_of _ ids_fit_roomy, of "[Some 5, None, Some 7]" "[]"] by (simp add: element_def)

lemma delete_listed:
  "\<forall>i\<in>set is. IndexToId env i = Some i \<Longrightarrow>
    for_each (\<lambda>slot a. do { id2 \<leftarrow> IndexToId env slot; Some (delete_property id2 a) }) is a
      = Some (a\<lparr>elems := elems a |` (- set is)\<rparr>)"
  by (induction "is" arbitrary: a) (auto simp: delete_property_def restrict_map_def fun_eq_iff)

text \<open>
  Pushing onto an array of the greatest length wraps its length to that of what is pushed, less
  one, and so deletes all of its elements.
\<close>

theorem array_push_wraps:
  assumes "length_of a = - 1" "\<forall>i. id_ok env i" "\<not> version_1_2 env"
  shows "array_push env [v] a = Some (R_Number 0, \<lparr>length_of = 0, elems = [- 1 \<mapsto> v]\<rparr>)"
proof -
  have ids: "IndexToId env i = Some i" "IndexToValue env i = Some i" for i
    using assms(2) by (simp_all add: IndexToId_def IndexToValue_def)
  have top: "unat (- 1 :: u32) = 2 ^ 32 - 1" by (simp add: unsigned_minus_1_eq_mask mask_eq_exp_minus_1)
  have "i = - 1 \<or> i \<in> set (down (- 1) 0)" for i :: u32
  proof (cases "unat i < 2 ^ 32 - 1")
    case True
    then have "unat i \<in> {0..<2 ^ 32 - 1}" by simp
    then have "(of_nat (unat i) :: u32) \<in> of_nat ` {0..<2 ^ 32 - 1}" by (rule imageI)
    then have "of_nat (unat i) \<in> set (down (- 1) 0 :: u32 list)" by (simp add: down_def up_def top)
    then show ?thesis by simp
  next
    case False
    moreover have "unat i < 2 ^ 32" using unsigned_less[of i] by simp
    ultimately have "unat i = unat (- 1 :: u32)" using top by linarith
    then have "i = - 1" by (simp only: word_unat_eq_iff)
    then show ?thesis by simp
  qed
  moreover have "- 1 \<notin> set (down (- 1) 0 :: u32 list)" unfolding down_def up_def top using of_nat_max_32 by fastforce
  ultimately have cleared: "(elems a)(- 1 \<mapsto> v) |` (- set (down (- 1) 0)) = [- 1 \<mapsto> v]"
    by (intro ext) (metis Compl_iff fun_upd_apply restrict_map_def)
  have "set_property env (- 1) v a = Some (a\<lparr>elems := (elems a)(- 1 \<mapsto> v)\<rparr>)"
    by (simp add: set_property_def array_addProperty_def Let_def)
  moreover have "for_each (\<lambda>slot a. Some (delete_property slot a)) is a
      = Some (a\<lparr>elems := elems a |` (- set is)\<rparr>)" for "is" a
    using delete_listed[of "is" env a] ids by simp
  ultimately show ?thesis using assms(1,3) cleared
    by (cases a) (simp add: array_push_def ids js_SetLengthProperty_def array_length_setter_def Let_def)
qed

theorem array_push_wraps_witness:
  "array_push roomy [9] \<lparr>length_of = - 1, elems = [0 \<mapsto> 5]\<rparr> = Some (R_Number 0, \<lparr>length_of = 0, elems = [- 1 \<mapsto> 9]\<rparr>)"
  by (rule array_push_wraps) (simp_all add: roomy_def)

section \<open>Cutting and joining lists\<close>

lemma copy_row:
  assumes dst: "views dst f n" "ids_fit env n" and src: "\<And>i. i < e \<Longrightarrow> elems src (of_nat i) = g i" "ids_fit env e" "e < 2 ^ 32"
    and target: "\<And>s. b \<le> s \<Longrightarrow> s < e \<Longrightarrow> t (of_nat s) = of_nat (j + (s - b))"
    and room: "b \<le> e" "j + (e - b) \<le> n" "\<And>i. j \<le> i \<Longrightarrow> f i = None"
  shows "\<exists>dst'. for_each (\<lambda>slot. copy_slot env src slot (t slot)) (map of_nat [b..<e]) dst = Some dst'
    \<and> views dst' (\<lambda>i. if j \<le> i \<and> i < j + (e - b) then g (b + (i - j)) else f i) n"
proof -
  have app: "for_each body (is @ js) a = Option.bind (for_each body is a) (for_each body js)" for body :: "nat \<Rightarrow> _" and "is" js a
    by (induction "is" arbitrary: a) (auto split: Option.bind_splits)
  have "\<exists>dst'. for_each (\<lambda>s. copy_slot env src (of_nat s) (t (of_nat s))) [b..<k] dst = Some dst'
      \<and> views dst' (\<lambda>i. if j \<le> i \<and> i < j + (k - b) then g (b + (i - j)) else f i) n"
    if "b \<le> k" "k \<le> e" for k
    using that
  proof (induction k rule: dec_induct)
    case base
    then show ?case using dst(1) by (simp add: no_range)
  next
    case (step k)
    let ?f = "\<lambda>i. if j \<le> i \<and> i < j + (k - b) then g (b + (i - j)) else f i"
    obtain d where d: "for_each (\<lambda>s. copy_slot env src (of_nat s) (t (of_nat s))) [b..<k] dst = Some d" "views d ?f n"
      using step by auto
    have ids: "IndexToId env (of_nat k) = Some (of_nat k)" using IndexToId_fits[OF src(2), of k] src(3) step.prems by simp
    have tk: "t (of_nat k) = of_nat (j + (k - b))" "j + (k - b) < n" using target[of k] step room(2) by auto
    have "n < 2 ^ 32" using dst(1) by (simp add: views_def)
    then have idt: "IndexToId env (of_nat (j + (k - b))) = Some (of_nat (j + (k - b)))"
      using IndexToId_fits[OF dst(2), of "j + (k - b)"] tk by simp
    have f': "(\<lambda>i. if j \<le> i \<and> i < j + (Suc k - b) then g (b + (i - j)) else f i) = ?f(j + (k - b) := g k)"
      using step by (auto simp: fun_eq_iff Suc_diff_le less_Suc_eq)
    have "\<exists>d'. copy_slot env src (of_nat k) (t (of_nat k)) d = Some d' \<and> views d' (?f(j + (k - b) := g k)) n"
    proof (cases "g k")
      case None
      moreover have "?f(j + (k - b) := None) = ?f" using room(3) by (auto simp: fun_eq_iff)
      ultimately show ?thesis using d(2) ids src(1)[of k] step.prems by (simp add: copy_slot_def IndexToExistingId_def)
    next
      case (Some v)
      then show ?thesis
        using set_element[OF d(2) dst(2) tk(2), of v] ids idt tk(1) src(1)[of k] step.prems
        by (simp add: copy_slot_def IndexToExistingId_def get_property_def)
    qed
    then show ?case using d(1) step.hyps(1) unfolding f' by (simp add: app)
  qed
  from this[OF room(1) order_refl] show ?thesis by (simp add: for_each_map)
qed

lemma new_array: "new_ok env \<Longrightarrow> \<exists>a. js_NewArrayObject env 0 None = Some a \<and> views a (\<lambda>_. None) 0"
  by (simp add: js_NewArrayObject_def IndexToValue_def views_def)

lemma to_index_of: "n < 2 ^ 32 \<Longrightarrow> to_index (of_integer (int n)) = Some (of_nat n)"
  using trunc_of_int[of "int n"] by (simp add: to_index_def cast_double_def of_integer_def)

lemma uint_length: "repr a xs \<Longrightarrow> uint (length_of a) = int (length xs)"
  using repr_length[of a xs] by (metis uint_nat)

lemma relative_to_index:
  assumes "repr a xs"
  shows "to_index (clamp_relative (of_integer (uint (length_of a))) d) = Some (of_nat (relative_index (length xs) d))"
  unfolding uint_length[OF assms] clamp_relative_index
  using relative_index_le[of "length xs" d] repr_length[OF assms] by (intro to_index_of) linarith

definition sublist :: "nat \<Rightarrow> nat \<Rightarrow> 'a list \<Rightarrow> 'a list" where "sublist b e xs = take (e - b) (drop b xs)"

lemma array_slice_sublist:
  assumes "repr a xs" "ids_fit env (length xs)" "new_ok env"
    and b: "b = (case nums of d # _ \<Rightarrow> relative_index (length xs) d | [] \<Rightarrow> 0)"
    and e: "e = (case nums of _ # d # _ \<Rightarrow> relative_index (length xs) d | _ \<Rightarrow> length xs)"
  shows "\<exists>a'. array_slice env nums a = Some a' \<and> repr a' (sublist b e xs)"
proof -
  note len = repr_length[OF assms(1)] and n = uint_length[OF assms(1)]
  have le: "b \<le> length xs" "e \<le> length xs" using relative_index_le by (auto simp: b e split: list.split)
  let ?b = "min b e"
  have idx: "(case nums of d # _ \<Rightarrow> to_index (clamp_relative (of_integer (uint (length_of a))) d) | [] \<Rightarrow> Some 0) = Some (of_nat b)"
    "(case nums of _ # d # _ \<Rightarrow> to_index (clamp_relative (of_integer (uint (length_of a))) d) | _ \<Rightarrow> Some (length_of a)) = Some (of_nat e)"
    unfolding relative_to_index[OF assms(1)] using len by (auto simp: b e split: list.split)
  have bounds: "b < 2 ^ 32" "e < 2 ^ 32" "?b < 2 ^ 32" using le len by linarith+
  have begin': "(if of_nat e < (of_nat b :: u32) then of_nat e else of_nat b) = (of_nat ?b :: u32)"
    using bounds by (auto simp: word_less_nat_alt unat_of_nat_32 min_def)
  obtain a0 where a0: "js_NewArrayObject env 0 None = Some a0" "views a0 (\<lambda>_. None) 0" using new_array[OF assms(3)] by blast
  have "\<exists>a1. for_each (\<lambda>slot. copy_slot env a slot (slot - of_nat ?b)) (map of_nat [?b..<e]) a0 = Some a1
      \<and> views a1 (\<lambda>i. if 0 \<le> i \<and> i < 0 + (e - ?b) then nth_or_hole xs (?b + (i - 0)) else None) (e - ?b)"
  proof (rule copy_row)
    show "views a0 (\<lambda>_. None) (e - ?b)" using views_mono[OF a0(2)] bounds by simp
    show "ids_fit env (e - ?b)" "ids_fit env e" using ids_fit_mono[OF assms(2)] le by auto
    show "elems a (of_nat i) = nth_or_hole xs i" if "i < e" for i
      using views_get[of a "nth_or_hole xs" "length xs" i] assms(1) that bounds(2) by (simp add: repr_def)
  qed (use bounds in \<open>auto simp: of_nat_diff\<close>)
  then obtain a1 where a1: "for_each (\<lambda>slot. copy_slot env a slot (slot - of_nat ?b)) (up (of_nat ?b) (of_nat e)) a0 = Some a1"
    "views a1 (\<lambda>i. if 0 \<le> i \<and> i < 0 + (e - ?b) then nth_or_hole xs (?b + (i - 0)) else None) (e - ?b)"
    using up_of_nat[OF bounds(3,2)] by auto
  have short: "e - ?b \<le> length xs" using le by simp
  obtain a2 where a2: "js_SetLengthProperty env (of_nat (e - ?b)) a1 = Some a2"
    "repr a2 (map (\<lambda>i. if 0 \<le> i \<and> i < 0 + (e - ?b) then nth_or_hole xs (?b + (i - 0)) else None) [0..<e - ?b])"
    using set_length[OF a1(2) ids_fit_mono[OF assms(2) short] order_refl] by blast
  have "map (\<lambda>i. if 0 \<le> i \<and> i < 0 + (e - ?b) then nth_or_hole xs (?b + (i - 0)) else None) [0..<e - ?b] = sublist b e xs"
    using le by (intro nth_equalityI) (auto simp: sublist_def nth_or_hole_def min_def)
  moreover have "(of_nat e - of_nat ?b :: u32) = of_nat (e - ?b)" by (simp add: of_nat_diff)
  ultimately show ?thesis using a0(1) a1(1) a2 idx begin' by (simp add: array_slice_def Let_def)
qed

fun concat_part :: "concat_arg \<Rightarrow> jsval option list \<Rightarrow> bool" where
  "concat_part (Array_Arg src) ys \<longleftrightarrow> repr src ys"
| "concat_part (Value_Arg v) ys \<longleftrightarrow> ys = [Some v]"

lemma nth_or_hole_append:
  "(\<lambda>i. if length xs \<le> i \<and> i < length xs + length ys then nth_or_hole ys (0 + (i - length xs)) else nth_or_hole xs i)
    = nth_or_hole (xs @ ys)"
  by (auto simp: fun_eq_iff nth_or_hole_def nth_append)

lemma concat_step_appends:
  assumes "views a (nth_or_hole acc) n" "ids_fit env n" "concat_part arg ys" "length acc + length ys \<le> n"
  shows "\<exists>a'. concat_step env arg (of_nat (length acc), a) = Some (of_nat (length (acc @ ys)), a') \<and> views a' (nth_or_hole (acc @ ys)) n"
proof (cases arg)
  case (Value_Arg v)
  have ys: "ys = [Some v]" and n: "n < 2 ^ 32" "length acc < n" using assms Value_Arg by (auto simp: views_def)
  have "nth_or_hole (acc @ ys) = (nth_or_hole acc)(length acc \<mapsto> v)"
    unfolding ys by (auto simp: fun_eq_iff nth_or_hole_def nth_append)
  then show ?thesis
    using set_element[OF assms(1,2) n(2), of v] IndexToId_fits[OF assms(2) less_imp_le[OF n(2)] n(1)] Value_Arg ys
    by (auto simp: add.commute)
next
  case (Array_Arg src)
  have src: "repr src ys" using assms(3) Array_Arg by simp
  note len = repr_length[OF src]
  have "\<exists>a'. for_each (\<lambda>slot. copy_slot env src slot (of_nat (length acc) + slot)) (map of_nat [0..<length ys]) a = Some a'
      \<and> views a' (\<lambda>i. if length acc \<le> i \<and> i < length acc + (length ys - 0) then nth_or_hole ys (0 + (i - length acc)) else nth_or_hole acc i) n"
  proof (rule copy_row[OF assms(1,2)])
    show "elems src (of_nat i) = nth_or_hole ys i" if "i < length ys" for i
      using views_get[of src "nth_or_hole ys" "length ys" i] src that len by (simp add: repr_def)
    show "ids_fit env (length ys)" using ids_fit_mono[OF assms(2)] assms(4) by simp
  qed (use len assms(4) in \<open>auto simp: nth_or_hole_def\<close>)
  moreover have "up 0 (length_of src) = map of_nat [0..<length ys]" using up_of_nat[of 0 "length ys"] len by simp
  ultimately show ?thesis using Array_Arg len nth_or_hole_append[of acc ys] by fastforce
qed

lemma array_concat_appends:
  assumes "new_ok env" "list_all2 concat_part args yss" "length (concat yss) < 2 ^ 32" "ids_fit env (length (concat yss))"
  shows "\<exists>a'. array_concat env args = Some a' \<and> repr a' (concat yss)"
proof -
  let ?n = "length (concat yss)"
  have loop: "\<exists>a'. for_each (concat_step env) args (of_nat (length acc), a) = Some (of_nat (length (acc @ concat yss)), a')
      \<and> views a' (nth_or_hole (acc @ concat yss)) n"
    if "views a (nth_or_hole acc) n" "list_all2 concat_part args yss" "length (acc @ concat yss) \<le> n" "ids_fit env n" for acc a n yss
    using that
  proof (induction args arbitrary: acc a yss)
    case (Cons arg args)
    then obtain ys zss where y: "yss = ys # zss" "concat_part arg ys" "list_all2 concat_part args zss"
      by (auto simp: list_all2_Cons1)
    then obtain a1 where "concat_step env arg (of_nat (length acc), a) = Some (of_nat (length (acc @ ys)), a1)"
      "views a1 (nth_or_hole (acc @ ys)) n"
      using concat_step_appends[OF Cons.prems(1,4) y(2)] Cons.prems(3) by auto
    then show ?case using Cons.IH[of a1 "acc @ ys" zss] y Cons.prems(3,4) by simp
  qed auto
  obtain a0 where a0: "js_NewArrayObject env 0 None = Some a0" "views a0 (\<lambda>_. None) 0" using new_array[OF assms(1)] by blast
  have "views a0 (nth_or_hole []) ?n" using views_mono[OF a0(2)] assms(3) by (simp add: nth_or_hole_def[abs_def])
  from loop[OF this assms(2) _ assms(4)] obtain a1 where
    a1: "for_each (concat_step env) args (0, a0) = Some (of_nat ?n, a1)" "views a1 (nth_or_hole (concat yss)) ?n" by auto
  then show ?thesis using a0(1) set_length[OF a1(2) assms(4) order_refl] map_nth_or_hole[of "concat yss"]
    by (simp add: array_concat_def)
qed

subsection \<open>Splicing\<close>

lemma splice_removed_part:
  assumes "repr a xs" "ids_fit env (length xs)" "new_ok env" "b + k \<le> length xs"
  shows "\<exists>r. splice_removed env (of_nat b) (of_nat k) a = Some r
    \<and> (if version_1_2 env \<and> k \<le> 1 then r = (if k = 1 then S_Value (element (xs ! b)) else S_Void)
       else \<exists>a'. r = S_Array a' \<and> repr a' (sublist b (b + k) xs))"
proof -
  note len = repr_length[OF assms(1)]
  have bounds: "b < 2 ^ 32" "k < 2 ^ 32" "b + k < 2 ^ 32" using assms(4) len by auto
  have k: "(of_nat k = (1 :: u32)) = (k = 1)" "0 < (of_nat k :: u32) \<longleftrightarrow> 0 < k"
    using of_nat_eq_32[of k 1] bounds by (auto simp: word_less_nat_alt unat_of_nat_32)
  have views: "views a (nth_or_hole xs) (length xs)" using assms(1) by (simp add: repr_def)
  show ?thesis
  proof (cases "version_1_2 env \<and> k \<le> 1")
    case True
    show ?thesis
    proof (cases "k = 1")
      case one: True
      then have "get_property a (of_nat b) = element (xs ! b)"
        using views_get[OF views bounds(1)] assms(4) by (simp add: get_property_def element_def nth_or_hole_def)
      then show ?thesis using True one IndexToId_fits[OF assms(2), of b] assms(4) len by (simp add: splice_removed_def Let_def)
    next
      case none: False
      then have "k = 0" using True by simp
      then show ?thesis using True by (simp add: splice_removed_def Let_def)
    qed
  next
    case False
    then have version: "\<not> (k = 1 \<and> version_1_2 env)" "\<not> version_1_2 env \<or> 0 < k" by auto
    obtain a0 where a0: "js_NewArrayObject env 0 None = Some a0" "views a0 (\<lambda>_. None) 0" using new_array[OF assms(3)] by blast
    have fit: "ids_fit env k" "ids_fit env (b + k)" using ids_fit_mono[OF assms(2)] assms(4) by auto
    have "\<exists>a1. for_each (\<lambda>last. copy_slot env a last (last - of_nat b)) (map of_nat [b..<b + k]) a0 = Some a1
        \<and> views a1 (\<lambda>i. if 0 \<le> i \<and> i < 0 + (b + k - b) then nth_or_hole xs (b + (i - 0)) else None) k"
    proof (rule copy_row)
      show "views a0 (\<lambda>_. None) k" using views_mono[OF a0(2)] bounds by simp
      show "elems a (of_nat i) = nth_or_hole xs i" if "i < b + k" for i
        using views_get[OF views, of i] that bounds by simp
    qed (use bounds fit in \<open>auto simp: of_nat_diff\<close>)
    then obtain a1 where a1: "for_each (\<lambda>last. copy_slot env a last (last - of_nat b)) (up (of_nat b) (of_nat b + of_nat k)) a0 = Some a1"
      "views a1 (\<lambda>i. if 0 \<le> i \<and> i < 0 + (b + k - b) then nth_or_hole xs (b + (i - 0)) else None) k"
      using up_of_nat[OF bounds(1,3)] by auto
    obtain a2 where a2: "js_SetLengthProperty env (of_nat k) a1 = Some a2"
      "repr a2 (map (\<lambda>i. if 0 \<le> i \<and> i < 0 + (b + k - b) then nth_or_hole xs (b + (i - 0)) else None) [0..<k])"
      using set_length[OF a1(2) fit(1) order_refl] by blast
    have "map (\<lambda>i. if 0 \<le> i \<and> i < 0 + (b + k - b) then nth_or_hole xs (b + (i - 0)) else None) [0..<k] = sublist b (b + k) xs"
      using assms(4) by (intro nth_equalityI) (auto simp: sublist_def nth_or_hole_def)
    then have "repr a2 (sublist b (b + k) xs)" using a2(2) by simp
    moreover have "repr a0 (sublist b (b + k) xs)" if "k = 0"
      using a0 that by (auto simp: js_NewArrayObject_def IndexToValue_def repr_def nth_or_hole_def[abs_def] sublist_def split: if_splits)
    ultimately show ?thesis using version a0(1) a1(1) a2(1) False by (auto simp: splice_removed_def Let_def k)
  qed
qed

lemma splice_moved_tail:
  assumes "repr a xs" "ids_fit env N" "b + cnt \<le> length xs" "length xs \<le> N" "length xs - cnt + k \<le> N" "N < 2 ^ 32"
  shows "\<exists>a' f. splice_moved env (of_nat k) (of_nat cnt) (of_nat b + of_nat cnt) a = Some (of_nat (length xs - cnt + k), a')
    \<and> views a' f N \<and> (\<forall>i<b. f i = nth_or_hole xs i) \<and> (\<forall>i. b + k \<le> i \<and> i < length xs - cnt + k \<longrightarrow> f i = nth_or_hole xs (i + cnt - k))"
proof -
  note len = repr_length[OF assms(1)]
  have bounds: "b < 2 ^ 32" "cnt < 2 ^ 32" "k < 2 ^ 32" "b + cnt < 2 ^ 32" "length xs < 2 ^ 32" using assms(3-6) len by auto
  have less: "((of_nat i :: u32) < of_nat j) = (i < j)" if "i < 2 ^ 32" "j < 2 ^ 32" for i j
    using that by (simp add: word_less_nat_alt unat_of_nat_32)
  have views: "views a (nth_or_hole xs) N" by (rule repr_views[OF assms(1,4,6)])
  have sum: "of_nat b + of_nat cnt = (of_nat (b + cnt) :: u32)" by simp
  consider "cnt < k" | "k < cnt" | "k = cnt" by linarith
  then show ?thesis
  proof cases
    case 1
    define d where "d = k - cnt"
    have d: "of_nat k - of_nat cnt = (of_nat d :: u32)" "length xs + d = length xs - cnt + k" using 1 assms(3) by (simp_all add: d_def of_nat_diff)
    obtain a' where a': "for_each (\<lambda>last. move_slot env last (last + of_nat d)) (map of_nat (rev [b + cnt..<length xs])) a = Some a'"
      "views a' (\<lambda>i. if b + cnt + d \<le> i \<and> i < length xs + d then nth_or_hole xs (i - d) else nth_or_hole xs i) N"
      using move_up[OF views assms(2), of "length xs" d "b + cnt"] assms(5) d(2) by auto
    have "splice_moved env (of_nat k) (of_nat cnt) (of_nat b + of_nat cnt) a = Some (of_nat (length xs + d), a')"
      unfolding splice_moved_def Let_def sum using less 1 bounds a'(1) d(1) len down_of_nat[OF bounds(4,5)] by simp
    moreover have "b + cnt + d = b + k" using 1 by (simp add: d_def)
    moreover have "i - d = i + cnt - k" for i using 1 by (simp add: d_def)
    ultimately show ?thesis using a'(2) unfolding d(2)
      by (intro exI[of _ a'] exI[of _ "\<lambda>i. if b + cnt + d \<le> i \<and> i < length xs - cnt + k then nth_or_hole xs (i - d) else nth_or_hole xs i"]) simp
  next
    case 2
    define d where "d = cnt - k"
    have d: "of_nat cnt - of_nat k = (of_nat d :: u32)" "length xs - d = length xs - cnt + k" "d \<le> b + cnt"
      using 2 assms(3) by (simp_all add: d_def of_nat_diff)
    have len_d: "(of_nat (length xs) - of_nat d :: u32) = of_nat (length xs - d)" using 2 assms(3) by (simp add: d_def of_nat_diff)
    obtain a' where a': "for_each (\<lambda>last. move_slot env last (last - of_nat d)) (map of_nat [b + cnt..<length xs]) a = Some a'"
      "views a' (\<lambda>i. if b + cnt - d \<le> i \<and> i < length xs - d then nth_or_hole xs (i + d) else nth_or_hole xs i) N"
      using move_down[OF views assms(2,4) d(3)] by blast
    have "splice_moved env (of_nat k) (of_nat cnt) (of_nat b + of_nat cnt) a = Some (of_nat (length xs - d), a')"
      unfolding splice_moved_def Let_def sum using less 2 bounds a'(1) d(1) len len_d up_of_nat[OF bounds(4,5)] by simp
    moreover have "b + cnt - d = b + k" using 2 by (simp add: d_def)
    moreover have "i + d = i + cnt - k" for i using 2 by (simp add: d_def)
    ultimately show ?thesis using a'(2) unfolding d(2)
      by (intro exI[of _ a'] exI[of _ "\<lambda>i. if b + cnt - d \<le> i \<and> i < length xs - cnt + k then nth_or_hole xs (i + d) else nth_or_hole xs i"]) simp
  next
    case 3
    then have "splice_moved env (of_nat k) (of_nat cnt) (of_nat b + of_nat cnt) a = Some (of_nat (length xs - cnt + k), a)"
      using len assms(3) by (simp add: splice_moved_def Let_def)
    then show ?thesis using views 3 by auto
  qed
qed

lemma array_splice_replaces:
  assumes "repr a xs" "new_ok env" "length xs + length vs < 2 ^ 32" "ids_fit env (length xs + length vs)"
    and b: "b = relative_index (length xs) d"
    and k: "k = (case rest of [] \<Rightarrow> length xs - b | d # _ \<Rightarrow> start_index (length xs - b) d)"
  shows "\<exists>r a'. array_splice env (d # rest) vs a = Some (r, a') \<and> repr a' (take b xs @ map Some vs @ drop (b + k) xs)
    \<and> (if version_1_2 env \<and> k \<le> 1 then r = (if k = 1 then S_Value (element (xs ! b)) else S_Void)
       else \<exists>out. r = S_Array out \<and> repr out (sublist b (b + k) xs))"
proof -
  note len = repr_length[OF assms(1)]
  let ?N = "length xs + length vs" and ?n = "length xs - k + length vs"
  have b_le: "b \<le> length xs" unfolding b by (rule relative_index_le)
  have k_le: "b + k \<le> length xs" using b_le start_index_le[of "length xs - b"] by (auto simp: k split: list.split)
      (metis le_diff_conv2 add.commute)
  have delta: "length_of a - of_nat b = (of_nat (length xs - b) :: u32)" using len b_le by (simp add: of_nat_diff)
  have uint_delta: "uint (of_nat (length xs - b) :: u32) = int (length xs - b)"
    using unat_of_nat_32[of "length xs - b"] len by (metis diff_le_self le_less_trans uint_nat)
  have fit: "ids_fit env (length xs)" "?n \<le> ?N" using ids_fit_mono[OF assms(4)] by auto
  have count: "(case rest of [] \<Rightarrow> Some (length_of a - of_nat b) | d # _ \<Rightarrow>
      to_index (clamp_positive (of_integer (uint (length_of a - of_nat b))) d)) = Some (of_nat k)"
  proof (cases rest)
    case (Cons d' ds)
    have "start_index (length xs - b) d' < 2 ^ 32" using start_index_le[of "length xs - b" d'] len by linarith
    then show ?thesis using Cons by (simp add: delta uint_delta clamp_positive_index k to_index_of)
  qed (simp add: delta k)
  obtain r where r: "splice_removed env (of_nat b) (of_nat k) a = Some r"
    "if version_1_2 env \<and> k \<le> 1 then r = (if k = 1 then S_Value (element (xs ! b)) else S_Void)
     else \<exists>out. r = S_Array out \<and> repr out (sublist b (b + k) xs)"
    using splice_removed_part[OF assms(1) fit(1) assms(2) k_le] by blast
  obtain a1 f where a1: "splice_moved env (of_nat (length vs)) (of_nat k) (of_nat b + of_nat k) a = Some (of_nat ?n, a1)"
    "views a1 f ?N" "\<forall>i<b. f i = nth_or_hole xs i"
    "\<forall>i. b + length vs \<le> i \<and> i < ?n \<longrightarrow> f i = nth_or_hole xs (i + k - length vs)"
    using splice_moved_tail[OF assms(1,4) k_le le_add1 fit(2) assms(3)] by blast
  have "b + length vs \<le> ?N" using b_le by simp
  then obtain a2 where a2: "for_each (\<lambda>(i, v) a. do { id \<leftarrow> IndexToId env (of_nat b + i); set_property env id v a })
      (zip (map of_nat [0..<length vs]) vs) a1 = Some a2"
    "views a2 (\<lambda>i. if b \<le> i \<and> i < b + length vs then Some (vs ! (i - b)) else f i) ?N"
    using set_row[OF a1(2) assms(4)] by blast
  obtain a3 where a3: "js_SetLengthProperty env (of_nat ?n) a2 = Some a3"
    "repr a3 (map (\<lambda>i. if b \<le> i \<and> i < b + length vs then Some (vs ! (i - b)) else f i) [0..<?n])"
    using set_length[OF a2(2) assms(4) fit(2)] by blast
  have "map (\<lambda>i. if b \<le> i \<and> i < b + length vs then Some (vs ! (i - b)) else f i) [0..<?n] = take b xs @ map Some vs @ drop (b + k) xs"
  proof (rule nth_equalityI)
    fix i assume "i < length (map (\<lambda>i. if b \<le> i \<and> i < b + length vs then Some (vs ! (i - b)) else f i) [0..<?n])"
    then have i: "i < ?n" by simp
    consider "i < b" | "b \<le> i" "i < b + length vs" | "b + length vs \<le> i" by linarith
    then show "map (\<lambda>i. if b \<le> i \<and> i < b + length vs then Some (vs ! (i - b)) else f i) [0..<?n] ! i
        = (take b xs @ map Some vs @ drop (b + k) xs) ! i"
    proof cases
      case 3
      then obtain j where j: "i = b + length vs + j" using le_Suc_ex by blast
      then have "b + k + j < length xs" using i k_le by linarith
      moreover have "f i = nth_or_hole xs (b + k + j)" using j a1(4) i 3 by (simp add: add.commute add.left_commute)
      ultimately show ?thesis using j i b_le k_le by (simp add: nth_append nth_or_hole_def)
    qed (use i a1(3) b_le k_le in \<open>auto simp: nth_append nth_or_hole_def\<close>)
  qed (use k_le in simp)
  then have "repr a3 (take b xs @ map Some vs @ drop (b + k) xs)" using a3(2) by simp
  moreover have "array_splice env (d # rest) vs a = Some (r, a3)"
    unfolding array_splice_def Let_def list.case relative_to_index[OF assms(1)] b[symmetric] bind.bind_lunit count
    using r(1) a1(1) a2(1) a3(1) by simp
  ultimately show ?thesis using r(2) by blast
qed

text \<open>
  C30: \<open>splice\<close> replaces a range of a list of values and holes by its arguments and gives the range
  (JavaScript 1.2 gives a single element, or nothing); \<open>slice\<close> gives the list between two relative
  indices; \<open>concat\<close> appends the lists of its arguments. Holes stay holes.
\<close>

theorem array_cut_and_join:
  assumes "repr a xs" "new_ok env" "length xs + length vs < 2 ^ 32" "ids_fit env (length xs + length vs)"
    and "list_all2 concat_part args yss" "length (concat yss) \<le> length xs + length vs"
    and "b = relative_index (length xs) d" "e = relative_index (length xs) d'" "k = start_index (length xs - b) d'"
  shows "(\<exists>r a'. array_splice env [d, d'] vs a = Some (r, a') \<and> repr a' (take b xs @ map Some vs @ drop (b + k) xs)
      \<and> (if version_1_2 env \<and> k \<le> 1 then r = (if k = 1 then S_Value (element (xs ! b)) else S_Void)
         else \<exists>out. r = S_Array out \<and> repr out (sublist b (b + k) xs)))
    \<and> (\<exists>out. array_slice env [d, d'] a = Some out \<and> repr out (sublist b e xs))
    \<and> (\<exists>out. array_concat env args = Some out \<and> repr out (concat yss))"
proof -
  have "ids_fit env (length xs)" "ids_fit env (length (concat yss))" "length (concat yss) < 2 ^ 32"
    using ids_fit_mono[OF assms(4)] assms(3,6) by auto
  then show ?thesis
    using array_splice_replaces[OF assms(1-4), of b d k "[d']"] array_slice_sublist[OF assms(1) _ assms(2), of b "[d, d']" e]
      array_concat_appends[OF assms(2,5)] assms(7-9) by simp
qed

theorem array_cut_and_join_witness:
  "\<exists>out. array_slice roomy [Fin (- 2), Fin 9] (array_of [Some 5, None, Some 7]) = Some out \<and> repr out [None, Some 7]"
proof -
  have "repr (array_of [Some 5, None, Some 7]) [Some 5, None, Some 7]" by (rule repr_array_of) simp
  moreover have "new_ok roomy" by (simp add: roomy_def)
  moreover have "length [Some 5, None, Some (7 :: jsval)] + length ([] :: jsval list) < 2 ^ 32" by simp
  moreover note ids_fit_roomy
  moreover have "list_all2 concat_part [] []" "length (concat ([] :: jsval option list list)) \<le> length [Some 5, None, Some (7 :: jsval)] + length ([] :: jsval list)"
    by simp_all
  ultimately show ?thesis
    using array_cut_and_join[OF _ _ _ _ _ _ refl refl refl, of "array_of [Some 5, None, Some 7]" "[Some 5, None, Some 7]" roomy "[]" "[]" "[]" "Fin (- 2)" "Fin 9"]
    by (simp add: sublist_def trunc_def del: power_Suc)
qed

section \<open>Reversing and searching\<close>

lemma set_keeps_length:
  "set_property env (of_nat i) v a = Some a' \<Longrightarrow> i < unat (length_of a) \<Longrightarrow> length_of a' = length_of a"
proof -
  assume set: "set_property env (of_nat i) v a = Some a'" and i: "i < unat (length_of a)"
  have "unat (length_of a) < 2 ^ 32" using unsigned_less[of "length_of a"] by simp
  then have "i < 2 ^ 32" using i by (rule order.strict_trans[rotated])
  then have "\<not> length_of a \<le> of_nat i" using i by (simp add: word_le_nat_alt unat_of_nat_32)
  then show ?thesis using set by (auto simp: set_property_def array_addProperty_def Let_def split: if_splits)
qed

lemma put_element:
  assumes "views a f n" "ids_fit env n" "j < n" "j < unat (length_of a)"
  shows "\<exists>a'. (case x of Some v \<Rightarrow> set_property env (of_nat j) v a | None \<Rightarrow> Some (delete_property (of_nat j) a)) = Some a'
    \<and> views a' (f(j := x)) n \<and> length_of a' = length_of a"
proof (cases x)
  case None
  have "j < 2 ^ 32" using assms(1,3) by (simp add: views_def)
  then show ?thesis using None views_delete[OF assms(1)] by (simp add: delete_property_def)
next
  case (Some v)
  then show ?thesis using set_element[OF assms(1-3), of v] set_keeps_length[OF _ assms(4)] by fastforce
qed

lemma swap_elements:
  assumes "views a f n" "ids_fit env n" "i < n" "j < n" "i \<noteq> j" "unat (length_of a) = n"
  shows "\<exists>a'. swap_slots env (of_nat i) (of_nat j) a = Some a' \<and> views a' (f(i := f j, j := f i)) n \<and> unat (length_of a') = n"
proof -
  have "n < 2 ^ 32" using assms(1) by (simp add: views_def)
  then have ids: "IndexToId env (of_nat i) = Some (of_nat i)" "IndexToId env (of_nat j) = Some (of_nat j)" "i < 2 ^ 32" "j < 2 ^ 32"
    using IndexToId_fits[OF assms(2)] assms(3,4) by auto
  obtain a1 where a1: "(case f i of Some v \<Rightarrow> set_property env (of_nat j) v a | None \<Rightarrow> Some (delete_property (of_nat j) a)) = Some a1"
    "views a1 (f(j := f i)) n" "length_of a1 = length_of a"
    using put_element[OF assms(1,2,4), of "f i"] assms(4,6) by auto
  obtain a2 where a2: "(case f j of Some v \<Rightarrow> set_property env (of_nat i) v a1 | None \<Rightarrow> Some (delete_property (of_nat i) a1)) = Some a2"
    "views a2 (f(j := f i, i := f j)) n" "length_of a2 = length_of a1"
    using put_element[OF a1(2) assms(2,3), of "f j"] a1(3) assms(3,6) by auto
  have "elems a (of_nat i) = f i" "elems a (of_nat j) = f j" using views_get[OF assms(1)] ids by simp_all
  then have "swap_slots env (of_nat i) (of_nat j) a = Some a2" using a1(1) a2(1) ids(1,2) by (simp add: swap_slots_def Let_def)
  then show ?thesis using a1(3) a2(2,3) assms(5,6) by (simp add: fun_upd_twist)
qed

lemma swap_half:
  "h \<le> n div 2 \<Longrightarrow> fold (\<lambda>i f. f(i := f (n - i - 1), n - i - 1 := f i)) [0..<h] f
    = (\<lambda>i. if i < h \<or> n - h \<le> i \<and> i < n then f (n - i - 1) else f i)"
proof (induction h)
  case 0
  show ?case by (simp add: no_range)
next
  case (Suc h)
  then show ?case by (auto simp: fun_eq_iff)
qed

lemma array_reverse_rev:
  assumes "repr a xs" "ids_fit env (length xs)"
  shows "\<exists>a'. array_reverse env a = Some a' \<and> repr a' (rev xs)"
proof -
  note len = repr_length[OF assms(1)]
  let ?n = "length xs" and ?h = "length xs div 2"
  have views: "views a (nth_or_hole xs) ?n" using assms(1) by (simp add: repr_def)
  let ?g = "\<lambda>i f :: nat \<Rightarrow> jsval option. f(i := f (?n - i - 1), ?n - i - 1 := f i)"
  have "\<exists>a'. for_each (\<lambda>i. swap_slots env (of_nat i) (length_of a - of_nat i - 1)) [0..<?h] a = Some a'
      \<and> views a' (fold ?g [0..<?h] (nth_or_hole xs)) ?n \<and> unat (length_of a') = ?n"
  proof (rule for_each_related[where R = "\<lambda>a f. views a f ?n \<and> unat (length_of a) = ?n" and g = ?g])
    fix i a' f assume i: "i \<in> set [0..<?h]" and v: "views a' f ?n \<and> unat (length_of a') = ?n"
    then have bounds: "i < ?n" "?n - i - 1 < ?n" "i \<noteq> ?n - i - 1" by auto
    then have mirror: "length_of a - of_nat i - 1 = of_nat (?n - i - 1)" using len by (simp add: of_nat_diff)
    show "\<exists>a''. swap_slots env (of_nat i) (length_of a - of_nat i - 1) a' = Some a'' \<and> views a'' (?g i f) ?n \<and> unat (length_of a'') = ?n"
      unfolding mirror using swap_elements[OF conjunct1[OF v] assms(2) bounds conjunct2[OF v]] .
  qed (use views len in blast)
  then obtain a' where a': "for_each (\<lambda>i. swap_slots env (of_nat i) (length_of a - of_nat i - 1)) [0..<?h] a = Some a'"
    "views a' (fold ?g [0..<?h] (nth_or_hole xs)) ?n" "unat (length_of a') = ?n" by blast
  have "fold ?g [0..<?h] (nth_or_hole xs) = nth_or_hole (rev xs)"
    unfolding swap_half[OF order_refl] by (auto simp: fun_eq_iff nth_or_hole_def rev_nth intro!: arg_cong[where f = "(!) xs"])
  moreover have "length_of a' = of_nat ?n" using a'(3) by (simp flip: a'(3))
  ultimately have "repr a' (rev xs)" using a'(2) by (simp add: repr_def)
  moreover have "unat (length_of a div 2) = unat (length_of a) div 2" by (simp add: unat_div)
  then have "unat (length_of a div 2) = ?h" using arg_cong[OF conjunct2[OF conjunct2[OF len]], of "\<lambda>n. n div 2"] by (rule trans)
  then have "length_of a div 2 = of_nat ?h" by (simp flip: \<open>unat (length_of a div 2) = ?h\<close>)
  moreover have "?h < 2 ^ 32" using len by linarith
  then have "up 0 (of_nat ?h) = map of_nat [0..<?h]" using up_of_nat[of 0 ?h] by simp
  ultimately show ?thesis using a'(1) by (simp add: array_reverse_def Let_def for_each_map)
qed

lemma find_slot_found:
  assumes "repr a xs" "ids_fit env (length xs)" "\<forall>i\<in>set is. i < length xs"
  shows "find_slot env eq a (map of_nat is) = Some (map_option of_nat (find (\<lambda>i. \<exists>v. xs ! i = Some v \<and> eq v) is))"
  using assms(3)
proof (induction "is")
  case (Cons i "is")
  note len = repr_length[OF assms(1)]
  have i: "i < length xs" "i < 2 ^ 32" using Cons.prems len by auto
  have "elems a (of_nat i) = xs ! i"
    using assms(1) views_get[of a "nth_or_hole xs" "length xs" i] i by (simp add: repr_def nth_or_hole_def)
  moreover have "IndexToId env (of_nat i) = Some (of_nat i)" "IndexToValue env (of_nat i) = Some (of_nat i)"
    using IndexToId_fits[OF assms(2), of i] IndexToValue_fits[OF assms(2), of i] i len by simp_all
  ultimately show ?case using Cons
    by (auto simp: IndexToExistingId_def get_property_def split: option.splits)
qed simp

text \<open>
  C32: \<open>reverse\<close> reverses a list of values and holes. \<open>indexOf\<close> and \<open>lastIndexOf\<close> give the first index of
  an equal element from a relative index on, or the last one up to it, or nothing; but an index at
  or past the end is taken for that of the last element, so that \<open>indexOf\<close> finds it there.
\<close>

theorem array_reverse_and_search:
  assumes "repr a xs" "ids_fit env (length xs)" "0 < length xs" "b = min (relative_index (length xs) d) (length xs - 1)"
  shows "(\<exists>a'. array_reverse env a = Some a' \<and> repr a' (rev xs))
    \<and> array_indexOfHelper env eq (Some d) False a
        = Some (map_option of_nat (find (\<lambda>i. \<exists>v. xs ! i = Some v \<and> eq v) [b..<length xs]))
    \<and> array_indexOfHelper env eq (Some d) True a
        = Some (map_option of_nat (find (\<lambda>i. \<exists>v. xs ! i = Some v \<and> eq v) (rev [0..<Suc b])))"
proof -
  note len = repr_length[OF assms(1)] and n = uint_length[OF assms(1)]
  have "b < length xs" using assms(3) min.cobounded2[of "relative_index (length xs) d" "length xs - 1"] unfolding assms(4) by linarith
  with len have b: "b < length xs" "b < 2 ^ 32" by linarith+
  have nonzero: "length_of a \<noteq> 0" using assms(3) len by (metis unat_0 less_numeral_extra(3))
  have pred: "length_of a - 1 = of_nat (length xs - 1)" using len assms(3) by (simp add: of_nat_diff Suc_le_eq)
  have index: "(let start = js_DoubleToInteger d
      in if start < 0
         then (let start = start + of_integer (uint (length_of a)) in if start < 0 then Some 0 else to_index start)
         else if of_integer (uint (length_of a)) \<le> start then Some (length_of a - 1)
         else to_index start) = Some (of_nat b)"
  proof (cases d)
    case (Fin x)
    have "to_index (of_integer (trunc x)) = Some (of_nat b)" if "0 \<le> trunc x" "trunc x < int (length xs)"
      using to_index_of[of "nat (trunc x)"] that len assms(4) Fin by auto
    moreover have "to_index (of_integer (trunc x + int (length xs))) = Some (of_nat b)" if "trunc x < 0" "0 \<le> trunc x + int (length xs)"
      using to_index_of[of "nat (trunc x + int (length xs))"] that len assms(4) Fin by auto
    moreover have "(of_integer (int (length xs)) \<le> of_integer (trunc x)) = (int (length xs) \<le> trunc x)"
      unfolding of_integer_def less_eq_jsdouble.simps of_int_le_iff ..
    moreover have "b = length xs - 1" if "int (length xs) \<le> trunc x" using that assms(4) Fin by simp
    moreover have "b = 0" if "trunc x + int (length xs) < 0" using that assms(4) Fin by simp
    ultimately show ?thesis unfolding Fin js_DoubleToInteger_Fin n Let_def of_integer_simps
      using pred by (simp add: not_less not_le)
  next
    case (Inf neg)
    then show ?thesis using assms(3,4) pred n by (auto simp: js_DoubleToInteger_def min_def of_integer_def Let_def)
  next
    case NaN
    then show ?thesis using assms(3,4) n to_index_of[of 0] by (auto simp: js_DoubleToInteger_def of_integer_def Let_def zero_jsdouble_def)
  qed
  have "up (of_nat b) (length_of a) = map of_nat [b..<length xs]" using up_of_nat[OF b(2), of "length xs"] len by simp
  then show ?thesis
    unfolding array_indexOfHelper_def Let_def[of "length_of a"] if_not_P[OF nonzero] option.case index
    using find_slot_found[OF assms(1,2)] b array_reverse_rev[OF assms(1,2)] by (simp add: unat_of_nat_32 rev_map del: upt_Suc)
qed

theorem array_reverse_and_search_witness:
  "array_indexOfHelper roomy (\<lambda>v. v = 7) (Some (Inf False)) False (array_of [Some 5, Some 7]) = Some (Some 1)"
proof -
  have "repr (array_of [Some 5, Some 7]) [Some 5, Some 7]" by (rule repr_array_of) simp
  then show ?thesis
    using array_reverse_and_search[OF _ ids_fit_roomy _ refl, of "array_of [Some 5, Some 7]" "[Some 5, Some 7]" "\<lambda>v. v = 7" "Inf False"]
    by simp
qed

end
