(* ===== verification/JS_ArraySort.thy ===== *)
theory JS_ArraySort
  imports JS_Array
begin

text \<open>
  \<open>Array.prototype.sort\<close> of js/src/jsarray.c: its two comparators, \<open>sort_compare\<close> and
  \<open>sort_compare_strings\<close>, and the method, which copies the elements to a vector, sorts it and writes
  it back. Converting a value to a string and calling the compare function may run scripts, which
  may change the array and the rest of the world.
\<close>

section \<open>The code\<close>

definition JSVAL_HOLE :: jsval where "JSVAL_HOLE = push_bit 3 2 OR ucast JSVAL_BOOLEAN"

text \<open>What scripts work on, and whether a comparison has failed (\<open>CompareArgs.status\<close>).\<close>

type_synonym 'w script_state = "js_array \<times> 'w"
type_synonym 'w sort_state = "bool \<times> 'w script_state"

text \<open>\<open>js_ValueToString\<close>, and the compare function with \<open>js_ValueToNumber\<close> of its result; \<open>None\<close> is an exception.\<close>

type_synonym 'w to_string = "jsval \<Rightarrow> 'w script_state \<Rightarrow> u16 list option \<times> 'w script_state"
type_synonym 'w compare_function = "jsval \<Rightarrow> jsval \<Rightarrow> 'w script_state \<Rightarrow> jsdouble option \<times> 'w script_state"

definition clamp_cmp :: "jsdouble \<Rightarrow> int" where
  "clamp_cmp d = (if JSDOUBLE_IS_NaN d then 0 else if d \<noteq> 0 then (if 0 < d then 1 else -1) else 0)"

definition sort_compare ::
  "'w to_string \<Rightarrow> 'w compare_function option \<Rightarrow> (jsval, 'w sort_state) comparator" where
  "sort_compare to_str fval av bv s =
     (let special = (if av = JSVAL_HOLE \<or> bv = JSVAL_HOLE then JSVAL_HOLE
                     else if av = JSVAL_VOID \<or> bv = JSVAL_VOID then JSVAL_VOID else JSVAL_NULL);
          (status, st) = s
      in if special \<noteq> JSVAL_NULL
         then (if av = bv then 0 else if av \<noteq> special then -1 else 1, s)
         else case fval of
           None \<Rightarrow>
             if av = bv then (0, s)
             else (case to_str av st of
                     (None, st) \<Rightarrow> (-1, False, st)
                   | (Some astr, st) \<Rightarrow>
                       (case to_str bv st of
                          (None, st) \<Rightarrow> (-1, False, st)
                        | (Some bstr, st) \<Rightarrow> (js_CompareStrings astr bstr, status, st)))
         | Some f \<Rightarrow>
             (case f av bv st of
                (None, st) \<Rightarrow> (-1, False, st)
              | (Some d, st) \<Rightarrow> (clamp_cmp d, status, st)))"

text \<open>\<open>chars\<close> are the characters of a string value.\<close>

definition sort_compare_strings :: "(jsval \<Rightarrow> u16 list) \<Rightarrow> (jsval, 's) comparator" where
  "sort_compare_strings chars av bv s = (js_CompareStrings (chars av) (chars bv), s)"

text \<open>The loop that fills the vector, counting the elements and testing whether all are strings.\<close>

definition sort_fill :: "array_env \<Rightarrow> js_array \<Rightarrow> bool \<Rightarrow> (nat \<times> bool \<times> jsval list) option" where
  "sort_fill env a all_strings =
     for_each (\<lambda>i (newlen, all_strings, vec). do {
         found \<leftarrow> IndexToExistingId env a i;
         case found of
           None \<Rightarrow> Some (newlen, False, vec @ [JSVAL_HOLE])
         | Some pid \<Rightarrow>
             let v = get_property a pid
             in Some (Suc newlen, all_strings \<and> JSVAL_TAG v = JSVAL_STRING, vec @ [v]) })
       (up 0 (length_of a)) (0, all_strings, [])"

text \<open>Writing the vector back, and making the holes again that were sorted to its end.\<close>

definition sort_store :: "array_env \<Rightarrow> u32 \<Rightarrow> nat \<Rightarrow> jsval list \<Rightarrow> js_array \<Rightarrow> js_array option" where
  "sort_store env len newlen vec a = do {
     a \<leftarrow> InitArrayElements env (take newlen vec) a;
     for_each (\<lambda>i a. do { id \<leftarrow> IndexToId env i; Some (delete_property id a) }) (down len (of_nat newlen)) a }"

datatype 'w sort_arg = No_Argument | Primitive_Argument | Function_Argument "'w compare_function"

text \<open>
  The method: the boolean is its result, false after an exception of a comparison or for an argument
  that is primitive (\<open>JSMSG_BAD_SORT_ARG\<close>). \<open>vec_ok\<close> is whether the vector can be allocated.
\<close>

definition array_sort ::
  "array_env \<Rightarrow> bool \<Rightarrow> 'w to_string \<Rightarrow> (jsval \<Rightarrow> u16 list) \<Rightarrow> 'w sort_arg \<Rightarrow> 'w script_state
    \<Rightarrow> (bool \<times> 'w script_state) option" where
  "array_sort env vec_ok to_str chars arg st =
     (let a = fst st; len = length_of a
      in case arg of
           Primitive_Argument \<Rightarrow> Some (False, st)
         | _ \<Rightarrow>
           let fval = (case arg of Function_Argument f \<Rightarrow> Some f | _ \<Rightarrow> None)
           in if len = 0 then Some (True, st)
              else if \<not> vec_ok then None
              else do {
                (newlen, all_strings, vec) \<leftarrow> sort_fill env a (fval = None);
                (vec, status, st) \<leftarrow> js_HeapSort (if all_strings then sort_compare_strings chars else sort_compare to_str fval)
                                       (unat len) vec (True, st);
                if status
                then do { a \<leftarrow> sort_store env len newlen vec (fst st); Some (True, a, snd st) }
                else Some (False, st) })"

section \<open>The comparators are consistent\<close>

text \<open>Values that are defined come before undefined ones, and these before holes, whatever the compare function.\<close>

definition rank :: "jsval \<Rightarrow> nat" where "rank v = (if v = JSVAL_HOLE then 2 else if v = JSVAL_VOID then 1 else 0)"

lemma hole_void_null: "JSVAL_HOLE \<noteq> JSVAL_VOID" "JSVAL_HOLE \<noteq> JSVAL_NULL" "JSVAL_VOID \<noteq> JSVAL_NULL"
  by code_simp+

interpretation classes: consistent_comparator "sort_compare to_str fval" "\<lambda>x y. rank y \<le> rank x" UNIV for to_str fval
  using hole_void_null by unfold_locales (auto simp: sort_compare_def rank_def Let_def split: if_splits prod.splits)

text \<open>Strings are compared as lists of characters.\<close>

lemma js_CompareStrings_nonnegative: "short s \<Longrightarrow> short t \<Longrightarrow> 0 \<le> js_CompareStrings s t \<longleftrightarrow> t \<le> s"
  using js_CompareStrings_order(1)[of s t] by (meson not_le)

interpretation strings: consistent_comparator "sort_compare_strings chars" "\<lambda>x y. chars y \<le> chars x" "{v. short (chars v)}" for chars
  by unfold_locales (auto simp: sort_compare_strings_def js_CompareStrings_order js_CompareStrings_nonnegative)

text \<open>An order of defined values, extended by the ranks.\<close>

definition ranked :: "(jsval \<Rightarrow> jsval \<Rightarrow> bool) \<Rightarrow> jsval \<Rightarrow> jsval \<Rightarrow> bool" where
  "ranked ge x y \<longleftrightarrow> rank y < rank x \<or> rank y = rank x \<and> (rank x = 0 \<longrightarrow> ge x y)"

lemma ranked_transitive:
  assumes "\<And>x y z. x \<in> S \<Longrightarrow> y \<in> S \<Longrightarrow> z \<in> S \<Longrightarrow> ge x y \<Longrightarrow> ge y z \<Longrightarrow> ge x z"
  shows "x \<in> S \<Longrightarrow> y \<in> S \<Longrightarrow> z \<in> S \<Longrightarrow> ranked ge x y \<Longrightarrow> ranked ge y z \<Longrightarrow> ranked ge x z"
  using assms[of x y z] by (auto simp: ranked_def)

lemma rank_0: "rank v = 0 \<longleftrightarrow> v \<noteq> JSVAL_HOLE \<and> v \<noteq> JSVAL_VOID"
  by (simp add: rank_def)

lemma sort_compare_special:
  "\<not> (rank x = 0 \<and> rank y = 0) \<Longrightarrow> sort_compare to_str fval x y s = (if rank x = rank y then 0 else if rank x < rank y then -1 else 1, s)"
  using hole_void_null by (auto simp: sort_compare_def rank_def Let_def split: if_splits prod.splits)

lemma sort_compare_consistent:
  assumes transitive: "\<And>x y z. x \<in> S \<Longrightarrow> y \<in> S \<Longrightarrow> z \<in> S \<Longrightarrow> ge x y \<Longrightarrow> ge y z \<Longrightarrow> ge x z"
    and answer: "\<And>x y s. x \<in> S \<Longrightarrow> y \<in> S \<Longrightarrow> rank x = 0 \<Longrightarrow> rank y = 0 \<Longrightarrow>
      if fst (sort_compare to_str fval x y s) < 0 then ge y x else ge x y"
  shows "consistent_comparator (sort_compare to_str fval) (ranked ge) S"
proof
  show "ranked ge y x" if "x \<in> S" "y \<in> S" "fst (sort_compare to_str fval x y s) < 0" for x y s
    using that answer[OF that(1,2), of s] sort_compare_special[of x y to_str fval s]
    by (cases "rank x = 0 \<and> rank y = 0") (auto simp: ranked_def split: if_splits)
  show "ranked ge x y" if "x \<in> S" "y \<in> S" "0 \<le> fst (sort_compare to_str fval x y s)" for x y s
    using that answer[OF that(1,2), of s] sort_compare_special[of x y to_str fval s]
    by (cases "rank x = 0 \<and> rank y = 0") (auto simp: ranked_def split: if_splits)
qed (use ranked_transitive[of S ge] transitive in blast)

section \<open>The vector\<close>

definition slot_value :: "jsval option \<Rightarrow> jsval" where "slot_value x = (case x of None \<Rightarrow> JSVAL_HOLE | Some v \<Rightarrow> v)"

definition present :: "jsval option list \<Rightarrow> jsval list" where "present xs = List.map_filter (\<lambda>x. x) xs"

lemma present_simps [simp]: "present [] = []" "present (xs @ [None]) = present xs" "present (xs @ [Some v]) = present xs @ [v]"
  by (simp_all add: present_def map_filter_def)

definition string_slot :: "jsval option \<Rightarrow> bool" where
  "string_slot x \<longleftrightarrow> (case x of None \<Rightarrow> False | Some v \<Rightarrow> JSVAL_TAG v = JSVAL_STRING)"

lemma for_each_append: "for_each body (is @ js) a = Option.bind (for_each body is a) (for_each body js)"
  by (induction "is" arbitrary: a) (auto split: Option.bind_splits)

lemma sort_fill_vector:
  assumes "repr a xs" "ids_fit env (length xs)"
  shows "sort_fill env a b = Some (length (present xs), b \<and> list_all string_slot xs, map slot_value xs)"
proof -
  note len = repr_length[OF assms(1)]
  define body where "body = (\<lambda>i (newlen, all_strings, vec). do {
         found \<leftarrow> IndexToExistingId env a i;
         case found of
           None \<Rightarrow> Some (newlen, False, vec @ [JSVAL_HOLE])
         | Some pid \<Rightarrow>
             let v = get_property a pid
             in Some (Suc newlen, all_strings \<and> JSVAL_TAG v = JSVAL_STRING, vec @ [v]) } :: (nat \<times> bool \<times> jsval list) option)"
  have "for_each body (map of_nat [0..<k]) (0, b, [])
      = Some (length (present (take k xs)), b \<and> list_all string_slot (take k xs), map slot_value (take k xs))"
    if "k \<le> length xs" for k
    using that
  proof (induction k)
    case (Suc k)
    then have k: "k < length xs" "k < 2 ^ 32" using len by auto
    have "elems a (of_nat k) = xs ! k"
      using assms(1) views_get[of a "nth_or_hole xs" "length xs" k] k by (simp add: repr_def nth_or_hole_def)
    moreover have "IndexToId env (of_nat k) = Some (of_nat k)" using IndexToId_fits[OF assms(2), of k] k len by simp
    moreover have "take (Suc k) xs = take k xs @ [xs ! k]" by (rule take_Suc_conv_app_nth[OF k(1)])
    ultimately show ?case using Suc k
      by (auto simp: for_each_append body_def IndexToExistingId_def get_property_def string_slot_def slot_value_def Let_def split: option.splits)
  qed simp
  from this[OF order_refl] show ?thesis
    using up_of_nat[of 0 "length xs"] len by (simp add: sort_fill_def body_def)
qed

lemma holes_last:
  "sorted_wrt (\<lambda>x y. rank x \<le> rank y) vec \<Longrightarrow>
    vec = filter (\<lambda>v. v \<noteq> JSVAL_HOLE) vec @ replicate (length (filter (\<lambda>v. v = JSVAL_HOLE) vec)) JSVAL_HOLE"
proof (induction vec)
  case (Cons v vec)
  show ?case
  proof (cases "v = JSVAL_HOLE")
    case True
    then have "\<forall>w\<in>set vec. w = JSVAL_HOLE" using Cons.prems by (auto simp: rank_def split: if_splits)
    then have "filter (\<lambda>v. v \<noteq> JSVAL_HOLE) vec = []" "filter (\<lambda>v. v = JSVAL_HOLE) vec = vec"
      by (simp_all add: filter_empty_conv)
    then show ?thesis using True Cons by simp
  qed (use Cons in simp)
qed simp

lemma present_of_slots:
  "\<forall>v. Some v \<in> set xs \<longrightarrow> v \<noteq> JSVAL_HOLE \<Longrightarrow> filter (\<lambda>v. v \<noteq> JSVAL_HOLE) (map slot_value xs) = present xs"
  by (induction xs) (auto simp: slot_value_def present_def map_filter_def split: option.splits)

section \<open>Writing the vector back\<close>

text \<open>
  The array need not be the one that was read: the compare function may have changed it, and its
  length. Setting the element after those already set either replaces one or makes the array longer.
\<close>

lemma set_next:
  assumes "repr a (us @ zs)" "ids_fit env m" "length us < m" "m < 2 ^ 32"
  shows "\<exists>a'. set_property env (of_nat (length us)) v a = Some a' \<and> repr a' (us @ Some v # tl zs)"
proof -
  define i where "i = length us"
  have i: "i < 2 ^ 32 - 1" "i < 2 ^ 32" "Suc i < 2 ^ 32" "(of_nat i :: u32) \<noteq> -1"
    using assms(3,4) of_nat_max_32[of i] by (auto simp: i_def)
  note len = repr_length[OF assms(1)]
  have elems: "elems a (of_nat j) = nth_or_hole (us @ zs) j" if "j < 2 ^ 32" for j
    using assms(1) that by (auto simp: repr_def views_def)
  define a1 where "a1 = a\<lparr>elems := (elems a)(of_nat i \<mapsto> v)\<rparr>"
  have elems1: "elems a1 (of_nat j) = nth_or_hole (us @ Some v # tl zs) j" if "j < 2 ^ 32" for j
    using elems[OF that] that i(2)
    by (cases zs) (auto simp: a1_def of_nat_eq_32 nth_or_hole_def nth_append nth_Cons' i_def)
  show ?thesis
  proof (cases zs)
    case (Cons z zs')
    then have "i < length (us @ zs)" by (simp add: i_def)
    then have "i < unat (length_of a)" using len by argo
    then have "\<not> length_of a \<le> of_nat i" using unat_of_nat_32[OF i(2)] by (simp add: word_le_nat_alt)
    then have "set_property env (of_nat i) v a = Some a1"
      using i(4) by (simp add: set_property_def array_addProperty_def a1_def Let_def)
    moreover have "repr a1 (us @ Some v # tl zs)"
      using elems1 len Cons by (auto simp: repr_def views_def a1_def nth_or_hole_def)
    ultimately show ?thesis by (auto simp: i_def)
  next
    case Nil
    then have "elems a (of_nat i) = None" "length_of a \<le> of_nat i"
      using elems[OF i(2)] len i by (auto simp: nth_or_hole_def i_def)
    moreover have "of_nat i + 1 = (of_nat (Suc i) :: u32)" by simp
    moreover have "down (length_of a) (of_nat (Suc i)) = []"
      using down_of_nat[OF i(3), of "length us"] len Nil i by (simp add: i_def)
    ultimately have "set_property env (of_nat i) v a = Some (a1\<lparr>length_of := of_nat (Suc i)\<rparr>)"
      using i(4) IndexToValue_fits[OF assms(2) _ assms(4), of "Suc i"] assms(3)
      by (simp add: set_property_def array_addProperty_def js_SetLengthProperty_def array_length_setter_def a1_def Let_def i_def
          del: of_nat_Suc)
    moreover have "repr (a1\<lparr>length_of := of_nat (Suc i)\<rparr>) (us @ Some v # tl zs)"
      using elems1 Nil i(3) unat_of_nat_32[OF i(3)] by (auto simp: repr_def views_def nth_or_hole_def i_def simp del: of_nat_Suc)
    ultimately show ?thesis by (auto simp: i_def)
  qed
qed

lemma init_over:
  assumes "repr a zs" "ids_fit env m" "length ys \<le> m" "m < 2 ^ 32"
  shows "\<exists>a'. InitArrayElements env ys a = Some a' \<and> repr a' (map Some ys @ drop (length ys) zs)"
  using assms(3)
proof (induction ys rule: rev_induct)
  case Nil
  then show ?case using assms(1) by (simp add: InitArrayElements_def)
next
  case (snoc y ys)
  then obtain a1 where a1: "InitArrayElements env ys a = Some a1" "repr a1 (map Some ys @ drop (length ys) zs)" by auto
  obtain a2 where a2: "set_property env (of_nat (length ys)) y a1 = Some a2"
    "repr a2 (map Some ys @ Some y # tl (drop (length ys) zs))"
    using set_next[OF a1(2) assms(2) _ assms(4), of y] snoc.prems by auto
  have "IndexToId env (of_nat (length ys)) = Some (of_nat (length ys))"
    using IndexToId_fits[OF assms(2) _ assms(4), of "length ys"] snoc.prems by simp
  then have "InitArrayElements env (ys @ [y]) a = Some a2"
    using a1(1) a2(1) by (simp add: InitArrayElements_def for_each_append)
  then show ?case using a2(2) by (simp add: tl_drop drop_Suc)
qed

lemma sort_store_result:
  assumes "repr a zs" "ids_fit env len" "n \<le> len" "len < 2 ^ 32" "take n vec = ys" "n = length ys"
  shows "\<exists>a'. sort_store env (of_nat len) n vec a = Some a' \<and>
    repr a' (map Some ys @ replicate (min len (length zs) - n) None @ drop len zs)"
proof -
  obtain a1 where a1: "InitArrayElements env ys a = Some a1" "repr a1 (map Some ys @ drop n zs)"
    using init_over[OF assms(1,2) _ assms(4), of ys] assms(3,6) by auto
  note len1 = repr_length[OF a1(2)]
  let ?is = "map of_nat (rev [n..<len]) :: u32 list"
  have "down (of_nat len) (of_nat n) = ?is" using down_of_nat[of n len] assms(3,4) by simp
  moreover have "for_each (\<lambda>i a. do { id \<leftarrow> IndexToId env i; Some (delete_property id a) }) ?is a1
      = Some (a1\<lparr>elems := elems a1 |` (- set ?is)\<rparr>)"
    using IndexToId_fits[OF assms(2)] assms(4) by (intro delete_listed) auto
  ultimately have run: "sort_store env (of_nat len) n vec a = Some (a1\<lparr>elems := elems a1 |` (- set ?is)\<rparr>)"
    using a1(1) assms(5) by (simp add: sort_store_def)
  have "elems a1 (of_nat i) = nth_or_hole (map Some ys @ drop n zs) i" if "i < 2 ^ 32" for i
    using a1(2) that by (auto simp: repr_def views_def)
  moreover have "(of_nat i :: u32) \<in> set ?is \<longleftrightarrow> n \<le> i \<and> i < len" if "i < 2 ^ 32" for i
  proof -
    have "(of_nat i :: u32) \<in> of_nat ` {n..<len} \<longleftrightarrow> i \<in> {n..<len}"
      using that assms(4) by (auto simp: of_nat_eq_32 image_iff)
    then show ?thesis by simp
  qed
  moreover have "nth_or_hole (map Some ys @ replicate (min len (length zs) - n) None @ drop len zs) i =
      (if n \<le> i \<and> i < len then None else nth_or_hole (map Some ys @ drop n zs) i)" for i
    using assms(3,6) by (auto simp: nth_or_hole_def nth_append min_def)
  moreover have "length (map Some ys @ replicate (min len (length zs) - n) None @ drop len zs) = length (map Some ys @ drop n zs)"
    using assms(3,6) by (auto simp: min_def)
  ultimately have "repr (a1\<lparr>elems := elems a1 |` (- set ?is)\<rparr>) (map Some ys @ replicate (min len (length zs) - n) None @ drop len zs)"
    using a1(2) len1 unfolding repr_def views_def by (auto simp: restrict_map_def nth_or_hole_def)
  then show ?thesis using run by blast
qed

section \<open>The method sorts\<close>

text \<open>
  With a comparator that is consistent with an order of the elements, the defined elements are
  sorted, the undefined ones follow, and the holes are last. \<open>I\<close> is what the comparisons keep: they
  succeed and leave an array, which may have other elements than the one that is sorted.
\<close>

lemma array_sort_run:
  assumes "repr a xs" "ids_fit env (length xs)" "xs \<noteq> []" "arg \<noteq> Primitive_Argument"
    and cmp: "cmp = (if arg = No_Argument \<and> list_all string_slot xs then sort_compare_strings chars
      else sort_compare to_str (case arg of Function_Argument f \<Rightarrow> Some f | _ \<Rightarrow> None))"
    and consistent: "consistent_comparator cmp (ranked ge) S" "set (map slot_value xs) \<subseteq> S"
    and I: "I (True, a, w)" "\<And>x y s. I s \<Longrightarrow> I (snd (cmp x y s))" "\<And>s. I s \<Longrightarrow> fst s \<and> (\<exists>zs. repr (fst (snd s)) zs)"
    and holes: "\<forall>v. Some v \<in> set xs \<longrightarrow> v \<noteq> JSVAL_HOLE"
  shows "\<exists>ys zs b w' a'. array_sort env True to_str chars arg (a, w) = Some (True, a', w')
    \<and> I (True, b, w') \<and> repr b zs
    \<and> repr a' (map Some ys @ replicate (min (length xs) (length zs) - length ys) None @ drop (length xs) zs)
    \<and> mset ys = mset (present xs) \<and> sorted_wrt (\<lambda>x y. ranked ge y x) ys"
proof -
  note len = repr_length[OF assms(1)]
  let ?vec = "map slot_value xs" and ?n = "length (present xs)"
  obtain vec' st' where run: "js_HeapSort cmp (length xs) ?vec (True, a, w) = Some (vec', st')"
    "mset vec' = mset ?vec" "length vec' = length xs" "sorted_wrt (\<lambda>x y. ranked ge y x) (take (length xs) vec')"
    using consistent_comparator.heap_sort_sorts[OF consistent(1) _ consistent(2), of "length xs" "(True, a, w)"] by auto
  have "I st'" using heap_sort_keeps[where P = I, OF I(2) run(1)] I(1) by simp
  then obtain b w' zs where st': "st' = (True, b, w')" "I (True, b, w')" "repr b zs"
    using I(3)[of st'] by (metis prod.collapse)
  have sorted: "sorted_wrt (\<lambda>x y. ranked ge y x) vec'" using run(3,4) by simp
  then have "sorted_wrt (\<lambda>x y. rank x \<le> rank y) vec'"
    by (rule sorted_wrt_mono_rel[rotated]) (auto simp: ranked_def)
  note split = holes_last[OF this]
  define ys where "ys = filter (\<lambda>v. v \<noteq> JSVAL_HOLE) vec'"
  have mset: "mset ys = mset (present xs)"
    unfolding ys_def present_of_slots[OF holes, symmetric] mset_filter run(2) ..
  then have n: "?n = length ys" by (metis mset_eq_length)
  have take: "take ?n vec' = ys" unfolding n by (subst split) (simp add: ys_def)
  have "?n \<le> length xs" using run(3) unfolding n ys_def by (metis length_filter_le)
  then obtain a' where store: "sort_store env (of_nat (length xs)) ?n vec' b = Some a'"
    "repr a' (map Some ys @ replicate (min (length xs) (length zs) - length ys) None @ drop (length xs) zs)"
    using sort_store_result[OF st'(3) assms(2) _ _ take n] len n by auto
  have "length_of a \<noteq> 0" using assms(3) len by (metis length_0_conv unat_0)
  moreover have "sort_fill env a (arg = No_Argument) = Some (?n, arg = No_Argument \<and> list_all string_slot xs, ?vec)"
    by (rule sort_fill_vector[OF assms(1,2)])
  moreover have "((case arg of Function_Argument f \<Rightarrow> Some f | _ \<Rightarrow> None) = None) = (arg = No_Argument)"
    using assms(4) by (cases arg) auto
  ultimately have "array_sort env True to_str chars arg (a, w) = Some (True, a', w')"
    using run(1) store(1) st'(1) len assms(4) unfolding cmp
    by (cases arg) (auto simp: array_sort_def Let_def split: if_splits)
  moreover have "sorted_wrt (\<lambda>x y. ranked ge y x) ys" unfolding ys_def using sorted by (rule sorted_wrt_filter)
  ultimately show ?thesis using store(2) mset st'(2,3) by blast
qed

text \<open>If the comparisons leave the array alone, its holes are made again after the sorted elements.\<close>

lemma array_sort_with:
  assumes "repr a xs" "ids_fit env (length xs)" "xs \<noteq> []" "arg \<noteq> Primitive_Argument"
    and cmp: "cmp = (if arg = No_Argument \<and> list_all string_slot xs then sort_compare_strings chars
      else sort_compare to_str (case arg of Function_Argument f \<Rightarrow> Some f | _ \<Rightarrow> None))"
    and consistent: "consistent_comparator cmp (ranked ge) S" "set (map slot_value xs) \<subseteq> S"
    and keeps: "\<And>x y s. fst s \<and> fst (snd s) = a \<Longrightarrow> fst (snd (cmp x y s)) \<and> fst (snd (snd (cmp x y s))) = a"
    and holes: "\<forall>v. Some v \<in> set xs \<longrightarrow> v \<noteq> JSVAL_HOLE"
  shows "\<exists>ys a' w'. array_sort env True to_str chars arg (a, w) = Some (True, a', w')
    \<and> repr a' (map Some ys @ replicate (length xs - length ys) None)
    \<and> mset ys = mset (present xs) \<and> sorted_wrt (\<lambda>x y. ranked ge y x) ys"
proof -
  let ?I = "\<lambda>s :: 'b sort_state. fst s \<and> fst (snd s) = a"
  have I: "?I (True, a, w)" "?I s \<Longrightarrow> ?I (snd (cmp x y s))" "?I s \<Longrightarrow> fst s \<and> (\<exists>zs. repr (fst (snd s)) zs)" for x y s
    using keeps[of s x y] assms(1) by auto
  obtain ys zs b w' a' where *: "array_sort env True to_str chars arg (a, w) = Some (True, a', w')" "b = a" "repr b zs"
    "repr a' (map Some ys @ replicate (min (length xs) (length zs) - length ys) None @ drop (length xs) zs)"
    "mset ys = mset (present xs)" "sorted_wrt (\<lambda>x y. ranked ge y x) ys"
    using array_sort_run[OF assms(1-4) cmp consistent I holes] by auto
  have "length zs = length xs" using repr_length[OF *(3)] repr_length[OF assms(1)] unfolding *(2) by metis
  then show ?thesis using * by auto
qed

lemma string_rank: "JSVAL_TAG v = JSVAL_STRING \<Longrightarrow> rank v = 0"
proof -
  have "JSVAL_TAG JSVAL_HOLE \<noteq> JSVAL_STRING" "JSVAL_TAG JSVAL_VOID \<noteq> JSVAL_STRING" by code_simp+
  then show "JSVAL_TAG v = JSVAL_STRING \<Longrightarrow> rank v = 0" by (auto simp: rank_def)
qed

lemma slot_value_ranked: "v \<in> set (map slot_value xs) \<Longrightarrow> rank v = 0 \<Longrightarrow> Some v \<in> set xs"
  by (auto simp: slot_value_def rank_def split: option.splits if_splits)

lemma ranked_sorted:
  assumes "sorted_wrt (\<lambda>x y. ranked ge y x) ys" "\<forall>v\<in>set ys. v \<noteq> JSVAL_HOLE"
  shows "sorted_wrt (\<lambda>x y. y = JSVAL_VOID \<or> x \<noteq> JSVAL_VOID \<and> ge y x) ys"
  by (rule sorted_wrt_mono_rel[OF _ assms(1)]) (use assms(2) in \<open>auto simp: ranked_def rank_def split: if_splits\<close>)

text \<open>
  C27: Without a compare function, \<open>sort\<close> puts the defined elements of an array in the order of their
  strings, the undefined ones after them and the holes last; nothing is lost or added.
\<close>

theorem array_sort_orders:
  fixes to_str :: "'w to_string"
  assumes "repr a xs" "ids_fit env (length xs)" "xs \<noteq> []"
    and strings: "\<And>v. Some v \<in> set xs \<Longrightarrow> v \<noteq> JSVAL_HOLE \<and> short (str v)"
    and to_str: "\<And>v st. to_str v st = (Some (str v), st)"
    and chars: "\<And>v. Some v \<in> set xs \<Longrightarrow> JSVAL_TAG v = JSVAL_STRING \<Longrightarrow> chars v = str v"
  shows "\<exists>ys a' w'. array_sort env True to_str chars No_Argument (a, w) = Some (True, a', w')
    \<and> repr a' (map Some ys @ replicate (length xs - length ys) None)
    \<and> mset ys = mset (present xs)
    \<and> sorted_wrt (\<lambda>x y. y = JSVAL_VOID \<or> x \<noteq> JSVAL_VOID \<and> str x \<le> str y) ys"
proof -
  let ?S = "set (map slot_value xs)" and ?ge = "\<lambda>x y. str y \<le> str x"
  define cmp :: "(jsval, 'w sort_state) comparator"
    where "cmp = (if list_all string_slot xs then sort_compare_strings chars else sort_compare to_str None)"
  have "consistent_comparator (sort_compare to_str None) (ranked ?ge) ?S"
  proof (rule sort_compare_consistent)
    fix x y s assume xy: "x \<in> ?S" "y \<in> ?S" "rank x = 0" "rank y = 0"
    then have "Some x \<in> set xs" "Some y \<in> set xs" using slot_value_ranked by blast+
    then show "if fst (sort_compare to_str None x y s) < 0 then str x \<le> str y else str y \<le> str x"
      using xy(3,4) to_str strings hole_void_null
      by (cases s) (auto simp: sort_compare_def rank_0 Let_def js_CompareStrings_order js_CompareStrings_nonnegative not_less)
  qed auto
  moreover have "consistent_comparator (sort_compare_strings chars :: (jsval, 'w sort_state) comparator) (ranked ?ge) ?S" if "list_all string_slot xs"
  proof -
    have "rank v = 0 \<and> chars v = str v \<and> short (str v)" if "v \<in> ?S" for v
      using that \<open>list_all string_slot xs\<close> chars strings string_rank
      by (auto simp: list_all_iff string_slot_def slot_value_def split: option.splits)
    then show ?thesis
      by unfold_locales
        (auto simp: sort_compare_strings_def ranked_def js_CompareStrings_order js_CompareStrings_nonnegative intro: order_trans)
  qed
  ultimately have consistent: "consistent_comparator cmp (ranked ?ge) ?S" by (simp add: cmp_def)
  have cmp: "cmp = (if (No_Argument :: 'w sort_arg) = No_Argument \<and> list_all string_slot xs then sort_compare_strings chars
      else sort_compare to_str (case No_Argument of Function_Argument f \<Rightarrow> Some f | _ \<Rightarrow> None))" by (simp add: cmp_def)
  have keeps: "fst (snd (cmp x y s)) \<and> fst (snd (snd (cmp x y s))) = a" if "fst s \<and> fst (snd s) = a" for x y s
    using that by (cases s) (auto simp: cmp_def sort_compare_strings_def sort_compare_def to_str Let_def)
  obtain ys a' w' where *: "array_sort env True to_str chars No_Argument (a, w) = Some (True, a', w')"
    "repr a' (map Some ys @ replicate (length xs - length ys) None)"
    "mset ys = mset (present xs)" "sorted_wrt (\<lambda>x y. ranked ?ge y x) ys"
    using array_sort_with[OF assms(1-3) _ cmp consistent order_refl keeps, of w] strings by blast
  have "\<forall>v\<in>set ys. v \<noteq> JSVAL_HOLE"
    using mset_eq_setD[OF *(3)] strings by (auto simp: present_def map_filter_def)
  then have "sorted_wrt (\<lambda>x y. y = JSVAL_VOID \<or> x \<noteq> JSVAL_VOID \<and> str x \<le> str y) ys"
    by (rule ranked_sorted[OF *(4)])
  then show ?thesis using * by blast
qed

text \<open>
  C28: With a compare function that always returns a number, \<open>sort\<close> permutes the elements that the
  array had at the start, the undefined ones after the others and the holes last, whatever the
  function answers and whatever it does to the array meanwhile; if its answers are consistent with a
  transitive relation, the others are in that order. If the calls leave the array with the elements
  \<open>zs\<close>, the sorted elements replace the first of these, the rest is deleted up to the old length,
  and what lies beyond it stays. \<open>I\<close> is any property of the array and the world that the function
  keeps: that it leaves the array alone, or only that there is one.
\<close>

theorem array_sort_any_function:
  fixes f :: "'w compare_function"
  assumes "repr a xs" "ids_fit env (length xs)" "xs \<noteq> []" "\<And>v. Some v \<in> set xs \<Longrightarrow> v \<noteq> JSVAL_HOLE"
    and transitive: "\<And>x y z. ge x y \<Longrightarrow> ge y z \<Longrightarrow> ge x z"
    and I: "I (a, w)" "\<And>st. I st \<Longrightarrow> \<exists>zs. repr (fst st) zs"
    and f: "\<And>x y st. \<exists>d st'. f x y st = (Some d, st') \<and> (I st \<longrightarrow> I st') \<and> (if clamp_cmp d < 0 then ge y x else ge x y)"
  shows "\<exists>ys zs b w' a'. array_sort env True to_str chars (Function_Argument f) (a, w) = Some (True, a', w')
    \<and> I (b, w') \<and> repr b zs
    \<and> repr a' (map Some ys @ replicate (min (length xs) (length zs) - length ys) None @ drop (length xs) zs)
    \<and> mset ys = mset (present xs)
    \<and> sorted_wrt (\<lambda>x y. y = JSVAL_VOID \<or> x \<noteq> JSVAL_VOID \<and> ge y x) ys"
proof -
  let ?cmp = "sort_compare to_str (Some f)" and ?I = "\<lambda>s. fst s \<and> I (snd s)"
  have consistent: "consistent_comparator ?cmp (ranked ge) UNIV"
  proof (rule sort_compare_consistent)
    fix x y and s :: "'w sort_state" assume xy: "rank x = 0" "rank y = 0"
    obtain d st where "f x y (snd s) = (Some d, st)" "if clamp_cmp d < 0 then ge y x else ge x y" using f by blast
    then show "if fst (?cmp x y s) < 0 then ge y x else ge x y"
      using xy by (cases s) (auto simp: sort_compare_def rank_0 Let_def)
  qed (use transitive in blast)
  have keeps: "?I (snd (?cmp x y s))" if "?I s" for x y s
  proof -
    obtain d st where "f x y (snd s) = (Some d, st)" "I (snd s) \<longrightarrow> I st" using f by blast
    then show ?thesis using that by (cases s) (simp add: sort_compare_def Let_def)
  qed
  obtain ys zs b w' a' where *: "array_sort env True to_str chars (Function_Argument f) (a, w) = Some (True, a', w')"
    "I (b, w')" "repr b zs"
    "repr a' (map Some ys @ replicate (min (length xs) (length zs) - length ys) None @ drop (length xs) zs)"
    "mset ys = mset (present xs)" "sorted_wrt (\<lambda>x y. ranked ge y x) ys"
    using array_sort_run[OF assms(1-3), of "Function_Argument f" ?cmp chars to_str ge UNIV ?I w] consistent keeps I assms(4)
    by auto
  have "\<forall>v\<in>set ys. v \<noteq> JSVAL_HOLE"
    using mset_eq_setD[OF *(5)] assms(4) by (auto simp: present_def map_filter_def)
  then have "sorted_wrt (\<lambda>x y. y = JSVAL_VOID \<or> x \<noteq> JSVAL_VOID \<and> ge y x) ys"
    by (rule ranked_sorted[OF *(6)])
  then show ?thesis using * by blast
qed

definition mixed_array :: "jsval option list" where "mixed_array = [Some 12, None, Some JSVAL_VOID, Some 4]"

lemma mixed_array_facts:
  "repr (array_of mixed_array) mixed_array" "mixed_array \<noteq> []" "Some v \<in> set mixed_array \<Longrightarrow> v \<noteq> JSVAL_HOLE"
proof -
  have "12 \<noteq> JSVAL_HOLE" "JSVAL_VOID \<noteq> JSVAL_HOLE" "4 \<noteq> JSVAL_HOLE" by code_simp+
  then show "Some v \<in> set mixed_array \<Longrightarrow> v \<noteq> JSVAL_HOLE" by (auto simp: mixed_array_def)
qed (auto simp: mixed_array_def intro: repr_array_of)

theorem array_sort_orders_witness:
  "\<exists>ys a' w'. array_sort roomy True (\<lambda>v st. (Some [ucast v], st)) (\<lambda>v. [ucast v]) No_Argument (array_of mixed_array, ())
      = Some (True, a', w')
    \<and> repr a' (map Some ys @ replicate (length mixed_array - length ys) None) \<and> mset ys = mset (present mixed_array)
    \<and> sorted_wrt (\<lambda>x y. y = JSVAL_VOID \<or> x \<noteq> JSVAL_VOID \<and> [ucast x :: u16] \<le> [ucast y]) ys"
  by (rule array_sort_orders[OF mixed_array_facts(1) ids_fit_roomy mixed_array_facts(2)])
    (simp_all add: mixed_array_facts(3) short_def)

text \<open>A compare function that empties the array, and counts its calls.\<close>

theorem array_sort_any_function_witness:
  "\<exists>ys zs b w' a'. array_sort roomy True (\<lambda>v st. (None, st)) (\<lambda>_. [])
      (Function_Argument (\<lambda>x y st. (Some (Fin 1), array_of [], Suc (snd st)))) (array_of mixed_array, 0) = Some (True, a', w')
    \<and> (\<exists>us. repr b us) \<and> repr b zs
    \<and> repr a' (map Some ys @ replicate (min (length mixed_array) (length zs) - length ys) None @ drop (length mixed_array) zs)
    \<and> mset ys = mset (present mixed_array)
    \<and> sorted_wrt (\<lambda>x y. y = JSVAL_VOID \<or> x \<noteq> JSVAL_VOID \<and> True) ys"
  using array_sort_any_function[OF mixed_array_facts(1) ids_fit_roomy mixed_array_facts(2,3),
      where I = "\<lambda>st. \<exists>us. repr (fst st) us" and ge = "\<lambda>_ _. True" and w = 0
        and f = "\<lambda>x y st. (Some (Fin 1), array_of [], Suc (snd st))" and to_str = "\<lambda>v st. (None, st)" and chars = "\<lambda>_. []"]
    mixed_array_facts(1) repr_array_of[of "[]"] by auto

end
