(* ===== verification/JS_ArraySafety.thy ===== *)
theory JS_ArraySafety
  imports JS_ArraySort
begin

text \<open>
  What scripts can do with an array, as a relation, and the invariant of arrays: the length is above
  every index, whatever the methods and the setter of the length do. The greatest
  32-bit number is not an index.
\<close>

definition indices_below :: "js_array \<Rightarrow> bool" where
  "indices_below a \<longleftrightarrow> (\<forall>i. elems a i \<noteq> None \<longrightarrow> i = - 1 \<or> i < length_of a)"

text \<open>Arrays that scripts can make and change, with compare functions that leave the array alone.\<close>

inductive scripted :: "array_env \<Rightarrow> 'w to_string \<Rightarrow> js_array \<Rightarrow> bool"
  for env and to_str :: "'w to_string" where
  new: "js_NewArrayObject env len vector = Some a \<Longrightarrow> scripted env to_str a"
| assign: "scripted env to_str a \<Longrightarrow> set_property env i v a = Some a' \<Longrightarrow> scripted env to_str a'"
| remove: "scripted env to_str a \<Longrightarrow> scripted env to_str (delete_property i a)"
| resize: "scripted env to_str a \<Longrightarrow> array_length_setter env len a = Some a' \<Longrightarrow> scripted env to_str a'"
| push: "scripted env to_str a \<Longrightarrow> array_push env argv a = Some (r, a') \<Longrightarrow> scripted env to_str a'"
| pop: "scripted env to_str a \<Longrightarrow> array_pop env a = Some (v, a') \<Longrightarrow> scripted env to_str a'"
| shift: "scripted env to_str a \<Longrightarrow> array_shift env a = Some (v, a') \<Longrightarrow> scripted env to_str a'"
| unshift: "scripted env to_str a \<Longrightarrow> array_unshift env argv a = Some (n, a') \<Longrightarrow> scripted env to_str a'"
| splice: "scripted env to_str a \<Longrightarrow> array_splice env nums argv a = Some (s, a') \<Longrightarrow> scripted env to_str a'"
| spliced: "scripted env to_str a \<Longrightarrow> array_splice env nums argv a = Some (S_Array out, a') \<Longrightarrow> scripted env to_str out"
| slice: "scripted env to_str a \<Longrightarrow> array_slice env nums a = Some out \<Longrightarrow> scripted env to_str out"
| concat: "array_concat env args = Some out \<Longrightarrow> scripted env to_str out"
| reverse: "scripted env to_str a \<Longrightarrow> array_reverse env a = Some a' \<Longrightarrow> scripted env to_str a'"
| sort: "scripted env to_str a \<Longrightarrow> array_sort env vec_ok to_str chars arg (a, w) = Some (ok, a', w') \<Longrightarrow>
    (\<And>v st. fst (snd (to_str v st)) = fst st) \<Longrightarrow>
    (\<And>f x y st. arg = Function_Argument f \<Longrightarrow> fst (snd (f x y st)) = fst st) \<Longrightarrow>
    scripted env to_str a'"

section \<open>Every step keeps the invariant\<close>

lemma for_each_keeps:
  "for_each body is a = Some a' \<Longrightarrow> (\<And>i a a'. body i a = Some a' \<Longrightarrow> P a \<Longrightarrow> P a') \<Longrightarrow> P a \<Longrightarrow> P a'"
proof (induction "is" arbitrary: a)
  case (Cons i "is")
  from Cons.prems(1) obtain a1 where a1: "body i a = Some a1" "for_each body is a1 = Some a'" by (auto split: Option.bind_splits)
  from Cons.IH[OF a1(2)] Cons.prems(2)[OF a1(1)] Cons.prems(2,3) show ?case by blast
qed simp

lemma below_delete: "indices_below a \<Longrightarrow> indices_below (delete_property i a)"
  by (auto simp: indices_below_def delete_property_def)

lemma deleted_all:
  "for_each (\<lambda>slot a. do { id2 \<leftarrow> IndexToId env slot; Some (delete_property id2 a) }) is a = Some a' \<Longrightarrow>
    a' = a\<lparr>elems := elems a |` (- set is)\<rparr>"
proof (induction "is" arbitrary: a)
  case (Cons i "is")
  then have "IndexToId env i = Some i" by (auto simp: IndexToId_def split: Option.bind_splits if_splits)
  then have "for_each (\<lambda>slot a. do { id2 \<leftarrow> IndexToId env slot; Some (delete_property id2 a) }) is (delete_property i a) = Some a'"
    using Cons.prems by simp
  from Cons.IH[OF this] show ?case by (simp add: delete_property_def restrict_map_def fun_eq_iff)
qed (simp add: restrict_map_def)

lemma set_down: "set (down b a) = {i. a \<le> i \<and> i < b}"
proof (rule set_eqI, rule iffI)
  fix i :: u32 assume "i \<in> set (down b a)"
  then obtain n where n: "i = of_nat n" "unat a \<le> n" "n < unat b" by (auto simp: down_def up_def)
  moreover have "unat b < 2 ^ 32" using unsigned_less[of b] by simp
  ultimately show "i \<in> {i. a \<le> i \<and> i < b}" by (simp add: word_le_nat_alt word_less_nat_alt unat_of_nat_32)
next
  fix i :: u32 assume "i \<in> {i. a \<le> i \<and> i < b}"
  then have "unat i \<in> {unat a..<unat b}" by (simp add: word_le_nat_alt word_less_nat_alt)
  then have "(of_nat (unat i) :: u32) \<in> of_nat ` {unat a..<unat b}" by (rule imageI)
  then show "i \<in> set (down b a)" by (simp add: down_def up_def)
qed

text \<open>The setter needs less than the invariant: what is beyond the old length must be below the new one.\<close>

lemma below_resize:
  assumes "array_length_setter env n a = Some a'" "\<forall>i. elems a i \<noteq> None \<longrightarrow> i = - 1 \<or> i < length_of a \<or> i < n"
  shows "indices_below a'"
proof -
  obtain a1 where a1: "for_each (\<lambda>slot a. do { id2 \<leftarrow> IndexToId env slot; Some (delete_property id2 a) }) (down (length_of a) n) a = Some a1"
    "a' = a1\<lparr>length_of := n\<rparr>"
    using assms(1) by (auto simp: array_length_setter_def IndexToValue_def split: Option.bind_splits if_splits)
  have "elems a' i \<noteq> None \<longrightarrow> i = - 1 \<or> i < n" for i
    using assms(2) unfolding a1(2) deleted_all[OF a1(1)] by (auto simp: restrict_map_def set_down not_le)
  then show ?thesis using a1(2) by (simp add: indices_below_def)
qed

lemma set_length_setter: "js_SetLengthProperty env n a = Some a' \<Longrightarrow> array_length_setter env n a = Some a'"
  by (simp add: js_SetLengthProperty_def IndexToValue_def split: if_splits)

lemma below_set_length: "js_SetLengthProperty env n a = Some a' \<Longrightarrow> indices_below a \<Longrightarrow> indices_below a'"
  by (rule below_resize[OF set_length_setter]) (auto simp: indices_below_def)

lemma index_below_next: "i \<noteq> - 1 \<Longrightarrow> i < i + 1" for i :: u32
proof -
  assume "i \<noteq> - 1"
  then have "unat i \<noteq> unat (- 1 :: u32)" unfolding word_unat_eq_iff[symmetric] .
  moreover have "unat (- 1 :: u32) = 2 ^ 32 - 1" by (simp add: unsigned_minus_1_eq_mask mask_eq_exp_minus_1)
  moreover have "unat i < 2 ^ 32" using unsigned_less[of i] by simp
  ultimately have "unat i + unat (1 :: u32) < 2 ^ 32" by simp
  then have "unat (i + 1) = unat i + 1" using unat_add_exact[of i 1] by simp
  then show ?thesis by (simp add: word_less_nat_alt)
qed

lemma below_set: 
  assumes "set_property env i v a = Some a'" "indices_below a"
  shows "indices_below a'"
proof -
  let ?a = "a\<lparr>elems := (elems a)(i \<mapsto> v)\<rparr>"
  consider "elems a i \<noteq> None" | "elems a i = None" "i = - 1" | "elems a i = None" "i \<noteq> - 1" "i < length_of a"
    | "elems a i = None" "i \<noteq> - 1" "\<not> i < length_of a" by blast
  then show ?thesis
  proof cases
    case 1
    then have "a' = ?a" using assms(1) by (auto simp: set_property_def Let_def)
    then show ?thesis using assms(2) 1 by (simp add: indices_below_def)
  next
    case 2
    then have "a' = ?a" using assms(1) by (simp add: set_property_def array_addProperty_def Let_def)
    then show ?thesis using assms(2) 2 by (auto simp: indices_below_def)
  next
    case 3
    then have "a' = ?a" using assms(1) by (auto simp: set_property_def array_addProperty_def Let_def split: if_splits)
    then show ?thesis using assms(2) 3 by (simp add: indices_below_def)
  next
    case 4
    then have "js_SetLengthProperty env (i + 1) ?a = Some a'"
      using assms(1) by (simp add: set_property_def array_addProperty_def Let_def not_less)
    note resize = below_resize[OF set_length_setter[OF this]]
    show ?thesis
    proof (rule resize)
      show "\<forall>j. elems ?a j \<noteq> None \<longrightarrow> j = - 1 \<or> j < length_of ?a \<or> j < i + 1"
        using assms(2) index_below_next[OF 4(2)] by (auto simp: indices_below_def)
    qed
  qed
qed

lemmas below_steps = below_delete below_set below_set_length

lemma below_move: "move_slot env i j a = Some a' \<Longrightarrow> indices_below a \<Longrightarrow> indices_below a'"
  by (auto simp: move_slot_def intro: below_steps split: Option.bind_splits option.splits)

lemma below_copy: "copy_slot env src i j a = Some a' \<Longrightarrow> indices_below a \<Longrightarrow> indices_below a'"
  by (auto simp: copy_slot_def intro: below_steps split: Option.bind_splits option.splits)

lemma below_swap: "swap_slots env i j a = Some a' \<Longrightarrow> indices_below a \<Longrightarrow> indices_below a'"
  by (auto simp: swap_slots_def Let_def intro: below_steps split: Option.bind_splits option.splits)

lemma below_row:
  "for_each (\<lambda>(i, v) a. do { id \<leftarrow> IndexToId env (b i); set_property env id v a }) is a = Some a' \<Longrightarrow> indices_below a \<Longrightarrow> indices_below a'"
  by (rule for_each_keeps[where P = indices_below]) (auto intro: below_steps split: Option.bind_splits)

lemma below_loop:
  "for_each (\<lambda>i. move_slot env (b i) (c i)) is a = Some a' \<Longrightarrow> indices_below a \<Longrightarrow> indices_below a'"
  "for_each (\<lambda>i. copy_slot env src (b i) (c i)) is a = Some a' \<Longrightarrow> indices_below a \<Longrightarrow> indices_below a'"
  "for_each (\<lambda>i. swap_slots env (b i) (c i)) is a = Some a' \<Longrightarrow> indices_below a \<Longrightarrow> indices_below a'"
  "for_each (\<lambda>i a. do { id \<leftarrow> IndexToId env i; Some (delete_property id a) }) is a = Some a' \<Longrightarrow> indices_below a \<Longrightarrow> indices_below a'"
  by (erule for_each_keeps[where P = indices_below]; auto intro: below_move below_copy below_swap below_delete split: Option.bind_splits)+

lemma below_init: "InitArrayElements env vec a = Some a' \<Longrightarrow> indices_below a \<Longrightarrow> indices_below a'"
  unfolding InitArrayElements_def by (rule below_row)

lemma below_new: "js_NewArrayObject env len vec = Some a \<Longrightarrow> indices_below a"
proof -
  assume new: "js_NewArrayObject env len vec = Some a"
  have empty: "indices_below \<lparr>length_of = len, elems = Map.empty\<rparr>" by (simp add: indices_below_def)
  show ?thesis
  proof (cases vec)
    case None
    then show ?thesis using new empty by (auto simp: js_NewArrayObject_def IndexToValue_def split: if_splits)
  next
    case (Some vector)
    then show ?thesis using new below_init[OF _ empty, of env vector a]
      by (auto simp: js_NewArrayObject_def IndexToValue_def split: if_splits)
  qed
qed

lemma below_push: "array_push env argv a = Some (r, a') \<Longrightarrow> indices_below a \<Longrightarrow> indices_below a'"
proof -
  assume push: "array_push env argv a = Some (r, a')" and "indices_below a"
  from push obtain a1 where a1: "for_each (\<lambda>(i, v) a'. do { id \<leftarrow> IndexToId env (length_of a + i); set_property env id v a' })
      (zip (map of_nat [0..<length argv]) argv) a = Some a1"
    "js_SetLengthProperty env (length_of a + of_nat (length argv)) a1 = Some a'"
    unfolding array_push_def Let_def by (auto split: Option.bind_splits)
  from below_set_length[OF a1(2) below_row[OF a1(1) \<open>indices_below a\<close>]] show "indices_below a'" .
qed

lemma below_pop: "array_pop env a = Some (v, a') \<Longrightarrow> indices_below a \<Longrightarrow> indices_below a'"
proof -
  assume pop: "array_pop env a = Some (v, a')" and "indices_below a"
  then consider i n where "js_SetLengthProperty env n (delete_property i a) = Some a'" | n where "js_SetLengthProperty env n a = Some a'"
    unfolding array_pop_def Let_def by (auto split: Option.bind_splits if_splits)
  then show "indices_below a'" using below_set_length below_delete \<open>indices_below a\<close> by cases blast+
qed

lemma below_shift: "array_shift env a = Some (v, a') \<Longrightarrow> indices_below a \<Longrightarrow> indices_below a'"
proof -
  assume shift: "array_shift env a = Some (v, a')" and a: "indices_below a"
  show "indices_below a'"
  proof (cases "0 < length_of a")
    case True
    from shift True obtain a1 i n where a1: "for_each (\<lambda>i a. do {
             id \<leftarrow> IndexToId env i;
             let v = get_property a id;
             id2 \<leftarrow> IndexToId env (i - 1);
             set_property env id2 v a }) (map of_nat [1..<Suc (unat (length_of a - 1))]) a = Some a1"
      "js_SetLengthProperty env n (delete_property i a1) = Some a'"
      unfolding array_shift_def Let_def by (auto simp del: upt_Suc split: Option.bind_splits)
    have "indices_below a1"
      by (rule for_each_keeps[OF a1(1), where P = indices_below]) (auto simp: Let_def intro: below_set a split: Option.bind_splits)
    then show ?thesis using below_set_length[OF a1(2)] below_delete by blast
  next
    case False
    then show ?thesis using shift a below_set_length unfolding array_shift_def Let_def by (auto split: Option.bind_splits)
  qed
qed

lemma below_unshift: "array_unshift env argv a = Some (n, a') \<Longrightarrow> indices_below a \<Longrightarrow> indices_below a'"
proof -
  assume unshift: "array_unshift env argv a = Some (n, a')" and a: "indices_below a"
  show "indices_below a'"
  proof (cases "argv = []")
    case True
    then show ?thesis using unshift a unfolding array_unshift_def Let_def by (auto split: Option.bind_splits)
  next
    case False
    from unshift False obtain a1 a2 m where
      a1: "for_each (\<lambda>last. move_slot env last (last + of_nat (length argv))) (down (length_of a) 0) a = Some a1"
        "for_each (\<lambda>(i, v) a. do { id \<leftarrow> IndexToId env i; set_property env id v a }) (zip (map of_nat [0..<length argv]) argv) a1 = Some a2"
        "js_SetLengthProperty env m a2 = Some a'"
      unfolding array_unshift_def Let_def by (auto split: Option.bind_splits)
    from below_set_length[OF a1(3) below_row[OF a1(2) below_loop(1)[OF a1(1) a]]] show ?thesis .
  qed
qed

lemma below_removed: "splice_removed env b c a = Some (S_Array out) \<Longrightarrow> indices_below out"
proof -
  assume removed: "splice_removed env b c a = Some (S_Array out)"
  then obtain o1 where new: "js_NewArrayObject env 0 None = Some o1"
    unfolding splice_removed_def Let_def by (auto split: if_splits Option.bind_splits)
  from removed new consider "out = o1"
    | o2 n where "for_each (\<lambda>last. copy_slot env a last (last - b)) (up b (b + c)) o1 = Some o2" "js_SetLengthProperty env n o2 = Some out"
    unfolding splice_removed_def Let_def by (auto split: if_splits Option.bind_splits)
  then show ?thesis
  proof cases
    case 2
    from below_set_length[OF 2(2) below_loop(2)[OF 2(1) below_new[OF new]]] show ?thesis .
  qed (simp add: below_new[OF new])
qed

lemma below_splice:
  assumes "array_splice env nums argv a = Some (s, a')" "indices_below a"
  shows "indices_below a'" "s = S_Array out \<Longrightarrow> indices_below out"
proof -
  have "indices_below a' \<and> (s = S_Array out \<longrightarrow> indices_below out)"
  proof (cases nums)
    case Nil
    then show ?thesis using assms by (auto simp: array_splice_def)
  next
    case (Cons d rest)
    from assms(1) Cons obtain b c m len a1 a2 where
      r: "splice_removed env b c a = Some s" and
      a1: "splice_moved env m c (b + c) a = Some (len, a1)"
        "for_each (\<lambda>(i, v) a. do { id \<leftarrow> IndexToId env (b + i); set_property env id v a }) (zip (map of_nat [0..<length argv]) argv) a1 = Some a2"
        "js_SetLengthProperty env len a2 = Some a'"
      unfolding array_splice_def Let_def list.case by (auto split: Option.bind_splits)
    have "indices_below a1"
      using a1(1) assms(2) below_loop(1)[of env] unfolding splice_moved_def Let_def
      by (auto split: if_splits Option.bind_splits)
    then have "indices_below a'" using below_set_length[OF a1(3)] below_row[OF a1(2)] by blast
    moreover have "indices_below out" if "s = S_Array out" using r unfolding that by (rule below_removed)
    ultimately show ?thesis by blast
  qed
  then show "indices_below a'" "s = S_Array out \<Longrightarrow> indices_below out" by blast+
qed

lemma below_slice: "array_slice env nums a = Some out \<Longrightarrow> indices_below out"
proof -
  assume slice: "array_slice env nums a = Some out"
  then obtain o1 o2 b slots n where "js_NewArrayObject env 0 None = Some o1"
    "for_each (\<lambda>slot. copy_slot env a slot (slot - b)) slots o1 = Some o2" "js_SetLengthProperty env n o2 = Some out"
    unfolding array_slice_def Let_def by (auto split: Option.bind_splits)
  from below_set_length[OF this(3) below_loop(2)[OF this(2) below_new[OF this(1)]]] show ?thesis .
qed

lemma below_concat: "array_concat env args = Some out \<Longrightarrow> indices_below out"
proof -
  assume concat: "array_concat env args = Some out"
  then obtain o1 o2 n m where new: "js_NewArrayObject env 0 None = Some o1"
    "for_each (concat_step env) args (0, o1) = Some (m, o2)" "js_SetLengthProperty env n o2 = Some out"
    unfolding array_concat_def by (auto split: Option.bind_splits)
  have "indices_below (snd (l', a'))" if "concat_step env x (l, a) = Some (l', a')" "indices_below (snd (l, a))" for x l a l' a'
    using that below_loop(2) by (cases x) (auto simp: Let_def split: Option.bind_splits intro: below_set)
  then have "indices_below (snd (m, o2))"
    by (intro for_each_keeps[OF new(2), where P = "\<lambda>s. indices_below (snd s)"]) (auto simp: below_new[OF new(1)])
  then show ?thesis using below_set_length[OF new(3)] by simp
qed

lemma below_reverse: "array_reverse env a = Some a' \<Longrightarrow> indices_below a \<Longrightarrow> indices_below a'"
  unfolding array_reverse_def Let_def by (rule below_loop(3))

lemma below_store: "sort_store env len newlen vec a = Some a' \<Longrightarrow> indices_below a \<Longrightarrow> indices_below a'"
  unfolding sort_store_def using below_init below_loop(4) by (auto split: Option.bind_splits)

lemma compare_keeps:
  assumes "\<And>v st. fst (snd (to_str v st)) = fst st" "\<And>f x y st. fval = Some f \<Longrightarrow> fst (snd (f x y st)) = fst st"
    "fst (snd s) = a"
  shows "fst (snd (snd (sort_compare to_str fval x y s))) = a"
proof -
  obtain status w where s: "s = (status, a, w)" using assms(3) by (cases s) auto
  have str: "to_str v (a, w) = (r, a', w') \<Longrightarrow> a' = a" for v w r a' w' using assms(1)[of v "(a, w)"] by simp
  have fn: "fval = Some f \<Longrightarrow> f v v' (a, w) = (r, a', w') \<Longrightarrow> a' = a" for f v v' w r a' w'
    using assms(2)[of f v v' "(a, w)"] by simp
  show ?thesis
  proof (cases fval)
    case None
    obtain r a1 w1 where x: "to_str x (a, w) = (r, a1, w1)" by (cases "to_str x (a, w)") auto
    obtain r' a2 w2 where y: "to_str y (a, w1) = (r', a2, w2)" by (cases "to_str y (a, w1)") auto
    have "a1 = a" "a2 = a" using str x y by blast+
    then show ?thesis using x y None by (simp add: s sort_compare_def Let_def split: option.split)
  next
    case (Some f)
    obtain r a1 w1 where x: "f x y (a, w) = (r, a1, w1)" by (cases "f x y (a, w)") auto
    have "a1 = a" using fn[OF Some x] .
    then show ?thesis using x Some by (simp add: s sort_compare_def Let_def split: option.split)
  qed
qed

lemma below_sort:
  assumes sort: "array_sort env vec_ok to_str chars arg (a, w) = Some (ok, a', w')" and a: "indices_below a"
    and keeps: "\<And>v st. fst (snd (to_str v st)) = fst st"
      "\<And>f x y st. arg = Function_Argument f \<Longrightarrow> fst (snd (f x y st)) = fst st"
  shows "indices_below a'"
proof -
  define fval where "fval = (case arg of Function_Argument f \<Rightarrow> Some f | _ \<Rightarrow> None)"
  have run: "a' = a \<or> (\<exists>cmp newlen vec vec' status st. js_HeapSort cmp (unat (length_of a)) vec (True, a, w) = Some (vec', status, st)
    \<and> (cmp = sort_compare_strings chars \<or> cmp = sort_compare to_str fval)
    \<and> (a' = fst st \<or> sort_store env (length_of a) newlen vec' (fst st) = Some a'))"
  proof (cases "arg = Primitive_Argument \<or> length_of a = 0 \<or> \<not> vec_ok")
    case True
    then show ?thesis using sort by (cases arg) (auto simp: array_sort_def Let_def split: if_splits)
  next
    case False
    define C where "C = (\<lambda>all_strings. if all_strings then sort_compare_strings chars else sort_compare to_str fval)"
    from False have "do {
        (newlen, all_strings, vec) \<leftarrow> sort_fill env a (fval = None);
        (vec, status, st) \<leftarrow> js_HeapSort (C all_strings) (unat (length_of a)) vec (True, a, w);
        if status
        then do { a \<leftarrow> sort_store env (length_of a) newlen vec (fst st); Some (True, a, snd st) }
        else Some (False, st) } = Some (ok, a', w')"
      using sort unfolding fval_def C_def by (cases arg) (simp_all add: array_sort_def Let_def cong: if_cong)
    then obtain newlen all_strings vec vec' status st where
      h: "js_HeapSort (C all_strings) (unat (length_of a)) vec (True, a, w) = Some (vec', status, st)"
      "a' = fst st \<or> sort_store env (length_of a) newlen vec' (fst st) = Some a'"
      by (auto simp: bind_eq_Some_conv split: if_splits) blast
    have "C all_strings = sort_compare_strings chars \<or> C all_strings = sort_compare to_str fval" by (simp add: C_def)
    with h show ?thesis by blast
  qed
  have steps: "fst (snd s) = a \<Longrightarrow> fst (snd (snd (sort_compare_strings chars x y s))) = a"
    "fst (snd s) = a \<Longrightarrow> fst (snd (snd (sort_compare to_str fval x y s))) = a" for x y s
    by (simp add: sort_compare_strings_def)
      (rule compare_keeps[of to_str fval], auto simp: fval_def keeps split: sort_arg.splits)
  from run show ?thesis
  proof
    assume "\<exists>cmp newlen vec vec' status st. js_HeapSort cmp (unat (length_of a)) vec (True, a, w) = Some (vec', status, st)
      \<and> (cmp = sort_compare_strings chars \<or> cmp = sort_compare to_str fval)
      \<and> (a' = fst st \<or> sort_store env (length_of a) newlen vec' (fst st) = Some a')"
    then obtain cmp newlen vec vec' status st where
      sorted: "js_HeapSort cmp (unat (length_of a)) vec (True, a, w) = Some (vec', status, st)"
      and cmp: "cmp = sort_compare_strings chars \<or> cmp = sort_compare to_str fval"
      and result: "a' = fst st \<or> sort_store env (length_of a) newlen vec' (fst st) = Some a'" by (elim exE conjE) (rule that)
    have "fst (snd (status, st)) = a"
      by (rule heap_sort_keeps[OF _ sorted, where P = "\<lambda>s. fst (snd s) = a"]) (use cmp steps in auto)
    then show ?thesis using result a below_store by auto
  qed (simp add: a)
qed

lemma scripted_below: "scripted env to_str a \<Longrightarrow> indices_below a"
proof (induction rule: scripted.induct)
  case (sort a vec_ok chars arg w ok a' w')
  show ?case by (rule below_sort[OF sort.hyps(2) sort.IH]) (simp_all add: sort.hyps(3,4))
next
  case (spliced a nums argv out a')
  show ?case using below_splice(2)[OF spliced.hyps(2) spliced.IH] by simp
next
  case (resize a len a')
  then show ?case using below_resize[OF resize.hyps(2)] by (auto simp: indices_below_def)
qed (fact below_new below_delete | (erule below_new below_set below_push below_pop below_shift below_unshift below_splice(1) below_slice
    below_concat below_reverse; assumption) | erule below_delete)+

section \<open>The property\<close>

text \<open>
  C31: after every sequence of assignments, deletions, changes of the length and array methods (sorts
  with functions that leave the array alone included) the length of an array is above all its
  indices, so that \<open>length\<close> can be trusted as the bound of every loop over the elements. Only the
  property named 4294967295, which is not an index, may be beyond it.
\<close>

theorem array_indices_below_length:
  assumes "scripted env to_str a" "elems a i = Some v"
  shows "i = - 1 \<or> i < length_of a"
  using scripted_below[OF assms(1)] assms(2) by (simp add: indices_below_def)

definition sparse_array :: js_array where "sparse_array = \<lparr>length_of = 8, elems = [7 \<mapsto> 5]\<rparr>"

lemma sparse_scripted: "scripted roomy to_str sparse_array"
proof (rule scripted.assign[OF scripted.new])
  show "js_NewArrayObject roomy 0 None = Some \<lparr>length_of = 0, elems = Map.empty\<rparr>"
    by (simp add: js_NewArrayObject_def IndexToValue_def roomy_def)
  show "set_property roomy 7 5 \<lparr>length_of = 0, elems = Map.empty\<rparr> = Some sparse_array"
    by (simp add: set_property_def array_addProperty_def js_SetLengthProperty_def array_length_setter_def IndexToValue_def
        roomy_def sparse_array_def down_def up_def)
qed

theorem array_indices_below_length_witness: "(7 :: u32) = - 1 \<or> 7 < length_of sparse_array"
  by (rule array_indices_below_length[OF sparse_scripted[of "\<lambda>v (st :: js_array \<times> unit). (None, st)"], of 7 5])
    (simp add: sparse_array_def)

end
