(* ===== verification/JS_DateObject.thy ===== *)
theory JS_DateObject
  imports JS_Date
begin

text \<open>
  The objects of class Date of js/src/jsdate.c: the constructor, the methods that read and change
  fields in local time and in UTC, and the functions for other parts of the engine. The state of an
  object is its double; a method gives the number it returns, and one that changes the date the new
  double, which it returns too. Arguments are the numbers that \<open>js_ValueToNumber\<close> makes of them.
  \<open>None\<close> is a cast of a number that does not fit.
\<close>

section \<open>Reading\<close>

definition date_get :: "(rat \<Rightarrow> int option) \<Rightarrow> jsdouble \<Rightarrow> jsdouble option" where
  "date_get field date = (case date of Fin t \<Rightarrow> map_option of_integer (field t) | _ \<Rightarrow> Some date)"

definition local_field :: "date_env \<Rightarrow> (rat \<Rightarrow> int option) \<Rightarrow> rat \<Rightarrow> int option" where
  "local_field env field t = do { l \<leftarrow> LocalTime env t; field l }"

definition date_getTime :: "jsdouble \<Rightarrow> jsdouble" where "date_getTime date = date"

text \<open>\<open>old\<close>: the version is 1.0, 1.1 or 1.2.\<close>

definition date_getYear :: "date_env \<Rightarrow> bool \<Rightarrow> jsdouble \<Rightarrow> jsdouble option" where
  "date_getYear env old = date_get (\<lambda>t. do {
     result \<leftarrow> local_field env YearFromTime t;
     Some (if old then (if 1900 \<le> result \<and> result < 2000 then result - 1900 else result) else result - 1900) })"

definition date_getFullYear :: "date_env \<Rightarrow> jsdouble \<Rightarrow> jsdouble option" where
  "date_getFullYear env = date_get (local_field env YearFromTime)"


definition date_getMonth :: "date_env \<Rightarrow> jsdouble \<Rightarrow> jsdouble option" where
  "date_getMonth env = date_get (local_field env MonthFromTime)"


definition date_getDate :: "date_env \<Rightarrow> jsdouble \<Rightarrow> jsdouble option" where
  "date_getDate env = date_get (local_field env DateFromTime)"


definition date_getDay :: "date_env \<Rightarrow> jsdouble \<Rightarrow> jsdouble option" where
  "date_getDay env = date_get (local_field env WeekDay)"

definition date_getUTCDay :: "jsdouble \<Rightarrow> jsdouble option" where
  "date_getUTCDay = date_get WeekDay"

definition date_getHours :: "date_env \<Rightarrow> jsdouble \<Rightarrow> jsdouble option" where
  "date_getHours env = date_get (local_field env (\<lambda>t. Some (HourFromTime t)))"


definition date_getMinutes :: "date_env \<Rightarrow> jsdouble \<Rightarrow> jsdouble option" where
  "date_getMinutes env = date_get (local_field env (\<lambda>t. Some (MinFromTime t)))"


definition date_getUTCSeconds :: "jsdouble \<Rightarrow> jsdouble option" where
  "date_getUTCSeconds = date_get (\<lambda>t. Some (SecFromTime t))"

definition date_getUTCMilliseconds :: "jsdouble \<Rightarrow> jsdouble option" where
  "date_getUTCMilliseconds = date_get (\<lambda>t. Some (msFromTime t))"

text \<open>There is no test for infinite dates here, whose year is cast.\<close>

definition date_getTimezoneOffset :: "date_env \<Rightarrow> jsdouble \<Rightarrow> jsdouble option" where
  "date_getTimezoneOffset env date =
     (case date of
        Fin t \<Rightarrow> do { l \<leftarrow> LocalTime env t; Some (Fin ((t - l) / msPerMinute)) }
      | Inf n \<Rightarrow> None
      | NaN \<Rightarrow> Some NaN)"

section \<open>Changing\<close>

definition date_setTime :: "jsdouble \<Rightarrow> jsdouble" where "date_setTime result = TIMECLIP result"

text \<open>The loop over the arguments of a setter, without one of them the undefined one: \<open>None\<close> if one of them is not finite.\<close>

primrec setter_args :: "jsdouble list \<Rightarrow> rat list option" where
  "setter_args [] = Some []"
| "setter_args (d # ds) =
     (case d of
        Fin x \<Rightarrow> map_option ((#) (fin (js_DoubleToInteger (Fin x)))) (setter_args ds)
      | _ \<Rightarrow> None)"

definition clamp_args :: "nat \<Rightarrow> jsdouble list \<Rightarrow> jsdouble list" where
  "clamp_args maxargs argv = (if argv = [] then [NaN] else take maxargs argv)"

text \<open>A field is the next argument, if the setter has one for it, or that of the date.\<close>

definition next_arg :: "bool \<Rightarrow> rat option \<Rightarrow> rat list \<Rightarrow> (rat \<times> rat list) option" where
  "next_arg wanted old args =
     (if wanted \<and> args \<noteq> [] then Some (hd args, tl args) else map_option (\<lambda>v. (v, args)) old)"

definition date_makeTime :: "date_env \<Rightarrow> nat \<Rightarrow> bool \<Rightarrow> jsdouble list \<Rightarrow> jsdouble \<Rightarrow> jsdouble option" where
  "date_makeTime env maxargs loc argv date =
     (case date of
        Fin result \<Rightarrow>
          (case setter_args (clamp_args maxargs argv) of
             None \<Rightarrow> Some NaN
           | Some args \<Rightarrow> do {
               lorutime \<leftarrow> (if loc then LocalTime env result else Some result);
               (hour, args) \<leftarrow> next_arg (4 \<le> maxargs) (Some (of_int (HourFromTime lorutime))) args;
               (minute, args) \<leftarrow> next_arg (3 \<le> maxargs) (Some (of_int (MinFromTime lorutime))) args;
               (sec, args) \<leftarrow> next_arg (2 \<le> maxargs) (Some (of_int (SecFromTime lorutime))) args;
               (msec, args) \<leftarrow> next_arg (1 \<le> maxargs) (Some (of_int (msFromTime lorutime))) args;
               let msec_time = MakeTime hour minute sec msec;
               let result = MakeDate (of_int (Day lorutime)) msec_time;
               result \<leftarrow> (if loc then UTC env result else Some result);
               Some (TIMECLIP (Fin result)) })
      | _ \<Rightarrow> Some date)"

definition date_setMilliseconds :: "date_env \<Rightarrow> jsdouble list \<Rightarrow> jsdouble \<Rightarrow> jsdouble option" where
  "date_setMilliseconds env = date_makeTime env 1 True"
definition date_setSeconds :: "date_env \<Rightarrow> jsdouble list \<Rightarrow> jsdouble \<Rightarrow> jsdouble option" where
  "date_setSeconds env = date_makeTime env 2 True"
definition date_setMinutes :: "date_env \<Rightarrow> jsdouble list \<Rightarrow> jsdouble \<Rightarrow> jsdouble option" where
  "date_setMinutes env = date_makeTime env 3 True"
definition date_setHours :: "date_env \<Rightarrow> jsdouble list \<Rightarrow> jsdouble \<Rightarrow> jsdouble option" where
  "date_setHours env = date_makeTime env 4 True"

text \<open>The setters of the year, the month and the day; of a date that is NaN only with three arguments.\<close>

definition date_makeDate :: "date_env \<Rightarrow> nat \<Rightarrow> bool \<Rightarrow> jsdouble list \<Rightarrow> jsdouble \<Rightarrow> jsdouble option" where
  "date_makeDate env maxargs loc argv date =
     (case setter_args (clamp_args maxargs argv) of
        None \<Rightarrow> Some NaN
      | Some args \<Rightarrow> do {
          lorutime \<leftarrow> (case date of
                         Fin result \<Rightarrow> map_option Some (if loc then LocalTime env result else Some result)
                       | _ \<Rightarrow> Some (if length args < 3 then None else Some 0));
          case lorutime of
            None \<Rightarrow> Some date
          | Some lorutime \<Rightarrow> do {
              (year, args) \<leftarrow> next_arg (3 \<le> maxargs) (map_option of_int (YearFromTime lorutime)) args;
              (month, args) \<leftarrow> next_arg (2 \<le> maxargs) (map_option of_int (MonthFromTime lorutime)) args;
              (day, args) \<leftarrow> next_arg (1 \<le> maxargs) (map_option of_int (DateFromTime lorutime)) args;
              day \<leftarrow> MakeDay year month day;
              let result = MakeDate day (TimeWithinDay lorutime);
              result \<leftarrow> (if loc then UTC env result else Some result);
              Some (TIMECLIP (Fin result)) } })"

definition date_setDate :: "date_env \<Rightarrow> jsdouble list \<Rightarrow> jsdouble \<Rightarrow> jsdouble option" where
  "date_setDate env = date_makeDate env 1 True"
definition date_setMonth :: "date_env \<Rightarrow> jsdouble list \<Rightarrow> jsdouble \<Rightarrow> jsdouble option" where
  "date_setMonth env = date_makeDate env 2 True"
definition date_setFullYear :: "date_env \<Rightarrow> jsdouble list \<Rightarrow> jsdouble \<Rightarrow> jsdouble option" where
  "date_setFullYear env = date_makeDate env 3 True"
definition date_setUTCFullYear :: "date_env \<Rightarrow> jsdouble list \<Rightarrow> jsdouble \<Rightarrow> jsdouble option" where
  "date_setUTCFullYear env = date_makeDate env 3 False"

definition date_setYear :: "date_env \<Rightarrow> jsdouble \<Rightarrow> jsdouble \<Rightarrow> jsdouble option" where
  "date_setYear env arg date =
     (case arg of
        Fin x \<Rightarrow> do {
          let year = of_int (trunc x);
          t \<leftarrow> (case date of Fin result \<Rightarrow> LocalTime env result | _ \<Rightarrow> Some 0);
          let year = (if 0 \<le> year \<and> year \<le> 99 then year + 1900 else year);
          m \<leftarrow> MonthFromTime t;
          d \<leftarrow> DateFromTime t;
          day \<leftarrow> MakeDay year (of_int m) (of_int d);
          let result = MakeDate day (TimeWithinDay t);
          result \<leftarrow> UTC env result;
          Some (TIMECLIP (Fin result)) }
      | _ \<Rightarrow> Some NaN)"

section \<open>Making\<close>

definition MAXARGS :: nat where "MAXARGS = 7"

text \<open>The loop of \<open>Date.UTC\<close>: the first argument that is not finite, or seven numbers.\<close>

fun utc_args :: "nat \<Rightarrow> jsdouble list \<Rightarrow> jsdouble + rat list" where
  "utc_args 0 argv = Inr []"
| "utc_args (Suc n) [] = map_sum id ((#) 0) (utc_args n [])"
| "utc_args (Suc n) (d # ds) =
     (case d of Fin x \<Rightarrow> map_sum id ((#) (of_int \<lfloor>x\<rfloor>)) (utc_args n ds) | _ \<Rightarrow> Inl d)"

definition adjust_year :: "rat \<Rightarrow> rat" where "adjust_year y = (if 0 \<le> y \<and> y \<le> 99 then y + 1900 else y)"

definition date_UTC :: "jsdouble list \<Rightarrow> jsdouble option" where
  "date_UTC argv =
     (case utc_args MAXARGS argv of
        Inl d \<Rightarrow> Some d
      | Inr array \<Rightarrow> do {
          let array = array[0 := adjust_year (array ! 0)];
          let array = (if array ! 2 < 1 then array[2 := 1] else array);
          d \<leftarrow> date_msecFromDate (array ! 0) (array ! 1) (array ! 2) (array ! 3) (array ! 4) (array ! 5) (array ! 6);
          Some (TIMECLIP (Fin d)) })"

text \<open>
  The constructor, of no argument, a number, a string that is parsed by \<open>parse\<close>, or the numbers of
  several arguments; \<open>msec_time\<close> is the present time. The loop over several arguments has the
  value of each one that is missing.
\<close>

datatype date_arguments = Of_Nothing | Of_Number jsdouble | Of_String "u16 list" | Of_Fields "jsdouble list"

fun constructor_args :: "rat list \<Rightarrow> jsdouble list \<Rightarrow> rat list option" where
  "constructor_args [] argv = Some []"
| "constructor_args (e # es) [] = map_option ((#) e) (constructor_args es [])"
| "constructor_args (e # es) (d # ds) =
     (case d of
        Fin x \<Rightarrow> map_option ((#) (fin (js_DoubleToInteger (Fin x)))) (constructor_args es ds)
      | _ \<Rightarrow> None)"

definition Date ::
  "date_env \<Rightarrow> (u16 list \<Rightarrow> rat option option) \<Rightarrow> jsdouble \<Rightarrow> date_arguments \<Rightarrow> jsdouble option" where
  "Date env parse msec_time args =
     (case args of
        Of_Nothing \<Rightarrow> Some msec_time
      | Of_Number d \<Rightarrow> Some (TIMECLIP d)
      | Of_String str \<Rightarrow> do {
          r \<leftarrow> parse str;
          Some (TIMECLIP (case r of None \<Rightarrow> NaN | Some t \<Rightarrow> Fin t)) }
      | Of_Fields argv \<Rightarrow>
          (case constructor_args [0, 0, 1, 0, 0, 0, 0] argv of
             None \<Rightarrow> Some NaN
           | Some array \<Rightarrow> do {
               let array = array[0 := adjust_year (array ! 0)];
               day \<leftarrow> MakeDay (array ! 0) (array ! 1) (array ! 2);
               let msec_time = MakeTime (array ! 3) (array ! 4) (array ! 5) (array ! 6);
               let msec_time = MakeDate day msec_time;
               msec_time \<leftarrow> UTC env msec_time;
               Some (TIMECLIP (Fin msec_time)) }))"

section \<open>Dates for other parts of the engine\<close>

definition js_NewDateObjectMsec :: "jsdouble \<Rightarrow> jsdouble" where "js_NewDateObjectMsec msec_time = msec_time"

definition js_NewDateObject :: "date_env \<Rightarrow> int \<Rightarrow> int \<Rightarrow> int \<Rightarrow> int \<Rightarrow> int \<Rightarrow> int \<Rightarrow> jsdouble option" where
  "js_NewDateObject env year mon mday hour minute sec = do {
     msec_time \<leftarrow> date_msecFromDate (of_int year) (of_int mon) (of_int mday) (of_int hour) (of_int minute) (of_int sec) 0;
     t \<leftarrow> UTC env msec_time;
     Some (js_NewDateObjectMsec (Fin t)) }"

definition js_DateIsValid :: "jsdouble \<Rightarrow> bool" where "js_DateIsValid date \<longleftrightarrow> \<not> JSDOUBLE_IS_NaN date"

definition legacy_field :: "(rat \<Rightarrow> int option) \<Rightarrow> jsdouble \<Rightarrow> int option" where
  "legacy_field field date = (case date of NaN \<Rightarrow> Some 0 | Fin t \<Rightarrow> field t | Inf _ \<Rightarrow> None)"

definition js_DateGetYear :: "date_env \<Rightarrow> jsdouble \<Rightarrow> int option" where
  "js_DateGetYear env = legacy_field (local_field env YearFromTime)"
definition js_DateGetMonth :: "date_env \<Rightarrow> jsdouble \<Rightarrow> int option" where
  "js_DateGetMonth env = legacy_field (local_field env MonthFromTime)"
definition js_DateGetDate :: "date_env \<Rightarrow> jsdouble \<Rightarrow> int option" where
  "js_DateGetDate env = legacy_field (local_field env DateFromTime)"
definition js_DateGetHours :: "date_env \<Rightarrow> jsdouble \<Rightarrow> int option" where
  "js_DateGetHours env = legacy_field (local_field env (\<lambda>t. Some (HourFromTime t)))"
definition js_DateGetMinutes :: "date_env \<Rightarrow> jsdouble \<Rightarrow> int option" where
  "js_DateGetMinutes env = legacy_field (local_field env (\<lambda>t. Some (MinFromTime t)))"
definition js_DateGetSeconds :: "jsdouble \<Rightarrow> int option" where
  "js_DateGetSeconds = legacy_field (\<lambda>t. Some (SecFromTime t))"

definition js_DateGetMsecSinceEpoch :: "jsdouble \<Rightarrow> jsdouble" where
  "js_DateGetMsecSinceEpoch date = (if JSDOUBLE_IS_NaN date then 0 else date)"

text \<open>A field is replaced in the fields of the local time.\<close>

record date_fields =
  f_year :: int
  f_month :: int
  f_date :: int
  f_hour :: int
  f_min :: int
  f_sec :: int

definition replace_field :: "date_env \<Rightarrow> (date_fields \<Rightarrow> date_fields) \<Rightarrow> rat \<Rightarrow> jsdouble option" where
  "replace_field env upd loc = do {
     y \<leftarrow> YearFromTime loc;
     m \<leftarrow> MonthFromTime loc;
     d \<leftarrow> DateFromTime loc;
     let f = upd \<lparr>f_year = y, f_month = m, f_date = d, f_hour = HourFromTime loc, f_min = MinFromTime loc, f_sec = SecFromTime loc\<rparr>;
     t \<leftarrow> date_msecFromDate (of_int (f_year f)) (of_int (f_month f)) (of_int (f_date f)) (of_int (f_hour f)) (of_int (f_min f))
            (of_int (f_sec f)) (of_int (msFromTime loc));
     t \<leftarrow> UTC env t;
     Some (Fin t) }"

definition legacy_set :: "date_env \<Rightarrow> (date_fields \<Rightarrow> date_fields) \<Rightarrow> jsdouble \<Rightarrow> jsdouble option" where
  "legacy_set env upd date =
     (case date of
        NaN \<Rightarrow> Some date
      | Fin t \<Rightarrow> do { loc \<leftarrow> LocalTime env t; replace_field env upd loc }
      | Inf _ \<Rightarrow> None)"

definition js_DateSetYear :: "date_env \<Rightarrow> int \<Rightarrow> jsdouble \<Rightarrow> jsdouble option" where
  "js_DateSetYear env year date =
     (case date of
        NaN \<Rightarrow> replace_field env (f_year_update (\<lambda>_. year)) 0
      | _ \<Rightarrow> legacy_set env (f_year_update (\<lambda>_. year)) date)"
definition js_DateSetMonth :: "date_env \<Rightarrow> int \<Rightarrow> jsdouble \<Rightarrow> jsdouble option" where
  "js_DateSetMonth env month = legacy_set env (f_month_update (\<lambda>_. month))"
definition js_DateSetDate :: "date_env \<Rightarrow> int \<Rightarrow> jsdouble \<Rightarrow> jsdouble option" where
  "js_DateSetDate env date = legacy_set env (f_date_update (\<lambda>_. date))"
definition js_DateSetHours :: "date_env \<Rightarrow> int \<Rightarrow> jsdouble \<Rightarrow> jsdouble option" where
  "js_DateSetHours env hours = legacy_set env (f_hour_update (\<lambda>_. hours))"
definition js_DateSetMinutes :: "date_env \<Rightarrow> int \<Rightarrow> jsdouble \<Rightarrow> jsdouble option" where
  "js_DateSetMinutes env minutes = legacy_set env (f_min_update (\<lambda>_. minutes))"
definition js_DateSetSeconds :: "date_env \<Rightarrow> int \<Rightarrow> jsdouble \<Rightarrow> jsdouble option" where
  "js_DateSetSeconds env seconds = legacy_set env (f_sec_update (\<lambda>_. seconds))"

section \<open>Zones\<close>

lemma in_range_int: "in_range (of_int n) \<longleftrightarrow> \<bar>n\<bar> \<le> 9000000000000000"
  by (simp add: in_range_def of_int_abs[symmetric] del: of_int_abs)

lemma DST_of_range:
  assumes "in_range t"
  shows "\<exists>u. DaylightSavingTA env t = Some (of_int (DSTOffset env (u * 1000) sdiv 1000))"
proof (cases "t < 0 \<or> 2145916800000 < t")
  case True
  obtain y where y: "first_day y \<le> Day t" "Day t < first_day (y + 1)" by (rule YearFromTime_year[OF assms])
  note f = fields_of_day[OF assms y]
  let ?m = "month_of_day (Day t - first_day y) (leap_year y)"
  obtain y' where y': "EquivalentYearForDST y = Some y'" "1971 \<le> y'" "y' \<le> 1996"
    using equivalent_year_same_weekdays_at[OF f(4)] by blast
  have "?m div 12 = 0" using month_of_day_range[of "Day t - first_day y" "leap_year y"] by simp
  then have "MakeDay (of_int y') (of_int ?m) (of_int d) = Some (of_int (day_number y' ?m d))" for d
    using y' by (intro MakeDay_int) simp
  then show ?thesis using True f y'(1) by (auto simp: DaylightSavingTA_def Let_def)
qed (auto simp: DaylightSavingTA_def Let_def)

text \<open>A zone without changes of its offset, as \<open>localtime\<close> knows them, in whole minutes.\<close>

definition steady :: "date_env \<Rightarrow> int \<Rightarrow> bool" where
  "steady env a \<longleftrightarrow> (\<exists>z c. LocalTZA env = of_int z \<and> DSTOffset env = (\<lambda>_. c) \<and> a = z + c sdiv 1000 \<and> \<bar>z\<bar> < 86400000)
    \<and> \<bar>a\<bar> < 86400000 \<and> 60000 dvd a"

lemma steady_adjust:
  assumes "steady env a" "in_range t"
  shows "AdjustTime env t = Some (of_int a)"
proof -
  obtain z c where z: "LocalTZA env = of_int z" "DSTOffset env = (\<lambda>_. c)" "a = z + c sdiv 1000" and a: "\<bar>a\<bar> < 86400000"
    using assms(1) by (auto simp: steady_def)
  have "trunc (of_int a / msPerDay) = 0"
    using a by (auto simp: trunc_def msPerDay_value abs_less_iff floor_eq_iff divide_less_0_iff pos_divide_less_eq)
  then have "fmod (of_int a) msPerDay = of_int a" by (simp add: fmod_def)
  moreover obtain u where "DaylightSavingTA env t = Some (of_int (DSTOffset env (u * 1000) sdiv 1000))"
    using DST_of_range[OF assms(2)] by blast
  ultimately show ?thesis using z by (simp add: AdjustTime_def)
qed

lemma steady_local: "steady env a \<Longrightarrow> in_range t \<Longrightarrow> LocalTime env t = Some (t + of_int a)"
  by (simp add: LocalTime_def steady_adjust)

lemma steady_utc:
  assumes "steady env a" "\<bar>n\<bar> \<le> 8900000000000000"
  shows "UTC env (of_int n) = Some (of_int (n - a))"
proof -
  obtain z c where z: "LocalTZA env = of_int z" "\<bar>z\<bar> < 86400000" using assms(1) by (auto simp: steady_def)
  have "in_range (of_int (n - z))" unfolding in_range_int using assms(2) z(2) by linarith
  then show ?thesis using steady_adjust[OF assms(1), of "of_int (n - z)"] by (simp add: UTC_def z(1))
qed

lemma TIMECLIP_int: "\<bar>n\<bar> \<le> 8640000000000000 \<Longrightarrow> TIMECLIP (Fin (of_int n)) = of_integer n"
proof -
  assume "\<bar>n\<bar> \<le> 8640000000000000"
  then have "\<not> (if (of_int n :: rat) < 0 then - of_int n else of_int n) > HalfTimeDomain"
    unfolding HalfTimeDomain_def by (auto simp: abs_le_iff not_less of_int_minus[symmetric] simp del: of_int_minus)
  then show ?thesis by (simp add: TIMECLIP_def js_DoubleToInteger_Fin)
qed

section \<open>The properties of dates\<close>

text \<open>What the getters say.\<close>

definition local_fields :: "date_env \<Rightarrow> jsdouble \<Rightarrow> int \<Rightarrow> int \<Rightarrow> int \<Rightarrow> int \<Rightarrow> int \<Rightarrow> int \<Rightarrow> int \<Rightarrow> bool" where
  "local_fields env date y m d h mi s ms \<longleftrightarrow>
     date_getFullYear env date = Some (of_integer y) \<and> date_getMonth env date = Some (of_integer m)
     \<and> date_getDate env date = Some (of_integer d) \<and> date_getHours env date = Some (of_integer h)
     \<and> date_getMinutes env date = Some (of_integer mi) \<and> date_getUTCSeconds date = Some (of_integer s)
     \<and> date_getUTCMilliseconds date = Some (of_integer ms)"



text \<open>A shift by whole minutes leaves the seconds and milliseconds alone.\<close>

lemma shifted_seconds: "60000 dvd a \<Longrightarrow> (n + a) div 1000 mod 60 = n div 1000 mod 60" "60000 dvd a \<Longrightarrow> (n + a) mod 1000 = n mod 1000" for n a :: int
proof -
  assume "60000 dvd a"
  then obtain k where k: "a = 60000 * k" by (elim dvdE)
  have "(n + a) div 1000 = n div 1000 + 60 * k" "(n + a) mod 1000 = n mod 1000"
    using div_mult_self2[of 1000 n "60 * k"] mod_mult_self2[of n 1000 "60 * k"] by (simp_all add: k)
  then show "(n + a) div 1000 mod 60 = n div 1000 mod 60" "(n + a) mod 1000 = n mod 1000" by simp_all
qed

lemma local_fields_steady:
  assumes "steady env a" "in_range (of_int n)" "has_fields (of_int (n + a)) y m d h mi s ms"
  shows "local_fields env (of_integer n) y m d h mi s ms"
proof -
  have "LocalTime env (of_int n) = Some (of_int (n + a))" using steady_local[OF assms(1,2)] by simp
  moreover have "60000 dvd a" using assms(1) by (simp add: steady_def)
  ultimately show ?thesis
    using assms(3) shifted_seconds[of a n]
    by (simp add: local_fields_def has_fields_def of_integer_def date_getFullYear_def date_getMonth_def date_getDate_def date_getHours_def
        date_getMinutes_def date_getUTCSeconds_def date_getUTCMilliseconds_def date_get_def local_field_def time_parts_int(3,4) del: of_int_add)
qed

lemma constructor_args_ints:
  "constructor_args [0, 0, 1, 0, 0, 0, 0] (map of_integer [y, m, d, h, mi, s, ms])
    = Some [of_int y, of_int m, of_int d, of_int h, of_int mi, of_int s, of_int ms]"
  by (simp add: of_integer_def js_DoubleToInteger_Fin)

lemma civil_month: "civil y m d \<Longrightarrow> m div 12 = 0"
  by (simp add: civil_def)

text \<open>
  C35: A date that is constructed of the fields of a date of the calendar and of a time of the day, in
  a zone without changes, has these fields in local time; the first hundred years are taken for
  those of the 20th century.
\<close>

theorem date_constructor_fields:
  assumes "steady env a" "civil y m d" "clock h mi s ms" "y = (if 0 \<le> y' \<and> y' \<le> 99 then y' + 1900 else y')"
    "\<bar>civil_time y m d h mi s ms\<bar> \<le> 8600000000000000" "\<bar>y\<bar> \<le> 300000"
  shows "\<exists>date. Date env parse now (Of_Fields (map of_integer [y', m, d, h, mi, s, ms])) = Some date
    \<and> local_fields env date y m d h mi s ms"
proof -
  let ?n = "civil_time y m d h mi s ms"
  have a: "\<bar>a\<bar> < 86400000" using assms(1) by (simp add: steady_def)
  have year: "adjust_year (of_int y') = of_int y"
    using assms(4) by (auto simp: adjust_year_def)
  have "MakeDay (of_int y) (of_int m) (of_int d) = Some (of_int (day_number y m d))"
    by (rule MakeDay_int) (use civil_month[OF assms(2)] assms(6) in simp)
  then have "Date env parse now (Of_Fields (map of_integer [y', m, d, h, mi, s, ms]))
      = Option.bind (UTC env (of_int ?n)) (\<lambda>t. Some (TIMECLIP (Fin t)))"
    unfolding Date_def date_arguments.case constructor_args_ints
    by (simp add: year Let_def MakeTime_int MakeDate_int civil_time_def del: of_int_add of_int_mult)
  also have "\<dots> = Some (of_integer (?n - a))"
    using steady_utc[OF assms(1), of ?n] TIMECLIP_int[of "?n - a"] assms(5) a by (simp del: of_int_diff)
  finally have date: "Date env parse now (Of_Fields (map of_integer [y', m, d, h, mi, s, ms])) = Some (of_integer (?n - a))" .
  have "local_fields env (of_integer (?n - a)) y m d h mi s ms"
  proof (rule local_fields_steady[OF assms(1)])
    show "in_range (of_int (?n - a))" unfolding in_range_int using assms(5) a by linarith
    have "in_range (of_int ?n)" unfolding in_range_int using assms(5) by linarith
    from civil_fields[OF assms(2,3) this] show "has_fields (of_int (?n - a + a)) y m d h mi s ms" by simp
  qed
  then show ?thesis using date by blast
qed

theorem date_constructor_fields_witness:
  "\<exists>date. Date \<lparr>LocalTZA = 3600000, DSTOffset = (\<lambda>_. 0)\<rparr> (\<lambda>_. None) NaN (Of_Fields (map of_integer [70, 0, 1, 0, 0, 0, 0])) = Some date
    \<and> local_fields \<lparr>LocalTZA = 3600000, DSTOffset = (\<lambda>_. 0)\<rparr> date 1970 0 1 0 0 0 0"
proof (rule date_constructor_fields)
  show "steady \<lparr>LocalTZA = 3600000, DSTOffset = (\<lambda>_. 0)\<rparr> 3600000"
    unfolding steady_def by (intro conjI exI[of _ 3600000] exI[of _ 0]) simp_all
  show "civil 1970 0 1" "\<bar>civil_time 1970 0 1 0 0 0 0\<bar> \<le> 8600000000000000"
    using month_start_value(1,2) by (simp_all add: civil_def civil_time_def day_number_def first_day_def)
qed (simp_all add: clock_def)



lemma setter_args_ints: "setter_args (map of_integer xs) = Some (map of_int xs)"
  by (induction xs) (simp_all add: of_integer_def js_DoubleToInteger_Fin)










lemma utc_args_three: "utc_args MAXARGS (map of_integer [y, m, d]) = Inr [of_int y, of_int m, of_int d, 0, 0, 0, 0]"
  by (simp add: MAXARGS_def eval_nat_numeral of_integer_def)

lemma epoch_fields: "YearFromTime 0 = Some 1970" "MonthFromTime 0 = Some 0" "DateFromTime 0 = Some 1" "TimeWithinDay 0 = 0"
proof -
  have "Day 0 = 0" "first_day 1970 = 0" "first_day 1971 = 365" by (simp_all add: Day_def first_day_def)
  then show "YearFromTime 0 = Some 1970" "MonthFromTime 0 = Some 0" "DateFromTime 0 = Some 1" "TimeWithinDay 0 = 0"
    using fields_of_day[of 0 1970] by (simp_all add: in_range_def TimeWithinDay_rest month_of_day_def date_of_day_def)
qed

text \<open>
  At the edges dates differ from what the comments and ECMA say. \<open>Date.UTC\<close> returns an infinite
  argument, not NaN, and takes every day before the first for the first. Setting the year of a date
  that is NaN leaves it NaN unless the month and the day are given too.
\<close>

theorem date_edge_cases:
  "date_UTC (Inf b # argv) = Some (Inf b)
    \<and> (d < 1 \<longrightarrow> date_UTC (map of_integer [y, m, d]) = date_UTC (map of_integer [y, m, 1]))
    \<and> date_setUTCFullYear env [of_integer y] NaN = Some NaN
    \<and> (\<bar>y\<bar> \<le> 300000 \<and> civil y m d' \<longrightarrow>
        date_setUTCFullYear env (map of_integer [y, m, d']) NaN = Some (TIMECLIP (Fin (of_int (civil_time y m d' 0 0 0 0)))))"
proof (intro conjI impI)
  show "date_UTC (Inf b # argv) = Some (Inf b)" by (simp add: date_UTC_def MAXARGS_def eval_nat_numeral)
  show "date_UTC (map of_integer [y, m, d]) = date_UTC (map of_integer [y, m, 1])" if "d < 1"
    unfolding date_UTC_def utc_args_three using that by (simp add: Let_def eval_nat_numeral)
  show "date_setUTCFullYear env [of_integer y] NaN = Some NaN"
    using setter_args_ints[of "[y]"] by (simp add: date_setUTCFullYear_def date_makeDate_def clamp_args_def)
  assume "\<bar>y\<bar> \<le> 300000 \<and> civil y m d'"
  then have "m div 12 = 0" "\<bar>y\<bar> \<le> 300000" using civil_month[of y m d'] by blast+
  then have "MakeDay (of_int y) (of_int m) (of_int d') = Some (of_int (day_number y m d'))"
    by (intro MakeDay_int) simp
  then show "date_setUTCFullYear env (map of_integer [y, m, d']) NaN = Some (TIMECLIP (Fin (of_int (civil_time y m d' 0 0 0 0))))"
    using setter_args_ints[of "[y, m, d']"]
    by (simp add: date_setUTCFullYear_def date_makeDate_def clamp_args_def next_arg_def epoch_fields MakeDate_def msPerDay_value civil_time_def Let_def)
qed

theorem date_edge_cases_witness:
  "date_UTC (map of_integer [2000, 1, -3]) = date_UTC (map of_integer [2000, 1, 1])
    \<and> date_setUTCFullYear env (map of_integer [2000, 1, 29]) NaN = Some (TIMECLIP (Fin (of_int (civil_time 2000 1 29 0 0 0 0))))"
proof -
  have "civil 2000 1 29" by code_simp
  then show ?thesis using date_edge_cases[of False "[]" "-3" 2000 1 env 29] by simp
qed

end
