(* ===== verification/JS_DateParse.thy ===== *)
theory JS_DateParse
  imports JS_Date JS_Strings
begin

text \<open>
  The parser of dates of js/src/jsdate.c, \<open>date_parseString\<close>: its scanner of words, numbers, signs
  and comments, and the choice of the year, month and day from what was scanned. The index \<open>i\<close> into
  the string is the list of the characters from there on. \<open>JS_TOLOWER\<close>, which works on the tables of
  characters, is a parameter.
\<close>

section \<open>Tables\<close>

definition ch :: "char \<Rightarrow> u16" where "ch c = of_char c"

definition wtb :: "string list" where
  "wtb = [''am'', ''pm'',
          ''monday'', ''tuesday'', ''wednesday'', ''thursday'', ''friday'', ''saturday'', ''sunday'',
          ''january'', ''february'', ''march'', ''april'', ''may'', ''june'',
          ''july'', ''august'', ''september'', ''october'', ''november'', ''december'',
          ''gmt'', ''ut'', ''utc'',
          ''est'', ''edt'', ''cst'', ''cdt'', ''mst'', ''mdt'', ''pst'', ''pdt'']"

definition ttb :: "int list" where
  "ttb = [- 1, - 2, 0, 0, 0, 0, 0, 0, 0,
          2, 3, 4, 5, 6, 7, 8, 9, 10, 11, 12, 13,
          10000 + 0, 10000 + 0, 10000 + 0,
          10000 + 5 * 60, 10000 + 4 * 60, 10000 + 6 * 60, 10000 + 5 * 60,
          10000 + 7 * 60, 10000 + 6 * 60, 10000 + 8 * 60, 10000 + 7 * 60]"

text \<open>
  Whether the first characters of a word of the table are those of the string, regardless of case;
  \<open>s2\<close> is the string from its offset on, and the end of either counts as its null character.
\<close>

fun date_regionMatches :: "(u16 \<Rightarrow> u16) \<Rightarrow> string \<Rightarrow> u16 list \<Rightarrow> nat \<Rightarrow> bool \<Rightarrow> bool" where
  "date_regionMatches tolower s1 s2 0 ignoreCase = True"
| "date_regionMatches tolower (c1 # s1) (c2 # s2) (Suc count') ignoreCase =
     (if c2 = 0 then False
      else if ignoreCase
      then (if tolower (ch c1) \<noteq> tolower c2 then False else date_regionMatches tolower s1 s2 count' ignoreCase)
      else (if ch c1 \<noteq> c2 then False else date_regionMatches tolower s1 s2 count' ignoreCase))"
| "date_regionMatches tolower s1 s2 (Suc count') ignoreCase = False"

section \<open>The scanner\<close>

record date_scan =
  year :: int
  mon :: int
  mday :: int
  hour :: int
  minute :: int
  sec :: int
  tzoffset :: int
  prevc :: u16
  seenplusminus :: bool
  seenmonthname :: bool

definition scan_start :: date_scan where
  "scan_start = \<lparr>year = - 1, mon = - 1, mday = - 1, hour = - 1, minute = - 1, sec = - 1, tzoffset = - 1, prevc = 0,
     seenplusminus = False, seenmonthname = False\<rparr>"

definition is_digit16 :: "u16 \<Rightarrow> bool" where "is_digit16 c \<longleftrightarrow> ch CHR ''0'' \<le> c \<and> c \<le> ch CHR ''9''"

definition is_letter16 :: "u16 \<Rightarrow> bool" where
  "is_letter16 c \<longleftrightarrow> ch CHR ''A'' \<le> c \<and> c \<le> ch CHR ''Z'' \<or> ch CHR ''a'' \<le> c \<and> c \<le> ch CHR ''z''"

text \<open>The inside of a comment, up to the parenthesis that closes it.\<close>

fun skip_comment :: "u16 list \<Rightarrow> int \<Rightarrow> u16 list" where
  "skip_comment [] depth = []"
| "skip_comment (c # cs) depth =
     (if c = ch CHR ''('' then skip_comment cs (depth + 1)
      else if c = ch CHR '')'' then (if depth - 1 \<le> 0 then cs else skip_comment cs (depth - 1))
      else skip_comment cs depth)"

text \<open>The rest of a number: its value, the characters after it and \<open>c\<close>, the last character looked at.\<close>

fun read_number :: "int \<Rightarrow> u16 \<Rightarrow> u16 list \<Rightarrow> (int \<times> u16 \<times> u16 list) option" where
  "read_number n c [] = Some (n, c, [])"
| "read_number n c (d # ds) =
     (if is_digit16 d
      then do {
        n \<leftarrow> jsint (n * 10);
        n \<leftarrow> jsint (n + int (unat d));
        n \<leftarrow> jsint (n - 48);
        read_number n d ds }
      else Some (n, d, d # ds))"

text \<open>What a number is; \<open>None\<close> is a syntax error. \<open>more\<close> is whether characters follow.\<close>

definition use_number :: "int \<Rightarrow> u16 \<Rightarrow> bool \<Rightarrow> date_scan \<Rightarrow> date_scan option" where
  "use_number n c follows s =
     (if prevc s = ch CHR ''+'' \<or> prevc s = ch CHR ''-''
      then (let n = (if n < 24 then n * 60 else n smod 100 + n sdiv 100 * 60);
                n = (if prevc s = ch CHR ''+'' then - n else n)
            in if tzoffset s \<noteq> 0 \<and> tzoffset s \<noteq> - 1 then None
               else Some (s\<lparr>seenplusminus := True, tzoffset := n\<rparr>))
      else if prevc s = ch CHR ''/'' \<and> 0 \<le> mon s \<and> 0 \<le> mday s \<and> year s < 0
      then (if c \<le> ch CHR '' '' \<or> c = ch CHR '','' \<or> c = ch CHR ''/'' \<or> \<not> follows then Some (s\<lparr>year := n\<rparr>) else None)
      else if c = ch CHR '':''
      then (if hour s < 0 then Some (s\<lparr>hour := n\<rparr>)
            else if minute s < 0 then Some (s\<lparr>minute := n\<rparr>) else None)
      else if c = ch CHR ''/''
      then (if mon s < 0 then Some (s\<lparr>mon := n\<rparr>)
            else if mday s < 0 then Some (s\<lparr>mday := n\<rparr>) else None)
      else if follows \<and> c \<noteq> ch CHR '','' \<and> ch CHR '' '' < c \<and> c \<noteq> ch CHR ''-'' \<and> c \<noteq> ch CHR ''('' then None
      else if seenplusminus s \<and> n < 60
      then Some (s\<lparr>tzoffset := (if tzoffset s < 0 then tzoffset s - n else tzoffset s + n)\<rparr>)
      else if 0 \<le> hour s \<and> minute s < 0 then Some (s\<lparr>minute := n\<rparr>)
      else if prevc s = ch CHR '':'' \<and> 0 \<le> minute s \<and> sec s < 0 then Some (s\<lparr>sec := n\<rparr>)
      else if mon s < 0 then Some (s\<lparr>mon := n\<rparr>)
      else if 0 \<le> mon s \<and> mday s < 0 then Some (s\<lparr>mday := n\<rparr>)
      else if 0 \<le> mon s \<and> 0 \<le> mday s \<and> year s < 0 then Some (s\<lparr>year := n\<rparr>)
      else None)"

text \<open>The last word of the table that matches.\<close>

primrec find_word :: "(u16 \<Rightarrow> u16) \<Rightarrow> u16 list \<Rightarrow> nat \<Rightarrow> nat \<Rightarrow> nat option" where
  "find_word tolower s len 0 = None"
| "find_word tolower s len (Suc k) =
     (if date_regionMatches tolower (wtb ! k) s len True then Some k else find_word tolower s len k)"

definition use_word :: "int \<Rightarrow> date_scan \<Rightarrow> date_scan option" where
  "use_word action s =
     (if action = 0 then Some s
      else if action < 0
      then (if 12 < hour s \<or> hour s < 0 then None
            else if action = - 1 \<and> hour s = 12 then Some (s\<lparr>hour := 0\<rparr>)
            else if action = - 2 \<and> hour s \<noteq> 12 then Some (s\<lparr>hour := hour s + 12\<rparr>)
            else Some s)
      else if action \<le> 13
      then (if seenmonthname s then None
            else let s = s\<lparr>seenmonthname := True\<rparr>; temp = (action - 2) + 1
                 in if mon s < 0 then Some (s\<lparr>mon := temp\<rparr>)
                    else if mday s < 0 then Some (s\<lparr>mday := mon s, mon := temp\<rparr>)
                    else if year s < 0 then Some (s\<lparr>year := mon s, mon := temp\<rparr>)
                    else None)
      else Some (s\<lparr>tzoffset := action - 10000\<rparr>))"

lemma skip_comment_length [termination_simp]: "length (skip_comment cs depth) \<le> length cs"
  by (induction cs depth rule: skip_comment.induct) auto

lemma read_number_length: "read_number n c cs = Some (n', c', cs') \<Longrightarrow> length cs' \<le> length cs"
proof (induction cs arbitrary: n c)
  case (Cons d ds)
  show ?case
  proof (cases "is_digit16 d")
    case True
    then obtain m where "read_number m d ds = Some (n', c', cs')" using Cons.prems by (auto split: Option.bind_splits)
    then show ?thesis using Cons.IH by fastforce
  qed (use Cons.prems in auto)
qed simp

text \<open>The loop: \<open>None\<close> is an overflow of a number, \<open>Some None\<close> a syntax error.\<close>

function scan_loop :: "(u16 \<Rightarrow> u16) \<Rightarrow> u16 list \<Rightarrow> date_scan \<Rightarrow> date_scan option option" where
  "scan_loop tolower [] s = Some (Some s)"
| "scan_loop tolower (c # cs) s =
     (if c \<le> ch CHR '' '' \<or> c = ch CHR '','' \<or> c = ch CHR ''-''
      then scan_loop tolower cs
             (if c = ch CHR ''-'' \<and> (case cs of [] \<Rightarrow> False | d # _ \<Rightarrow> is_digit16 d) then s\<lparr>prevc := c\<rparr> else s)
      else if c = ch CHR ''('' then scan_loop tolower (skip_comment cs 1) s
      else if is_digit16 c
      then (case read_number (int (unat c) - 48) c cs of
              None \<Rightarrow> None
            | Some (n, c', cs') \<Rightarrow>
                (case use_number n c' (cs' \<noteq> []) s of
                   None \<Rightarrow> Some None
                 | Some s \<Rightarrow> scan_loop tolower cs' (s\<lparr>prevc := 0\<rparr>)))
      else if c = ch CHR ''/'' \<or> c = ch CHR '':'' \<or> c = ch CHR ''+'' \<or> c = ch CHR ''-''
      then scan_loop tolower cs (s\<lparr>prevc := c\<rparr>)
      else
        (let len = Suc (length (takeWhile is_letter16 cs)); cs' = dropWhile is_letter16 cs
         in if len \<le> 1 then Some None
            else case find_word tolower (c # cs) len (length wtb) of
                   None \<Rightarrow> Some None
                 | Some k \<Rightarrow>
                     (case use_word (ttb ! k) s of
                        None \<Rightarrow> Some None
                      | Some s \<Rightarrow> scan_loop tolower cs' (s\<lparr>prevc := 0\<rparr>))))"
  by pat_completeness auto

termination
  by (relation "measure (\<lambda>(_, cs, _). length cs)")
    (auto simp: less_Suc_eq_le skip_comment_length intro: read_number_length length_dropWhile_le)

section \<open>Choosing the date\<close>

definition choose_date :: "date_scan \<Rightarrow> date_scan option" where
  "choose_date s =
     (if seenmonthname s
      then (if 70 \<le> mday s \<and> 70 \<le> year s \<or> mday s < 70 \<and> year s < 70 then None
            else let s = (if year s < mday s then s\<lparr>year := mday s, mday := year s\<rparr> else s)
                 in Some (if 70 \<le> year s \<and> year s < 100 then s\<lparr>year := year s + 1900\<rparr> else s))
      else if mon s < 70
      then Some (if year s < 100 then s\<lparr>year := year s + 1900\<rparr> else s)
      else if mon s < 100
      then (if mday s < 70 then Some (s\<lparr>year := mon s + 1900, mon := mday s, mday := year s\<rparr>) else None)
      else (if mday s < 70 then Some (s\<lparr>year := mon s, mon := mday s, mday := year s\<rparr>) else None))"

definition date_parseString :: "date_env \<Rightarrow> (u16 \<Rightarrow> u16) \<Rightarrow> u16 list \<Rightarrow> rat option option" where
  "date_parseString env tolower str =
     (if str = [] then Some None
      else do {
        scanned \<leftarrow> scan_loop tolower str scan_start;
        case scanned of
          None \<Rightarrow> Some None
        | Some s \<Rightarrow>
            if year s < 0 \<or> mon s < 0 \<or> mday s < 0 then Some None
            else case choose_date s of
                   None \<Rightarrow> Some None
                 | Some s \<Rightarrow> do {
                     let s = s\<lparr>mon := mon s - 1\<rparr>;
                     let s = (if sec s < 0 then s\<lparr>sec := 0\<rparr> else s);
                     let s = (if minute s < 0 then s\<lparr>minute := 0\<rparr> else s);
                     let s = (if hour s < 0 then s\<lparr>hour := 0\<rparr> else s);
                     msec \<leftarrow> date_msecFromDate (of_int (year s)) (of_int (mon s)) (of_int (mday s)) (of_int (hour s))
                               (of_int (minute s)) (of_int (sec s)) 0;
                     if tzoffset s = - 1
                     then map_option Some (UTC env msec)
                     else Some (Some (msec + of_int (tzoffset s) * msPerMinute)) } })"

definition date_parse :: "date_env \<Rightarrow> (u16 \<Rightarrow> u16) \<Rightarrow> u16 list \<Rightarrow> jsdouble option" where
  "date_parse env tolower str = do {
     r \<leftarrow> date_parseString env tolower str;
     Some (case r of None \<Rightarrow> NaN | Some t \<Rightarrow> TIMECLIP (Fin t)) }"

end
