(* ===== verification/JS_DateText.thy ===== *)
theory JS_DateText
  imports JS_DateObject JS_DateParse JS_Printf
begin

text \<open>
  Dates as text, of js/src/jsdate.c: \<open>toGMTString\<close>, \<open>toString\<close> and its relatives, which are formatted
  output (js/src/jsprf.c) inflated to a string (js/src/jsstr.c), and what parsing such a text gives.
  The name of the time zone, which \<open>PRMJ_FormatTime\<close> asks of the system, is a parameter.
\<close>

section \<open>Text\<close>

definition js_NaN_date_str :: string where "js_NaN_date_str = ''Invalid Date''"

definition days :: "string list" where
  "days = [''Sun'', ''Mon'', ''Tue'', ''Wed'', ''Thu'', ''Fri'', ''Sat'']"

definition months :: "string list" where
  "months = [''Jan'', ''Feb'', ''Mar'', ''Apr'', ''May'', ''Jun'', ''Jul'', ''Aug'', ''Sep'', ''Oct'', ''Nov'', ''Dec'']"

text \<open>A C string that is a literal or one of the tables, and as an argument.\<close>

definition cstring :: "string \<Rightarrow> u8 list" where "cstring s = map b8 s"

abbreviation Text_Arg :: "string \<Rightarrow> print_arg" where "Text_Arg s \<equiv> String_Arg (Some (cstring s))"

text \<open>A new string of a buffer up to its null byte; \<open>None\<close> if there is no memory.\<close>

definition JS_NewStringCopyZ :: "(nat \<Rightarrow> bool) \<Rightarrow> u8 list \<Rightarrow> u16 list option" where
  "JS_NewStringCopyZ am s =
     (case js_InflateString_utf8 am (takeWhile (\<lambda>c. c \<noteq> 0) s) of
        None \<Rightarrow> None
      | Some js \<Rightarrow> if am 16 then Some js else None)"

definition date_toGMTString :: "printf_env \<Rightarrow> jsdouble \<Rightarrow> u16 list option option" where
  "date_toGMTString penv date = do {
     (buf, _) \<leftarrow> (case date of
        Fin temp \<Rightarrow> do {
          wday \<leftarrow> WeekDay temp;
          mday \<leftarrow> DateFromTime temp;
          mon \<leftarrow> MonthFromTime temp;
          year \<leftarrow> YearFromTime temp;
          JS_vsnprintf penv 100 (cstring ''%s, %.2d %s %.4d %.2d:%.2d:%.2d GMT'' @ [0])
            [Text_Arg (days ! nat wday), Int_Arg mday, Text_Arg (months ! nat mon), Int_Arg year,
             Int_Arg (HourFromTime temp), Int_Arg (MinFromTime temp), Int_Arg (SecFromTime temp)] }
      | _ \<Rightarrow> JS_vsnprintf penv 100 (cstring js_NaN_date_str @ [0]) []);
     Some (JS_NewStringCopyZ (allocator penv) buf) }"

text \<open>The time that is handed to the system, with a year that fits.\<close>

record PRMJTime =
  tm_usec :: int
  tm_sec :: int
  tm_min :: int
  tm_hour :: int
  tm_mday :: int
  tm_mon :: int
  tm_wday :: int
  tm_year :: int
  tm_yday :: int
  tm_isdst :: bool

definition CYCLE_YEARS :: int where "CYCLE_YEARS = 2800"

definition new_explode :: "date_env \<Rightarrow> rat \<Rightarrow> bool \<Rightarrow> PRMJTime option" where
  "new_explode env timeval findEquivalent = do {
     year \<leftarrow> YearFromTime timeval;
     let adjustedYear =
       (if 32767 < year \<or> year < - 32768
        then (if findEquivalent
              then (let cycles = (if 0 \<le> year then year sdiv CYCLE_YEARS else - 1 - (- 1 - year) sdiv CYCLE_YEARS)
                    in year - cycles * CYCLE_YEARS)
              else if 0 < year then 32767 else - 32768)
        else year);
     mday \<leftarrow> DateFromTime timeval;
     mon \<leftarrow> MonthFromTime timeval;
     wday \<leftarrow> WeekDay timeval;
     yday \<leftarrow> DayWithinYear timeval year;
     dst \<leftarrow> DaylightSavingTA env timeval;
     Some \<lparr>tm_usec = msFromTime timeval * 1000, tm_sec = SecFromTime timeval, tm_min = MinFromTime timeval,
       tm_hour = HourFromTime timeval, tm_mday = mday, tm_mon = mon, tm_wday = wday, tm_year = adjustedYear,
       tm_yday = yday, tm_isdst = dst \<noteq> 0\<rparr> }"

datatype formatspec = FORMATSPEC_FULL | FORMATSPEC_DATE | FORMATSPEC_TIME

text \<open>Whether the name of the zone can be a comment; the characters are those of ASCII in the locale of C.\<close>

definition is_alnum8 :: "u8 \<Rightarrow> bool" where
  "is_alnum8 c \<longleftrightarrow> 48 \<le> c \<and> c \<le> 57 \<or> 65 \<le> c \<and> c \<le> 90 \<or> 97 \<le> c \<and> c \<le> 122"

definition usable_zone :: "u8 list \<Rightarrow> bool" where
  "usable_zone tzbuf \<longleftrightarrow>
     length tzbuf \<le> 100 \<and> (\<forall>c\<in>set tzbuf. is_alnum8 c \<or> c = b8 CHR '' '' \<or> c = b8 CHR ''('' \<or> c = b8 CHR '')'')
     \<and> (case tzbuf of c # d # _ \<Rightarrow> c = b8 CHR ''('' \<and> d \<noteq> b8 CHR '')'' | [c] \<Rightarrow> c = b8 CHR ''('' | [] \<Rightarrow> False)"

definition format_text :: "formatspec \<Rightarrow> string" where
  "format_text format =
     (case format of
        FORMATSPEC_FULL \<Rightarrow> ''%s %s %.2d %.4d %.2d:%.2d:%.2d GMT%+.4d%s%s''
      | FORMATSPEC_DATE \<Rightarrow> ''%s %s %.2d %.4d''
      | FORMATSPEC_TIME \<Rightarrow> ''%.2d:%.2d:%.2d GMT%+.4d%s%s'')"

definition date_format ::
  "printf_env \<Rightarrow> date_env \<Rightarrow> (PRMJTime \<Rightarrow> u8 list option) \<Rightarrow> jsdouble \<Rightarrow> formatspec \<Rightarrow> u16 list option option" where
  "date_format penv env zone date format = do {
     (buf, _) \<leftarrow> (case date of
        Fin t \<Rightarrow> do {
          loc \<leftarrow> LocalTime env t;
          a \<leftarrow> AdjustTime env t;
          minutes \<leftarrow> jsint \<lfloor>a / msPerMinute\<rfloor>;
          let offset = (minutes sdiv 60) * 100 + minutes smod 60;
          split \<leftarrow> new_explode env t True;
          let tz = (case zone split of
                      None \<Rightarrow> None
                    | Some tzbuf \<Rightarrow> if usable_zone tzbuf then Some tzbuf else None);
          let comment = [String_Arg (Some (if tz \<noteq> None then [b8 CHR '' ''] else [])),
                         String_Arg (Some (case tz of Some tzbuf \<Rightarrow> tzbuf | None \<Rightarrow> []))];
          wday \<leftarrow> WeekDay loc;
          mon \<leftarrow> MonthFromTime loc;
          mday \<leftarrow> DateFromTime loc;
          year \<leftarrow> YearFromTime loc;
          let date = [Text_Arg (days ! nat wday), Text_Arg (months ! nat mon), Int_Arg mday, Int_Arg year];
          let time = [Int_Arg (HourFromTime loc), Int_Arg (MinFromTime loc), Int_Arg (SecFromTime loc), Int_Arg offset];
          JS_vsnprintf penv 100 (cstring (format_text format) @ [0])
            (case format of
               FORMATSPEC_FULL \<Rightarrow> date @ time @ comment
             | FORMATSPEC_DATE \<Rightarrow> date
             | FORMATSPEC_TIME \<Rightarrow> time @ comment) }
      | _ \<Rightarrow> JS_vsnprintf penv 100 (cstring js_NaN_date_str @ [0]) []);
     Some (JS_NewStringCopyZ (allocator penv) buf) }"

definition date_toString :: "printf_env \<Rightarrow> date_env \<Rightarrow> (PRMJTime \<Rightarrow> u8 list option) \<Rightarrow> jsdouble \<Rightarrow> u16 list option option" where
  "date_toString penv env zone date = date_format penv env zone date FORMATSPEC_FULL"
definition date_toDateString :: "printf_env \<Rightarrow> date_env \<Rightarrow> (PRMJTime \<Rightarrow> u8 list option) \<Rightarrow> jsdouble \<Rightarrow> u16 list option option" where
  "date_toDateString penv env zone date = date_format penv env zone date FORMATSPEC_DATE"
definition date_toTimeString :: "printf_env \<Rightarrow> date_env \<Rightarrow> (PRMJTime \<Rightarrow> u8 list option) \<Rightarrow> jsdouble \<Rightarrow> u16 list option option" where
  "date_toTimeString penv env zone date = date_format penv env zone date FORMATSPEC_TIME"

section \<open>What is printed\<close>

lemma printing_codes_date:
  "b8 CHR '','' = 44" "b8 CHR '':'' = 58" "b8 CHR ''s'' = 115" "b8 CHR ''2'' = 50" "b8 CHR ''4'' = 52" "b8 CHR ''G'' = 71"
  "b8 CHR ''M'' = 77" "b8 CHR ''T'' = 84" "b8 CHR ''('' = 40" "b8 CHR '')'' = 41"
  by (simp_all add: b8_def)

text \<open>A number of at least \<open>k\<close> decimal digits.\<close>

definition decimal :: "nat \<Rightarrow> nat \<Rightarrow> u8 list" where
  "decimal k n =
     (let ds = cvt_digits 10 hex n []; ds = (if ds = [] then [48] else ds) in replicate (k - length ds) 48 @ ds)"

lemma cvt_l_decimal:
  assumes "0 < k" "fill_sign type flags = sign"
  shows "cvt_l stuff_all xs n 0 (int k) 10 type flags hex = Inr (xs @ sign @ decimal k n)"
proof -
  have z: "b8 CHR ''0'' = 48" by (simp add: b8_def)
  have fill: "fill_n stuff_all xs src 0 (int k) type flags = Inr (xs @ sign @ replicate (k - length src) 48 @ src)" for src
  proof -
    have "(if sign = [] then Inr xs else stuff_all xs sign) = Inr (xs @ sign)" by (simp add: stuff_all_appends)
    moreover have "nat (if 0 < int k \<and> int (length src) < int k then int k - int (length src) else 0) = k - length src"
      by (simp add: nat_diff_distrib)
    ultimately show ?thesis
      unfolding fill_n_def Let_def assms(2) by (simp add: stuff_times_all stuff_all_appends z not_less)
  qed
  show ?thesis using assms(1) unfolding cvt_l_def Let_def decimal_def fill z by simp
qed

lemma bind_stuff_all:
  "bind_sum (stuff_all xs ys) f = f (xs @ ys)" "(case stuff_all xs ys of Inl e \<Rightarrow> Inl e | Inr ss \<Rightarrow> f ss) = f (xs @ ys)"
  by (simp_all add: stuff_all_def)

lemma loop_text:
  "c \<noteq> 0 \<Longrightarrow> c \<noteq> 37 \<Longrightarrow> dosprintf_loop env stuff_all pos None (c # fmt) args counts xs = dosprintf_loop env stuff_all pos None fmt args counts (xs @ [c])"
  by (simp add: bind_stuff_all printing_codes)

lemma loop_null: "dosprintf_loop env stuff_all pos None (0 # fmt) args counts xs = Inr (xs @ [0], counts)"
  by (simp add: bind_stuff_all)

lemma loop_string:
  "dosprintf_loop env stuff_all pos None (37 # 115 # fmt) (String_Arg (Some s) # args) counts xs = dosprintf_loop env stuff_all pos None fmt args counts (xs @ s)"
proof -
  have spec: "scan_spec (115 # fmt) as = Some (\<lparr>spec_flags = no_flags, spec_width = 0, spec_prec = - 1, spec_type = 2\<rparr>, 115 # fmt, as)" for as
    by (simp add: scan_spec_def no_flags_def star_or_int_def printing_codes)
  have "cvt_s stuff_all xs (Some s) 0 (- 1) no_flags = Inr (xs @ s)"
    by (simp add: cvt_s_def fill2_def no_flags_def bind_stuff_all)
  then have "convert env stuff_all pos d 115 \<lparr>spec_flags = no_flags, spec_width = 0, spec_prec = - 1, spec_type = 2\<rparr>
      (String_Arg (Some s) # args) counts xs = Inr (xs @ s, args, counts)" for d
    by (simp add: convert_def printing_codes printing_codes_date b8_def)
  then show ?thesis by (simp add: pick_args_def spec printing_codes)
qed

lemma loop_decimal:
  assumes "0 \<le> n" "k = 2 \<and> z = 50 \<or> k = 4 \<and> z = 52"
  shows "dosprintf_loop env stuff_all pos None (37 # 46 # z # 100 # fmt) (Int_Arg n # args) counts xs
    = dosprintf_loop env stuff_all pos None fmt args counts (xs @ decimal k (nat n))"
proof -
  have spec: "scan_spec (46 # z # 100 # fmt) as
      = Some (\<lparr>spec_flags = no_flags, spec_width = 0, spec_prec = int k, spec_type = 2\<rparr>, 100 # fmt, as)" for as
    using assms(2) by (elim disjE conjE) (simp_all add: scan_spec_def no_flags_def star_or_int_def printing_codes jsint_def)
  have "cvt_l stuff_all xs (nat n) 0 (int k) 10 2 no_flags hex = Inr (xs @ decimal k (nat n))"
    using cvt_l_decimal[of k 2 no_flags "[]" xs "nat n"] assms(2) by (auto simp: fill_sign_def no_flags_def)
  then have "convert env stuff_all pos d 100 \<lparr>spec_flags = no_flags, spec_width = 0, spec_prec = int k, spec_type = 2\<rparr>
      (Int_Arg n # args) counts xs = Inr (xs @ decimal k (nat n), args, counts)" for d
    using assms(1) by (simp add: convert_def convert_int_def b8_def TYPE_INT16_def TYPE_INTN_def)
  then show ?thesis by (simp add: pick_args_def spec printing_codes)
qed

lemma loop_signed:
  "dosprintf_loop env stuff_all pos None (37 # 43 # 46 # 52 # 100 # fmt) (Int_Arg n # args) counts xs
    = dosprintf_loop env stuff_all pos None fmt args counts (xs @ (if n < 0 then 45 else 43) # decimal 4 (nat \<bar>n\<bar>))"
proof -
  let ?flags = "no_flags\<lparr>FLAG_SIGNED := True\<rparr>"
  have spec: "scan_spec (43 # 46 # 52 # 100 # fmt) as
      = Some (\<lparr>spec_flags = ?flags, spec_width = 0, spec_prec = 4, spec_type = 2\<rparr>, 100 # fmt, as)" for as
    by (simp add: scan_spec_def no_flags_def star_or_int_def printing_codes jsint_def)
  have "cvt_l stuff_all xs (nat n) 0 (int 4) 10 2 ?flags hex = Inr (xs @ [43] @ decimal 4 (nat n))"
    by (rule cvt_l_decimal) (simp_all add: fill_sign_def no_flags_def printing_codes)
  moreover have "cvt_l stuff_all xs (nat (- n)) 0 (int 4) 10 2 (?flags\<lparr>FLAG_NEG := True\<rparr>) hex = Inr (xs @ [45] @ decimal 4 (nat (- n)))"
    by (rule cvt_l_decimal) (simp_all add: fill_sign_def no_flags_def printing_codes)
  ultimately have "convert env stuff_all pos d 100 \<lparr>spec_flags = ?flags, spec_width = 0, spec_prec = 4, spec_type = 2\<rparr>
      (Int_Arg n # args) counts xs = Inr (xs @ (if n < 0 then 45 else 43) # decimal 4 (nat \<bar>n\<bar>), args, counts)" for d
    by (simp add: convert_def convert_int_def b8_def TYPE_INT16_def TYPE_INTN_def)
  then show ?thesis by (simp add: pick_args_def spec printing_codes)
qed

lemma loop_decimals:
  "0 \<le> n \<Longrightarrow> dosprintf_loop env stuff_all pos None (37 # 46 # 50 # 100 # fmt) (Int_Arg n # args) counts xs
    = dosprintf_loop env stuff_all pos None fmt args counts (xs @ decimal 2 (nat n))"
  "0 \<le> n \<Longrightarrow> dosprintf_loop env stuff_all pos None (37 # 46 # 52 # 100 # fmt) (Int_Arg n # args) counts xs
    = dosprintf_loop env stuff_all pos None fmt args counts (xs @ decimal 4 (nat n))"
  by (rule loop_decimal; simp)+

lemmas loop_steps = loop_text loop_null loop_string loop_signed loop_decimals

text \<open>The formats of dates have no numbered arguments.\<close>

lemma plain_format: "first_pass fmt False 0 = Some (Some 0) \<Longrightarrow> dosprintf env stuff pos fmt args = dosprintf_loop env stuff pos None fmt args"
  by (simp add: dosprintf_def BuildArgArray_def fun_eq_iff)

lemma date_formats_plain:
  "first_pass (cstring ''%s, %.2d %s %.4d %.2d:%.2d:%.2d GMT'' @ [0]) False 0 = Some (Some 0)"
  "first_pass (cstring ''%s %s %.2d %.4d %.2d:%.2d:%.2d GMT%+.4d%s%s'' @ [0]) False 0 = Some (Some 0)"
  by code_simp+

section \<open>From bytes to characters\<close>

lemma inflate_ascii:
  assumes "\<forall>b\<in>set bs. b < 128" "room = None \<or> room = Some (length bs)"
  shows "inflate_utf8 bs room offset out = (out @ map ucast bs, None)"
  using assms
proof (induction bs arbitrary: room offset out)
  case (Cons b bs)
  have "ucast b < (0x80 :: u32)" using Cons.prems(1) by (simp add: word_less_nat_alt unsigned_ucast_eq take_bit_nat_eq_self)
  moreover from this have "\<not> (0x10000 :: u32) \<le> ucast b" by (simp add: word_le_nat_alt word_less_nat_alt)
  moreover note small_high_bit[OF calculation(1)]
  moreover have "ucast (ucast b :: u32) = (ucast b :: u16)"
    by (rule bit_word_eqI) (auto simp: bit_simps)
  ultimately have char: "utf8_char b bs offset = Inr (ucast b, 1)" "utf16_units (ucast b) = [ucast b]"
    by (simp_all add: utf8_char_def utf16_units_def)
  have room: "fits 1 room" "less_room room 1 = None \<or> less_room room 1 = Some (length bs)"
    using Cons.prems(2) by (auto simp: fits_def)
  have "\<forall>b\<in>set bs. b < 128" using Cons.prems(1) by simp
  from Cons.IH[OF this room(2)] show ?case using char room(1)
      \<open>\<not> 0x10000 \<le> ucast b\<close> by simp
qed simp


lemma new_string_ascii:
  assumes "\<forall>b\<in>set bs. b \<noteq> 0 \<and> b < 128" "\<forall>n. am n"
  shows "JS_NewStringCopyZ am (bs @ [0]) = Some (map ucast bs)"
proof -
  have "takeWhile (\<lambda>c. c \<noteq> 0) (bs @ [0]) = bs" using assms(1) by simp
  moreover have "inflate_utf8 bs None 0 [] = (map ucast bs, None)" "inflate_utf8 bs (Some (length bs)) 0 [] = (map ucast bs, None)"
    using assms(1) inflate_ascii[of bs] by simp_all
  ultimately show ?thesis
    using assms(2) by (simp add: JS_NewStringCopyZ_def js_InflateString_utf8_def js_InflateStringToBuffer_utf8_def)
qed

section \<open>Scanning what was printed\<close>

text \<open>Lower case of ASCII letters, as the table of characters has it.\<close>

definition ascii_tolower :: "(u16 \<Rightarrow> u16) \<Rightarrow> bool" where
  "ascii_tolower tolower \<longleftrightarrow> (\<forall>c<128. tolower c = (if 65 \<le> c \<and> c \<le> 90 then c + 32 else c))"

definition lower_char :: "char \<Rightarrow> int" where
  "lower_char c = (let n = of_char c in if 65 \<le> n \<and> n \<le> 90 then n + 32 else n)"

definition ascii :: "string \<Rightarrow> bool" where "ascii s \<longleftrightarrow> list_all (\<lambda>c. 0 < (of_char c :: int) \<and> (of_char c :: int) < 128) s"

lemma of_char_small: "(of_char c :: nat) < 256"
  using of_char_mod_256[of c, where 'a = nat] by (metis mod_less_divisor zero_less_numeral)

lemma unat_ch: "unat (ch c) = of_char c"
proof -
  have "unat (of_nat (of_char c) :: u16) = of_char c" using less_trans[OF of_char_small[of c], of "2 ^ 16"] unfolding unat_of_nat by simp
  then show ?thesis by (simp only: ch_def of_nat_of_char)
qed

lemma uint_ch: "uint (ch c) = of_char c"
proof -
  have "uint (ch c) = int (unat (ch c))" by simp
  also have "\<dots> = of_char c" unfolding unat_ch by (rule of_nat_of_char)
  finally show ?thesis .
qed

lemma lower_eq:
  assumes "ascii_tolower tolower" "(of_char c :: int) < 128" "(of_char d :: int) < 128"
  shows "tolower (ch c) = tolower (ch d) \<longleftrightarrow> lower_char c = lower_char d"
proof -
  have "uint (tolower (ch c)) = lower_char c" if "(of_char c :: int) < 128" for c
  proof -
    have "ch c < 128" using that by (simp add: word_less_def uint_ch)
    then have "tolower (ch c) = (if 65 \<le> ch c \<and> ch c \<le> 90 then ch c + 32 else ch c)" using assms(1) by (simp add: ascii_tolower_def)
    then show ?thesis using that by (auto simp: lower_char_def Let_def word_le_def uint_ch uint_word_ariths)
  qed
  from this[OF assms(2)] this[OF assms(3)] show ?thesis by (simp add: word_uint_eq_iff)
qed

lemma region_matches:
  assumes "ascii_tolower tolower" "ascii s1" "ascii w"
  shows "date_regionMatches tolower s1 (map ch w @ rest) (length w) True
    \<longleftrightarrow> map lower_char (take (length w) s1) = map lower_char w"
  using assms(2,3)
proof (induction s1 w rule: list_induct2')
  case (4 c s1 d w)
  then have "ch d \<noteq> 0" "(of_char c :: int) < 128" "(of_char d :: int) < 128"
    by (auto simp: ascii_def word_uint_eq_iff uint_ch)
  then show ?case using 4 lower_eq[OF assms(1)] by (simp add: ascii_def)
qed (simp_all add: ascii_def)

text \<open>The word that is found, and what a name of a day or a month is.\<close>

primrec word_index :: "string \<Rightarrow> nat \<Rightarrow> nat option" where
  "word_index w 0 = None"
| "word_index w (Suc k) = (if map lower_char (take (length w) (wtb ! k)) = map lower_char w then Some k else word_index w k)"

lemma wtb_ascii: "k < length wtb \<Longrightarrow> ascii (wtb ! k)"
proof -
  have "list_all ascii wtb" by code_simp
  then show "k < length wtb \<Longrightarrow> ascii (wtb ! k)" by (simp add: list_all_length)
qed

lemma find_word_index:
  assumes "ascii_tolower tolower" "ascii w" "k \<le> length wtb"
  shows "find_word tolower (map ch w @ rest) (length w) k = word_index w k"
  using assms(3) region_matches[OF assms(1) wtb_ascii assms(2)] by (induction k) auto

lemma names_found:
  "list_all (\<lambda>w. case word_index w (length wtb) of None \<Rightarrow> False | Some k \<Rightarrow> ttb ! k = 0) days"
  "map (\<lambda>w. map_option ((!) ttb) (word_index w (length wtb))) months = map Some [2..13]"
  "map_option ((!) ttb) (word_index ''GMT'' (length wtb)) = Some 10000"
  by code_simp+

definition digit8 :: "u8 \<Rightarrow> bool" where "digit8 d \<longleftrightarrow> 48 \<le> d \<and> d \<le> 57"

lemma decimal_digits: "\<forall>d\<in>set (decimal k n). digit8 d" "decimal k n \<noteq> []" "digits_value 10 (decimal k n) = n"
proof -
  have "\<forall>d\<in>set (cvt_digits 10 hex m []). digit8 d" for m
  proof (induction m rule: less_induct)
    case (less m)
    have "list_all (\<lambda>d. digit8 (hex ! d)) [0..<10]" by code_simp
    then have "digit8 (hex ! (m mod 10))" by (simp add: list_all_iff)
    then show ?case using less.IH[of "m div 10"] cvt_digits_snoc[of 10 m hex]
      by (cases "m = 0") (auto simp: cvt_digits.simps[of 10 hex 0])
  qed
  then show "\<forall>d\<in>set (decimal k n). digit8 d" by (auto simp: decimal_def Let_def digit8_def)
  show "decimal k n \<noteq> []" by (simp add: decimal_def Let_def)
  have "digit_value 48 = 0" by (simp add: digit_value_def b8_def)
  then have "digits_value 10 (replicate j 48 @ ds) = digits_value 10 ds" for j ds
    by (induction j) (simp_all add: digits_value_def)
  moreover have "digits_value 10 (cvt_digits 10 hex n []) = n" using cvt_digits_value[of 10 hex n 0] by simp
  ultimately show "digits_value 10 (decimal k n) = n"
    using \<open>digit_value 48 = 0\<close> by (auto simp: decimal_def Let_def digits_value_def)
qed

lemma unat_u16: "unat (ucast d :: u16) = unat (d :: u8)"
proof -
  have "unat d < 2 ^ LENGTH(8)" by (rule unsigned_less)
  then show ?thesis by (simp add: unsigned_ucast_eq take_bit_nat_eq_self)
qed

lemma digit_ucast: "is_digit16 (ucast d) \<longleftrightarrow> digit8 d"
  by (simp add: is_digit16_def digit8_def ch_def word_le_nat_alt unat_u16)

lemma read_digits:
  assumes "\<forall>d\<in>set ds. digit8 d" "rest = [] \<or> \<not> is_digit16 (hd rest)" "0 \<le> n"
    "foldl (\<lambda>v d. v * 10 + int (digit_value d)) n ds < 1000000000"
  shows "read_number n c (map ucast ds @ rest)
    = Some (foldl (\<lambda>v d. v * 10 + int (digit_value d)) n ds, if rest = [] then last (c # map ucast ds) else hd rest, rest)"
  using assms(1,3,4)
proof (induction ds arbitrary: n c)
  case Nil
  then show ?case using assms(2) by (cases rest) auto
next
  case (Cons d ds)
  have d: "48 \<le> unat d" "unat d \<le> 57" "digit_value d = unat d - 48"
    using Cons.prems(1) by (simp_all add: digit8_def word_le_nat_alt digit_value_def b8_def)
  let ?m = "n * 10 + int (digit_value d)"
  have grows: "n \<le> foldl (\<lambda>v d. v * 10 + int (digit_value d)) n ds" if "0 \<le> n" for n :: int and ds
    using that
  proof (induction ds arbitrary: n)
    case (Cons e es)
    have "n \<le> n * 10 + int (digit_value e)" using Cons.prems by simp
    also have "\<dots> \<le> foldl (\<lambda>v d. v * 10 + int (digit_value d)) (n * 10 + int (digit_value e)) es"
      using Cons.IH[of "n * 10 + int (digit_value e)"] Cons.prems by simp
    finally show ?case by simp
  qed simp
  have "?m < 1000000000" "0 \<le> ?m" using grows[of ?m ds] Cons.prems by simp_all
  then have ints: "jsint (n * 10) = Some (n * 10)" "jsint (n * 10 + int (unat d)) = Some (n * 10 + int (unat d))"
    "jsint (n * 10 + int (unat d) - 48) = Some ?m"
  proof -
    have "48 \<le> int (unat d)" "int (unat d) \<le> 57" "?m = n * 10 + int (unat d) - 48"
      unfolding d(3) using d(1,2) by linarith+
    then show "jsint (n * 10) = Some (n * 10)" "jsint (n * 10 + int (unat d)) = Some (n * 10 + int (unat d))"
      "jsint (n * 10 + int (unat d) - 48) = Some ?m"
      using Cons.prems(2) \<open>?m < 1000000000\<close> unfolding jsint_def by simp_all
  qed
  have "digit8 d" using Cons.prems(1) by simp
  then show ?case using ints Cons.IH[of ?m "ucast d"] Cons.prems \<open>0 \<le> ?m\<close> by (simp add: digit_ucast unat_u16)
qed

lemma scan_number:
  assumes "\<forall>d\<in>set ds. digit8 d" "ds \<noteq> []" "digits_value 10 ds < 1000000000" "rest = [] \<or> \<not> is_digit16 (hd rest)"
  shows "scan_loop tolower (map ucast ds @ rest) s
    = (case use_number (int (digits_value 10 ds)) (if rest = [] then ucast (last ds) else hd rest) (rest \<noteq> []) s of
         None \<Rightarrow> Some None
       | Some s \<Rightarrow> scan_loop tolower rest (s\<lparr>prevc := 0\<rparr>))"
proof -
  obtain d es where ds: "ds = d # es" using assms(2) by (cases ds) auto
  have d: "48 \<le> unat d" "unat d \<le> 57" "digit_value d = unat d - 48" "digit8 d"
    using assms(1) by (simp_all add: ds digit8_def word_le_nat_alt digit_value_def b8_def)
  have fold: "foldl (\<lambda>v d. v * 10 + int (digit_value d)) (int n) es = int (foldl (\<lambda>v c. v * 10 + digit_value c) n es)" for n es
  proof (induction es arbitrary: n)
    case (Cons a es)
    show ?case using Cons.IH[of "n * 10 + digit_value a"] by simp
  qed simp
  have "int (unat (ucast d :: u16)) - 48 = int (digit_value d)" using d by (simp add: unat_u16 of_nat_diff)
  then have "read_number (int (unat (ucast d :: u16)) - 48) (ucast d) (map ucast es @ rest)
      = Some (int (digits_value 10 ds), if rest = [] then ucast (last ds) else hd rest, rest)"
    using read_digits[of es rest "int (digit_value d)" "ucast d"] fold[of "digit_value d"] assms(1,3,4)
    by (simp add: ds digits_value_def last_map)
  moreover have "\<not> (ucast d :: u16) \<le> 32" "ucast d \<noteq> (44 :: u16)" "ucast d \<noteq> (45 :: u16)" "ucast d \<noteq> (40 :: u16)"
    using d(1) by (auto simp: word_le_nat_alt word_unat_eq_iff unat_u16)
  ultimately show ?thesis using d(4) by (simp add: ds ch_def digit_ucast)
qed

lemma scan_word:
  assumes "ascii_tolower tolower" "\<forall>c\<in>set w. is_letter16 (ch c)" "ascii w" "2 \<le> length w" "rest = [] \<or> \<not> is_letter16 (hd rest)"
    "word_index w (length wtb) = Some k"
  shows "scan_loop tolower (map ch w @ rest) s
    = (case use_word (ttb ! k) s of None \<Rightarrow> Some None | Some s \<Rightarrow> scan_loop tolower rest (s\<lparr>prevc := 0\<rparr>))"
proof -
  obtain c cs where w: "w = c # cs" using assms(4) by (cases w) auto
  have c: "is_letter16 (ch c)" using assms(2) by (simp add: w)
  have "takeWhile is_letter16 (map ch cs @ rest) = map ch cs" "dropWhile is_letter16 (map ch cs @ rest) = rest"
  proof -
    have all: "\<forall>c\<in>set (map ch cs). is_letter16 c" using assms(2) by (simp add: w)
    have "takeWhile is_letter16 rest = []" "dropWhile is_letter16 rest = rest" using assms(5) by (cases rest; simp)+
    then show "takeWhile is_letter16 (map ch cs @ rest) = map ch cs" "dropWhile is_letter16 (map ch cs @ rest) = rest"
      using all by (simp_all only: takeWhile_append2 dropWhile_append2 append_Nil2)
  qed
  moreover have "find_word tolower (ch c # map ch cs @ rest) (Suc (length cs)) (length wtb) = Some k"
    using find_word_index[OF assms(1,3) order_refl] assms(6) by (simp add: w)
  moreover have "\<not> ch c \<le> 32" "ch c \<noteq> 44" "ch c \<noteq> 45" "ch c \<noteq> 40" "\<not> is_digit16 (ch c)" "ch c \<noteq> 47" "ch c \<noteq> 58" "ch c \<noteq> 43"
    using c by (auto simp: is_letter16_def is_digit16_def ch_def word_le_nat_alt word_unat_eq_iff)
  moreover have "cs \<noteq> []" using assms(4) by (auto simp: w)
  ultimately show ?thesis by (simp add: w ch_def Let_def)
qed

section \<open>Scanning the parts of a text\<close>

definition number :: "nat \<Rightarrow> int \<Rightarrow> u16 list" where "number k n = map ucast (decimal k (nat n))"

lemma scan_printed:
  assumes "0 \<le> n" "n < 1000000000" "\<not> is_digit16 c"
  shows "scan_loop tolower (number k n @ c # rest) s
    = (case use_number n c True s of None \<Rightarrow> Some None | Some s \<Rightarrow> scan_loop tolower (c # rest) (s\<lparr>prevc := 0\<rparr>))"
  using scan_number[of "decimal k (nat n)" "c # rest" tolower s] decimal_digits[of k "nat n"] assms by (simp add: number_def)

lemma scan_separators:
  "scan_loop tolower (32 # cs) s = scan_loop tolower cs s"
  "scan_loop tolower (44 # cs) s = scan_loop tolower cs s"
  "scan_loop tolower (58 # cs) s = scan_loop tolower cs (s\<lparr>prevc := 58\<rparr>)"
  "scan_loop tolower (43 # cs) s = scan_loop tolower cs (s\<lparr>prevc := 43\<rparr>)"
  "is_digit16 d \<Longrightarrow> scan_loop tolower (45 # d # cs) s = scan_loop tolower (d # cs) (s\<lparr>prevc := 45\<rparr>)"
  by (simp_all add: ch_def is_digit16_def)

lemma scan_day_name:
  assumes "ascii_tolower tolower" "w \<in> set days" "\<not> is_letter16 c"
  shows "scan_loop tolower (map ch w @ c # rest) s = scan_loop tolower (c # rest) (s\<lparr>prevc := 0\<rparr>)"
proof -
  have "list_all (\<lambda>w. list_all (\<lambda>c. is_letter16 (ch c)) w \<and> ascii w \<and> length w = 3) days" by code_simp
  then have w: "\<forall>c\<in>set w. is_letter16 (ch c)" "ascii w" "length w = 3" using assms(2) by (simp_all add: list_all_iff)
  obtain k where "word_index w (length wtb) = Some k" "ttb ! k = 0"
    using names_found(1) assms(2) by (auto simp: list_all_iff split: option.splits)
  then show ?thesis using scan_word[OF assms(1) w(1,2), of "c # rest" k s] w(3) assms(3) by (simp add: use_word_def)
qed

lemma scan_month_name:
  assumes "ascii_tolower tolower" "0 \<le> m" "m \<le> 11" "\<not> is_letter16 c"
  shows "scan_loop tolower (map ch (months ! nat m) @ c # rest) s
    = (case use_word (m + 2) s of None \<Rightarrow> Some None | Some s \<Rightarrow> scan_loop tolower (c # rest) (s\<lparr>prevc := 0\<rparr>))"
proof -
  have "list_all (\<lambda>w. list_all (\<lambda>c. is_letter16 (ch c)) w \<and> ascii w \<and> length w = 3) months" by code_simp
  moreover have m: "nat m < length months" using assms(2,3) by (simp add: months_def)
  ultimately have w: "\<forall>c\<in>set (months ! nat m). is_letter16 (ch c)" "ascii (months ! nat m)" "length (months ! nat m) = 3"
    using nth_mem[OF m] unfolding list_all_iff by blast+
  have "map (\<lambda>w. map_option ((!) ttb) (word_index w (length wtb))) months ! nat m = map Some [2..13] ! nat m" by (simp only: names_found(2))
  then have "map_option ((!) ttb) (word_index (months ! nat m) (length wtb)) = Some (m + 2)" 
    using m assms(2,3) by (elim month_cases) simp_all
  then obtain k where "word_index (months ! nat m) (length wtb) = Some k" "ttb ! k = m + 2" by auto
  then show ?thesis using scan_word[OF assms(1) w(1,2), of "c # rest" k s] w(3) assms(4) by simp
qed

lemma scan_GMT:
  assumes "ascii_tolower tolower" "rest = [] \<or> \<not> is_letter16 (hd rest)"
  shows "scan_loop tolower (71 # 77 # 84 # rest) s = scan_loop tolower rest (s\<lparr>tzoffset := 0, prevc := 0\<rparr>)"
proof -
  have w: "\<forall>c\<in>set ''GMT''. is_letter16 (ch c)" "ascii ''GMT''" by (simp_all add: is_letter16_def ch_def ascii_def)
  obtain k where k: "word_index ''GMT'' (length wtb) = Some k" "ttb ! k = 10000" using names_found(3) by auto
  show ?thesis using scan_word[OF assms(1) w, of rest k s] assms(2) k by (simp add: use_word_def ch_def)
qed

text \<open>The date and the time, in the order of both formats.\<close>

lemma scan_time:
  assumes "ascii_tolower tolower" "clock h mi sc ms" "rest = [] \<or> \<not> is_letter16 (hd rest)"
    "hour s = - 1" "minute s = - 1" "sec s = - 1" "prevc s = 0" "\<not> seenplusminus s"
  shows "scan_loop tolower (number 2 h @ 58 # number 2 mi @ 58 # number 2 sc @ 32 # 71 # 77 # 84 # rest) s
    = scan_loop tolower rest (s\<lparr>hour := h, minute := mi, sec := sc, tzoffset := 0, prevc := 0\<rparr>)"
proof -
  have b: "0 \<le> h" "h < 1000000000" "0 \<le> mi" "mi < 1000000000" "0 \<le> sc" "sc < 1000000000"
    using assms(2) by (auto simp: clock_def)
  have c: "\<not> is_digit16 58" "\<not> is_digit16 32" by (simp_all add: is_digit16_def ch_def)
  note n = scan_printed[OF b(1,2) c(1)] scan_printed[OF b(3,4) c(1)] scan_printed[OF b(5,6) c(2)]
  show ?thesis using b assms(4-8)
    by (simp add: n scan_separators scan_GMT[OF assms(1,3)] use_number_def ch_def del: scan_loop.simps)
qed

lemma civil_days: "civil y m d \<Longrightarrow> d \<le> 31"
  by (auto simp: civil_def elim!: month_cases simp: month_start_value split: if_splits)

lemma scan_gmt_date:
  assumes "ascii_tolower tolower" "w \<in> set days" "civil y m d" "100 \<le> y" "y < 1000000"
  shows "scan_loop tolower (map ch w @ 44 # 32 # number 2 d @ 32 # map ch (months ! nat m) @ 32 # number 4 y @ 32 # rest) scan_start
    = scan_loop tolower rest (scan_start\<lparr>year := y, mon := m + 1, mday := d, seenmonthname := True\<rparr>)"
proof -
  have b: "0 \<le> d" "d < 1000000000" "0 \<le> y" "y < 1000000000" and m: "0 \<le> m" "m \<le> 11" and d: "1 \<le> d"
    using assms(3-5) civil_days[OF assms(3)] by (auto simp: civil_def)
  have c: "\<not> is_digit16 32" "\<not> is_letter16 32" "\<not> is_letter16 44" by (simp_all add: is_digit16_def is_letter16_def ch_def)
  note parts = scan_printed[OF b(1,2) c(1)] scan_printed[OF b(3,4) c(1)] scan_day_name[OF assms(1,2) c(2)] scan_day_name[OF assms(1,2) c(3)]
    scan_month_name[OF assms(1) m c(2)]
  show ?thesis using b m d
    by (simp add: parts scan_separators use_number_def use_word_def scan_start_def ch_def del: scan_loop.simps)
qed

lemma scan_local_date:
  assumes "ascii_tolower tolower" "w \<in> set days" "civil y m d" "100 \<le> y" "y < 1000000"
  shows "scan_loop tolower (map ch w @ 32 # map ch (months ! nat m) @ 32 # number 2 d @ 32 # number 4 y @ 32 # rest) scan_start
    = scan_loop tolower rest (scan_start\<lparr>year := y, mon := m + 1, mday := d, seenmonthname := True\<rparr>)"
proof -
  have b: "0 \<le> d" "d < 1000000000" "0 \<le> y" "y < 1000000000" and m: "0 \<le> m" "m \<le> 11" and d: "1 \<le> d"
    using assms(3-5) civil_days[OF assms(3)] by (auto simp: civil_def)
  have c: "\<not> is_digit16 32" "\<not> is_letter16 32" "\<not> is_letter16 44" by (simp_all add: is_digit16_def is_letter16_def ch_def)
  note parts = scan_printed[OF b(1,2) c(1)] scan_printed[OF b(3,4) c(1)] scan_day_name[OF assms(1,2) c(2)] scan_day_name[OF assms(1,2) c(3)]
    scan_month_name[OF assms(1) m c(2)]
  show ?thesis using b m d
    by (simp add: parts scan_separators use_number_def use_word_def scan_start_def ch_def del: scan_loop.simps)
qed

lemma skip_unclosed: "\<forall>c\<in>set cs. c \<noteq> 40 \<and> c \<noteq> 41 \<Longrightarrow> skip_comment cs depth = []"
  by (induction cs) (simp_all add: ch_def)

lemma skip_closed: "\<forall>c\<in>set cs. c \<noteq> 40 \<and> c \<noteq> 41 \<Longrightarrow> skip_comment (cs @ [41]) 1 = []"
  by (induction cs) (simp_all add: ch_def)

text \<open>The name of the zone is skipped, as a comment, also when its end is cut off.\<close>

definition no_parens :: "u8 list \<Rightarrow> bool" where "no_parens cs \<longleftrightarrow> (\<forall>c\<in>set cs. c \<noteq> 40 \<and> c \<noteq> 41)"

lemma scan_comment:
  assumes "no_parens name"
  shows "scan_loop tolower (map ucast (take j (32 # 40 # name @ [41]))) s = Some (Some s)"
proof -
  have "(ucast c :: u16) \<noteq> 40 \<and> (ucast c :: u16) \<noteq> 41" if "c \<noteq> 40 \<and> c \<noteq> 41" for c :: u8
    using that by (auto simp: word_unat_eq_iff unat_u16)
  then have plain: "\<forall>c\<in>set (map ucast (take k name)). (c :: u16) \<noteq> 40 \<and> c \<noteq> 41" for k
    using assms by (auto simp: no_parens_def dest: in_set_takeD)
  have paren: "scan_loop tolower (40 # cs) s = scan_loop tolower (skip_comment cs 1) s" for cs
    by (simp add: ch_def is_digit16_def)
  consider "j = 0" | "j = 1" | k where "j = Suc (Suc k)" "k \<le> length name" | k where "j = Suc (Suc k)" "length name < k"
    by (metis One_nat_def not_less old.nat.exhaust)
  then show ?thesis
  proof cases
    case 3
    then show ?thesis using skip_unclosed[OF plain[of k]] by (simp add: scan_separators paren del: scan_loop.simps(2))
  next
    case 4
    then have "map ucast (take j (32 # 40 # name @ [41])) = (32 :: u16) # 40 # map ucast name @ [41]" by simp
    then show ?thesis using skip_closed[of "map ucast name"] plain[of "length name"]
      by (simp add: scan_separators paren del: scan_loop.simps(2))
  qed (simp_all add: ch_def)
qed

lemma scan_zone:
  assumes "0 \<le> n" "n < 1000000000" "rest = [] \<or> \<not> is_digit16 (hd rest)" "tzoffset s = 0" "prevc s = 0"
  shows "scan_loop tolower ((if neg then 45 else 43) # number 4 n @ rest) s
    = scan_loop tolower rest (s\<lparr>seenplusminus := True,
        tzoffset := (let v = (if n < 24 then n * 60 else n smod 100 + n sdiv 100 * 60) in if neg then v else - v), prevc := 0\<rparr>)"
proof -
  note num = scan_number[OF decimal_digits(1,2), of 4 "nat n" rest tolower, folded number_def, unfolded decimal_digits(3)]
  obtain d ds where d: "number 4 n = d # ds" "is_digit16 d"
  proof -
    obtain e es where "decimal 4 (nat n) = e # es" using decimal_digits(2)[of 4 "nat n"] by (cases "decimal 4 (nat n)") auto
    then show thesis using that[of "ucast e" "map ucast es"] decimal_digits(1)[of 4 "nat n"] by (simp add: number_def digit_ucast)
  qed
  have "scan_loop tolower (45 # number 4 n @ rest) s = scan_loop tolower (number 4 n @ rest) (s\<lparr>prevc := 45\<rparr>)"
    using scan_separators(5)[OF d(2), of tolower "ds @ rest" s] d(1) by simp
  moreover have "nat n < 1000000000" using assms(1,2) by linarith
  ultimately show ?thesis using assms
    by (simp add: scan_separators num use_number_def ch_def Let_def del: scan_loop.simps)
qed

text \<open>The offset of a zone, in hours times 100 and minutes.\<close>

lemma quotients_of_nat:
  "0 \<le> k \<Longrightarrow> k sdiv c = k div c" "0 \<le> k \<Longrightarrow> k smod c = k mod c" "0 \<le> k \<Longrightarrow> (- k) sdiv c = - (k div c)" "0 \<le> k \<Longrightarrow> (- k) smod c = - (k mod c)"
  if "0 < c" for k c :: int
  using that by (auto simp: signed_divide_int_def signed_modulo_int_def sgn_if minus_div_mult_eq_mod split: if_splits)

definition zone_minutes :: "int \<Rightarrow> int" where
  "zone_minutes m = (if \<bar>m\<bar> < 24 then - (m * 60) else - m)"

lemma offset_parts:
  defines "off \<equiv> \<lambda>m. (m sdiv 60) * 100 + m smod 60"
  shows "off m < 0 \<longleftrightarrow> m < 0" "\<bar>off m\<bar> = \<bar>m\<bar> div 60 * 100 + \<bar>m\<bar> mod 60"
    "(let v = (if \<bar>off m\<bar> < 24 then \<bar>off m\<bar> * 60 else \<bar>off m\<bar> smod 100 + \<bar>off m\<bar> sdiv 100 * 60) in if m < 0 then v else - v) = zone_minutes m"
proof -
  define k where "k = \<bar>m\<bar>"
  define h r where "h = k div 60" and "r = k mod 60"
  have k: "k = h * 60 + r" "0 \<le> h" "0 \<le> r" "r < 60" by (simp_all add: h_def r_def k_def)
  have m: "m = (if m < 0 then - k else k)" "0 \<le> k" by (simp_all add: k_def)
  have off: "off m = (if m < 0 then - (h * 100 + r) else h * 100 + r)"
    using m quotients_of_nat[of 60 k] by (cases "m < 0") (simp_all add: off_def h_def r_def)
  have "k \<le> h * 100 + r" using k by linarith
  then have pos: "0 \<le> h * 100 + r" "0 < k \<Longrightarrow> 0 < h * 100 + r" "k = 0 \<Longrightarrow> h * 100 + r = 0" using m(2) k by linarith+
  show sign: "off m < 0 \<longleftrightarrow> m < 0"
  proof (cases "m < 0")
    case True
    then show ?thesis using off pos(2) by (simp add: k_def)
  next
    case False
    then show ?thesis using off pos(1) by simp
  qed
  show abs: "\<bar>off m\<bar> = \<bar>m\<bar> div 60 * 100 + \<bar>m\<bar> mod 60"
    unfolding off k_def[symmetric] h_def[symmetric] r_def[symmetric] using pos(1) by simp
  have abs: "\<bar>off m\<bar> = h * 100 + r" using abs by (simp add: k_def h_def r_def)
  have "(h * 100 + r) div 100 = h" "(h * 100 + r) mod 100 = r" using k by simp_all
  then have parts: "(h * 100 + r) sdiv 100 = h" "(h * 100 + r) smod 100 = r"
    using quotients_of_nat[of 100 "h * 100 + r"] k by simp_all
  have "(if h * 100 + r < 24 then (h * 100 + r) * 60 else r + h * 60) = (if k < 24 then k * 60 else k)"
  proof (cases "k < 24")
    case True
    then have "h = 0" using k by presburger
    then show ?thesis using k(1) True by simp
  next
    case False
    then have "\<not> h * 100 + r < 24" using \<open>k \<le> h * 100 + r\<close> by linarith
    then show ?thesis using k(1) False by simp
  qed
  then show "(let v = (if \<bar>off m\<bar> < 24 then \<bar>off m\<bar> * 60 else \<bar>off m\<bar> smod 100 + \<bar>off m\<bar> sdiv 100 * 60) in if m < 0 then v else - v) = zone_minutes m"
    unfolding abs parts zone_minutes_def Let_def k_def[symmetric] by (cases "m < 0") (simp_all add: k_def)
qed

section \<open>The texts\<close>

lemma date_parse_scanned:
  assumes "scan_loop tolower text scan_start = Some (Some s)" "text \<noteq> []"
    "year s = y" "mon s = m + 1" "mday s = d" "hour s = h" "minute s = mi" "sec s = sc" "tzoffset s = tz" "seenmonthname s"
    "civil y m d" "clock h mi sc ms" "100 \<le> y" "y < 1000000" "tz \<noteq> - 1" "\<bar>civil_time y m d h mi sc 0 + tz * 60000\<bar> \<le> 8640000000000000"
  shows "date_parse env tolower text = Some (of_integer (civil_time y m d h mi sc 0 + tz * 60000))"
proof -
  have b: "0 \<le> m" "1 \<le> d" "d \<le> 31" "0 \<le> h" "0 \<le> mi" "0 \<le> sc"
    using assms(11,12) civil_days[OF assms(11)] by (auto simp: civil_def clock_def)
  have choose: "choose_date s = Some s"
    using assms(3-5,10,13) b unfolding choose_date_def by simp
  have "\<bar>y + m div 12\<bar> \<le> 2147483647" using assms(13,14) civil_month[OF assms(11)] by simp
  from date_msecFromDate_int[OF this, of d h mi sc 0]
  have "date_msecFromDate (of_int y) (of_int m) (of_int d) (of_int h) (of_int mi) (of_int sc) 0 = Some (of_int (civil_time y m d h mi sc 0))"
    by simp
  then have "date_parseString env tolower text = Some (Some (of_int (civil_time y m d h mi sc 0) + of_int tz * msPerMinute))"
    using assms(1-9,13,15) b choose unfolding date_parseString_def by (simp add: Let_def)
  also have "of_int (civil_time y m d h mi sc 0) + of_int tz * msPerMinute = (of_int (civil_time y m d h mi sc 0 + tz * 60000) :: rat)"
    by (simp add: msPerMinute_def msPerSecond_def)
  finally show ?thesis using TIMECLIP_int[OF assms(16)] by (simp add: date_parse_def)
qed

text \<open>The bytes of a text are ASCII, and few.\<close>

definition plain8 :: "u8 list \<Rightarrow> bool" where "plain8 bs \<longleftrightarrow> (\<forall>b\<in>set bs. b \<noteq> 0 \<and> b < 128)"

lemma plain8_simps [simp]:
  "plain8 []" "plain8 (b # bs) \<longleftrightarrow> b \<noteq> 0 \<and> b < 128 \<and> plain8 bs" "plain8 (as @ bs) \<longleftrightarrow> plain8 as \<and> plain8 bs" "plain8 (decimal k n)"
proof -
  show "plain8 (decimal k n)" using decimal_digits(1)[of k n]
    by (auto simp: plain8_def digit8_def word_le_nat_alt word_less_nat_alt)
qed (auto simp: plain8_def)

lemma decimal_length: "n < 10 ^ j \<Longrightarrow> 0 < j \<Longrightarrow> length (decimal k n) \<le> max k j"
  using cvt_digits_value[of 10 hex n j] by (auto simp: decimal_def Let_def)

lemma ucast_cstring: "map ucast (cstring w) = map ch w"
proof -
  have "ucast (b8 c) = ch c" for c
  proof -
    have "unat (b8 c) = of_char c"
    proof -
      have "unat (of_nat (of_char c) :: u8) = of_char c" using of_char_small[of c] unfolding unat_of_nat by simp
      then show ?thesis by (simp only: b8_def of_nat_of_char)
    qed
    then show "ucast (b8 c) = ch c" by (simp add: word_unat_eq_iff unat_u16 unat_ch)
  qed
  then show ?thesis by (simp add: cstring_def)
qed

lemma names_plain:
  "w \<in> set days \<Longrightarrow> plain8 (cstring w) \<and> length (cstring w) = 3" "w \<in> set months \<Longrightarrow> plain8 (cstring w) \<and> length (cstring w) = 3"
proof -
  have "list_all (\<lambda>w. list_all (\<lambda>b. b \<noteq> 0 \<and> b < 128) (cstring w) \<and> length (cstring w) = 3) (days @ months)" by code_simp
  then show "w \<in> set days \<Longrightarrow> plain8 (cstring w) \<and> length (cstring w) = 3" "w \<in> set months \<Longrightarrow> plain8 (cstring w) \<and> length (cstring w) = 3"
    by (auto simp: list_all_iff plain8_def)
qed

definition time_bytes :: "int \<Rightarrow> int \<Rightarrow> int \<Rightarrow> u8 list" where
  "time_bytes h mi sc = decimal 2 (nat h) @ 58 # decimal 2 (nat mi) @ 58 # decimal 2 (nat sc) @ [32, 71, 77, 84]"

lemma gmt_printed:
  assumes "0 \<le> d" "0 \<le> y" "0 \<le> h" "0 \<le> mi" "0 \<le> sc"
  shows "dosprintf env stuff_all pos (cstring ''%s, %.2d %s %.4d %.2d:%.2d:%.2d GMT'' @ [0])
      [String_Arg (Some w), Int_Arg d, String_Arg (Some w'), Int_Arg y, Int_Arg h, Int_Arg mi, Int_Arg sc] [] []
    = Inr ((w @ 44 # 32 # decimal 2 (nat d) @ 32 # w' @ 32 # decimal 4 (nat y) @ 32 # time_bytes h mi sc) @ [0], [])"
  unfolding plain_format[OF date_formats_plain(1)]
  using assms by (simp add: cstring_def b8_def loop_steps time_bytes_def del: dosprintf_loop.simps)

lemma local_printed:
  assumes "0 \<le> d" "0 \<le> y" "0 \<le> h" "0 \<le> mi" "0 \<le> sc"
  shows "dosprintf env stuff_all pos (cstring ''%s %s %.2d %.4d %.2d:%.2d:%.2d GMT%+.4d%s%s'' @ [0])
      [String_Arg (Some w), String_Arg (Some w'), Int_Arg d, Int_Arg y, Int_Arg h, Int_Arg mi, Int_Arg sc, Int_Arg off,
       String_Arg (Some c), String_Arg (Some c')] [] []
    = Inr ((w @ 32 # w' @ 32 # decimal 2 (nat d) @ 32 # decimal 4 (nat y) @ 32 # time_bytes h mi sc
        @ (if off < 0 then 45 else 43) # decimal 4 (nat \<bar>off\<bar>) @ c @ c') @ [0], [])"
  unfolding plain_format[OF date_formats_plain(2)]
  using assms by (simp add: cstring_def b8_def loop_steps time_bytes_def del: dosprintf_loop.simps)

lemma year_from_100:
  assumes "civil y m d" "n = civil_time y m d h mi sc ms" "clock h mi sc ms" "- 59011459200000 \<le> n"
  shows "100 \<le> y"
proof (rule ccontr)
  assume "\<not> 100 \<le> y"
  then have "first_day (y + 1) \<le> first_day 100" by (intro first_day_mono) simp
  moreover have "first_day 100 = - 683003" by (simp add: first_day_def)
  moreover have "day_number y m d = n div 86400000"
    using clock_parts(1)[OF assms(3), of "day_number y m d", folded civil_time_def] assms(2) by simp
  moreover have "- 683003 \<le> n div 86400000" using zdiv_mono1[OF assms(4), of 86400000] by simp
  ultimately show False using civil_day(2)[OF assms(1)] by linarith
qed

text \<open>The fields of a time whose text can be parsed.\<close>

lemma text_fields:
  assumes "\<bar>n\<bar> \<le> 8700000000000000" "- 59011459200000 \<le> n"
  obtains y m d h mi sc ms where "has_fields (of_int n) y m d h mi sc ms" "civil y m d" "clock h mi sc ms"
    "100 \<le> y" "y < 1000000" "civil_time y m d h mi sc 0 = n - n mod 1000"
    "WeekDay (of_int n) = Some w \<Longrightarrow> days ! nat w \<in> set days" "months ! nat m \<in> set months"
    "0 \<le> m" "m \<le> 11" "0 \<le> d" "0 \<le> y" "0 \<le> h" "0 \<le> mi" "0 \<le> sc"
proof -
  have range: "in_range (of_int n)" unfolding in_range_int using assms(1) by linarith
  obtain y m d h mi sc ms where f: "has_fields (of_int n) y m d h mi sc ms" "civil y m d" "clock h mi sc ms"
    "n = civil_time y m d h mi sc ms" "\<bar>y\<bar> \<le> 300000"
    by (rule fields_civil[OF range])
  have y: "100 \<le> y" by (rule year_from_100[OF f(2,4,3) assms(2)])
  have "n mod 1000 = ms" using clock_parts(5)[OF f(3), of "day_number y m d", folded civil_time_def] f(4) by simp
  moreover have "civil_time y m d h mi sc 0 = civil_time y m d h mi sc ms - ms" by (simp add: civil_time_def)
  moreover have "days ! nat w \<in> set days" if "WeekDay (of_int n) = Some w"
  proof -
    have "w = (Day (of_int n) + 4) mod 7" using that WeekDay_mod[OF range] by simp
    then have "nat w < length days" by (simp add: days_def nat_less_iff)
    then show ?thesis by (rule nth_mem)
  qed
  moreover have "months ! nat m \<in> set months" 
  proof (rule nth_mem)
    have "length months = 12" by (simp add: months_def)
    then show "nat m < length months" using f(2) by (simp add: civil_def nat_less_iff)
  qed
  ultimately show thesis using f y
    by (intro that[of y m d h mi sc ms]) (simp_all add: civil_def clock_def)
qed

lemma text_lengths:
  assumes "w \<in> set days" "w' \<in> set months" "civil y m d" "clock h mi sc ms" "y < 1000000"
  shows "length (cstring w) = 3" "length (cstring w') = 3" "length (decimal 2 (nat d)) \<le> 2" "length (decimal 4 (nat y)) \<le> 6"
    "length (time_bytes h mi sc) \<le> 12"
proof -
  have "length (decimal 2 (nat h)) \<le> 2" "length (decimal 2 (nat mi)) \<le> 2" "length (decimal 2 (nat sc)) \<le> 2"
    using assms(4) decimal_length[of "nat h" 2 2] decimal_length[of "nat mi" 2 2] decimal_length[of "nat sc" 2 2]
    by (auto simp: clock_def nat_less_iff)
  then show "length (time_bytes h mi sc) \<le> 12" by (simp add: time_bytes_def)
  show "length (cstring w) = 3" "length (cstring w') = 3" "length (decimal 2 (nat d)) \<le> 2" "length (decimal 4 (nat y)) \<le> 6"
    using names_plain(1)[OF assms(1)] names_plain(2)[OF assms(2)] assms(5) civil_days[OF assms(3)]
      decimal_length[of "nat d" 2 2] decimal_length[of "nat y" 6 4]
    by (auto simp: nat_less_iff)
qed

lemma gmt_text_parses:
  assumes "ascii_tolower tolower" "\<forall>k. allocator penv k" "\<bar>n\<bar> \<le> 8640000000000000" "- 59011459200000 \<le> n"
  shows "\<exists>text. date_toGMTString penv (of_integer n) = Some (Some text)
    \<and> date_parse env tolower text = Some (of_integer (1000 * (n div 1000)))"
proof -
  have big: "\<bar>n\<bar> \<le> 8700000000000000" using assms(3) by linarith
  then have range: "in_range (of_int n)" unfolding in_range_int by linarith
  define w where "w = (Day (of_int n) + 4) mod 7"
  have week: "WeekDay (of_int n) = Some w" using WeekDay_mod[OF range] by (simp add: w_def)
  obtain y m d h mi sc ms where f: "has_fields (of_int n) y m d h mi sc ms" "civil y m d" "clock h mi sc ms"
    "100 \<le> y" "y < 1000000" "civil_time y m d h mi sc 0 = n - n mod 1000"
    "days ! nat w \<in> set days" "months ! nat m \<in> set months" "0 \<le> m" "m \<le> 11" "0 \<le> d" "0 \<le> y" "0 \<le> h" "0 \<le> mi" "0 \<le> sc"
    by (rule text_fields[OF big assms(4), of w]) (use week in auto)
  define bytes where "bytes = cstring (days ! nat w) @ 44 # 32 # decimal 2 (nat d) @ 32 # cstring (months ! nat m) @ 32 # decimal 4 (nat y) @ 32
    # time_bytes h mi sc"
  have plain: "plain8 bytes" using names_plain(1)[OF f(7)] names_plain(2)[OF f(8)] by (simp add: bytes_def time_bytes_def)
  have short: "length bytes \<le> 99" using text_lengths[OF f(7,8,2,3,5)] by (simp add: bytes_def)
  have fields: "YearFromTime (of_int n) = Some y" "MonthFromTime (of_int n) = Some m" "DateFromTime (of_int n) = Some d"
    "HourFromTime (of_int n) = h" "MinFromTime (of_int n) = mi" "SecFromTime (of_int n) = sc"
    using f(1) by (auto simp: has_fields_def)
  have printed: "date_toGMTString penv (of_integer n) = Some (Some (map ucast bytes))"
    using vsnprintf_all[OF gmt_printed[OF f(11-15)], of 100 penv "cstring (days ! nat w)" "cstring (months ! nat m)", folded bytes_def]
      new_string_ascii[of bytes "allocator penv"] plain short assms(2)
    by (simp add: date_toGMTString_def of_integer_def week fields plain8_def)
  have shown: "map ucast bytes = map ch (days ! nat w) @ 44 # 32 # number 2 d @ 32 # map ch (months ! nat m) @ 32 # number 4 y @ 32
      # number 2 h @ 58 # number 2 mi @ 58 # number 2 sc @ 32 # 71 # 77 # 84 # []"
    by (simp add: bytes_def time_bytes_def number_def ucast_cstring)
  let ?s = "scan_start\<lparr>year := y, mon := m + 1, mday := d, seenmonthname := True\<rparr>"
  have scanned: "scan_loop tolower (map ucast bytes) scan_start = Some (Some (?s\<lparr>hour := h, minute := mi, sec := sc, tzoffset := 0, prevc := 0\<rparr>))"
    unfolding shown using scan_gmt_date[OF assms(1) f(7,2,4,5)] scan_time[OF assms(1) f(3), of "[]" ?s] by (simp add: scan_start_def)
  have small: "\<bar>civil_time y m d h mi sc 0 + 0 * 60000\<bar> \<le> 8640000000000000"
    using f(6) assms(3,4) pos_mod_sign[of 1000 n] pos_mod_bound[of 1000 n] by linarith
  have "date_parse env tolower (map ucast bytes) = Some (of_integer (civil_time y m d h mi sc 0 + 0 * 60000))"
    by (rule date_parse_scanned[OF scanned _ _ _ _ _ _ _ _ _ f(2,3,4,5) _ small]) (simp_all add: bytes_def)
  then show ?thesis using printed f(6) by (simp add: minus_mod_eq_mult_div)
qed

text \<open>The name of a zone, when it is used, is a comment without more parentheses.\<close>

definition zone_ok :: "(PRMJTime \<Rightarrow> u8 list option) \<Rightarrow> bool" where
  "zone_ok zone \<longleftrightarrow> (\<forall>p tz. zone p = Some tz \<and> usable_zone tz \<longrightarrow> (\<exists>name. tz = 40 # name @ [41] \<and> no_parens name))"

lemma usable_plain: "usable_zone tz \<Longrightarrow> plain8 tz"
proof -
  have "c \<noteq> 0 \<and> c < 128" if "is_alnum8 c \<or> c = b8 CHR '' '' \<or> c = b8 CHR ''('' \<or> c = b8 CHR '')''" for c
    using that by (auto simp: is_alnum8_def b8_def word_le_nat_alt word_less_nat_alt)
  then show "usable_zone tz \<Longrightarrow> plain8 tz" by (auto simp: usable_zone_def plain8_def)
qed

lemma explode_runs:
  assumes "in_range t" "has_fields t y m d h mi sc ms"
  obtains p where "new_explode env t True = Some p"
proof -
  obtain u where "DaylightSavingTA env t = Some u" using DST_of_range[OF assms(1)] by blast
  moreover have "MonthFromTime t = Some m" "YearFromTime t = Some y" "DateFromTime t = Some d"
    using assms(2) by (simp_all add: has_fields_def)
  moreover from this obtain yd where "DayWithinYear t y = Some yd" by (auto simp: MonthFromTime_def split: Option.bind_splits)
  ultimately show thesis using that WeekDay_mod[OF assms(1)] by (simp add: new_explode_def Let_def)
qed

text \<open>The parts of the text of a local time: the offset, the comment, and the time that is parsed.\<close>

lemma offset_facts:
  assumes "\<bar>z\<bar> < 1440"
  defines "off \<equiv> (z sdiv 60) * 100 + z smod 60"
  shows "off < 0 \<longleftrightarrow> z < 0" "\<bar>off\<bar> < 1000000000" "zone_minutes z \<noteq> - 1" "\<bar>zone_minutes z\<bar> \<le> 1440"
    "(let v = (if \<bar>off\<bar> < 24 then \<bar>off\<bar> * 60 else \<bar>off\<bar> smod 100 + \<bar>off\<bar> sdiv 100 * 60) in if z < 0 then v else - v) = zone_minutes z"
proof -
  show "off < 0 \<longleftrightarrow> z < 0" by (rule offset_parts(1)[of z, folded off_def])
  show "(let v = (if \<bar>off\<bar> < 24 then \<bar>off\<bar> * 60 else \<bar>off\<bar> smod 100 + \<bar>off\<bar> sdiv 100 * 60) in if z < 0 then v else - v) = zone_minutes z"
    by (rule offset_parts(3)[of z, folded off_def])
  have "\<bar>z\<bar> div 60 \<le> 1440 div 60" by (rule zdiv_mono1) (use assms(1) in simp_all)
  then show "\<bar>off\<bar> < 1000000000"
    unfolding offset_parts(2)[of z, folded off_def] using pos_mod_bound[of 60 "\<bar>z\<bar>"] by simp
  have "- (z * 60) \<noteq> - 1" by presburger
  then show "zone_minutes z \<noteq> - 1" by (auto simp: zone_minutes_def)
  show "\<bar>zone_minutes z\<bar> \<le> 1440" using assms(1) by (auto simp: zone_minutes_def)
qed

definition comment_bytes :: "u8 list option \<Rightarrow> u8 list" where
  "comment_bytes tz = (if tz \<noteq> None then [32] else []) @ (case tz of Some tzbuf \<Rightarrow> tzbuf | None \<Rightarrow> [])"

lemma comment_shape:
  assumes "zone_ok zone" "tz = (case zone p of None \<Rightarrow> None | Some tzbuf \<Rightarrow> if usable_zone tzbuf then Some tzbuf else None)"
  obtains name j where "comment_bytes tz = take j (32 # 40 # name @ [41])" "no_parens name" "plain8 (comment_bytes tz)"
proof (cases tz)
  case None
  then show thesis using that[of 0 "[]"] by (simp add: comment_bytes_def no_parens_def)
next
  case (Some tzbuf)
  then have "zone p = Some tzbuf" "usable_zone tzbuf" using assms(2) by (auto split: option.splits if_splits)
  moreover from this obtain name where "tzbuf = 40 # name @ [41]" "no_parens name" using assms(1) by (auto simp: zone_ok_def)
  ultimately show thesis using that[of "length name + 3" name] usable_plain[of tzbuf] Some by (simp add: comment_bytes_def)
qed

definition local_bytes :: "int \<Rightarrow> int \<Rightarrow> int \<Rightarrow> int \<Rightarrow> int \<Rightarrow> int \<Rightarrow> int \<Rightarrow> int \<Rightarrow> u8 list" where
  "local_bytes w y m d h mi sc off =
     cstring (days ! nat w) @ 32 # cstring (months ! nat m) @ 32 # decimal 2 (nat d) @ 32 # decimal 4 (nat y) @ 32
       # time_bytes h mi sc @ (if off < 0 then 45 else 43) # decimal 4 (nat \<bar>off\<bar>)"

lemma scan_local:
  assumes "ascii_tolower tolower" "days ! nat w \<in> set days" "civil y m d" "clock h mi sc ms" "100 \<le> y" "y < 1000000" "\<bar>z\<bar> < 1440" "no_parens name"
  shows "scan_loop tolower (map ucast (local_bytes w y m d h mi sc ((z sdiv 60) * 100 + z smod 60) @ take j (32 # 40 # name @ [41]))) scan_start
    = Some (Some (scan_start\<lparr>year := y, mon := m + 1, mday := d, seenmonthname := True, hour := h, minute := mi, sec := sc,
        tzoffset := 0, prevc := 0, seenplusminus := True, tzoffset := zone_minutes z, prevc := 0\<rparr>))"
proof -
  define off where "off = (z sdiv 60) * 100 + z smod 60"
  note off = offset_facts[OF assms(7), folded off_def]
  let ?s = "scan_start\<lparr>year := y, mon := m + 1, mday := d, seenmonthname := True\<rparr>"
  let ?s' = "?s\<lparr>hour := h, minute := mi, sec := sc, tzoffset := 0, prevc := 0\<rparr>"
  let ?rest = "map ucast (take j (32 # 40 # name @ [41])) :: u16 list"
  let ?zone = "(if z < 0 then 45 else 43) # number 4 \<bar>off\<bar> @ ?rest"
  have rest: "?rest = [] \<or> \<not> is_digit16 (hd ?rest)" by (cases j) (simp_all add: is_digit16_def ch_def)
  have letter: "\<not> is_letter16 45" "\<not> is_letter16 43" by (simp_all add: is_letter16_def ch_def)
  have shown: "map ucast (local_bytes w y m d h mi sc off @ take j (32 # 40 # name @ [41]))
      = map ch (days ! nat w) @ 32 # map ch (months ! nat m) @ 32 # number 2 d @ 32 # number 4 y @ 32
        # number 2 h @ 58 # number 2 mi @ 58 # number 2 sc @ 32 # 71 # 77 # 84 # ?zone"
    by (simp add: local_bytes_def time_bytes_def number_def ucast_cstring off(1))
  have "scan_loop tolower (map ucast (local_bytes w y m d h mi sc off @ take j (32 # 40 # name @ [41]))) scan_start
      = scan_loop tolower (number 2 h @ 58 # number 2 mi @ 58 # number 2 sc @ 32 # 71 # 77 # 84 # ?zone) ?s"
    unfolding shown by (rule scan_local_date[OF assms(1,2,3,5,6)])
  also have "\<dots> = scan_loop tolower ?zone ?s'"
    by (rule scan_time[OF assms(1,4)]) (simp_all add: scan_start_def letter del: take_Cons')
  also have "\<dots> = scan_loop tolower ?rest (?s'\<lparr>seenplusminus := True, tzoffset := zone_minutes z, prevc := 0\<rparr>)"
    using scan_zone[OF _ off(2) rest, of ?s' tolower "z < 0", unfolded off(5)] by simp
  finally show ?thesis unfolding scan_comment[OF assms(8)] off_def .
qed

lemma local_text_parses:
  assumes "ascii_tolower tolower" "\<forall>k. allocator penv k" "steady env a" "zone_ok zone"
    "\<bar>n\<bar> \<le> 8630000000000000" "- 59011459200000 \<le> n + a"
  shows "\<exists>text. date_toString penv env zone (of_integer n) = Some (Some text)
    \<and> date_parse env' tolower text = Some (of_integer (1000 * (n div 1000) + a + zone_minutes (a div 60000) * 60000))"
proof -
  have a: "\<bar>a\<bar> < 86400000" "60000 dvd a" using assms(3) by (simp_all add: steady_def)
  have big: "\<bar>n + a\<bar> \<le> 8700000000000000" using assms(5) a(1) by linarith
  have range: "in_range (of_int n)" "in_range (of_int (n + a))" unfolding in_range_int using assms(5) big by linarith+
  define w where "w = (Day (of_int (n + a)) + 4) mod 7"
  have week: "WeekDay (of_int (n + a)) = Some w" using WeekDay_mod[OF range(2)] by (simp add: w_def)
  obtain y m d h mi sc ms where f: "has_fields (of_int (n + a)) y m d h mi sc ms" "civil y m d" "clock h mi sc ms"
    "100 \<le> y" "y < 1000000" "civil_time y m d h mi sc 0 = n + a - (n + a) mod 1000"
    "days ! nat w \<in> set days" "months ! nat m \<in> set months" "0 \<le> m" "m \<le> 11" "0 \<le> d" "0 \<le> y" "0 \<le> h" "0 \<le> mi" "0 \<le> sc"
    by (rule text_fields[OF big assms(6), of w]) (use week in auto)
  define z where "z = a div 60000"
  have az: "a = z * 60000" using a(2) by (simp add: z_def)
  then have z: "\<bar>z\<bar> < 1440" using a(1) by (simp add: abs_less_iff)
  define off where "off = (z sdiv 60) * 100 + z smod 60"
  note off = offset_facts[OF z, folded off_def]
  obtain y' m' d' h' mi' sc' ms' where "has_fields (of_int n) y' m' d' h' mi' sc' ms'" by (rule fields_civil[OF range(1)])
  from explode_runs[OF range(1) this] obtain p where p: "new_explode env (of_int n) True = Some p" by blast
  define tz where "tz = (case zone p of None \<Rightarrow> None | Some tzbuf \<Rightarrow> if usable_zone tzbuf then Some tzbuf else None)"
  obtain name j where c: "comment_bytes tz = take j (32 # 40 # name @ [41])" "no_parens name" "plain8 (comment_bytes tz)"
    by (rule comment_shape[OF assms(4) tz_def])
  define prefix where "prefix = local_bytes w y m d h mi sc off"
  define bytes where "bytes = prefix @ take (99 - length prefix) (comment_bytes tz)"
  have "plain8 prefix" using names_plain(1)[OF f(7)] names_plain(2)[OF f(8)] by (simp add: prefix_def local_bytes_def time_bytes_def)
  then have "plain8 bytes" using c(3) by (auto simp: bytes_def plain8_def dest: in_set_takeD)
  then have new_string: "JS_NewStringCopyZ (allocator penv) (bytes @ [0]) = Some (map ucast bytes)"
    using assms(2) by (intro new_string_ascii) (simp_all add: plain8_def)
  have "length (decimal 4 (nat \<bar>off\<bar>)) \<le> 9" using off(2) decimal_length[of "nat \<bar>off\<bar>" 9 4] by (simp add: nat_less_iff)
  then have "length prefix \<le> 99" using text_lengths[OF f(7,8,2,3,5)] by (simp add: prefix_def local_bytes_def)
  then have cut: "take 99 (prefix @ comment_bytes tz) = bytes" by (simp add: bytes_def)
  have blank: "b8 CHR '' '' = 32" by (simp add: b8_def)
  note all = local_printed[OF f(11-15), of penv "\<lambda>_. 0" "cstring (days ! nat w)" "cstring (months ! nat m)" off
      "if tz \<noteq> None then [32] else []" "case tz of Some tzbuf \<Rightarrow> tzbuf | None \<Rightarrow> []"]
  have "JS_vsnprintf penv 100 (cstring ''%s %s %.2d %.4d %.2d:%.2d:%.2d GMT%+.4d%s%s'' @ [0])
      [Text_Arg (days ! nat w), Text_Arg (months ! nat m), Int_Arg d, Int_Arg y, Int_Arg h, Int_Arg mi, Int_Arg sc, Int_Arg off,
       String_Arg (Some (if tz \<noteq> None then [32] else [])), String_Arg (Some (case tz of Some tzbuf \<Rightarrow> tzbuf | None \<Rightarrow> []))]
    = Some (bytes @ [0], min 99 (length (prefix @ comment_bytes tz)))"
    using vsnprintf_all[OF all, of 100] cut by (simp add: prefix_def local_bytes_def comment_bytes_def)
  moreover have "LocalTime env (of_int n) = Some (of_int (n + a))" "AdjustTime env (of_int n) = Some (of_int a)"
    using steady_local[OF assms(3) range(1)] steady_adjust[OF assms(3) range(1)] by simp_all
  moreover have "msPerMinute = 60000" by (simp add: msPerMinute_def msPerSecond_def)
  then have "jsint \<lfloor>of_int a / msPerMinute\<rfloor> = Some z" using z by (simp add: az jsint_def abs_less_iff)
  ultimately have printed: "date_toString penv env zone (of_integer n) = Some (Some (map ucast bytes))"
    using new_string f(1)
    by (cases tz) (simp_all add: date_toString_def date_format_def of_integer_def week has_fields_def p Let_def off_def[symmetric] tz_def[symmetric] blank
        format_text_def del: of_int_add)
  have scanned: "scan_loop tolower (map ucast bytes) scan_start
      = Some (Some (scan_start\<lparr>year := y, mon := m + 1, mday := d, seenmonthname := True, hour := h, minute := mi, sec := sc,
        tzoffset := 0, prevc := 0, seenplusminus := True, tzoffset := zone_minutes z, prevc := 0\<rparr>))"
    unfolding bytes_def prefix_def c(1) take_take off_def by (rule scan_local[OF assms(1) f(7,2,3,4,5) z c(2)])
  have mods: "(n + a) mod 1000 = n mod 1000" by (rule shifted_seconds(2)[OF a(2)])
  then have total: "civil_time y m d h mi sc 0 + zone_minutes z * 60000 = 1000 * (n div 1000) + a + zone_minutes z * 60000"
    using f(6) minus_mod_eq_mult_div[of n 1000] by simp
  have small: "\<bar>civil_time y m d h mi sc 0 + zone_minutes z * 60000\<bar> \<le> 8640000000000000"
    unfolding f(6) mods using off(4) assms(5) a(1) pos_mod_sign[of 1000 n] pos_mod_bound[of 1000 n] by linarith
  have "date_parse env' tolower (map ucast bytes) = Some (of_integer (civil_time y m d h mi sc 0 + zone_minutes z * 60000))"
    by (rule date_parse_scanned[OF scanned _ _ _ _ _ _ _ _ _ f(2,3,4,5) off(3) small]) (simp_all add: bytes_def prefix_def local_bytes_def)
  then show ?thesis using printed total by (simp add: z_def)
qed

section \<open>The properties of the texts\<close>

text \<open>
  C39: The text of a date in GMT or in local time, from the year 100 to the year 275000 (the last date there is
  falls in 275760), is parsed back to the date without its milliseconds, in a zone whose offset never changes and is a whole
  number of minutes, either 0 or at least 24 minutes (a smaller one is misread), and whose name, where it is used, is a
  comment in parentheses without others inside; the name is not read, also when it is cut off at the end of the buffer.
\<close>

theorem date_text_roundtrip:
  assumes "ascii_tolower tolower" "\<forall>k. allocator penv k" "steady env a" "zone_ok zone" "a = 0 \<or> 24 * 60000 \<le> \<bar>a\<bar>"
    "\<bar>n\<bar> \<le> 8630000000000000" "- 59011459200000 \<le> n" "- 59011459200000 \<le> n + a"
  shows "\<exists>gmt text. date_toGMTString penv (of_integer n) = Some (Some gmt) \<and> date_toString penv env zone (of_integer n) = Some (Some text)
    \<and> date_parse env' tolower gmt = Some (of_integer (1000 * (n div 1000))) \<and> date_parse env' tolower text = Some (of_integer (1000 * (n div 1000)))"
proof -
  have "60000 dvd a" using assms(3) by (simp add: steady_def)
  then obtain z where z: "a = 60000 * z" by (elim dvdE)
  then have "zone_minutes (a div 60000) = - z" using assms(5) by (auto simp: zone_minutes_def abs_mult)
  moreover have "\<bar>n\<bar> \<le> 8640000000000000" using assms(6) by simp
  ultimately show ?thesis
    using gmt_text_parses[OF assms(1,2) _ assms(7), of env'] local_text_parses[OF assms(1-4,6,8), of env'] z by auto
qed

theorem date_text_roundtrip_witness:
  "\<exists>gmt text. date_toGMTString \<lparr>allocator = \<lambda>_. True, native_sprintf = \<lambda>_ _. []\<rparr> (of_integer 999) = Some (Some gmt)
    \<and> date_toString \<lparr>allocator = \<lambda>_. True, native_sprintf = \<lambda>_ _. []\<rparr> \<lparr>LocalTZA = 3600000, DSTOffset = (\<lambda>_. 0)\<rparr> (\<lambda>_. Some [40, 67, 69, 84, 41])
        (of_integer 999) = Some (Some text)
    \<and> date_parse \<lparr>LocalTZA = 3600000, DSTOffset = (\<lambda>_. 0)\<rparr> (\<lambda>c. if 65 \<le> c \<and> c \<le> 90 then c + 32 else c) gmt = Some (of_integer (1000 * (999 div 1000)))
    \<and> date_parse \<lparr>LocalTZA = 3600000, DSTOffset = (\<lambda>_. 0)\<rparr> (\<lambda>c. if 65 \<le> c \<and> c \<le> 90 then c + 32 else c) text = Some (of_integer (1000 * (999 div 1000)))"
proof (rule date_text_roundtrip)
  show "steady \<lparr>LocalTZA = 3600000, DSTOffset = (\<lambda>_. 0)\<rparr> 3600000"
    unfolding steady_def by (intro conjI exI[of _ 3600000] exI[of _ 0]) simp_all
  show "zone_ok (\<lambda>_. Some [40, 67, 69, 84, 41])"
    unfolding zone_ok_def by (intro allI impI exI[of _ "[67, 69, 84]"]) (auto simp: no_parens_def)
qed (simp_all add: ascii_tolower_def)

text \<open>
  C40: With an offset of less than 24 minutes the text of a date in local time is parsed to another time, 59 times the
  offset away: \<open>+0020\<close> is taken for 20 hours.
\<close>

theorem small_offset_misread:
  assumes "ascii_tolower tolower" "\<forall>k. allocator penv k" "steady env a" "zone_ok zone" "\<bar>a\<bar> < 24 * 60000"
    "\<bar>n\<bar> \<le> 8630000000000000" "- 59011459200000 \<le> n + a"
  shows "\<exists>text. date_toString penv env zone (of_integer n) = Some (Some text)
    \<and> date_parse env' tolower text = Some (of_integer (1000 * (n div 1000) - 59 * a))"
proof -
  have "60000 dvd a" using assms(3) by (simp add: steady_def)
  then obtain z where z: "a = 60000 * z" by (elim dvdE)
  then have "zone_minutes (a div 60000) = - (z * 60)" using assms(5) by (auto simp: zone_minutes_def abs_mult)
  then show ?thesis using local_text_parses[OF assms(1-4,6,7), of env'] z by simp
qed

theorem small_offset_misread_witness:
  "\<exists>text. date_toString \<lparr>allocator = \<lambda>_. True, native_sprintf = \<lambda>_ _. []\<rparr> \<lparr>LocalTZA = 1200000, DSTOffset = (\<lambda>_. 0)\<rparr> (\<lambda>_. None) (of_integer 0) = Some (Some text)
    \<and> date_parse \<lparr>LocalTZA = 1200000, DSTOffset = (\<lambda>_. 0)\<rparr> (\<lambda>c. if 65 \<le> c \<and> c \<le> 90 then c + 32 else c) text
      = Some (of_integer (1000 * (0 div 1000) - 59 * 1200000))"
proof (rule small_offset_misread)
  show "steady \<lparr>LocalTZA = 1200000, DSTOffset = (\<lambda>_. 0)\<rparr> 1200000"
    unfolding steady_def by (intro conjI exI[of _ 1200000] exI[of _ 0]) simp_all
qed (simp_all add: ascii_tolower_def zone_ok_def)

end
