(* ===== verification/PS_Select.thy ===== *)
theory PS_Select
  imports JS_DHash_Ops "HOL-Library.Signed_Division"
begin

text \<open>
  The asynchronous core of ProntoScript (js/src/ext/psselect.c): the list of file descriptors to
  wait for, with their callbacks and timeouts, and one round of waiting. The list is modelled in
  an explicit store, because its operations free events and go on using them: a freed event keeps
  its contents (as it does until the allocator hands it out again), and \<open>bad\<close> records that freed
  memory has been used. The callbacks' type is a parameter, and the state is a record that the
  theories of the sockets extend with theirs, so that callbacks can change the list.
\<close>

section \<open>Time\<close>

record timespec =
  tv_sec :: int
  tv_nsec :: int

definition NS_PER_SEC :: int where "NS_PER_SEC = 1000000000"

definition no_timeout :: "timespec \<Rightarrow> bool" where
  "no_timeout t \<longleftrightarrow> tv_sec t = - 1 \<and> tv_nsec t = - 1"

definition set_no_timeout :: timespec where
  "set_no_timeout = \<lparr>tv_sec = - 1, tv_nsec = - 1\<rparr>"

definition diff_timespec :: "timespec \<Rightarrow> timespec \<Rightarrow> timespec" where
  "diff_timespec t0 t1 =
     (let diff = \<lparr>tv_sec = tv_sec t1 - tv_sec t0, tv_nsec = tv_nsec t1 - tv_nsec t0\<rparr>
      in if tv_nsec diff < 0 then \<lparr>tv_sec = tv_sec diff - 1, tv_nsec = tv_nsec diff + NS_PER_SEC\<rparr> else diff)"

definition update_timeout :: "timespec \<Rightarrow> timespec \<Rightarrow> timespec" where
  "update_timeout duration t =
     (if no_timeout t then t
      else
        let t = \<lparr>tv_sec = tv_sec t - tv_sec duration, tv_nsec = tv_nsec t - tv_nsec duration\<rparr>;
            t = (if tv_nsec t < 0 then \<lparr>tv_sec = tv_sec t - 1, tv_nsec = tv_nsec t + NS_PER_SEC\<rparr> else t)
        in if tv_sec t < 0 then \<lparr>tv_sec = 0, tv_nsec = 0\<rparr> else t)"

definition minimum_timeout :: "timespec \<Rightarrow> timespec \<Rightarrow> timespec" where
  "minimum_timeout t1 t2 =
     (if no_timeout t1 then t2
      else if no_timeout t2 then t1
      else if tv_sec t1 < tv_sec t2 \<or> (tv_sec t1 = tv_sec t2 \<and> tv_nsec t1 < tv_nsec t2) then t1 else t2)"

section \<open>The list of events\<close>

definition PSFDSET_READ :: u32 where "PSFDSET_READ = push_bit 0 1"
definition PSFDSET_WRITE :: u32 where "PSFDSET_WRITE = push_bit 1 1"

record 'f select_event =
  ev_fd :: int
  fdsetmask :: u32
  ev_obj :: ptr
  func :: 'f
  errfunc :: 'f
  timeout :: timespec
  prev_ev :: "nat option"
  next_ev :: "nat option"

text \<open>\<open>events\<close> is the memory the events live in, \<open>freed\<close> the addresses given back.\<close>

record 'f select_state =
  ps_Events :: "nat option"
  events :: "nat \<rightharpoonup> 'f select_event"
  freed :: "nat list"
  bad :: bool

text \<open>Reading, writing and freeing an event; an address never allocated has no meaning.\<close>

definition touch :: "nat \<Rightarrow> ('f, 'z) select_state_scheme \<Rightarrow> ('f, 'z) select_state_scheme" where
  "touch a s = s\<lparr>bad := bad s \<or> a \<in> set (freed s)\<rparr>"

definition set_event :: "nat \<Rightarrow> 'f select_event \<Rightarrow> ('f, 'z) select_state_scheme \<Rightarrow> ('f, 'z) select_state_scheme" where
  "set_event a e s = touch a (s\<lparr>events := (events s)(a \<mapsto> e)\<rparr>)"

definition free_event :: "nat \<Rightarrow> ('f, 'z) select_state_scheme \<Rightarrow> ('f, 'z) select_state_scheme" where
  "free_event a s = (touch a s)\<lparr>freed := a # freed s\<rparr>"

text \<open>
  The body of the loop in \<open>ps_RemoveSelect\<close> for a match: an inner event's own \<open>prev\<close> is set where
  its predecessor's \<open>next\<close> is meant, and its successor's \<open>prev\<close> is then set from it.
\<close>

definition unlink_event ::
  "nat \<Rightarrow> 'f select_event \<Rightarrow> ('f, 'z) select_state_scheme \<Rightarrow> ('f, 'z) select_state_scheme option" where
  "unlink_event a ev s =
     (let ev' = (if prev_ev ev \<noteq> None then ev\<lparr>prev_ev := next_ev ev\<rparr> else ev);
          s = set_event a ev' s
      in case (case next_ev ev of
                 None \<Rightarrow> Some s
               | Some n \<Rightarrow> map_option (\<lambda>nx. set_event n (nx\<lparr>prev_ev := prev_ev ev'\<rparr>) s) (events s n)) of
           None \<Rightarrow> None
         | Some s \<Rightarrow>
             let s = (if ps_Events s = Some a then s\<lparr>ps_Events := next_ev ev\<rparr> else s)
             in Some (free_event a s))"

text \<open>The loop goes on with \<open>next\<close> of the event it has just freed; it may not end.\<close>

partial_function (option) remove_loop ::
  "int \<Rightarrow> nat option \<Rightarrow> ('f, 'z) select_state_scheme \<Rightarrow> ('f, 'z) select_state_scheme option" where
  "remove_loop fd ev s =
     (case ev of
        None \<Rightarrow> Some s
      | Some a \<Rightarrow>
          (case events s a of
             None \<Rightarrow> None
           | Some e \<Rightarrow>
               if ev_fd e = fd then
                 (case unlink_event a e (touch a s) of
                    None \<Rightarrow> None
                  | Some s \<Rightarrow>
                      case events s a of None \<Rightarrow> None | Some e \<Rightarrow> remove_loop fd (next_ev e) (touch a s))
               else remove_loop fd (next_ev e) (touch a s)))"

definition ps_RemoveSelect :: "int \<Rightarrow> ('f, 'z) select_state_scheme \<Rightarrow> ('f, 'z) select_state_scheme option" where
  "ps_RemoveSelect fd s = remove_loop fd (ps_Events s) s"

text \<open>
  \<open>new\<close> is the address \<open>JS_malloc\<close> returns. The result says whether the event was added; the
  outer \<open>None\<close> is the loop's.
\<close>

definition ps_AddSelect ::
  "nat option \<Rightarrow> int \<Rightarrow> u32 \<Rightarrow> ptr \<Rightarrow> 'f \<Rightarrow> 'f \<Rightarrow> int \<Rightarrow> ('f, 'z) select_state_scheme \<Rightarrow>
     (bool \<times> ('f, 'z) select_state_scheme) option" where
  "ps_AddSelect new fd fdset obj f errf ms s =
     (case new of
        None \<Rightarrow> Some (False, s)
      | Some a \<Rightarrow>
          let ev = \<lparr>ev_fd = fd, fdsetmask = fdset, ev_obj = obj, func = f, errfunc = errf,
                    timeout = (if ms = - 1 then set_no_timeout
                               else \<lparr>tv_sec = ms sdiv 1000, tv_nsec = ms smod 1000 * 1000000\<rparr>),
                    prev_ev = None, next_ev = None\<rparr>;
              s = s\<lparr>events := (events s)(a \<mapsto> ev), freed := removeAll a (freed s)\<rparr>
          in case ps_RemoveSelect fd s of
               None \<Rightarrow> None
             | Some s \<Rightarrow>
                 case ps_Events s of
                   None \<Rightarrow> Some (True, s\<lparr>ps_Events := Some a\<rparr>)
                 | Some h \<Rightarrow>
                     case events s a of
                       None \<Rightarrow> None
                     | Some ev \<Rightarrow>
                         let s = set_event a (ev\<lparr>next_ev := Some h\<rparr>) s
                         in case events s h of
                              None \<Rightarrow> None
                            | Some first \<Rightarrow>
                                let s = set_event h (first\<lparr>prev_ev := Some a\<rparr>) s
                                in Some (True, s\<lparr>ps_Events := Some a\<rparr>))"

section \<open>One round of waiting\<close>

text \<open>What is asked of \<open>select\<close>: its first argument, the three sets and the time limit.\<close>

record select_request =
  nfds :: int
  rd_fds :: "int list"
  wr_fds :: "int list"
  er_fds :: "int list"
  time_limit :: "(int \<times> int) option"

text \<open>What it leaves: its result, the sets, and the clock before and after.\<close>

record select_reply =
  result :: int
  rd_set :: "int \<Rightarrow> bool"
  wr_set :: "int \<Rightarrow> bool"
  er_set :: "int \<Rightarrow> bool"
  clock_before :: timespec
  clock_after :: timespec

text \<open>The events in the order of the list, each read once; a list that runs in a circle has no end.\<close>

partial_function (option) walk ::
  "nat option \<Rightarrow> ('f, 'z) select_state_scheme \<Rightarrow> (nat list \<times> ('f, 'z) select_state_scheme) option" where
  "walk ev s =
     (case ev of
        None \<Rightarrow> Some ([], s)
      | Some a \<Rightarrow>
          (case events s a of
             None \<Rightarrow> None
           | Some e \<Rightarrow> Option.bind (walk (next_ev e) (touch a s)) (\<lambda>(as, s). Some (a # as, s))))"

definition FD_SETSIZE :: int where "FD_SETSIZE = 1024"

text \<open>
  The first loop: the sets, the largest descriptor and the least timeout. A descriptor that is
  negative or too large for the sets is written outside them. (The loop also compares with a
  \<open>struct timeval\<close> that is not yet set; what it stores there is overwritten before it is used.)
\<close>

fun scan_events ::
  "'f select_event list \<Rightarrow> int \<Rightarrow> int list \<Rightarrow> int list \<Rightarrow> int list \<Rightarrow> timespec \<Rightarrow> select_request option" where
  "scan_events [] mx rd wr er t =
     Some \<lparr>nfds = mx + 1, rd_fds = rd, wr_fds = wr, er_fds = er,
       time_limit = (if no_timeout t then None else Some (tv_sec t, tv_nsec t * 1000))\<rparr>"
| "scan_events (ev # evs) mx rd wr er t =
     (if ev_fd ev < 0 \<or> FD_SETSIZE \<le> ev_fd ev then None
      else
        scan_events evs (if mx < ev_fd ev then ev_fd ev else mx)
          (if fdsetmask ev AND PSFDSET_READ \<noteq> 0 then rd @ [ev_fd ev] else rd)
          (if fdsetmask ev AND PSFDSET_WRITE \<noteq> 0 then wr @ [ev_fd ev] else wr)
          (er @ [ev_fd ev]) (minimum_timeout t (timeout ev)))"

text \<open>
  The second loop updates every event's timeout and collects copies of those that were triggered,
  timed out and in error, each at the front of its list. A copy keeps what the callbacks need.
\<close>

record 'f event_copy =
  cp_obj :: ptr
  cp_func :: 'f
  cp_errfunc :: 'f

definition copy_event :: "'f select_event \<Rightarrow> 'f event_copy" where
  "copy_event ev = \<lparr>cp_obj = ev_obj ev, cp_func = func ev, cp_errfunc = errfunc ev\<rparr>"

fun collect_events ::
  "select_reply \<Rightarrow> nat list \<Rightarrow> 'f event_copy list \<Rightarrow> 'f event_copy list \<Rightarrow> 'f event_copy list \<Rightarrow>
     ('f, 'z) select_state_scheme \<Rightarrow>
     ('f event_copy list \<times> 'f event_copy list \<times> 'f event_copy list \<times> ('f, 'z) select_state_scheme) option" where
  "collect_events rep [] triggered timedout errored s = Some (triggered, timedout, errored, s)"
| "collect_events rep (a # as) triggered timedout errored s =
     (case events s a of
        None \<Rightarrow> None
      | Some ev \<Rightarrow>
          let ev = ev\<lparr>timeout := update_timeout (diff_timespec (clock_before rep) (clock_after rep)) (timeout ev)\<rparr>
          in collect_events rep as
               (if rd_set rep (ev_fd ev) \<or> wr_set rep (ev_fd ev) then copy_event ev # triggered else triggered)
               (if tv_sec (timeout ev) = 0 \<and> tv_nsec (timeout ev) = 0 then copy_event ev # timedout else timedout)
               (if er_set rep (ev_fd ev) then copy_event ev # errored else errored)
               (set_event a ev s))"

text \<open>The callbacks of a list of copies, one after the other.\<close>

fun call_events :: "('c \<Rightarrow> 's \<Rightarrow> 's option) \<Rightarrow> 'c list \<Rightarrow> 's \<Rightarrow> 's option" where
  "call_events call [] s = Some s"
| "call_events call (c # cs) s = (case call c s of None \<Rightarrow> None | Some s \<Rightarrow> call_events call cs s)"

text \<open>
  Freeing the copies: the loop frees the successor and not the copy, and goes on with the freed
  one. \<open>gone\<close> says whether the copy at hand has been freed. The result says whether freed memory was
  used, and lists the copies never freed.
\<close>

fun free_copies :: "bool \<Rightarrow> 'c list \<Rightarrow> bool \<times> 'c list" where
  "free_copies gone [] = (False, [])"
| "free_copies gone (c # cs) =
     (let (used, leaked) = free_copies True cs in (gone \<or> used, (if gone then [] else [c]) @ leaked))"

text \<open>
  \<open>sel\<close> is the operating system's answer, \<open>mem\<close> whether copies can be allocated (a null copy is
  written to), \<open>call f obj\<close> the effect of a callback.
\<close>

definition ps_HandleSelect ::
  "(select_request \<Rightarrow> select_reply) \<Rightarrow> bool \<Rightarrow>
     ('f \<Rightarrow> ptr \<Rightarrow> ('f, 'z) select_state_scheme \<Rightarrow> ('f, 'z) select_state_scheme option) \<Rightarrow>
     ('f, 'z) select_state_scheme \<Rightarrow> (bool \<times> ('f, 'z) select_state_scheme) option" where
  "ps_HandleSelect sel mem call s =
     (if ps_Events s = None then Some (False, s)
      else
        case walk (ps_Events s) s of
          None \<Rightarrow> None
        | Some (as, s) \<Rightarrow>
            case scan_events (map (\<lambda>a. the (events s a)) as) 0 [] [] [] set_no_timeout of
              None \<Rightarrow> None
            | Some req \<Rightarrow>
                let rep = sel req
                in case walk (ps_Events s) s of
                     None \<Rightarrow> None
                   | Some (as, s) \<Rightarrow>
                       case collect_events rep as [] [] [] s of
                         None \<Rightarrow> None
                       | Some (triggered, timedout, errored, s) \<Rightarrow>
                           if \<not> mem \<and> triggered @ timedout @ errored \<noteq> [] then None
                           else
                             case (if 0 < result rep then call_events (\<lambda>c. call (cp_func c) (cp_obj c)) triggered s
                                   else if result rep = 0 then call_events (\<lambda>c. call (cp_func c) (cp_obj c)) timedout s
                                   else call_events (\<lambda>c. call (cp_errfunc c) (cp_obj c)) errored s) of
                               None \<Rightarrow> None
                             | Some s \<Rightarrow>
                                 Some (True, s\<lparr>bad := bad s \<or> fst (free_copies False triggered) \<or>
                                   fst (free_copies False timedout) \<or> fst (free_copies False errored)\<rparr>))"

section \<open>The list as a list\<close>

fun chain :: "(nat \<rightharpoonup> 'f select_event) \<Rightarrow> nat option \<Rightarrow> nat list \<Rightarrow> bool" where
  "chain m p [] \<longleftrightarrow> p = None"
| "chain m p (a # as) \<longleftrightarrow> p = Some a \<and> (case m a of None \<Rightarrow> False | Some e \<Rightarrow> chain m (next_ev e) as)"

fun prevs :: "(nat \<rightharpoonup> 'f select_event) \<Rightarrow> nat option \<Rightarrow> nat list \<Rightarrow> bool" where
  "prevs m p [] \<longleftrightarrow> True"
| "prevs m p (a # as) \<longleftrightarrow> map_option prev_ev (m a) = Some p \<and> prevs m (Some a) as"

text \<open>What an event says, without its place in the list, and the list of the events.\<close>

definition event_of :: "('f, 'z) select_state_scheme \<Rightarrow> nat \<Rightarrow> 'f select_event" where
  "event_of s a = (the (events s a))\<lparr>prev_ev := None, next_ev := None\<rparr>"

abbreviation fd_at :: "('f, 'z) select_state_scheme \<Rightarrow> nat \<Rightarrow> int" where
  "fd_at s a \<equiv> ev_fd (event_of s a)"

definition wf_select :: "('f, 'z) select_state_scheme \<Rightarrow> nat list \<Rightarrow> bool" where
  "wf_select s as \<longleftrightarrow> chain (events s) (ps_Events s) as \<and> prevs (events s) None as \<and> distinct as \<and>
     set as \<inter> set (freed s) = {} \<and> distinct (map (fd_at s) as)"

lemma touch_simps [simp]:
  "events (touch a s) = events s" "ps_Events (touch a s) = ps_Events s" "freed (touch a s) = freed s"
  "bad (touch a s) \<longleftrightarrow> bad s \<or> a \<in> set (freed s)"
  by (simp_all add: touch_def)

lemma set_event_simps [simp]:
  "events (set_event a e s) = (events s)(a \<mapsto> e)" "ps_Events (set_event a e s) = ps_Events s"
  "freed (set_event a e s) = freed s" "bad (set_event a e s) \<longleftrightarrow> bad s \<or> a \<in> set (freed s)"
  by (simp_all add: set_event_def)

lemma free_event_simps [simp]:
  "events (free_event a s) = events s" "ps_Events (free_event a s) = ps_Events s"
  "freed (free_event a s) = a # freed s" "bad (free_event a s) \<longleftrightarrow> bad s \<or> a \<in> set (freed s)"
  by (simp_all add: free_event_def)

lemma touch_live [simp]: "a \<notin> set (freed s) \<Longrightarrow> touch a s = s"
  by (simp add: touch_def)

lemma chain_cong:
  "(\<And>a. a \<in> set as \<Longrightarrow> map_option next_ev (m' a) = map_option next_ev (m a)) \<Longrightarrow> chain m' p as = chain m p as"
proof (induction as arbitrary: p)
  case (Cons a as)
  have "map_option next_ev (m' a) = map_option next_ev (m a)" by (rule Cons.prems) simp
  moreover have "chain m' q as = chain m q as" for q by (rule Cons.IH) (rule Cons.prems, simp)
  ultimately show ?case by (cases "m a"; cases "m' a") simp_all
qed simp

lemma prevs_cong:
  "(\<And>a. a \<in> set as \<Longrightarrow> map_option prev_ev (m' a) = map_option prev_ev (m a)) \<Longrightarrow> prevs m' p as = prevs m p as"
  by (induction as arbitrary: p) simp_all

lemma chain_mem: "chain m p as \<Longrightarrow> a \<in> set as \<Longrightarrow> \<exists>e. m a = Some e"
  by (induction as arbitrary: p) (auto split: option.splits)

lemma chain_append: "chain m p (xs @ b # ys) \<Longrightarrow> chain m (Some b) (b # ys)"
proof (induction xs arbitrary: p)
  case (Cons a xs)
  then obtain e where "m a = Some e" "chain m (next_ev e) (xs @ b # ys)" by (auto split: option.splits)
  then show ?case using Cons.IH by blast
qed auto

lemma chain_det: "chain m p as \<Longrightarrow> chain m p bs \<Longrightarrow> as = bs"
proof (induction as arbitrary: p bs)
  case Nil
  then show ?case by (cases bs) simp_all
next
  case (Cons a as)
  then show ?case by (cases bs) (auto split: option.splits)
qed

lemma walk_chain:
  "chain (events s) p as \<Longrightarrow> set as \<inter> set (freed s) = {} \<Longrightarrow> walk p s = Some (as, s)"
proof (induction as arbitrary: p)
  case Nil
  then show ?case by (simp add: walk.simps)
next
  case (Cons a as)
  then show ?case by (subst walk.simps) (auto split: option.splits)
qed

lemma remove_skips:
  assumes "chain (events s) p (xs @ ys)" "set xs \<inter> set (freed s) = {}" "\<forall>a\<in>set xs. fd_at s a \<noteq> fd"
  shows "\<exists>q. chain (events s) q ys \<and> remove_loop fd p s = remove_loop fd q s \<and> (xs = [] \<longrightarrow> q = p)"
  using assms
proof (induction xs arbitrary: p)
  case (Cons a xs)
  obtain e where e: "p = Some a" "events s a = Some e" "chain (events s) (next_ev e) (xs @ ys)"
    using Cons.prems(1) by (auto split: option.splits)
  have "remove_loop fd p s = remove_loop fd (next_ev e) s"
    using e Cons.prems(2,3) by (subst remove_loop.simps) (simp add: event_of_def)
  then show ?case using Cons.IH [OF e(3)] Cons.prems(2,3) by auto
qed auto

lemma remove_absent:
  assumes "wf_select s as" "fd \<notin> fd_at s ` set as"
  shows "ps_RemoveSelect fd s = Some s"
proof -
  have "chain (events s) (ps_Events s) (as @ [])" "set as \<inter> set (freed s) = {}" "\<forall>a\<in>set as. fd_at s a \<noteq> fd"
    using assms by (auto simp: wf_select_def)
  from remove_skips [OF this] obtain q where "q = None" "remove_loop fd (ps_Events s) s = remove_loop fd q s" by auto
  then show ?thesis by (simp add: ps_RemoveSelect_def remove_loop.simps)
qed

text \<open>What unlinking an event does to the cells and to the head.\<close>

lemma unlink_effect:
  assumes e: "events s a = Some e" and ys: "chain (events s) (next_ev e) ys" and dist: "a \<notin> set ys"
    and live: "a \<notin> set (freed s)" "set ys \<inter> set (freed s) = {}"
  defines "e' \<equiv> (if prev_ev e \<noteq> None then e\<lparr>prev_ev := next_ev e\<rparr> else e)"
  shows "\<exists>s3. unlink_event a e s = Some s3 \<and> freed s3 = a # freed s \<and> bad s3 = bad s \<and>
    select_state.more s3 = select_state.more s \<and>
    ps_Events s3 = (if ps_Events s = Some a then next_ev e else ps_Events s) \<and>
    (\<forall>b c. events s b = Some c \<longrightarrow> (\<exists>c'. events s3 b = Some c' \<and> (b = a \<longrightarrow> c' = e') \<and> next_ev c' = next_ev c \<and>
      event_of s3 b = event_of s b \<and> (Some b \<noteq> next_ev e \<longrightarrow> b \<noteq> a \<longrightarrow> c' = c) \<and>
      (Some b = next_ev e \<longrightarrow> prev_ev c' = prev_ev e'))) \<and>
    (\<forall>b. b \<notin> insert a (set ys) \<longrightarrow> events s3 b = events s b)"
proof -
  define s1 where "s1 = set_event a e' s"
  have s1: "bad s1 = bad s" using live by (simp add: s1_def)
  define s2 where "s2 = (case next_ev e of None \<Rightarrow> s1
    | Some n \<Rightarrow> set_event n ((the (events s1 n))\<lparr>prev_ev := prev_ev e'\<rparr>) s1)"
  define s3 where "s3 = free_event a (if ps_Events s2 = Some a then s2\<lparr>ps_Events := next_ev e\<rparr> else s2)"
  have e'_next: "next_ev e' = next_ev e" "event_of s a = e'\<lparr>prev_ev := None, next_ev := None\<rparr>"
    by (simp_all add: e'_def event_of_def e)
  have nx: "n \<in> set ys \<and> n \<noteq> a \<and> n \<notin> set (freed s) \<and> (\<exists>en. events s n = Some en \<and> events s1 n = Some en)"
    if nn: "next_ev e = Some n" for n
  proof -
    obtain zs where "ys = n # zs" using ys nn by (cases ys) auto
    moreover have "\<exists>en. events s n = Some en" using chain_mem [OF ys] calculation by simp
    ultimately show ?thesis using dist live by (auto simp: s1_def)
  qed
  have run: "unlink_event a e s = Some s3"
    using nx by (auto simp: unlink_event_def s3_def s2_def s1_def e'_def Let_def split: option.splits)
  have s2: "ps_Events s2 = ps_Events s" "freed s2 = freed s" "bad s2 = bad s" "select_state.more s2 = select_state.more s"
    using s1 nx by (auto simp: s2_def s1_def set_event_def touch_def split: option.splits)
  have cells: "\<exists>c'. events s3 b = Some c' \<and> (b = a \<longrightarrow> c' = e') \<and> next_ev c' = next_ev c \<and> event_of s3 b = event_of s b \<and>
      (Some b \<noteq> next_ev e \<longrightarrow> b \<noteq> a \<longrightarrow> c' = c) \<and> (Some b = next_ev e \<longrightarrow> prev_ev c' = prev_ev e')"
    if "events s b = Some c" for b c
  proof (cases "Some b = next_ev e")
    case True
    then show ?thesis using that nx [of b] by (auto simp: s3_def s2_def s1_def event_of_def split: option.splits)
  next
    case False
    have "b \<noteq> n" if "next_ev e = Some n" for n using False that by auto
    then show ?thesis using False that nx e e'_next by (auto simp: s3_def s2_def s1_def event_of_def split: option.splits)
  qed
  have s3: "freed s3 = a # freed s" "bad s3 = bad s" "select_state.more s3 = select_state.more s"
    using s2 live by (auto simp: s3_def free_event_def touch_def)
  have others: "events s3 b = events s b" if "b \<notin> insert a (set ys)" for b
    using that nx by (auto simp: s3_def s2_def s1_def split: option.splits)
  have "ps_Events s3 = (if ps_Events s = Some a then next_ev e else ps_Events s)" using s2(1) by (simp add: s3_def)
  then show ?thesis using run s3 cells others by (intro exI [of _ s3]) blast
qed

text \<open>
  Removing an event that is in the list. The first event leaves the list; an inner one is freed
  and stays in the list, because it is not unlinked. Either way the freed event is read.
\<close>

lemma remove_present:
  assumes wf: "wf_select s (xs @ a # ys)"
  shows "\<exists>s'. ps_RemoveSelect (fd_at s a) s = Some s' \<and> bad s' \<and> freed s' = a # freed s \<and>
    (\<forall>b\<in>set (xs @ a # ys). \<exists>e. events s' b = Some e \<and> event_of s' b = event_of s b) \<and>
    (\<forall>b. b \<notin> set (xs @ a # ys) \<longrightarrow> events s' b = events s b) \<and>
    select_state.more s' = select_state.more s \<and>
    (if xs = [] then wf_select s' ys else chain (events s') (ps_Events s') (xs @ a # ys))"
proof -
  define fd where "fd = fd_at s a"
  have ch: "chain (events s) (ps_Events s) (xs @ a # ys)" and live: "set (xs @ a # ys) \<inter> set (freed s) = {}"
    and dist: "distinct (xs @ a # ys)" and pv: "prevs (events s) None (xs @ a # ys)"
    and fds: "distinct (map (fd_at s) (xs @ a # ys))"
    using wf by (auto simp: wf_select_def)
  have "\<forall>b\<in>set xs. fd_at s b \<noteq> fd" using fds by (auto simp: fd_def) (metis imageI)
  from remove_skips [OF ch _ this] live obtain q where q: "chain (events s) q (a # ys)"
    "remove_loop fd (ps_Events s) s = remove_loop fd q s" by auto
  obtain e where e: "q = Some a" "events s a = Some e" "chain (events s) (next_ev e) ys"
    using q(1) by (auto split: option.splits)
  have fd_e: "ev_fd e = fd" by (simp add: fd_def event_of_def e)
  have "a \<notin> set ys" "a \<notin> set (freed s)" "set ys \<inter> set (freed s) = {}" using dist live by auto
  from unlink_effect [OF e(2,3) this] obtain e' s3 where e'_def: "e' = (if prev_ev e \<noteq> None then e\<lparr>prev_ev := next_ev e\<rparr> else e)"
    and run: "unlink_event a e s = Some s3" and s3: "freed s3 = a # freed s" "bad s3 = bad s"
      "select_state.more s3 = select_state.more s" "ps_Events s3 = (if ps_Events s = Some a then next_ev e else ps_Events s)"
    and cells: "\<And>b c. events s b = Some c \<Longrightarrow> \<exists>c'. events s3 b = Some c' \<and> (b = a \<longrightarrow> c' = e') \<and> next_ev c' = next_ev c \<and>
      event_of s3 b = event_of s b \<and> (Some b \<noteq> next_ev e \<longrightarrow> b \<noteq> a \<longrightarrow> c' = c) \<and>
      (Some b = next_ev e \<longrightarrow> prev_ev c' = prev_ev e')"
    and others: "\<And>b. b \<notin> insert a (set ys) \<Longrightarrow> events s3 b = events s b" by blast
  have e'_next: "next_ev e' = next_ev e" by (simp add: e'_def)
  have head: "ps_Events s3 = (if xs = [] then next_ev e else ps_Events s)"
  proof -
    have "ps_Events s = Some a \<longleftrightarrow> xs = []" using ch dist by (cases xs) auto
    then show ?thesis using s3(4) by simp
  qed
  define s4 where "s4 = touch a s3"
  have s4: "events s4 = events s3" "freed s4 = a # freed s" "bad s4" "select_state.more s4 = select_state.more s"
    "ps_Events s4 = ps_Events s3"
    using s3 by (simp_all add: s4_def) (simp add: touch_def s3)
  have same: "event_of s4 b = event_of s b" "map_option next_ev (events s4 b) = map_option next_ev (events s b)"
    if b: "b \<in> set (xs @ a # ys)" for b
  proof -
    obtain c where c: "events s b = Some c" using chain_mem [OF ch b] by blast
    obtain c' where "events s3 b = Some c'" "next_ev c' = next_ev c" "event_of s3 b = event_of s b"
      using cells [OF c] by blast
    then show "event_of s4 b = event_of s b" "map_option next_ev (events s4 b) = map_option next_ev (events s b)"
      using c s4(1) by (simp_all add: event_of_def)
  qed
  have ch4: "chain (events s4) p (xs @ a # ys) = chain (events s) p (xs @ a # ys)"
    "chain (events s4) p ys = chain (events s) p ys" for p
    by (rule chain_cong; simp add: same)+
  have "\<forall>b\<in>set ys. fd_at s4 b \<noteq> fd" using fds same by (auto simp: fd_def) (metis imageI)
  from remove_skips [of s4 "next_ev e" ys "[]", simplified, OF _ _ this] ch4(2) e(3) s4(2) live dist
  have rest: "remove_loop fd (next_ev e) s4 = Some s4" by (auto simp: remove_loop.simps)
  have "remove_loop fd q s = Some s4"
    using e fd_e run cells [OF e(2)] e'_next rest live
    by (subst remove_loop.simps) (auto simp: s4_def)
  then have "ps_RemoveSelect fd s = Some s4" using q(2) by (simp add: ps_RemoveSelect_def)
  moreover have "if xs = [] then wf_select s4 ys else chain (events s4) (ps_Events s4) (xs @ a # ys)"
  proof (cases "xs = []")
    case False
    then show ?thesis using ch4 ch head s4(5) by simp
  next
    case True
    have "prev_ev e = None" using pv e True by simp
    then have e'_prev: "prev_ev e' = None" by (simp add: e'_def)
    have "prevs (events s4) None ys"
    proof (cases ys)
      case (Cons n zs)
      then have n: "next_ev e = Some n" using e(3) by simp
      obtain en where en: "events s n = Some en" using chain_mem [OF e(3), of n] Cons by auto
      have "map_option prev_ev (events s4 n) = Some None" using cells [OF en] n e'_prev s4(1) by auto
      moreover have "map_option prev_ev (events s4 b) = map_option prev_ev (events s b)" if "b \<in> set zs" for b
      proof -
        obtain c where "events s b = Some c" using chain_mem [OF ch, of b] \<open>b \<in> set zs\<close> Cons by auto
        moreover have "Some b \<noteq> next_ev e" "b \<noteq> a" using n dist Cons \<open>b \<in> set zs\<close> by auto
        ultimately show ?thesis using cells [of b c] s4(1) by simp
      qed
      then have "prevs (events s4) (Some n) zs = prevs (events s) (Some n) zs" by (rule prevs_cong)
      ultimately show ?thesis using Cons pv True by simp
    qed simp
    moreover have mp: "map (fd_at s4) ys = map (fd_at s) ys" using same by simp
    have "distinct (map (fd_at s4) ys)" unfolding mp using fds by simp
    ultimately show ?thesis using True ch4(2) e(3) head s4 dist live fds by (auto simp: wf_select_def)
  qed
  moreover have "\<exists>c. events s4 b = Some c \<and> event_of s4 b = event_of s b" if "b \<in> set (xs @ a # ys)" for b
    using chain_mem [OF ch that] cells s4(1) same(1) [OF that] by fastforce
  ultimately show ?thesis using s4 others by (intro exI [of _ s4]) (auto simp: fd_def)
qed

text \<open>The event that is added, and the list with it at the front.\<close>

definition new_event :: "int \<Rightarrow> u32 \<Rightarrow> ptr \<Rightarrow> 'f \<Rightarrow> 'f \<Rightarrow> int \<Rightarrow> 'f select_event" where
  "new_event fd fdset obj f errf ms = \<lparr>ev_fd = fd, fdsetmask = fdset, ev_obj = obj, func = f, errfunc = errf,
     timeout = (if ms = - 1 then set_no_timeout else \<lparr>tv_sec = ms sdiv 1000, tv_nsec = ms smod 1000 * 1000000\<rparr>),
     prev_ev = None, next_ev = None\<rparr>"

lemma new_event_simps [simp]:
  "ev_fd (new_event fd fdset obj f errf ms) = fd" "fdsetmask (new_event fd fdset obj f errf ms) = fdset"
  "ev_obj (new_event fd fdset obj f errf ms) = obj" "func (new_event fd fdset obj f errf ms) = f"
  "errfunc (new_event fd fdset obj f errf ms) = errf"
  "prev_ev (new_event fd fdset obj f errf ms) = None" "next_ev (new_event fd fdset obj f errf ms) = None"
  by (simp_all add: new_event_def)

definition link_front :: "nat \<Rightarrow> ('f, 'z) select_state_scheme \<Rightarrow> (bool \<times> ('f, 'z) select_state_scheme) option" where
  "link_front a s =
     (case ps_Events s of
        None \<Rightarrow> Some (True, s\<lparr>ps_Events := Some a\<rparr>)
      | Some h \<Rightarrow>
          case events s a of
            None \<Rightarrow> None
          | Some ev \<Rightarrow>
              let s = set_event a (ev\<lparr>next_ev := Some h\<rparr>) s
              in case events s h of
                   None \<Rightarrow> None
                 | Some first \<Rightarrow>
                     let s = set_event h (first\<lparr>prev_ev := Some a\<rparr>) s
                     in Some (True, s\<lparr>ps_Events := Some a\<rparr>))"

lemma link_front:
  assumes wf: "wf_select s as" and a: "a \<notin> set as" "a \<notin> set (freed s)" and ev: "events s a = Some ev"
    and ends: "prev_ev ev = None" "next_ev ev = None" and fd: "ev_fd ev \<notin> fd_at s ` set as"
  shows "\<exists>s'. link_front a s = Some (True, s') \<and> wf_select s' (a # as) \<and> bad s' = bad s \<and>
    select_state.more s' = select_state.more s \<and> map (event_of s') (a # as) = ev # map (event_of s) as"
proof (cases as)
  case Nil
  have "ps_Events s = None" using wf Nil by (simp add: wf_select_def)
  then show ?thesis using assms Nil by (auto simp: link_front_def wf_select_def event_of_def)
next
  case (Cons h hs)
  have ch: "chain (events s) (ps_Events s) as" and pv: "prevs (events s) None as" and dist: "distinct as"
    and live: "set as \<inter> set (freed s) = {}" and fds: "distinct (map (fd_at s) as)"
    using wf by (auto simp: wf_select_def)
  obtain first where h: "ps_Events s = Some h" "events s h = Some first" using ch Cons by (auto split: option.splits)
  have ha: "h \<noteq> a" "h \<notin> set (freed s)" using a Cons live by auto
  define s2 where "s2 = (set_event h (first\<lparr>prev_ev := Some a\<rparr>) (set_event a (ev\<lparr>next_ev := Some h\<rparr>) s))\<lparr>ps_Events := Some a\<rparr>"
  have "link_front a s = Some (True, s2)" using h ha(1) ev by (simp add: link_front_def s2_def)
  moreover have evA: "event_of s2 a = ev" using ha ends by (simp add: event_of_def s2_def)
  moreover have ev2: "event_of s2 b = event_of s b" if "b \<in> set as" for b
    using ha a h that by (auto simp: event_of_def s2_def)
  moreover have "bad s2 = bad s" "select_state.more s2 = select_state.more s"
    using a ha by (simp_all add: s2_def) (simp add: set_event_def touch_def)
  moreover have "wf_select s2 (a # as)"
  proof -
    have "chain (events s2) (Some h) as" using ch h a ha by (subst chain_cong [where m = "events s"]) (auto simp: s2_def)
    moreover have "prevs (events s2) (Some h) hs"
      using pv a dist Cons by (subst prevs_cong [where m = "events s"]) (auto simp: s2_def)
    moreover have "distinct (map (fd_at s2) (a # as))"
    proof -
      have mp: "map (fd_at s2) as = map (fd_at s) as" using ev2 by simp
      show ?thesis using fd fds evA unfolding list.map mp by simp
    qed
    moreover have "events s2 h = Some (first\<lparr>prev_ev := Some a\<rparr>)" "events s2 a = Some (ev\<lparr>next_ev := Some h\<rparr>)"
      "freed s2 = freed s" "ps_Events s2 = Some a" using ha by (auto simp: s2_def)
    ultimately show ?thesis using Cons a dist live ends by (auto simp: wf_select_def)
  qed
  ultimately show ?thesis by (intro exI [of _ s2]) simp
qed

text \<open>The state with the new event's memory, and the addition as removing and then linking.\<close>

lemma allocated:
  fixes s :: "('f, 'z) select_state_scheme" and fd ms :: int and fdset :: u32 and obj :: ptr and f errf :: 'f
  assumes wf: "wf_select s as" and a: "a \<notin> set as"
  defines "s1 \<equiv> s\<lparr>events := (events s)(a \<mapsto> new_event fd fdset obj f errf ms), freed := removeAll a (freed s)\<rparr>"
  shows "wf_select s1 as" and "\<forall>b\<in>set as. event_of s1 b = event_of s b"
    and "bad s1 = bad s" "select_state.more s1 = select_state.more s" "a \<notin> set (freed s1)"
    and "events s1 a = Some (new_event fd fdset obj f errf ms)"
    and "ps_AddSelect (Some a) fd fdset obj f errf ms s =
      Option.bind (ps_RemoveSelect fd s1) (link_front a)"
proof -
  have ch: "chain (events s) (ps_Events s) as" and pv: "prevs (events s) None as" and dist: "distinct as"
    and live: "set as \<inter> set (freed s) = {}" and fds: "distinct (map (fd_at s) as)"
    using wf by (auto simp: wf_select_def)
  have ev1: "event_of s1 b = event_of s b" if "b \<in> set as" for b using that a by (auto simp: event_of_def s1_def)
  then show "\<forall>b\<in>set as. event_of s1 b = event_of s b" by simp
  have "chain (events s1) (ps_Events s) as" "prevs (events s1) None as"
    using ch pv a by (subst chain_cong prevs_cong; auto simp: s1_def)+
  then show "wf_select s1 as" using dist live fds ev1 by (auto simp: wf_select_def s1_def distinct_map inj_on_def)
  show "bad s1 = bad s" "select_state.more s1 = select_state.more s" "a \<notin> set (freed s1)"
    "events s1 a = Some (new_event fd fdset obj f errf ms)"
    by (simp_all add: s1_def)
  show "ps_AddSelect (Some a) fd fdset obj f errf ms s =
      Option.bind (ps_RemoveSelect fd s1) (link_front a)"
    unfolding ps_AddSelect_def new_event_def [symmetric] option.case Let_def s1_def [symmetric]
    by (simp add: link_front_def [abs_def] Option.bind_def split: option.split)
qed

lemma add_front:
  assumes wf: "wf_select s as" and a: "a \<notin> set as" and fd: "fd \<notin> fd_at s ` set as"
  shows "\<exists>s'. ps_AddSelect (Some a) fd fdset obj f errf ms s = Some (True, s') \<and> wf_select s' (a # as) \<and>
    bad s' = bad s \<and> select_state.more s' = select_state.more s \<and>
    map (event_of s') (a # as) = new_event fd fdset obj f errf ms # map (event_of s) as"
proof -
  define s1 where "s1 = s\<lparr>events := (events s)(a \<mapsto> new_event fd fdset obj f errf ms), freed := removeAll a (freed s)\<rparr>"
  note s1 = allocated [OF wf a, of fd fdset obj f errf ms, folded s1_def]
  have fd1: "fd \<notin> fd_at s1 ` set as" using fd s1(2) by auto
  moreover have "map (event_of s1) as = map (event_of s) as" using s1(2) by simp
  ultimately show ?thesis
    using link_front [OF s1(1) a s1(5,6)] unfolding s1(7) remove_absent [OF s1(1) fd1] by (simp add: s1(3,4))
qed

text \<open>Adding a descriptor whose event is the first one replaces it, and uses freed memory.\<close>

lemma add_again:
  assumes wf: "wf_select s (h # as)" and a: "a \<notin> set (h # as)" and fd: "fd_at s h = fd"
  shows "\<exists>s'. ps_AddSelect (Some a) fd fdset obj f errf ms s = Some (True, s') \<and> wf_select s' (a # as) \<and>
    bad s' \<and> select_state.more s' = select_state.more s \<and>
    map (event_of s') (a # as) = new_event fd fdset obj f errf ms # map (event_of s) as"
proof -
  define s1 where "s1 = s\<lparr>events := (events s)(a \<mapsto> new_event fd fdset obj f errf ms), freed := removeAll a (freed s)\<rparr>"
  note s1 = allocated [OF wf a, of fd fdset obj f errf ms, folded s1_def]
  have fd1: "fd_at s1 h = fd" using fd s1(2) by simp
  from remove_present [of s1 "[]" h as] s1(1) obtain s2 where s2: "ps_RemoveSelect fd s1 = Some s2" "bad s2"
    "freed s2 = h # freed s1" "\<forall>b\<in>set (h # as). event_of s2 b = event_of s1 b" "events s2 a = events s1 a"
    "select_state.more s2 = select_state.more s1" "wf_select s2 as"
    using a by (auto simp: fd1)
  have eqs: "map (event_of s2) as = map (event_of s) as" using s2(4) s1(2) by simp
  have "distinct (map (fd_at s) (h # as))" using wf by (simp add: wf_select_def)
  then have "fd \<notin> fd_at s2 ` set as" using s2(4) s1(2) fd by (auto simp: image_iff)
  then show ?thesis
    using link_front [OF s2(7) _ _ _ _ _ , of a "new_event fd fdset obj f errf ms"] a s1(3-6) s2(2-6) eqs
    unfolding s1(7) s2(1) by simp
qed

section \<open>One round\<close>

text \<open>The request a list of events makes.\<close>

definition request_of :: "'f select_event list \<Rightarrow> select_request" where
  "request_of evs =
     (let t = foldl (\<lambda>t ev. minimum_timeout t (timeout ev)) set_no_timeout evs
      in \<lparr>nfds = foldl max 0 (map ev_fd evs) + 1,
          rd_fds = map ev_fd (filter (\<lambda>ev. fdsetmask ev AND PSFDSET_READ \<noteq> 0) evs),
          wr_fds = map ev_fd (filter (\<lambda>ev. fdsetmask ev AND PSFDSET_WRITE \<noteq> 0) evs),
          er_fds = map ev_fd evs,
          time_limit = (if no_timeout t then None else Some (tv_sec t, tv_nsec t * 1000))\<rparr>)"

lemma scan_events_eq:
  assumes "\<forall>ev\<in>set evs. 0 \<le> ev_fd ev \<and> ev_fd ev < FD_SETSIZE"
  shows "scan_events evs mx rd wr er t =
     (let t = foldl (\<lambda>t ev. minimum_timeout t (timeout ev)) t evs
      in Some \<lparr>nfds = foldl max mx (map ev_fd evs) + 1,
          rd_fds = rd @ map ev_fd (filter (\<lambda>ev. fdsetmask ev AND PSFDSET_READ \<noteq> 0) evs),
          wr_fds = wr @ map ev_fd (filter (\<lambda>ev. fdsetmask ev AND PSFDSET_WRITE \<noteq> 0) evs),
          er_fds = er @ map ev_fd evs,
          time_limit = (if no_timeout t then None else Some (tv_sec t, tv_nsec t * 1000))\<rparr>)"
  using assms
proof (induction evs arbitrary: mx rd wr er t)
  case (Cons ev evs)
  have "(if mx < ev_fd ev then ev_fd ev else mx) = max mx (ev_fd ev)" by simp
  then show ?case using Cons by (simp add: Let_def)
qed (simp add: Let_def)

text \<open>The state when the time of a round has passed, and the events as they then are.\<close>

definition aged :: "select_reply \<Rightarrow> 'f select_event \<Rightarrow> 'f select_event" where
  "aged rep ev = ev\<lparr>timeout := update_timeout (diff_timespec (clock_before rep) (clock_after rep)) (timeout ev)\<rparr>"

definition elapse :: "select_reply \<Rightarrow> nat list \<Rightarrow> ('f, 'z) select_state_scheme \<Rightarrow> ('f, 'z) select_state_scheme" where
  "elapse rep as s = s\<lparr>events := (\<lambda>b. if b \<in> set as then map_option (aged rep) (events s b) else events s b)\<rparr>"

lemma aged_simps [simp]:
  "ev_fd (aged rep ev) = ev_fd ev" "next_ev (aged rep ev) = next_ev ev" "prev_ev (aged rep ev) = prev_ev ev"
  "copy_event (aged rep ev) = copy_event ev"
  by (simp_all add: aged_def copy_event_def)

definition triggered_of :: "select_reply \<Rightarrow> 'f select_event list \<Rightarrow> 'f select_event list" where
  "triggered_of rep evs = filter (\<lambda>ev. rd_set rep (ev_fd ev) \<or> wr_set rep (ev_fd ev)) evs"

definition timedout_of :: "select_reply \<Rightarrow> 'f select_event list \<Rightarrow> 'f select_event list" where
  "timedout_of rep evs = filter (\<lambda>ev. timeout (aged rep ev) = \<lparr>tv_sec = 0, tv_nsec = 0\<rparr>) evs"

definition errored_of :: "select_reply \<Rightarrow> 'f select_event list \<Rightarrow> 'f select_event list" where
  "errored_of rep evs = filter (\<lambda>ev. er_set rep (ev_fd ev)) evs"

lemma timespec_zero: "tv_sec t = 0 \<and> tv_nsec t = 0 \<longleftrightarrow> t = \<lparr>tv_sec = 0, tv_nsec = 0\<rparr>"
  by (cases t) simp

lemma collect_events_eq:
  assumes "distinct as" "set as \<inter> set (freed s) = {}" "\<forall>a\<in>set as. events s a \<noteq> None"
  shows "collect_events rep as tr ti er s =
     (let evs = map (\<lambda>a. the (events s a)) as
      in Some (rev (map copy_event (triggered_of rep evs)) @ tr, rev (map copy_event (timedout_of rep evs)) @ ti,
           rev (map copy_event (errored_of rep evs)) @ er, elapse rep as s))"
  using assms
proof (induction as arbitrary: tr ti er s)
  case Nil
  then show ?case by (simp add: triggered_of_def timedout_of_def errored_of_def elapse_def Let_def)
next
  case (Cons a as)
  obtain ev where ev: "events s a = Some ev" using Cons.prems(3) by auto
  define s1 where "s1 = set_event a (aged rep ev) s"
  have "a \<notin> set (freed s)" using Cons.prems(2) by auto
  then have s1_eq: "s1 = s\<lparr>events := (events s)(a \<mapsto> aged rep ev)\<rparr>" by (simp add: s1_def set_event_def)
  have same: "map (\<lambda>b. the (events s1 b)) as = map (\<lambda>b. the (events s b)) as" using Cons.prems(1) by (auto simp: s1_eq)
  have "elapse rep as s1 = elapse rep (a # as) s"
    using Cons.prems(1) ev by (auto simp: elapse_def s1_eq fun_eq_iff)
  moreover have "set as \<inter> set (freed s1) = {}" "\<forall>a\<in>set as. events s1 a \<noteq> None"
    using Cons.prems by (auto simp: s1_eq)
  ultimately show ?case
    using Cons.IH [of s1] Cons.prems(1) ev unfolding collect_events.simps same
    by (simp add: aged_def [symmetric] s1_def [symmetric] timespec_zero Let_def
        triggered_of_def timedout_of_def errored_of_def)
qed

lemma elapse_wf:
  assumes "wf_select s as"
  shows "wf_select (elapse rep as s) as"
    and "map (event_of (elapse rep as s)) as = map (\<lambda>a. aged rep (event_of s a)) as"
proof -
  have ch: "chain (events s) (ps_Events s) as" using assms by (simp add: wf_select_def)
  have "event_of (elapse rep as s) a = aged rep (event_of s a)" if "a \<in> set as" for a
    using chain_mem [OF ch that] that by (auto simp: event_of_def elapse_def aged_def)
  then show "map (event_of (elapse rep as s)) as = map (\<lambda>a. aged rep (event_of s a)) as" by simp
  then have fds: "map (fd_at (elapse rep as s)) as = map (fd_at s) as" by simp
  have "chain (events (elapse rep as s)) (ps_Events s) as = chain (events s) (ps_Events s) as"
    by (rule chain_cong) (simp add: elapse_def option.map_comp comp_def)
  moreover have "prevs (events (elapse rep as s)) None as = prevs (events s) None as"
    by (rule prevs_cong) (simp add: elapse_def option.map_comp comp_def)
  moreover have "distinct (map (fd_at (elapse rep as s)) as)" unfolding fds using assms by (simp add: wf_select_def)
  ultimately show "wf_select (elapse rep as s) as" using assms by (simp add: wf_select_def) (simp add: elapse_def)
qed

lemma copies_of_events: "map copy_event (filter P (map (\<lambda>a. the (events s a)) as)) = map copy_event (filter P (map (event_of s) as))"
  if "\<And>a. P (the (events s a)) = P (event_of s a)"
  using that by (induction as) (simp_all add: event_of_def copy_event_def)

lemma call_events_map: "call_events g (map h cs) s = call_events (\<lambda>c. g (h c)) cs s"
  by (induction cs arbitrary: s) (simp_all split: option.splits)

lemma free_copies_bad: "fst (free_copies gone cs) \<longleftrightarrow> (if gone then cs \<noteq> [] else 1 < length cs)"
  by (induction cs arbitrary: gone) (auto simp: split_beta)

lemma free_copies_leak: "snd (free_copies False cs) = take 1 cs"
proof -
  have "snd (free_copies True cs) = []" for cs :: "'a list" by (induction cs) (simp_all add: split_beta)
  then show ?thesis by (cases cs) (simp_all add: split_beta)
qed

lemma scan_stored:
  "scan_events (map (\<lambda>a. the (events s a)) as) mx rd wr er t = scan_events (map (event_of s) as) mx rd wr er t"
  by (induction as arbitrary: mx rd wr er t) (simp_all add: event_of_def)

lemma handle_select:
  fixes s :: "('f, 'z) select_state_scheme" and sel :: "select_request \<Rightarrow> select_reply"
  assumes wf: "wf_select s as" and ne: "as \<noteq> []" and fds: "\<forall>a\<in>set as. 0 \<le> fd_at s a \<and> fd_at s a < FD_SETSIZE"
  defines "evs \<equiv> map (event_of s) as"
  defines "rep \<equiv> sel (request_of evs)"
  shows "ps_HandleSelect sel True call s =
    map_option (\<lambda>s'. (True, s'\<lparr>bad := bad s' \<or> 1 < length (triggered_of rep evs) \<or> 1 < length (timedout_of rep evs) \<or>
        1 < length (errored_of rep evs)\<rparr>))
      (if 0 < result rep then call_events (\<lambda>ev. call (func ev) (ev_obj ev)) (rev (triggered_of rep evs)) (elapse rep as s)
       else if result rep = 0 then call_events (\<lambda>ev. call (func ev) (ev_obj ev)) (rev (timedout_of rep evs)) (elapse rep as s)
       else call_events (\<lambda>ev. call (errfunc ev) (ev_obj ev)) (rev (errored_of rep evs)) (elapse rep as s))"
proof -
  have ch: "chain (events s) (ps_Events s) as" and live: "set as \<inter> set (freed s) = {}" and dist: "distinct as"
    using wf by (auto simp: wf_select_def)
  have head: "ps_Events s \<noteq> None" using ch ne by (cases as) auto
  have walk: "walk (ps_Events s) s = Some (as, s)" by (rule walk_chain [OF ch live])
  have "scan_events evs 0 [] [] [] set_no_timeout = Some (request_of evs)"
    using fds by (subst scan_events_eq) (auto simp: evs_def request_of_def Let_def)
  then have scan: "scan_events (map (\<lambda>a. the (events s a)) as) 0 [] [] [] set_no_timeout = Some (request_of evs)"
    unfolding scan_stored evs_def .
  have "\<forall>a\<in>set as. events s a \<noteq> None" using chain_mem [OF ch] by fastforce
  from collect_events_eq [OF dist live this, of rep "[]" "[]" "[]"]
  have collect: "collect_events rep as [] [] [] s = Some (map copy_event (rev (triggered_of rep evs)),
      map copy_event (rev (timedout_of rep evs)), map copy_event (rev (errored_of rep evs)), elapse rep as s)"
    unfolding triggered_of_def timedout_of_def errored_of_def evs_def Let_def append_Nil2
    by (simp add: rev_map copies_of_events event_of_def aged_def)
  have calls: "call_events (\<lambda>c. call (cp_func c) (cp_obj c)) (map copy_event cs) t = call_events (\<lambda>ev. call (func ev) (ev_obj ev)) cs t"
    "call_events (\<lambda>c. call (cp_errfunc c) (cp_obj c)) (map copy_event cs) t = call_events (\<lambda>ev. call (errfunc ev) (ev_obj ev)) cs t" for cs t
    by (simp_all add: call_events_map copy_event_def)
  show ?thesis
    using head by (simp add: ps_HandleSelect_def walk scan rep_def [symmetric] collect calls free_copies_bad Let_def
        split: option.splits)
qed

section \<open>Time arithmetic\<close>

definition to_ns :: "timespec \<Rightarrow> int" where "to_ns t = tv_sec t * NS_PER_SEC + tv_nsec t"

definition normal_time :: "timespec \<Rightarrow> bool" where
  "normal_time t \<longleftrightarrow> 0 \<le> tv_sec t \<and> 0 \<le> tv_nsec t \<and> tv_nsec t < NS_PER_SEC"

lemma normal_no_timeout: "normal_time t \<Longrightarrow> \<not> no_timeout t"
  by (simp add: normal_time_def no_timeout_def)

lemma normal_order: "normal_time t1 \<Longrightarrow> normal_time t2 \<Longrightarrow>
  tv_sec t1 < tv_sec t2 \<or> (tv_sec t1 = tv_sec t2 \<and> tv_nsec t1 < tv_nsec t2) \<longleftrightarrow> to_ns t1 < to_ns t2"
  by (auto simp: normal_time_def to_ns_def NS_PER_SEC_def)

lemma update_timeout_correct:
  assumes "normal_time t" "0 \<le> tv_nsec d" "tv_nsec d < NS_PER_SEC"
  shows "normal_time (update_timeout d t) \<and> to_ns (update_timeout d t) = max 0 (to_ns t - to_ns d)"
proof -
  define n where "n = (if tv_nsec t - tv_nsec d < 0 then \<lparr>tv_sec = tv_sec t - tv_sec d - 1, tv_nsec = tv_nsec t - tv_nsec d + NS_PER_SEC\<rparr>
    else \<lparr>tv_sec = tv_sec t - tv_sec d, tv_nsec = tv_nsec t - tv_nsec d\<rparr>)"
  have n: "to_ns n = to_ns t - to_ns d" "0 \<le> tv_nsec n" "tv_nsec n < NS_PER_SEC"
    using assms by (auto simp: n_def to_ns_def normal_time_def NS_PER_SEC_def algebra_simps)
  have "update_timeout d t = (if tv_sec n < 0 then \<lparr>tv_sec = 0, tv_nsec = 0\<rparr> else n)"
    using normal_no_timeout [OF assms(1)] by (simp add: update_timeout_def Let_def n_def)
  moreover have "tv_sec n < 0 \<Longrightarrow> to_ns n < 0" "0 \<le> tv_sec n \<Longrightarrow> 0 \<le> to_ns n"
    using n(2,3) by (auto simp: to_ns_def NS_PER_SEC_def)
  ultimately show ?thesis using n by (auto simp: normal_time_def) (simp add: to_ns_def)
qed

section \<open>Properties\<close>

text \<open>
  C2: A round of waiting asks for what the events say, with the least of their timeouts. It then
  calls, oldest event first, the callbacks of exactly the events that are ready; if none is and the
  time is up, of those whose timeout has run out; and if waiting failed, the error callbacks of
  those in the error set. Before that the time spent is taken off every timeout. More than one copy
  in any of the three lists makes the clean-up use freed memory.
\<close>

theorem select_round_dispatches:
  assumes "wf_select s as" "as \<noteq> []" "\<forall>a\<in>set as. 0 \<le> fd_at s a \<and> fd_at s a < FD_SETSIZE"
  shows "let evs = map (event_of s) as; rep = sel (request_of evs) in
    wf_select (elapse rep as s) as \<and> map (event_of (elapse rep as s)) as = map (aged rep) evs \<and>
    ps_HandleSelect sel True call s =
      map_option (\<lambda>s'. (True, s'\<lparr>bad := bad s' \<or> 1 < length (triggered_of rep evs) \<or> 1 < length (timedout_of rep evs) \<or>
          1 < length (errored_of rep evs)\<rparr>))
        (if 0 < result rep then call_events (\<lambda>ev. call (func ev) (ev_obj ev)) (rev (triggered_of rep evs)) (elapse rep as s)
         else if result rep = 0 then call_events (\<lambda>ev. call (func ev) (ev_obj ev)) (rev (timedout_of rep evs)) (elapse rep as s)
         else call_events (\<lambda>ev. call (errfunc ev) (ev_obj ev)) (rev (errored_of rep evs)) (elapse rep as s))"
  using handle_select [OF assms, of sel call] elapse_wf [OF assms(1), of "sel (request_of (map (event_of s) as))"]
  by (simp add: Let_def comp_def)

text \<open>A list with two events: a socket to be written to, with five seconds, and one to be read from.\<close>

definition no_events :: "nat select_state" where
  "no_events = \<lparr>ps_Events = None, events = Map.empty, freed = [], bad = False\<rparr>"

definition two_events :: "nat select_state" where
  "two_events = snd (the (ps_AddSelect (Some 2) 4 PSFDSET_READ 0x200 30 31 (- 1)
     (snd (the (ps_AddSelect (Some 1) 3 PSFDSET_WRITE 0x100 10 11 5000 no_events)))))"

lemma no_events_wf: "wf_select no_events []"
  by (simp add: wf_select_def no_events_def)

lemma two_events:
  "wf_select two_events [2, 1]" "bad two_events = False"
  "map (event_of two_events) [2, 1] =
    [\<lparr>ev_fd = 4, fdsetmask = PSFDSET_READ, ev_obj = 0x200, func = 30, errfunc = 31, timeout = set_no_timeout, prev_ev = None, next_ev = None\<rparr>,
     \<lparr>ev_fd = 3, fdsetmask = PSFDSET_WRITE, ev_obj = 0x100, func = 10, errfunc = 11, timeout = \<lparr>tv_sec = 5, tv_nsec = 0\<rparr>, prev_ev = None, next_ev = None\<rparr>]"
proof -
  obtain s1 where 1: "ps_AddSelect (Some 1) 3 PSFDSET_WRITE 0x100 10 11 5000 no_events = Some (True, s1)" "wf_select s1 [1]"
    "bad s1 = False" "event_of s1 1 = \<lparr>ev_fd = 3, fdsetmask = PSFDSET_WRITE, ev_obj = 0x100, func = 10, errfunc = 11,
       timeout = \<lparr>tv_sec = 5, tv_nsec = 0\<rparr>, prev_ev = None, next_ev = None\<rparr>"
    using add_front [OF no_events_wf, where a = 1 and fd = 3 and fdset = PSFDSET_WRITE and obj = "0x100" and f = 10 and errf = 11 and ms = 5000] by (auto simp: no_events_def new_event_def)
  then show "wf_select two_events [2, 1]" "bad two_events = False"
    "map (event_of two_events) [2, 1] =
    [\<lparr>ev_fd = 4, fdsetmask = PSFDSET_READ, ev_obj = 0x200, func = 30, errfunc = 31, timeout = set_no_timeout, prev_ev = None, next_ev = None\<rparr>,
     \<lparr>ev_fd = 3, fdsetmask = PSFDSET_WRITE, ev_obj = 0x100, func = 10, errfunc = 11, timeout = \<lparr>tv_sec = 5, tv_nsec = 0\<rparr>, prev_ev = None, next_ev = None\<rparr>]"
    using add_front [OF 1(2), where a = 2 and fd = 4 and fdset = PSFDSET_READ and obj = "0x200" and f = 30 and errf = 31 and ms = "- 1"] by (auto simp: two_events_def new_event_def)
qed

theorem select_round_dispatches_witness:
  "\<exists>s'. ps_HandleSelect (\<lambda>req. \<lparr>result = 1, rd_set = (\<lambda>fd. False), wr_set = (\<lambda>fd. fd \<in> set (wr_fds req)), er_set = (\<lambda>fd. False),
       clock_before = \<lparr>tv_sec = 10, tv_nsec = 900000000\<rparr>, clock_after = \<lparr>tv_sec = 12, tv_nsec = 0\<rparr>\<rparr>) True
     (\<lambda>f obj s. if f = 10 \<and> obj = 0x100 then Some s else None) two_events = Some (True, s') \<and>
   timeout (event_of s' 1) = \<lparr>tv_sec = 3, tv_nsec = 900000000\<rparr>"
proof -
  define evs where "evs = map (event_of two_events) [2, 1]"
  define rep where "rep = \<lparr>result = 1, rd_set = (\<lambda>fd. False), wr_set = (\<lambda>fd. fd \<in> {3}), er_set = (\<lambda>fd. False),
       clock_before = \<lparr>tv_sec = 10, tv_nsec = 900000000\<rparr>, clock_after = \<lparr>tv_sec = 12, tv_nsec = 0\<rparr>\<rparr>"
  define s1 where "s1 = elapse rep [2, 1] two_events"
  have bits: "PSFDSET_READ AND PSFDSET_WRITE = 0" "PSFDSET_WRITE AND PSFDSET_WRITE \<noteq> 0" by code_simp+
  note evs = evs_def [unfolded two_events(3)]
  have wr: "wr_fds (request_of evs) = [3]" using bits by (simp add: request_of_def Let_def evs)
  have lists: "triggered_of rep evs = [evs ! 1]" "timedout_of rep evs = []" "errored_of rep evs = []"
    by (simp_all add: triggered_of_def timedout_of_def errored_of_def rep_def evs aged_def update_timeout_def
        diff_timespec_def no_timeout_def set_no_timeout_def NS_PER_SEC_def)
  have "\<forall>a\<in>set [2, 1]. 0 \<le> fd_at two_events a \<and> fd_at two_events a < FD_SETSIZE"
    using two_events(3) by (simp add: FD_SETSIZE_def)
  note select_round_dispatches [OF two_events(1) _ this,
    of "\<lambda>req. \<lparr>result = 1, rd_set = (\<lambda>fd. False), wr_set = (\<lambda>fd. fd \<in> set (wr_fds req)), er_set = (\<lambda>fd. False),
       clock_before = \<lparr>tv_sec = 10, tv_nsec = 900000000\<rparr>, clock_after = \<lparr>tv_sec = 12, tv_nsec = 0\<rparr>\<rparr>"
      "\<lambda>f obj s. if f = 10 \<and> obj = 0x100 then Some s else None"]
  note this [unfolded Let_def, folded evs_def, unfolded wr list.set, folded rep_def s1_def, unfolded lists]
  moreover have "event_of s1 1 = aged rep (evs ! 1)"
    using elapse_wf(2) [OF two_events(1), of rep] by (simp add: s1_def evs_def)
  then have "timeout (event_of s1 1) = \<lparr>tv_sec = 3, tv_nsec = 900000000\<rparr>"
    by (simp add: rep_def evs aged_def update_timeout_def diff_timespec_def no_timeout_def NS_PER_SEC_def)
  moreover have "func (evs ! 1) = 10" "ev_obj (evs ! 1) = 0x100" by (simp_all add: evs)
  moreover have "event_of (s1\<lparr>bad := b\<rparr>) a = event_of s1 a" for a b by (simp add: event_of_def)
  ultimately show ?thesis by (simp add: rep_def)
qed

text \<open>
  C8: Adding a descriptor that is not in the list puts its event, with the timeout in seconds and
  nanoseconds or none, at the front of the list and uses no freed memory.
\<close>

theorem select_add_refines_cons:
  assumes "wf_select s as" "a \<notin> set as" "fd \<notin> fd_at s ` set as"
  shows "\<exists>s'. ps_AddSelect (Some a) fd fdset obj f errf ms s = Some (True, s') \<and> wf_select s' (a # as) \<and>
    bad s' = bad s \<and> select_state.more s' = select_state.more s \<and>
    map (event_of s') (a # as) =
      \<lparr>ev_fd = fd, fdsetmask = fdset, ev_obj = obj, func = f, errfunc = errf,
       timeout = (if ms = - 1 then set_no_timeout else \<lparr>tv_sec = ms sdiv 1000, tv_nsec = ms smod 1000 * 1000000\<rparr>),
       prev_ev = None, next_ev = None\<rparr> # map (event_of s) as"
  by (rule add_front [OF assms, unfolded new_event_def])

theorem select_add_refines_cons_witness:
  "\<exists>s'. ps_AddSelect (Some 7) 5 PSFDSET_READ 0x300 40 41 1500 two_events = Some (True, s') \<and> wf_select s' [7, 2, 1] \<and>
     timeout (event_of s' 7) = \<lparr>tv_sec = 1, tv_nsec = 500000000\<rparr>"
proof -
  have "5 \<notin> fd_at two_events ` set [2, 1]" using two_events(3) by simp
  from select_add_refines_cons [OF two_events(1) _ this, where a = 7 and fdset = PSFDSET_READ and obj = "0x300" and f = 40 and errf = 41 and ms = 1500]
  show ?thesis by auto
qed

text \<open>
  C7: Removing a descriptor frees its event and then reads it. The first event leaves the list; an
  event further down stays in it although it is freed, since the code does not change its
  predecessor's link. A descriptor that is not in the list changes nothing.
\<close>

theorem select_remove_leaves_inner:
  assumes "wf_select s as"
  shows "(fd \<notin> fd_at s ` set as \<longrightarrow> ps_RemoveSelect fd s = Some s) \<and>
    (\<forall>xs a ys. as = xs @ a # ys \<and> fd_at s a = fd \<longrightarrow>
       (\<exists>s'. ps_RemoveSelect fd s = Some s' \<and> bad s' \<and> freed s' = a # freed s \<and>
          (if xs = [] then wf_select s' ys else chain (events s') (ps_Events s') as \<and> a \<in> set as \<inter> set (freed s'))))"
proof (intro conjI allI impI)
  show "ps_RemoveSelect fd s = Some s" if "fd \<notin> fd_at s ` set as" by (rule remove_absent [OF assms that])
  fix xs a ys assume as: "as = xs @ a # ys \<and> fd_at s a = fd"
  from remove_present [OF assms [unfolded conjunct1 [OF as]]] as
  show "\<exists>s'. ps_RemoveSelect fd s = Some s' \<and> bad s' \<and> freed s' = a # freed s \<and>
      (if xs = [] then wf_select s' ys else chain (events s') (ps_Events s') as \<and> a \<in> set as \<inter> set (freed s'))"
    by (cases "xs = []") auto
qed

theorem select_remove_leaves_inner_witness:
  "\<exists>s'. ps_RemoveSelect 3 two_events = Some s' \<and> bad s' \<and> 1 \<in> set (freed s') \<and> chain (events s') (ps_Events s') [2, 1]"
proof -
  have "fd_at two_events 1 = 3" using two_events(3) by simp
  then show ?thesis
    using conjunct2 [OF select_remove_leaves_inner [OF two_events(1)], rule_format, of "[2]" 1 "[]" 3] by auto
qed

text \<open>
  On times with their nanoseconds in range, the difference of two clock readings, the rest of a
  timeout (not below zero) and the lesser of two timeouts are those of the nanoseconds they stand
  for; no timeout counts as the greatest and is left alone.
\<close>

theorem timeout_arithmetic:
  assumes "normal_time t" "normal_time u" "0 \<le> tv_nsec d" "tv_nsec d < NS_PER_SEC"
  shows "to_ns (diff_timespec t u) = to_ns u - to_ns t \<and>
    0 \<le> tv_nsec (diff_timespec t u) \<and> tv_nsec (diff_timespec t u) < NS_PER_SEC \<and>
    normal_time (update_timeout d t) \<and> to_ns (update_timeout d t) = max 0 (to_ns t - to_ns d) \<and>
    update_timeout d set_no_timeout = set_no_timeout \<and>
    minimum_timeout t u \<in> {t, u} \<and> to_ns (minimum_timeout t u) = min (to_ns t) (to_ns u) \<and>
    minimum_timeout t set_no_timeout = t \<and> minimum_timeout set_no_timeout t = t"
proof -
  have "minimum_timeout t u = (if to_ns t < to_ns u then t else u)"
    using normal_order [OF assms(1,2)] assms(1,2) by (simp add: minimum_timeout_def normal_no_timeout)
  moreover have "no_timeout set_no_timeout" by (simp add: no_timeout_def set_no_timeout_def)
  moreover have "to_ns (diff_timespec t u) = to_ns u - to_ns t"
    "0 \<le> tv_nsec (diff_timespec t u) \<and> tv_nsec (diff_timespec t u) < NS_PER_SEC"
    using assms(1,2) by (auto simp: diff_timespec_def Let_def to_ns_def normal_time_def NS_PER_SEC_def algebra_simps)
  ultimately show ?thesis using update_timeout_correct [OF assms(1,3,4)] assms(1)
    by (auto simp: update_timeout_def minimum_timeout_def normal_no_timeout)
qed

theorem timeout_arithmetic_witness:
  "to_ns (update_timeout \<lparr>tv_sec = 0, tv_nsec = 600000000\<rparr> \<lparr>tv_sec = 2, tv_nsec = 500000000\<rparr>) = 1900000000 \<and>
   minimum_timeout \<lparr>tv_sec = 2, tv_nsec = 500000000\<rparr> \<lparr>tv_sec = 2, tv_nsec = 1\<rparr> = \<lparr>tv_sec = 2, tv_nsec = 1\<rparr>"
proof -
  define t where "t = \<lparr>tv_sec = 2, tv_nsec = 500000000\<rparr>"
  define u where "u = \<lparr>tv_sec = 2, tv_nsec = 1\<rparr>"
  define d where "d = \<lparr>tv_sec = 0, tv_nsec = 600000000\<rparr>"
  have "normal_time t" "normal_time u" "0 \<le> tv_nsec d" "tv_nsec d < NS_PER_SEC"
    by (simp_all add: normal_time_def NS_PER_SEC_def t_def u_def d_def)
  from timeout_arithmetic [OF this] have "to_ns (update_timeout d t) = max 0 (to_ns t - to_ns d)"
    "minimum_timeout t u \<in> {t, u}" "to_ns (minimum_timeout t u) = min (to_ns t) (to_ns u)" by auto
  moreover have "to_ns t = 2500000000" "to_ns u = 2000000001" "to_ns d = 600000000"
    by (simp_all add: to_ns_def NS_PER_SEC_def t_def u_def d_def)
  ultimately show ?thesis unfolding t_def [symmetric] u_def [symmetric] d_def [symmetric] by auto
qed

text \<open>
  A timeout of whole seconds is the limit given to \<open>select\<close>; of any other the part below a
  second is given as a million times itself, because nanoseconds are multiplied and not divided to
  get microseconds.
\<close>

theorem subsecond_timeouts_stretched:
  assumes "wf_select s []" "0 \<le> ms"
  shows "\<exists>s' sec usec. ps_AddSelect (Some a) fd fdset obj f errf ms s = Some (True, s') \<and>
    time_limit (request_of (map (event_of s') [a])) = Some (sec, usec) \<and>
    sec * 1000000 + usec = ms div 1000 * 1000000 + ms mod 1000 * 1000 * 1000000 \<and>
    (sec * 1000000 + usec = ms * 1000 \<longleftrightarrow> ms mod 1000 = 0)"
proof -
  obtain s' where s': "ps_AddSelect (Some a) fd fdset obj f errf ms s = Some (True, s')"
    "timeout (event_of s' a) = \<lparr>tv_sec = ms sdiv 1000, tv_nsec = ms smod 1000 * 1000000\<rparr>"
    using add_front [OF assms(1), where a = a and fd = fd and fdset = fdset and obj = obj and f = f and errf = errf and ms = ms] assms(2)
    by (auto simp: new_event_def)
  have dm: "ms sdiv 1000 = ms div 1000" "ms smod 1000 = ms mod 1000"
    using assms(2) by (cases "ms = 0"; simp add: signed_divide_int_def signed_modulo_int_def)+
  have "0 \<le> ms div 1000" using assms(2) by simp
  then have "\<not> no_timeout \<lparr>tv_sec = ms div 1000, tv_nsec = ms mod 1000 * 1000000\<rparr>" by (simp add: no_timeout_def)
  then have "time_limit (request_of (map (event_of s') [a])) = Some (ms div 1000, ms mod 1000 * 1000000 * 1000)"
    using s'(2) by (simp add: request_of_def Let_def minimum_timeout_def set_no_timeout_def no_timeout_def dm)
  moreover have "ms div 1000 * 1000000 + ms mod 1000 * 1000000 * 1000 = ms * 1000 \<longleftrightarrow> ms mod 1000 = 0"
    using mult_div_mod_eq [of 1000 ms] by auto
  ultimately show ?thesis using s'(1) by (intro exI [of _ s'] exI) auto
qed

theorem subsecond_timeouts_stretched_witness:
  "\<exists>s' sec usec. ps_AddSelect (Some 1) 3 PSFDSET_READ 0x100 10 11 500 no_events = Some (True, s') \<and>
     time_limit (request_of (map (event_of s') [1])) = Some (sec, usec) \<and> sec * 1000000 + usec = 500000000000"
  using subsecond_timeouts_stretched [OF no_events_wf, of 500 1 3 PSFDSET_READ "0x100" 10 11] by auto

end
