(* ===== verification/PS_World.thy ===== *)
theory PS_World
  imports PS_Select JS_Xdr "HOL-Library.Monad_Syntax"
begin

text \<open>
  What the classes of js/src/ext share: the tests of values (js/src/jsapi.h, \<open>JS_TypeOfValue\<close> of
  js/src/jsapi.c), the private data of socket objects, and the world their methods work on, which
  is the list of events extended with the objects, the requests made of the operating system and
  the errors reported. A computation is \<open>None\<close> where the code has no defined behaviour.
\<close>

section \<open>Values\<close>

definition JSVAL_IS_OBJECT :: "jsval \<Rightarrow> bool" where "JSVAL_IS_OBJECT v \<longleftrightarrow> JSVAL_TAG v = JSVAL_OBJECT"
definition JSVAL_IS_INT :: "jsval \<Rightarrow> bool" where "JSVAL_IS_INT v \<longleftrightarrow> v AND ucast JSVAL_INT \<noteq> 0 \<and> v \<noteq> JSVAL_VOID"
definition JSVAL_IS_DOUBLE :: "jsval \<Rightarrow> bool" where "JSVAL_IS_DOUBLE v \<longleftrightarrow> JSVAL_TAG v = JSVAL_DOUBLE"
definition JSVAL_IS_NUMBER :: "jsval \<Rightarrow> bool" where "JSVAL_IS_NUMBER v \<longleftrightarrow> JSVAL_IS_INT v \<or> JSVAL_IS_DOUBLE v"
definition JSVAL_IS_STRING :: "jsval \<Rightarrow> bool" where "JSVAL_IS_STRING v \<longleftrightarrow> JSVAL_TAG v = JSVAL_STRING"
definition JSVAL_IS_BOOLEAN :: "jsval \<Rightarrow> bool" where "JSVAL_IS_BOOLEAN v \<longleftrightarrow> JSVAL_TAG v = JSVAL_BOOLEAN"
definition JSVAL_IS_NULL :: "jsval \<Rightarrow> bool" where "JSVAL_IS_NULL v \<longleftrightarrow> v = JSVAL_NULL"
definition JSVAL_IS_VOID :: "jsval \<Rightarrow> bool" where "JSVAL_IS_VOID v \<longleftrightarrow> v = JSVAL_VOID"
definition JSVAL_IS_PRIMITIVE :: "jsval \<Rightarrow> bool" where "JSVAL_IS_PRIMITIVE v \<longleftrightarrow> \<not> JSVAL_IS_OBJECT v \<or> JSVAL_IS_NULL v"

definition JSVAL_TO_BOOLEAN :: "jsval \<Rightarrow> u32" where "JSVAL_TO_BOOLEAN v = ucast (signed_drop_bit 3 v)"
definition BOOLEAN_TO_JSVAL :: "bool \<Rightarrow> jsval" where
  "BOOLEAN_TO_JSVAL b = push_bit 3 (if b then 1 else 0) OR ucast JSVAL_BOOLEAN"

text \<open>What the type of an object depends on: its operations, its class, and whether the class can be called.\<close>

datatype obj_ops = js_XMLObjectOps | js_ObjectOps | Other_Ops (ops_call: bool)

datatype obj_class = js_FunctionClass | js_RegExpClass | js_ScriptClass | Other_Class

record object_view =
  obj_ops_of :: obj_ops
  clasp :: obj_class
  clasp_call :: bool

datatype JSType = JSTYPE_VOID | JSTYPE_OBJECT | JSTYPE_FUNCTION | JSTYPE_STRING | JSTYPE_NUMBER | JSTYPE_BOOLEAN | JSTYPE_XML

definition JS_TypeOfValue :: "(ptr \<Rightarrow> object_view) \<Rightarrow> jsval \<Rightarrow> JSType" where
  "JS_TypeOfValue view v =
     (if JSVAL_IS_OBJECT v then
        (let obj = JSVAL_TO_GCTHING v; o' = view obj
         in if obj = 0 then JSTYPE_OBJECT
            else if obj_ops_of o' = js_XMLObjectOps then JSTYPE_XML
            else if (if obj_ops_of o' = js_ObjectOps
                     then (if clasp_call o' then clasp o' = js_RegExpClass \<or> clasp o' = js_ScriptClass
                           else clasp o' = js_FunctionClass)
                     else ops_call (obj_ops_of o'))
            then JSTYPE_FUNCTION else JSTYPE_OBJECT)
      else if JSVAL_IS_NUMBER v then JSTYPE_NUMBER
      else if JSVAL_IS_STRING v then JSTYPE_STRING
      else if JSVAL_IS_BOOLEAN v then JSTYPE_BOOLEAN
      else JSTYPE_VOID)"

definition JSVAL_IS_FUNCTION :: "(ptr \<Rightarrow> object_view) \<Rightarrow> jsval \<Rightarrow> bool" where
  "JSVAL_IS_FUNCTION view v \<longleftrightarrow> \<not> JSVAL_IS_PRIMITIVE v \<and> clasp (view (JSVAL_TO_GCTHING v)) = js_FunctionClass"

text \<open>
  What the methods read of the engine's heap: objects, the bytes of strings (one for every
  character), and doubles converted to an integer (undefined out of range).
\<close>

record js_env =
  env_view :: "ptr \<Rightarrow> object_view"
  env_bytes :: "ptr \<Rightarrow> u8 list"
  env_int :: "ptr \<Rightarrow> u32 option"

text \<open>A value handed to a script: a value, or a new string.\<close>

datatype ps_value = Val jsval | Str "u8 list"

section \<open>The world\<close>

datatype ps_callback = TCP_Select | TCP_SelectError | UDP_Select | UDP_SelectError

datatype TCPSocketState = TCPSTATE_UNCONNECTED | TCPSTATE_CONNECTING | TCPSTATE_CONNECTED

record tcp_socket =
  blocking :: u32
  onConnect :: jsval
  onData :: jsval
  onClose :: jsval
  onIOError :: jsval
  tcp_fd :: int
  tcp_state :: TCPSocketState

record udp_socket =
  udp_onData :: jsval
  udp_onIOError :: jsval
  udp_fd :: int
  udp_port :: int

text \<open>The private data of an object, which \<open>JS_GetPrivate\<close> returns whatever the object's class.\<close>

datatype ps_private = No_Private | TCP tcp_socket | UDP udp_socket

datatype ps_failure = Lookup_Error | Async_Setup | Not_Connected | Os_Error "u8 list"

datatype ps_error = PSMSG_NOT_ENOUGH_ARGUMENTS | PSMSG_ARGUMENT_NOT_STRING | PSMSG_ARGUMENT_NOT_INT
  | PSMSG_SOCKET_ERROR | PSMSG_FAILED ps_failure

datatype sys_call = Sys_Socket int | Sys_Bind int u16 | Sys_Connect int u32 u16 | Sys_Send int "u8 list"
  | Sys_SendTo int "u8 list" u32 u16 | Sys_Shutdown int | Sys_Close int

text \<open>
  \<open>privates\<close> has the objects that have not been finalized. The other components record what is
  asked of the operating system, what is reported, and which functions of scripts are called.
\<close>

record ps_world = "ps_callback select_state" +
  privates :: "ptr \<rightharpoonup> ps_private"
  sys_calls :: "sys_call list"
  reports :: "ps_error list"
  calls :: "(ptr \<times> jsval \<times> ps_value list) list"

text \<open>Calling a function of a script: \<open>invoke obj f args\<close> is its effect.\<close>

type_synonym invoke = "ptr \<Rightarrow> jsval \<Rightarrow> ps_value list \<Rightarrow> ps_world \<Rightarrow> ps_world option"

definition js_Invoke :: "invoke \<Rightarrow> invoke" where
  "js_Invoke invoke obj f argv w = invoke obj f argv (w\<lparr>calls := calls w @ [(obj, f, argv)]\<rparr>)"

definition sys :: "sys_call \<Rightarrow> ps_world \<Rightarrow> ps_world" where "sys c w = w\<lparr>sys_calls := sys_calls w @ [c]\<rparr>"

definition report :: "ps_error \<Rightarrow> ps_world \<Rightarrow> ps_world" where "report e w = w\<lparr>reports := reports w @ [e]\<rparr>"

definition set_private :: "ptr \<Rightarrow> ps_private \<Rightarrow> ps_world \<Rightarrow> ps_world" where
  "set_private obj p w = w\<lparr>privates := (privates w)(obj \<mapsto> p)\<rparr>"

text \<open>\<open>JS_GetPrivate\<close> used as one kind of socket, and \<open>JS_GetInstancePrivate\<close>, which tests the class.\<close>

definition tcp_private :: "ptr \<Rightarrow> ps_world \<Rightarrow> tcp_socket option option" where
  "tcp_private obj w =
     (case privates w obj of Some No_Private \<Rightarrow> Some None | Some (TCP tcp) \<Rightarrow> Some (Some tcp) | _ \<Rightarrow> None)"

definition udp_private :: "ptr \<Rightarrow> ps_world \<Rightarrow> udp_socket option option" where
  "udp_private obj w =
     (case privates w obj of Some No_Private \<Rightarrow> Some None | Some (UDP udp) \<Rightarrow> Some (Some udp) | _ \<Rightarrow> None)"

definition tcp_instance :: "ptr \<Rightarrow> ps_world \<Rightarrow> tcp_socket option option" where
  "tcp_instance obj w =
     (case privates w obj of None \<Rightarrow> None | Some (TCP tcp) \<Rightarrow> Some (Some tcp) | Some _ \<Rightarrow> Some None)"

definition udp_instance :: "ptr \<Rightarrow> ps_world \<Rightarrow> udp_socket option option" where
  "udp_instance obj w =
     (case privates w obj of None \<Rightarrow> None | Some (UDP udp) \<Rightarrow> Some (Some udp) | Some _ \<Rightarrow> Some None)"

text \<open>A C string ends at its first zero byte.\<close>

definition c_bytes :: "u8 list \<Rightarrow> u8 list" where "c_bytes = takeWhile (\<lambda>b. b \<noteq> 0)"

text \<open>Both socket classes look a peer up only if it is not written with digits and dots alone.\<close>

definition dotted :: "u8 list \<Rightarrow> bool" where
  "dotted peer \<longleftrightarrow> list_all (\<lambda>c. \<not> ((c < 0x30 \<or> 0x39 < c) \<and> c \<noteq> 0x2E)) peer"

record resolver =
  inet_addr :: "u8 list \<Rightarrow> u32"
  getaddrinfo :: "u8 list \<Rightarrow> u32 list option"

definition peer_address :: "resolver \<Rightarrow> u8 list \<Rightarrow> u32 option" where
  "peer_address res peer =
     (if dotted peer then Some (inet_addr res peer)
      else map_option (\<lambda>infos. case infos of [] \<Rightarrow> 0 | ip # _ \<Rightarrow> ip) (getaddrinfo res peer))"

section \<open>Facts about the world\<close>

lemma world_simps [simp]:
  "sys_calls (sys c w) = sys_calls w @ [c]" "privates (sys c w) = privates w" "reports (sys c w) = reports w"
  "sys_calls (report e w) = sys_calls w" "privates (report e w) = privates w" "reports (report e w) = reports w @ [e]"
  "sys_calls (set_private obj p w) = sys_calls w" "privates (set_private obj p w) = (privates w)(obj \<mapsto> p)"
  "reports (set_private obj p w) = reports w"
  "calls (sys c w) = calls w" "calls (report e w) = calls w" "calls (set_private obj p w) = calls w"
  by (simp_all add: sys_def report_def set_private_def)

lemma list_simps [simp]:
  "ps_Events (sys c w) = ps_Events w" "events (sys c w) = events w" "freed (sys c w) = freed w" "bad (sys c w) = bad w"
  "ps_Events (report e w) = ps_Events w" "events (report e w) = events w" "freed (report e w) = freed w" "bad (report e w) = bad w"
  "ps_Events (set_private obj p w) = ps_Events w" "events (set_private obj p w) = events w"
  "freed (set_private obj p w) = freed w" "bad (set_private obj p w) = bad w"
  by (simp_all add: sys_def report_def set_private_def)

lemma wf_select_cong:
  fixes s :: "('f, 'y) select_state_scheme" and t :: "('f, 'z) select_state_scheme"
  assumes "ps_Events t = ps_Events s" "events t = events s" "freed t = freed s"
  shows "wf_select t as = wf_select s as" "event_of t = event_of s"
  using assms by (simp_all add: wf_select_def event_of_def [abs_def] cong: map_cong)

text \<open>The removal and the adding of events keep what the world has beside them.\<close>

lemma same_more:
  assumes "select_state.more s' = select_state.more (w :: ps_world)"
  shows "privates s' = privates w" "sys_calls s' = sys_calls w" "reports s' = reports w" "calls s' = calls w"
  using assms by (cases s'; cases w; simp add: select_state.defs ps_world.defs)+

text \<open>That holds of every list, well formed or not.\<close>

lemma touch_more: "select_state.more (touch a s) = select_state.more s"
  by (simp add: touch_def)

lemma unlink_more: "unlink_event a ev s = Some s' \<Longrightarrow> select_state.more s' = select_state.more s"
  by (auto simp: unlink_event_def Let_def set_event_def free_event_def touch_def split: option.splits if_splits)

lemma remove_loop_more: "remove_loop fd p s = Some s' \<Longrightarrow> select_state.more s' = select_state.more s"
proof (induction rule: remove_loop.raw_induct [rotated 1, consumes 1, case_names step])
  case (step loop fd p s s')
  note ih = step(1)
  show ?case
  proof (cases p)
    case (Some a)
    then obtain e where e: "events s a = Some e" using step(2) by (auto split: option.splits)
    show ?thesis
    proof (cases "ev_fd e = fd")
      case True
      obtain t where t: "unlink_event a e (touch a s) = Some t" using step(2) Some e True by (auto split: option.splits)
      obtain e' where "events t a = Some e'" using step(2) Some e True t by (auto split: option.splits)
      then have "loop fd (next_ev e') (touch a t) = Some s'" using step(2) Some e True t by simp
      from ih [OF this] unlink_more [OF t] show ?thesis by (simp add: touch_more)
    next
      case False
      then have "loop fd (next_ev e) (touch a s) = Some s'" using step(2) Some e by simp
      from ih [OF this] show ?thesis by (simp add: touch_more)
    qed
  qed (use step(2) in simp)
qed

lemma ps_RemoveSelect_more: "ps_RemoveSelect fd s = Some s' \<Longrightarrow> select_state.more s' = select_state.more s"
  unfolding ps_RemoveSelect_def by (rule remove_loop_more)

lemma ps_AddSelect_more:
  "ps_AddSelect new fd fdset obj f errf ms s = Some (ok, s') \<Longrightarrow> select_state.more s' = select_state.more s"
  by (auto simp: ps_AddSelect_def Let_def set_event_def touch_def split: option.splits
      dest!: ps_RemoveSelect_more)

lemma remove_returns: "wf_select s as \<Longrightarrow> \<exists>s'. ps_RemoveSelect fd s = Some s'"
proof -
  assume wf: "wf_select s as"
  show ?thesis
  proof (cases "fd \<in> fd_at s ` set as")
    case True
    then obtain a where "a \<in> set as" "fd = fd_at s a" by blast
    moreover from this(1) obtain xs ys where "as = xs @ a # ys" by (meson split_list)
    ultimately show ?thesis using remove_present [of s xs a ys] wf by auto
  next
    case False
    then show ?thesis using remove_absent [OF wf] by blast
  qed
qed


end
