(* ===== verification/PS_TCPSocket.thy ===== *)
theory PS_TCPSocket
  imports PS_World
begin

text \<open>
  The class \<open>TCPSocket\<close> (js/src/ext/pstcpsocket.c): its properties, the callbacks of the event
  list, and the methods. What the operating system answers is an argument of each operation, as
  are allocations that may fail, and \<open>invoke obj f args\<close>, the effect of calling the function \<open>f\<close>
  of a script on \<open>obj\<close>. Memory for new strings is assumed where the code does not test it.
\<close>

section \<open>The instance\<close>

definition TCPSOCKET_TCPSTATE_CONNECTED :: u32 where "TCPSOCKET_TCPSTATE_CONNECTED = - 1"
definition TCPSOCKET_ONCONNECT :: u32 where "TCPSOCKET_ONCONNECT = - 2"
definition TCPSOCKET_ONDATA :: u32 where "TCPSOCKET_ONDATA = - 3"
definition TCPSOCKET_ONCLOSE :: u32 where "TCPSOCKET_ONCLOSE = - 4"
definition TCPSOCKET_ONIOERROR :: u32 where "TCPSOCKET_ONIOERROR = - 5"

definition TCPSocket_New :: "bool \<Rightarrow> u32 \<Rightarrow> tcp_socket option" where
  "TCPSocket_New mem b =
     (if \<not> mem then None
      else Some \<lparr>blocking = b, onConnect = JSVAL_VOID, onData = JSVAL_VOID, onClose = JSVAL_VOID,
                 onIOError = JSVAL_VOID, tcp_fd = - 1, tcp_state = TCPSTATE_UNCONNECTED\<rparr>)"

definition TCPSocket_Delete :: "tcp_socket \<Rightarrow> ps_world \<Rightarrow> ps_world" where
  "TCPSocket_Delete tcp w =
     (if tcp_fd tcp \<noteq> - 1 then sys (Sys_Close (tcp_fd tcp)) (sys (Sys_Shutdown (tcp_fd tcp)) w) else w)"

definition TCPSocket_GetProperty :: "ptr \<Rightarrow> jsval \<Rightarrow> jsval \<Rightarrow> ps_world \<Rightarrow> jsval option" where
  "TCPSocket_GetProperty obj id' vp w =
     (if \<not> JSVAL_IS_INT id' then Some vp
      else
        let slot = JSVAL_TO_INT id'
        in do {
             t \<leftarrow> tcp_instance obj w;
             Some (case t of
                 None \<Rightarrow> vp
               | Some tcp \<Rightarrow>
                   if slot = TCPSOCKET_TCPSTATE_CONNECTED then BOOLEAN_TO_JSVAL (tcp_state tcp = TCPSTATE_CONNECTED)
                   else if slot = TCPSOCKET_ONCONNECT then onConnect tcp
                   else if slot = TCPSOCKET_ONDATA then onData tcp
                   else if slot = TCPSOCKET_ONCLOSE then onClose tcp
                   else if slot = TCPSOCKET_ONIOERROR then onIOError tcp
                   else vp)
           })"

text \<open>The setter does not test that there is an instance before it stores a function there.\<close>

definition TCPSocket_SetProperty :: "js_env \<Rightarrow> ptr \<Rightarrow> jsval \<Rightarrow> jsval \<Rightarrow> ps_world \<Rightarrow> ps_world option" where
  "TCPSocket_SetProperty env obj id' vp w =
     (if \<not> JSVAL_IS_INT id' then Some w
      else
        let slot = JSVAL_TO_INT id';
            store = (\<lambda>t upd. if JSVAL_IS_FUNCTION (env_view env) vp
                             then map_option (\<lambda>tcp. set_private obj (TCP (upd tcp)) w) t else Some w)
        in do {
             t \<leftarrow> tcp_instance obj w;
             if slot = TCPSOCKET_TCPSTATE_CONNECTED then Some w
             else if slot = TCPSOCKET_ONCONNECT then store t (\<lambda>tcp. tcp\<lparr>onConnect := vp\<rparr>)
             else if slot = TCPSOCKET_ONDATA then store t (\<lambda>tcp. tcp\<lparr>onData := vp\<rparr>)
             else if slot = TCPSOCKET_ONCLOSE then store t (\<lambda>tcp. tcp\<lparr>onClose := vp\<rparr>)
             else if slot = TCPSOCKET_ONIOERROR then store t (\<lambda>tcp. tcp\<lparr>onIOError := vp\<rparr>)
             else Some w
           })"

section \<open>Callbacks\<close>

text \<open>No caller uses the result of the call.\<close>

definition TCPSocket_Invoke :: "invoke \<Rightarrow> bool \<Rightarrow> ptr \<Rightarrow> jsval \<Rightarrow> ps_value list \<Rightarrow> ps_world \<Rightarrow> ps_world option" where
  "TCPSocket_Invoke invoke stack obj fun argv w = (if \<not> stack then Some w else js_Invoke invoke obj fun argv w)"

text \<open>What a callback of the event list is told: of the peer's name, of the byte peeked at, of the
  error; and which allocations succeed, the new event's with its address.\<close>

record tcp_reply =
  getpeername :: bool
  npeek :: int
  strerror :: "u8 list"
  string_mem :: bool
  event_mem :: "nat option"
  stack_mem :: bool

text \<open>A failed attempt: the event is removed, and the error handler is the function to call.\<close>

definition tcp_failed :: "tcp_reply \<Rightarrow> ptr \<Rightarrow> tcp_socket \<Rightarrow> ps_world \<Rightarrow> ((jsval \<times> ps_value list) option \<times> ps_world) option" where
  "tcp_failed r obj tcp w = do {
     w \<leftarrow> ps_RemoveSelect (tcp_fd tcp) w;
     let w = set_private obj (TCP (tcp\<lparr>tcp_state := TCPSTATE_UNCONNECTED\<rparr>)) w;
     Some (if string_mem r then Some (onIOError tcp, [Str (strerror r)]) else None, w)
   }"

definition tcp_triggered :: "tcp_reply \<Rightarrow> ptr \<Rightarrow> tcp_socket \<Rightarrow> ps_world \<Rightarrow> ((jsval \<times> ps_value list) option \<times> ps_world) option" where
  "tcp_triggered r obj tcp w =
     (if tcp_state tcp = TCPSTATE_CONNECTING then
        if getpeername r then
          Some (Some (onConnect tcp, []), set_private obj (TCP (tcp\<lparr>tcp_state := TCPSTATE_CONNECTED\<rparr>)) w)
        else tcp_failed r obj tcp w
      else if npeek r = 0 then do {
        w \<leftarrow> ps_RemoveSelect (tcp_fd tcp) w;
        let w = sys (Sys_Close (tcp_fd tcp)) (sys (Sys_Shutdown (tcp_fd tcp)) w);
        Some (Some (onClose tcp, []), set_private obj (TCP (tcp\<lparr>tcp_state := TCPSTATE_UNCONNECTED, tcp_fd := - 1\<rparr>)) w)
      }
      else if npeek r < 0 then tcp_failed r obj tcp w
      else Some (Some (onData tcp, []), w))"

definition TCPSocket_SelectCallback :: "invoke \<Rightarrow> tcp_reply \<Rightarrow> ptr \<Rightarrow> ps_world \<Rightarrow> ps_world option" where
  "TCPSocket_SelectCallback invoke r obj w = do {
     t \<leftarrow> tcp_private obj w;
     case t of
       None \<Rightarrow> Some w
     | Some tcp \<Rightarrow>
         if blocking tcp \<noteq> 0 then ps_RemoveSelect (tcp_fd tcp) w
         else if tcp_state tcp = TCPSTATE_UNCONNECTED then Some w
         else do {
           (call, w) \<leftarrow> tcp_triggered r obj tcp w;
           case call of
             None \<Rightarrow> Some w
           | Some (fun, argv) \<Rightarrow> do {
               t \<leftarrow> tcp_private obj w;
               tcp \<leftarrow> t;
               if tcp_state tcp = TCPSTATE_CONNECTED then do {
                 (ok, w) \<leftarrow> ps_AddSelect (event_mem r) (tcp_fd tcp) PSFDSET_READ obj TCP_Select TCP_SelectError (- 1) w;
                 if \<not> ok then Some (report (PSMSG_FAILED Async_Setup) w)
                 else TCPSocket_Invoke invoke (stack_mem r) obj fun argv w
               }
               else TCPSocket_Invoke invoke (stack_mem r) obj fun argv w
             }
         }
   }"

definition TCPSocket_Close :: "ptr \<Rightarrow> ps_world \<Rightarrow> (bool \<times> ps_world) option" where
  "TCPSocket_Close obj w = do {
     t \<leftarrow> tcp_private obj w;
     case t of
       None \<Rightarrow> Some (False, w)
     | Some tcp \<Rightarrow>
         if tcp_fd tcp \<noteq> - 1 then do {
           w \<leftarrow> ps_RemoveSelect (tcp_fd tcp) w;
           let w = sys (Sys_Close (tcp_fd tcp)) (sys (Sys_Shutdown (tcp_fd tcp)) w);
           Some (True, set_private obj (TCP (tcp\<lparr>tcp_fd := - 1\<rparr>)) w)
         }
         else Some (True, w)
   }"

definition TCPSocket_SelectErrorCallback :: "invoke \<Rightarrow> tcp_reply \<Rightarrow> ptr \<Rightarrow> ps_world \<Rightarrow> ps_world option" where
  "TCPSocket_SelectErrorCallback invoke r obj w = do {
     t \<leftarrow> tcp_private obj w;
     case t of
       None \<Rightarrow> Some w
     | Some tcp \<Rightarrow> do {
         w \<leftarrow> TCPSocket_Invoke invoke (stack_mem r) obj (onIOError tcp) [] w;
         map_option snd (TCPSocket_Close obj w)
       }
   }"

section \<open>Construction and destruction\<close>

text \<open>
  \<open>new\<close> is the object made if there is none. Of a number the argument takes the integer, which
  is undefined for a double out of range. (The test that there is an argument is always true; a
  missing one is void.)
\<close>

definition TCPSocket_CT :: "js_env \<Rightarrow> bool \<Rightarrow> ptr option \<Rightarrow> ptr option \<Rightarrow> jsval \<Rightarrow> ps_world \<Rightarrow> (bool \<times> ps_world) option" where
  "TCPSocket_CT env mem new obj arg w =
     (case (if obj = None then new else obj) of
        None \<Rightarrow> Some (False, w)
      | Some obj \<Rightarrow> do {
          b \<leftarrow> (case JS_TypeOfValue (env_view env) arg of
              JSTYPE_NUMBER \<Rightarrow> if JSVAL_IS_INT arg then Some (JSVAL_TO_INT arg) else env_int env (JSVAL_TO_GCTHING arg)
            | JSTYPE_BOOLEAN \<Rightarrow> Some (JSVAL_TO_BOOLEAN arg)
            | _ \<Rightarrow> Some 0);
          Some (True, set_private obj (case TCPSocket_New mem b of None \<Rightarrow> No_Private | Some tcp \<Rightarrow> TCP tcp) w)
        })"

text \<open>The finalizer; the object is then gone.\<close>

definition TCPSocket_DT :: "ptr \<Rightarrow> ps_world \<Rightarrow> ps_world option" where
  "TCPSocket_DT obj w = do {
     t \<leftarrow> tcp_instance obj w;
     let w = (case t of None \<Rightarrow> w | Some tcp \<Rightarrow> TCPSocket_Delete tcp w);
     Some (w\<lparr>privates := (privates w)(obj := None)\<rparr>)
   }"

section \<open>Methods\<close>

datatype connect_result = Connect_Done | Connect_InProgress "u8 list" | Connect_Failed "u8 list"

record connect_reply =
  new_fd :: int
  getfl :: int
  setfl :: int
  connect_result :: connect_result
  connect_mem :: "nat option"

text \<open>The arguments of \<open>connect\<close>: the peer's name, the port and the timeout, or the error.\<close>

definition connect_args :: "js_env \<Rightarrow> jsval list \<Rightarrow> ps_error + (u8 list \<times> u16 \<times> u32)" where
  "connect_args env argv =
     (if length argv < 2 then Inl PSMSG_NOT_ENOUGH_ARGUMENTS
      else if JS_TypeOfValue (env_view env) (argv ! 0) \<noteq> JSTYPE_STRING then Inl PSMSG_ARGUMENT_NOT_STRING
      else if JS_TypeOfValue (env_view env) (argv ! 1) \<noteq> JSTYPE_NUMBER then Inl PSMSG_ARGUMENT_NOT_INT
      else if length argv = 3 \<and> JS_TypeOfValue (env_view env) (argv ! 2) \<noteq> JSTYPE_NUMBER then Inl PSMSG_ARGUMENT_NOT_INT
      else Inr (c_bytes (env_bytes env (JSVAL_TO_GCTHING (argv ! 0))), ucast (JSVAL_TO_INT (argv ! 1)),
                if length argv = 3 then JSVAL_TO_INT (argv ! 2) else 5000))"

text \<open>From a new descriptor on: the socket is told not to block, and connected.\<close>

definition tcp_open :: "connect_reply \<Rightarrow> ptr \<Rightarrow> tcp_socket \<Rightarrow> u32 \<Rightarrow> u16 \<Rightarrow> u32 \<Rightarrow> ps_world \<Rightarrow> (bool \<times> ps_world) option" where
  "tcp_open r obj tcp ip port ms w =
     (let w = sys (Sys_Socket (new_fd r)) w;
          tcp = tcp\<lparr>tcp_fd := new_fd r\<rparr>;
          w = set_private obj (TCP tcp) w
      in if blocking tcp = 0 \<and> (getfl r < 0 \<or> setfl r < 0) then Some (False, report PSMSG_SOCKET_ERROR w)
         else
           let w = sys (Sys_Connect (tcp_fd tcp) ip port) w
           in case connect_result r of
                Connect_Done \<Rightarrow> Some (True, set_private obj (TCP (tcp\<lparr>tcp_state := TCPSTATE_CONNECTED\<rparr>)) w)
              | Connect_InProgress msg \<Rightarrow>
                  if blocking tcp = 0 then do {
                    let w = set_private obj (TCP (tcp\<lparr>tcp_state := TCPSTATE_CONNECTING\<rparr>)) w;
                    (ok, w) \<leftarrow> ps_AddSelect (connect_mem r) (tcp_fd tcp) PSFDSET_WRITE obj TCP_Select TCP_SelectError (sint ms) w;
                    Some (ok, if ok then w else report (PSMSG_FAILED Async_Setup) w)
                  }
                  else Some (False, report (PSMSG_FAILED (Os_Error msg)) w)
              | Connect_Failed msg \<Rightarrow> Some (False, report (PSMSG_FAILED (Os_Error msg)) w))"

definition TCPSocket_Connect ::
  "js_env \<Rightarrow> resolver \<Rightarrow> connect_reply \<Rightarrow> ptr \<Rightarrow> jsval list \<Rightarrow> ps_world \<Rightarrow> (bool \<times> ps_world) option" where
  "TCPSocket_Connect env res r obj argv w = do {
     t \<leftarrow> tcp_private obj w;
     case t of
       None \<Rightarrow> Some (False, w)
     | Some tcp \<Rightarrow>
         (case connect_args env argv of
            Inl e \<Rightarrow> Some (False, report e w)
          | Inr (peer, port, ms) \<Rightarrow>
              (case peer_address res peer of
                 None \<Rightarrow> Some (False, report (PSMSG_FAILED Lookup_Error) w)
               | Some ip \<Rightarrow>
                   if tcp_state tcp = TCPSTATE_CONNECTED then
                     tcp_open r obj (tcp\<lparr>tcp_state := TCPSTATE_UNCONNECTED, tcp_fd := - 1\<rparr>) ip port ms
                       (sys (Sys_Close (tcp_fd tcp)) (sys (Sys_Shutdown (tcp_fd tcp)) w))
                   else tcp_open r obj tcp ip port ms w))
   }"

text \<open>
  Reading: \<open>recv fd n\<close> is the operating system's call for at most \<open>n\<close> bytes, on a state of its
  own. More than were asked for would overrun the buffer of 256 bytes. An empty answer ends the
  loop, and so does an error, whose data are given up.
\<close>

type_synonym 'o recv = "int \<Rightarrow> nat \<Rightarrow> 'o \<Rightarrow> u8 list option \<times> 'o"

function (sequential) read_loop ::
  "(nat \<Rightarrow> 'o \<Rightarrow> u8 list option \<times> 'o) \<Rightarrow> nat \<Rightarrow> nat \<Rightarrow> u8 list \<Rightarrow> 'o \<Rightarrow> (u8 list option \<times> 'o) option" where
  "read_loop recv cnt nread data os =
     (if nread = cnt then Some (Some data, os)
      else
        let buflen = (if cnt - nread < 256 then cnt - nread else 256)
        in case recv buflen os of
             (None, os) \<Rightarrow> Some (None, os)
           | (Some buf, os) \<Rightarrow>
               if buflen < length buf then None
               else if buf = [] then Some (Some data, os)
               else read_loop recv cnt (nread + length buf) (data @ buf) os)"
  by pat_completeness auto

termination
  by (relation "measure (\<lambda>(recv, cnt, nread, data, os). cnt - nread)") (auto simp flip: length_greater_0_conv split: if_splits)

declare read_loop.simps [simp del]

definition TCPSocket_Read ::
  "js_env \<Rightarrow> 'o recv \<Rightarrow> ptr \<Rightarrow> jsval list \<Rightarrow> 'o \<Rightarrow> ps_world \<Rightarrow> (u8 list option \<times> 'o \<times> ps_world) option" where
  "TCPSocket_Read env recv obj argv os w = do {
     t \<leftarrow> tcp_private obj w;
     case t of
       None \<Rightarrow> Some (None, os, w)
     | Some tcp \<Rightarrow>
         if argv \<noteq> [] \<and> JS_TypeOfValue (env_view env) (argv ! 0) \<noteq> JSTYPE_NUMBER
         then Some (None, os, report PSMSG_ARGUMENT_NOT_STRING w)
         else
           let cnt = (if argv \<noteq> [] then ucast (JSVAL_TO_INT (argv ! 0)) else 65535 :: u16)
           in if tcp_state tcp \<noteq> TCPSTATE_CONNECTED then Some (None, os, report (PSMSG_FAILED Not_Connected) w)
              else do {
                (data, os) \<leftarrow> read_loop (recv (tcp_fd tcp)) (unat cnt) 0 [] os;
                Some (data, os, if data = None then report PSMSG_SOCKET_ERROR w else w)
              }
   }"

text \<open>Writing: \<open>sent\<close> is what the call to \<open>send\<close> returns.\<close>

definition TCPSocket_Write :: "js_env \<Rightarrow> int \<Rightarrow> ptr \<Rightarrow> jsval list \<Rightarrow> ps_world \<Rightarrow> (bool \<times> ps_world) option" where
  "TCPSocket_Write env sent obj argv w = do {
     t \<leftarrow> tcp_private obj w;
     case t of
       None \<Rightarrow> Some (False, w)
     | Some tcp \<Rightarrow>
         if argv = [] then Some (False, report PSMSG_NOT_ENOUGH_ARGUMENTS w)
         else if JS_TypeOfValue (env_view env) (argv ! 0) \<noteq> JSTYPE_STRING
         then Some (False, report PSMSG_ARGUMENT_NOT_STRING w)
         else if tcp_state tcp \<noteq> TCPSTATE_CONNECTED then Some (False, report (PSMSG_FAILED Not_Connected) w)
         else
           let w = sys (Sys_Send (tcp_fd tcp) (env_bytes env (JSVAL_TO_GCTHING (argv ! 0)))) w
           in if sent = - 1 then Some (False, report PSMSG_SOCKET_ERROR w) else Some (True, w)
   }"

section \<open>Reading\<close>

text \<open>
  A descriptor with the bytes \<open>rest os\<close> to come: each call takes some of them, at least one. When
  there are none left, the answer is empty if the peer has closed the connection, and otherwise an
  error, because the descriptor does not block.
\<close>

definition receives :: "(nat \<Rightarrow> 'o \<Rightarrow> u8 list option \<times> 'o) \<Rightarrow> ('o \<Rightarrow> u8 list) \<Rightarrow> bool \<Rightarrow> bool" where
  "receives recv rest closed \<longleftrightarrow> (\<forall>n os. 0 < n \<longrightarrow>
     (if rest os = [] then fst (recv n os) = (if closed then Some [] else None) \<and> rest (snd (recv n os)) = []
      else \<exists>bs. fst (recv n os) = Some bs \<and> bs \<noteq> [] \<and> length bs \<le> n \<and> rest os = bs @ rest (snd (recv n os))))"

lemma read_loop_receives:
  "receives recv rest closed \<Longrightarrow> nread \<le> cnt \<Longrightarrow> \<exists>os'. read_loop recv cnt nread data os =
      Some (if closed \<or> cnt - nread \<le> length (rest os) then Some (data @ take (cnt - nread) (rest os)) else None, os') \<and>
    rest os' = drop (cnt - nread) (rest os)"
proof (induction recv cnt nread data os rule: read_loop.induct)
  case (1 recv cnt nread data os)
  note receives = "1.prems"(1)
  show ?case
  proof (cases "nread = cnt")
    case False
    define n where "n = (if cnt - nread < 256 then cnt - nread else 256)"
    have n: "0 < n" "n \<le> cnt - nread" using False "1.prems" by (auto simp: n_def)
    obtain x os1 where r: "recv n os = (x, os1)" by fastforce
    note step = receives [unfolded receives_def, rule_format, OF n(1), of os, unfolded r fst_conv snd_conv]
    note unfold = read_loop.simps [of recv cnt nread data os, unfolded if_not_P [OF False], folded n_def, unfolded Let_def r prod.case]
    show ?thesis
    proof (cases "rest os = []")
      case True
      then show ?thesis using step n by (auto simp: unfold)
    next
      case rest: False
      then obtain bs where bs: "x = Some bs" "bs \<noteq> []" "length bs \<le> n" "rest os = bs @ rest os1" using step by auto
      have "read_loop recv cnt nread data os = read_loop recv cnt (nread + length bs) (data @ bs) os1"
        using bs by (simp add: unfold)
      moreover have "\<exists>os'. read_loop recv cnt (nread + length bs) (data @ bs) os1 =
          Some (if closed \<or> cnt - (nread + length bs) \<le> length (rest os1)
                then Some ((data @ bs) @ take (cnt - (nread + length bs)) (rest os1)) else None, os') \<and>
          rest os' = drop (cnt - (nread + length bs)) (rest os1)"
        using "1.IH" [OF False n_def r [symmetric] bs(1)] bs n receives by simp
      ultimately show ?thesis using bs(3,4) n by (auto simp: le_diff_conv)
    qed
  qed (simp add: read_loop.simps)
qed

lemma tcp_private_simps [simp]:
  "tcp_private obj (set_private obj (TCP tcp) w) = Some (Some tcp)"
  "tcp_instance obj (set_private obj (TCP tcp) w) = Some (Some tcp)"
  by (simp_all add: tcp_private_def tcp_instance_def)

lemma tinyid_values:
  "JSVAL_IS_INT (INT32_TO_JSVAL TCPSOCKET_TCPSTATE_CONNECTED)"
  "JSVAL_TO_INT (INT32_TO_JSVAL TCPSOCKET_TCPSTATE_CONNECTED) = TCPSOCKET_TCPSTATE_CONNECTED"
  by code_simp+

section \<open>Properties\<close>

text \<open>
  C4: Reading takes the next bytes of the stream, however the operating system cuts them into
  pieces: as many as were asked for (65535 if nothing is said), or all that are left when the peer
  has closed the connection. The rest stays to be read.
\<close>

theorem tcp_read_takes_prefix:
  assumes "receives (recv (tcp_fd tcp)) rest closed" "tcp_private obj w = Some (Some tcp)"
    "tcp_state tcp = TCPSTATE_CONNECTED" "argv = [] \<or> JS_TypeOfValue (env_view env) (argv ! 0) = JSTYPE_NUMBER"
    "cnt = (if argv = [] then 65535 else unat (ucast (JSVAL_TO_INT (argv ! 0)) :: u16))"
    "closed \<or> cnt \<le> length (rest os)"
  shows "\<exists>os'. TCPSocket_Read env recv obj argv os w = Some (Some (take cnt (rest os)), os', w) \<and>
    rest os' = drop cnt (rest os)"
proof -
  from read_loop_receives [OF assms(1), of 0 cnt "[]" os] assms(6) obtain os' where
    "read_loop (recv (tcp_fd tcp)) cnt 0 [] os = Some (Some (take cnt (rest os)), os')" "rest os' = drop cnt (rest os)"
    by auto
  then show ?thesis using assms(2-5) by (auto simp: TCPSocket_Read_def)
qed

text \<open>A peer that sends at most three bytes at a time.\<close>

definition trickle :: "bool \<Rightarrow> int \<Rightarrow> nat \<Rightarrow> u8 list \<Rightarrow> u8 list option \<times> u8 list" where
  "trickle closed fd n os =
     (if os = [] then (if closed then Some [] else None, []) else (Some (take (min n 3) os), drop (min n 3) os))"

lemma trickle_receives: "receives (trickle closed fd) (\<lambda>os. os) closed"
  by (auto simp: receives_def trickle_def)

definition plain_env :: js_env where
  "plain_env = \<lparr>env_view = (\<lambda>p. \<lparr>obj_ops_of = js_ObjectOps, clasp = (if p = 0x1000 then js_FunctionClass else Other_Class), clasp_call = False\<rparr>),
     env_bytes = (\<lambda>p. if p = 0x2000 then [0x31, 0x2E, 0x32] else [0x68, 0x69]), env_int = (\<lambda>p. None)\<rparr>"

definition connected_socket :: tcp_socket where
  "connected_socket = \<lparr>blocking = 0, onConnect = 0x1000, onData = 0x1000, onClose = JSVAL_VOID, onIOError = JSVAL_VOID,
     tcp_fd = 5, tcp_state = TCPSTATE_CONNECTED\<rparr>"

definition socket_world :: "tcp_socket \<Rightarrow> ps_world" where
  "socket_world tcp = \<lparr>ps_Events = None, events = Map.empty, freed = [], bad = False, privates = [0x500 \<mapsto> TCP tcp],
     sys_calls = [], reports = [], calls = []\<rparr>"

lemma socket_world_private: "tcp_private 0x500 (socket_world tcp) = Some (Some tcp)"
  by (simp add: tcp_private_def socket_world_def)

lemma number_9: "JS_TypeOfValue (env_view env) 9 = JSTYPE_NUMBER" "JSVAL_TO_INT 9 = 4"
proof -
  have "\<not> JSVAL_IS_OBJECT 9" "JSVAL_IS_NUMBER 9" by code_simp+
  then show "JS_TypeOfValue (env_view env) 9 = JSTYPE_NUMBER" by (simp add: JS_TypeOfValue_def)
  show "JSVAL_TO_INT 9 = 4" by code_simp
qed

lemma string_2004: "JS_TypeOfValue view 0x2004 = JSTYPE_STRING" "JSVAL_TO_GCTHING 0x2004 = 0x2000"
proof -
  have "\<not> JSVAL_IS_OBJECT 0x2004" "\<not> JSVAL_IS_NUMBER 0x2004" "JSVAL_IS_STRING 0x2004" by code_simp+
  then show "JS_TypeOfValue view 0x2004 = JSTYPE_STRING" by (simp add: JS_TypeOfValue_def)
  show "JSVAL_TO_GCTHING 0x2004 = 0x2000" by code_simp
qed

theorem tcp_read_takes_prefix_witness:
  "TCPSocket_Read plain_env (trickle True) 0x500 [9] [1, 2, 3, 4, 5, 6] (socket_world connected_socket) =
     Some (Some [1, 2, 3, 4], [5, 6], socket_world connected_socket)"
  using tcp_read_takes_prefix [of "trickle True" connected_socket "\<lambda>os. os" True "0x500" "socket_world connected_socket" "[9]"
    plain_env 4 "[1, 2, 3, 4, 5, 6]"]
  by (simp add: trickle_receives socket_world_private connected_socket_def number_9)

text \<open>
  C5: On a descriptor that does not block, a read that asks for more bytes than have arrived fails,
  and the bytes that have arrived are lost: they are taken from the stream and not returned. A read
  that names no count asks for 65535.
\<close>

theorem tcp_read_loses_short_data:
  assumes "receives (recv (tcp_fd tcp)) rest False" "tcp_private obj w = Some (Some tcp)"
    "tcp_state tcp = TCPSTATE_CONNECTED" "argv = [] \<or> JS_TypeOfValue (env_view env) (argv ! 0) = JSTYPE_NUMBER"
    "cnt = (if argv = [] then 65535 else unat (ucast (JSVAL_TO_INT (argv ! 0)) :: u16))"
    "length (rest os) < cnt"
  shows "\<exists>os'. TCPSocket_Read env recv obj argv os w = Some (None, os', report PSMSG_SOCKET_ERROR w) \<and> rest os' = []"
proof -
  from read_loop_receives [OF assms(1), of 0 cnt "[]" os] assms(6) obtain os' where
    "read_loop (recv (tcp_fd tcp)) cnt 0 [] os = Some (None, os')" "rest os' = []"
    by auto
  then show ?thesis using assms(2-5) by (auto simp: TCPSocket_Read_def)
qed

theorem tcp_read_loses_short_data_witness:
  "TCPSocket_Read plain_env (trickle False) 0x500 [] [1, 2, 3, 4, 5, 6] (socket_world connected_socket) =
     Some (None, [], report PSMSG_SOCKET_ERROR (socket_world connected_socket))"
  using tcp_read_loses_short_data [of "trickle False" connected_socket "\<lambda>os. os" "0x500" "socket_world connected_socket" "[]"
    plain_env 65535 "[1, 2, 3, 4, 5, 6]"]
  by (simp add: trickle_receives socket_world_private connected_socket_def)

text \<open>
  Closing a connected socket closes its descriptor but does not leave the connected state: the
  property \<open>connected\<close> stays true, and writing goes on, to the descriptor \<open>- 1\<close>.
\<close>

theorem tcp_close_stays_connected:
  assumes "wf_select w as" "tcp_private obj w = Some (Some tcp)" "tcp_state tcp = TCPSTATE_CONNECTED" "tcp_fd tcp \<noteq> - 1"
    "JS_TypeOfValue (env_view env) s = JSTYPE_STRING"
  shows "\<exists>w'. TCPSocket_Close obj w = Some (True, w') \<and>
    sys_calls w' = sys_calls w @ [Sys_Shutdown (tcp_fd tcp), Sys_Close (tcp_fd tcp)] \<and>
    TCPSocket_GetProperty obj (INT32_TO_JSVAL TCPSOCKET_TCPSTATE_CONNECTED) v w' = Some (BOOLEAN_TO_JSVAL True) \<and>
    (\<exists>w2. TCPSocket_Write env 0 obj [s] w' = Some (True, w2) \<and>
      sys_calls w2 = sys_calls w' @ [Sys_Send (- 1) (env_bytes env (JSVAL_TO_GCTHING s))])"
proof -
  obtain w1 where w1: "ps_RemoveSelect (tcp_fd tcp) w = Some w1" using remove_returns [OF assms(1)] by blast
  note same = same_more [OF ps_RemoveSelect_more [OF w1]]
  show ?thesis using assms(2-5)
    by (simp add: TCPSocket_Close_def TCPSocket_GetProperty_def TCPSocket_Write_def w1 same tinyid_values)
qed

theorem tcp_close_stays_connected_witness:
  "\<exists>w'. TCPSocket_Close 0x500 (socket_world connected_socket) = Some (True, w') \<and>
     TCPSocket_GetProperty 0x500 (INT32_TO_JSVAL TCPSOCKET_TCPSTATE_CONNECTED) JSVAL_VOID w' = Some (BOOLEAN_TO_JSVAL True)"
proof -
  have "wf_select (socket_world connected_socket) []" by (simp add: wf_select_def socket_world_def)
  then show ?thesis
    using tcp_close_stays_connected [OF _ socket_world_private, of connected_socket "[]" plain_env "0x2004"] string_2004
    by (auto simp: connected_socket_def)
qed

text \<open>
  Connecting a socket again while it is not connected takes a new descriptor and forgets the
  old one, of an attempt under way or one that failed: it is not closed, no socket has it any more,
  and the event that waits for it stays in the list.
\<close>

theorem tcp_reconnect_leaks_descriptor:
  assumes "tcp_private obj w = Some (Some tcp)" "tcp_state tcp \<noteq> TCPSTATE_CONNECTED" "tcp_fd tcp = fd"
    "\<forall>o' tcp'. privates w o' = Some (TCP tcp') \<longrightarrow> o' \<noteq> obj \<longrightarrow> tcp_fd tcp' \<noteq> fd"
    "connect_args env argv = Inr (peer, port, ms)" "peer_address res peer = Some ip"
    "connect_result r = Connect_Done" "0 \<le> getfl r" "0 \<le> setfl r" "new_fd r \<noteq> fd"
  shows "\<exists>w'. TCPSocket_Connect env res r obj argv w = Some (True, w') \<and>
    sys_calls w' = sys_calls w @ [Sys_Socket (new_fd r), Sys_Connect (new_fd r) ip port] \<and>
    (\<forall>o' tcp'. privates w' o' = Some (TCP tcp') \<longrightarrow> tcp_fd tcp' \<noteq> fd) \<and>
    ps_Events w' = ps_Events w \<and> events w' = events w"
  using assms by (auto simp: TCPSocket_Connect_def tcp_open_def Let_def)

theorem tcp_reconnect_leaks_descriptor_witness:
  "\<exists>w'. TCPSocket_Connect plain_env \<lparr>inet_addr = (\<lambda>b. 0x0200007F), getaddrinfo = (\<lambda>b. None)\<rparr>
       \<lparr>new_fd = 6, getfl = 0, setfl = 0, connect_result = Connect_Done, connect_mem = None\<rparr> 0x500 [0x2004, 9]
       (socket_world (connected_socket\<lparr>tcp_state := TCPSTATE_CONNECTING\<rparr>)) = Some (True, w') \<and>
     sys_calls w' = [Sys_Socket 6, Sys_Connect 6 0x0200007F 4] \<and>
     (\<forall>o' tcp'. privates w' o' = Some (TCP tcp') \<longrightarrow> tcp_fd tcp' \<noteq> 5)"
proof -
  define w where "w = socket_world (connected_socket\<lparr>tcp_state := TCPSTATE_CONNECTING\<rparr>)"
  have "env_bytes plain_env (JSVAL_TO_GCTHING 0x2004) = [0x31, 0x2E, 0x32]" by (simp add: string_2004 plain_env_def)
  then have "connect_args plain_env [0x2004, 9] = Inr ([0x31, 0x2E, 0x32], 4, 5000)"
    by (simp add: connect_args_def string_2004 number_9 c_bytes_def)
  moreover have "peer_address \<lparr>inet_addr = (\<lambda>b. 0x0200007F), getaddrinfo = (\<lambda>b. None)\<rparr> [0x31, 0x2E, 0x32] = Some 0x0200007F"
    by (simp add: peer_address_def dotted_def)
  moreover have "tcp_private 0x500 w = Some (Some (connected_socket\<lparr>tcp_state := TCPSTATE_CONNECTING\<rparr>))"
    unfolding w_def by (rule socket_world_private)
  moreover have "sys_calls w = []" "\<And>o' tcp'. privates w o' = Some (TCP tcp') \<Longrightarrow> o' = 0x500"
    by (auto simp: w_def socket_world_def split: if_splits)
  ultimately show ?thesis unfolding w_def [symmetric]
    using tcp_reconnect_leaks_descriptor [of "0x500" w "connected_socket\<lparr>tcp_state := TCPSTATE_CONNECTING\<rparr>" 5 plain_env "[0x2004, 9]"
      "[0x31, 0x2E, 0x32]" 4 5000 "\<lparr>inet_addr = (\<lambda>b. 0x0200007F), getaddrinfo = (\<lambda>b. None)\<rparr>" "0x0200007F"
      "\<lparr>new_fd = 6, getfl = 0, setfl = 0, connect_result = Connect_Done, connect_mem = None\<rparr>"]
    by (auto simp: connected_socket_def)
qed


end
