(* ===== verification/PS_UDPSocket.thy ===== *)
theory PS_UDPSocket
  imports PS_World
begin

text \<open>
  The class \<open>UDPSocket\<close> (js/src/ext/psudpsocket.c), modelled as \<open>TCPSocket\<close> is. Its instance has
  a field \<open>blocking\<close> that nothing sets or reads; it is left out.
\<close>

section \<open>The instance\<close>

definition UDPSOCKET_ONDATA :: u32 where "UDPSOCKET_ONDATA = - 1"
definition UDPSOCKET_ONIOERROR :: u32 where "UDPSOCKET_ONIOERROR = - 2"

definition UDPSocket_New :: "bool \<Rightarrow> udp_socket option" where
  "UDPSocket_New mem =
     (if \<not> mem then None
      else Some \<lparr>udp_onData = JSVAL_VOID, udp_onIOError = JSVAL_VOID, udp_fd = - 1, udp_port = - 1\<rparr>)"

definition UDPSocket_Delete :: "udp_socket \<Rightarrow> ps_world \<Rightarrow> ps_world" where
  "UDPSocket_Delete udp w = (if udp_fd udp \<noteq> - 1 then sys (Sys_Close (udp_fd udp)) w else w)"

definition UDPSocket_GetProperty :: "ptr \<Rightarrow> jsval \<Rightarrow> jsval \<Rightarrow> ps_world \<Rightarrow> jsval option" where
  "UDPSocket_GetProperty obj id' vp w =
     (if \<not> JSVAL_IS_INT id' then Some vp
      else
        let slot = JSVAL_TO_INT id'
        in do {
             u \<leftarrow> udp_instance obj w;
             Some (case u of
                 None \<Rightarrow> vp
               | Some udp \<Rightarrow>
                   if slot = UDPSOCKET_ONDATA then udp_onData udp
                   else if slot = UDPSOCKET_ONIOERROR then udp_onIOError udp
                   else vp)
           })"

definition UDPSocket_SetProperty :: "js_env \<Rightarrow> ptr \<Rightarrow> jsval \<Rightarrow> jsval \<Rightarrow> ps_world \<Rightarrow> ps_world option" where
  "UDPSocket_SetProperty env obj id' vp w =
     (if \<not> JSVAL_IS_INT id' then Some w
      else
        let slot = JSVAL_TO_INT id';
            store = (\<lambda>u upd. if JSVAL_IS_FUNCTION (env_view env) vp
                             then map_option (\<lambda>udp. set_private obj (UDP (upd udp)) w) u else Some w)
        in do {
             u \<leftarrow> udp_instance obj w;
             if slot = UDPSOCKET_ONDATA then store u (\<lambda>udp. udp\<lparr>udp_onData := vp\<rparr>)
             else if slot = UDPSOCKET_ONIOERROR then store u (\<lambda>udp. udp\<lparr>udp_onIOError := vp\<rparr>)
             else Some w
           })"

section \<open>Callbacks\<close>

definition UDPSocket_Invoke ::
  "invoke \<Rightarrow> bool \<Rightarrow> ptr \<Rightarrow> jsval \<Rightarrow> ps_value list \<Rightarrow> ps_world \<Rightarrow> ps_world option" where
  "UDPSocket_Invoke invoke stack obj fun argv w = (if \<not> stack then Some w else js_Invoke invoke obj fun argv w)"

text \<open>
  What the calls to \<open>recvfrom\<close> answer, one after the other: a datagram with its sender, that there
  are no more, or an error. A datagram is cut to the buffer of 256 bytes.
\<close>

datatype recvfrom = Datagram "u8 list" u32 u16 | Recv_Again | Recv_Error

record udp_reply =
  recvs :: "recvfrom list"
  inet_ntoa :: "u32 \<Rightarrow> u8 list"
  udp_stack_mem :: bool

text \<open>The loop: the data gathered, and the sender of the last datagram; without an end it does not return.\<close>

fun udp_receive :: "recvfrom list \<Rightarrow> u8 list \<Rightarrow> u32 \<Rightarrow> u16 \<Rightarrow> (u8 list \<times> u32 \<times> u16) option option" where
  "udp_receive [] data ip port = None"
| "udp_receive (Recv_Again # rs) data ip port = Some (Some (data, ip, port))"
| "udp_receive (Recv_Error # rs) data ip port = Some None"
| "udp_receive (Datagram bs ip' port' # rs) data ip port = udp_receive rs (data @ take 256 bs) ip' port'"

definition UDPSocket_SelectCallback ::
  "invoke \<Rightarrow> udp_reply \<Rightarrow> ptr \<Rightarrow> ps_world \<Rightarrow> ps_world option" where
  "UDPSocket_SelectCallback invoke r obj w = do {
     u \<leftarrow> udp_private obj w;
     case u of
       None \<Rightarrow> Some w
     | Some udp \<Rightarrow> do {
         d \<leftarrow> udp_receive (recvs r) [] 0 0;
         case d of
           None \<Rightarrow> Some (report PSMSG_SOCKET_ERROR w)
         | Some (data, ip, port) \<Rightarrow>
             UDPSocket_Invoke invoke (udp_stack_mem r) obj (udp_onData udp)
               [Str data, Str (inet_ntoa r ip), Val (INT_TO_JSVAL (ucast port))] w
       }
   }"

definition UDPSocket_Close :: "ptr \<Rightarrow> ps_world \<Rightarrow> (bool \<times> ps_world) option" where
  "UDPSocket_Close obj w = do {
     u \<leftarrow> udp_private obj w;
     case u of
       None \<Rightarrow> Some (False, w)
     | Some udp \<Rightarrow>
         if udp_fd udp \<noteq> - 1 then do {
           w \<leftarrow> ps_RemoveSelect (udp_fd udp) w;
           Some (True, set_private obj (UDP (udp\<lparr>udp_fd := - 1\<rparr>)) (sys (Sys_Close (udp_fd udp)) w))
         }
         else Some (True, w)
   }"

definition UDPSocket_SelectErrorCallback ::
  "invoke \<Rightarrow> udp_reply \<Rightarrow> ptr \<Rightarrow> ps_world \<Rightarrow> ps_world option" where
  "UDPSocket_SelectErrorCallback invoke r obj w = do {
     u \<leftarrow> udp_private obj w;
     case u of
       None \<Rightarrow> Some w
     | Some udp \<Rightarrow> do {
         w \<leftarrow> UDPSocket_Invoke invoke (udp_stack_mem r) obj (udp_onIOError udp) [] w;
         map_option snd (UDPSocket_Close obj w)
       }
   }"

section \<open>Construction and destruction\<close>

record bind_reply =
  udp_new_fd :: int
  bind_result :: int
  udp_getfl :: int
  udp_setfl :: int
  udp_event_mem :: "nat option"

text \<open>
  The constructor takes the port from an argument that is not a number, and rejects one that is.
  The port is of 16 bits, so the test for \<open>- 1\<close> never holds. The instance is written to without a
  test that there is memory for it.
\<close>

definition UDPSocket_CT ::
  "js_env \<Rightarrow> bool \<Rightarrow> bind_reply \<Rightarrow> ptr option \<Rightarrow> ptr option \<Rightarrow> jsval \<Rightarrow> ps_world \<Rightarrow> (bool \<times> ps_world) option" where
  "UDPSocket_CT env mem r new obj arg w =
     (case (if obj = None then new else obj) of
        None \<Rightarrow> Some (False, w)
      | Some obj \<Rightarrow>
          if JS_TypeOfValue (env_view env) arg = JSTYPE_NUMBER then Some (False, report PSMSG_ARGUMENT_NOT_INT w)
          else do {
            udp \<leftarrow> UDPSocket_New mem;
            let port = (ucast (JSVAL_TO_INT arg) :: u16);
            let udp = udp\<lparr>udp_fd := udp_new_fd r, udp_port := uint port\<rparr>;
            let w = sys (Sys_Socket (udp_fd udp)) w;
            if udp_fd udp < 0 then Some (False, report PSMSG_SOCKET_ERROR w)
            else
              let w = (if udp_port udp \<noteq> - 1 then sys (Sys_Bind (udp_fd udp) port) w else w)
              in if udp_port udp \<noteq> - 1 \<and> bind_result r < 0 then Some (False, report PSMSG_SOCKET_ERROR w)
                 else if udp_getfl r < 0 \<or> udp_setfl r < 0 then Some (False, report PSMSG_SOCKET_ERROR w)
                 else do {
                   (ok, w) \<leftarrow> ps_AddSelect (udp_event_mem r) (udp_fd udp) PSFDSET_READ obj UDP_Select UDP_SelectError (- 1) w;
                   Some (if ok then (True, set_private obj (UDP udp) w) else (False, report (PSMSG_FAILED Async_Setup) w))
                 }
          })"

definition UDPSocket_DT :: "ptr \<Rightarrow> ps_world \<Rightarrow> ps_world option" where
  "UDPSocket_DT obj w = do {
     u \<leftarrow> udp_instance obj w;
     let w = (case u of None \<Rightarrow> w | Some udp \<Rightarrow> UDPSocket_Delete udp w);
     Some (w\<lparr>privates := (privates w)(obj := None)\<rparr>)
   }"

section \<open>Sending\<close>

definition send_args :: "js_env \<Rightarrow> jsval list \<Rightarrow> ps_error + (u8 list \<times> u8 list \<times> u16)" where
  "send_args env argv =
     (if length argv \<noteq> 3 then Inl PSMSG_NOT_ENOUGH_ARGUMENTS
      else if JS_TypeOfValue (env_view env) (argv ! 0) \<noteq> JSTYPE_STRING then Inl PSMSG_ARGUMENT_NOT_STRING
      else if JS_TypeOfValue (env_view env) (argv ! 1) \<noteq> JSTYPE_STRING then Inl PSMSG_ARGUMENT_NOT_STRING
      else if JS_TypeOfValue (env_view env) (argv ! 2) \<noteq> JSTYPE_NUMBER then Inl PSMSG_ARGUMENT_NOT_INT
      else Inr (env_bytes env (JSVAL_TO_GCTHING (argv ! 0)), c_bytes (env_bytes env (JSVAL_TO_GCTHING (argv ! 1))),
                ucast (JSVAL_TO_INT (argv ! 2))))"

definition UDPSocket_Send ::
  "js_env \<Rightarrow> resolver \<Rightarrow> int \<Rightarrow> ptr \<Rightarrow> jsval list \<Rightarrow> ps_world \<Rightarrow> (bool \<times> ps_world) option" where
  "UDPSocket_Send env res sent obj argv w = do {
     u \<leftarrow> udp_private obj w;
     case u of
       None \<Rightarrow> Some (False, w)
     | Some udp \<Rightarrow>
         (case send_args env argv of
            Inl e \<Rightarrow> Some (False, report e w)
          | Inr (data, peer, port) \<Rightarrow>
              (case peer_address res peer of
                 None \<Rightarrow> Some (False, report (PSMSG_FAILED Lookup_Error) w)
               | Some ip \<Rightarrow>
                   let w = sys (Sys_SendTo (udp_fd udp) data ip port) w
                   in if sent = - 1 then Some (False, report PSMSG_SOCKET_ERROR w) else Some (True, w)))
   }"

section \<open>Arguments\<close>

lemma int_is_number: "INT32_TO_JSVAL n \<noteq> JSVAL_VOID \<Longrightarrow> JS_TypeOfValue view (INT32_TO_JSVAL n) = JSTYPE_NUMBER"
proof -
  assume nv: "INT32_TO_JSVAL n \<noteq> JSVAL_VOID"
  have bit0: "bit (INT32_TO_JSVAL n) 0" by (simp add: INT32_TO_JSVAL_def JSVAL_INT_def bit_or_iff)
  then have "bit (INT32_TO_JSVAL n AND ucast JSVAL_INT) 0" by (simp add: bit_and_iff JSVAL_INT_def)
  then have "JSVAL_IS_INT (INT32_TO_JSVAL n)" using nv by (auto simp: JSVAL_IS_INT_def)
  moreover have "\<not> JSVAL_IS_OBJECT (INT32_TO_JSVAL n)" using int_tag by (simp add: JSVAL_IS_OBJECT_def)
  ultimately show ?thesis by (simp add: JS_TypeOfValue_def JSVAL_IS_NUMBER_def)
qed

lemma void_argument: "JS_TypeOfValue view JSVAL_VOID = JSTYPE_VOID" "ucast (JSVAL_TO_INT JSVAL_VOID) = (0 :: u16)"
proof -
  have "\<not> JSVAL_IS_OBJECT JSVAL_VOID" "\<not> JSVAL_IS_NUMBER JSVAL_VOID" "\<not> JSVAL_IS_STRING JSVAL_VOID" "\<not> JSVAL_IS_BOOLEAN JSVAL_VOID"
    by code_simp+
  then show "JS_TypeOfValue view JSVAL_VOID = JSTYPE_VOID" by (simp add: JS_TypeOfValue_def)
  show "ucast (JSVAL_TO_INT JSVAL_VOID) = (0 :: u16)" by code_simp
qed

section \<open>Properties\<close>

text \<open>
  The constructor refuses every port: a number is reported as not being one, before a socket
  is made. Without an argument the socket is bound all the same, to port 0, and waits for data.
\<close>

theorem udp_constructor_refuses_ports:
  assumes "wf_select w as" "udp_event_mem r = Some a" "a \<notin> set as" "udp_new_fd r \<notin> fd_at w ` set as"
    "0 \<le> udp_new_fd r" "0 \<le> bind_result r" "0 \<le> udp_getfl r" "0 \<le> udp_setfl r"
  shows "(\<forall>n. INT32_TO_JSVAL n \<noteq> JSVAL_VOID \<longrightarrow>
      UDPSocket_CT env mem r new (Some obj) (INT32_TO_JSVAL n) w = Some (False, report PSMSG_ARGUMENT_NOT_INT w)) \<and>
    (\<exists>w'. UDPSocket_CT env True r new (Some obj) JSVAL_VOID w = Some (True, w') \<and>
      sys_calls w' = sys_calls w @ [Sys_Socket (udp_new_fd r), Sys_Bind (udp_new_fd r) 0] \<and>
      wf_select w' (a # as) \<and> fd_at w' a = udp_new_fd r \<and> fdsetmask (event_of w' a) = PSFDSET_READ)"
proof -
  let ?fd = "udp_new_fd r"
  define w1 where "w1 = sys (Sys_Bind ?fd 0) (sys (Sys_Socket ?fd) w)"
  have lists: "ps_Events w1 = ps_Events w" "events w1 = events w" "freed w1 = freed w" by (simp_all add: w1_def)
  from add_front [of w1 as a ?fd PSFDSET_READ obj UDP_Select UDP_SelectError "- 1"] assms(1,3,4) obtain w2 where w2:
    "ps_AddSelect (Some a) ?fd PSFDSET_READ obj UDP_Select UDP_SelectError (- 1) w1 = Some (True, w2)" "wf_select w2 (a # as)"
    "event_of w2 a = new_event ?fd PSFDSET_READ obj UDP_Select UDP_SelectError (- 1)"
    by (auto simp: wf_select_cong [OF lists])
  note same = same_more [OF ps_AddSelect_more [OF w2(1)]]
  define w3 where "w3 = set_private obj (UDP \<lparr>udp_onData = JSVAL_VOID, udp_onIOError = JSVAL_VOID, udp_fd = ?fd, udp_port = 0\<rparr>) w2"
  have lists3: "ps_Events w3 = ps_Events w2" "events w3 = events w2" "freed w3 = freed w2" by (simp_all add: w3_def)
  have "UDPSocket_CT env True r new (Some obj) JSVAL_VOID w = Some (True, w3)"
    using assms(2,5-8) w2(1) by (simp add: UDPSocket_CT_def UDPSocket_New_def void_argument w1_def w3_def)
  moreover have "sys_calls w3 = sys_calls w @ [Sys_Socket ?fd, Sys_Bind ?fd 0]" using same by (simp add: w3_def w1_def)
  moreover have "wf_select w3 (a # as)" "event_of w3 a = new_event ?fd PSFDSET_READ obj UDP_Select UDP_SelectError (- 1)"
    using w2(2,3) by (simp_all add: wf_select_cong [OF lists3])
  ultimately have "\<exists>w'. UDPSocket_CT env True r new (Some obj) JSVAL_VOID w = Some (True, w') \<and>
      sys_calls w' = sys_calls w @ [Sys_Socket ?fd, Sys_Bind ?fd 0] \<and>
      wf_select w' (a # as) \<and> fd_at w' a = ?fd \<and> fdsetmask (event_of w' a) = PSFDSET_READ" by (intro exI [of _ w3]) simp
  then show ?thesis by (simp add: UDPSocket_CT_def int_is_number)
qed

definition udp_world :: ps_world where
  "udp_world = \<lparr>ps_Events = None, events = Map.empty, freed = [], bad = False,
     privates = [0x600 \<mapsto> UDP \<lparr>udp_onData = 0x1000, udp_onIOError = JSVAL_VOID, udp_fd = 7, udp_port = 0\<rparr>],
     sys_calls = [], reports = [], calls = []\<rparr>"

definition bare_env :: js_env where
  "bare_env = \<lparr>env_view = (\<lambda>p. \<lparr>obj_ops_of = js_ObjectOps, clasp = Other_Class, clasp_call = False\<rparr>), env_bytes = (\<lambda>p. []),
     env_int = (\<lambda>p. None)\<rparr>"

theorem udp_constructor_refuses_ports_witness:
  "UDPSocket_CT bare_env True \<lparr>udp_new_fd = 8, bind_result = 0, udp_getfl = 0, udp_setfl = 0, udp_event_mem = Some 1\<rparr> None (Some 0x700)
     (INT32_TO_JSVAL 5000) udp_world = Some (False, report PSMSG_ARGUMENT_NOT_INT udp_world)"
proof -
  have "wf_select udp_world []" by (simp add: wf_select_def udp_world_def)
  moreover have "INT32_TO_JSVAL 5000 \<noteq> JSVAL_VOID" by code_simp
  ultimately show ?thesis
    using udp_constructor_refuses_ports [of udp_world "[]"
      "\<lparr>udp_new_fd = 8, bind_result = 0, udp_getfl = 0, udp_setfl = 0, udp_event_mem = Some 1\<rparr>" 1 bare_env True None "0x700"] by auto
qed

lemma udp_receive_datagrams:
  "udp_receive (map (\<lambda>(bs, ip, port). Datagram bs ip port) ds @ Recv_Again # rs) data ip port =
     Some (Some (data @ concat (map (take 256 \<circ> fst) ds), if ds = [] then (ip, port) else snd (last ds)))"
  by (induction ds arbitrary: data ip port) auto

text \<open>
  C11: When datagrams have arrived, \<open>onData\<close> is called once for all of them: with the first 256 bytes
  of each, one after the other, and with the address and port of the last one only.
\<close>

theorem udp_datagrams_merged:
  assumes "udp_private obj w = Some (Some udp)" "udp_stack_mem r" "ds \<noteq> []"
    "recvs r = map (\<lambda>(bs, ip, port). Datagram bs ip port) ds @ Recv_Again # rs"
  shows "UDPSocket_SelectCallback invoke r obj w = js_Invoke invoke obj (udp_onData udp)
    [Str (concat (map (take 256 \<circ> fst) ds)), Str (inet_ntoa r (fst (snd (last ds)))),
     Val (INT_TO_JSVAL (ucast (snd (snd (last ds)))))] w"
proof -
  obtain ip port where "snd (last ds) = (ip, port)" by fastforce
  then show ?thesis using assms
    by (simp add: UDPSocket_SelectCallback_def udp_receive_datagrams UDPSocket_Invoke_def)
qed

theorem udp_datagrams_merged_witness:
  "UDPSocket_SelectCallback (\<lambda>obj f argv w. Some w)
     \<lparr>recvs = [Datagram [1, 2] 0x0100007F 9, Datagram [3] 0x0200007F 10, Recv_Again], inet_ntoa = (\<lambda>ip. [ucast (drop_bit 24 ip)]),
      udp_stack_mem = True\<rparr> 0x600 udp_world =
   Some (udp_world\<lparr>calls := [(0x600, 0x1000, [Str [1, 2, 3], Str [2], Val (INT_TO_JSVAL 10)])]\<rparr>)"
proof -
  have "udp_private 0x600 udp_world = Some (Some \<lparr>udp_onData = 0x1000, udp_onIOError = JSVAL_VOID, udp_fd = 7, udp_port = 0\<rparr>)"
    by (simp add: udp_private_def udp_world_def)
  from udp_datagrams_merged [OF this, of "\<lparr>recvs = [Datagram [1, 2] 0x0100007F 9, Datagram [3] 0x0200007F 10, Recv_Again],
      inet_ntoa = (\<lambda>ip. [ucast (drop_bit 24 ip)]), udp_stack_mem = True\<rparr>" "[([1, 2], 0x0100007F, 9), ([3], 0x0200007F, 10)]" "[]"]
  have "UDPSocket_SelectCallback invoke \<lparr>recvs = [Datagram [1, 2] 0x0100007F 9, Datagram [3] 0x0200007F 10, Recv_Again],
      inet_ntoa = (\<lambda>ip. [ucast (drop_bit 24 ip)]), udp_stack_mem = True\<rparr> 0x600 udp_world =
    js_Invoke invoke 0x600 0x1000 [Str [1, 2, 3], Str [ucast (drop_bit 24 (0x0200007F :: u32))], Val (INT_TO_JSVAL 10)] udp_world" for invoke
    by simp
  moreover have "ucast (drop_bit 24 (0x0200007F :: u32)) = (2 :: u8)" by code_simp
  ultimately show ?thesis by (simp add: js_Invoke_def) (simp add: udp_world_def)
qed

end
