(* ===== verification/PS_Events.thy ===== *)
theory PS_Events
  imports PS_TCPSocket PS_UDPSocket
begin

text \<open>
  The loop that handles events until there are none left (\<open>js_Execute\<close> in js/src/jsinterp.c,
  \<open>JSUnit_Events\<close> in js/src/ext/jsunit.c), with the sockets' callbacks.
\<close>

section \<open>The loop\<close>

text \<open>What the operating system answers in one round, and to the callbacks called in it.\<close>

record round =
  rd_select :: "select_request \<Rightarrow> select_reply"
  rd_mem :: bool
  rd_tcp :: "ptr \<Rightarrow> ps_world \<Rightarrow> tcp_reply"
  rd_udp :: "ptr \<Rightarrow> ps_world \<Rightarrow> udp_reply"

fun dispatch :: "invoke \<Rightarrow> round \<Rightarrow> ps_callback \<Rightarrow> ptr \<Rightarrow> ps_world \<Rightarrow> ps_world option" where
  "dispatch invoke rd TCP_Select obj w = TCPSocket_SelectCallback invoke (rd_tcp rd obj w) obj w"
| "dispatch invoke rd TCP_SelectError obj w = TCPSocket_SelectErrorCallback invoke (rd_tcp rd obj w) obj w"
| "dispatch invoke rd UDP_Select obj w = UDPSocket_SelectCallback invoke (rd_udp rd obj w) obj w"
| "dispatch invoke rd UDP_SelectError obj w = UDPSocket_SelectErrorCallback invoke (rd_udp rd obj w) obj w"

text \<open>The rounds are given as a list; when it is used up, the loop is still waiting.\<close>

fun handle_events :: "invoke \<Rightarrow> round list \<Rightarrow> ps_world \<Rightarrow> ps_world option" where
  "handle_events invoke [] w = None"
| "handle_events invoke (rd # rds) w = do {
     (more, w) \<leftarrow> ps_HandleSelect (rd_select rd) (rd_mem rd) (dispatch invoke rd) w;
     if more then handle_events invoke rds w else Some w
   }"

text \<open>The end of \<open>js_Execute\<close>, after the script has been interpreted.\<close>

definition execute_events :: "bool \<Rightarrow> invoke \<Rightarrow> round list \<Rightarrow> ps_world \<Rightarrow> ps_world option" where
  "execute_events ok invoke rds w = (if ok then handle_events invoke rds w else Some w)"

definition JSUnit_Events :: "invoke \<Rightarrow> round list \<Rightarrow> ps_world \<Rightarrow> (bool \<times> ps_world) option" where
  "JSUnit_Events invoke rds w = map_option (Pair True) (handle_events invoke rds w)"

section \<open>A list with one socket\<close>

text \<open>The list has one event, of the TCP socket \<open>obj\<close>; and the socket is \<open>tcp\<close>.\<close>

definition waits :: "ps_world \<Rightarrow> nat \<Rightarrow> u32 \<Rightarrow> ptr \<Rightarrow> int \<Rightarrow> bool" where
  "waits w a fdset obj fd \<longleftrightarrow> wf_select w [a] \<and> fd_at w a = fd \<and> fdsetmask (event_of w a) = fdset \<and>
     ev_obj (event_of w a) = obj \<and> func (event_of w a) = TCP_Select \<and> errfunc (event_of w a) = TCP_SelectError \<and>
     0 \<le> fd \<and> fd < FD_SETSIZE"

definition sole :: "ps_world \<Rightarrow> nat \<Rightarrow> u32 \<Rightarrow> ptr \<Rightarrow> tcp_socket \<Rightarrow> bool" where
  "sole w a fdset obj tcp \<longleftrightarrow> waits w a fdset obj (tcp_fd tcp) \<and> blocking tcp = 0 \<and> privates w obj = Some (TCP tcp)"

text \<open>A round in which every descriptor is ready for what is asked of it.\<close>

definition ready_round :: "timespec \<Rightarrow> timespec \<Rightarrow> tcp_reply \<Rightarrow> round" where
  "ready_round t0 t1 r =
     \<lparr>rd_select = (\<lambda>req. \<lparr>result = 1, rd_set = (\<lambda>fd. fd \<in> set (rd_fds req)), wr_set = (\<lambda>fd. fd \<in> set (wr_fds req)),
        er_set = (\<lambda>fd. False), clock_before = t0, clock_after = t1\<rparr>),
      rd_mem = True, rd_tcp = (\<lambda>obj w. r), rd_udp = (\<lambda>obj w. \<lparr>recvs = [], inet_ntoa = (\<lambda>ip. []), udp_stack_mem = True\<rparr>)\<rparr>"

text \<open>Handlers that leave the socket, the events and the record of calls alone, whatever else they do.\<close>

definition quiet :: "invoke \<Rightarrow> bool" where
  "quiet invoke \<longleftrightarrow> (\<forall>obj f argv w. \<exists>w'. invoke obj f argv w = Some w' \<and> ps_Events w' = ps_Events w \<and> events w' = events w \<and>
     freed w' = freed w \<and> bad w' = bad w \<and> privates w' = privates w \<and> calls w' = calls w)"

lemma js_Invoke_quiet:
  assumes "quiet invoke"
  shows "\<exists>w'. js_Invoke invoke obj f argv w = Some w' \<and> ps_Events w' = ps_Events w \<and> events w' = events w \<and>
     freed w' = freed w \<and> bad w' = bad w \<and> privates w' = privates w \<and> calls w' = calls w @ [(obj, f, argv)]"
  using assms [unfolded quiet_def, rule_format, of obj f argv "w\<lparr>calls := calls w @ [(obj, f, argv)]\<rparr>"]
  by (auto simp: js_Invoke_def)

lemma privates_elapse [simp]:
  "privates (elapse rep as w) = privates w" "calls (elapse rep as w) = calls w" "sys_calls (elapse rep as w) = sys_calls w"
  "bad (elapse rep as w) = bad w"
  by (simp_all add: elapse_def)

lemma waits_elapse: "waits w a fdset obj fd \<Longrightarrow> waits (elapse rep [a] w) a fdset obj fd"
  using elapse_wf [of w "[a]" rep] by (simp add: waits_def aged_def)

text \<open>
  A round in which the socket is ready, or in which nothing happens until its time is up, calls
  the socket's callback, after the time spent is taken off the timeout.
\<close>

definition calls_back :: "round \<Rightarrow> tcp_reply \<Rightarrow> ps_world \<Rightarrow> nat \<Rightarrow> bool" where
  "calls_back rd r w a \<longleftrightarrow> rd_mem rd \<and> rd_tcp rd = (\<lambda>obj w. r) \<and>
     (let rep = rd_select rd (request_of [event_of w a])
      in 0 < result rep \<and> (rd_set rep (fd_at w a) \<or> wr_set rep (fd_at w a)) \<or>
         result rep = 0 \<and> timeout (aged rep (event_of w a)) = \<lparr>tv_sec = 0, tv_nsec = 0\<rparr>)"

lemma waits_calls_back:
  assumes waits: "waits w a fdset obj fd" and rd: "calls_back rd r w a"
  shows "\<exists>w1. waits w1 a fdset obj fd \<and> privates w1 = privates w \<and> calls w1 = calls w \<and> sys_calls w1 = sys_calls w \<and>
    handle_events invoke (rd # rds) w = Option.bind (TCPSocket_SelectCallback invoke r obj w1) (handle_events invoke rds)"
proof -
  define evs where "evs = map (event_of w) [a]"
  define rep where "rep = rd_select rd (request_of evs)"
  define w1 where "w1 = elapse rep [a] w"
  have wf: "wf_select w [a]" "fd_at w a = fd" "func (event_of w a) = TCP_Select"
      "ev_obj (event_of w a) = obj" "0 \<le> fd" "fd < FD_SETSIZE"
    using waits by (simp_all add: waits_def)
  have mem: "rd_mem rd" "dispatch invoke rd TCP_Select obj w1 = TCPSocket_SelectCallback invoke r obj w1"
    using rd by (simp_all add: calls_back_def)
  have lists: "0 < result rep \<and> triggered_of rep evs = evs \<or> result rep = 0 \<and> timedout_of rep evs = evs"
    using rd by (auto simp: calls_back_def Let_def rep_def evs_def triggered_of_def timedout_of_def)
  have lens: "\<not> 1 < length (triggered_of rep evs)" "\<not> 1 < length (timedout_of rep evs)" "\<not> 1 < length (errored_of rep evs)"
    by (auto simp: triggered_of_def timedout_of_def errored_of_def evs_def)
  have "ps_HandleSelect (rd_select rd) True (dispatch invoke rd) w =
      map_option (Pair True) (dispatch invoke rd TCP_Select obj w1)"
    using handle_select [OF wf(1), of "rd_select rd" "dispatch invoke rd", folded evs_def, folded rep_def, folded w1_def] wf lens lists
    by (auto simp: evs_def split: option.split)
  then have "handle_events invoke (rd # rds) w = Option.bind (TCPSocket_SelectCallback invoke r obj w1) (handle_events invoke rds)"
    using mem by (cases "TCPSocket_SelectCallback invoke r obj w1") simp_all
  then show ?thesis using waits_elapse [OF waits, of rep] by (intro exI [of _ w1]) (auto simp: w1_def)
qed

lemma round_calls_back:
  assumes sole: "sole w a fdset obj tcp" and rd: "calls_back rd r w a"
  shows "\<exists>w1. sole w1 a fdset obj tcp \<and> calls w1 = calls w \<and> sys_calls w1 = sys_calls w \<and>
    handle_events invoke (rd # rds) w = Option.bind (TCPSocket_SelectCallback invoke r obj w1) (handle_events invoke rds)"
proof -
  from sole have "waits w a fdset obj (tcp_fd tcp)" by (simp add: sole_def)
  from waits_calls_back [OF this rd, of invoke rds] sole show ?thesis unfolding sole_def by auto
qed

lemma ready_calls_back:
  assumes "sole w a fdset obj tcp" "fdset AND PSFDSET_READ \<noteq> 0 \<or> fdset AND PSFDSET_WRITE \<noteq> 0"
  shows "calls_back (ready_round t0 t1 r) r w a"
  using assms by (auto simp: calls_back_def ready_round_def Let_def request_of_def sole_def waits_def)

text \<open>A world that differs from another with one socket in nothing the socket depends on.\<close>

lemma sole_cong:
  assumes "sole w a fdset obj tcp" "ps_Events w' = ps_Events w" "events w' = events w" "freed w' = freed w"
    "privates w' obj = Some (TCP tcp')" "tcp_fd tcp' = tcp_fd tcp" "blocking tcp' = 0"
  shows "sole w' a fdset obj tcp'"
  using assms wf_select_cong [OF assms(2-4)] by (simp add: sole_def waits_def)

text \<open>The event of a connected socket is replaced, and freed memory is used.\<close>

lemma connected_step:
  assumes sole: "sole w a fdset obj tcp" and st: "tcp_state tcp = TCPSTATE_CONNECTED" and a': "a' \<noteq> a"
    and mem: "event_mem r = Some a'" "stack_mem r" and quiet: "quiet invoke"
  shows "\<exists>w'. Option.bind (ps_AddSelect (event_mem r) (tcp_fd tcp) PSFDSET_READ obj TCP_Select TCP_SelectError (- 1) w)
        (\<lambda>(ok, w). if \<not> ok then Some (report (PSMSG_FAILED Async_Setup) w)
                    else TCPSocket_Invoke invoke (stack_mem r) obj f argv w) = Some w' \<and>
    sole w' a' PSFDSET_READ obj tcp \<and> bad w' \<and> calls w' = calls w @ [(obj, f, argv)]"
proof -
  have wf: "wf_select w [a]" "fd_at w a = tcp_fd tcp" using sole by (simp_all add: sole_def waits_def)
  obtain w2 where w2: "ps_AddSelect (Some a') (tcp_fd tcp) PSFDSET_READ obj TCP_Select TCP_SelectError (- 1) w = Some (True, w2)"
    "wf_select w2 [a']" "bad w2" "event_of w2 a' = new_event (tcp_fd tcp) PSFDSET_READ obj TCP_Select TCP_SelectError (- 1)"
    using add_again [OF wf(1) _ wf(2), of a' PSFDSET_READ obj TCP_Select TCP_SelectError "- 1"] a' by auto
  note same = same_more [OF ps_AddSelect_more [OF w2(1)]]
  have sole2: "sole w2 a' PSFDSET_READ obj tcp" using sole w2 same by (simp add: sole_def waits_def)
  obtain w3 where w3: "js_Invoke invoke obj f argv w2 = Some w3" "ps_Events w3 = ps_Events w2" "events w3 = events w2"
    "freed w3 = freed w2" "bad w3 = bad w2" "privates w3 = privates w2" "calls w3 = calls w2 @ [(obj, f, argv)]"
    using js_Invoke_quiet [OF quiet] by blast
  have "sole w3 a' PSFDSET_READ obj tcp"
    using sole sole2 w3 same by (intro sole_cong [OF sole2]) (auto simp: sole_def)
  then show ?thesis using w2(1,3) w3 same mem by (simp add: TCPSocket_Invoke_def)
qed

lemma sole_private: "sole w a fdset obj tcp \<Longrightarrow> tcp_private obj w = Some (Some tcp) \<and> blocking tcp = 0"
  by (simp add: sole_def tcp_private_def)

lemma on_connect:
  assumes "sole w a fdset obj tcp" "tcp_state tcp = TCPSTATE_CONNECTING" "getpeername r" "a' \<noteq> a"
    "event_mem r = Some a'" "stack_mem r" "quiet invoke"
  shows "\<exists>w'. TCPSocket_SelectCallback invoke r obj w = Some w' \<and> bad w' \<and>
    sole w' a' PSFDSET_READ obj (tcp\<lparr>tcp_state := TCPSTATE_CONNECTED\<rparr>) \<and> calls w' = calls w @ [(obj, onConnect tcp, [])]"
proof -
  define tcp' where "tcp' = tcp\<lparr>tcp_state := TCPSTATE_CONNECTED\<rparr>"
  have "sole (set_private obj (TCP tcp') w) a fdset obj tcp'"
    using assms(1) by (intro sole_cong [OF assms(1)]) (auto simp: tcp'_def sole_def)
  from connected_step [OF this _ assms(4-7), of "onConnect tcp" "[]"] sole_private [OF assms(1)] assms(2,3)
  show ?thesis
    by (simp add: TCPSocket_SelectCallback_def tcp_triggered_def tcp'_def [symmetric])
      (auto simp: tcp'_def)
qed

lemma on_data:
  assumes "sole w a fdset obj tcp" "tcp_state tcp = TCPSTATE_CONNECTED" "0 < npeek r" "a' \<noteq> a"
    "event_mem r = Some a'" "stack_mem r" "quiet invoke"
  shows "\<exists>w'. TCPSocket_SelectCallback invoke r obj w = Some w' \<and> bad w' \<and>
    sole w' a' PSFDSET_READ obj tcp \<and> calls w' = calls w @ [(obj, onData tcp, [])]"
  using connected_step [OF assms(1,2,4-7), of "onData tcp" "[]"] sole_private [OF assms(1)] assms(2,3)
  by (auto simp: TCPSocket_SelectCallback_def tcp_triggered_def)

text \<open>Removing the one event empties the list.\<close>

lemma remove_sole:
  assumes "sole w a fdset obj tcp"
  shows "\<exists>w'. ps_RemoveSelect (tcp_fd tcp) w = Some w' \<and> wf_select w' [] \<and> bad w'"
  using remove_present [of w "[]" a "[]"] assms by (auto simp: sole_def waits_def)

lemma on_close:
  assumes "sole w a fdset obj tcp" "tcp_state tcp = TCPSTATE_CONNECTED" "npeek r = 0" "stack_mem r" "quiet invoke"
  shows "\<exists>w'. TCPSocket_SelectCallback invoke r obj w = Some w' \<and> bad w' \<and> ps_Events w' = None \<and>
    privates w' obj = Some (TCP (tcp\<lparr>tcp_state := TCPSTATE_UNCONNECTED, tcp_fd := - 1\<rparr>)) \<and>
    calls w' = calls w @ [(obj, onClose tcp, [])]"
proof -
  obtain w1 where w1: "ps_RemoveSelect (tcp_fd tcp) w = Some w1" "wf_select w1 []" "bad w1"
    using remove_sole [OF assms(1)] by blast
  note same = same_more [OF ps_RemoveSelect_more [OF w1(1)]]
  define w2 where "w2 = set_private obj (TCP (tcp\<lparr>tcp_state := TCPSTATE_UNCONNECTED, tcp_fd := - 1\<rparr>))
    (sys (Sys_Close (tcp_fd tcp)) (sys (Sys_Shutdown (tcp_fd tcp)) w1))"
  obtain w3 where "js_Invoke invoke obj (onClose tcp) [] w2 = Some w3" "ps_Events w3 = ps_Events w2" "bad w3 = bad w2"
    "privates w3 = privates w2" "calls w3 = calls w2 @ [(obj, onClose tcp, [])]"
    using js_Invoke_quiet [OF assms(5)] by blast
  then show ?thesis using w1 same sole_private [OF assms(1)] assms(2-4)
    by (simp add: TCPSocket_SelectCallback_def tcp_triggered_def w2_def [symmetric] TCPSocket_Invoke_def)
      (simp add: w2_def wf_select_def TCPSocket_Invoke_def)
qed

text \<open>An attempt that fails keeps its descriptor.\<close>

lemma on_failure:
  assumes "sole w a fdset obj tcp" "tcp_state tcp = TCPSTATE_CONNECTING" "\<not> getpeername r" "stack_mem r" "string_mem r" "quiet invoke"
  shows "\<exists>w' w2. TCPSocket_SelectCallback invoke r obj w = Some w' \<and> bad w' \<and> ps_Events w' = None \<and>
    privates w' obj = Some (TCP (tcp\<lparr>tcp_state := TCPSTATE_UNCONNECTED\<rparr>)) \<and>
    calls w' = calls w @ [(obj, onIOError tcp, [Str (strerror r)])] \<and>
    js_Invoke invoke obj (onIOError tcp) [Str (strerror r)] w2 = Some w' \<and> sys_calls w2 = sys_calls w"
proof -
  obtain w1 where w1: "ps_RemoveSelect (tcp_fd tcp) w = Some w1" "wf_select w1 []" "bad w1"
    using remove_sole [OF assms(1)] by blast
  note same = same_more [OF ps_RemoveSelect_more [OF w1(1)]]
  define w2 where "w2 = set_private obj (TCP (tcp\<lparr>tcp_state := TCPSTATE_UNCONNECTED\<rparr>)) w1"
  obtain w3 where w3: "js_Invoke invoke obj (onIOError tcp) [Str (strerror r)] w2 = Some w3" "ps_Events w3 = ps_Events w2"
    "bad w3 = bad w2" "privates w3 = privates w2" "calls w3 = calls w2 @ [(obj, onIOError tcp, [Str (strerror r)])]"
    using js_Invoke_quiet [OF assms(6)] by blast
  have "TCPSocket_SelectCallback invoke r obj w = Some w3" using w1 sole_private [OF assms(1)] assms(2-5) w3(1)
    by (simp add: TCPSocket_SelectCallback_def tcp_triggered_def tcp_failed_def w2_def [symmetric] TCPSocket_Invoke_def)
      (simp add: w2_def TCPSocket_Invoke_def)
  then show ?thesis using w1 same w3 by (intro exI [of _ w3] exI [of _ w2]) (simp add: w2_def wf_select_def)
qed

section \<open>Whole sessions\<close>

lemma no_events_ends: "ps_Events w = None \<Longrightarrow> handle_events invoke (rd # rds) w = Some w"
  by (simp add: ps_HandleSelect_def)

text \<open>A peer that accepts the connection and sends data, or that closes it; \<open>a\<close> is the new event's address.\<close>

definition peer_reply :: "bool \<Rightarrow> nat \<Rightarrow> tcp_reply" where
  "peer_reply up a = \<lparr>getpeername = up, npeek = (if up then 1 else 0), strerror = [], string_mem = True,
     event_mem = Some a, stack_mem = True\<rparr>"

lemma peer_reply_simps [simp]:
  "getpeername (peer_reply up a) = up" "npeek (peer_reply True a) = 1" "npeek (peer_reply False a) = 0"
  "string_mem (peer_reply up a)" "event_mem (peer_reply up a) = Some a" "stack_mem (peer_reply up a)"
  by (simp_all add: peer_reply_def)

lemma reads: "PSFDSET_READ AND PSFDSET_READ \<noteq> 0" "PSFDSET_WRITE AND PSFDSET_WRITE \<noteq> 0" "PSFDSET_WRITE \<noteq> 0"
  by code_simp+

lemma data_rounds:
  assumes "sole w a PSFDSET_READ obj tcp" "tcp_state tcp = TCPSTATE_CONNECTED" "successively (\<noteq>) (a # as)" "quiet invoke" "bad w"
  shows "\<exists>w'. handle_events invoke (map (\<lambda>a. ready_round t0 t1 (peer_reply True a)) as @ [ready_round t0 t1 (peer_reply False 0), rd]) w = Some w' \<and>
    ps_Events w' = None \<and> bad w' \<and> calls w' = calls w @ replicate (length as) (obj, onData tcp, []) @ [(obj, onClose tcp, [])] \<and>
    privates w' obj = Some (TCP (tcp\<lparr>tcp_state := TCPSTATE_UNCONNECTED, tcp_fd := - 1\<rparr>))"
  using assms(1,3,5)
proof (induction as arbitrary: w a)
  case Nil
  obtain w1 where w1: "sole w1 a PSFDSET_READ obj tcp" "calls w1 = calls w"
    "handle_events invoke [ready_round t0 t1 (peer_reply False 0), rd] w =
      Option.bind (TCPSocket_SelectCallback invoke (peer_reply False 0) obj w1) (handle_events invoke [rd])"
    using round_calls_back [OF Nil(1) ready_calls_back [OF Nil(1), of t0 t1 "peer_reply False 0"], of invoke "[rd]"] reads by blast
  from on_close [OF w1(1) assms(2) _ _ assms(4), of "peer_reply False 0"] w1(2,3) no_events_ends show ?case by fastforce
next
  case (Cons b as)
  obtain w1 where w1: "sole w1 a PSFDSET_READ obj tcp" "calls w1 = calls w"
    "handle_events invoke (ready_round t0 t1 (peer_reply True b) # map (\<lambda>a. ready_round t0 t1 (peer_reply True a)) as
        @ [ready_round t0 t1 (peer_reply False 0), rd]) w =
      Option.bind (TCPSocket_SelectCallback invoke (peer_reply True b) obj w1)
        (handle_events invoke (map (\<lambda>a. ready_round t0 t1 (peer_reply True a)) as @ [ready_round t0 t1 (peer_reply False 0), rd]))"
    using round_calls_back [OF Cons(2) ready_calls_back [OF Cons(2), of t0 t1 "peer_reply True b"], of invoke] reads by blast
  have "b \<noteq> a" using Cons(3) by auto
  from on_data [OF w1(1) assms(2) _ this _ _ assms(4), of "peer_reply True b"] obtain w2 where w2:
    "TCPSocket_SelectCallback invoke (peer_reply True b) obj w1 = Some w2" "sole w2 b PSFDSET_READ obj tcp" "bad w2"
    "calls w2 = calls w1 @ [(obj, onData tcp, [])]" by auto
  have "successively (\<noteq>) (b # as)" using Cons(3) by simp
  from Cons.IH [OF w2(2) this w2(3)] w1(2,3) w2(1,4) show ?case by auto
qed

lemma session_rounds:
  assumes "sole w a fdset obj tcp" "fdset AND PSFDSET_WRITE \<noteq> 0" "tcp_state tcp = TCPSTATE_CONNECTING"
    "successively (\<noteq>) (a # c # as)" "quiet invoke"
  shows "\<exists>w'. handle_events invoke
      (map (\<lambda>a. ready_round t0 t1 (peer_reply True a)) (c # as) @ [ready_round t0 t1 (peer_reply False 0), rd]) w = Some w' \<and>
    ps_Events w' = None \<and>
    calls w' = calls w @ (obj, onConnect tcp, []) # replicate (length as) (obj, onData tcp, []) @ [(obj, onClose tcp, [])] \<and>
    privates w' obj = Some (TCP (tcp\<lparr>tcp_state := TCPSTATE_UNCONNECTED, tcp_fd := - 1\<rparr>)) \<and> bad w'"
proof -
  let ?rds = "map (\<lambda>a. ready_round t0 t1 (peer_reply True a)) as @ [ready_round t0 t1 (peer_reply False 0), rd]"
  obtain w1 where w1: "sole w1 a fdset obj tcp" "calls w1 = calls w"
    "handle_events invoke (ready_round t0 t1 (peer_reply True c) # ?rds) w =
      Option.bind (TCPSocket_SelectCallback invoke (peer_reply True c) obj w1) (handle_events invoke ?rds)"
    using round_calls_back [OF assms(1) ready_calls_back [OF assms(1), of t0 t1 "peer_reply True c"], of invoke] assms(2) by blast
  from on_connect [OF w1(1) assms(3) _ _ _ _ assms(5), of "peer_reply True c" c] assms(4) obtain w2 where w2:
    "TCPSocket_SelectCallback invoke (peer_reply True c) obj w1 = Some w2" "bad w2"
    "sole w2 c PSFDSET_READ obj (tcp\<lparr>tcp_state := TCPSTATE_CONNECTED\<rparr>)" "calls w2 = calls w1 @ [(obj, onConnect tcp, [])]"
    by auto
  have "successively (\<noteq>) (c # as)" using assms(4) by simp
  from data_rounds [OF w2(3) _ this assms(5) w2(2), of t0 t1 rd] w1(2,3) w2(1,4) show ?thesis
    by auto
qed

section \<open>Properties\<close>

text \<open>A non-blocking connection under way leaves the socket's event as the only one.\<close>

lemma connect_waits:
  assumes "tcp_private obj w = Some (Some tcp)" "tcp_state tcp = TCPSTATE_UNCONNECTED" "blocking tcp = 0" "wf_select w []"
    "connect_args env argv = Inr (peer, port, ms)" "peer_address res peer = Some ip"
    "connect_result r = Connect_InProgress msg" "0 \<le> getfl r" "0 \<le> setfl r" "0 \<le> new_fd r" "new_fd r < FD_SETSIZE"
    "connect_mem r = Some a"
  shows "\<exists>w'. TCPSocket_Connect env res r obj argv w = Some (True, w') \<and> calls w' = calls w \<and>
    sole w' a PSFDSET_WRITE obj (tcp\<lparr>tcp_fd := new_fd r, tcp_state := TCPSTATE_CONNECTING\<rparr>)"
proof -
  define tcp' where "tcp' = tcp\<lparr>tcp_fd := new_fd r, tcp_state := TCPSTATE_CONNECTING\<rparr>"
  define w1 where "w1 = set_private obj (TCP tcp') (sys (Sys_Connect (new_fd r) ip port)
    (set_private obj (TCP (tcp\<lparr>tcp_fd := new_fd r\<rparr>)) (sys (Sys_Socket (new_fd r)) w)))"
  have "wf_select w1 []" using assms(4) by (simp add: wf_select_def w1_def)
  from add_front [OF this, of a "new_fd r" PSFDSET_WRITE obj TCP_Select TCP_SelectError "sint ms"] obtain w2 where w2:
    "ps_AddSelect (Some a) (new_fd r) PSFDSET_WRITE obj TCP_Select TCP_SelectError (sint ms) w1 = Some (True, w2)"
    "wf_select w2 [a]" "event_of w2 a = new_event (new_fd r) PSFDSET_WRITE obj TCP_Select TCP_SelectError (sint ms)"
    by auto
  note same = same_more [OF ps_AddSelect_more [OF w2(1)]]
  have "TCPSocket_Connect env res r obj argv w = Some (True, w2)"
    using assms(1-3,5-9,12) w2(1)
    by (simp add: TCPSocket_Connect_def tcp_open_def Let_def w1_def [unfolded tcp'_def, simplified, symmetric])
  moreover have "sole w2 a PSFDSET_WRITE obj tcp'"
    using w2 same assms(3,10,11) by (simp add: sole_def waits_def tcp'_def w1_def)
  ultimately show ?thesis using same by (auto simp: tcp'_def w1_def)
qed

text \<open>
  C1: Of a socket without a connection, when no other socket waits: a connection that is started, is
  then made, on which data arrive any number of times, and which the peer closes, ends the loop.
  \<open>onConnect\<close> is called once, then \<open>onData\<close> for each arrival, then \<open>onClose\<close>, and nothing is left to
  wait for, if the handlers leave the sockets and the list alone. Each event that is added lies
  where the one before, which is still in use, does not; memory that has been freed may be handed
  out again. On the way the list uses freed memory.
\<close>

theorem tcp_session_ends:
  assumes "tcp_private obj w = Some (Some tcp)" "tcp_state tcp = TCPSTATE_UNCONNECTED" "blocking tcp = 0" "wf_select w []"
    "connect_args env argv = Inr (peer, port, ms)" "peer_address res peer = Some ip"
    "connect_result r = Connect_InProgress msg" "0 \<le> getfl r" "0 \<le> setfl r" "0 \<le> new_fd r" "new_fd r < FD_SETSIZE"
    "connect_mem r = Some a" "successively (\<noteq>) (a # c # as)" "quiet invoke"
  shows "\<exists>w1 w2. TCPSocket_Connect env res r obj argv w = Some (True, w1) \<and>
    execute_events True invoke
      (map (\<lambda>a. ready_round t0 t1 (peer_reply True a)) (c # as) @ [ready_round t0 t1 (peer_reply False 0), rd]) w1 = Some w2 \<and>
    ps_Events w2 = None \<and>
    calls w2 = calls w @ (obj, onConnect tcp, []) # replicate (length as) (obj, onData tcp, []) @ [(obj, onClose tcp, [])] \<and>
    privates w2 obj = Some (TCP (tcp\<lparr>tcp_state := TCPSTATE_UNCONNECTED, tcp_fd := - 1\<rparr>)) \<and> bad w2"
proof -
  from connect_waits [OF assms(1-12)] obtain w1 where w1: "TCPSocket_Connect env res r obj argv w = Some (True, w1)"
    "calls w1 = calls w" "sole w1 a PSFDSET_WRITE obj (tcp\<lparr>tcp_fd := new_fd r, tcp_state := TCPSTATE_CONNECTING\<rparr>)" by auto
  from session_rounds [OF w1(3) _ _ assms(13,14), of t0 t1 rd] w1(1,2) reads show ?thesis by (auto simp: execute_events_def)
qed

text \<open>A socket with a handler for connections and data, and scripts that do nothing.\<close>

definition idle_socket :: tcp_socket where
  "idle_socket = connected_socket\<lparr>tcp_fd := - 1, tcp_state := TCPSTATE_UNCONNECTED\<rparr>"

definition in_progress :: connect_reply where
  "in_progress = \<lparr>new_fd = 6, getfl = 0, setfl = 0, connect_result = Connect_InProgress [], connect_mem = Some 1\<rparr>"

definition local_resolver :: resolver where
  "local_resolver = \<lparr>inet_addr = (\<lambda>b. 0x0200007F), getaddrinfo = (\<lambda>b. None)\<rparr>"

lemma idle_world:
  "tcp_private 0x500 (socket_world idle_socket) = Some (Some idle_socket)" "wf_select (socket_world idle_socket) []"
  "calls (socket_world idle_socket) = []"
  by (rule socket_world_private) (simp_all add: wf_select_def socket_world_def)

lemma local_args:
  "connect_args plain_env [0x2004, 9] = Inr ([0x31, 0x2E, 0x32], 4, 5000)"
  "peer_address local_resolver [0x31, 0x2E, 0x32] = Some 0x0200007F"
proof -
  have "env_bytes plain_env (JSVAL_TO_GCTHING 0x2004) = [0x31, 0x2E, 0x32]" by (simp add: string_2004 plain_env_def)
  then show "connect_args plain_env [0x2004, 9] = Inr ([0x31, 0x2E, 0x32], 4, 5000)"
    by (simp add: connect_args_def string_2004 number_9 c_bytes_def)
  show "peer_address local_resolver [0x31, 0x2E, 0x32] = Some 0x0200007F"
    by (simp add: peer_address_def dotted_def local_resolver_def)
qed

lemma silent_quiet: "quiet (\<lambda>obj f argv w. Some w)"
  by (simp add: quiet_def)

theorem tcp_session_ends_witness:
  "\<exists>w1 w2. TCPSocket_Connect plain_env local_resolver in_progress 0x500 [0x2004, 9] (socket_world idle_socket) = Some (True, w1) \<and>
     execute_events True (\<lambda>obj f argv w. Some w)
       (map (\<lambda>a. ready_round set_no_timeout set_no_timeout (peer_reply True a)) [2, 1, 2] @
         [ready_round set_no_timeout set_no_timeout (peer_reply False 0), ready_round set_no_timeout set_no_timeout (peer_reply False 0)]) w1
       = Some w2 \<and>
     calls w2 = [(0x500, 0x1000, []), (0x500, 0x1000, []), (0x500, 0x1000, []), (0x500, JSVAL_VOID, [])]"
  using tcp_session_ends [OF idle_world(1) _ _ idle_world(2) local_args, of in_progress "[]" 1 2 "[1, 2]" "\<lambda>obj f argv w. Some w"
      set_no_timeout set_no_timeout "ready_round set_no_timeout set_no_timeout (peer_reply False 0)"] idle_world(3) silent_quiet
  by (simp add: in_progress_def idle_socket_def connected_socket_def FD_SETSIZE_def) blast

text \<open>
  C10: When only one socket waits, and handlers leave the sockets and the list alone, an attempt to
  connect that fails, or whose time is up, ends with a call of \<open>onIOError\<close> with the message; its event
  is gone, but the descriptor is still the socket's and has not been closed.
\<close>

theorem tcp_failed_attempt_keeps_descriptor:
  assumes "sole w a fdset obj tcp" "tcp_state tcp = TCPSTATE_CONNECTING" "calls_back rd r w a"
    "\<not> getpeername r" "string_mem r" "stack_mem r" "quiet invoke"
  shows "\<exists>w' w2. handle_events invoke [rd, rd'] w = Some w' \<and> ps_Events w' = None \<and>
    calls w' = calls w @ [(obj, onIOError tcp, [Str (strerror r)])] \<and>
    privates w' obj = Some (TCP (tcp\<lparr>tcp_state := TCPSTATE_UNCONNECTED\<rparr>)) \<and>
    js_Invoke invoke obj (onIOError tcp) [Str (strerror r)] w2 = Some w' \<and> sys_calls w2 = sys_calls w"
proof -
  obtain w1 where w1: "sole w1 a fdset obj tcp" "calls w1 = calls w" "sys_calls w1 = sys_calls w"
    "handle_events invoke [rd, rd'] w = Option.bind (TCPSocket_SelectCallback invoke r obj w1) (handle_events invoke [rd'])"
    using round_calls_back [OF assms(1,3)] by blast
  from on_failure [OF w1(1) assms(2,4,6,5,7)] w1(2-4) no_events_ends show ?thesis by fastforce
qed

lemma waiting_socket:
  "\<exists>w. TCPSocket_Connect plain_env local_resolver in_progress 0x500 [0x2004, 9] (socket_world idle_socket) = Some (True, w) \<and>
     sole w 1 PSFDSET_WRITE 0x500 (idle_socket\<lparr>tcp_fd := 6, tcp_state := TCPSTATE_CONNECTING\<rparr>)"
  using connect_waits [OF idle_world(1) _ _ idle_world(2) local_args, of in_progress "[]" 1]
  by (auto simp: in_progress_def idle_socket_def connected_socket_def FD_SETSIZE_def)

theorem tcp_failed_attempt_keeps_descriptor_witness:
  "\<exists>w rd w'. TCPSocket_Connect plain_env local_resolver in_progress 0x500 [0x2004, 9] (socket_world idle_socket) = Some (True, w) \<and>
     handle_events (\<lambda>obj f argv w. Some w) [rd, rd] w = Some w' \<and> ps_Events w' = None \<and>
     privates w' 0x500 = Some (TCP (idle_socket\<lparr>tcp_fd := 6\<rparr>)) \<and> sys_calls w' = sys_calls w"
proof -
  define r where "r = (peer_reply False 0)\<lparr>strerror := [0x65]\<rparr>"
  define rd where "rd = ready_round set_no_timeout set_no_timeout r"
  obtain w where w: "TCPSocket_Connect plain_env local_resolver in_progress 0x500 [0x2004, 9] (socket_world idle_socket) = Some (True, w)"
    "sole w 1 PSFDSET_WRITE 0x500 (idle_socket\<lparr>tcp_fd := 6, tcp_state := TCPSTATE_CONNECTING\<rparr>)"
    using waiting_socket by blast
  from tcp_failed_attempt_keeps_descriptor [OF w(2) _ ready_calls_back [OF w(2), of set_no_timeout set_no_timeout r],
      of "\<lambda>obj f argv w. Some w" rd] reads silent_quiet
  obtain w' w2 where "handle_events (\<lambda>obj f argv w. Some w) [rd, rd] w = Some w'" "ps_Events w' = None"
    "privates w' 0x500 = Some (TCP (idle_socket\<lparr>tcp_fd := 6, tcp_state := TCPSTATE_UNCONNECTED\<rparr>))"
    "js_Invoke (\<lambda>obj f argv w. Some w) 0x500 (onIOError idle_socket) [Str [0x65]] w2 = Some w'" "sys_calls w2 = sys_calls w"
    by (auto simp: r_def rd_def)
  moreover from calculation(4,5) have "sys_calls w' = sys_calls w" by (auto simp: js_Invoke_def)
  moreover have "idle_socket\<lparr>tcp_fd := 6, tcp_state := TCPSTATE_UNCONNECTED\<rparr> = idle_socket\<lparr>tcp_fd := 6\<rparr>"
    by (simp add: idle_socket_def)
  ultimately show ?thesis using w(1) by auto
qed



end
