(* ===== verification/PS_Safety.thy ===== *)
theory PS_Safety
  imports PS_Events
begin

text \<open>
  What holds of all sockets whatever scripts do: the operations, callbacks and rounds of waiting in
  any order, with scripts that perform them in their turn when they are called.
\<close>

section \<open>Everything a script can do\<close>

text \<open>
  \<open>evolves env w w'\<close>: the world \<open>w\<close> can become \<open>w'\<close>. Where a function of a script is called, it
  may do whatever can be done.
\<close>

inductive evolves :: "js_env \<Rightarrow> ps_world \<Rightarrow> ps_world \<Rightarrow> bool" for env where
  stay: "evolves env w w"
| seq: "evolves env w w1 \<Longrightarrow> evolves env w1 w2 \<Longrightarrow> evolves env w w2"
| tcp_new: "TCPSocket_CT env mem new o' arg w = Some (ok, w') \<Longrightarrow> evolves env w w'"
| tcp_set: "TCPSocket_SetProperty env obj i v w = Some w' \<Longrightarrow> evolves env w w'"
| tcp_connect: "TCPSocket_Connect env res r obj argv w = Some (ok, w') \<Longrightarrow> evolves env w w'"
| tcp_close: "TCPSocket_Close obj w = Some (ok, w') \<Longrightarrow> evolves env w w'"
| tcp_read: "TCPSocket_Read env recv obj argv (os :: nat) w = Some (data, os', w') \<Longrightarrow> evolves env w w'"
| tcp_write: "TCPSocket_Write env sent obj argv w = Some (ok, w') \<Longrightarrow> evolves env w w'"
| tcp_gone: "TCPSocket_DT obj w = Some w' \<Longrightarrow> evolves env w w'"
| udp_new: "UDPSocket_CT env mem b new o' arg w = Some (ok, w') \<Longrightarrow> evolves env w w'"
| udp_set: "UDPSocket_SetProperty env obj i v w = Some w' \<Longrightarrow> evolves env w w'"
| udp_close: "UDPSocket_Close obj w = Some (ok, w') \<Longrightarrow> evolves env w w'"
| udp_send: "UDPSocket_Send env res sent obj argv w = Some (ok, w') \<Longrightarrow> evolves env w w'"
| udp_gone: "UDPSocket_DT obj w = Some w' \<Longrightarrow> evolves env w w'"
| round: "ps_HandleSelect sel mem (dispatch invoke rd) w = Some (going, w') \<Longrightarrow>
    (\<And>obj f argv u u'. invoke obj f argv u = Some u' \<Longrightarrow> evolves env u u') \<Longrightarrow> evolves env w w'"

section \<open>Invariants on the private data\<close>

text \<open>A property of the sockets there are, kept by what does not touch the private data.\<close>

definition all_sockets :: "(ps_private \<Rightarrow> bool) \<Rightarrow> ps_world \<Rightarrow> bool" where
  "all_sockets P w \<longleftrightarrow> (\<forall>obj p. privates w obj = Some p \<longrightarrow> P p)"

lemma all_sockets_same: "privates w' = privates w \<Longrightarrow> all_sockets P w' = all_sockets P w"
  by (simp add: all_sockets_def)

lemma all_sockets_simps [simp]:
  "all_sockets P (sys c w) = all_sockets P w" "all_sockets P (report e w) = all_sockets P w"
  "all_sockets P (w\<lparr>calls := cs\<rparr>) = all_sockets P w"
  by (simp_all add: all_sockets_def)

lemma all_sockets_set [simp]: "all_sockets P w \<Longrightarrow> P p \<Longrightarrow> all_sockets P (set_private obj p w)"
  by (simp add: all_sockets_def)

lemma all_sockets_gone: "all_sockets P w \<Longrightarrow> all_sockets P (w\<lparr>privates := (privates w)(obj := None)\<rparr>)"
  by (simp add: all_sockets_def)

lemma all_sockets_tcp: "all_sockets P w \<Longrightarrow> tcp_private obj w = Some (Some tcp) \<Longrightarrow> P (TCP tcp)"
  by (auto simp: all_sockets_def tcp_private_def split: option.splits ps_private.splits)

lemma all_sockets_tcp_instance: "all_sockets P w \<Longrightarrow> tcp_instance obj w = Some (Some tcp) \<Longrightarrow> P (TCP tcp)"
  by (auto simp: all_sockets_def tcp_instance_def split: option.splits ps_private.splits)

lemma all_sockets_udp: "all_sockets P w \<Longrightarrow> udp_private obj w = Some (Some udp) \<Longrightarrow> P (UDP udp)"
  by (auto simp: all_sockets_def udp_private_def split: option.splits ps_private.splits)

lemma all_sockets_udp_instance: "all_sockets P w \<Longrightarrow> udp_instance obj w = Some (Some udp) \<Longrightarrow> P (UDP udp)"
  by (auto simp: all_sockets_def udp_instance_def split: option.splits ps_private.splits)

lemma all_sockets_remove: "ps_RemoveSelect fd w = Some w' \<Longrightarrow> all_sockets P w' = all_sockets P w"
  using same_more(1) [OF ps_RemoveSelect_more] by (intro all_sockets_same) blast

lemma all_sockets_add: "ps_AddSelect new fd fdset obj f errf ms w = Some (ok, w') \<Longrightarrow> all_sockets P w' = all_sockets P w"
  using same_more(1) [OF ps_AddSelect_more] by (intro all_sockets_same) blast

text \<open>A round of waiting touches the private data in the callbacks only.\<close>

lemma walk_more: "walk p s = Some (as, s') \<Longrightarrow> select_state.more s' = select_state.more s"
proof -
  have "walk p s = Some y \<Longrightarrow> select_state.more (snd y) = select_state.more s" for y
  proof (induction rule: walk.raw_induct [rotated 1, consumes 1, case_names step])
    case (step loop p s y)
    show ?case
    proof (cases p)
      case (Some a)
      then obtain e as s1 where e: "events s a = Some e" "loop (next_ev e) (touch a s) = Some (as, s1)" "y = (a # as, s1)"
        using step(2) by (auto split: option.splits Option.bind_splits)
      from step(1) [OF e(2)] e(3) show ?thesis by (simp add: touch_more)
    qed (use step(2) in auto)
  qed
  then show "walk p s = Some (as, s') \<Longrightarrow> select_state.more s' = select_state.more s" by fastforce
qed

lemma collect_more:
  "collect_events rep as tr ti er s = Some (tr', ti', er', s') \<Longrightarrow> select_state.more s' = select_state.more s"
proof (induction as arbitrary: tr ti er s)
  case (Cons a as)
  obtain e where "events s a = Some e" using Cons(2) by (cases "events s a") auto
  then show ?case using Cons(2) by (auto simp: Let_def set_event_def touch_def dest!: Cons(1))
qed simp

lemma call_events_keep:
  "call_events call cs s = Some s' \<Longrightarrow> (\<And>c u u'. I u \<Longrightarrow> call c u = Some u' \<Longrightarrow> I u') \<Longrightarrow> I s \<Longrightarrow> I s'"
  by (induction cs arbitrary: s) (auto split: option.splits)

lemma round_keeps:
  assumes "ps_HandleSelect sel mem call w = Some (going, w')" "all_sockets P w"
    and "\<And>f obj u u'. all_sockets P u \<Longrightarrow> call f obj u = Some u' \<Longrightarrow> all_sockets P u'"
  shows "all_sockets P w'"
proof (cases "ps_Events w = None")
  case True
  then show ?thesis using assms(1,2) by (simp add: ps_HandleSelect_def)
next
  case False
  obtain as w1 where 1: "walk (ps_Events w) w = Some (as, w1)" using assms(1) False
    by (cases "walk (ps_Events w) w") (auto simp: ps_HandleSelect_def)
  obtain req where 2: "scan_events (map (\<lambda>a. the (events w1 a)) as) 0 [] [] [] set_no_timeout = Some req" using assms(1) False 1
    by (cases "scan_events (map (\<lambda>a. the (events w1 a)) as) 0 [] [] [] set_no_timeout") (auto simp: ps_HandleSelect_def)
  obtain as2 w2 where 3: "walk (ps_Events w1) w1 = Some (as2, w2)" using assms(1) False 1 2
    by (cases "walk (ps_Events w1) w1") (auto simp: ps_HandleSelect_def)
  obtain tr ti er w3 where 4: "collect_events (sel req) as2 [] [] [] w2 = Some (tr, ti, er, w3)" using assms(1) False 1 2 3
    by (cases "collect_events (sel req) as2 [] [] [] w2") (auto simp: ps_HandleSelect_def Let_def)
  have "all_sockets P w3" using assms(2) same_more(1) [OF walk_more [OF 1]] same_more(1) [OF walk_more [OF 3]] same_more(1) [OF collect_more [OF 4]]
    by (simp add: all_sockets_def)
  then have keep: "all_sockets P u" if "call_events (\<lambda>c. call (g c) (cp_obj c)) cs w3 = Some u" for g cs u
    using call_events_keep [OF that, of "all_sockets P"] assms(3) by blast
  have "all_sockets P (u\<lparr>bad := b\<rparr>) = all_sockets P u" for u b by (simp add: all_sockets_def)
  then show ?thesis using assms(1) False 1 2 3 4
    by (auto simp: ps_HandleSelect_def Let_def split: if_splits option.splits dest!: keep)
qed

text \<open>
  What an invariant on the private data has to say of the operations: of a new socket, of one with
  another handler or descriptor, and of the changes of state.
\<close>

locale socket_invariant =
  fixes env :: js_env and P :: "ps_private \<Rightarrow> bool"
  assumes none: "P No_Private"
    and tcp_fresh: "TCPSocket_New mem b = Some tcp \<Longrightarrow> P (TCP tcp)"
    and udp_fresh: "UDPSocket_New mem = Some udp \<Longrightarrow> P (UDP (udp\<lparr>udp_fd := fd, udp_port := port\<rparr>))"
    and handlers: "P (TCP tcp) \<Longrightarrow> JSVAL_IS_FUNCTION (env_view env) f \<Longrightarrow>
      P (TCP (tcp\<lparr>onConnect := f\<rparr>)) \<and> P (TCP (tcp\<lparr>onData := f\<rparr>)) \<and> P (TCP (tcp\<lparr>onClose := f\<rparr>)) \<and> P (TCP (tcp\<lparr>onIOError := f\<rparr>))"
    and udp_handlers: "P (UDP udp) \<Longrightarrow> JSVAL_IS_FUNCTION (env_view env) f \<Longrightarrow>
      P (UDP (udp\<lparr>udp_onData := f\<rparr>)) \<and> P (UDP (udp\<lparr>udp_onIOError := f\<rparr>))"
    and closed: "P (UDP udp) \<Longrightarrow> P (UDP (udp\<lparr>udp_fd := - 1\<rparr>))"
    and tcp_fd: "P (TCP tcp) \<Longrightarrow> P (TCP (tcp\<lparr>tcp_fd := fd\<rparr>))"
    and settled: "P (TCP tcp) \<Longrightarrow> st \<noteq> TCPSTATE_CONNECTING \<Longrightarrow> P (TCP (tcp\<lparr>tcp_state := st\<rparr>))"
    and connecting: "P (TCP tcp) \<Longrightarrow> blocking tcp = 0 \<Longrightarrow> P (TCP (tcp\<lparr>tcp_state := TCPSTATE_CONNECTING\<rparr>))"
begin

lemma tcp_open_keeps:
  assumes "tcp_open r obj tcp ip port ms w = Some (ok, w')"
  shows "all_sockets P w \<and> P (TCP tcp) \<longrightarrow> all_sockets P w'"
proof (intro impI, elim conjE)
  assume w: "all_sockets P w" "P (TCP tcp)"
  have fd: "P (TCP (tcp\<lparr>tcp_fd := new_fd r\<rparr>))" using w(2) by (rule tcp_fd)
  have "P (TCP (tcp\<lparr>tcp_fd := new_fd r, tcp_state := TCPSTATE_CONNECTED\<rparr>))" using settled [OF fd, of TCPSTATE_CONNECTED] by simp
  moreover have "P (TCP (tcp\<lparr>tcp_fd := new_fd r, tcp_state := TCPSTATE_CONNECTING\<rparr>))" if "blocking tcp = 0"
    using connecting [OF fd] that by simp
  ultimately show "all_sockets P w'" using assms w fd
    by (auto simp: tcp_open_def Let_def all_sockets_add split: if_splits connect_result.splits Option.bind_splits)
qed

lemma connect_keeps:
  assumes "all_sockets P w" "TCPSocket_Connect env res r obj argv w = Some (ok, w')"
  shows "all_sockets P w'"
proof -
  have "P (TCP (tcp\<lparr>tcp_state := TCPSTATE_UNCONNECTED, tcp_fd := - 1\<rparr>))" if "tcp_private obj w = Some (Some tcp)" for tcp
    using tcp_fd [OF settled [OF all_sockets_tcp [OF assms(1) that]], of TCPSTATE_UNCONNECTED "- 1"] by simp
  then show ?thesis using assms all_sockets_tcp [OF assms(1)]
    by (auto simp: TCPSocket_Connect_def split: Option.bind_splits option.splits sum.splits if_splits dest!: tcp_open_keeps)
qed

lemmas handler_rules = handlers [THEN conjunct1] handlers [THEN conjunct2, THEN conjunct1]
  handlers [THEN conjunct2, THEN conjunct2, THEN conjunct1] handlers [THEN conjunct2, THEN conjunct2, THEN conjunct2]
  udp_handlers [THEN conjunct1] udp_handlers [THEN conjunct2]

lemma close_keeps:
  assumes w: "all_sockets P w"
  shows "TCPSocket_Close obj w = Some (ok, w') \<Longrightarrow> all_sockets P w'"
    and "UDPSocket_Close obj w = Some (ok, w') \<Longrightarrow> all_sockets P w'"
  using w by (auto simp: TCPSocket_Close_def UDPSocket_Close_def Let_def all_sockets_remove all_sockets_tcp [OF w] all_sockets_udp [OF w]
      tcp_fd closed split: Option.bind_splits option.splits if_splits)

lemma set_keeps:
  assumes w: "all_sockets P w"
  shows "TCPSocket_SetProperty env obj i v w = Some w' \<Longrightarrow> all_sockets P w'"
    and "UDPSocket_SetProperty env obj i v w = Some w' \<Longrightarrow> all_sockets P w'"
  using w by (auto simp: TCPSocket_SetProperty_def UDPSocket_SetProperty_def Let_def handler_rules all_sockets_tcp_instance [OF w]
      all_sockets_udp_instance [OF w] split: Option.bind_splits if_splits)

lemma new_keeps:
  assumes w: "all_sockets P w"
  shows "TCPSocket_CT env mem new o' arg w = Some (ok, w') \<Longrightarrow> all_sockets P w'"
    and "UDPSocket_CT env mem b new o' arg w = Some (ok, w') \<Longrightarrow> all_sockets P w'"
  using w by (auto simp: TCPSocket_CT_def UDPSocket_CT_def Let_def all_sockets_add none tcp_fresh udp_fresh
      split: option.splits Option.bind_splits if_splits)

lemma gone_keeps:
  assumes w: "all_sockets P w"
  shows "TCPSocket_DT obj w = Some w' \<Longrightarrow> all_sockets P w'" and "UDPSocket_DT obj w = Some w' \<Longrightarrow> all_sockets P w'"
  using w by (auto simp: TCPSocket_DT_def UDPSocket_DT_def TCPSocket_Delete_def UDPSocket_Delete_def all_sockets_def Let_def
      split: Option.bind_splits option.splits if_splits)

text \<open>The callbacks, with scripts that keep the invariant.\<close>

lemma invoke_keeps:
  assumes "\<And>obj f argv u u'. invoke obj f argv u = Some u' \<Longrightarrow> all_sockets P u \<Longrightarrow> all_sockets P u'" "all_sockets P w"
  shows "TCPSocket_Invoke invoke stack obj f argv w = Some w' \<Longrightarrow> all_sockets P w'"
    and "UDPSocket_Invoke invoke stack obj f argv w = Some w' \<Longrightarrow> all_sockets P w'"
  using assms by (auto simp: TCPSocket_Invoke_def UDPSocket_Invoke_def js_Invoke_def split: if_splits
      dest!: assms(1))

lemma triggered_keeps:
  assumes w: "all_sockets P w" and tcp: "P (TCP tcp)" and run: "tcp_triggered r obj tcp w = Some (c, w')"
  shows "all_sockets P w'"
proof -
  have "P (TCP (tcp\<lparr>tcp_state := TCPSTATE_CONNECTED\<rparr>))" "P (TCP (tcp\<lparr>tcp_state := TCPSTATE_UNCONNECTED\<rparr>))"
    using settled [OF tcp] by simp_all
  moreover from tcp_fd [OF this(2), of "- 1"] have "P (TCP (tcp\<lparr>tcp_state := TCPSTATE_UNCONNECTED, tcp_fd := - 1\<rparr>))" by simp
  ultimately show ?thesis using w tcp run
    by (auto simp: tcp_triggered_def tcp_failed_def Let_def all_sockets_remove split: if_splits Option.bind_splits)
qed

lemma dispatch_keeps:
  assumes inv: "\<And>obj f argv u u'. invoke obj f argv u = Some u' \<Longrightarrow> all_sockets P u \<Longrightarrow> all_sockets P u'"
    and w: "all_sockets P w" and run: "dispatch invoke rd cb obj w = Some w'"
  shows "all_sockets P w'"
proof (cases cb)
  case TCP_Select
  have fin: "all_sockets P w'" if "all_sockets P u" "TCPSocket_Invoke invoke stack obj f argv u = Some w'" for u stack f argv
    using invoke_keeps(1) [OF inv that] .
  have trig: "all_sockets P u" if "tcp_triggered r obj tcp w = Some (c, u)" "tcp_private obj w = Some (Some tcp)" for r tcp c u
    using triggered_keeps [OF w all_sockets_tcp [OF w that(2)] that(1)] .
  show ?thesis using run w unfolding TCP_Select dispatch.simps TCPSocket_SelectCallback_def
    by (auto simp: all_sockets_remove split: Option.bind_splits option.splits if_splits prod.splits
        dest: trig dest!: all_sockets_add intro: fin)
next
  case TCP_SelectError
  have fin: "all_sockets P u" if "TCPSocket_Invoke invoke stack obj f argv w = Some u" for u stack f argv
    using invoke_keeps(1) [OF inv w that] .
  show ?thesis using run w unfolding TCP_SelectError
    by (auto simp: TCPSocket_SelectErrorCallback_def split: Option.bind_splits option.splits dest: close_keeps(1) [OF fin])
next
  case UDP_Select
  have fin: "all_sockets P u" if "UDPSocket_Invoke invoke stack obj f argv w = Some u" for u stack f argv
    using invoke_keeps(2) [OF inv w that] .
  show ?thesis using run w unfolding UDP_Select
    by (auto simp: UDPSocket_SelectCallback_def split: Option.bind_splits option.splits dest: fin)
next
  case UDP_SelectError
  have fin: "all_sockets P u" if "UDPSocket_Invoke invoke stack obj f argv w = Some u" for u stack f argv
    using invoke_keeps(2) [OF inv w that] .
  show ?thesis using run w unfolding UDP_SelectError
    by (auto simp: UDPSocket_SelectErrorCallback_def split: Option.bind_splits option.splits dest: close_keeps(2) [OF fin])
qed

theorem always: "evolves env w w' \<Longrightarrow> all_sockets P w \<Longrightarrow> all_sockets P w'"
proof (induction rule: evolves.induct)
  case (round sel mem invoke rd w going w')
  show ?case by (rule round_keeps [OF round.hyps(1) round.prems]) (rule dispatch_keeps [OF round.IH])
next
  case (tcp_read recv obj argv os w data os' w')
  then show ?case by (auto simp: TCPSocket_Read_def Let_def split: Option.bind_splits option.splits if_splits)
next
  case (tcp_write sent obj argv w ok w')
  then show ?case by (auto simp: TCPSocket_Write_def Let_def split: Option.bind_splits option.splits if_splits)
next
  case (udp_send res sent obj argv w ok w')
  then show ?case by (auto simp: UDPSocket_Send_def Let_def split: Option.bind_splits option.splits sum.splits if_splits)
qed (auto dest: connect_keeps close_keeps set_keeps new_keeps gone_keeps)

end

section \<open>The invariants of the sockets\<close>

definition handler_ok :: "js_env \<Rightarrow> jsval \<Rightarrow> bool" where
  "handler_ok env v \<longleftrightarrow> v = JSVAL_VOID \<or> JSVAL_IS_FUNCTION (env_view env) v"

fun handlers_ok :: "js_env \<Rightarrow> ps_private \<Rightarrow> bool" where
  "handlers_ok env No_Private \<longleftrightarrow> True"
| "handlers_ok env (TCP tcp) \<longleftrightarrow> handler_ok env (onConnect tcp) \<and> handler_ok env (onData tcp) \<and>
     handler_ok env (onClose tcp) \<and> handler_ok env (onIOError tcp)"
| "handlers_ok env (UDP udp) \<longleftrightarrow> handler_ok env (udp_onData udp) \<and> handler_ok env (udp_onIOError udp)"

interpretation handlers: socket_invariant env "handlers_ok env" for env
  by unfold_locales (auto simp: handler_ok_def TCPSocket_New_def UDPSocket_New_def split: if_splits)

fun waits_unblocked :: "ps_private \<Rightarrow> bool" where
  "waits_unblocked (TCP tcp) \<longleftrightarrow> tcp_state tcp = TCPSTATE_CONNECTING \<longrightarrow> blocking tcp = 0"
| "waits_unblocked _ \<longleftrightarrow> True"

interpretation unblocked: socket_invariant env waits_unblocked for env
proof unfold_locales
  show "waits_unblocked (TCP (tcp\<lparr>tcp_state := st\<rparr>))" if "st \<noteq> TCPSTATE_CONNECTING" for tcp st
    using that by simp
qed (auto simp: TCPSocket_New_def split: if_splits)

section \<open>Properties\<close>

text \<open>
  C3: Whatever scripts do, in callbacks too, the handlers of every socket are functions, or void
  if none has been set: nothing else is ever called when an event is handled.
\<close>

theorem handlers_are_functions:
  assumes "evolves env w w'" "privates w = Map.empty"
  shows "(privates w' obj = Some (TCP tcp) \<longrightarrow>
      (\<forall>f\<in>{onConnect tcp, onData tcp, onClose tcp, onIOError tcp}. f = JSVAL_VOID \<or> JSVAL_IS_FUNCTION (env_view env) f)) \<and>
    (privates w' obj = Some (UDP udp) \<longrightarrow>
      (\<forall>f\<in>{udp_onData udp, udp_onIOError udp}. f = JSVAL_VOID \<or> JSVAL_IS_FUNCTION (env_view env) f))"
proof -
  have "all_sockets (handlers_ok env) w" using assms(2) by (simp add: all_sockets_def)
  from handlers.always [OF assms(1) this] show ?thesis by (force simp: all_sockets_def handler_ok_def)
qed

text \<open>
  C9: A socket that waits for its connection does not block, so the callback that completes the
  connection never takes the branch for blocking sockets.
\<close>

theorem connecting_never_blocks:
  assumes "evolves env w w'" "privates w = Map.empty" "privates w' obj = Some (TCP tcp)" "tcp_state tcp = TCPSTATE_CONNECTING"
  shows "blocking tcp = 0"
proof -
  have "all_sockets waits_unblocked w" using assms(2) by (simp add: all_sockets_def)
  from unblocked.always [OF assms(1) this] show ?thesis using assms(3,4) by (force simp: all_sockets_def)
qed

text \<open>A script that makes a socket, gives it a handler and connects it.\<close>

definition empty_world :: ps_world where
  "empty_world = \<lparr>ps_Events = None, events = Map.empty, freed = [], bad = False, privates = Map.empty,
     sys_calls = [], reports = [], calls = []\<rparr>"

lemma handler_1000: "JSVAL_IS_FUNCTION (env_view plain_env) 0x1000"
proof -
  have "\<not> JSVAL_IS_PRIMITIVE 0x1000" "JSVAL_TO_GCTHING 0x1000 = 0x1000" by code_simp+
  then show ?thesis by (simp add: JSVAL_IS_FUNCTION_def plain_env_def)
qed

lemma script_runs:
  "\<exists>w tcp. evolves plain_env empty_world w \<and> privates w 0x500 = Some (TCP tcp) \<and> onConnect tcp = 0x1000 \<and>
     tcp_state tcp = TCPSTATE_CONNECTING \<and> blocking tcp = 0"
proof -
  define new where "new = \<lparr>blocking = 0, onConnect = JSVAL_VOID, onData = JSVAL_VOID, onClose = JSVAL_VOID, onIOError = JSVAL_VOID,
    tcp_fd = - 1, tcp_state = TCPSTATE_UNCONNECTED\<rparr>"
  define w1 where "w1 = set_private 0x500 (TCP new) empty_world"
  define w2 where "w2 = set_private 0x500 (TCP (new\<lparr>onConnect := 0x1000\<rparr>)) w1"
  have id: "JSVAL_IS_INT (INT32_TO_JSVAL (- 2))" "JSVAL_TO_INT (INT32_TO_JSVAL (- 2)) = TCPSOCKET_ONCONNECT"
    "TCPSOCKET_ONCONNECT \<noteq> TCPSOCKET_TCPSTATE_CONNECTED" by code_simp+
  have "JS_TypeOfValue (env_view plain_env) JSVAL_VOID = JSTYPE_VOID" by (rule void_argument)
  then have 1: "TCPSocket_CT plain_env True None (Some 0x500) JSVAL_VOID empty_world = Some (True, w1)"
    by (simp add: TCPSocket_CT_def TCPSocket_New_def w1_def new_def)
  have "tcp_instance 0x500 w1 = Some (Some new)" by (simp add: w1_def)
  then have 2: "TCPSocket_SetProperty plain_env 0x500 (INT32_TO_JSVAL (- 2)) 0x1000 w1 = Some w2"
    by (simp add: TCPSocket_SetProperty_def id handler_1000 w2_def Let_def)
  have w2: "tcp_private 0x500 w2 = Some (Some (new\<lparr>onConnect := 0x1000\<rparr>))" "wf_select w2 []"
    by (simp_all add: w2_def) (simp add: wf_select_def w1_def empty_world_def)
  from connect_waits [OF w2(1) _ _ w2(2) local_args, of in_progress "[]" 1] obtain w3 where 3:
    "TCPSocket_Connect plain_env local_resolver in_progress 0x500 [0x2004, 9] w2 = Some (True, w3)"
    "sole w3 1 PSFDSET_WRITE 0x500 (new\<lparr>onConnect := 0x1000, tcp_fd := 6, tcp_state := TCPSTATE_CONNECTING\<rparr>)"
    by (auto simp: new_def in_progress_def FD_SETSIZE_def)
  have "evolves plain_env empty_world w3"
    using evolves.tcp_new [OF 1] evolves.tcp_set [OF 2] evolves.tcp_connect [OF 3(1)] by (blast intro: evolves.seq)
  then show ?thesis using 3(2) by (auto simp: sole_def new_def)
qed

theorem handlers_are_functions_witness:
  "\<exists>w tcp. evolves plain_env empty_world w \<and> privates w 0x500 = Some (TCP tcp) \<and> onConnect tcp \<noteq> JSVAL_VOID \<and>
     JSVAL_IS_FUNCTION (env_view plain_env) (onConnect tcp)"
proof -
  obtain w tcp where w: "evolves plain_env empty_world w" "privates w 0x500 = Some (TCP tcp)" "onConnect tcp = 0x1000"
    using script_runs by blast
  have "privates empty_world = Map.empty" by (simp add: empty_world_def)
  from handlers_are_functions [OF w(1) this, of "0x500" tcp] w(2)
  have "onConnect tcp = JSVAL_VOID \<or> JSVAL_IS_FUNCTION (env_view plain_env) (onConnect tcp)" by auto
  moreover have "(0x1000 :: jsval) \<noteq> JSVAL_VOID" by code_simp
  ultimately show ?thesis using w by auto
qed

theorem connecting_never_blocks_witness:
  "\<exists>w tcp. evolves plain_env empty_world w \<and> privates w 0x500 = Some (TCP tcp) \<and> tcp_state tcp = TCPSTATE_CONNECTING \<and> blocking tcp = 0"
proof -
  obtain w tcp where w: "evolves plain_env empty_world w" "privates w 0x500 = Some (TCP tcp)" "tcp_state tcp = TCPSTATE_CONNECTING"
    using script_runs by blast
  have "privates empty_world = Map.empty" by (simp add: empty_world_def)
  from connecting_never_blocks [OF w(1) this w(2,3)] w show ?thesis by blast
qed

end
