(* ===== verification/PS_JSUnit.thy ===== *)
theory PS_JSUnit
  imports PS_World
begin

text \<open>
  The class \<open>JSUnit\<close> (js/src/ext/jsunit.c): a suite of test cases, adding to it, assertions and the
  run with its summary. The list of cases only grows, at its end, so a pointer to a case is its
  index. What is given back to the heap is logged.
\<close>

section \<open>The suite\<close>

datatype result_t = NOT_RUN | PASS | FAIL

text \<open>A name that was never set is \<open>None\<close>.\<close>

record test_case =
  tc_name :: "ptr option"
  tc_func :: jsval
  tc_result :: result_t

record suite =
  suite_name :: "ptr option"
  test :: "nat option"
  cases :: "test_case list"

datatype unit_error = UNIT_NOT_ENOUGH_ARGUMENTS | JSMSG_NOT_FUNCTION | PSMSG_FAILING_TEST_SUITE | PSMSG_NOT_ALL_TEST_CASES_RUN

text \<open>The object's suite, if it has one, what has been printed, reported and freed, and what else scripts work on.\<close>

record 'w unit_world =
  the_suite :: "suite option"
  printed :: "(result_t \<times> ptr) list"
  summaries :: "(nat \<times> nat \<times> nat) list"
  unit_reports :: "unit_error list"
  freed_blocks :: "(test_case + suite) list"
  rest :: 'w

definition unit_report :: "unit_error \<Rightarrow> 'w unit_world \<Rightarrow> 'w unit_world" where
  "unit_report e s = s\<lparr>unit_reports := unit_reports s @ [e]\<rparr>"

definition JSUnit_New :: "bool \<Rightarrow> ptr option \<Rightarrow> suite option" where
  "JSUnit_New mem name = (if \<not> mem then None else Some \<lparr>suite_name = name, test = None, cases = []\<rparr>)"

text \<open>The destructor frees the cases, from the first on, and then the suite; the object is gone afterwards.\<close>

primrec free_cases :: "test_case list \<Rightarrow> 'w unit_world \<Rightarrow> 'w unit_world" where
  "free_cases [] s = s"
| "free_cases (tc # tcs) s = free_cases tcs (s\<lparr>freed_blocks := freed_blocks s @ [Inl tc]\<rparr>)"

definition JSUnit_Delete :: "suite \<Rightarrow> 'w unit_world \<Rightarrow> 'w unit_world" where
  "JSUnit_Delete u s = (let s = free_cases (cases u) s in s\<lparr>freed_blocks := freed_blocks s @ [Inr u]\<rparr>)"

definition JSUnit_DT :: "'w unit_world \<Rightarrow> 'w unit_world" where
  "JSUnit_DT s = (case the_suite s of None \<Rightarrow> s | Some u \<Rightarrow> (JSUnit_Delete u s)\<lparr>the_suite := None\<rparr>)"

text \<open>Nothing is forgotten, and nothing freed twice.\<close>

lemma JSUnit_DT_frees:
  "the_suite s = Some u \<Longrightarrow>
    JSUnit_DT s = s\<lparr>the_suite := None, freed_blocks := freed_blocks s @ map Inl (cases u) @ [Inr u]\<rparr>"
proof -
  have free: "free_cases tcs s = s\<lparr>freed_blocks := freed_blocks s @ map Inl tcs\<rparr>" for tcs and s :: "'a unit_world"
    by (induction tcs arbitrary: s) simp_all
  show "the_suite s = Some u \<Longrightarrow> ?thesis" by (simp add: JSUnit_DT_def JSUnit_Delete_def free)
qed

text \<open>The object of a call without one is new, and not the caller's.\<close>

definition JSUnit_CT :: "bool \<Rightarrow> bool \<Rightarrow> bool \<Rightarrow> jsval list \<Rightarrow> 'w unit_world \<Rightarrow> bool \<times> 'w unit_world" where
  "JSUnit_CT mem objmem has_obj argv s =
     (let name = (if length argv = 1 then Some (JSVAL_TO_GCTHING (argv ! 0)) else None)
      in if \<not> has_obj then (objmem, s) else (True, s\<lparr>the_suite := JSUnit_New mem name\<rparr>))"

definition JSUnit_Add :: "js_env \<Rightarrow> bool \<Rightarrow> jsval list \<Rightarrow> 'w unit_world \<Rightarrow> bool \<times> 'w unit_world" where
  "JSUnit_Add env mem argv s =
     (case the_suite s of
        None \<Rightarrow> (False, s)
      | Some u \<Rightarrow>
          if argv = [] then (False, unit_report UNIT_NOT_ENOUGH_ARGUMENTS s)
          else
            let (name, argv) = (if length argv = 2 then (Some (JSVAL_TO_GCTHING (argv ! 0)), tl argv) else (None, argv))
            in if \<not> JSVAL_IS_FUNCTION (env_view env) (argv ! 0) then (False, unit_report JSMSG_NOT_FUNCTION s)
               else if \<not> mem then (False, s)
               else (True, s\<lparr>the_suite := Some (u\<lparr>cases := cases u @
                       [\<lparr>tc_name = name, tc_func = argv ! 0, tc_result = NOT_RUN\<rparr>]\<rparr>)\<rparr>))"

section \<open>Assertions\<close>

text \<open>\<open>neq\<close> tells whether two doubles differ. Strings are compared as C strings of their bytes.\<close>

definition assert_holds :: "js_env \<Rightarrow> (ptr \<Rightarrow> ptr \<Rightarrow> bool) \<Rightarrow> jsval \<Rightarrow> jsval \<Rightarrow> bool" where
  "assert_holds env neq a b =
     (case JS_TypeOfValue (env_view env) a of
        JSTYPE_NUMBER \<Rightarrow>
          if JSVAL_IS_INT a \<and> JSVAL_IS_INT b then JSVAL_TO_INT a = JSVAL_TO_INT b
          else if JSVAL_IS_DOUBLE a \<and> JSVAL_IS_DOUBLE b then \<not> neq (JSVAL_TO_GCTHING a) (JSVAL_TO_GCTHING b)
          else False
      | JSTYPE_STRING \<Rightarrow>
          if JSVAL_IS_STRING a \<and> JSVAL_IS_STRING b then
            c_bytes (env_bytes env (JSVAL_TO_GCTHING a)) = c_bytes (env_bytes env (JSVAL_TO_GCTHING b))
          else if JSVAL_IS_STRING a \<and> JSVAL_IS_VOID b then c_bytes (env_bytes env (JSVAL_TO_GCTHING a)) = []
          else False
      | JSTYPE_BOOLEAN \<Rightarrow>
          if JSVAL_IS_BOOLEAN a \<and> JSVAL_IS_BOOLEAN b then JSVAL_TO_BOOLEAN a = JSVAL_TO_BOOLEAN b else False
      | _ \<Rightarrow> False)"

text \<open>A failure is recorded in the case that runs; without one the null pointer is written to.\<close>

definition JSUnit_Assert ::
  "js_env \<Rightarrow> (ptr \<Rightarrow> ptr \<Rightarrow> bool) \<Rightarrow> jsval list \<Rightarrow> 'w unit_world \<Rightarrow> (bool \<times> 'w unit_world) option" where
  "JSUnit_Assert env neq argv s =
     (case the_suite s of
        None \<Rightarrow> Some (False, s)
      | Some u \<Rightarrow>
          if length argv < 2 then Some (False, unit_report UNIT_NOT_ENOUGH_ARGUMENTS s)
          else if assert_holds env neq (argv ! 0) (argv ! 1) then Some (True, s)
          else
            (case test u of
               None \<Rightarrow> None
             | Some i \<Rightarrow> Some (True, s\<lparr>the_suite := Some (u\<lparr>cases := (cases u)[i := (cases u ! i)\<lparr>tc_result := FAIL\<rparr>]\<rparr>)\<rparr>)))"

section \<open>Running\<close>

text \<open>\<open>call f s\<close> is the effect of calling \<open>f\<close>, and whether it succeeds.\<close>

definition JSUnit_RunTestCase ::
  "(jsval \<Rightarrow> 'w unit_world \<Rightarrow> (bool \<times> 'w unit_world) option) \<Rightarrow> bool \<Rightarrow> jsval \<Rightarrow> 'w unit_world \<Rightarrow> (bool \<times> 'w unit_world) option" where
  "JSUnit_RunTestCase call stack f s = (if \<not> stack then Some (False, s) else call f s)"

definition set_result :: "nat \<Rightarrow> result_t \<Rightarrow> suite \<Rightarrow> suite" where
  "set_result i r u = u\<lparr>cases := (cases u)[i := (cases u ! i)\<lparr>tc_result := r\<rparr>]\<rparr>"

text \<open>
  The loop over the cases, which may be added to while it runs. Printing a name that was never set
  is undefined, as is going on when a test has taken the suite away.
\<close>

partial_function (option) run_tests ::
  "(jsval \<Rightarrow> 'w unit_world \<Rightarrow> (bool \<times> 'w unit_world) option) \<Rightarrow> bool \<Rightarrow> nat \<Rightarrow> 'w unit_world \<Rightarrow> 'w unit_world option" where
  "run_tests call stack i s =
     (case the_suite s of
        None \<Rightarrow> None
      | Some u \<Rightarrow>
          if length (cases u) \<le> i then Some s
          else
            Option.bind (JSUnit_RunTestCase call stack (tc_func (cases u ! i)) (s\<lparr>the_suite := Some (set_result i PASS (u\<lparr>test := Some i\<rparr>))\<rparr>))
              (\<lambda>(ok, s).
                case the_suite s of
                  None \<Rightarrow> None
                | Some u \<Rightarrow>
                    let u = (if \<not> ok then set_result i FAIL u else u)
                    in case tc_name (cases u ! i) of
                         None \<Rightarrow> None
                       | Some name \<Rightarrow>
                           run_tests call stack (i + 1)
                             (s\<lparr>the_suite := Some u, printed := printed s @ [(tc_result (cases u ! i), name)]\<rparr>)))"

definition JSUnit_Run ::
  "(jsval \<Rightarrow> 'w unit_world \<Rightarrow> (bool \<times> 'w unit_world) option) \<Rightarrow> bool \<Rightarrow> 'w unit_world \<Rightarrow> (bool \<times> 'w unit_world) option" where
  "JSUnit_Run call stack s =
     (case the_suite s of
        None \<Rightarrow> Some (False, s)
      | Some u \<Rightarrow>
          (case run_tests call stack 0 s of
             None \<Rightarrow> None
           | Some s \<Rightarrow>
               (case the_suite s of
                  None \<Rightarrow> None
                | Some u \<Rightarrow>
                    let total = length (cases u);
                        pass = length (filter (\<lambda>tc. tc_result tc = PASS) (cases u));
                        fail = length (filter (\<lambda>tc. tc_result tc = FAIL) (cases u));
                        s = s\<lparr>summaries := summaries s @ [(total, pass, fail)]\<rparr>
                    in Some (if 0 < fail then (False, unit_report PSMSG_FAILING_TEST_SUITE s)
                             else if total \<noteq> pass + fail then (False, unit_report PSMSG_NOT_ALL_TEST_CASES_RUN s)
                             else (True, s)))))"

section \<open>Test functions that assert\<close>

text \<open>A test function makes the assertions \<open>fst (prog f)\<close>, and then succeeds or not by itself.\<close>

fun run_asserts :: "js_env \<Rightarrow> (ptr \<Rightarrow> ptr \<Rightarrow> bool) \<Rightarrow> (jsval \<times> jsval) list \<Rightarrow> 'w unit_world \<Rightarrow> 'w unit_world option" where
  "run_asserts env neq [] s = Some s"
| "run_asserts env neq ((a, b) # as) s = Option.bind (JSUnit_Assert env neq [a, b] s) (\<lambda>(ok, s). run_asserts env neq as s)"

definition asserting ::
  "js_env \<Rightarrow> (ptr \<Rightarrow> ptr \<Rightarrow> bool) \<Rightarrow> (jsval \<Rightarrow> (jsval \<times> jsval) list \<times> bool) \<Rightarrow> jsval \<Rightarrow> 'w unit_world \<Rightarrow> (bool \<times> 'w unit_world) option" where
  "asserting env neq prog f s = map_option (Pair (snd (prog f))) (run_asserts env neq (fst (prog f)) s)"

definition all_hold :: "js_env \<Rightarrow> (ptr \<Rightarrow> ptr \<Rightarrow> bool) \<Rightarrow> (jsval \<times> jsval) list \<Rightarrow> bool" where
  "all_hold env neq as \<longleftrightarrow> (\<forall>(a, b)\<in>set as. assert_holds env neq a b)"

definition verdict :: "js_env \<Rightarrow> (ptr \<Rightarrow> ptr \<Rightarrow> bool) \<Rightarrow> (jsval \<Rightarrow> (jsval \<times> jsval) list \<times> bool) \<Rightarrow> test_case \<Rightarrow> result_t" where
  "verdict env neq prog tc =
     (if snd (prog (tc_func tc)) \<and> all_hold env neq (fst (prog (tc_func tc))) then PASS else FAIL)"

lemma set_result_simps [simp]:
  "test (set_result i r u) = test u" "length (cases (set_result i r u)) = length (cases u)"
  "i < length (cases u) \<Longrightarrow> cases (set_result i r u) ! i = (cases u ! i)\<lparr>tc_result := r\<rparr>"
  "set_result i r (set_result i r' u) = set_result i r u"
  by (cases "i < length (cases u)"; simp add: set_result_def nth_list_update list_update_beyond)+

lemma assert_effect:
  "the_suite s = Some u \<Longrightarrow> test u = Some i \<Longrightarrow> JSUnit_Assert env neq [a, b] s =
     Some (True, if assert_holds env neq a b then s else s\<lparr>the_suite := Some (set_result i FAIL u)\<rparr>)"
  by (simp add: JSUnit_Assert_def set_result_def)

lemma run_asserts_effect:
  "the_suite s = Some u \<Longrightarrow> test u = Some i \<Longrightarrow> run_asserts env neq as s =
     Some (if all_hold env neq as then s else s\<lparr>the_suite := Some (set_result i FAIL u)\<rparr>)"
proof (induction as arbitrary: s u)
  case Nil
  then show ?case by (simp add: all_hold_def)
next
  case (Cons p as)
  obtain a b where p: "p = (a, b)" by fastforce
  show ?case
    using Cons.prems Cons.IH [of s u] Cons.IH [of "s\<lparr>the_suite := Some (set_result i FAIL u)\<rparr>" "set_result i FAIL u"]
    by (simp add: p assert_effect all_hold_def)
qed

text \<open>One case: what it does to the suite, and the result it leaves.\<close>

lemma call_effect:
  fixes s :: "'w unit_world" and env :: js_env and neq :: "ptr \<Rightarrow> ptr \<Rightarrow> bool" and prog :: "jsval \<Rightarrow> (jsval \<times> jsval) list \<times> bool"
  assumes "i < length (cases u)"
  defines "u1 \<equiv> set_result i PASS (u\<lparr>test := Some i\<rparr>)"
  shows "asserting env neq prog (tc_func (cases u ! i)) (s\<lparr>the_suite := Some u1\<rparr>) =
    Some (snd (prog (tc_func (cases u ! i))),
      s\<lparr>the_suite := Some (if all_hold env neq (fst (prog (tc_func (cases u ! i)))) then u1 else set_result i FAIL u1)\<rparr>)"
  using run_asserts_effect [of "s\<lparr>the_suite := Some u1\<rparr>" u1 i env neq "fst (prog (tc_func (cases u ! i)))"] assms(1)
  by (simp add: asserting_def u1_def)

lemma run_case:
  fixes s :: "'w unit_world" and env :: js_env and neq :: "ptr \<Rightarrow> ptr \<Rightarrow> bool" and prog :: "jsval \<Rightarrow> (jsval \<times> jsval) list \<times> bool"
  assumes "the_suite s = Some u" "i < length (cases u)"
  defines "v \<equiv> verdict env neq prog (cases u ! i)"
  shows "run_tests (asserting env neq prog) True i s =
    (case tc_name (cases u ! i) of
       None \<Rightarrow> None
     | Some name \<Rightarrow> run_tests (asserting env neq prog) True (i + 1)
         (s\<lparr>the_suite := Some (set_result i v (u\<lparr>test := Some i\<rparr>)), printed := printed s @ [(v, name)]\<rparr>))"
proof -
  define u1 where "u1 = set_result i PASS (u\<lparr>test := Some i\<rparr>)"
  have "i < length (cases u1)" "tc_func (cases u ! i) = tc_func (cases u1 ! i)" "tc_name (cases u1 ! i) = tc_name (cases u ! i)"
    "set_result i r u1 = set_result i r (u\<lparr>test := Some i\<rparr>)" "cases u1 ! i = (cases u ! i)\<lparr>tc_result := PASS\<rparr>" for r
    using assms(2) by (simp_all add: u1_def)
  then show ?thesis
    using assms(1,2) call_effect [OF assms(2), of env neq prog s, folded u1_def]
    by (subst run_tests.simps)
      (auto simp: JSUnit_RunTestCase_def u1_def [symmetric] v_def verdict_def Let_def split: option.split)
qed

lemma run_tests_prefix:
  "the_suite s = Some u \<Longrightarrow> cases u = past @ todo @ later \<Longrightarrow> \<forall>tc\<in>set todo. tc_name tc \<noteq> None \<Longrightarrow>
    \<exists>t. run_tests (asserting env neq prog) True (length past) s = run_tests (asserting env neq prog) True (length past + length todo)
      (s\<lparr>the_suite := Some (u\<lparr>test := t, cases := past @ map (\<lambda>tc. tc\<lparr>tc_result := verdict env neq prog tc\<rparr>) todo @ later\<rparr>),
         printed := printed s @ map (\<lambda>tc. (verdict env neq prog tc, the (tc_name tc))) todo\<rparr>)"
proof (induction todo arbitrary: s u past)
  case Nil
  then have "s\<lparr>the_suite := Some (u\<lparr>test := test u, cases := past @ later\<rparr>), printed := printed s\<rparr> = s" by simp
  then show ?case by (auto intro!: exI [of _ "test u"])
next
  case (Cons tc todo)
  obtain name where name: "tc_name tc = Some name" using Cons.prems(3) by auto
  let ?v = "verdict env neq prog tc" and ?i = "length past"
  define u1 where "u1 = set_result ?i ?v (u\<lparr>test := Some ?i\<rparr>)"
  define s1 where "s1 = s\<lparr>the_suite := Some u1, printed := printed s @ [(?v, name)]\<rparr>"
  have "run_tests (asserting env neq prog) True ?i s = run_tests (asserting env neq prog) True (?i + 1) s1"
    using run_case [of s u ?i env neq prog] Cons.prems(1,2) name by (simp add: s1_def u1_def nth_append)
  moreover have "cases u1 = (past @ [tc\<lparr>tc_result := ?v\<rparr>]) @ todo @ later" "the_suite s1 = Some u1"
    using Cons.prems(2) by (simp_all add: u1_def s1_def set_result_def)
  moreover have "u1\<lparr>test := t, cases := cs\<rparr> = u\<lparr>test := t, cases := cs\<rparr>" for t cs by (simp add: u1_def set_result_def)
  ultimately show ?case
    using Cons.IH [of s1 u1 "past @ [tc\<lparr>tc_result := ?v\<rparr>]"] Cons.prems(3) name by (simp add: s1_def)
qed

lemma run_tests_effect:
  assumes "the_suite s = Some u" "\<forall>tc\<in>set (cases u). tc_name tc \<noteq> None"
  shows "\<exists>t. run_tests (asserting env neq prog) True 0 s =
      Some (s\<lparr>the_suite := Some (u\<lparr>test := t, cases := map (\<lambda>tc. tc\<lparr>tc_result := verdict env neq prog tc\<rparr>) (cases u)\<rparr>),
              printed := printed s @ map (\<lambda>tc. (verdict env neq prog tc, the (tc_name tc))) (cases u)\<rparr>)"
  using run_tests_prefix [of s u "[]" "cases u" "[]" env neq prog] assms by (auto simp: run_tests.simps [of _ _ "length (cases u)"])

section \<open>Properties\<close>

text \<open>
  C12: Running a suite of named tests runs them all, in the order they were added. A test passes if
  its function succeeds and all its assertions hold. The summary counts them, and the run succeeds
  if every test does; otherwise it reports a failing suite.
\<close>

theorem jsunit_run_verdict:
  fixes s :: "'w unit_world" and env :: js_env and neq :: "ptr \<Rightarrow> ptr \<Rightarrow> bool" and prog :: "jsval \<Rightarrow> (jsval \<times> jsval) list \<times> bool"
  assumes "the_suite s = Some u" "\<forall>tc\<in>set (cases u). tc_name tc \<noteq> None"
  defines "vs \<equiv> map (verdict env neq prog) (cases u)"
  shows "\<exists>s'. JSUnit_Run (asserting env neq prog) True s = Some (\<forall>v\<in>set vs. v = PASS, s') \<and>
    printed s' = printed s @ zip vs (map (the \<circ> tc_name) (cases u)) \<and>
    summaries s' = summaries s @ [(length vs, count_list vs PASS, count_list vs FAIL)] \<and>
    unit_reports s' = unit_reports s @ (if \<forall>v\<in>set vs. v = PASS then [] else [PSMSG_FAILING_TEST_SUITE])"
proof -
  let ?v = "verdict env neq prog"
  define cs where "cs = map (\<lambda>tc. tc\<lparr>tc_result := ?v tc\<rparr>) (cases u)"
  have zip: "map (\<lambda>tc. (?v tc, the (tc_name tc))) cs = zip (map ?v cs) (map (the \<circ> tc_name) cs)" for cs by (induction cs) auto
  obtain t where run: "run_tests (asserting env neq prog) True 0 s =
      Some (s\<lparr>the_suite := Some (u\<lparr>test := t, cases := cs\<rparr>), printed := printed s @ zip vs (map (the \<circ> tc_name) (cases u))\<rparr>)"
    using run_tests_effect [OF assms(1,2), of env neq prog] by (auto simp: cs_def vs_def zip)
  have "length (filter (\<lambda>tc. tc_result tc = r) (map (\<lambda>tc. tc\<lparr>tc_result := ?v tc\<rparr>) tcs)) = count_list (map ?v tcs) r" for r tcs
    by (induction tcs) auto
  from this [of _ "cases u", folded cs_def vs_def]
  have counts: "length (filter (\<lambda>tc. tc_result tc = r) cs) = count_list vs r" for r .
  have "length tcs = count_list (map ?v tcs) PASS + count_list (map ?v tcs) FAIL" for tcs by (induction tcs) (auto simp: verdict_def)
  from this [of "cases u"] have sum: "length cs = count_list vs PASS + count_list vs FAIL" "length cs = length vs"
    by (simp_all add: cs_def vs_def)
  have "count_list (map ?v tcs) FAIL = 0 \<longleftrightarrow> (\<forall>v\<in>set (map ?v tcs). v = PASS)" for tcs by (induction tcs) (auto simp: verdict_def)
  from this [of "cases u"] have fail: "count_list vs FAIL = 0 \<longleftrightarrow> (\<forall>v\<in>set vs. v = PASS)" unfolding vs_def .
  have run': "JSUnit_Run (asserting env neq prog) True s =
      (let s = s\<lparr>the_suite := Some (u\<lparr>test := t, cases := cs\<rparr>), printed := printed s @ zip vs (map (the \<circ> tc_name) (cases u)),
                 summaries := summaries s @ [(length vs, count_list vs PASS, count_list vs FAIL)]\<rparr>
       in Some (if 0 < count_list vs FAIL then (False, unit_report PSMSG_FAILING_TEST_SUITE s) else (True, s)))"
    using sum counts [of PASS] counts [of FAIL]
    by (simp add: JSUnit_Run_def assms(1) run Let_def del: length_greater_0_conv)
  show ?thesis
    using fail unfolding run' by (auto simp: Let_def unit_report_def)
qed

text \<open>A suite with two tests, of one assertion each; the second one fails.\<close>

definition two_tests :: "unit unit_world" where
  "two_tests = \<lparr>the_suite = Some \<lparr>suite_name = None, test = None, cases =
       [\<lparr>tc_name = Some 1, tc_func = 0x1000, tc_result = NOT_RUN\<rparr>, \<lparr>tc_name = Some 2, tc_func = 0x2000, tc_result = NOT_RUN\<rparr>]\<rparr>,
     printed = [], summaries = [], unit_reports = [], freed_blocks = [], rest = ()\<rparr>"

definition unit_env :: js_env where
  "unit_env = \<lparr>env_view = (\<lambda>p. \<lparr>obj_ops_of = js_ObjectOps, clasp = js_FunctionClass, clasp_call = False\<rparr>),
     env_bytes = (\<lambda>p. []), env_int = (\<lambda>p. None)\<rparr>"

lemma assert_ints:
  "assert_holds env neq 5 5" "\<not> assert_holds env neq 5 7"
proof -
  have "\<not> JSVAL_IS_OBJECT 5" "JSVAL_IS_NUMBER 5" "JSVAL_IS_INT 5" "JSVAL_IS_INT 7" "JSVAL_TO_INT 5 \<noteq> JSVAL_TO_INT 7" by code_simp+
  then show "assert_holds env neq 5 5" "\<not> assert_holds env neq 5 7" by (simp_all add: assert_holds_def JS_TypeOfValue_def)
qed

theorem jsunit_run_verdict_witness:
  "\<exists>s'. JSUnit_Run (asserting unit_env (\<lambda>a b. True) (\<lambda>f. if f = 0x1000 then ([(5, 5)], True) else ([(5, 7)], True))) True two_tests = Some (False, s') \<and>
     printed s' = [(PASS, 1), (FAIL, 2)] \<and> summaries s' = [(Suc 1, 1, 1)] \<and> unit_reports s' = [PSMSG_FAILING_TEST_SUITE]"
  using jsunit_run_verdict [of two_tests _ unit_env "\<lambda>a b. True" "\<lambda>f. if f = 0x1000 then ([(5, 5)], True) else ([(5, 7)], True)"]
  by (simp add: two_tests_def verdict_def all_hold_def assert_ints)

text \<open>
  The name of a test is optional, but a test added without one has none that is set, and the
  run that comes to print it has no defined behaviour.
\<close>

theorem jsunit_unnamed_test_undefined:
  assumes "the_suite s = Some u" "\<forall>tc\<in>set (cases u). tc_name tc \<noteq> None" "JSVAL_IS_FUNCTION (env_view env) f"
  shows "\<exists>s1. JSUnit_Add env True [f] s = (True, s1) \<and> JSUnit_Run (asserting env neq prog) True s1 = None"
proof -
  define tc where "tc = \<lparr>tc_name = None, tc_func = f, tc_result = NOT_RUN\<rparr>"
  define u1 where "u1 = u\<lparr>cases := cases u @ [tc]\<rparr>"
  define s1 where "s1 = s\<lparr>the_suite := Some u1\<rparr>"
  have add: "JSUnit_Add env True [f] s = (True, s1)" using assms(1,3) by (simp add: JSUnit_Add_def s1_def u1_def tc_def)
  have s1: "the_suite s1 = Some u1" "cases u1 = [] @ cases u @ [tc]" by (simp_all add: s1_def u1_def)
  obtain t where "run_tests (asserting env neq prog) True 0 s1 = run_tests (asserting env neq prog) True (length (cases u))
      (s1\<lparr>the_suite := Some (u1\<lparr>test := t, cases := map (\<lambda>tc. tc\<lparr>tc_result := verdict env neq prog tc\<rparr>) (cases u) @ [tc]\<rparr>),
         printed := printed s1 @ map (\<lambda>tc. (verdict env neq prog tc, the (tc_name tc))) (cases u)\<rparr>)"
    using run_tests_prefix [OF s1 assms(2), of env neq prog] by auto
  also have "\<dots> = None" by (subst run_case) (auto simp: nth_append tc_def)
  finally show ?thesis using add s1(1) by (auto simp: JSUnit_Run_def)
qed

theorem jsunit_unnamed_test_undefined_witness:
  "\<exists>s1. JSUnit_Add unit_env True [0x3000] two_tests = (True, s1) \<and>
     JSUnit_Run (asserting unit_env (\<lambda>a b. True) (\<lambda>f. ([], True))) True s1 = None"
proof -
  have "\<not> JSVAL_IS_PRIMITIVE 0x3000" by code_simp
  then have "JSVAL_IS_FUNCTION (env_view unit_env) 0x3000" by (simp add: JSVAL_IS_FUNCTION_def unit_env_def)
  from jsunit_unnamed_test_undefined [OF _ _ this, of two_tests] show ?thesis by (simp add: two_tests_def)
qed

end
