(* ===== verification/PS_System.thy ===== *)
theory PS_System
  imports PS_World
begin

text \<open>
  The object \<open>System\<close> (js/src/ext/pssystem.c): where \<open>include\<close> looks for a script. A path is kept
  in a buffer of 255 bytes, which \<open>strlcpy\<close> and \<open>strlcat\<close> fill as far as there is room.
\<close>

definition strlcpy :: "u8 list \<Rightarrow> nat \<Rightarrow> u8 list" where "strlcpy src n = take (n - 1) src"

definition strlcat :: "u8 list \<Rightarrow> u8 list \<Rightarrow> nat \<Rightarrow> u8 list" where
  "strlcat dst src n = dst @ take (n - 1 - length dst) src"

text \<open>
  \<open>name\<close> is the argument's string, which is used even if the argument could not be converted;
  \<open>stat\<close> tells whether a file exists, and \<open>gModulePath\<close> may not be set. The result is the path
  given to \<open>Process\<close>, or \<open>None\<close> for the error \<open>PSMSG_INVALID_NAME\<close>.
\<close>

definition System_Include :: "(u8 list \<Rightarrow> bool) \<Rightarrow> u8 list option \<Rightarrow> u8 list option \<Rightarrow> u8 list option option" where
  "System_Include stat gModulePath name =
     (case name of
        None \<Rightarrow> None
      | Some name \<Rightarrow>
          let path = strlcpy name 255
          in Some (if stat path then Some path
                   else (case gModulePath of
                           None \<Rightarrow> None
                         | Some m \<Rightarrow>
                             let path = strlcat (strlcat (strlcpy m 255) [0x2F] 255) name 255
                             in if stat path then Some path else None)))"

lemma strlcat_take: "strlcat (take (n - 1) a) b n = take (n - 1) (a @ b)"
  by (auto simp: strlcat_def min_def)

text \<open>
  A script is looked for under its name, and then in the module path, and the file that is run
  is the one found; of both only the first 254 bytes count, so a longer name is that of another file.
\<close>

theorem system_include_path:
  "System_Include stat gModulePath (Some name) = Some
     (let here = take 254 name; there = map_option (\<lambda>m. take 254 (m @ [0x2F] @ name)) gModulePath
      in if stat here then Some here else if (\<exists>p. there = Some p \<and> stat p) then there else None)"
proof -
  have "strlcat (strlcat (take 254 m) [0x2F] 255) name 255 = take 254 (m @ [0x2F] @ name)" for m
    using strlcat_take [of 255 m "[0x2F]"] strlcat_take [of 255 "m @ [0x2F]" name] by simp
  then show ?thesis by (auto simp: System_Include_def strlcpy_def Let_def split: option.split)
qed

end
