(* ===== verification/Spec2Isabelle.thy ===== *)
theory Spec2Isabelle
  imports
    JS_Prelude JS_Bits JS_DHash JS_DHash_Map JS_DHash_Ops JS_GCRoots JS_Resolving JS_LocalRoots
    JS_Hash JS_ScriptNames JS_StringCache
    JS_Utf8 JS_Uri JS_Long64 JS_Number JS_Strings JS_Printf JS_Xdr JS_XdrClasses
    JS_Sort JS_Array JS_ArraySort JS_ArraySafety
    JS_Date JS_DateObject JS_DateParse JS_DateText
    PS_Select PS_World PS_TCPSocket PS_UDPSocket PS_Events PS_Safety PS_JSUnit PS_System
begin

text \<open>
  \<^bold>\<open>The program.\<close> ProntoScript is a JavaScript 1.6 engine for running the scripts of Pronto remote
  controls: SpiderMonkey (js/src) with an asynchronous core and four classes of its own
  (js/src/ext). The extension adds sockets whose connections and data arrive as calls of script
  functions; its heart is a list of file descriptors to wait for (psselect.c), which the socket classes
  (pstcpsocket.c, psudpsocket.c) add to and remove from, and which \<open>js_Execute\<close> (jsinterp.c) and
  the unit test class (jsunit.c) serve in a loop until the list is empty. The engine below provides
  hash tables, root and lock tables for the collector, strings in UTF-16, 8-bit and UTF-8, serialization
  (XDR), formatted output and the standard classes.

  This development translates those parts whose logic is their own, one group of definitions per
  C function under the function's name, and proves what makes them correct. The properties are the
  theorems with a numbered text before them.

  \<^bold>\<open>How C is read.\<close> A machine integer is a word of its width wherever wrapping or its bits
  matter (\<open>u8\<close>, \<open>u16\<close>, \<open>u32\<close> of JS_Prelude); a signed \<open>int\<close> or \<open>jsint\<close> whose overflow C leaves undefined
  is an \<open>int\<close> with an explicit range test (\<open>jsint\<close> of JS_Date, \<open>jsint_sum\<close> of JS_Strings). A struct is a
  record, an enum a datatype, an array or buffer a list, memory that is aliased a map from addresses.
  What has no defined behaviour (a read outside of a buffer, a null pointer followed, an overflow, a
  cast out of range) is \<open>None\<close>; a failure of the code is a value inside. A loop is a recursive
  function with a termination proof where it ends for structural reasons. Where it may not end
  (\<open>search_loop\<close>, \<open>remove_loop\<close>, \<open>walk\<close>, \<open>sift_down\<close>, \<open>bmh_search\<close>, \<open>plain_search\<close>, \<open>search_back\<close>,
  \<open>mark_loop\<close>, \<open>run_tests\<close>) it is a \<open>partial_function (option)\<close>, and the theorems state that it
  returns. No definition has fuel. Only the two loops over rounds of waiting take a list with one
  entry for each round, what the system answers in it; this is a parameter and not a bound.

  Code outside of src/ is a parameter: the answers of system calls (\<open>select\<close>, \<open>connect\<close>, \<open>recv\<close>, the
  resolver), the allocator (one yes or no for each request, or a predicate \<open>am\<close> of the number of bytes),
  the system's \<open>sprintf\<close> of doubles, zone and daylight saving of \<open>localtime\<close>. Parts of the
  engine that are not modelled, but called, are parameters too: calling a script function
  (\<open>invoke\<close>, a \<open>compare_function\<close>), which may change the state of the model; converting a
  value to a string; the classes of objects; coding an object in XDR.

  \<^bold>\<open>Events and sockets.\<close>
  \<^item> PS_Select, psselect.c. The state is \<open>select_state\<close>: a store of events, the head of the list, and a
    flag \<open>bad\<close> for uses of freed memory. \<open>ps_AddSelect\<close>, \<open>ps_RemoveSelect\<close> and \<open>ps_HandleSelect\<close> are translated
    with their pointer writes; time is a pair of seconds and nanoseconds. The abstract view is a list of
    events (\<open>wf_select\<close>): adding refines consing, removing the first event refines deletion, removing an inner one
    does not, and one round takes the time off all timeouts and calls exactly the callbacks that are
    due.
  \<^item> PS_World: values, private data and the world \<open>ps_world\<close>, which extends \<open>select_state\<close> with the objects and
    logs of system calls, errors and script calls; \<open>JS_TypeOfValue\<close> of jsapi.c.
  \<^item> PS_TCPSocket, PS_UDPSocket: property setters, constructor, finalizer, methods and the callbacks of
    the events. \<open>read_loop\<close> and \<open>udp_receive\<close> are the loops over \<open>recv\<close>; the lemmas say which
    bytes are returned for each way in which they arrive.
  \<^item> PS_Events: the loop of \<open>js_Execute\<close> and \<open>JSUnit_Events\<close> with the sockets' callbacks; whole sessions
    from connecting to closing, failing attempts, and what collecting a waiting socket leaves behind.
    These are stated of a list with one socket and handlers that leave sockets and list alone
    (\<open>sole\<close>, \<open>quiet\<close>), because removing an inner event is defective.
  \<^item> PS_Safety: everything scripts can do, as the relation \<open>evolves\<close>, and the locale \<open>socket_invariant\<close> of
    what an invariant of the private data has to satisfy, interpreted for two invariants.
  \<^item> PS_JSUnit, PS_System: test suites with their verdict, and the path that \<open>include\<close> uses.

  \<^bold>\<open>Tables.\<close>
  \<^item> JS_Bits (jslog2.c): both logarithms, which the tables use for their sizes.
  \<^item> JS_DHash, JS_DHash_Map, JS_DHash_Ops (jsdhash.c): the double-hashing table with removed and
    collision marks. The locale \<open>dh_client\<close> is the contract of the virtual operations; in it each public
    operation is shown to return, to keep \<open>dh_inv\<close> and to do to the map \<open>dh_map\<close> what it is for. It is
    interpreted for the stub operations, for string keys and in JS_Resolving.
  \<^item> JS_GCRoots (jsgc.c) and JS_Resolving (jscntxt.c): clients of that table, for roots and
    lock counts and for the properties that are being resolved.
  \<^item> JS_Hash (jshash.c): the chained table, with the locale \<open>hash_client\<close>, interpreted for C strings
    and in JS_StringCache; JS_ScriptNames (jsscript.c): saved file names and prefixes;
    JS_StringCache (jsstr.c): the bytes of strings; JS_XdrClasses (jsxdrapi.c): the class registry.
    The tables' sizes are bounded by 2^30 entries where counts are 32-bit words.
  \<^item> JS_LocalRoots (jscntxt.c): the stack of local roots in chunks of 256 values, refining a list of
    scopes (\<open>represents\<close>).

  \<^bold>\<open>Strings and numbers.\<close>
  \<^item> JS_Utf8, JS_Uri (jsstr.c): UTF-8 of one character and of strings, in two passes as in the code;
    Encode and Decode of URIs. Round trips, and reading in bounds for arbitrary input. The
    decoder replaces U+FFFE and U+FFFF by U+FFFD, which the round trip of strings says.
  \<^item> JS_Strings (jsstr.c): comparison, \<open>js_BoyerMooreHorspool\<close>, \<open>indexOf\<close>, \<open>lastIndexOf\<close>, and the methods
    that cut. Indices are \<open>jsint\<close>s; \<open>returned_index\<close> is the 31 bits that \<open>INT_TO_JSVAL\<close> keeps, so
    searching is stated for strings below 2^30 characters.
  \<^item> JS_Long64 (jslong.h, jslong.c): 64-bit integers as pairs of words, with Knuth's division by
    halves, against the machine's 64-bit words. JS_Number (jsnum.c): doubles to integers.
  \<^item> JS_Printf (jsprf.c): the loop over a format, \<open>BuildArgArray\<close> for numbered arguments, the conversions
    and the three output routines. The locale \<open>output_routine\<close> says that a routine
    takes the bytes in order and is interpreted for all three: \<open>LimitStuff\<close>, \<open>GrowStuff\<close> and
    \<open>FuncStuff\<close>, whose total wraps at 32 bits.
  \<^item> JS_Xdr (jsxdrapi.c): the memory stream and the coding of values in both directions and in both byte orders;
    round trip, and staying inside the block for arbitrary data with length fields below the limit.

  \<^bold>\<open>Arrays.\<close>
  \<^item> JS_Array (jsarray.c): the methods on an array of plain elements, a 32-bit length and a map from
    indices, refining lists of values and holes (\<open>repr\<close>). JS_ArraySafety: the length is above all
    indices after anything a script does (\<open>scripted\<close>).
  \<^item> JS_Sort: the heap sort, for a comparator with a state that may be inconsistent: it ends, stays inside
    the vector and permutes. The locale \<open>consistent_comparator\<close> adds order, and is interpreted in JS_ArraySort
    for both comparators of the sort method, which may change the array while it is sorted.

  \<^bold>\<open>Dates\<close> (jsdate.c).
  \<^item> JS_Date: days, years, months and times of a day in rational arithmetic. Within the range of dates the
    code's doubles are integers below 2^53 or quotients whose floor is exact. Fields and times correspond one to one
    (\<open>civil_time\<close>).
  \<^item> JS_DateObject: constructor, getters, setters. JS_DateParse: the scanner of date strings. JS_DateText: the text of dates,
    through JS_Printf and JS_Utf8, and that parsing gives the date back.
    Local time is that of a zone whose offset never changes (\<open>steady\<close>) where a property needs one.

  \<^bold>\<open>What is not modelled.\<close> Scanner, parser, emitter and interpreter of the language work on
  the whole state of the engine and on each other; objects, scopes, functions, the mark and sweep of the collector,
  regular expressions and XML rest on them. The conversion of doubles (jsdtoa.c) and fdlibm are
  third-party code; the shell, editline, LiveConnect, PerlConnect and the debugger are bindings or
  input and output. Locks and the other code of the thread-safe build, statistics (JS_DHASHMETER,
  HASHMETER) and assertions of debug builds are left out, as are functions that only register a class
  or report an error. Within the modelled files the notes of the manifest list what is left out.
\<close>

end
